(* ===== verification/Prelude.thy ===== *)
theory Prelude
  imports Main "HOL-Library.Monad_Syntax" "HOL-Library.Multiset"
begin

text \<open>
  What every component theory shares: the model of C++ failure (undefined behaviour, a failed
  assert and an out-of-range access are the value None), checked signed arithmetic at its width,
  checked vector access, and the lemmas that discharge those checks.
\<close>

section \<open>Failure and checked machine arithmetic\<close>

type_synonym 'a ub = "'a option"

abbreviation INT_MAX :: int where
  "INT_MAX \<equiv> 2147483647"

abbreviation INT_MIN :: int where
  "INT_MIN \<equiv> - 2147483648"

abbreviation LONG_MAX :: int where
  "LONG_MAX \<equiv> 9223372036854775807"

definition in_int :: "int \<Rightarrow> bool" where
  "in_int x \<longleftrightarrow> INT_MIN \<le> x \<and> x \<le> INT_MAX"

definition chk :: "int \<Rightarrow> int ub" where
  "chk x = (if in_int x then Some x else None)"

definition chk_long :: "int \<Rightarrow> int ub" where
  "chk_long x = (if - LONG_MAX - 1 \<le> x \<and> x \<le> LONG_MAX then Some x else None)"

definition guard :: "bool \<Rightarrow> unit ub" where
  "guard b = (if b then Some () else None)"

section \<open>Vectors indexed by int\<close>

definition vget :: "'a list \<Rightarrow> int \<Rightarrow> 'a ub" where
  "vget xs i = (if 0 \<le> i \<and> i < int (length xs) then Some (xs ! nat i) else None)"

definition vset :: "'a list \<Rightarrow> int \<Rightarrow> 'a \<Rightarrow> 'a list ub" where
  "vset xs i x = (if 0 \<le> i \<and> i < int (length xs) then Some (xs[nat i := x]) else None)"

definition vswap :: "'a list \<Rightarrow> int \<Rightarrow> int \<Rightarrow> 'a list ub" where
  "vswap xs i j = do {
     a \<leftarrow> vget xs i;
     b \<leftarrow> vget xs j;
     ys \<leftarrow> vset xs i b;
     vset ys j a }"

section \<open>Decimal printing (std::to_string)\<close>

fun digits_rev :: "nat \<Rightarrow> string" where
  "digits_rev n = (if n < 10 then [char_of (48 + n)] else char_of (48 + n mod 10) # digits_rev (n div 10))"

definition show_nat :: "nat \<Rightarrow> string" where
  "show_nat n = rev (digits_rev n)"

definition show_int :: "int \<Rightarrow> string" where
  "show_int i = (if i < 0 then CHR ''-'' # show_nat (nat (- i)) else show_nat (nat i))"

declare digits_rev.simps [simp del]

named_theorems ub_simps \<open>rules that discharge the checks of the failure model\<close>

declare Option.bind_cong [fundef_cong]

section \<open>Lemmas\<close>

lemma chk_Some [ub_simps]: "INT_MIN \<le> x \<Longrightarrow> x \<le> INT_MAX \<Longrightarrow> chk x = Some x"
  by (simp add: chk_def in_int_def)

lemma chk_eq_Some_iff: "chk x = Some y \<longleftrightarrow> y = x \<and> in_int x"
  by (auto simp: chk_def)

lemma chk_long_Some [ub_simps]: "- LONG_MAX - 1 \<le> x \<Longrightarrow> x \<le> LONG_MAX \<Longrightarrow> chk_long x = Some x"
  by (simp add: chk_long_def)

lemma guard_bind [simp]: "(guard b \<bind> f) = (if b then f () else None)"
  by (simp add: guard_def)

lemma guard_Some [simp]: "guard b = Some u \<longleftrightarrow> b"
  by (simp add: guard_def)

lemma vget_in [ub_simps]: "0 \<le> i \<Longrightarrow> i < int (length xs) \<Longrightarrow> vget xs i = Some (xs ! nat i)"
  by (simp add: vget_def)

lemma vget_int [simp]: "vget xs (int k) = (if k < length xs then Some (xs ! k) else None)"
  by (simp add: vget_def)

lemma vget_eq_Some: "vget xs i = Some x \<longleftrightarrow> 0 \<le> i \<and> i < int (length xs) \<and> x = xs ! nat i"
  by (auto simp: vget_def)

lemma vset_in [ub_simps]: "0 \<le> i \<Longrightarrow> i < int (length xs) \<Longrightarrow> vset xs i x = Some (xs[nat i := x])"
  by (simp add: vset_def)

lemma vset_int [simp]: "vset xs (int k) x = (if k < length xs then Some (xs[k := x]) else None)"
  by (simp add: vset_def)

lemma vset_eq_Some: "vset xs i x = Some ys \<longleftrightarrow> 0 \<le> i \<and> i < int (length xs) \<and> ys = xs[nat i := x]"
  by (auto simp: vset_def)

lemma vswap_in [ub_simps]:
  "0 \<le> i \<Longrightarrow> i < int (length xs) \<Longrightarrow> 0 \<le> j \<Longrightarrow> j < int (length xs) \<Longrightarrow>
   vswap xs i j = Some (xs[nat i := xs ! nat j, nat j := xs ! nat i])"
  by (simp add: vswap_def ub_simps)

lemma mset_list_swap:
  "i < length xs \<Longrightarrow> j < length xs \<Longrightarrow> mset (xs[i := xs ! j, j := xs ! i]) = mset xs"
  by (rule mset_swap)

lemma bind_Some_conv: "(m \<bind> f) = Some y \<longleftrightarrow> (\<exists>x. m = Some x \<and> f x = Some y)"
  by (cases m) auto

lemma show_nat_nonempty: "show_nat n \<noteq> []"
  by (simp add: show_nat_def digits_rev.simps [of n])

lemma digits_rev_are_digits: "set (digits_rev n) \<subseteq> char_of ` {48..<58::nat}"
proof (induction n rule: digits_rev.induct)
  case (1 n)
  show ?case
  proof (cases "n < 10")
    case True
    then show ?thesis by (auto simp: digits_rev.simps [of n] intro!: imageI)
  next
    case False
    then show ?thesis using 1 by (auto simp: digits_rev.simps [of n] intro!: imageI)
  qed
qed

lemma show_nat_digits: "set (show_nat n) \<subseteq> char_of ` {48..<58::nat}"
  using digits_rev_are_digits by (simp add: show_nat_def)

lemma map_upt_nth_eq: "(\<forall>i < length xs. f i = xs ! i) \<Longrightarrow> map f [0..<length xs] = xs"
  by (rule nth_equalityI) auto

lemma sum_list_update_int: "i < length xs \<Longrightarrow> sum_list (xs[i := y]) = sum_list xs + y - (xs ! i :: int)"
proof (induction xs arbitrary: i)
  case (Cons x xs)
  then show ?case by (cases i) auto
qed simp

lemma sum_list_map_update:
  "i < length xs \<Longrightarrow> sum_list (map f (xs[i := y])) + (f (xs ! i) :: nat) = sum_list (map f xs) + f y"
proof (induction xs arbitrary: i)
  case (Cons x xs)
  then show ?case by (cases i) (auto simp: add.assoc)
qed simp

text \<open>The sum of the weights of a list's elements, for counting threads by what they do.\<close>

definition weigh :: "('a \<Rightarrow> nat) \<Rightarrow> 'a list \<Rightarrow> nat" where
  "weigh f xs = sum_list (map f xs)"

lemma weigh_update: "i < length xs \<Longrightarrow> weigh f (xs[i := y]) + f (xs ! i) = weigh f xs + f y"
  by (simp add: weigh_def sum_list_map_update)

lemma weigh_0_iff: "weigh f xs = 0 \<longleftrightarrow> (\<forall>x \<in> set xs. f x = 0)"
  by (simp add: weigh_def)

lemma weigh_ge: "i < length xs \<Longrightarrow> f (xs ! i) \<le> weigh f xs"
  by (simp add: weigh_def member_le_sum_list)

lemma weigh_two:
  assumes "i < length xs" "j < length xs" "i \<noteq> j"
  shows "f (xs ! i) + f (xs ! j) \<le> weigh f xs"
proof -
  have "(\<Sum>k \<in> {i, j}. f (xs ! k)) \<le> (\<Sum>k = 0..<length xs. f (xs ! k))"
    using assms by (intro sum_mono2) auto
  then show ?thesis using assms by (simp add: weigh_def sum_list_sum_nth)
qed

text \<open>When one element carries the whole weight, replacing it leaves no other element with a weight.\<close>

lemma weigh_others:
  assumes "weigh f xs = f (xs ! i)" "i < length xs" "y \<in> set (xs[i := z])" "f y \<noteq> 0"
  shows "y = z"
proof (rule ccontr)
  assume "y \<noteq> z"
  obtain j where j: "j < length xs" "xs[i := z] ! j = y"
    using assms(3) by (metis in_set_conv_nth length_list_update)
  then have "j \<noteq> i" using \<open>y \<noteq> z\<close> assms(2) by auto
  then have "xs ! j = y" using j by simp
  then show False using weigh_two [OF assms(2) j(1), of f] \<open>j \<noteq> i\<close> assms(1,4) by simp
qed

text \<open>A log of keyed entries whose entries per key are those of a list of lists.\<close>

lemma length_by_key:
  "set (map fst ps) \<subseteq> {..<m} \<Longrightarrow> length ps = sum_list (map (\<lambda>i. length (filter (\<lambda>x. fst x = i) ps)) [0..<m])"
proof (induction ps)
  case (Cons p ps)
  have "sum_list (map (\<lambda>i. if fst p = i then Suc (f i) else f i) [0..<m]) =
      sum_list (map f [0..<m]) + (if fst p < m then 1 else 0)" for f m
    by (induction m) auto
  then show ?case using Cons by (simp add: if_distrib [where f = length] cong: if_cong)
qed simp

lemma by_key_length_append:
  assumes "set (map fst ps) \<subseteq> {..<length xss}"
    and "\<And>i. i < length xss \<Longrightarrow> map snd (filter (\<lambda>x. fst x = i) ps) @ f i = xss ! i"
  shows "length ps + sum_list (map (length \<circ> f) [0..<length xss]) = sum_list (map length xss)"
proof -
  have "map length xss = map (\<lambda>i. length (filter (\<lambda>x. fst x = i) ps) + (length \<circ> f) i) [0..<length xss]"
  proof (rule nth_equalityI)
    fix i assume "i < length (map length xss)"
    then show "map length xss ! i = map (\<lambda>i. length (filter (\<lambda>x. fst x = i) ps) + (length \<circ> f) i) [0..<length xss] ! i"
      using arg_cong [OF assms(2) [of i], of length] by simp
  qed simp
  then show ?thesis using length_by_key [OF assms(1)] by (simp add: sum_list_addf comp_def)
qed

lemma by_key_length:
  assumes "set (map fst ps) \<subseteq> {..<length xss}"
    and "\<And>i. i < length xss \<Longrightarrow> map snd (filter (\<lambda>x. fst x = i) ps) = xss ! i"
  shows "length ps = sum_list (map length xss)"
  using by_key_length_append [OF assms(1), of "\<lambda>_. []"] assms(2) by (simp add: comp_def sum_list_triv)

lemma in_update: "y \<in> set (xs[i := z]) \<Longrightarrow> y = z \<or> y \<in> set xs"
  using set_update_subset_insert [of xs i z] by blast

text \<open>Evaluation prints an int by its own digits rather than those of a unary number.\<close>

function int_digits_rev :: "int \<Rightarrow> string" where
  "int_digits_rev n = (if n < 10 then [char_of (48 + n)] else char_of (48 + n mod 10) # int_digits_rev (n div 10))"
  by pat_completeness auto

termination int_digits_rev
  by (relation "measure nat") auto

declare int_digits_rev.simps [simp del]

lemma int_digits_rev_nat: "int_digits_rev (int n) = digits_rev n"
proof (induction n rule: digits_rev.induct)
  case (1 n)
  have c: "char_of (48 + int m) = (char_of (48 + m) :: char)" for m
    using char_of_nat [of "48 + m", where ?'a = int] by simp
  show ?case
  proof (cases "n < 10")
    case True
    then show ?thesis by (simp add: int_digits_rev.simps [of "int n"] digits_rev.simps [of n] c)
  next
    case False
    then show ?thesis
      using 1 c [of "n mod 10"] by (simp add: int_digits_rev.simps [of "int n"] digits_rev.simps [of n] zdiv_int zmod_int)
  qed
qed

lemma show_int_code [code]:
  "show_int i = (if i < 0 then CHR ''-'' # rev (int_digits_rev (- i)) else rev (int_digits_rev i))"
  using int_digits_rev_nat [of "nat i"] int_digits_rev_nat [of "nat (- i)"]
  by (auto simp: show_int_def show_nat_def split: if_splits)

section \<open>Two-dimensional tables\<close>

definition get2 :: "'a list list \<Rightarrow> int \<Rightarrow> int \<Rightarrow> 'a ub" where
  "get2 t i j = do { row \<leftarrow> vget t i; vget row j }"

definition set2 :: "'a list list \<Rightarrow> int \<Rightarrow> int \<Rightarrow> 'a \<Rightarrow> 'a list list ub" where
  "set2 t i j x = do { row \<leftarrow> vget t i; row' \<leftarrow> vset row j x; vset t i row' }"

text \<open>The table of m rows of n entries whose entries are those of f.\<close>

definition tabulate :: "nat \<Rightarrow> nat \<Rightarrow> (nat \<Rightarrow> nat \<Rightarrow> 'a) \<Rightarrow> 'a list list" where
  "tabulate m n f = map (\<lambda>i. map (f i) [0..<n]) [0..<m]"

lemma get2_tabulate [simp]: "get2 (tabulate m n f) (int i) (int j) = (if i < m \<and> j < n then Some (f i j) else None)"
  by (simp add: get2_def tabulate_def)

lemma map_upt_upd: "j < n \<Longrightarrow> (map f [0..<n])[j := x] = map (f(j := x)) [0..<n]"
  by (rule nth_equalityI) (auto simp: nth_list_update)

lemma set2_tabulate:
  "i < m \<Longrightarrow> j < n \<Longrightarrow> set2 (tabulate m n f) (int i) (int j) x = Some (tabulate m n (f(i := (f i)(j := x))))"
  by (simp add: set2_def tabulate_def map_upt_upd)

lemma tabulate_cong: "(\<And>i j. i < m \<Longrightarrow> j < n \<Longrightarrow> f i j = g i j) \<Longrightarrow> tabulate m n f = tabulate m n g"
  by (auto simp: tabulate_def)

lemma replicate_tabulate: "replicate m (replicate n x) = tabulate m n (\<lambda>_ _. x)"
  by (simp add: tabulate_def map_replicate_const)

lemma get2_tabulate_int:
  "0 \<le> i \<Longrightarrow> 0 \<le> j \<Longrightarrow> i < int m \<Longrightarrow> j < int n \<Longrightarrow> get2 (tabulate m n f) i j = Some (f (nat i) (nat j))"
  using get2_tabulate [of m n f "nat i" "nat j"] by (simp add: nat_less_iff)

end
