(* ===== verification/Two_Pointers.thy ===== *)
theory Two_Pointers
  imports Prelude
begin

text \<open>
  src/src/dsa/two_pointers.cpp: container with most water, Floyd's cycle detection over a heap of
  list nodes, and the Dutch national flag partition.
\<close>

section \<open>Definitions\<close>

function maxArea_loop :: "int list \<Rightarrow> int \<Rightarrow> int \<Rightarrow> int \<Rightarrow> int ub" where
  "maxArea_loop height left right max_area =
     (if left < right then do {
        hl \<leftarrow> vget height left;
        hr \<leftarrow> vget height right;
        area \<leftarrow> chk ((right - left) * min hl hr);
        (if hl < hr then maxArea_loop height (left + 1) right (max max_area area)
         else maxArea_loop height left (right - 1) (max max_area area)) }
      else Some max_area)"
  by pat_completeness auto
termination
  by (relation "measure (\<lambda>(h, l, r, m). nat (r - l))") auto

definition maxArea :: "int list \<Rightarrow> int ub" where
  "maxArea height = maxArea_loop height 0 (int (length height) - 1) 0"

text \<open>
  A list node lives at an address of the heap; nullptr is None. A dereference of a null or a
  dangling pointer is undefined (None), and so is a loop that never returns.
\<close>

record ListNode =
  node_val :: int
  node_next :: "nat option"

type_synonym node_heap = "nat \<rightharpoonup> ListNode"

definition next_of :: "node_heap \<Rightarrow> nat option \<Rightarrow> nat option ub" where
  "next_of h p = do { a \<leftarrow> p; n \<leftarrow> h a; Some (node_next n) }"

partial_function (option) hasCycle_loop :: "node_heap \<Rightarrow> nat option \<Rightarrow> nat option \<Rightarrow> bool ub" where
  "hasCycle_loop h slow fast =
     (if fast = None then Some False
      else do {
        fn \<leftarrow> next_of h fast;
        (if fn = None then Some False
         else do {
           slow' \<leftarrow> next_of h slow;
           fast' \<leftarrow> next_of h fn;
           (if slow' = fast' then Some True else hasCycle_loop h slow' fast') }) })"

definition hasCycle :: "node_heap \<Rightarrow> nat option \<Rightarrow> bool ub" where
  "hasCycle h head = hasCycle_loop h head head"

partial_function (option) meet_loop :: "node_heap \<Rightarrow> nat option \<Rightarrow> nat option \<Rightarrow> nat option ub" where
  "meet_loop h slow fast =
     (if slow \<noteq> fast then do {
        slow' \<leftarrow> next_of h slow;
        fast' \<leftarrow> next_of h fast;
        meet_loop h slow' fast' }
      else Some slow)"

partial_function (option) findCycleStart_loop ::
  "node_heap \<Rightarrow> nat option \<Rightarrow> nat option \<Rightarrow> nat option \<Rightarrow> nat option ub" where
  "findCycleStart_loop h head slow fast =
     (if fast = None then Some None
      else do {
        fn \<leftarrow> next_of h fast;
        (if fn = None then Some None
         else do {
           slow' \<leftarrow> next_of h slow;
           fast' \<leftarrow> next_of h fn;
           (if slow' = fast' then meet_loop h head fast'
            else findCycleStart_loop h head slow' fast') }) })"

definition findCycleStart :: "node_heap \<Rightarrow> nat option \<Rightarrow> nat option ub" where
  "findCycleStart h head = findCycleStart_loop h head head head"

function sortColors_loop :: "int list \<Rightarrow> int \<Rightarrow> int \<Rightarrow> int \<Rightarrow> int list ub" where
  "sortColors_loop nums low mid high =
     (if mid \<le> high then do {
        x \<leftarrow> vget nums mid;
        (if x = 0 then do {
           nums' \<leftarrow> vswap nums low mid;
           sortColors_loop nums' (low + 1) (mid + 1) high }
         else if x = 1 then sortColors_loop nums low (mid + 1) high
         else do {
           nums' \<leftarrow> vswap nums mid high;
           sortColors_loop nums' low mid (high - 1) }) }
      else Some nums)"
  by pat_completeness auto
termination
  by (relation "measure (\<lambda>(xs, l, m, h). nat (h - m + 1))") auto

definition sortColors :: "int list \<Rightarrow> int list ub" where
  "sortColors nums = sortColors_loop nums 0 0 (int (length nums) - 1)"

text \<open>
  The demonstration of main: the nodes n1 to n5 at the addresses 1 to 5, first with the link from
  n5 back to n3, then without it. The result lists the printed values in order.
\<close>

definition demo_nodes :: "nat option \<Rightarrow> node_heap" where
  "demo_nodes n5_next = [1 \<mapsto> \<lparr>node_val = 1, node_next = Some 2\<rparr>,
     2 \<mapsto> \<lparr>node_val = 2, node_next = Some 3\<rparr>, 3 \<mapsto> \<lparr>node_val = 3, node_next = Some 4\<rparr>,
     4 \<mapsto> \<lparr>node_val = 4, node_next = Some 5\<rparr>, 5 \<mapsto> \<lparr>node_val = 5, node_next = n5_next\<rparr>]"

definition two_pointers_main :: "(int \<times> bool \<times> int \<times> bool \<times> int list) ub" where
  "two_pointers_main = do {
     area \<leftarrow> maxArea [1, 8, 6, 2, 5, 4, 8, 3, 7];
     cyc \<leftarrow> hasCycle (demo_nodes (Some 3)) (Some 1);
     cycle_start \<leftarrow> findCycleStart (demo_nodes (Some 3)) (Some 1);
     a \<leftarrow> cycle_start;
     n \<leftarrow> demo_nodes (Some 3) a;
     cyc' \<leftarrow> hasCycle (demo_nodes None) (Some 1);
     colors \<leftarrow> sortColors [2, 0, 2, 1, 1, 0];
     Some (area, cyc, node_val n, cyc', colors) }"

declare hasCycle_loop.simps [code] meet_loop.simps [code] findCycleStart_loop.simps [code]
declare maxArea_loop.simps [simp del] sortColors_loop.simps [simp del]


section \<open>Container with most water\<close>

definition water :: "int list \<Rightarrow> nat \<Rightarrow> nat \<Rightarrow> int" where
  "water h i j = (int j - int i) * min (h ! i) (h ! j)"

definition waters :: "int list \<Rightarrow> int set" where
  "waters h = {water h i j | i j. i < j \<and> j < length h}"

lemma finite_waters [simp]: "finite (waters h)"
proof -
  have "waters h \<subseteq> (\<lambda>(i, j). water h i j) ` ({..<length h} \<times> {..<length h})"
    by (force simp: waters_def)
  then show ?thesis by (rule finite_subset) simp
qed

lemma waters_I: "i < j \<Longrightarrow> j < length h \<Longrightarrow> water h i j \<in> waters h"
  by (auto simp: waters_def)

lemma water_le_left:
  assumes "i < j" "j \<le> r" "h ! i \<le> h ! r" "0 \<le> m" "water h i r \<le> m"
  shows "water h i j \<le> m"
proof (cases "0 \<le> h ! i")
  case True
  have "water h i j \<le> (int j - int i) * (h ! i)"
    using assms by (auto simp: water_def intro!: mult_left_mono)
  also have "\<dots> \<le> (int r - int i) * (h ! i)"
    using assms True by (intro mult_right_mono) auto
  also have "\<dots> = water h i r" using assms by (simp add: water_def)
  finally show ?thesis using assms by simp
next
  case False
  then have "water h i j \<le> 0"
    using assms by (auto simp: water_def mult_nonneg_nonpos min_le_iff_disj)
  then show ?thesis using assms by simp
qed

lemma water_le_right:
  assumes "l \<le> i" "i < r" "h ! r \<le> h ! l" "0 \<le> m" "water h l r \<le> m"
  shows "water h i r \<le> m"
proof (cases "0 \<le> h ! r")
  case True
  have "water h i r \<le> (int r - int i) * (h ! r)"
    using assms by (auto simp: water_def intro!: mult_left_mono)
  also have "\<dots> \<le> (int r - int l) * (h ! r)"
    using assms True by (intro mult_right_mono) auto
  also have "\<dots> = water h l r" using assms by (simp add: water_def)
  finally show ?thesis using assms by simp
next
  case False
  then have "water h i r \<le> 0"
    using assms by (auto simp: water_def mult_nonneg_nonpos min_le_iff_disj)
  then show ?thesis using assms by simp
qed

lemma maxArea_loop_correct:
  assumes "r < length h" "l \<le> r" "0 \<le> m" "\<forall>a \<in> waters h. in_int a"
    and "\<And>i j. i < j \<Longrightarrow> j < length h \<Longrightarrow> i < l \<or> r < j \<Longrightarrow> water h i j \<le> m"
    and "m \<in> insert 0 (waters h)"
  shows "\<exists>m'. maxArea_loop h (int l) (int r) m = Some m' \<and>
     (\<forall>a \<in> waters h. a \<le> m') \<and> 0 \<le> m' \<and> m' \<in> insert 0 (waters h)"
  using assms
proof (induction "r - l" arbitrary: l r m rule: less_induct)
  case less
  show ?case
  proof (cases "l < r")
    case False
    have "\<forall>a \<in> waters h. a \<le> m"
    proof
      fix a
      assume "a \<in> waters h"
      then obtain i j where a: "a = water h i j" "i < j" "j < length h"
        by (auto simp: waters_def)
      then have "i < l \<or> r < j" using False by linarith
      then show "a \<le> m" using less.prems(5) a by simp
    qed
    moreover have "maxArea_loop h (int l) (int r) m = Some m"
      using False by (subst maxArea_loop.simps) simp
    ultimately show ?thesis using less.prems(3,6) by blast
  next
    case True
    let ?m = "max m (water h l r)"
    have w: "water h l r \<in> waters h" using True less.prems(1) by (rule waters_I)
    then have ck: "chk ((int r - int l) * min (h ! l) (h ! r)) = Some (water h l r)"
      using less.prems(4) by (auto simp: water_def chk_def)
    have m: "0 \<le> ?m" "?m \<in> insert 0 (waters h)" "m \<le> ?m" "water h l r \<le> ?m"
      using less.prems(3,6) w by (auto simp: max_def)
    have old: "water h i j \<le> ?m" if "i < j" "j < length h" "i < l \<or> r < j" for i j
      using less.prems(5) [OF that] m(3) by simp
    show ?thesis
    proof (cases "h ! l < h ! r")
      case lt: True
      have inv: "water h i j \<le> ?m" if "i < j" "j < length h" "i < Suc l \<or> r < j" for i j
      proof (cases "i < l \<or> r < j")
        case False
        then have "i = l" "j \<le> r" using that by auto
        then show ?thesis
          using water_le_left [of i j r h ?m] lt m that by simp
      qed (use old that in blast)
      have "chk ((int r - int l) * h ! l) = Some (water h l r)" using ck lt by simp
      then have "maxArea_loop h (int l) (int r) m = maxArea_loop h (int (Suc l)) (int r) ?m"
        using True lt less.prems(1) by (subst maxArea_loop.simps) (simp add: add.commute)
      then show ?thesis
        using less.hyps [of r "Suc l" ?m] True less.prems(1,4) inv m by simp
    next
      case ge: False
      have inv: "water h i j \<le> ?m" if "i < j" "j < length h" "i < l \<or> r - 1 < j" for i j
      proof (cases "i < l \<or> r < j")
        case False
        then have "j = r" "l \<le> i" using that by auto
        then show ?thesis
          using water_le_right [of l i r h ?m] ge m that by simp
      qed (use old that in blast)
      have "chk ((int r - int l) * h ! r) = Some (water h l r)" using ck ge by (metis min_def not_less order.order_iff_strict)
      then have "maxArea_loop h (int l) (int r) m = maxArea_loop h (int l) (int (r - 1)) ?m"
        using True ge less.prems(1) by (subst maxArea_loop.simps) (simp add: min_def of_nat_diff)
      then show ?thesis
        using less.hyps [of "r - 1" l ?m] True less.prems(1,4) inv m by simp
    qed
  qed
qed

text \<open>
  Claim: maxArea returns, without an overflow, the largest rectangle (j - i) * min of any two lines,
  or 0 when there is none, provided no such product leaves the range of int.
\<close>
theorem maxArea_correct:
  assumes "\<forall>a \<in> waters h. in_int a"
  shows "maxArea h = Some (Max (insert 0 (waters h)))"
proof (cases "h = []")
  case True
  then show ?thesis by (simp add: maxArea_def maxArea_loop.simps waters_def)
next
  case False
  then have e: "int (length h) - 1 = int (length h - 1)" by (cases h) auto
  have "\<exists>m'. maxArea_loop h (int 0) (int (length h - 1)) 0 = Some m' \<and>
     (\<forall>a \<in> waters h. a \<le> m') \<and> 0 \<le> m' \<and> m' \<in> insert 0 (waters h)"
    using False assms by (intro maxArea_loop_correct) auto
  then obtain m' where m': "maxArea_loop h (int 0) (int (length h - 1)) 0 = Some m'"
    "\<forall>a \<in> waters h. a \<le> m'" "0 \<le> m'" "m' \<in> insert 0 (waters h)"
    by blast
  have "Max (insert 0 (waters h)) = m'"
    using m' by (intro Max_eqI) auto
  then show ?thesis using m'(1) by (simp add: maxArea_def e)
qed

theorem maxArea_correct_witness:
  "maxArea [1, 8, 6, 2] = Some (Max (insert 0 (waters [1, 8, 6, 2])))"
  by (rule maxArea_correct)
    (auto simp: waters_def water_def in_int_def less_Suc_eq numeral_eq_Suc)

section \<open>Floyd's cycle detection\<close>

primrec node_at :: "node_heap \<Rightarrow> nat option \<Rightarrow> nat \<Rightarrow> nat option" where
  "node_at h p 0 = p"
| "node_at h p (Suc k) = (case next_of h (node_at h p k) of None \<Rightarrow> None | Some q \<Rightarrow> q)"

declare node_at.simps(2) [simp del]

definition list_heap :: "node_heap \<Rightarrow> nat option \<Rightarrow> bool" where
  "list_heap h head \<longleftrightarrow> finite (dom h) \<and> head \<in> insert None (Some ` dom h) \<and>
     (\<forall>n \<in> ran h. node_next n \<in> insert None (Some ` dom h))"

definition cyclic :: "node_heap \<Rightarrow> nat option \<Rightarrow> bool" where
  "cyclic h head \<longleftrightarrow> (\<forall>k. node_at h head k \<noteq> None)"

lemma node_at_in_heap: "list_heap h head \<Longrightarrow> node_at h head k \<in> insert None (Some ` dom h)"
proof (induction k)
  case 0
  then show ?case by (simp add: list_heap_def)
next
  case (Suc k)
  then show ?case
    by (auto simp: list_heap_def next_of_def ran_def node_at.simps(2) bind_eq_Some_conv
        split: option.splits)
qed

lemma next_of_node_at:
  assumes "list_heap h head" "node_at h head k \<noteq> None"
  shows "next_of h (node_at h head k) = Some (node_at h head (Suc k))"
  using node_at_in_heap [OF assms(1), of k] assms(2) by (auto simp: next_of_def node_at.simps(2))

lemma node_at_None_mono:
  assumes "node_at h p k = None" "k \<le> m"
  shows "node_at h p m = None"
  using assms(2,1) by (induction rule: dec_induct) (auto simp: next_of_def node_at.simps(2))

lemma node_at_shift:
  assumes "node_at h p i = node_at h p j"
  shows "node_at h p (i + n) = node_at h p (j + n)"
  using assms by (induction n) (auto simp: node_at.simps(2))

lemma node_at_period:
  assumes "node_at h p (m + q) = node_at h p m" "m \<le> n"
  shows "node_at h p (n + c * q) = node_at h p n"
proof (induction c)
  case (Suc c)
  obtain d where d: "n = m + d" using assms(2) by (metis le_add_diff_inverse)
  have "node_at h p (m + q + (d + c * q)) = node_at h p (m + (d + c * q))"
    by (rule node_at_shift) (rule assms(1))
  then show ?case using Suc d by (simp add: algebra_simps)
qed simp

lemma cyclic_repeats:
  assumes "list_heap h head" "cyclic h head"
  obtains m q where "0 < q" "node_at h head (m + q) = node_at h head m"
proof -
  have "node_at h head ` UNIV \<subseteq> Some ` dom h"
    using node_at_in_heap [OF assms(1)] assms(2) unfolding cyclic_def by blast
  then have "finite (node_at h head ` UNIV)"
    using assms(1) by (simp add: list_heap_def finite_subset)
  then have "\<not> inj (node_at h head)" using finite_imageD by blast
  then obtain i j where "i < j" "node_at h head i = node_at h head j"
    by (metis injI linorder_neqE_nat)
  then have "node_at h head (i + (j - i)) = node_at h head i" "0 < j - i" by auto
  then show ?thesis using that by blast
qed

lemma cyclic_meets:
  assumes "list_heap h head" "cyclic h head"
  obtains K where "0 < K" "node_at h head K = node_at h head (2 * K)"
proof -
  obtain m q where q: "0 < q" "node_at h head (m + q) = node_at h head m"
    using cyclic_repeats [OF assms] .
  have "m \<le> (m + 1) * q" using q(1) by (cases q) auto
  then have "node_at h head ((m + 1) * q + (m + 1) * q) = node_at h head ((m + 1) * q)"
    by (rule node_at_period [OF q(2)])
  then show ?thesis using that [of "(m + 1) * q"] q(1) by (metis mult_2 mult_pos_pos add_gr_0 zero_less_one)
qed

lemma node_at_repeat_cyclic:
  assumes "0 < q" "node_at h p (m + q) = node_at h p m" "node_at h p m \<noteq> None"
  shows "cyclic h p"
  unfolding cyclic_def
proof
  fix k
  have "node_at h p (m + k * q) = node_at h p m" by (rule node_at_period [OF assms(2)]) simp
  moreover have "k \<le> m + k * q" using assms(1) by (cases q) auto
  ultimately show "node_at h p k \<noteq> None"
    using assms(3) node_at_None_mono by metis
qed

text \<open>One turn of the two loops, at the k-th step of the slow pointer.\<close>

lemma hasCycle_turn:
  assumes "list_heap h head"
  shows "hasCycle_loop h (node_at h head k) (node_at h head (2 * k)) =
    (if node_at h head (2 * k + 1) = None then Some False
     else if node_at h head (Suc k) = node_at h head (2 * Suc k) then Some True
     else hasCycle_loop h (node_at h head (Suc k)) (node_at h head (2 * Suc k)))"
proof (cases "node_at h head (2 * k + 1) = None")
  case True
  then show ?thesis
    using next_of_node_at [OF assms, of "2 * k"]
    by (subst hasCycle_loop.simps) auto
next
  case False
  then have "node_at h head (2 * k) \<noteq> None" "node_at h head k \<noteq> None"
    using node_at_None_mono [of h head "2 * k" "2 * k + 1"] node_at_None_mono [of h head k "2 * k + 1"]
    by (auto simp del: not_None_eq)
  then have "next_of h (node_at h head (2 * k)) = Some (node_at h head (2 * k + 1))"
    "next_of h (node_at h head (2 * k + 1)) = Some (node_at h head (2 * Suc k))"
    "next_of h (node_at h head k) = Some (node_at h head (Suc k))"
    using next_of_node_at [OF assms] False by simp_all
  then show ?thesis
    using False \<open>node_at h head (2 * k) \<noteq> None\<close>
    by (subst hasCycle_loop.simps) (simp del: not_None_eq)
qed

lemma findCycleStart_turn:
  assumes "list_heap h head"
  shows "findCycleStart_loop h head (node_at h head k) (node_at h head (2 * k)) =
    (if node_at h head (2 * k + 1) = None then Some None
     else if node_at h head (Suc k) = node_at h head (2 * Suc k)
       then meet_loop h head (node_at h head (2 * Suc k))
     else findCycleStart_loop h head (node_at h head (Suc k)) (node_at h head (2 * Suc k)))"
proof (cases "node_at h head (2 * k + 1) = None")
  case True
  then show ?thesis
    using next_of_node_at [OF assms, of "2 * k"]
    by (subst findCycleStart_loop.simps) auto
next
  case False
  then have "node_at h head (2 * k) \<noteq> None" "node_at h head k \<noteq> None"
    using node_at_None_mono [of h head "2 * k" "2 * k + 1"] node_at_None_mono [of h head k "2 * k + 1"]
    by (auto simp del: not_None_eq)
  then have "next_of h (node_at h head (2 * k)) = Some (node_at h head (2 * k + 1))"
    "next_of h (node_at h head (2 * k + 1)) = Some (node_at h head (2 * Suc k))"
    "next_of h (node_at h head k) = Some (node_at h head (Suc k))"
    using next_of_node_at [OF assms] False by simp_all
  then show ?thesis
    using False \<open>node_at h head (2 * k) \<noteq> None\<close>
    by (subst findCycleStart_loop.simps) (simp del: not_None_eq)
qed

lemma acyclic_no_meet:
  assumes "\<not> cyclic h head" "node_at h head (2 * k + 1) \<noteq> None"
  shows "node_at h head (Suc k) \<noteq> node_at h head (2 * Suc k)"
proof
  assume eq: "node_at h head (Suc k) = node_at h head (2 * Suc k)"
  have "node_at h head (Suc k) \<noteq> None"
  proof
    assume "node_at h head (Suc k) = None"
    then have "node_at h head (2 * k + 1) = None" by (rule node_at_None_mono) simp
    then show False using assms(2) by simp
  qed
  then have "cyclic h head"
    using node_at_repeat_cyclic [of "Suc k" h head "Suc k"] eq by (simp add: mult_2)
  then show False using assms(1) by simp
qed

lemma hasCycle_loop_acyclic:
  assumes "list_heap h head" "node_at h head m = None"
  shows "hasCycle_loop h (node_at h head k) (node_at h head (2 * k)) = Some False"
proof (induction "m - k" arbitrary: k rule: less_induct)
  case less
  have nc: "\<not> cyclic h head" using assms(2) by (auto simp: cyclic_def)
  show ?case
  proof (cases "node_at h head (2 * k + 1) = None")
    case True
    then show ?thesis by (simp add: hasCycle_turn [OF assms(1)])
  next
    case False
    then have "2 * k + 1 < m"
      using assms(2) node_at_None_mono [of h head m "2 * k + 1"] by force
    then show ?thesis
      using less [of "Suc k"] False acyclic_no_meet [OF nc False]
      by (simp add: hasCycle_turn [OF assms(1)])
  qed
qed

lemma hasCycle_loop_cyclic:
  assumes "list_heap h head" "cyclic h head"
    and "k < K" "node_at h head K = node_at h head (2 * K)"
  shows "hasCycle_loop h (node_at h head k) (node_at h head (2 * k)) = Some True"
  using assms(3)
proof (induction "K - k" arbitrary: k rule: less_induct)
  case less
  have "node_at h head (2 * k + 1) \<noteq> None" using assms(2) by (simp add: cyclic_def)
  moreover have "hasCycle_loop h (node_at h head (Suc k)) (node_at h head (2 * Suc k)) = Some True"
    if "node_at h head (Suc k) \<noteq> node_at h head (2 * Suc k)"
  proof -
    have "Suc k \<noteq> K" using that assms(4) by metis
    then show ?thesis using less.hyps [of "Suc k"] less.prems by simp
  qed
  ultimately show ?case
    by (simp add: hasCycle_turn [OF assms(1)])
qed

text \<open>
  Claim: on a finite, well-formed list heap hasCycle returns, and it returns true exactly when the
  walk from head never reaches nullptr.
\<close>
theorem hasCycle_correct:
  assumes "list_heap h head"
  shows "hasCycle h head = Some (cyclic h head)"
proof (cases "cyclic h head")
  case True
  obtain K where "0 < K" "node_at h head K = node_at h head (2 * K)"
    using cyclic_meets [OF assms True] .
  then have "hasCycle_loop h (node_at h head 0) (node_at h head (2 * 0)) = Some True"
    using hasCycle_loop_cyclic [OF assms True] by blast
  then show ?thesis using True by (simp add: hasCycle_def)
next
  case False
  then obtain m where "node_at h head m = None" by (auto simp: cyclic_def)
  then have "hasCycle_loop h (node_at h head 0) (node_at h head (2 * 0)) = Some False"
    by (rule hasCycle_loop_acyclic [OF assms])
  then show ?thesis using False by (simp add: hasCycle_def)
qed

lemma list_heap_demo:
  "p \<in> {None, Some 1, Some 2, Some 3, Some 4, Some 5} \<Longrightarrow> list_heap (demo_nodes p) (Some 1)"
  by (auto simp: list_heap_def demo_nodes_def ran_def split: if_splits)

theorem hasCycle_correct_witness:
  "hasCycle (demo_nodes (Some 3)) (Some 1) = Some (cyclic (demo_nodes (Some 3)) (Some 1)) \<and>
   hasCycle (demo_nodes (Some 3)) (Some 1) = Some True"
  using hasCycle_correct [OF list_heap_demo, of "Some 3"]
  by (simp add: hasCycle_def hasCycle_loop.simps next_of_def demo_nodes_def)

definition cycle_start :: "node_heap \<Rightarrow> nat option \<Rightarrow> nat" where
  "cycle_start h head = (LEAST m. \<exists>q > 0. node_at h head (m + q) = node_at h head m)"

lemma meet_at_start:
  assumes "list_heap h head" "0 < K" "node_at h head K = node_at h head (2 * K)"
  shows "node_at h head (K + m) = node_at h head m \<longleftrightarrow> cycle_start h head \<le> m"
proof
  assume "node_at h head (K + m) = node_at h head m"
  then have "\<exists>q > 0. node_at h head (m + q) = node_at h head m"
    using assms(2) by (metis add.commute)
  then show "cycle_start h head \<le> m"
    unfolding cycle_start_def by (rule Least_le)
next
  assume le: "cycle_start h head \<le> m"
  let ?s = "cycle_start h head"
  have "\<exists>q > 0. node_at h head (K + q) = node_at h head K"
    using assms(2,3) by (metis mult_2)
  then have "\<exists>q > 0. node_at h head (?s + q) = node_at h head ?s"
    unfolding cycle_start_def by (rule LeastI)
  then obtain q where q: "0 < q" "node_at h head (?s + q) = node_at h head ?s" by blast
  have big: "K \<le> m + K * q" using q(1) by (cases q) auto
  have "node_at h head m = node_at h head (m + K * q)"
    by (rule node_at_period [OF q(2) le, symmetric])
  also have "\<dots> = node_at h head (m + K * q + 1 * K)"
    using node_at_period [of h head K K "m + K * q" 1] assms(3) big by (simp add: mult_2)
  also have "\<dots> = node_at h head (m + K + K * q)" by (simp add: algebra_simps)
  also have "\<dots> = node_at h head (m + K)"
    by (rule node_at_period [OF q(2)]) (use le in simp)
  finally show "node_at h head (K + m) = node_at h head m" by (simp add: add.commute)
qed

lemma meet_loop_correct:
  assumes "list_heap h head" "cyclic h head" "0 < K" "node_at h head K = node_at h head (2 * K)"
    and "m \<le> cycle_start h head"
  shows "meet_loop h (node_at h head m) (node_at h head (K + m)) =
    Some (node_at h head (cycle_start h head))"
  using assms(5)
proof (induction "cycle_start h head - m" arbitrary: m rule: less_induct)
  case less
  note nx = next_of_node_at [OF assms(1)]
  have nn: "node_at h head j \<noteq> None" for j using assms(2) by (simp add: cyclic_def)
  show ?case
  proof (cases "m = cycle_start h head")
    case True
    then have "node_at h head (K + m) = node_at h head m"
      using meet_at_start [OF assms(1,3,4)] by simp
    then show ?thesis using True by (subst meet_loop.simps) simp
  next
    case False
    then have ne: "node_at h head m \<noteq> node_at h head (K + m)"
      using meet_at_start [OF assms(1,3,4), of m] less.prems by auto
    have "meet_loop h (node_at h head (Suc m)) (node_at h head (K + Suc m)) =
      Some (node_at h head (cycle_start h head))"
      using less.hyps [of "Suc m"] less.prems False by simp
    then show ?thesis
      using ne nx [OF nn, of m] nx [OF nn, of "K + m"]
      by (subst meet_loop.simps) (simp)
  qed
qed

lemma findCycleStart_loop_acyclic:
  assumes "list_heap h head" "node_at h head m = None"
  shows "findCycleStart_loop h head (node_at h head k) (node_at h head (2 * k)) = Some None"
proof (induction "m - k" arbitrary: k rule: less_induct)
  case less
  have nc: "\<not> cyclic h head" using assms(2) by (auto simp: cyclic_def)
  show ?case
  proof (cases "node_at h head (2 * k + 1) = None")
    case True
    then show ?thesis by (simp add: findCycleStart_turn [OF assms(1)])
  next
    case False
    then have "2 * k + 1 < m"
      using assms(2) node_at_None_mono [of h head m "2 * k + 1"] by force
    then show ?thesis
      using less [of "Suc k"] False acyclic_no_meet [OF nc False]
      by (simp add: findCycleStart_turn [OF assms(1)])
  qed
qed

lemma findCycleStart_loop_cyclic:
  assumes "list_heap h head" "cyclic h head"
    and "k < K" "node_at h head K = node_at h head (2 * K)"
  shows "findCycleStart_loop h head (node_at h head k) (node_at h head (2 * k)) =
    Some (node_at h head (cycle_start h head))"
  using assms(3)
proof (induction "K - k" arbitrary: k rule: less_induct)
  case less
  have "node_at h head (2 * k + 1) \<noteq> None" using assms(2) by (simp add: cyclic_def)
  moreover have "findCycleStart_loop h head (node_at h head (Suc k)) (node_at h head (2 * Suc k)) =
      Some (node_at h head (cycle_start h head))"
    if "node_at h head (Suc k) \<noteq> node_at h head (2 * Suc k)"
  proof -
    have "Suc k \<noteq> K" using that assms(4) by metis
    then show ?thesis using less.hyps [of "Suc k"] less.prems by simp
  qed
  moreover have "meet_loop h head (node_at h head (2 * Suc k)) =
      Some (node_at h head (cycle_start h head))"
    if eq: "node_at h head (Suc k) = node_at h head (2 * Suc k)"
    using meet_loop_correct [OF assms(1,2), of "Suc k" 0] eq by simp
  ultimately show ?case
    using findCycleStart_turn [OF assms(1), of k] by (simp del: not_None_eq)
qed

text \<open>
  Claim: findCycleStart returns nullptr on a list that ends, and otherwise the first node of the
  walk that the walk visits again.
\<close>
theorem findCycleStart_correct:
  assumes "list_heap h head"
  shows "findCycleStart h head =
    Some (if cyclic h head then node_at h head (cycle_start h head) else None)"
proof (cases "cyclic h head")
  case True
  obtain K where "0 < K" "node_at h head K = node_at h head (2 * K)"
    using cyclic_meets [OF assms True] .
  then have "findCycleStart_loop h head (node_at h head 0) (node_at h head (2 * 0)) =
      Some (node_at h head (cycle_start h head))"
    using findCycleStart_loop_cyclic [OF assms True] by blast
  then show ?thesis using True by (simp add: findCycleStart_def)
next
  case False
  then obtain m where "node_at h head m = None" by (auto simp: cyclic_def)
  then have "findCycleStart_loop h head (node_at h head 0) (node_at h head (2 * 0)) = Some None"
    by (rule findCycleStart_loop_acyclic [OF assms])
  then show ?thesis using False by (simp add: findCycleStart_def)
qed

theorem findCycleStart_correct_witness:
  "findCycleStart (demo_nodes (Some 3)) (Some 1) =
     Some (if cyclic (demo_nodes (Some 3)) (Some 1)
       then node_at (demo_nodes (Some 3)) (Some 1) (cycle_start (demo_nodes (Some 3)) (Some 1))
       else None)"
  by (rule findCycleStart_correct) (rule list_heap_demo, simp)

section \<open>Dutch national flag\<close>

definition colour :: "int \<Rightarrow> nat" where
  "colour x = (if x = 0 then 0 else if x = 1 then 1 else 2)"

lemma sortColors_loop_correct:
  assumes "low \<le> mid" "mid \<le> hi" "hi \<le> length xs"
    and "\<forall>i < low. xs ! i = 0" "\<forall>i. low \<le> i \<and> i < mid \<longrightarrow> xs ! i = 1"
    and "\<forall>i. hi \<le> i \<and> i < length xs \<longrightarrow> colour (xs ! i) = 2"
  shows "\<exists>ys. sortColors_loop xs (int low) (int mid) (int hi - 1) = Some ys \<and>
     mset ys = mset xs \<and> sorted (map colour ys)"
  using assms
proof (induction "hi - mid" arbitrary: xs low mid hi rule: less_induct)
  case less
  show ?case
  proof (cases "mid < hi")
    case False
    then have "mid = hi" using less.prems(2) by simp
    have c: "colour (xs ! i) = (if i < low then 0 else if i < mid then 1 else 2)"
      if "i < length xs" for i
      using less.prems(4-6) that \<open>mid = hi\<close> by (auto simp: colour_def)
    have "sorted (map colour xs)"
      using less.prems(1) by (auto simp: sorted_iff_nth_mono_less c)
    then show ?thesis
      using False by (subst sortColors_loop.simps) simp
  next
    case True
    then have m: "mid < length xs" "low < length xs" "hi - 1 < length xs" using less.prems by auto
    have hi1: "int hi - 1 = int (hi - 1)" "mid \<le> hi - Suc 0" using True by simp_all
    consider "xs ! mid = 0" | "xs ! mid = 1" | "colour (xs ! mid) = 2" "xs ! mid \<noteq> 0" "xs ! mid \<noteq> 1"
      by (auto simp: colour_def)
    then show ?thesis
    proof cases
      case 1
      let ?ys = "xs[low := xs ! mid, mid := xs ! low]"
      have "\<exists>zs. sortColors_loop ?ys (int (Suc low)) (int (Suc mid)) (int hi - 1) = Some zs \<and>
         mset zs = mset ?ys \<and> sorted (map colour zs)"
        by (rule less.hyps) (use 1 True less.prems m in \<open>auto simp: nth_list_update less_Suc_eq\<close>)
      then show ?thesis
        using 1 True m mset_list_swap [of low xs mid]
        by (subst sortColors_loop.simps) (simp add: ub_simps add.commute)
    next
      case 2
      have "\<exists>zs. sortColors_loop xs (int low) (int (Suc mid)) (int hi - 1) = Some zs \<and>
         mset zs = mset xs \<and> sorted (map colour zs)"
        by (rule less.hyps) (use 2 True less.prems m in \<open>auto simp: less_Suc_eq\<close>)
      then show ?thesis
        using 2 True m by (subst sortColors_loop.simps) (simp add: add.commute)
    next
      case 3
      let ?ys = "xs[mid := xs ! (hi - 1), hi - 1 := xs ! mid]"
      have "\<exists>zs. sortColors_loop ?ys (int low) (int mid) (int (hi - 1) - 1) = Some zs \<and>
         mset zs = mset ?ys \<and> sorted (map colour zs)"
        by (rule less.hyps) (use 3 True less.prems m in \<open>auto simp: nth_list_update\<close>)
      then show ?thesis
        using 3 True m mset_list_swap [of mid xs "hi - 1"] less.prems(2)
        by (subst sortColors_loop.simps) (simp add: hi1 ub_simps del: of_nat_diff)
    qed
  qed
qed

lemma sortColors_partition:
  "\<exists>ys. sortColors xs = Some ys \<and> mset ys = mset xs \<and> sorted (map colour ys)"
  using sortColors_loop_correct [of 0 0 "length xs" xs] by (simp add: sortColors_def)

text \<open>
  Claim: on an array of the colours 0, 1 and 2 sortColors stays inside the array and returns the
  sorted rearrangement of its input.
\<close>
theorem sortColors_correct:
  assumes "set xs \<subseteq> {0, 1, 2}"
  shows "\<exists>ys. sortColors xs = Some ys \<and> mset ys = mset xs \<and> sorted ys"
proof -
  obtain ys where ys: "sortColors xs = Some ys" "mset ys = mset xs" "sorted (map colour ys)"
    using sortColors_partition by blast
  have "set ys \<subseteq> {0, 1, 2}" using ys(2) assms by (metis mset_eq_setD)
  then have "map (int \<circ> colour) ys = ys"
    by (intro map_idI) (auto simp: colour_def)
  moreover have "sorted (map (int \<circ> colour) ys)"
    using ys(3) by (simp add: sorted_map)
  ultimately show ?thesis using ys by auto
qed

theorem sortColors_correct_witness:
  "\<exists>ys. sortColors [2, 0, 1] = Some ys \<and> mset ys = mset [2, 0, 1] \<and> sorted ys"
  by (rule sortColors_correct) simp

section \<open>The demonstration\<close>

lemma two_pointers_main_output:
  "two_pointers_main = Some (49, True, 3, False, [0, 0, 1, 1, 2, 2])"
  by code_simp

end
