(* ===== verification/LED_Controller.thy ===== *)
theory LED_Controller
  imports Prelude
begin

text \<open>
  src/src/systems/embedded/state_machine.cpp: the table-driven LED controller. The console output
  of an event is kept as a list of records (a transition line, then what the action printed).
\<close>

section \<open>Definitions\<close>

datatype led_state = Off | Blinking | Solid | Error | State_COUNT

datatype led_event = PowerOn | PowerOff | Toggle | Fault | Reset | Event_COUNT

datatype led_action = actionLedOn | actionLedOff | actionBlink | actionAlarm | actionNone

datatype led_output = Transition_line string string string | HW_line string

fun stateToString :: "led_state \<Rightarrow> string" where
  "stateToString Off = ''Off''"
| "stateToString Blinking = ''Blinking''"
| "stateToString Solid = ''Solid''"
| "stateToString Error = ''Error''"
| "stateToString State_COUNT = ''Unknown''"

fun eventToString :: "led_event \<Rightarrow> string" where
  "eventToString PowerOn = ''PowerOn''"
| "eventToString PowerOff = ''PowerOff''"
| "eventToString Toggle = ''Toggle''"
| "eventToString Fault = ''Fault''"
| "eventToString Reset = ''Reset''"
| "eventToString Event_COUNT = ''Unknown''"

fun state_index :: "led_state \<Rightarrow> nat" where
  "state_index Off = 0"
| "state_index Blinking = 1"
| "state_index Solid = 2"
| "state_index Error = 3"
| "state_index State_COUNT = 4"

fun event_index :: "led_event \<Rightarrow> nat" where
  "event_index PowerOn = 0"
| "event_index PowerOff = 1"
| "event_index Toggle = 2"
| "event_index Fault = 3"
| "event_index Reset = 4"
| "event_index Event_COUNT = 5"

fun run_action :: "led_action \<Rightarrow> led_output list" where
  "run_action actionLedOn = [HW_line ''    [HW] LED ON'']"
| "run_action actionLedOff = [HW_line ''    [HW] LED OFF'']"
| "run_action actionBlink = [HW_line ''    [HW] LED BLINK mode'']"
| "run_action actionAlarm = [HW_line ''    [HW] ERROR: LED rapid flash!'']"
| "run_action actionNone = []"

record transition =
  next_state :: led_state
  action :: led_action

definition tr :: "led_state \<Rightarrow> led_action \<Rightarrow> transition" where
  "tr s a = \<lparr>next_state = s, action = a\<rparr>"

definition led_table :: "transition list list" where
  "led_table =
    [[tr Solid actionLedOn, tr Off actionNone, tr Blinking actionBlink,
      tr Error actionAlarm, tr Off actionNone],
     [tr Blinking actionNone, tr Off actionLedOff, tr Solid actionLedOn,
      tr Error actionAlarm, tr Off actionLedOff],
     [tr Solid actionNone, tr Off actionLedOff, tr Blinking actionBlink,
      tr Error actionAlarm, tr Off actionLedOff],
     [tr Error actionNone, tr Off actionLedOff, tr Error actionNone,
      tr Error actionAlarm, tr Off actionLedOff]]"

record led_controller =
  current_state :: led_state
  console :: "led_output list"

definition LEDController :: led_controller where
  "LEDController = \<lparr>current_state = Off, console = []\<rparr>"

definition getState :: "led_controller \<Rightarrow> led_state" where
  "getState c = current_state c"

definition processEvent :: "led_controller \<Rightarrow> led_event \<Rightarrow> led_controller ub" where
  "processEvent c event = do {
     row \<leftarrow> vget led_table (int (state_index (current_state c)));
     t \<leftarrow> vget row (int (event_index event));
     Some \<lparr>current_state = next_state t,
       console = console c @ Transition_line (stateToString (current_state c))
         (eventToString event) (stateToString (next_state t)) # run_action (action t)\<rparr> }"

fun processEvents :: "led_controller \<Rightarrow> led_event list \<Rightarrow> led_controller ub" where
  "processEvents c [] = Some c"
| "processEvents c (e # es) = do { c' \<leftarrow> processEvent c e; processEvents c' es }"

definition led_main :: "led_controller ub" where
  "led_main = processEvents LEDController
     [PowerOn, Toggle, Toggle, Fault, PowerOn, Reset, PowerOn, PowerOff]"

section \<open>What the hardware shows\<close>

text \<open>The last hardware action decides what the LED does; before any action it is off.\<close>

fun hw_apply :: "led_state \<Rightarrow> led_output \<Rightarrow> led_state" where
  "hw_apply m (Transition_line _ _ _) = m"
| "hw_apply m (HW_line s) =
     (if s = ''    [HW] LED ON'' then Solid
      else if s = ''    [HW] LED OFF'' then Off
      else if s = ''    [HW] LED BLINK mode'' then Blinking else Error)"

definition hw_mode :: "led_controller \<Rightarrow> led_state" where
  "hw_mode c = foldl hw_apply Off (console c)"

definition led_ok :: "led_controller \<Rightarrow> bool" where
  "led_ok c \<longleftrightarrow> current_state c \<noteq> State_COUNT \<and> hw_mode c = current_state c"

inductive led_step :: "led_controller \<Rightarrow> led_controller \<Rightarrow> bool" where
  led_stepI: "event \<noteq> Event_COUNT \<Longrightarrow> processEvent c event = Some c' \<Longrightarrow> led_step c c'"

inductive led_reachable :: "led_controller \<Rightarrow> bool" where
  led_start: "led_reachable LEDController"
| led_next: "led_reachable c \<Longrightarrow> led_step c c' \<Longrightarrow> led_reachable c'"

inductive_cases led_stepE: "led_step c c'"

lemmas led_defs = processEvent_def led_table_def tr_def hw_mode_def led_ok_def

lemma processEvent_ok:
  "led_ok c \<Longrightarrow> event \<noteq> Event_COUNT \<Longrightarrow> \<exists>c'. processEvent c event = Some c' \<and> led_ok c'"
  by (cases "current_state c"; cases event) (simp_all add: led_defs vget_def)

lemma led_step_ok: "led_step c c' \<Longrightarrow> led_ok c \<Longrightarrow> led_ok c'"
  by (erule led_stepE) (use processEvent_ok in fastforce)

lemma led_reachable_ok: "led_reachable c \<Longrightarrow> led_ok c"
proof (induction rule: led_reachable.induct)
  case led_start
  show ?case by (simp add: LEDController_def led_ok_def hw_mode_def)
next
  case (led_next c c')
  then show ?case by (blast intro: led_step_ok)
qed

text \<open>
  C23: in every reachable state of the controller, whatever events came, the LED hardware is in
  the mode the controller's state names, and the next event is handled inside the table.
\<close>
theorem led_hardware_in_sync:
  assumes "led_reachable c" "event \<noteq> Event_COUNT"
  shows "hw_mode c = getState c \<and> (\<exists>c'. processEvent c event = Some c' \<and> led_step c c')"
proof -
  have ok: "led_ok c" using assms(1) by (rule led_reachable_ok)
  then obtain c' where "processEvent c event = Some c'" using processEvent_ok assms(2) by blast
  then show ?thesis using ok assms(2) by (auto simp: led_ok_def getState_def intro: led_stepI)
qed

theorem led_hardware_in_sync_witness:
  "hw_mode LEDController = getState LEDController \<and>
   (\<exists>c'. processEvent LEDController Fault = Some c' \<and> led_step LEDController c')"
  by (rule led_hardware_in_sync) (simp_all add: led_start)

text \<open>
  Claim: a fault always puts the controller into Error with the alarm running, and from Error
  exactly PowerOff and Reset lead out, both to Off.
\<close>
theorem led_error_handling:
  assumes "current_state c \<noteq> State_COUNT" "event \<noteq> Event_COUNT"
  shows "map_option current_state (processEvent c Fault) = Some Error \<and>
     (current_state c = Error \<longrightarrow> map_option current_state (processEvent c event) =
        Some (if event \<in> {PowerOff, Reset} then Off else Error))"
  using assms by (cases "current_state c"; cases event) (simp_all add: led_defs vget_def)

theorem led_error_handling_witness:
  "map_option current_state (processEvent LEDController Fault) = Some Error"
  using led_error_handling [of LEDController Fault] by (simp add: LEDController_def)

lemma led_main_final: "map_option getState led_main = Some Off"
  by code_simp

end
