(* ===== verification/Virtual_Memory.thy ===== *)
theory Virtual_Memory
  imports Prelude "HOL-Library.Word"
begin

text \<open>
  src/src/systems/os/virtual_memory.cpp: single-level page table with a four-entry TLB replaced
  round robin. Addresses and page numbers are 32-bit words, counters 64-bit words. The lines
  mapPage and flushTLB print are not part of the state.
\<close>

section \<open>Definitions\<close>

unbundle bit_operations_syntax

type_synonym u32 = "32 word"
type_synonym u64 = "64 word"

definition PAGE_SIZE :: u32 where
  "PAGE_SIZE = 4096"

definition OFFSET_BITS :: nat where
  "OFFSET_BITS = 12"

definition OFFSET_MASK :: u32 where
  "OFFSET_MASK = PAGE_SIZE - 1"

definition TLB_SIZE :: nat where
  "TLB_SIZE = 4"

record tlb_entry =
  vpn :: u32
  pfn :: u32
  valid :: bool

record virtual_memory =
  page_table :: "u32 \<rightharpoonup> u32"
  tlb :: "tlb_entry list"
  tlb_next :: nat
  tlb_hits :: u64
  tlb_misses :: u64
  page_faults :: u64

record translation_result =
  success :: bool
  physical_addr :: u32
  source_of :: string

definition VirtualMemory :: virtual_memory where
  "VirtualMemory = \<lparr>page_table = Map.empty,
     tlb = replicate TLB_SIZE \<lparr>vpn = 0, pfn = 0, valid = False\<rparr>, tlb_next = 0,
     tlb_hits = 0, tlb_misses = 0, page_faults = 0\<rparr>"

definition mapPage :: "virtual_memory \<Rightarrow> u32 \<Rightarrow> u32 \<Rightarrow> virtual_memory" where
  "mapPage vm virtual_page physical_frame =
     vm\<lparr>page_table := (page_table vm)(virtual_page \<mapsto> physical_frame)\<rparr>"

definition phys_of :: "u32 \<Rightarrow> u32 \<Rightarrow> u32" where
  "phys_of frame offset = push_bit OFFSET_BITS frame OR offset"

fun tlb_lookup :: "tlb_entry list \<Rightarrow> u32 \<Rightarrow> tlb_entry option" where
  "tlb_lookup [] v = None"
| "tlb_lookup (entry # es) v = (if valid entry \<and> vpn entry = v then Some entry else tlb_lookup es v)"

definition translate :: "virtual_memory \<Rightarrow> u32 \<Rightarrow> (translation_result \<times> virtual_memory) ub" where
  "translate vm virtual_addr = (
     let v = drop_bit OFFSET_BITS virtual_addr;
         offset = virtual_addr AND OFFSET_MASK
     in case tlb_lookup (tlb vm) v of
          Some entry \<Rightarrow>
            Some (\<lparr>success = True, physical_addr = phys_of (pfn entry) offset, source_of = ''TLB Hit''\<rparr>,
                  vm\<lparr>tlb_hits := tlb_hits vm + 1\<rparr>)
        | None \<Rightarrow>
            (let vm1 = vm\<lparr>tlb_misses := tlb_misses vm + 1\<rparr>
             in case page_table vm1 v of
                  None \<Rightarrow>
                    Some (\<lparr>success = False, physical_addr = 0, source_of = ''Page Fault''\<rparr>,
                          vm1\<lparr>page_faults := page_faults vm1 + 1\<rparr>)
                | Some frame \<Rightarrow> do {
                    tlb' \<leftarrow> vset (tlb vm1) (int (tlb_next vm1)) \<lparr>vpn = v, pfn = frame, valid = True\<rparr>;
                    Some (\<lparr>success = True, physical_addr = phys_of frame offset,
                           source_of = ''Page Table''\<rparr>,
                          vm1\<lparr>tlb := tlb', tlb_next := (tlb_next vm1 + 1) mod TLB_SIZE\<rparr>) }))"

definition flushTLB :: "virtual_memory \<Rightarrow> virtual_memory" where
  "flushTLB vm = vm\<lparr>tlb := map (\<lambda>entry. entry\<lparr>valid := False\<rparr>) (tlb vm)\<rparr>"

fun translate_all :: "virtual_memory \<Rightarrow> u32 list \<Rightarrow> (translation_result list \<times> virtual_memory) ub" where
  "translate_all vm [] = Some ([], vm)"
| "translate_all vm (a # as) = do {
     (r, vm1) \<leftarrow> translate vm a;
     (rs, vm2) \<leftarrow> translate_all vm1 as;
     Some (r # rs, vm2) }"

definition vm_main :: "(translation_result list \<times> translation_result \<times> virtual_memory) ub" where
  "vm_main = (
     let vm = mapPage (mapPage (mapPage (mapPage VirtualMemory 0 5) 1 8) 2 12) 10 20
     in do {
       (rs, vm1) \<leftarrow> translate_all vm
         [0x00000100, 0x00001200, 0x00000100, 0x00002FFF, 0x0000A004, 0x00005000, 0x00000100];
       (r, vm2) \<leftarrow> translate (flushTLB vm1) 0x00000100;
       Some (rs, r, vm2) })"

section \<open>TLB coherence\<close>

definition coherent :: "virtual_memory \<Rightarrow> bool" where
  "coherent vm \<longleftrightarrow> length (tlb vm) = TLB_SIZE \<and> tlb_next vm < TLB_SIZE \<and>
     (\<forall>e \<in> set (tlb vm). valid e \<longrightarrow> page_table vm (vpn e) = Some (pfn e))"

lemma tlb_lookup_Some:
  "tlb_lookup es v = Some e \<Longrightarrow> e \<in> set es \<and> valid e \<and> vpn e = v"
  by (induction es) (auto split: if_splits)

lemma tlb_lookup_None:
  "tlb_lookup es v = None \<longleftrightarrow> (\<forall>e \<in> set es. \<not> (valid e \<and> vpn e = v))"
  by (induction es) auto

lemma coherent_VirtualMemory: "coherent VirtualMemory"
  by (simp add: coherent_def VirtualMemory_def TLB_SIZE_def)

lemma coherent_flushTLB: "coherent vm \<Longrightarrow> coherent (flushTLB vm)"
  by (auto simp: coherent_def flushTLB_def)

lemma coherent_mapPage:
  "coherent vm \<Longrightarrow> tlb_lookup (tlb vm) p = None \<Longrightarrow> coherent (mapPage vm p f)"
  by (auto simp: coherent_def mapPage_def tlb_lookup_None)

text \<open>What the page table alone says, without a TLB.\<close>

definition walk :: "(u32 \<rightharpoonup> u32) \<Rightarrow> u32 \<Rightarrow> u32 option" where
  "walk pt a = map_option (\<lambda>frame. phys_of frame (a AND OFFSET_MASK)) (pt (drop_bit OFFSET_BITS a))"

text \<open>
  C9: with a coherent TLB, translate always returns, gives the physical address the page table
  gives (a fault exactly for an unmapped page), leaves the page table alone, and keeps the TLB
  coherent: the TLB is invisible except in the statistics.
\<close>
theorem translate_refines_walk:
  assumes "coherent vm"
  shows "\<exists>r vm'. translate vm a = Some (r, vm') \<and> coherent vm' \<and> page_table vm' = page_table vm \<and>
     (if success r then Some (physical_addr r) else None) = walk (page_table vm) a \<and>
     tlb_hits vm' + tlb_misses vm' = tlb_hits vm + tlb_misses vm + 1"
proof (cases "tlb_lookup (tlb vm) (drop_bit OFFSET_BITS a)")
  case (Some e)
  then have "page_table vm (drop_bit OFFSET_BITS a) = Some (pfn e)"
    using assms tlb_lookup_Some [OF Some] by (auto simp: coherent_def)
  then show ?thesis
    using Some assms by (simp add: translate_def walk_def coherent_def)
next
  case miss: None
  show ?thesis
  proof (cases "page_table vm (drop_bit OFFSET_BITS a)")
    case None
    then show ?thesis using miss assms by (simp add: translate_def walk_def coherent_def)
  next
    case (Some frame)
    then show ?thesis
      using miss assms
      by (auto simp: translate_def walk_def coherent_def TLB_SIZE_def dest!: set_update_subset_insert [THEN subsetD])
  qed
qed

theorem translate_refines_walk_witness:
  "\<exists>r vm'. translate VirtualMemory 256 = Some (r, vm') \<and> coherent vm' \<and>
     page_table vm' = page_table VirtualMemory \<and>
     (if success r then Some (physical_addr r) else None) = walk (page_table VirtualMemory) 256 \<and>
     tlb_hits vm' + tlb_misses vm' = tlb_hits VirtualMemory + tlb_misses VirtualMemory + 1"
  by (rule translate_refines_walk) (rule coherent_VirtualMemory)

text \<open>
  Claim: the offset inside the page survives translation and the frame number is not damaged,
  for frames below 2 ^ 20 (the frame field of a 32-bit physical address).
\<close>
theorem phys_of_fields:
  assumes "frame < 2 ^ 20"
  shows "drop_bit OFFSET_BITS (phys_of frame (a AND OFFSET_MASK)) = frame \<and>
     phys_of frame (a AND OFFSET_MASK) AND OFFSET_MASK = a AND OFFSET_MASK"
proof -
  have m: "OFFSET_MASK = mask 12" by (simp add: OFFSET_MASK_def PAGE_SIZE_def mask_eq_exp_minus_1)
  have "frame = take_bit 20 frame"
    using assms by (metis less_mask_eq take_bit_eq_mask)
  then have low: "n < 20" if "bit frame n" for n
    using that by (metis bit_take_bit_iff)
  have "drop_bit 12 (push_bit 12 frame OR (a AND mask 12)) = frame"
  proof (rule bit_word_eqI)
    fix n
    assume "n < LENGTH(32)"
    show "bit (drop_bit 12 (push_bit 12 frame OR (a AND mask 12))) n = bit frame n"
      using low [of n] by (auto simp: bit_simps)
  qed
  moreover have "(push_bit 12 frame OR (a AND mask 12)) AND mask 12 = a AND mask 12"
  proof (rule bit_word_eqI)
    fix n
    assume "n < LENGTH(32)"
    then show "bit ((push_bit 12 frame OR (a AND mask 12)) AND mask 12) n = bit (a AND mask 12) n"
      by (auto simp: bit_simps)
  qed
  ultimately show ?thesis by (simp add: m phys_of_def OFFSET_BITS_def)
qed

theorem phys_of_fields_witness:
  "drop_bit OFFSET_BITS (phys_of 5 (256 AND OFFSET_MASK)) = 5"
  using phys_of_fields [of 5 256] by simp

text \<open>
  Claim: mapPage does not invalidate the TLB, so remapping a page that is cached leaves a stale
  translation: the next access still goes to the old frame.
\<close>
theorem mapPage_leaves_stale_tlb:
  "\<exists>vm. coherent vm \<and> \<not> coherent (mapPage vm 0 9) \<and>
     map_option (\<lambda>(r, _). physical_addr r) (translate (mapPage vm 0 9) 256) = Some 0x5100 \<and>
     walk (page_table (mapPage vm 0 9)) 256 = Some 0x9100"
proof -
  let ?vm = "VirtualMemory\<lparr>page_table := [0 \<mapsto> 5],
    tlb := \<lparr>vpn = 0, pfn = 5, valid = True\<rparr> # replicate 3 \<lparr>vpn = 0, pfn = 0, valid = False\<rparr>\<rparr>"
  have "coherent ?vm" by (simp add: coherent_def VirtualMemory_def TLB_SIZE_def)
  moreover have "\<not> coherent (mapPage ?vm 0 9)"
    by (simp add: coherent_def VirtualMemory_def TLB_SIZE_def mapPage_def)
  moreover have "map_option (\<lambda>(r, _). physical_addr r) (translate (mapPage ?vm 0 9) 256) = Some 0x5100"
    by (simp add: translate_def VirtualMemory_def mapPage_def OFFSET_BITS_def OFFSET_MASK_def
        PAGE_SIZE_def phys_of_def)
  moreover have "walk (page_table (mapPage ?vm 0 9)) 256 = Some 0x9100"
    by (simp add: walk_def VirtualMemory_def mapPage_def OFFSET_BITS_def OFFSET_MASK_def
        PAGE_SIZE_def phys_of_def)
  ultimately show ?thesis by blast
qed

lemma vm_main_output:
  "map_option (\<lambda>(rs, r, vm). (map (\<lambda>x. (success x, physical_addr x)) rs, source_of r,
      tlb_hits vm, tlb_misses vm, page_faults vm)) vm_main =
   Some ([(True, 0x5100), (True, 0x8200), (True, 0x5100), (True, 0xCFFF), (True, 0x14004),
      (False, 0), (True, 0x5100)], ''Page Table'', 2, 6, 1)"
  by code_simp

end
