(* ===== verification/Price_Levels.thy ===== *)
theory Price_Levels
  imports Prelude "HOL-Library.Word"
begin

text \<open>
  std::map from a price to the list of orders at that price, shared by the order book and the
  matching engine: an association list kept in the map's iteration order. The comparator lt is
  std::less for ascending and std::greater for descending maps.
\<close>

section \<open>Definitions\<close>

type_synonym ('p, 'o) levels = "('p \<times> 'o list) list"

fun level_push :: "('p \<Rightarrow> 'p \<Rightarrow> bool) \<Rightarrow> ('p, 'o) levels \<Rightarrow> 'p \<Rightarrow> 'o \<Rightarrow> ('p, 'o) levels" where
  "level_push lt [] p x = [(p, [x])]"
| "level_push lt ((q, xs) # ls) p x =
     (if lt p q then (p, [x]) # (q, xs) # ls
      else if p = q then (q, xs @ [x]) # ls
      else (q, xs) # level_push lt ls p x)"

fun level_find :: "('p, 'o) levels \<Rightarrow> 'p \<Rightarrow> 'o list option" where
  "level_find [] p = None"
| "level_find ((q, xs) # ls) p = (if p = q then Some xs else level_find ls p)"

fun level_update :: "('p, 'o) levels \<Rightarrow> 'p \<Rightarrow> 'o list \<Rightarrow> ('p, 'o) levels" where
  "level_update [] p ys = []"
| "level_update ((q, xs) # ls) p ys =
     (if p = q then (if ys = [] then ls else (q, ys) # ls) else (q, xs) # level_update ls p ys)"

definition resting :: "('p, 'o) levels \<Rightarrow> 'o list" where
  "resting ls = concat (map snd ls)"

definition levels_ok :: "('p \<Rightarrow> 'p \<Rightarrow> bool) \<Rightarrow> ('p, 'o) levels \<Rightarrow> bool" where
  "levels_ok lt ls \<longleftrightarrow> sorted_wrt lt (map fst ls) \<and> (\<forall>(p, xs) \<in> set ls. xs \<noteq> [])"

locale price_order =
  fixes lt :: "'p \<Rightarrow> 'p \<Rightarrow> bool"
  assumes lt_irrefl: "\<not> lt p p"
    and lt_trans: "lt p q \<Longrightarrow> lt q r \<Longrightarrow> lt p r"
    and lt_total: "p \<noteq> q \<Longrightarrow> lt p q \<or> lt q p"
begin

lemma keys_push: "fst ` set (level_push lt ls p x) = insert p (fst ` set ls)"
proof (induction ls)
  case (Cons l ls)
  then show ?case by (cases l) (simp add: insert_commute)
qed simp

lemma levels_ok_push: "levels_ok lt ls \<Longrightarrow> levels_ok lt (level_push lt ls p x)"
proof (induction ls)
  case Nil
  then show ?case by (simp add: levels_ok_def)
next
  case (Cons l ls)
  obtain q xs where l: "l = (q, xs)" by (cases l)
  have ok: "levels_ok lt ls" "\<forall>r \<in> fst ` set ls. lt q r" "xs \<noteq> []"
    using Cons.prems by (auto simp: l levels_ok_def)
  consider "lt p q" | "p = q" | "lt q p" "p \<noteq> q" "\<not> lt p q"
    using lt_total lt_irrefl by blast
  then show ?case
  proof cases
    case 1
    then show ?thesis using ok by (auto simp: l levels_ok_def intro: lt_trans)
  next
    case 2
    then show ?thesis using ok by (auto simp: l levels_ok_def lt_irrefl)
  next
    case 3
    have "\<forall>r \<in> fst ` set (level_push lt ls p x). lt q r" 
      unfolding keys_push using ok(2) 3 by blast
    then show ?thesis using Cons.IH [OF ok(1)] ok(3) 3 by (auto simp: l levels_ok_def)
  qed
qed

lemma push_keeps_priority:
  "levels_ok lt ls \<Longrightarrow> resting (level_push lt ls p x) =
     resting (takeWhile (\<lambda>(q, _). \<not> lt p q) ls) @ [x] @ resting (dropWhile (\<lambda>(q, _). \<not> lt p q) ls)"
proof (induction ls)
  case Nil
  then show ?case by (simp add: resting_def)
next
  case (Cons l ls)
  obtain q xs where l: "l = (q, xs)" by (cases l)
  have ok: "levels_ok lt ls" "\<forall>r \<in> fst ` set ls. lt q r"
    using Cons.prems by (auto simp: l levels_ok_def)
  show ?case
  proof (cases "p = q")
    case True
    have "takeWhile (\<lambda>(q, _). \<not> lt p q) ls = []" "dropWhile (\<lambda>(q, _). \<not> lt p q) ls = ls"
      using ok(2) True by (cases ls; force)+
    then show ?thesis using True by (simp add: l resting_def lt_irrefl)
  next
    case False
    then show ?thesis using Cons.IH [OF ok(1)] by (simp add: l resting_def)
  qed
qed

lemma mset_resting_push:
  "mset (resting (level_push lt ls p x)) = add_mset x (mset (resting ls))"
  by (induction ls) (auto simp: resting_def)

lemma levels_ok_tl: "levels_ok lt (l # ls) \<Longrightarrow> levels_ok lt ls"
  by (simp add: levels_ok_def)

lemma levels_ok_hd: "levels_ok lt ((p, xs) # ls) \<Longrightarrow> ys \<noteq> [] \<Longrightarrow> levels_ok lt ((p, ys) # ls)"
  by (simp add: levels_ok_def)

lemma best_is_extreme:
  "levels_ok lt ((p, xs) # ls) \<Longrightarrow> q \<in> fst ` set ls \<Longrightarrow> lt p q"
  by (auto simp: levels_ok_def)

lemma keys_update: "fst ` set (level_update ls p ys) \<subseteq> fst ` set ls"
proof (induction ls)
  case (Cons l ls)
  then show ?case by (cases l) (simp add: subset_insertI2)
qed simp

lemma levels_ok_update: "levels_ok lt ls \<Longrightarrow> levels_ok lt (level_update ls p ys)"
proof (induction ls)
  case (Cons l ls)
  obtain q xs where l: "l = (q, xs)" by (cases l)
  have ok: "levels_ok lt ls" "\<forall>r \<in> fst ` set ls. lt q r" "xs \<noteq> []"
    using Cons.prems by (auto simp: l levels_ok_def)
  have "\<forall>r \<in> fst ` set (level_update ls p ys). lt q r" using ok(2) keys_update by fast
  then show ?case using Cons.IH [OF ok(1)] ok by (auto simp: l levels_ok_def)
qed (simp add: levels_ok_def)

lemma level_find_set:
  "levels_ok lt ls \<Longrightarrow> level_find ls p = Some xs \<longleftrightarrow> (p, xs) \<in> set ls"
proof (induction ls)
  case (Cons l ls)
  obtain q ys where l: "l = (q, ys)" by (cases l)
  have "levels_ok lt ls" "\<forall>r \<in> fst ` set ls. lt q r"
    using Cons.prems by (auto simp: l levels_ok_def)
  then show ?case using Cons.IH by (force simp: l lt_irrefl)
qed simp

lemma level_find_None: "level_find ls p = None \<longleftrightarrow> p \<notin> fst ` set ls"
  by (induction ls p rule: level_find.induct) auto

lemma find_push:
  "levels_ok lt ls \<Longrightarrow> level_find (level_push lt ls p x) q =
     (if q = p then Some ((case level_find ls p of None \<Rightarrow> [] | Some xs \<Rightarrow> xs) @ [x]) else level_find ls q)"
proof (induction ls)
  case (Cons l ls)
  obtain r xs where l: "l = (r, xs)" by (cases l)
  have ok: "levels_ok lt ls" "\<forall>s \<in> fst ` set ls. lt r s"
    using Cons.prems by (auto simp: l levels_ok_def)
  have "level_find ls p = None" if "lt p r"
    using ok(2) that lt_trans lt_irrefl unfolding level_find_None by blast
  then show ?case using Cons.IH [OF ok(1)] lt_irrefl by (auto simp: l)
qed auto

lemma find_update:
  "levels_ok lt ls \<Longrightarrow> level_find (level_update ls p ys) q =
     (if q = p then (if ys = [] \<or> level_find ls p = None then None else Some ys) else level_find ls q)"
proof (induction ls)
  case (Cons l ls)
  obtain r xs where l: "l = (r, xs)" by (cases l)
  have ok: "levels_ok lt ls" "\<forall>s \<in> fst ` set ls. lt r s"
    using Cons.prems by (auto simp: l levels_ok_def)
  have "level_find ls r = None"
    using ok(2) lt_irrefl unfolding level_find_None by blast
  then show ?case using Cons.IH [OF ok(1)] by (auto simp: l)
qed simp

lemma last_is_extreme:
  assumes "levels_ok lt ls" "ls \<noteq> []" "q \<in> fst ` set ls"
  shows "q = fst (last ls) \<or> lt q (fst (last ls))"
proof -
  obtain bs l where "ls = bs @ [l]" using assms(2) by (cases ls rule: rev_cases) auto
  then show ?thesis using assms(1,3) by (auto simp: levels_ok_def sorted_wrt_append)
qed

end

interpretation asc: price_order "(<) :: 'p::linorder \<Rightarrow> 'p \<Rightarrow> bool"
  by unfold_locales auto

interpretation desc: price_order "(>) :: 'p::linorder \<Rightarrow> 'p \<Rightarrow> bool"
  by unfold_locales auto

end
