(* ===== verification/Matching_Engine.thy ===== *)
theory Matching_Engine
  imports Price_Levels
begin

text \<open>
  src/src/systems/hft/matching_engine.cpp: price-time priority matching. Prices are compared and
  copied only, so any linear order stands for double without NaN; ids and timestamps are 64-bit
  words, quantities 32-bit words. The bids map is ordered by std::greater, the asks by std::less.
\<close>

section \<open>Definitions\<close>

datatype side = Buy | Sell

record 'p order =
  order_id :: "64 word"
  order_side :: side
  price :: 'p
  quantity :: "32 word"
  order_time :: "64 word"

record 'p trade =
  buy_order_id :: "64 word"
  sell_order_id :: "64 word"
  trade_price :: 'p
  trade_quantity :: "32 word"

record 'p engine =
  bids :: "('p, 'p order) levels"
  asks :: "('p, 'p order) levels"
  trades :: "'p trade list"
  next_order_id :: "64 word"
  clock :: "64 word"

definition MatchingEngine :: "'p engine" where
  "MatchingEngine = \<lparr>bids = [], asks = [], trades = [], next_order_id = 1, clock = 0\<rparr>"

text \<open>
  The matching loop, over the opposite book: no_match is the comparison that breaks the loop and
  mk_trade builds the trade of the incoming order with a resting one.
\<close>

function match_loop ::
  "('p \<Rightarrow> 'p \<Rightarrow> bool) \<Rightarrow> (64 word \<Rightarrow> 'p order \<Rightarrow> 32 word \<Rightarrow> 'p trade) \<Rightarrow>
   'p order \<Rightarrow> ('p, 'p order) levels \<Rightarrow> 'p trade list \<Rightarrow>
   ('p order \<times> ('p, 'p order) levels \<times> 'p trade list) ub" where
  "match_loop no_match mk_trade incoming [] ts = Some (incoming, [], ts)"
| "match_loop no_match mk_trade incoming ((p, os) # rest) ts =
     (if quantity incoming > 0 then
        if no_match (price incoming) p then Some (incoming, (p, os) # rest, ts)
        else (case os of
            [] \<Rightarrow> None
          | r # os' \<Rightarrow>
              (let fill_qty = min (quantity incoming) (quantity r);
                   ts' = ts @ [mk_trade (order_id incoming) r fill_qty];
                   incoming' = incoming\<lparr>quantity := quantity incoming - fill_qty\<rparr>;
                   r' = r\<lparr>quantity := quantity r - fill_qty\<rparr>
               in if quantity r' = 0
                  then match_loop no_match mk_trade incoming'
                         (if os' = [] then rest else (p, os') # rest) ts'
                  else match_loop no_match mk_trade incoming' ((p, r' # os') # rest) ts'))
      else Some (incoming, (p, os) # rest, ts))"
  by pat_completeness auto
termination
  by (relation "measure (\<lambda>(nm, mk, incoming, ls, ts).
       2 * length (resting ls) + (if quantity incoming > 0 then 1 else 0))")
    (auto simp: resting_def min_def split: if_splits)

definition buy_trade :: "64 word \<Rightarrow> 'p order \<Rightarrow> 32 word \<Rightarrow> 'p trade" where
  "buy_trade i r q = \<lparr>buy_order_id = i, sell_order_id = order_id r, trade_price = price r, trade_quantity = q\<rparr>"

definition sell_trade :: "64 word \<Rightarrow> 'p order \<Rightarrow> 32 word \<Rightarrow> 'p trade" where
  "sell_trade i r q = \<lparr>buy_order_id = order_id r, sell_order_id = i, trade_price = price r, trade_quantity = q\<rparr>"

definition matchBuy :: "'p::linorder engine \<Rightarrow> 'p order \<Rightarrow> 'p engine ub" where
  "matchBuy e incoming = do {
     (incoming', asks', ts) \<leftarrow> match_loop (\<lambda>p best_ask. p < best_ask) buy_trade incoming (asks e) (trades e);
     let e' = e\<lparr>asks := asks', trades := ts\<rparr>;
     Some (if quantity incoming' > 0
           then e'\<lparr>bids := level_push (>) (bids e') (price incoming') incoming'\<rparr> else e') }"

definition matchSell :: "'p::linorder engine \<Rightarrow> 'p order \<Rightarrow> 'p engine ub" where
  "matchSell e incoming = do {
     (incoming', bids', ts) \<leftarrow> match_loop (\<lambda>p best_bid. p > best_bid) sell_trade incoming (bids e) (trades e);
     let e' = e\<lparr>bids := bids', trades := ts\<rparr>;
     Some (if quantity incoming' > 0
           then e'\<lparr>asks := level_push (<) (asks e') (price incoming') incoming'\<rparr> else e') }"

definition submitOrder :: "'p::linorder engine \<Rightarrow> side \<Rightarrow> 'p \<Rightarrow> 32 word \<Rightarrow> (64 word \<times> 'p engine) ub" where
  "submitOrder e s p qty = (
     let incoming = \<lparr>order_id = next_order_id e, order_side = s, price = p, quantity = qty,
           order_time = clock e\<rparr>;
         e1 = e\<lparr>next_order_id := next_order_id e + 1, clock := clock e + 1\<rparr>
     in do {
       e2 \<leftarrow> (if s = Buy then matchBuy e1 incoming else matchSell e1 incoming);
       Some (order_id incoming, e2) })"

text \<open>printBook: the price levels with their total quantities, asks from the highest price down.\<close>

definition level_totals :: "('p, 'p order) levels \<Rightarrow> ('p \<times> 32 word) list" where
  "level_totals ls = map (\<lambda>(p, os). (p, foldl (\<lambda>qty x. qty + quantity x) 0 os)) ls"

definition printBook :: "'p engine \<Rightarrow> ('p \<times> 32 word) list \<times> ('p \<times> 32 word) list" where
  "printBook e = (level_totals (rev (asks e)), level_totals (bids e))"

definition submit :: "'p::linorder engine \<Rightarrow> side \<times> 'p \<times> 32 word \<Rightarrow> 'p engine ub" where
  "submit e = (\<lambda>(s, p, q). map_option snd (submitOrder e s p q))"

fun submit_all :: "'p::linorder engine \<Rightarrow> (side \<times> 'p \<times> 32 word) list \<Rightarrow> 'p engine ub" where
  "submit_all e [] = Some e"
| "submit_all e (x # xs) = do { e' \<leftarrow> submit e x; submit_all e' xs }"

text \<open>The demonstration of main, with prices in cents.\<close>

definition engine_main :: "int engine ub" where
  "engine_main = submit_all MatchingEngine
     [(Buy, 10000, 500), (Buy, 9950, 300), (Sell, 10100, 400), (Sell, 10150, 200),
      (Buy, 10100, 250), (Sell, 9900, 700)]"

section \<open>Invariants\<close>

definition side_ok :: "('p \<Rightarrow> 'p \<Rightarrow> bool) \<Rightarrow> side \<Rightarrow> ('p, 'p order) levels \<Rightarrow> bool" where
  "side_ok lt s ls \<longleftrightarrow> levels_ok lt ls \<and>
     (\<forall>(p, os) \<in> set ls. \<forall>x \<in> set os. price x = p \<and> order_side x = s \<and> 0 < quantity x)"

definition uncrossed :: "('p::linorder, 'p order) levels \<Rightarrow> ('p, 'p order) levels \<Rightarrow> bool" where
  "uncrossed bs as \<longleftrightarrow> (\<forall>b \<in> fst ` set bs. \<forall>a \<in> fst ` set as. b < a)"

text \<open>
  Price-time priority: better prices come first, and of equal prices the earlier order; every time stamp
  is before the clock.
\<close>

definition ahead :: "('p \<Rightarrow> 'p \<Rightarrow> bool) \<Rightarrow> 'p order \<Rightarrow> 'p order \<Rightarrow> bool" where
  "ahead better x y \<longleftrightarrow> better (price x) (price y) \<or> price x = price y \<and> order_time x < order_time y"

definition prioritised :: "('p \<Rightarrow> 'p \<Rightarrow> bool) \<Rightarrow> 64 word \<Rightarrow> 'p order list \<Rightarrow> bool" where
  "prioritised better now os \<longleftrightarrow> sorted_wrt (ahead better) os \<and> (\<forall>x \<in> set os. order_time x < now)"

definition engine_ok :: "'p::linorder engine \<Rightarrow> bool" where
  "engine_ok e \<longleftrightarrow> side_ok (>) Buy (bids e) \<and> side_ok (<) Sell (asks e) \<and>
     uncrossed (bids e) (asks e) \<and>
     prioritised (>) (clock e) (resting (bids e)) \<and> prioritised (<) (clock e) (resting (asks e))"

section \<open>The queues of a book\<close>

text \<open>
  The specification knows no price levels: each side is one queue of orders. An incoming order is filled from the
  front of the opposite queue for as long as the prices cross, only the last order it meets in part; what is left
  of it queues on its own side, behind every order whose price is not worse.
\<close>

record 'p book =
  bid_queue :: "'p order list"
  ask_queue :: "'p order list"
  trade_log :: "'p trade list"
  next_id :: "64 word"
  now :: "64 word"

definition queues_of :: "'p engine \<Rightarrow> 'p book" where
  "queues_of e = \<lparr>bid_queue = resting (bids e), ask_queue = resting (asks e), trade_log = trades e,
     next_id = next_order_id e, now = clock e\<rparr>"

text \<open>The orders that are met with the quantities they trade, the rest of the queue, the quantity that is left.\<close>

fun fill_queue ::
  "('p \<Rightarrow> bool) \<Rightarrow> 32 word \<Rightarrow> 'p order list \<Rightarrow> ('p order \<times> 32 word) list \<times> 'p order list \<times> 32 word" where
  "fill_queue crosses q [] = ([], [], q)"
| "fill_queue crosses q (r # rs) =
     (if q = 0 \<or> \<not> crosses (price r) then ([], r # rs, q)
      else if quantity r \<le> q
      then (case fill_queue crosses (q - quantity r) rs of (fs, rest, left) \<Rightarrow> ((r, quantity r) # fs, rest, left))
      else ([(r, q)], r\<lparr>quantity := quantity r - q\<rparr> # rs, 0))"

definition queue_behind :: "('p \<Rightarrow> 'p \<Rightarrow> bool) \<Rightarrow> 'p order \<Rightarrow> 'p order list \<Rightarrow> 'p order list" where
  "queue_behind better x os = takeWhile (\<lambda>y. \<not> better (price x) (price y)) os @ [x] @
     dropWhile (\<lambda>y. \<not> better (price x) (price y)) os"

definition match_spec :: "'p::linorder order \<Rightarrow> 'p book \<Rightarrow> 'p book" where
  "match_spec x b = (case order_side x of
     Buy \<Rightarrow> (case fill_queue (\<lambda>a. a \<le> price x) (quantity x) (ask_queue b) of (fs, rest, left) \<Rightarrow>
       b\<lparr>ask_queue := rest, trade_log := trade_log b @ map (\<lambda>(r, f). buy_trade (order_id x) r f) fs,
         bid_queue := (if left = 0 then bid_queue b else queue_behind (>) (x\<lparr>quantity := left\<rparr>) (bid_queue b))\<rparr>)
   | Sell \<Rightarrow> (case fill_queue (\<lambda>a. price x \<le> a) (quantity x) (bid_queue b) of (fs, rest, left) \<Rightarrow>
       b\<lparr>bid_queue := rest, trade_log := trade_log b @ map (\<lambda>(r, f). sell_trade (order_id x) r f) fs,
         ask_queue := (if left = 0 then ask_queue b else queue_behind (<) (x\<lparr>quantity := left\<rparr>) (ask_queue b))\<rparr>))"

definition submit_spec :: "side \<Rightarrow> 'p::linorder \<Rightarrow> 32 word \<Rightarrow> 'p book \<Rightarrow> 'p book" where
  "submit_spec s p qty b = match_spec
     \<lparr>order_id = next_id b, order_side = s, price = p, quantity = qty, order_time = now b\<rparr>
     (b\<lparr>next_id := next_id b + 1, now := now b + 1\<rparr>)"

definition volume :: "'p order list \<Rightarrow> nat" where
  "volume os = (\<Sum>x\<leftarrow>os. unat (quantity x))"

definition traded :: "'p trade list \<Rightarrow> nat" where
  "traded ts = (\<Sum>t\<leftarrow>ts. unat (trade_quantity t))"

lemma volume_simps [simp]:
  "volume [] = 0" "volume (x # xs) = unat (quantity x) + volume xs"
  "volume (xs @ ys) = volume xs + volume ys"
  by (simp_all add: volume_def)

lemma traded_simps [simp]:
  "traded [] = 0" "traded (t # ts) = unat (trade_quantity t) + traded ts"
  "traded (us @ ts) = traded us + traded ts"
  by (simp_all add: traded_def)

lemma resting_simps [simp]:
  "resting [] = []" "resting ((p, os) # ls) = os @ resting ls"
  by (simp_all add: resting_def)

lemma match_loop_done: "quantity incoming = 0 \<Longrightarrow> match_loop nm mk incoming ls ts = Some (incoming, ls, ts)"
  by (cases "(nm, mk, incoming, ls, ts)" rule: match_loop.cases) auto

lemma side_ok_tl: "side_ok lt s (l # ls) \<Longrightarrow> side_ok lt s ls"
  by (simp add: side_ok_def levels_ok_def)

lemma side_ok_pop:
  "side_ok lt s ((p, r # os) # ls) \<Longrightarrow> side_ok lt s (if os = [] then ls else (p, os) # ls)"
  by (auto simp: side_ok_def levels_ok_def)

lemma side_ok_reduce:
  "side_ok lt s ((p, r # os) # ls) \<Longrightarrow> 0 < q \<Longrightarrow> side_ok lt s ((p, r\<lparr>quantity := q\<rparr> # os) # ls)"
  by (auto simp: side_ok_def levels_ok_def)

lemma unat_fill:
  fixes q r :: "32 word"
  shows "unat (min q r) + unat (q - min q r) = unat q" "unat (min q r) + unat (r - min q r) = unat r"
  by (auto simp: min_def unat_sub word_le_nat_alt)

text \<open>What one run of the matching loop does: the result, its invariant and its accounting.\<close>

definition match_post ::
  "('p \<Rightarrow> 'p \<Rightarrow> bool) \<Rightarrow> side \<Rightarrow> ('p \<Rightarrow> 'p \<Rightarrow> bool) \<Rightarrow> (64 word \<Rightarrow> 'p order \<Rightarrow> 32 word \<Rightarrow> 'p trade) \<Rightarrow>
   'p order \<Rightarrow> ('p, 'p order) levels \<Rightarrow> 'p order \<Rightarrow> ('p, 'p order) levels \<Rightarrow> 'p trade list \<Rightarrow> bool" where
  "match_post lt s no_match mk incoming ls incoming' ls' ts \<longleftrightarrow>
     side_ok lt s ls' \<and> fst ` set ls' \<subseteq> fst ` set ls \<and>
     order_id incoming' = order_id incoming \<and> order_side incoming' = order_side incoming \<and>
     price incoming' = price incoming \<and> order_time incoming' = order_time incoming \<and>
     (quantity incoming' = 0 \<or> ls' = [] \<or> no_match (price incoming) (fst (hd ls'))) \<and>
     unat (quantity incoming') + traded ts = unat (quantity incoming) \<and>
     volume (resting ls') + traded ts = volume (resting ls) \<and>
     (\<exists>fs. ts = map2 (mk (order_id incoming)) (take (length fs) (resting ls)) fs \<and>
        length fs \<le> length (resting ls) \<and> (\<forall>f \<in> set fs. 0 < f)) \<and>
     (\<forall>t \<in> set ts. \<not> no_match (price incoming) (trade_price t))"

lemma resting_pop:
  "resting (if os = [] then ls else (p, os) # ls) = os @ resting ls"
  by simp

lemma keys_pop: "fst ` set (if os = [] then ls else (p, os) # ls) \<subseteq> fst ` set ((p, r # os) # ls)"
  by auto

lemma match_post_stop:
  assumes "side_ok lt s ls" "quantity incoming = 0 \<or> ls = [] \<or> no_match (price incoming) (fst (hd ls))"
  shows "match_post lt s no_match mk incoming ls incoming ls []"
proof -
  have "\<exists>fs. [] = map2 (mk (order_id incoming)) (take (length fs) (resting ls)) fs \<and>
      length fs \<le> length (resting ls) \<and> (\<forall>f \<in> set fs. 0 < f)"
    by (rule exI [of _ "[]"]) simp
  then show ?thesis using assms unfolding match_post_def by simp
qed

lemma match_post_fill:
  fixes incoming :: "'p order"
  assumes post: "match_post lt s no_match mk (incoming\<lparr>quantity := quantity incoming - f\<rparr>)
      (if os = [] then ls else (p, os) # ls) incoming' ls' us"
    and mk: "\<And>i r q. trade_quantity (mk i r q) = q" "\<And>i r q. trade_price (mk i r q) = price r"
    and f: "f = min (quantity incoming) (quantity r)" "quantity r - f = 0" "0 < f"
    and p: "price r = p" "\<not> no_match (price incoming) p"
  shows "match_post lt s no_match mk incoming ((p, r # os) # ls) incoming' ls'
    (mk (order_id incoming) r f # us)"
proof -
  obtain fs where fs: "us = map2 (mk (order_id incoming)) (take (length fs) (os @ resting ls)) fs"
    "length fs \<le> length (os @ resting ls)" "\<forall>g \<in> set fs. 0 < g"
    using post by (auto simp: match_post_def resting_pop)
  have "mk (order_id incoming) r f # us = map2 (mk (order_id incoming))
      (take (length (f # fs)) (resting ((p, r # os) # ls))) (f # fs)"
    by (simp add: fs(1))
  moreover have "length (f # fs) \<le> length (resting ((p, r # os) # ls))" "\<forall>g \<in> set (f # fs). 0 < g"
    using fs(2,3) f(3) by auto
  ultimately have ex: "\<exists>fs. mk (order_id incoming) r f # us = map2 (mk (order_id incoming))
      (take (length fs) (resting ((p, r # os) # ls))) fs \<and>
      length fs \<le> length (resting ((p, r # os) # ls)) \<and> (\<forall>g \<in> set fs. 0 < g)"
    by (intro exI [of _ "f # fs"] conjI)
  have q: "unat f + unat (quantity incoming - f) = unat (quantity incoming)"
    "unat f = unat (quantity r)"
    using unat_fill [of "quantity incoming" "quantity r"] f(1,2) by simp_all
  have "fst ` set ls' \<subseteq> fst ` set ((p, r # os) # ls)"
    using post keys_pop [of os ls p r] unfolding match_post_def by blast
  then show ?thesis
    using post ex q p unfolding match_post_def
    by (auto simp: resting_pop mk)
qed

lemma match_loop_post:
  fixes incoming :: "'p order"
  assumes mk: "\<And>i r q. trade_quantity (mk i r q) = q" "\<And>i r q. trade_price (mk i r q) = price r"
    and ok: "side_ok lt s ls"
  shows "\<exists>incoming' ls' us. match_loop no_match mk incoming ls ts = Some (incoming', ls', ts @ us) \<and>
     match_post lt s no_match mk incoming ls incoming' ls' us"
  using ok
proof (induction "length (resting ls)" arbitrary: incoming ls ts rule: less_induct)
  case less
  show ?case
  proof (cases "quantity incoming = 0 \<or> ls = [] \<or> no_match (price incoming) (fst (hd ls))")
    case True
    then have "match_loop no_match mk incoming ls ts = Some (incoming, ls, ts)"
      by (cases ls) (auto simp: match_loop_done)
    moreover have "match_post lt s no_match mk incoming ls incoming ls []"
      by (rule match_post_stop) (use less.prems True in simp_all)
    ultimately show ?thesis by fastforce
  next
    case False
    then obtain p os rest where ls: "ls = (p, os) # rest" by (cases ls) auto
    with less.prems obtain r os' where os: "os = r # os'"
      by (cases os) (auto simp: side_ok_def levels_ok_def)
    have nm: "\<not> no_match (price incoming) p" and pos: "0 < quantity incoming"
      using False by (auto simp: ls word_gt_0)
    have r: "price r = p" "0 < quantity r" using less.prems by (auto simp: ls os side_ok_def)
    let ?f = "min (quantity incoming) (quantity r)"
    let ?i = "incoming\<lparr>quantity := quantity incoming - ?f\<rparr>"
    let ?t = "mk (order_id incoming) r ?f"
    have f: "0 < ?f" using pos r by simp
    show ?thesis
    proof (cases "quantity r - ?f = 0")
      case True
      let ?ls = "if os' = [] then rest else (p, os') # rest"
      have step: "match_loop no_match mk incoming ls ts = match_loop no_match mk ?i ?ls (ts @ [?t])"
        using pos nm True by (simp add: ls os Let_def)
      have "\<exists>incoming' ls' us. match_loop no_match mk ?i ?ls (ts @ [?t]) =
          Some (incoming', ls', (ts @ [?t]) @ us) \<and> match_post lt s no_match mk ?i ?ls incoming' ls' us"
      proof (rule less.hyps)
        show "length (resting ?ls) < length (resting ls)" by (simp add: ls os)
        show "side_ok lt s ?ls" 
          by (rule side_ok_pop) (use less.prems in \<open>simp add: ls os\<close>)
      qed
      then obtain incoming' ls' us where
        res: "match_loop no_match mk ?i ?ls (ts @ [?t]) = Some (incoming', ls', (ts @ [?t]) @ us)"
        and post: "match_post lt s no_match mk ?i ?ls incoming' ls' us"
        by blast
      have "match_post lt s no_match mk incoming ls incoming' ls' (?t # us)"
        unfolding ls os by (rule match_post_fill [OF post mk refl True f r(1) nm])
      moreover have "match_loop no_match mk incoming ls ts = Some (incoming', ls', ts @ (?t # us))"
        using step res by simp
      ultimately show ?thesis by blast
    next
      case left: False
      let ?ls = "(p, r\<lparr>quantity := quantity r - ?f\<rparr> # os') # rest"
      have "?f = quantity incoming" using left by (auto simp: min_def split: if_splits)
      then have q0: "quantity ?i = 0" by simp
      have "match_loop no_match mk incoming ls ts = match_loop no_match mk ?i ?ls (ts @ [?t])"
        using pos nm left by (simp add: ls os Let_def)
      also have "\<dots> = Some (?i, ?ls, ts @ [?t])" using q0 by (rule match_loop_done)
      finally have step: "match_loop no_match mk incoming ls ts = Some (?i, ?ls, ts @ [?t])" .
      have "side_ok lt s ?ls"
        using side_ok_reduce [of lt s p r os' rest] less.prems left unfolding ls os
        by (simp add: word_gt_0)
      moreover have "\<exists>fs. [?t] = map2 (mk (order_id incoming)) (take (length fs) (resting ls)) fs \<and>
          length fs \<le> length (resting ls) \<and> (\<forall>f \<in> set fs. 0 < f)"
        using f by (intro exI [of _ "[?f]"]) (simp add: ls os)
      ultimately have "match_post lt s no_match mk incoming ls ?i ?ls [?t]"
        using q0 nm r unat_fill [of "quantity incoming" "quantity r"]
        unfolding match_post_def ls os by (auto simp: mk)
      then show ?thesis using step by blast
    qed
  qed
qed

lemma hd_is_best:
  "levels_ok lt ls \<Longrightarrow> ls \<noteq> [] \<Longrightarrow> q \<in> fst ` set ls \<Longrightarrow> q = fst (hd ls) \<or> lt (fst (hd ls)) q"
  by (cases ls) (auto simp: levels_ok_def)

lemma push_members:
  "(q, os) \<in> set (level_push lt ls p x) \<Longrightarrow> y \<in> set os \<Longrightarrow>
   y = x \<and> q = p \<or> (\<exists>os'. (q, os') \<in> set ls \<and> y \<in> set os')"
proof (induction ls)
  case (Cons l ls)
  then show ?case by (cases l) (auto split: if_splits)
qed simp

lemma asc_side_push:
  "side_ok (<) s ls \<Longrightarrow> price x = p \<Longrightarrow> order_side x = s \<Longrightarrow> 0 < quantity x \<Longrightarrow>
   side_ok (<) s (level_push (<) ls (p :: 'p::linorder) x)"
  unfolding side_ok_def by (fastforce simp: asc.levels_ok_push dest: push_members)

lemma desc_side_push:
  "side_ok (>) s ls \<Longrightarrow> price x = p \<Longrightarrow> order_side x = s \<Longrightarrow> 0 < quantity x \<Longrightarrow>
   side_ok (>) s (level_push (>) ls (p :: 'p::linorder) x)"
  unfolding side_ok_def by (fastforce simp: desc.levels_ok_push dest: push_members)

lemma volume_push:
  "volume (resting (level_push lt ls p x)) = unat (quantity x) + volume (resting ls)"
  by (induction ls) auto

lemma keys_level_push: "fst ` set (level_push lt ls p x) \<subseteq> insert p (fst ` set ls)"
proof (induction ls)
  case (Cons l ls)
  then show ?case by (cases l) (auto simp: image_iff)
qed simp

lemma match_post_counterparts:
  assumes "match_post lt s no_match mk i ls i' ls' us" "\<And>j r q. cp (mk j r q) = order_id r"
  shows "map cp us = map order_id (take (length us) (resting ls))"
proof -
  obtain fs where fs: "us = map2 (mk (order_id i)) (take (length fs) (resting ls)) fs"
    "length fs \<le> length (resting ls)"
    using assms(1) by (auto simp: match_post_def)
  have "map cp us = map (order_id \<circ> fst) (zip (take (length fs) (resting ls)) fs)"
    by (simp add: fs(1) assms(2) case_prod_unfold)
  also have "\<dots> = map order_id (map fst (zip (take (length fs) (resting ls)) fs))" by simp
  also have "map fst (zip (take (length fs) (resting ls)) fs) = take (length fs) (resting ls)"
    using fs(2) by simp
  finally show ?thesis using fs by simp
qed

text \<open>The matching loop over levels fills the queue of their orders.\<close>

lemma match_loop_fills:
  "match_loop no_match mk i ls ts = Some (i', ls', ts') \<Longrightarrow> side_ok lt s ls \<Longrightarrow>
   fill_queue (\<lambda>p. \<not> no_match (price i) p) (quantity i) (resting ls) = (fs, rest, q) \<Longrightarrow>
   i' = i\<lparr>quantity := q\<rparr> \<and> resting ls' = rest \<and> ts' = ts @ map (\<lambda>(r, f). mk (order_id i) r f) fs"
proof (induction no_match mk i ls ts arbitrary: fs rest q rule: match_loop.induct)
  case (1 no_match mk incoming ts)
  then show ?case by auto
next
  case (2 no_match mk i p os ls ts)
  show ?case
  proof (cases "quantity i = 0 \<or> no_match (price i) p")
    case True
    obtain r os' where os: "os = r # os'" "price r = p"
      using "2.prems"(2) by (cases os) (auto simp: side_ok_def levels_ok_def)
    have "(i', ls', ts') = (i, (p, os) # ls, ts)" "(fs, rest, q) = ([], resting ((p, os) # ls), quantity i)"
      using True "2.prems"(1,3) os by (auto simp: word_gt_0 split: if_splits)
    then show ?thesis by simp
  next
    case False
    then have pos: "quantity i > 0" "\<not> no_match (price i) p" by (simp_all add: word_gt_0)
    obtain r os' where os: "os = r # os'" "price r = p"
      using "2.prems"(2) by (cases os) (auto simp: side_ok_def levels_ok_def)
    let ?f = "min (quantity i) (quantity r)"
    let ?i = "i\<lparr>quantity := quantity i - ?f\<rparr>"
    let ?t = "mk (order_id i) r ?f"
    show ?thesis
    proof (cases "quantity r \<le> quantity i")
      case True
      then have f: "?f = quantity r" by (simp add: min_def)
      let ?ls = "if os' = [] then ls else (p, os') # ls"
      have run: "match_loop no_match mk ?i ?ls (ts @ [?t]) = Some (i', ls', ts')"
        using "2.prems"(1) pos os(1) f by (simp add: Let_def)
      obtain fs1 rest1 q1 where fill: "fill_queue (\<lambda>p. \<not> no_match (price i) p) (quantity i - quantity r) (os' @ resting ls) = (fs1, rest1, q1)"
        by (metis prod_cases3)
      have "side_ok lt s ?ls" by (rule side_ok_pop) (use "2.prems"(2) in \<open>simp add: os\<close>)
      moreover have "resting ?ls = os' @ resting ls" by simp
      ultimately have IH: "i' = ?i\<lparr>quantity := q1\<rparr> \<and> resting ls' = rest1 \<and>
          ts' = (ts @ [?t]) @ map (\<lambda>(r, f). mk (order_id ?i) r f) fs1"
        using "2.IH"(1) [OF pos os(1) refl refl refl refl, of fs1 rest1 q1] run fill f by simp
      have "(fs, rest, q) = ((r, quantity r) # fs1, rest1, q1)"
        using "2.prems"(3) fill pos True os by (auto simp: word_gt_0)
      then show ?thesis using IH f by simp
    next
      case left: False
      then have f: "?f = quantity i" "quantity r - quantity i \<noteq> 0" by (auto simp: min_def)
      have "match_loop no_match mk i ((p, os) # ls) ts =
          match_loop no_match mk ?i ((p, r\<lparr>quantity := quantity r - ?f\<rparr> # os') # ls) (ts @ [?t])"
        using pos os(1) f by (simp add: Let_def)
      also have "\<dots> = Some (?i, (p, r\<lparr>quantity := quantity r - ?f\<rparr> # os') # ls, ts @ [?t])"
        by (rule match_loop_done) (simp add: f)
      finally have "(i', ls', ts') = (?i, (p, r\<lparr>quantity := quantity r - ?f\<rparr> # os') # ls, ts @ [?t])"
        using "2.prems"(1) by simp
      moreover have "(fs, rest, q) = ([(r, quantity i)], r\<lparr>quantity := quantity r - quantity i\<rparr> # os' @ resting ls, 0)"
        using "2.prems"(3) pos left os by (auto simp: word_gt_0)
      ultimately show ?thesis using f(1) by simp
    qed
  qed
qed

text \<open>Filling keeps the priority of those who are left, and so does queueing behind the orders that are no worse.\<close>

lemma ahead_quantity: "ahead better (x\<lparr>quantity := q\<rparr>) y = ahead better x y" "ahead better y (x\<lparr>quantity := q\<rparr>) = ahead better y x"
  by (simp_all add: ahead_def)

lemma prioritised_fill:
  "prioritised better t os \<Longrightarrow> fill_queue crosses q os = (fs, rest, left) \<Longrightarrow> prioritised better t rest"
proof (induction crosses q os arbitrary: fs rest left rule: fill_queue.induct)
  case (2 crosses q r rs)
  have "prioritised better t rs" using "2.prems"(1) by (simp add: prioritised_def)
  then show ?case using 2 by (auto simp: prioritised_def ahead_quantity split: if_splits prod.splits)
qed simp

lemma prioritised_queue:
  assumes lt: "price_order better" and os: "prioritised better (order_time x) os" and t: "order_time x < t"
  shows "prioritised better t (queue_behind better x os)"
proof -
  let ?P = "\<lambda>y. \<not> better (price x) (price y)"
  have sorted: "sorted_wrt (ahead better) (takeWhile ?P os @ dropWhile ?P os)" and time: "\<forall>y \<in> set os. order_time y < order_time x"
    using os by (simp_all add: prioritised_def)
  have front: "ahead better y x" if "y \<in> set (takeWhile ?P os)" for y
    using set_takeWhileD [OF that] time price_order.lt_total [OF lt, of "price x" "price y"] by (auto simp: ahead_def)
  have behind: "ahead better x y" if y: "y \<in> set (dropWhile ?P os)" for y
  proof -
    obtain z zs where z: "dropWhile ?P os = z # zs" using y by (cases "dropWhile ?P os") auto
    then have "better (price x) (price z)" by (auto simp: dropWhile_eq_Cons_conv)
    moreover have "y = z \<or> ahead better z y" using sorted y z by (auto simp: sorted_wrt_append)
    ultimately show ?thesis using price_order.lt_trans [OF lt] by (auto simp: ahead_def)
  qed
  have "sorted_wrt (ahead better) (queue_behind better x os)"
    using sorted [unfolded sorted_wrt_append] front behind by (auto simp: queue_behind_def sorted_wrt_append)
  moreover have "set (queue_behind better x os) = insert x (set (takeWhile ?P os @ dropWhile ?P os))"
    unfolding queue_behind_def set_append by auto
  ultimately show ?thesis using time t by (auto simp: prioritised_def)
qed

lemma while_resting:
  assumes "side_ok lt s ls"
  shows "resting (takeWhile (\<lambda>(q, _). P q) ls) = takeWhile (\<lambda>y. P (price y)) (resting ls)"
    and "resting (dropWhile (\<lambda>(q, _). P q) ls) = dropWhile (\<lambda>y. P (price y)) (resting ls)"
proof -
  have "resting (takeWhile (\<lambda>(q, _). P q) ls) = takeWhile (\<lambda>y. P (price y)) (resting ls) \<and>
    resting (dropWhile (\<lambda>(q, _). P q) ls) = dropWhile (\<lambda>y. P (price y)) (resting ls)"
    using assms
  proof (induction ls)
    case (Cons l ls)
    obtain p os where l: "l = (p, os)" by (cases l)
    have os: "os \<noteq> []" "\<forall>x \<in> set os. price x = p" using Cons.prems by (auto simp: l side_ok_def levels_ok_def)
    have IH: "resting (takeWhile (\<lambda>(q, _). P q) ls) = takeWhile (\<lambda>y. P (price y)) (resting ls) \<and>
        resting (dropWhile (\<lambda>(q, _). P q) ls) = dropWhile (\<lambda>y. P (price y)) (resting ls)"
      using Cons side_ok_tl by blast
    show ?case
    proof (cases "P p")
      case True
      then have "\<forall>x \<in> set os. P (price x)" using os(2) by simp
      then show ?thesis using IH True by (simp add: l takeWhile_append2 dropWhile_append2)
    next
      case False
      then show ?thesis using os by (cases os) (auto simp: l)
    qed
  qed simp
  then show "resting (takeWhile (\<lambda>(q, _). P q) ls) = takeWhile (\<lambda>y. P (price y)) (resting ls)"
    and "resting (dropWhile (\<lambda>(q, _). P q) ls) = dropWhile (\<lambda>y. P (price y)) (resting ls)" by simp_all
qed

lemma asc_push_queue:
  "side_ok (<) s (ls :: ('p::linorder, 'p order) levels) \<Longrightarrow> resting (level_push (<) ls (price x) x) = queue_behind (<) x (resting ls)"
  using asc.push_keeps_priority [of ls "price x" x] while_resting [of "(<)" s ls "\<lambda>q. \<not> price x < q"]
  by (simp add: side_ok_def queue_behind_def)

lemma desc_push_queue:
  "side_ok (>) s (ls :: ('p::linorder, 'p order) levels) \<Longrightarrow> resting (level_push (>) ls (price x) x) = queue_behind (>) x (resting ls)"
  using desc.push_keeps_priority [of ls "price x" x] while_resting [of "(>)" s ls "\<lambda>q. \<not> q < price x"]
  by (simp add: side_ok_def queue_behind_def)


text \<open>The post-condition of one submission against the opposite side opp.\<close>

definition submit_post ::
  "'p::linorder engine \<Rightarrow> ('p, 'p order) levels \<Rightarrow> ('p trade \<Rightarrow> 64 word) \<Rightarrow> ('p \<Rightarrow> bool) \<Rightarrow>
   32 word \<Rightarrow> 'p engine \<Rightarrow> bool" where
  "submit_post e opp cp limit qty e' \<longleftrightarrow> engine_ok e' \<and> (\<exists>us. trades e' = trades e @ us \<and>
     volume (resting (bids e')) + volume (resting (asks e')) + 2 * traded us =
       volume (resting (bids e)) + volume (resting (asks e)) + unat qty \<and>
     (\<forall>t \<in> set us. limit (trade_price t)) \<and>
     map cp us = map order_id (take (length us) (resting opp)))"

text \<open>The time of an incoming order: after those of the book, before the clock.\<close>

definition newest :: "'p::linorder engine \<Rightarrow> 'p order \<Rightarrow> bool" where
  "newest e i \<longleftrightarrow> order_time i < clock e \<and> prioritised (>) (order_time i) (resting (bids e)) \<and>
     prioritised (<) (order_time i) (resting (asks e))"

lemma prioritised_later: "prioritised better t os \<Longrightarrow> t \<le> u \<Longrightarrow> prioritised better u os"
  by (auto simp: prioritised_def)

lemma newest_ok: "newest e i \<Longrightarrow> t = clock e \<Longrightarrow> prioritised (>) t (resting (bids e)) \<and> prioritised (<) t (resting (asks e))"
  unfolding newest_def by (meson less_imp_le prioritised_later)

lemma matchBuy_ok:
  assumes ok: "engine_ok e" and i: "order_side i = Buy" and new: "newest e i"
  shows "\<exists>e'. matchBuy e i = Some e' \<and> queues_of e' = match_spec i (queues_of e) \<and>
    submit_post e (asks e) sell_order_id (\<lambda>p. p \<le> price i) (quantity i) e'"
proof -
  have asks: "side_ok (<) Sell (asks e)" using ok by (simp add: engine_ok_def)
  obtain i' ls us where run: "match_loop (<) buy_trade i (asks e) (trades e) = Some (i', ls, trades e @ us)"
    and post: "match_post (<) Sell (<) buy_trade i (asks e) i' ls us"
    using match_loop_post [OF _ _ asks, of buy_trade "(<)" i "trades e"] by (auto simp: buy_trade_def)
  obtain fs rest left where fill: "fill_queue (\<lambda>p. p \<le> price i) (quantity i) (resting (asks e)) = (fs, rest, left)"
    by (metis prod_cases3)
  then have filled: "i' = i\<lparr>quantity := left\<rparr>" "resting ls = rest" "us = map (\<lambda>(r, f). buy_trade (order_id i) r f) fs"
    using match_loop_fills [OF run asks, of fs rest left] by (simp_all add: not_less)
  let ?e = "e\<lparr>asks := ls, trades := trades e @ us\<rparr>"
  let ?e' = "if quantity i' > 0 then ?e\<lparr>bids := level_push (>) (bids e) (price i') i'\<rparr> else ?e"
  have ls: "side_ok (<) Sell ls" "fst ` set ls \<subseteq> fst ` set (asks e)"
    and i': "price i' = price i" "order_side i' = Buy" "order_time i' = order_time i"
    and q: "quantity i' = 0 \<or> ls = [] \<or> price i < fst (hd ls)"
    and sums: "unat (quantity i') + traded us = unat (quantity i)"
      "volume (resting ls) + traded us = volume (resting (asks e))"
    and lim: "\<forall>t \<in> set us. \<not> price i < trade_price t"
    using post i unfolding match_post_def by auto
  have bids: "side_ok (>) Buy (bids e)" and unc: "uncrossed (bids e) ls"
    using ok ls(2) unfolding engine_ok_def uncrossed_def by (blast, blast)
  note queue = desc_push_queue [OF bids, of i']
  have prio: "prioritised (<) (clock e) (resting ls)" "prioritised (>) (clock e) (resting (bids e))"
      "prioritised (>) (clock e) (queue_behind (>) i' (resting (bids e)))"
    using newest_ok [OF new refl] prioritised_fill [OF _ fill] filled(2) new i'(3)
      prioritised_queue [OF desc.price_order_axioms, of i' "resting (bids e)" "clock e"] by (simp_all add: newest_def)
  have gt: "\<forall>a \<in> fst ` set ls. price i < a" if "quantity i' > 0"
    using q that hd_is_best [of "(<)" ls] ls(1) unfolding side_ok_def by fastforce
  have "engine_ok ?e'"
  proof (cases "quantity i' > 0")
    case True
    have "side_ok (>) Buy (level_push (>) (bids e) (price i') i')"
      by (rule desc_side_push) (use bids i' True in simp_all)
    moreover have "uncrossed (level_push (>) (bids e) (price i') i') ls"
      unfolding uncrossed_def
    proof (intro ballI)
      fix b a
      assume b: "b \<in> fst ` set (level_push (>) (bids e) (price i') i')" and a: "a \<in> fst ` set ls"
      have "b \<in> insert (price i') (fst ` set (bids e))" by (rule subsetD [OF keys_level_push b])
      then show "b < a" using bspec [OF gt [OF True] a] unc [unfolded uncrossed_def] a i'(1) by (elim insertE) auto
    qed
    ultimately show ?thesis using True ls(1) prio queue by (simp add: engine_ok_def)
  next
    case False
    then show ?thesis using bids unc ls(1) prio by (simp add: engine_ok_def)
  qed
  moreover have "volume (resting (bids ?e')) + volume (resting (asks ?e')) + 2 * traded us =
      volume (resting (bids e)) + volume (resting (asks e)) + unat (quantity i)"
    by (cases "quantity i' = 0") (use sums in \<open>auto simp: volume_push word_gt_0\<close>)
  moreover have "map sell_order_id us = map order_id (take (length us) (resting (asks e)))"
    by (rule match_post_counterparts [OF post]) (simp add: buy_trade_def)
  ultimately have "submit_post e (asks e) sell_order_id (\<lambda>p. p \<le> price i) (quantity i) ?e'"
    unfolding submit_post_def using lim by (intro conjI exI [of _ us]) (auto simp: not_less)
  moreover have "queues_of ?e' = match_spec i (queues_of e)"
    using fill filled i queue by (simp add: queues_of_def match_spec_def word_gt_0)
  moreover have "matchBuy e i = Some ?e'" by (simp add: matchBuy_def run)
  ultimately show ?thesis by blast
qed

lemma matchSell_ok:
  assumes ok: "engine_ok e" and i: "order_side i = Sell" and new: "newest e i"
  shows "\<exists>e'. matchSell e i = Some e' \<and> queues_of e' = match_spec i (queues_of e) \<and>
    submit_post e (bids e) buy_order_id (\<lambda>p. price i \<le> p) (quantity i) e'"
proof -
  have bids: "side_ok (>) Buy (bids e)" using ok by (simp add: engine_ok_def)
  obtain i' ls us where run: "match_loop (>) sell_trade i (bids e) (trades e) = Some (i', ls, trades e @ us)"
    and post: "match_post (>) Buy (>) sell_trade i (bids e) i' ls us"
    using match_loop_post [OF _ _ bids, of sell_trade "(>)" i "trades e"] by (auto simp: sell_trade_def)
  obtain fs rest left where fill: "fill_queue (\<lambda>p. price i \<le> p) (quantity i) (resting (bids e)) = (fs, rest, left)"
    by (metis prod_cases3)
  then have filled: "i' = i\<lparr>quantity := left\<rparr>" "resting ls = rest" "us = map (\<lambda>(r, f). sell_trade (order_id i) r f) fs"
    using match_loop_fills [OF run bids, of fs rest left] by (simp_all add: not_less)
  let ?e = "e\<lparr>bids := ls, trades := trades e @ us\<rparr>"
  let ?e' = "if quantity i' > 0 then ?e\<lparr>asks := level_push (<) (asks e) (price i') i'\<rparr> else ?e"
  have ls: "side_ok (>) Buy ls" "fst ` set ls \<subseteq> fst ` set (bids e)"
    and i': "price i' = price i" "order_side i' = Sell" "order_time i' = order_time i"
    and q: "quantity i' = 0 \<or> ls = [] \<or> price i > fst (hd ls)"
    and sums: "unat (quantity i') + traded us = unat (quantity i)"
      "volume (resting ls) + traded us = volume (resting (bids e))"
    and lim: "\<forall>t \<in> set us. \<not> price i > trade_price t"
    using post i unfolding match_post_def by auto
  have asks: "side_ok (<) Sell (asks e)" and unc: "uncrossed ls (asks e)"
    using ok ls(2) unfolding engine_ok_def uncrossed_def by (blast, blast)
  note queue = asc_push_queue [OF asks, of i']
  have prio: "prioritised (>) (clock e) (resting ls)" "prioritised (<) (clock e) (resting (asks e))"
      "prioritised (<) (clock e) (queue_behind (<) i' (resting (asks e)))"
    using newest_ok [OF new refl] prioritised_fill [OF _ fill] filled(2) new i'(3)
      prioritised_queue [OF asc.price_order_axioms, of i' "resting (asks e)" "clock e"] by (simp_all add: newest_def)
  have gt: "\<forall>b \<in> fst ` set ls. b < price i" if "quantity i' > 0"
    using q that hd_is_best [of "(>)" ls] ls(1) unfolding side_ok_def by fastforce
  have "engine_ok ?e'"
  proof (cases "quantity i' > 0")
    case True
    have "side_ok (<) Sell (level_push (<) (asks e) (price i') i')"
      by (rule asc_side_push) (use asks i' True in simp_all)
    moreover have "uncrossed ls (level_push (<) (asks e) (price i') i')"
      unfolding uncrossed_def
    proof (intro ballI)
      fix b a
      assume b: "b \<in> fst ` set ls" and a: "a \<in> fst ` set (level_push (<) (asks e) (price i') i')"
      have "a \<in> insert (price i') (fst ` set (asks e))" by (rule subsetD [OF keys_level_push a])
      then show "b < a" using bspec [OF gt [OF True] b] unc [unfolded uncrossed_def] b i'(1) by (elim insertE) auto
    qed
    ultimately show ?thesis using True ls(1) prio queue by (simp add: engine_ok_def)
  next
    case False
    then show ?thesis using asks unc ls(1) prio by (simp add: engine_ok_def)
  qed
  moreover have "volume (resting (bids ?e')) + volume (resting (asks ?e')) + 2 * traded us =
      volume (resting (bids e)) + volume (resting (asks e)) + unat (quantity i)"
    by (cases "quantity i' = 0") (use sums in \<open>auto simp: volume_push word_gt_0\<close>)
  moreover have "map buy_order_id us = map order_id (take (length us) (resting (bids e)))"
    by (rule match_post_counterparts [OF post]) (simp add: sell_trade_def)
  ultimately have "submit_post e (bids e) buy_order_id (\<lambda>p. price i \<le> p) (quantity i) ?e'"
    unfolding submit_post_def using lim by (intro conjI exI [of _ us]) (auto simp: not_less)
  moreover have "queues_of ?e' = match_spec i (queues_of e)"
    using fill filled i queue by (simp add: queues_of_def match_spec_def word_gt_0)
  moreover have "matchSell e i = Some ?e'" by (simp add: matchSell_def run)
  ultimately show ?thesis by blast
qed

section \<open>Properties\<close>

lemma engine_ok_MatchingEngine: "engine_ok MatchingEngine"
  by (simp add: engine_ok_def MatchingEngine_def side_ok_def levels_ok_def uncrossed_def prioritised_def)

text \<open>The clock does not wrap around before 2 ^ 64 - 1 orders.\<close>

lemma clock_max: "w < - 1 \<longleftrightarrow> unat w + 1 < 2 ^ 64" for w :: "64 word"
proof -
  have "unat (- 1 :: 64 word) = 2 ^ 64 - 1" by (simp add: unsigned_minus_1_eq_mask mask_eq_exp_minus_1)
  then show ?thesis unfolding word_less_nat_alt by linarith
qed

lemma clock_ticks:
  fixes w :: "64 word"
  assumes "w < - 1"
  shows "unat (w + 1) = unat w + 1" and "w < w + 1"
proof -
  show "unat (w + 1) = unat w + 1" using assms unat_add_lem [of w 1] by (simp add: clock_max)
  then show "w < w + 1" by (simp add: word_less_nat_alt)
qed

lemma submitOrder_post:
  assumes "engine_ok e" and "clock e < - 1"
  shows "\<exists>e'. submitOrder e s p qty = Some (next_order_id e, e') \<and> queues_of e' = submit_spec s p qty (queues_of e) \<and>
    (if s = Buy then submit_post e (asks e) sell_order_id (\<lambda>x. x \<le> p) qty e'
     else submit_post e (bids e) buy_order_id (\<lambda>x. p \<le> x) qty e')"
proof -
  let ?i = "\<lparr>order_id = next_order_id e, order_side = s, price = p, quantity = qty, order_time = clock e\<rparr>"
  let ?e = "e\<lparr>next_order_id := next_order_id e + 1, clock := clock e + 1\<rparr>"
  have tick: "clock e < clock e + 1" using assms(2) by (rule clock_ticks)
  have ok: "engine_ok ?e" "newest ?e ?i"
    using assms(1) tick by (auto simp: engine_ok_def newest_def intro: prioritised_later)
  have "submit_spec s p qty (queues_of e) = match_spec ?i (queues_of ?e)"
    by (simp add: submit_spec_def queues_of_def)
  then show ?thesis
    using matchBuy_ok [OF ok(1) _ ok(2)] matchSell_ok [OF ok(1) _ ok(2)]
    by (cases s) (fastforce simp: submitOrder_def submit_post_def)+
qed

text \<open>
  C1: on a well-formed, uncrossed book whose queues are in price-time priority, submitOrder returns the next id and does to the
  book exactly what submit_spec does to its two queues: the order is filled from the front of the opposite
  queue while the prices cross, and what is left of it queues behind every order of its side whose price is
  not worse. The book is again well formed, uncrossed (every bid below every ask, no empty level, no order of
  no units) and in price-time priority; every unit traded leaves both sides, so volume is conserved; a buy trades at no more and
  a sell at no less than its limit.
\<close>
theorem submitOrder_correct:
  assumes "engine_ok e" and "clock e < - 1"
  shows "\<exists>e'. submitOrder e s p qty = Some (next_order_id e, e') \<and> queues_of e' = submit_spec s p qty (queues_of e) \<and>
    (if s = Buy then submit_post e (asks e) sell_order_id (\<lambda>x. x \<le> p) qty e'
     else submit_post e (bids e) buy_order_id (\<lambda>x. p \<le> x) qty e')"
  using assms by (rule submitOrder_post)

theorem submitOrder_correct_witness:
  "\<exists>e'. submitOrder (MatchingEngine :: int engine) Buy 100 5 = Some (1, e') \<and>
     queues_of e' = submit_spec Buy 100 5 (queues_of MatchingEngine) \<and>
     submit_post MatchingEngine [] sell_order_id (\<lambda>x. x \<le> 100) 5 e'"
  using submitOrder_correct [OF engine_ok_MatchingEngine, of Buy "100 :: int" 5]
  by (simp add: MatchingEngine_def clock_max)

lemma submit_all_ok:
  "engine_ok e \<Longrightarrow> unat (clock e) + length xs < 2 ^ 64 \<Longrightarrow> \<exists>e'. submit_all e xs = Some e' \<and> engine_ok e'"
proof (induction xs arbitrary: e)
  case (Cons x xs)
  obtain s p q where x: "x = (s, p, q)" by (cases x)
  have clock: "clock e < - 1" using Cons.prems(2) by (simp add: clock_max)
  obtain e' where e': "submitOrder e s p q = Some (next_order_id e, e')" "engine_ok e'" "queues_of e' = submit_spec s p q (queues_of e)"
    using submitOrder_post [OF Cons.prems(1) clock, of s p q] by (auto simp: submit_post_def split: if_splits)
  have "now (submit_spec s p q (queues_of e)) = clock e + 1"
    by (simp add: submit_spec_def match_spec_def queues_of_def split: side.split prod.split)
  then have "clock e' = clock e + 1" using e'(3) by (metis book.select_convs(5) queues_of_def)
  moreover have "unat (clock e + 1) = unat (clock e) + 1" using clock by (rule clock_ticks)
  ultimately show ?case using Cons.IH [of e'] Cons.prems(2) e'(1,2) by (simp add: x submit_def)
qed simp

text \<open>After any run both queues are in price-time priority, of orders of the right side and price.\<close>

lemma run_prioritised:
  assumes "length xs < 2 ^ 64" and "submit_all MatchingEngine xs = Some e"
  shows "sorted_wrt (ahead (>)) (resting (bids e))" and "sorted_wrt (ahead (<)) (resting (asks e))"
  using submit_all_ok [OF engine_ok_MatchingEngine, of xs] assms by (simp_all add: engine_ok_def prioritised_def MatchingEngine_def)

lemma engine_main_trades:
  "map_option (map (\<lambda>t. (buy_order_id t, sell_order_id t, trade_price t, trade_quantity t)) \<circ> trades)
     engine_main =
   Some [(5, 3, 10100, 250), (1, 6, 10000, 500), (2, 6, 9950, 200)]"
  by code_simp

lemma engine_main_book:
  "map_option printBook engine_main =
   Some ([(10150, 200), (10100, 150)], [(9950, 100)])"
  by code_simp

end
