(* ===== verification/Command_Editor.thy ===== *)
theory Command_Editor
  imports Prelude
begin

text \<open>
  src/src/patterns/command.cpp: a text document edited through command objects with undo and redo.
  std::string::insert, erase and substr throw std::out_of_range when the position lies behind the
  end; that exception is None. The stacks have their top first.
\<close>

section \<open>Definitions\<close>

definition doc_insert :: "string \<Rightarrow> nat \<Rightarrow> string \<Rightarrow> string option" where
  "doc_insert text pos s = (if pos \<le> length text then Some (take pos text @ s @ drop pos text) else None)"

definition doc_erase :: "string \<Rightarrow> nat \<Rightarrow> nat \<Rightarrow> string option" where
  "doc_erase text pos len = (if pos \<le> length text then Some (take pos text @ drop (pos + len) text) else None)"

definition doc_substr :: "string \<Rightarrow> nat \<Rightarrow> nat \<Rightarrow> string option" where
  "doc_substr text pos len = (if pos \<le> length text then Some (take len (drop pos text)) else None)"

text \<open>A command with its members; execute of a deletion stores the deleted text in the command.\<close>

datatype command =
    InsertCommand nat string
  | DeleteCommand nat nat string

fun cmd_execute :: "command \<Rightarrow> string \<Rightarrow> (command \<times> string) option" where
  "cmd_execute (InsertCommand pos text) doc = do {
     doc' \<leftarrow> doc_insert doc pos text;
     Some (InsertCommand pos text, doc') }"
| "cmd_execute (DeleteCommand pos len deleted) doc = do {
     deleted' \<leftarrow> doc_substr doc pos len;
     doc' \<leftarrow> doc_erase doc pos len;
     Some (DeleteCommand pos len deleted', doc') }"

fun cmd_undo :: "command \<Rightarrow> string \<Rightarrow> string option" where
  "cmd_undo (InsertCommand pos text) doc = doc_erase doc pos (length text)"
| "cmd_undo (DeleteCommand pos len deleted) doc = doc_insert doc pos deleted"

record ('c, 'd) editor =
  doc :: 'd
  undo_stack :: "'c list"
  redo_stack :: "'c list"

definition TextEditor :: "(command, string) editor" where
  "TextEditor = \<lparr>doc = '''', undo_stack = [], redo_stack = []\<rparr>"

definition executeCmd ::
  "('c \<Rightarrow> 'd \<Rightarrow> ('c \<times> 'd) option) \<Rightarrow> ('c, 'd) editor \<Rightarrow> 'c \<Rightarrow> ('c, 'd) editor option" where
  "executeCmd execute e cmd = do {
     (cmd', doc') \<leftarrow> execute cmd (doc e);
     Some \<lparr>doc = doc', undo_stack = cmd' # undo_stack e, redo_stack = []\<rparr> }"

definition editor_undo ::
  "('c \<Rightarrow> 'd \<Rightarrow> 'd option) \<Rightarrow> ('c, 'd) editor \<Rightarrow> ('c, 'd) editor option" where
  "editor_undo undo e = (case undo_stack e of
       [] \<Rightarrow> Some e
     | cmd # rest \<Rightarrow> do {
         doc' \<leftarrow> undo cmd (doc e);
         Some \<lparr>doc = doc', undo_stack = rest, redo_stack = cmd # redo_stack e\<rparr> })"

definition editor_redo ::
  "('c \<Rightarrow> 'd \<Rightarrow> ('c \<times> 'd) option) \<Rightarrow> ('c, 'd) editor \<Rightarrow> ('c, 'd) editor option" where
  "editor_redo execute e = (case redo_stack e of
       [] \<Rightarrow> Some e
     | cmd # rest \<Rightarrow> do {
         (cmd', doc') \<leftarrow> execute cmd (doc e);
         Some \<lparr>doc = doc', undo_stack = cmd' # undo_stack e, redo_stack = rest\<rparr> })"

definition insert_text :: "(command, string) editor \<Rightarrow> nat \<Rightarrow> string \<Rightarrow> (command, string) editor option" where
  "insert_text e pos text = executeCmd cmd_execute e (InsertCommand pos text)"

definition erase_text :: "(command, string) editor \<Rightarrow> nat \<Rightarrow> nat \<Rightarrow> (command, string) editor option" where
  "erase_text e pos len = executeCmd cmd_execute e (DeleteCommand pos len '''')"

text \<open>The calls a client makes, and the demonstration of main with the texts it asserts.\<close>

datatype edit = Insert nat string | Erase nat nat | Undo | Redo

fun edit_step :: "(command, string) editor \<Rightarrow> edit \<Rightarrow> (command, string) editor option" where
  "edit_step e (Insert pos text) = insert_text e pos text"
| "edit_step e (Erase pos len) = erase_text e pos len"
| "edit_step e Undo = editor_undo cmd_undo e"
| "edit_step e Redo = editor_redo cmd_execute e"

fun edit_texts :: "(command, string) editor \<Rightarrow> edit list \<Rightarrow> string list option" where
  "edit_texts e [] = Some []"
| "edit_texts e (x # xs) = do {
     e' \<leftarrow> edit_step e x;
     ts \<leftarrow> edit_texts e' xs;
     Some (doc e' # ts) }"

definition command_main :: "string list option" where
  "command_main = edit_texts TextEditor
     [Insert 0 ''Hello World'', Insert 5 '', Beautiful'', Erase 5 11, Undo, Undo, Redo]"

section \<open>The history contract\<close>

text \<open>
  Abstractly the editor is a zipper of documents: the past ones (latest first), the current one
  and the undone ones (next first).
\<close>

type_synonym 'd history = "'d list \<times> 'd \<times> 'd list"

fun hist_do :: "'d \<Rightarrow> 'd history \<Rightarrow> 'd history" where
  "hist_do d' (past, d, future) = (d # past, d', [])"

fun hist_undo :: "'d history \<Rightarrow> 'd history" where
  "hist_undo ([], d, future) = ([], d, future)"
| "hist_undo (p # past, d, future) = (past, p, d # future)"

fun hist_redo :: "'d history \<Rightarrow> 'd history" where
  "hist_redo (past, d, []) = (past, d, [])"
| "hist_redo (past, d, f # future) = (d # past, f, future)"

locale undoable =
  fixes execute :: "'c \<Rightarrow> 'd \<Rightarrow> ('c \<times> 'd) option"
    and undo :: "'c \<Rightarrow> 'd \<Rightarrow> 'd option"
  assumes undo_execute: "execute c d = Some (c', d') \<Longrightarrow> undo c' d' = Some d"
    and execute_again: "execute c d = Some (c', d') \<Longrightarrow> execute c' d = Some (c', d')"
begin

fun undo_chain :: "'d \<Rightarrow> 'c list \<Rightarrow> 'd list \<Rightarrow> bool" where
  "undo_chain d [] ps = (ps = [])"
| "undo_chain d (c # cs) ps = (\<exists>p ps'. ps = p # ps' \<and> execute c p = Some (c, d) \<and> undo_chain p cs ps')"

fun redo_chain :: "'d \<Rightarrow> 'c list \<Rightarrow> 'd list \<Rightarrow> bool" where
  "redo_chain d [] fs = (fs = [])"
| "redo_chain d (c # cs) fs = (\<exists>f fs'. fs = f # fs' \<and> execute c d = Some (c, f) \<and> redo_chain f cs fs')"

definition sim :: "('c, 'd) editor \<Rightarrow> 'd history \<Rightarrow> bool" where
  "sim e = (\<lambda>(past, d, future). doc e = d \<and> undo_chain d (undo_stack e) past \<and>
     redo_chain d (redo_stack e) future)"

lemma sim_execute:
  assumes "sim e h" "executeCmd execute e c = Some e'"
  shows "sim e' (hist_do (doc e') h)"
  using assms by (cases h)
    (auto simp: sim_def executeCmd_def bind_eq_Some_conv dest: execute_again)

lemma sim_undo: "sim e h \<Longrightarrow> \<exists>e'. editor_undo undo e = Some e' \<and> sim e' (hist_undo h)"
proof -
  assume s: "sim e h"
  obtain past d future where h: "h = (past, d, future)" by (cases h) auto
  show ?thesis
  proof (cases "undo_stack e")
    case Nil
    then show ?thesis using s by (auto simp: h sim_def editor_undo_def)
  next
    case (Cons c cs)
    then obtain p ps where p: "past = p # ps" "execute c p = Some (c, d)" "undo_chain p cs ps" "doc e = d"
      using s by (auto simp: h sim_def)
    then have "undo c d = Some p" by (blast intro: undo_execute)
    then show ?thesis using Cons p s by (auto simp: h sim_def editor_undo_def)
  qed
qed

lemma sim_redo: "sim e h \<Longrightarrow> \<exists>e'. editor_redo execute e = Some e' \<and> sim e' (hist_redo h)"
proof -
  assume s: "sim e h"
  obtain past d future where h: "h = (past, d, future)" by (cases h) auto
  show ?thesis
  proof (cases "redo_stack e")
    case Nil
    then show ?thesis using s by (auto simp: h sim_def editor_redo_def)
  next
    case (Cons c cs)
    then show ?thesis using s by (auto simp: h sim_def editor_redo_def)
  qed
qed

end

lemma cmd_undo_execute: "cmd_execute c d = Some (c', d') \<Longrightarrow> cmd_undo c' d' = Some d"
proof (cases c)
  case (DeleteCommand pos len deleted)
  assume "cmd_execute c d = Some (c', d')"
  then have c': "c' = DeleteCommand pos len (take len (drop pos d))"
    and d': "d' = take pos d @ drop (pos + len) d" and p: "pos \<le> length d"
    by (auto simp: DeleteCommand doc_substr_def doc_erase_def bind_eq_Some_conv split: if_splits)
  have "take pos d @ take len (drop pos d) @ drop (pos + len) d = d"
    by (metis append_assoc append_take_drop_id drop_drop add.commute)
  then show ?thesis using p by (simp add: c' d' doc_insert_def)
qed (auto simp: doc_insert_def doc_erase_def bind_eq_Some_conv split: if_splits)

lemma cmd_execute_again: "cmd_execute c d = Some (c', d') \<Longrightarrow> cmd_execute c' d = Some (c', d')"
  by (cases c) (auto simp: bind_eq_Some_conv)

interpretation cmd: undoable cmd_execute cmd_undo
  by unfold_locales (rule cmd_undo_execute, assumption, rule cmd_execute_again)

section \<open>Properties\<close>

text \<open>What each call does to the history of documents.\<close>

fun hist_step :: "string history \<Rightarrow> edit \<Rightarrow> string history option" where
  "hist_step h (Insert pos text) = map_option (\<lambda>d. hist_do d h) (doc_insert (fst (snd h)) pos text)"
| "hist_step h (Erase pos len) = map_option (\<lambda>d. hist_do d h) (doc_erase (fst (snd h)) pos len)"
| "hist_step h Undo = Some (hist_undo h)"
| "hist_step h Redo = Some (hist_redo h)"

fun hist_run :: "string history \<Rightarrow> edit list \<Rightarrow> string list option" where
  "hist_run h [] = Some []"
| "hist_run h (x # xs) = do {
     h' \<leftarrow> hist_step h x;
     ts \<leftarrow> hist_run h' xs;
     Some (fst (snd h') # ts) }"

lemma edit_step_refines:
  assumes "cmd.sim e h"
  shows "case edit_step e x of None \<Rightarrow> hist_step h x = None
    | Some e' \<Rightarrow> \<exists>h'. hist_step h x = Some h' \<and> cmd.sim e' h' \<and> fst (snd h') = doc e'"
proof -
  have d: "fst (snd h) = doc e" using assms by (cases h) (simp add: cmd.sim_def)
  have hd: "fst (snd (hist_do d' h)) = d'" for d' by (cases h) simp
  have run: "cmd.sim e' h' \<Longrightarrow> fst (snd h') = doc e'" for e' h'
    by (cases h') (simp add: cmd.sim_def)
  show ?thesis
  proof (cases x)
    case (Insert pos s)
    show ?thesis
    proof (cases "doc_insert (doc e) pos s")
      case None
      then show ?thesis by (simp add: Insert d insert_text_def executeCmd_def)
    next
      case (Some d')
      let ?e' = "\<lparr>doc = d', undo_stack = InsertCommand pos s # undo_stack e, redo_stack = []\<rparr>"
      have e': "insert_text e pos s = Some ?e'" using Some by (simp add: insert_text_def executeCmd_def)
      then have "cmd.sim ?e' (hist_do d' h)"
        using cmd.sim_execute [OF assms, of _ ?e'] by (simp add: insert_text_def)
      then show ?thesis using Some e' by (simp add: Insert d hd)
    qed
  next
    case (Erase pos len)
    show ?thesis
    proof (cases "pos \<le> length (doc e)")
      case False
      then show ?thesis
        by (simp add: Erase d erase_text_def executeCmd_def doc_substr_def doc_erase_def)
    next
      case True
      let ?d' = "take pos (doc e) @ drop (pos + len) (doc e)"
      let ?e' = "\<lparr>doc = ?d', undo_stack = DeleteCommand pos len (take len (drop pos (doc e))) # undo_stack e,
        redo_stack = []\<rparr>"
      have e': "erase_text e pos len = Some ?e'"
        using True by (simp add: erase_text_def executeCmd_def doc_substr_def doc_erase_def)
      then have "cmd.sim ?e' (hist_do ?d' h)"
        using cmd.sim_execute [OF assms, of _ ?e'] by (simp add: erase_text_def)
      then show ?thesis using True e' by (simp add: Erase d hd doc_erase_def)
    qed
  next
    case Undo
    obtain e' where "editor_undo cmd_undo e = Some e'" "cmd.sim e' (hist_undo h)"
      using cmd.sim_undo [OF assms] by blast
    then show ?thesis using run [of e' "hist_undo h"] by (simp add: Undo)
  next
    case Redo
    obtain e' where "editor_redo cmd_execute e = Some e'" "cmd.sim e' (hist_redo h)"
      using cmd.sim_redo [OF assms] by blast
    then show ?thesis using run [of e' "hist_redo h"] by (simp add: Redo)
  qed
qed

lemma edit_texts_refines: "cmd.sim e h \<Longrightarrow> edit_texts e xs = hist_run h xs"
proof (induction xs arbitrary: e h)
  case (Cons x xs)
  show ?case
    using edit_step_refines [OF Cons.prems, of x] Cons.IH by (fastforce split: option.splits)
qed simp

text \<open>
  C11: whatever inserts, erases, undos and redos a client performs, the command editor shows
  exactly the documents of an editor that stores every document: undo and redo through stored
  commands never lose, corrupt or invent text, and an exception is thrown exactly for a position
  behind the end of the current document.
\<close>
theorem command_editor_refines_history:
  "edit_texts TextEditor xs = hist_run ([], '''', []) xs"
  by (rule edit_texts_refines) (simp add: cmd.sim_def TextEditor_def)

lemma command_main_output:
  "command_main = Some [''Hello World'', ''Hello, Beautiful World'', ''Hello World'',
     ''Hello, Beautiful World'', ''Hello World'', ''Hello, Beautiful World'']"
  by code_simp

end
