(* ===== verification/Memento_History.thy ===== *)
theory Memento_History
  imports Prelude
begin

text \<open>
  src/src/patterns/memento.cpp: an editor that saves and restores snapshots, and the caretaker's
  undo and redo vectors. The vectors are kept with their back element first.
\<close>

section \<open>Definitions\<close>

record text_editor =
  content :: string
  cursor :: int

datatype memento = ConcreteMemento (saved_content: string) (saved_cursor: int)

record memento_history =
  undos :: "memento list"
  redos :: "memento list"

definition new_editor :: text_editor where
  "new_editor = \<lparr>content = '''', cursor = 0\<rparr>"

definition type_text :: "text_editor \<Rightarrow> string \<Rightarrow> text_editor" where
  "type_text e s = e\<lparr>content := content e @ s\<rparr>"

definition set_cursor :: "text_editor \<Rightarrow> int \<Rightarrow> text_editor" where
  "set_cursor e pos = e\<lparr>cursor := pos\<rparr>"

definition clear_editor :: "text_editor \<Rightarrow> text_editor" where
  "clear_editor e = e\<lparr>content := '''', cursor := 0\<rparr>"

definition save :: "text_editor \<Rightarrow> memento" where
  "save e = ConcreteMemento (content e) (cursor e)"

definition restore :: "text_editor \<Rightarrow> memento \<Rightarrow> text_editor" where
  "restore e m = e\<lparr>content := saved_content m, cursor := saved_cursor m\<rparr>"

definition description :: "memento \<Rightarrow> string" where
  "description m = (
     let preview = take 20 (saved_content m);
         preview' = (if length (saved_content m) > 20 then preview @ ''...'' else preview)
     in [CHR 34] @ preview' @ [CHR 34] @ '' (cursor:'' @ show_int (saved_cursor m) @ '')'')"

definition History :: memento_history where
  "History = \<lparr>undos = [], redos = []\<rparr>"

definition push :: "memento_history \<Rightarrow> memento \<Rightarrow> memento_history" where
  "push h m = \<lparr>undos = m # undos h, redos = []\<rparr>"

definition undo :: "memento_history \<Rightarrow> memento option \<times> memento_history" where
  "undo h = (case undos h of
       [] \<Rightarrow> (None, h)
     | m # rest \<Rightarrow> ((case rest of [] \<Rightarrow> None | prev # _ \<Rightarrow> Some prev),
                    \<lparr>undos = rest, redos = m # redos h\<rparr>))"

definition redo :: "memento_history \<Rightarrow> memento option \<times> memento_history" where
  "redo h = (case redos h of
       [] \<Rightarrow> (None, h)
     | m # rest \<Rightarrow> (Some m, \<lparr>undos = m # undos h, redos = rest\<rparr>))"

definition undo_count :: "memento_history \<Rightarrow> nat" where
  "undo_count h = length (undos h)"

definition redo_count :: "memento_history \<Rightarrow> nat" where
  "redo_count h = length (redos h)"

text \<open>The client's idiom: if the history yields a memento, the editor is restored from it.\<close>

definition apply_memento :: "text_editor \<Rightarrow> memento option \<Rightarrow> text_editor" where
  "apply_memento e m = (case m of None \<Rightarrow> e | Some m' \<Rightarrow> restore e m')"

definition memento_main :: "string list \<times> nat \<times> nat" where
  "memento_main = (
     let e1 = type_text new_editor ''Hello'';         h1 = push History (save e1);
         e2 = type_text e1 '', World'';               h2 = push h1 (save e2);
         e3 = type_text e2 ''! How are you?'';        h3 = push h2 (save e3);
         (m4, h4) = undo h3; e4 = apply_memento e3 m4;
         (m5, h5) = undo h4; e5 = apply_memento e4 m5;
         (m6, h6) = redo h5; e6 = apply_memento e5 m6
     in ([content e3, content e4, content e5, content e6], undo_count h6, redo_count h6))"

section \<open>Lemmas\<close>

fun undo_times :: "nat \<Rightarrow> memento_history \<Rightarrow> memento_history" where
  "undo_times 0 h = h"
| "undo_times (Suc n) h = undo_times n (snd (undo h))"

fun redo_times :: "nat \<Rightarrow> memento_history \<Rightarrow> memento_history" where
  "redo_times 0 h = h"
| "redo_times (Suc n) h = redo_times n (snd (redo h))"

text \<open>
  Claim: restoring a snapshot gives back the state it was taken in, whatever was typed, moved or
  cleared since.
\<close>
theorem restore_save: "restore e' (save e) = e"
  by (simp add: restore_def save_def)

lemma undo_times_eq:
  "n \<le> length (undos h) \<Longrightarrow>
   undo_times n h = \<lparr>undos = drop n (undos h), redos = rev (take n (undos h)) @ redos h\<rparr>"
proof (induction n arbitrary: h)
  case (Suc n)
  then obtain m ms where "undos h = m # ms" by (cases "undos h") auto
  then show ?case using Suc by (simp add: undo_def)
qed simp

lemma redo_times_eq:
  "n \<le> length (redos h) \<Longrightarrow>
   redo_times n h = \<lparr>undos = rev (take n (redos h)) @ undos h, redos = drop n (redos h)\<rparr>"
proof (induction n arbitrary: h)
  case (Suc n)
  then obtain m ms where "redos h = m # ms" by (cases "redos h") auto
  then show ?case using Suc by (simp add: redo_def)
qed simp

lemma fst_undo: "fst (undo h) = (case undos h of m # prev # _ \<Rightarrow> Some prev | _ \<Rightarrow> None)"
  by (auto simp: undo_def split: list.splits)

lemma drop_two: "drop n xs = a # b # ys \<Longrightarrow> Suc n < length xs"
  using length_drop [of n xs] by auto

text \<open>
  Claim: after any number n of undos that the history allows, the next undo yields the snapshot two
  below the top that is left (nullptr once only the oldest is left), and n redos bring the history
  back exactly; in between nothing is lost.
\<close>
theorem undo_redo_roundtrip:
  assumes "n \<le> undo_count h" "redos h = []"
  shows "redo_times n (undo_times n h) = h \<and>
     fst (undo (undo_times n h)) =
       (if Suc n < undo_count h then Some (undos h ! Suc n) else None) \<and>
     undo_count (undo_times n h) + redo_count (undo_times n h) = undo_count h"
proof -
  have u: "undo_times n h = \<lparr>undos = drop n (undos h), redos = rev (take n (undos h))\<rparr>"
    using assms by (simp add: undo_times_eq undo_count_def)
  have "redo_times n (undo_times n h) = h"
    using assms by (simp add: u redo_times_eq undo_count_def)
  moreover have "fst (undo (undo_times n h)) =
      (if Suc n < length (undos h) then Some (undos h ! Suc n) else None)"
  proof (cases "Suc n < length (undos h)")
    case True
    then have "drop n (undos h) = undos h ! n # undos h ! Suc n # drop (Suc (Suc n)) (undos h)"
      by (simp add: Cons_nth_drop_Suc)
    then show ?thesis using True by (simp add: u fst_undo)
  next
    case False
    then show ?thesis by (auto simp: u fst_undo split: list.splits dest: drop_two)
  qed
  ultimately show ?thesis using assms by (simp add: u undo_count_def redo_count_def)
qed

theorem undo_redo_roundtrip_witness:
  "redo_times 2 (undo_times 2 (push (push (push History (ConcreteMemento ''a'' 0))
       (ConcreteMemento ''b'' 0)) (ConcreteMemento ''c'' 0))) =
     push (push (push History (ConcreteMemento ''a'' 0)) (ConcreteMemento ''b'' 0)) (ConcreteMemento ''c'' 0)"
  using undo_redo_roundtrip [of 2 "push (push (push History (ConcreteMemento ''a'' 0))
       (ConcreteMemento ''b'' 0)) (ConcreteMemento ''c'' 0)"]
  by (simp add: push_def History_def undo_count_def)

lemma memento_main_output:
  "memento_main =
     ([''Hello, World! How are you?'', ''Hello, World'', ''Hello'', ''Hello, World''], 2, 1)"
  by code_simp

end
