(* ===== verification/Ring_Buffer.thy ===== *)
theory Ring_Buffer
  imports Prelude
begin

text \<open>
  src/src/patterns/iterator.cpp: a ring buffer that overwrites its oldest element, its forward
  iterator and the generic sum. The Capacity of the template is the length of the data array;
  a zero capacity makes every index computation a division by zero (None).
\<close>

section \<open>Definitions\<close>

record 'a ring =
  data :: "'a list"
  head :: nat
  count :: nat

record 'a ring_iterator =
  it_data :: "'a list"
  it_head :: nat
  it_count :: nat
  it_index :: nat

definition capacity :: "'a ring \<Rightarrow> nat" where
  "capacity r = length (data r)"

definition RingBuffer :: "nat \<Rightarrow> 'a \<Rightarrow> 'a ring" where
  "RingBuffer cap dflt = \<lparr>data = replicate cap dflt, head = 0, count = 0\<rparr>"

definition ring_push :: "'a ring \<Rightarrow> 'a \<Rightarrow> 'a ring ub" where
  "ring_push r v = do {
     guard (capacity r \<noteq> 0);
     d \<leftarrow> vset (data r) (int ((head r + count r) mod capacity r)) v;
     Some (if count r < capacity r then r\<lparr>data := d, count := count r + 1\<rparr>
           else r\<lparr>data := d, head := (head r + 1) mod capacity r\<rparr>) }"

definition ring_size :: "'a ring \<Rightarrow> nat" where
  "ring_size r = count r"

definition ring_empty :: "'a ring \<Rightarrow> bool" where
  "ring_empty r \<longleftrightarrow> count r = 0"

definition ring_front :: "'a ring \<Rightarrow> 'a ub" where
  "ring_front r = vget (data r) (int (head r))"

text \<open>The index of back is computed in size_t: on an empty ring it wraps around 2 ^ 64.\<close>

definition ring_back :: "'a ring \<Rightarrow> 'a ub" where
  "ring_back r = do {
     guard (capacity r \<noteq> 0);
     vget (data r) ((int (head r + count r) - 1) mod 2 ^ 64 mod int (capacity r)) }"

definition ring_begin :: "'a ring \<Rightarrow> 'a ring_iterator" where
  "ring_begin r = \<lparr>it_data = data r, it_head = head r, it_count = count r, it_index = 0\<rparr>"

definition ring_end :: "'a ring \<Rightarrow> 'a ring_iterator" where
  "ring_end r = \<lparr>it_data = data r, it_head = head r, it_count = count r, it_index = count r\<rparr>"

definition deref :: "'a ring_iterator \<Rightarrow> 'a ub" where
  "deref it = do {
     guard (it_data it \<noteq> []);
     vget (it_data it) (int ((it_head it + it_index it) mod length (it_data it))) }"

definition increment :: "'a ring_iterator \<Rightarrow> 'a ring_iterator" where
  "increment it = it\<lparr>it_index := it_index it + 1\<rparr>"

definition it_eq :: "'a ring_iterator \<Rightarrow> 'a ring_iterator \<Rightarrow> bool" where
  "it_eq a b \<longleftrightarrow> it_index a = it_index b"

text \<open>A range-based loop collects the elements; sum is the source's generic algorithm.\<close>

partial_function (option) iterate :: "'a ring_iterator \<Rightarrow> 'a ring_iterator \<Rightarrow> 'a list ub" where
  "iterate it stop =
     (if it_eq it stop then Some []
      else do { x \<leftarrow> deref it; xs \<leftarrow> iterate (increment it) stop; Some (x # xs) })"

partial_function (option) sum_loop :: "'a::plus ring_iterator \<Rightarrow> 'a ring_iterator \<Rightarrow> 'a \<Rightarrow> 'a ub" where
  "sum_loop it stop acc =
     (if it_eq it stop then Some acc
      else do { x \<leftarrow> deref it; sum_loop (increment it) stop (acc + x) })"

definition ring_sum :: "'a::{plus,zero} ring_iterator \<Rightarrow> 'a ring_iterator \<Rightarrow> 'a ub" where
  "ring_sum start stop = sum_loop start stop 0"

fun push_all :: "'a ring \<Rightarrow> 'a list \<Rightarrow> 'a ring ub" where
  "push_all r [] = Some r"
| "push_all r (x # xs) = do { r' \<leftarrow> ring_push r x; push_all r' xs }"

definition ring_main :: "(int list \<times> nat \<times> int \<times> int \<times> int) ub" where
  "ring_main = do {
     ring \<leftarrow> push_all (RingBuffer 5 0) [10, 20, 30, 40, 50, 60, 70];
     xs \<leftarrow> iterate (ring_begin ring) (ring_end ring);
     f \<leftarrow> ring_front ring;
     b \<leftarrow> ring_back ring;
     tot \<leftarrow> ring_sum (ring_begin ring) (ring_end ring);
     Some (xs, ring_size ring, f, b, tot) }"

declare iterate.simps [code] sum_loop.simps [code]

section \<open>The contents of a ring\<close>

definition ring_ok :: "'a ring \<Rightarrow> bool" where
  "ring_ok r \<longleftrightarrow> 0 < capacity r \<and> head r < capacity r \<and> count r \<le> capacity r"

definition contents :: "'a ring \<Rightarrow> 'a list" where
  "contents r = map (\<lambda>i. data r ! ((head r + i) mod capacity r)) [0..<count r]"

lemma length_contents [simp]: "length (contents r) = count r"
  by (simp add: contents_def)

lemma nth_contents: "i < count r \<Longrightarrow> contents r ! i = data r ! ((head r + i) mod capacity r)"
  by (simp add: contents_def)

lemma shift_mod_inj:
  assumes "(h + i) mod c = (h + j) mod c" "h < c" "i < c" "j < (c::nat)"
  shows "i = j"
  using assms by (auto simp: mod_if split: if_splits)

lemma ring_push_spec:
  assumes "ring_ok r"
  shows "\<exists>r'. ring_push r v = Some r' \<and> ring_ok r' \<and> capacity r' = capacity r \<and>
    contents r' = (if count r < capacity r then contents r @ [v] else tl (contents r) @ [v])"
proof -
  let ?c = "capacity r" and ?p = "(head r + count r) mod capacity r"
  let ?d = "(data r)[?p := v]"
  have c: "0 < ?c" "head r < ?c" "count r \<le> ?c" using assms by (auto simp: ring_ok_def)
  have p: "?p < length (data r)" using c(1) by (simp add: capacity_def)
  show ?thesis
  proof (cases "count r < ?c")
    case True
    let ?r = "r\<lparr>data := ?d, count := count r + 1\<rparr>"
    have "contents ?r = contents r @ [v]"
    proof (rule nth_equalityI)
      fix i assume "i < length (contents ?r)"
      then have i: "i < count r \<or> i = count r" by auto
      have "(head r + i) mod ?c \<noteq> ?p" if "i < count r"
        using shift_mod_inj [of "head r" i ?c "count r"] that c True by auto
      then show "contents ?r ! i = (contents r @ [v]) ! i"
        using i p by (auto simp: nth_contents capacity_def nth_append)
    qed simp
    moreover have "ring_push r v = Some ?r"
      using c p True by (simp add: ring_push_def)
    ultimately show ?thesis using c True by (simp add: ring_ok_def capacity_def)
  next
    case False
    then have full: "count r = ?c" using c by simp
    then have ph: "?p = head r" using c(2) by simp
    let ?r = "r\<lparr>data := ?d, head := (head r + 1) mod ?c\<rparr>"
    have "contents ?r = tl (contents r) @ [v]"
    proof (rule nth_equalityI)
      show "length (contents ?r) = length (tl (contents r) @ [v])" using full c(1) by simp
    next
      fix i assume "i < length (contents ?r)"
      then have i: "i < ?c" using full by simp
      have e: "((head r + 1) mod ?c + i) mod ?c = (head r + Suc i) mod ?c"
        by (simp add: mod_add_left_eq)
      show "contents ?r ! i = (tl (contents r) @ [v]) ! i"
      proof (cases "Suc i < ?c")
        case True
        have "(head r + Suc i) mod ?c \<noteq> (head r + 0) mod ?c"
          using shift_mod_inj [of "head r" "Suc i" ?c 0] c True by auto
        then have ne: "(head r + Suc i) mod ?c \<noteq> head r" using c(2) by simp
        have "(tl (contents r) @ [v]) ! i = contents r ! Suc i"
          using True full less_diff_conv [of i ?c 1] by (simp add: nth_append nth_tl)
        then show ?thesis using True full i e p ph ne by (simp add: nth_contents capacity_def)
      next
        case last: False
        then have "Suc i = ?c" using i by simp
        then have "(head r + Suc i) mod ?c = head r" using c(2) by simp
        moreover have "(tl (contents r) @ [v]) ! i = v"
          using last full i less_diff_conv [of i ?c 1] by (simp add: nth_append)
        ultimately show ?thesis using full i e p ph by (simp add: nth_contents capacity_def)
      qed
    qed
    moreover have "ring_push r v = Some ?r"
      using c p False by (simp add: ring_push_def)
    ultimately show ?thesis using c False by (simp add: ring_ok_def capacity_def)
  qed
qed

lemma iterate_from:
  assumes "ring_ok r" "k \<le> count r"
  shows "iterate ((ring_begin r)\<lparr>it_index := k\<rparr>) (ring_end r) = Some (drop k (contents r))"
  using assms(2)
proof (induction "count r - k" arbitrary: k)
  case 0
  then show ?case by (subst iterate.simps) (simp add: it_eq_def ring_begin_def ring_end_def)
next
  case (Suc n)
  then have k: "k < count r" by simp
  have "0 < length (data r)" using assms(1) by (simp add: ring_ok_def capacity_def)
  then have d: "deref ((ring_begin r)\<lparr>it_index := k\<rparr>) = Some (contents r ! k)"
    using k by (auto simp: deref_def ring_begin_def nth_contents capacity_def)
  have "iterate (increment ((ring_begin r)\<lparr>it_index := k\<rparr>)) (ring_end r) = Some (drop (Suc k) (contents r))"
    using Suc.hyps(1) [of "Suc k"] Suc.hyps(2) k by (simp add: increment_def)
  then show ?case
    using k d Cons_nth_drop_Suc [of k "contents r"]
    by (subst iterate.simps) (simp add: it_eq_def ring_end_def ring_begin_def)
qed

lemma iterate_contents: "ring_ok r \<Longrightarrow> iterate (ring_begin r) (ring_end r) = Some (contents r)"
  using iterate_from [of r 0] by (simp add: ring_begin_def)

lemma push_all_contents:
  "ring_ok r \<Longrightarrow> \<exists>r'. push_all r xs = Some r' \<and> ring_ok r' \<and> capacity r' = capacity r \<and>
     contents r' = drop (count r + length xs - capacity r) (contents r @ xs)"
proof (induction xs arbitrary: r)
  case Nil
  then show ?case by (simp add: ring_ok_def)
next
  case (Cons x xs)
  obtain r1 where r1: "ring_push r x = Some r1" "ring_ok r1" "capacity r1 = capacity r"
    "contents r1 = (if count r < capacity r then contents r @ [x] else tl (contents r) @ [x])"
    using ring_push_spec [OF Cons.prems] by blast
  obtain r2 where r2: "push_all r1 xs = Some r2" "ring_ok r2" "capacity r2 = capacity r1"
    "contents r2 = drop (count r1 + length xs - capacity r1) (contents r1 @ xs)"
    using Cons.IH [OF r1(2)] by blast
  have n: "count r1 = length (contents r1)" by simp
  have "contents r2 = drop (count r + length (x # xs) - capacity r) (contents r @ x # xs)"
  proof (cases "count r < capacity r")
    case True
    then show ?thesis using r1 r2(4) n by simp
  next
    case False
    then have "count r = capacity r" "contents r \<noteq> []"
      using Cons.prems by (auto simp: ring_ok_def contents_def)
    moreover have "length (contents r) = count r" by simp
    ultimately show ?thesis using r1 r2(4) n False by (cases "contents r") auto
  qed
  then show ?case using r1 r2 by simp
qed

text \<open>
  Claim: after any pushes into an empty ring of positive capacity, iterating from begin to end
  returns, and yields the last Capacity of the pushed elements in the order they were pushed.
\<close>
theorem ring_keeps_latest:
  assumes "0 < cap"
  shows "\<exists>r. push_all (RingBuffer cap dflt) xs = Some r \<and>
    iterate (ring_begin r) (ring_end r) = Some (drop (length xs - cap) xs)"
proof -
  have "ring_ok (RingBuffer cap dflt)" "capacity (RingBuffer cap dflt) = cap"
    "count (RingBuffer cap dflt) = 0" "contents (RingBuffer cap dflt) = []"
    using assms by (simp_all add: RingBuffer_def ring_ok_def capacity_def contents_def)
  then show ?thesis
    using push_all_contents [of "RingBuffer cap dflt" xs] iterate_contents by fastforce
qed

theorem ring_keeps_latest_witness:
  "\<exists>r. push_all (RingBuffer 2 0) [1, 2, 3 :: int] = Some r \<and>
     iterate (ring_begin r) (ring_end r) = Some [2, 3]"
  using ring_keeps_latest [of 2 "0 :: int" "[1, 2, 3]"] by simp

lemma ring_main_output: "ring_main = Some ([30, 40, 50, 60, 70], 5, 30, 70, 250)"
  by code_simp

end
