(* ===== verification/Binary_Search_Answer.thy ===== *)
theory Binary_Search_Answer
  imports Prelude "HOL-Library.Signed_Division"
begin

text \<open>
  src/src/dsa/binary_search_on_answer.cpp: the least answer for which a monotone check succeeds,
  found by binary search. The search is stated once, over a locale of monotone checks, and the
  checks of the two problems (eating speed, largest subarray sum) are interpretations of it.
\<close>

section \<open>Definitions\<close>

function answer_loop :: "(int \<Rightarrow> bool ub) \<Rightarrow> int \<Rightarrow> int \<Rightarrow> int ub" where
  "answer_loop feasible lo hi =
     (if lo < hi then do {
        d \<leftarrow> chk (hi - lo);
        mid \<leftarrow> chk (lo + d div 2);
        ok \<leftarrow> feasible mid;
        if ok then answer_loop feasible lo mid
        else do { lo' \<leftarrow> chk (mid + 1); answer_loop feasible lo' hi } }
      else Some lo)"
  by pat_completeness auto

termination answer_loop
  by (relation "measure (\<lambda>(_, lo, hi). nat (hi - lo))") (auto simp: chk_eq_Some_iff)

declare answer_loop.simps [simp del]

fun max_element :: "int list \<Rightarrow> int ub" where
  "max_element [] = None"
| "max_element (x # xs) = Some (fold (\<lambda>y m. if m < y then y else m) xs x)"

fun hours_loop :: "int list \<Rightarrow> int \<Rightarrow> int \<Rightarrow> int ub" where
  "hours_loop [] speed hours_needed = Some hours_needed"
| "hours_loop (pile # piles) speed hours_needed = do {
     s \<leftarrow> chk (pile + speed);
     n \<leftarrow> chk (s - 1);
     guard (speed \<noteq> 0);
     q \<leftarrow> chk (n sdiv speed);
     hours' \<leftarrow> chk_long (hours_needed + q);
     hours_loop piles speed hours' }"

definition canFinish :: "int list \<Rightarrow> int \<Rightarrow> int \<Rightarrow> bool ub" where
  "canFinish piles h speed = do {
     hours_needed \<leftarrow> hours_loop piles speed 0;
     Some (hours_needed \<le> h) }"

definition minEatingSpeed :: "int list \<Rightarrow> int \<Rightarrow> int ub" where
  "minEatingSpeed piles h = do {
     hi \<leftarrow> max_element piles;
     answer_loop (canFinish piles h) 1 hi }"

fun accumulate :: "int list \<Rightarrow> int \<Rightarrow> int ub" where
  "accumulate [] acc = Some acc"
| "accumulate (x # xs) acc = do { acc' \<leftarrow> chk (acc + x); accumulate xs acc' }"

fun split_loop :: "int \<Rightarrow> int \<Rightarrow> int \<Rightarrow> int \<Rightarrow> int list \<Rightarrow> bool ub" where
  "split_loop m max_sum splits current_sum [] = Some True"
| "split_loop m max_sum splits current_sum (num # nums) = do {
     s \<leftarrow> chk (current_sum + num);
     if s > max_sum then do {
       splits' \<leftarrow> chk (splits + 1);
       if splits' > m then Some False else split_loop m max_sum splits' num nums }
     else split_loop m max_sum splits s nums }"

definition canSplit :: "int list \<Rightarrow> int \<Rightarrow> int \<Rightarrow> bool ub" where
  "canSplit nums m max_sum = split_loop m max_sum 1 0 nums"

definition splitArray :: "int list \<Rightarrow> int \<Rightarrow> int ub" where
  "splitArray nums m = do {
     lo \<leftarrow> max_element nums;
     hi \<leftarrow> accumulate nums 0;
     answer_loop (canSplit nums m) lo hi }"

text \<open>The numbers the demonstration prints.\<close>

definition binary_search_main :: "int list ub" where
  "binary_search_main = do {
     a \<leftarrow> minEatingSpeed [3, 6, 7, 11] 8;
     b \<leftarrow> minEatingSpeed [30, 11, 23, 4, 20] 5;
     c \<leftarrow> minEatingSpeed [30, 11, 23, 4, 20] 6;
     d \<leftarrow> splitArray [7, 2, 5, 10, 8] 2;
     e \<leftarrow> splitArray [1, 2, 3, 4, 5] 2;
     Some [a, b, c, d, e] }"

section \<open>Binary search over a monotone check\<close>

text \<open>
  An instance of the problem (the vector and the bound) determines the check, the range searched
  and the meaning of the check; the laws are promised for valid instances.
\<close>

locale answer_space =
  fixes valid :: "'i \<Rightarrow> bool" and feasible :: "'i \<Rightarrow> int \<Rightarrow> bool ub"
    and low high :: "'i \<Rightarrow> int" and good :: "'i \<Rightarrow> int \<Rightarrow> bool"
  assumes range_int: "valid i \<Longrightarrow> 0 \<le> low i \<and> high i \<le> INT_MAX"
    and feasible_good: "valid i \<Longrightarrow> low i \<le> x \<Longrightarrow> x < high i \<Longrightarrow> feasible i x = Some (good i x)"
    and good_mono: "valid i \<Longrightarrow> low i \<le> x \<Longrightarrow> x \<le> y \<Longrightarrow> y < high i \<Longrightarrow> good i x \<Longrightarrow> good i y"
begin

lemma loop_least:
  assumes "valid i"
  shows "low i \<le> lo \<Longrightarrow> lo \<le> hi \<Longrightarrow> hi \<le> high i \<Longrightarrow>
   \<exists>k. answer_loop (feasible i) lo hi = Some k \<and> lo \<le> k \<and> k \<le> hi \<and>
     (k < hi \<longrightarrow> good i k) \<and> (\<forall>x. lo \<le> x \<longrightarrow> x < k \<longrightarrow> \<not> good i x)"
proof (induction "nat (hi - lo)" arbitrary: lo hi rule: less_induct)
  case less
  show ?case
  proof (cases "lo < hi")
    case False
    then show ?thesis using less.prems by (auto simp: answer_loop.simps [of _ hi hi])
  next
    case True
    define mid where "mid = lo + (hi - lo) div 2"
    have mid: "lo \<le> mid" "mid < hi" using True by (auto simp: mid_def)
    have b: "0 \<le> lo" "hi \<le> INT_MAX" "0 \<le> mid" "lo \<le> INT_MAX"
      using less.prems True mid range_int [OF assms] by linarith+
    have ok: "chk (hi - lo) = Some (hi - lo)" "chk (lo + (hi - lo) div 2) = Some mid"
      "chk (mid + 1) = Some (mid + 1)" "feasible i mid = Some (good i mid)"
      using b mid feasible_good [OF assms, of mid] less.prems
      by (simp_all add: chk_def in_int_def mid_def [symmetric])
    show ?thesis
    proof (cases "good i mid")
      case g: True
      obtain k where k: "answer_loop (feasible i) lo mid = Some k" "lo \<le> k" "k \<le> mid"
        "k < mid \<longrightarrow> good i k" "\<forall>x. lo \<le> x \<longrightarrow> x < k \<longrightarrow> \<not> good i x"
        using less.hyps [of mid lo] less.prems mid by auto
      then have "good i k" using g by (cases "k = mid") auto
      then show ?thesis
        using k True ok g mid by (simp add: answer_loop.simps [of _ lo hi])
    next
      case g: False
      obtain k where k: "answer_loop (feasible i) (mid + 1) hi = Some k" "mid + 1 \<le> k" "k \<le> hi"
        "k < hi \<longrightarrow> good i k" "\<forall>x. mid + 1 \<le> x \<longrightarrow> x < k \<longrightarrow> \<not> good i x"
        using less.hyps [of hi "mid + 1"] less.prems mid by auto
      have "\<not> good i x" if "lo \<le> x" "x < k" for x
      proof (cases "x \<le> mid")
        case True
        then show ?thesis using good_mono [OF assms, of x mid] g that less.prems mid by auto
      qed (use k that in auto)
      then show ?thesis
        using k True ok g mid by (simp add: answer_loop.simps [of _ lo hi])
    qed
  qed
qed

lemma search_least:
  assumes "valid i" "low i \<le> high i" "good i (high i)"
  shows "\<exists>k. answer_loop (feasible i) (low i) (high i) = Some k \<and> low i \<le> k \<and> k \<le> high i \<and>
     good i k \<and> (\<forall>x. low i \<le> x \<longrightarrow> x < k \<longrightarrow> \<not> good i x)"
proof -
  obtain k where k: "answer_loop (feasible i) (low i) (high i) = Some k" "low i \<le> k" "k \<le> high i"
    "k < high i \<longrightarrow> good i k" "\<forall>x. low i \<le> x \<longrightarrow> x < k \<longrightarrow> \<not> good i x"
    using loop_least [OF assms(1) order_refl assms(2) order_refl] by blast
  moreover from this have "good i k" using assms(3) by (cases "k = high i") auto
  ultimately show ?thesis by blast
qed

end

section \<open>Eating speed\<close>

text \<open>The hours one pile takes: the least number of hours in which speed bananas an hour suffice.\<close>

definition pile_hours :: "int \<Rightarrow> int \<Rightarrow> nat" where
  "pile_hours speed pile = (LEAST n. pile \<le> int n * speed)"

definition eating_hours :: "int \<Rightarrow> int list \<Rightarrow> nat" where
  "eating_hours speed piles = sum_list (map (pile_hours speed) piles)"

lemma pile_hours_div:
  assumes "0 < speed" "0 < pile"
  shows "int (pile_hours speed pile) = (pile + speed - 1) div speed"
proof -
  let ?q = "(pile + speed - 1) div speed"
  have e: "?q * speed + (pile + speed - 1) mod speed = pile + speed - 1"
    by simp
  have r: "0 \<le> (pile + speed - 1) mod speed" "(pile + speed - 1) mod speed < speed"
    using assms by simp_all
  have q: "0 \<le> ?q" using assms by (simp add: pos_imp_zdiv_nonneg_iff)
  have "pile_hours speed pile = nat ?q"
    unfolding pile_hours_def
  proof (rule Least_equality)
    have "pile \<le> ?q * speed" using e r by linarith
    then show "pile \<le> int (nat ?q) * speed" using q by simp
  next
    fix n assume n: "pile \<le> int n * speed"
    have "?q * speed < int n * speed + speed" using e r n by linarith
    then have "?q * speed < (int n + 1) * speed" by (simp only: distrib_right mult_1)
    then have "?q < int n + 1" using assms(1) by (simp add: mult_less_cancel_right)
    then show "nat ?q \<le> n" using q by simp
  qed
  then show ?thesis using q by simp
qed

lemma eating_hours_Cons:
  "eating_hours speed (p # ps) = pile_hours speed p + eating_hours speed ps"
  by (simp add: eating_hours_def)

lemma pile_hours_antimono:
  assumes "0 < s" "s \<le> t"
  shows "pile_hours t p \<le> pile_hours s p"
proof -
  have "p \<le> int (pile_hours s p) * s"
    unfolding pile_hours_def
  proof (rule LeastI)
    show "p \<le> int (nat (max 0 p)) * s"
      using assms mult_le_cancel_left1 [of p s] by (cases "p \<le> 0") auto
  qed
  also have "\<dots> \<le> int (pile_hours s p) * t" using assms by (simp add: mult_left_mono)
  finally show ?thesis unfolding pile_hours_def [of t] by (rule Least_le)
qed

lemma eating_hours_antimono: "0 < s \<Longrightarrow> s \<le> t \<Longrightarrow> eating_hours t ps \<le> eating_hours s ps"
  by (induction ps) (auto simp: eating_hours_Cons intro!: add_mono pile_hours_antimono, simp add: eating_hours_def)

lemma pile_hours_le: "0 < s \<Longrightarrow> 0 < p \<Longrightarrow> int (pile_hours s p) \<le> p"
  using pile_hours_div [of s p] pile_hours_antimono [of 1 s p] pile_hours_div [of 1 p] by simp

lemma eating_hours_max:
  "0 < s \<Longrightarrow> \<forall>p\<in>set ps. 0 < p \<and> p \<le> s \<Longrightarrow> eating_hours s ps = length ps"
proof (induction ps)
  case (Cons p ps)
  then have "(p + s - 1) div s = 1" by (intro int_div_pos_eq [where r = "p - 1"]) auto
  then have "pile_hours s p = 1" using pile_hours_div [of s p] Cons.prems by simp
  then show ?case using Cons by (simp add: eating_hours_Cons)
qed (simp add: eating_hours_def)

lemma hours_loop_eq:
  assumes "0 < speed" "speed < 1073741824"
  shows "\<forall>p\<in>set piles. 0 < p \<and> p \<le> 1073741824 \<Longrightarrow> 0 \<le> acc \<Longrightarrow>
   acc + int (length piles) * 1073741824 \<le> LONG_MAX \<Longrightarrow>
   hours_loop piles speed acc = Some (acc + int (eating_hours speed piles))"
proof (induction piles arbitrary: acc)
  case Nil
  then show ?case by (simp add: eating_hours_def)
next
  case (Cons p ps)
  let ?h = "(p + speed - 1) div speed"
  have h: "int (pile_hours speed p) = ?h" "?h \<le> 1073741824" "0 \<le> ?h"
    using pile_hours_div [of speed p] pile_hours_le [of speed p] Cons.prems assms by auto
  have "hours_loop ps speed (acc + ?h) = Some (acc + ?h + int (eating_hours speed ps))"
    using Cons h by (intro Cons.IH) (auto simp: distrib_right)
  moreover have "acc + ?h \<le> LONG_MAX" using Cons.prems(3) h by (simp add: distrib_right)
  moreover have "chk (p + speed) = Some (p + speed)" "chk (p + speed - 1) = Some (p + speed - 1)"
    using Cons.prems assms by (simp_all add: chk_def in_int_def)
  moreover have "(p + speed - 1) sdiv speed = ?h" "chk ?h = Some ?h"
    using Cons.prems assms h by (simp_all add: signed_divide_int_def sgn_if chk_def in_int_def)
  ultimately show ?case
    using Cons.prems assms h by (simp add: chk_long_Some eating_hours_Cons)
qed

lemma max_element_Max: "xs \<noteq> [] \<Longrightarrow> max_element xs = Some (Max (set xs))"
proof (cases xs)
  case (Cons x ys)
  have "fold (\<lambda>y m. if m < y then y else m) ys x = Max (set (x # ys))"
  proof -
    have "(\<lambda>y m. if m < y then y else m) = (max :: int \<Rightarrow> _)" by (auto simp: max_def fun_eq_iff)
    then show ?thesis by (simp only: Max.set_eq_fold)
  qed
  then show ?thesis using Cons by simp
qed simp

definition speed_instance :: "int list \<times> int \<Rightarrow> bool" where
  "speed_instance = (\<lambda>(piles, h). piles \<noteq> [] \<and> (\<forall>p\<in>set piles. 0 < p \<and> p \<le> 1073741824) \<and>
     length piles \<le> 4294967296 \<and> int (length piles) \<le> h)"

interpretation speed: answer_space speed_instance "\<lambda>(piles, h). canFinish piles h"
  "\<lambda>_. 1" "\<lambda>(piles, h). Max (set piles)" "\<lambda>(piles, h) k. int (eating_hours k piles) \<le> h"
proof
  fix i x assume i: "speed_instance i" and x: "1 \<le> x" "x < (case i of (piles, h) \<Rightarrow> Max (set piles))"
  obtain piles h where p: "i = (piles, h)" by (cases i)
  have "Max (set piles) \<le> 1073741824" using i by (simp add: p speed_instance_def)
  then have "x < 1073741824" using x by (simp add: p)
  then have "hours_loop piles x 0 = Some (0 + int (eating_hours x piles))"
    using i x by (intro hours_loop_eq) (auto simp: p speed_instance_def split: prod.splits)
  then show "(case i of (piles, h) \<Rightarrow> canFinish piles h) x =
      Some ((case i of (piles, h) \<Rightarrow> \<lambda>k. int (eating_hours k piles) \<le> h) x)"
    by (simp add: p canFinish_def)
next
  fix i x y assume "1 \<le> x" "x \<le> y" "(case i of (piles, h) \<Rightarrow> \<lambda>k. int (eating_hours k piles) \<le> h) x"
  then show "(case i of (piles, h) \<Rightarrow> \<lambda>k. int (eating_hours k piles) \<le> h) y"
    using eating_hours_antimono [of x y "fst i"] by (cases i) simp
qed (force simp: speed_instance_def)

text \<open>
  C40: for positive piles of at most 2 ^ 30 bananas and at least as many hours as piles,
  minEatingSpeed returns the smallest speed that finishes in h hours: the returned speed does and
  every smaller positive one does not. No intermediate int or long overflows.
\<close>
theorem minEatingSpeed_least:
  assumes "piles \<noteq> []" "\<forall>p\<in>set piles. 0 < p \<and> p \<le> 1073741824" "length piles \<le> 4294967296"
    "int (length piles) \<le> h"
  shows "\<exists>k. minEatingSpeed piles h = Some k \<and> 0 < k \<and> int (eating_hours k piles) \<le> h \<and>
    (\<forall>s. 0 < s \<and> s < k \<longrightarrow> h < int (eating_hours s piles))"
proof -
  let ?M = "Max (set piles)"
  have "?M \<in> set piles" using assms(1) by simp
  then have "1 \<le> ?M" using assms(2) by force
  moreover have "eating_hours ?M piles = length piles"
    using \<open>1 \<le> ?M\<close> assms by (intro eating_hours_max) auto
  ultimately obtain k where k: "answer_loop (canFinish piles h) 1 ?M = Some k" "1 \<le> k"
      "int (eating_hours k piles) \<le> h" "\<forall>x. 1 \<le> x \<longrightarrow> x < k \<longrightarrow> \<not> int (eating_hours x piles) \<le> h"
    using speed.search_least [of "(piles, h)"] assms by (auto simp: speed_instance_def)
  have "minEatingSpeed piles h = Some k" using k(1) assms(1) by (simp add: minEatingSpeed_def max_element_Max)
  then show ?thesis using k(2,3,4) by (intro exI [of _ k]) (simp add: not_le)
qed

theorem minEatingSpeed_least_witness:
  "\<exists>k. minEatingSpeed [3, 6, 7, 11] 8 = Some k \<and> 0 < k \<and> int (eating_hours k [3, 6, 7, 11]) \<le> 8 \<and>
     (\<forall>s. 0 < s \<and> s < k \<longrightarrow> 8 < int (eating_hours s [3, 6, 7, 11]))"
  using minEatingSpeed_least [of "[3, 6, 7, 11]" 8] by simp

section \<open>Splitting an array\<close>

text \<open>The rest of the array, the running piece of sum cur, and at most k further pieces.\<close>

definition split_from :: "int \<Rightarrow> int \<Rightarrow> nat \<Rightarrow> int list \<Rightarrow> bool" where
  "split_from s cur k rest \<longleftrightarrow> (\<exists>xs xss. rest = xs @ concat xss \<and> length xss \<le> k \<and>
     cur + sum_list xs \<le> s \<and> (\<forall>ys\<in>set xss. sum_list ys \<le> s))"

definition splits_into :: "int list \<Rightarrow> int \<Rightarrow> int \<Rightarrow> bool" where
  "splits_into nums m s \<longleftrightarrow> (\<exists>xss. concat xss = nums \<and> int (length xss) \<le> m \<and> (\<forall>ys\<in>set xss. sum_list ys \<le> s))"

lemma split_first:
  "concat xss = x # rest \<Longrightarrow> \<forall>ys\<in>set xss. sum_list ys \<le> s \<Longrightarrow>
   \<exists>ys yss. rest = ys @ concat yss \<and> Suc (length yss) \<le> length xss \<and> x + sum_list ys \<le> s \<and> set yss \<subseteq> set xss"
proof (induction xss)
  case (Cons zs zss)
  show ?case
  proof (cases zs)
    case Nil
    then obtain ys yss where "rest = ys @ concat yss" "Suc (length yss) \<le> length zss"
      "x + sum_list ys \<le> s" "set yss \<subseteq> set zss"
      using Cons by auto
    then show ?thesis by (intro exI [of _ ys] exI [of _ yss]) auto
  next
    case (Cons z ys)
    then show ?thesis using Cons.prems by (intro exI [of _ ys] exI [of _ zss]) auto
  qed
qed simp

lemma splits_into_ge_Max:
  assumes "nums \<noteq> []" "\<forall>x\<in>set nums. 0 \<le> x" "splits_into nums m t"
  shows "Max (set nums) \<le> t"
proof -
  obtain xss where x: "concat xss = nums" "\<forall>ys\<in>set xss. sum_list ys \<le> t"
    using assms(3) by (auto simp: splits_into_def)
  have "y \<le> t" if "y \<in> set nums" for y
  proof -
    have "y \<in> set (concat xss)" using x(1) that by simp
    then obtain ys where ys: "ys \<in> set xss" "y \<in> set ys" by auto
    then have "\<forall>z\<in>set ys. 0 \<le> z" using assms(2) x(1) by auto
    then have "y \<le> sum_list ys" using ys(2) by (auto intro: member_le_sum_list)
    then show ?thesis using x(2) ys(1) by auto
  qed
  then show ?thesis using assms(1) by simp
qed

text \<open>The greedy check decides whether the rest can be split.\<close>

lemma split_loop_eq:
  "\<forall>x\<in>set nums. 0 \<le> x \<and> x \<le> s \<Longrightarrow> 0 \<le> cur \<Longrightarrow> cur \<le> s \<Longrightarrow> cur + sum_list nums \<le> INT_MAX \<Longrightarrow>
   0 < splits \<Longrightarrow> splits \<le> m \<Longrightarrow> m < INT_MAX \<Longrightarrow>
   split_loop m s splits cur nums = Some (split_from s cur (nat (m - splits)) nums)"
proof (induction nums arbitrary: splits cur)
  case Nil
  then show ?case by (auto simp: split_from_def intro!: exI [of _ "[]"])
next
  case (Cons x rest)
  have nonneg: "0 \<le> sum_list rest" using Cons.prems(1) by (intro sum_list_nonneg) auto
  have "cur + x \<le> INT_MAX" "0 \<le> cur + x" using Cons.prems nonneg by auto
  then have c: "chk (cur + x) = Some (cur + x)" by (simp add: chk_def in_int_def)
  have c2: "chk (splits + 1) = Some (splits + 1)" using Cons.prems by (simp add: chk_def in_int_def)
  show ?case
  proof (cases "cur + x > s")
    case True
    have "split_from s cur (nat (m - splits)) (x # rest) \<longleftrightarrow>
        splits + 1 \<le> m \<and> split_from s x (nat (m - (splits + 1))) rest" (is "?l \<longleftrightarrow> ?r")
    proof
      assume ?l
      then obtain xs xss where xs: "x # rest = xs @ concat xss" "length xss \<le> nat (m - splits)"
        "cur + sum_list xs \<le> s" "\<forall>ys\<in>set xss. sum_list ys \<le> s"
        by (auto simp: split_from_def)
      have "xs = []"
      proof (cases xs)
        case (Cons y ys)
        then have "y = x" "set ys \<subseteq> set rest" using xs(1) by auto
        then have "0 \<le> sum_list ys" using Cons.prems(1) by (intro sum_list_nonneg) auto
        then show ?thesis using Cons \<open>y = x\<close> xs(3) True by simp
      qed
      then show ?r using split_first [of xss x rest] xs Cons.prems
        by (fastforce simp: split_from_def)
    next
      assume r: ?r
      then obtain xs xss where xs: "rest = xs @ concat xss" "length xss \<le> nat (m - (splits + 1))"
        "x + sum_list xs \<le> s" "\<forall>ys\<in>set xss. sum_list ys \<le> s"
        by (auto simp: split_from_def)
      then show ?l using r Cons.prems
        by (auto simp: split_from_def intro!: exI [of _ "[]"] exI [of _ "(x # xs) # xss"])
    qed
    then show ?thesis using True c c2 Cons.IH [of x "splits + 1"] Cons.prems nonneg
      by (auto simp: not_less)
  next
    case False
    have "split_from s cur k (x # rest) \<longleftrightarrow> split_from s (cur + x) k rest" (is "?l \<longleftrightarrow> ?r") for k
    proof
      assume ?l
      then obtain xs xss where xs: "x # rest = xs @ concat xss" "length xss \<le> k"
        "cur + sum_list xs \<le> s" "\<forall>ys\<in>set xss. sum_list ys \<le> s"
        by (auto simp: split_from_def)
      show ?r
      proof (cases xs)
        case Nil
        then obtain ys yss where y: "rest = ys @ concat yss" "Suc (length yss) \<le> length xss"
            "x + sum_list ys \<le> s" "set yss \<subseteq> set xss"
          using split_first [of xss x rest s] xs by auto
        have "sum_list ys \<le> s" using y(3) Cons.prems(1) by simp
        then show ?thesis using y xs False unfolding split_from_def
          by (intro exI [of _ "[]"] exI [of _ "ys # yss"]) auto
      next
        case (Cons z zs)
        then show ?thesis using xs unfolding split_from_def
          by (intro exI [of _ zs] exI [of _ xss]) auto
      qed
    next
      assume ?r
      then obtain xs xss where "rest = xs @ concat xss" "length xss \<le> k"
        "cur + x + sum_list xs \<le> s" "\<forall>ys\<in>set xss. sum_list ys \<le> s"
        by (auto simp: split_from_def)
      then show ?l unfolding split_from_def
        by (intro exI [of _ "x # xs"] exI [of _ xss]) auto
    qed
    then show ?thesis using False c Cons.IH [of "cur + x" splits] Cons.prems
      by (simp add: add.assoc)
  qed
qed

lemma split_from_top:
  assumes "0 \<le> s" "0 < m"
  shows "split_from s 0 (nat (m - 1)) nums \<longleftrightarrow> splits_into nums m s"
proof
  assume "split_from s 0 (nat (m - 1)) nums"
  then obtain xs xss where "nums = xs @ concat xss" "length xss \<le> nat (m - 1)" "sum_list xs \<le> s"
    "\<forall>ys\<in>set xss. sum_list ys \<le> s"
    by (auto simp: split_from_def)
  then show "splits_into nums m s" using assms(2) unfolding splits_into_def
    by (intro exI [of _ "xs # xss"]) auto
next
  assume "splits_into nums m s"
  then obtain xss where x: "concat xss = nums" "int (length xss) \<le> m" "\<forall>ys\<in>set xss. sum_list ys \<le> s"
    by (auto simp: splits_into_def)
  show "split_from s 0 (nat (m - 1)) nums"
  proof (cases xss)
    case Nil
    then show ?thesis using x assms unfolding split_from_def
      by (intro exI [of _ "[]"]) auto
  next
    case (Cons ys yss)
    then show ?thesis using x unfolding split_from_def
      by (intro exI [of _ ys] exI [of _ yss]) auto
  qed
qed

lemma accumulate_sum:
  "\<forall>x\<in>set xs. 0 \<le> x \<Longrightarrow> 0 \<le> acc \<Longrightarrow> acc + sum_list xs \<le> INT_MAX \<Longrightarrow> accumulate xs acc = Some (acc + sum_list xs)"
proof (induction xs arbitrary: acc)
  case (Cons x xs)
  have "0 \<le> sum_list xs" using Cons.prems(1) by (intro sum_list_nonneg) auto
  then have "chk (acc + x) = Some (acc + x)" using Cons.prems by (simp add: chk_def in_int_def)
  then show ?case using Cons by (simp add: add.assoc)
qed simp

definition split_instance :: "int list \<times> int \<Rightarrow> bool" where
  "split_instance = (\<lambda>(nums, m). nums \<noteq> [] \<and> (\<forall>x\<in>set nums. 0 \<le> x) \<and> sum_list nums \<le> INT_MAX \<and>
     0 < m \<and> m < INT_MAX)"

lemma Max_le_sum_list: "xs \<noteq> [] \<Longrightarrow> \<forall>x\<in>set xs. (0 :: int) \<le> x \<Longrightarrow> Max (set xs) \<le> sum_list xs"
  by (subst Max_le_iff) (auto intro: member_le_sum_list)

interpretation split: answer_space split_instance "\<lambda>(nums, m). canSplit nums m"
  "\<lambda>(nums, m). Max (set nums)" "\<lambda>(nums, m). sum_list nums" "\<lambda>(nums, m). splits_into nums m"
proof
  fix i assume i: "split_instance i"
  obtain nums m where p: "i = (nums, m)" by (cases i)
  have "Max (set nums) \<in> set nums" using i by (simp add: p split_instance_def)
  then show "0 \<le> (case i of (nums, m) \<Rightarrow> Max (set nums)) \<and> (case i of (nums, m) \<Rightarrow> sum_list nums) \<le> INT_MAX"
    using i by (simp add: p split_instance_def)
next
  fix i x assume i: "split_instance i" and x: "(case i of (nums, m) \<Rightarrow> Max (set nums)) \<le> x"
  obtain nums m where p: "i = (nums, m)" by (cases i)
  have "Max (set nums) \<in> set nums" using i by (simp add: p split_instance_def)
  moreover have "\<forall>y\<in>set nums. 0 \<le> y" using i by (simp add: p split_instance_def)
  ultimately have "0 \<le> Max (set nums)" by blast
  then have "0 \<le> x" using x by (simp only: p prod.case)
  moreover have "\<forall>y\<in>set nums. 0 \<le> y \<and> y \<le> x" using i x by (auto simp: p split_instance_def)
  ultimately have n: "\<forall>y\<in>set nums. 0 \<le> y \<and> y \<le> x" "0 \<le> x" by simp_all
  then show "(case i of (nums, m) \<Rightarrow> canSplit nums m) x = Some ((case i of (nums, m) \<Rightarrow> splits_into nums m) x)"
    using i split_loop_eq [of nums x 0 1 m] split_from_top [of x m nums]
    by (simp add: p split_instance_def canSplit_def)
next
  fix i and x y :: int assume "x \<le> y" "(case i of (nums, m) \<Rightarrow> splits_into nums m) x"
  then show "(case i of (nums, m) \<Rightarrow> splits_into nums m) y"
    by (cases i) (force simp: splits_into_def)
qed

text \<open>
  Claim: for nonnegative numbers whose total fits an int and a positive m, splitArray returns the
  smallest s for which the array can be cut into at most m contiguous pieces of sum at most s.
\<close>
theorem splitArray_least:
  assumes "nums \<noteq> []" "\<forall>x\<in>set nums. 0 \<le> x" "sum_list nums \<le> INT_MAX" "0 < m" "m < INT_MAX"
  shows "\<exists>s. splitArray nums m = Some s \<and> splits_into nums m s \<and>
    (\<forall>t. splits_into nums m t \<longrightarrow> s \<le> t)"
proof -
  let ?M = "Max (set nums)"
  have "splits_into nums m (sum_list nums)"
    using assms unfolding splits_into_def by (intro exI [of _ "[nums]"]) auto
  then obtain s where s: "answer_loop (canSplit nums m) ?M (sum_list nums) = Some s" "?M \<le> s"
      "splits_into nums m s" "\<forall>x. ?M \<le> x \<longrightarrow> x < s \<longrightarrow> \<not> splits_into nums m x"
    using split.search_least [of "(nums, m)"] Max_le_sum_list [of nums] assms
    by (auto simp: split_instance_def)
  have "splitArray nums m = Some s"
    using s(1) assms accumulate_sum [of nums 0] by (simp add: splitArray_def max_element_Max)
  moreover have "s \<le> t" if "splits_into nums m t" for t
    using s(4) that splits_into_ge_Max [OF assms(1,2) that] by (meson not_le)
  ultimately show ?thesis using s(3) by blast
qed

theorem splitArray_least_witness:
  "\<exists>s. splitArray [7, 2, 5, 10, 8] 2 = Some s \<and> splits_into [7, 2, 5, 10, 8] 2 s \<and>
     (\<forall>t. splits_into [7, 2, 5, 10, 8] 2 t \<longrightarrow> s \<le> t)"
  using splitArray_least [of "[7, 2, 5, 10, 8]" 2] by simp

lemma binary_search_main_output: "binary_search_main = Some [4, 30, 23, 18, 9]"
  by code_simp

end
