(* ===== verification/Union_Find.thy ===== *)
theory Union_Find
  imports Prelude
begin

text \<open>
  src/src/dsa/union_find.cpp: disjoint sets with path compression and union by rank, the two
  applications and the demonstration. The recursion of find follows parent pointers and may run
  forever on a cyclic forest (None); the rank invariant shows that it never does.
\<close>

section \<open>Definitions\<close>

record union_find =
  parent :: "int list"
  rank :: "int list"
  components :: int

definition UnionFind :: "int \<Rightarrow> union_find ub" where
  "UnionFind n = do {
     guard (0 \<le> n);
     Some \<lparr>parent = map int [0..<nat n], rank = replicate (nat n) 0, components = n\<rparr> }"

partial_function (option) find :: "union_find \<Rightarrow> int \<Rightarrow> (int \<times> union_find) ub" where
  "find uf x = do {
     p \<leftarrow> vget (parent uf) x;
     if p \<noteq> x then do {
       (r, uf1) \<leftarrow> find uf p;
       pa \<leftarrow> vset (parent uf1) x r;
       Some (r, uf1\<lparr>parent := pa\<rparr>) }
     else Some (p, uf) }"

declare find.simps [code]

definition unite :: "union_find \<Rightarrow> int \<Rightarrow> int \<Rightarrow> (bool \<times> union_find) ub" where
  "unite uf x y = do {
     (rx, uf1) \<leftarrow> find uf x;
     (ry, uf2) \<leftarrow> find uf1 y;
     if rx = ry then Some (False, uf2)
     else do {
       kx \<leftarrow> vget (rank uf2) rx;
       ky \<leftarrow> vget (rank uf2) ry;
       let (rx, ry, kx, ky) = (if kx < ky then (ry, rx, ky, kx) else (rx, ry, kx, ky));
       pa \<leftarrow> vset (parent uf2) ry rx;
       ra \<leftarrow> (if kx = ky then do { k \<leftarrow> chk (kx + 1); vset (rank uf2) rx k } else Some (rank uf2));
       c \<leftarrow> chk (components uf2 - 1);
       Some (True, \<lparr>parent = pa, rank = ra, components = c\<rparr>) } }"

definition connected :: "union_find \<Rightarrow> int \<Rightarrow> int \<Rightarrow> (bool \<times> union_find) ub" where
  "connected uf x y = do {
     (rx, uf1) \<leftarrow> find uf x;
     (ry, uf2) \<leftarrow> find uf1 y;
     Some (rx = ry, uf2) }"

definition numComponents :: "union_find \<Rightarrow> int" where
  "numComponents uf = components uf"

fun unite_all :: "union_find \<Rightarrow> (int \<times> int) list \<Rightarrow> union_find ub" where
  "unite_all uf [] = Some uf"
| "unite_all uf ((u, v) # edges) = do { (_, uf') \<leftarrow> unite uf u v; unite_all uf' edges }"

definition countComponents :: "int \<Rightarrow> (int \<times> int) list \<Rightarrow> int ub" where
  "countComponents n edges = do {
     uf0 \<leftarrow> UnionFind n;
     uf \<leftarrow> unite_all uf0 edges;
     Some (numComponents uf) }"

fun redundant_loop :: "union_find \<Rightarrow> (int \<times> int) list \<Rightarrow> (int \<times> int) ub" where
  "redundant_loop uf [] = Some (- 1, - 1)"
| "redundant_loop uf ((u, v) # edges) = do {
     (fresh, uf') \<leftarrow> unite uf u v;
     if \<not> fresh then Some (u, v) else redundant_loop uf' edges }"

definition findRedundantConnection :: "(int \<times> int) list \<Rightarrow> (int \<times> int) ub" where
  "findRedundantConnection edges = do {
     n \<leftarrow> chk (int (length edges) + 1);
     uf \<leftarrow> UnionFind n;
     redundant_loop uf edges }"

text \<open>The values printed by main.\<close>

definition union_find_main :: "(int list \<times> bool list \<times> int \<times> (int \<times> int)) ub" where
  "union_find_main = do {
     uf0 \<leftarrow> UnionFind 7;
     uf1 \<leftarrow> unite_all uf0 [(0, 1), (2, 3), (4, 5)];
     (_, uf2) \<leftarrow> unite uf1 1 2;
     (c03, uf3) \<leftarrow> connected uf2 0 3;
     (c04, uf4) \<leftarrow> connected uf3 0 4;
     k \<leftarrow> countComponents 5 [(0, 1), (1, 2), (3, 4)];
     e \<leftarrow> findRedundantConnection [(1, 2), (1, 3), (2, 3)];
     Some ([numComponents uf0, numComponents uf1, numComponents uf2], [c03, c04], k, e) }"

lemma union_find_main_output: "union_find_main = Some ([7, 4, 3], [True, False], 2, (2, 3))"
  by code_simp

section \<open>Forests and their roots\<close>

abbreviation par :: "union_find \<Rightarrow> int \<Rightarrow> int" where
  "par uf x \<equiv> parent uf ! nat x"

abbreviation rnk :: "union_find \<Rightarrow> int \<Rightarrow> int" where
  "rnk uf x \<equiv> rank uf ! nat x"

definition nodes :: "union_find \<Rightarrow> int set" where
  "nodes uf = {0..<int (length (parent uf))}"

definition roots :: "union_find \<Rightarrow> int set" where
  "roots uf = {x \<in> nodes uf. par uf x = x}"

inductive root_of :: "union_find \<Rightarrow> int \<Rightarrow> int \<Rightarrow> bool" for uf where
  root_here: "x \<in> roots uf \<Longrightarrow> root_of uf x x"
| root_step: "x \<in> nodes uf \<Longrightarrow> par uf x \<noteq> x \<Longrightarrow> root_of uf (par uf x) r \<Longrightarrow> root_of uf x r"

inductive_cases root_ofE: "root_of uf x r"

definition uf_inv :: "union_find \<Rightarrow> bool" where
  "uf_inv uf \<longleftrightarrow> length (rank uf) = length (parent uf) \<and> int (length (parent uf)) \<le> INT_MAX \<and>
     (\<forall>x\<in>nodes uf. par uf x \<in> nodes uf \<and> (par uf x \<noteq> x \<longrightarrow> rnk uf x < rnk uf (par uf x)) \<and>
        0 \<le> rnk uf x \<and> rnk uf x \<le> int (length (parent uf)) - components uf) \<and>
     components uf = int (card (roots uf))"

definition same_roots :: "union_find \<Rightarrow> union_find \<Rightarrow> bool" where
  "same_roots uf uf' \<longleftrightarrow> nodes uf' = nodes uf \<and> roots uf' = roots uf \<and> (\<forall>y r. root_of uf' y r = root_of uf y r)"

lemma uf_inv_node:
  assumes "uf_inv uf" "x \<in> nodes uf"
  shows "par uf x \<in> nodes uf" "par uf x \<noteq> x \<Longrightarrow> rnk uf x < rnk uf (par uf x)" "0 \<le> rnk uf x"
    "rnk uf x \<le> int (length (parent uf)) - components uf"
  using assms unfolding uf_inv_def by blast+

lemma uf_inv_len:
  assumes "uf_inv uf"
  shows "length (rank uf) = length (parent uf)" "int (length (parent uf)) \<le> INT_MAX"
    "components uf = int (card (roots uf))"
  using assms unfolding uf_inv_def by blast+

lemma finite_nodes [simp]: "finite (nodes uf)"
  by (simp add: nodes_def)

lemma finite_roots [simp]: "finite (roots uf)"
  by (simp add: roots_def)

lemma root_of_root: "root_of uf x r \<Longrightarrow> r \<in> roots uf"
  by (induction rule: root_of.induct)

lemma root_of_node: "root_of uf x r \<Longrightarrow> x \<in> nodes uf"
  by (erule root_of.cases) (auto simp: roots_def)

lemma roots_nodes: "r \<in> roots uf \<Longrightarrow> r \<in> nodes uf"
  by (simp add: roots_def)

lemma root_of_det: "root_of uf x r \<Longrightarrow> root_of uf x s \<Longrightarrow> s = r"
proof (induction rule: root_of.induct)
  case (root_here x)
  then show ?case by (auto simp: roots_def elim: root_ofE)
next
  case (root_step x r)
  then show ?case by (auto simp: roots_def elim: root_ofE)
qed

lemma root_of_rank:
  assumes "uf_inv uf" "root_of uf x r"
  shows "r = x \<or> rnk uf x < rnk uf r"
  using assms(2)
proof (induction rule: root_of.induct)
  case (root_step x r)
  then have "rnk uf x < rnk uf (par uf x)" using assms(1) by (simp add: uf_inv_def)
  then show ?case using root_step.IH by auto
qed simp

lemma node_measure:
  assumes "uf_inv uf" "x \<in> nodes uf" "par uf x \<noteq> x"
  shows "nat (INT_MAX - rnk uf (par uf x)) < nat (INT_MAX - rnk uf x)" "par uf x \<in> nodes uf"
proof -
  have "rnk uf x < rnk uf (par uf x)" "par uf x \<in> nodes uf"
    "rnk uf (par uf x) \<le> int (length (parent uf)) - components uf" "0 \<le> components uf"
    "int (length (parent uf)) \<le> INT_MAX"
    using assms by (auto simp: uf_inv_def)
  then show "nat (INT_MAX - rnk uf (par uf x)) < nat (INT_MAX - rnk uf x)" "par uf x \<in> nodes uf"
    by linarith+
qed

lemma root_exists:
  assumes "uf_inv uf"
  shows "x \<in> nodes uf \<Longrightarrow> \<exists>r. root_of uf x r"
proof (induction "nat (INT_MAX - rnk uf x)" arbitrary: x rule: less_induct)
  case less
  show ?case
  proof (cases "par uf x = x")
    case True
    then have "x \<in> roots uf" using less.prems by (simp add: roots_def)
    then show ?thesis using root_here by blast
  next
    case False
    obtain r where "root_of uf (par uf x) r"
      using less.hyps node_measure [OF assms less.prems False] by blast
    then show ?thesis using root_step [OF less.prems False] by blast
  qed
qed

lemma same_roots_refl [simp]: "same_roots uf uf"
  by (simp add: same_roots_def)

lemma same_roots_trans: "same_roots a b \<Longrightarrow> same_roots b c \<Longrightarrow> same_roots a c"
  by (simp add: same_roots_def)

lemma nodes_update [simp]: "nodes (uf\<lparr>parent := (parent uf)[i := r]\<rparr>) = nodes uf"
  by (simp add: nodes_def)

lemma par_update:
  "x \<in> nodes uf \<Longrightarrow> y \<in> nodes uf \<Longrightarrow>
   (parent uf)[nat x := r] ! nat y = (if y = x then r else par uf y)"
  by (auto simp: nodes_def nth_list_update eq_nat_nat_iff)

lemma compress:
  assumes inv: "uf_inv uf" and r: "root_of uf x r" and x: "par uf x \<noteq> x"
  defines "uf' \<equiv> uf\<lparr>parent := (parent uf)[nat x := r]\<rparr>"
  shows "uf_inv uf' \<and> same_roots uf uf'"
proof -
  have xn: "x \<in> nodes uf" by (rule root_of_node [OF r])
  have rr: "r \<in> roots uf" by (rule root_of_root [OF r])
  have rx: "r \<noteq> x" using rr x by (auto simp: roots_def)
  have p: "par uf' y = (if y = x then r else par uf y)" if "y \<in> nodes uf" for y
    using par_update [OF xn that] by (simp add: uf'_def)
  have n: "nodes uf' = nodes uf" by (simp add: uf'_def)
  have ro: "roots uf' = roots uf" using p x rx by (auto simp: roots_def n split: if_splits)
  have "rnk uf x < rnk uf r" using root_of_rank [OF inv r] rx by simp
  then have "par uf' y \<in> nodes uf \<and> (par uf' y \<noteq> y \<longrightarrow> rnk uf y < rnk uf (par uf' y))" if "y \<in> nodes uf" for y
    using p [OF that] uf_inv_node [OF inv that] roots_nodes [OF rr] by auto
  moreover have "rank uf' = rank uf" "components uf' = components uf" "length (parent uf') = length (parent uf)"
    by (simp_all add: uf'_def)
  ultimately have inv': "uf_inv uf'"
    using uf_inv_node [OF inv] uf_inv_len [OF inv] unfolding uf_inv_def n ro by simp
  have fwd: "root_of uf y s \<Longrightarrow> root_of uf' y s" for y s
  proof (induction rule: root_of.induct)
    case (root_here y)
    then show ?case by (intro root_of.root_here) (simp add: ro)
  next
    case (root_step y s)
    show ?case
    proof (cases "y = x")
      case True
      have "root_of uf x s" using root_of.root_step [OF root_step.hyps] True by simp
      then have "s = r" using root_of_det r by blast
      moreover have "root_of uf' r r" using rr by (intro root_of.root_here) (simp add: ro)
      ultimately show ?thesis
        using True rx p [OF xn] xn by (auto simp: n intro: root_of.root_step)
    next
      case False
      then show ?thesis using root_step p [of y] by (auto simp: n intro: root_of.root_step)
    qed
  qed
  have "root_of uf' y s = root_of uf y s" for y s
  proof
    assume y: "root_of uf' y s"
    obtain t where t: "root_of uf y t" using root_exists [OF inv] root_of_node [OF y] n by auto
    then show "root_of uf y s" using root_of_det [OF y fwd [OF t]] by simp
  qed (rule fwd)
  then show ?thesis using inv' n ro by (simp add: same_roots_def)
qed

lemma uf_find_spec:
  assumes "uf_inv uf"
  shows "x \<in> nodes uf \<Longrightarrow> \<exists>r uf'. find uf x = Some (r, uf') \<and> root_of uf x r \<and> uf_inv uf' \<and> same_roots uf uf' \<and>
     rank uf' = rank uf \<and> components uf' = components uf \<and> length (parent uf') = length (parent uf)"
proof (induction "nat (INT_MAX - rnk uf x)" arbitrary: x rule: less_induct)
  case less
  have v: "vget (parent uf) x = Some (par uf x)"
    using less.prems by (simp add: nodes_def vget_def)
  show ?case
  proof (cases "par uf x = x")
    case True
    then have "root_of uf x x" using less.prems by (intro root_here) (simp add: roots_def)
    then show ?thesis using True v assms by (subst find.simps) simp
  next
    case False
    obtain r uf1 where f: "find uf (par uf x) = Some (r, uf1)" "root_of uf (par uf x) r" "uf_inv uf1"
        "same_roots uf uf1" "rank uf1 = rank uf" "components uf1 = components uf"
        "length (parent uf1) = length (parent uf)"
      using less.hyps node_measure [OF assms less.prems False] by blast
    have r: "root_of uf x r" by (rule root_step [OF less.prems False f(2)])
    have r1: "root_of uf1 x r" using r f(4) by (simp add: same_roots_def)
    have "x \<notin> roots uf1" using False f(4) by (auto simp: roots_def same_roots_def)
    then have x1: "par uf1 x \<noteq> x" using root_of_node [OF r1] by (simp add: roots_def)
    note c = compress [OF f(3) r1 x1]
    have "vset (parent uf1) x r = Some ((parent uf1)[nat x := r])"
      using less.prems f(7) by (simp add: nodes_def vset_def)
    then show ?thesis
      using False v f c r same_roots_trans [OF f(4)] by (subst find.simps) simp
  qed
qed

text \<open>Linking one root below another.\<close>

lemma link:
  assumes inv: "uf_inv uf" and r: "a \<in> roots uf" "b \<in> roots uf" "a \<noteq> b" and le: "rnk uf b \<le> rnk uf a"
  defines "k \<equiv> (if rnk uf a = rnk uf b then rnk uf a + 1 else rnk uf a)"
  defines "uf' \<equiv> \<lparr>parent = (parent uf)[nat b := a], rank = (rank uf)[nat a := k], components = components uf - 1\<rparr>"
  shows "uf_inv uf' \<and> nodes uf' = nodes uf \<and> rnk uf a < INT_MAX \<and> 2 \<le> components uf \<and>
    (\<forall>y s. root_of uf y s \<longrightarrow> root_of uf' y (if s = b then a else s))"
proof -
  have an: "a \<in> nodes uf" and bn: "b \<in> nodes uf" using r by (auto simp: roots_def)
  have n: "nodes uf' = nodes uf" by (simp add: uf'_def nodes_def)
  have p: "par uf' y = (if y = b then a else par uf y)" if "y \<in> nodes uf" for y
    using par_update [OF bn that] by (simp add: uf'_def)
  have len: "length (rank uf) = length (parent uf)" using inv by (simp add: uf_inv_def)
  have q: "rnk uf' y = (if y = a then k else rnk uf y)" if "y \<in> nodes uf" for y
    using an that len by (auto simp: uf'_def nodes_def nth_list_update eq_nat_nat_iff)
  have pa: "par uf a = a" "par uf b = b" using r by (auto simp: roots_def)
  have ro: "roots uf' = roots uf - {b}" using p r(3) by (auto simp: roots_def n split: if_splits)
  have card: "int (card (roots uf')) = int (card (roots uf)) - 1"
    using r(2) card_gt_0_iff [of "roots uf"] by (simp add: ro of_nat_diff card_Diff_singleton) force
  have "card {a, b} \<le> card (roots uf)" using r by (intro card_mono) auto
  then have c2: "2 \<le> components uf" using r(3) inv by (simp add: uf_inv_def)
  have ka: "rnk uf a \<le> k" "k \<le> rnk uf a + 1" "rnk uf b < k" using le by (auto simp: k_def)
  have ra: "rnk uf a \<le> int (length (parent uf)) - components uf" by (rule uf_inv_node(4) [OF inv an])
  have small: "rnk uf a < INT_MAX" using ra c2 uf_inv_len(2) [OF inv] by linarith
  have "par uf' y \<in> nodes uf \<and> (par uf' y \<noteq> y \<longrightarrow> rnk uf' y < rnk uf' (par uf' y)) \<and>
      0 \<le> rnk uf' y \<and> rnk uf' y \<le> int (length (parent uf)) - (components uf - 1)"
    if y: "y \<in> nodes uf" for y
  proof -
    have iy: "par uf y \<in> nodes uf" "par uf y \<noteq> y \<longrightarrow> rnk uf y < rnk uf (par uf y)" "0 \<le> rnk uf y"
      "rnk uf y \<le> int (length (parent uf)) - components uf" "0 \<le> rnk uf a"
      using uf_inv_node [OF inv y] uf_inv_node [OF inv an] by blast+
    have g: "rnk uf z \<le> rnk uf' z" if "z \<in> nodes uf" for z using q [OF that] ka by simp
    have l: "par uf' y \<noteq> y \<longrightarrow> rnk uf' y < rnk uf' (par uf' y)"
    proof (cases "y = b")
      case True
      then show ?thesis using p [OF y] q [OF y] q [OF an] ka r(3) by simp
    next
      case False
      then show ?thesis using p [OF y] q [OF y] iy g [OF iy(1)] pa by auto
    qed
    show ?thesis using l p [OF y] q [OF y] iy an ka ra by auto
  qed
  moreover have "length (parent uf') = length (parent uf)" "length (rank uf') = length (parent uf)"
    "components uf' = components uf - 1"
    using len by (simp_all add: uf'_def)
  ultimately have inv': "uf_inv uf'"
    using inv card unfolding uf_inv_def n by auto
  have "root_of uf y s \<Longrightarrow> root_of uf' y (if s = b then a else s)" for y s
  proof (induction rule: root_of.induct)
    case (root_here y)
    have a': "root_of uf' a a" using r by (intro root_of.root_here) (simp add: ro)
    show ?case
    proof (cases "y = b")
      case True
      then show ?thesis using p [OF bn] r(3) a' bn by (auto simp: n intro: root_of.root_step)
    next
      case False
      then show ?thesis using root_here by (simp add: root_of.root_here ro)
    qed
  next
    case (root_step y s)
    then have "y \<noteq> b" using pa by auto
    then show ?case using root_step p [OF root_step.hyps(1)] by (auto simp: n intro: root_of.root_step)
  qed
  then show ?thesis using inv' n small c2 by blast
qed

section \<open>Equivalence classes\<close>

definition uf_rel :: "union_find \<Rightarrow> (int \<times> int) set" where
  "uf_rel uf = {(x, y). \<exists>r. root_of uf x r \<and> root_of uf y r}"

text \<open>What the edges join: the least equivalence on the nodes 0 to n - 1 that contains them.\<close>

definition joined :: "int \<Rightarrow> (int \<times> int) list \<Rightarrow> (int \<times> int) set" where
  "joined n edges = (set edges \<union> (set edges)\<inverse>)\<^sup>* \<inter> {0..<n} \<times> {0..<n}"

lemma uf_rel_equiv:
  assumes "uf_inv uf"
  shows "uf_rel uf \<subseteq> nodes uf \<times> nodes uf" "x \<in> nodes uf \<Longrightarrow> (x, x) \<in> uf_rel uf" "sym (uf_rel uf)" "trans (uf_rel uf)"
proof -
  show "uf_rel uf \<subseteq> nodes uf \<times> nodes uf" by (auto simp: uf_rel_def root_of_node)
  show "x \<in> nodes uf \<Longrightarrow> (x, x) \<in> uf_rel uf" using root_exists [OF assms] by (auto simp: uf_rel_def)
  show "sym (uf_rel uf)" by (auto simp: uf_rel_def sym_def)
  show "trans (uf_rel uf)"
  proof (rule transI)
    fix x y z assume "(x, y) \<in> uf_rel uf" "(y, z) \<in> uf_rel uf"
    then obtain r s where "root_of uf x r" "root_of uf y r" "root_of uf y s" "root_of uf z s"
      by (auto simp: uf_rel_def)
    moreover from this have "s = r" using root_of_det by blast
    ultimately show "(x, z) \<in> uf_rel uf" by (auto simp: uf_rel_def)
  qed
qed

lemma uf_rel_roots: "root_of uf x r \<Longrightarrow> root_of uf y s \<Longrightarrow> (x, y) \<in> uf_rel uf \<longleftrightarrow> r = s"
  unfolding uf_rel_def by (auto) (metis root_of_det)

lemma same_roots_rel: "same_roots uf uf' \<Longrightarrow> uf_rel uf' = uf_rel uf"
  by (simp add: same_roots_def uf_rel_def)

lemma link_rel:
  assumes inv: "uf_inv uf" "uf_inv uf'" and n: "nodes uf' = nodes uf" and ab: "a \<noteq> b"
    and m: "\<forall>y s. root_of uf y s \<longrightarrow> root_of uf' y (if s = b then a else s)"
    and xy: "root_of uf x r" "root_of uf y s" "{r, s} = {a, b}"
  shows "(c, d) \<in> uf_rel uf' \<longleftrightarrow> (c, d) \<in> uf_rel uf \<or> (c, x) \<in> uf_rel uf \<and> (y, d) \<in> uf_rel uf \<or>
     (c, y) \<in> uf_rel uf \<and> (x, d) \<in> uf_rel uf"
proof (cases "c \<in> nodes uf \<and> d \<in> nodes uf")
  case True
  then obtain t u where t: "root_of uf c t" "root_of uf d u" using root_exists [OF inv(1)] by blast
  have "root_of uf' c (if t = b then a else t)" "root_of uf' d (if u = b then a else u)"
    using m t by blast+
  note e = uf_rel_roots [OF this] uf_rel_roots [OF t] uf_rel_roots [OF t(1) xy(1)]
    uf_rel_roots [OF xy(2) t(2)] uf_rel_roots [OF t(1) xy(2)] uf_rel_roots [OF xy(1) t(2)]
  show ?thesis unfolding e using ab xy(3) by (auto simp: doubleton_eq_iff)
next
  case False
  then show ?thesis using uf_rel_equiv(1) [OF inv(1)] uf_rel_equiv(1) [OF inv(2)] n by auto
qed

lemma unite_spec:
  assumes inv: "uf_inv uf" and x: "x \<in> nodes uf" and y: "y \<in> nodes uf"
  shows "\<exists>b uf'. unite uf x y = Some (b, uf') \<and> uf_inv uf' \<and> nodes uf' = nodes uf \<and>
    (b \<longleftrightarrow> (x, y) \<notin> uf_rel uf) \<and>
    (\<forall>c d. (c, d) \<in> uf_rel uf' \<longleftrightarrow> (c, d) \<in> uf_rel uf \<or> (c, x) \<in> uf_rel uf \<and> (y, d) \<in> uf_rel uf \<or>
       (c, y) \<in> uf_rel uf \<and> (x, d) \<in> uf_rel uf)"
proof -
  obtain rx uf1 where 1: "find uf x = Some (rx, uf1)" "root_of uf x rx" "uf_inv uf1" "same_roots uf uf1"
    using uf_find_spec [OF inv x] by blast
  have y1: "y \<in> nodes uf1" using y 1(4) by (simp add: same_roots_def)
  obtain ry uf2 where 2: "find uf1 y = Some (ry, uf2)" "root_of uf1 y ry" "uf_inv uf2" "same_roots uf1 uf2"
    using uf_find_spec [OF 1(3) y1] by blast
  have s: "same_roots uf uf2" by (rule same_roots_trans [OF 1(4) 2(4)])
  then have n2: "nodes uf2 = nodes uf" and rel2: "uf_rel uf2 = uf_rel uf"
    by (simp_all add: same_roots_rel) (simp add: same_roots_def)
  have r: "root_of uf2 x rx" "root_of uf2 y ry"
    using 1(2) 2(2) s 2(4) by (auto simp: same_roots_def)
  then have rr: "rx \<in> roots uf2" "ry \<in> roots uf2" by (auto intro: root_of_root)
  show ?thesis
  proof (cases "rx = ry")
    case True
    then have xy: "(x, y) \<in> uf_rel uf" using uf_rel_roots [OF r] rel2 by simp
    have "(c, d) \<in> uf_rel uf" if "(c, x) \<in> uf_rel uf \<and> (y, d) \<in> uf_rel uf \<or> (c, y) \<in> uf_rel uf \<and> (x, d) \<in> uf_rel uf" for c d
      using that xy uf_rel_equiv(3,4) [OF inv] by (meson symD transD)
    then have rel: "\<forall>c d. (c, d) \<in> uf_rel uf \<longleftrightarrow> (c, d) \<in> uf_rel uf \<or> (c, x) \<in> uf_rel uf \<and> (y, d) \<in> uf_rel uf \<or>
        (c, y) \<in> uf_rel uf \<and> (x, d) \<in> uf_rel uf" by blast
    have "unite uf x y = Some (False, uf2)" using 1(1) 2(1) True by (simp add: unite_def)
    then show ?thesis using 2(3) xy n2 rel unfolding rel2 [symmetric]
      by (intro exI [of _ False] exI [of _ uf2]) simp
  next
    case False
    define a b where "a = (if rnk uf2 rx < rnk uf2 ry then ry else rx)"
      and "b = (if rnk uf2 rx < rnk uf2 ry then rx else ry)"
    have ab: "a \<in> roots uf2" "b \<in> roots uf2" "a \<noteq> b" "rnk uf2 b \<le> rnk uf2 a" "{rx, ry} = {a, b}"
      using rr False by (auto simp: a_def b_def)
    define k where "k = (if rnk uf2 a = rnk uf2 b then rnk uf2 a + 1 else rnk uf2 a)"
    define uf' where "uf' = \<lparr>parent = (parent uf2)[nat b := a], rank = (rank uf2)[nat a := k],
      components = components uf2 - 1\<rparr>"
    have l: "uf_inv uf'" "nodes uf' = nodes uf2" "rnk uf2 a < INT_MAX" "2 \<le> components uf2"
      "\<forall>y s. root_of uf2 y s \<longrightarrow> root_of uf' y (if s = b then a else s)"
      using link [OF 2(3) ab(1-4)] unfolding uf'_def k_def by blast+
    have nn: "rx \<in> nodes uf2" "ry \<in> nodes uf2" "a \<in> nodes uf2" "b \<in> nodes uf2"
      using rr ab by (auto intro: roots_nodes)
    have len: "length (rank uf2) = length (parent uf2)" by (rule uf_inv_len(1) [OF 2(3)])
    have v: "vget (rank uf2) rx = Some (rnk uf2 rx)" "vget (rank uf2) ry = Some (rnk uf2 ry)"
      "vset (parent uf2) b a = Some ((parent uf2)[nat b := a])"
      "vset (rank uf2) a k = Some ((rank uf2)[nat a := k])"
      using nn len by (auto simp: nodes_def vget_def vset_def)
    have pos: "0 \<le> rnk uf2 a" "components uf2 \<le> INT_MAX"
      using uf_inv_node(3,4) [OF 2(3) nn(3)] uf_inv_len(2) [OF 2(3)] by linarith+
    have c: "chk (components uf2 - 1) = Some (components uf2 - 1)" "chk (rnk uf2 a + 1) = Some (rnk uf2 a + 1)"
      using l(3,4) pos by (simp_all add: chk_def in_int_def)
    have same: "(rank uf2)[nat a := rnk uf2 a] = rank uf2" by simp
    have "unite uf x y = Some (True, uf')"
      using False 1(1) 2(1) v c same unfolding unite_def uf'_def k_def
      by (auto simp: a_def b_def Let_def)
    moreover have "(x, y) \<notin> uf_rel uf" using uf_rel_roots [OF r] False rel2 by simp
    ultimately show ?thesis
      using link_rel [OF 2(3) l(1,2) ab(3) l(5) r ab(5)] l(1,2) n2 rel2
      by (intro exI [of _ True] exI [of _ uf']) simp
  qed
qed

lemma unite_rel:
  assumes inv: "uf_inv uf" "x \<in> nodes uf" "y \<in> nodes uf"
  obtains b uf' where "unite uf x y = Some (b, uf')" "uf_inv uf'" "nodes uf' = nodes uf"
    "b \<longleftrightarrow> (x, y) \<notin> uf_rel uf"
    "uf_rel uf' = (uf_rel uf \<union> {(x, y), (y, x)})\<^sup>* \<inter> nodes uf \<times> nodes uf"
proof -
  obtain b uf' where u: "unite uf x y = Some (b, uf')" "uf_inv uf'" "nodes uf' = nodes uf"
    "b \<longleftrightarrow> (x, y) \<notin> uf_rel uf" and
    rel: "\<And>c d. (c, d) \<in> uf_rel uf' \<longleftrightarrow> (c, d) \<in> uf_rel uf \<or> (c, x) \<in> uf_rel uf \<and> (y, d) \<in> uf_rel uf \<or>
       (c, y) \<in> uf_rel uf \<and> (x, d) \<in> uf_rel uf"
    using unite_spec [OF assms] by blast
  let ?S = "uf_rel uf \<union> {(x, y), (y, x)}"
  note e = uf_rel_equiv [OF inv(1)] and e' = uf_rel_equiv [OF u(2), unfolded u(3)]
  have "?S \<subseteq> uf_rel uf'" using e(2) inv(2,3) by (auto simp: rel)
  then have "?S\<^sup>* \<subseteq> (uf_rel uf')\<^sup>*" by (rule rtrancl_mono)
  also have "\<dots> = (uf_rel uf')\<^sup>=" using e'(4) by (simp add: rtrancl_trancl_reflcl)
  finally have 1: "?S\<^sup>* \<inter> nodes uf \<times> nodes uf \<subseteq> uf_rel uf'" using e'(2) by auto
  have "(c, d) \<in> ?S\<^sup>*" if "(c, d) \<in> uf_rel uf'" for c d
  proof -
    have s: "p \<in> ?S\<^sup>*" if "p \<in> ?S" for p using that by (rule r_into_rtrancl)
    have xy: "(x, y) \<in> ?S\<^sup>*" "(y, x) \<in> ?S\<^sup>*" by (auto intro: s)
    have "(c, d) \<in> uf_rel uf \<or> (c, x) \<in> uf_rel uf \<and> (y, d) \<in> uf_rel uf \<or>
       (c, y) \<in> uf_rel uf \<and> (x, d) \<in> uf_rel uf" using that rel by blast
    then show ?thesis using xy by (meson UnI1 s rtrancl_trans)
  qed
  then have 2: "uf_rel uf' \<subseteq> ?S\<^sup>* \<inter> nodes uf \<times> nodes uf" using e'(1) by auto
  show ?thesis using that [OF u] 1 2 by blast
qed

lemma rtrancl_absorb:
  assumes "A \<subseteq> B" "B \<subseteq> A\<^sup>*"
  shows "(B \<union> C)\<^sup>* = (A \<union> C)\<^sup>*"
proof (rule rtrancl_subset)
  show "B \<union> C \<subseteq> (A \<union> C)\<^sup>*"
    using assms(2) rtrancl_mono [of A "A \<union> C"] by auto
qed (use assms(1) in auto)

definition edges_in :: "union_find \<Rightarrow> (int \<times> int) list \<Rightarrow> bool" where
  "edges_in uf edges \<longleftrightarrow> set edges \<subseteq> nodes uf \<times> nodes uf"

lemma uf_start:
  assumes "0 \<le> n" "n \<le> INT_MAX"
  obtains uf where "UnionFind n = Some uf" "uf_inv uf" "nodes uf = {0..<n}" "uf_rel uf = Id_on {0..<n}"
proof -
  let ?uf = "\<lparr>parent = map int [0..<nat n], rank = replicate (nat n) 0, components = n\<rparr>"
  have n: "nodes ?uf = {0..<n}" using assms by (simp add: nodes_def)
  have p: "par ?uf x = x" if "x \<in> {0..<n}" for x using that by simp
  have r: "roots ?uf = {0..<n}" using p by (auto simp: roots_def n)
  have inv: "uf_inv ?uf" using assms by (auto simp: uf_inv_def n r)
  have "root_of ?uf x y \<longleftrightarrow> x = y \<and> x \<in> {0..<n}" for x y
    using root_of_det [OF root_here, of x ?uf y] root_of_node [of ?uf x y] root_here [of x ?uf]
    by (auto simp: r n)
  then have "uf_rel ?uf = Id_on {0..<n}" by (auto simp: uf_rel_def)
  then show ?thesis using that [of ?uf] inv n assms(1) by (simp add: UnionFind_def)
qed

lemma unite_all_spec:
  "uf_inv uf \<Longrightarrow> edges_in uf edges \<Longrightarrow>
   \<exists>uf'. unite_all uf edges = Some uf' \<and> uf_inv uf' \<and> nodes uf' = nodes uf \<and>
     uf_rel uf' = (uf_rel uf \<union> (set edges \<union> (set edges)\<inverse>))\<^sup>* \<inter> nodes uf \<times> nodes uf"
proof (induction edges arbitrary: uf)
  case Nil
  note e = uf_rel_equiv [OF Nil.prems(1)]
  have "(uf_rel uf)\<^sup>* = (uf_rel uf)\<^sup>=" using e(4) by (simp add: rtrancl_trancl_reflcl)
  then show ?case using Nil e(1,2) by auto
next
  case (Cons edge edges)
  obtain u v where e: "edge = (u, v)" by (cases edge)
  have uv: "u \<in> nodes uf" "v \<in> nodes uf" using Cons.prems(2) by (auto simp: e edges_in_def)
  obtain b uf1 where 1: "unite uf u v = Some (b, uf1)" "uf_inv uf1" "nodes uf1 = nodes uf"
    "uf_rel uf1 = (uf_rel uf \<union> {(u, v), (v, u)})\<^sup>* \<inter> nodes uf \<times> nodes uf"
    using unite_rel [OF Cons.prems(1) uv] by metis
  obtain uf' where 2: "unite_all uf1 edges = Some uf'" "uf_inv uf'" "nodes uf' = nodes uf1"
     "uf_rel uf' = (uf_rel uf1 \<union> (set edges \<union> (set edges)\<inverse>))\<^sup>* \<inter> nodes uf1 \<times> nodes uf1"
    using Cons.IH [OF 1(2)] Cons.prems(2) 1(3) by (auto simp: edges_in_def)
  have "uf_rel uf \<union> {(u, v), (v, u)} \<subseteq> uf_rel uf1"
    using uf_rel_equiv(1) [OF Cons.prems(1)] uv unfolding 1(4) by blast
  moreover have "uf_rel uf1 \<subseteq> (uf_rel uf \<union> {(u, v), (v, u)})\<^sup>*" unfolding 1(4) by blast
  ultimately have "(uf_rel uf1 \<union> (set edges \<union> (set edges)\<inverse>))\<^sup>* =
      (uf_rel uf \<union> {(u, v), (v, u)} \<union> (set edges \<union> (set edges)\<inverse>))\<^sup>*"
    by (rule rtrancl_absorb)
  moreover have "uf_rel uf \<union> {(u, v), (v, u)} \<union> (set edges \<union> (set edges)\<inverse>) =
      uf_rel uf \<union> (set (edge # edges) \<union> (set (edge # edges))\<inverse>)"
    by (auto simp: e)
  ultimately show ?case using 1 2 by (simp add: e)
qed

lemma components_quotient:
  assumes inv: "uf_inv uf"
  shows "components uf = int (card (nodes uf // uf_rel uf))"
proof -
  let ?c = "\<lambda>r. uf_rel uf `` {r}"
  have rr: "root_of uf r r" if "r \<in> roots uf" for r using that by (rule root_here)
  have "inj_on ?c (roots uf)"
  proof (rule inj_onI)
    fix r s assume r: "r \<in> roots uf" "s \<in> roots uf" "?c r = ?c s"
    have "s \<in> ?c s" using uf_rel_roots [OF rr [OF r(2)] rr [OF r(2)]] by simp
    then have "s \<in> ?c r" using r(3) by blast
    then have "(r, s) \<in> uf_rel uf" by simp
    then show "r = s" using uf_rel_roots [OF rr [OF r(1)] rr [OF r(2)]] by simp
  qed
  moreover have "?c ` roots uf = nodes uf // uf_rel uf"
  proof
    show "?c ` roots uf \<subseteq> nodes uf // uf_rel uf" by (auto simp: quotient_def roots_def)
    show "nodes uf // uf_rel uf \<subseteq> ?c ` roots uf"
    proof
      fix X assume "X \<in> nodes uf // uf_rel uf"
      then obtain x where x: "x \<in> nodes uf" "X = ?c x" by (auto simp: quotient_def)
      obtain r where r: "root_of uf x r" using root_exists [OF inv x(1)] by blast
      have "r \<in> roots uf" by (rule root_of_root [OF r])
      then have "(x, r) \<in> uf_rel uf" using uf_rel_roots [OF r rr] by blast
      then have "?c x = ?c r" using uf_rel_equiv(3,4) [OF inv] by (auto dest: symD transD)
      then show "X \<in> ?c ` roots uf" using x \<open>r \<in> roots uf\<close> by blast
    qed
  qed
  ultimately show ?thesis using uf_inv_len(3) [OF inv] card_image by metis
qed

lemma run_joined:
  assumes "0 \<le> n" "n \<le> INT_MAX" "set edges \<subseteq> {0..<n} \<times> {0..<n}"
  obtains uf0 uf where "UnionFind n = Some uf0" "unite_all uf0 edges = Some uf" "uf_inv uf"
    "nodes uf = {0..<n}" "uf_rel uf = joined n edges"
proof -
  obtain uf0 where 0: "UnionFind n = Some uf0" "uf_inv uf0" "nodes uf0 = {0..<n}" "uf_rel uf0 = Id_on {0..<n}"
    using uf_start [OF assms(1,2)] .
  have "edges_in uf0 edges" using assms(3) 0(3) by (simp add: edges_in_def)
  then obtain uf where u: "unite_all uf0 edges = Some uf" "uf_inv uf" "nodes uf = nodes uf0"
     "uf_rel uf = (uf_rel uf0 \<union> (set edges \<union> (set edges)\<inverse>))\<^sup>* \<inter> nodes uf0 \<times> nodes uf0"
    using unite_all_spec [OF 0(2)] by blast
  have "(Id_on {0..<n} \<union> (set edges \<union> (set edges)\<inverse>))\<^sup>* = ({} \<union> (set edges \<union> (set edges)\<inverse>))\<^sup>*"
    by (rule rtrancl_absorb) (auto simp: Id_on_def)
  then show ?thesis using that [OF 0(1) u(1,2)] u(3,4) 0(3,4) by (simp add: joined_def)
qed

text \<open>
  C3: for edges between the nodes 0 to n - 1, countComponents returns the number of classes of
  the least equivalence that contains the edges.
\<close>
theorem countComponents_correct:
  assumes "0 \<le> n" "n \<le> INT_MAX" "set edges \<subseteq> {0..<n} \<times> {0..<n}"
  shows "countComponents n edges = Some (int (card ({0..<n} // joined n edges)))"
proof -
  obtain uf0 uf where "UnionFind n = Some uf0" "unite_all uf0 edges = Some uf" "uf_inv uf"
    "nodes uf = {0..<n}" "uf_rel uf = joined n edges"
    using run_joined [OF assms] .
  then show ?thesis using components_quotient [of uf] by (simp add: countComponents_def numComponents_def)
qed

theorem countComponents_correct_witness:
  "countComponents 5 [(0, 1), (1, 2), (3, 4)] = Some (int (card ({0..<5} // joined 5 [(0, 1), (1, 2), (3, 4)])))"
  using countComponents_correct [of 5 "[(0, 1), (1, 2), (3, 4)]"] by simp

text \<open>No edge of the list joins two nodes that the edges before it (and the ones seen) join.\<close>

definition cycle_free :: "int \<Rightarrow> (int \<times> int) list \<Rightarrow> (int \<times> int) list \<Rightarrow> bool" where
  "cycle_free n seen edges \<longleftrightarrow> (\<forall>as e bs. edges = as @ e # bs \<longrightarrow> e \<notin> joined n (seen @ as))"

lemma cycle_free_Nil [simp]: "cycle_free n seen []"
  by (simp add: cycle_free_def)

lemma cycle_free_Cons:
  "cycle_free n seen (e # edges) \<longleftrightarrow> e \<notin> joined n seen \<and> cycle_free n (seen @ [e]) edges"
proof
  assume "cycle_free n seen (e # edges)"
  then have a: "\<And>as x bs. e # edges = as @ x # bs \<Longrightarrow> x \<notin> joined n (seen @ as)"
    unfolding cycle_free_def by blast
  have "x \<notin> joined n ((seen @ [e]) @ as)" if "edges = as @ x # bs" for as x bs
    using a [of "e # as" x bs] that by simp
  then show "e \<notin> joined n seen \<and> cycle_free n (seen @ [e]) edges"
    using a [of "[]" e edges] unfolding cycle_free_def by simp
next
  assume "e \<notin> joined n seen \<and> cycle_free n (seen @ [e]) edges"
  then show "cycle_free n seen (e # edges)" by (auto simp: cycle_free_def Cons_eq_append_conv)
qed

lemma joined_snoc:
  assumes "set seen \<subseteq> {0..<n} \<times> {0..<n}"
  shows "(joined n seen \<union> {(u, v), (v, u)})\<^sup>* \<inter> {0..<n} \<times> {0..<n} = joined n (seen @ [(u, v)])"
proof -
  have "(joined n seen \<union> {(u, v), (v, u)})\<^sup>* = ((set seen \<union> (set seen)\<inverse>) \<union> {(u, v), (v, u)})\<^sup>*"
    using assms by (intro rtrancl_absorb) (auto simp: joined_def)
  moreover have "(set seen \<union> (set seen)\<inverse>) \<union> {(u, v), (v, u)} = set (seen @ [(u, v)]) \<union> (set (seen @ [(u, v)]))\<inverse>"
    by auto
  ultimately show ?thesis by (simp add: joined_def)
qed

lemma redundant_loop_spec:
  "uf_inv uf \<Longrightarrow> set (seen @ edges) \<subseteq> {0..<n} \<times> {0..<n} \<Longrightarrow> nodes uf = {0..<n} \<Longrightarrow> uf_rel uf = joined n seen \<Longrightarrow>
   (redundant_loop uf edges = Some (- 1, - 1) \<and> cycle_free n seen edges) \<or>
   (\<exists>as e bs. edges = as @ e # bs \<and> cycle_free n seen as \<and> e \<in> joined n (seen @ as) \<and>
      redundant_loop uf edges = Some e)"
proof (induction edges arbitrary: uf seen)
  case (Cons edge edges)
  obtain u v where e: "edge = (u, v)" by (cases edge)
  have uv: "u \<in> nodes uf" "v \<in> nodes uf" using Cons.prems(2,3) by (auto simp: e)
  obtain b uf1 where 1: "unite uf u v = Some (b, uf1)" "uf_inv uf1" "nodes uf1 = nodes uf"
    "b \<longleftrightarrow> (u, v) \<notin> uf_rel uf"
    "uf_rel uf1 = (uf_rel uf \<union> {(u, v), (v, u)})\<^sup>* \<inter> nodes uf \<times> nodes uf"
    using unite_rel [OF Cons.prems(1) uv] by metis
  show ?case
  proof (cases b)
    case False
    then have "edge # edges = [] @ edge # edges \<and> cycle_free n seen [] \<and> edge \<in> joined n (seen @ []) \<and>
        redundant_loop uf (edge # edges) = Some edge"
      using 1(1,4) Cons.prems(4) by (simp add: e)
    then show ?thesis by blast
  next
    case True
    have "uf_rel uf1 = joined n (seen @ [edge])"
      using 1(5) Cons.prems(2-4) joined_snoc [of seen n u v] by (simp add: e)
    moreover have "set ((seen @ [edge]) @ edges) \<subseteq> {0..<n} \<times> {0..<n}" using Cons.prems(2) by simp
    ultimately have ih: "(redundant_loop uf1 edges = Some (- 1, - 1) \<and> cycle_free n (seen @ [edge]) edges) \<or>
       (\<exists>as e bs. edges = as @ e # bs \<and> cycle_free n (seen @ [edge]) as \<and> e \<in> joined n ((seen @ [edge]) @ as) \<and>
          redundant_loop uf1 edges = Some e)"
      using Cons.IH [OF 1(2), of "seen @ [edge]"] 1(3) Cons.prems(3) by blast
    have r: "redundant_loop uf (edge # edges) = redundant_loop uf1 edges" using 1(1) True by (simp add: e)
    have new: "edge \<notin> joined n seen" using True 1(4) Cons.prems(4) by (simp add: e)
    from ih show ?thesis
    proof
      assume "\<exists>as e bs. edges = as @ e # bs \<and> cycle_free n (seen @ [edge]) as \<and> e \<in> joined n ((seen @ [edge]) @ as) \<and>
          redundant_loop uf1 edges = Some e"
      then obtain as e' bs where a: "edges = as @ e' # bs" "cycle_free n (seen @ [edge]) as"
        "e' \<in> joined n ((seen @ [edge]) @ as)" "redundant_loop uf1 edges = Some e'" by blast
      then have "edge # edges = (edge # as) @ e' # bs \<and> cycle_free n seen (edge # as) \<and>
          e' \<in> joined n (seen @ edge # as) \<and> redundant_loop uf (edge # edges) = Some e'"
        using new r by (simp add: cycle_free_Cons)
      then show ?thesis by blast
    qed (simp add: r new cycle_free_Cons)
  qed
qed simp

text \<open>
  Claim: on a graph whose nodes are numbered from 0 to the number of edges, the search for a
  redundant connection returns the first edge that joins two nodes already joined by the edges
  before it, and (-1, -1) exactly when there is no such edge.
\<close>
theorem findRedundantConnection_first:
  assumes "set edges \<subseteq> {0..int (length edges)} \<times> {0..int (length edges)}" "int (length edges) < INT_MAX"
  defines "n \<equiv> int (length edges) + 1"
  shows "(findRedundantConnection edges = Some (- 1, - 1) \<and> cycle_free n [] edges) \<or>
    (\<exists>as e bs. edges = as @ e # bs \<and> cycle_free n [] as \<and> e \<in> joined n as \<and>
       findRedundantConnection edges = Some e)"
proof -
  have n: "0 \<le> n" "n \<le> INT_MAX" "{0..<n} = {0..int (length edges)}" using assms(2) by (auto simp: n_def)
  obtain uf where u: "UnionFind n = Some uf" "uf_inv uf" "nodes uf = {0..<n}" "uf_rel uf = Id_on {0..<n}"
    using uf_start [OF n(1,2)] .
  have "joined n [] = Id_on {0..<n}" by (auto simp: joined_def)
  then have "(redundant_loop uf edges = Some (- 1, - 1) \<and> cycle_free n [] edges) \<or>
    (\<exists>as e bs. edges = as @ e # bs \<and> cycle_free n [] as \<and> e \<in> joined n ([] @ as) \<and>
       redundant_loop uf edges = Some e)"
    using redundant_loop_spec [of uf "[]" edges n] u assms(1) n(3) by simp
  moreover have "chk (int (length edges) + 1) = Some n" using n by (simp add: chk_def in_int_def n_def)
  ultimately show ?thesis using u(1) by (simp add: findRedundantConnection_def)
qed

theorem findRedundantConnection_first_witness:
  "(findRedundantConnection [(1, 2), (1, 3), (2, 3)] = Some (- 1, - 1) \<and> cycle_free 4 [] [(1, 2), (1, 3), (2, 3)]) \<or>
    (\<exists>as e bs. [(1, 2), (1, 3), (2, 3)] = as @ e # bs \<and> cycle_free 4 [] as \<and> e \<in> joined 4 as \<and>
       findRedundantConnection [(1, 2), (1, 3), (2, 3)] = Some e)"
  using findRedundantConnection_first [of "[(1, 2), (1, 3), (2, 3)]"] by simp

end
