(* ===== verification/Hash_Map.thy ===== *)
theory Hash_Map
  imports Prelude
begin

text \<open>
  src/src/stl_like/hash_map.cpp: a hash map with separate chaining that doubles its buckets when
  the load factor exceeds 0.75. The hash function is a parameter (std::hash is unspecified); the
  float comparison of the load factor is the exact comparison 4 * size > 3 * buckets, with which it
  agrees below 2 ^ 23 buckets. A map of zero buckets divides by zero (None).
\<close>

section \<open>Definitions\<close>

datatype ('k, 'v) entry = Entry (key: 'k) (val: 'v)

record ('k, 'v) hash_map =
  buckets :: "('k, 'v) entry list list"
  map_size :: nat

definition HashMap :: "nat \<Rightarrow> ('k, 'v) hash_map" where
  "HashMap initial_buckets = \<lparr>buckets = replicate initial_buckets [], map_size = 0\<rparr>"

definition bucket_index :: "('k \<Rightarrow> nat) \<Rightarrow> ('k, 'v) hash_map \<Rightarrow> 'k \<Rightarrow> nat ub" where
  "bucket_index hasher m k = do {
     guard (buckets m \<noteq> []);
     Some (hasher k mod length (buckets m)) }"

fun rehash_loop :: "('k \<Rightarrow> nat) \<Rightarrow> nat \<Rightarrow> ('k, 'v) entry list \<Rightarrow> ('k, 'v) entry list list \<Rightarrow> ('k, 'v) entry list list ub" where
  "rehash_loop hasher n [] new_buckets = Some new_buckets"
| "rehash_loop hasher n (e # es) new_buckets = do {
     guard (n \<noteq> 0);
     let idx = hasher (key e) mod n;
     rehash_loop hasher n es (new_buckets[idx := new_buckets ! idx @ [e]]) }"

definition rehash :: "('k \<Rightarrow> nat) \<Rightarrow> ('k, 'v) hash_map \<Rightarrow> nat \<Rightarrow> ('k, 'v) hash_map ub" where
  "rehash hasher m n = do {
     bs \<leftarrow> rehash_loop hasher n (concat (buckets m)) (replicate n []);
     Some (m\<lparr>buckets := bs\<rparr>) }"

definition too_full :: "('k, 'v) hash_map \<Rightarrow> bool" where
  "too_full m \<longleftrightarrow> 4 * map_size m > 3 * length (buckets m)"

text \<open>The loop over a bucket: the position of the entry with the key, if there is one.\<close>

fun entry_pos :: "('k, 'v) entry list \<Rightarrow> 'k \<Rightarrow> nat option" where
  "entry_pos [] k = None"
| "entry_pos (e # es) k = (if key e = k then Some 0 else map_option Suc (entry_pos es k))"

definition hm_insert :: "('k \<Rightarrow> nat) \<Rightarrow> ('k, 'v) hash_map \<Rightarrow> 'k \<Rightarrow> 'v \<Rightarrow> ('k, 'v) hash_map ub" where
  "hm_insert hasher m k v = do {
     idx \<leftarrow> bucket_index hasher m k;
     let b = buckets m ! idx;
     (case entry_pos b k of
        Some j \<Rightarrow> Some (m\<lparr>buckets := (buckets m)[idx := b[j := Entry k v]]\<rparr>)
      | None \<Rightarrow> (
          let m1 = \<lparr>buckets = (buckets m)[idx := b @ [Entry k v]], map_size = map_size m + 1\<rparr>
          in if too_full m1 then rehash hasher m1 (length (buckets m1) * 2) else Some m1)) }"

definition hm_find :: "('k \<Rightarrow> nat) \<Rightarrow> ('k, 'v) hash_map \<Rightarrow> 'k \<Rightarrow> 'v option ub" where
  "hm_find hasher m k = do {
     idx \<leftarrow> bucket_index hasher m k;
     let b = buckets m ! idx;
     Some (map_option (\<lambda>j. val (b ! j)) (entry_pos b k)) }"

definition hm_erase :: "('k \<Rightarrow> nat) \<Rightarrow> ('k, 'v) hash_map \<Rightarrow> 'k \<Rightarrow> (bool \<times> ('k, 'v) hash_map) ub" where
  "hm_erase hasher m k = do {
     idx \<leftarrow> bucket_index hasher m k;
     let b = buckets m ! idx;
     (case entry_pos b k of
        Some j \<Rightarrow> Some (True, \<lparr>buckets = (buckets m)[idx := take j b @ drop (Suc j) b], map_size = map_size m - 1\<rparr>)
      | None \<Rightarrow> Some (False, m)) }"

text \<open>
  The subscript operator returns a reference: the bucket and the position of the entry. A
  reference is read and assigned through ref_get and ref_set.
\<close>

definition hm_index :: "('k \<Rightarrow> nat) \<Rightarrow> 'v \<Rightarrow> ('k, 'v) hash_map \<Rightarrow> 'k \<Rightarrow> ((nat \<times> nat) \<times> ('k, 'v) hash_map) ub" where
  "hm_index hasher dflt m k = do {
     idx \<leftarrow> bucket_index hasher m k;
     let b = buckets m ! idx;
     (case entry_pos b k of
        Some j \<Rightarrow> Some ((idx, j), m)
      | None \<Rightarrow> (
          let m1 = \<lparr>buckets = (buckets m)[idx := b @ [Entry k dflt]], map_size = map_size m + 1\<rparr>
          in if too_full m1 then do {
               m2 \<leftarrow> rehash hasher m1 (length (buckets m1) * 2);
               idx' \<leftarrow> bucket_index hasher m2 k;
               let b' = buckets m2 ! idx';
               (case entry_pos b' k of
                  Some j \<Rightarrow> Some ((idx', j), m2)
                | None \<Rightarrow> do { guard (b' \<noteq> []); Some ((idx', length b' - 1), m2) }) }
             else Some ((idx, length b), m1))) }"

definition ref_get :: "('k, 'v) hash_map \<Rightarrow> nat \<times> nat \<Rightarrow> 'v" where
  "ref_get m = (\<lambda>(i, j). val (buckets m ! i ! j))"

definition ref_set :: "('k, 'v) hash_map \<Rightarrow> nat \<times> nat \<Rightarrow> 'v \<Rightarrow> ('k, 'v) hash_map" where
  "ref_set m = (\<lambda>(i, j) v.
     m\<lparr>buckets := (buckets m)[i := (buckets m ! i)[j := Entry (key (buckets m ! i ! j)) v]]\<rparr>)"

definition hm_size :: "('k, 'v) hash_map \<Rightarrow> nat" where
  "hm_size m = map_size m"

definition hm_empty :: "('k, 'v) hash_map \<Rightarrow> bool" where
  "hm_empty m \<longleftrightarrow> map_size m = 0"

definition bucket_count :: "('k, 'v) hash_map \<Rightarrow> nat" where
  "bucket_count m = length (buckets m)"

text \<open>What a client does with a map, and what it sees.\<close>

datatype ('k, 'v) map_op = Put 'k 'v | Find 'k | Erase 'k | Assign 'k 'v | Read 'k | Size

datatype 'v map_result = Done | Found "'v option" | Erased bool | Value 'v | Count nat

fun hm_step :: "('k \<Rightarrow> nat) \<Rightarrow> 'v \<Rightarrow> ('k, 'v) hash_map \<Rightarrow> ('k, 'v) map_op \<Rightarrow> ('v map_result \<times> ('k, 'v) hash_map) ub" where
  "hm_step hasher dflt m (Put k v) = do { m' \<leftarrow> hm_insert hasher m k v; Some (Done, m') }"
| "hm_step hasher dflt m (Find k) = do { r \<leftarrow> hm_find hasher m k; Some (Found r, m) }"
| "hm_step hasher dflt m (Erase k) = do { (b, m') \<leftarrow> hm_erase hasher m k; Some (Erased b, m') }"
| "hm_step hasher dflt m (Assign k v) = do { (r, m') \<leftarrow> hm_index hasher dflt m k; Some (Done, ref_set m' r v) }"
| "hm_step hasher dflt m (Read k) = do { (r, m') \<leftarrow> hm_index hasher dflt m k; Some (Value (ref_get m' r), m') }"
| "hm_step hasher dflt m Size = Some (Count (hm_size m), m)"

fun hm_run :: "('k \<Rightarrow> nat) \<Rightarrow> 'v \<Rightarrow> ('k, 'v) hash_map \<Rightarrow> ('k, 'v) map_op list \<Rightarrow> 'v map_result list ub" where
  "hm_run hasher dflt m [] = Some []"
| "hm_run hasher dflt m (x # xs) = do {
     (r, m') \<leftarrow> hm_step hasher dflt m x;
     rs \<leftarrow> hm_run hasher dflt m' xs;
     Some (r # rs) }"

text \<open>The demonstration: the calls of main, and the results its assertions demand.\<close>

definition string_calls :: "(string, int) map_op list" where
  "string_calls = [Put ''one'' 1, Put ''two'' 2, Put ''three'' 3, Size, Find ''two'', Find ''four'',
     Assign ''four'' 4, Find ''four'', Assign ''one'' 100, Find ''one'', Erase ''three'', Find ''three'', Size]"

definition int_calls :: "(int, int) map_op list" where
  "int_calls = map (\<lambda>i. Put (int i) (int i * int i)) [0..<1000] @ [Size] @ map (\<lambda>i. Find (int i)) [0..<1000]"

definition hash_map_main :: "(string \<Rightarrow> nat) \<Rightarrow> (int \<Rightarrow> nat) \<Rightarrow> unit ub" where
  "hash_map_main string_hash int_hash = do {
     rs \<leftarrow> hm_run string_hash 0 (HashMap 16) string_calls;
     guard (rs = [Done, Done, Done, Count 3, Found (Some 2), Found None, Done, Found (Some 4), Done,
       Found (Some 100), Erased True, Found None, Count 3]);
     is \<leftarrow> hm_run int_hash 0 (HashMap 16) int_calls;
     guard (is = replicate 1000 Done @ [Count 1000] @ map (\<lambda>i. Found (Some (int i * int i))) [0..<1000]) }"

section \<open>The map a table stands for\<close>

definition lookup :: "('k, 'v) entry list \<Rightarrow> 'k \<Rightarrow> 'v option" where
  "lookup es k = map_of (map (\<lambda>e. (key e, val e)) es) k"

definition table_map :: "('k \<Rightarrow> nat) \<Rightarrow> ('k, 'v) entry list list \<Rightarrow> 'k \<Rightarrow> 'v option" where
  "table_map hasher bs k = lookup (bs ! (hasher k mod length bs)) k"

definition table_ok :: "('k \<Rightarrow> nat) \<Rightarrow> ('k, 'v) entry list list \<Rightarrow> bool" where
  "table_ok hasher bs \<longleftrightarrow> bs \<noteq> [] \<and> (\<forall>i<length bs. distinct (map key (bs ! i)) \<and>
     (\<forall>e\<in>set (bs ! i). hasher (key e) mod length bs = i))"

definition hm_ok :: "('k \<Rightarrow> nat) \<Rightarrow> ('k, 'v) hash_map \<Rightarrow> bool" where
  "hm_ok hasher m \<longleftrightarrow> table_ok hasher (buckets m) \<and>
     finite (dom (table_map hasher (buckets m))) \<and> map_size m = card (dom (table_map hasher (buckets m)))"

lemma lookup_simps [simp]:
  "lookup [] k = None" "lookup (e # es) k = (if key e = k then Some (val e) else lookup es k)"
  by (simp_all add: lookup_def)

lemma lookup_append: "lookup (es @ fs) k = (case lookup es k of None \<Rightarrow> lookup fs k | Some v \<Rightarrow> Some v)"
  by (induction es) auto

lemma lookup_None: "lookup es k = None \<longleftrightarrow> k \<notin> key ` set es"
  by (induction es) auto

lemma lookup_filter: "(\<And>e. key e = k \<Longrightarrow> P e) \<Longrightarrow> lookup (filter P es) k = lookup es k"
  by (induction es) auto

lemma entry_pos_lookup: "map_option (\<lambda>j. val (es ! j)) (entry_pos es k) = lookup es k"
  by (induction es) (auto simp: option.map_comp o_def)

lemma entry_pos_None: "entry_pos es k = None \<longleftrightarrow> lookup es k = None"
  by (induction es) auto

lemma entry_pos_Some:
  "entry_pos es k = Some j \<Longrightarrow> j < length es \<and> key (es ! j) = k"
  by (induction es arbitrary: j) (auto split: if_splits)

lemma lookup_update:
  assumes "entry_pos es k = Some j" "distinct (map key es)"
  shows "map key (es[j := Entry k v]) = map key es"
    "lookup (es[j := Entry k v]) k' = (if k' = k then Some v else lookup es k')"
proof -
  have j: "j < length es" "key (es ! j) = k" using entry_pos_Some [OF assms(1)] by auto
  then have n: "map key es ! j = k" by simp
  show "map key (es[j := Entry k v]) = map key es"
    using n by (simp add: map_update) (metis list_update_id)
  show "lookup (es[j := Entry k v]) k' = (if k' = k then Some v else lookup es k')"
    using assms
  proof (induction es arbitrary: j)
    case (Cons e es)
    then show ?case
      by (cases j) (auto simp: lookup_None split: if_splits)
  qed simp
qed

lemma lookup_delete:
  assumes "entry_pos es k = Some j" "distinct (map key es)"
  shows "distinct (map key (take j es @ drop (Suc j) es))" "set (take j es @ drop (Suc j) es) \<subseteq> set es"
    "lookup (take j es @ drop (Suc j) es) k' = (if k' = k then None else lookup es k')"
proof -
  have j: "j < length es" "key (es ! j) = k" using entry_pos_Some [OF assms(1)] by auto
  have es: "es = take j es @ es ! j # drop (Suc j) es" by (rule id_take_nth_drop [OF j(1)])
  have d: "distinct (map key (take j es @ es ! j # drop (Suc j) es))" using assms(2) es by simp
  then show "distinct (map key (take j es @ drop (Suc j) es))" by auto
  show "set (take j es @ drop (Suc j) es) \<subseteq> set es" using set_take_subset set_drop_subset by fastforce
  have "lookup es k' = lookup (take j es @ es ! j # drop (Suc j) es) k'" using es by simp
  then show "lookup (take j es @ drop (Suc j) es) k' = (if k' = k then None else lookup es k')"
    using d j(2) by (auto simp: lookup_append lookup_None [THEN iffD2] split: option.splits)
qed

lemma lookup_Some: "distinct (map key es) \<Longrightarrow> lookup es k = Some v \<longleftrightarrow> Entry k v \<in> set es"
proof (induction es)
  case (Cons e es)
  then show ?case by (cases e) (auto, metis entry.sel(1) image_eqI)
qed simp

lemma in_concat: "x \<in> set (concat bs) \<longleftrightarrow> (\<exists>i<length bs. x \<in> set (bs ! i))"
  by (induction bs) (auto simp: less_Suc_eq_0_disj)

lemma bucket_change:
  assumes ok: "table_ok hasher bs" and nb: "distinct (map key nb)" "key ` set nb \<subseteq> insert k (key ` set (bs ! i))"
    and i: "i = hasher k mod length bs"
    and look: "\<And>k'. lookup nb k' = (if k' = k then r else lookup (bs ! i) k')"
  shows "table_ok hasher (bs[i := nb])" "table_map hasher (bs[i := nb]) = (table_map hasher bs)(k := r)"
proof -
  have il: "i < length bs" using ok i by (simp add: table_ok_def)
  have "hasher (key e) mod length bs = i" if "e \<in> set nb" for e
  proof -
    have "key e = k \<or> (\<exists>e'\<in>set (bs ! i). key e = key e')" using nb(2) that by auto
    then show ?thesis using ok il i by (auto simp: table_ok_def)
  qed
  then show "table_ok hasher (bs[i := nb])"
    using ok nb(1) il by (auto simp: table_ok_def nth_list_update)
  show "table_map hasher (bs[i := nb]) = (table_map hasher bs)(k := r)"
    using il look by (auto simp: table_map_def fun_eq_iff nth_list_update i)
qed

lemma rehash_loop_eq:
  assumes "0 < n"
  shows "length new = n \<Longrightarrow> \<exists>bs. rehash_loop hasher n es new = Some bs \<and> length bs = n \<and>
    (\<forall>i<n. bs ! i = new ! i @ filter (\<lambda>e. hasher (key e) mod n = i) es)"
proof (induction es arbitrary: new)
  case (Cons e es)
  let ?i = "hasher (key e) mod n"
  obtain bs where b: "rehash_loop hasher n es (new[?i := new ! ?i @ [e]]) = Some bs" "length bs = n"
      "\<forall>i<n. bs ! i = new[?i := new ! ?i @ [e]] ! i @ filter (\<lambda>e. hasher (key e) mod n = i) es"
    using Cons.IH [of "new[?i := new ! ?i @ [e]]"] Cons.prems by auto
  have "?i < n" using assms by simp
  then show ?case using b assms Cons.prems by (auto simp: nth_list_update)
qed simp

lemma distinct_concat_keys:
  "(\<forall>i<length bs. distinct (map key (bs ! i)) \<and> (\<forall>e\<in>set (bs ! i). h (key e) = i + (d :: nat))) \<Longrightarrow>
   distinct (map key (concat bs))"
proof (induction bs arbitrary: d)
  case (Cons b bs)
  have b: "distinct (map key b)" "\<forall>e\<in>set b. h (key e) = d" using Cons.prems by auto
  have bs: "\<forall>i<length bs. distinct (map key (bs ! i)) \<and> (\<forall>e\<in>set (bs ! i). h (key e) = i + Suc d)"
  proof (intro allI impI)
    fix i assume "i < length bs"
    then show "distinct (map key (bs ! i)) \<and> (\<forall>e\<in>set (bs ! i). h (key e) = i + Suc d)"
      using Cons.prems [rule_format, of "Suc i"] by auto
  qed
  have "h (key e) \<noteq> d" if "e \<in> set (concat bs)" for e
    using that bs by (force simp: in_set_conv_nth)
  then show ?case using b Cons.IH [OF bs] by (force simp del: set_concat)
qed simp

lemma rehash_spec:
  assumes ok: "table_ok hasher (buckets m)" and n: "0 < n"
  shows "\<exists>m'. rehash hasher m n = Some m' \<and> table_ok hasher (buckets m') \<and> length (buckets m') = n \<and>
    table_map hasher (buckets m') = table_map hasher (buckets m) \<and> map_size m' = map_size m"
proof -
  let ?es = "concat (buckets m)" and ?l = "length (buckets m)"
  obtain bs where bs: "rehash_loop hasher n ?es (replicate n []) = Some bs" "length bs = n"
    "\<forall>i<n. bs ! i = filter (\<lambda>e. hasher (key e) mod n = i) ?es"
    using rehash_loop_eq [OF n, of "replicate n []" hasher ?es] by auto
  have d: "distinct (map key ?es)"
    using ok by (intro distinct_concat_keys [where h = "\<lambda>k. hasher k mod ?l" and d = 0]) (simp add: table_ok_def)
  have ok': "table_ok hasher bs"
    using bs(2,3) n d by (auto simp: table_ok_def intro: distinct_map_filter)
  have "lookup (bs ! (hasher k mod n)) k = lookup (buckets m ! (hasher k mod ?l)) k" for k
  proof -
    have l: "hasher k mod ?l < ?l" "hasher k mod n < n" using ok n by (auto simp: table_ok_def)
    have "lookup (bs ! (hasher k mod n)) k = Some v \<longleftrightarrow> lookup (buckets m ! (hasher k mod ?l)) k = Some v" for v
    proof -
      have "lookup (bs ! (hasher k mod n)) k = Some v \<longleftrightarrow> Entry k v \<in> set (bs ! (hasher k mod n))"
        using ok' l bs(2) by (intro lookup_Some) (auto simp: table_ok_def)
      also have "\<dots> \<longleftrightarrow> (\<exists>i<?l. Entry k v \<in> set (buckets m ! i))"
        using bs(3) l unfolding in_concat [symmetric] by simp
      also have "\<dots> \<longleftrightarrow> Entry k v \<in> set (buckets m ! (hasher k mod ?l))"
        using ok l by (fastforce simp: table_ok_def)
      also have "\<dots> \<longleftrightarrow> lookup (buckets m ! (hasher k mod ?l)) k = Some v"
        using ok l by (intro lookup_Some [symmetric]) (auto simp: table_ok_def)
      finally show ?thesis .
    qed
    then show ?thesis by (metis option.exhaust)
  qed
  then have "table_map hasher bs = table_map hasher (buckets m)"
    using bs(2) by (simp add: table_map_def fun_eq_iff)
  then show ?thesis using bs ok' by (simp add: rehash_def)
qed

section \<open>Every operation implements its map operation\<close>

lemma hm_bucket:
  assumes "hm_ok hasher m"
  shows "bucket_index hasher m k = Some (hasher k mod length (buckets m))"
    "distinct (map key (buckets m ! (hasher k mod length (buckets m))))"
    "table_map hasher (buckets m) k = lookup (buckets m ! (hasher k mod length (buckets m))) k"
  using assms by (auto simp: hm_ok_def table_ok_def bucket_index_def table_map_def)

lemma replace_entry:
  fixes m :: "('k, 'v) hash_map" and v :: 'v
  assumes ok: "hm_ok hasher m" and i: "i = hasher k mod length (buckets m)"
    and j: "entry_pos (buckets m ! i) k = Some j"
  defines "m' \<equiv> m\<lparr>buckets := (buckets m)[i := (buckets m ! i)[j := Entry k v]]\<rparr>"
  shows "hm_ok hasher m' \<and> table_map hasher (buckets m') = (table_map hasher (buckets m))(k \<mapsto> v)"
proof -
  let ?b = "buckets m ! i"
  have d: "distinct (map key ?b)" using hm_bucket(2) [OF ok] i by simp
  note u = lookup_update [OF j d, of v]
  have "set (map key (?b[j := Entry k v])) \<subseteq> insert k (key ` set ?b)" unfolding u(1) by auto
  then have "table_ok hasher ((buckets m)[i := ?b[j := Entry k v]])"
    "table_map hasher ((buckets m)[i := ?b[j := Entry k v]]) = (table_map hasher (buckets m))(k := Some v)"
    using bucket_change [of hasher "buckets m" "?b[j := Entry k v]" k i "Some v"] ok i d u
    by (simp_all add: hm_ok_def)
  moreover have "table_map hasher (buckets m) k \<noteq> None"
    using hm_bucket(3) [OF ok, of k] j entry_pos_None [of ?b k] i by (metis option.distinct(1))
  then have "dom ((table_map hasher (buckets m))(k \<mapsto> v)) = dom (table_map hasher (buckets m))" by auto
  ultimately show ?thesis using ok by (simp add: hm_ok_def m'_def)
qed

lemma append_entry:
  fixes m :: "('k, 'v) hash_map" and v :: 'v
  assumes ok: "hm_ok hasher m" and i: "i = hasher k mod length (buckets m)"
    and none: "entry_pos (buckets m ! i) k = None"
  defines "m1 \<equiv> \<lparr>buckets = (buckets m)[i := buckets m ! i @ [Entry k v]], map_size = map_size m + 1\<rparr>"
  shows "hm_ok hasher m1 \<and> table_map hasher (buckets m1) = (table_map hasher (buckets m))(k \<mapsto> v)"
proof -
  let ?b = "buckets m ! i"
  have l: "lookup ?b k = None" using none by (simp add: entry_pos_None)
  have "distinct (map key (?b @ [Entry k v]))"
    using hm_bucket(2) [OF ok, of k] l i by (simp add: lookup_None)
  moreover have "lookup (?b @ [Entry k v]) k' = (if k' = k then Some v else lookup ?b k')" for k'
    using l by (auto simp: lookup_append split: option.splits)
  ultimately have t: "table_ok hasher ((buckets m)[i := ?b @ [Entry k v]])"
    "table_map hasher ((buckets m)[i := ?b @ [Entry k v]]) = (table_map hasher (buckets m))(k := Some v)"
    using bucket_change [of hasher "buckets m" "?b @ [Entry k v]" k i "Some v"] ok i
    by (simp_all add: hm_ok_def)
  have "k \<notin> dom (table_map hasher (buckets m))" using hm_bucket(3) [OF ok, of k] l i by auto
  then show ?thesis using ok t by (simp add: hm_ok_def m1_def)
qed

lemma rehash_ok:
  assumes "hm_ok hasher m" "0 < n"
  obtains m' where "rehash hasher m n = Some m'" "hm_ok hasher m'" "length (buckets m') = n"
    "table_map hasher (buckets m') = table_map hasher (buckets m)"
  using rehash_spec [of hasher m n] assms unfolding hm_ok_def by metis

lemma insert_spec:
  assumes ok: "hm_ok hasher m"
  shows "\<exists>m'. hm_insert hasher m k v = Some m' \<and> hm_ok hasher m' \<and>
    table_map hasher (buckets m') = (table_map hasher (buckets m))(k \<mapsto> v)"
proof (cases "entry_pos (buckets m ! (hasher k mod length (buckets m))) k")
  case (Some j)
  then show ?thesis
    using replace_entry [OF ok refl Some, of v] hm_bucket(1) [OF ok, of k] by (simp add: hm_insert_def)
next
  case None
  define i where "i = hasher k mod length (buckets m)"
  define m1 where "m1 = \<lparr>buckets = (buckets m)[i := buckets m ! i @ [Entry k v]], map_size = map_size m + 1\<rparr>"
  have m1: "hm_ok hasher m1" "table_map hasher (buckets m1) = (table_map hasher (buckets m))(k \<mapsto> v)"
    using append_entry [OF ok refl None, of v] by (simp_all add: m1_def i_def)
  have "0 < length (buckets m1) * 2" using m1(1) by (simp add: hm_ok_def table_ok_def)
  then obtain m2 where m2: "rehash hasher m1 (length (buckets m1) * 2) = Some m2" "hm_ok hasher m2"
    "table_map hasher (buckets m2) = table_map hasher (buckets m1)"
    using rehash_ok [OF m1(1)] by metis
  have "hm_insert hasher m k v = (if too_full m1 then rehash hasher m1 (length (buckets m1) * 2) else Some m1)"
    using None hm_bucket(1) [OF ok, of k] by (simp add: hm_insert_def m1_def i_def Let_def)
  then show ?thesis using m1 m2 by (cases "too_full m1") auto
qed

lemma find_spec: "hm_ok hasher m \<Longrightarrow> hm_find hasher m k = Some (table_map hasher (buckets m) k)"
  by (simp add: hm_find_def hm_bucket entry_pos_lookup)

lemma erase_spec:
  assumes ok: "hm_ok hasher m"
  shows "\<exists>m'. hm_erase hasher m k = Some (table_map hasher (buckets m) k \<noteq> None, m') \<and> hm_ok hasher m' \<and>
    table_map hasher (buckets m') = (table_map hasher (buckets m))(k := None)"
proof -
  define i where "i = hasher k mod length (buckets m)"
  let ?b = "buckets m ! i" and ?M = "table_map hasher (buckets m)"
  have bi: "bucket_index hasher m k = Some i" and d: "distinct (map key ?b)" and l: "?M k = lookup ?b k"
    using hm_bucket [OF ok, of k] by (simp_all add: i_def)
  show ?thesis
  proof (cases "entry_pos ?b k")
    case None
    then have "?M k = None" using l by (simp add: entry_pos_None)
    moreover from this have "?M(k := None) = ?M" by (simp add: fun_upd_idem)
    ultimately show ?thesis using None ok bi by (simp add: hm_erase_def)
  next
    case (Some j)
    let ?b' = "take j ?b @ drop (Suc j) ?b"
    note del = lookup_delete [OF Some d]
    have t: "table_ok hasher ((buckets m)[i := ?b'])"
      "table_map hasher ((buckets m)[i := ?b']) = ?M(k := None)"
      using bucket_change [of hasher "buckets m" ?b' k i None, OF _ del(1) _ i_def del(3)] ok del(2)
      unfolding hm_ok_def by blast+
    have k: "?M k \<noteq> None" using l Some entry_pos_None [of ?b k] by (metis option.distinct(1))
    let ?m' = "\<lparr>buckets = (buckets m)[i := ?b'], map_size = map_size m - 1\<rparr>"
    have "hm_erase hasher m k = Some (True, ?m')" using Some bi by (simp add: hm_erase_def Let_def)
    moreover have "hm_ok hasher ?m'" using ok t k by (simp add: hm_ok_def card_Diff_singleton domIff del: not_None_eq)
    ultimately show ?thesis using t k by auto
  qed
qed

lemma reference:
  fixes m :: "('k, 'v) hash_map" and v :: 'v
  assumes ok: "hm_ok hasher m" and j: "entry_pos (buckets m ! (hasher k mod length (buckets m))) k = Some j"
  defines "r \<equiv> (hasher k mod length (buckets m), j)"
  shows "table_map hasher (buckets m) k = Some (ref_get m r)"
    "hm_ok hasher (ref_set m r v) \<and> table_map hasher (buckets (ref_set m r v)) = (table_map hasher (buckets m))(k \<mapsto> v)"
proof -
  show "table_map hasher (buckets m) k = Some (ref_get m r)"
    using hm_bucket(3) [OF ok, of k] j entry_pos_lookup [of "buckets m ! (hasher k mod length (buckets m))" k]
    by (simp add: ref_get_def r_def)
  show "hm_ok hasher (ref_set m r v) \<and> table_map hasher (buckets (ref_set m r v)) = (table_map hasher (buckets m))(k \<mapsto> v)"
    using replace_entry [OF ok refl j, of v] entry_pos_Some [OF j] by (simp add: ref_set_def r_def)
qed

lemma entry_pos_last: "entry_pos es k = None \<Longrightarrow> entry_pos (es @ [Entry k v]) k = Some (length es)"
  by (induction es) (auto split: if_splits)

lemma index_spec:
  fixes m :: "('k, 'v) hash_map" and dflt :: 'v and k :: 'k
  assumes ok: "hm_ok hasher m"
  defines "M \<equiv> table_map hasher (buckets m)"
  defines "M' \<equiv> (case M k of None \<Rightarrow> M(k \<mapsto> dflt) | Some _ \<Rightarrow> M)"
  shows "\<exists>j m'. hm_index hasher dflt m k = Some ((hasher k mod length (buckets m'), j), m') \<and> hm_ok hasher m' \<and>
    table_map hasher (buckets m') = M' \<and> entry_pos (buckets m' ! (hasher k mod length (buckets m'))) k = Some j"
proof -
  define i where "i = hasher k mod length (buckets m)"
  let ?b = "buckets m ! i"
  have bi: "bucket_index hasher m k = Some i" and l: "M k = lookup ?b k"
    using hm_bucket [OF ok, of k] by (simp_all add: i_def M_def)
  have il: "i < length (buckets m)" using ok by (simp add: hm_ok_def table_ok_def i_def)
  show ?thesis
  proof (cases "entry_pos ?b k")
    case (Some j)
    then have "M k \<noteq> None" using l entry_pos_None [of ?b k] by (metis option.distinct(1))
    then have "M' = M" by (auto simp: M'_def)
    then show ?thesis using Some bi ok by (simp add: hm_index_def M_def i_def)
  next
    case None
    define m1 where "m1 = \<lparr>buckets = (buckets m)[i := ?b @ [Entry k dflt]], map_size = map_size m + 1\<rparr>"
    have M': "M' = M(k \<mapsto> dflt)" using None l by (simp add: M'_def entry_pos_None)
    have m1: "hm_ok hasher m1" "table_map hasher (buckets m1) = M'"
      using append_entry [OF ok _ None, of dflt] by (simp_all add: m1_def i_def M' M_def)
    have len: "length (buckets m1) = length (buckets m)" by (simp add: m1_def)
    have p1: "entry_pos (buckets m1 ! i) k = Some (length ?b)"
      using None il by (simp add: m1_def entry_pos_last)
    show ?thesis
    proof (cases "too_full m1")
      case False
      then have "hm_index hasher dflt m k = Some ((i, length ?b), m1)"
        using None bi by (simp add: hm_index_def m1_def Let_def)
      then show ?thesis using m1 p1 by (simp add: i_def len)
    next
      case True
      have "0 < length (buckets m1) * 2" using m1(1) by (simp add: hm_ok_def table_ok_def)
      then obtain m2 where m2: "rehash hasher m1 (length (buckets m1) * 2) = Some m2" "hm_ok hasher m2"
        "table_map hasher (buckets m2) = table_map hasher (buckets m1)"
        using rehash_ok [OF m1(1)] by metis
      let ?i = "hasher k mod length (buckets m2)"
      have "lookup (buckets m2 ! ?i) k = Some dflt"
        using hm_bucket(3) [OF m2(2), of k] m2(3) m1(2) by (simp add: M')
      then obtain j where j: "entry_pos (buckets m2 ! ?i) k = Some j"
        using entry_pos_None [of "buckets m2 ! ?i" k] by (cases "entry_pos (buckets m2 ! ?i) k") auto
      have "hm_index hasher dflt m k = Some ((?i, j), m2)"
        using None bi True [unfolded m1_def] m2(1) [unfolded m1_def] hm_bucket(1) [OF m2(2), of k] j
        by (simp add: hm_index_def Let_def)
      then show ?thesis using m2 m1 j by simp
    qed
  qed
qed

text \<open>The same client on a finite map.\<close>

fun map_step :: "'v \<Rightarrow> ('k \<Rightarrow> 'v option) \<Rightarrow> ('k, 'v) map_op \<Rightarrow> 'v map_result \<times> ('k \<Rightarrow> 'v option)" where
  "map_step dflt M (Put k v) = (Done, M(k \<mapsto> v))"
| "map_step dflt M (Find k) = (Found (M k), M)"
| "map_step dflt M (Erase k) = (Erased (M k \<noteq> None), M(k := None))"
| "map_step dflt M (Assign k v) = (Done, M(k \<mapsto> v))"
| "map_step dflt M (Read k) = (case M k of Some v \<Rightarrow> (Value v, M) | None \<Rightarrow> (Value dflt, M(k \<mapsto> dflt)))"
| "map_step dflt M Size = (Count (card (dom M)), M)"

fun map_run :: "'v \<Rightarrow> ('k \<Rightarrow> 'v option) \<Rightarrow> ('k, 'v) map_op list \<Rightarrow> 'v map_result list" where
  "map_run dflt M [] = []"
| "map_run dflt M (x # xs) = (case map_step dflt M x of (r, M') \<Rightarrow> r # map_run dflt M' xs)"

lemma hm_step_refines:
  assumes ok: "hm_ok hasher m"
  shows "\<exists>m'. hm_step hasher dflt m x = Some (fst (map_step dflt (table_map hasher (buckets m)) x), m') \<and>
     hm_ok hasher m' \<and> table_map hasher (buckets m') = snd (map_step dflt (table_map hasher (buckets m)) x)"
proof (cases x)
  case (Put k v)
  then show ?thesis using insert_spec [OF ok, of k v] by auto
next
  case (Find k)
  then show ?thesis using find_spec [OF ok, of k] ok by simp
next
  case (Erase k)
  then show ?thesis using erase_spec [OF ok, of k] by (auto simp del: not_None_eq)
next
  case (Assign k v)
  then show ?thesis
    using index_spec [OF ok, of dflt k] reference(2) [of hasher _ k _ v]
    by (fastforce split: option.splits)
next
  case (Read k)
  obtain j m' where i: "hm_index hasher dflt m k = Some ((hasher k mod length (buckets m'), j), m')" "hm_ok hasher m'"
    "table_map hasher (buckets m') = (case table_map hasher (buckets m) k of
       None \<Rightarrow> (table_map hasher (buckets m))(k \<mapsto> dflt) | Some _ \<Rightarrow> table_map hasher (buckets m))"
    "entry_pos (buckets m' ! (hasher k mod length (buckets m'))) k = Some j"
    using index_spec [OF ok, of dflt k] by blast
  have "Some (ref_get m' (hasher k mod length (buckets m'), j)) = table_map hasher (buckets m') k"
    using reference(1) [OF i(2,4)] by simp
  then show ?thesis using i(1-3) Read by (auto split: option.splits)
next
  case Size
  then show ?thesis using ok by (simp add: hm_ok_def hm_size_def)
qed

lemma hm_run_refines: "hm_ok hasher m \<Longrightarrow> hm_run hasher dflt m xs = Some (map_run dflt (table_map hasher (buckets m)) xs)"
proof (induction xs arbitrary: m)
  case (Cons x xs)
  obtain m' where "hm_step hasher dflt m x = Some (fst (map_step dflt (table_map hasher (buckets m)) x), m')"
     "hm_ok hasher m'" "table_map hasher (buckets m') = snd (map_step dflt (table_map hasher (buckets m)) x)"
    using hm_step_refines [OF Cons.prems] by blast
  then show ?case using Cons.IH [of m'] by (simp add: case_prod_beta)
qed simp

lemma HashMap_ok:
  assumes "0 < n"
  shows "hm_ok hasher (HashMap n)" "table_map hasher (buckets (HashMap n)) = Map.empty"
proof -
  show e: "table_map hasher (buckets (HashMap n)) = Map.empty"
    using assms by (simp add: HashMap_def table_map_def fun_eq_iff)
  have "table_ok hasher (buckets (HashMap n))" "map_size (HashMap n) = 0"
    using assms by (simp_all add: HashMap_def table_ok_def)
  then show "hm_ok hasher (HashMap n)" unfolding hm_ok_def e by simp
qed

text \<open>
  C2: whatever the hash function, a client that starts from a hash map of any positive number
  of buckets sees, for every sequence of insertions, lookups, erasures, subscript assignments and
  reads and size queries, exactly the results of a finite map; no call fails, and rehashing is
  invisible.
\<close>
theorem hash_map_refines_map:
  assumes "0 < n"
  shows "hm_run hasher dflt (HashMap n) xs = Some (map_run dflt Map.empty xs)"
  using hm_run_refines [OF HashMap_ok(1) [OF assms], of hasher dflt xs] by (simp add: HashMap_ok(2) [OF assms])

theorem hash_map_refines_map_witness:
  "hm_run (\<lambda>_. 0) 0 (HashMap 1) [Put 1 10, Assign 2 20, Read 3, Erase 1, Find 2, Find (1 :: int), Size]
     = Some [Done, Done, Value (0 :: int), Erased True, Found (Some 20), Found None, Count 2]"
  using hash_map_refines_map [of 1 "\<lambda>_. 0" "0 :: int" "[Put 1 10, Assign 2 20, Read 3, Erase 1, Find 2, Find (1 :: int), Size]"]
  by (simp add: card_insert_if del: hm_run.simps)

text \<open>The demonstration of main passes its assertions whatever the hash functions are.\<close>

lemma map_run_append_puts:
  "map_run d M (map (\<lambda>i. Put (f i) (g i)) is @ xs) =
   replicate (length is) Done @ map_run d (fold (\<lambda>i M. M(f i \<mapsto> g i)) is M) xs"
  by (induction "is" arbitrary: M) auto

lemma map_run_finds: "map_run d M (map (\<lambda>i. Find (f i)) is) = map (\<lambda>i. Found (M (f i))) is"
  by (induction "is") auto

lemma fold_puts: "fold (\<lambda>i M. M(int i \<mapsto> int i * int i)) [0..<n] Map.empty =
    (\<lambda>x. if 0 \<le> x \<and> x < int n then Some (x * x) else None)"
  by (induction n) (auto simp: fun_eq_iff)

lemma hash_map_main_passes: "hash_map_main string_hash int_hash = Some ()"
proof -
  let ?M = "\<lambda>x :: int. if 0 \<le> x \<and> x < int 1000 then Some (x * x) else None"
  have "dom ?M = {0..<1000}" by (auto simp: dom_def split: if_splits)
  then have c: "card (dom ?M) = 1000" by simp
  have "map_run 0 Map.empty int_calls = replicate 1000 Done @ Count (card (dom ?M)) #
      map (\<lambda>i. Found (?M (int i))) [0..<1000]"
    unfolding int_calls_def map_run_append_puts fold_puts by (simp add: map_run_finds del: upt_Suc upt_rec_numeral)
  moreover have "map (\<lambda>i. Found (?M (int i))) [0..<1000] = map (\<lambda>i. Found (Some (int i * int i))) [0..<1000]"
    by (rule map_cong) auto
  ultimately have "hm_run int_hash 0 (HashMap 16) int_calls = Some (replicate 1000 Done @ [Count 1000] @
      map (\<lambda>i. Found (Some (int i * int i))) [0..<1000])"
    using hm_run_refines [OF HashMap_ok(1), of 16 int_hash 0 int_calls] c
    by (simp add: HashMap_ok(2) del: upt_Suc upt_rec_numeral)
  moreover have "hm_run string_hash 0 (HashMap 16) string_calls = Some
      [Done, Done, Done, Count 3, Found (Some 2), Found None, Done, Found (Some 4), Done,
       Found (Some 100), Erased True, Found None, Count 3]"
    using hm_run_refines [OF HashMap_ok(1), of 16 string_hash 0 string_calls]
    by (simp add: HashMap_ok(2) string_calls_def card_insert_if)
  ultimately show ?thesis by (simp add: hash_map_main_def)
qed

end
