(* ===== verification/DLL_Heap.thy ===== *)
theory DLL_Heap
  imports Prelude
begin

text \<open>
  The heap of doubly linked nodes that src/src/stl_like/doubly_linked_list.cpp and
  src/src/stl_like/lru_cache.cpp allocate with new and free with delete. A null pointer is None;
  reading or writing through a null or freed pointer is undefined behaviour (None). The second half
  is the theory of doubly linked segments on which the two components rest.
\<close>

section \<open>Nodes, allocation and field access\<close>

record 'a node =
  payload :: 'a
  prev :: "nat option"
  nxt :: "nat option"

record 'a heap =
  cells :: "nat \<Rightarrow> 'a node option"
  fresh :: nat

definition empty_heap :: "'a heap" where
  "empty_heap = \<lparr>cells = (\<lambda>_. None), fresh = 0\<rparr>"

definition new_node :: "'a heap \<Rightarrow> 'a \<Rightarrow> nat \<times> 'a heap" where
  "new_node h x = (fresh h, \<lparr>cells = (cells h)(fresh h \<mapsto> \<lparr>payload = x, prev = None, nxt = None\<rparr>), fresh = fresh h + 1\<rparr>)"

definition load :: "'a heap \<Rightarrow> nat option \<Rightarrow> 'a node ub" where
  "load h p = do { a \<leftarrow> p; cells h a }"

definition store :: "'a heap \<Rightarrow> nat option \<Rightarrow> ('a node \<Rightarrow> 'a node) \<Rightarrow> 'a heap ub" where
  "store h p f = do {
     a \<leftarrow> p;
     nd \<leftarrow> cells h a;
     Some (h\<lparr>cells := (cells h)(a \<mapsto> f nd)\<rparr>) }"

definition set_prev :: "'a heap \<Rightarrow> nat option \<Rightarrow> nat option \<Rightarrow> 'a heap ub" where
  "set_prev h p q = store h p (prev_update (\<lambda>_. q))"

definition set_next :: "'a heap \<Rightarrow> nat option \<Rightarrow> nat option \<Rightarrow> 'a heap ub" where
  "set_next h p q = store h p (nxt_update (\<lambda>_. q))"

definition delete :: "'a heap \<Rightarrow> nat option \<Rightarrow> 'a heap ub" where
  "delete h p = do {
     a \<leftarrow> p;
     nd \<leftarrow> cells h a;
     Some (h\<lparr>cells := (cells h)(a := None)\<rparr>) }"

section \<open>Doubly linked segments\<close>

fun first_ptr :: "(nat \<times> 'a) list \<Rightarrow> nat option \<Rightarrow> nat option" where
  "first_ptr [] q = q"
| "first_ptr (ax # as) q = Some (fst ax)"

fun last_ptr :: "(nat \<times> 'a) list \<Rightarrow> nat option \<Rightarrow> nat option" where
  "last_ptr [] p = p"
| "last_ptr (ax # as) p = last_ptr as (Some (fst ax))"

text \<open>The nodes as, linked in this order, entered from p and left towards q.\<close>

fun dseg :: "(nat \<Rightarrow> 'a node option) \<Rightarrow> nat option \<Rightarrow> (nat \<times> 'a) list \<Rightarrow> nat option \<Rightarrow> bool" where
  "dseg c p [] q = True"
| "dseg c p (ax # as) q \<longleftrightarrow>
     c (fst ax) = Some \<lparr>payload = snd ax, prev = p, nxt = first_ptr as q\<rparr> \<and> dseg c (Some (fst ax)) as q"

definition addrs :: "(nat \<times> 'a) list \<Rightarrow> nat set" where
  "addrs as = fst ` set as"

lemma addrs_simps [simp]:
  "addrs [] = {}" "addrs (ax # as) = insert (fst ax) (addrs as)" "addrs (as @ bs) = addrs as \<union> addrs bs"
  by (auto simp: addrs_def)

lemma addrs_map [simp]: "fst ` set as = addrs as"
  by (simp add: addrs_def)

lemma first_ptr_append [simp]: "first_ptr (as @ bs) q = first_ptr as (first_ptr bs q)"
  by (cases as) auto

lemma last_ptr_append [simp]: "last_ptr (as @ bs) p = last_ptr bs (last_ptr as p)"
  by (induction as arbitrary: p) auto

lemma dseg_append [simp]:
  "dseg c p (as @ bs) q \<longleftrightarrow> dseg c p as (first_ptr bs q) \<and> dseg c (last_ptr as p) bs q"
  by (induction as arbitrary: p) auto

lemma dseg_frame: "(\<And>a. a \<in> addrs as \<Longrightarrow> c' a = c a) \<Longrightarrow> dseg c' p as q = dseg c p as q"
  by (induction as arbitrary: p) auto

lemma dseg_upd [simp]: "a \<notin> addrs as \<Longrightarrow> dseg (c(a := v)) p as q = dseg c p as q"
  by (rule dseg_frame) auto

lemma first_ptr_None [simp]: "first_ptr as None = None \<longleftrightarrow> as = []"
  by (cases as) auto

lemma last_ptr_neq [simp]: "as \<noteq> [] \<Longrightarrow> last_ptr as p = Some (fst (last as))"
  by (induction as arbitrary: p) auto

lemma last_ptr_None [simp]: "last_ptr as None = None \<longleftrightarrow> as = []"
  by (cases "as = []") auto

lemma last_ptr_Some [simp]: "\<exists>q. last_ptr as (Some a) = Some q"
  by (induction as arbitrary: a) auto

lemma last_ptr_not_None [simp]: "last_ptr as (Some a) \<noteq> None"
  using last_ptr_Some [of as a] by auto

lemma last_ptr_in: "last_ptr as (Some a) = Some b \<Longrightarrow> b \<in> insert a (addrs as)"
  by (induction as arbitrary: a) auto

lemma first_ptr_Some [simp]: "\<exists>q. first_ptr as (Some a) = Some q"
  by (cases as) auto

lemma last_in_addrs: "as \<noteq> [] \<Longrightarrow> fst (last as) \<in> addrs as"
  using last_in_set [of as] by (simp add: addrs_def del: addrs_map)

text \<open>Following next from the front of a segment.\<close>

fun walk_nodes :: "'a heap \<Rightarrow> nat option \<Rightarrow> nat \<Rightarrow> nat option ub" where
  "walk_nodes h p 0 = Some p"
| "walk_nodes h p (Suc i) = do { nd \<leftarrow> load h p; walk_nodes h (nxt nd) i }"

lemma walk_dseg: "dseg (cells h) p (as @ bs) q \<Longrightarrow> walk_nodes h (first_ptr (as @ bs) q) (length as) = Some (first_ptr bs q)"
proof (induction as arbitrary: p)
  case (Cons ax as)
  then show ?case using Cons.IH [of "Some (fst ax)"] by (simp add: load_def)
qed simp

section \<open>Lists with a head, a tail and a size\<close>

record dll =
  head :: "nat option"
  tail :: "nat option"
  dsize :: nat

definition dll_rep :: "'a heap \<Rightarrow> dll \<Rightarrow> (nat \<times> 'a) list \<Rightarrow> bool" where
  "dll_rep h l as \<longleftrightarrow> dseg (cells h) None as None \<and> distinct (map fst as) \<and> (\<forall>a\<in>addrs as. a < fresh h) \<and>
     head l = first_ptr as None \<and> tail l = last_ptr as None \<and> dsize l = length as"

text \<open>What an operation on one list leaves alone: the cells of everything allocated outside it.\<close>

definition framed :: "'a heap \<Rightarrow> nat set \<Rightarrow> 'a heap \<Rightarrow> bool" where
  "framed h A h' \<longleftrightarrow> fresh h \<le> fresh h' \<and> (\<forall>a. a < fresh h \<longrightarrow> a \<notin> A \<longrightarrow> cells h' a = cells h a)"

lemma framed_refl [simp]: "framed h A h"
  by (simp add: framed_def)

lemma framed_rep:
  assumes "framed h A h'" "dll_rep h l as" "addrs as \<inter> A = {}"
  shows "dll_rep h' l as"
proof -
  have "cells h' a = cells h a" if "a \<in> addrs as" for a
    using assms that by (auto simp: framed_def dll_rep_def)
  then have "dseg (cells h') None as None = dseg (cells h) None as None" by (rule dseg_frame)
  then show ?thesis using assms by (auto simp: framed_def dll_rep_def)
qed

lemma dll_rep_empty [simp]: "dll_rep h \<lparr>head = None, tail = None, dsize = 0\<rparr> []"
  by (simp add: dll_rep_def)

lemma dll_rep_Nil: "dll_rep h l [] \<Longrightarrow> l = \<lparr>head = None, tail = None, dsize = 0\<rparr>"
  by (simp add: dll_rep_def)

lemmas heap_defs = load_def store_def set_prev_def set_next_def delete_def new_node_def

end
