(* ===== verification/Linked_List.thy ===== *)
theory Linked_List
  imports DLL_Heap
begin

text \<open>
  src/src/stl_like/doubly_linked_list.cpp: the doubly linked list over the explicit node heap of
  DLL_Heap, with its insertions, removals, copy, move, destruction and iteration. A failed assert
  and a dereference of a null or freed pointer are None.
\<close>

section \<open>Definitions\<close>

definition DoublyLinkedList :: dll where
  "DoublyLinkedList = \<lparr>head = None, tail = None, dsize = 0\<rparr>"

partial_function (option) clear_loop :: "'a heap \<Rightarrow> nat option \<Rightarrow> 'a heap ub" where
  "clear_loop h p = (case p of
       None \<Rightarrow> Some h
     | Some a \<Rightarrow> do {
         nd \<leftarrow> load h p;
         h' \<leftarrow> delete h p;
         clear_loop h' (nxt nd) })"

declare clear_loop.simps [code]

definition clear :: "'a heap \<Rightarrow> dll \<Rightarrow> ('a heap \<times> dll) ub" where
  "clear h l = do {
     h' \<leftarrow> clear_loop h (head l);
     Some (h', \<lparr>head = None, tail = None, dsize = 0\<rparr>) }"

definition push_front :: "'a heap \<Rightarrow> dll \<Rightarrow> 'a \<Rightarrow> ('a heap \<times> dll) ub" where
  "push_front h l x = do {
     let (n, h) = new_node h x;
     h \<leftarrow> set_next h (Some n) (head l);
     h \<leftarrow> (if head l \<noteq> None then set_prev h (head l) (Some n) else Some h);
     Some (h, \<lparr>head = Some n, tail = (if tail l = None then Some n else tail l), dsize = dsize l + 1\<rparr>) }"

definition push_back :: "'a heap \<Rightarrow> dll \<Rightarrow> 'a \<Rightarrow> ('a heap \<times> dll) ub" where
  "push_back h l x = do {
     let (n, h) = new_node h x;
     h \<leftarrow> set_prev h (Some n) (tail l);
     h \<leftarrow> (if tail l \<noteq> None then set_next h (tail l) (Some n) else Some h);
     Some (h, \<lparr>head = (if head l = None then Some n else head l), tail = Some n, dsize = dsize l + 1\<rparr>) }"

definition pop_front :: "'a heap \<Rightarrow> dll \<Rightarrow> ('a heap \<times> dll) ub" where
  "pop_front h l = do {
     guard (head l \<noteq> None);
     nd \<leftarrow> load h (head l);
     h \<leftarrow> (if nxt nd \<noteq> None then set_prev h (nxt nd) None else Some h);
     h \<leftarrow> delete h (head l);
     Some (h, \<lparr>head = nxt nd, tail = (if nxt nd \<noteq> None then tail l else None), dsize = dsize l - 1\<rparr>) }"

definition pop_back :: "'a heap \<Rightarrow> dll \<Rightarrow> ('a heap \<times> dll) ub" where
  "pop_back h l = do {
     guard (tail l \<noteq> None);
     nd \<leftarrow> load h (tail l);
     h \<leftarrow> (if prev nd \<noteq> None then set_next h (prev nd) None else Some h);
     h \<leftarrow> delete h (tail l);
     Some (h, \<lparr>head = (if prev nd \<noteq> None then head l else None), tail = prev nd, dsize = dsize l - 1\<rparr>) }"

definition insert_at :: "'a heap \<Rightarrow> dll \<Rightarrow> nat \<Rightarrow> 'a \<Rightarrow> ('a heap \<times> dll) ub" where
  "insert_at h l pos x = do {
     guard (pos \<le> dsize l);
     if pos = 0 then push_front h l x
     else if pos = dsize l then push_back h l x
     else do {
       cur \<leftarrow> walk_nodes h (head l) pos;
       let (n, h) = new_node h x;
       nd \<leftarrow> load h cur;
       h \<leftarrow> set_prev h (Some n) (prev nd);
       h \<leftarrow> set_next h (Some n) cur;
       h \<leftarrow> set_next h (prev nd) (Some n);
       h \<leftarrow> set_prev h cur (Some n);
       Some (h, l\<lparr>dsize := dsize l + 1\<rparr>) } }"

definition erase_at :: "'a heap \<Rightarrow> dll \<Rightarrow> nat \<Rightarrow> ('a heap \<times> dll) ub" where
  "erase_at h l pos = do {
     guard (pos < dsize l);
     if pos = 0 then pop_front h l
     else if pos = dsize l - 1 then pop_back h l
     else do {
       cur \<leftarrow> walk_nodes h (head l) pos;
       nd \<leftarrow> load h cur;
       h \<leftarrow> set_next h (prev nd) (nxt nd);
       h \<leftarrow> set_prev h (nxt nd) (prev nd);
       h \<leftarrow> delete h cur;
       Some (h, l\<lparr>dsize := dsize l - 1\<rparr>) } }"

definition list_size :: "dll \<Rightarrow> nat" where
  "list_size l = dsize l"

definition list_empty :: "dll \<Rightarrow> bool" where
  "list_empty l \<longleftrightarrow> dsize l = 0"

definition front_of :: "'a heap \<Rightarrow> dll \<Rightarrow> 'a ub" where
  "front_of h l = do { guard (head l \<noteq> None); nd \<leftarrow> load h (head l); Some (payload nd) }"

definition back_of :: "'a heap \<Rightarrow> dll \<Rightarrow> 'a ub" where
  "back_of h l = do { guard (tail l \<noteq> None); nd \<leftarrow> load h (tail l); Some (payload nd) }"

text \<open>A range-based loop: from begin, dereference and advance until the null pointer of end.\<close>

partial_function (option) traverse :: "'a heap \<Rightarrow> nat option \<Rightarrow> 'a list ub" where
  "traverse h p = (case p of
       None \<Rightarrow> Some []
     | Some a \<Rightarrow> do {
         nd \<leftarrow> load h p;
         xs \<leftarrow> traverse h (nxt nd);
         Some (payload nd # xs) })"

declare traverse.simps [code]

partial_function (option) copy_from :: "'a heap \<Rightarrow> dll \<Rightarrow> nat option \<Rightarrow> ('a heap \<times> dll) ub" where
  "copy_from h l p = (case p of
       None \<Rightarrow> Some (h, l)
     | Some a \<Rightarrow> do {
         nd \<leftarrow> load h p;
         hl \<leftarrow> push_back h l (payload nd);
         nd' \<leftarrow> load (fst hl) p;
         copy_from (fst hl) (snd hl) (nxt nd') })"

declare copy_from.simps [code]

definition copy_ctor :: "'a heap \<Rightarrow> dll \<Rightarrow> ('a heap \<times> dll) ub" where
  "copy_ctor h other = copy_from h DoublyLinkedList (head other)"

text \<open>Assignment from another list; self-assignment is caught by the address comparison and does nothing.\<close>

definition copy_assign :: "'a heap \<Rightarrow> dll \<Rightarrow> dll \<Rightarrow> ('a heap \<times> dll) ub" where
  "copy_assign h l other = do {
     (h, l) \<leftarrow> clear h l;
     copy_from h l (head other) }"

definition move_ctor :: "dll \<Rightarrow> dll \<times> dll" where
  "move_ctor other = (other, \<lparr>head = None, tail = None, dsize = 0\<rparr>)"

definition move_assign :: "'a heap \<Rightarrow> dll \<Rightarrow> dll \<Rightarrow> ('a heap \<times> dll \<times> dll) ub" where
  "move_assign h l other = do {
     (h, _) \<leftarrow> clear h l;
     Some (h, other, \<lparr>head = None, tail = None, dsize = 0\<rparr>) }"

fun push_back_all :: "'a heap \<Rightarrow> dll \<Rightarrow> 'a list \<Rightarrow> ('a heap \<times> dll) ub" where
  "push_back_all h l [] = Some (h, l)"
| "push_back_all h l (x # xs) = do { (h, l) \<leftarrow> push_back h l x; push_back_all h l xs }"

text \<open>The demonstration, with its assertions; the result is what it prints.\<close>

definition linked_list_main :: "(int list \<times> string list) ub" where
  "linked_list_main = do {
     (h, l) \<leftarrow> push_back_all empty_heap DoublyLinkedList [1, 2, 3, 4, 5];
     f \<leftarrow> front_of h l; b \<leftarrow> back_of h l;
     guard (list_size l = 5 \<and> f = 1 \<and> b = 5);
     (h, l) \<leftarrow> push_front h l 0;
     f \<leftarrow> front_of h l;
     guard (f = 0 \<and> list_size l = 6);
     (h, l) \<leftarrow> insert_at h l 3 99;
     guard (list_size l = 7);
     (h, l) \<leftarrow> erase_at h l 3;
     (h, l) \<leftarrow> pop_front h l;
     (h, l) \<leftarrow> pop_back h l;
     f \<leftarrow> front_of h l; b \<leftarrow> back_of h l;
     guard (list_size l = 4 \<and> f = 1 \<and> b = 4);
     xs \<leftarrow> traverse h (head l);
     (h, copy) \<leftarrow> copy_ctor h l;
     let (moved, copy) = move_ctor copy;
     guard (list_size moved = 4 \<and> list_size copy = 0);
     (sh, sl) \<leftarrow> push_back_all empty_heap DoublyLinkedList [''hello'', ''world''];
     sf \<leftarrow> front_of sh sl;
     guard (list_size sl = 2 \<and> sf = ''hello'');
     ys \<leftarrow> traverse sh (head sl);
     Some (xs, ys) }"

lemma linked_list_main_output: "linked_list_main = Some ([1, 2, 3, 4], [''hello'', ''world''])"
  by code_simp

section \<open>Each operation on the represented list\<close>

lemma rep_fresh: "dll_rep h l as \<Longrightarrow> fresh h \<notin> addrs as"
  by (auto simp: dll_rep_def)

lemma push_front_rep:
  assumes "dll_rep h l as"
  shows "\<exists>h' l'. push_front h l x = Some (h', l') \<and> dll_rep h' l' ((fresh h, x) # as) \<and> framed h (addrs as) h'"
  using assms rep_fresh [OF assms]
  by (cases as) (auto simp: push_front_def dll_rep_def framed_def heap_defs)

lemma push_back_rep:
  assumes "dll_rep h l as"
  shows "\<exists>h' l'. push_back h l x = Some (h', l') \<and> dll_rep h' l' (as @ [(fresh h, x)]) \<and> framed h (addrs as) h'"
  using assms rep_fresh [OF assms]
  by (cases as rule: rev_cases) (auto simp: push_back_def dll_rep_def framed_def heap_defs)

lemma pop_front_rep:
  assumes "dll_rep h l (ax # as)"
  shows "\<exists>h' l'. pop_front h l = Some (h', l') \<and> dll_rep h' l' as \<and> framed h (addrs (ax # as)) h' \<and> cells h' (fst ax) = None"
  using assms
  by (cases as) (auto simp: pop_front_def dll_rep_def framed_def heap_defs)

lemma pop_back_rep:
  assumes "dll_rep h l (as @ [ax])"
  shows "\<exists>h' l'. pop_back h l = Some (h', l') \<and> dll_rep h' l' as \<and> framed h (addrs (as @ [ax])) h' \<and> cells h' (fst ax) = None"
  using assms
  by (cases as rule: rev_cases) (auto simp: pop_back_def dll_rep_def framed_def heap_defs)

lemma insert_mid_rep:
  assumes rep: "dll_rep h l (as @ bx # bs)" and as: "as \<noteq> []"
  shows "\<exists>h' l'. insert_at h l (length as) x = Some (h', l') \<and>
    dll_rep h' l' (as @ (fresh h, x) # bx # bs) \<and> framed h (addrs (as @ bx # bs)) h'"
proof -
  obtain as' ay where a: "as = as' @ [ay]" using as by (cases as rule: rev_cases) auto
  have w: "walk_nodes h (head l) (length as) = Some (Some (fst bx))"
    using walk_dseg [of h None as "bx # bs" None] rep by (simp add: dll_rep_def)
  show ?thesis
    using rep rep_fresh [OF rep] w unfolding a
    by (auto simp: insert_at_def dll_rep_def framed_def heap_defs intro: less_SucI)
qed

lemma erase_mid_rep:
  assumes rep: "dll_rep h l (as @ bx # bs)" and as: "as \<noteq> []" "bs \<noteq> []"
  shows "\<exists>h' l'. erase_at h l (length as) = Some (h', l') \<and>
    dll_rep h' l' (as @ bs) \<and> framed h (addrs (as @ bx # bs)) h' \<and> cells h' (fst bx) = None"
proof -
  obtain as' ay where a: "as = as' @ [ay]" using as by (cases as rule: rev_cases) auto
  obtain bs' b where b: "bs = b # bs'" using as by (cases bs) auto
  have w: "walk_nodes h (head l) (length as) = Some (Some (fst bx))"
    using walk_dseg [of h None as "bx # bs" None] rep by (simp add: dll_rep_def)
  show ?thesis
    using rep w unfolding a b
    by (auto simp: erase_at_def dll_rep_def framed_def heap_defs)
qed

lemma traverse_dseg: "dseg (cells h) p as None \<Longrightarrow> traverse h (first_ptr as None) = Some (map snd as)"
proof (induction as arbitrary: p)
  case Nil
  then show ?case by (subst traverse.simps) simp
next
  case (Cons ax as)
  then show ?case by (subst traverse.simps) (auto simp: load_def)
qed

lemma clear_loop_dseg:
  "dseg (cells h) p as None \<Longrightarrow> distinct (map fst as) \<Longrightarrow>
   \<exists>h'. clear_loop h (first_ptr as None) = Some h' \<and> fresh h' = fresh h \<and>
     (\<forall>a. cells h' a = (if a \<in> addrs as then None else cells h a))"
proof (induction as arbitrary: h p)
  case Nil
  then show ?case by (subst clear_loop.simps) simp
next
  case (Cons ax as)
  let ?h = "h\<lparr>cells := (cells h)(fst ax := None)\<rparr>"
  have d: "dseg (cells ?h) (Some (fst ax)) as None" "distinct (map fst as)"
    using Cons.prems by auto
  obtain h' where h': "clear_loop ?h (first_ptr as None) = Some h'" "fresh h' = fresh ?h"
     "\<forall>a. cells h' a = (if a \<in> addrs as then None else cells ?h a)"
    using Cons.IH [OF d] by blast
  then show ?case using Cons.prems by (subst clear_loop.simps) (auto simp: load_def delete_def)
qed

lemma clear_rep:
  assumes "dll_rep h l as"
  shows "\<exists>h'. clear h l = Some (h', \<lparr>head = None, tail = None, dsize = 0\<rparr>) \<and> framed h (addrs as) h' \<and>
     (\<forall>a\<in>addrs as. cells h' a = None)"
  using clear_loop_dseg [of h None as] assms by (auto simp: clear_def dll_rep_def framed_def)

lemma copy_from_rep:
  assumes "dll_rep h l bs" "addrs bs \<inter> addrs as = {}" "dseg (cells h) p as None" "\<forall>a\<in>addrs as. a < fresh h"
  shows "\<exists>h' l' cs. copy_from h l (first_ptr as None) = Some (h', l') \<and> dll_rep h' l' (bs @ cs) \<and>
     map snd cs = map snd as \<and> framed h (addrs bs) h' \<and> (\<forall>c\<in>addrs cs. fresh h \<le> c)"
  using assms
proof (induction as arbitrary: h l bs p)
  case Nil
  then show ?case by (subst copy_from.simps) simp
next
  case (Cons ax as)
  obtain h1 l1 where 1: "push_back h l (snd ax) = Some (h1, l1)" "dll_rep h1 l1 (bs @ [(fresh h, snd ax)])"
    "framed h (addrs bs) h1" using push_back_rep [OF Cons.prems(1)] by blast
  have keep: "cells h1 a = cells h a" if "a \<in> addrs (ax # as)" for a
    using 1(3) Cons.prems(2,4) that unfolding framed_def by blast
  have seg: "dseg (cells h1) (Some (fst ax)) as None"
    using Cons.prems(3) dseg_frame [of as "cells h1" "cells h"] keep by simp
  have fr: "fresh h \<le> fresh h1" "\<forall>a\<in>addrs as. a < fresh h" using 1(3) Cons.prems(4) by (auto simp: framed_def)
  have "addrs (bs @ [(fresh h, snd ax)]) \<inter> addrs as = {}" using Cons.prems(2) fr(2) by auto
  moreover have "\<forall>a\<in>addrs as. a < fresh h1" using fr by auto
  ultimately obtain h2 l2 cs where 2: "copy_from h1 l1 (first_ptr as None) = Some (h2, l2)"
     "dll_rep h2 l2 ((bs @ [(fresh h, snd ax)]) @ cs)" "map snd cs = map snd as"
     "framed h1 (addrs (bs @ [(fresh h, snd ax)])) h2" "\<forall>c\<in>addrs cs. fresh h1 \<le> c"
    using Cons.IH [OF 1(2) _ seg] by blast
  have "cells h (fst ax) = Some \<lparr>payload = snd ax, prev = p, nxt = first_ptr as None\<rparr>" using Cons.prems(3) by simp
  then have "copy_from h l (first_ptr (ax # as) None) = Some (h2, l2)"
    using 1(1) 2(1) keep [of "fst ax"] by (subst copy_from.simps) (simp add: load_def)
  moreover have "framed h (addrs bs) h2" using 1(3) 2(4) by (auto simp: framed_def)
  moreover have "dll_rep h2 l2 (bs @ (fresh h, snd ax) # cs)" using 2(2) by simp
  moreover have "\<forall>c\<in>addrs ((fresh h, snd ax) # cs). fresh h \<le> c" using 2(5) fr by auto
  ultimately show ?case using 2(3) by (intro exI [of _ h2] exI [of _ l2] exI [of _ "(fresh h, snd ax) # cs"]) simp
qed

section \<open>Refinement of plain lists\<close>

datatype 'a list_op = PushFront 'a | PushBack 'a | PopFront | PopBack | InsertAt nat 'a | EraseAt nat | Clear

fun dll_step :: "'a heap \<Rightarrow> dll \<Rightarrow> 'a list_op \<Rightarrow> ('a heap \<times> dll) ub" where
  "dll_step h l (PushFront x) = push_front h l x"
| "dll_step h l (PushBack x) = push_back h l x"
| "dll_step h l PopFront = pop_front h l"
| "dll_step h l PopBack = pop_back h l"
| "dll_step h l (InsertAt pos x) = insert_at h l pos x"
| "dll_step h l (EraseAt pos) = erase_at h l pos"
| "dll_step h l Clear = clear h l"

fun dll_run :: "'a heap \<Rightarrow> dll \<Rightarrow> 'a list_op list \<Rightarrow> ('a heap \<times> dll) ub" where
  "dll_run h l [] = Some (h, l)"
| "dll_run h l (x # xs) = do { (h, l) \<leftarrow> dll_step h l x; dll_run h l xs }"

text \<open>The same operations on a plain list; None is a failed assertion.\<close>

fun list_step :: "'a list \<Rightarrow> 'a list_op \<Rightarrow> 'a list option" where
  "list_step xs (PushFront x) = Some (x # xs)"
| "list_step xs (PushBack x) = Some (xs @ [x])"
| "list_step xs PopFront = (if xs = [] then None else Some (tl xs))"
| "list_step xs PopBack = (if xs = [] then None else Some (butlast xs))"
| "list_step xs (InsertAt pos x) = (if pos \<le> length xs then Some (take pos xs @ x # drop pos xs) else None)"
| "list_step xs (EraseAt pos) = (if pos < length xs then Some (take pos xs @ drop (Suc pos) xs) else None)"
| "list_step xs Clear = Some []"

fun list_run :: "'a list \<Rightarrow> 'a list_op list \<Rightarrow> 'a list option" where
  "list_run xs [] = Some xs"
| "list_run xs (y # ys) = do { xs \<leftarrow> list_step xs y; list_run xs ys }"

lemma insert_at_rep:
  assumes rep: "dll_rep h l as" and pos: "pos \<le> length as"
  shows "\<exists>h' l' as'. insert_at h l pos x = Some (h', l') \<and> dll_rep h' l' as' \<and>
     map snd as' = take pos (map snd as) @ x # drop pos (map snd as)"
proof -
  have n: "dsize l = length as" using rep by (simp add: dll_rep_def)
  consider "pos = 0" | "pos \<noteq> 0" "pos = length as" | "pos \<noteq> 0" "pos < length as" using pos by linarith
  then show ?thesis
  proof cases
    case 1
    then show ?thesis using push_front_rep [OF rep, of x] n by (fastforce simp: insert_at_def)
  next
    case 2
    then show ?thesis using push_back_rep [OF rep, of x] n by (fastforce simp: insert_at_def)
  next
    case 3
    obtain bx bs where b: "drop pos as = bx # bs" using 3 by (cases "drop pos as") auto
    then have "dll_rep h l (take pos as @ bx # bs)" using rep append_take_drop_id [of pos as] by simp
    moreover have "take pos as \<noteq> []" "length (take pos as) = pos" using 3 by auto
    ultimately obtain h' l' where "insert_at h l pos x = Some (h', l')"
        "dll_rep h' l' (take pos as @ (fresh h, x) # bx # bs)"
      using insert_mid_rep [of h l "take pos as" bx bs x] by auto
    then show ?thesis using b
      by (intro exI [of _ h'] exI [of _ l'] exI [of _ "take pos as @ (fresh h, x) # bx # bs"])
        (simp add: take_map drop_map)
  qed
qed

lemma erase_at_rep:
  assumes rep: "dll_rep h l as" and pos: "pos < length as"
  shows "\<exists>h' l' as'. erase_at h l pos = Some (h', l') \<and> dll_rep h' l' as' \<and>
     map snd as' = take pos (map snd as) @ drop (Suc pos) (map snd as)"
proof -
  have n: "dsize l = length as" using rep by (simp add: dll_rep_def)
  consider "pos = 0" | "pos \<noteq> 0" "pos = length as - 1" | "pos \<noteq> 0" "Suc pos < length as" using pos by linarith
  then show ?thesis
  proof cases
    case 1
    then obtain ax as' where "as = ax # as'" using pos by (cases as) auto
    then show ?thesis using pop_front_rep [of h l ax as'] rep 1 n by (fastforce simp: erase_at_def)
  next
    case 2
    then obtain ax as' where "as = as' @ [ax]" using pos by (cases as rule: rev_cases) auto
    then show ?thesis using pop_back_rep [of h l as' ax] rep 2 n by (fastforce simp: erase_at_def)
  next
    case 3
    obtain bx bs where b: "drop pos as = bx # bs" using 3 by (cases "drop pos as") auto
    then have "dll_rep h l (take pos as @ bx # bs)" using rep append_take_drop_id [of pos as] by simp
    moreover have "take pos as \<noteq> []" "length (take pos as) = pos" using 3 by auto
    moreover have "bs = drop (Suc pos) as" using b by (metis drop_Suc list.sel(3) tl_drop)
    moreover from this have "bs \<noteq> []" using 3 by simp
    ultimately obtain h' l' where "erase_at h l pos = Some (h', l')" "dll_rep h' l' (take pos as @ drop (Suc pos) as)"
      using erase_mid_rep [of h l "take pos as" bx bs] by auto
    then show ?thesis
      by (intro exI [of _ h'] exI [of _ l'] exI [of _ "take pos as @ drop (Suc pos) as"])
        (simp add: take_map drop_map)
  qed
qed

definition step_agrees :: "('a heap \<times> dll) ub \<Rightarrow> 'a list option \<Rightarrow> bool" where
  "step_agrees r s \<longleftrightarrow> (case s of
       None \<Rightarrow> r = None
     | Some xs \<Rightarrow> (\<exists>h l as. r = Some (h, l) \<and> dll_rep h l as \<and> map snd as = xs))"

lemma dll_step_refines:
  assumes rep: "dll_rep h l as"
  shows "step_agrees (dll_step h l x) (list_step (map snd as) x)"
proof (cases x)
  case (PushFront y)
  then show ?thesis using push_front_rep [OF rep, of y] by (fastforce simp: step_agrees_def)
next
  case (PushBack y)
  then show ?thesis using push_back_rep [OF rep, of y] by (fastforce simp: step_agrees_def)
next
  case PopFront
  show ?thesis
  proof (cases as)
    case Nil
    then show ?thesis using rep PopFront by (simp add: step_agrees_def pop_front_def dll_rep_def)
  next
    case (Cons ax bs)
    then show ?thesis using pop_front_rep [of h l ax bs] rep PopFront by (fastforce simp: step_agrees_def)
  qed
next
  case PopBack
  show ?thesis
  proof (cases as rule: rev_cases)
    case Nil
    then show ?thesis using rep PopBack by (simp add: step_agrees_def pop_back_def dll_rep_def)
  next
    case (snoc bs ax)
    then show ?thesis using pop_back_rep [of h l bs ax] rep PopBack by (fastforce simp: step_agrees_def)
  qed
next
  case (InsertAt pos y)
  have "dsize l = length as" using rep by (simp add: dll_rep_def)
  then show ?thesis using insert_at_rep [OF rep, of pos y] InsertAt
    by (cases "pos \<le> length as") (fastforce simp: step_agrees_def, simp add: step_agrees_def insert_at_def)
next
  case (EraseAt pos)
  have "dsize l = length as" using rep by (simp add: dll_rep_def)
  then show ?thesis using erase_at_rep [OF rep, of pos] EraseAt
    by (cases "pos < length as") (fastforce simp: step_agrees_def, simp add: step_agrees_def erase_at_def)
next
  case Clear
  then show ?thesis using clear_rep [OF rep] by (fastforce simp: step_agrees_def)
qed

lemma dll_run_refines: "dll_rep h l as \<Longrightarrow> step_agrees (dll_run h l xs) (list_run (map snd as) xs)"
proof (induction xs arbitrary: h l as)
  case Nil
  then show ?case by (auto simp: step_agrees_def)
next
  case (Cons x xs)
  show ?case
  proof (cases "list_step (map snd as) x")
    case None
    then show ?thesis using dll_step_refines [OF Cons.prems, of x] by (simp add: step_agrees_def)
  next
    case (Some ys)
    then obtain h' l' bs where "dll_step h l x = Some (h', l')" "dll_rep h' l' bs" "map snd bs = ys"
      using dll_step_refines [OF Cons.prems, of x] by (auto simp: step_agrees_def)
    then show ?thesis using Cons.IH [of h' l' bs] Some by simp
  qed
qed

text \<open>
  C15: any sequence of pushes, pops, insertions, removals and clears on a new list does exactly
  what the same sequence does on a plain list: it fails an assertion exactly where the plain list
  does, never touches a null or freed node, and a traversal of the result from the head yields the
  elements of the plain list, whose length is the size.
\<close>
theorem linked_list_refines_list:
  "(case list_run [] xs of
      None \<Rightarrow> dll_run empty_heap DoublyLinkedList xs = None
    | Some ys \<Rightarrow> (\<exists>h l. dll_run empty_heap DoublyLinkedList xs = Some (h, l) \<and>
        traverse h (head l) = Some ys \<and> list_size l = length ys))"
proof -
  have "step_agrees (dll_run empty_heap DoublyLinkedList xs) (list_run [] xs)"
    using dll_run_refines [of empty_heap DoublyLinkedList "[]" xs] by (simp add: DoublyLinkedList_def)
  moreover have "traverse h (head l) = Some (map snd as) \<and> list_size l = length as" if "dll_rep h l as" for h l and as :: "(nat \<times> 'a) list"
    using that traverse_dseg [of h None as] by (simp add: dll_rep_def list_size_def)
  ultimately show ?thesis by (fastforce simp: step_agrees_def split: option.splits)
qed

text \<open>
  Claim: the copy constructor makes a list of its own: it yields the elements of the source, its
  nodes are new, and the source is represented by the same nodes as before.
\<close>
theorem copy_ctor_deep:
  assumes "dll_rep h l as"
  shows "\<exists>h' l' cs. copy_ctor h l = Some (h', l') \<and> dll_rep h' l' cs \<and> map snd cs = map snd as \<and>
     dll_rep h' l as \<and> addrs cs \<inter> addrs as = {}"
proof -
  have r: "dll_rep h DoublyLinkedList []" by (simp add: DoublyLinkedList_def)
  have l: "dseg (cells h) None as None" "\<forall>a\<in>addrs as. a < fresh h" "head l = first_ptr as None"
    using assms by (auto simp: dll_rep_def)
  obtain h' l' cs where c: "copy_from h DoublyLinkedList (head l) = Some (h', l')" "dll_rep h' l' cs"
     "map snd cs = map snd as" "framed h {} h'" "\<forall>c\<in>addrs cs. fresh h \<le> c"
    using copy_from_rep [OF r, of as None] l by auto
  have "addrs cs \<inter> addrs as = {}" using c(5) l(2) by fastforce
  moreover have "dll_rep h' l as" by (rule framed_rep [OF c(4) assms]) simp
  ultimately show ?thesis using c by (auto simp: copy_ctor_def)
qed

definition two_nodes :: "int heap" where
  "two_nodes = \<lparr>cells = [0 \<mapsto> \<lparr>payload = 5, prev = None, nxt = Some 1\<rparr>, 1 \<mapsto> \<lparr>payload = 6, prev = Some 0, nxt = None\<rparr>],
     fresh = 2\<rparr>"

theorem copy_ctor_deep_witness:
  "\<exists>h' l' cs. copy_ctor two_nodes \<lparr>head = Some 0, tail = Some 1, dsize = 2\<rparr> = Some (h', l') \<and> dll_rep h' l' cs \<and>
     map snd cs = [5, 6] \<and> dll_rep h' \<lparr>head = Some 0, tail = Some 1, dsize = 2\<rparr> [(0, 5), (1, 6)] \<and>
     addrs cs \<inter> addrs [(0, 5), (1, 6 :: int)] = {}"
  using copy_ctor_deep [of two_nodes "\<lparr>head = Some 0, tail = Some 1, dsize = 2\<rparr>" "[(0, 5), (1, 6)]"]
  by (simp add: two_nodes_def dll_rep_def)

end
