(* ===== verification/LRU_Cache.thy ===== *)
theory LRU_Cache
  imports DLL_Heap
begin

text \<open>
  src/src/stl_like/lru_cache.cpp: the least-recently-used cache, a doubly linked list of nodes from
  the most to the least recently used one (over the heap of DLL_Heap) and a map from keys to nodes.
  A node's payload is its key and its value; get returns the value at the pointer it hands out, or
  nullptr (None inside the Some of a call that returns).
\<close>

section \<open>Definitions\<close>

record 'k lru =
  lru_capacity :: nat
  order :: dll
  index :: "'k \<Rightarrow> nat option"

definition LRUCache :: "nat \<Rightarrow> 'k lru ub" where
  "LRUCache cap = do {
     guard (cap > 0);
     Some \<lparr>lru_capacity = cap, order = \<lparr>head = None, tail = None, dsize = 0\<rparr>, index = (\<lambda>_. None)\<rparr> }"

definition move_to_front :: "('k \<times> 'v) heap \<Rightarrow> dll \<Rightarrow> nat \<Rightarrow> (('k \<times> 'v) heap \<times> dll) ub" where
  "move_to_front h l node = (
     if head l = Some node then Some (h, l)
     else do {
       nd \<leftarrow> load h (Some node);
       h \<leftarrow> (if prev nd \<noteq> None then set_next h (prev nd) (nxt nd) else Some h);
       h \<leftarrow> (if nxt nd \<noteq> None then set_prev h (nxt nd) (prev nd) else Some h);
       let t = (if tail l = Some node then prev nd else tail l);
       h \<leftarrow> set_prev h (Some node) None;
       h \<leftarrow> set_next h (Some node) (head l);
       h \<leftarrow> (if head l \<noteq> None then set_prev h (head l) (Some node) else Some h);
       Some (h, \<lparr>head = Some node, tail = (if t = None then Some node else t), dsize = dsize l\<rparr>) })"

definition evict :: "('k \<times> 'v) heap \<Rightarrow> 'k lru \<Rightarrow> (('k \<times> 'v) heap \<times> 'k lru) ub" where
  "evict h c = (let l = order c in
     if tail l = None then Some (h, c)
     else do {
       victim \<leftarrow> load h (tail l);
       h \<leftarrow> (if prev victim \<noteq> None then set_next h (prev victim) None else Some h);
       let hd' = (if prev victim \<noteq> None then head l else None);
       h \<leftarrow> delete h (tail l);
       Some (h, c\<lparr>order := \<lparr>head = hd', tail = prev victim, dsize = dsize l - 1\<rparr>,
                  index := (index c)(fst (payload victim) := None)\<rparr>) })"

definition lru_get :: "('k \<times> 'v) heap \<Rightarrow> 'k lru \<Rightarrow> 'k \<Rightarrow> ('v option \<times> ('k \<times> 'v) heap \<times> 'k lru) ub" where
  "lru_get h c k = (case index c k of
       None \<Rightarrow> Some (None, h, c)
     | Some node \<Rightarrow> do {
         (h, l) \<leftarrow> move_to_front h (order c) node;
         nd \<leftarrow> load h (Some node);
         Some (Some (snd (payload nd)), h, c\<lparr>order := l\<rparr>) })"

definition lru_put :: "('k \<times> 'v) heap \<Rightarrow> 'k lru \<Rightarrow> 'k \<Rightarrow> 'v \<Rightarrow> (('k \<times> 'v) heap \<times> 'k lru) ub" where
  "lru_put h c k v = (case index c k of
       Some node \<Rightarrow> do {
         h \<leftarrow> store h (Some node) (\<lambda>nd. nd\<lparr>payload := (fst (payload nd), v)\<rparr>);
         (h, l) \<leftarrow> move_to_front h (order c) node;
         Some (h, c\<lparr>order := l\<rparr>) }
     | None \<Rightarrow> do {
         (h, c) \<leftarrow> (if dsize (order c) = lru_capacity c then evict h c else Some (h, c));
         let l = order c;
         let (n, h) = new_node h (k, v);
         h \<leftarrow> set_next h (Some n) (head l);
         h \<leftarrow> (if head l \<noteq> None then set_prev h (head l) (Some n) else Some h);
         Some (h, c\<lparr>order := \<lparr>head = Some n, tail = (if tail l = None then Some n else tail l), dsize = dsize l + 1\<rparr>,
                    index := (index c)(k \<mapsto> n)\<rparr>) })"

definition lru_size :: "'k lru \<Rightarrow> nat" where
  "lru_size c = dsize (order c)"

definition cache_capacity :: "'k lru \<Rightarrow> nat" where
  "cache_capacity c = lru_capacity c"

partial_function (option) destroy_loop :: "'a heap \<Rightarrow> nat option \<Rightarrow> 'a heap ub" where
  "destroy_loop h p = (case p of
       None \<Rightarrow> Some h
     | Some a \<Rightarrow> do {
         nd \<leftarrow> load h p;
         h' \<leftarrow> delete h p;
         destroy_loop h' (nxt nd) })"

definition destroy :: "('k \<times> 'v) heap \<Rightarrow> 'k lru \<Rightarrow> ('k \<times> 'v) heap ub" where
  "destroy h c = destroy_loop h (head (order c))"

datatype ('k, 'v) lru_op = Get 'k | Put 'k 'v | Size

datatype 'v lru_result = Hit 'v | Miss | Done | Count nat

fun lru_step :: "('k \<times> 'v) heap \<Rightarrow> 'k lru \<Rightarrow> ('k, 'v) lru_op \<Rightarrow> ('v lru_result \<times> ('k \<times> 'v) heap \<times> 'k lru) ub" where
  "lru_step h c (Get k) = do {
     (r, h, c) \<leftarrow> lru_get h c k;
     Some (case r of None \<Rightarrow> Miss | Some v \<Rightarrow> Hit v, h, c) }"
| "lru_step h c (Put k v) = do { (h, c) \<leftarrow> lru_put h c k v; Some (Done, h, c) }"
| "lru_step h c Size = Some (Count (lru_size c), h, c)"

fun lru_run :: "('k \<times> 'v) heap \<Rightarrow> 'k lru \<Rightarrow> ('k, 'v) lru_op list \<Rightarrow> 'v lru_result list ub" where
  "lru_run h c [] = Some []"
| "lru_run h c (x # xs) = do {
     (r, h, c) \<leftarrow> lru_step h c x;
     rs \<leftarrow> lru_run h c xs;
     Some (r # rs) }"

definition lru_client :: "nat \<Rightarrow> ('k, 'v) lru_op list \<Rightarrow> 'v lru_result list ub" where
  "lru_client cap xs = do { c \<leftarrow> LRUCache cap; lru_run empty_heap c xs }"

text \<open>The demonstration: the calls of main and the results that its assertions demand.\<close>

definition lru_main :: "unit ub" where
  "lru_main = do {
     rs \<leftarrow> lru_client 3 [Put 1 ''one'', Put 2 ''two'', Put (3 :: int) ''three'', Size, Get 1, Put 4 ''four'',
       Get 2, Get 3, Get 4, Put 1 ''ONE'', Get 1];
     guard (rs = [Done, Done, Done, Count 3, Hit ''one'', Done, Miss, Hit ''three'', Hit ''four'', Done, Hit ''ONE'']);
     ns \<leftarrow> lru_client 100 (map (\<lambda>i. Put (int i) (int i * int i)) [0..<200] @
       [Size, Get 0, Get 99, Get 100, Get 100, Get 199, Get 199]);
     guard (ns = replicate 200 Done @ [Count 100, Miss, Miss, Hit 10000, Hit 10000, Hit (199 * 199), Hit (199 * 199)]) }"

section \<open>The reference cache\<close>

text \<open>A list of pairs, most recently used first, of at most cap elements.\<close>

fun cache_step :: "nat \<Rightarrow> ('k \<times> 'v) list \<Rightarrow> ('k, 'v) lru_op \<Rightarrow> 'v lru_result \<times> ('k \<times> 'v) list" where
  "cache_step cap xs (Get k) = (case map_of xs k of
       None \<Rightarrow> (Miss, xs)
     | Some v \<Rightarrow> (Hit v, (k, v) # filter (\<lambda>p. fst p \<noteq> k) xs))"
| "cache_step cap xs (Put k v) = (case map_of xs k of
       Some _ \<Rightarrow> (Done, (k, v) # filter (\<lambda>p. fst p \<noteq> k) xs)
     | None \<Rightarrow> (Done, (k, v) # (if length xs = cap then butlast xs else xs)))"
| "cache_step cap xs Size = (Count (length xs), xs)"

fun cache_run :: "nat \<Rightarrow> ('k \<times> 'v) list \<Rightarrow> ('k, 'v) lru_op list \<Rightarrow> 'v lru_result list" where
  "cache_run cap xs [] = []"
| "cache_run cap xs (y # ys) = (case cache_step cap xs y of (r, xs') \<Rightarrow> r # cache_run cap xs' ys)"

definition lru_rep :: "('k \<times> 'v) heap \<Rightarrow> 'k lru \<Rightarrow> (nat \<times> 'k \<times> 'v) list \<Rightarrow> bool" where
  "lru_rep h c as \<longleftrightarrow> dll_rep h (order c) as \<and> distinct (map (fst \<circ> snd) as) \<and>
     (\<forall>k a. index c k = Some a \<longleftrightarrow> (\<exists>v. (a, k, v) \<in> set as)) \<and>
     0 < lru_capacity c \<and> length as \<le> lru_capacity c"

lemma move_to_front_rep:
  assumes "dll_rep h l (as @ ax # bs)"
  shows "\<exists>h' l'. move_to_front h l (fst ax) = Some (h', l') \<and> dll_rep h' l' (ax # as @ bs)"
proof (cases as)
  case Nil
  then show ?thesis using assms by (simp add: move_to_front_def dll_rep_def)
next
  case (Cons b cs)
  then have "head l = Some (fst b)" "fst b \<noteq> fst ax" using assms by (auto simp: dll_rep_def)
  then show ?thesis using assms Cons
    by (cases cs rule: rev_cases; cases bs) (auto simp: move_to_front_def dll_rep_def heap_defs Let_def dest: last_ptr_in)
qed

lemma evict_rep:
  assumes "dll_rep h (order c) (as @ [ax])"
  shows "\<exists>h' l'. evict h c = Some (h', c\<lparr>order := l', index := (index c)(fst (snd ax) := None)\<rparr>) \<and> dll_rep h' l' as"
  using assms
  by (cases as rule: rev_cases) (auto simp: evict_def dll_rep_def heap_defs Let_def)

lemma update_rep:
  assumes "dll_rep h l (as @ (a, x) # bs)"
  shows "\<exists>h'. store h (Some a) (\<lambda>nd. nd\<lparr>payload := f (payload nd)\<rparr>) = Some h' \<and> dll_rep h' l (as @ (a, f x) # bs)"
  using assms by (cases as rule: rev_cases) (auto simp: dll_rep_def heap_defs)

lemma index_node:
  assumes "lru_rep h c as" "index c k = Some a"
  obtains v bs cs where "as = bs @ (a, k, v) # cs" "map_of (map snd as) k = Some v"
    "filter (\<lambda>p. fst p \<noteq> k) (map snd as) = map snd (bs @ cs)"
proof -
  obtain v where v: "(a, k, v) \<in> set as" using assms by (auto simp: lru_rep_def)
  then obtain bs cs where s: "as = bs @ (a, k, v) # cs" by (meson split_list)
  have d: "distinct (map fst (map snd as))" using assms by (simp add: lru_rep_def)
  have "(k, v) \<in> set (map snd as)" using v by force
  then have m: "map_of (map snd as) k = Some v" using d by simp
  have "\<forall>p\<in>set (map snd bs) \<union> set (map snd cs). fst p \<noteq> k" using d s by force
  then have "filter (\<lambda>p. fst p \<noteq> k) (map snd as) = map snd (bs @ cs)"
    using s by (simp add: filter_id_conv)
  then show ?thesis using that s m by blast
qed

lemma index_none:
  assumes rep: "lru_rep h c as"
  shows "index c k = None \<longleftrightarrow> map_of (map snd as) k = None"
proof
  assume none: "index c k = None"
  have "\<forall>k a. index c k = Some a \<longleftrightarrow> (\<exists>v. (a, k, v) \<in> set as)" using rep by (simp add: lru_rep_def)
  then have "p \<in> set as \<Longrightarrow> fst (snd p) \<noteq> k" for p
    using none by (cases p) (metis option.distinct(1) fst_conv snd_conv)
  then show "map_of (map snd as) k = None" by (fastforce simp: map_of_eq_None_iff)
next
  assume "map_of (map snd as) k = None"
  then show "index c k = None" using index_node [OF rep, of k] by (metis option.exhaust option.distinct(1))
qed

lemma lru_rep_front:
  assumes "lru_rep h c (bs @ (a, k, v) # cs)" "dll_rep h' l ((a, k, w) # bs @ cs)"
  shows "lru_rep h' (c\<lparr>order := l\<rparr>) ((a, k, w) # bs @ cs)"
  using assms by (auto simp: lru_rep_def)

lemma get_spec:
  assumes rep: "lru_rep h c as"
  shows "\<exists>h' c' as'. lru_step h c (Get k) = Some (fst (cache_step n (map snd as) (Get k)), h', c') \<and> lru_rep h' c' as' \<and>
     map snd as' = snd (cache_step n (map snd as) (Get k)) \<and> lru_capacity c' = lru_capacity c"
proof (cases "index c k")
  case None
  then show ?thesis using rep index_none [OF rep, of k] by (auto simp: lru_get_def)
next
  case (Some a)
  obtain v bs cs where s: "as = bs @ (a, k, v) # cs" "map_of (map snd as) k = Some v"
    "filter (\<lambda>p. fst p \<noteq> k) (map snd as) = map snd (bs @ cs)" using index_node [OF rep Some] .
  obtain h' l' where m: "move_to_front h (order c) a = Some (h', l')" "dll_rep h' l' ((a, k, v) # bs @ cs)"
    using move_to_front_rep [of h "order c" bs "(a, k, v)" cs] rep s(1) by (auto simp: lru_rep_def)
  have r: "lru_rep h' (c\<lparr>order := l'\<rparr>) ((a, k, v) # bs @ cs)" by (rule lru_rep_front [OF _ m(2)]) (use rep s(1) in simp)
  have "load h' (Some a) = Some \<lparr>payload = (k, v), prev = None, nxt = first_ptr (bs @ cs) None\<rparr>"
    using m(2) by (simp add: dll_rep_def load_def)
  then have "lru_step h c (Get k) = Some (Hit v, h', c\<lparr>order := l'\<rparr>)"
    using Some m(1) by (simp add: lru_get_def)
  then show ?thesis using r s(2,3) by (auto intro!: exI [of _ "(a, k, v) # bs @ cs"])
qed

lemma put_new_spec:
  assumes rep: "lru_rep h c as" and none: "index c k = None"
  shows "\<exists>h' c' as'. lru_put h c k v = Some (h', c') \<and> lru_rep h' c' as' \<and>
     map snd as' = (k, v) # (if length as = lru_capacity c then butlast (map snd as) else map snd as) \<and>
     lru_capacity c' = lru_capacity c"
proof -
  have n: "dsize (order c) = length as" using rep by (simp add: lru_rep_def dll_rep_def)
  have cap: "0 < lru_capacity c" "length as \<le> lru_capacity c" using rep by (simp_all add: lru_rep_def)
  obtain h1 c1 as1 where 1: "(if dsize (order c) = lru_capacity c then evict h c else Some (h, c)) = Some (h1, c1)"
    "lru_rep h1 c1 as1" "map snd as1 = (if length as = lru_capacity c then butlast (map snd as) else map snd as)"
    "lru_capacity c1 = lru_capacity c" "length as1 < lru_capacity c" "index c1 k = None"
  proof (cases "length as = lru_capacity c")
    case False
    then show ?thesis using that [of h c as] rep n none cap by simp
  next
    case True
    then obtain bs ax where s: "as = bs @ [ax]" using cap by (cases as rule: rev_cases) auto
    obtain h1 l1 where e: "evict h c = Some (h1, c\<lparr>order := l1, index := (index c)(fst (snd ax) := None)\<rparr>)"
      "dll_rep h1 l1 bs" using evict_rep [of h c bs ax] rep s by (auto simp: lru_rep_def)
    have "lru_rep h1 (c\<lparr>order := l1, index := (index c)(fst (snd ax) := None)\<rparr>) bs"
      using rep e(2) s by (cases ax) (force simp: lru_rep_def)
    then show ?thesis using that [OF _ _ _ _ _ _] e(1) s True n none by simp
  qed
  have fr: "fresh h1 \<notin> addrs as1" using 1(2) by (auto simp: lru_rep_def dll_rep_def)
  define c' where "c' = c1\<lparr>order := \<lparr>head = Some (fresh h1), tail = (if tail (order c1) = None then Some (fresh h1)
      else tail (order c1)), dsize = dsize (order c1) + 1\<rparr>, index := (index c1)(k \<mapsto> fresh h1)\<rparr>"
  have "\<exists>h'. lru_put h c k v = Some (h', c') \<and> dll_rep h' (order c') ((fresh h1, k, v) # as1)"
    using 1(1,2) fr none
    by (cases as1) (auto simp: lru_put_def lru_rep_def dll_rep_def heap_defs Let_def c'_def intro: less_SucI)
  then obtain h' where h': "lru_put h c k v = Some (h', c')" "dll_rep h' (order c') ((fresh h1, k, v) # as1)"
    by blast
  have "\<forall>k a. index c1 k = Some a \<longleftrightarrow> (\<exists>v. (a, k, v) \<in> set as1)" using 1(2) by (simp add: lru_rep_def)
  then have new: "(a, k, w) \<notin> set as1" for a w using 1(6) by (metis option.distinct(1))
  then have "k \<notin> (fst \<circ> snd) ` set as1" by force
  then have "lru_rep h' c' ((fresh h1, k, v) # as1)"
    using 1 h'(2) new by (auto simp: lru_rep_def c'_def)
  then show ?thesis using h'(1) 1(3,4) by (intro exI [of _ h'] exI [of _ c'] exI [of _ "(fresh h1, k, v) # as1"]) (simp add: c'_def)
qed

lemma put_old_spec:
  assumes rep: "lru_rep h c as" and a: "index c k = Some a"
  shows "\<exists>h' c' as'. lru_put h c k v = Some (h', c') \<and> lru_rep h' c' as' \<and>
     map snd as' = (k, v) # filter (\<lambda>p. fst p \<noteq> k) (map snd as) \<and> lru_capacity c' = lru_capacity c"
proof -
  obtain w bs cs where s: "as = bs @ (a, k, w) # cs" "map_of (map snd as) k = Some w"
    "filter (\<lambda>p. fst p \<noteq> k) (map snd as) = map snd (bs @ cs)" using index_node [OF rep a] .
  obtain h1 where h1: "store h (Some a) (\<lambda>nd. nd\<lparr>payload := (fst (payload nd), v)\<rparr>) = Some h1"
    "dll_rep h1 (order c) (bs @ (a, k, v) # cs)"
    using update_rep [of h "order c" bs a "(k, w)" cs "\<lambda>p. (fst p, v)"] rep s(1) by (auto simp: lru_rep_def)
  obtain h' l' where m: "move_to_front h1 (order c) a = Some (h', l')" "dll_rep h' l' ((a, k, v) # bs @ cs)"
    using move_to_front_rep [OF h1(2)] by auto
  have "lru_rep h' (c\<lparr>order := l'\<rparr>) ((a, k, v) # bs @ cs)"
    by (rule lru_rep_front [OF _ m(2)]) (use rep s(1) in simp)
  then show ?thesis using a h1(1) m(1) s(3)
    by (intro exI [of _ h'] exI [of _ "c\<lparr>order := l'\<rparr>"] exI [of _ "(a, k, v) # bs @ cs"]) (simp add: lru_put_def)
qed

lemma lru_step_refines:
  assumes rep: "lru_rep h c as"
  shows "\<exists>h' c' as'. lru_step h c x = Some (fst (cache_step (lru_capacity c) (map snd as) x), h', c') \<and>
     lru_rep h' c' as' \<and> map snd as' = snd (cache_step (lru_capacity c) (map snd as) x) \<and>
     lru_capacity c' = lru_capacity c"
proof (cases x)
  case (Get k)
  then show ?thesis using get_spec [OF rep] by blast
next
  case (Put k v)
  show ?thesis
  proof (cases "index c k")
    case None
    then show ?thesis using put_new_spec [OF rep None, of v] index_none [OF rep, of k] Put
      by (fastforce simp: case_prod_beta)
  next
    case (Some a)
    then obtain w where "map_of (map snd as) k = Some w" using index_node [OF rep Some] by metis
    then show ?thesis using put_old_spec [OF rep Some, of v] Put by fastforce
  qed
next
  case Size
  then show ?thesis using rep by (auto simp: lru_size_def lru_rep_def dll_rep_def)
qed

lemma lru_run_refines:
  "lru_rep h c as \<Longrightarrow> lru_run h c xs = Some (cache_run (lru_capacity c) (map snd as) xs)"
proof (induction xs arbitrary: h c as)
  case (Cons x xs)
  obtain h' c' as' where "lru_step h c x = Some (fst (cache_step (lru_capacity c) (map snd as) x), h', c')"
     "lru_rep h' c' as'" "map snd as' = snd (cache_step (lru_capacity c) (map snd as) x)"
     "lru_capacity c' = lru_capacity c" using lru_step_refines [OF Cons.prems] by blast
  then show ?case using Cons.IH [of h' c' as'] by (simp add: case_prod_beta)
qed simp

lemma lru_run_client:
  assumes "0 < cap"
  shows "lru_client cap xs = Some (cache_run cap [] xs)"
proof -
  let ?c = "\<lparr>lru_capacity = cap, order = \<lparr>head = None, tail = None, dsize = 0\<rparr>, index = (\<lambda>_. None)\<rparr>"
  have "lru_rep empty_heap ?c []" using assms by (simp add: lru_rep_def)
  then show ?thesis using lru_run_refines [of empty_heap ?c "[]" xs] assms by (simp add: lru_client_def LRUCache_def)
qed

text \<open>
  C4: for every positive capacity and every sequence of gets, puts and size queries, the cache
  of linked nodes returns exactly the results of the reference cache, a list of at most cap pairs
  whose last, least recently used pair is dropped when a new key arrives: every call returns, no
  null or freed node is touched, and the map never keeps a pointer to an evicted node.
\<close>
theorem lru_refines_reference:
  assumes "0 < cap"
  shows "lru_client cap xs = Some (cache_run cap [] xs)"
  by (rule lru_run_client [OF assms])

theorem lru_refines_reference_witness:
  "lru_client 2 [Put 1 ''a'', Put 2 ''b'', Get 1, Put (3 :: int) ''c'', Get 2, Get 1, Size]
     = Some [Done, Done, Hit ''a'', Done, Miss, Hit ''a'', Count 2]"
  using lru_refines_reference [of 2 "[Put 1 ''a'', Put 2 ''b'', Get 1, Put (3 :: int) ''c'', Get 2, Get 1, Size]"]
  by (simp del: lru_run.simps)

text \<open>The demonstration of main passes its assertions.\<close>

lemma cache_run_append:
  "cache_run cap xs (as @ bs) =
     cache_run cap xs as @ cache_run cap (fold (\<lambda>x xs. snd (cache_step cap xs x)) as xs) bs"
  by (induction as arbitrary: xs) (auto simp: case_prod_beta)

definition squares :: "nat \<Rightarrow> nat \<Rightarrow> (int \<times> int) list" where
  "squares m n = rev (map (\<lambda>i. (int i, int i * int i)) [m..<n])"

lemma map_of_squares: "map_of (squares m n) x = (if int m \<le> x \<and> x < int n then Some (x * x) else None)"
proof (induction n)
  case (Suc n)
  then show ?case by (cases "m \<le> n") (auto simp: squares_def)
qed (auto simp: squares_def)

lemma put_square:
  assumes "m \<le> n" "n - m \<le> cap" "0 < cap" "n - m < cap \<longrightarrow> m = 0"
  shows "cache_step cap (squares m n) (Put (int n) (int n * int n)) =
    (Done, squares (if n - m = cap then Suc m else m) (Suc n))"
proof -
  have "squares (Suc m) n = butlast (squares m n)" if "m < n"
    using that by (simp add: squares_def upt_conv_Cons)
  moreover have "length (squares m n) = n - m" by (simp add: squares_def)
  moreover have "squares m' (Suc n) = (int n, int n * int n) # squares m' n" if "m' \<le> n" for m'
    using that by (simp add: squares_def)
  ultimately show ?thesis using assms by (auto simp: map_of_squares)
qed

lemma put_squares:
  assumes "0 < cap"
  shows "cache_run cap [] (map (\<lambda>i. Put (int i) (int i * int i)) [0..<n]) = replicate n Done \<and>
    fold (\<lambda>x xs. snd (cache_step cap xs x)) (map (\<lambda>i. Put (int i) (int i * int i)) [0..<n]) [] = squares (n - cap) n"
proof (induction n)
  case 0
  then show ?case by (simp add: squares_def)
next
  case (Suc n)
  have "cache_step cap (squares (n - cap) n) (Put (int n) (int n * int n)) = (Done, squares (Suc n - cap) (Suc n))"
    using put_square [of "n - cap" n cap] assms
    by (cases "cap \<le> n") (simp_all add: Suc_diff_le del: cache_step.simps)
  then show ?case using Suc
    by (simp add: cache_run_append replicate_append_same case_prod_beta del: cache_step.simps)
qed

lemma cache_run_gets:
  "cache_run cap xs (map Get ks) = map (\<lambda>k. case map_of xs k of None \<Rightarrow> Miss | Some v \<Rightarrow> Hit v) ks"
proof (induction ks arbitrary: xs)
  case (Cons k ks)
  have "map_of (filter (\<lambda>p. fst p \<noteq> k) xs) = (map_of xs)(k := None)"
    by (induction xs) (auto simp: fun_eq_iff)
  then have "map_of (snd (cache_step cap xs (Get k))) = map_of xs"
    by (auto split: option.splits simp: fun_upd_idem)
  moreover have "fst (cache_step cap xs (Get k)) = (case map_of xs k of None \<Rightarrow> Miss | Some v \<Rightarrow> Hit v)"
    by (simp split: option.splits)
  ultimately show ?case using Cons [of "snd (cache_step cap xs (Get k))"]
    by (simp add: case_prod_beta del: cache_step.simps)
qed simp

lemma lru_main_passes: "lru_main = Some ()"
proof -
  have a: "lru_client 3 [Put 1 ''one'', Put 2 ''two'', Put (3 :: int) ''three'', Size, Get 1, Put 4 ''four'',
       Get 2, Get 3, Get 4, Put 1 ''ONE'', Get 1] =
     Some [Done, Done, Done, Count 3, Hit ''one'', Done, Miss, Hit ''three'', Hit ''four'', Done, Hit ''ONE'']"
    by code_simp
  have l: "length (squares 100 200) = 100" by (simp add: squares_def)
  have "cache_run 100 (squares 100 200) (Size # map Get [0, 99, 100, 100, 199, 199]) =
      [Count 100, Miss, Miss, Hit 10000, Hit 10000, Hit (199 * 199), Hit (199 * 199)]"
    unfolding cache_run.simps cache_step.simps prod.case cache_run_gets l map_of_squares by simp
  then have "lru_client 100 (map (\<lambda>i. Put (int i) (int i * int i)) [0..<200] @
       [Size, Get 0, Get 99, Get 100, Get 100, Get 199, Get 199]) =
     Some (replicate 200 Done @ [Count 100, Miss, Miss, Hit 10000, Hit 10000, Hit (199 * 199), Hit (199 * 199)])"
    using put_squares [of 100 200]
    by (simp add: lru_run_client cache_run_append del: cache_run.simps cache_step.simps upt_Suc upt_rec_numeral)
  with a show ?thesis by (simp add: lru_main_def del: upt_Suc upt_rec_numeral)
qed

end
