(* ===== verification/Order_Book.thy ===== *)
theory Order_Book
  imports Price_Levels
begin

text \<open>
  src/src/systems/hft/order_book.cpp: a limit order book that cancels through stored list
  iterators. A list iterator is the identity of its node, so a level holds pairs of a node and an
  order; erasing through an iterator whose node is not in the list is undefined (None). Prices are
  any linear order with a zero, in place of double without NaN; timestamps are arguments, since the
  source reads them from a clock.
\<close>

section \<open>Definitions\<close>

datatype book_side = Buy | Sell

record 'p book_order =
  oid :: "64 word"
  oside :: book_side
  price :: 'p
  quantity :: "32 word"
  timestamp :: "64 word"

type_synonym 'p price_level = "('p, nat \<times> 'p book_order) levels"

record 'p order_book =
  bids :: "'p price_level"
  asks :: "'p price_level"
  order_lookup :: "64 word \<Rightarrow> (book_side \<times> 'p \<times> nat) option"
  next_node :: nat

definition OrderBook :: "'p order_book" where
  "OrderBook = \<lparr>bids = [], asks = [], order_lookup = (\<lambda>_. None), next_node = 0\<rparr>"

definition book_of :: "'p order_book \<Rightarrow> book_side \<Rightarrow> 'p price_level" where
  "book_of b s = (case s of Buy \<Rightarrow> bids b | Sell \<Rightarrow> asks b)"

definition set_book :: "'p order_book \<Rightarrow> book_side \<Rightarrow> 'p price_level \<Rightarrow> 'p order_book" where
  "set_book b s ls = (case s of Buy \<Rightarrow> b\<lparr>bids := ls\<rparr> | Sell \<Rightarrow> b\<lparr>asks := ls\<rparr>)"

definition addOrder :: "'p::linorder order_book \<Rightarrow> 64 word \<Rightarrow> book_side \<Rightarrow> 'p \<Rightarrow> 32 word \<Rightarrow> 64 word \<Rightarrow> 'p order_book" where
  "addOrder b i s p q now = (
     let book_order = \<lparr>oid = i, oside = s, price = p, quantity = q, timestamp = now\<rparr>;
         it = next_node b;
         b1 = set_book b s (level_push (<) (book_of b s) p (it, book_order))
     in b1\<lparr>order_lookup := (order_lookup b1)(i \<mapsto> (s, p, it)), next_node := it + 1\<rparr>)"

definition cancelOrder :: "'p order_book \<Rightarrow> 64 word \<Rightarrow> (bool \<times> 'p order_book) ub" where
  "cancelOrder b i = (case order_lookup b i of
       None \<Rightarrow> Some (False, b)
     | Some (s, p, it) \<Rightarrow> do {
         b1 \<leftarrow> (case level_find (book_of b s) p of
            None \<Rightarrow> Some b
          | Some xs \<Rightarrow> do {
              guard (it \<in> fst ` set xs);
              Some (set_book b s (level_update (book_of b s) p (filter (\<lambda>x. fst x \<noteq> it) xs))) });
         Some (True, b1\<lparr>order_lookup := (order_lookup b1)(i := None)\<rparr>) })"

record 'p top_of_book =
  best_bid :: 'p
  best_ask :: 'p
  bid_qty :: "32 word"
  ask_qty :: "32 word"

definition total_qty :: "(nat \<times> 'p book_order) list \<Rightarrow> 32 word" where
  "total_qty xs = fold (\<lambda>x acc. acc + quantity (snd x)) xs 0"

definition getTopOfBook :: "'p::zero order_book \<Rightarrow> 'p top_of_book" where
  "getTopOfBook b = (
     let top = \<lparr>best_bid = 0, best_ask = 0, bid_qty = 0, ask_qty = 0\<rparr>;
         top = (if bids b \<noteq> [] then top\<lparr>best_bid := fst (last (bids b)), bid_qty := total_qty (snd (last (bids b)))\<rparr> else top)
     in if asks b \<noteq> [] then top\<lparr>best_ask := fst (hd (asks b)), ask_qty := total_qty (snd (hd (asks b)))\<rparr> else top)"

text \<open>The lines of printBook: price, total quantity and number of orders, asks first.\<close>

definition book_printBook :: "'p order_book \<Rightarrow> nat \<Rightarrow> ('p \<times> 32 word \<times> nat) list \<times> ('p \<times> 32 word \<times> nat) list" where
  "book_printBook b depth = (
     let line = (\<lambda>(p, xs). (p, total_qty xs, length xs))
     in (map line (take depth (asks b)), map line (take depth (rev (bids b)))))"

text \<open>The demonstration, prices in cents.\<close>

definition order_book_main :: "((int \<times> 32 word \<times> nat) list \<times> (int \<times> 32 word \<times> nat) list) list \<times> int top_of_book list" where
  "order_book_main = (
     let b = addOrder OrderBook 1 Buy 10000 500 0;
         b = addOrder b 2 Buy 10000 300 0;
         b = addOrder b 3 Buy 9950 200 0;
         b = addOrder b 4 Sell 10050 400 0;
         b = addOrder b 5 Sell 10100 600 0;
         b = addOrder b 6 Sell 10050 100 0
     in case cancelOrder b 2 of
          None \<Rightarrow> ([], [])
        | Some (_, b') \<Rightarrow> ([book_printBook b 3, book_printBook b' 3], [getTopOfBook b, getTopOfBook b']))"

lemma order_book_main_output: "order_book_main =
  ([([(10050, 500, 2), (10100, 600, 1)], [(10000, 800, 2), (9950, 200, 1)]),
    ([(10050, 500, 2), (10100, 600, 1)], [(10000, 500, 1), (9950, 200, 1)])],
   [\<lparr>best_bid = 10000, best_ask = 10050, bid_qty = 800, ask_qty = 500\<rparr>,
    \<lparr>best_bid = 10000, best_ask = 10050, bid_qty = 500, ask_qty = 500\<rparr>])"
  by code_simp

datatype 'p book_op = Add "64 word" book_side 'p "32 word" "64 word" | Cancel "64 word"

fun book_step :: "'p::linorder order_book \<Rightarrow> 'p book_op \<Rightarrow> (bool \<times> 'p order_book) ub" where
  "book_step b (Add i s p q now) = Some (True, addOrder b i s p q now)"
| "book_step b (Cancel i) = cancelOrder b i"

fun book_run :: "'p::linorder order_book \<Rightarrow> 'p book_op list \<Rightarrow> (bool list \<times> 'p order_book) ub" where
  "book_run b [] = Some ([], b)"
| "book_run b (x # xs) = do {
     (r, b1) \<leftarrow> book_step b x;
     (rs, b2) \<leftarrow> book_run b1 xs;
     Some (r # rs, b2) }"

section \<open>The reference book\<close>

text \<open>
  The resting orders in order of arrival. An order whose id is already resting is not accepted by
  the reference (None); see duplicate_id_orphans for what the code does with it.
\<close>

fun live_step :: "'p book_order list \<Rightarrow> 'p book_op \<Rightarrow> (bool \<times> 'p book_order list) option" where
  "live_step os (Add i s p q now) = (
     if i \<in> oid ` set os then None
     else Some (True, os @ [\<lparr>oid = i, oside = s, price = p, quantity = q, timestamp = now\<rparr>]))"
| "live_step os (Cancel i) = Some (i \<in> oid ` set os, filter (\<lambda>x. oid x \<noteq> i) os)"

fun live_run :: "'p book_order list \<Rightarrow> 'p book_op list \<Rightarrow> (bool list \<times> 'p book_order list) option" where
  "live_run os [] = Some ([], os)"
| "live_run os (x # xs) = do {
     (r, os1) \<leftarrow> live_step os x;
     (rs, os2) \<leftarrow> live_run os1 xs;
     Some (r # rs, os2) }"

definition queue_at :: "'p book_order list \<Rightarrow> book_side \<Rightarrow> 'p \<Rightarrow> 'p book_order list" where
  "queue_at os s p = filter (\<lambda>x. oside x = s \<and> price x = p) os"

definition prices :: "'p book_order list \<Rightarrow> book_side \<Rightarrow> 'p set" where
  "prices os s = price ` {x \<in> set os. oside x = s}"

definition best_prices :: "'p::{linorder, zero} book_order list \<Rightarrow> 'p top_of_book" where
  "best_prices os = (
     let bb = (if prices os Buy = {} then 0 else Max (prices os Buy));
         ba = (if prices os Sell = {} then 0 else Min (prices os Sell))
     in \<lparr>best_bid = bb, best_ask = ba,
         bid_qty = (if prices os Buy = {} then 0 else sum_list (map quantity (queue_at os Buy bb))),
         ask_qty = (if prices os Sell = {} then 0 else sum_list (map quantity (queue_at os Sell ba)))\<rparr>)"

section \<open>Representation\<close>

definition level_at :: "'p order_book \<Rightarrow> book_side \<Rightarrow> 'p \<Rightarrow> (nat \<times> 'p book_order) list" where
  "level_at b s p = (case level_find (book_of b s) p of None \<Rightarrow> [] | Some xs \<Rightarrow> xs)"

definition nodes_at :: "(nat \<times> 'p book_order) list \<Rightarrow> book_side \<Rightarrow> 'p \<Rightarrow> (nat \<times> 'p book_order) list" where
  "nodes_at ns s p = filter (\<lambda>x. oside (snd x) = s \<and> price (snd x) = p) ns"

definition book_rep :: "'p::linorder order_book \<Rightarrow> (nat \<times> 'p book_order) list \<Rightarrow> bool" where
  "book_rep b ns \<longleftrightarrow> (\<forall>s. levels_ok (<) (book_of b s)) \<and> (\<forall>s p. level_at b s p = nodes_at ns s p) \<and>
     distinct (map fst ns) \<and> (\<forall>x\<in>set ns. fst x < next_node b) \<and> distinct (map (oid \<circ> snd) ns) \<and>
     (\<forall>i s p n. order_lookup b i = Some (s, p, n) \<longleftrightarrow>
        (\<exists>x. (n, x) \<in> set ns \<and> oid x = i \<and> oside x = s \<and> price x = p))"

lemma book_of_set [simp]: "book_of (set_book b s ls) t = (if t = s then ls else book_of b t)"
  by (auto simp: book_of_def set_book_def split: book_side.splits)

lemma set_book_fields [simp]:
  "order_lookup (set_book b s ls) = order_lookup b" "next_node (set_book b s ls) = next_node b"
  by (auto simp: set_book_def split: book_side.splits)

lemma book_of_update [simp]: "book_of (b\<lparr>order_lookup := l\<rparr>) s = book_of b s" "book_of (b\<lparr>next_node := n\<rparr>) s = book_of b s"
  by (auto simp: book_of_def split: book_side.splits)

lemma addOrder_rep:
  assumes rep: "book_rep b ns" and new: "i \<notin> (oid \<circ> snd) ` set ns"
    and x: "x = \<lparr>oid = i, oside = s, price = p, quantity = q, timestamp = now\<rparr>"
  shows "book_rep (addOrder b i s p q now) (ns @ [(next_node b, x)])"
proof -
  let ?b = "addOrder b i s p q now"
  have ok: "levels_ok (<) (book_of b t)" for t using rep by (simp add: book_rep_def)
  have bo: "book_of ?b t = (if t = s then level_push (<) (book_of b s) p (next_node b, x) else book_of b t)" for t
    by (simp add: addOrder_def Let_def x)
  have lv: "level_at ?b t r = (if t = s \<and> r = p then level_at b t r @ [(next_node b, x)] else level_at b t r)" for t r
    by (auto simp: level_at_def bo asc.find_push [OF ok] split: option.splits)
  have "level_at ?b t r = nodes_at (ns @ [(next_node b, x)]) t r" for t r
    using rep by (auto simp: lv nodes_at_def book_rep_def x)
  moreover have "levels_ok (<) (book_of ?b t)" for t
    using ok by (simp add: bo asc.levels_ok_push)
  moreover have "next_node b \<notin> fst ` set ns" using rep by (force simp: book_rep_def)
  moreover have "order_lookup ?b = (order_lookup b)(i \<mapsto> (s, p, next_node b))" "next_node ?b = next_node b + 1"
    by (simp_all add: addOrder_def Let_def)
  moreover have "oid y \<noteq> i" if "(n, y) \<in> set ns" for n y using new that by force
  moreover have "oid x = i" "oside x = s" "price x = p" by (simp_all add: x)
  moreover have "order_lookup ?b j = Some (t, r, m) \<longleftrightarrow>
      (\<exists>y. (m, y) \<in> set (ns @ [(next_node b, x)]) \<and> oid y = j \<and> oside y = t \<and> price y = r)" for j t r m
  proof -
    have "order_lookup b j = Some (t, r, m) \<longleftrightarrow> (\<exists>y. (m, y) \<in> set ns \<and> oid y = j \<and> oside y = t \<and> price y = r)"
      using rep unfolding book_rep_def by blast
    then show ?thesis using calculation(4,6-9) by (auto split: if_splits)
  qed
  ultimately show ?thesis
    using rep new unfolding book_rep_def by (simp add: less_SucI)
qed

lemma cancelOrder_rep:
  assumes rep: "book_rep b ns"
  shows "\<exists>b'. cancelOrder b i = Some (i \<in> (oid \<circ> snd) ` set ns, b') \<and>
    book_rep b' (filter (\<lambda>x. oid (snd x) \<noteq> i) ns)"
proof (cases "order_lookup b i")
  case None
  have "oid y \<noteq> i" if "(n, y) \<in> set ns" for n y
    using rep that None unfolding book_rep_def by (metis option.distinct(1))
  then have all: "\<forall>x\<in>set ns. oid (snd x) \<noteq> i" by (metis prod.collapse)
  then have "i \<notin> (oid \<circ> snd) ` set ns" "filter (\<lambda>x. oid (snd x) \<noteq> i) ns = ns" by (auto simp: filter_id_conv)
  then show ?thesis using None rep by (auto simp: cancelOrder_def)
next
  case (Some loc)
  obtain s p n where l: "loc = (s, p, n)" by (cases loc)
  obtain x where x: "(n, x) \<in> set ns" "oid x = i" "oside x = s" "price x = p"
    using rep Some l unfolding book_rep_def by blast
  have d: "distinct (map fst ns)" "distinct (map (oid \<circ> snd) ns)" using rep by (simp_all add: book_rep_def)
  have same: "oid (snd y) = i \<longleftrightarrow> fst y = n" if "y \<in> set ns" for y
    using d x that by (metis (no_types, lifting) comp_apply distinct_map fst_conv inj_on_def snd_conv)
  define ns' where "ns' = filter (\<lambda>y. oid (snd y) \<noteq> i) ns"
  have n: "ns' = filter (\<lambda>y. fst y \<noteq> n) ns" unfolding ns'_def using same by (intro filter_cong) auto
  have ok: "levels_ok (<) (book_of b t)" for t using rep by (simp add: book_rep_def)
  have lv: "level_at b s p = nodes_at ns s p" using rep by (simp add: book_rep_def)
  have "(n, x) \<in> set (nodes_at ns s p)" using x by (simp add: nodes_at_def)
  then obtain xs where xs: "level_find (book_of b s) p = Some xs" "xs = nodes_at ns s p" "n \<in> fst ` set xs"
    using lv unfolding level_at_def by (cases "level_find (book_of b s) p") force+
  define b1 where "b1 = set_book b s (level_update (book_of b s) p (filter (\<lambda>x. fst x \<noteq> n) xs))"
  define b' where "b' = b1\<lparr>order_lookup := (order_lookup b1)(i := None)\<rparr>"
  have c: "cancelOrder b i = Some (True, b')"
    using Some l xs(1,3) by (simp add: cancelOrder_def b'_def b1_def)
  have lv': "level_at b' t r = nodes_at ns' t r" for t r
  proof (cases "t = s \<and> r = p")
    case True
    then show ?thesis using xs(1,2) n
      by (simp add: level_at_def b'_def b1_def asc.find_update [OF ok] nodes_at_def filter_filter conj_ac cong: conj_cong split: option.splits)
  next
    case False
    have "nodes_at ns' t r = nodes_at ns t r"
      unfolding nodes_at_def ns'_def filter_filter
    proof (rule filter_cong)
      fix y assume y: "y \<in> set ns"
      have "snd y = x" if "oid (snd y) = i"
        using same [OF y] that y eq_key_imp_eq_value [OF d(1) x(1), of "snd y"] by (cases y) simp
      then show "oid (snd y) \<noteq> i \<and> oside (snd y) = t \<and> price (snd y) = r \<longleftrightarrow> oside (snd y) = t \<and> price (snd y) = r"
        using x False by auto
    qed simp
    moreover have "level_at b' t r = level_at b t r"
      using False by (auto simp: level_at_def b'_def b1_def asc.find_update [OF ok])
    ultimately show ?thesis using rep by (simp add: book_rep_def)
  qed
  have "levels_ok (<) (book_of b' t)" for t
    using ok by (simp add: b'_def b1_def asc.levels_ok_update)
  moreover have "distinct (map fst ns')" "distinct (map (oid \<circ> snd) ns')" "set ns' \<subseteq> set ns"
    using d by (auto simp: ns'_def distinct_map_filter)
  moreover have "order_lookup b' j = Some (t, r, m) \<longleftrightarrow> (\<exists>y. (m, y) \<in> set ns' \<and> oid y = j \<and> oside y = t \<and> price y = r)" for j t r m
  proof -
    have "order_lookup b j = Some (t, r, m) \<longleftrightarrow> (\<exists>y. (m, y) \<in> set ns \<and> oid y = j \<and> oside y = t \<and> price y = r)"
      using rep unfolding book_rep_def by blast
    then show ?thesis by (auto simp: b'_def b1_def ns'_def)
  qed
  moreover have "next_node b' = next_node b" by (simp add: b'_def b1_def)
  ultimately have "book_rep b' ns'" using rep lv' unfolding book_rep_def by auto
  moreover have "i \<in> (oid \<circ> snd) ` set ns" using x by force
  ultimately show ?thesis using c ns'_def by auto
qed

lemma book_run_refines:
  "book_rep b ns \<Longrightarrow> live_run (map snd ns) xs = Some (rs, os) \<Longrightarrow>
   \<exists>b' ns'. book_run b xs = Some (rs, b') \<and> book_rep b' ns' \<and> map snd ns' = os"
proof (induction xs arbitrary: b ns rs os)
  case (Cons x xs)
  obtain r os1 rs1 where l: "live_step (map snd ns) x = Some (r, os1)" "live_run os1 xs = Some (rs1, os)" "rs = r # rs1"
    using Cons.prems(2) by (auto simp: bind_Some_conv)
  have "\<exists>b1 ns1. book_step b x = Some (r, b1) \<and> book_rep b1 ns1 \<and> map snd ns1 = os1"
  proof (cases x)
    case (Add i s p q now)
    then have "i \<notin> (oid \<circ> snd) ` set ns" using l(1) by (auto split: if_splits)
    from addOrder_rep [OF Cons.prems(1) this refl, of s p q now] show ?thesis
      using l(1) Add by (intro exI [of _ "addOrder b i s p q now"]
        exI [of _ "ns @ [(next_node b, \<lparr>oid = i, oside = s, price = p, quantity = q, timestamp = now\<rparr>)]"])
        (auto split: if_splits)
  next
    case (Cancel i)
    then show ?thesis using cancelOrder_rep [OF Cons.prems(1), of i] l(1)
      by (auto simp: filter_map o_def image_image)
  qed
  then obtain b1 ns1 where 1: "book_step b x = Some (r, b1)" "book_rep b1 ns1" "map snd ns1 = os1" by blast
  then show ?case using Cons.IH [of b1 ns1 rs1 os] l by fastforce
qed auto

lemma prices_keys:
  assumes "book_rep b ns"
  shows "fst ` set (book_of b s) = prices (map snd ns) s"
proof -
  have "p \<in> fst ` set (book_of b s) \<longleftrightarrow> p \<in> prices (map snd ns) s" for p
  proof -
    have ok: "levels_ok (<) (book_of b s)" using assms by (simp add: book_rep_def)
    have "p \<in> fst ` set (book_of b s) \<longleftrightarrow> level_at b s p \<noteq> []"
    proof (cases "level_find (book_of b s) p")
      case None
      then have "p \<notin> fst ` set (book_of b s)" using asc.level_find_None [of "book_of b s" p] by simp
      then show ?thesis using None by (simp add: level_at_def)
    next
      case (Some xs)
      then have e: "(p, xs) \<in> set (book_of b s)" using asc.level_find_set [OF ok, of p xs] by simp
      then have "xs \<noteq> []" using ok by (auto simp: levels_ok_def)
      moreover have "p \<in> fst ` set (book_of b s)" by (rule rev_image_eqI [OF e]) simp
      moreover have "level_at b s p = xs" using Some by (simp add: level_at_def)
      ultimately show ?thesis by blast
    qed
    also have "\<dots> \<longleftrightarrow> p \<in> prices (map snd ns) s"
    proof -
      have "level_at b s p = nodes_at ns s p" using assms by (simp add: book_rep_def)
      then show ?thesis by (force simp: nodes_at_def prices_def filter_empty_conv)
    qed
    finally show ?thesis .
  qed
  then show ?thesis by blast
qed

lemma total_qty_sum: "total_qty xs = sum_list (map (quantity \<circ> snd) xs)"
proof -
  have "fold (\<lambda>x acc. acc + quantity (snd x)) xs a = a + sum_list (map (quantity \<circ> snd) xs)" for a
    by (induction xs arbitrary: a) (auto simp: add.assoc)
  then show ?thesis by (simp add: total_qty_def)
qed

lemma total_level:
  assumes rep: "book_rep b ns" and e: "(p, xs) \<in> set (book_of b s)"
  shows "total_qty xs = sum_list (map quantity (queue_at (map snd ns) s p))"
proof -
  have "levels_ok (<) (book_of b s)" using rep by (simp add: book_rep_def)
  then have "level_find (book_of b s) p = Some xs" using e asc.level_find_set by blast
  then have "level_at b s p = xs" by (simp add: level_at_def)
  then have "xs = nodes_at ns s p" using rep by (simp add: book_rep_def)
  then show ?thesis by (simp add: total_qty_sum nodes_at_def queue_at_def filter_map o_def)
qed

lemma best_of_book:
  assumes rep: "book_rep b ns"
  shows "getTopOfBook b = best_prices (map snd ns)"
proof -
  have k: "fst ` set (bids b) = prices (map snd ns) Buy" "fst ` set (asks b) = prices (map snd ns) Sell"
    using prices_keys [OF rep, of Buy] prices_keys [OF rep, of Sell] by (simp_all add: book_of_def)
  have ok: "levels_ok (<) (bids b)" "levels_ok (<) (asks b)"
    using rep unfolding book_rep_def book_of_def by (metis book_side.case(1), metis book_side.case(2))
  have "fst (last (bids b)) = Max (prices (map snd ns) Buy)" if "bids b \<noteq> []"
  proof -
    have "q \<le> fst (last (bids b))" if q: "q \<in> fst ` set (bids b)" for q
      using asc.last_is_extreme [OF ok(1) \<open>bids b \<noteq> []\<close> q] by auto
    then show ?thesis unfolding k(1) [symmetric] using that by (intro Max_eqI [symmetric]) auto
  qed
  moreover have "fst (hd (asks b)) = Min (prices (map snd ns) Sell)" if "asks b \<noteq> []"
  proof -
    obtain p xs ls where a: "asks b = (p, xs) # ls" using \<open>asks b \<noteq> []\<close> by (cases "asks b") auto
    then have "\<forall>q\<in>fst ` set ls. p < q" using asc.best_is_extreme ok(2) by metis
    then show ?thesis unfolding k(2) [symmetric] a by (intro Min_eqI [symmetric]) (auto simp: less_imp_le)
  qed
  moreover have "total_qty (snd (last (bids b))) = sum_list (map quantity (queue_at (map snd ns) Buy (fst (last (bids b)))))"
    if "bids b \<noteq> []" using total_level [OF rep, of _ _ Buy] last_in_set [OF that] by (simp add: book_of_def)
  moreover have "total_qty (snd (hd (asks b))) = sum_list (map quantity (queue_at (map snd ns) Sell (fst (hd (asks b)))))"
    if "asks b \<noteq> []" using total_level [OF rep, of _ _ Sell] hd_in_set [OF that] by (simp add: book_of_def)
  moreover have "prices (map snd ns) Buy = {} \<longleftrightarrow> bids b = []" "prices (map snd ns) Sell = {} \<longleftrightarrow> asks b = []"
    using k by (metis image_is_empty set_empty)+
  ultimately show ?thesis by (simp add: getTopOfBook_def best_prices_def Let_def)
qed

lemma OrderBook_rep: "book_rep OrderBook []"
  by (simp add: book_rep_def OrderBook_def book_of_def level_at_def nodes_at_def levels_ok_def split: book_side.splits)

text \<open>
  C21: as long as no id is reused while its order rests, any sequence of additions and
  cancellations succeeds without touching an invalid iterator, a cancellation reports whether the
  order rested, every price level holds the resting orders of its side and price in order of
  arrival, and the top of the book gives the highest bid and the lowest ask with the total
  quantities resting there.
\<close>
theorem order_book_refines_live_orders:
  assumes "live_run [] xs = Some (rs, os)"
  shows "\<exists>b. book_run OrderBook xs = Some (rs, b) \<and>
    (\<forall>s p. map snd (level_at b s p) = queue_at os s p) \<and> getTopOfBook b = best_prices os"
proof -
  obtain b ns where b: "book_run OrderBook xs = Some (rs, b)" "book_rep b ns" "map snd ns = os"
    using book_run_refines [OF OrderBook_rep, of xs rs os] assms by auto
  moreover have "map snd (level_at b s p) = queue_at os s p" for s p
    using b(2,3) by (auto simp: book_rep_def nodes_at_def queue_at_def filter_map o_def)
  ultimately show ?thesis using best_of_book [OF b(2)] by auto
qed

theorem order_book_refines_live_orders_witness:
  "\<exists>b. book_run OrderBook [Add 1 Buy 100 5 0, Add 2 Buy 100 3 1, Add 3 Sell (101 :: int) 7 2, Cancel 1, Cancel 9] =
       Some ([True, True, True, True, False], b) \<and>
     (\<forall>s p. map snd (level_at b s p) = queue_at [\<lparr>oid = 2, oside = Buy, price = 100, quantity = 3, timestamp = 1\<rparr>,
        \<lparr>oid = 3, oside = Sell, price = 101, quantity = 7, timestamp = 2\<rparr>] s p) \<and>
     getTopOfBook b = best_prices [\<lparr>oid = 2, oside = Buy, price = 100, quantity = 3, timestamp = 1\<rparr>,
        \<lparr>oid = 3, oside = Sell, price = 101, quantity = 7, timestamp = 2\<rparr>]"
  by (rule order_book_refines_live_orders) code_simp

text \<open>
  Claim: adding an order under the id of a resting order replaces the stored iterator, so the
  older order can no longer be cancelled: the first cancellation removes the newer order, the
  second reports that there is none, and the older one keeps resting.
\<close>
theorem duplicate_id_orphans:
  "case book_run OrderBook [Add 1 Buy 100 5 0, Add 1 Buy (99 :: int) 3 1, Cancel 1, Cancel 1] of
     Some (rs, b) \<Rightarrow> rs = [True, True, True, False] \<and>
       bids b = [(100, [(0, \<lparr>oid = 1, oside = Buy, price = 100, quantity = 5, timestamp = 0\<rparr>)])]
   | None \<Rightarrow> False"
  by code_simp

end
