(* ===== verification/Scheduler.thy ===== *)
theory Scheduler
  imports Prelude
begin

text \<open>
  src/src/systems/os/scheduler_sim.cpp: round robin and non-preemptive priority scheduling. The
  call of std::sort is the argument sort_procs (the standard fixes its result up to the order of
  equal arrival times). The averages are kept as the totals they divide. The round robin loop is a
  partial function: with a quantum of zero it does not end.
\<close>

section \<open>Definitions\<close>

record process =
  pid :: int
  arrival_time :: int
  burst_time :: int
  priority :: int
  remaining_time :: int
  completion_time :: int
  first_run_time :: int

definition Process :: "int \<Rightarrow> int \<Rightarrow> int \<Rightarrow> int \<Rightarrow> int \<Rightarrow> process" where
  "Process p a b pr r = \<lparr>pid = p, arrival_time = a, burst_time = b, priority = pr, remaining_time = r,
     completion_time = 0, first_run_time = - 1\<rparr>"

record result =
  processes :: "process list"
  total_tat :: int
  total_wt :: int

record rr_state =
  procs :: "process list"
  ready :: "nat list"
  in_queue :: "bool list"
  time :: int
  completed :: int

text \<open>The loop that queues newly arrived processes, from index i on.\<close>

fun enqueue_arrived :: "process list \<Rightarrow> int \<Rightarrow> nat list \<Rightarrow> nat list \<Rightarrow> bool list \<Rightarrow> nat list \<times> bool list" where
  "enqueue_arrived ps now [] q inq = (q, inq)"
| "enqueue_arrived ps now (i # is) q inq =
     (if \<not> inq ! i \<and> arrival_time (ps ! i) \<le> now \<and> remaining_time (ps ! i) > 0
      then enqueue_arrived ps now is (q @ [i]) (inq[i := True])
      else enqueue_arrived ps now is q inq)"

fun enqueue_initial :: "process list \<Rightarrow> int \<Rightarrow> nat list \<Rightarrow> nat list \<Rightarrow> bool list \<Rightarrow> nat list \<times> bool list" where
  "enqueue_initial ps now [] q inq = (q, inq)"
| "enqueue_initial ps now (i # is) q inq =
     (if arrival_time (ps ! i) \<le> now
      then enqueue_initial ps now is (q @ [i]) (inq[i := True])
      else enqueue_initial ps now is q inq)"

definition rr_idle :: "rr_state \<Rightarrow> rr_state ub" where
  "rr_idle s = do {
     t \<leftarrow> chk (time s + 1);
     let (q, inq) = enqueue_arrived (procs s) t [0..<length (procs s)] (ready s) (in_queue s);
     Some (s\<lparr>ready := q, in_queue := inq, time := t\<rparr>) }"

definition rr_run :: "int \<Rightarrow> rr_state \<Rightarrow> nat \<Rightarrow> nat list \<Rightarrow> rr_state ub" where
  "rr_run quantum s idx rest = do {
     let p = procs s ! idx;
     let p = (if first_run_time p < 0 then p\<lparr>first_run_time := time s\<rparr> else p);
     let run_time = min quantum (remaining_time p);
     rem \<leftarrow> chk (remaining_time p - run_time);
     t \<leftarrow> chk (time s + run_time);
     let ps = (procs s)[idx := p\<lparr>remaining_time := rem\<rparr>];
     let (q, inq) = enqueue_arrived ps t [0..<length ps] rest (in_queue s);
     if rem = 0 then do {
       c \<leftarrow> chk (completed s + 1);
       Some \<lparr>procs = ps[idx := (ps ! idx)\<lparr>completion_time := t\<rparr>], ready = q, in_queue = inq, time = t, completed = c\<rparr> }
     else Some \<lparr>procs = ps, ready = q @ [idx], in_queue = inq, time = t, completed = completed s\<rparr> }"

definition rr_step :: "int \<Rightarrow> rr_state \<Rightarrow> rr_state ub" where
  "rr_step quantum s = (case ready s of [] \<Rightarrow> rr_idle s | idx # rest \<Rightarrow> rr_run quantum s idx rest)"

partial_function (option) rr_loop :: "int \<Rightarrow> rr_state \<Rightarrow> rr_state ub" where
  "rr_loop quantum s = (
     if completed s < int (length (procs s)) then do { s' \<leftarrow> rr_step quantum s; rr_loop quantum s' }
     else Some s)"

declare rr_loop.simps [code]

fun totals :: "process list \<Rightarrow> int \<Rightarrow> int \<Rightarrow> (int \<times> int) ub" where
  "totals [] tat_sum wt_sum = Some (tat_sum, wt_sum)"
| "totals (p # ps) tat_sum wt_sum = do {
     tat \<leftarrow> chk (completion_time p - arrival_time p);
     wt \<leftarrow> chk (tat - burst_time p);
     totals ps (tat_sum + tat) (wt_sum + wt) }"

definition rr_start :: "process list \<Rightarrow> rr_state" where
  "rr_start ps = (
     let (q, inq) = enqueue_initial ps 0 [0..<length ps] [] (replicate (length ps) False)
     in \<lparr>procs = ps, ready = q, in_queue = inq, time = 0, completed = 0\<rparr>)"

definition roundRobin :: "(process list \<Rightarrow> process list) \<Rightarrow> process list \<Rightarrow> int \<Rightarrow> result ub" where
  "roundRobin sort_procs ps quantum = do {
     s \<leftarrow> rr_loop quantum (rr_start (sort_procs ps));
     (tat, wt) \<leftarrow> totals (procs s) 0 0;
     Some \<lparr>processes = procs s, total_tat = tat, total_wt = wt\<rparr> }"

record prio_state =
  pprocs :: "process list"
  done_flags :: "bool list"
  ptime :: int
  pcompleted :: int

fun pick_best :: "process list \<Rightarrow> bool list \<Rightarrow> int \<Rightarrow> nat list \<Rightarrow> nat option \<Rightarrow> nat option" where
  "pick_best ps dn now [] best = best"
| "pick_best ps dn now (i # is) best =
     (if \<not> dn ! i \<and> arrival_time (ps ! i) \<le> now \<and>
        (case best of None \<Rightarrow> True | Some b \<Rightarrow> priority (ps ! i) < priority (ps ! b))
      then pick_best ps dn now is (Some i)
      else pick_best ps dn now is best)"

definition prio_step :: "prio_state \<Rightarrow> prio_state ub" where
  "prio_step s = (case pick_best (pprocs s) (done_flags s) (ptime s) [0..<length (pprocs s)] None of
       None \<Rightarrow> do { t \<leftarrow> chk (ptime s + 1); Some (s\<lparr>ptime := t\<rparr>) }
     | Some b \<Rightarrow> do {
         t \<leftarrow> chk (ptime s + burst_time (pprocs s ! b));
         c \<leftarrow> chk (pcompleted s + 1);
         Some \<lparr>pprocs = (pprocs s)[b := (pprocs s ! b)\<lparr>first_run_time := ptime s, completion_time := t, remaining_time := 0\<rparr>],
               done_flags = (done_flags s)[b := True], ptime = t, pcompleted = c\<rparr> })"

partial_function (option) prio_loop :: "prio_state \<Rightarrow> prio_state ub" where
  "prio_loop s = (
     if pcompleted s < int (length (pprocs s)) then do { s' \<leftarrow> prio_step s; prio_loop s' }
     else Some s)"

declare prio_loop.simps [code]

definition prio_start :: "process list \<Rightarrow> prio_state" where
  "prio_start ps = \<lparr>pprocs = ps, done_flags = replicate (length ps) False, ptime = 0, pcompleted = 0\<rparr>"

definition priorityScheduling :: "process list \<Rightarrow> result ub" where
  "priorityScheduling ps = do {
     s \<leftarrow> prio_loop (prio_start ps);
     (tat, wt) \<leftarrow> totals (pprocs s) 0 0;
     Some \<lparr>processes = pprocs s, total_tat = tat, total_wt = wt\<rparr> }"

text \<open>The table printResults prints: pid, burst, priority, completion, turnaround, waiting.\<close>

definition printResults :: "result \<Rightarrow> (int \<times> int \<times> int \<times> int \<times> int \<times> int) list \<times> int \<times> int" where
  "printResults r = (map (\<lambda>p. let tat = completion_time p - arrival_time p; wt = tat - burst_time p
     in (pid p, burst_time p, priority p, completion_time p, tat, wt)) (processes r), total_tat r, total_wt r)"

definition scheduler_main :: "(((int \<times> int \<times> int \<times> int \<times> int \<times> int) list \<times> int \<times> int) \<times> ((int \<times> int \<times> int \<times> int \<times> int \<times> int) list \<times> int \<times> int)) ub" where
  "scheduler_main = do {
     let ps = [Process 1 0 10 3 10, Process 2 1 5 1 5, Process 3 2 8 4 8, Process 4 3 3 2 3, Process 5 4 6 5 6];
     rr \<leftarrow> roundRobin (sort_key arrival_time) ps 3;
     pr \<leftarrow> priorityScheduling ps;
     Some (printResults rr, printResults pr) }"

lemma scheduler_main_output:
  "scheduler_main = Some
    (([(1, 10, 3, 32, 32, 22), (2, 5, 1, 20, 19, 14), (3, 8, 4, 31, 29, 21), (4, 3, 2, 12, 9, 6), (5, 6, 5, 29, 25, 19)], 114, 82),
     ([(1, 10, 3, 10, 10, 0), (2, 5, 1, 15, 14, 9), (3, 8, 4, 26, 24, 16), (4, 3, 2, 18, 15, 12), (5, 6, 5, 32, 28, 22)], 91, 59))"
  by code_simp

section \<open>Round robin\<close>

definition static :: "process \<Rightarrow> int \<times> int \<times> int \<times> int" where
  "static p = (pid p, arrival_time p, burst_time p, priority p)"

definition new_process :: "int \<Rightarrow> process \<Rightarrow> bool" where
  "new_process M p \<longleftrightarrow> 0 \<le> arrival_time p \<and> arrival_time p \<le> M \<and> 0 < burst_time p \<and>
     remaining_time p = burst_time p \<and> first_run_time p = - 1"

text \<open>What is true of a process at time t, whatever its progress.\<close>

definition proc_ok :: "int \<Rightarrow> int \<Rightarrow> process \<Rightarrow> bool" where
  "proc_ok M t p \<longleftrightarrow> 0 \<le> arrival_time p \<and> arrival_time p \<le> M \<and> 0 < burst_time p \<and>
     0 \<le> remaining_time p \<and> remaining_time p \<le> burst_time p \<and>
     (remaining_time p = burst_time p \<longrightarrow> first_run_time p = - 1) \<and>
     (remaining_time p < burst_time p \<longrightarrow> arrival_time p \<le> first_run_time p \<and>
        first_run_time p + (burst_time p - remaining_time p) \<le> t) \<and>
     (remaining_time p = 0 \<longrightarrow> first_run_time p + burst_time p \<le> completion_time p \<and> completion_time p \<le> t)"

definition work :: "process list \<Rightarrow> int" where
  "work ps = sum_list (map remaining_time ps)"

definition demand :: "process list \<Rightarrow> int" where
  "demand ps = sum_list (map burst_time ps)"

definition queue_ok :: "rr_state \<Rightarrow> bool" where
  "queue_ok s \<longleftrightarrow> length (in_queue s) = length (procs s) \<and> distinct (ready s) \<and>
     set (ready s) = {i. i < length (procs s) \<and> in_queue s ! i \<and> remaining_time (procs s ! i) > 0} \<and>
     (\<forall>i<length (procs s). in_queue s ! i \<longrightarrow> arrival_time (procs s ! i) \<le> time s) \<and>
     (\<forall>i<length (procs s). arrival_time (procs s ! i) \<le> time s \<and> remaining_time (procs s ! i) > 0 \<longrightarrow> in_queue s ! i)"

definition rr_inv :: "int \<Rightarrow> (int \<times> int \<times> int \<times> int) list \<Rightarrow> rr_state \<Rightarrow> bool" where
  "rr_inv M st s \<longleftrightarrow> map static (procs s) = st \<and> queue_ok s \<and> (\<forall>p\<in>set (procs s). proc_ok M (time s) p) \<and>
     completed s = int (card {i. i < length (procs s) \<and> remaining_time (procs s ! i) = 0}) \<and>
     0 \<le> time s \<and> 0 \<le> M \<and> time s + work (procs s) \<le> M + demand (procs s) \<and> M + demand (procs s) \<le> INT_MAX"

lemma enqueue_arrived_eq:
  "distinct is \<Longrightarrow> \<forall>i\<in>set is. i < length inq \<Longrightarrow>
   enqueue_arrived ps now is q inq =
     (q @ filter (\<lambda>i. \<not> inq ! i \<and> arrival_time (ps ! i) \<le> now \<and> remaining_time (ps ! i) > 0) is,
      map (\<lambda>i. inq ! i \<or> i \<in> set is \<and> arrival_time (ps ! i) \<le> now \<and> remaining_time (ps ! i) > 0) [0..<length inq])"
proof (induction "is" arbitrary: q inq)
  case Nil
  then show ?case by (simp add: map_nth)
next
  case (Cons i "is")
  let ?P = "\<lambda>i. arrival_time (ps ! i) \<le> now \<and> remaining_time (ps ! i) > 0"
  show ?case
  proof (cases "\<not> inq ! i \<and> ?P i")
    case True
    have "filter (\<lambda>j. \<not> inq[i := True] ! j \<and> ?P j) is = filter (\<lambda>j. \<not> inq ! j \<and> ?P j) is"
    proof (rule filter_cong)
      fix j assume "j \<in> set is"
      then have "i \<noteq> j" using Cons.prems(1) by auto
      then show "(\<not> inq[i := True] ! j \<and> ?P j) = (\<not> inq ! j \<and> ?P j)" by simp
    qed simp
    moreover have "map (\<lambda>j. inq[i := True] ! j \<or> j \<in> set is \<and> ?P j) [0..<length inq] =
        map (\<lambda>j. inq ! j \<or> j \<in> set (i # is) \<and> ?P j) [0..<length inq]"
    proof (rule map_cong)
      fix j assume "j \<in> set [0..<length inq]"
      then show "(inq[i := True] ! j \<or> j \<in> set is \<and> ?P j) = (inq ! j \<or> j \<in> set (i # is) \<and> ?P j)"
        using True by (cases "j = i") auto
    qed simp
    ultimately show ?thesis using True Cons.IH [of "inq[i := True]" "q @ [i]"] Cons.prems by simp
  next
    case False
    have "map (\<lambda>j. inq ! j \<or> j \<in> set is \<and> ?P j) [0..<length inq] =
        map (\<lambda>j. inq ! j \<or> j \<in> set (i # is) \<and> ?P j) [0..<length inq]"
      using False by (intro map_cong) auto
    moreover have "filter (\<lambda>j. \<not> inq ! j \<and> ?P j) (i # is) = filter (\<lambda>j. \<not> inq ! j \<and> ?P j) is"
      using False by simp
    moreover have "enqueue_arrived ps now (i # is) q inq = enqueue_arrived ps now is q inq"
      using False by auto
    ultimately show ?thesis using Cons.IH [of inq q] Cons.prems by (simp only: list.set_intros(2) distinct.simps) simp
  qed
qed

text \<open>Queueing the arrivals at time t restores the queue invariant, but for the removed entries.\<close>

lemma queue_ok_arrivals:
  assumes len: "length inq = length ps" and q: "distinct q"
    "set q = {i. i < length ps \<and> i \<noteq> x \<and> inq ! i \<and> remaining_time (ps ! i) > 0}"
    and x: "x < length ps \<longrightarrow> inq ! x" and t: "told \<le> t"
    and old: "\<forall>i<length ps. inq ! i \<longrightarrow> arrival_time (ps ! i) \<le> told"
    and e: "enqueue_arrived ps t [0..<length ps] q inq = (q', inq')"
    and r: "r = (if x < length ps \<and> remaining_time (ps ! x) > 0 then q' @ [x] else q')"
  shows "queue_ok \<lparr>procs = ps, ready = r, in_queue = inq', time = t, completed = c\<rparr>"
proof -
  let ?new = "filter (\<lambda>i. \<not> inq ! i \<and> arrival_time (ps ! i) \<le> t \<and> remaining_time (ps ! i) > 0) [0..<length ps]"
  let ?inq = "map (\<lambda>i. inq ! i \<or> i \<in> set [0..<length ps] \<and> arrival_time (ps ! i) \<le> t \<and>
      remaining_time (ps ! i) > 0) [0..<length ps]"
  have "(q', inq') = (q @ ?new, ?inq)"
    using e enqueue_arrived_eq [of "[0..<length ps]" inq ps t q] len by simp
  then have q': "q' = q @ ?new" and i': "inq' = ?inq" by blast+
  have len': "length inq' = length ps" by (simp add: i')
  have n: "inq' ! i \<longleftrightarrow> inq ! i \<or> arrival_time (ps ! i) \<le> t \<and> remaining_time (ps ! i) > 0" if "i < length ps" for i
    using that by (simp add: i')
  have "distinct q'" using q by (auto simp: q')
  moreover have sq: "set q' = {i. i < length ps \<and> i \<noteq> x \<and> inq' ! i \<and> remaining_time (ps ! i) > 0}"
  proof (rule set_eqI)
    fix i
    have "i \<in> set q' \<longleftrightarrow> i < length ps \<and> (i \<noteq> x \<and> inq ! i \<and> remaining_time (ps ! i) > 0 \<or>
        \<not> inq ! i \<and> arrival_time (ps ! i) \<le> t \<and> remaining_time (ps ! i) > 0)"
      unfolding q' using q(2) by auto
    then show "i \<in> set q' \<longleftrightarrow> i \<in> {i. i < length ps \<and> i \<noteq> x \<and> inq' ! i \<and> remaining_time (ps ! i) > 0}"
      using n [of i] x by auto
  qed
  ultimately have "distinct r" "set r = {i. i < length ps \<and> inq' ! i \<and> remaining_time (ps ! i) > 0}"
    using x n [of x] unfolding r by auto
  moreover have "\<forall>i<length ps. inq' ! i \<longrightarrow> arrival_time (ps ! i) \<le> t"
    using old t n by (meson order_trans)
  ultimately show ?thesis using n len' by (simp add: queue_ok_def)
qed

lemma proc_ok_mono: "proc_ok M t p \<Longrightarrow> t \<le> t' \<Longrightarrow> proc_ok M t' p"
  by (auto simp: proc_ok_def)

lemma work_update: "i < length ps \<Longrightarrow> work (ps[i := p]) = work ps + remaining_time p - remaining_time (ps ! i)"
  by (simp add: work_def map_update sum_list_update_int)

lemma demand_static: "demand ps = sum_list (map (\<lambda>x. fst (snd (snd x))) (map static ps))"
  by (simp add: demand_def static_def o_def)

lemma work_bounds:
  assumes "\<forall>p\<in>set ps. proc_ok M t p"
  shows "0 \<le> work ps" "work ps \<le> demand ps" "int (length ps) \<le> demand ps"
    "p \<in> set ps \<Longrightarrow> remaining_time p \<le> work ps"
proof -
  show "0 \<le> work ps" unfolding work_def using assms by (intro sum_list_nonneg) (auto simp: proc_ok_def)
  show "work ps \<le> demand ps" unfolding work_def demand_def using assms
    by (intro sum_list_mono) (auto simp: proc_ok_def)
  show "int (length ps) \<le> demand ps" using assms
    by (induction ps) (auto simp: demand_def proc_ok_def)
  show "p \<in> set ps \<Longrightarrow> remaining_time p \<le> work ps"
    unfolding work_def using assms by (intro member_le_sum_list) (auto simp: proc_ok_def)
qed

definition rr_measure :: "int \<Rightarrow> rr_state \<Rightarrow> nat" where
  "rr_measure M s = nat (work (procs s)) + nat (M - time s)"

lemma unfinished_exists:
  assumes "completed s < int (length (procs s))" "rr_inv M st s"
  obtains i where "i < length (procs s)" "remaining_time (procs s ! i) > 0"
proof -
  let ?D = "{i. i < length (procs s) \<and> remaining_time (procs s ! i) = 0}"
  have "completed s = int (card ?D)" using assms(2) unfolding rr_inv_def by blast
  then have "card ?D < length (procs s)" using assms(1) by simp
  then have "card ?D \<noteq> card {..<length (procs s)}" by simp
  then have "?D \<noteq> {..<length (procs s)}" by (rule contrapos_nn) simp
  then obtain i where i: "i < length (procs s)" "remaining_time (procs s ! i) \<noteq> 0" by blast
  moreover have "proc_ok M (time s) (procs s ! i)" using assms(2) i(1) by (simp add: rr_inv_def)
  then have "0 \<le> remaining_time (procs s ! i)" by (simp add: proc_ok_def)
  ultimately show ?thesis using that by force
qed

lemma rr_idle_inv:
  assumes inv: "rr_inv M st s" and more: "completed s < int (length (procs s))" and idle: "ready s = []"
  shows "\<exists>s'. rr_idle s = Some s' \<and> rr_inv M st s' \<and> rr_measure M s' < rr_measure M s"
proof -
  obtain i where i: "i < length (procs s)" "remaining_time (procs s ! i) > 0"
    using unfinished_exists [OF more inv] .
  have q: "queue_ok s" and p: "\<forall>p\<in>set (procs s). proc_ok M (time s) p" using inv by (simp_all add: rr_inv_def)
  have none: "{j. j < length (procs s) \<and> in_queue s ! j \<and> remaining_time (procs s ! j) > 0} = {}"
    using q idle by (simp add: queue_ok_def)
  then have "\<not> in_queue s ! i" using i by blast
  then have "time s < arrival_time (procs s ! i)" using q i by (force simp: queue_ok_def)
  moreover have "arrival_time (procs s ! i) \<le> M" using p i by (simp add: proc_ok_def)
  ultimately have lt: "time s < M" by simp
  define q' inq' where "q' = fst (enqueue_arrived (procs s) (time s + 1) [0..<length (procs s)] [] (in_queue s))"
    and "inq' = snd (enqueue_arrived (procs s) (time s + 1) [0..<length (procs s)] [] (in_queue s))"
  define s' where "s' = s\<lparr>ready := q', in_queue := inq', time := time s + 1\<rparr>"
  have e: "enqueue_arrived (procs s) (time s + 1) [0..<length (procs s)] [] (in_queue s) = (q', inq')"
    by (simp add: q'_def inq'_def)
  have d: "0 \<le> demand (procs s)" using work_bounds [OF p] by linarith
  have "M \<le> INT_MAX" using inv d by (simp add: rr_inv_def)
  then have "chk (time s + 1) = Some (time s + 1)" using inv lt by (simp add: chk_def in_int_def rr_inv_def)
  then have r: "rr_idle s = Some s'" using idle e by (simp add: rr_idle_def s'_def)
  have "queue_ok \<lparr>procs = procs s, ready = q', in_queue = inq', time = time s + 1, completed = completed s\<rparr>"
  proof (rule queue_ok_arrivals [OF _ _ _ _ _ _ e, where x = "length (procs s)" and told = "time s"])
    show "length (in_queue s) = length (procs s)" using q by (simp add: queue_ok_def)
    show "set [] = {i. i < length (procs s) \<and> i \<noteq> length (procs s) \<and> in_queue s ! i \<and> remaining_time (procs s ! i) > 0}"
      using none by auto
    show "\<forall>i<length (procs s). in_queue s ! i \<longrightarrow> arrival_time (procs s ! i) \<le> time s"
      using q unfolding queue_ok_def by blast
  qed simp_all
  then have "queue_ok s'" by (simp add: queue_ok_def s'_def)
  moreover have "\<forall>p\<in>set (procs s). proc_ok M (time s + 1) p" using p proc_ok_mono by (meson linear zle_add1_eq_le less_irrefl add_le_cancel_left)
  moreover have "time s + 1 + work (procs s) \<le> M + demand (procs s)"
    using lt work_bounds(2) [OF p] by linarith
  ultimately have "rr_inv M st s'" using inv by (simp add: rr_inv_def s'_def)
  then show ?thesis using r lt by (simp add: rr_measure_def s'_def)
qed

lemma queue_ok_cong:
  assumes "queue_ok \<lparr>procs = ps, ready = r, in_queue = q, time = t, completed = c\<rparr>" "length ps' = length ps"
    "\<And>i. i < length ps \<Longrightarrow> arrival_time (ps' ! i) = arrival_time (ps ! i) \<and> remaining_time (ps' ! i) = remaining_time (ps ! i)"
  shows "queue_ok \<lparr>procs = ps', ready = r, in_queue = q, time = t, completed = c'\<rparr>"
proof -
  have e: "{i. i < length ps \<and> q ! i \<and> remaining_time (ps' ! i) > 0} = {i. i < length ps \<and> q ! i \<and> remaining_time (ps ! i) > 0}"
    using assms(3) by auto
  have "\<forall>i<length ps. q ! i \<longrightarrow> arrival_time (ps' ! i) \<le> t"
    "\<forall>i<length ps. arrival_time (ps' ! i) \<le> t \<and> remaining_time (ps' ! i) > 0 \<longrightarrow> q ! i"
    using assms(1,3) unfolding queue_ok_def rr_state.select_convs by auto
  then show ?thesis
    using assms(1) unfolding queue_ok_def rr_state.select_convs assms(2) e by blast
qed

text \<open>One quantum of a process: what becomes of it.\<close>

definition served :: "int \<Rightarrow> int \<Rightarrow> process \<Rightarrow> process" where
  "served now run p = (let p1 = (if first_run_time p < 0 then p\<lparr>first_run_time := now\<rparr> else p);
     rem = remaining_time p - run
     in if rem = 0 then p1\<lparr>remaining_time := rem, completion_time := now + run\<rparr> else p1\<lparr>remaining_time := rem\<rparr>)"

lemma served_fields [simp]:
  "arrival_time (served now run p) = arrival_time p" "burst_time (served now run p) = burst_time p"
  "remaining_time (served now run p) = remaining_time p - run" "static (served now run p) = static p"
  by (simp_all add: served_def Let_def static_def)

lemma served_ok:
  assumes "proc_ok M now p" "arrival_time p \<le> now" "0 < run" "run \<le> remaining_time p"
  shows "proc_ok M (now + run) (served now run p)"
  using assms by (auto simp: proc_ok_def served_def Let_def)

lemma rr_run_eq:
  assumes q: "run = min quantum (remaining_time (procs s ! idx))" "idx < length (procs s)"
    and c: "chk (remaining_time (procs s ! idx) - run) = Some (remaining_time (procs s ! idx) - run)"
      "chk (time s + run) = Some (time s + run)" "chk (completed s + 1) = Some (completed s + 1)"
  obtains ps q' inq' where "length ps = length (procs s)"
    "\<And>i. i < length ps \<Longrightarrow> arrival_time (ps ! i) = arrival_time (procs s ! i) \<and>
        remaining_time (ps ! i) = remaining_time ((procs s)[idx := served (time s) run (procs s ! idx)] ! i)"
    "enqueue_arrived ps (time s + run) [0..<length ps] rest (in_queue s) = (q', inq')"
    "rr_run quantum s idx rest = Some \<lparr>procs = (procs s)[idx := served (time s) run (procs s ! idx)],
       ready = (if remaining_time (procs s ! idx) - run = 0 then q' else q' @ [idx]), in_queue = inq',
       time = time s + run, completed = (if remaining_time (procs s ! idx) - run = 0 then completed s + 1 else completed s)\<rparr>"
proof -
  let ?p = "procs s ! idx"
  let ?p1 = "if first_run_time ?p < 0 then ?p\<lparr>first_run_time := time s\<rparr> else ?p"
  let ?rem = "remaining_time ?p - run"
  let ?ps = "(procs s)[idx := ?p1\<lparr>remaining_time := ?rem\<rparr>]"
  obtain q' inq' where e: "enqueue_arrived ?ps (time s + run) [0..<length ?ps] rest (in_queue s) = (q', inq')"
    by (cases "enqueue_arrived ?ps (time s + run) [0..<length ?ps] rest (in_queue s)")
  have r: "remaining_time ?p1 = remaining_time ?p" by simp
  have "rr_run quantum s idx rest = Some \<lparr>procs = (procs s)[idx := served (time s) run ?p],
       ready = (if ?rem = 0 then q' else q' @ [idx]), in_queue = inq',
       time = time s + run, completed = (if ?rem = 0 then completed s + 1 else completed s)\<rparr>"
    using e c q(2) unfolding rr_run_def served_def Let_def r q(1) [symmetric] by simp
  moreover have "arrival_time (?ps ! i) = arrival_time (procs s ! i) \<and>
        remaining_time (?ps ! i) = remaining_time ((procs s)[idx := served (time s) run ?p] ! i)" if "i < length ?ps" for i
    using that by (cases "i = idx") auto
  ultimately show ?thesis using that [of ?ps q' inq'] e by simp
qed

lemma rr_run_inv:
  assumes inv: "rr_inv M st s" and ready: "ready s = idx # rest" and pos: "0 < quantum"
  shows "\<exists>s'. rr_run quantum s idx rest = Some s' \<and> rr_inv M st s' \<and> rr_measure M s' < rr_measure M s"
proof -
  let ?p = "procs s ! idx" and ?n = "length (procs s)"
  define run where "run = min quantum (remaining_time ?p)"
  have q: "queue_ok s" and p: "\<forall>p\<in>set (procs s). proc_ok M (time s) p" using inv by (simp_all add: rr_inv_def)
  have sr: "insert idx (set rest) = {i. i < ?n \<and> in_queue s ! i \<and> remaining_time (procs s ! i) > 0}"
    "distinct (idx # rest)" using q ready by (auto simp: queue_ok_def)
  have "idx \<in> insert idx (set rest)" by simp
  then have idx: "idx < ?n" "in_queue s ! idx" "0 < remaining_time ?p" unfolding sr(1) by auto
  have arr: "arrival_time ?p \<le> time s" using q idx by (simp add: queue_ok_def)
  have pk: "proc_ok M (time s) ?p" using p idx by simp
  have run: "0 < run" "run \<le> remaining_time ?p" using pos idx by (auto simp: run_def)
  let ?ps' = "(procs s)[idx := served (time s) run ?p]"
  note wb = work_bounds [OF p]
  have b: "0 \<le> time s" "0 \<le> M" "time s + work (procs s) \<le> M + demand (procs s)" "M + demand (procs s) \<le> INT_MAX"
    "completed s = int (card {i. i < ?n \<and> remaining_time (procs s ! i) = 0})"
    using inv unfolding rr_inv_def by blast+
  let ?D = "{i. i < ?n \<and> remaining_time (procs s ! i) = 0}"
  have "?D \<subseteq> {..<?n} - {idx}" using idx(3) by auto
  then have "card ?D \<le> card ({..<?n} - {idx})" by (intro card_mono) auto
  then have cn: "card ?D < ?n" using idx(1) by (simp add: card_Diff_singleton)
  have wp: "remaining_time ?p \<le> work (procs s)" using wb(4) idx(1) by simp
  have c1: "chk (remaining_time ?p - run) = Some (remaining_time ?p - run)"
    using wp run b wb by (simp add: chk_def in_int_def)
  have c2: "chk (time s + run) = Some (time s + run)" using wp run b by (simp add: chk_def in_int_def)
  have c3: "chk (completed s + 1) = Some (completed s + 1)" using cn wb(3) b by (simp add: chk_def in_int_def)
  obtain ps q' inq' where ps: "length ps = ?n"
    "\<And>i. i < length ps \<Longrightarrow> arrival_time (ps ! i) = arrival_time (procs s ! i) \<and> remaining_time (ps ! i) = remaining_time (?ps' ! i)"
    and e: "enqueue_arrived ps (time s + run) [0..<length ps] rest (in_queue s) = (q', inq')"
    and res: "rr_run quantum s idx rest = Some \<lparr>procs = ?ps',
       ready = (if remaining_time ?p - run = 0 then q' else q' @ [idx]), in_queue = inq',
       time = time s + run, completed = (if remaining_time ?p - run = 0 then completed s + 1 else completed s)\<rparr>"
    using rr_run_eq [OF run_def idx(1) c1 c2 c3] by metis
  have rem: "remaining_time (ps ! i) = (if i = idx then remaining_time ?p - run else remaining_time (procs s ! i))"
    if "i < ?n" for i using ps that by (simp add: nth_list_update)
  let ?r = "if remaining_time ?p - run = 0 then q' else q' @ [idx]"
  have "queue_ok \<lparr>procs = ps, ready = ?r, in_queue = inq', time = time s + run, completed = 0\<rparr>"
  proof (rule queue_ok_arrivals [OF _ _ _ _ _ _ e, where x = idx and told = "time s"])
    show "length (in_queue s) = length ps" using q ps(1) by (simp add: queue_ok_def)
    show "distinct rest" using sr(2) by simp
    show "set rest = {i. i < length ps \<and> i \<noteq> idx \<and> in_queue s ! i \<and> remaining_time (ps ! i) > 0}"
    proof -
      have "set rest = insert idx (set rest) - {idx}" using sr(2) by auto
      also have "\<dots> = {i. i < length ps \<and> i \<noteq> idx \<and> in_queue s ! i \<and> remaining_time (ps ! i) > 0}"
        unfolding sr(1) using rem ps(1) by auto
      finally show ?thesis .
    qed
    show "\<forall>i<length ps. in_queue s ! i \<longrightarrow> arrival_time (ps ! i) \<le> time s"
      using q ps unfolding queue_ok_def by simp
    show "?r = (if idx < length ps \<and> remaining_time (ps ! idx) > 0 then q' @ [idx] else q')"
      using rem [OF idx(1)] idx(1) ps(1) run(2) by simp
  qed (use run idx in auto)
  note qp = this
  have ar: "arrival_time (?ps' ! i) = arrival_time (ps ! i) \<and> remaining_time (?ps' ! i) = remaining_time (ps ! i)"
    if "i < length ps" for i using ps(2) [OF that] that ps(1) by (cases "i = idx") simp_all
  have q2: "queue_ok \<lparr>procs = ?ps', ready = ?r, in_queue = inq', time = time s + run, completed = c\<rparr>" for c
    by (rule queue_ok_cong [OF qp _ ar]) (simp_all add: ps(1))
  have st: "map static ?ps' = map static (procs s)" using idx(1) by (simp add: map_update list_update_same_conv)
  then have dm: "demand ?ps' = demand (procs s)" by (simp add: demand_static)
  have pr: "\<forall>p\<in>set ?ps'. proc_ok M (time s + run) p"
    using p proc_ok_mono [of M "time s" _ "time s + run"] run(1) served_ok [OF pk arr run]
    by (auto dest!: set_update_subset_insert [THEN subsetD])
  have w: "work ?ps' = work (procs s) - run" using work_update [OF idx(1)] by simp
  have cD: "int (card {i. i < length ?ps' \<and> remaining_time (?ps' ! i) = 0}) =
      (if remaining_time ?p - run = 0 then completed s + 1 else completed s)"
  proof -
    have "{i. i < length ?ps' \<and> remaining_time (?ps' ! i) = 0} = (if remaining_time ?p - run = 0 then insert idx ?D else ?D)"
      using idx by (auto simp: nth_list_update)
    then show ?thesis using b(5) idx(3) by simp
  qed
  let ?s' = "\<lparr>procs = ?ps', ready = ?r, in_queue = inq', time = time s + run,
    completed = (if remaining_time ?p - run = 0 then completed s + 1 else completed s)\<rparr>"
  have f: "time s + run + work ?ps' \<le> M + demand ?ps'" "M + demand ?ps' \<le> INT_MAX" "0 \<le> time s + run"
    using w dm b run by linarith+
  have st': "map static ?ps' = st" using st inv by (simp add: rr_inv_def)
  have "rr_inv M st ?s'"
    unfolding rr_inv_def rr_state.select_convs
    by (intro conjI) (rule st' q2 pr cD [symmetric] f b(2))+
  moreover have "0 \<le> work ?ps'" by (rule work_bounds(1) [OF pr])
  then have "rr_measure M ?s' < rr_measure M s" using w run(1) by (simp add: rr_measure_def)
  ultimately show ?thesis using res by blast
qed

lemma rr_loop_spec:
  assumes "0 < quantum"
  shows "rr_inv M st s \<Longrightarrow> \<exists>s'. rr_loop quantum s = Some s' \<and> rr_inv M st s' \<and> int (length (procs s')) \<le> completed s'"
proof (induction "rr_measure M s" arbitrary: s rule: less_induct)
  case less
  show ?case
  proof (cases "completed s < int (length (procs s))")
    case False
    then show ?thesis using less.prems by (subst rr_loop.simps) simp
  next
    case True
    obtain s1 where s1: "rr_step quantum s = Some s1" "rr_inv M st s1" "rr_measure M s1 < rr_measure M s"
    proof (cases "ready s")
      case Nil
      then show ?thesis using that rr_idle_inv [OF less.prems True] by (auto simp: rr_step_def)
    next
      case (Cons idx rest)
      then show ?thesis using that rr_run_inv [OF less.prems _ assms] by (fastforce simp: rr_step_def)
    qed
    then show ?thesis using less.hyps [OF s1(3,2)] True by (subst rr_loop.simps) simp
  qed
qed

lemma enqueue_initial_eq:
  "\<forall>i\<in>set is. i < length inq \<Longrightarrow> enqueue_initial ps now is q inq =
     (q @ filter (\<lambda>i. arrival_time (ps ! i) \<le> now) is,
      map (\<lambda>i. inq ! i \<or> i \<in> set is \<and> arrival_time (ps ! i) \<le> now) [0..<length inq])"
proof (induction "is" arbitrary: q inq)
  case Nil
  then show ?case by (simp add: map_nth)
next
  case (Cons i "is")
  show ?case
  proof (cases "arrival_time (ps ! i) \<le> now")
    case True
    have "map (\<lambda>j. inq[i := True] ! j \<or> j \<in> set is \<and> arrival_time (ps ! j) \<le> now) [0..<length inq] =
        map (\<lambda>j. inq ! j \<or> j \<in> set (i # is) \<and> arrival_time (ps ! j) \<le> now) [0..<length inq]"
    proof (rule map_cong)
      fix j assume "j \<in> set [0..<length inq]"
      then show "(inq[i := True] ! j \<or> j \<in> set is \<and> arrival_time (ps ! j) \<le> now) =
          (inq ! j \<or> j \<in> set (i # is) \<and> arrival_time (ps ! j) \<le> now)"
        using True by (cases "j = i") auto
    qed simp
    then show ?thesis using True Cons.IH [of "inq[i := True]" "q @ [i]"] Cons.prems by simp
  next
    case False
    have "map (\<lambda>j. inq ! j \<or> j \<in> set is \<and> arrival_time (ps ! j) \<le> now) [0..<length inq] =
        map (\<lambda>j. inq ! j \<or> j \<in> set (i # is) \<and> arrival_time (ps ! j) \<le> now) [0..<length inq]"
      using False by (intro map_cong) auto
    then show ?thesis using False Cons.IH [of inq q] Cons.prems by simp
  qed
qed

lemma rr_start_inv:
  assumes "\<forall>p\<in>set ps. new_process M p" "0 \<le> M" "M + demand ps \<le> INT_MAX"
  shows "rr_inv M (map static ps) (rr_start ps)"
proof -
  let ?n = "length ps"
  have p: "new_process M (ps ! i)" if "i < ?n" for i using assms(1) that by simp
  have s: "rr_start ps = \<lparr>procs = ps, ready = filter (\<lambda>i. arrival_time (ps ! i) \<le> 0) [0..<?n],
     in_queue = map (\<lambda>i. arrival_time (ps ! i) \<le> 0) [0..<?n], time = 0, completed = 0\<rparr>"
    by (simp add: rr_start_def enqueue_initial_eq cong: map_cong)
  have q: "queue_ok (rr_start ps)" unfolding s queue_ok_def using p by (auto simp: new_process_def)
  have ok: "\<forall>p\<in>set ps. proc_ok M 0 p" using assms(1) by (auto simp: new_process_def proc_ok_def)
  have "{i. i < ?n \<and> remaining_time (ps ! i) = 0} = {}" using p by (force simp: new_process_def)
  moreover have "work ps = demand ps" using assms(1) unfolding work_def demand_def
    by (intro arg_cong [where f = sum_list] map_cong) (auto simp: new_process_def)
  ultimately show ?thesis using q ok assms(2,3) unfolding rr_inv_def by (simp add: s)
qed

lemma totals_ok:
  "\<forall>p\<in>set ps. in_int (completion_time p - arrival_time p) \<and> in_int (completion_time p - arrival_time p - burst_time p) \<Longrightarrow>
   \<exists>r. totals ps a b = Some r"
  by (induction ps arbitrary: a b) (auto simp: chk_def)

text \<open>
  Claim: for any sorting function that permutes, any quantum of at least 1 and new processes whose
  arrivals and total burst fit an int, roundRobin returns: every process has run to the end, it
  first ran no earlier than it arrived, completed no earlier than its first run plus its burst (so
  its waiting time is not negative), and no later than the last arrival plus the total burst. What
  identifies the processes is unchanged.
\<close>
theorem roundRobin_correct:
  assumes "mset (sort_procs ps) = mset ps" "0 < quantum" "\<forall>p\<in>set ps. new_process M p"
    "0 \<le> M" "M + demand ps \<le> INT_MAX"
  shows "\<exists>r. roundRobin sort_procs ps quantum = Some r \<and> map static (processes r) = map static (sort_procs ps) \<and>
    (\<forall>p\<in>set (processes r). remaining_time p = 0 \<and> arrival_time p \<le> first_run_time p \<and>
       first_run_time p + burst_time p \<le> completion_time p \<and> completion_time p \<le> M + demand ps)"
proof -
  let ?ps = "sort_procs ps"
  have "set ?ps = set ps" using assms(1) by (metis set_mset_mset)
  moreover have dm: "demand ?ps = demand ps"
    unfolding demand_def using assms(1) by (metis mset_map sum_mset_sum_list)
  ultimately have "rr_inv M (map static ?ps) (rr_start ?ps)"
    using assms by (intro rr_start_inv) simp_all
  then obtain s where s: "rr_loop quantum (rr_start ?ps) = Some s" "rr_inv M (map static ?ps) s"
      "int (length (procs s)) \<le> completed s"
    using rr_loop_spec [OF assms(2)] by blast
  have st: "map static (procs s) = map static ?ps" and ok: "\<forall>p\<in>set (procs s). proc_ok M (time s) p"
    and t: "time s + work (procs s) \<le> M + demand (procs s)" using s(2) unfolding rr_inv_def by blast+
  have dm2: "demand (procs s) = demand ps" using st dm by (simp add: demand_static)
  have fin: "remaining_time p = 0" if "p \<in> set (procs s)" for p
  proof (rule ccontr)
    assume nz: "remaining_time p \<noteq> 0"
    obtain i where i: "i < length (procs s)" "procs s ! i = p" using \<open>p \<in> set (procs s)\<close> by (auto simp: in_set_conv_nth)
    let ?D = "{i. i < length (procs s) \<and> remaining_time (procs s ! i) = 0}"
    have "?D \<subseteq> {..<length (procs s)} - {i}" using nz i by auto
    then have "card ?D \<le> card ({..<length (procs s)} - {i})" by (intro card_mono) auto
    then have "card ?D < length (procs s)" using i by (simp add: card_Diff_singleton)
    moreover have "completed s = int (card ?D)" using s(2) unfolding rr_inv_def by blast
    ultimately show False using s(3) by simp
  qed
  have post: "remaining_time p = 0 \<and> arrival_time p \<le> first_run_time p \<and>
       first_run_time p + burst_time p \<le> completion_time p \<and> completion_time p \<le> M + demand ps \<and> 0 \<le> arrival_time p \<and> 0 < burst_time p"
    if p: "p \<in> set (procs s)" for p
  proof -
    have "proc_ok M (time s) p" "remaining_time p = 0" using ok p fin by auto
    moreover have "time s \<le> M + demand ps" using t work_bounds(1) [OF ok] dm2 by linarith
    ultimately show ?thesis by (auto simp: proc_ok_def)
  qed
  then have "\<forall>p\<in>set (procs s). in_int (completion_time p - arrival_time p) \<and>
      in_int (completion_time p - arrival_time p - burst_time p)"
    using assms(5) by (fastforce simp: in_int_def)
  then obtain tat wt where "totals (procs s) 0 0 = Some (tat, wt)" using totals_ok by fastforce
  then have "roundRobin sort_procs ps quantum = Some \<lparr>processes = procs s, total_tat = tat, total_wt = wt\<rparr>"
    using s(1) by (simp add: roundRobin_def)
  then show ?thesis using st post by auto
qed

theorem roundRobin_correct_witness:
  "\<exists>r. roundRobin rev [Process 1 0 3 1 3, Process 2 9 2 1 2] 2 = Some r \<and>
    map static (processes r) = map static (rev [Process 1 0 3 1 3, Process 2 9 2 1 2]) \<and>
    (\<forall>p\<in>set (processes r). remaining_time p = 0 \<and> arrival_time p \<le> first_run_time p \<and>
       first_run_time p + burst_time p \<le> completion_time p \<and> completion_time p \<le> 14)"
  using roundRobin_correct [of rev "[Process 1 0 3 1 3, Process 2 9 2 1 2]" 2 9]
  by (simp add: new_process_def Process_def demand_def)

section \<open>Priority scheduling\<close>

text \<open>Index i goes before index j: smaller priority number, or the same and an earlier position.\<close>

definition before :: "process list \<Rightarrow> nat \<Rightarrow> nat \<Rightarrow> bool" where
  "before ps i j \<longleftrightarrow> priority (ps ! i) < priority (ps ! j) \<or> priority (ps ! i) = priority (ps ! j) \<and> i < j"

lemma pick_best_spec:
  assumes "sorted_wrt (<) (case best of None \<Rightarrow> is | Some b \<Rightarrow> b # is)"
    "\<forall>b. best = Some b \<longrightarrow> \<not> dn ! b \<and> arrival_time (ps ! b) \<le> now"
  shows "case pick_best ps dn now is best of
      None \<Rightarrow> best = None \<and> (\<forall>i\<in>set is. \<not> dn ! i \<longrightarrow> now < arrival_time (ps ! i))
    | Some r \<Rightarrow> r \<in> set is \<union> set_option best \<and> \<not> dn ! r \<and> arrival_time (ps ! r) \<le> now \<and>
        (\<forall>i\<in>set is \<union> set_option best. \<not> dn ! i \<and> arrival_time (ps ! i) \<le> now \<longrightarrow> i = r \<or> before ps r i)"
  using assms
proof (induction "is" arbitrary: best)
  case Nil
  then show ?case by (cases best) auto
next
  case (Cons i "is")
  let ?E = "\<lambda>i. \<not> dn ! i \<and> arrival_time (ps ! i) \<le> now"
  show ?case
  proof (cases "?E i \<and> (case best of None \<Rightarrow> True | Some b \<Rightarrow> priority (ps ! i) < priority (ps ! b))")
    case True
    have ih: "case pick_best ps dn now is (Some i) of None \<Rightarrow> Some i = None \<and> (\<forall>i\<in>set is. \<not> dn ! i \<longrightarrow> now < arrival_time (ps ! i))
      | Some r \<Rightarrow> r \<in> set is \<union> {i} \<and> ?E r \<and> (\<forall>j\<in>set is \<union> {i}. ?E j \<longrightarrow> j = r \<or> before ps r j)"
      using Cons.IH [of "Some i"] Cons.prems True by (simp split: option.splits)
    have "before ps r b" if "best = Some b" "i = r \<or> before ps r i" for r b
      using that True Cons.prems(1) by (auto simp: before_def)
    then show ?thesis using ih True by (auto split: option.splits)
  next
    case False
    have "case pick_best ps dn now is best of None \<Rightarrow> best = None \<and> (\<forall>i\<in>set is. \<not> dn ! i \<longrightarrow> now < arrival_time (ps ! i))
      | Some r \<Rightarrow> r \<in> set is \<union> set_option best \<and> ?E r \<and> (\<forall>j\<in>set is \<union> set_option best. ?E j \<longrightarrow> j = r \<or> before ps r j)"
      using Cons.IH [of best] Cons.prems by (auto split: option.splits)
    moreover have "pick_best ps dn now (i # is) best = pick_best ps dn now is best" using False by auto
    moreover have "before ps r i" if "best = Some b" "?E i" "b = r \<or> before ps r b" for r b
      using that False Cons.prems(1) by (auto simp: before_def)
    moreover have "\<forall>b. best = Some b \<longrightarrow> ?E b" using Cons.prems(2) .
    ultimately show ?thesis using False by (auto split: option.splits)
  qed
qed

definition prio_inv :: "int \<Rightarrow> process list \<Rightarrow> prio_state \<Rightarrow> bool" where
  "prio_inv M ps0 s \<longleftrightarrow> (let ps = pprocs s; dn = done_flags s; n = length ps in
     map static ps = map static ps0 \<and> length dn = n \<and> 0 \<le> ptime s \<and>
     (\<forall>i<n. 0 \<le> arrival_time (ps ! i) \<and> arrival_time (ps ! i) \<le> M \<and> 0 < burst_time (ps ! i)) \<and>
     (\<forall>i<n. dn ! i \<longrightarrow> arrival_time (ps ! i) \<le> first_run_time (ps ! i) \<and> remaining_time (ps ! i) = 0 \<and>
        completion_time (ps ! i) = first_run_time (ps ! i) + burst_time (ps ! i) \<and> completion_time (ps ! i) \<le> ptime s) \<and>
     (\<forall>i<n. \<forall>j<n. dn ! i \<and> \<not> dn ! j \<and> arrival_time (ps ! j) \<le> first_run_time (ps ! i) \<longrightarrow> before ps i j) \<and>
     (\<forall>i<n. \<forall>j<n. i \<noteq> j \<and> dn ! i \<and> dn ! j \<longrightarrow>
        (completion_time (ps ! i) \<le> first_run_time (ps ! j) \<or> completion_time (ps ! j) \<le> first_run_time (ps ! i)) \<and>
        (arrival_time (ps ! j) \<le> first_run_time (ps ! i) \<and> first_run_time (ps ! i) < first_run_time (ps ! j) \<longrightarrow> before ps i j)))"

definition open_procs :: "prio_state \<Rightarrow> nat set" where
  "open_procs s = {i. i < length (pprocs s) \<and> \<not> done_flags s ! i}"

definition open_work :: "prio_state \<Rightarrow> int" where
  "open_work s = (\<Sum>i\<in>open_procs s. burst_time (pprocs s ! i))"

definition prio_bound :: "int \<Rightarrow> prio_state \<Rightarrow> bool" where
  "prio_bound M s \<longleftrightarrow> ptime s + open_work s \<le> M + demand (pprocs s) \<and> M + demand (pprocs s) \<le> INT_MAX \<and> 0 \<le> M \<and>
     pcompleted s + int (card (open_procs s)) = int (length (pprocs s)) \<and> int (length (pprocs s)) \<le> INT_MAX"

lemma finite_open [simp]: "finite (open_procs s)"
  by (simp add: open_procs_def)

lemma prio_invD:
  assumes "prio_inv M ps0 s"
  shows "map static (pprocs s) = map static ps0" "length (done_flags s) = length (pprocs s)" "0 \<le> ptime s"
    "i < length (pprocs s) \<Longrightarrow> 0 \<le> arrival_time (pprocs s ! i) \<and> arrival_time (pprocs s ! i) \<le> M \<and> 0 < burst_time (pprocs s ! i)"
    "i < length (pprocs s) \<Longrightarrow> done_flags s ! i \<Longrightarrow> arrival_time (pprocs s ! i) \<le> first_run_time (pprocs s ! i) \<and>
       remaining_time (pprocs s ! i) = 0 \<and> completion_time (pprocs s ! i) = first_run_time (pprocs s ! i) + burst_time (pprocs s ! i) \<and>
       completion_time (pprocs s ! i) \<le> ptime s"
    "i < length (pprocs s) \<Longrightarrow> j < length (pprocs s) \<Longrightarrow> done_flags s ! i \<Longrightarrow> \<not> done_flags s ! j \<Longrightarrow>
       arrival_time (pprocs s ! j) \<le> first_run_time (pprocs s ! i) \<Longrightarrow> before (pprocs s) i j"
    "i < length (pprocs s) \<Longrightarrow> j < length (pprocs s) \<Longrightarrow> i \<noteq> j \<Longrightarrow> done_flags s ! i \<Longrightarrow> done_flags s ! j \<Longrightarrow>
       (completion_time (pprocs s ! i) \<le> first_run_time (pprocs s ! j) \<or> completion_time (pprocs s ! j) \<le> first_run_time (pprocs s ! i)) \<and>
       (arrival_time (pprocs s ! j) \<le> first_run_time (pprocs s ! i) \<and> first_run_time (pprocs s ! i) < first_run_time (pprocs s ! j) \<longrightarrow>
          before (pprocs s) i j)"
  using assms unfolding prio_inv_def Let_def by blast+

lemma prio_inv_later:
  assumes "prio_inv M ps0 s" "ptime s \<le> t"
  shows "prio_inv M ps0 (s\<lparr>ptime := t\<rparr>)"
proof -
  have "\<forall>i<length (pprocs s). done_flags s ! i \<longrightarrow> arrival_time (pprocs s ! i) \<le> first_run_time (pprocs s ! i) \<and>
       remaining_time (pprocs s ! i) = 0 \<and> completion_time (pprocs s ! i) = first_run_time (pprocs s ! i) + burst_time (pprocs s ! i) \<and>
       completion_time (pprocs s ! i) \<le> t"
    using prio_invD(5) [OF assms(1)] assms(2) by (meson order_trans)
  moreover have "0 \<le> t" using prio_invD(3) [OF assms(1)] assms(2) by simp
  moreover have e: "pprocs (s\<lparr>ptime := t\<rparr>) = pprocs s" "done_flags (s\<lparr>ptime := t\<rparr>) = done_flags s" "ptime (s\<lparr>ptime := t\<rparr>) = t"
    by simp_all
  ultimately show ?thesis using assms(1) unfolding prio_inv_def Let_def e by blast
qed

lemma open_work_le:
  assumes "prio_inv M ps0 s"
  shows "open_work s \<le> demand (pprocs s)" "0 \<le> open_work s"
    "i \<in> open_procs s \<Longrightarrow> burst_time (pprocs s ! i) \<le> open_work s"
proof -
  have b: "0 \<le> burst_time (pprocs s ! i)" if "i < length (pprocs s)" for i
    using prio_invD(4) [OF assms that] by simp
  have "demand (pprocs s) = (\<Sum>i<length (pprocs s). burst_time (pprocs s ! i))"
    by (simp add: demand_def sum_list_sum_nth atLeast0LessThan)
  then show "open_work s \<le> demand (pprocs s)"
    unfolding open_work_def using b by (auto simp: open_procs_def intro!: sum_mono2)
  show "0 \<le> open_work s" unfolding open_work_def using b by (auto simp: open_procs_def intro!: sum_nonneg)
  show "i \<in> open_procs s \<Longrightarrow> burst_time (pprocs s ! i) \<le> open_work s"
    unfolding open_work_def using b by (auto simp: open_procs_def intro!: member_le_sum)
qed

text \<open>The state after process b has run to completion.\<close>

definition ran :: "prio_state \<Rightarrow> nat \<Rightarrow> prio_state" where
  "ran s b = \<lparr>pprocs = (pprocs s)[b := (pprocs s ! b)\<lparr>first_run_time := ptime s,
       completion_time := ptime s + burst_time (pprocs s ! b), remaining_time := 0\<rparr>],
     done_flags = (done_flags s)[b := True], ptime = ptime s + burst_time (pprocs s ! b), pcompleted = pcompleted s + 1\<rparr>"

lemma ran_nth:
  assumes "b < length (pprocs s)" "length (done_flags s) = length (pprocs s)"
  shows "length (pprocs (ran s b)) = length (pprocs s)" "length (done_flags (ran s b)) = length (pprocs s)"
    "i < length (pprocs s) \<Longrightarrow> done_flags (ran s b) ! i \<longleftrightarrow> i = b \<or> done_flags s ! i"
    "arrival_time (pprocs (ran s b) ! i) = arrival_time (pprocs s ! i)"
    "burst_time (pprocs (ran s b) ! i) = burst_time (pprocs s ! i)"
    "priority (pprocs (ran s b) ! i) = priority (pprocs s ! i)"
    "first_run_time (pprocs (ran s b) ! i) = (if i = b then ptime s else first_run_time (pprocs s ! i))"
    "completion_time (pprocs (ran s b) ! i) = (if i = b then ptime s + burst_time (pprocs s ! b) else completion_time (pprocs s ! i))"
    "remaining_time (pprocs (ran s b) ! i) = (if i = b then 0 else remaining_time (pprocs s ! i))"
    "before (pprocs (ran s b)) i j = before (pprocs s) i j"
    "map static (pprocs (ran s b)) = map static (pprocs s)" "ptime (ran s b) = ptime s + burst_time (pprocs s ! b)"
proof -
  show pr: "priority (pprocs (ran s b) ! i) = priority (pprocs s ! i)" for i
    using assms by (cases "i = b") (simp_all add: ran_def)
  then show "before (pprocs (ran s b)) i j = before (pprocs s) i j" by (simp add: before_def)
  show "map static (pprocs (ran s b)) = map static (pprocs s)"
    using assms(1) by (simp add: ran_def map_update list_update_same_conv static_def)
  show "arrival_time (pprocs (ran s b) ! i) = arrival_time (pprocs s ! i)"
    "burst_time (pprocs (ran s b) ! i) = burst_time (pprocs s ! i)"
    "first_run_time (pprocs (ran s b) ! i) = (if i = b then ptime s else first_run_time (pprocs s ! i))"
    "completion_time (pprocs (ran s b) ! i) = (if i = b then ptime s + burst_time (pprocs s ! b) else completion_time (pprocs s ! i))"
    "remaining_time (pprocs (ran s b) ! i) = (if i = b then 0 else remaining_time (pprocs s ! i))"
    using assms by (cases "i = b"; simp add: ran_def)+
  show "i < length (pprocs s) \<Longrightarrow> done_flags (ran s b) ! i \<longleftrightarrow> i = b \<or> done_flags s ! i"
    using assms by (cases "i = b") (simp_all add: ran_def)
qed (use assms in \<open>simp_all add: ran_def\<close>)

lemma ran_inv:
  assumes inv: "prio_inv M ps0 s" and b: "b \<in> open_procs s" "arrival_time (pprocs s ! b) \<le> ptime s"
    and best: "\<And>i. i \<in> open_procs s \<Longrightarrow> arrival_time (pprocs s ! i) \<le> ptime s \<Longrightarrow> i = b \<or> before (pprocs s) b i"
  shows "prio_inv M ps0 (ran s b)"
proof -
  have bl: "b < length (pprocs s)" "\<not> done_flags s ! b" using b by (auto simp: open_procs_def)
  note r = ran_nth [OF bl(1) prio_invD(2) [OF inv]]
  note D = prio_invD [OF inv]
  have bb: "0 < burst_time (pprocs s ! b)" using D(4) bl(1) by simp
  have other: "first_run_time (pprocs s ! i) < ptime s \<and> completion_time (pprocs s ! i) \<le> ptime s"
    if "i < length (pprocs s)" "done_flags s ! i" for i
    using D(5) [OF that] D(4) [OF that(1)] by linarith
  show ?thesis
    unfolding prio_inv_def Let_def r(1)
  proof (intro conjI allI impI)
    fix i j assume i: "i < length (pprocs s)" and j: "j < length (pprocs s)"
    { assume "done_flags (ran s b) ! i \<and> \<not> done_flags (ran s b) ! j \<and>
        arrival_time (pprocs (ran s b) ! j) \<le> first_run_time (pprocs (ran s b) ! i)"
      then show "before (pprocs (ran s b)) i j"
        using D(6) [OF i j] best [of j] j i by (cases "i = b") (auto simp: r open_procs_def) }
    { assume a: "i \<noteq> j \<and> done_flags (ran s b) ! i \<and> done_flags (ran s b) ! j"
      then have d: "i = b \<or> done_flags s ! i" "j = b \<or> done_flags s ! j" using i j r(3) by auto
      show "completion_time (pprocs (ran s b) ! i) \<le> first_run_time (pprocs (ran s b) ! j) \<or>
        completion_time (pprocs (ran s b) ! j) \<le> first_run_time (pprocs (ran s b) ! i)"
        using a d D(7) [OF i j] other [OF i] other [OF j] unfolding r(7,8) by auto
      assume f: "arrival_time (pprocs (ran s b) ! j) \<le> first_run_time (pprocs (ran s b) ! i) \<and>
        first_run_time (pprocs (ran s b) ! i) < first_run_time (pprocs (ran s b) ! j)"
      show "before (pprocs (ran s b)) i j"
        using a d f D(7) [OF i j] D(6) [OF i j] other [OF i] other [OF j] bl unfolding r(4,7,10)
        by (auto split: if_splits) }
  next
    fix i assume i: "i < length (pprocs s)" and d: "done_flags (ran s b) ! i"
    then have "i = b \<or> done_flags s ! i" using r(3) by simp
    then show "arrival_time (pprocs (ran s b) ! i) \<le> first_run_time (pprocs (ran s b) ! i)"
      "remaining_time (pprocs (ran s b) ! i) = 0"
      "completion_time (pprocs (ran s b) ! i) = first_run_time (pprocs (ran s b) ! i) + burst_time (pprocs (ran s b) ! i)"
      "completion_time (pprocs (ran s b) ! i) \<le> ptime (ran s b)"
      using D(5) [OF i] b(2) bb unfolding r(4,5,7,8,9,12) by (auto split: if_splits)
  qed (use D(1,3,4) bb r in auto)
qed

definition prio_measure :: "int \<Rightarrow> prio_state \<Rightarrow> nat" where
  "prio_measure M s = nat (open_work s) + nat (M - ptime s)"

lemma prio_step_inv:
  assumes inv: "prio_inv M ps0 s" "prio_bound M s" and more: "pcompleted s < int (length (pprocs s))"
  shows "\<exists>s'. prio_step s = Some s' \<and> prio_inv M ps0 s' \<and> prio_bound M s' \<and> prio_measure M s' < prio_measure M s"
proof -
  note D = prio_invD [OF inv(1)] and W = open_work_le [OF inv(1)]
  have B: "ptime s + open_work s \<le> M + demand (pprocs s)" "M + demand (pprocs s) \<le> INT_MAX" "0 \<le> M"
     "pcompleted s + int (card (open_procs s)) = int (length (pprocs s))" "int (length (pprocs s)) \<le> INT_MAX"
    using inv(2) unfolding prio_bound_def by blast+
  let ?pick = "pick_best (pprocs s) (done_flags s) (ptime s) [0..<length (pprocs s)] None"
  have pick: "case ?pick of None \<Rightarrow> (\<forall>i\<in>open_procs s. ptime s < arrival_time (pprocs s ! i))
    | Some b \<Rightarrow> b \<in> open_procs s \<and> arrival_time (pprocs s ! b) \<le> ptime s \<and>
       (\<forall>i\<in>open_procs s. arrival_time (pprocs s ! i) \<le> ptime s \<longrightarrow> i = b \<or> before (pprocs s) b i)"
    using pick_best_spec [of "[0..<length (pprocs s)]" None "done_flags s" "pprocs s" "ptime s"]
    by (auto simp: open_procs_def split: option.splits)
  show ?thesis
  proof (cases ?pick)
    case None
    have "card (open_procs s) \<noteq> 0" using more B(4) by linarith
    then obtain i where i: "i \<in> open_procs s" by fastforce
    then have "ptime s < arrival_time (pprocs s ! i)" "arrival_time (pprocs s ! i) \<le> M"
      using pick None D(4) [of i] by (auto simp: open_procs_def)
    then have lt: "ptime s < M" by linarith
    let ?s = "s\<lparr>ptime := ptime s + 1\<rparr>"
    have o: "open_procs ?s = open_procs s" "open_work ?s = open_work s" by (simp_all add: open_procs_def open_work_def)
    have "chk (ptime s + 1) = Some (ptime s + 1)" using lt B W D(3) by (simp add: chk_def in_int_def)
    then have "prio_step s = Some ?s" using None by (simp add: prio_step_def)
    moreover have "prio_inv M ps0 ?s" by (rule prio_inv_later [OF inv(1)]) simp
    moreover have "prio_bound M ?s" using B W lt o by (simp add: prio_bound_def)
    moreover have "prio_measure M ?s < prio_measure M s" using lt o by (simp add: prio_measure_def)
    ultimately show ?thesis by blast
  next
    case (Some b)
    have b: "b \<in> open_procs s" "arrival_time (pprocs s ! b) \<le> ptime s"
      "\<And>i. i \<in> open_procs s \<Longrightarrow> arrival_time (pprocs s ! i) \<le> ptime s \<Longrightarrow> i = b \<or> before (pprocs s) b i"
      using pick Some by auto
    have bl: "b < length (pprocs s)" "0 < burst_time (pprocs s ! b)" using b(1) D(4) by (auto simp: open_procs_def)
    note r = ran_nth [OF bl(1) D(2)]
    have inv': "prio_inv M ps0 (ran s b)" by (rule ran_inv [OF inv(1) b])
    have op: "open_procs (ran s b) = open_procs s - {b}" using r(1,3) by (auto simp: open_procs_def)
    have ow: "open_work (ran s b) = open_work s - burst_time (pprocs s ! b)"
      using b(1) by (simp add: open_work_def op r(5) sum_diff1)
    have ca: "int (card (open_procs (ran s b))) = int (card (open_procs s)) - 1"
    proof -
      have "0 < card (open_procs s)" using b(1) card_gt_0_iff finite_open by blast
      then show ?thesis using b(1) unfolding op by (simp add: card_Diff_singleton of_nat_diff)
    qed
    have dm: "demand (pprocs (ran s b)) = demand (pprocs s)" unfolding demand_static r(11) ..
    have "card (open_procs s) \<le> card {..<length (pprocs s)}" by (rule card_mono) (auto simp: open_procs_def)
    then have "0 \<le> pcompleted s" using B(4) by simp
    then have c: "chk (ptime s + burst_time (pprocs s ! b)) = Some (ptime s + burst_time (pprocs s ! b))"
      "chk (pcompleted s + 1) = Some (pcompleted s + 1)"
      using B W(3) [OF b(1)] D(3) bl(2) ca more by (simp_all add: chk_def in_int_def)
    have "prio_step s = Some (ran s b)" using Some c by (simp add: prio_step_def ran_def)
    moreover have "prio_bound M (ran s b)"
      using B ow dm ca r(1,12) unfolding prio_bound_def by (simp add: ran_def)
    moreover have "prio_measure M (ran s b) < prio_measure M s"
      using open_work_le(2) [OF inv'] ow bl(2) r(12) by (simp add: prio_measure_def)
    ultimately show ?thesis using inv' by blast
  qed
qed

lemma prio_loop_spec:
  "prio_inv M ps0 s \<Longrightarrow> prio_bound M s \<Longrightarrow>
   \<exists>s'. prio_loop s = Some s' \<and> prio_inv M ps0 s' \<and> prio_bound M s' \<and> int (length (pprocs s')) \<le> pcompleted s'"
proof (induction "prio_measure M s" arbitrary: s rule: less_induct)
  case less
  show ?case
  proof (cases "pcompleted s < int (length (pprocs s))")
    case False
    then show ?thesis using less.prems by (subst prio_loop.simps) simp
  next
    case True
    obtain s1 where s1: "prio_step s = Some s1" "prio_inv M ps0 s1" "prio_bound M s1" "prio_measure M s1 < prio_measure M s"
      using prio_step_inv [OF less.prems True] by blast
    then show ?thesis using less.hyps [OF s1(4,2,3)] True by (subst prio_loop.simps) simp
  qed
qed

text \<open>
  Claim: for processes whose arrivals and total burst fit an int, priorityScheduling returns a
  schedule in which every process starts no earlier than it arrives and runs its whole burst
  without interruption, no two processes run at once, and whenever a process starts while another
  one that starts later has already arrived, it goes before that one in priority (ties go to the
  smaller index).
\<close>
theorem priorityScheduling_correct:
  assumes "\<forall>p\<in>set ps. new_process M p" "0 \<le> M" "M + demand ps \<le> INT_MAX"
  shows "\<exists>r. priorityScheduling ps = Some r \<and> map static (processes r) = map static ps \<and>
    (\<forall>p\<in>set (processes r). arrival_time p \<le> first_run_time p \<and> completion_time p = first_run_time p + burst_time p) \<and>
    (\<forall>i<length ps. \<forall>j<length ps. i \<noteq> j \<longrightarrow>
       (completion_time (processes r ! i) \<le> first_run_time (processes r ! j) \<or>
        completion_time (processes r ! j) \<le> first_run_time (processes r ! i)) \<and>
       (arrival_time (processes r ! j) \<le> first_run_time (processes r ! i) \<and>
        first_run_time (processes r ! i) < first_run_time (processes r ! j) \<longrightarrow> before (processes r) i j))"
proof -
  let ?s = "prio_start ps"
  have ok: "\<forall>p\<in>set ps. proc_ok M 0 p" using assms(1) by (auto simp: new_process_def proc_ok_def)
  have inv: "prio_inv M ps ?s" using assms(1) by (auto simp: prio_inv_def prio_start_def new_process_def)
  have o: "open_procs ?s = {..<length ps}" by (auto simp: open_procs_def prio_start_def)
  have "prio_bound M ?s"
    using open_work_le(1) [OF inv] work_bounds(3) [OF ok] assms(2,3) o
    unfolding prio_bound_def by (simp add: prio_start_def)
  then obtain s where s: "prio_loop ?s = Some s" "prio_inv M ps s" "prio_bound M s" "int (length (pprocs s)) \<le> pcompleted s"
    using prio_loop_spec [OF inv] by blast
  note D = prio_invD [OF s(2)]
  have len: "length (pprocs s) = length ps" using D(1) map_eq_imp_length_eq by blast
  have "card (open_procs s) = 0" using s(3,4) unfolding prio_bound_def by linarith
  then have all: "done_flags s ! i" if "i < length ps" for i using that by (auto simp: open_procs_def len)
  have each: "arrival_time p \<le> first_run_time p \<and> completion_time p = first_run_time p + burst_time p \<and>
      completion_time p \<le> INT_MAX \<and> 0 \<le> arrival_time p \<and> 0 < burst_time p" if p: "p \<in> set (pprocs s)" for p
  proof -
    obtain i where i: "i < length ps" "p = pprocs s ! i" using p by (auto simp: in_set_conv_nth len)
    have "ptime s \<le> INT_MAX" using s(3) open_work_le(2) [OF s(2)] unfolding prio_bound_def by linarith
    then show ?thesis using D(5) [of i] D(4) [of i] all i len by auto
  qed
  then have "\<forall>p\<in>set (pprocs s). in_int (completion_time p - arrival_time p) \<and>
      in_int (completion_time p - arrival_time p - burst_time p)"
    by (fastforce simp: in_int_def)
  then obtain tat wt where "totals (pprocs s) 0 0 = Some (tat, wt)" using totals_ok by fastforce
  then have "priorityScheduling ps = Some \<lparr>processes = pprocs s, total_tat = tat, total_wt = wt\<rparr>"
    using s(1) by (simp add: priorityScheduling_def)
  moreover have "(completion_time (pprocs s ! i) \<le> first_run_time (pprocs s ! j) \<or>
        completion_time (pprocs s ! j) \<le> first_run_time (pprocs s ! i)) \<and>
       (arrival_time (pprocs s ! j) \<le> first_run_time (pprocs s ! i) \<and>
        first_run_time (pprocs s ! i) < first_run_time (pprocs s ! j) \<longrightarrow> before (pprocs s) i j)"
    if "i < length ps" "j < length ps" "i \<noteq> j" for i j
    using D(7) [of i j] all that len by simp
  ultimately show ?thesis using D(1) each by auto
qed

theorem priorityScheduling_correct_witness:
  "\<exists>r. priorityScheduling [Process 1 0 3 2 3, Process 2 1 2 1 2] = Some r \<and>
    map static (processes r) = map static [Process 1 0 3 2 3, Process 2 1 2 1 2] \<and>
    (\<forall>p\<in>set (processes r). arrival_time p \<le> first_run_time p \<and> completion_time p = first_run_time p + burst_time p)"
proof -
  have "\<forall>p\<in>set [Process 1 0 3 2 3, Process 2 1 2 1 2]. new_process 1 p" "(0 :: int) \<le> 1"
    "1 + demand [Process 1 0 3 2 3, Process 2 1 2 1 2] \<le> INT_MAX"
    by (simp_all add: new_process_def Process_def demand_def)
  from priorityScheduling_correct [OF this] show ?thesis by blast
qed

end
