(* ===== verification/Merge_Sort.thy ===== *)
theory Merge_Sort
  imports Prelude
begin

text \<open>
  src/src/dsa/merge_sort.cpp: merge sort on a vector that counts the inversions it removes. The
  comparison operator of the element type is the argument le. The count is a mathematical integer:
  a vector indexed by int has fewer than 2 ^ 62 inversions, so long long does not wrap.
\<close>

section \<open>Definitions\<close>

function merge_loop :: "('a \<Rightarrow> 'a \<Rightarrow> bool) \<Rightarrow> 'a list \<Rightarrow> int \<Rightarrow> int \<Rightarrow> int \<Rightarrow> int \<Rightarrow> 'a list \<Rightarrow> int \<Rightarrow> (int \<times> int \<times> 'a list \<times> int) ub" where
  "merge_loop le arr i mid j right temp inversions =
     (if i \<le> mid \<and> j \<le> right then do {
        x \<leftarrow> vget arr i;
        y \<leftarrow> vget arr j;
        if le x y then merge_loop le arr (i + 1) mid j right (temp @ [x]) inversions
        else merge_loop le arr i mid (j + 1) right (temp @ [y]) (inversions + (mid - i + 1)) }
      else Some (i, j, temp, inversions))"
  by pat_completeness auto

termination merge_loop
  by (relation "measure (\<lambda>(le, arr, i, mid, j, right, _). nat (mid + 1 - i) + nat (right + 1 - j))") auto

declare merge_loop.simps [simp del]

function append_loop :: "'a list \<Rightarrow> int \<Rightarrow> int \<Rightarrow> 'a list \<Rightarrow> 'a list ub" where
  "append_loop arr i hi temp =
     (if i \<le> hi then do { x \<leftarrow> vget arr i; append_loop arr (i + 1) hi (temp @ [x]) } else Some temp)"
  by pat_completeness auto

termination append_loop
  by (relation "measure (\<lambda>(arr, i, hi, _). nat (hi + 1 - i))") auto

declare append_loop.simps [simp del]

fun copy_into :: "'a list \<Rightarrow> int \<Rightarrow> 'a list \<Rightarrow> 'a list ub" where
  "copy_into arr k [] = Some arr"
| "copy_into arr k (x # xs) = do { arr' \<leftarrow> vset arr k x; copy_into arr' (k + 1) xs }"

definition merge_and_count :: "('a \<Rightarrow> 'a \<Rightarrow> bool) \<Rightarrow> 'a list \<Rightarrow> int \<Rightarrow> int \<Rightarrow> int \<Rightarrow> (int \<times> 'a list) ub" where
  "merge_and_count le arr left mid right = do {
     (i, j, temp, inversions) \<leftarrow> merge_loop le arr left mid (mid + 1) right [] 0;
     temp \<leftarrow> append_loop arr i mid temp;
     temp \<leftarrow> append_loop arr j right temp;
     arr' \<leftarrow> copy_into arr left temp;
     Some (inversions, arr') }"

function merge_sort_range :: "('a \<Rightarrow> 'a \<Rightarrow> bool) \<Rightarrow> 'a list \<Rightarrow> int \<Rightarrow> int \<Rightarrow> (int \<times> 'a list) ub" where
  "merge_sort_range le arr left right =
     (if left \<ge> right then Some (0, arr)
      else do {
        let mid = left + (right - left) div 2;
        r1 \<leftarrow> merge_sort_range le arr left mid;
        r2 \<leftarrow> merge_sort_range le (snd r1) (mid + 1) right;
        r3 \<leftarrow> merge_and_count le (snd r2) left mid right;
        Some (fst r1 + fst r2 + fst r3, snd r3) })"
  by pat_completeness auto

termination merge_sort_range
  by (relation "measure (\<lambda>(le, arr, left, right). nat (right - left))") auto

declare merge_sort_range.simps [simp del]

definition merge_sort :: "('a \<Rightarrow> 'a \<Rightarrow> bool) \<Rightarrow> 'a list \<Rightarrow> (int \<times> 'a list) ub" where
  "merge_sort le arr = (
     if arr = [] then Some (0, arr)
     else do { r \<leftarrow> chk (int (length arr) - 1); merge_sort_range le arr 0 r })"

definition is_sorted :: "int list \<Rightarrow> bool" where
  "is_sorted xs \<longleftrightarrow> (\<forall>i<length xs. 0 < i \<longrightarrow> xs ! (i - 1) \<le> xs ! i)"

definition merge_sort_main :: "(int list \<times> int list \<times> int) ub" where
  "merge_sort_main = do {
     let arr1 = [38, 27, 43, 3, 9, 82, 10];
     (inv1, s1) \<leftarrow> merge_sort (\<le>) arr1;
     guard (is_sorted s1);
     (inv2, s2) \<leftarrow> merge_sort (\<le>) [1, 2, 3, 4, 5];
     guard (inv2 = 0 \<and> is_sorted s2);
     (inv3, s3) \<leftarrow> merge_sort (\<le>) [5, 4, 3, 2, 1];
     guard (inv3 = 10 \<and> is_sorted s3);
     (_, s4) \<leftarrow> merge_sort_range (\<lambda>a b. fst a \<le> fst b) [(3 :: int, 0 :: int), (1, 1), (3, 2), (1, 3), (2, 4)] 0 4;
     guard (s4 ! 0 = (1, 1) \<and> s4 ! 1 = (1, 3) \<and> fst (s4 ! 2) = 2 \<and> s4 ! 3 = (3, 0) \<and> s4 ! 4 = (3, 2));
     Some (arr1, s1, inv1) }"

lemma merge_sort_main_output: "merge_sort_main = Some ([38, 27, 43, 3, 9, 82, 10], [3, 9, 10, 27, 38, 43, 82], 11)"
  by code_simp

section \<open>Merging lists\<close>

fun mrg :: "('a \<Rightarrow> 'a \<Rightarrow> bool) \<Rightarrow> 'a list \<Rightarrow> 'a list \<Rightarrow> 'a list" where
  "mrg le [] ys = ys"
| "mrg le (x # xs) [] = x # xs"
| "mrg le (x # xs) (y # ys) = (if le x y then x # mrg le xs (y # ys) else y # mrg le (x # xs) ys)"

fun skipped :: "('a \<Rightarrow> 'a \<Rightarrow> bool) \<Rightarrow> 'a list \<Rightarrow> 'a list \<Rightarrow> nat" where
  "skipped le [] ys = 0"
| "skipped le (x # xs) [] = 0"
| "skipped le (x # xs) (y # ys) = (if le x y then skipped le xs (y # ys) else length (x # xs) + skipped le (x # xs) ys)"

text \<open>The inversions of a list, and those between two lists.\<close>

definition cross :: "('a \<Rightarrow> 'k::linorder) \<Rightarrow> 'a list \<Rightarrow> 'a list \<Rightarrow> nat" where
  "cross key xs ys = sum_list (map (\<lambda>x. length (filter (\<lambda>y. key y < key x) ys)) xs)"

fun inversions_of :: "('a \<Rightarrow> 'k::linorder) \<Rightarrow> 'a list \<Rightarrow> nat" where
  "inversions_of key [] = 0"
| "inversions_of key (x # xs) = length (filter (\<lambda>y. key y < key x) xs) + inversions_of key xs"

lemma inversions_append: "inversions_of key (xs @ ys) = inversions_of key xs + inversions_of key ys + cross key xs ys"
  by (induction xs) (auto simp: cross_def)

lemma cross_perm: "mset xs = mset xs' \<Longrightarrow> mset ys = mset ys' \<Longrightarrow> cross key xs ys = cross key xs' ys'"
proof -
  assume m: "mset xs = mset xs'" "mset ys = mset ys'"
  have "length (filter P ys) = length (filter P ys')" for P
    using m(2) by (metis mset_filter size_mset)
  moreover have "sum_list (map f xs) = sum_list (map f xs')" for f :: "'a \<Rightarrow> nat"
    using m(1) by (metis mset_map sum_mset_sum_list)
  ultimately show ?thesis by (simp add: cross_def)
qed

lemma cross_Cons_right: "cross key xs (y # ys) = length (filter (\<lambda>x. key y < key x) xs) + cross key xs ys"
  by (induction xs) (auto simp: cross_def)

lemma skipped_cross: "sorted (map key xs) \<Longrightarrow> sorted (map key ys) \<Longrightarrow> skipped (\<lambda>a b. key a \<le> key b) xs ys = cross key xs ys"
proof (induction "\<lambda>a b. key a \<le> key b" xs ys rule: skipped.induct)
  case (3 x xs y ys)
  show ?case
  proof (cases "key x \<le> key y")
    case True
    then have "filter (\<lambda>z. key z < key x) (y # ys) = []" using "3.prems"(2) by (auto simp: filter_empty_conv)
    then show ?thesis using 3 True by (simp add: cross_def)
  next
    case False
    then have "filter (\<lambda>z. key y < key z) (x # xs) = x # xs" using "3.prems"(1) by (fastforce simp: filter_id_conv)
    then show ?thesis using 3 False by (simp add: cross_Cons_right del: filter.simps)
  qed
qed (simp_all add: cross_def)

lemma mset_mrg: "mset (mrg le xs ys) = mset xs + mset ys"
  by (induction le xs ys rule: mrg.induct) auto

lemma length_mrg [simp]: "length (mrg le xs ys) = length xs + length ys"
  by (induction le xs ys rule: mrg.induct) auto

lemma sorted_mrg:
  "sorted (map key xs) \<Longrightarrow> sorted (map key ys) \<Longrightarrow> sorted (map key (mrg (\<lambda>a b. key a \<le> key b) xs ys))"
proof (induction "\<lambda>a b. key a \<le> key b" xs ys rule: mrg.induct)
  case (3 x xs y ys)
  have s: "set (mrg (\<lambda>a b. key a \<le> key b) us vs) = set us \<union> set vs" for us vs
    by (metis mset_mrg set_mset_mset set_mset_union)
  show ?case using 3 by (auto simp: s)
qed auto

lemma stable_mrg:
  "sorted (map key xs) \<Longrightarrow>
   filter (\<lambda>z. key z = k) (mrg (\<lambda>a b. key a \<le> key b) xs ys) = filter (\<lambda>z. key z = k) xs @ filter (\<lambda>z. key z = k) ys"
proof (induction "\<lambda>a b. key a \<le> key b" xs ys rule: mrg.induct)
  case (3 x xs y ys)
  show ?case
  proof (cases "key x \<le> key y")
    case True
    then show ?thesis using 3 by auto
  next
    case False
    then have "\<forall>z\<in>set (x # xs). key y < key z" using "3.prems" by auto
    then have "filter (\<lambda>z. key z = k) (x # xs) = []" if "key y = k" using that by (force simp: filter_empty_conv)
    then show ?thesis using 3 False by auto
  qed
qed auto

lemma mrg_sort_key:
  "mrg (\<lambda>a b. key a \<le> key b) (sort_key key xs) (sort_key key ys) = sort_key key (xs @ ys)"
proof (rule properties_for_sort_key [symmetric])
  show "mset (mrg (\<lambda>a b. key a \<le> key b) (sort_key key xs) (sort_key key ys)) = mset (xs @ ys)"
    by (simp add: mset_mrg)
  show "sorted (map key (mrg (\<lambda>a b. key a \<le> key b) (sort_key key xs) (sort_key key ys)))"
    by (rule sorted_mrg) simp_all
  fix k
  have c: "(\<lambda>x. key k = key x) = (\<lambda>z. key z = key k)" by auto
  show "filter (\<lambda>x. key k = key x) (mrg (\<lambda>a b. key a \<le> key b) (sort_key key xs) (sort_key key ys)) =
      filter (\<lambda>x. key k = key x) (xs @ ys)"
    unfolding c by (simp add: stable_mrg sort_key_stable)
qed

section \<open>The loops on slices of the vector\<close>

definition slice_at :: "'a list \<Rightarrow> int \<Rightarrow> 'a list \<Rightarrow> bool" where
  "slice_at arr i xs \<longleftrightarrow> 0 \<le> i \<and> (\<exists>pre suf. arr = pre @ xs @ suf \<and> length pre = nat i)"

lemma slice_Cons: "slice_at arr i (x # xs) \<Longrightarrow> vget arr i = Some x \<and> slice_at arr (i + 1) xs"
proof -
  assume "slice_at arr i (x # xs)"
  then obtain pre suf where a: "0 \<le> i" "arr = pre @ x # xs @ suf" "length pre = nat i" by (auto simp: slice_at_def)
  have "vget arr i = Some x" using a by (simp add: vget_def nth_append)
  moreover have "arr = (pre @ [x]) @ xs @ suf" "length (pre @ [x]) = nat (i + 1)" using a by (simp_all add: nat_add_distrib)
  ultimately show ?thesis using a(1) unfolding slice_at_def by (metis add_increasing2 zero_le_one)
qed

lemma append_loop_eq:
  "slice_at arr i xs \<Longrightarrow> hi = i + int (length xs) - 1 \<Longrightarrow> append_loop arr i hi temp = Some (temp @ xs)"
proof (induction xs arbitrary: i temp)
  case Nil
  then show ?case by (subst append_loop.simps) simp
next
  case (Cons x xs)
  then show ?case using slice_Cons [OF Cons.prems(1)] Cons.IH [of "i + 1" "temp @ [x]"]
    by (subst append_loop.simps) simp
qed

lemma merge_loop_eq:
  "slice_at arr i xs \<Longrightarrow> slice_at arr j ys \<Longrightarrow> mid = i + int (length xs) - 1 \<Longrightarrow> right = j + int (length ys) - 1 \<Longrightarrow>
   \<exists>i' j' xs' ys' out. merge_loop le arr i mid j right temp n = Some (i', j', temp @ out, n + int (skipped le xs ys)) \<and>
     slice_at arr i' xs' \<and> slice_at arr j' ys' \<and> mid = i' + int (length xs') - 1 \<and> right = j' + int (length ys') - 1 \<and>
     mrg le xs ys = out @ xs' @ ys'"
proof (induction le xs ys arbitrary: i j temp n rule: mrg.induct)
  case (1 le ys)
  then show ?case by (subst merge_loop.simps) force
next
  case (2 le x xs)
  then show ?case by (subst merge_loop.simps) force
next
  case (3 le x xs y ys)
  have x: "vget arr i = Some x" "slice_at arr (i + 1) xs" using slice_Cons [OF "3.prems"(1)] by blast+
  have y: "vget arr j = Some y" "slice_at arr (j + 1) ys" using slice_Cons [OF "3.prems"(2)] by blast+
  show ?case
  proof (cases "le x y")
    case True
    have "merge_loop le arr i mid j right temp n = merge_loop le arr (i + 1) mid j right (temp @ [x]) n"
      using x y True "3.prems"(3,4) by (subst merge_loop.simps) simp
    moreover obtain i' j' xs' ys' out where
      "merge_loop le arr (i + 1) mid j right (temp @ [x]) n = Some (i', j', (temp @ [x]) @ out, n + int (skipped le xs (y # ys)))"
      "slice_at arr i' xs'" "slice_at arr j' ys'" "mid = i' + int (length xs') - 1" "right = j' + int (length ys') - 1"
      "mrg le xs (y # ys) = out @ xs' @ ys'"
      using "3.IH"(1) [OF True x(2) "3.prems"(2), of "temp @ [x]" n] "3.prems"(3,4) by auto
    ultimately show ?thesis using True
      by (intro exI [of _ i'] exI [of _ j'] exI [of _ xs'] exI [of _ ys'] exI [of _ "x # out"]) simp
  next
    case False
    have "merge_loop le arr i mid j right temp n =
        merge_loop le arr i mid (j + 1) right (temp @ [y]) (n + int (length (x # xs)))"
      using x y False "3.prems"(3,4) by (subst merge_loop.simps) (simp add: add.commute)
    moreover obtain i' j' xs' ys' out where
      "merge_loop le arr i mid (j + 1) right (temp @ [y]) (n + int (length (x # xs))) =
         Some (i', j', (temp @ [y]) @ out, n + int (length (x # xs)) + int (skipped le (x # xs) ys))"
      "slice_at arr i' xs'" "slice_at arr j' ys'" "mid = i' + int (length xs') - 1" "right = j' + int (length ys') - 1"
      "mrg le (x # xs) ys = out @ xs' @ ys'"
      using "3.IH"(2) [OF False "3.prems"(1) y(2), of "temp @ [y]" "n + int (length (x # xs))"] "3.prems"(3,4) by auto
    ultimately show ?thesis using False
      by (intro exI [of _ i'] exI [of _ j'] exI [of _ xs'] exI [of _ ys'] exI [of _ "y # out"]) simp
  qed
qed

lemma copy_into_eq:
  "length ys = length xs \<Longrightarrow> copy_into (pre @ ys @ suf) (int (length pre)) xs = Some (pre @ xs @ suf)"
proof (induction xs arbitrary: pre ys)
  case (Cons x xs)
  then obtain y ys' where y: "ys = y # ys'" by (cases ys) auto
  have "(pre @ y # ys' @ suf)[length pre := x] = (pre @ [x]) @ ys' @ suf" by simp
  then show ?case using Cons.IH [of ys' "pre @ [x]"] Cons.prems y by (simp add: add.commute)
qed simp

lemma merge_and_count_eq:
  assumes "left = int (length pre)" "mid = left + int (length xs) - 1" "right = left + int (length xs) + int (length ys) - 1"
  shows "merge_and_count le (pre @ xs @ ys @ suf) left mid right =
    Some (int (skipped le xs ys), pre @ mrg le xs ys @ suf)"
proof -
  let ?arr = "pre @ xs @ ys @ suf"
  have "?arr = pre @ xs @ (ys @ suf)" "length pre = nat left" "0 \<le> left" using assms by simp_all
  then have x: "slice_at ?arr left xs" unfolding slice_at_def by blast
  have "?arr = (pre @ xs) @ ys @ suf" "length (pre @ xs) = nat (mid + 1)" "0 \<le> mid + 1" using assms by simp_all
  then have y: "slice_at ?arr (mid + 1) ys" unfolding slice_at_def by blast
  obtain i' j' xs' ys' out where m: "merge_loop le ?arr left mid (mid + 1) right [] 0 = Some (i', j', out, int (skipped le xs ys))"
    "slice_at ?arr i' xs'" "slice_at ?arr j' ys'" "mid = i' + int (length xs') - 1" "right = j' + int (length ys') - 1"
    "mrg le xs ys = out @ xs' @ ys'"
    using merge_loop_eq [OF x y assms(2), of right le "[]" 0] assms by auto
  have "copy_into (pre @ (xs @ ys) @ suf) (int (length pre)) (mrg le xs ys) = Some (pre @ mrg le xs ys @ suf)"
    by (rule copy_into_eq) simp
  then show ?thesis
    using m append_loop_eq [OF m(2,4)] append_loop_eq [OF m(3,5)] assms(1) by (simp add: merge_and_count_def)
qed

lemma merge_sort_range_eq:
  "left = int (length pre) \<Longrightarrow> right = left + int (length xs) - 1 \<Longrightarrow>
   merge_sort_range (\<lambda>a b. key a \<le> key b) (pre @ xs @ suf) left right =
     Some (int (inversions_of key xs), pre @ sort_key key xs @ suf)"
proof (induction "length xs" arbitrary: xs pre suf left right rule: less_induct)
  case less
  let ?le = "\<lambda>a b. key a \<le> key b"
  show ?case
  proof (cases "length xs \<le> 1")
    case True
    then have "xs = [] \<or> (\<exists>x. xs = [x])" by (cases xs; cases "tl xs") auto
    then show ?thesis using less.prems by (subst merge_sort_range.simps) auto
  next
    case False
    define m where "m = nat ((right - left) div 2) + 1"
    define ys zs where "ys = take m xs" and "zs = drop m xs"
    have m: "0 < m" "m < length xs" using less.prems False by (auto simp: m_def)
    have xs: "xs = ys @ zs" "length ys = m" "length ys < length xs" "length zs < length xs"
      using m by (auto simp: ys_def zs_def)
    define mid where "mid = left + (right - left) div 2"
    have "0 \<le> right - left" using less.prems(2) False by linarith
    then have "0 \<le> (right - left) div 2" by simp
    then have mid: "mid = left + int (length ys) - 1" by (simp add: mid_def xs(2) m_def)
    have right: "right = mid + 1 + int (length zs) - 1" using less.prems xs(1) mid by simp
    have 1: "merge_sort_range ?le (pre @ xs @ suf) left mid = Some (int (inversions_of key ys), pre @ sort_key key ys @ zs @ suf)"
      using less.hyps [OF xs(3) less.prems(1) mid, of "zs @ suf"] xs(1) by simp
    have 2: "merge_sort_range ?le (pre @ sort_key key ys @ zs @ suf) (mid + 1) right =
        Some (int (inversions_of key zs), pre @ sort_key key ys @ sort_key key zs @ suf)"
      using less.hyps [OF xs(4) _ right, of "pre @ sort_key key ys" suf] less.prems(1) mid by simp
    have 3: "merge_and_count ?le (pre @ sort_key key ys @ sort_key key zs @ suf) left mid right =
        Some (int (skipped ?le (sort_key key ys) (sort_key key zs)), pre @ mrg ?le (sort_key key ys) (sort_key key zs) @ suf)"
      using less.prems(1) mid right by (intro merge_and_count_eq) simp_all
    have "skipped ?le (sort_key key ys) (sort_key key zs) = cross key ys zs"
      using skipped_cross [of key "sort_key key ys" "sort_key key zs"] cross_perm [of "sort_key key ys" ys "sort_key key zs" zs key]
      by simp
    moreover have "\<not> right \<le> left" using less.prems(2) False by linarith
    then have "merge_sort_range ?le (pre @ xs @ suf) left right = do {
        r1 \<leftarrow> merge_sort_range ?le (pre @ xs @ suf) left mid;
        r2 \<leftarrow> merge_sort_range ?le (snd r1) (mid + 1) right;
        r3 \<leftarrow> merge_and_count ?le (snd r2) left mid right;
        Some (fst r1 + fst r2 + fst r3, snd r3) }"
      by (subst merge_sort_range.simps) (simp add: Let_def mid_def)
    ultimately show ?thesis by (simp add: 1 2 3 mrg_sort_key inversions_append) (simp add: xs(1) inversions_append)
  qed
qed

lemma inversions_card:
  "inversions_of key xs = card {(i, j). i < j \<and> j < length xs \<and> key (xs ! j) < key (xs ! i)}"
proof (induction xs)
  case (Cons x xs)
  let ?J = "{j. j < length xs \<and> key (xs ! j) < key x}"
  let ?S = "{(i, j). i < j \<and> j < length xs \<and> key (xs ! j) < key (xs ! i)}"
  let ?f = "\<lambda>(i, j). (Suc i, Suc j)" and ?g = "\<lambda>j. (0 :: nat, Suc j)"
  have "p \<in> {(i, j). i < j \<and> j < length (x # xs) \<and> key ((x # xs) ! j) < key ((x # xs) ! i)} \<longleftrightarrow>
      p \<in> ?g ` ?J \<union> ?f ` ?S" for p
  proof (cases p)
    case (Pair i j)
    show ?thesis
    proof (cases j)
      case 0
      then show ?thesis by (auto simp: Pair)
    next
      case (Suc j')
      then show ?thesis by (cases i) (auto simp: Pair image_iff)
    qed
  qed
  then have e: "{(i, j). i < j \<and> j < length (x # xs) \<and> key ((x # xs) ! j) < key ((x # xs) ! i)} = ?g ` ?J \<union> ?f ` ?S"
    by blast
  have fin: "finite ?S" by (rule finite_subset [of _ "{..<length xs} \<times> {..<length xs}"]) auto
  have "card (?g ` ?J \<union> ?f ` ?S) = card (?g ` ?J) + card (?f ` ?S)"
    using fin by (intro card_Un_disjoint) auto
  also have "card (?g ` ?J) = card ?J" by (intro card_image inj_onI) simp
  also have "card (?f ` ?S) = card ?S" by (intro card_image inj_onI) auto
  also have "card ?J = length (filter (\<lambda>y. key y < key x) xs)" by (simp add: length_filter_conv_card)
  finally show ?case unfolding e using Cons.IH by simp
qed simp

text \<open>
  Claim: for an element type compared by a key, merge_sort never leaves the vector, returns the
  stably sorted vector and the number of its inversions: pairs of positions whose elements are out
  of order.
\<close>
theorem merge_sort_correct:
  assumes "int (length arr) \<le> INT_MAX"
  shows "merge_sort (\<lambda>a b. key a \<le> key b) arr =
    Some (int (card {(i, j). i < j \<and> j < length arr \<and> key (arr ! j) < key (arr ! i)}), sort_key key arr)"
proof (cases "arr = []")
  case False
  then have "chk (int (length arr) - 1) = Some (int (length arr) - 1)" using assms by (simp add: chk_def in_int_def)
  then show ?thesis using False merge_sort_range_eq [of 0 "[]" "int (length arr) - 1" arr key "[]"]
    by (simp add: merge_sort_def inversions_card)
qed (simp add: merge_sort_def)

theorem merge_sort_correct_witness:
  "merge_sort (\<lambda>a b. fst a \<le> fst b) [(3 :: int, ''x''), (1, ''y''), (3, ''z''), (1, ''w'')] =
    Some (int (card {(i, j). i < j \<and> j < Suc (Suc (Suc (Suc 0))) \<and>
        fst ([(3 :: int, ''x''), (1, ''y''), (3, ''z''), (1, ''w'')] ! j) < fst ([(3 :: int, ''x''), (1, ''y''), (3, ''z''), (1, ''w'')] ! i)}),
      [(1, ''y''), (1, ''w''), (3, ''x''), (3, ''z'')])"
  using merge_sort_correct [of "[(3 :: int, ''x''), (1, ''y''), (3, ''z''), (1, ''w'')]" fst] by simp

end
