(* ===== verification/Longest_Common_Subsequence.thy ===== *)
theory Longest_Common_Subsequence
  imports Prelude "HOL-Library.Sublist"
begin

text \<open>
  src/src/dsa/longest_common_subsequence.cpp: the full dynamic program with reconstruction and the
  length-only version with two rows.
\<close>

section \<open>Definitions\<close>

definition lcs_cell :: "string \<Rightarrow> string \<Rightarrow> int list list \<Rightarrow> int \<Rightarrow> int \<Rightarrow> int ub" where
  "lcs_cell a b dp i j = do {
     ca \<leftarrow> vget a (i - 1);
     cb \<leftarrow> vget b (j - 1);
     if ca = cb then do { x \<leftarrow> get2 dp (i - 1) (j - 1); chk (x + 1) }
     else do { x \<leftarrow> get2 dp (i - 1) j; y \<leftarrow> get2 dp i (j - 1); Some (max x y) } }"

function fill_row :: "string \<Rightarrow> string \<Rightarrow> int list list \<Rightarrow> int \<Rightarrow> int \<Rightarrow> int \<Rightarrow> int list list ub" where
  "fill_row a b dp i j n =
     (if j \<le> n then do {
        v \<leftarrow> lcs_cell a b dp i j;
        dp' \<leftarrow> set2 dp i j v;
        fill_row a b dp' i (j + 1) n }
      else Some dp)"
  by pat_completeness auto

termination fill_row
  by (relation "measure (\<lambda>(a, b, dp, i, j, n). nat (n + 1 - j))") auto

function fill_rows :: "string \<Rightarrow> string \<Rightarrow> int list list \<Rightarrow> int \<Rightarrow> int \<Rightarrow> int \<Rightarrow> int list list ub" where
  "fill_rows a b dp i m n =
     (if i \<le> m then do { dp' \<leftarrow> fill_row a b dp i 1 n; fill_rows a b dp' (i + 1) m n } else Some dp)"
  by pat_completeness auto

termination fill_rows
  by (relation "measure (\<lambda>(a, b, dp, i, m, n). nat (m + 1 - i))") auto

function backtrack :: "string \<Rightarrow> string \<Rightarrow> int list list \<Rightarrow> int \<Rightarrow> int \<Rightarrow> string \<Rightarrow> string ub" where
  "backtrack a b dp i j res =
     (if i > 0 \<and> j > 0 then do {
        ca \<leftarrow> vget a (i - 1);
        cb \<leftarrow> vget b (j - 1);
        if ca = cb then backtrack a b dp (i - 1) (j - 1) (res @ [ca])
        else do {
          x \<leftarrow> get2 dp (i - 1) j;
          y \<leftarrow> get2 dp i (j - 1);
          if x > y then backtrack a b dp (i - 1) j res else backtrack a b dp i (j - 1) res } }
      else Some res)"
  by pat_completeness auto

termination backtrack
  by (relation "measure (\<lambda>(a, b, dp, i, j, res). nat i + nat j)") auto

declare fill_row.simps [simp del] fill_rows.simps [simp del] backtrack.simps [simp del]

definition lcs_with_sequence :: "string \<Rightarrow> string \<Rightarrow> string ub" where
  "lcs_with_sequence a b = do {
     m \<leftarrow> chk (int (length a));
     n \<leftarrow> chk (int (length b));
     m1 \<leftarrow> chk (m + 1);
     n1 \<leftarrow> chk (n + 1);
     dp \<leftarrow> fill_rows a b (replicate (nat m1) (replicate (nat n1) 0)) 1 m n;
     res \<leftarrow> backtrack a b dp m n [];
     Some (rev res) }"

text \<open>The two-row version: one pass over the row for each character of the longer string.\<close>

function row_loop :: "char \<Rightarrow> string \<Rightarrow> int list \<Rightarrow> int list \<Rightarrow> int \<Rightarrow> int \<Rightarrow> int list ub" where
  "row_loop ca b prev cur j n =
     (if j \<le> n then do {
        cb \<leftarrow> vget b (j - 1);
        v \<leftarrow> (if ca = cb then do { x \<leftarrow> vget prev (j - 1); chk (x + 1) }
              else do { x \<leftarrow> vget prev j; y \<leftarrow> vget cur (j - 1); Some (max x y) });
        cur' \<leftarrow> vset cur j v;
        row_loop ca b prev cur' (j + 1) n }
      else Some cur)"
  by pat_completeness auto

termination row_loop
  by (relation "measure (\<lambda>(ca, b, prev, cur, j, n). nat (n + 1 - j))") auto

declare row_loop.simps [simp del]

fun rows_loop :: "string \<Rightarrow> string \<Rightarrow> int list \<Rightarrow> int list \<Rightarrow> int \<Rightarrow> int list ub" where
  "rows_loop [] b prev cur n = Some prev"
| "rows_loop (ca # a) b prev cur n = do {
     cur' \<leftarrow> row_loop ca b prev cur 1 n;
     rows_loop a b cur' (replicate (length prev) 0) n }"

definition lcs_length :: "string \<Rightarrow> string \<Rightarrow> int ub" where
  "lcs_length a b = do {
     let (a, b) = (if length a < length b then (b, a) else (a, b));
     n \<leftarrow> chk (int (length b));
     n1 \<leftarrow> chk (n + 1);
     prev \<leftarrow> rows_loop a b (replicate (nat n1) 0) (replicate (nat n1) 0) n;
     vget prev n }"

definition lcs_main :: "(string \<times> string) ub" where
  "lcs_main = do {
     lcs \<leftarrow> lcs_with_sequence ''ABCBDAB'' ''BDCABA'';
     guard (length lcs = 4);
     l1 \<leftarrow> lcs_length ''ABCBDAB'' ''BDCABA'';
     guard (l1 = 4);
     l2 \<leftarrow> lcs_length ''abc'' ''abc'';
     guard (l2 = 3);
     l3 \<leftarrow> lcs_length ''abc'' ''xyz'';
     guard (l3 = 0);
     l4 \<leftarrow> lcs_length '''' ''abc'';
     guard (l4 = 0);
     common \<leftarrow> lcs_with_sequence ''int main() { return 0; }'' ''int main() { return 1; }'';
     Some (lcs, common) }"

lemma lcs_main_output: "lcs_main = Some (''BDAB'', ''int main() { return ; }'')"
  by code_simp

section \<open>The recurrence and its optimality\<close>

fun L :: "string \<Rightarrow> string \<Rightarrow> nat \<Rightarrow> nat \<Rightarrow> int" where
  "L a b 0 j = 0"
| "L a b (Suc i) 0 = 0"
| "L a b (Suc i) (Suc j) = (if a ! i = b ! j then L a b i j + 1 else max (L a b i (Suc j)) (L a b (Suc i) j))"

lemma L_0_right [simp]: "L a b i 0 = 0"
  by (cases i) auto

lemma L_bounds: "0 \<le> L a b i j" "L a b i j \<le> int i" "L a b i j \<le> int j"
  by (induction a b i j rule: L.induct) auto

lemma L_sym: "L a b i j = L b a j i"
  by (induction a b i j rule: L.induct) auto

lemma subseq_single: "subseq zs [y] \<longleftrightarrow> zs = [] \<or> zs = [y]"
  by (cases zs) (auto elim: list_emb.cases)

lemma subseq_snoc: "subseq (xs @ [x]) (ys @ [y]) \<longleftrightarrow> x = y \<and> subseq xs ys \<or> subseq (xs @ [x]) ys"
  unfolding subseq_append_iff [of "xs @ [x]" ys "[y]"] subseq_single by force

lemma subseq_butlast: "subseq (xs @ [x]) ys \<Longrightarrow> subseq xs ys"
  using subseq_order.trans [of xs "xs @ [x]" ys] subseq_rev_drop_many [of xs xs "[x]"] by simp

lemma L_optimal:
  "i \<le> length a \<Longrightarrow> j \<le> length b \<Longrightarrow> subseq s (take i a) \<Longrightarrow> subseq s (take j b) \<Longrightarrow> int (length s) \<le> L a b i j"
proof (induction a b i j arbitrary: s rule: L.induct)
  case (3 a b i j)
  have t: "take (Suc i) a = take i a @ [a ! i]" "take (Suc j) b = take j b @ [b ! j]"
    using "3.prems" by (simp_all add: take_Suc_conv_app_nth)
  show ?case
  proof (cases s rule: rev_cases)
    case Nil
    then show ?thesis using L_bounds(1) [of a b "Suc i" "Suc j"] by simp
  next
    case (snoc s' c)
    have sub: "c = a ! i \<and> subseq s' (take i a) \<or> subseq s (take i a)"
      "c = b ! j \<and> subseq s' (take j b) \<or> subseq s (take j b)"
      using "3.prems"(3,4) by (simp_all add: snoc t subseq_snoc)
    have s': "subseq s' (take i a)" "subseq s' (take j b)" using sub subseq_butlast snoc by auto
    show ?thesis
    proof (cases "a ! i = b ! j")
      case True
      then show ?thesis using "3.IH"(1) [OF True _ _ s'] "3.prems"(1,2) snoc by simp
    next
      case False
      then have "subseq s (take i a) \<or> subseq s (take j b)" using sub by auto
      then show ?thesis
      proof
        assume "subseq s (take i a)"
        then show ?thesis using "3.IH"(2) [OF False _ _ _ "3.prems"(4)] "3.prems"(1,2) False by auto
      next
        assume "subseq s (take j b)"
        then show ?thesis using "3.IH"(3) [OF False _ _ "3.prems"(3)] "3.prems"(1,2) False by auto
      qed
    qed
  qed
qed simp_all

text \<open>The subsequence that backtracking reads off.\<close>

fun W :: "string \<Rightarrow> string \<Rightarrow> nat \<Rightarrow> nat \<Rightarrow> string" where
  "W a b 0 j = []"
| "W a b (Suc i) 0 = []"
| "W a b (Suc i) (Suc j) = (if a ! i = b ! j then W a b i j @ [a ! i]
     else if L a b i (Suc j) > L a b (Suc i) j then W a b i (Suc j) else W a b (Suc i) j)"

lemma W_length: "int (length (W a b i j)) = L a b i j"
  by (induction a b i j rule: W.induct) auto

lemma W_subseq: "i \<le> length a \<Longrightarrow> j \<le> length b \<Longrightarrow> subseq (W a b i j) (take i a) \<and> subseq (W a b i j) (take j b)"
proof (induction a b i j rule: W.induct)
  case (3 a b i j)
  have t: "take (Suc i) a = take i a @ [a ! i]" "take (Suc j) b = take j b @ [b ! j]"
    using "3.prems" by (simp_all add: take_Suc_conv_app_nth)
  show ?case using 3 by (auto simp: t subseq_snoc intro: subseq_rev_drop_many)
qed simp_all

section \<open>The table\<close>

definition F :: "string \<Rightarrow> string \<Rightarrow> nat \<Rightarrow> nat \<Rightarrow> nat \<Rightarrow> nat \<Rightarrow> int" where
  "F a b i j = (\<lambda>i' j'. if i' < i \<or> i' = i \<and> j' < j then L a b i' j' else 0)"

lemma F_set: "(F a b i j)(i := (F a b i j i)(j := L a b i j)) = F a b i (Suc j)"
  by (auto simp: F_def fun_eq_iff less_Suc_eq)

lemma lcs_cell_eq:
  assumes "i < length a" "j < length b" "int (length a) \<le> INT_MAX"
  shows "lcs_cell a b (tabulate (Suc (length a)) (Suc (length b)) (F a b (Suc i) (Suc j))) (int (Suc i)) (int (Suc j)) =
    Some (L a b (Suc i) (Suc j))"
proof -
  have "chk (L a b i j + 1) = Some (L a b i j + 1)"
    using L_bounds(1,2) [of a b i j] assms by (simp add: chk_def in_int_def)
  moreover have "get2 (tabulate m n f) (1 + int i) (int j) = (if Suc i < m \<and> j < n then Some (f (Suc i) j) else None)"
    "get2 (tabulate m n f) (int i) (1 + int j) = (if i < m \<and> Suc j < n then Some (f i (Suc j)) else None)"
    for m n and f :: "nat \<Rightarrow> nat \<Rightarrow> int"
    using get2_tabulate [of m n f "Suc i" j] get2_tabulate [of m n f i "Suc j"] by simp_all
  ultimately show ?thesis using assms by (simp add: lcs_cell_def F_def)
qed

lemma fill_row_eq:
  assumes "i < length a" "int (length a) \<le> INT_MAX"
  shows "j \<le> length b \<Longrightarrow>
   fill_row a b (tabulate (Suc (length a)) (Suc (length b)) (F a b (Suc i) (Suc j))) (int (Suc i)) (int (Suc j)) (int (length b)) =
     Some (tabulate (Suc (length a)) (Suc (length b)) (F a b (Suc (Suc i)) 1))"
proof (induction "length b - j" arbitrary: j)
  case 0
  then have "j = length b" by simp
  moreover have "tabulate (Suc (length a)) (Suc (length b)) (F a b (Suc i) (Suc (length b))) =
      tabulate (Suc (length a)) (Suc (length b)) (F a b (Suc (Suc i)) 1)"
    by (rule tabulate_cong) (auto simp: F_def less_Suc_eq)
  ultimately show ?case by (subst fill_row.simps) simp
next
  case (Suc k)
  then have j: "j < length b" by simp
  let ?t = "tabulate (Suc (length a)) (Suc (length b))"
  have "set2 (?t (F a b (Suc i) (Suc j))) (int (Suc i)) (int (Suc j)) (L a b (Suc i) (Suc j)) = Some (?t (F a b (Suc i) (Suc (Suc j))))"
    using set2_tabulate [of "Suc i" "Suc (length a)" "Suc j" "Suc (length b)" "F a b (Suc i) (Suc j)" "L a b (Suc i) (Suc j)"]
      assms j unfolding F_set by (simp del: L.simps)
  moreover have "fill_row a b (?t (F a b (Suc i) (Suc (Suc j)))) (int (Suc i)) (int (Suc j) + 1) (int (length b)) =
      Some (?t (F a b (Suc (Suc i)) 1))"
    using Suc.hyps(1) [of "Suc j"] Suc.hyps(2) j by (simp add: add.commute)
  ultimately show ?case
    using lcs_cell_eq [OF assms(1) j assms(2)] j
    by (subst fill_row.simps) (simp add: add.commute del: L.simps)
qed

lemma fill_rows_eq:
  assumes "int (length a) \<le> INT_MAX"
  shows "i \<le> length a \<Longrightarrow>
   fill_rows a b (tabulate (Suc (length a)) (Suc (length b)) (F a b (Suc i) 1)) (int (Suc i)) (int (length a)) (int (length b)) =
     Some (tabulate (Suc (length a)) (Suc (length b)) (L a b))"
proof (induction "length a - i" arbitrary: i)
  case 0
  then have i: "i = length a" by simp
  have "tabulate (Suc (length a)) (Suc (length b)) (F a b (Suc (length a)) 1) = tabulate (Suc (length a)) (Suc (length b)) (L a b)"
    by (rule tabulate_cong) (auto simp: F_def)
  then show ?case unfolding i by (subst fill_rows.simps) simp
next
  case (Suc k)
  then have i: "i < length a" by simp
  have "fill_rows a b (tabulate (Suc (length a)) (Suc (length b)) (F a b (Suc (Suc i)) 1)) (int (Suc i) + 1) (int (length a)) (int (length b)) =
      Some (tabulate (Suc (length a)) (Suc (length b)) (L a b))"
    using Suc.hyps(1) [of "Suc i"] Suc.hyps(2) i by (simp add: add.commute)
  then show ?case using fill_row_eq [OF i assms, of 0 b] i by (subst fill_rows.simps) simp
qed

lemma backtrack_eq:
  "i \<le> length a \<Longrightarrow> j \<le> length b \<Longrightarrow>
   backtrack a b (tabulate (Suc (length a)) (Suc (length b)) (L a b)) (int i) (int j) res = Some (res @ rev (W a b i j))"
proof (induction a b i j arbitrary: res rule: W.induct)
  case (3 a b i j)
  let ?t = "tabulate (Suc (length a)) (Suc (length b)) (L a b)"
  have g: "get2 ?t (1 + int i) (int j) = Some (L a b (Suc i) j)" "get2 ?t (int i) (1 + int j) = Some (L a b i (Suc j))"
    using get2_tabulate [of "Suc (length a)" "Suc (length b)" "L a b" "Suc i" j]
      get2_tabulate [of "Suc (length a)" "Suc (length b)" "L a b" i "Suc j"] "3.prems" by (simp_all del: L.simps)
  show ?case
    using 3 g by (subst backtrack.simps) (auto simp: add.commute simp del: L.simps)
qed (subst backtrack.simps; simp)+

lemma lcs_with_sequence_eq:
  assumes "int (length a) < INT_MAX" "int (length b) < INT_MAX"
  shows "lcs_with_sequence a b = Some (W a b (length a) (length b))"
proof -
  let ?m = "length a" and ?n = "length b"
  have c: "chk (int ?m) = Some (int ?m)" "chk (int ?n) = Some (int ?n)" "chk (int ?m + 1) = Some (int ?m + 1)"
    "chk (int ?n + 1) = Some (int ?n + 1)" using assms by (simp_all add: chk_def in_int_def)
  have n: "nat (int ?m + 1) = Suc ?m" "nat (int ?n + 1) = Suc ?n" by simp_all
  have "replicate (Suc ?m) (replicate (Suc ?n) 0) = tabulate (Suc ?m) (Suc ?n) (F a b 1 1)"
    unfolding replicate_tabulate by (rule tabulate_cong) (auto simp: F_def)
  then have "fill_rows a b (replicate (Suc ?m) (replicate (Suc ?n) 0)) 1 (int ?m) (int ?n) = Some (tabulate (Suc ?m) (Suc ?n) (L a b))"
    using fill_rows_eq [of a 0 b] assms(1) by simp
  moreover have "backtrack a b (tabulate (Suc ?m) (Suc ?n) (L a b)) (int ?m) (int ?n) [] = Some (rev (W a b ?m ?n))"
    using backtrack_eq [of ?m a ?n b "[]"] by simp
  ultimately show ?thesis
    unfolding lcs_with_sequence_def by (simp only: c n Option.bind.bind_lunit) simp
qed

text \<open>
  Claim: lcs_with_sequence returns a common subsequence of its two arguments, and no common
  subsequence is longer; every table access is in range and no length overflows.
\<close>
theorem lcs_with_sequence_longest:
  assumes "int (length a) < INT_MAX" "int (length b) < INT_MAX"
  shows "\<exists>s. lcs_with_sequence a b = Some s \<and> subseq s a \<and> subseq s b \<and>
    (\<forall>t. subseq t a \<and> subseq t b \<longrightarrow> length t \<le> length s)"
proof -
  let ?m = "length a" and ?n = "length b"
  have "length t \<le> length (W a b ?m ?n)" if "subseq t a" "subseq t b" for t
    using L_optimal [of ?m a ?n b t] that W_length [of a b ?m ?n] by simp
  then show ?thesis using lcs_with_sequence_eq [OF assms] W_subseq [of ?m a ?n b] by auto
qed

theorem lcs_with_sequence_longest_witness:
  "\<exists>s. lcs_with_sequence ''ABCBDAB'' ''BDCABA'' = Some s \<and> subseq s ''ABCBDAB'' \<and> subseq s ''BDCABA'' \<and>
    (\<forall>t. subseq t ''ABCBDAB'' \<and> subseq t ''BDCABA'' \<longrightarrow> length t \<le> length s)"
  using lcs_with_sequence_longest [of "''ABCBDAB''" "''BDCABA''"] by simp

section \<open>Two rows\<close>

lemma row_loop_eq:
  assumes "i < length a" "int (length a) \<le> INT_MAX"
  shows "j \<le> length b \<Longrightarrow>
   row_loop (a ! i) b (map (L a b i) [0..<Suc (length b)])
      (map (\<lambda>j'. if j' \<le> j then L a b (Suc i) j' else 0) [0..<Suc (length b)]) (int (Suc j)) (int (length b)) =
     Some (map (L a b (Suc i)) [0..<Suc (length b)])"
proof (induction "length b - j" arbitrary: j)
  case 0
  then have "j = length b" by simp
  moreover have "map (\<lambda>j'. if j' \<le> length b then L a b (Suc i) j' else 0) [0..<Suc (length b)] = map (L a b (Suc i)) [0..<Suc (length b)]"
    by (rule map_cong) auto
  ultimately show ?case by (subst row_loop.simps) simp
next
  case (Suc k)
  then have j: "j < length b" by simp
  let ?n = "Suc (length b)"
  let ?prev = "map (L a b i) [0..<?n]" and ?cur = "\<lambda>j. map (\<lambda>j'. if j' \<le> j then L a b (Suc i) j' else 0) [0..<?n]"
  have v: "vget ?prev (int j) = Some (L a b i j)" "vget ?prev (int (Suc j)) = Some (L a b i (Suc j))"
    "vget (?cur j) (int j) = Some (L a b (Suc i) j)" "vget b (int j) = Some (b ! j)"
    using j unfolding vget_int by (simp_all del: L.simps upt_Suc)
  have "chk (L a b i j + 1) = Some (L a b i j + 1)"
    using L_bounds(1,2) [of a b i j] assms by (simp add: chk_def in_int_def)
  moreover have "vset (?cur j) (int (Suc j)) (L a b (Suc i) (Suc j)) = Some (?cur (Suc j))"
  proof -
    have "(?cur j)[Suc j := L a b (Suc i) (Suc j)] = ?cur (Suc j)"
      by (rule nth_equalityI) (use j in \<open>auto simp: nth_list_update less_Suc_eq_le le_Suc_eq simp del: L.simps upt_Suc\<close>)
    then show ?thesis using j unfolding vset_int by (simp del: L.simps upt_Suc)
  qed
  moreover have "row_loop (a ! i) b ?prev (?cur (Suc j)) (int (Suc j) + 1) (int (length b)) = Some (map (L a b (Suc i)) [0..<?n])"
    using Suc.hyps(1) [of "Suc j"] Suc.hyps(2) j by (simp add: add.commute del: L.simps upt_Suc)
  moreover have e: "int (Suc j) - 1 = int j" "(int (Suc j) \<le> int (length b)) = True" using j by simp_all
  ultimately show ?case
    unfolding row_loop.simps [of _ _ _ _ "int (Suc j)"] e v if_True Option.bind.bind_lunit
    by (cases "a ! i = b ! j") (simp_all del: upt_Suc vset_int of_nat_Suc)
qed

lemma rows_loop_eq:
  assumes "int (length a) \<le> INT_MAX"
  shows "i \<le> length a \<Longrightarrow>
   rows_loop (drop i a) b (map (L a b i) [0..<Suc (length b)]) (replicate (Suc (length b)) 0) (int (length b)) =
     Some (map (L a b (length a)) [0..<Suc (length b)])"
proof (induction "length a - i" arbitrary: i)
  case 0
  then show ?case by simp
next
  case (Suc k)
  then have i: "i < length a" by simp
  have z: "map (\<lambda>j'. if j' \<le> 0 then L a b (Suc i) j' else 0) [0..<Suc (length b)] = replicate (Suc (length b)) 0"
    by (rule nth_equalityI) (auto simp del: upt_Suc replicate_Suc)
  have "rows_loop (drop (Suc i) a) b (map (L a b (Suc i)) [0..<Suc (length b)]) (replicate (Suc (length b)) 0) (int (length b)) =
     Some (map (L a b (length a)) [0..<Suc (length b)])"
    using Suc.hyps(1) [of "Suc i"] Suc.hyps(2) i by simp
  moreover have "drop i a = a ! i # drop (Suc i) a" using i by (rule Cons_nth_drop_Suc [symmetric])
  ultimately show ?case
    using row_loop_eq [OF i assms, of 0 b] unfolding z by (simp del: upt_Suc replicate_Suc L.simps)
qed

text \<open>
  Claim: the two-row version returns the length of the subsequence that lcs_with_sequence returns,
  whichever of the strings is the shorter one.
\<close>
theorem lcs_length_agrees:
  assumes "int (length a) < INT_MAX" "int (length b) < INT_MAX"
  shows "lcs_length a b = map_option (\<lambda>s. int (length s)) (lcs_with_sequence a b)"
proof -
  have one: "lcs_length' = Some (L x y (length x) (length y))"
    if "int (length x) \<le> INT_MAX" "int (length y) < INT_MAX"
      "lcs_length' = do { n \<leftarrow> chk (int (length y)); n1 \<leftarrow> chk (n + 1);
         prev \<leftarrow> rows_loop x y (replicate (nat n1) 0) (replicate (nat n1) 0) n; vget prev n }" for x y lcs_length'
  proof -
    have "map (L x y 0) [0..<Suc (length y)] = replicate (Suc (length y)) 0"
      by (rule nth_equalityI) (auto simp del: upt_Suc replicate_Suc)
    then have "rows_loop x y (replicate (Suc (length y)) 0) (replicate (Suc (length y)) 0) (int (length y)) =
        Some (map (L x y (length x)) [0..<Suc (length y)])"
      using rows_loop_eq [OF that(1), of 0 y] by (simp del: upt_Suc replicate_Suc)
    moreover have "chk (int (length y)) = Some (int (length y))" "chk (int (length y) + 1) = Some (int (length y) + 1)"
      "nat (int (length y) + 1) = Suc (length y)"
      using that(2) by (simp_all add: chk_def in_int_def)
    ultimately show ?thesis unfolding that(3) by (simp del: upt_Suc replicate_Suc)
  qed
  have "lcs_length a b = Some (L a b (length a) (length b))"
    using one [of a b "lcs_length a b"] one [of b a "lcs_length a b"] assms L_sym [of b a]
    by (cases "length a < length b") (simp_all add: lcs_length_def)
  moreover obtain s where "lcs_with_sequence a b = Some s" "int (length s) = L a b (length a) (length b)"
    using lcs_with_sequence_eq [OF assms] W_length by blast
  ultimately show ?thesis by simp
qed

theorem lcs_length_agrees_witness:
  "lcs_length ''ABCBDAB'' ''BDCABA'' = map_option (\<lambda>s. int (length s)) (lcs_with_sequence ''ABCBDAB'' ''BDCABA'')"
  using lcs_length_agrees [of "''ABCBDAB''" "''BDCABA''"] by simp

end
