(* ===== verification/Knapsack.thy ===== *)
theory Knapsack
  imports Prelude
begin

text \<open>
  src/src/dsa/knapsack_01.cpp: the 0/1 knapsack, once with one row that is updated backwards and
  once with the full table and the selected items. The names of the items play no part.
\<close>

section \<open>Definitions\<close>

record item =
  weight :: int
  val :: int

definition Item :: "int \<Rightarrow> int \<Rightarrow> item" where
  "Item w v = \<lparr>weight = w, val = v\<rparr>"

function item_loop :: "item \<Rightarrow> int list \<Rightarrow> int \<Rightarrow> int list ub" where
  "item_loop it dp w =
     (if weight it \<le> w then do {
        x \<leftarrow> vget dp w;
        y \<leftarrow> vget dp (w - weight it);
        z \<leftarrow> chk (y + val it);
        dp' \<leftarrow> vset dp w (max x z);
        item_loop it dp' (w - 1) }
      else Some dp)"
  by pat_completeness auto

termination item_loop
  by (relation "measure (\<lambda>(it, dp, w). nat (w + 1 - weight it))") auto

declare item_loop.simps [simp del]

fun items_loop :: "item list \<Rightarrow> int list \<Rightarrow> int \<Rightarrow> int list ub" where
  "items_loop [] dp capacity = Some dp"
| "items_loop (it # its) dp capacity = do { dp' \<leftarrow> item_loop it dp capacity; items_loop its dp' capacity }"

definition knapsack_max_value :: "item list \<Rightarrow> int \<Rightarrow> int ub" where
  "knapsack_max_value items capacity = do {
     n \<leftarrow> chk (capacity + 1);
     guard (0 \<le> n);
     dp \<leftarrow> items_loop items (replicate (nat n) 0) capacity;
     vget dp capacity }"

function knapsack_fill_row :: "item list \<Rightarrow> int list list \<Rightarrow> int \<Rightarrow> int \<Rightarrow> int \<Rightarrow> int list list ub" where
  "knapsack_fill_row items dp i w capacity =
     (if w \<le> capacity then do {
        skip \<leftarrow> get2 dp (i - 1) w;
        dp1 \<leftarrow> set2 dp i w skip;
        it \<leftarrow> vget items (i - 1);
        dp2 \<leftarrow> (if weight it \<le> w then do {
                  x \<leftarrow> get2 dp1 i w;
                  y \<leftarrow> get2 dp1 (i - 1) (w - weight it);
                  z \<leftarrow> chk (y + val it);
                  set2 dp1 i w (max x z) }
                else Some dp1);
        knapsack_fill_row items dp2 i (w + 1) capacity }
      else Some dp)"
  by pat_completeness auto

termination knapsack_fill_row
  by (relation "measure (\<lambda>(items, dp, i, w, capacity). nat (capacity + 1 - w))") auto

function knapsack_fill_rows :: "item list \<Rightarrow> int list list \<Rightarrow> int \<Rightarrow> int \<Rightarrow> int \<Rightarrow> int list list ub" where
  "knapsack_fill_rows items dp i n capacity =
     (if i \<le> n then do { dp' \<leftarrow> knapsack_fill_row items dp i 0 capacity; knapsack_fill_rows items dp' (i + 1) n capacity } else Some dp)"
  by pat_completeness auto

termination knapsack_fill_rows
  by (relation "measure (\<lambda>(items, dp, i, n, capacity). nat (n + 1 - i))") auto

function pick_items :: "item list \<Rightarrow> int list list \<Rightarrow> int \<Rightarrow> int \<Rightarrow> int list \<Rightarrow> int list ub" where
  "pick_items items dp i w selected =
     (if i > 0 then do {
        x \<leftarrow> get2 dp i w;
        y \<leftarrow> get2 dp (i - 1) w;
        if x \<noteq> y then do {
          it \<leftarrow> vget items (i - 1);
          w' \<leftarrow> chk (w - weight it);
          pick_items items dp (i - 1) w' (selected @ [i - 1]) }
        else pick_items items dp (i - 1) w selected }
      else Some selected)"
  by pat_completeness auto

termination pick_items
  by (relation "measure (\<lambda>(items, dp, i, w, selected). nat i)") auto

declare knapsack_fill_row.simps [simp del] knapsack_fill_rows.simps [simp del] pick_items.simps [simp del]

definition knapsack_with_items :: "item list \<Rightarrow> int \<Rightarrow> (int \<times> int list) ub" where
  "knapsack_with_items items capacity = do {
     n \<leftarrow> chk (int (length items));
     n1 \<leftarrow> chk (n + 1);
     c1 \<leftarrow> chk (capacity + 1);
     guard (0 \<le> c1);
     dp \<leftarrow> knapsack_fill_rows items (replicate (nat n1) (replicate (nat c1) 0)) 1 n capacity;
     selected \<leftarrow> pick_items items dp n capacity [];
     v \<leftarrow> get2 dp n capacity;
     Some (v, rev selected) }"

fun total_weight :: "item list \<Rightarrow> int list \<Rightarrow> int \<Rightarrow> int ub" where
  "total_weight items [] acc = Some acc"
| "total_weight items (idx # is) acc = do { it \<leftarrow> vget items idx; acc' \<leftarrow> chk (acc + weight it); total_weight items is acc' }"

definition knapsack_main :: "(int \<times> int list \<times> int \<times> int) ub" where
  "knapsack_main = do {
     let items = [Item 2 6, Item 3 8, Item 5 12, Item 1 4, Item 4 10];
     let capacity = 8;
     max_value \<leftarrow> knapsack_max_value items capacity;
     (v, selected) \<leftarrow> knapsack_with_items items capacity;
     tw \<leftarrow> total_weight items selected 0;
     guard (max_value = v \<and> tw \<le> capacity \<and> v = 22);
     Some (max_value, selected, tw, v) }"

lemma knapsack_main_output: "knapsack_main = Some (22, [0, 2, 3], 8, 22)"
  by code_simp

section \<open>The recurrence and its optimality\<close>

fun K :: "item list \<Rightarrow> nat \<Rightarrow> nat \<Rightarrow> int" where
  "K items 0 u = 0"
| "K items (Suc i) u = (if weight (items ! i) \<le> int u
     then max (K items i u) (K items i (u - nat (weight (items ! i))) + val (items ! i)) else K items i u)"

fun P :: "item list \<Rightarrow> nat \<Rightarrow> nat \<Rightarrow> nat list" where
  "P items 0 u = []"
| "P items (Suc i) u = (if K items (Suc i) u \<noteq> K items i u then P items i (u - nat (weight (items ! i))) @ [i] else P items i u)"

abbreviation wsum :: "item list \<Rightarrow> nat set \<Rightarrow> int" where
  "wsum items S \<equiv> \<Sum>i\<in>S. weight (items ! i)"

abbreviation vsum :: "item list \<Rightarrow> nat set \<Rightarrow> int" where
  "vsum items S \<equiv> \<Sum>i\<in>S. val (items ! i)"

definition admissible :: "item list \<Rightarrow> int \<Rightarrow> bool" where
  "admissible items capacity \<longleftrightarrow> (\<forall>it\<in>set items. 0 \<le> weight it) \<and> (\<Sum>it\<leftarrow>items. \<bar>val it\<bar>) \<le> INT_MAX \<and>
     0 \<le> capacity \<and> capacity < INT_MAX \<and> int (length items) < INT_MAX"

lemma K_bounds: "i \<le> length items \<Longrightarrow> 0 \<le> K items i u \<and> K items i u \<le> (\<Sum>it\<leftarrow>take i items. \<bar>val it\<bar>)"
proof (induction items i u rule: K.induct)
  case (2 items i u)
  then have "(\<Sum>it\<leftarrow>take (Suc i) items. \<bar>val it\<bar>) = (\<Sum>it\<leftarrow>take i items. \<bar>val it\<bar>) + \<bar>val (items ! i)\<bar>"
    by (simp add: take_Suc_conv_app_nth)
  with 2 show ?case by auto
qed simp

lemma sum_take_le: "(\<Sum>it\<leftarrow>take i items. \<bar>val it\<bar>) + (\<Sum>it\<leftarrow>drop i items. \<bar>val it\<bar>) = (\<Sum>it\<leftarrow>items. \<bar>val (it::item)\<bar>)"
  by (metis append_take_drop_id map_append sum_list_append)

lemma K_step_in_int:
  assumes "admissible items c" "i < length items"
  shows "chk (K items i u + val (items ! i)) = Some (K items i u + val (items ! i))"
proof -
  have "drop i items = items ! i # drop (Suc i) items" using assms(2) by (simp add: Cons_nth_drop_Suc)
  then have "(\<Sum>it\<leftarrow>drop i items. \<bar>val it\<bar>) = \<bar>val (items ! i)\<bar> + (\<Sum>it\<leftarrow>drop (Suc i) items. \<bar>val it\<bar>)" by simp
  moreover have "0 \<le> (\<Sum>it\<leftarrow>drop (Suc i) items. \<bar>val it\<bar>)" by (rule sum_list_nonneg) auto
  ultimately have "\<bar>K items i u + val (items ! i)\<bar> \<le> INT_MAX"
    using K_bounds [of i items u] sum_take_le [of i items] assms unfolding admissible_def by linarith
  then have "INT_MIN \<le> K items i u + val (items ! i)" "K items i u + val (items ! i) \<le> INT_MAX" by linarith+
  then show ?thesis by (rule chk_Some)
qed

lemma K_optimal:
  "\<lbrakk>\<forall>it\<in>set items. 0 \<le> weight it; i \<le> length items; S \<subseteq> {..<i}; wsum items S \<le> int u\<rbrakk> \<Longrightarrow> vsum items S \<le> K items i u"
proof (induction items i u arbitrary: S rule: K.induct)
  case (2 items i u)
  have fin: "finite S" using "2.prems"(3) finite_subset by blast
  have w: "0 \<le> weight (items ! i)" using "2.prems"(1,2) by simp
  show ?case
  proof (cases "i \<in> S")
    case False
    then have "S \<subseteq> {..<i}" using "2.prems"(3) by (auto simp: less_Suc_eq)
    then have "vsum items S \<le> K items i u"
      using 2(1,3) 2(4-) "2.prems" by (cases "weight (items ! i) \<le> int u") auto
    then show ?thesis by auto
  next
    case True
    let ?S = "S - {i}"
    have sub: "?S \<subseteq> {..<i}" using "2.prems"(3) by (auto simp: less_Suc_eq)
    have e: "wsum items S = weight (items ! i) + wsum items ?S" "vsum items S = val (items ! i) + vsum items ?S"
      using fin True by (simp_all add: sum.remove)
    have "0 \<le> wsum items ?S"
      using sub "2.prems"(1,2) by (intro sum_nonneg) (meson Suc_le_lessD in_mono lessThan_iff nth_mem order_less_trans)
    then have le: "weight (items ! i) \<le> int u" using e "2.prems"(4) by simp
    then have "wsum items ?S \<le> int (u - nat (weight (items ! i)))" using e "2.prems"(4) w by simp
    then have "vsum items ?S \<le> K items i (u - nat (weight (items ! i)))"
      using "2.IH"(2) [OF le "2.prems"(1) _ sub] "2.prems"(2) by simp
    then show ?thesis using e le by simp
  qed
qed simp

lemma P_correct:
  assumes "\<forall>it\<in>set items. 0 \<le> weight it"
  shows "i \<le> length items \<Longrightarrow> sorted_wrt (<) (P items i u) \<and> set (P items i u) \<subseteq> {..<i} \<and>
    wsum items (set (P items i u)) \<le> int u \<and> vsum items (set (P items i u)) = K items i u"
proof (induction i arbitrary: u)
  case (Suc i)
  let ?u = "u - nat (weight (items ! i))"
  show ?case
  proof (cases "K items (Suc i) u = K items i u")
    case True
    then show ?thesis using Suc.IH [of u] Suc.prems by (auto simp del: K.simps)
  next
    case False
    then have le: "weight (items ! i) \<le> int u" and k: "K items (Suc i) u = K items i ?u + val (items ! i)"
      by (auto split: if_splits)
    note IH = Suc.IH [of ?u]
    have "i \<notin> set (P items i ?u)" using IH Suc.prems by auto
    moreover have "0 \<le> weight (items ! i)" using assms Suc.prems by simp
    ultimately show ?thesis
      using IH Suc.prems False k le by (auto simp: sorted_wrt_append simp del: K.simps)
  qed
qed simp

section \<open>The one-row version\<close>

definition row :: "nat \<Rightarrow> (nat \<Rightarrow> int) \<Rightarrow> int list" where
  "row n f = map f [0..<n]"

lemma vget_row [simp]: "u < n \<Longrightarrow> vget (row n f) (int u) = Some (f u)"
  by (simp add: row_def)

lemma vset_row: "u < n \<Longrightarrow> vset (row n f) (int u) x = Some (row n (f(u := x)))"
  by (simp add: row_def map_upt_upd)

lemma row_cong: "(\<And>u. u < n \<Longrightarrow> f u = g u) \<Longrightarrow> row n f = row n g"
  by (simp add: row_def)

definition M :: "item list \<Rightarrow> nat \<Rightarrow> nat \<Rightarrow> nat \<Rightarrow> int" where
  "M items i u = (\<lambda>u'. if u' < u then K items i u' else K items (Suc i) u')"

lemma M_set: "(M items i (Suc u))(u := K items (Suc i) u) = M items i u"
  by (auto simp: M_def fun_eq_iff less_Suc_eq)

lemma M_below: "int u < weight (items ! i) \<Longrightarrow> M items i (Suc u) = K items (Suc i)"
  by (auto simp: M_def fun_eq_iff less_Suc_eq)

lemma item_loop_eq:
  assumes "admissible items c" "i < length items"
  shows "u < n \<Longrightarrow> item_loop (items ! i) (row n (M items i (Suc u))) (int u) = Some (row n (K items (Suc i)))"
proof (induction u)
  have w: "0 \<le> weight (items ! i)" using assms by (simp add: admissible_def)
  {
    fix u assume u: "u < n" and le: "weight (items ! i) \<le> int u"
    let ?v = "u - nat (weight (items ! i))"
    have v: "int u - weight (items ! i) = int ?v" using w le by simp
    have vn: "?v < n" using u by simp
    have get: "vget (row n (M items i (Suc u))) (int ?v) = Some (K items i ?v)"
      "vget (row n (M items i (Suc u))) (int u) = Some (K items i u)" unfolding vget_row [OF vn] vget_row [OF u] by (simp_all add: M_def)
    have "max (K items i u) (K items i ?v + val (items ! i)) = K items (Suc i) u" using le by simp
    then have set: "vset (row n (M items i (Suc u))) (int u) (max (K items i u) (K items i ?v + val (items ! i))) =
        Some (row n (M items i u))" by (simp only: vset_row [OF u] M_set)
    have "item_loop (items ! i) (row n (M items i (Suc u))) (int u) = item_loop (items ! i) (row n (M items i u)) (int u - 1)"
      unfolding item_loop.simps [of _ "row n (M items i (Suc u))"] v get
      by (simp only: le if_True Option.bind.bind_lunit K_step_in_int [OF assms] set)
  } note step = this
  {
    case 0
    then show ?case
    proof (cases "weight (items ! i) \<le> 0")
      case True
      have "M items i 0 = K items (Suc i)" by (simp add: M_def fun_eq_iff)
      then show ?thesis using step [of 0] 0 True w by (simp add: item_loop.simps [of _ _ "-1"] del: K.simps)
    next
      case False
      then show ?thesis using M_below [of 0 items i] by (subst item_loop.simps) simp
    qed
  next
    case (Suc u)
    show ?case
    proof (cases "weight (items ! i) \<le> int (Suc u)")
      case True
      then show ?thesis using step [of "Suc u"] Suc by simp
    next
      case False
      then show ?thesis using M_below [of "Suc u" items i] by (subst item_loop.simps) simp
    qed
  }
qed

lemma items_loop_eq:
  assumes "admissible items c"
  shows "i \<le> length items \<Longrightarrow>
    items_loop (drop i items) (row (Suc (nat c)) (K items i)) c = Some (row (Suc (nat c)) (K items (length items)))"
proof (induction "length items - i" arbitrary: i)
  case (Suc k)
  then have i: "i < length items" by simp
  have c: "c = int (nat c)" using assms by (simp add: admissible_def)
  have "row (Suc (nat c)) (K items i) = row (Suc (nat c)) (M items i (Suc (nat c)))"
    by (rule row_cong) (simp add: M_def)
  then have "item_loop (items ! i) (row (Suc (nat c)) (K items i)) c = Some (row (Suc (nat c)) (K items (Suc i)))"
    using item_loop_eq [OF assms i, of "nat c" "Suc (nat c)"] c by simp
  moreover have "drop i items = items ! i # drop (Suc i) items" using i by (simp add: Cons_nth_drop_Suc)
  ultimately show ?case using Suc.hyps(1) [of "Suc i"] Suc.hyps(2) i by simp
qed simp

lemma knapsack_max_value_eq:
  assumes "admissible items capacity"
  shows "knapsack_max_value items capacity = Some (K items (length items) (nat capacity))"
proof -
  have c: "chk (capacity + 1) = Some (capacity + 1)" "0 \<le> capacity + 1" "nat (capacity + 1) = Suc (nat capacity)"
    using assms by (auto simp: admissible_def chk_def in_int_def)
  have "replicate (Suc (nat capacity)) 0 = row (Suc (nat capacity)) (K items 0)"
    by (rule nth_equalityI) (simp_all add: row_def del: replicate.simps upt_Suc)
  moreover have "vget (row (Suc (nat capacity)) f) capacity = Some (f (nat capacity))" for f
    using vget_row [of "nat capacity" "Suc (nat capacity)" f] assms by (simp add: admissible_def)
  ultimately show ?thesis
    using items_loop_eq [OF assms, of 0] by (simp add: knapsack_max_value_def c del: replicate.simps)
qed

section \<open>The full table\<close>

definition F :: "item list \<Rightarrow> nat \<Rightarrow> nat \<Rightarrow> nat \<Rightarrow> nat \<Rightarrow> int" where
  "F items i u = (\<lambda>i' u'. if i' < i \<or> i' = i \<and> u' < u then K items i' u' else 0)"

lemma sack_F_set: "(F items i u)(i := (F items i u i)(u := K items i u)) = F items i (Suc u)"
  by (auto simp: F_def fun_eq_iff less_Suc_eq)

lemma sack_fill_row:
  assumes "admissible items c" "i < length items" "m = Suc (length items)" "n = Suc (nat c)"
  shows "u \<le> n \<Longrightarrow> knapsack_fill_row items (tabulate m n (F items (Suc i) u)) (int (Suc i)) (int u) c =
     Some (tabulate m n (F items (Suc (Suc i)) 0))"
proof (induction "n - u" arbitrary: u)
  case 0
  then have "tabulate m n (F items (Suc i) u) = tabulate m n (F items (Suc (Suc i)) 0)"
    by (intro tabulate_cong) (auto simp: F_def less_Suc_eq)
  moreover have "c < int u" using 0 assms(1,4) by (simp add: admissible_def)
  ultimately show ?case by (subst knapsack_fill_row.simps) simp
next
  case (Suc k)
  let ?t = "tabulate m n" and ?F = "F items (Suc i) u" and ?it = "items ! i"
  let ?v = "u - nat (weight ?it)"
  let ?D = "?F(Suc i := (?F (Suc i))(u := K items i u))"
  have u: "u < n" using Suc.hyps(2) by simp
  have c: "int u \<le> c" using u assms(1,4) unfolding admissible_def by linarith
  have m: "i < m" "Suc i < m" using assms(2,3) by auto
  have w: "0 \<le> weight ?it" using assms(1,2) by (simp add: admissible_def)
  have i1: "int (Suc i) - 1 = int i" and nx: "int u + 1 = int (Suc u)" by simp_all
  have s1: "get2 (?t ?F) (int i) (int u) = Some (K items i u)" "vget items (int i) = Some ?it"
    using m u assms(2) by (simp_all add: F_def)
  have s2: "set2 (?t ?F) (int (Suc i)) (int u) (K items i u) = Some (?t ?D)" by (rule set2_tabulate [OF m(2) u])
  have "(if weight ?it \<le> int u then do {
           x \<leftarrow> get2 (?t ?D) (int (Suc i)) (int u);
           y \<leftarrow> get2 (?t ?D) (int i) (int u - weight ?it);
           z \<leftarrow> chk (y + val ?it);
           set2 (?t ?D) (int (Suc i)) (int u) (max x z) }
         else Some (?t ?D)) = Some (?t (F items (Suc i) (Suc u)))"
  proof (cases "weight ?it \<le> int u")
    case True
    have v: "int u - weight ?it = int ?v" using w True by simp
    have g: "get2 (?t ?D) (int (Suc i)) (int u) = Some (K items i u)" "get2 (?t ?D) (int i) (int ?v) = Some (K items i ?v)"
      using m u unfolding get2_tabulate by (auto simp: F_def)
    have k: "max (K items i u) (K items i ?v + val ?it) = K items (Suc i) u" using True by simp
    have d: "?D(Suc i := (?D (Suc i))(u := K items (Suc i) u)) = F items (Suc i) (Suc u)"
      unfolding sack_F_set [symmetric] by (simp add: fun_eq_iff)
    show ?thesis
      by (simp only: True if_True v g Option.bind.bind_lunit K_step_in_int [OF assms(1,2)] k set2_tabulate [OF m(2) u] d)
  next
    case False
    then have "?D = F items (Suc i) (Suc u)" unfolding sack_F_set [symmetric] by simp
    then show ?thesis using False by (simp only: if_False)
  qed
  then have "knapsack_fill_row items (?t ?F) (int (Suc i)) (int u) c = knapsack_fill_row items (?t (F items (Suc i) (Suc u))) (int (Suc i)) (int (Suc u)) c"
    unfolding knapsack_fill_row.simps [of _ "?t ?F"] i1 s1 s2 nx by (simp only: c if_True Option.bind.bind_lunit s1 s2)
  then show ?case using Suc.hyps(1) [of "Suc u"] Suc.hyps(2) u by simp
qed

lemma sack_fill_rows:
  assumes "admissible items c" "m = Suc (length items)" "n = Suc (nat c)"
  shows "i \<le> length items \<Longrightarrow> knapsack_fill_rows items (tabulate m n (F items (Suc i) 0)) (int (Suc i)) (int (length items)) c =
     Some (tabulate m n (K items))"
proof (induction "length items - i" arbitrary: i)
  case 0
  then have "tabulate m n (F items (Suc i) 0) = tabulate m n (K items)"
    using assms(2) by (intro tabulate_cong) (auto simp: F_def)
  then show ?case using 0 by (subst knapsack_fill_rows.simps) simp
next
  case (Suc k)
  then have i: "i < length items" by simp
  have e: "int (Suc i) + 1 = int (Suc (Suc i))" "int (Suc i) \<le> int (length items)" using i by simp_all
  have r: "knapsack_fill_row items (tabulate m n (F items (Suc i) 0)) (int (Suc i)) 0 c = Some (tabulate m n (F items (Suc (Suc i)) 0))"
    using sack_fill_row [OF assms(1) i assms(2,3), of 0] by simp
  show ?case
    using Suc.hyps(1) [of "Suc i"] Suc.hyps(2) i
    unfolding knapsack_fill_rows.simps [of _ "tabulate m n (F items (Suc i) 0)"] e(1) r by (simp only: e(2) if_True Option.bind.bind_lunit)
qed

lemma pick_items_eq:
  assumes "admissible items c" "m = Suc (length items)" "n = Suc (nat c)"
  shows "i \<le> length items \<Longrightarrow> u < n \<Longrightarrow>
    pick_items items (tabulate m n (K items)) (int i) (int u) sel = Some (sel @ map int (rev (P items i u)))"
proof (induction i arbitrary: u sel)
  case 0
  then show ?case by (subst pick_items.simps) simp
next
  case (Suc i)
  let ?it = "items ! i"
  have i: "int (Suc i) - 1 = int i" "0 < int (Suc i)" by simp_all
  have g: "get2 (tabulate m n (K items)) (int (Suc i)) (int u) = Some (K items (Suc i) u)"
    "get2 (tabulate m n (K items)) (int i) (int u) = Some (K items i u)" "vget items (int i) = Some ?it"
    using Suc.prems assms(2) unfolding get2_tabulate by (simp_all del: K.simps)
  show ?case
  proof (cases "K items (Suc i) u = K items i u")
    case True
    then show ?thesis using Suc.IH [of u sel] Suc.prems unfolding pick_items.simps [of _ _ "int (Suc i)"] i g
      by (simp del: K.simps)
  next
    case False
    then have le: "weight ?it \<le> int u" by (auto split: if_splits)
    have w: "0 \<le> weight ?it" using assms(1) Suc.prems by (simp add: admissible_def)
    then have v: "int u - weight ?it = int (u - nat (weight ?it))" using le by simp
    have "int u \<le> INT_MAX" using Suc.prems(2) assms(1,3) unfolding admissible_def by linarith
    then have "chk (int (u - nat (weight ?it))) = Some (int (u - nat (weight ?it)))" by (intro chk_Some) simp_all
    then show ?thesis
      using Suc.IH [of "u - nat (weight ?it)" "sel @ [int i]"] Suc.prems False
      unfolding pick_items.simps [of _ _ "int (Suc i)"] i g by (simp add: v del: K.simps)
  qed
qed

lemma knapsack_with_items_eq:
  assumes "admissible items capacity"
  shows "knapsack_with_items items capacity =
    Some (K items (length items) (nat capacity), map int (P items (length items) (nat capacity)))"
proof -
  let ?m = "Suc (length items)" and ?n = "Suc (nat capacity)"
  have c: "chk (int (length items)) = Some (int (length items))" "chk (int (length items) + 1) = Some (int (length items) + 1)"
    "chk (capacity + 1) = Some (capacity + 1)" "0 \<le> capacity + 1" "nat (capacity + 1) = ?n" "nat (int (length items) + 1) = ?m"
    using assms by (auto simp: admissible_def chk_def in_int_def)
  have z: "replicate ?m (replicate ?n 0) = tabulate ?m ?n (F items (Suc 0) 0)"
    unfolding replicate_tabulate by (rule tabulate_cong) (auto simp: F_def)
  have f: "knapsack_fill_rows items (tabulate ?m ?n (F items (Suc 0) 0)) 1 (int (length items)) capacity = Some (tabulate ?m ?n (K items))"
    using sack_fill_rows [OF assms refl refl, of 0] by simp
  have cap: "int (nat capacity) = capacity" using assms by (simp add: admissible_def)
  have p: "pick_items items (tabulate ?m ?n (K items)) (int (length items)) capacity [] =
      Some (map int (rev (P items (length items) (nat capacity))))"
    using pick_items_eq [OF assms refl refl, of "length items" "nat capacity" "[]"] cap by simp
  have g: "get2 (tabulate ?m ?n (K items)) (int (length items)) capacity = Some (K items (length items) (nat capacity))"
    using get2_tabulate [of ?m ?n "K items" "length items" "nat capacity"] cap by simp
  show ?thesis
    unfolding knapsack_with_items_def c(1-4) Option.bind.bind_lunit c(5,6) z f p g guard_bind
    by (simp add: c(4) f p g rev_map)
qed

text \<open>
  Claim: knapsack_with_items returns an optimal selection: indices in increasing order, of total weight at
  most the capacity, whose total value is the returned number, and no set of items that fits is worth
  more; every table access is in range and no sum overflows.
\<close>
theorem knapsack_with_items_optimal:
  assumes "admissible items capacity"
  shows "\<exists>v sel. knapsack_with_items items capacity = Some (v, map int sel) \<and>
    sorted_wrt (<) sel \<and> set sel \<subseteq> {..<length items} \<and>
    wsum items (set sel) \<le> capacity \<and> vsum items (set sel) = v \<and>
    (\<forall>S. S \<subseteq> {..<length items} \<and> wsum items S \<le> capacity \<longrightarrow> vsum items S \<le> v)"
proof -
  have w: "\<forall>it\<in>set items. 0 \<le> weight it" and cap: "int (nat capacity) = capacity"
    using assms by (auto simp: admissible_def)
  show ?thesis
    unfolding knapsack_with_items_eq [OF assms]
    using P_correct [OF w order_refl, of "nat capacity"] K_optimal [OF w order_refl, of _ "nat capacity"] cap by auto
qed

theorem knapsack_with_items_optimal_witness:
  "\<exists>v sel. knapsack_with_items [Item 2 6, Item 3 8, Item 5 12] 7 = Some (v, map int sel) \<and>
    wsum [Item 2 6, Item 3 8, Item 5 12] (set sel) \<le> 7 \<and> vsum [Item 2 6, Item 3 8, Item 5 12] (set sel) = v"
  using knapsack_with_items_optimal [of "[Item 2 6, Item 3 8, Item 5 12]" 7]
  by (auto simp: admissible_def Item_def)

text \<open>
  Claim: the one-row version returns the same value as the full table.
\<close>
theorem knapsack_max_value_agrees:
  assumes "admissible items capacity"
  shows "knapsack_max_value items capacity = map_option fst (knapsack_with_items items capacity)"
  by (simp add: knapsack_max_value_eq [OF assms] knapsack_with_items_eq [OF assms])

theorem knapsack_max_value_agrees_witness:
  "knapsack_max_value [Item 2 6, Item 3 8, Item 5 12] 7 = map_option fst (knapsack_with_items [Item 2 6, Item 3 8, Item 5 12] 7)"
  using knapsack_max_value_agrees [of "[Item 2 6, Item 3 8, Item 5 12]" 7] by (simp add: admissible_def Item_def)

end
