(* ===== verification/Monotonic_Stack.thy ===== *)
theory Monotonic_Stack
  imports Prelude
begin

text \<open>
  src/src/dsa/monotonic_stack.cpp: the next greater element, the days until a warmer day and the
  largest rectangle in a histogram. The std::stack of indices is a list whose head is the top.
\<close>

section \<open>Definitions\<close>

fun nge_pop :: "int list \<Rightarrow> int \<Rightarrow> int list \<Rightarrow> int list \<Rightarrow> (int list \<times> int list) ub" where
  "nge_pop nums i [] result = Some ([], result)"
| "nge_pop nums i (top' # stk) result = do {
     x \<leftarrow> vget nums top';
     y \<leftarrow> vget nums i;
     if x < y then do { result' \<leftarrow> vset result top' y; nge_pop nums i stk result' }
     else Some (top' # stk, result) }"

function nge_loop :: "int list \<Rightarrow> int \<Rightarrow> int \<Rightarrow> int list \<Rightarrow> int list \<Rightarrow> int list ub" where
  "nge_loop nums i n stk result =
     (if i < n then do { (stk', result') \<leftarrow> nge_pop nums i stk result; nge_loop nums (i + 1) n (i # stk') result' }
      else Some result)"
  by pat_completeness auto

termination nge_loop
  by (relation "measure (\<lambda>(nums, i, n, stk, result). nat (n - i))") auto

definition nextGreaterElement :: "int list \<Rightarrow> int list ub" where
  "nextGreaterElement nums = do {
     n \<leftarrow> chk (int (length nums));
     nge_loop nums 0 n [] (replicate (nat n) (- 1)) }"

fun warmer_pop :: "int list \<Rightarrow> int \<Rightarrow> int list \<Rightarrow> int list \<Rightarrow> (int list \<times> int list) ub" where
  "warmer_pop temps i [] result = Some ([], result)"
| "warmer_pop temps i (prev # stk) result = do {
     x \<leftarrow> vget temps prev;
     y \<leftarrow> vget temps i;
     if x < y then do { d \<leftarrow> chk (i - prev); result' \<leftarrow> vset result prev d; warmer_pop temps i stk result' }
     else Some (prev # stk, result) }"

function warmer_loop :: "int list \<Rightarrow> int \<Rightarrow> int \<Rightarrow> int list \<Rightarrow> int list \<Rightarrow> int list ub" where
  "warmer_loop temps i n stk result =
     (if i < n then do { (stk', result') \<leftarrow> warmer_pop temps i stk result; warmer_loop temps (i + 1) n (i # stk') result' }
      else Some result)"
  by pat_completeness auto

termination warmer_loop
  by (relation "measure (\<lambda>(temps, i, n, stk, result). nat (n - i))") auto

definition dailyTemperatures :: "int list \<Rightarrow> int list ub" where
  "dailyTemperatures temps = do {
     n \<leftarrow> chk (int (length temps));
     warmer_loop temps 0 n [] (replicate (nat n) 0) }"

fun area_pop :: "int list \<Rightarrow> int \<Rightarrow> int \<Rightarrow> int list \<Rightarrow> int \<Rightarrow> (int list \<times> int) ub" where
  "area_pop heights i current_height [] max_area = Some ([], max_area)"
| "area_pop heights i current_height (top' # stk) max_area = do {
     height \<leftarrow> vget heights top';
     if height > current_height then do {
       width \<leftarrow> (case stk of [] \<Rightarrow> Some i | p # _ \<Rightarrow> chk (i - p - 1));
       area \<leftarrow> chk (height * width);
       area_pop heights i current_height stk (max max_area area) }
     else Some (top' # stk, max_area) }"

function area_loop :: "int list \<Rightarrow> int \<Rightarrow> int \<Rightarrow> int list \<Rightarrow> int \<Rightarrow> int ub" where
  "area_loop heights i n stk max_area =
     (if i \<le> n then do {
        current_height \<leftarrow> (if i = n then Some 0 else vget heights i);
        (stk', max_area') \<leftarrow> area_pop heights i current_height stk max_area;
        area_loop heights (i + 1) n (i # stk') max_area' }
      else Some max_area)"
  by pat_completeness auto

termination area_loop
  by (relation "measure (\<lambda>(heights, i, n, stk, max_area). nat (n + 1 - i))") auto

definition largestRectangleArea :: "int list \<Rightarrow> int ub" where
  "largestRectangleArea heights = do { n \<leftarrow> chk (int (length heights)); area_loop heights 0 n [] 0 }"

declare nge_loop.simps [simp del] warmer_loop.simps [simp del] area_loop.simps [simp del]

definition monotonic_stack_main :: "(int list \<times> int list \<times> int) ub" where
  "monotonic_stack_main = do {
     nge \<leftarrow> nextGreaterElement [4, 5, 2, 25, 7, 8];
     days \<leftarrow> dailyTemperatures [73, 74, 75, 71, 69, 72, 76, 73];
     area \<leftarrow> largestRectangleArea [2, 1, 5, 6, 2, 3];
     Some (nge, days, area) }"

lemma monotonic_stack_main_output:
  "monotonic_stack_main = Some ([5, 25, 25, - 1, 8, - 1], [1, 1, 4, 2, 1, 1, 0, 0], 10)"
  by code_simp

section \<open>The loop that the first two problems share\<close>

fun gen_pop :: "(nat \<Rightarrow> nat \<Rightarrow> int) \<Rightarrow> int list \<Rightarrow> nat \<Rightarrow> nat list \<Rightarrow> int list \<Rightarrow> nat list \<times> int list" where
  "gen_pop g nums i [] result = ([], result)"
| "gen_pop g nums i (s # stk) result =
     (if nums ! s < nums ! i then gen_pop g nums i stk (result[s := g s i]) else (s # stk, result))"

fun gen_loop :: "(nat \<Rightarrow> nat \<Rightarrow> int) \<Rightarrow> int list \<Rightarrow> nat \<Rightarrow> nat \<Rightarrow> nat list \<Rightarrow> int list \<Rightarrow> int list" where
  "gen_loop g nums i 0 stk result = result"
| "gen_loop g nums i (Suc k) stk result =
     (let (stk', result') = gen_pop g nums i stk result in gen_loop g nums (Suc i) k (i # stk') result')"

lemma gen_pop_keeps:
  "gen_pop g nums i stk result = (stk', result') \<Longrightarrow> length result' = length result \<and> set stk' \<subseteq> set stk"
  by (induction g nums i stk result rule: gen_pop.induct) (auto split: if_splits)

text \<open>The nearest later position with a larger entry.\<close>

definition is_next :: "int list \<Rightarrow> nat \<Rightarrow> nat \<Rightarrow> bool" where
  "is_next nums s i \<longleftrightarrow> s < i \<and> i < length nums \<and> nums ! s < nums ! i \<and> (\<forall>k. s < k \<and> k < i \<longrightarrow> nums ! k \<le> nums ! s)"

definition next_val :: "(nat \<Rightarrow> nat \<Rightarrow> int) \<Rightarrow> int \<Rightarrow> int list \<Rightarrow> nat \<Rightarrow> int \<Rightarrow> bool" where
  "next_val g d nums s r \<longleftrightarrow> (\<exists>i. is_next nums s i \<and> r = g s i) \<or>
     (\<forall>i. s < i \<and> i < length nums \<longrightarrow> nums ! i \<le> nums ! s) \<and> r = d"

definition stack_inv :: "(nat \<Rightarrow> nat \<Rightarrow> int) \<Rightarrow> int \<Rightarrow> int list \<Rightarrow> nat \<Rightarrow> nat list \<Rightarrow> int list \<Rightarrow> bool" where
  "stack_inv g d nums i stk result \<longleftrightarrow>
     length result = length nums \<and> distinct stk \<and> sorted_wrt (\<lambda>a b. nums ! a \<le> nums ! b) stk \<and>
     (\<forall>s\<in>set stk. s < i \<and> result ! s = d \<and> (\<forall>k. s < k \<and> k < i \<longrightarrow> nums ! k \<le> nums ! s)) \<and>
     (\<forall>s<i. s \<in> set stk \<or> (\<exists>j. is_next nums s j \<and> result ! s = g s j)) \<and>
     (\<forall>s<length nums. i \<le> s \<longrightarrow> result ! s = d)"

lemma gen_pop_inv:
  assumes "stack_inv g d nums i stk result" "i < length nums" "gen_pop g nums i stk result = (stk', result')"
  shows "stack_inv g d nums i stk' result' \<and> (\<forall>s\<in>set stk'. nums ! i \<le> nums ! s)"
  using assms
proof (induction stk arbitrary: result)
  case (Cons s stk)
  show ?case
  proof (cases "nums ! s < nums ! i")
    case True
    have "is_next nums s i" using Cons.prems True by (simp add: stack_inv_def is_next_def)
    then have "stack_inv g d nums i stk (result[s := g s i])"
      using Cons.prems(1,2) by (auto simp: stack_inv_def nth_list_update)
    then show ?thesis using Cons True by simp
  next
    case False
    then have "\<forall>t\<in>set (s # stk). nums ! i \<le> nums ! t"
      using Cons.prems(1) by (auto simp: stack_inv_def intro: order_trans [of "nums ! i" "nums ! s"])
    then show ?thesis using Cons.prems False by auto
  qed
qed simp

lemma gen_loop_next:
  assumes "stack_inv g d nums i stk result" "length nums = i + k" "s < length nums"
  shows "next_val g d nums s (gen_loop g nums i k stk result ! s)"
  using assms
proof (induction k arbitrary: i stk result)
  case 0
  then show ?case unfolding stack_inv_def next_val_def by auto
next
  case (Suc k)
  obtain stk' result' where p: "gen_pop g nums i stk result = (stk', result')" by fastforce
  have i: "i < length nums" using Suc.prems by simp
  have "stack_inv g d nums i stk' result'" "\<forall>s\<in>set stk'. nums ! i \<le> nums ! s"
    using gen_pop_inv [OF Suc.prems(1) i p] by auto
  then have "stack_inv g d nums (Suc i) (i # stk') result'"
    using i by (auto simp: stack_inv_def less_Suc_eq)
  then show ?case using Suc.IH Suc.prems p by simp
qed

lemma stack_inv_start: "stack_inv g d nums 0 [] (replicate (length nums) d)"
  by (simp add: stack_inv_def)

lemma nge_pop_gen:
  assumes "length result = length nums" "i < length nums"
  shows "\<forall>s\<in>set stk. s < length nums \<Longrightarrow> nge_pop nums (int i) (map int stk) result =
    Some (map_prod (map int) id (gen_pop (\<lambda>s i. nums ! i) nums i stk result))"
  using assms by (induction stk arbitrary: result) auto

lemma nge_loop_gen:
  "length result = length nums \<Longrightarrow> length nums = i + k \<Longrightarrow> \<forall>s\<in>set stk. s < i \<Longrightarrow>
   nge_loop nums (int i) (int (length nums)) (map int stk) result = Some (gen_loop (\<lambda>s i. nums ! i) nums i k stk result)"
proof (induction k arbitrary: i stk result)
  case 0
  then show ?case by (subst nge_loop.simps) simp
next
  case (Suc k)
  obtain stk' result' where p: "gen_pop (\<lambda>s i. nums ! i) nums i stk result = (stk', result')" by fastforce
  have "\<forall>s\<in>set stk. s < length nums" using Suc.prems by auto
  then have "nge_pop nums (int i) (map int stk) result = Some (map int stk', result')"
    using nge_pop_gen [OF Suc.prems(1), of i stk] Suc.prems(2) p by simp
  moreover have "\<forall>s\<in>set (i # stk'). s < Suc i" "length result' = length nums"
    using gen_pop_keeps [OF p] Suc.prems by (auto simp: less_Suc_eq)
  ultimately show ?case
    using Suc.IH [of result' "Suc i" "i # stk'"] Suc.prems p
    by (subst nge_loop.simps) (simp add: add.commute)
qed

lemma warmer_pop_gen:
  assumes "length result = length nums" "i < length nums" "int (length nums) \<le> INT_MAX"
  shows "\<forall>s\<in>set stk. s < i \<Longrightarrow> warmer_pop nums (int i) (map int stk) result =
    Some (map_prod (map int) id (gen_pop (\<lambda>s i. int i - int s) nums i stk result))"
  using assms
proof (induction stk arbitrary: result)
  case (Cons s stk)
  have "chk (int i - int s) = Some (int i - int s)" using Cons.prems by (intro chk_Some) auto
  then show ?case using Cons by simp
qed simp

lemma warmer_loop_gen:
  assumes "int (length nums) \<le> INT_MAX"
  shows "length result = length nums \<Longrightarrow> length nums = i + k \<Longrightarrow> \<forall>s\<in>set stk. s < i \<Longrightarrow>
   warmer_loop nums (int i) (int (length nums)) (map int stk) result = Some (gen_loop (\<lambda>s i. int i - int s) nums i k stk result)"
proof (induction k arbitrary: i stk result)
  case 0
  then show ?case by (subst warmer_loop.simps) simp
next
  case (Suc k)
  obtain stk' result' where p: "gen_pop (\<lambda>s i. int i - int s) nums i stk result = (stk', result')" by fastforce
  have "warmer_pop nums (int i) (map int stk) result = Some (map int stk', result')"
    using warmer_pop_gen [OF Suc.prems(1) _ assms Suc.prems(3)] Suc.prems(2) p by simp
  moreover have "\<forall>s\<in>set (i # stk'). s < Suc i" "length result' = length nums"
    using gen_pop_keeps [OF p] Suc.prems by (auto simp: less_Suc_eq)
  ultimately show ?case
    using Suc.IH [of result' "Suc i" "i # stk'"] Suc.prems p
    by (subst warmer_loop.simps) (simp add: add.commute)
qed

lemma gen_loop_length: "length (gen_loop g nums i k stk result) = length result"
proof (induction k arbitrary: i stk result)
  case (Suc k)
  obtain stk' result' where p: "gen_pop g nums i stk result = (stk', result')" by fastforce
  then show ?case using gen_pop_keeps [OF p] Suc by simp
qed simp

lemma is_next_unique: "is_next nums s i \<Longrightarrow> is_next nums s j \<Longrightarrow> i = j"
  by (rule linorder_cases [of i j]) (force simp: is_next_def)+

lemma next_val_pair:
  assumes "next_val g d nums s r" "next_val g' d' nums s r'"
  shows "(\<exists>i. is_next nums s i \<and> r = g s i \<and> r' = g' s i) \<or>
    (\<forall>i. s < i \<and> i < length nums \<longrightarrow> nums ! i \<le> nums ! s) \<and> r = d \<and> r' = d'"
proof (cases "\<exists>i. is_next nums s i")
  case True
  then have "\<not> (\<forall>i. s < i \<and> i < length nums \<longrightarrow> nums ! i \<le> nums ! s)" by (auto simp: is_next_def not_le)
  then show ?thesis using assms is_next_unique unfolding next_val_def by blast
next
  case False
  then show ?thesis using assms unfolding next_val_def by blast
qed

text \<open>
  Claim: nextGreaterElement gives each position the value of the nearest later and larger entry, and -1
  where there is none; dailyTemperatures gives the distance to that entry, and 0. The stack never
  holds an index outside the vector.
\<close>
theorem next_greater_correct:
  assumes "int (length nums) \<le> INT_MAX"
  shows "\<exists>r d. nextGreaterElement nums = Some r \<and> dailyTemperatures nums = Some d \<and>
    length r = length nums \<and> length d = length nums \<and>
    (\<forall>s<length nums.
       (\<exists>i. is_next nums s i \<and> r ! s = nums ! i \<and> d ! s = int i - int s) \<or>
       (\<forall>i. s < i \<and> i < length nums \<longrightarrow> nums ! i \<le> nums ! s) \<and> r ! s = - 1 \<and> d ! s = 0)"
proof -
  let ?n = "length nums"
  let ?R = "gen_loop (\<lambda>s i. nums ! i) nums 0 ?n [] (replicate ?n (- 1))"
  let ?D = "gen_loop (\<lambda>s i. int i - int s) nums 0 ?n [] (replicate ?n 0)"
  have c: "chk (int ?n) = Some (int ?n)" using assms by (intro chk_Some) simp_all
  have "nextGreaterElement nums = Some ?R" "dailyTemperatures nums = Some ?D"
    using nge_loop_gen [of "replicate ?n (- 1)" nums 0 ?n "[]"] warmer_loop_gen [OF assms, of "replicate ?n 0" 0 ?n "[]"]
    by (simp_all add: nextGreaterElement_def dailyTemperatures_def c)
  moreover have "(\<exists>i. is_next nums s i \<and> ?R ! s = nums ! i \<and> ?D ! s = int i - int s) \<or>
       (\<forall>i. s < i \<and> i < ?n \<longrightarrow> nums ! i \<le> nums ! s) \<and> ?R ! s = - 1 \<and> ?D ! s = 0" if s: "s < ?n" for s
    by (rule next_val_pair [OF gen_loop_next [OF stack_inv_start _ s] gen_loop_next [OF stack_inv_start _ s]]) simp_all
  ultimately show ?thesis by (auto simp: gen_loop_length)
qed

theorem next_greater_correct_witness:
  "\<exists>r d. nextGreaterElement [4, 5, 2] = Some r \<and> dailyTemperatures [4, 5, 2] = Some d \<and> length r = 3 \<and> length d = 3"
  using next_greater_correct [of "[4, 5, 2]"] by auto

section \<open>The largest rectangle\<close>

fun below :: "nat list \<Rightarrow> nat" where
  "below [] = 0"
| "below (p # stk) = Suc p"

fun chain :: "int list \<Rightarrow> nat list \<Rightarrow> bool" where
  "chain h [] \<longleftrightarrow> True"
| "chain h (s # stk) \<longleftrightarrow> below stk \<le> s \<and> (\<forall>k. below stk \<le> k \<and> k < s \<longrightarrow> h ! s < h ! k) \<and>
     (case stk of [] \<Rightarrow> True | p # _ \<Rightarrow> h ! p \<le> h ! s) \<and> chain h stk"

text \<open>A rectangle over the bars l to r whose height is the height of the bar m, the lowest of them.\<close>

definition is_rect :: "int list \<Rightarrow> nat \<Rightarrow> nat \<Rightarrow> nat \<Rightarrow> bool" where
  "is_rect h l m r \<longleftrightarrow> l \<le> m \<and> m \<le> r \<and> r < length h \<and> (\<forall>k. l \<le> k \<and> k \<le> r \<longrightarrow> h ! m \<le> h ! k)"

abbreviation area_of :: "int list \<Rightarrow> nat \<Rightarrow> nat \<Rightarrow> nat \<Rightarrow> int" where
  "area_of h l m r \<equiv> h ! m * (int r - int l + 1)"

definition settled :: "int list \<Rightarrow> int \<Rightarrow> nat \<Rightarrow> bool" where
  "settled h a m \<longleftrightarrow> (\<forall>l r. is_rect h l m r \<and> (\<forall>k. l \<le> k \<and> k < m \<longrightarrow> h ! m < h ! k) \<longrightarrow> area_of h l m r \<le> a)"

definition found :: "int list \<Rightarrow> int \<Rightarrow> bool" where
  "found h a \<longleftrightarrow> 0 \<le> a \<and> (a = 0 \<or> (\<exists>l m r. is_rect h l m r \<and> a = area_of h l m r))"

definition hist_ok :: "int list \<Rightarrow> bool" where
  "hist_ok h \<longleftrightarrow> (\<forall>x\<in>set h. 0 \<le> x \<and> x * int (length h) \<le> INT_MAX) \<and> int (length h) < INT_MAX"

text \<open>The invariant of the inner loop at position i and current height c.\<close>

definition pop_inv :: "int list \<Rightarrow> nat \<Rightarrow> int \<Rightarrow> nat list \<Rightarrow> int \<Rightarrow> bool" where
  "pop_inv h i c stk a \<longleftrightarrow> chain h stk \<and> found h a \<and>
     (\<forall>s\<in>set stk. s < i) \<and> (\<forall>m<i. m \<in> set stk \<or> settled h a m) \<and>
     (\<forall>k. below stk \<le> k \<and> k < i \<longrightarrow> c < h ! k) \<and>
     (case stk of [] \<Rightarrow> True | s # _ \<Rightarrow> \<forall>k. s < k \<and> k < i \<longrightarrow> h ! s \<le> h ! k)"

lemma settled_mono: "settled h a m \<Longrightarrow> a \<le> b \<Longrightarrow> settled h b m"
  unfolding settled_def by (meson order_trans)

lemma rect_area_bounds:
  assumes "hist_ok h" "l \<le> r" "r < length h" "m < length h"
  shows "0 \<le> area_of h l m r" "area_of h l m r \<le> INT_MAX"
proof -
  have m: "0 \<le> h ! m" "h ! m * int (length h) \<le> INT_MAX" using assms(1,4) by (auto simp: hist_ok_def)
  have w: "0 \<le> int r - int l + 1" "int r - int l + 1 \<le> int (length h)" using assms(2,3) by auto
  show "0 \<le> area_of h l m r" using m(1) w(1) by simp
  show "area_of h l m r \<le> INT_MAX" using mult_left_mono [OF w(2) m(1)] m(2) by linarith
qed

lemma pop_inv_step:
  assumes h: "hist_ok h" and inv: "pop_inv h i c (s # stk) a" and i: "i \<le> length h" "i < length h \<Longrightarrow> h ! i = c" and gt: "c < h ! s"
  shows "pop_inv h i c stk (max a (area_of h (below stk) s (i - 1)))"
proof -
  let ?l = "below stk" and ?b = "max a (area_of h (below stk) s (i - 1))"
  note inv' = inv [unfolded pop_inv_def]
  have s: "s < i" "?l \<le> s" using inv' by auto
  have up: "h ! s \<le> h ! k" if "s < k" "k < i" for k using inv' that by auto
  have gap: "h ! s < h ! k" if "?l \<le> k" "k < s" for k using inv' that by auto
  have all: "h ! s \<le> h ! k" if "?l \<le> k" "k < i" for k
    using up [of k] gap [of k] that by (cases k s rule: linorder_cases) auto
  have rect: "is_rect h ?l s (i - 1)" using all s i(1) by (auto simp: is_rect_def)
  have "settled h ?b s"
    unfolding settled_def
  proof (intro allI impI)
    fix l r assume *: "is_rect h l s r \<and> (\<forall>k. l \<le> k \<and> k < s \<longrightarrow> h ! s < h ! k)"
    have r: "r < i"
    proof (rule ccontr)
      assume "\<not> r < i"
      then have "i < length h" "h ! s \<le> h ! i" using * s by (auto simp: is_rect_def)
      then show False using i(2) gt by simp
    qed
    have l: "?l \<le> l"
    proof (cases stk)
      case (Cons p stk')
      then have "h ! p \<le> h ! s" "p < s" using inv' by auto
      then have "\<not> l \<le> p" using * by (meson linorder_not_le)
      then show ?thesis using Cons by simp
    qed simp
    have "0 \<le> h ! s" using h s i(1) by (auto simp: hist_ok_def)
    then have "area_of h l s r \<le> area_of h ?l s (i - 1)" using r l by (intro mult_left_mono) auto
    then show "area_of h l s r \<le> ?b" by simp
  qed
  moreover have "found h ?b"
  proof -
    have "?l \<le> i - 1" "i - 1 < length h" "s < length h" using s i(1) by auto
    then have "0 \<le> area_of h ?l s (i - 1)" by (rule rect_area_bounds(1) [OF h])
    then have "found h (area_of h ?l s (i - 1))" using rect unfolding found_def by blast
    then show ?thesis using inv' by (simp add: max_def)
  qed
  moreover have "\<forall>k. ?l \<le> k \<and> k < i \<longrightarrow> c < h ! k" using all gt by force
  moreover have "case stk of [] \<Rightarrow> True | p # _ \<Rightarrow> \<forall>k. p < k \<and> k < i \<longrightarrow> h ! p \<le> h ! k"
  proof (cases stk)
    case (Cons p stk')
    then have "h ! p \<le> h ! s" using inv' by simp
    then show ?thesis using order_trans [OF _ all] Cons by simp
  qed simp
  ultimately show ?thesis
    using inv' settled_mono [of h a _ ?b] unfolding pop_inv_def by auto
qed

lemma area_pop_inv:
  assumes "hist_ok h" "i \<le> length h" "i < length h \<Longrightarrow> h ! i = c"
  shows "pop_inv h i c stk a \<Longrightarrow> \<exists>stk' a'. area_pop h (int i) c (map int stk) a = Some (map int stk', a') \<and>
    pop_inv h i c stk' a' \<and> (case stk' of [] \<Rightarrow> True | s # _ \<Rightarrow> h ! s \<le> c)"
proof (induction stk arbitrary: a)
  case (Cons s stk)
  have s: "s < i" "below stk \<le> s" using Cons.prems by (auto simp: pop_inv_def)
  show ?case
  proof (cases "c < h ! s")
    case True
    have "chk (int i - int (below stk)) = Some (int i - int (below stk))"
      using s assms(1,2) by (intro chk_Some) (auto simp: hist_ok_def)
    then have w: "(case map int stk of [] \<Rightarrow> Some (int i) | p # _ \<Rightarrow> chk (int i - p - 1)) = Some (int i - int (below stk))"
      by (cases stk) (simp_all add: algebra_simps)
    have e: "int (i - 1) - int (below stk) + 1 = int i - int (below stk)" using s by simp
    have "chk (h ! s * (int i - int (below stk))) = Some (h ! s * (int i - int (below stk)))"
      using rect_area_bounds [OF assms(1), of "below stk" "i - 1" s] s assms(2) unfolding e by (intro chk_Some) linarith+
    then show ?thesis
      using Cons.IH [OF pop_inv_step [OF assms(1) Cons.prems assms(2,3) True]] True s assms(2)
      by (simp add: w e)
  next
    case False
    then show ?thesis using Cons.prems s assms(2) by (intro exI [of _ "s # stk"]) auto
  qed
qed (intro exI [of _ "[]"], auto)

definition area_inv :: "int list \<Rightarrow> nat \<Rightarrow> nat list \<Rightarrow> int \<Rightarrow> bool" where
  "area_inv h i stk a \<longleftrightarrow> chain h stk \<and> found h a \<and> below stk = i \<and> (\<forall>s\<in>set stk. s < i) \<and> (\<forall>m<i. m \<in> set stk \<or> settled h a m)"

lemma chain_low: "chain h stk \<Longrightarrow> (case stk of [] \<Rightarrow> True | s # _ \<Rightarrow> h ! s \<le> c) \<Longrightarrow> s \<in> set stk \<Longrightarrow> h ! s \<le> c"
proof (induction stk)
  case (Cons t stk)
  then have "case stk of [] \<Rightarrow> True | p # _ \<Rightarrow> h ! p \<le> c" by (cases stk) auto
  then show ?case using Cons by auto
qed simp

lemma area_loop_inv:
  assumes "hist_ok h"
  shows "area_inv h i stk a \<Longrightarrow> length h = i + k \<Longrightarrow>
    \<exists>b. area_loop h (int i) (int (length h)) (map int stk) a = Some b \<and> found h b \<and> (\<forall>m<length h. settled h b m)"
proof (induction k arbitrary: i stk a)
  case 0
  have i: "i = length h" using 0 by simp
  have "pop_inv h i 0 stk a" using 0 by (auto simp: area_inv_def pop_inv_def split: list.splits)
  then obtain stk' b where p: "area_pop h (int i) 0 (map int stk) a = Some (map int stk', b)" and inv: "pop_inv h i 0 stk' b"
    and low: "case stk' of [] \<Rightarrow> True | s # _ \<Rightarrow> h ! s \<le> 0"
    using area_pop_inv [OF assms, of i 0 stk a] i by auto
  have "settled h b m" if "m < length h" for m
  proof (cases "m \<in> set stk'")
    case True
    then have "h ! m \<le> 0" using inv low chain_low [of h stk' 0 m] by (simp add: pop_inv_def)
    moreover have "0 \<le> h ! m" using that assms by (simp add: hist_ok_def)
    ultimately show ?thesis using inv by (simp add: settled_def pop_inv_def found_def)
  next
    case False
    then show ?thesis using inv that i by (auto simp: pop_inv_def)
  qed
  moreover have "area_loop h (int i) (int (length h)) (map int stk) a = Some b"
    unfolding area_loop.simps [of h "int i"] using p i by (simp add: area_loop.simps [of h "int (length h) + 1"])
  ultimately show ?case using inv by (auto simp: pop_inv_def)
next
  case (Suc k)
  have i: "i < length h" using Suc.prems by simp
  have "pop_inv h i (h ! i) stk a" using Suc.prems by (auto simp: area_inv_def pop_inv_def split: list.splits)
  then obtain stk' b where p: "area_pop h (int i) (h ! i) (map int stk) a = Some (map int stk', b)"
    and inv: "pop_inv h i (h ! i) stk' b" and low: "case stk' of [] \<Rightarrow> True | s # _ \<Rightarrow> h ! s \<le> h ! i"
    using area_pop_inv [OF assms, of i "h ! i" stk a] i by auto
  have "below stk' \<le> i" using inv by (cases stk') (auto simp: pop_inv_def)
  then have "area_inv h (Suc i) (i # stk') b"
    using inv low by (auto simp: area_inv_def pop_inv_def less_Suc_eq split: list.splits)
  then obtain z where "area_loop h (int (Suc i)) (int (length h)) (map int (i # stk')) b = Some z" "found h z"
    "\<forall>m<length h. settled h z m"
    using Suc.IH [of "Suc i" "i # stk'" b] Suc.prems(2) by auto
  then show ?case
    unfolding area_loop.simps [of h "int i"] using p i by (simp add: add.commute)
qed

text \<open>
  Claim: largestRectangleArea returns the area of the largest rectangle: no rectangle under the histogram
  is larger, and the result is 0 or the area of one; no access is out of range and no product overflows
  when the whole histogram fits an int.
\<close>
theorem largestRectangleArea_correct:
  assumes "hist_ok h"
  shows "\<exists>a. largestRectangleArea h = Some a \<and> (\<forall>l m r. is_rect h l m r \<longrightarrow> area_of h l m r \<le> a) \<and>
    (a = 0 \<or> (\<exists>l m r. is_rect h l m r \<and> a = area_of h l m r))"
proof -
  have "chk (int (length h)) = Some (int (length h))" using assms by (intro chk_Some) (auto simp: hist_ok_def)
  moreover have "area_inv h 0 [] 0" by (simp add: area_inv_def found_def)
  ultimately obtain a where a: "largestRectangleArea h = Some a" "found h a" "\<forall>m<length h. settled h a m"
    using area_loop_inv [OF assms, of 0 "[]" 0 "length h"] by (auto simp: largestRectangleArea_def)
  have "area_of h l m r \<le> a" if rect: "is_rect h l m r" for l m r
  proof -
    define m' where "m' = (LEAST k. l \<le> k \<and> k \<le> r \<and> h ! k = h ! m)"
    have m': "l \<le> m' \<and> m' \<le> r \<and> h ! m' = h ! m"
      unfolding m'_def by (rule LeastI [of _ m]) (use rect in \<open>simp add: is_rect_def\<close>)
    have "h ! m' < h ! k" if "l \<le> k" "k < m'" for k
    proof -
      have "k \<le> r" using that m' by simp
      then have "h ! k \<noteq> h ! m" "h ! m \<le> h ! k"
        using not_less_Least [OF that(2) [unfolded m'_def]] that(1) rect by (auto simp: is_rect_def)
      then show ?thesis using m' by simp
    qed
    moreover have "is_rect h l m' r" using rect m' by (simp add: is_rect_def)
    moreover have "m' < length h" using rect m' by (auto simp: is_rect_def)
    ultimately have "area_of h l m' r \<le> a" using a(3) unfolding settled_def by blast
    then show ?thesis using m' by simp
  qed
  then show ?thesis using a by (auto simp: found_def)
qed

theorem largestRectangleArea_correct_witness:
  "\<exists>a. largestRectangleArea [2, 1, 5] = Some a \<and> (\<forall>l m r. is_rect [2, 1, 5] l m r \<longrightarrow> area_of [2, 1, 5] l m r \<le> a)"
  using largestRectangleArea_correct [of "[2, 1, 5]"] by (auto simp: hist_ok_def)

end
