(* ===== verification/Sliding_Window.thy ===== *)
theory Sliding_Window
  imports Prelude
begin

text \<open>
  src/src/dsa/sliding_window.cpp: the maximal sum of a window of fixed size, the longest substring
  without a repeated character, and the maximum of every window kept in a monotonic deque (a list
  whose head is the front).
\<close>

section \<open>Definitions\<close>

function first_window :: "int list \<Rightarrow> int \<Rightarrow> int \<Rightarrow> int \<Rightarrow> int ub" where
  "first_window nums i k window_sum =
     (if i < k then do { x \<leftarrow> vget nums i; s \<leftarrow> chk (window_sum + x); first_window nums (i + 1) k s } else Some window_sum)"
  by pat_completeness auto

termination first_window
  by (relation "measure (\<lambda>(nums, i, k, s). nat (k - i))") auto

function slide :: "int list \<Rightarrow> int \<Rightarrow> int \<Rightarrow> int \<Rightarrow> int \<Rightarrow> int ub" where
  "slide nums i k window_sum max_sum =
     (if i < int (length nums) then do {
        x \<leftarrow> vget nums i;
        y \<leftarrow> vget nums (i - k);
        d \<leftarrow> chk (x - y);
        s \<leftarrow> chk (window_sum + d);
        slide nums (i + 1) k s (max max_sum s) }
      else Some max_sum)"
  by pat_completeness auto

termination slide
  by (relation "measure (\<lambda>(nums, i, k, s, m). nat (int (length nums) - i))") auto

text \<open>The conversion of k to size_t is the residue modulo 2 to the 64.\<close>

definition maxSumSubarray :: "int list \<Rightarrow> int \<Rightarrow> int ub" where
  "maxSumSubarray nums k = do {
     window_sum \<leftarrow> first_window nums 0 k 0;
     slide nums (k mod 18446744073709551616) k window_sum window_sum }"

function substring_loop :: "string \<Rightarrow> (char \<rightharpoonup> int) \<Rightarrow> int \<Rightarrow> int \<Rightarrow> int \<Rightarrow> int ub" where
  "substring_loop s char_index max_len left right =
     (if right < int (length s) then do {
        c \<leftarrow> vget s right;
        let left = (case char_index c of Some p \<Rightarrow> if p \<ge> left then p + 1 else left | None \<Rightarrow> left);
        len \<leftarrow> chk (right - left + 1);
        substring_loop s (char_index(c \<mapsto> right)) (max max_len len) left (right + 1) }
      else Some max_len)"
  by pat_completeness auto

termination substring_loop
  by (relation "measure (\<lambda>(s, char_index, max_len, left, right). nat (int (length s) - right))") auto

definition lengthOfLongestSubstring :: "string \<Rightarrow> int ub" where
  "lengthOfLongestSubstring s = do {
     n \<leftarrow> chk (int (length s));
     substring_loop s Map.empty 0 0 0 }"

fun drop_expired :: "int list \<Rightarrow> int \<Rightarrow> int list" where
  "drop_expired [] lim = []"
| "drop_expired (f # dq) lim = (if f \<le> lim then drop_expired dq lim else f # dq)"

function drop_smaller :: "int list \<Rightarrow> int \<Rightarrow> int list \<Rightarrow> int list ub" where
  "drop_smaller nums x dq =
     (if dq = [] then Some [] else do {
        y \<leftarrow> vget nums (last dq);
        if y \<le> x then drop_smaller nums x (butlast dq) else Some dq })"
  by pat_completeness auto

termination drop_smaller
  by (relation "measure (\<lambda>(nums, x, dq). length dq)") auto

function window_loop :: "int list \<Rightarrow> int \<Rightarrow> int \<Rightarrow> int list \<Rightarrow> int list \<Rightarrow> int list ub" where
  "window_loop nums k i dq result =
     (if i < int (length nums) then do {
        lim \<leftarrow> chk (i - k);
        x \<leftarrow> vget nums i;
        dq' \<leftarrow> drop_smaller nums x (drop_expired dq lim);
        let dq'' = dq' @ [i];
        k1 \<leftarrow> chk (k - 1);
        if i \<ge> k1 then do { m \<leftarrow> vget nums (hd dq''); window_loop nums k (i + 1) dq'' (result @ [m]) }
        else window_loop nums k (i + 1) dq'' result }
      else Some result)"
  by pat_completeness auto

termination window_loop
  by (relation "measure (\<lambda>(nums, k, i, dq, result). nat (int (length nums) - i))") auto

declare first_window.simps [simp del] slide.simps [simp del] substring_loop.simps [simp del]
  drop_smaller.simps [simp del] window_loop.simps [simp del]

definition maxSlidingWindow :: "int list \<Rightarrow> int \<Rightarrow> int list ub" where
  "maxSlidingWindow nums k = do {
     n \<leftarrow> chk (int (length nums));
     window_loop nums k 0 [] [] }"

definition sliding_window_main :: "(int \<times> int list \<times> int list) ub" where
  "sliding_window_main = do {
     s \<leftarrow> maxSumSubarray [2, 1, 5, 1, 3, 2] 3;
     l1 \<leftarrow> lengthOfLongestSubstring ''abcabcbb'';
     l2 \<leftarrow> lengthOfLongestSubstring ''bbbbb'';
     l3 \<leftarrow> lengthOfLongestSubstring ''pwwkew'';
     result \<leftarrow> maxSlidingWindow [1, 3, - 1, - 3, 5, 3, 6, 7] 3;
     Some (s, [l1, l2, l3], result) }"

lemma sliding_window_main_output: "sliding_window_main = Some (9, [3, 1, 3], [3, 3, 5, 5, 6, 7])"
  by code_simp

section \<open>The longest substring without repetition\<close>

definition factor :: "string \<Rightarrow> nat \<Rightarrow> nat \<Rightarrow> string" where
  "factor s l r = take (r - l) (drop l s)"

lemma nth_factor: "r \<le> length s \<Longrightarrow> k < r - l \<Longrightarrow> factor s l r ! k = s ! (l + k)"
  by (simp add: factor_def)

lemma length_factor: "r \<le> length s \<Longrightarrow> length (factor s l r) = r - l"
  by (simp add: factor_def)

lemma distinct_factor:
  "r \<le> length s \<Longrightarrow> distinct (factor s l r) \<longleftrightarrow> (\<forall>i j. l \<le> i \<and> i < j \<and> j < r \<longrightarrow> s ! i \<noteq> s ! j)"
proof
  assume r: "r \<le> length s" and d: "distinct (factor s l r)"
  show "\<forall>i j. l \<le> i \<and> i < j \<and> j < r \<longrightarrow> s ! i \<noteq> s ! j"
  proof (intro allI impI)
    fix i j assume *: "l \<le> i \<and> i < j \<and> j < r"
    then have "factor s l r ! (i - l) \<noteq> factor s l r ! (j - l)"
      using d r by (subst nth_eq_iff_index_eq) (auto simp: length_factor)
    moreover have "factor s l r ! (i - l) = s ! i" "factor s l r ! (j - l) = s ! j"
      using * by (auto simp: nth_factor [OF r])
    ultimately show "s ! i \<noteq> s ! j" by simp
  qed
next
  assume r: "r \<le> length s" and d: "\<forall>i j. l \<le> i \<and> i < j \<and> j < r \<longrightarrow> s ! i \<noteq> s ! j"
  have "factor s l r ! i \<noteq> factor s l r ! j" if "i < j" "j < length (factor s l r)" for i j
    using that r d [rule_format, of "l + i" "l + j"] by (simp add: nth_factor length_factor)
  then show "distinct (factor s l r)" unfolding distinct_conv_nth by (metis linorder_neqE_nat)
qed

text \<open>Last position of each character before r.\<close>

definition index_of :: "string \<Rightarrow> nat \<Rightarrow> (char \<rightharpoonup> int) \<Rightarrow> bool" where
  "index_of s r m \<longleftrightarrow> (\<forall>c p. m c = Some p \<longleftrightarrow> (\<exists>k<r. p = int k \<and> s ! k = c \<and> (\<forall>j. k < j \<and> j < r \<longrightarrow> s ! j \<noteq> c)))"

definition win_inv :: "string \<Rightarrow> (char \<rightharpoonup> int) \<Rightarrow> nat \<Rightarrow> nat \<Rightarrow> nat \<Rightarrow> bool" where
  "win_inv s m best l r \<longleftrightarrow> l \<le> r \<and> index_of s r m \<and> distinct (factor s l r) \<and>
     (\<forall>l'\<le>r. distinct (factor s l' r) \<longrightarrow> l \<le> l') \<and>
     (\<forall>l' r'. l' \<le> r' \<and> r' \<le> r \<and> distinct (factor s l' r') \<longrightarrow> r' - l' \<le> best) \<and>
     (\<exists>l' r'. l' \<le> r' \<and> r' \<le> r \<and> distinct (factor s l' r') \<and> best = r' - l')"

lemma index_of_step:
  assumes "index_of s r m" "r < length s"
  shows "index_of s (Suc r) (m(s ! r \<mapsto> int r))"
  unfolding index_of_def
proof (intro allI)
  fix c p
  show "(m(s ! r \<mapsto> int r)) c = Some p \<longleftrightarrow>
    (\<exists>k<Suc r. p = int k \<and> s ! k = c \<and> (\<forall>j. k < j \<and> j < Suc r \<longrightarrow> s ! j \<noteq> c))"
  proof (cases "c = s ! r")
    case True
    then show ?thesis by (auto simp: less_Suc_eq)
  next
    case False
    then have "(\<exists>k<Suc r. p = int k \<and> s ! k = c \<and> (\<forall>j. k < j \<and> j < Suc r \<longrightarrow> s ! j \<noteq> c)) \<longleftrightarrow>
      (\<exists>k<r. p = int k \<and> s ! k = c \<and> (\<forall>j. k < j \<and> j < r \<longrightarrow> s ! j \<noteq> c))"
      by (auto simp: less_Suc_eq)
    then show ?thesis using False assms(1) unfolding index_of_def by simp
  qed
qed

definition next_left :: "(char \<rightharpoonup> int) \<Rightarrow> char \<Rightarrow> int \<Rightarrow> int" where
  "next_left m c left = (case m c of Some p \<Rightarrow> if p \<ge> left then p + 1 else left | None \<Rightarrow> left)"

lemma next_left_spec:
  assumes "win_inv s m best l r" "r < length s"
  obtains l2 where "next_left m (s ! r) (int l) = int l2" "l \<le> l2" "l2 \<le> r"
    "\<forall>k. l2 \<le> k \<and> k < r \<longrightarrow> s ! k \<noteq> s ! r" "l2 = l \<or> (\<exists>q<r. l2 = Suc q \<and> s ! q = s ! r)"
proof -
  have ix: "index_of s r m" and lr: "l \<le> r" using assms(1) by (auto simp: win_inv_def)
  show ?thesis
  proof (cases "m (s ! r)")
    case None
    have "s ! k \<noteq> s ! r" if "k < r" for k
    proof
      assume "s ! k = s ! r"
      define q where "q = (GREATEST k. k < r \<and> s ! k = s ! r)"
      have q: "q < r \<and> s ! q = s ! r" unfolding q_def
        by (rule GreatestI_nat [of _ k r]) (use that \<open>s ! k = s ! r\<close> in auto)
      have "\<forall>j. q < j \<and> j < r \<longrightarrow> s ! j \<noteq> s ! r"
      proof (intro allI impI notI)
        fix j assume "q < j \<and> j < r" "s ! j = s ! r"
        then have "j \<le> q" unfolding q_def by (intro Greatest_le_nat [of _ j r]) auto
        then show False using \<open>q < j \<and> j < r\<close> by simp
      qed
      then have "m (s ! r) = Some (int q)" using ix q unfolding index_of_def by blast
      then show False using None by simp
    qed
    then show ?thesis using None lr by (intro that [of l]) (auto simp: next_left_def)
  next
    case (Some p)
    then obtain q where q: "q < r" "p = int q" "s ! q = s ! r" "\<forall>j. q < j \<and> j < r \<longrightarrow> s ! j \<noteq> s ! r"
      using ix unfolding index_of_def by blast
    show ?thesis
    proof (cases "l \<le> q")
      case True
      then show ?thesis using Some q by (intro that [of "Suc q"]) (auto simp: next_left_def)
    next
      case False
      then show ?thesis using Some q lr by (intro that [of l]) (auto simp: next_left_def)
    qed
  qed
qed

lemma win_inv_step:
  assumes inv: "win_inv s m best l r" and r: "r < length s" and l2: "next_left m (s ! r) (int l) = int l2"
  shows "win_inv s (m(s ! r \<mapsto> int r)) (max best (Suc r - l2)) l2 (Suc r) \<and> l2 \<le> r"
proof -
  obtain "l \<le> l2" "l2 \<le> r" and new: "\<forall>k. l2 \<le> k \<and> k < r \<longrightarrow> s ! k \<noteq> s ! r"
    and why: "l2 = l \<or> (\<exists>q<r. l2 = Suc q \<and> s ! q = s ! r)"
    using next_left_spec [OF inv r] l2 by (metis of_nat_eq_iff)
  note le = \<open>l \<le> l2\<close> \<open>l2 \<le> r\<close>
  have r': "Suc r \<le> length s" "r \<le> length s" using r by auto
  have d: "\<forall>i j. l \<le> i \<and> i < j \<and> j < r \<longrightarrow> s ! i \<noteq> s ! j"
    using inv distinct_factor [OF r'(2)] by (simp add: win_inv_def)
  have 1: "distinct (factor s l2 (Suc r))"
    unfolding distinct_factor [OF r'(1)] using d new le by (auto simp: less_Suc_eq)
  have 2: "l2 \<le> l'" if "l' \<le> Suc r" "distinct (factor s l' (Suc r))" for l'
  proof -
    have d': "\<forall>i j. l' \<le> i \<and> i < j \<and> j < Suc r \<longrightarrow> s ! i \<noteq> s ! j" using that(2) unfolding distinct_factor [OF r'(1)] .
    from why show ?thesis
    proof
      assume "l2 = l"
      moreover have "distinct (factor s l' r)" unfolding distinct_factor [OF r'(2)] using d' by auto
      then have "l' \<le> r \<Longrightarrow> l \<le> l'" using inv by (simp add: win_inv_def)
      ultimately show ?thesis using le by linarith
    next
      assume "\<exists>q<r. l2 = Suc q \<and> s ! q = s ! r"
      then obtain q where q: "q < r" "l2 = Suc q" "s ! q = s ! r" by blast
      then have "\<not> l' \<le> q" using d' [rule_format, of q r] by auto
      then show ?thesis using q by simp
    qed
  qed
  have old: "\<And>l' r'. l' \<le> r' \<Longrightarrow> r' \<le> r \<Longrightarrow> distinct (factor s l' r') \<Longrightarrow> r' - l' \<le> best"
    using inv unfolding win_inv_def by blast
  have 3: "r' - l' \<le> max best (Suc r - l2)" if "l' \<le> r'" "r' \<le> Suc r" "distinct (factor s l' r')" for l' r'
  proof (cases "r' = Suc r")
    case True
    then have "l2 \<le> l'" using 2 [of l'] that by simp
    then have "Suc r - l' \<le> Suc r - l2" by simp
    then show ?thesis using True by (simp add: le_max_iff_disj)
  next
    case False
    then show ?thesis using old [of l' r'] that by (simp add: max_def)
  qed
  obtain l' r' where "l' \<le> r' \<and> r' \<le> r \<and> distinct (factor s l' r') \<and> best = r' - l'"
    using inv unfolding win_inv_def by blast
  then have 4: "\<exists>l' r'. l' \<le> r' \<and> r' \<le> Suc r \<and> distinct (factor s l' r') \<and> max best (Suc r - l2) = r' - l'"
    using 1 le by (cases "best \<le> Suc r - l2") (auto simp: max_def intro: exI [of _ l'] exI [of _ r'] exI [of _ l2] exI [of _ "Suc r"] le_SucI)
  have ix: "index_of s (Suc r) (m(s ! r \<mapsto> int r))"
    using index_of_step [OF _ r] inv by (simp add: win_inv_def)
  show ?thesis using 1 2 3 4 ix le unfolding win_inv_def by (auto simp only: le_SucI)
qed

lemma substring_loop_inv:
  assumes "int (length s) \<le> INT_MAX"
  shows "win_inv s m best l r \<Longrightarrow> length s = r + k \<Longrightarrow>
    \<exists>b m' l'. substring_loop s m (int best) (int l) (int r) = Some (int b) \<and> win_inv s m' b l' (length s)"
proof (induction k arbitrary: m best l r)
  case 0
  then show ?case by (subst substring_loop.simps) auto
next
  case (Suc k)
  have r: "r < length s" using Suc.prems by simp
  obtain l2 where l2: "next_left m (s ! r) (int l) = int l2" using next_left_spec [OF Suc.prems(1) r] by metis
  note inv = win_inv_step [OF Suc.prems(1) r l2]
  have "chk (int r - int l2 + 1) = Some (int (Suc r - l2))"
    using inv r assms by (subst chk_Some) (auto simp: of_nat_diff)
  then have "substring_loop s m (int best) (int l) (int r) =
      substring_loop s (m(s ! r \<mapsto> int r)) (int (max best (Suc r - l2))) (int l2) (int (Suc r))"
    using r by (subst substring_loop.simps) (simp add: l2 [unfolded next_left_def] add.commute of_nat_max)
  then show ?case using Suc.IH [OF conjunct1 [OF inv]] Suc.prems(2) by (simp only: add_Suc_shift)
qed

text \<open>
  Claim: lengthOfLongestSubstring returns the length of a longest substring of distinct characters.
\<close>
theorem lengthOfLongestSubstring_correct:
  assumes "int (length s) \<le> INT_MAX"
  shows "\<exists>n. lengthOfLongestSubstring s = Some (int n) \<and>
    (\<forall>l r. l \<le> r \<and> r \<le> length s \<and> distinct (factor s l r) \<longrightarrow> r - l \<le> n) \<and>
    (\<exists>l r. l \<le> r \<and> r \<le> length s \<and> distinct (factor s l r) \<and> n = r - l)"
proof -
  have "win_inv s Map.empty 0 0 0" by (auto simp: win_inv_def index_of_def factor_def)
  from substring_loop_inv [OF assms this, of "length s"] obtain b m' l' where
    "substring_loop s Map.empty 0 0 0 = Some (int b)" "win_inv s m' b l' (length s)" by auto
  moreover have "chk (int (length s)) = Some (int (length s))" using assms by (intro chk_Some) auto
  ultimately show ?thesis unfolding win_inv_def by (intro exI [of _ b]) (auto simp: lengthOfLongestSubstring_def)
qed

theorem lengthOfLongestSubstring_correct_witness:
  "\<exists>n. lengthOfLongestSubstring ''abcab'' = Some (int n) \<and> (\<exists>l r. l \<le> r \<and> r \<le> length ''abcab'' \<and>
     distinct (factor ''abcab'' l r) \<and> n = r - l)"
proof -
  have "int (length ''abcab'') \<le> INT_MAX" by simp
  from lengthOfLongestSubstring_correct [OF this] show ?thesis by blast
qed

section \<open>The maximum of every window\<close>

lemma drop_expired_filter: "sorted_wrt (<) q \<Longrightarrow> drop_expired (map int q) lim = map int (filter (\<lambda>p. lim < int p) q)"
proof (induction q)
  case (Cons p q)
  have "filter (\<lambda>p. lim < int p) q = q" if "lim < int p"
    using Cons.prems that by (intro filter_True) auto
  then show ?case using Cons by auto
qed simp

lemma drop_smaller_filter:
  "sorted_wrt (\<lambda>a b. nums ! b < nums ! a) q \<Longrightarrow> \<forall>p\<in>set q. p < length nums \<Longrightarrow>
   drop_smaller nums x (map int q) = Some (map int (filter (\<lambda>p. x < nums ! p) q))"
proof (induction q rule: rev_induct)
  case Nil
  then show ?case by (subst drop_smaller.simps) simp
next
  case (snoc p q)
  have "filter (\<lambda>p. x < nums ! p) q = q" if "x < nums ! p"
    using snoc.prems that by (intro filter_True) (force simp: sorted_wrt_append)
  then show ?case using snoc by (subst drop_smaller.simps) (auto simp: sorted_wrt_append)
qed

definition window_max :: "int list \<Rightarrow> nat \<Rightarrow> nat \<Rightarrow> int" where
  "window_max nums k j = Max (set (take k (drop j nums)))"

definition deque_inv :: "int list \<Rightarrow> nat \<Rightarrow> nat \<Rightarrow> nat list \<Rightarrow> bool" where
  "deque_inv nums k i q \<longleftrightarrow> sorted_wrt (<) q \<and> sorted_wrt (\<lambda>a b. nums ! b < nums ! a) q \<and>
     (\<forall>p\<in>set q. p < i \<and> i \<le> p + k) \<and> (\<forall>j<i. i \<le> j + k \<longrightarrow> (\<exists>p\<in>set q. j \<le> p \<and> nums ! j \<le> nums ! p))"

definition deque_step :: "int list \<Rightarrow> nat \<Rightarrow> nat \<Rightarrow> nat list \<Rightarrow> nat list" where
  "deque_step nums k i q = filter (\<lambda>p. nums ! i < nums ! p) (filter (\<lambda>p. int i - int k < int p) q) @ [i]"

lemma deque_inv_step:
  assumes "deque_inv nums k i q" "i < length nums" "0 < k"
  shows "deque_inv nums k (Suc i) (deque_step nums k i q)"
proof -
  have "\<exists>p\<in>set (deque_step nums k i q). j \<le> p \<and> nums ! j \<le> nums ! p" if "j < Suc i" "Suc i \<le> j + k" for j
  proof (cases "j = i")
    case False
    then have "j < i" "i \<le> j + k" using that by auto
    then obtain p where p: "p \<in> set q" "j \<le> p" "nums ! j \<le> nums ! p"
      using assms(1) unfolding deque_inv_def by blast
    have "int i - int k < int p" using that(2) p(2) by simp
    then show ?thesis using p \<open>j < i\<close> by (cases "nums ! i < nums ! p") (auto simp: deque_step_def)
  qed (simp add: deque_step_def)
  then show ?thesis
    using assms unfolding deque_inv_def
    by (auto simp: deque_step_def sorted_wrt_append sorted_wrt_filter)
qed

lemma set_window: "a + k \<le> length xs \<Longrightarrow> set (take k (drop a xs)) = (!) xs ` {a..<a + k}"
proof -
  assume "a + k \<le> length xs"
  then have "take k (drop a xs) = map ((!) xs) [a..<a + k]" by (intro nth_equalityI) auto
  then show ?thesis by simp
qed

lemma deque_front_max:
  assumes "deque_inv nums k (Suc i) q" "i < length nums" "0 < k" "k \<le> Suc i"
  shows "q \<noteq> [] \<and> hd q < length nums \<and> nums ! hd q = window_max nums k (Suc i - k)"
proof -
  have ex: "\<exists>p\<in>set q. j \<le> p \<and> nums ! j \<le> nums ! p" if "j < Suc i" "Suc i \<le> j + k" for j
    using assms(1) that unfolding deque_inv_def by blast
  have ne: "q \<noteq> []" using ex [of i] assms(3) by auto
  have hd: "hd q < Suc i" "Suc i \<le> hd q + k" using assms(1) ne unfolding deque_inv_def by auto
  have top: "nums ! p \<le> nums ! hd q" if "p \<in> set q" for p
    using assms(1) ne that unfolding deque_inv_def by (cases q) auto
  have s: "set (take k (drop (Suc i - k) nums)) = (!) nums ` {Suc i - k..<Suc i}"
    using set_window [of "Suc i - k" k nums] assms(2,4) by simp
  have "Max (set (take k (drop (Suc i - k) nums))) = nums ! hd q"
    unfolding s
  proof (rule Max_eqI)
    fix y assume "y \<in> (!) nums ` {Suc i - k..<Suc i}"
    then obtain j where "j < Suc i" "Suc i \<le> j + k" "y = nums ! j" by auto
    then show "y \<le> nums ! hd q" using ex [of j] top by fastforce
  qed (use hd in auto)
  then show ?thesis using ne hd assms(2) by (simp add: window_max_def)
qed

lemma window_loop_eq:
  assumes "0 < k" "int k \<le> INT_MAX" "int (length nums) \<le> INT_MAX"
  shows "deque_inv nums k i q \<Longrightarrow> length nums = i + n \<Longrightarrow>
    window_loop nums (int k) (int i) (map int q) (map (window_max nums k) [0..<Suc i - k]) =
      Some (map (window_max nums k) [0..<Suc (length nums) - k])"
proof (induction n arbitrary: i q)
  case 0
  then show ?case by (subst window_loop.simps) simp
next
  case (Suc n)
  have i: "i < length nums" using Suc.prems by simp
  let ?q = "deque_step nums k i q"
  have c: "chk (int i - int k) = Some (int i - int k)" "chk (int k - 1) = Some (int k - 1)"
    using assms i by (auto intro!: chk_Some)
  have "sorted_wrt (\<lambda>a b. nums ! b < nums ! a) (filter (\<lambda>p. int i - int k < int p) q)"
    "\<forall>p\<in>set (filter (\<lambda>p. int i - int k < int p) q). p < length nums" "sorted_wrt (<) q"
    using Suc.prems(1) i unfolding deque_inv_def by (auto intro!: sorted_wrt_filter)
  then have d: "drop_smaller nums (nums ! i) (drop_expired (map int q) (int i - int k)) =
      Some (map int (filter (\<lambda>p. nums ! i < nums ! p) (filter (\<lambda>p. int i - int k < int p) q)))"
    using drop_expired_filter drop_smaller_filter by simp
  have q: "map int (filter (\<lambda>p. nums ! i < nums ! p) (filter (\<lambda>p. int i - int k < int p) q)) @ [int i] = map int ?q"
    by (simp add: deque_step_def)
  have inv: "deque_inv nums k (Suc i) ?q" by (rule deque_inv_step [OF Suc.prems(1) i assms(1)])
  have next': "int i + 1 = int (Suc i)" by simp
  have IH: "window_loop nums (int k) (int (Suc i)) (map int ?q) (map (window_max nums k) [0..<Suc (Suc i) - k]) =
      Some (map (window_max nums k) [0..<Suc (length nums) - k])"
    using Suc.IH [OF inv] Suc.prems(2) by simp
  have unf: "window_loop nums (int k) (int i) (map int q) r =
     (if int i \<ge> int k - 1 then do { m \<leftarrow> vget nums (hd (map int ?q)); window_loop nums (int k) (int (Suc i)) (map int ?q) (r @ [m]) }
      else window_loop nums (int k) (int (Suc i)) (map int ?q) r)" for r
    unfolding window_loop.simps [of nums "int k" "int i"] next' using i
    by (simp only: of_nat_less_iff if_True c d Option.bind.bind_lunit vget_int Let_def q)
  show ?case
  proof (cases "k \<le> Suc i")
    case True
    note front = deque_front_max [OF inv i assms(1) True]
    then have "vget nums (hd (map int ?q)) = Some (window_max nums k (Suc i - k))" by (simp add: hd_map)
    moreover have "map (window_max nums k) [0..<Suc (Suc i) - k] = map (window_max nums k) [0..<Suc i - k] @ [window_max nums k (Suc i - k)]"
      using True by (simp add: Suc_diff_le)
    ultimately show ?thesis using True IH unfolding unf by simp
  next
    case False
    then have "int i < int k - 1" "Suc i - k = Suc (Suc i) - k" by auto
    then show ?thesis using IH unfolding unf by simp
  qed
qed

text \<open>
  Claim: for a positive window width, maxSlidingWindow returns the maximum of every window of that many
  entries, from left to right; the deque never holds an expired or an out-of-range index.
\<close>
theorem maxSlidingWindow_correct:
  assumes "0 < k" "int k \<le> INT_MAX" "int (length nums) \<le> INT_MAX"
  shows "maxSlidingWindow nums (int k) = Some (map (\<lambda>j. Max (set (take k (drop j nums)))) [0..<Suc (length nums) - k])"
proof -
  have "deque_inv nums k 0 []" by (simp add: deque_inv_def)
  moreover have "[0..<Suc 0 - k] = []" using assms(1) by simp
  ultimately show ?thesis
    using window_loop_eq [OF assms, of 0 "[]" "length nums"] chk_Some [of "int (length nums)"] assms(3)
    by (simp add: maxSlidingWindow_def window_max_def [abs_def])
qed

theorem maxSlidingWindow_correct_witness:
  "maxSlidingWindow [1, 3, - 1, - 3, 5] 3 = Some [3, 3, 5]"
  using maxSlidingWindow_correct [of 3 "[1, 3, - 1, - 3, 5]"] by simp

end
