(* ===== verification/Segment_Tree.thy ===== *)
theory Segment_Tree
  imports Prelude
begin

text \<open>
  src/src/dsa/segment_tree.cpp: the array-backed segment tree. The operation of the template and the
  addition of its element type are arguments, both fallible; the recursions are partial functions, since
  over an empty array they do not end.
\<close>

section \<open>Definitions\<close>

type_synonym 'a binop = "'a \<Rightarrow> 'a \<Rightarrow> 'a ub"

record 'a seg_tree =
  tree :: "'a list"
  len :: int
  identity :: 'a

text \<open>Division by 2 truncates towards 0.\<close>

definition half :: "int \<Rightarrow> int" where
  "half x = (if x < 0 then - ((- x) div 2) else x div 2)"

partial_function (option) build :: "'a binop \<Rightarrow> 'a list \<Rightarrow> 'a list \<Rightarrow> int \<Rightarrow> int \<Rightarrow> int \<Rightarrow> 'a list option" where
  "build oper arr t node s e =
     (if s = e then do { x \<leftarrow> vget arr s; vset t node x }
      else do {
        se \<leftarrow> chk (s + e);
        let mid = half se;
        l \<leftarrow> chk (2 * node);
        t \<leftarrow> build oper arr t l s mid;
        r \<leftarrow> chk (2 * node + 1);
        t \<leftarrow> build oper arr t r (mid + 1) e;
        a \<leftarrow> vget t l;
        b \<leftarrow> vget t r;
        x \<leftarrow> oper a b;
        vset t node x })"

partial_function (option) update_node :: "'a binop \<Rightarrow> 'a binop \<Rightarrow> 'a list \<Rightarrow> int \<Rightarrow> int \<Rightarrow> int \<Rightarrow> int \<Rightarrow> 'a \<Rightarrow> 'a list option" where
  "update_node oper add t node s e idx v =
     (if s = e then do { x \<leftarrow> vget t node; y \<leftarrow> add x v; vset t node y }
      else do {
        se \<leftarrow> chk (s + e);
        let mid = half se;
        l \<leftarrow> chk (2 * node);
        r \<leftarrow> chk (2 * node + 1);
        t \<leftarrow> (if idx \<le> mid then update_node oper add t l s mid idx v else update_node oper add t r (mid + 1) e idx v);
        a \<leftarrow> vget t l;
        b \<leftarrow> vget t r;
        x \<leftarrow> oper a b;
        vset t node x })"

partial_function (option) query_node :: "'a binop \<Rightarrow> 'a \<Rightarrow> 'a list \<Rightarrow> int \<Rightarrow> int \<Rightarrow> int \<Rightarrow> int \<Rightarrow> int \<Rightarrow> 'a option" where
  "query_node oper idn t node s e lo hi =
     (if hi < s \<or> e < lo then Some idn
      else if lo \<le> s \<and> e \<le> hi then vget t node
      else do {
        se \<leftarrow> chk (s + e);
        let mid = half se;
        l \<leftarrow> chk (2 * node);
        a \<leftarrow> query_node oper idn t l s mid lo hi;
        r \<leftarrow> chk (2 * node + 1);
        b \<leftarrow> query_node oper idn t r (mid + 1) e lo hi;
        oper a b })"

declare build.simps [code] update_node.simps [code] query_node.simps [code]

definition SegmentTree :: "'a binop \<Rightarrow> 'a list \<Rightarrow> 'a \<Rightarrow> 'a seg_tree ub" where
  "SegmentTree oper arr idn = do {
     n \<leftarrow> chk (int (length arr));
     size \<leftarrow> chk (4 * n);
     t \<leftarrow> build oper arr (replicate (nat size) idn) 1 0 (n - 1);
     Some \<lparr>tree = t, len = n, identity = idn\<rparr> }"

definition update :: "'a binop \<Rightarrow> 'a binop \<Rightarrow> 'a seg_tree \<Rightarrow> int \<Rightarrow> 'a \<Rightarrow> 'a seg_tree ub" where
  "update oper add st idx v = do {
     t \<leftarrow> update_node oper add (tree st) 1 0 (len st - 1) idx v;
     Some (st\<lparr>tree := t\<rparr>) }"

definition query :: "'a binop \<Rightarrow> 'a seg_tree \<Rightarrow> int \<Rightarrow> int \<Rightarrow> 'a ub" where
  "query oper st l r = query_node oper (identity st) (tree st) 1 0 (len st - 1) l r"

definition size_of :: "'a seg_tree \<Rightarrow> int" where
  "size_of st = len st"

text \<open>std::plus and operator+= on int, and the lambda of main.\<close>

definition plus_op :: "int binop" where
  "plus_op a b = chk (a + b)"

definition minOp :: "int binop" where
  "minOp a b = Some (min a b)"

definition segment_tree_main :: "(int list \<times> int list \<times> int list) ub" where
  "segment_tree_main = do {
     let arr = [1, 3, 5, 7, 9, 11];
     st \<leftarrow> SegmentTree plus_op arr 0;
     s1 \<leftarrow> query plus_op st 0 2;
     s2 \<leftarrow> query plus_op st 1 4;
     s3 \<leftarrow> query plus_op st 0 5;
     s4 \<leftarrow> query plus_op st 3 3;
     st \<leftarrow> update plus_op plus_op st 2 5;
     u1 \<leftarrow> query plus_op st 0 2;
     u2 \<leftarrow> query plus_op st 0 5;
     minTree \<leftarrow> SegmentTree minOp arr 2147483647;
     m1 \<leftarrow> query minOp minTree 0 5;
     m2 \<leftarrow> query minOp minTree 2 4;
     Some ([s1, s2, s3, s4], [u1, u2], [m1, m2]) }"

text \<open>A client: a sequence of updates and queries, with the answers to the queries.\<close>

datatype 'a seg_op = Update int 'a | Query int int

fun seg_run :: "'a binop \<Rightarrow> 'a binop \<Rightarrow> 'a seg_tree \<Rightarrow> 'a seg_op list \<Rightarrow> 'a list ub" where
  "seg_run oper add st [] = Some []"
| "seg_run oper add st (Update idx v # ops) = do { st' \<leftarrow> update oper add st idx v; seg_run oper add st' ops }"
| "seg_run oper add st (Query l r # ops) = do { x \<leftarrow> query oper st l r; xs \<leftarrow> seg_run oper add st ops; Some (x # xs) }"

lemma segment_tree_main_output: "segment_tree_main = Some ([9, 24, 36, 7], [14, 41], [1, 5])"
  by code_simp

section \<open>The nodes below a node\<close>

definition sub :: "nat \<Rightarrow> nat \<Rightarrow> bool" where
  "sub node j \<longleftrightarrow> (\<exists>k. j div 2 ^ k = node)"

lemma sub_refl [simp]: "sub node node"
  unfolding sub_def by (rule exI [of _ 0]) simp

lemma sub_half: "sub node j \<Longrightarrow> sub (node div 2) j"
  unfolding sub_def by (metis div_mult2_eq power_Suc2)

lemma sub_left: "sub (2 * node) j \<Longrightarrow> sub node j"
  using sub_half [of "2 * node" j] by simp

lemma sub_right: "sub (Suc (2 * node)) j \<Longrightarrow> sub node j"
  using sub_half [of "Suc (2 * node)" j] by simp

lemma sub_ge: "sub node j \<Longrightarrow> node \<le> j"
  unfolding sub_def by (auto intro: div_le_dividend)

lemma sub_disjoint:
  assumes "0 < node" "sub (2 * node) j" "sub (Suc (2 * node)) j"
  shows False
proof -
  obtain k l where k: "j div 2 ^ k = 2 * node" and l: "j div 2 ^ l = Suc (2 * node)"
    using assms(2,3) by (auto simp: sub_def)
  have shrink: "x div 2 ^ Suc d \<le> x div 2" for x d :: nat
    by (metis div_le_dividend div_mult2_eq power_Suc)
  consider "k = l" | d where "l = k + Suc d" | d where "k = l + Suc d"
    by (metis add_Suc_right less_imp_Suc_add linorder_neqE_nat)
  then show False
  proof cases
    case 1
    then show False using k l by simp
  next
    case (2 d)
    then have "Suc (2 * node) = (2 * node) div 2 ^ Suc d" using k l by (metis div_mult2_eq power_add)
    moreover have "(2 * node) div 2 ^ Suc d \<le> node" using shrink [of "2 * node" d] by (simp del: power_Suc)
    ultimately show False by linarith
  next
    case (3 d)
    then have "2 * node = Suc (2 * node) div 2 ^ Suc d" using k l by (metis div_mult2_eq power_add)
    moreover have "Suc (2 * node) div 2 ^ Suc d \<le> node" using shrink [of "Suc (2 * node)" d] by (simp del: power_Suc)
    ultimately show False using assms(1) by simp
  qed
qed

text \<open>
  The same client on a plain list, with the function that answers a query, and the condition that its
  updates stay in the vector and keep the results in range.
\<close>

fun spec_run :: "'a binop \<Rightarrow> ('a list \<Rightarrow> nat \<Rightarrow> nat \<Rightarrow> 'a) \<Rightarrow> 'a list \<Rightarrow> 'a seg_op list \<Rightarrow> 'a list" where
  "spec_run add rng arr [] = []"
| "spec_run add rng arr (Update idx v # ops) = spec_run add rng (arr[nat idx := the (add (arr ! nat idx) v)]) ops"
| "spec_run add rng arr (Query l r # ops) = rng arr (nat l) (min (length arr) (nat (r + 1))) # spec_run add rng arr ops"

fun run_ok :: "'a binop \<Rightarrow> ('a list \<Rightarrow> bool) \<Rightarrow> 'a list \<Rightarrow> 'a seg_op list \<Rightarrow> bool" where
  "run_ok add fits arr [] \<longleftrightarrow> True"
| "run_ok add fits arr (Update idx v # ops) \<longleftrightarrow> 0 \<le> idx \<and> idx < int (length arr) \<and> add (arr ! nat idx) v \<noteq> None \<and>
     fits (arr[nat idx := the (add (arr ! nat idx) v)]) \<and> run_ok add fits (arr[nat idx := the (add (arr ! nat idx) v)]) ops"
| "run_ok add fits arr (Query l r # ops) \<longleftrightarrow> run_ok add fits arr ops"

section \<open>The interface of the element type\<close>

text \<open>The results that fit the type, and the function the operation computes on them.\<close>

locale segment_ops =
  fixes oper :: "'a binop" and f :: "'a \<Rightarrow> 'a \<Rightarrow> 'a" and idn :: 'a and good :: "'a \<Rightarrow> bool"
  assumes oper_good: "good a \<Longrightarrow> good b \<Longrightarrow> good (f a b) \<Longrightarrow> oper a b = Some (f a b)"
    and assoc: "f (f a b) c = f a (f b c)"
    and left_id: "good a \<Longrightarrow> f idn a = a"
    and right_id: "good a \<Longrightarrow> f a idn = a"
    and good_id: "good idn"
begin

text \<open>The value of the entries from position s up to, not including, e.\<close>

definition rfold :: "'a list \<Rightarrow> nat \<Rightarrow> nat \<Rightarrow> 'a" where
  "rfold arr s e = foldr (\<lambda>i. f (arr ! i)) [s..<e] idn"

definition fits :: "'a list \<Rightarrow> bool" where
  "fits arr \<longleftrightarrow> (\<forall>x\<in>set arr. good x) \<and> (\<forall>s e. s \<le> e \<and> e \<le> length arr \<longrightarrow> good (rfold arr s e))"

lemma rfold_good: "fits arr \<Longrightarrow> s \<le> e \<Longrightarrow> e \<le> length arr \<Longrightarrow> good (rfold arr s e)"
  by (simp add: fits_def)

lemma rfold_single: "fits arr \<Longrightarrow> s < length arr \<Longrightarrow> rfold arr s (Suc s) = arr ! s"
  by (simp add: rfold_def fits_def right_id)

lemma rfold_empty [simp]: "e \<le> s \<Longrightarrow> rfold arr s e = idn"
  by (simp add: rfold_def)

lemma rfold_Cons: "s < e \<Longrightarrow> rfold arr s e = f (arr ! s) (rfold arr (Suc s) e)"
  by (simp add: rfold_def upt_conv_Cons)

lemma rfold_append:
  "fits arr \<Longrightarrow> s \<le> m \<Longrightarrow> m \<le> e \<Longrightarrow> e \<le> length arr \<Longrightarrow> f (rfold arr s m) (rfold arr m e) = rfold arr s e"
proof (induction "m - s" arbitrary: s)
  case 0
  then show ?case by (simp add: left_id rfold_good)
next
  case (Suc k)
  then have "s < m" "s < e" by auto
  then show ?case using Suc by (simp add: rfold_Cons [of s] assoc)
qed

lemma oper_rfold:
  "fits arr \<Longrightarrow> s \<le> m \<Longrightarrow> m \<le> e \<Longrightarrow> e \<le> length arr \<Longrightarrow> oper (rfold arr s m) (rfold arr m e) = Some (rfold arr s e)"
  using oper_good [of "rfold arr s m" "rfold arr m e"] by (simp add: rfold_append rfold_good)

text \<open>Node \<^term>\<open>node\<close> of the tree covers the positions from s up to e, and so do its descendants for their halves.\<close>

function rep :: "'a list \<Rightarrow> 'a list \<Rightarrow> nat \<Rightarrow> nat \<Rightarrow> nat \<Rightarrow> bool" where
  "rep arr t node s e \<longleftrightarrow> node < length t \<and> t ! node = rfold arr s e \<and>
     (Suc s < e \<longrightarrow> rep arr t (2 * node) s (Suc ((s + e - 1) div 2)) \<and> rep arr t (Suc (2 * node)) (Suc ((s + e - 1) div 2)) e)"
  by pat_completeness auto

termination rep
  by (relation "measure (\<lambda>(arr, t, node, s, e). e - s)") auto

declare rep.simps [simp del]

lemma repD: "rep arr t node s e \<Longrightarrow> node < length t \<and> t ! node = rfold arr s e"
  by (subst (asm) rep.simps) blast

lemma rep_cong:
  "length t' = length t \<Longrightarrow> (\<And>j. sub node j \<Longrightarrow> t' ! j = t ! j) \<Longrightarrow> (\<And>i. s \<le> i \<Longrightarrow> i < e \<Longrightarrow> arr' ! i = arr ! i) \<Longrightarrow>
   rep arr t node s e \<Longrightarrow> rep arr' t' node s e"
proof (induction arr t node s e rule: rep.induct)
  case (1 arr t node s e)
  let ?m = "Suc ((s + e - 1) div 2)"
  have r: "rfold arr' s e = rfold arr s e" unfolding rfold_def by (rule foldr_cong) (auto simp: "1.prems"(3))
  have "rep arr' t' (2 * node) s ?m \<and> rep arr' t' (Suc (2 * node)) ?m e" if e: "Suc s < e"
  proof
    have m: "s < ?m" "?m < e" using e by auto
    have h: "rep arr t (2 * node) s ?m" "rep arr t (Suc (2 * node)) ?m e"
      using "1.prems"(4) e by (simp_all add: rep.simps [of arr t node])
    show "rep arr' t' (2 * node) s ?m"
      by (rule "1.IH"(1) [OF e "1.prems"(1) "1.prems"(2) "1.prems"(3) h(1)]) (use m in \<open>auto intro: sub_left\<close>)
    show "rep arr' t' (Suc (2 * node)) ?m e"
      by (rule "1.IH"(2) [OF e "1.prems"(1) "1.prems"(2) "1.prems"(3) h(2)]) (use m in \<open>auto intro: sub_right\<close>)
  qed
  then show ?case using "1.prems"(1,2,4) r by (simp add: rep.simps [of _ _ node])
qed

text \<open>Enough room for the descendants of a node over at most 2 to the d entries.\<close>

definition room :: "'a list \<Rightarrow> nat \<Rightarrow> nat \<Rightarrow> nat \<Rightarrow> bool" where
  "room t node s e \<longleftrightarrow> (\<exists>d. e - s \<le> 2 ^ d \<and> Suc node * 2 ^ d \<le> length t) \<and> int (length t) \<le> INT_MAX"

lemma room_node: "room t node s e \<Longrightarrow> node < length t"
  unfolding room_def by (metis Suc_le_eq le_trans mult.right_neutral mult_le_mono2 one_le_numeral one_le_power)

lemma room_halves:
  assumes "room t node s e" "Suc s < e" "m = Suc ((s + e - 1) div 2)"
  shows "room t (2 * node) s m" "room t (Suc (2 * node)) m e"
proof -
  obtain d where d: "e - s \<le> 2 ^ d" "Suc node * 2 ^ d \<le> length t" "int (length t) \<le> INT_MAX"
    using assms(1) by (auto simp: room_def)
  then obtain d' where d': "d = Suc d'" using assms(2) by (cases d) auto
  have le: "m - s \<le> 2 ^ d'" "e - m \<le> 2 ^ d'" using d(1) d' assms(2,3) by auto
  have *: "Suc (Suc (2 * node)) * 2 ^ d' \<le> length t" using d(2) d' by (simp add: algebra_simps)
  moreover have "Suc (2 * node) * 2 ^ d' \<le> Suc (Suc (2 * node)) * 2 ^ d'" by simp
  ultimately have "Suc (2 * node) * 2 ^ d' \<le> length t" by linarith
  then show "room t (2 * node) s m" using le d(3) by (auto simp: room_def)
  show "room t (Suc (2 * node)) m e" using le d(3) * by (auto simp: room_def)
qed

lemma split_range:
  assumes "Suc s < e" "2 * int e \<le> INT_MAX" "m = Suc ((s + e - 1) div 2)"
  shows "s < m" "m < e" "chk (int s + (int e - 1)) = Some (int s + (int e - 1))"
    "half (int s + (int e - 1)) = int m - 1" "int m - 1 + 1 = int m"
proof -
  show "s < m" "m < e" using assms(1,3) by auto
  show "chk (int s + (int e - 1)) = Some (int s + (int e - 1))" using assms(1,2) by (intro chk_Some) auto
  have "int s + (int e - 1) = int (s + e - 1)" using assms(1) by auto
  then show "half (int s + (int e - 1)) = int m - 1" unfolding half_def assms(3) by (simp add: zdiv_int)
qed simp

lemma room_children:
  assumes "room t node s e" "Suc s < e"
  shows "chk (2 * int node) = Some (int (2 * node))" "chk (2 * int node + 1) = Some (int (Suc (2 * node)))"
proof -
  have "Suc (2 * node) < length t" using room_node [OF room_halves(2) [OF assms refl]] .
  then show "chk (2 * int node) = Some (int (2 * node))" "chk (2 * int node + 1) = Some (int (Suc (2 * node)))"
    using assms(1) by (auto simp: room_def chk_def in_int_def)
qed

lemma combine:
  assumes fits: "fits arr" "s \<le> m" "m \<le> e" "e \<le> length arr" and node: "0 < node" "node < length t"
    and l: "rep arr t (2 * node) s m" and r: "rep arr t (Suc (2 * node)) m e" and m: "m = Suc ((s + e - 1) div 2)"
  shows "vget t (int (2 * node)) = Some (rfold arr s m)" "vget t (int (Suc (2 * node))) = Some (rfold arr m e)"
    "vset t (int node) (rfold arr s e) = Some (t[node := rfold arr s e])" "rep arr (t[node := rfold arr s e]) node s e"
proof -
  have v: "2 * node < length t" "t ! (2 * node) = rfold arr s m" "Suc (2 * node) < length t" "t ! Suc (2 * node) = rfold arr m e"
    using repD [OF l] repD [OF r] by simp_all
  then show "vget t (int (2 * node)) = Some (rfold arr s m)" "vget t (int (Suc (2 * node))) = Some (rfold arr m e)"
    by (simp_all only: vget_int if_True)
  show "vset t (int node) (rfold arr s e) = Some (t[node := rfold arr s e])" using node by simp
  have ns: "\<not> sub (2 * node) node" "\<not> sub (Suc (2 * node)) node" using sub_ge node(1) by fastforce+
  have "rep arr (t[node := rfold arr s e]) (2 * node) s m"
    by (rule rep_cong [OF length_list_update _ _ l]) (use ns in \<open>auto intro!: nth_list_update_neq\<close>)
  moreover have "rep arr (t[node := rfold arr s e]) (Suc (2 * node)) m e"
    by (rule rep_cong [OF length_list_update _ _ r]) (use ns in \<open>auto intro!: nth_list_update_neq\<close>)
  ultimately show "rep arr (t[node := rfold arr s e]) node s e" using node m by (subst rep.simps) simp
qed

lemma build_ok:
  assumes "fits arr" "2 * int (length arr) \<le> INT_MAX"
  shows "s < e \<Longrightarrow> e \<le> length arr \<Longrightarrow> room t node s e \<Longrightarrow> 0 < node \<Longrightarrow>
    \<exists>t'. build oper arr t (int node) (int s) (int e - 1) = Some t' \<and> length t' = length t \<and> rep arr t' node s e \<and>
      (\<forall>j. \<not> sub node j \<longrightarrow> t' ! j = t ! j)"
proof (induction "e - s" arbitrary: t node s e rule: less_induct)
  case less
  have node: "node < length t" by (rule room_node [OF less.prems(3)])
  show ?case
  proof (cases "Suc s = e")
    case True
    then have "build oper arr t (int node) (int s) (int e - 1) = Some (t[node := arr ! s])"
      using node less.prems by (subst build.simps) auto
    moreover have "rep arr (t[node := arr ! s]) node s e"
      using True node less.prems rfold_single [OF assms(1), of s] by (subst rep.simps) auto
    moreover have "\<forall>j. \<not> sub node j \<longrightarrow> t[node := arr ! s] ! j = t ! j" using sub_refl nth_list_update_neq by metis
    ultimately show ?thesis by simp
  next
    case False
    define m where m: "m = Suc ((s + e - 1) div 2)"
    have e: "Suc s < e" using False less.prems(1) by simp
    have e2: "2 * int e \<le> INT_MAX" using less.prems(2) assms(2) by simp
    note sp = split_range [OF e e2 m] and room = room_halves [OF less.prems(3) e m] and ch = room_children [OF less.prems(3) e]
    have lt: "m - s < e - s" "e - m < e - s" using sp(1,2) by auto
    obtain t1 where t1: "build oper arr t (int (2 * node)) (int s) (int m - 1) = Some t1" "length t1 = length t"
      "rep arr t1 (2 * node) s m" "\<forall>j. \<not> sub (2 * node) j \<longrightarrow> t1 ! j = t ! j"
      using less.hyps [OF lt(1) sp(1) _ room(1)] sp(2) less.prems by auto
    have "room t1 (Suc (2 * node)) m e" using room(2) t1(2) by (simp add: room_def)
    then obtain t2 where t2: "build oper arr t1 (int (Suc (2 * node))) (int m) (int e - 1) = Some t2" "length t2 = length t1"
      "rep arr t2 (Suc (2 * node)) m e" "\<forall>j. \<not> sub (Suc (2 * node)) j \<longrightarrow> t2 ! j = t1 ! j"
      using less.hyps [OF lt(2) sp(2) less.prems(2), of t1 "Suc (2 * node)"] by auto
    have left: "rep arr t2 (2 * node) s m"
      by (rule rep_cong [OF t2(2) _ _ t1(3)]) (use t2(4) sub_disjoint less.prems(4) in \<open>auto simp del: mult_Suc_right\<close>)
    have "node < length t2" using node t1(2) t2(2) by simp
    note c = combine [OF assms(1) less_imp_le [OF sp(1)] less_imp_le [OF sp(2)] less.prems(2,4) this left t2(3) m]
    have ne: "int s \<noteq> int e - 1" using e by simp
    have "build oper arr t (int node) (int s) (int e - 1) = Some (t2[node := rfold arr s e])"
      unfolding build.simps [of _ _ _ "int node"] sp(3) Option.bind.bind_lunit Let_def sp(4) ch t1(1) sp(5) t2(1) c(1,2)
        oper_rfold [OF assms(1) less_imp_le [OF sp(1)] less_imp_le [OF sp(2)] less.prems(2)] c(3)
      by (rule if_not_P [OF ne])
    moreover have "\<forall>j. \<not> sub node j \<longrightarrow> (t2[node := rfold arr s e]) ! j = t ! j"
      using t1(4) t2(4) sub_left sub_right sub_refl by (metis nth_list_update_neq)
    ultimately show ?thesis using c(4) t1(2) t2(2) by auto
  qed
qed

lemma update_node_ok:
  assumes new: "add (arr ! idx) v = Some x" "arr' = arr[idx := x]" and fits: "fits arr'" and len: "2 * int (length arr) \<le> INT_MAX"
  shows "rep arr t node s e \<Longrightarrow> s \<le> idx \<Longrightarrow> idx < e \<Longrightarrow> e \<le> length arr \<Longrightarrow> room t node s e \<Longrightarrow> 0 < node \<Longrightarrow>
    fits arr \<Longrightarrow> \<exists>t'. update_node oper add t (int node) (int s) (int e - 1) (int idx) v = Some t' \<and> length t' = length t \<and>
      rep arr' t' node s e \<and> (\<forall>j. \<not> sub node j \<longrightarrow> t' ! j = t ! j)"
proof (induction "e - s" arbitrary: t node s e rule: less_induct)
  case less
  note fits' = fits and prems = less.prems
  have len': "length arr' = length arr" by (simp add: new(2))
  have node: "node < length t" "t ! node = rfold arr s e" using repD [OF prems(1)] by auto
  show ?case
  proof (cases "Suc s = e")
    case True
    then have idx: "idx = s" "s < length arr" using prems(2-4) by auto
    have "t ! node = arr ! s" using node(2) rfold_single [OF prems(7) idx(2)] True by simp
    then have "update_node oper add t (int node) (int s) (int e - 1) (int idx) v = Some (t[node := x])"
      using node True new(1) idx by (subst update_node.simps) auto
    moreover have "rep arr' (t[node := x]) node s e"
      using True node idx rfold_single [OF fits', of s] by (subst rep.simps) (auto simp: new(2))
    moreover have "\<forall>j. \<not> sub node j \<longrightarrow> t[node := x] ! j = t ! j" using sub_refl nth_list_update_neq by metis
    ultimately show ?thesis by simp
  next
    case False
    define m where m: "m = Suc ((s + e - 1) div 2)"
    have e: "Suc s < e" using False prems(2,3) by simp
    have e2: "2 * int e \<le> INT_MAX" using prems(4) len by simp
    note sp = split_range [OF e e2 m] and room = room_halves [OF prems(5) e m] and ch = room_children [OF prems(5) e]
    have lt: "m - s < e - s" "e - m < e - s" using sp(1,2) by auto
    have sub_reps: "rep arr t (2 * node) s m" "rep arr t (Suc (2 * node)) m e"
      using prems(1) e by (simp_all add: rep.simps [of arr t node] m)
    have same: "arr' ! i = arr ! i" if "i \<noteq> idx" for i using that by (simp add: new(2))
    have ne: "int s \<noteq> int e - 1" using e by simp
    let ?rec = "if int idx \<le> int m - 1 then update_node oper add t (int (2 * node)) (int s) (int m - 1) (int idx) v
      else update_node oper add t (int (Suc (2 * node))) (int m) (int e - 1) (int idx) v"
    have "\<exists>t2. ?rec = Some t2 \<and> length t2 = length t \<and> rep arr' t2 (2 * node) s m \<and> rep arr' t2 (Suc (2 * node)) m e \<and>
      (\<forall>j. \<not> sub node j \<longrightarrow> t2 ! j = t ! j)"
    proof (cases "idx < m")
      case True
      then obtain t1 where t1: "update_node oper add t (int (2 * node)) (int s) (int m - 1) (int idx) v = Some t1"
        "length t1 = length t" "rep arr' t1 (2 * node) s m" "\<forall>j. \<not> sub (2 * node) j \<longrightarrow> t1 ! j = t ! j"
        using less.hyps [OF lt(1) sub_reps(1) prems(2) True _ room(1) _ prems(7)] sp(2) prems(4,6) by auto
      have "rep arr' t1 (Suc (2 * node)) m e"
        by (rule rep_cong [OF t1(2) _ _ sub_reps(2)]) (use t1(4) sub_disjoint prems(6) True same in auto)
      then show ?thesis using t1 True sub_left by auto
    next
      case False
      then obtain t1 where t1: "update_node oper add t (int (Suc (2 * node))) (int m) (int e - 1) (int idx) v = Some t1"
        "length t1 = length t" "rep arr' t1 (Suc (2 * node)) m e" "\<forall>j. \<not> sub (Suc (2 * node)) j \<longrightarrow> t1 ! j = t ! j"
        using less.hyps [OF lt(2) sub_reps(2) _ prems(3,4) room(2) _ prems(7)] prems(4,6) by auto
      have "rep arr' t1 (2 * node) s m"
        by (rule rep_cong [OF t1(2) _ _ sub_reps(1)]) (use t1(4) sub_disjoint prems(6) False same in auto)
      moreover have "\<forall>j. \<not> sub node j \<longrightarrow> t1 ! j = t ! j" using t1(4) sub_right by blast
      moreover have "\<not> int idx \<le> int m - 1" using False by linarith
      ultimately show ?thesis using t1(1-3) by (intro exI [of _ t1]) (simp only: if_False simp_thms)
    qed
    then obtain t2 where t2: "?rec = Some t2" "length t2 = length t" "rep arr' t2 (2 * node) s m"
      "rep arr' t2 (Suc (2 * node)) m e" "\<forall>j. \<not> sub node j \<longrightarrow> t2 ! j = t ! j" by blast
    have "node < length t2" "e \<le> length arr'" using node t2(2) prems(4) len' by simp_all
    note c = combine [OF fits' less_imp_le [OF sp(1)] less_imp_le [OF sp(2)] this(2) prems(6) this(1) t2(3,4) m]
    have "update_node oper add t (int node) (int s) (int e - 1) (int idx) v = Some (t2[node := rfold arr' s e])"
      unfolding update_node.simps [of _ _ _ "int node"] sp(3) Option.bind.bind_lunit Let_def sp(4) ch sp(5) t2(1) c(1,2)
        oper_rfold [OF fits' less_imp_le [OF sp(1)] less_imp_le [OF sp(2)] \<open>e \<le> length arr'\<close>] c(3)
      by (rule if_not_P [OF ne])
    moreover have "\<forall>j. \<not> sub node j \<longrightarrow> (t2[node := rfold arr' s e]) ! j = t ! j"
      using t2(5) sub_refl by (metis nth_list_update_neq)
    ultimately show ?thesis using c(4) t2(2) by auto
  qed
qed

lemma rfold_good': "fits arr \<Longrightarrow> e \<le> length arr \<Longrightarrow> good (rfold arr s e)"
  by (cases "s \<le> e") (auto simp: rfold_good good_id)

lemma oper_clipped:
  assumes "fits arr" "s \<le> m" "m \<le> e" "e \<le> length arr"
  shows "oper (rfold arr (max s lo) (min m hi)) (rfold arr (max m lo) (min e hi)) = Some (rfold arr (max s lo) (min e hi))"
proof -
  have "f (rfold arr (max s lo) (min m hi)) (rfold arr (max m lo) (min e hi)) = rfold arr (max s lo) (min e hi)"
  proof (cases "m < lo \<or> hi < m")
    case True
    then show ?thesis
    proof
      assume "m < lo"
      then show ?thesis using assms by (simp add: max_absorb2 left_id rfold_good')
    next
      assume h: "hi < m"
      then have "rfold arr (max m lo) (min e hi) = idn" by simp
      moreover have "min m hi = min e hi" using h assms(3) by simp
      ultimately show ?thesis using assms by (simp add: right_id rfold_good')
    qed
  next
    case False
    then have "max m lo = m" "min m hi = m" by auto
    then show ?thesis using False assms by (simp add: rfold_append)
  qed
  then show ?thesis
    using oper_good [of "rfold arr (max s lo) (min m hi)" "rfold arr (max m lo) (min e hi)"] assms by (simp add: rfold_good')
qed

lemma query_node_ok:
  assumes "fits arr" "2 * int (length arr) \<le> INT_MAX"
  shows "rep arr t node s e \<Longrightarrow> s < e \<Longrightarrow> e \<le> length arr \<Longrightarrow> room t node s e \<Longrightarrow> 0 < node \<Longrightarrow>
    query_node oper idn t (int node) (int s) (int e - 1) lo hi = Some (rfold arr (max s (nat lo)) (min e (nat (hi + 1))))"
proof (induction "e - s" arbitrary: node s e rule: less_induct)
  case less
  note prems = less.prems
  have node: "node < length t" "t ! node = rfold arr s e" using repD [OF prems(1)] by auto
  consider "hi < int s \<or> int e - 1 < lo" | "\<not> (hi < int s \<or> int e - 1 < lo)" "lo \<le> int s \<and> int e - 1 \<le> hi"
    | "\<not> (hi < int s \<or> int e - 1 < lo)" "\<not> (lo \<le> int s \<and> int e - 1 \<le> hi)" by blast
  then show ?case
  proof cases
    case 1
    then have "min e (nat (hi + 1)) \<le> max s (nat lo)" by auto
    then show ?thesis using 1 by (subst query_node.simps) simp
  next
    case 2
    then have "max s (nat lo) = s" "min e (nat (hi + 1)) = e" by auto
    then show ?thesis using 2 node by (subst query_node.simps) simp
  next
    case 3
    define m where m: "m = Suc ((s + e - 1) div 2)"
    have e: "Suc s < e" using 3 prems(2) by auto
    have e2: "2 * int e \<le> INT_MAX" using prems(3) assms(2) by simp
    note sp = split_range [OF e e2 m] and room = room_halves [OF prems(4) e m] and ch = room_children [OF prems(4) e]
    have lt: "m - s < e - s" "e - m < e - s" using sp(1,2) by auto
    have r: "rep arr t (2 * node) s m" "rep arr t (Suc (2 * node)) m e"
      using prems(1) e by (simp_all add: rep.simps [of arr t node] m)
    have q: "query_node oper idn t (int (2 * node)) (int s) (int m - 1) lo hi = Some (rfold arr (max s (nat lo)) (min m (nat (hi + 1))))"
      "query_node oper idn t (int (Suc (2 * node))) (int m) (int e - 1) lo hi = Some (rfold arr (max m (nat lo)) (min e (nat (hi + 1))))"
      using less.hyps [OF lt(1) r(1) sp(1) _ room(1)] less.hyps [OF lt(2) r(2) sp(2) prems(3) room(2)] sp(2) prems(3,5) by auto
    show ?thesis
      unfolding query_node.simps [of _ _ _ "int node"] sp(3) Option.bind.bind_lunit Let_def sp(4) ch sp(5) q
        oper_clipped [OF assms(1) less_imp_le [OF sp(1)] less_imp_le [OF sp(2)] prems(3)]
      using 3 by (simp only: if_False)
  qed
qed

text \<open>A tree that represents the array arr.\<close>

definition tree_of :: "'a seg_tree \<Rightarrow> 'a list \<Rightarrow> bool" where
  "tree_of st arr \<longleftrightarrow> 0 < length arr \<and> 4 * int (length arr) \<le> INT_MAX \<and> fits arr \<and> len st = int (length arr) \<and>
     identity st = idn \<and> room (tree st) 1 0 (length arr) \<and> rep arr (tree st) 1 0 (length arr)"

lemma room_root: "0 < n \<Longrightarrow> 4 * int n \<le> INT_MAX \<Longrightarrow> length t = 4 * n \<Longrightarrow> room t 1 0 n"
proof -
  assume n: "0 < n" "4 * int n \<le> INT_MAX" "length t = 4 * n"
  have "\<exists>d. n \<le> 2 ^ d \<and> 2 ^ d < 2 * n" if "0 < n" for n :: nat
    using that
  proof (induction n rule: nat_induct_non_zero)
    case 1
    show ?case by (rule exI [of _ 0]) simp
  next
    case (Suc n)
    then obtain d where "n \<le> 2 ^ d" "2 ^ d < 2 * n" by blast
    then show ?case
      by (cases "Suc n \<le> 2 ^ d") (auto intro: exI [of _ d] exI [of _ "Suc d"])
  qed
  then obtain d where "n \<le> 2 ^ d" "2 ^ d < 2 * n" using n(1) by blast
  then show ?thesis using n(2,3) by (auto simp: room_def intro!: exI [of _ d])
qed

lemma SegmentTree_ok:
  assumes "0 < length arr" "4 * int (length arr) \<le> INT_MAX" "fits arr"
  shows "\<exists>st. SegmentTree oper arr idn = Some st \<and> tree_of st arr"
proof -
  let ?n = "length arr" and ?t = "replicate (4 * length arr) idn"
  have c: "chk (int ?n) = Some (int ?n)" "chk (4 * int ?n) = Some (4 * int ?n)" "nat (4 * int ?n) = 4 * ?n"
    using assms(2) by (auto simp: chk_def in_int_def)
  have room: "room ?t 1 0 ?n" using room_root [OF assms(1,2)] by simp
  obtain t' where "build oper arr ?t 1 0 (int ?n - 1) = Some t'" "length t' = length ?t" "rep arr t' 1 0 ?n"
    using build_ok [OF assms(3) _ assms(1) order_refl room] assms(2) by auto
  then show ?thesis using assms room_root [OF assms(1,2), of t'] by (simp add: SegmentTree_def c tree_of_def)
qed

lemma update_ok:
  assumes "tree_of st arr" "idx < length arr" "add (arr ! idx) v = Some x" "fits (arr[idx := x])"
  shows "\<exists>st'. update oper add st (int idx) v = Some st' \<and> tree_of st' (arr[idx := x])"
proof -
  have t: "rep arr (tree st) 1 0 (length arr)" "room (tree st) 1 0 (length arr)" "fits arr" "2 * int (length arr) \<le> INT_MAX"
    using assms(1) by (auto simp: tree_of_def)
  obtain t' where "update_node oper add (tree st) 1 0 (int (length arr) - 1) (int idx) v = Some t'" "length t' = length (tree st)"
    "rep (arr[idx := x]) t' 1 0 (length arr)"
    using update_node_ok [where add = add and v = v and s = 0 and node = 1 and idx = idx and x = x and arr = arr and arr' = "arr[idx := x]" and e = "length arr" and t = "tree st",
        OF assms(3) _ assms(4) t(4,1) _ assms(2)] t by auto
  then show ?thesis using assms(1,4) by (simp add: update_def tree_of_def room_def)
qed

lemma query_ok: "tree_of st arr \<Longrightarrow> query oper st lo hi = Some (rfold arr (nat lo) (min (length arr) (nat (hi + 1))))"
  using query_node_ok [of arr "tree st" 1 0 "length arr" lo hi] by (simp add: tree_of_def query_def)

lemma seg_run_ok: "tree_of st arr \<Longrightarrow> run_ok add fits arr ops \<Longrightarrow> seg_run oper add st ops = Some (spec_run add rfold arr ops)"
proof (induction ops arbitrary: st arr)
  case (Cons a ops)
  show ?case
  proof (cases a)
    case (Update idx v)
    then obtain x where x: "add (arr ! nat idx) v = Some x" using Cons.prems(2) by auto
    then obtain st' where "update oper add st (int (nat idx)) v = Some st'" "tree_of st' (arr[nat idx := x])"
      using update_ok [OF Cons.prems(1), of "nat idx" add v x] Cons.prems(2) Update by (auto simp: nat_less_iff)
    then show ?thesis using Cons.IH [of st'] Cons.prems(2) Update x by simp
  next
    case (Query l r)
    then show ?thesis using Cons query_ok [OF Cons.prems(1)] by simp
  qed
qed simp

end

section \<open>Range sums and range minima\<close>

interpretation sums: segment_ops plus_op "(+)" 0 in_int
  by unfold_locales (auto simp: plus_op_def chk_def in_int_def)

interpretation mins: segment_ops minOp min INT_MAX in_int
  by unfold_locales (auto simp: minOp_def in_int_def min_def)

definition rsum :: "int list \<Rightarrow> nat \<Rightarrow> nat \<Rightarrow> int" where
  "rsum arr s e = (\<Sum>i = s..<e. arr ! i)"

definition rmin :: "int list \<Rightarrow> nat \<Rightarrow> nat \<Rightarrow> int" where
  "rmin arr s e = Min (insert INT_MAX ((!) arr ` {s..<e}))"

definition sums_fit :: "int list \<Rightarrow> bool" where
  "sums_fit arr \<longleftrightarrow> (\<forall>s e. s \<le> e \<and> e \<le> length arr \<longrightarrow> in_int (rsum arr s e))"

definition entries_fit :: "int list \<Rightarrow> bool" where
  "entries_fit arr \<longleftrightarrow> (\<forall>x\<in>set arr. in_int x)"

lemma rsum_rfold: "rsum = sums.rfold"
proof (intro ext)
  fix arr :: "int list" and s e
  have "foldr (\<lambda>i. (+) (arr ! i)) xs 0 = (\<Sum>i\<leftarrow>xs. arr ! i)" for xs by (induction xs) auto
  then show "rsum arr s e = sums.rfold arr s e"
    by (simp add: rsum_def sums.rfold_def interv_sum_list_conv_sum_set_nat)
qed

lemma rmin_rfold: "rmin = mins.rfold"
proof (intro ext)
  fix arr :: "int list" and s e
  have "foldr (\<lambda>i. min (arr ! i)) xs INT_MAX = Min (insert INT_MAX ((!) arr ` set xs))" for xs
  proof (induction xs)
    case (Cons x xs)
    have "Min (insert INT_MAX ((!) arr ` set (x # xs))) = Min (insert (arr ! x) (insert INT_MAX ((!) arr ` set xs)))"
      by (simp add: insert_commute)
    also have "\<dots> = min (arr ! x) (Min (insert INT_MAX ((!) arr ` set xs)))" by (rule Min_insert) auto
    finally show ?case using Cons.IH by simp
  qed simp
  from this [of "[s..<e]"] show "rmin arr s e = mins.rfold arr s e" by (simp add: rmin_def mins.rfold_def)
qed

lemma sums_fit_fits: "sums_fit = sums.fits"
proof
  fix arr
  have single: "in_int x" if fit: "sums_fit arr" and x: "x \<in> set arr" for x
  proof -
    obtain i where "i < length arr" "x = arr ! i" using x by (auto simp: in_set_conv_nth)
    then show ?thesis using fit [unfolded sums_fit_def, rule_format, of i "Suc i"] by (simp add: rsum_def)
  qed
  then show "sums_fit arr = sums.fits arr" by (auto simp: sums.fits_def sums_fit_def rsum_rfold)
qed

lemma entries_fit_fits: "entries_fit = mins.fits"
proof
  fix arr
  have "in_int (rmin arr s e)" if "entries_fit arr" "e \<le> length arr" for s e
  proof -
    have "rmin arr s e \<in> insert INT_MAX ((!) arr ` {s..<e})" unfolding rmin_def by (rule Min_in) auto
    then show ?thesis using that by (auto simp: entries_fit_def in_int_def)
  qed
  then show "entries_fit arr = mins.fits arr" by (auto simp: mins.fits_def entries_fit_def rmin_rfold)
qed

text \<open>
  Claim: over a non-empty vector, a segment tree of sums answers every sequence of in-range point updates
  and of queries, whatever their bounds, as direct sums over a plain list would, as long as the sums fit
  an int; the tree vector of four entries per element is large enough for every access.
\<close>
theorem segment_tree_sums:
  assumes "0 < length arr" "4 * int (length arr) \<le> INT_MAX" "sums_fit arr" "run_ok plus_op sums_fit arr ops"
  shows "do { st \<leftarrow> SegmentTree plus_op arr 0; seg_run plus_op plus_op st ops } = Some (spec_run plus_op rsum arr ops)"
  using sums.SegmentTree_ok [OF assms(1,2)] sums.seg_run_ok assms(3,4) unfolding rsum_rfold sums_fit_fits by fastforce

theorem segment_tree_sums_witness:
  "do { st \<leftarrow> SegmentTree plus_op [1, 3] 0; seg_run plus_op plus_op st [Query 0 1, Update 1 5, Query 0 1] } = Some [4, 9]"
proof -
  have fit: "sums_fit [1, 3]" "sums_fit [1, 8]"
    by (auto simp: sums_fit_def rsum_def in_int_def le_Suc_eq numeral_2_eq_2)
  have "run_ok plus_op sums_fit [1, 3] [Query 0 1, Update 1 5, Query 0 1]"
    using fit by (simp add: plus_op_def chk_def in_int_def)
  from segment_tree_sums [OF _ _ fit(1) this] show ?thesis
    by (simp add: rsum_def plus_op_def chk_def in_int_def numeral_2_eq_2)
qed

text \<open>
  Claim: the same for range minima; the identity INT_MAX is the answer to an empty range.
\<close>
theorem segment_tree_mins:
  assumes "0 < length arr" "4 * int (length arr) \<le> INT_MAX" "entries_fit arr" "run_ok plus_op entries_fit arr ops"
  shows "do { st \<leftarrow> SegmentTree minOp arr INT_MAX; seg_run minOp plus_op st ops } = Some (spec_run plus_op rmin arr ops)"
  using mins.SegmentTree_ok [OF assms(1,2)] mins.seg_run_ok assms(3,4) unfolding rmin_rfold entries_fit_fits by fastforce

theorem segment_tree_mins_witness:
  "do { st \<leftarrow> SegmentTree minOp [4, 3] INT_MAX; seg_run minOp plus_op st [Query 0 0, Query 1 0] } = Some [4, INT_MAX]"
  using segment_tree_mins [of "[4, 3]" "[Query 0 0, Query 1 0]"] by (simp add: entries_fit_def in_int_def rmin_def)

end
