(* ===== verification/KMP.thy ===== *)
theory KMP
  imports Prelude
begin

text \<open>
  src/src/dsa/kmp_string_matching.cpp: the prefix table, the search and the period of a string. The
  while loops are partial functions; that they end is part of what is proved about them.
\<close>

section \<open>Definitions\<close>

partial_function (option) prefix_loop :: "string \<Rightarrow> int \<Rightarrow> int list \<Rightarrow> int \<Rightarrow> int \<Rightarrow> int list option" where
  "prefix_loop pattern m lps len i =
     (if i < m then do {
        a \<leftarrow> vget pattern i;
        b \<leftarrow> vget pattern len;
        if a = b then do {
          len' \<leftarrow> chk (len + 1);
          lps' \<leftarrow> vset lps i len';
          prefix_loop pattern m lps' len' (i + 1) }
        else if len \<noteq> 0 then do {
          len' \<leftarrow> vget lps (len - 1);
          prefix_loop pattern m lps len' i }
        else do {
          lps' \<leftarrow> vset lps i 0;
          prefix_loop pattern m lps' len (i + 1) } }
      else Some lps)"

definition build_prefix_table :: "string \<Rightarrow> int list ub" where
  "build_prefix_table pattern = do {
     m \<leftarrow> chk (int (length pattern));
     prefix_loop pattern m (replicate (nat m) 0) 0 1 }"

partial_function (option) search_loop ::
  "string \<Rightarrow> string \<Rightarrow> int \<Rightarrow> int \<Rightarrow> int list \<Rightarrow> int list \<Rightarrow> int \<Rightarrow> int \<Rightarrow> int list option" where
  "search_loop s pattern n m lps matches i j =
     (if i < n then do {
        a \<leftarrow> vget s i;
        b \<leftarrow> vget pattern j;
        let (i, j) = (if a = b then (i + 1, j + 1) else (i, j));
        if j = m then do {
          pos \<leftarrow> chk (i - j);
          j' \<leftarrow> vget lps (j - 1);
          search_loop s pattern n m lps (matches @ [pos]) i j' }
        else if i < n then do {
          a \<leftarrow> vget s i;
          b \<leftarrow> vget pattern j;
          if a \<noteq> b then
            (if j \<noteq> 0 then do { j' \<leftarrow> vget lps (j - 1); search_loop s pattern n m lps matches i j' }
             else search_loop s pattern n m lps matches (i + 1) j)
          else search_loop s pattern n m lps matches i j }
        else search_loop s pattern n m lps matches i j }
      else Some matches)"

declare prefix_loop.simps [code] search_loop.simps [code]

definition kmp_search :: "string \<Rightarrow> string \<Rightarrow> int list ub" where
  "kmp_search s pattern = do {
     n \<leftarrow> chk (int (length s));
     m \<leftarrow> chk (int (length pattern));
     if m = 0 then Some []
     else if m > n then Some []
     else do { lps \<leftarrow> build_prefix_table pattern; search_loop s pattern n m lps [] 0 0 } }"

definition shortest_period :: "string \<Rightarrow> int ub" where
  "shortest_period s = do {
     lps \<leftarrow> build_prefix_table s;
     n \<leftarrow> chk (int (length s));
     l \<leftarrow> vget lps (n - 1);
     let period = n - l;
     if n mod period = 0 then Some period else Some n }"

definition kmp_main :: "(int list \<times> int list \<times> int list) ub" where
  "kmp_main = do {
     matches \<leftarrow> kmp_search ''AABAACAADAABAABA'' ''AABA'';
     guard (matches = [0, 9, 12]);
     no_match \<leftarrow> kmp_search ''hello world'' ''xyz'';
     guard (no_match = []);
     overlapping \<leftarrow> kmp_search ''AAAA'' ''AA'';
     guard (overlapping = [0, 1, 2]);
     lps \<leftarrow> build_prefix_table ''AABAACAABAA'';
     guard (lps = [0, 1, 0, 1, 2, 0, 1, 2, 3, 4, 5]);
     p1 \<leftarrow> shortest_period ''abcabcabc'';
     guard (p1 = 3);
     p2 \<leftarrow> shortest_period ''aaaa'';
     guard (p2 = 1);
     p3 \<leftarrow> shortest_period ''abcab'';
     guard (p3 = 5);
     Some (matches, lps, [p1, p2]) }"

lemma kmp_main_output: "kmp_main = Some ([0, 9, 12], [0, 1, 0, 1, 2, 0, 1, 2, 3, 4, 5], [3, 1])"
  by code_simp

section \<open>Borders\<close>

text \<open>The first l characters of p are also the last l of its first k.\<close>

definition border :: "string \<Rightarrow> nat \<Rightarrow> nat \<Rightarrow> bool" where
  "border p k l \<longleftrightarrow> l < k \<and> k \<le> length p \<and> (\<forall>x<l. p ! x = p ! (k - l + x))"

definition longest :: "string \<Rightarrow> nat \<Rightarrow> nat \<Rightarrow> bool" where
  "longest p k l \<longleftrightarrow> border p k l \<and> (\<forall>l'. border p k l' \<longrightarrow> l' \<le> l)"

lemma border_0: "0 < k \<Longrightarrow> k \<le> length p \<Longrightarrow> border p k 0"
  by (simp add: border_def)

lemma border_trans: "border p k l \<Longrightarrow> border p l l' \<Longrightarrow> border p k l'"
  unfolding border_def
proof (intro conjI allI impI)
  fix x
  assume a: "l < k \<and> k \<le> length p \<and> (\<forall>x<l. p ! x = p ! (k - l + x))"
    and b: "l' < l \<and> l \<le> length p \<and> (\<forall>x<l'. p ! x = p ! (l - l' + x))" and x: "x < l'"
  then have "p ! x = p ! (l - l' + x)" "p ! (l - l' + x) = p ! (k - l + (l - l' + x))" by auto
  moreover have "k - l + (l - l' + x) = k - l' + x" using a b by simp
  ultimately show "p ! x = p ! (k - l' + x)" by simp
qed auto

lemma border_inner: "border p k l \<Longrightarrow> border p k l' \<Longrightarrow> l' < l \<Longrightarrow> border p l l'"
  unfolding border_def
proof (intro conjI allI impI)
  fix x
  assume a: "l < k \<and> k \<le> length p \<and> (\<forall>x<l. p ! x = p ! (k - l + x))"
    and b: "l' < k \<and> k \<le> length p \<and> (\<forall>x<l'. p ! x = p ! (k - l' + x))" and l: "l' < l" and x: "x < l'"
  then have "p ! x = p ! (k - l' + x)" "p ! (l - l' + x) = p ! (k - l + (l - l' + x))" by auto
  moreover have "k - l + (l - l' + x) = k - l' + x" using a b l by simp
  ultimately show "p ! x = p ! (l - l' + x)" by simp
qed auto

lemma border_Suc: "k < length p \<Longrightarrow> border p (Suc k) (Suc l) \<longleftrightarrow> border p k l \<and> p ! l = p ! k"
  by (auto simp: border_def less_Suc_eq all_conj_distrib)

text \<open>The first k0 entries of the table are right.\<close>

definition table :: "string \<Rightarrow> int list \<Rightarrow> nat \<Rightarrow> bool" where
  "table p lps k0 \<longleftrightarrow> length lps = length p \<and> (\<forall>k<k0. \<exists>l. lps ! k = int l \<and> longest p (Suc k) l)"

text \<open>The state of the table loop: len is a border of the first i characters, and every border of the
  first i + 1 extends one of at most len.\<close>

definition table_inv :: "string \<Rightarrow> int list \<Rightarrow> nat \<Rightarrow> nat \<Rightarrow> bool" where
  "table_inv p lps len i \<longleftrightarrow> 1 \<le> i \<and> i \<le> length p \<and> table p lps i \<and> border p i len \<and>
     (\<forall>l. border p (Suc i) (Suc l) \<longrightarrow> l \<le> len)"

lemma table_update: "table p lps i \<Longrightarrow> i < length p \<Longrightarrow> longest p (Suc i) l \<Longrightarrow> table p (lps[i := int l]) (Suc i)"
  by (auto simp: table_def less_Suc_eq nth_list_update)

lemma table_inv_next:
  assumes "table_inv p lps len i" "i < length p" "longest p (Suc i) l"
  shows "table_inv p (lps[i := int l]) l (Suc i)"
proof -
  have "l' \<le> l" if "border p (Suc (Suc i)) (Suc l')" for l'
  proof -
    have "Suc i < length p" using that by (simp add: border_def)
    then have "border p (Suc i) l'" using that by (simp add: border_Suc)
    then show ?thesis using assms(3) by (simp add: longest_def)
  qed
  then show ?thesis
    using assms table_update [of p lps i l] by (simp add: table_inv_def longest_def)
qed

lemma table_entry: "table p lps i \<Longrightarrow> 0 < k \<Longrightarrow> k \<le> i \<Longrightarrow> i \<le> length p \<Longrightarrow>
  \<exists>l. vget lps (int k - 1) = Some (int l) \<and> longest p k l"
proof -
  assume t: "table p lps i" "0 < k" "k \<le> i" "i \<le> length p"
  then obtain l where "lps ! (k - 1) = int l" "longest p (Suc (k - 1)) l" unfolding table_def by (auto dest: spec [of _ "k - 1"])
  moreover have "int k - 1 = int (k - 1)" "k - 1 < length lps" using t by (auto simp: table_def)
  moreover have "Suc (k - 1) = k" using t(2) by simp
  ultimately show ?thesis by (intro exI [of _ l]) (simp only: vget_int if_True simp_thms)
qed

lemma prefix_loop_ok:
  assumes "int (length p) < INT_MAX"
  shows "table_inv p lps len i \<Longrightarrow>
    \<exists>lps'. prefix_loop p (int (length p)) lps (int len) (int i) = Some lps' \<and> table p lps' (length p)"
proof (induction "2 * (length p - i) + len" arbitrary: lps len i rule: less_induct)
  case less
  note inv = less.prems [unfolded table_inv_def]
  show ?case
  proof (cases "i < length p")
    case False
    then show ?thesis using inv by (subst prefix_loop.simps) auto
  next
    case True
    have len: "len < i" using inv by (simp add: border_def)
    have lps: "length lps = length p" using inv by (simp add: table_def)
    consider "p ! i = p ! len" | "p ! i \<noteq> p ! len" "len \<noteq> 0" | "p ! i \<noteq> p ! len" "len = 0" by blast
    then show ?thesis
    proof cases
      case 1
      have "longest p (Suc i) (Suc len)"
        unfolding longest_def
      proof (intro conjI allI impI)
        show "border p (Suc i) (Suc len)" using inv True 1 by (simp add: border_Suc)
        fix l' assume "border p (Suc i) l'"
        then show "l' \<le> Suc len" using inv by (cases l') auto
      qed
      note inv' = table_inv_next [OF less.prems True this]
      have "chk (int len + 1) = Some (int (Suc len))" using True len assms by (simp add: chk_def in_int_def)
      moreover have next_i: "int i + 1 = int (Suc i)" by simp
      ultimately show ?thesis
        using less.hyps [OF _ inv'] True len 1 lps
        by (subst prefix_loop.simps) (simp del: of_nat_Suc add: next_i)
    next
      case 2
      then obtain l where l: "vget lps (int len - 1) = Some (int l)" "longest p len l"
        using table_entry [of p lps i len] inv len by auto
      have "border p i l" using inv l(2) border_trans by (auto simp: longest_def)
      moreover have "l' \<le> l" if "border p (Suc i) (Suc l')" for l'
      proof -
        have b: "border p i l'" "p ! l' = p ! i" using that True by (simp_all add: border_Suc)
        then have "l' < len" using inv that 2 by (metis le_neq_implies_less)
        then show ?thesis using border_inner [of p i len l'] b inv l(2) by (simp add: longest_def)
      qed
      ultimately have "table_inv p lps l i" using inv by (simp add: table_inv_def)
      moreover have "l < len" using l(2) by (simp add: longest_def border_def)
      ultimately show ?thesis
        using less.hyps [of i l lps] True len 2 lps l(1) by (subst prefix_loop.simps) simp
    next
      case 3
      have "longest p (Suc i) 0"
        unfolding longest_def
      proof (intro conjI allI impI)
        show "border p (Suc i) 0" using True by (simp add: border_0)
        fix l' assume b: "border p (Suc i) l'"
        show "l' \<le> 0"
        proof (cases l')
          case (Suc l)
          then have "l = 0" using inv 3(2) b by auto
          then show ?thesis using b Suc 3 True by (simp add: border_Suc)
        qed simp
      qed
      note inv' = table_inv_next [OF less.prems True this]
      have next_i: "int i + 1 = int (Suc i)" and len_pos: "0 < length p" using True by auto
      show ?thesis
        using less.hyps [OF _ inv'] True 3 lps vget_in [of 0 p] len_pos
        by (subst prefix_loop.simps) (simp del: of_nat_Suc add: next_i)
    qed
  qed
qed

lemma build_prefix_table_ok:
  assumes "int (length p) < INT_MAX" "p \<noteq> []"
  shows "\<exists>lps. build_prefix_table p = Some lps \<and> table p lps (length p)"
proof -
  have "chk (int (length p)) = Some (int (length p))" using assms(1) by (intro chk_Some) auto
  moreover have "longest p (Suc 0) 0" using assms(2) by (auto simp: longest_def border_def Suc_le_eq)
  moreover have "table_inv p (replicate (length p) 0) 0 1"
    using assms(2) \<open>longest p (Suc 0) 0\<close> by (auto simp: table_inv_def table_def border_def Suc_le_eq)
  ultimately show ?thesis using prefix_loop_ok [OF assms(1), of "replicate (length p) 0" 0 1] by (simp add: build_prefix_table_def)
qed

section \<open>The search\<close>

definition occurs :: "string \<Rightarrow> string \<Rightarrow> nat \<Rightarrow> bool" where
  "occurs s p q \<longleftrightarrow> q + length p \<le> length s \<and> take (length p) (drop q s) = p"

lemma occurs_nth: "occurs s p q \<longleftrightarrow> q + length p \<le> length s \<and> (\<forall>x<length p. s ! (q + x) = p ! x)"
  unfolding occurs_def by (auto simp: list_eq_iff_nth_eq)

text \<open>The first j characters of the pattern end at position i of the text.\<close>

definition aligned :: "string \<Rightarrow> string \<Rightarrow> nat \<Rightarrow> nat \<Rightarrow> bool" where
  "aligned s p i j \<longleftrightarrow> j \<le> i \<and> i \<le> length s \<and> j \<le> length p \<and> (\<forall>x<j. s ! (i - j + x) = p ! x)"

definition search_inv :: "string \<Rightarrow> string \<Rightarrow> int list \<Rightarrow> nat \<Rightarrow> nat \<Rightarrow> bool" where
  "search_inv s p matches i j \<longleftrightarrow> aligned s p i j \<and> matches = map int (filter (occurs s p) [0..<i - j])"

lemma aligned_border: "aligned s p i j \<Longrightarrow> border p j l \<Longrightarrow> aligned s p i l"
  unfolding aligned_def border_def
proof (intro conjI allI impI)
  fix x
  assume a: "j \<le> i \<and> i \<le> length s \<and> j \<le> length p \<and> (\<forall>x<j. s ! (i - j + x) = p ! x)"
    and b: "l < j \<and> j \<le> length p \<and> (\<forall>x<l. p ! x = p ! (j - l + x))" and x: "x < l"
  have "j - l + x < j" using b x by linarith
  then have "p ! x = p ! (j - l + x)" "s ! (i - j + (j - l + x)) = p ! (j - l + x)" using a b x by blast+
  moreover have "i - j + (j - l + x) = i - l + x" using a b by simp
  ultimately show "s ! (i - l + x) = p ! x" by metis
qed auto

lemma occurs_border:
  assumes "aligned s p i j" "occurs s p q" "i - j < q" "q < i"
  shows "border p j (i - q)"
  unfolding border_def
proof (intro conjI allI impI)
  show "i - q < j" "j \<le> length p" using assms by (auto simp: aligned_def)
  fix x assume x: "x < i - q"
  have "x < length p" using x assms by (auto simp: aligned_def)
  then have "s ! (q + x) = p ! x" using assms(2) by (simp add: occurs_nth)
  moreover have "i - j + (j - (i - q) + x) = q + x" "j - (i - q) + x < j" using assms x by (auto simp: aligned_def)
  then have "s ! (q + x) = p ! (j - (i - q) + x)" using assms(1) unfolding aligned_def by metis
  ultimately show "p ! x = p ! (j - (i - q) + x)" by simp
qed

text \<open>Falling back to the longest border skips no occurrence, except possibly the one at the start of the window.\<close>

lemma fall_back:
  assumes inv: "search_inv s p matches i j" and l: "longest p j l"
  shows "search_inv s p (matches @ (if occurs s p (i - j) then [int (i - j)] else [])) i l"
proof -
  have a: "aligned s p i j" and m: "matches = map int (filter (occurs s p) [0..<i - j])" using inv by (auto simp: search_inv_def)
  have lj: "l < j" "j \<le> i" using l a by (auto simp: longest_def border_def aligned_def)
  have "\<not> occurs s p q" if "i - j < q" "q < i - l" for q
  proof
    assume "occurs s p q"
    then have "border p j (i - q)" using occurs_border [OF a] that by simp
    then have "i - q \<le> l" using l by (simp add: longest_def)
    then show False using that by simp
  qed
  then have "filter (occurs s p) [Suc (i - j)..<i - l] = []" by (auto simp: filter_empty_conv)
  moreover have "[0..<i - l] = [0..<i - j] @ (i - j) # [Suc (i - j)..<i - l]"
    using lj by (metis diff_less_mono2 le_eq_less_or_eq less_or_eq_imp_le order_less_le_trans upt_add_eq_append upt_conv_Cons le0 le_add_diff_inverse)
  ultimately have "filter (occurs s p) [0..<i - l] = filter (occurs s p) [0..<i - j] @ (if occurs s p (i - j) then [i - j] else [])"
    by simp
  moreover have "aligned s p i l" using aligned_border [OF a] l by (simp add: longest_def)
  ultimately show ?thesis by (simp add: search_inv_def m)
qed

lemma search_step_match:
  assumes "search_inv s p matches i j" "i < length s" "j < length p" "s ! i = p ! j"
  shows "search_inv s p matches (Suc i) (Suc j)"
proof -
  have "aligned s p (Suc i) (Suc j)" using assms by (auto simp: search_inv_def aligned_def less_Suc_eq)
  then show ?thesis using assms(1) by (simp add: search_inv_def)
qed

lemma aligned_full: "aligned s p i (length p) \<Longrightarrow> occurs s p (i - length p)"
  by (auto simp: aligned_def occurs_nth)

lemma not_occurs: "aligned s p i j \<Longrightarrow> j < length p \<Longrightarrow> s ! i \<noteq> p ! j \<Longrightarrow> \<not> occurs s p (i - j)"
  by (auto simp: aligned_def occurs_nth)

text \<open>What the loop does once the pattern has been compared with the text at i.\<close>

definition ends_with :: "string \<Rightarrow> string \<Rightarrow> int list \<Rightarrow> int list \<Rightarrow> nat \<Rightarrow> nat \<Rightarrow> bool" where
  "ends_with s p lps matches i j \<longleftrightarrow>
     search_loop s p (int (length s)) (int (length p)) lps matches (int i) (int j) = Some (map int (filter (occurs s p) [0..<length s]))"

lemma search_done:
  assumes "search_inv s p matches i j" "j < length p" "i = length s"
  shows "ends_with s p lps matches i j"
proof -
  have "\<not> occurs s p q" if "length s - j \<le> q" for q using that assms by (auto simp: occurs_def search_inv_def aligned_def)
  then have "filter (occurs s p) [length s - j..<length s] = []" by (auto simp: filter_empty_conv)
  moreover have "[0..<length s] = [0..<length s - j] @ [length s - j..<length s]"
    using upt_add_eq_append [of 0 "length s - j" j] assms by (simp add: search_inv_def aligned_def)
  ultimately show ?thesis
    using assms unfolding ends_with_def by (subst search_loop.simps) (simp add: search_inv_def)
qed

lemma search_loop_ok:
  assumes t: "table p lps (length p)" and len: "int (length s) \<le> INT_MAX"
  shows "search_inv s p matches i j \<Longrightarrow> j < length p \<Longrightarrow> i \<le> length s \<Longrightarrow> ends_with s p lps matches i j"
proof (induction "2 * (length s - i) + j" arbitrary: matches i j rule: less_induct)
  case less
  note IH = less.hyps [unfolded ends_with_def]
  have a: "aligned s p i j" using less.prems(1) by (simp add: search_inv_def)
  have entry: "\<exists>l. vget lps (int k - 1) = Some (int l) \<and> longest p k l \<and> l < k" if "0 < k" "k \<le> length p" for k
    using table_entry [OF t that order_refl] by (auto simp: longest_def border_def)
  show ?case
  proof (cases "i < length s")
    case False
    then show ?thesis using search_done less.prems by simp
  next
    case True
    note get = True less.prems(2)
    show ?thesis
    proof (cases "s ! i = p ! j")
      case eq: True
      note inv' = search_step_match [OF less.prems(1) True less.prems(2) eq]
      have nx: "int i + 1 = int (Suc i)" "int j + 1 = int (Suc j)" by simp_all
      show ?thesis
      proof (cases "Suc j = length p")
        case full: True
        obtain l where l: "vget lps (int (Suc j) - 1) = Some (int l)" "longest p (Suc j) l" "l < Suc j"
          using entry [OF zero_less_Suc, of j] full by auto
        have al: "aligned s p (Suc i) (Suc j)" using inv' by (simp add: search_inv_def)
        then have "occurs s p (Suc i - Suc j)" using aligned_full full by metis
        then have inv2: "search_inv s p (matches @ [int (Suc i - Suc j)]) (Suc i) l" using fall_back [OF inv' l(2)] by simp
        have pos: "chk (int (Suc i) - int (Suc j)) = Some (int (Suc i - Suc j))"
          using a True len by (auto simp: aligned_def chk_def in_int_def of_nat_diff)
        have "search_loop s p (int (length s)) (int (length p)) lps (matches @ [int (Suc i - Suc j)]) (int (Suc i)) (int l) =
            Some (map int (filter (occurs s p) [0..<length s]))"
          using IH [OF _ inv2] l(3) full True by simp
        then show ?thesis
          unfolding ends_with_def search_loop.simps [of s p _ _ _ matches "int i" "int j"] using get eq full pos l(1)
          by (simp only: of_nat_less_iff vget_int if_True Option.bind.bind_lunit Let_def nx prod.case simp_thms)
      next
        case part: False
        then have j: "Suc j < length p" using less.prems(2) by simp
        show ?thesis
        proof (cases "Suc i < length s \<and> s ! Suc i \<noteq> p ! Suc j")
          case False
          then have "ends_with s p lps matches (Suc i) (Suc j)"
            using less.hyps [OF _ inv' j] True by simp
          then show ?thesis
            unfolding ends_with_def search_loop.simps [of s p _ _ _ matches "int i" "int j"] using get eq part j False
            by (auto simp: Let_def nx simp del: of_nat_Suc)
        next
          case ne: True
          obtain l where l: "vget lps (int (Suc j) - 1) = Some (int l)" "longest p (Suc j) l" "l < Suc j"
            using entry [of "Suc j"] j by auto
          have "aligned s p (Suc i) (Suc j)" using inv' by (simp add: search_inv_def)
          then have "search_inv s p matches (Suc i) l"
            using fall_back [OF inv' l(2)] not_occurs [of s p "Suc i" "Suc j"] j ne by simp
          then have "ends_with s p lps matches (Suc i) l" using less.hyps [of "Suc i" l matches] l(3) j True by simp
          then show ?thesis
            unfolding ends_with_def search_loop.simps [of s p _ _ _ matches "int i" "int j"] using get eq part j ne l(1)
            by (simp add: Let_def nx del: of_nat_Suc)
        qed
      qed
    next
      case ne: False
      have no: "\<not> occurs s p (i - j)" by (rule not_occurs [OF a less.prems(2) ne])
      show ?thesis
      proof (cases "j = 0")
        case True
        have "search_inv s p matches (Suc i) 0"
          using less.prems(1) get(1) no True by (simp add: search_inv_def aligned_def)
        then have "ends_with s p lps matches (Suc i) 0" using less.hyps [of "Suc i" 0 matches] get True by simp
        then show ?thesis
          unfolding ends_with_def search_loop.simps [of s p _ _ _ matches "int i" "int j"] using get ne True vget_in [of 0 p]
          by (auto simp: Let_def add.commute)
      next
        case False
        obtain l where l: "vget lps (int j - 1) = Some (int l)" "longest p j l" "l < j"
          using entry [of j] less.prems(2) False by auto
        have "search_inv s p matches i l" using fall_back [OF less.prems(1) l(2)] no by simp
        then have "ends_with s p lps matches i l" using less.hyps [of i l matches] l(3) less.prems by simp
        then show ?thesis
          unfolding ends_with_def search_loop.simps [of s p _ _ _ matches "int i" "int j"] using get ne False l(1)
          by (auto simp: Let_def)
      qed
    qed
  qed
qed

text \<open>
  C22: kmp_search ends and returns the positions of all occurrences of a non-empty pattern, overlapping
  ones included, in increasing order; an empty pattern has none. No character outside the strings and no
  entry outside the table is read.
\<close>
theorem kmp_search_correct:
  assumes "int (length s) < INT_MAX" "int (length p) < INT_MAX"
  shows "kmp_search s p = Some (if p = [] then [] else map int (filter (\<lambda>q. take (length p) (drop q s) = p) [0..<length s]))"
proof -
  have c: "chk (int (length s)) = Some (int (length s))" "chk (int (length p)) = Some (int (length p))"
    using assms by (auto intro!: chk_Some)
  have o: "filter (\<lambda>q. take (length p) (drop q s) = p) [0..<length s] = filter (occurs s p) [0..<length s]"
    if "p \<noteq> []"
  proof (rule filter_cong)
    fix q assume "q \<in> set [0..<length s]"
    show "(take (length p) (drop q s) = p) = occurs s p q"
      unfolding occurs_def using that by (metis add.commute length_drop length_take min.absorb_iff2 min_def le_diff_conv2 linear drop_all length_0_conv take_Nil less_or_eq_imp_le not_le_imp_less le_diff_conv diff_is_0_eq)
  qed simp
  show ?thesis
  proof (cases "p = [] \<or> length s < length p")
    case True
    then show ?thesis using o by (auto simp: kmp_search_def c filter_empty_conv occurs_def)
  next
    case False
    then obtain lps where lps: "build_prefix_table p = Some lps" "table p lps (length p)"
      using build_prefix_table_ok [OF assms(2)] by blast
    have "search_inv s p [] 0 0" by (simp add: search_inv_def aligned_def)
    then have "ends_with s p lps [] 0 0" using search_loop_ok [OF lps(2)] assms(1) False by simp
    then show ?thesis using False o lps(1) by (auto simp: kmp_search_def c ends_with_def)
  qed
qed

theorem kmp_search_correct_witness:
  "kmp_search ''AAAA'' ''AA'' = Some (map int (filter (\<lambda>q. take 2 (drop q ''AAAA'') = ''AA'') [0..<4]))"
proof -
  have "int (length ''AAAA'') < INT_MAX" "int (length ''AA'') < INT_MAX" by simp_all
  from kmp_search_correct [OF this] show ?thesis by (simp add: eval_nat_numeral)
qed

end
