(* ===== verification/Trie.thy ===== *)
theory Trie
  imports Prelude "HOL-Library.Sublist" "HOL-Library.List_Lexorder" "HOL-Library.Char_ord"
begin

text \<open>
  src/src/dsa/trie.cpp: a prefix tree over the letters a to z. A node owns its children, so the tree of
  unique_ptr is a datatype; a character outside a to z indexes the array of children out of range.
\<close>

section \<open>Definitions\<close>

datatype trie_node = TrieNode (children: "trie_node option list") (is_end: bool)

definition trie_new_node :: trie_node where
  "trie_new_node = TrieNode (replicate 26 None) False"

definition letter_index :: "char \<Rightarrow> int" where
  "letter_index c = of_char c - 97"

fun insert_node :: "trie_node \<Rightarrow> string \<Rightarrow> trie_node ub" where
  "insert_node node [] = Some (TrieNode (children node) True)"
| "insert_node node (c # word) = do {
     let idx = letter_index c;
     slot \<leftarrow> vget (children node) idx;
     child \<leftarrow> insert_node (case slot of None \<Rightarrow> trie_new_node | Some n \<Rightarrow> n) word;
     cs \<leftarrow> vset (children node) idx (Some child);
     Some (TrieNode cs (is_end node)) }"

fun trie_traverse :: "trie_node \<Rightarrow> string \<Rightarrow> trie_node option ub" where
  "trie_traverse node [] = Some (Some node)"
| "trie_traverse node (c # key) = do {
     slot \<leftarrow> vget (children node) (letter_index c);
     case slot of None \<Rightarrow> Some None | Some n \<Rightarrow> trie_traverse n key }"

definition search :: "trie_node \<Rightarrow> string \<Rightarrow> bool ub" where
  "search t word = do { node \<leftarrow> trie_traverse t word; Some (case node of None \<Rightarrow> False | Some n \<Rightarrow> is_end n) }"

definition startsWith :: "trie_node \<Rightarrow> string \<Rightarrow> bool ub" where
  "startsWith t key = do { node \<leftarrow> trie_traverse t key; Some (node \<noteq> None) }"

fun collectWords :: "trie_node \<Rightarrow> string \<Rightarrow> string list \<Rightarrow> int \<Rightarrow> string list"
  and collect_children :: "trie_node option list \<Rightarrow> nat \<Rightarrow> string \<Rightarrow> string list \<Rightarrow> int \<Rightarrow> string list" where
  "collectWords (TrieNode cs e) cur results max_results =
     (if int (length results) \<ge> max_results then results
      else collect_children cs 0 cur (if e then results @ [cur] else results) max_results)"
| "collect_children [] i cur results max_results = results"
| "collect_children (None # cs) i cur results max_results = collect_children cs (i + 1) cur results max_results"
| "collect_children (Some n # cs) i cur results max_results =
     collect_children cs (i + 1) cur (collectWords n (cur @ [char_of (97 + i)]) results max_results) max_results"

definition autocomplete :: "trie_node \<Rightarrow> string \<Rightarrow> int \<Rightarrow> string list ub" where
  "autocomplete t key max_results = do {
     node \<leftarrow> trie_traverse t key;
     Some (case node of None \<Rightarrow> [] | Some n \<Rightarrow> collectWords n key [] max_results) }"

fun insert_all :: "trie_node \<Rightarrow> string list \<Rightarrow> trie_node ub" where
  "insert_all t [] = Some t"
| "insert_all t (w # ws) = do { t' \<leftarrow> insert_node t w; insert_all t' ws }"

definition trie_main :: "(bool list \<times> bool list \<times> string list \<times> string list) ub" where
  "trie_main = do {
     t \<leftarrow> insert_all trie_new_node
       [''apple'', ''app'', ''application'', ''apply'', ''apt'', ''bat'', ''batch'', ''bath'', ''banana''];
     s1 \<leftarrow> search t ''apple'';
     s2 \<leftarrow> search t ''app'';
     s3 \<leftarrow> search t ''appl'';
     p1 \<leftarrow> startsWith t ''app'';
     p2 \<leftarrow> startsWith t ''bat'';
     p3 \<leftarrow> startsWith t ''xyz'';
     a1 \<leftarrow> autocomplete t ''app'' 5;
     a2 \<leftarrow> autocomplete t ''ba'' 5;
     Some ([s1, s2, s3], [p1, p2, p3], a1, a2) }"

lemma trie_main_output: "trie_main =
  Some ([True, True, False], [True, True, False],
    [''app'', ''apple'', ''application'', ''apply''], [''banana'', ''bat'', ''batch'', ''bath''])"
  by code_simp

section \<open>The set of words of a trie\<close>

definition letter :: "char \<Rightarrow> bool" where
  "letter c \<longleftrightarrow> 97 \<le> (of_char c :: nat) \<and> of_char c < (123 :: nat)"

definition slot_of :: "char \<Rightarrow> nat" where
  "slot_of c = of_char c - 97"

abbreviation lower :: "string \<Rightarrow> bool" where
  "lower w \<equiv> list_all letter w"

fun mem :: "trie_node \<Rightarrow> string \<Rightarrow> bool" where
  "mem node [] \<longleftrightarrow> is_end node"
| "mem node (c # w) \<longleftrightarrow> letter c \<and> (case children node ! slot_of c of None \<Rightarrow> False | Some n \<Rightarrow> mem n w)"

text \<open>Every node has 26 slots and every child holds a word.\<close>

inductive wf :: "trie_node \<Rightarrow> bool" where
  "length (children t) = 26 \<Longrightarrow> (\<And>n. Some n \<in> set (children t) \<Longrightarrow> wf n \<and> (\<exists>w. mem n w)) \<Longrightarrow> wf t"

lemma letter_slot: "letter c \<Longrightarrow> letter_index c = int (slot_of c) \<and> slot_of c < 26"
  by (auto simp: letter_def letter_index_def slot_of_def of_nat_diff of_char_def split: char.splits)

lemma slot_inj: "letter c \<Longrightarrow> letter d \<Longrightarrow> slot_of c = slot_of d \<Longrightarrow> c = d"
  unfolding letter_def slot_of_def by (metis eq_diff_iff of_char_eq_iff)

lemma wfD: "wf t \<Longrightarrow> length (children t) = 26" "wf t \<Longrightarrow> Some n \<in> set (children t) \<Longrightarrow> wf n \<and> (\<exists>w. mem n w)"
  by (auto elim: wf.cases)

lemma mem_new [simp]: "\<not> mem trie_new_node w"
  by (cases w) (auto simp: trie_new_node_def letter_slot)

lemma wf_new: "wf trie_new_node"
  by (rule wf.intros) (auto simp: trie_new_node_def)

lemma mem_lower: "mem t w \<Longrightarrow> lower w"
  by (induction t w rule: mem.induct) (auto split: option.splits)

lemma insert_node_ok:
  "wf t \<Longrightarrow> lower w \<Longrightarrow> \<exists>t'. insert_node t w = Some t' \<and> wf t' \<and> (\<forall>v. mem t' v \<longleftrightarrow> v = w \<or> mem t v)"
proof (induction w arbitrary: t)
  case Nil
  have "mem (TrieNode (children t) True) v \<longleftrightarrow> v = [] \<or> mem t v" for v by (cases v) auto
  moreover have "wf (TrieNode (children t) True)" using Nil wfD by (intro wf.intros) auto
  ultimately show ?case by auto
next
  case (Cons c w)
  have c: "letter c" "letter_index c = int (slot_of c)" "slot_of c < length (children t)"
    using Cons.prems letter_slot [of c] wfD(1) [of t] by auto
  let ?s = "children t ! slot_of c"
  let ?n = "case ?s of None \<Rightarrow> trie_new_node | Some n \<Rightarrow> n"
  have n: "wf ?n" using Cons.prems(1) c(3) wfD(2) [of t] wf_new by (auto split: option.splits dest: nth_mem)
  obtain child where child: "insert_node ?n w = Some child" "wf child" "\<forall>v. mem child v \<longleftrightarrow> v = w \<or> mem ?n v"
    using Cons.IH [OF n] Cons.prems(2) by auto
  let ?t = "TrieNode ((children t)[slot_of c := Some child]) (is_end t)"
  have "wf ?t"
  proof (rule wf.intros)
    fix m assume "Some m \<in> set (children ?t)"
    then have "m = child \<or> Some m \<in> set (children t)" using set_update_subset_insert by fastforce
    then show "wf m \<and> (\<exists>w. mem m w)" using child(2,3) wfD(2) [OF Cons.prems(1)] by auto
  qed (use wfD(1) [OF Cons.prems(1)] in simp)
  moreover have "mem ?t v \<longleftrightarrow> v = c # w \<or> mem t v" for v
  proof (cases v)
    case (Cons d u)
    show ?thesis
    proof (cases "letter d \<and> slot_of d = slot_of c")
      case True
      then have "d = c" using slot_inj c(1) by blast
      then show ?thesis using Cons c child(3) by (auto split: option.splits)
    next
      case False
      then show ?thesis using Cons c by (auto simp: nth_list_update)
    qed
  qed simp
  ultimately show ?case using c child(1) by simp
qed

lemma insert_all_ok:
  "wf t \<Longrightarrow> \<forall>w\<in>set ws. lower w \<Longrightarrow> \<exists>t'. insert_all t ws = Some t' \<and> wf t' \<and> (\<forall>v. mem t' v \<longleftrightarrow> v \<in> set ws \<or> mem t v)"
proof (induction ws arbitrary: t)
  case (Cons w ws)
  obtain t' where t': "insert_node t w = Some t'" "wf t'" "\<forall>v. mem t' v \<longleftrightarrow> v = w \<or> mem t v"
    using insert_node_ok [OF Cons.prems(1), of w] Cons.prems(2) by auto
  then show ?case using Cons.IH [OF t'(2)] Cons.prems(2) by auto
qed auto

lemma traverse_ok:
  "wf t \<Longrightarrow> lower key \<Longrightarrow> (\<exists>n. trie_traverse t key = Some (Some n) \<and> wf n \<and> (\<forall>w. mem n w \<longleftrightarrow> mem t (key @ w)) \<and> (key = [] \<or> (\<exists>w. mem n w))) \<or>
     trie_traverse t key = Some None \<and> key \<noteq> [] \<and> (\<forall>w. \<not> mem t (key @ w))"
proof (induction key arbitrary: t)
  case (Cons c key)
  have c: "letter c" "letter_index c = int (slot_of c)" "slot_of c < length (children t)"
    using Cons.prems letter_slot [of c] wfD(1) [of t] by auto
  show ?case
  proof (cases "children t ! slot_of c")
    case None
    then show ?thesis using c by simp
  next
    case (Some n)
    then have n: "wf n" "\<exists>w. mem n w" using wfD(2) [OF Cons.prems(1), of n] c(3) nth_mem by metis+
    then show ?thesis using Cons.IH [OF n(1)] Cons.prems(2) c Some by auto
  qed
qed simp

text \<open>The words below a node in the order of the traversal.\<close>

fun words_of :: "trie_node \<Rightarrow> string list" and words_below :: "trie_node option list \<Rightarrow> nat \<Rightarrow> string list" where
  "words_of (TrieNode cs e) = (if e then [[]] else []) @ words_below cs 0"
| "words_below [] i = []"
| "words_below (None # cs) i = words_below cs (i + 1)"
| "words_below (Some n # cs) i = map (Cons (char_of (97 + i))) (words_of n) @ words_below cs (i + 1)"

lemma collect_words:
  "collectWords t cur res m = res @ take (nat m - length res) (map ((@) cur) (words_of t))"
  "collect_children cs i cur res m = res @ take (nat m - length res) (map ((@) cur) (words_below cs i))"
proof (induction t cur res m and cs i cur res m rule: collectWords_collect_children.induct)
  case (1 cs e cur results m)
  show ?case
  proof (cases "int (length results) \<ge> m")
    case False
    then have "nat m - length results = Suc (nat m - Suc (length results))" by auto
    then show ?thesis using 1 False by simp
  qed simp
next
  case (4 n cs i cur results m)
  have cons: "(@) (cur @ [char_of (97 + i)]) = (@) cur \<circ> (#) (char_of (97 + i))" by (simp add: fun_eq_iff)
  show ?case using 4 by (simp add: cons take_map [symmetric] map_map [symmetric] del: map_map) (simp add: min_def comp_def)
qed simp_all

lemma letter_of_slot: "i < 26 \<Longrightarrow> letter (char_of (97 + i)) \<and> slot_of (char_of (97 + i)) = i"
  by (simp add: letter_def slot_of_def of_char_of)

lemma slot_letter: "letter c \<Longrightarrow> char_of (97 + slot_of c) = c"
  by (auto simp: letter_def slot_of_def)

lemma words_below_set:
  "\<forall>n. Some n \<in> set cs \<longrightarrow> set (words_of n) = {w. mem n w} \<Longrightarrow>
   set (words_below cs i) = {char_of (97 + (i + k)) # w | k n w. k < length cs \<and> cs ! k = Some n \<and> mem n w}"
proof (induction cs arbitrary: i)
  case (Cons a cs)
  have "set (words_below (a # cs) i) = (case a of None \<Rightarrow> {} | Some n \<Rightarrow> Cons (char_of (97 + i)) ` {w. mem n w}) \<union>
      {char_of (97 + (Suc i + k)) # w | k n w. k < length cs \<and> cs ! k = Some n \<and> mem n w}"
    using Cons.IH [of "Suc i"] Cons.prems by (cases a) auto
  also have "\<dots> = {char_of (97 + (i + k)) # w | k n w. k < length (a # cs) \<and> (a # cs) ! k = Some n \<and> mem n w}" (is "?A \<union> ?B = ?C")
  proof
    show "?A \<union> ?B \<subseteq> ?C"
    proof
      fix x assume "x \<in> ?A \<union> ?B"
      then consider n w where "a = Some n" "mem n w" "x = char_of (97 + (i + 0)) # w"
        | k n w where "k < length cs" "cs ! k = Some n" "mem n w" "x = char_of (97 + (i + Suc k)) # w"
        by (auto split: option.splits)
      then show "x \<in> ?C"
      proof cases
        case 1
        then show ?thesis by (intro CollectI exI [of _ 0] exI [of _ n] exI [of _ w]) simp
      next
        case 2
        then show ?thesis by (intro CollectI exI [of _ "Suc k"] exI [of _ n] exI [of _ w]) simp
      qed
    qed
    show "?C \<subseteq> ?A \<union> ?B"
    proof
      fix x assume "x \<in> ?C"
      then obtain k n w where "k < length (a # cs)" "(a # cs) ! k = Some n" "mem n w" "x = char_of (97 + (i + k)) # w" by blast
      then show "x \<in> ?A \<union> ?B" by (cases k) auto
    qed
  qed
  finally show ?case .
qed simp

lemma words_of_set: "wf t \<Longrightarrow> set (words_of t) = {w. mem t w}"
proof (induction t rule: wf.induct)
  case (1 t)
  obtain cs e where t: "t = TrieNode cs e" by (cases t)
  have below: "set (words_below cs 0) = {char_of (97 + (0 + k)) # w | k n w. k < length cs \<and> cs ! k = Some n \<and> mem n w}"
    using 1 t by (intro words_below_set) auto
  have "w \<in> set (words_of t) \<longleftrightarrow> mem t w" for w
  proof (cases w)
    case (Cons c v)
    have "(\<exists>k n. k < 26 \<and> c = char_of (97 + k) \<and> cs ! k = Some n \<and> mem n v) \<longleftrightarrow>
      letter c \<and> (\<exists>n. cs ! slot_of c = Some n \<and> mem n v)"
      using letter_of_slot letter_slot slot_letter by metis
    then show ?thesis using Cons 1(1) t below by (auto split: option.splits)
  qed (auto simp: t below)
  then show ?case by auto
qed

lemma words_below_sorted:
  "\<forall>n. Some n \<in> set cs \<longrightarrow> sorted_wrt (<) (words_of n) \<Longrightarrow> i + length cs \<le> 26 \<Longrightarrow>
   sorted_wrt (<) (words_below cs i) \<and> (\<forall>v\<in>set (words_below cs i). \<exists>j w. i \<le> j \<and> j < 26 \<and> v = char_of (97 + j) # w)"
proof (induction cs arbitrary: i)
  case (Cons a cs)
  note IH = Cons.IH [of "Suc i"]
  show ?case
  proof (cases a)
    case None
    then have "\<forall>v\<in>set (words_below cs (Suc i)). \<exists>j w. i \<le> j \<and> j < 26 \<and> v = char_of (97 + j) # w"
      using IH Cons.prems Suc_leD by (metis Suc_eq_plus1 add_Suc_shift length_Cons list.set_intros(2))
    then show ?thesis using IH Cons.prems None by simp
  next
    case (Some n)
    have less: "char_of (97 + i) # u < char_of (97 + j) # v" if "i < j" "j < 26" for j u v
      using that by (simp add: less_char_def of_char_of)
    have "sorted_wrt (<) (map (Cons (char_of (97 + i))) (words_of n))"
      using Cons.prems(1) Some by (simp add: sorted_wrt_map)
    then show ?thesis using IH Cons.prems Some less
      by (fastforce simp: sorted_wrt_append dest: Suc_leD)
  qed
qed simp

lemma append_less [simp]: "key @ u < key @ v \<longleftrightarrow> u < (v :: string)"
  by (induction key) auto

lemma words_of_sorted: "wf t \<Longrightarrow> sorted_wrt (<) (words_of t)"
proof (induction t rule: wf.induct)
  case (1 t)
  obtain cs e where t: "t = TrieNode cs e" by (cases t)
  have "sorted_wrt (<) (words_below cs 0)" "\<forall>v\<in>set (words_below cs 0). [] < v"
    using words_below_sorted [of cs 0] 1 t by auto
  then show ?case by (cases e) (simp_all add: t)
qed

text \<open>A character outside a to z is an index out of range.\<close>

lemma insert_node_bad: "wf t \<Longrightarrow> \<not> lower w \<Longrightarrow> insert_node t w = None"
proof (induction w arbitrary: t)
  case (Cons c w)
  show ?case
  proof (cases "letter c")
    case True
    then have c: "letter_index c = int (slot_of c)" "slot_of c < length (children t)"
      using letter_slot [of c] wfD(1) [OF Cons.prems(1)] by auto
    have "wf (case children t ! slot_of c of None \<Rightarrow> trie_new_node | Some n \<Rightarrow> n)"
      using wfD(2) [OF Cons.prems(1)] nth_mem [OF c(2)] wf_new by (auto split: option.splits)
    then show ?thesis using Cons True c by simp
  next
    case False
    have "letter_index c = int (of_char c) - 97"
      using of_nat_of_char [where 'a = int, of c] by (simp add: letter_index_def)
    then have "vget (children t) (letter_index c) = None"
      using False wfD(1) [OF Cons.prems(1)] by (auto simp: vget_def letter_def)
    then show ?thesis by simp
  qed
qed simp

lemma insert_all_bad: "wf t \<Longrightarrow> \<not> list_all lower ws \<Longrightarrow> insert_all t ws = None"
proof (induction ws arbitrary: t)
  case (Cons w ws)
  then show ?case using insert_node_ok [OF Cons.prems(1), of w] insert_node_bad [OF Cons.prems(1), of w] by (cases "lower w") auto
qed simp

text \<open>
  C24: inserting words succeeds exactly when they are all lower-case; an index is out of range otherwise. After
  it and for a lower-case key, search tells whether the key is an inserted word, startsWith whether it is a prefix of
  one or empty, and autocomplete returns the first max_results of the inserted words with the given
  prefix in lexicographic order; no array access is out of range. On the empty trie startsWith
  finds the empty prefix although no word starts with it.
\<close>
theorem trie_refines_word_set:
  assumes "lower key"
  shows "case insert_all trie_new_node ws of
      None \<Rightarrow> \<not> list_all lower ws
    | Some t \<Rightarrow> list_all lower ws \<and>
        search t key = Some (key \<in> set ws) \<and>
        startsWith t key = Some (key = [] \<or> (\<exists>w\<in>set ws. prefix key w)) \<and>
        autocomplete t key m = Some (take (nat m) (sorted_list_of_set {w \<in> set ws. prefix key w}))"
proof (cases "list_all lower ws")
  case False
  then show ?thesis by (simp add: insert_all_bad [OF wf_new])
next
  case True
  then have lower_ws: "\<forall>w\<in>set ws. lower w" by (simp add: list_all_iff)
  obtain t where t: "insert_all trie_new_node ws = Some t" "wf t" "\<forall>v. mem t v \<longleftrightarrow> v \<in> set ws"
    using insert_all_ok [OF wf_new lower_ws] by auto
  have pre: "(\<exists>w\<in>set ws. prefix key w) \<longleftrightarrow> (\<exists>w. mem t (key @ w))" using t(3) by (auto simp: prefix_def)
  consider n where "trie_traverse t key = Some (Some n)" "wf n" "\<forall>w. mem n w \<longleftrightarrow> mem t (key @ w)" "key = [] \<or> (\<exists>w. mem n w)"
    | "trie_traverse t key = Some None" "key \<noteq> []" "\<forall>w. \<not> mem t (key @ w)"
    using traverse_ok [OF t(2) assms] by blast
  then have "search t key = Some (key \<in> set ws) \<and>
    startsWith t key = Some (key = [] \<or> (\<exists>w\<in>set ws. prefix key w)) \<and>
    autocomplete t key m = Some (take (nat m) (sorted_list_of_set {w \<in> set ws. prefix key w}))"
  proof cases
    case 1
    have "set (map ((@) key) (words_of n)) = {w \<in> set ws. prefix key w}"
      using words_of_set [OF 1(2)] 1(3) t(3) by (auto simp: prefix_def)
    moreover have "sorted_wrt (<) (map ((@) key) (words_of n))"
      using words_of_sorted [OF 1(2)] by (simp add: sorted_wrt_map)
    ultimately have "map ((@) key) (words_of n) = sorted_list_of_set {w \<in> set ws. prefix key w}"
      by (metis sorted_list_of_set.idem_if_sorted_distinct strict_sorted_iff)
    moreover have "is_end n \<longleftrightarrow> key \<in> set ws" using 1(3) t(3) by (metis append_Nil2 mem.simps(1))
    ultimately show ?thesis
      using 1 pre by (auto simp: search_def startsWith_def autocomplete_def collect_words)
  next
    case 2
    then have "{w \<in> set ws. prefix key w} = {}" using t(3) by (auto simp: prefix_def)
    moreover have "key \<notin> set ws" using 2(3) t(3) by (metis append_Nil2)
    ultimately show ?thesis using 2 pre by (auto simp: search_def startsWith_def autocomplete_def)
  qed
  then show ?thesis using t(1) True by simp
qed

theorem trie_refines_word_set_witness:
  "case insert_all trie_new_node [''bat'', ''ba''] of
      None \<Rightarrow> False
    | Some t \<Rightarrow> search t ''ba'' = Some True \<and>
        autocomplete t ''ba'' 5 = Some (take 5 (sorted_list_of_set {w \<in> set [''bat'', ''ba'']. prefix ''ba'' w}))"
  using trie_refines_word_set [of "''ba''" "[''bat'', ''ba'']" 5]
  by (simp add: letter_def split: option.splits)

text \<open>The comment of startsWith promises a word with the prefix; the empty trie has none.\<close>

lemma startsWith_no_word: "startsWith trie_new_node [] = Some True"
  by (simp add: startsWith_def)

end
