(* ===== verification/Topological_Sort.thy ===== *)
theory Topological_Sort
  imports Prelude
begin

text \<open>
  src/src/dsa/topological_sort.cpp: Kahn's algorithm with a queue and the depth-first sort. Both searches
  are partial functions; the first is proved to end.
\<close>

section \<open>Definitions\<close>

fun build_graph :: "(int \<times> int) list \<Rightarrow> int list list \<Rightarrow> int list \<Rightarrow> (int list list \<times> int list) ub" where
  "build_graph [] adj in_degree = Some (adj, in_degree)"
| "build_graph ((u, v) # edges) adj in_degree = do {
     row \<leftarrow> vget adj u;
     adj' \<leftarrow> vset adj u (row @ [v]);
     d \<leftarrow> vget in_degree v;
     d' \<leftarrow> chk (d + 1);
     in_degree' \<leftarrow> vset in_degree v d';
     build_graph edges adj' in_degree' }"

fun release :: "int list \<Rightarrow> int list \<Rightarrow> int list \<Rightarrow> (int list \<times> int list) ub" where
  "release [] in_degree q = Some (in_degree, q)"
| "release (neighbor # ns) in_degree q = do {
     d \<leftarrow> vget in_degree neighbor;
     d' \<leftarrow> chk (d - 1);
     in_degree' \<leftarrow> vset in_degree neighbor d';
     release ns in_degree' (if d' = 0 then q @ [neighbor] else q) }"

partial_function (option) kahn_loop :: "int list list \<Rightarrow> int list \<Rightarrow> int list \<Rightarrow> int list \<Rightarrow> int list option" where
  "kahn_loop adj in_degree q order =
     (case q of [] \<Rightarrow> Some order
      | node # q \<Rightarrow> do {
          ns \<leftarrow> vget adj node;
          (in_degree, q) \<leftarrow> release ns in_degree q;
          kahn_loop adj in_degree q (order @ [node]) })"

definition topoSortKahn :: "int \<Rightarrow> (int \<times> int) list \<Rightarrow> int list ub" where
  "topoSortKahn numNodes edges = do {
     guard (0 \<le> numNodes);
     (adj, in_degree) \<leftarrow> build_graph edges (replicate (nat numNodes) []) (replicate (nat numNodes) 0);
     let q = filter (\<lambda>i. in_degree ! nat i = 0) [0..numNodes - 1];
     order \<leftarrow> kahn_loop adj in_degree q [];
     if int (length order) \<noteq> numNodes then Some [] else Some order }"

datatype visit_state = Unvisited | Visiting | Visited

record dfs_sorter =
  state_of :: "visit_state list"
  order_of :: "int list"
  has_cycle :: bool

text \<open>A call of dfs, or the rest of its loop over the neighbours.\<close>

datatype dfs_task = Visit int | Neighbors int "int list"

partial_function (option) dfs :: "int list list \<Rightarrow> dfs_task \<Rightarrow> dfs_sorter \<Rightarrow> dfs_sorter option" where
  "dfs adj task st =
     (case task of
        Visit node \<Rightarrow>
          if has_cycle st then Some st
          else do {
            s' \<leftarrow> vset (state_of st) node Visiting;
            ns \<leftarrow> vget adj node;
            dfs adj (Neighbors node ns) (st\<lparr>state_of := s'\<rparr>) }
      | Neighbors node ns \<Rightarrow>
          (case ns of
             [] \<Rightarrow> do {
               s' \<leftarrow> vset (state_of st) node Visited;
               Some (st\<lparr>state_of := s', order_of := order_of st @ [node]\<rparr>) }
           | neighbor # ns \<Rightarrow> do {
               s \<leftarrow> vget (state_of st) neighbor;
               if s = Visiting then Some (st\<lparr>has_cycle := True\<rparr>)
               else if s = Unvisited then do {
                 st' \<leftarrow> dfs adj (Visit neighbor) st;
                 dfs adj (Neighbors node ns) st' }
               else dfs adj (Neighbors node ns) st }))"

declare kahn_loop.simps [code] dfs.simps [code]

fun dfs_all :: "int list list \<Rightarrow> int list \<Rightarrow> dfs_sorter \<Rightarrow> dfs_sorter ub" where
  "dfs_all adj [] st = Some st"
| "dfs_all adj (i # is) st = do {
     s \<leftarrow> vget (state_of st) i;
     st' \<leftarrow> (if s = Unvisited then dfs adj (Visit i) st else Some st);
     dfs_all adj is st' }"

fun build_adj :: "(int \<times> int) list \<Rightarrow> int list list \<Rightarrow> int list list ub" where
  "build_adj [] adj = Some adj"
| "build_adj ((u, v) # edges) adj = do { row \<leftarrow> vget adj u; adj' \<leftarrow> vset adj u (row @ [v]); build_adj edges adj' }"

definition dfs_sort :: "int \<Rightarrow> (int \<times> int) list \<Rightarrow> int list ub" where
  "dfs_sort numNodes edges = do {
     guard (0 \<le> numNodes);
     adj \<leftarrow> build_adj edges (replicate (nat numNodes) []);
     st \<leftarrow> dfs_all adj [0..numNodes - 1] \<lparr>state_of = replicate (nat numNodes) Unvisited, order_of = [], has_cycle = False\<rparr>;
     if has_cycle st then Some [] else Some (rev (order_of st)) }"

definition topological_sort_main :: "(int list \<times> int list \<times> bool \<times> bool) ub" where
  "topological_sort_main = do {
     let edges = [(0, 1), (0, 2), (1, 3), (2, 3), (3, 4), (4, 5)];
     kahn_order \<leftarrow> topoSortKahn 6 edges;
     dfs_order \<leftarrow> dfs_sort 6 edges;
     let cyclic_edges = [(0, 1), (1, 2), (2, 0)];
     result \<leftarrow> topoSortKahn 3 cyclic_edges;
     dfs_result \<leftarrow> dfs_sort 3 cyclic_edges;
     Some (kahn_order, dfs_order, result = [], dfs_result = []) }"

lemma topological_sort_main_output:
  "topological_sort_main = Some ([0, 1, 2, 3, 4, 5], [0, 2, 1, 3, 4, 5], True, True)"
  by code_simp

section \<open>The graph that is built\<close>

definition edges_ok :: "int \<Rightarrow> (int \<times> int) list \<Rightarrow> bool" where
  "edges_ok n edges \<longleftrightarrow> (\<forall>(u, v)\<in>set edges. 0 \<le> u \<and> u < n \<and> 0 \<le> v \<and> v < n) \<and> int (length edges) \<le> INT_MAX"

text \<open>Successors in the order of the edge list, and the number of edges into v from nodes outside done.\<close>

definition succs :: "(int \<times> int) list \<Rightarrow> int \<Rightarrow> int list" where
  "succs edges u = map snd (filter (\<lambda>(a, b). a = u) edges)"

definition pending :: "(int \<times> int) list \<Rightarrow> int set \<Rightarrow> int \<Rightarrow> nat" where
  "pending edges done' v = length (filter (\<lambda>(a, b). b = v \<and> a \<notin> done') edges)"

lemma succs_simps [simp]:
  "succs [] u = []" "succs ((a, b) # edges) u = (if a = u then b # succs edges u else succs edges u)"
  by (simp_all add: succs_def)

lemma pending_simps [simp]:
  "pending [] d v = 0" "pending ((a, b) # edges) d v = (if b = v \<and> a \<notin> d then Suc (pending edges d v) else pending edges d v)"
  by (simp_all add: pending_def)

lemma pending_le: "pending edges d v \<le> length edges"
  by (simp add: pending_def)

lemma pending_insert: "u \<notin> d \<Longrightarrow> pending edges d v = pending edges (insert u d) v + count_list (succs edges u) v"
  by (induction edges) auto

lemma pending_0: "pending edges d v = 0 \<longleftrightarrow> (\<forall>a. (a, v) \<in> set edges \<longrightarrow> a \<in> d)"
  by (auto simp: pending_def filter_empty_conv)

lemma build_graph_ok:
  "\<forall>(u, v)\<in>set edges. 0 \<le> u \<and> u < int n \<and> 0 \<le> v \<and> v < int n \<Longrightarrow> length adj = n \<Longrightarrow> length deg = n \<Longrightarrow>
   \<forall>d\<in>set deg. 0 \<le> d \<and> d + int (length edges) \<le> INT_MAX \<Longrightarrow>
   \<exists>adj' deg'. build_graph edges adj deg = Some (adj', deg') \<and> length adj' = n \<and> length deg' = n \<and>
     (\<forall>k<n. adj' ! k = adj ! k @ succs edges (int k) \<and> deg' ! k = deg ! k + int (pending edges {} (int k)))"
proof (induction edges arbitrary: adj deg)
  case (Cons e edges)
  obtain u v where e: "e = (int u, int v)" "u < n" "v < n"
    using Cons.prems(1) by (cases e) (auto dest!: zero_le_imp_eq_int)
  have d: "0 \<le> deg ! v" "deg ! v + int (length (e # edges)) \<le> INT_MAX" using Cons.prems(3,4) e(3) by auto
  have c: "chk (deg ! v + 1) = Some (deg ! v + 1)" using d by (intro chk_Some) auto
  let ?adj = "adj[u := adj ! u @ [int v]]" and ?deg = "deg[v := deg ! v + 1]"
  have "\<forall>x\<in>set ?deg. 0 \<le> x \<and> x + int (length edges) \<le> INT_MAX"
    using Cons.prems(4) d set_update_subset_insert [of deg v "deg ! v + 1"] by fastforce
  then obtain adj' deg' where "build_graph edges ?adj ?deg = Some (adj', deg')" "length adj' = n" "length deg' = n"
    "\<forall>k<n. adj' ! k = ?adj ! k @ succs edges (int k) \<and> deg' ! k = ?deg ! k + int (pending edges {} (int k))"
    using Cons.IH [of ?adj ?deg] Cons.prems(1-3) by auto
  then show ?case using e c Cons.prems(2,3) by (auto simp: nth_list_update)
qed auto

lemma release_ok:
  "\<forall>v\<in>set ns. 0 \<le> v \<and> v < int (length deg) \<Longrightarrow> \<forall>v<length deg. int (count_list ns (int v)) \<le> deg ! v \<and> deg ! v \<le> INT_MAX \<Longrightarrow>
   \<exists>deg' fresh. release ns deg q = Some (deg', q @ fresh) \<and> length deg' = length deg \<and> distinct fresh \<and>
     (\<forall>v<length deg. deg' ! v = deg ! v - int (count_list ns (int v))) \<and>
     set fresh = {v \<in> set ns. deg ! nat v = int (count_list ns v)}"
proof (induction ns arbitrary: deg q)
  case (Cons x ns)
  obtain v where v: "x = int v" "v < length deg" using Cons.prems(1) by (auto dest!: zero_le_imp_eq_int)
  have dv: "1 \<le> deg ! v" "deg ! v \<le> INT_MAX" "int (count_list ns x) + 1 \<le> deg ! v" using Cons.prems(2) v by fastforce+
  have c: "chk (deg ! v - 1) = Some (deg ! v - 1)" using dv by (intro chk_Some) auto
  let ?deg = "deg[v := deg ! v - 1]" and ?q = "if deg ! v - 1 = 0 then q @ [x] else q"
  have "\<forall>w<length ?deg. int (count_list ns (int w)) \<le> ?deg ! w \<and> ?deg ! w \<le> INT_MAX"
  proof (intro allI impI)
    fix w assume w: "w < length ?deg"
    then have "int (count_list (x # ns) (int w)) \<le> deg ! w \<and> deg ! w \<le> INT_MAX" using Cons.prems(2) by simp
    then show "int (count_list ns (int w)) \<le> ?deg ! w \<and> ?deg ! w \<le> INT_MAX" using w v by (auto simp: nth_list_update split: if_splits)
  qed
  then obtain deg' fresh where r: "release ns ?deg ?q = Some (deg', ?q @ fresh)" "length deg' = length ?deg" "distinct fresh"
    "\<forall>w<length ?deg. deg' ! w = ?deg ! w - int (count_list ns (int w))"
    "set fresh = {w \<in> set ns. ?deg ! nat w = int (count_list ns w)}"
    using Cons.IH [of ?deg ?q] Cons.prems(1) by auto
  define fresh' where "fresh' = (if deg ! v - 1 = 0 then x # fresh else fresh)"
  have x0: "x \<notin> set ns" if "deg ! v - 1 = 0"
  proof -
    have "count_list ns x = 0" using dv(3) that by linarith
    then show ?thesis by (simp add: count_list_0_iff)
  qed
  have "set fresh' = {w \<in> set (x # ns). deg ! nat w = int (count_list (x # ns) w)}"
  proof -
    have "w \<in> set fresh' \<longleftrightarrow> w \<in> set (x # ns) \<and> deg ! nat w = int (count_list (x # ns) w)" for w
    proof (cases "w = x")
      case True
      have m: "x \<in> set fresh \<longleftrightarrow> x \<in> set ns \<and> deg ! v - 1 = int (count_list ns x)" using r(5) v by simp
      have z: "x \<notin> set ns \<longleftrightarrow> int (count_list ns x) = 0" by (simp add: count_list_0_iff)
      show ?thesis
      proof (cases "deg ! v - 1 = 0")
        case one: True
        then have "int (count_list ns x) = 0" using x0 z by blast
        then show ?thesis using True one v by (simp add: fresh'_def)
      next
        case False
        then show ?thesis using True m z v by (auto simp: fresh'_def)
      qed
    next
      case False
      then have "w \<in> set ns \<Longrightarrow> nat w \<noteq> v" using Cons.prems(1) v by auto
      then have "w \<in> set fresh \<longleftrightarrow> w \<in> set ns \<and> deg ! nat w = int (count_list ns w)"
        unfolding r(5) by (cases "w \<in> set ns") simp_all
      then show ?thesis using False by (simp add: fresh'_def)
    qed
    then show ?thesis by blast
  qed
  moreover have "distinct fresh'" using r(3,5) x0 by (auto simp: fresh'_def)
  moreover have "release (x # ns) deg q = Some (deg', q @ fresh')"
    using r(1) c v by (auto simp: fresh'_def)
  moreover have "\<forall>w<length deg. deg' ! w = deg ! w - int (count_list (x # ns) (int w))"
    using r(4) v by (auto simp: nth_list_update)
  ultimately show ?case using r(2) by auto
qed auto

section \<open>Kahn's loop\<close>

definition kahn_inv :: "nat \<Rightarrow> (int \<times> int) list \<Rightarrow> int list \<Rightarrow> int list \<Rightarrow> int list \<Rightarrow> bool" where
  "kahn_inv n edges deg q order \<longleftrightarrow> length deg = n \<and> distinct (order @ q) \<and> set (order @ q) \<subseteq> {0..<int n} \<and>
     (\<forall>k<n. deg ! k = int (pending edges (set order) (int k))) \<and>
     (\<forall>k<n. int k \<in> set (order @ q) \<longleftrightarrow> pending edges (set order) (int k) = 0) \<and>
     (\<forall>xs b ys. order = xs @ b # ys \<longrightarrow> (\<forall>a. (a, b) \<in> set edges \<longrightarrow> a \<in> set xs))"

definition topological :: "int list \<Rightarrow> (int \<times> int) list \<Rightarrow> bool" where
  "topological order edges \<longleftrightarrow> (\<forall>xs b ys. order = xs @ b # ys \<longrightarrow> (\<forall>a. (a, b) \<in> set edges \<longrightarrow> a \<in> set xs))"

lemma kahn_inv_step:
  assumes inv: "kahn_inv n edges deg (node # q) order" and ok: "edges_ok (int n) edges"
  shows "\<exists>deg' fresh. release (succs edges node) deg q = Some (deg', q @ fresh) \<and> kahn_inv n edges deg' (q @ fresh) (order @ [node])"
proof -
  note i = inv [unfolded kahn_inv_def]
  have node: "node \<notin> set order" "0 \<le> node" "node < int n" using i by auto
  have split: "pending edges (set order) v = pending edges (set (order @ [node])) v + count_list (succs edges node) v" for v
    using pending_insert [OF node(1), of edges v] by simp
  have succ: "\<forall>v\<in>set (succs edges node). 0 \<le> v \<and> v < int (length deg)" using ok i by (auto simp: succs_def edges_ok_def)
  moreover have "\<forall>v<length deg. int (count_list (succs edges node) (int v)) \<le> deg ! v \<and> deg ! v \<le> INT_MAX"
  proof (intro allI impI)
    fix v assume v: "v < length deg"
    have "int (pending edges (set order) (int v)) \<le> INT_MAX" using pending_le [of edges "set order" "int v"] ok by (simp add: edges_ok_def)
    then show "int (count_list (succs edges node) (int v)) \<le> deg ! v \<and> deg ! v \<le> INT_MAX" using v i split [of "int v"] by simp
  qed
  ultimately obtain deg' fresh where r: "release (succs edges node) deg q = Some (deg', q @ fresh)" "length deg' = length deg"
    "distinct fresh" "\<forall>v<length deg. deg' ! v = deg ! v - int (count_list (succs edges node) (int v))"
    "set fresh = {v \<in> set (succs edges node). deg ! nat v = int (count_list (succs edges node) v)}"
    using release_ok [of "succs edges node" deg q] by blast
  have fresh: "v \<in> set fresh \<longleftrightarrow> pending edges (set order) v \<noteq> 0 \<and> pending edges (set (order @ [node])) v = 0"
    if "0 \<le> v" "v < int n" for v
  proof -
    have "deg ! nat v = int (pending edges (set order) v)" using i that by (auto dest: spec [of _ "nat v"])
    moreover have "v \<in> set (succs edges node) \<longleftrightarrow> count_list (succs edges node) v \<noteq> 0" by (simp add: count_list_0_iff)
    moreover have "v \<in> set fresh \<longleftrightarrow> v \<in> set (succs edges node) \<and> deg ! nat v = int (count_list (succs edges node) v)"
      unfolding r(5) by simp
    ultimately have "v \<in> set fresh \<longleftrightarrow> count_list (succs edges node) v \<noteq> 0 \<and> pending edges (set order) v = count_list (succs edges node) v"
      by simp
    then show ?thesis using split [of v] by linarith
  qed
  have fresh_range: "set fresh \<subseteq> {0..<int n}" using r(5) succ i by auto
  have old: "pending edges (set order) v = 0" if "v \<in> set order \<or> v = node \<or> v \<in> set q" for v
  proof -
    have v: "v \<in> set (order @ node # q)" "0 \<le> v" "v < int n" using i that by auto
    have "\<forall>k<n. int k \<in> set (order @ node # q) \<longleftrightarrow> pending edges (set order) (int k) = 0" using i by blast
    from this [rule_format, of "nat v"] show ?thesis using v by (simp add: nat_less_iff)
  qed
  have disj: "set fresh \<inter> (set order \<union> {node} \<union> set q) = {}"
  proof (rule ccontr)
    assume "\<not> ?thesis"
    then obtain v where v: "v \<in> set fresh" "v \<in> set order \<or> v = node \<or> v \<in> set q" by blast
    then have "0 \<le> v" "v < int n" using fresh_range by auto
    then show False using fresh [of v] old [OF v(2)] v(1) by simp
  qed
  have preds: "a \<in> set order" if "(a, node) \<in> set edges" for a using old [of node] that by (simp add: pending_0)
  have "kahn_inv n edges deg' (q @ fresh) (order @ [node])"
    unfolding kahn_inv_def
  proof (intro conjI allI impI)
    show "length deg' = n" using r(2) i by simp
    show "distinct ((order @ [node]) @ q @ fresh)" using i r(3) disj by auto
    show "set ((order @ [node]) @ q @ fresh) \<subseteq> {0..<int n}" using i fresh_range by auto
  next
    fix k assume k: "k < n"
    show "deg' ! k = int (pending edges (set (order @ [node])) (int k))" using r(4) i k split [of "int k"] by auto
    show "int k \<in> set ((order @ [node]) @ q @ fresh) \<longleftrightarrow> pending edges (set (order @ [node])) (int k) = 0"
    proof -
      have "int k \<in> set (order @ node # q) \<longleftrightarrow> pending edges (set order) (int k) = 0" using i k by blast
      then show ?thesis using fresh [of "int k"] k split [of "int k"] by auto
    qed
  next
    fix xs b ys a assume o: "order @ [node] = xs @ b # ys" and e: "(a, b) \<in> set edges"
    show "a \<in> set xs"
    proof (cases ys rule: rev_cases)
      case Nil
      then show ?thesis using o preds e by auto
    next
      case (snoc zs z)
      then have "order = xs @ b # zs" using o by simp
      then show ?thesis using i e by blast
    qed
  qed
  then show ?thesis using r(1) by blast
qed

lemma kahn_loop_ok:
  assumes ok: "edges_ok (int n) edges" and adj: "\<forall>k<n. adj ! k = succs edges (int k)" "length adj = n"
  shows "kahn_inv n edges deg q order \<Longrightarrow> \<exists>deg' order'. kahn_loop adj deg q order = Some order' \<and> kahn_inv n edges deg' [] order'"
proof (induction "n - length order" arbitrary: deg q order rule: less_induct)
  case less
  show ?case
  proof (cases q)
    case Nil
    then show ?thesis using less.prems by (subst kahn_loop.simps) auto
  next
    case (Cons node q')
    have "distinct (order @ [node])" "set (order @ [node]) \<subseteq> {0..<int n}" using less.prems Cons by (auto simp: kahn_inv_def)
    then have "length (order @ [node]) \<le> n"
      using card_mono [of "{0..<int n}" "set (order @ [node])"] distinct_card [of "order @ [node]"] by simp
    then have lt: "n - length (order @ [node]) < n - length order" by simp
    obtain deg' fresh where r: "release (succs edges node) deg q' = Some (deg', q' @ fresh)"
      "kahn_inv n edges deg' (q' @ fresh) (order @ [node])"
      using kahn_inv_step less.prems ok Cons by blast
    have "vget adj node = Some (succs edges node)"
      using adj less.prems Cons by (auto simp: kahn_inv_def vget_def)
    then show ?thesis using less.hyps [OF lt r(2)] r(1) Cons by (subst kahn_loop.simps) simp
  qed
qed

lemma kahn_start:
  assumes "edges_ok (int n) edges" "length deg = n" "\<forall>k<n. deg ! k = int (pending edges {} (int k))"
  shows "kahn_inv n edges deg (filter (\<lambda>i. deg ! nat i = 0) [0..int n - 1]) []"
  using assms by (auto simp: kahn_inv_def)

text \<open>A set of nodes each of which has a predecessor in the set holds a cycle.\<close>

lemma acyclic_source:
  assumes "acyclic (set edges)" "x \<in> S"
  shows "\<exists>b\<in>S. \<forall>a. (a, b) \<in> set edges \<longrightarrow> a \<notin> S"
proof -
  have "wf (set edges)" using assms(1) by (simp add: finite_acyclic_wf)
  then show ?thesis using assms(2) unfolding wf_eq_minimal by blast
qed

lemma topological_acyclic:
  assumes "topological order edges" "distinct order" "\<forall>(a, b)\<in>set edges. b \<in> set order"
  shows "acyclic (set edges)"
proof -
  have "\<exists>i j. i < j \<and> j < length order \<and> order ! i = a \<and> order ! j = b" if "(a, b) \<in> (set edges)\<^sup>+" for a b
    using that
  proof (induction rule: trancl_induct)
    case (base b)
    then have "b \<in> set order" using assms(3) by auto
    then obtain xs ys where o: "order = xs @ b # ys" by (meson split_list)
    then have "a \<in> set xs" using assms(1) base by (auto simp: topological_def)
    then obtain i where "i < length xs" "xs ! i = a" by (auto simp: in_set_conv_nth)
    then show ?case using o by (intro exI [of _ i] exI [of _ "length xs"]) (auto simp: nth_append)
  next
    case (step b c)
    then obtain i j where ij: "i < j" "j < length order" "order ! i = a" "order ! j = b" by blast
    have "c \<in> set order" using assms(3) step by auto
    then obtain xs ys where o: "order = xs @ c # ys" by (meson split_list)
    then have "b \<in> set xs" using assms(1) step(2) by (auto simp: topological_def)
    then obtain k where k: "k < length xs" "order ! k = b" using o by (auto simp: in_set_conv_nth nth_append)
    then have "k = j" using ij assms(2) o by (auto simp: nth_eq_iff_index_eq)
    then show ?case using o ij k by (intro exI [of _ i] exI [of _ "length xs"]) (auto simp: nth_append)
  qed
  then show ?thesis using assms(2) unfolding acyclic_def by (metis nth_eq_iff_index_eq order_less_trans less_irrefl)
qed

text \<open>
  Claim: topoSortKahn ends. On an acyclic graph it returns every node once, every edge leading from an
  earlier node to a later one; on a graph with a cycle it returns nothing.
\<close>
theorem topoSortKahn_correct:
  assumes "edges_ok (int n) edges"
  shows "\<exists>order. topoSortKahn (int n) edges = Some order \<and>
    (if acyclic (set edges) then set order = {0..<int n} \<and> distinct order \<and> topological order edges else order = [])"
proof -
  have len: "length edges \<le> 2147483647" using assms by (simp add: edges_ok_def)
  obtain adj deg where g: "build_graph edges (replicate n []) (replicate n 0) = Some (adj, deg)" "length adj = n" "length deg = n"
    "\<forall>k<n. adj ! k = succs edges (int k) \<and> deg ! k = int (pending edges {} (int k))"
    using build_graph_ok [of edges n "replicate n []" "replicate n 0"] assms by (auto simp: edges_ok_def)
  obtain deg' order where k: "kahn_loop adj deg (filter (\<lambda>i. deg ! nat i = 0) [0..int n - 1]) [] = Some order"
    "kahn_inv n edges deg' [] order"
    using kahn_loop_ok [OF assms _ g(2) kahn_start [OF assms g(3)]] g(4) by blast
  note i = k(2) [unfolded kahn_inv_def]
  have top': "topological order edges" using i by (simp add: topological_def)
  have full: "int (length order) = int n \<longleftrightarrow> set order = {0..<int n}"
  proof -
    have d: "card (set order) = length order" "set order \<subseteq> {0..<int n}" using i by (auto simp: distinct_card)
    then show ?thesis using card_subset_eq [of "{0..<int n}" "set order"] by auto
  qed
  have "acyclic (set edges) \<longleftrightarrow> set order = {0..<int n}"
  proof
    assume ac: "acyclic (set edges)"
    show "set order = {0..<int n}"
    proof (rule ccontr)
      assume "set order \<noteq> {0..<int n}"
      then obtain x where x: "x \<in> {0..<int n} - set order" using i by (metis Diff_iff append_Nil2 subsetI subset_antisym)
      obtain b where b: "b \<in> {0..<int n} - set order" "\<forall>a. (a, b) \<in> set edges \<longrightarrow> a \<notin> {0..<int n} - set order"
        using acyclic_source [OF ac x] by blast
      then have "pending edges (set order) b = 0" using assms by (fastforce simp: pending_0 edges_ok_def)
      then show False using i b(1) by (auto dest: spec [of _ "nat b"])
    qed
  next
    assume "set order = {0..<int n}"
    then show "acyclic (set edges)" using topological_acyclic [OF top'] i assms by (fastforce simp: edges_ok_def)
  qed
  moreover have "topoSortKahn (int n) edges = Some (if int (length order) \<noteq> int n then [] else order)"
    using g(1) k(1) by (simp add: topoSortKahn_def)
  ultimately show ?thesis using full top' i by auto
qed

theorem topoSortKahn_correct_witness:
  "\<exists>order. topoSortKahn (int 2) [(1, 0)] = Some order \<and> (if acyclic (set [(1::int, 0)]) then set order = {0..<int 2} \<and>
    distinct order \<and> topological order [(1, 0)] else order = [])"
  by (rule topoSortKahn_correct) (simp add: edges_ok_def)

end
