(* ===== verification/Dijkstra.thy ===== *)
theory Dijkstra
  imports Prelude
begin

text \<open>
  src/src/dsa/dijkstra.cpp: Dijkstra's algorithm with lazy deletion and the reconstruction of a path. The
  priority queue is the list of its entries; its top is the least pair.
\<close>

section \<open>Definitions\<close>

record edge =
  to :: int
  weight :: int

definition Edge :: "int \<Rightarrow> int \<Rightarrow> edge" where
  "Edge t w = \<lparr>to = t, weight = w\<rparr>"

type_synonym graph = "edge list list"
type_synonym pq_entry = "int \<times> int"

abbreviation INF_DIST :: int where
  "INF_DIST \<equiv> INT_MAX"

fun pq_top :: "pq_entry \<Rightarrow> pq_entry list \<Rightarrow> pq_entry" where
  "pq_top e [] = e"
| "pq_top e (x # xs) = pq_top (if fst x < fst e \<or> fst x = fst e \<and> snd x < snd e then x else e) xs"

fun relax :: "edge list \<Rightarrow> int \<Rightarrow> int list \<Rightarrow> int list \<Rightarrow> pq_entry list \<Rightarrow> (int list \<times> int list \<times> pq_entry list) ub" where
  "relax [] u dist prev pq = Some (dist, prev, pq)"
| "relax (e # es) u dist prev pq = do {
     du \<leftarrow> vget dist u;
     c \<leftarrow> chk (du + weight e);
     dv \<leftarrow> vget dist (to e);
     if c < dv then do {
       dist' \<leftarrow> vset dist (to e) c;
       prev' \<leftarrow> vset prev (to e) u;
       relax es u dist' prev' ((c, to e) # pq) }
     else relax es u dist prev pq }"

partial_function (option) dijkstra_loop :: "graph \<Rightarrow> int list \<Rightarrow> int list \<Rightarrow> pq_entry list \<Rightarrow> (int list \<times> int list) option" where
  "dijkstra_loop graph dist prev pq =
     (if pq = [] then Some (dist, prev)
      else do {
        (d, u) \<leftarrow> Some (pq_top (hd pq) (tl pq));
        pq \<leftarrow> Some (remove1 (d, u) pq);
        du \<leftarrow> vget dist u;
        if d > du then dijkstra_loop graph dist prev pq
        else do {
          es \<leftarrow> vget graph u;
          (dist, prev, pq) \<leftarrow> relax es u dist prev pq;
          dijkstra_loop graph dist prev pq } })"

definition dijkstra :: "graph \<Rightarrow> int \<Rightarrow> (int list \<times> int list) ub" where
  "dijkstra graph source = do {
     n \<leftarrow> chk (int (length graph));
     dist \<leftarrow> vset (replicate (nat n) INF_DIST) source 0;
     dijkstra_loop graph dist (replicate (nat n) (- 1)) [(0, source)] }"

partial_function (option) path_loop :: "int list \<Rightarrow> int \<Rightarrow> int list \<Rightarrow> int list option" where
  "path_loop prev v path =
     (if v \<noteq> - 1 then do { v' \<leftarrow> vget prev v; path_loop prev v' (path @ [v]) } else Some path)"

declare dijkstra_loop.simps [code] path_loop.simps [code]

definition reconstruct_path :: "int list \<Rightarrow> int \<Rightarrow> int \<Rightarrow> int list ub" where
  "reconstruct_path prev source target = do {
     path \<leftarrow> path_loop prev target [];
     let path = rev path;
     front \<leftarrow> vget path 0;
     if front \<noteq> source then Some [] else Some path }"

definition push_edge :: "graph \<Rightarrow> int \<Rightarrow> edge \<Rightarrow> graph ub" where
  "push_edge graph u e = do { row \<leftarrow> vget graph u; vset graph u (row @ [e]) }"

definition dijkstra_main :: "(int list \<times> int list) ub" where
  "dijkstra_main = do {
     let graph = replicate 4 [];
     graph \<leftarrow> push_edge graph 0 (Edge 1 4);
     graph \<leftarrow> push_edge graph 0 (Edge 2 2);
     graph \<leftarrow> push_edge graph 2 (Edge 1 1);
     graph \<leftarrow> push_edge graph 2 (Edge 3 5);
     graph \<leftarrow> push_edge graph 1 (Edge 3 1);
     (dist, prev) \<leftarrow> dijkstra graph 0;
     path \<leftarrow> reconstruct_path prev 0 3;
     guard (dist = [0, 3, 2, 4]);
     guard (path = [0, 2, 1, 3]);
     Some (dist, path) }"

lemma dijkstra_main_output: "dijkstra_main = Some ([0, 3, 2, 4], [0, 2, 1, 3])"
  by code_simp

section \<open>Walks and the invariant\<close>

text \<open>The edges of node u, and the walks from s with their weights.\<close>

inductive walk :: "graph \<Rightarrow> nat \<Rightarrow> nat \<Rightarrow> int \<Rightarrow> bool" for g s where
  walk_start: "walk g s s 0"
| walk_step: "walk g s u d \<Longrightarrow> e \<in> set (g ! u) \<Longrightarrow> walk g s (nat (to e)) (d + weight e)"

text \<open>W bounds the weights, and no simple path reaches the value that stands for no path.\<close>

definition graph_ok :: "graph \<Rightarrow> int \<Rightarrow> bool" where
  "graph_ok g W \<longleftrightarrow> (\<forall>es\<in>set g. \<forall>e\<in>set es. 0 \<le> to e \<and> to e < int (length g) \<and> 0 \<le> weight e \<and> weight e \<le> W) \<and>
     0 \<le> W \<and> W * int (length g) < INF_DIST \<and> int (length g) \<le> INT_MAX"

text \<open>A simple path along which the current distances are no larger than the path's own.\<close>

inductive tracked :: "graph \<Rightarrow> nat \<Rightarrow> int list \<Rightarrow> nat \<Rightarrow> nat list \<Rightarrow> int \<Rightarrow> bool" for g s dist where
  "s < length g \<Longrightarrow> dist ! s \<le> 0 \<Longrightarrow> tracked g s dist s [s] 0"
| "tracked g s dist u xs d \<Longrightarrow> e \<in> set (g ! u) \<Longrightarrow> to e = int v \<Longrightarrow> v < length g \<Longrightarrow> v \<notin> set xs \<Longrightarrow>
   dist ! v \<le> d + weight e \<Longrightarrow> tracked g s dist v (xs @ [v]) (d + weight e)"

lemma edge_ok: "graph_ok g W \<Longrightarrow> u < length g \<Longrightarrow> e \<in> set (g ! u) \<Longrightarrow>
    0 \<le> to e \<and> to e < int (length g) \<and> 0 \<le> weight e \<and> weight e \<le> W"
  unfolding graph_ok_def by auto

lemma tracked_facts:
  assumes "graph_ok g W" "tracked g s dist u xs d"
  shows "u < length g \<and> u \<in> set xs \<and> distinct xs \<and> set xs \<subseteq> {..<length g} \<and> (\<forall>x\<in>set xs. dist ! x \<le> d) \<and> 0 \<le> d \<and>
    d \<le> W * (int (length xs) - 1) \<and> walk g s u d"
  using assms(2)
proof induction
  case 1
  then show ?case by (auto intro: walk_start)
next
  case (2 u xs d e v)
  have e: "0 \<le> weight e" "weight e \<le> W" using edge_ok [OF assms(1) _ 2(2)] 2(7) by auto
  have "walk g s (nat (to e)) (d + weight e)" using 2 by (blast intro: walk_step)
  moreover have "d + weight e \<le> W * (int (length (xs @ [v])) - 1)" using 2(7) e by (simp add: algebra_simps)
  ultimately show ?case using 2 e by force
qed

lemma tracked_bound:
  assumes "graph_ok g W" "tracked g s dist u xs d"
  shows "d + W < INF_DIST" "walk g s u d" "0 \<le> d"
proof -
  note f = tracked_facts [OF assms]
  have "card (set xs) \<le> card {..<length g}" using f by (intro card_mono) auto
  then have "int (length xs) \<le> int (length g)" using f by (simp add: distinct_card)
  then have "W * int (length xs) \<le> W * int (length g)" using assms(1) by (intro mult_left_mono) (auto simp: graph_ok_def)
  moreover have "d + W \<le> W * int (length xs)" using f by (simp add: algebra_simps)
  ultimately show "d + W < INF_DIST" using assms(1) by (simp add: graph_ok_def)
  show "walk g s u d" "0 \<le> d" using f by auto
qed

lemma tracked_mono: "tracked g s dist u xs d \<Longrightarrow> \<forall>v<length g. dist' ! v \<le> dist ! v \<Longrightarrow> tracked g s dist' u xs d"
proof (induction rule: tracked.induct)
  case 1
  then show ?case by (auto intro: tracked.intros(1) order_trans)
next
  case (2 u xs d e v)
  then show ?case by (intro tracked.intros(2)) (auto intro: order_trans)
qed

definition relaxed :: "graph \<Rightarrow> int list \<Rightarrow> nat \<Rightarrow> edge set \<Rightarrow> bool" where
  "relaxed g dist u E \<longleftrightarrow> (\<forall>e\<in>E. dist ! nat (to e) \<le> dist ! u + weight e)"

definition prev_ok :: "graph \<Rightarrow> nat \<Rightarrow> int list \<Rightarrow> int list \<Rightarrow> nat \<Rightarrow> bool" where
  "prev_ok g s dist prev v \<longleftrightarrow> (if v = s \<or> dist ! v = INF_DIST then prev ! v = - 1
     else \<exists>u e. prev ! v = int u \<and> u < length g \<and> e \<in> set (g ! u) \<and> to e = int v \<and> dist ! u + weight e \<le> dist ! v)"

text \<open>The invariant of both loops; u is a node whose edges are being relaxed.\<close>

definition dinv :: "graph \<Rightarrow> nat \<Rightarrow> nat set \<Rightarrow> int list \<Rightarrow> int list \<Rightarrow> pq_entry list \<Rightarrow> bool" where
  "dinv g s A dist prev pq \<longleftrightarrow> length dist = length g \<and> length prev = length g \<and> s < length g \<and> dist ! s \<le> 0 \<and>
     (\<forall>v<length g. dist ! v = INF_DIST \<or> (\<exists>xs. tracked g s dist v xs (dist ! v))) \<and>
     (\<forall>(d, x)\<in>set pq. \<exists>v<length g. x = int v \<and> dist ! v \<le> d \<and> dist ! v \<noteq> INF_DIST) \<and>
     (\<forall>v<length g. dist ! v \<noteq> INF_DIST \<longrightarrow> (dist ! v, int v) \<in> set pq \<or> v \<in> A \<or> relaxed g dist v (set (g ! v))) \<and>
     (\<forall>v<length g. prev_ok g s dist prev v)"

lemma dinv_update:
  assumes g: "graph_ok g W" and inv: "dinv g s {u} dist prev pq" and u: "u < length g" "dist ! u \<noteq> INF_DIST"
    and e: "e \<in> set (g ! u)" and v: "to e = int v" and c: "c = dist ! u + weight e" "c < dist ! v"
  shows "dinv g s {u} (dist[v := c]) (prev[v := int u]) ((c, int v) # pq)" "v \<noteq> u" "v < length g"
proof -
  note i = inv [unfolded dinv_def]
  show v': "v < length g" using edge_ok [OF g u(1) e] v by simp
  have w: "0 \<le> weight e" "weight e \<le> W" using edge_ok [OF g u(1) e] by auto
  obtain xs where xs: "tracked g s dist u xs (dist ! u)" using i u by blast
  note f = tracked_facts [OF g xs] and b = tracked_bound [OF g xs]
  have "v \<notin> set xs" using f c w by force
  then show "v \<noteq> u" using f by blast
  let ?dist = "dist[v := c]"
  have le: "\<forall>x<length g. ?dist ! x \<le> dist ! x"
  proof (intro allI impI)
    fix x assume "x < length g"
    then show "?dist ! x \<le> dist ! x" using c i by (cases "x = v") simp_all
  qed
  have same: "x \<noteq> v \<Longrightarrow> ?dist ! x = dist ! x" for x by simp
  have new: "?dist ! v = c" using v' i by simp
  have vs: "v \<noteq> s" using i c w b(3) by auto
  have cI: "c \<noteq> INF_DIST" using c(1) b(1) w by simp
  have "tracked g s ?dist v (xs @ [v]) (dist ! u + weight e)"
    by (rule tracked.intros(2) [OF tracked_mono [OF xs le] e v v' \<open>v \<notin> set xs\<close>]) (simp only: c(1) [symmetric] new order_refl)
  then have tr: "tracked g s ?dist v (xs @ [v]) c" by (simp only: c(1))
  show "dinv g s {u} ?dist (prev[v := int u]) ((c, int v) # pq)"
    unfolding dinv_def
  proof (intro conjI allI impI ballI)
    show "?dist ! s \<le> 0" using i vs by simp
    fix x assume x: "x < length g"
    show "?dist ! x = INF_DIST \<or> (\<exists>xs. tracked g s ?dist x xs (?dist ! x))"
    proof (cases "x = v")
      case False
      have "dist ! x = INF_DIST \<or> (\<exists>xs. tracked g s dist x xs (dist ! x))" using i x by blast
      then show ?thesis unfolding same [OF False] using tracked_mono [OF _ le] by blast
    qed (use tr new in auto)
    show "(?dist ! x, int x) \<in> set ((c, int v) # pq) \<or> x \<in> {u} \<or> relaxed g ?dist x (set (g ! x))" if "?dist ! x \<noteq> INF_DIST"
    proof (cases "x = v")
      case False
      have "relaxed g ?dist x (set (g ! x))" if r: "relaxed g dist x (set (g ! x))"
        unfolding relaxed_def
      proof
        fix e' assume e': "e' \<in> set (g ! x)"
        then have "nat (to e') < length g" using edge_ok [OF g x e'] by (simp add: nat_less_iff)
        then have "?dist ! nat (to e') \<le> dist ! nat (to e')" using le by blast
        also have "\<dots> \<le> dist ! x + weight e'" using r e' by (simp add: relaxed_def)
        finally show "?dist ! nat (to e') \<le> ?dist ! x + weight e'" using False by simp
      qed
      then show ?thesis using i x that False by auto
    qed (simp add: new)
    show "prev_ok g s ?dist (prev[v := int u]) x"
    proof (cases "x = v")
      case True
      then show ?thesis using new v' i vs cI u(1) e v c(1) \<open>v \<noteq> u\<close> by (auto simp: prev_ok_def intro!: exI [of _ u] exI [of _ e])
    next
      case False
      have p: "prev_ok g s dist prev x" using i x by blast
      show ?thesis
      proof (cases "x = s \<or> dist ! x = INF_DIST")
        case True
        then show ?thesis using p False by (simp add: prev_ok_def)
      next
        case fin: False
        then obtain w e' where w: "prev ! x = int w" "w < length g" "e' \<in> set (g ! w)" "to e' = int x" "dist ! w + weight e' \<le> dist ! x"
          using p by (auto simp: prev_ok_def)
        have "?dist ! w \<le> dist ! w" using le w(2) by blast
        then have "?dist ! w + weight e' \<le> dist ! x" using w(5) by simp
        then show ?thesis using w fin False by (auto simp: prev_ok_def)
      qed
    qed
  next
    fix y assume "y \<in> set ((c, int v) # pq)"
    then have "y = (c, int v) \<or> y \<in> set pq" by auto
    then show "case y of (d, x) \<Rightarrow> \<exists>w<length g. x = int w \<and> ?dist ! w \<le> d \<and> ?dist ! w \<noteq> INF_DIST"
    proof
      assume "y \<in> set pq"
      then have "case y of (d, x) \<Rightarrow> \<exists>w<length g. x = int w \<and> dist ! w \<le> d \<and> dist ! w \<noteq> INF_DIST" using i by blast
      then obtain w d where w: "y = (d, int w)" "w < length g" "dist ! w \<le> d" "dist ! w \<noteq> INF_DIST" by (cases y) auto
      have "?dist ! w \<le> dist ! w" using le w(2) by blast
      then have "?dist ! w \<le> d" using w(3) by simp
      moreover have "?dist ! w \<noteq> INF_DIST" using new cI w(4) by (cases "w = v") auto
      ultimately show ?thesis using w(1,2) by auto
    qed (use v' new cI in auto)
  qed (use i in auto)
qed

lemma relax_ok:
  assumes g: "graph_ok g W" and u: "u < length g"
  shows "dinv g s {u} dist prev pq \<Longrightarrow> dist ! u \<noteq> INF_DIST \<Longrightarrow> set (g ! u) = E \<union> set es \<Longrightarrow> relaxed g dist u E \<Longrightarrow>
    \<exists>dist' prev' pq'. relax es (int u) dist prev pq = Some (dist', prev', pq') \<and> dinv g s {u} dist' prev' pq' \<and>
      dist' ! u = dist ! u \<and> relaxed g dist' u (set (g ! u)) \<and> (dist' = dist \<and> pq' = pq \<or> sum_list dist' < sum_list dist)"
proof (induction es arbitrary: dist prev pq E)
  case Nil
  then show ?case by auto
next
  case (Cons e es)
  note i = Cons.prems(1) [unfolded dinv_def]
  have e: "e \<in> set (g ! u)" using Cons.prems(3) by simp
  note eo = edge_ok [OF g u e]
  obtain v where v: "to e = int v" "v < length g" using eo zero_le_imp_eq_int by (metis of_nat_less_iff)
  obtain xs where xs: "tracked g s dist u xs (dist ! u)" using i u Cons.prems(2) by blast
  define c where "c = dist ! u + weight e"
  have "chk c = Some c" using tracked_bound [OF g xs] eo by (intro chk_Some) (auto simp: c_def)
  then have r: "relax (e # es) (int u) dist prev pq =
     (if c < dist ! v then relax es (int u) (dist[v := c]) (prev[v := int u]) ((c, int v) # pq) else relax es (int u) dist prev pq)"
    using i u v by (simp add: c_def)
  show ?case
  proof (cases "c < dist ! v")
    case False
    then have "relaxed g dist u (insert e E)" using Cons.prems(4) v by (simp add: relaxed_def c_def)
    then show ?thesis using Cons.IH [OF Cons.prems(1,2), of "insert e E"] Cons.prems(3) False unfolding r by auto
  next
    case True
    let ?dist = "dist[v := c]"
    have up: "dinv g s {u} ?dist (prev[v := int u]) ((c, int v) # pq)" "v \<noteq> u"
      using dinv_update [OF g Cons.prems(1) u Cons.prems(2) e v(1) c_def True] by auto
    have same: "?dist ! u = dist ! u" using up(2) by simp
    have "relaxed g ?dist u (insert e E)"
      unfolding relaxed_def
    proof
      fix e' assume "e' \<in> insert e E"
      then show "?dist ! nat (to e') \<le> ?dist ! u + weight e'"
      proof
        assume "e' = e"
        then show ?thesis using same v i by (simp add: c_def)
      next
        assume "e' \<in> E"
        then have le: "dist ! nat (to e') \<le> dist ! u + weight e'" using Cons.prems(4) by (simp add: relaxed_def)
        then show ?thesis using True same v i by (cases "nat (to e') = v") simp_all
      qed
    qed
    then have "\<exists>dist' prev' pq'. relax es (int u) ?dist (prev[v := int u]) ((c, int v) # pq) = Some (dist', prev', pq') \<and>
      dinv g s {u} dist' prev' pq' \<and> dist' ! u = ?dist ! u \<and> relaxed g dist' u (set (g ! u)) \<and>
      (dist' = ?dist \<and> pq' = (c, int v) # pq \<or> sum_list dist' < sum_list ?dist)"
      using Cons.IH [OF up(1), of "insert e E"] Cons.prems(2,3) same by auto
    moreover have "sum_list ?dist < sum_list dist" using True v i by (simp add: sum_list_update_int)
    ultimately show ?thesis unfolding r using True same by fastforce
  qed
qed

lemma pq_top_in: "pq_top e xs \<in> set (e # xs)"
  by (induction e xs rule: pq_top.induct) auto

lemma dist_nonneg: "graph_ok g W \<Longrightarrow> dinv g s A dist prev pq \<Longrightarrow> v < length g \<Longrightarrow> 0 \<le> dist ! v"
  using tracked_bound(3) unfolding dinv_def by fastforce

text \<open>A popped entry leaves its node as the only one whose edges may not be relaxed; a stale entry leaves none.\<close>

lemma dinv_pop:
  assumes inv: "dinv g s {} dist prev pq" and y: "(d, int u) \<in> set pq"
  shows "d > dist ! u \<Longrightarrow> dinv g s {} dist prev (remove1 (d, int u) pq)" "dinv g s {u} dist prev (remove1 (d, int u) pq)"
proof -
  note i = inv [unfolded dinv_def]
  have sub: "set (remove1 (d, int u) pq) \<subseteq> set pq" by (rule set_remove1_subset)
  have keep: "(dist ! v, int v) \<in> set pq \<Longrightarrow> (dist ! v, int v) \<in> set (remove1 (d, int u) pq)" if "(dist ! v, int v) \<noteq> (d, int u)" for v
    using that by (simp add: in_set_remove1)
  show "dinv g s {} dist prev (remove1 (d, int u) pq)" if "d > dist ! u"
    unfolding dinv_def
  proof (intro conjI allI impI)
    fix v assume v: "v < length g" "dist ! v \<noteq> INF_DIST"
    then have "(dist ! v, int v) \<in> set pq \<or> relaxed g dist v (set (g ! v))" using i by auto
    then show "(dist ! v, int v) \<in> set (remove1 (d, int u) pq) \<or> v \<in> {} \<or> relaxed g dist v (set (g ! v))"
      using keep [of v] that by (cases "v = u") auto
  qed (use i sub in blast)+
  show "dinv g s {u} dist prev (remove1 (d, int u) pq)"
    unfolding dinv_def
  proof (intro conjI allI impI)
    fix v assume v: "v < length g" "dist ! v \<noteq> INF_DIST"
    then have "(dist ! v, int v) \<in> set pq \<or> relaxed g dist v (set (g ! v))" using i by auto
    then show "(dist ! v, int v) \<in> set (remove1 (d, int u) pq) \<or> v \<in> {u} \<or> relaxed g dist v (set (g ! v))"
      using keep [of v] by (cases "v = u") auto
  qed (use i sub in blast)+
qed

lemma dijkstra_loop_ok:
  assumes g: "graph_ok g W"
  shows "dinv g s {} dist prev pq \<Longrightarrow>
    \<exists>dist' prev'. dijkstra_loop g dist prev pq = Some (dist', prev') \<and> dinv g s {} dist' prev' []"
proof (induction "(dist, prev, pq)" arbitrary: dist prev pq
    rule: wf_induct_rule [OF wf_measures [of "[\<lambda>(dist, prev, pq). nat (sum_list dist), \<lambda>(dist, prev, pq). length pq]"]])
  case (1 dist prev pq)
  note i = 1(2) [unfolded dinv_def]
  show ?case
  proof (cases "pq = []")
    case True
    then show ?thesis using 1(2) by (subst dijkstra_loop.simps) simp
  next
    case False
    obtain d x where t: "pq_top (hd pq) (tl pq) = (d, x)" by fastforce
    then have "(d, x) \<in> set pq" using pq_top_in [of "hd pq" "tl pq"] False by simp
    moreover from this have "case (d, x) of (d, x) \<Rightarrow> \<exists>v<length g. x = int v \<and> dist ! v \<le> d \<and> dist ! v \<noteq> INF_DIST" using i by blast
    ultimately obtain u where u: "x = int u" "u < length g" "dist ! u \<le> d" "dist ! u \<noteq> INF_DIST" "(d, int u) \<in> set pq" by auto
    let ?pq = "remove1 (d, int u) pq"
    have len: "length ?pq < length pq" using u(5) False by (simp add: length_remove1)
    have unf: "dijkstra_loop g dist prev pq =
      (if d > dist ! u then dijkstra_loop g dist prev ?pq
       else relax (g ! u) (int u) dist prev ?pq \<bind> (\<lambda>(dist, prev, pq). dijkstra_loop g dist prev pq))"
      using False t u i by (subst dijkstra_loop.simps) simp
    show ?thesis
    proof (cases "d > dist ! u")
      case True
      show ?thesis unfolding unf using 1(1) [OF _ dinv_pop(1) [OF 1(2) u(5) True]] True len by simp
    next
      case False
      obtain dist' prev' pq' where r: "relax (g ! u) (int u) dist prev ?pq = Some (dist', prev', pq')" "dinv g s {u} dist' prev' pq'"
        "relaxed g dist' u (set (g ! u))" "dist' = dist \<and> pq' = ?pq \<or> sum_list dist' < sum_list dist"
        using relax_ok [OF g u(2) dinv_pop(2) [OF 1(2) u(5)] u(4), of "{}" "g ! u"] by (auto simp: relaxed_def)
      have inv': "dinv g s {} dist' prev' pq'" using r(2,3) unfolding dinv_def by blast
      have "0 \<le> sum_list dist'"
        using dist_nonneg [OF g inv'] inv' by (intro sum_list_nonneg) (auto simp: dinv_def in_set_conv_nth)
      then have "((dist', prev', pq'), (dist, prev, pq)) \<in> measures [\<lambda>(dist, prev, pq). nat (sum_list dist), \<lambda>(dist, prev, pq). length pq]"
        using r(4) len by auto
      then show ?thesis unfolding unf using 1(1) [OF _ inv'] r(1) False by simp
    qed
  qed
qed

lemma dijkstra_start:
  assumes "s < length g"
  shows "dinv g s {} ((replicate (length g) INF_DIST)[s := 0]) (replicate (length g) (- 1)) [(0, int s)]"
proof -
  let ?dist = "(replicate (length g) INF_DIST)[s := 0]"
  have "tracked g s ?dist s [s] 0" using assms by (intro tracked.intros(1)) simp_all
  then have "\<exists>xs. tracked g s ?dist s xs 0" by blast
  then show ?thesis using assms by (auto simp: dinv_def prev_ok_def nth_list_update)
qed

lemma dist_fits: "graph_ok g W \<Longrightarrow> dinv g s A dist prev pq \<Longrightarrow> v < length g \<Longrightarrow> dist ! v \<noteq> INF_DIST \<Longrightarrow> dist ! v + W < INF_DIST"
proof -
  assume a: "graph_ok g W" "dinv g s A dist prev pq" "v < length g" "dist ! v \<noteq> INF_DIST"
  then obtain xs where "tracked g s dist v xs (dist ! v)" by (auto simp: dinv_def)
  then show ?thesis by (rule tracked_bound(1) [OF a(1)])
qed

lemma final_le_walk:
  assumes g: "graph_ok g W" and inv: "dinv g s {} dist prev []"
  shows "walk g s v d \<Longrightarrow> v < length g \<and> dist ! v \<noteq> INF_DIST \<and> dist ! v \<le> d"
proof (induction rule: walk.induct)
  case walk_start
  then show ?case using inv by (auto simp: dinv_def)
next
  case (walk_step u d e)
  have e: "nat (to e) < length g" "weight e \<le> W"
    using edge_ok [OF g conjunct1 [OF walk_step(3)] walk_step(2)] by (auto simp: nat_less_iff)
  have "relaxed g dist u (set (g ! u))" using inv walk_step(3) by (auto simp: dinv_def)
  then have "dist ! nat (to e) \<le> dist ! u + weight e" using walk_step(2) by (simp add: relaxed_def)
  moreover have "dist ! u + W < INF_DIST" using dist_fits [OF g inv] walk_step(3) by blast
  ultimately show ?case using e walk_step(3) by auto
qed

lemma prev_final:
  assumes g: "graph_ok g W" and inv: "dinv g s {} dist prev []" and v: "v < length g" "v \<noteq> s" "dist ! v \<noteq> INF_DIST"
  shows "\<exists>u e. prev ! v = int u \<and> u < length g \<and> e \<in> set (g ! u) \<and> to e = int v \<and> dist ! v = dist ! u + weight e"
proof -
  have "prev_ok g s dist prev v" using inv v(1) by (simp add: dinv_def)
  then obtain u e where u: "prev ! v = int u" "u < length g" "e \<in> set (g ! u)" "to e = int v" "dist ! u + weight e \<le> dist ! v"
    using v by (auto simp: prev_ok_def)
  have "0 \<le> weight e" "0 \<le> W" using edge_ok [OF g u(2,3)] g by (auto simp: graph_ok_def)
  then have "dist ! u \<noteq> INF_DIST" using u(5) dist_fits [OF g inv v(1,3)] by linarith
  then have "relaxed g dist u (set (g ! u))" using inv u(2) by (auto simp: dinv_def)
  then have "dist ! v \<le> dist ! u + weight e" using u(3,4) by (auto simp: relaxed_def)
  then show ?thesis using u by force
qed

text \<open>
  C10: with nonnegative weights whose simple paths fit an int, dijkstra ends and returns for every node
  the least weight of a walk from the source, INT_MAX exactly for the nodes without one; the predecessor
  of every other reached node is joined to it by an edge on a shortest path.
\<close>
theorem dijkstra_shortest:
  assumes "graph_ok g W" "s < length g"
  shows "\<exists>dist prev. dijkstra g (int s) = Some (dist, prev) \<and> length dist = length g \<and> length prev = length g \<and>
    (\<forall>v<length g. (if dist ! v = INF_DIST then (\<nexists>d. walk g s v d) else walk g s v (dist ! v) \<and> (\<forall>d. walk g s v d \<longrightarrow> dist ! v \<le> d)) \<and>
      (if v = s \<or> dist ! v = INF_DIST then prev ! v = - 1
       else \<exists>u e. prev ! v = int u \<and> u < length g \<and> e \<in> set (g ! u) \<and> to e = int v \<and> dist ! v = dist ! u + weight e))"
proof -
  have "chk (int (length g)) = Some (int (length g))" using assms(1) by (intro chk_Some) (auto simp: graph_ok_def)
  then obtain dist prev where r: "dijkstra g (int s) = Some (dist, prev)" "dinv g s {} dist prev []"
    using dijkstra_loop_ok [OF assms(1) dijkstra_start [OF assms(2)]] assms(2) by (auto simp: dijkstra_def)
  note i = r(2) [unfolded dinv_def]
  have final: "(if dist ! v = INF_DIST then (\<nexists>d. walk g s v d) else walk g s v (dist ! v) \<and> (\<forall>d. walk g s v d \<longrightarrow> dist ! v \<le> d)) \<and>
      (if v = s \<or> dist ! v = INF_DIST then prev ! v = - 1
       else \<exists>u e. prev ! v = int u \<and> u < length g \<and> e \<in> set (g ! u) \<and> to e = int v \<and> dist ! v = dist ! u + weight e)"
    if v: "v < length g" for v
  proof -
    have "prev_ok g s dist prev v" using i v by blast
    moreover have "dist ! v \<noteq> INF_DIST \<Longrightarrow> walk g s v (dist ! v)"
      using i v tracked_bound(2) [OF assms(1)] by blast
    ultimately show ?thesis
      using final_le_walk [OF assms(1) r(2)] prev_final [OF assms(1) r(2) v] by (auto simp: prev_ok_def)
  qed
  have "length dist = length g" "length prev = length g" using i by auto
  then show ?thesis using r(1) final by blast
qed

theorem dijkstra_shortest_witness:
  "\<exists>dist prev. dijkstra [[Edge 1 4], []] (int 0) = Some (dist, prev) \<and>
    (\<forall>v<length [[Edge 1 4], []]. dist ! v \<noteq> INF_DIST \<longrightarrow> walk [[Edge 1 4], []] 0 v (dist ! v))"
proof -
  have "graph_ok [[Edge 1 4], []] 4" "0 < length [[Edge 1 4], []]" by (simp_all add: graph_ok_def Edge_def)
  from dijkstra_shortest [OF this] show ?thesis by meson
qed

end
