(* ===== verification/N_Queens.thy ===== *)
theory N_Queens
  imports Prelude "HOL-Library.Word"
begin

unbundle bit_operations_syntax

text \<open>
  src/src/dsa/backtracking_nqueens.cpp: the solver with its three 32-bit masks. Shifting by 32 or more is
  undefined, so boards of more than 16 columns have no result.
\<close>

section \<open>Definitions\<close>

record solver =
  size_n :: int
  queens :: "int list"
  solutions :: "int list list"
  count :: int
  cols :: "32 word"
  diag1 :: "32 word"
  diag2 :: "32 word"

definition NQueensSolver :: "int \<Rightarrow> solver ub" where
  "NQueensSolver n = do {
     guard (0 \<le> n);
     Some \<lparr>size_n = n, queens = replicate (nat n) 0, solutions = [], count = 0, cols = 0, diag1 = 0, diag2 = 0\<rparr> }"

definition shift1 :: "int \<Rightarrow> 32 word ub" where
  "shift1 k = (if 0 \<le> k \<and> k < 32 then Some (push_bit (nat k) 1) else None)"

definition is_safe :: "solver \<Rightarrow> int \<Rightarrow> int \<Rightarrow> bool ub" where
  "is_safe s row col = do {
     c \<leftarrow> shift1 col;
     d1 \<leftarrow> shift1 (row - col + size_n s - 1);
     d2 \<leftarrow> shift1 (row + col);
     Some (cols s AND c = 0 \<and> diag1 s AND d1 = 0 \<and> diag2 s AND d2 = 0) }"

definition place :: "solver \<Rightarrow> int \<Rightarrow> int \<Rightarrow> solver ub" where
  "place s row col = do {
     q \<leftarrow> vset (queens s) row col;
     c \<leftarrow> shift1 col;
     d1 \<leftarrow> shift1 (row - col + size_n s - 1);
     d2 \<leftarrow> shift1 (row + col);
     Some (s\<lparr>queens := q, cols := cols s OR c, diag1 := diag1 s OR d1, diag2 := diag2 s OR d2\<rparr>) }"

definition remove :: "solver \<Rightarrow> int \<Rightarrow> int \<Rightarrow> solver ub" where
  "remove s row col = do {
     c \<leftarrow> shift1 col;
     d1 \<leftarrow> shift1 (row - col + size_n s - 1);
     d2 \<leftarrow> shift1 (row + col);
     Some (s\<lparr>cols := cols s XOR c, diag1 := diag1 s XOR d1, diag2 := diag2 s XOR d2\<rparr>) }"

text \<open>A call of backtrack, or the rest of its loop over the columns.\<close>

datatype task = Row int | Col int int

partial_function (option) queens_backtrack :: "task \<Rightarrow> solver \<Rightarrow> solver option" where
  "queens_backtrack t s =
     (case t of
        Row row \<Rightarrow>
          if row = size_n s then Some (s\<lparr>solutions := solutions s @ [queens s]\<rparr>) else queens_backtrack (Col row 0) s
      | Col row col \<Rightarrow>
          if col < size_n s then do {
            safe \<leftarrow> is_safe s row col;
            s' \<leftarrow> (if safe then do { s \<leftarrow> place s row col; s \<leftarrow> queens_backtrack (Row (row + 1)) s; remove s row col } else Some s);
            queens_backtrack (Col row (col + 1)) s' }
          else Some s)"

partial_function (option) count_backtrack :: "task \<Rightarrow> solver \<Rightarrow> solver option" where
  "count_backtrack t s =
     (case t of
        Row row \<Rightarrow>
          if row = size_n s then do { c \<leftarrow> chk (count s + 1); Some (s\<lparr>count := c\<rparr>) } else count_backtrack (Col row 0) s
      | Col row col \<Rightarrow>
          if col < size_n s then do {
            safe \<leftarrow> is_safe s row col;
            s' \<leftarrow> (if safe then do { s \<leftarrow> place s row col; s \<leftarrow> count_backtrack (Row (row + 1)) s; remove s row col } else Some s);
            count_backtrack (Col row (col + 1)) s' }
          else Some s)"

declare queens_backtrack.simps [code] count_backtrack.simps [code]

definition solve_all :: "solver \<Rightarrow> (int list list \<times> solver) ub" where
  "solve_all s = do {
     s \<leftarrow> queens_backtrack (Row 0) (s\<lparr>solutions := [], cols := 0, diag1 := 0, diag2 := 0\<rparr>);
     Some (solutions s, s) }"

definition count_solutions :: "solver \<Rightarrow> (int \<times> solver) ub" where
  "count_solutions s = do {
     s \<leftarrow> count_backtrack (Row 0) (s\<lparr>count := 0, cols := 0, diag1 := 0, diag2 := 0\<rparr>);
     Some (count s, s) }"

definition board_row :: "int \<Rightarrow> int \<Rightarrow> string" where
  "board_row n q = concat (map (\<lambda>col. if q = col then '' Q'' else '' .'') [0..n - 1])"

definition print_board :: "int list \<Rightarrow> string list" where
  "print_board qs = map (board_row (int (length qs))) qs"

definition nqueens_main :: "(int \<times> int list list \<times> string list \<times> string list) ub" where
  "nqueens_main = do {
     solver8 \<leftarrow> NQueensSolver 8;
     (count8, _) \<leftarrow> count_solutions solver8;
     guard (count8 = 92);
     solver4 \<leftarrow> NQueensSolver 4;
     (solutions4, _) \<leftarrow> solve_all solver4;
     guard (length solutions4 = 2);
     b1 \<leftarrow> vget solutions4 0;
     b2 \<leftarrow> vget solutions4 1;
     solver1 \<leftarrow> NQueensSolver 1;
     (c1, _) \<leftarrow> count_solutions solver1;
     guard (c1 = 1);
     solver2 \<leftarrow> NQueensSolver 2;
     (c2, _) \<leftarrow> count_solutions solver2;
     guard (c2 = 0);
     solver3 \<leftarrow> NQueensSolver 3;
     (c3, _) \<leftarrow> count_solutions solver3;
     guard (c3 = 0);
     Some (count8, solutions4, print_board b1, print_board b2) }"

lemma four_queens: "do { s \<leftarrow> NQueensSolver 4; (sols, _) \<leftarrow> solve_all s; Some sols } = Some [[1, 3, 0, 2], [2, 0, 3, 1]]"
  by code_simp

section \<open>Placements\<close>

definition safe_after :: "int list \<Rightarrow> int \<Rightarrow> bool" where
  "safe_after qs c \<longleftrightarrow> (\<forall>i<length qs. qs ! i \<noteq> c \<and> int i - qs ! i \<noteq> int (length qs) - c \<and> int i + qs ! i \<noteq> int (length qs) + c)"

text \<open>No two queens share a column or a diagonal.\<close>

definition peaceful :: "int list \<Rightarrow> bool" where
  "peaceful qs \<longleftrightarrow> (\<forall>i j. i < j \<and> j < length qs \<longrightarrow> qs ! i \<noteq> qs ! j \<and> \<bar>qs ! i - qs ! j\<bar> \<noteq> int (j - i))"

text \<open>The placements that extend the first rows qs, in the order of the search.\<close>

function placements :: "nat \<Rightarrow> int list \<Rightarrow> int list list" where
  "placements n qs = (if n \<le> length qs then [qs]
     else concat (map (\<lambda>c. if safe_after qs c then placements n (qs @ [c]) else []) [0..int n - 1]))"
  by pat_completeness auto

termination placements
  by (relation "measure (\<lambda>(n, qs). n - length qs)") auto

declare placements.simps [simp del]

abbreviation placements_from :: "nat \<Rightarrow> int list \<Rightarrow> int \<Rightarrow> int list list" where
  "placements_from n qs col \<equiv> concat (map (\<lambda>c. if safe_after qs c then placements n (qs @ [c]) else []) [col..int n - 1])"

lemma peaceful_snoc: "peaceful (qs @ [c]) \<longleftrightarrow> peaceful qs \<and> safe_after qs c"
proof -
  have "(qs ! i \<noteq> c \<and> \<bar>qs ! i - c\<bar> \<noteq> int (length qs - i)) \<longleftrightarrow>
    (qs ! i \<noteq> c \<and> int i - qs ! i \<noteq> int (length qs) - c \<and> int i + qs ! i \<noteq> int (length qs) + c)" if "i < length qs" for i
    using that by (auto simp: of_nat_diff abs_if)
  then show ?thesis
    by (auto simp: peaceful_def safe_after_def nth_append less_Suc_eq all_conj_distrib)
qed

lemma distinct_concat_map:
  "distinct xs \<Longrightarrow> \<forall>x\<in>set xs. distinct (f x) \<Longrightarrow> \<forall>x\<in>set xs. \<forall>y\<in>set xs. x \<noteq> y \<longrightarrow> set (f x) \<inter> set (f y) = {} \<Longrightarrow>
   distinct (concat (map f xs))"
  by (induction xs) auto

lemma placements_char:
  "length qs \<le> n \<Longrightarrow> peaceful qs \<Longrightarrow> distinct (placements n qs) \<and>
   set (placements n qs) = {xs. length xs = n \<and> take (length qs) xs = qs \<and> peaceful xs \<and> (\<forall>c\<in>set (drop (length qs) xs). 0 \<le> c \<and> c < int n)}"
proof (induction n qs rule: placements.induct)
  case (1 n qs)
  show ?case
  proof (cases "n \<le> length qs")
    case True
    then show ?thesis using 1 by (subst (1 2) placements.simps) auto
  next
    case False
    let ?S = "\<lambda>qs. {xs. length xs = n \<and> take (length qs) xs = qs \<and> peaceful xs \<and> (\<forall>c\<in>set (drop (length qs) xs). 0 \<le> c \<and> c < int n)}"
    have IH: "distinct (placements n (qs @ [c])) \<and> set (placements n (qs @ [c])) = ?S (qs @ [c])"
      if "c \<in> set [0..int n - 1]" "safe_after qs c" for c
      using 1(1) [OF False that] 1(3) False that(2) by (simp add: peaceful_snoc)
    have step: "xs \<in> ?S qs \<longleftrightarrow> (\<exists>c\<in>set [0..int n - 1]. safe_after qs c \<and> xs \<in> ?S (qs @ [c]))" for xs
    proof
      assume xs: "xs \<in> ?S qs"
      then have l: "length qs < length xs" using False by auto
      have t: "take (Suc (length qs)) xs = qs @ [xs ! length qs]" using xs l by (simp add: take_Suc_conv_app_nth)
      have "peaceful (take (Suc (length qs)) xs)" using xs l by (auto simp: peaceful_def)
      then have "safe_after qs (xs ! length qs)" by (simp add: t peaceful_snoc)
      moreover have "drop (length qs) xs = xs ! length qs # drop (Suc (length qs)) xs" using l by (simp add: Cons_nth_drop_Suc)
      ultimately show "\<exists>c\<in>set [0..int n - 1]. safe_after qs c \<and> xs \<in> ?S (qs @ [c])"
        using xs t by (intro bexI [of _ "xs ! length qs"]) auto
    next
      assume "\<exists>c\<in>set [0..int n - 1]. safe_after qs c \<and> xs \<in> ?S (qs @ [c])"
      then obtain c where c: "c \<in> set [0..int n - 1]" "xs \<in> ?S (qs @ [c])" by blast
      then have t: "take (Suc (length qs)) xs = qs @ [c]" "length qs < length xs" using False by auto
      then have "take (length qs) xs = qs" "xs ! length qs = c"
        by (metis append_eq_conv_conj lessI less_imp_le_nat take_all_iff take_take min_def append_take_drop_id length_append_singleton take_Suc_conv_app_nth butlast_snoc,
            metis take_Suc_conv_app_nth last_snoc)
      moreover from this(2) have "drop (length qs) xs = c # drop (Suc (length qs)) xs" using t(2) by (metis Cons_nth_drop_Suc)
      ultimately show "xs \<in> ?S qs" using c by auto
    qed
    have eq: "placements n qs = placements_from n qs 0" using False by (subst placements.simps) simp
    have "set (placements n qs) = ?S qs"
      unfolding eq using IH step by (auto split: if_splits)
    moreover have "distinct (placements n qs)"
      unfolding eq
    proof (rule distinct_concat_map)
      show "\<forall>c\<in>set [0..int n - 1]. distinct (if safe_after qs c then placements n (qs @ [c]) else [])" using IH by simp
      show "\<forall>c\<in>set [0..int n - 1]. \<forall>d\<in>set [0..int n - 1]. c \<noteq> d \<longrightarrow>
        set (if safe_after qs c then placements n (qs @ [c]) else []) \<inter> set (if safe_after qs d then placements n (qs @ [d]) else []) = {}"
        using IH by auto
    qed simp
    ultimately show ?thesis by blast
  qed
qed

section \<open>The masks\<close>

definition masks_ok :: "nat \<Rightarrow> solver \<Rightarrow> nat \<Rightarrow> bool" where
  "masks_ok n s row \<longleftrightarrow> (\<forall>k<32. (bit (cols s) k \<longleftrightarrow> (\<exists>i<row. queens s ! i = int k)) \<and>
     (bit (diag1 s) k \<longleftrightarrow> (\<exists>i<row. int i - queens s ! i + int n - 1 = int k)) \<and>
     (bit (diag2 s) k \<longleftrightarrow> (\<exists>i<row. int i + queens s ! i = int k)))"

definition search_inv :: "nat \<Rightarrow> solver \<Rightarrow> nat \<Rightarrow> bool" where
  "search_inv n s row \<longleftrightarrow> n \<le> 16 \<and> row \<le> n \<and> size_n s = int n \<and> length (queens s) = n \<and>
     (\<forall>i<row. 0 \<le> queens s ! i \<and> queens s ! i < int n) \<and> masks_ok n s row"

text \<open>What a call leaves unchanged.\<close>

definition restored :: "nat \<Rightarrow> solver \<Rightarrow> solver \<Rightarrow> bool" where
  "restored row s s' \<longleftrightarrow> size_n s' = size_n s \<and> length (queens s') = length (queens s) \<and> take row (queens s') = take row (queens s) \<and>
     cols s' = cols s \<and> diag1 s' = diag1 s \<and> diag2 s' = diag2 s"

lemma restored_inv: "restored row s s' \<Longrightarrow> search_inv n s row \<Longrightarrow> search_inv n s' row"
proof -
  assume r: "restored row s s'" and i: "search_inv n s row"
  have "queens s' ! k = queens s ! k" if "k < row" for k
    using r that unfolding restored_def by (metis nth_take)
  then show ?thesis using r i by (auto simp: search_inv_def restored_def masks_ok_def)
qed

lemma restored_trans: "restored row s s' \<Longrightarrow> restored row s' s'' \<Longrightarrow> restored row s s''"
  by (simp add: restored_def)

definition bit_at :: "int \<Rightarrow> 32 word" where
  "bit_at k = push_bit (nat k) 1"

lemma bit_bit_at: "0 \<le> k \<Longrightarrow> k < 32 \<Longrightarrow> j < 32 \<Longrightarrow> bit (bit_at k) j \<longleftrightarrow> int j = k"
  by (auto simp: bit_at_def bit_simps)

lemma shift1_eq: "0 \<le> k \<Longrightarrow> k < 32 \<Longrightarrow> shift1 k = Some (bit_at k)"
  by (simp add: shift1_def bit_at_def)

lemma and_bit_at: "0 \<le> k \<Longrightarrow> k < 32 \<Longrightarrow> (w AND bit_at k) = 0 \<longleftrightarrow> \<not> bit w (nat k)"
proof -
  assume k: "0 \<le> k" "k < 32"
  have "(w AND bit_at k) = 0 \<longleftrightarrow> (\<forall>j<32. \<not> (bit w j \<and> bit (bit_at k) j))"
    by (simp add: bit_eq_iff bit_and_iff)
  also have "\<dots> \<longleftrightarrow> (\<forall>j<32. \<not> (bit w j \<and> int j = k))" using bit_bit_at [OF k] by auto
  also have "\<dots> \<longleftrightarrow> \<not> bit w (nat k)" using k by (auto dest: spec [of _ "nat k"])
  finally show ?thesis .
qed

lemma or_xor_bit_at: "(w AND bit_at k) = 0 \<Longrightarrow> (w OR bit_at k) XOR bit_at k = w"
  by (auto simp: bit_eq_iff bit_simps)

lemma maskD:
  assumes "masks_ok n s row" "0 \<le> k" "k < 32"
  shows "bit (cols s) (nat k) \<longleftrightarrow> (\<exists>i<row. queens s ! i = k)"
    "bit (diag1 s) (nat k) \<longleftrightarrow> (\<exists>i<row. int i - queens s ! i + int n - 1 = k)"
    "bit (diag2 s) (nat k) \<longleftrightarrow> (\<exists>i<row. int i + queens s ! i = k)"
proof -
  have k: "nat k < 32" "int (nat k) = k" using assms(2,3) by auto
  show "bit (cols s) (nat k) \<longleftrightarrow> (\<exists>i<row. queens s ! i = k)"
    "bit (diag1 s) (nat k) \<longleftrightarrow> (\<exists>i<row. int i - queens s ! i + int n - 1 = k)"
    "bit (diag2 s) (nat k) \<longleftrightarrow> (\<exists>i<row. int i + queens s ! i = k)"
    using assms(1) [unfolded masks_ok_def, rule_format, OF k(1)] unfolding k(2) by blast+
qed

lemma is_safe_eq:
  assumes "search_inv n s row" "row < n" "0 \<le> c" "c < int n"
  shows "shift1 c = Some (bit_at c)" "shift1 (int row - c + int n - 1) = Some (bit_at (int row - c + int n - 1))"
    "shift1 (int row + c) = Some (bit_at (int row + c))" "is_safe s (int row) c = Some (safe_after (take row (queens s)) c)"
proof -
  have r: "0 \<le> int row - c + int n - 1" "int row - c + int n - 1 < 32" "0 \<le> int row + c" "int row + c < 32" "c < 32"
    using assms by (auto simp: search_inv_def)
  show sh: "shift1 c = Some (bit_at c)" "shift1 (int row - c + int n - 1) = Some (bit_at (int row - c + int n - 1))"
    "shift1 (int row + c) = Some (bit_at (int row + c))" using assms(3) r by (simp_all add: shift1_eq)
  have m: "masks_ok n s row" and l: "length (queens s) = n" and z: "size_n s = int n" using assms(1) by (auto simp: search_inv_def)
  have e: "(int i - queens s ! i + int n - 1 = int row - c + int n - 1) = (int i - queens s ! i = int row - c)" for i by linarith
  note b = maskD(1) [OF m assms(3) r(5)] maskD(2) [OF m r(1,2), unfolded e] maskD(3) [OF m r(3,4)]
  show "is_safe s (int row) c = Some (safe_after (take row (queens s)) c)"
    using assms(2) l by (simp add: is_safe_def z sh and_bit_at [OF assms(3) r(5)] and_bit_at [OF r(1,2)] and_bit_at [OF r(3,4)] b
        safe_after_def) blast
qed

lemma place_ok:
  assumes inv: "search_inv n s row" and row: "row < n" and c: "0 \<le> c" "c < int n" and safe: "safe_after (take row (queens s)) c"
  shows "\<exists>s1. place s (int row) c = Some s1 \<and> search_inv n s1 (Suc row) \<and> take (Suc row) (queens s1) = take row (queens s) @ [c] \<and>
    solutions s1 = solutions s \<and> count s1 = count s \<and>
    (\<forall>s2. restored (Suc row) s1 s2 \<longrightarrow> (\<exists>s3. remove s2 (int row) c = Some s3 \<and> restored row s s3 \<and>
      solutions s3 = solutions s2 \<and> count s3 = count s2))"
proof -
  note sh = is_safe_eq [OF inv row c]
  have r: "0 \<le> int row - c + int n - 1" "int row - c + int n - 1 < 32" "0 \<le> int row + c" "int row + c < 32" "c < 32"
    using assms by (auto simp: search_inv_def)
  have l: "length (queens s) = n" "size_n s = int n" "masks_ok n s row" using inv by (auto simp: search_inv_def)
  let ?d1 = "int row - c + int n - 1" and ?d2 = "int row + c"
  let ?s1 = "s\<lparr>queens := (queens s)[row := c], cols := cols s OR bit_at c, diag1 := diag1 s OR bit_at ?d1, diag2 := diag2 s OR bit_at ?d2\<rparr>"
  have p: "place s (int row) c = Some ?s1" using row l by (simp add: place_def sh)
  have old: "(queens s)[row := c] ! i = queens s ! i" if "i < row" for i using that by simp
  have new: "(queens s)[row := c] ! row = c" using row l by simp
  have "masks_ok n ?s1 (Suc row)"
    unfolding masks_ok_def
  proof (intro allI impI)
    fix k :: nat assume k: "k < 32"
    have m: "(bit (cols s) k \<longleftrightarrow> (\<exists>i<row. queens s ! i = int k)) \<and>
     (bit (diag1 s) k \<longleftrightarrow> (\<exists>i<row. int i - queens s ! i + int n - 1 = int k)) \<and>
     (bit (diag2 s) k \<longleftrightarrow> (\<exists>i<row. int i + queens s ! i = int k))"
      using l(3) k by (simp add: masks_ok_def)
    have b: "bit (bit_at c) k \<longleftrightarrow> c = int k" "bit (bit_at ?d1) k \<longleftrightarrow> ?d1 = int k" "bit (bit_at ?d2) k \<longleftrightarrow> ?d2 = int k"
      using bit_bit_at [OF c(1) r(5) k] bit_bit_at [OF r(1,2) k] bit_bit_at [OF r(3,4) k] by auto
    have ex: "(\<exists>i<Suc row. P i ((queens s)[row := c] ! i)) \<longleftrightarrow> P row c \<or> (\<exists>i<row. P i (queens s ! i))" for P
      using old new by (metis less_Suc_eq)
    show "(bit (cols ?s1) k \<longleftrightarrow> (\<exists>i<Suc row. queens ?s1 ! i = int k)) \<and>
     (bit (diag1 ?s1) k \<longleftrightarrow> (\<exists>i<Suc row. int i - queens ?s1 ! i + int n - 1 = int k)) \<and>
     (bit (diag2 ?s1) k \<longleftrightarrow> (\<exists>i<Suc row. int i + queens ?s1 ! i = int k))"
      using m b ex [of "\<lambda>i q. q = int k"] ex [of "\<lambda>i q. int i - q + int n - 1 = int k"] ex [of "\<lambda>i q. int i + q = int k"]
      by (simp add: bit_or_iff) blast
  qed
  then have inv1: "search_inv n ?s1 (Suc row)"
    using inv row c old new by (auto simp: search_inv_def less_Suc_eq)
  have tk: "take (Suc row) (queens ?s1) = take row (queens s) @ [c]"
    using row l by (simp add: take_Suc_conv_app_nth)
  have z: "cols s AND bit_at c = 0" "diag1 s AND bit_at ?d1 = 0" "diag2 s AND bit_at ?d2 = 0"
    using sh(4) safe by (auto simp: is_safe_def l(2) sh(1-3))
  have "\<exists>s3. remove s2 (int row) c = Some s3 \<and> restored row s s3 \<and> solutions s3 = solutions s2 \<and> count s3 = count s2"
    if "restored (Suc row) ?s1 s2" for s2
  proof -
    have "take row (queens s2) = take row (queens s)"
      using that tk l row unfolding restored_def by (metis length_take min.absorb2 append_eq_conv_conj less_imp_le_nat take_take lessI min.absorb1)
    then show ?thesis using that l z by (auto simp: remove_def restored_def sh or_xor_bit_at)
  qed
  then show ?thesis using p inv1 tk by (intro exI [of _ ?s1]) auto
qed

section \<open>The search, for both kinds of result\<close>

text \<open>
  F is a search that hands every full placement to leaf; out is what it collects, emit how, and fine k says
  that k more results can be collected.
\<close>

locale queens_search =
  fixes F :: "task \<Rightarrow> solver \<Rightarrow> solver option" and leaf :: "solver \<Rightarrow> solver option"
    and out :: "solver \<Rightarrow> 'o" and emit :: "int list \<Rightarrow> 'o \<Rightarrow> 'o" and fine :: "nat \<Rightarrow> 'o \<Rightarrow> bool"
  assumes row_eq: "F (Row row) s = (if row = size_n s then leaf s else F (Col row 0) s)"
    and col_eq: "F (Col row col) s = (if col < size_n s then do {
        safe \<leftarrow> is_safe s row col;
        s' \<leftarrow> (if safe then do { s \<leftarrow> place s row col; s \<leftarrow> F (Row (row + 1)) s; remove s row col } else Some s);
        F (Col row (col + 1)) s' } else Some s)"
    and leaf_ok: "fine (Suc k) (out s) \<Longrightarrow> \<exists>s'. leaf s = Some s' \<and> out s' = emit (queens s) (out s) \<and> fine k (out s') \<and> restored r s s'"
    and out_cong: "solutions s = solutions t \<Longrightarrow> count s = count t \<Longrightarrow> out s = out t"
begin

definition collects :: "nat \<Rightarrow> task \<Rightarrow> solver \<Rightarrow> int list list \<Rightarrow> bool" where
  "collects row t s qss \<longleftrightarrow> (\<forall>k. fine (length qss + k) (out s) \<longrightarrow>
     (\<exists>s'. F t s = Some s' \<and> restored row s s' \<and> out s' = fold emit qss (out s) \<and> fine k (out s')))"

lemma branch_ok:
  assumes inv: "search_inv n s row" and row: "row < n" and col: "0 \<le> col" "col < int n"
    and IH: "\<And>s. search_inv n s (Suc row) \<Longrightarrow> collects (Suc row) (Row (int (Suc row))) s (placements n (take (Suc row) (queens s)))"
    and fine: "fine (length (if safe_after (take row (queens s)) col then placements n (take row (queens s) @ [col]) else []) + k) (out s)"
  shows "\<exists>s'. (if safe_after (take row (queens s)) col
      then do { s \<leftarrow> place s (int row) col; s \<leftarrow> F (Row (int row + 1)) s; remove s (int row) col } else Some s) = Some s' \<and>
    restored row s s' \<and> fine k (out s') \<and>
    out s' = fold emit (if safe_after (take row (queens s)) col then placements n (take row (queens s) @ [col]) else []) (out s)"
proof (cases "safe_after (take row (queens s)) col")
  case True
  obtain s1 where s1: "place s (int row) col = Some s1" "search_inv n s1 (Suc row)" "take (Suc row) (queens s1) = take row (queens s) @ [col]"
    "solutions s1 = solutions s" "count s1 = count s"
    and rm: "\<forall>s2. restored (Suc row) s1 s2 \<longrightarrow> (\<exists>s3. remove s2 (int row) col = Some s3 \<and> restored row s s3 \<and>
      solutions s3 = solutions s2 \<and> count s3 = count s2)"
    using place_ok [OF inv row col True] by blast
  have o: "out s1 = out s" by (rule out_cong [OF s1(4,5)])
  obtain s2 where s2: "F (Row (int (Suc row))) s1 = Some s2" "restored (Suc row) s1 s2"
    "out s2 = fold emit (placements n (take row (queens s) @ [col])) (out s)" "fine k (out s2)"
    using IH [OF s1(2)] fine True unfolding collects_def s1(3) o by auto
  obtain s3 where s3: "remove s2 (int row) col = Some s3" "restored row s s3" "solutions s3 = solutions s2" "count s3 = count s2"
    using rm s2(2) by blast
  have "out s3 = out s2" by (rule out_cong [OF s3(3,4)])
  then show ?thesis using True s1(1) s2 s3(1,2) by (simp add: add.commute)
next
  case False
  then show ?thesis using fine by (simp add: restored_def)
qed

lemma columns_ok:
  assumes row: "row < n"
    and IH: "\<And>s. search_inv n s (Suc row) \<Longrightarrow> collects (Suc row) (Row (int (Suc row))) s (placements n (take (Suc row) (queens s)))"
  shows "search_inv n s row \<Longrightarrow> 0 \<le> col \<Longrightarrow> collects row (Col (int row) col) s (placements_from n (take row (queens s)) col)"
proof (induction "nat (int n - col)" arbitrary: col s)
  case 0
  then show ?case by (auto simp: col_eq collects_def search_inv_def restored_def)
next
  case (Suc m)
  then have col: "col < int n" by simp
  have z: "size_n s = int n" using Suc.prems(1) by (simp add: search_inv_def)
  let ?qs = "take row (queens s)"
  let ?here = "if safe_after ?qs col then placements n (?qs @ [col]) else []"
  have split: "placements_from n ?qs col = ?here @ placements_from n ?qs (col + 1)" using col by (simp add: upto.simps [of col])
  show ?case
    unfolding collects_def
  proof (intro allI impI)
    fix k assume f: "fine (length (placements_from n ?qs col) + k) (out s)"
    then have "fine (length ?here + (length (placements_from n ?qs (col + 1)) + k)) (out s)" unfolding split by (simp add: add.assoc)
    then obtain s' where s': "(if safe_after ?qs col then do { s \<leftarrow> place s (int row) col; s \<leftarrow> F (Row (int row + 1)) s; remove s (int row) col }
        else Some s) = Some s'" "restored row s s'" "fine (length (placements_from n ?qs (col + 1)) + k) (out s')" "out s' = fold emit ?here (out s)"
      using branch_ok [OF Suc.prems(1) row Suc.prems(2) col IH] by blast
    have tk: "take row (queens s') = ?qs" using s'(2) by (simp add: restored_def)
    have "collects row (Col (int row) (col + 1)) s' (placements_from n ?qs (col + 1))"
      using Suc.hyps(1) [of "col + 1" s'] Suc.hyps(2) restored_inv [OF s'(2) Suc.prems(1)] Suc.prems(2) unfolding tk by simp
    then obtain s'' where s'': "F (Col (int row) (col + 1)) s' = Some s''" "restored row s' s''" "fine k (out s'')"
      "out s'' = fold emit (placements_from n ?qs (col + 1)) (out s')" using s'(3) unfolding collects_def by blast
    have "F (Col (int row) col) s = Some s''"
      unfolding col_eq [of "int row" col] using col z s'(1) s''(1) is_safe_eq(4) [OF Suc.prems(1) row Suc.prems(2) col] by simp
    moreover have "out s'' = fold emit (placements_from n ?qs col) (out s)" unfolding split s''(4) s'(4) by simp
    ultimately show "\<exists>s'. F (Col (int row) col) s = Some s' \<and> restored row s s' \<and>
        out s' = fold emit (placements_from n ?qs col) (out s) \<and> fine k (out s')"
      using restored_trans [OF s'(2) s''(2)] s''(3) by blast
  qed
qed

lemma rows_ok: "search_inv n s row \<Longrightarrow> collects row (Row (int row)) s (placements n (take row (queens s)))"
proof (induction "n - row" arbitrary: row s)
  case 0
  then have "row = n" "size_n s = int n" "length (queens s) = n" by (auto simp: search_inv_def)
  moreover from this have "placements n (queens s) = [queens s]" by (simp add: placements.simps)
  ultimately show ?case using leaf_ok [of _ s] unfolding collects_def by (simp add: row_eq) blast
next
  case (Suc m)
  then have row: "row < n" and z: "size_n s = int n" "length (queens s) = n" by (auto simp: search_inv_def)
  have "collects row (Col (int row) 0) s (placements_from n (take row (queens s)) 0)"
  proof (rule columns_ok [OF row _ Suc.prems order_refl])
    fix t assume "search_inv n t (Suc row)"
    moreover have "m = n - Suc row" using Suc.hyps(2) by simp
    ultimately show "collects (Suc row) (Row (int (Suc row))) t (placements n (take (Suc row) (queens t)))" using Suc.hyps(1) by blast
  qed
  moreover have "placements n (take row (queens s)) = placements_from n (take row (queens s)) 0"
    using row z by (subst placements.simps) simp
  ultimately show ?case using row z by (simp add: collects_def row_eq)
qed

end

interpretation all_queens: queens_search queens_backtrack "\<lambda>s. Some (s\<lparr>solutions := solutions s @ [queens s]\<rparr>)" solutions "\<lambda>q qs. qs @ [q]" "\<lambda>k qs. True"
proof
  show "queens_backtrack (Row row) s = (if row = size_n s then Some (s\<lparr>solutions := solutions s @ [queens s]\<rparr>) else queens_backtrack (Col row 0) s)"
    for row s by (simp add: queens_backtrack.simps [of "Row row"])
  show "queens_backtrack (Col row col) s = (if col < size_n s then do {
        safe \<leftarrow> is_safe s row col;
        s' \<leftarrow> (if safe then do { s \<leftarrow> place s row col; s \<leftarrow> queens_backtrack (Row (row + 1)) s; remove s row col } else Some s);
        queens_backtrack (Col row (col + 1)) s' } else Some s)" for row col s by (simp add: queens_backtrack.simps [of "Col row col"])
qed (auto simp: restored_def)

interpretation counted_queens: queens_search count_backtrack "\<lambda>s. do { c \<leftarrow> chk (count s + 1); Some (s\<lparr>count := c\<rparr>) }" count
    "\<lambda>q c. c + 1" "\<lambda>k c. 0 \<le> c \<and> c + int k \<le> INT_MAX"
proof
  show "count_backtrack (Row row) s = (if row = size_n s then do { c \<leftarrow> chk (count s + 1); Some (s\<lparr>count := c\<rparr>) }
      else count_backtrack (Col row 0) s)" for row s by (simp add: count_backtrack.simps [of "Row row"])
  show "count_backtrack (Col row col) s = (if col < size_n s then do {
        safe \<leftarrow> is_safe s row col;
        s' \<leftarrow> (if safe then do { s \<leftarrow> place s row col; s \<leftarrow> count_backtrack (Row (row + 1)) s; remove s row col } else Some s);
        count_backtrack (Col row (col + 1)) s' } else Some s)" for row col s by (simp add: count_backtrack.simps [of "Col row col"])
  show "\<exists>s'. chk (count s + 1) \<bind> (\<lambda>c. Some (s\<lparr>count := c\<rparr>)) = Some s' \<and> count s' = count s + 1 \<and>
      (0 \<le> count s' \<and> count s' + int k \<le> INT_MAX) \<and> restored r s s'"
    if "0 \<le> count s \<and> count s + int (Suc k) \<le> INT_MAX" for k s r
  proof -
    have "chk (count s + 1) = Some (count s + 1)" using that by (intro chk_Some) auto
    then show ?thesis using that by (simp add: restored_def)
  qed
qed auto

lemma solver_start:
  assumes "n \<le> 16" "NQueensSolver (int n) = Some s"
  shows "search_inv n (s\<lparr>solutions := [], cols := 0, diag1 := 0, diag2 := 0\<rparr>) 0" "search_inv n (s\<lparr>count := 0, cols := 0, diag1 := 0, diag2 := 0\<rparr>) 0"
  using assms by (auto simp: NQueensSolver_def search_inv_def masks_ok_def)

lemma fold_snoc: "fold (\<lambda>q qs. qs @ [q]) xs ys = ys @ xs"
  by (induction xs arbitrary: ys) auto

lemma fold_count: "fold (\<lambda>q c. c + 1) xs (a :: int) = a + int (length xs)"
  by (induction xs arbitrary: a) auto

text \<open>
  C20: on boards of up to 16 columns solve_all ends with every placement of n queens of which no two
  attack each other, each once; every shift stays within 32 bits. When their number fits an int,
  count_solutions returns it.
\<close>
theorem nqueens_complete:
  assumes "n \<le> 16"
  shows "\<exists>s sols s'. NQueensSolver (int n) = Some s \<and> solve_all s = Some (sols, s') \<and> distinct sols \<and>
    set sols = {qs. length qs = n \<and> peaceful qs \<and> (\<forall>c\<in>set qs. 0 \<le> c \<and> c < int n)} \<and>
    (int (length sols) \<le> INT_MAX \<longrightarrow> (\<exists>s''. count_solutions s = Some (int (length sols), s'')))"
proof -
  define s where "s = \<lparr>size_n = int n, queens = replicate n 0, solutions = [], count = 0, cols = 0, diag1 = 0, diag2 = 0\<rparr>"
  have s: "NQueensSolver (int n) = Some s" by (simp add: NQueensSolver_def s_def)
  note inv = solver_start [OF assms s]
  let ?sols = "placements n []"
  obtain s' where "solve_all s = Some (?sols, s')"
    using all_queens.rows_ok [OF inv(1)] by (auto simp: all_queens.collects_def solve_all_def fold_snoc)
  moreover have "\<exists>s''. count_solutions s = Some (int (length ?sols), s'')" if "int (length ?sols) \<le> INT_MAX"
    using counted_queens.rows_ok [OF inv(2)] that
    by (auto simp: counted_queens.collects_def count_solutions_def fold_count dest!: spec [of _ 0])
  moreover have "distinct ?sols \<and> set ?sols = {qs. length qs = n \<and> peaceful qs \<and> (\<forall>c\<in>set qs. 0 \<le> c \<and> c < int n)}"
    using placements_char [of "[]" n] by (simp add: peaceful_def)
  ultimately show ?thesis using s by blast
qed

theorem nqueens_complete_witness:
  "\<exists>s sols s'. NQueensSolver (int 4) = Some s \<and> solve_all s = Some (sols, s') \<and> distinct sols"
  using nqueens_complete [of 4] by auto

end
