(* ===== verification/Bit_Manipulation.thy ===== *)
theory Bit_Manipulation
  imports Prelude "HOL-Library.Word"
begin

unbundle bit_operations_syntax

text \<open>
  src/src/dsa/bit_manipulation.cpp. An int is an integer in range; on those the bit operations of the
  integers are those of the 32-bit two's complement, and only the arithmetic is checked.
\<close>

section \<open>Definitions\<close>

definition isPowerOfTwo :: "int \<Rightarrow> bool ub" where
  "isPowerOfTwo n = (if n > 0 then do { m \<leftarrow> chk (n - 1); Some (n AND m = 0) } else Some False)"

partial_function (option) count_loop :: "int \<Rightarrow> int \<Rightarrow> int option" where
  "count_loop n cnt =
     (if n \<noteq> 0 then do { m \<leftarrow> chk (n - 1); c \<leftarrow> chk (cnt + 1); count_loop (n AND m) c } else Some cnt)"

declare count_loop.simps [code]

definition countSetBits :: "int \<Rightarrow> int ub" where
  "countSetBits n = count_loop n 0"

fun singleNumber_loop :: "int list \<Rightarrow> int \<Rightarrow> int" where
  "singleNumber_loop [] result = result"
| "singleNumber_loop (num # nums) result = singleNumber_loop nums (result XOR num)"

definition singleNumber :: "int list \<Rightarrow> int" where
  "singleNumber nums = singleNumber_loop nums 0"

text \<open>1 << pos on int: the value modulo 2 to the 32.\<close>

definition shl1 :: "int \<Rightarrow> int ub" where
  "shl1 pos = (if 0 \<le> pos \<and> pos < 31 then Some (push_bit (nat pos) 1) else if pos = 31 then Some INT_MIN else None)"

definition getBit :: "int \<Rightarrow> int \<Rightarrow> bool ub" where
  "getBit n pos = (if 0 \<le> pos \<and> pos < 32 then Some (drop_bit (nat pos) n AND 1 \<noteq> 0) else None)"

definition setBit :: "int \<Rightarrow> int \<Rightarrow> int ub" where
  "setBit n pos = do { b \<leftarrow> shl1 pos; Some (n OR b) }"

definition clearBit :: "int \<Rightarrow> int \<Rightarrow> int ub" where
  "clearBit n pos = do { b \<leftarrow> shl1 pos; Some (n AND (NOT b)) }"

definition toggleBit :: "int \<Rightarrow> int \<Rightarrow> int ub" where
  "toggleBit n pos = do { b \<leftarrow> shl1 pos; Some (n XOR b) }"

text \<open>The two references are positions in a store, so they may be the same.\<close>

definition xorSwap :: "int list \<Rightarrow> int \<Rightarrow> int \<Rightarrow> int list ub" where
  "xorSwap m a b =
     (if a = b then Some m
      else do {
        x \<leftarrow> vget m a;
        y \<leftarrow> vget m b;
        m \<leftarrow> vset m a (x XOR y);
        x \<leftarrow> vget m a;
        y \<leftarrow> vget m b;
        m \<leftarrow> vset m b (y XOR x);
        x \<leftarrow> vget m a;
        y \<leftarrow> vget m b;
        vset m a (x XOR y) })"

fun partition_xor :: "int list \<Rightarrow> int \<Rightarrow> int \<Rightarrow> int \<Rightarrow> int \<times> int" where
  "partition_xor [] diff_bit a b = (a, b)"
| "partition_xor (n # nums) diff_bit a b =
     (if n AND diff_bit \<noteq> 0 then partition_xor nums diff_bit (a XOR n) b else partition_xor nums diff_bit a (b XOR n))"

definition findTwoSingles :: "int list \<Rightarrow> (int \<times> int) ub" where
  "findTwoSingles nums = do {
     let xor_all = fold (\<lambda>n x. x XOR n) nums 0;
     m \<leftarrow> chk (- xor_all);
     Some (partition_xor nums (xor_all AND m) 0 0) }"

definition map_ub :: "('a \<Rightarrow> 'b ub) \<Rightarrow> 'a list \<Rightarrow> 'b list ub" where
  "map_ub f xs = fold (\<lambda>x acc. do { ys \<leftarrow> acc; y \<leftarrow> f x; Some (ys @ [y]) }) xs (Some [])"

definition bit_manipulation_main :: "(bool list \<times> int list \<times> int \<times> (bool \<times> int \<times> int \<times> int) \<times> int list \<times> int \<times> int) ub" where
  "bit_manipulation_main = do {
     powers \<leftarrow> map_ub isPowerOfTwo [1, 2, 3, 4, 16, 18, 64];
     counts \<leftarrow> map_ub countSetBits [0, 1, 7, 15, 255];
     let single = singleNumber [4, 1, 2, 1, 2];
     let v = 10;
     g \<leftarrow> getBit v 1;
     s \<leftarrow> setBit v 2;
     c \<leftarrow> clearBit v 3;
     t \<leftarrow> toggleBit v 0;
     swapped \<leftarrow> xorSwap [42, 99] 0 1;
     (x, y) \<leftarrow> findTwoSingles [1, 2, 3, 1, 2, 5];
     Some (powers, counts, single, (g, s, c, t), swapped, x, y) }"

lemma bit_manipulation_main_output: "bit_manipulation_main =
   Some ([True, True, False, True, True, False, True], [0, 1, 3, 4, 8], 4, (True, 14, 2, 11), [99, 42], 3, 5)"
  by code_simp

section \<open>Clearing and isolating the lowest set bit\<close>

lemma clear_even: "(2 * k :: int) AND (2 * k - 1) = 2 * (k AND (k - 1))"
proof -
  have "(2 * k - 1) div 2 = k - 1" "odd (2 * k - 1)" by simp_all
  then show ?thesis by (subst and_rec) simp
qed

lemma clear_odd: "(2 * k + 1 :: int) AND (2 * k) = 2 * k"
  by (subst and_rec) simp

lemma isolate_even: "(2 * k :: int) AND (- (2 * k)) = 2 * (k AND - k)"
proof -
  have "(- (2 * k)) div 2 = - k" by simp
  then show ?thesis by (subst and_rec) simp
qed

lemma isolate_odd: "(2 * k + 1 :: int) AND (- (2 * k + 1)) = 1"
proof -
  have "(- (2 * k + 1)) div 2 = NOT k" "odd (- (2 * k + 1))" by (simp_all add: not_int_def)
  then show ?thesis by (subst and_rec) simp
qed

lemma bits_double: "{k. bit (2 * n :: int) k} = Suc ` {k. bit n k}"
proof (rule set_eqI)
  fix k show "k \<in> {k. bit (2 * n) k} \<longleftrightarrow> k \<in> Suc ` {k. bit n k}" by (cases k) (auto simp: bit_0 bit_Suc)
qed

lemma bits_odd: "{k. bit (2 * n + 1 :: int) k} = insert 0 (Suc ` {k. bit n k})"
proof (rule set_eqI)
  fix k show "k \<in> {k. bit (2 * n + 1) k} \<longleftrightarrow> k \<in> insert 0 (Suc ` {k. bit n k})" by (cases k) (auto simp: bit_0 bit_Suc)
qed

lemma even_odd_int: obtains k where "n = 2 * k" | k where "n = 2 * k + (1 :: int)"
  by (metis oddE evenE)

text \<open>Clearing keeps the number in range and removes one bit.\<close>

lemma clear_bits:
  "0 < (n :: int) \<Longrightarrow> 0 \<le> n AND (n - 1) \<and> n AND (n - 1) < n \<and> finite {k. bit n k} \<and>
     card {k. bit n k} = Suc (card {k. bit (n AND (n - 1)) k})"
proof (induction "nat n" arbitrary: n rule: less_induct)
  case less
  show ?case
  proof (cases n rule: even_odd_int)
    case (1 k)
    then have "0 < k" "nat k < nat n" using less.prems by auto
    then have IH: "0 \<le> k AND (k - 1)" "k AND (k - 1) < k" "finite {j. bit k j}" "card {j. bit k j} = Suc (card {j. bit (k AND (k - 1)) j})"
      using less.hyps [of k] by auto
    then show ?thesis using 1 by (simp add: clear_even bits_double card_image)
  next
    case (2 k)
    then have k: "0 \<le> k" using less.prems by simp
    have fin: "finite {j. bit k j}"
    proof (cases "k = 0")
      case False
      then show ?thesis using less.hyps [of k] k 2 by simp
    qed simp
    then show ?thesis using 2 k clear_odd [of k] by (simp add: bits_odd bits_double card_image)
  qed
qed

lemma count_loop_ok:
  "0 \<le> n \<Longrightarrow> n \<le> INT_MAX \<Longrightarrow> 0 \<le> c \<Longrightarrow> c + int (card {k. bit n k}) \<le> INT_MAX \<Longrightarrow>
   count_loop n c = Some (c + int (card {k. bit n k}))"
proof (induction "nat n" arbitrary: n c rule: less_induct)
  case less
  show ?case
  proof (cases "n = 0")
    case True
    then show ?thesis by (subst count_loop.simps) (simp add: bot_fun_def)
  next
    case False
    then have n: "0 < n" using less.prems by simp
    note cb = clear_bits [OF n]
    have "chk (n - 1) = Some (n - 1)" "chk (c + 1) = Some (c + 1)" using less.prems n cb by (auto intro!: chk_Some)
    then have "count_loop n c = count_loop (n AND (n - 1)) (c + 1)" using False by (subst count_loop.simps) simp
    also have "\<dots> = Some (c + 1 + int (card {k. bit (n AND (n - 1)) k}))"
      using less.hyps [of "n AND (n - 1)" "c + 1"] less.prems cb by auto
    finally show ?thesis using cb by simp
  qed
qed

lemma clear_negative: "(n :: int) < 0 \<Longrightarrow> n AND (n - 1) < n"
  using and_less_eq [of n "n - 1"] by (simp add: and.commute)

lemma count_loop_negative: "n < 0 \<Longrightarrow> count_loop n c = None"
proof (induction "nat (n - INT_MIN)" arbitrary: n c rule: less_induct)
  case less
  show ?case
  proof (cases "n \<le> INT_MIN")
    case True
    then have "chk (n - 1) = None" by (simp add: chk_def in_int_def)
    then show ?thesis using less.prems by (subst count_loop.simps) simp
  next
    case False
    have lt: "n AND (n - 1) < n" by (rule clear_negative [OF less.prems])
    then have "count_loop (n AND (n - 1)) (c + 1) = None" using less False by auto
    then show ?thesis using less.prems by (subst count_loop.simps) (auto simp: bind_eq_None_conv chk_def)
  qed
qed

text \<open>
  Claim: countSetBits returns the number of set bits of every nonnegative int; on every negative int it
  overflows, since the lowest bits are cleared down to INT_MIN.
\<close>
theorem countSetBits_correct:
  assumes "in_int n"
  shows "countSetBits n = (if 0 \<le> n then Some (int (card {k. bit n k})) else None)"
proof (cases "0 \<le> n")
  case True
  have "{k. bit n k} \<subseteq> {..<31}"
  proof
    fix k assume "k \<in> {k. bit n k}"
    moreover have "n < 2 ^ 31" using assms by (simp add: in_int_def)
    then have "n = take_bit 31 n" using True by (simp add: take_bit_int_eq_self)
    ultimately show "k \<in> {..<31}" by (metis bit_take_bit_iff lessThan_iff mem_Collect_eq)
  qed
  then have "card {k. bit n k} \<le> 31" using card_mono [of "{..<31}" "{k. bit n k}"] by simp
  then show ?thesis using count_loop_ok [of n 0] assms True by (simp add: countSetBits_def in_int_def)
next
  case False
  then show ?thesis using count_loop_negative [of n 0] by (simp add: countSetBits_def)
qed

theorem countSetBits_correct_witness: "countSetBits 7 = Some (int (card {k. bit (7 :: int) k})) \<and> countSetBits (- 1) = None"
  using countSetBits_correct [of 7] countSetBits_correct [of "- 1"] by (simp add: in_int_def)

section \<open>Pairs cancel\<close>

definition xor_all :: "int list \<Rightarrow> int \<Rightarrow> int" where
  "xor_all xs z = fold (\<lambda>n x. x XOR n) xs z"

lemma xor_all_simps [simp]: "xor_all [] z = z" "xor_all (x # xs) z = xor_all xs (z XOR x)" "xor_all (xs @ ys) z = xor_all ys (xor_all xs z)"
  by (simp_all add: xor_all_def)

lemma xor_all_acc: "xor_all xs z = z XOR xor_all xs 0"
proof (induction xs arbitrary: z)
  case (Cons x xs)
  show ?case using Cons [of "z XOR x"] Cons [of x] by (simp add: xor.assoc)
qed simp

lemma xor_all_pairs: "xor_all ps (xor_all ps z) = z"
  by (subst (1 2) xor_all_acc) (simp add: xor.assoc)

lemma xor_all_mset: "mset xs = mset ys \<Longrightarrow> xor_all xs z = xor_all ys z"
  unfolding xor_all_def by (rule fun_cong [OF fold_multiset_equiv]) (auto simp: fun_eq_iff xor.assoc xor.commute xor.left_commute)

lemma singleNumber_loop_xor: "singleNumber_loop nums z = xor_all nums z"
  by (induction nums arbitrary: z) auto

lemma partition_xor_filter:
  "partition_xor nums d a b = (xor_all (filter (\<lambda>n. n AND d \<noteq> 0) nums) a, xor_all (filter (\<lambda>n. n AND d = 0) nums) b)"
  by (induction nums arbitrary: a b) auto

lemma isolate_bit: "(x :: int) \<noteq> 0 \<Longrightarrow> \<exists>m. x AND - x = 2 ^ m \<and> bit x m"
proof (induction "nat \<bar>x\<bar>" arbitrary: x rule: less_induct)
  case less
  show ?case
  proof (cases x rule: even_odd_int)
    case (1 k)
    then have "k \<noteq> 0" "nat \<bar>k\<bar> < nat \<bar>x\<bar>" using less.prems by auto
    then obtain m where "k AND - k = 2 ^ m" "bit k m" using less.hyps by blast
    then show ?thesis using 1 isolate_even [of k] by (intro exI [of _ "Suc m"]) (simp add: bit_Suc)
  next
    case (2 k)
    then show ?thesis using isolate_odd [of k] by (intro exI [of _ 0]) (simp add: bit_0)
  qed
qed

lemma and_power: "(n AND 2 ^ m = (0 :: int)) \<longleftrightarrow> \<not> bit n m"
proof -
  have "bit (n AND 2 ^ m) j \<longleftrightarrow> bit n m \<and> j = m" for j by (auto simp: bit_and_iff bit_exp_iff)
  then show ?thesis by (auto simp: bit_eq_iff)
qed

lemma singleNumber_found: "mset nums = mset (c # ps @ ps) \<Longrightarrow> singleNumber nums = c"
  using xor_all_mset [of nums "c # ps @ ps" 0] xor_all_pairs [of ps c]
  by (simp add: singleNumber_def singleNumber_loop_xor)

text \<open>
  Claim: when all but two distinct numbers occur in pairs, findTwoSingles returns those two, whatever the
  order of the vector.
\<close>
theorem findTwoSingles_found:
  assumes m: "mset nums = mset ([a, b] @ ps @ ps)" and ne: "a \<noteq> b" and fits: "in_int (- (a XOR b))"
  shows "findTwoSingles nums \<in> {Some (a, b), Some (b, a)}"
proof -
  have all: "fold (\<lambda>n x. x XOR n) nums 0 = a XOR b"
    using xor_all_mset [OF m, of 0] xor_all_pairs [of ps "a XOR b"] by (simp add: xor_all_def)
  have "a XOR b \<noteq> 0" using ne by (metis xor.assoc xor.right_neutral xor_self_eq)
  then obtain k where k: "(a XOR b) AND - (a XOR b) = 2 ^ k" "bit (a XOR b) k" using isolate_bit by blast
  have part: "xor_all (filter P nums) 0 = xor_all (filter P [a, b]) 0" for P
  proof -
    have "mset (filter P nums) = mset (filter P [a, b] @ filter P ps @ filter P ps)" using m by simp
    from xor_all_mset [OF this, of 0] show ?thesis using xor_all_pairs by simp
  qed
  have "bit a k \<longleftrightarrow> \<not> bit b k" using k(2) by (auto simp: bit_xor_iff)
  then show ?thesis
    using fits by (auto simp: findTwoSingles_def all chk_def k(1) partition_xor_filter part and_power)
qed

theorem findTwoSingles_found_witness: "findTwoSingles [1, 2, 3, 1, 2, 5] \<in> {Some (3, 5), Some (5, 3)}"
  by (rule findTwoSingles_found [of _ 3 5 "[1, 2]"]) (simp_all add: in_int_def)

end
