(* ===== verification/SPSC_Queue.thy ===== *)
theory SPSC_Queue
  imports Prelude "HOL-Library.Word" "HOL-Library.Sublist"
begin

text \<open>
  src/src/concurrency/lock_free_queue.cpp: the single-producer single-consumer ring buffer. Every
  atomic access and every access of the buffer is a step of its own, and the two threads of main
  interleave freely. An atomic variable is the list of the values stored in it, oldest first: a
  thread reads its own variable up to date, and a load of the other thread's variable may return
  any value not older than the one it has seen (coherence, each variable having one writer). A slot
  of the buffer that was never written holds None, whose reading is undefined behaviour.
\<close>

unbundle bit_operations_syntax

section \<open>Definitions\<close>

type_synonym size_t = "64 word"

datatype producer_pc =
    Load_Tail
  | Load_Head size_t size_t
  | Write_Slot size_t size_t
  | Store_Tail size_t

datatype 'a consumer_pc =
    Load_Own_Head
  | Load_Other_Tail size_t
  | Read_Slot size_t
  | Store_Head size_t 'a

record 'a spsc =
  head_hist :: "size_t list"
  tail_hist :: "size_t list"
  buffer :: "'a option list"
  to_push :: "'a list"
  producer_pc :: "producer_pc"
  seen_head :: nat
  received :: "'a list"
  consumer_pc :: "'a consumer_pc"
  seen_tail :: nat

definition MASK :: "size_t \<Rightarrow> size_t" where
  "MASK capacity = capacity - 1"

definition SPSCQueue :: "size_t \<Rightarrow> 'a list \<Rightarrow> 'a spsc" where
  "SPSCQueue capacity messages =
     \<lparr>head_hist = [0], tail_hist = [0], buffer = replicate (unat capacity) None, to_push = messages,
      producer_pc = Load_Tail, seen_head = 0, received = [], consumer_pc = Load_Own_Head, seen_tail = 0\<rparr>"

text \<open>
  One step of push. The argument j selects the value that the load of the other thread's variable
  returns. A push that finds the queue full returns false and main's loop calls it again.
\<close>

definition push_step :: "size_t \<Rightarrow> nat \<Rightarrow> 'a spsc \<Rightarrow> 'a spsc ub" where
  "push_step capacity j s = (case producer_pc s of
     Load_Tail \<Rightarrow> (let tail = last (tail_hist s); next_tail = (tail + 1) AND MASK capacity
       in Some (s\<lparr>producer_pc := Load_Head tail next_tail\<rparr>))
   | Load_Head tail next_tail \<Rightarrow>
       if next_tail = head_hist s ! j then Some (s\<lparr>producer_pc := Load_Tail, seen_head := j\<rparr>)
       else Some (s\<lparr>producer_pc := Write_Slot tail next_tail, seen_head := j\<rparr>)
   | Write_Slot tail next_tail \<Rightarrow> do {
       b \<leftarrow> vset (buffer s) (uint tail) (Some (hd (to_push s)));
       Some (s\<lparr>buffer := b, producer_pc := Store_Tail next_tail\<rparr>) }
   | Store_Tail next_tail \<Rightarrow>
       Some (s\<lparr>tail_hist := tail_hist s @ [next_tail], to_push := tl (to_push s), producer_pc := Load_Tail\<rparr>))"

definition pop_step :: "size_t \<Rightarrow> nat \<Rightarrow> 'a spsc \<Rightarrow> 'a spsc ub" where
  "pop_step capacity j s = (case consumer_pc s of
     Load_Own_Head \<Rightarrow> Some (s\<lparr>consumer_pc := Load_Other_Tail (last (head_hist s))\<rparr>)
   | Load_Other_Tail head \<Rightarrow>
       if head = tail_hist s ! j then Some (s\<lparr>consumer_pc := Load_Own_Head, seen_tail := j\<rparr>)
       else Some (s\<lparr>consumer_pc := Read_Slot head, seen_tail := j\<rparr>)
   | Read_Slot head \<Rightarrow> do {
       slot \<leftarrow> vget (buffer s) (uint head);
       item \<leftarrow> slot;
       Some (s\<lparr>consumer_pc := Store_Head head item\<rparr>) }
   | Store_Head head item \<Rightarrow>
       Some (s\<lparr>head_hist := head_hist s @ [(head + 1) AND MASK capacity], received := received s @ [item],
              consumer_pc := Load_Own_Head\<rparr>))"

definition size_of_loads :: "size_t \<Rightarrow> size_t \<Rightarrow> size_t \<Rightarrow> size_t" where
  "size_of_loads capacity tail head = (tail - head) AND MASK capacity"

definition empty_of_loads :: "size_t \<Rightarrow> size_t \<Rightarrow> size_t \<Rightarrow> bool" where
  "empty_of_loads capacity tail head \<longleftrightarrow> size_of_loads capacity tail head = 0"

text \<open>
  A step of main: the producer works while it has messages, the consumer while it has not received
  their number n. Undefined behaviour ends in None.
\<close>

inductive spsc_step :: "size_t \<Rightarrow> nat \<Rightarrow> 'a spsc \<Rightarrow> 'a spsc ub \<Rightarrow> bool" for capacity n where
  producer: "to_push s \<noteq> [] \<Longrightarrow> seen_head s \<le> j \<Longrightarrow> j < length (head_hist s) \<Longrightarrow>
    spsc_step capacity n s (push_step capacity j s)"
| consumer: "length (received s) < n \<Longrightarrow> seen_tail s \<le> j \<Longrightarrow> j < length (tail_hist s) \<Longrightarrow>
    spsc_step capacity n s (pop_step capacity j s)"

inductive spsc_reach :: "size_t \<Rightarrow> 'a list \<Rightarrow> 'a spsc ub \<Rightarrow> bool" for capacity messages where
  start: "spsc_reach capacity messages (Some (SPSCQueue capacity messages))"
| step: "spsc_reach capacity messages (Some s) \<Longrightarrow> spsc_step capacity (length messages) s r \<Longrightarrow>
    spsc_reach capacity messages r"

text \<open>One call of push and of pop with no step of the other thread in between.\<close>

definition spsc_push :: "size_t \<Rightarrow> 'a \<Rightarrow> 'a spsc \<Rightarrow> (bool \<times> 'a spsc) ub" where
  "spsc_push capacity item s = (let tail = last (tail_hist s); next_tail = (tail + 1) AND MASK capacity in
     if next_tail = last (head_hist s) then Some (False, s)
     else do {
       b \<leftarrow> vset (buffer s) (uint tail) (Some item);
       Some (True, s\<lparr>buffer := b, tail_hist := tail_hist s @ [next_tail]\<rparr>) })"

definition pop :: "size_t \<Rightarrow> 'a spsc \<Rightarrow> ('a option \<times> 'a spsc) ub" where
  "pop capacity s = (let head = last (head_hist s) in
     if head = last (tail_hist s) then Some (None, s)
     else do {
       slot \<leftarrow> vget (buffer s) (uint head);
       item \<leftarrow> slot;
       Some (Some item, s\<lparr>head_hist := head_hist s @ [(head + 1) AND MASK capacity]\<rparr>) })"

text \<open>What main asserts of the received vector once both threads are joined.\<close>

definition spsc_main_checks :: "int \<Rightarrow> int list \<Rightarrow> bool" where
  "spsc_main_checks num_messages msgs \<longleftrightarrow>
     int (length msgs) = num_messages \<and> list_all (\<lambda>(i, x). x = i) (zip (map int [0..<length msgs]) msgs)"

section \<open>Indices modulo a power of two\<close>

definition slot_of :: "nat \<Rightarrow> nat \<Rightarrow> size_t" where
  "slot_of k i = take_bit k (of_nat i)"

lemma MASK_pow2: "x AND MASK (2 ^ k) = take_bit k x"
  by (simp add: MASK_def take_bit_eq_mask mask_eq_exp_minus_1)

lemma slot_of_0: "slot_of k 0 = 0"
  by (simp add: slot_of_def)

lemma take_bit_word_add2: "take_bit k (take_bit k a + take_bit k b) = take_bit k (a + b)" for a b :: size_t
  by transfer (simp add: take_bit_add)

lemma take_bit_word_add: "take_bit k (a + take_bit k b) = take_bit k (a + b)" for a b :: size_t
  using take_bit_word_add2 [of k a "take_bit k b"] take_bit_word_add2 [of k a b] by simp

lemma take_bit_word_diff: "take_bit k (take_bit k a - take_bit k b) = take_bit k (a - b)" for a b :: size_t
  by transfer (simp add: take_bit_diff)

lemma slot_of_Suc: "(slot_of k i + 1) AND MASK (2 ^ k) = slot_of k (Suc i)"
  by (simp add: MASK_pow2 slot_of_def take_bit_word_add add.commute)

lemma unat_slot_of: "k < 64 \<Longrightarrow> unat (slot_of k i) = i mod 2 ^ k"
  by (simp add: slot_of_def unsigned_take_bit_eq unsigned_of_nat take_bit_take_bit min_def flip: take_bit_eq_mod)

lemma uint_slot_of: "k < 64 \<Longrightarrow> uint (slot_of k i) = int (i mod 2 ^ k)"
  by (simp flip: unat_slot_of)

lemma slot_of_eq: "k < 64 \<Longrightarrow> slot_of k i = slot_of k j \<longleftrightarrow> i mod 2 ^ k = j mod 2 ^ k"
  by (metis unat_slot_of word_unat_eq_iff)

lemma unat_pow2: "k < 64 \<Longrightarrow> unat (2 ^ k :: size_t) = 2 ^ k"
proof -
  assume "k < 64"
  have "unat (of_nat (2 ^ k) :: size_t) = 2 ^ k mod 2 ^ 64"
    by (simp only: unsigned_of_nat take_bit_eq_mod len_num0 len_num1 len_bit0 len_bit1) simp
  moreover have "(2::nat) ^ k < 2 ^ 64" using \<open>k < 64\<close> by (rule power_strict_increasing) simp
  ultimately show ?thesis by simp
qed

lemma mod_neq_near: "i < j \<Longrightarrow> j - i < (m::nat) \<Longrightarrow> i mod m \<noteq> j mod m"
  by (metis less_imp_le_nat mod_eq_dvd_iff_nat nat_dvd_not_less zero_less_diff)

lemma slot_of_neq: "k < 64 \<Longrightarrow> i < j \<Longrightarrow> j - i < 2 ^ k \<Longrightarrow> slot_of k i \<noteq> slot_of k j"
  by (simp add: slot_of_eq mod_neq_near)

lemma slot_of_diff: "i \<le> j \<Longrightarrow> (slot_of k j - slot_of k i) AND MASK (2 ^ k) = slot_of k (j - i)"
  by (simp add: MASK_pow2 slot_of_def take_bit_word_diff of_nat_diff)

section \<open>The invariant\<close>

text \<open>P messages are published and C are consumed.\<close>

fun producer_ok :: "nat \<Rightarrow> 'a list \<Rightarrow> nat \<Rightarrow> producer_pc \<Rightarrow> nat \<Rightarrow> 'a option list \<Rightarrow> bool" where
  "producer_ok k ms P Load_Tail seen b \<longleftrightarrow> True"
| "producer_ok k ms P (Load_Head t nt) seen b \<longleftrightarrow> P < length ms \<and> t = slot_of k P \<and> nt = slot_of k (Suc P)"
| "producer_ok k ms P (Write_Slot t nt) seen b \<longleftrightarrow>
     P < length ms \<and> t = slot_of k P \<and> nt = slot_of k (Suc P) \<and> Suc P < seen + 2 ^ k"
| "producer_ok k ms P (Store_Tail nt) seen b \<longleftrightarrow>
     P < length ms \<and> nt = slot_of k (Suc P) \<and> Suc P < seen + 2 ^ k \<and> b ! (P mod 2 ^ k) = Some (ms ! P)"

fun consumer_ok :: "nat \<Rightarrow> 'a list \<Rightarrow> nat \<Rightarrow> 'a consumer_pc \<Rightarrow> nat \<Rightarrow> bool" where
  "consumer_ok k ms C Load_Own_Head seen \<longleftrightarrow> True"
| "consumer_ok k ms C (Load_Other_Tail h) seen \<longleftrightarrow> h = slot_of k C"
| "consumer_ok k ms C (Read_Slot h) seen \<longleftrightarrow> h = slot_of k C \<and> C < seen"
| "consumer_ok k ms C (Store_Head h x) seen \<longleftrightarrow> h = slot_of k C \<and> C < seen \<and> x = ms ! C"

definition history :: "nat \<Rightarrow> nat \<Rightarrow> size_t list" where
  "history k m = map (slot_of k) [0..<Suc m]"

definition spsc_inv :: "nat \<Rightarrow> 'a list \<Rightarrow> nat \<Rightarrow> nat \<Rightarrow> 'a spsc \<Rightarrow> bool" where
  "spsc_inv k ms P C s \<longleftrightarrow>
     (head_hist s = history k C \<and> tail_hist s = history k P \<and> length (buffer s) = 2 ^ k) \<and>
     (seen_head s \<le> C \<and> C \<le> seen_tail s \<and> seen_tail s \<le> P \<and> P < seen_head s + 2 ^ k \<and> P \<le> length ms) \<and>
     to_push s = drop P ms \<and> received s = take C ms \<and>
     (\<forall>i. C \<le> i \<and> i < P \<longrightarrow> buffer s ! (i mod 2 ^ k) = Some (ms ! i)) \<and>
     producer_ok k ms P (producer_pc s) (seen_head s) (buffer s) \<and> consumer_ok k ms C (consumer_pc s) (seen_tail s)"

lemma history_last [simp]: "last (history k m) = slot_of k m"
  by (simp add: history_def)

lemma history_nth [simp]: "j \<le> m \<Longrightarrow> history k m ! j = slot_of k j"
  by (simp add: history_def del: upt_Suc)

lemma history_length [simp]: "length (history k m) = Suc m"
  by (simp add: history_def)

lemma history_Suc: "history k m @ [slot_of k (Suc m)] = history k (Suc m)"
  by (simp add: history_def)

lemma take_nth_Suc: "C < length ms \<Longrightarrow> take C ms @ [ms ! C] = take (Suc C) ms"
  by (simp add: take_Suc_conv_app_nth)

lemma spsc_inv_start: "k < 64 \<Longrightarrow> spsc_inv k ms 0 0 (SPSCQueue (2 ^ k) ms)"
  by (simp add: spsc_inv_def SPSCQueue_def history_def slot_of_0 unat_pow2)

lemma spsc_inv_push:
  assumes inv: "spsc_inv k ms P C s" and k: "k < 64" and busy: "to_push s \<noteq> []"
    and j: "seen_head s \<le> j" "j < length (head_hist s)"
  shows "\<exists>s' P'. push_step (2 ^ k) j s = Some s' \<and> spsc_inv k ms P' C s'"
proof (cases "producer_pc s")
  case Load_Tail
  then have "spsc_inv k ms P C (s\<lparr>producer_pc := Load_Head (slot_of k P) (slot_of k (Suc P))\<rparr>)"
    using inv busy by (simp add: spsc_inv_def)
  then show ?thesis using Load_Tail inv
    by (auto simp: push_step_def Let_def slot_of_Suc spsc_inv_def)
next
  case (Load_Head t nt)
  have jC: "j \<le> C" and h: "head_hist s ! j = slot_of k j" and t: "t = slot_of k P" "nt = slot_of k (Suc P)"
    and near: "P < seen_head s + 2 ^ k" "j \<le> P"
    using inv j Load_Head by (auto simp: spsc_inv_def)
  show ?thesis
  proof (cases "nt = slot_of k j")
    case True
    then have "spsc_inv k ms P C (s\<lparr>producer_pc := Load_Tail, seen_head := j\<rparr>)"
      using inv jC j near by (simp add: spsc_inv_def)
    then show ?thesis using Load_Head True h by (auto simp: push_step_def)
  next
    case False
    have "Suc P \<noteq> j + 2 ^ k"
      using False t k by (auto simp: slot_of_eq)
    then have "Suc P < j + 2 ^ k" using near j by simp
    then have "spsc_inv k ms P C (s\<lparr>producer_pc := Write_Slot t nt, seen_head := j\<rparr>)"
      using inv jC j t Load_Head by (simp add: spsc_inv_def)
    then show ?thesis using Load_Head False h by (auto simp: push_step_def)
  qed
next
  case (Write_Slot t nt)
  define b where "b = (buffer s)[P mod 2 ^ k := Some (ms ! P)]"
  have t: "t = slot_of k P" "nt = slot_of k (Suc P)" and P: "P < length ms" and room: "Suc P < seen_head s + 2 ^ k"
    and len: "length (buffer s) = 2 ^ k" and item: "hd (to_push s) = ms ! P"
    using inv Write_Slot by (auto simp: spsc_inv_def hd_drop_conv_nth)
  have keep: "b ! (i mod 2 ^ k) = Some (ms ! i)" if "C \<le> i" "i < P" for i
  proof -
    have "i mod 2 ^ k \<noteq> P mod 2 ^ k"
      using that inv room by (intro mod_neq_near) (auto simp: spsc_inv_def)
    then show ?thesis using that inv by (simp add: b_def spsc_inv_def)
  qed
  have "spsc_inv k ms P C (s\<lparr>buffer := b, producer_pc := Store_Tail nt\<rparr>)"
    using inv P room t len keep
    by (simp add: spsc_inv_def) (simp add: b_def)
  then show ?thesis
    using Write_Slot t k len item by (auto simp: push_step_def uint_slot_of vset_int b_def simp del: of_nat_mod zmod_int)
next
  case (Store_Tail nt)
  have nt: "nt = slot_of k (Suc P)" and P: "P < length ms" and room: "Suc P < seen_head s + 2 ^ k"
    and item: "buffer s ! (P mod 2 ^ k) = Some (ms ! P)"
    using inv Store_Tail by (auto simp: spsc_inv_def)
  have tl: "tl (drop P ms) = drop (Suc P) ms" by (simp add: drop_Suc tl_drop)
  have items: "\<forall>i. C \<le> i \<and> i < Suc P \<longrightarrow> buffer s ! (i mod 2 ^ k) = Some (ms ! i)"
    using inv item by (auto simp: spsc_inv_def less_Suc_eq)
  have "spsc_inv k ms (Suc P) C
      (s\<lparr>tail_hist := tail_hist s @ [nt], to_push := tl (to_push s), producer_pc := Load_Tail\<rparr>)"
    using inv P room items nt
    by (simp add: spsc_inv_def history_Suc tl)
  then show ?thesis using Store_Tail by (auto simp: push_step_def)
qed

lemma spsc_inv_pop:
  assumes inv: "spsc_inv k ms P C s" and k: "k < 64" and busy: "length (received s) < length ms"
    and j: "seen_tail s \<le> j" "j < length (tail_hist s)"
  shows "\<exists>s' C'. pop_step (2 ^ k) j s = Some s' \<and> spsc_inv k ms P C' s'"
proof (cases "consumer_pc s")
  case Load_Own_Head
  then have "spsc_inv k ms P C (s\<lparr>consumer_pc := Load_Other_Tail (slot_of k C)\<rparr>)"
    using inv by (simp add: spsc_inv_def)
  then show ?thesis using Load_Own_Head inv by (auto simp: pop_step_def spsc_inv_def)
next
  case (Load_Other_Tail h)
  have jP: "j \<le> P" and t: "tail_hist s ! j = slot_of k j" and h: "h = slot_of k C" and "C \<le> j"
    using inv j Load_Other_Tail by (auto simp: spsc_inv_def)
  show ?thesis
  proof (cases "h = slot_of k j")
    case True
    then have "spsc_inv k ms P C (s\<lparr>consumer_pc := Load_Own_Head, seen_tail := j\<rparr>)"
      using inv jP \<open>C \<le> j\<close> by (simp add: spsc_inv_def)
    then show ?thesis using Load_Other_Tail True t by (auto simp: pop_step_def)
  next
    case False
    then have "C < j" using h \<open>C \<le> j\<close> by (cases "C = j") auto
    then have "spsc_inv k ms P C (s\<lparr>consumer_pc := Read_Slot h, seen_tail := j\<rparr>)"
      using inv jP h by (simp add: spsc_inv_def)
    then show ?thesis using Load_Other_Tail False t by (auto simp: pop_step_def)
  qed
next
  case (Read_Slot h)
  have h: "h = slot_of k C" and C: "C < P" "C < seen_tail s" and len: "length (buffer s) = 2 ^ k"
    using inv Read_Slot by (auto simp: spsc_inv_def)
  then have item: "buffer s ! (C mod 2 ^ k) = Some (ms ! C)"
    using inv by (simp add: spsc_inv_def)
  have "spsc_inv k ms P C (s\<lparr>consumer_pc := Store_Head h (ms ! C)\<rparr>)"
    using inv h C by (simp add: spsc_inv_def)
  then show ?thesis
    using Read_Slot h k len item by (auto simp: pop_step_def uint_slot_of simp del: of_nat_mod zmod_int)
next
  case (Store_Head h x)
  have h: "h = slot_of k C" and C: "C < seen_tail s" and x: "x = ms ! C"
    using inv Store_Head by (auto simp: spsc_inv_def)
  have "C < length ms" using inv C by (simp add: spsc_inv_def)
  then have "spsc_inv k ms P (Suc C)
      (s\<lparr>head_hist := head_hist s @ [slot_of k (Suc C)], received := received s @ [x], consumer_pc := Load_Own_Head\<rparr>)"
    using inv C x by (simp add: spsc_inv_def history_Suc take_nth_Suc)
  then show ?thesis using Store_Head h by (auto simp: pop_step_def slot_of_Suc)
qed

lemma spsc_reach_inv:
  assumes "spsc_reach (2 ^ k) ms r" "k < 64"
  shows "\<exists>s P C. r = Some s \<and> spsc_inv k ms P C s"
  using assms(1)
proof (induction rule: spsc_reach.induct)
  case start
  then show ?case using spsc_inv_start [OF assms(2)] by blast
next
  case (step s r)
  then obtain P C where inv: "spsc_inv k ms P C s" by blast
  from step.hyps(2) show ?case
    by (cases rule: spsc_step.cases) (metis spsc_inv_push [OF inv assms(2)] spsc_inv_pop [OF inv assms(2)])+
qed

section \<open>Transfer in order\<close>

text \<open>The published messages that are not consumed yet, read from the slots between head and tail.\<close>

definition in_flight :: "nat \<Rightarrow> 'a spsc \<Rightarrow> 'a option list" where
  "in_flight capacity s =
     map (\<lambda>i. buffer s ! (i mod capacity)) [length (head_hist s) - 1..<length (tail_hist s) - 1]"

text \<open>
  Each access of the buffer comes after the accesses of the same slot by the other thread: the
  writer of message number P has acquired a head that is past message P - capacity, the reader of
  message C a tail that is past C, and they never are at the same slot together.
\<close>

definition accesses_ordered :: "nat \<Rightarrow> 'a spsc \<Rightarrow> bool" where
  "accesses_ordered capacity s \<longleftrightarrow>
     (case producer_pc s of Write_Slot t nt \<Rightarrow> length (tail_hist s) - 1 < seen_head s + capacity \<and>
        (case consumer_pc s of Read_Slot h \<Rightarrow> h \<noteq> t | _ \<Rightarrow> True) | _ \<Rightarrow> True) \<and>
     (case consumer_pc s of Read_Slot h \<Rightarrow> length (head_hist s) - 1 < seen_tail s | _ \<Rightarrow> True)"

lemma spsc_inv_in_flight:
  assumes inv: "spsc_inv k ms P C s"
  shows "in_flight (2 ^ k) s = map Some (drop C (take P ms))"
proof (rule nth_equalityI)
  show "length (in_flight (2 ^ k) s) = length (map Some (drop C (take P ms)))"
    using inv by (simp add: in_flight_def spsc_inv_def)
next
  fix i assume "i < length (in_flight (2 ^ k) s)"
  then show "in_flight (2 ^ k) s ! i = map Some (drop C (take P ms)) ! i"
    using inv by (simp add: in_flight_def spsc_inv_def add.commute)
qed

lemma spsc_inv_ordered:
  assumes inv: "spsc_inv k ms P C s" and k: "k < 64"
  shows "accesses_ordered (2 ^ k) s"
proof -
  have "h \<noteq> t" if "producer_pc s = Write_Slot t nt" "consumer_pc s = Read_Slot h" for t nt h
  proof -
    have "slot_of k C \<noteq> slot_of k P"
      using inv that by (intro slot_of_neq [OF k]) (auto simp: spsc_inv_def)
    then show ?thesis using inv that by (simp add: spsc_inv_def)
  qed
  then show ?thesis
    using inv by (auto simp: accesses_ordered_def spsc_inv_def split: producer_pc.splits consumer_pc.splits)
qed

lemma spsc_inv_split:
  assumes inv: "spsc_inv k ms P C s"
  shows "map Some (received s) @ in_flight (2 ^ k) s @ map Some (to_push s) = map Some ms"
proof -
  have "C \<le> P" "received s = take C ms" "to_push s = drop P ms" using inv by (auto simp: spsc_inv_def)
  moreover have "take C ms @ drop C (take P ms) @ drop P ms = ms" if "C \<le> P"
  proof -
    have "take C ms = take C (take P ms)" using that by (simp add: min_def)
    then show ?thesis by (metis append.assoc append_take_drop_id)
  qed
  ultimately show ?thesis by (simp add: spsc_inv_in_flight [OF inv] flip: map_append)
qed

section \<open>Progress\<close>

fun producer_stage :: "producer_pc \<Rightarrow> nat" where
  "producer_stage Load_Tail = 4"
| "producer_stage (Load_Head t nt) = 3"
| "producer_stage (Write_Slot t nt) = 2"
| "producer_stage (Store_Tail nt) = 1"

fun consumer_stage :: "'a consumer_pc \<Rightarrow> nat" where
  "consumer_stage Load_Own_Head = 4"
| "consumer_stage (Load_Other_Tail h) = 3"
| "consumer_stage (Read_Slot h) = 2"
| "consumer_stage (Store_Head h x) = 1"

definition work_left :: "nat \<Rightarrow> 'a spsc \<Rightarrow> nat" where
  "work_left n s = 4 * length (to_push s) + producer_stage (producer_pc s) +
     4 * (n - length (received s)) + consumer_stage (consumer_pc s)"

lemma push_step_work:
  assumes "push_step cap j s = Some s'" "to_push s \<noteq> []"
    and "\<And>t nt. producer_pc s = Load_Head t nt \<Longrightarrow> nt \<noteq> head_hist s ! j"
  shows "work_left n s' < work_left n s"
  using assms
  by (cases "producer_pc s") (auto simp: push_step_def work_left_def Let_def bind_Some_conv neq_Nil_conv)

lemma pop_step_work:
  assumes "pop_step cap j s = Some s'" "length (received s) < n"
    and "\<And>h. consumer_pc s = Load_Other_Tail h \<Longrightarrow> h \<noteq> tail_hist s ! j"
  shows "work_left n s' < work_left n s"
  using assms
  by (cases "consumer_pc s") (auto simp: pop_step_def work_left_def Let_def bind_Some_conv)

lemma producer_progress:
  assumes inv: "spsc_inv k ms P C s" and k: "k < 64" and busy: "to_push s \<noteq> []" and room: "Suc P < C + 2 ^ k"
  shows "\<exists>s'. spsc_step (2 ^ k) (length ms) s (Some s') \<and> work_left (length ms) s' < work_left (length ms) s"
proof -
  have C: "seen_head s \<le> C" "C < length (head_hist s)" and nth: "head_hist s ! C = slot_of k C"
    using inv by (auto simp: spsc_inv_def)
  obtain s' where s': "push_step (2 ^ k) C s = Some s'"
    using spsc_inv_push [OF inv k busy C] by blast
  have "nt \<noteq> head_hist s ! C" if "producer_pc s = Load_Head t nt" for t nt
  proof -
    have "C \<le> P" using inv by (simp add: spsc_inv_def)
    then have "slot_of k C \<noteq> slot_of k (Suc P)" using room by (intro slot_of_neq [OF k]) auto
    then show ?thesis using inv that nth by (simp add: spsc_inv_def)
  qed
  then have "work_left (length ms) s' < work_left (length ms) s"
    by (rule push_step_work [OF s' busy])
  then show ?thesis using spsc_step.producer [where capacity = "2 ^ k", OF busy C] s' by metis
qed

lemma consumer_progress:
  assumes inv: "spsc_inv k ms P C s" and k: "k < 64" and less: "C < P"
  shows "\<exists>s'. spsc_step (2 ^ k) (length ms) s (Some s') \<and> work_left (length ms) s' < work_left (length ms) s"
proof -
  have P: "seen_tail s \<le> P" "P < length (tail_hist s)" and nth: "tail_hist s ! P = slot_of k P"
    and busy: "length (received s) < length ms"
    using inv less by (auto simp: spsc_inv_def)
  obtain s' where s': "pop_step (2 ^ k) P s = Some s'"
    using spsc_inv_pop [OF inv k busy P] by blast
  have "h \<noteq> tail_hist s ! P" if "consumer_pc s = Load_Other_Tail h" for h
  proof -
    have "slot_of k C \<noteq> slot_of k P" using inv less by (intro slot_of_neq [OF k]) (auto simp: spsc_inv_def)
    then show ?thesis using inv that nth by (simp add: spsc_inv_def)
  qed
  then have "work_left (length ms) s' < work_left (length ms) s"
    by (rule pop_step_work [OF s' busy])
  then show ?thesis using spsc_step.consumer [where capacity = "2 ^ k", OF busy P] s' by metis
qed

lemma spsc_progress:
  assumes inv: "spsc_inv k ms P C s" and k: "0 < k" "k < 64" and todo: "received s \<noteq> ms"
  shows "\<exists>s'. spsc_step (2 ^ k) (length ms) s (Some s') \<and> work_left (length ms) s' < work_left (length ms) s"
proof (cases "C < P")
  case True
  then show ?thesis by (rule consumer_progress [OF inv k(2)])
next
  case False
  then have "P = C" using inv by (simp add: spsc_inv_def)
  moreover have "2 ^ 1 \<le> (2::nat) ^ k" using k by (intro power_increasing) auto
  moreover have "to_push s \<noteq> []" using todo inv \<open>P = C\<close> by (auto simp: spsc_inv_def)
  ultimately show ?thesis by (intro producer_progress [OF inv k(2)]) auto
qed

text \<open>
  C5: Whatever the interleaving of the two threads and however stale their loads, no step is
  undefined: the received messages, those in the ring and those not pushed yet are the messages of
  main in their order, the ring holds fewer than its capacity, and the accesses of each slot are ordered.
\<close>
theorem spsc_fifo:
  assumes "k < 64" and "spsc_reach (2 ^ k) ms r"
  shows "\<exists>s. r = Some s \<and> map Some (received s) @ in_flight (2 ^ k) s @ map Some (to_push s) = map Some ms \<and>
    length (in_flight (2 ^ k) s) < 2 ^ k \<and> accesses_ordered (2 ^ k) s"
proof -
  obtain s P C where r: "r = Some s" and inv: "spsc_inv k ms P C s"
    using spsc_reach_inv [OF assms(2,1)] by blast
  have "length (in_flight (2 ^ k) s) < 2 ^ k"
    using inv by (auto simp: in_flight_def spsc_inv_def)
  then show ?thesis using r spsc_inv_split [OF inv] spsc_inv_ordered [OF inv assms(1)] by blast
qed

lemma spsc_reach_one: "spsc_reach (2 ^ 2) [7, 8::int] (push_step (2 ^ 2) 0 (SPSCQueue (2 ^ 2) [7, 8]))"
  by (rule spsc_reach.step [OF spsc_reach.start])
    (rule spsc_step.producer; simp add: SPSCQueue_def)

lemma spsc_fifo_witness:
  "\<exists>s. push_step (2 ^ 2) 0 (SPSCQueue (2 ^ 2) [7, 8::int]) = Some s \<and>
    map Some (received s) @ in_flight (2 ^ 2) s @ map Some (to_push s) = map Some [7, 8] \<and>
    length (in_flight (2 ^ 2) s) < 2 ^ 2 \<and> accesses_ordered (2 ^ 2) s"
  by (rule spsc_fifo [OF _ spsc_reach_one]) simp

lemma spsc_inv_done: "spsc_inv k ms P C s \<Longrightarrow> received s = ms \<Longrightarrow> to_push s = []"
  by (auto simp: spsc_inv_def) (metis le_trans length_take min.cobounded2 min.orderE order_antisym)

lemma spsc_reach_steps:
  assumes "(\<lambda>a b. spsc_step cap (length ms) a (Some b))\<^sup>*\<^sup>* s s'" "spsc_reach cap ms (Some s)"
  shows "spsc_reach cap ms (Some s')"
  using assms by (induction rule: rtranclp_induct) (auto intro: spsc_reach.step)

text \<open>
  C16: With a capacity of at least two the threads never block each other: from every reachable
  state the transfer can be completed, after which all messages are received in order.
\<close>
theorem spsc_completes:
  assumes "0 < k" "k < 64" and "spsc_reach (2 ^ k) ms (Some s)"
  shows "\<exists>s'. (\<lambda>a b. spsc_step (2 ^ k) (length ms) a (Some b))\<^sup>*\<^sup>* s s' \<and> received s' = ms \<and> to_push s' = []"
  using assms(3)
proof (induction "work_left (length ms) s" arbitrary: s rule: less_induct)
  case less
  obtain P C where inv: "spsc_inv k ms P C s"
    using spsc_reach_inv [OF less.prems assms(2)] by blast
  show ?case
  proof (cases "received s = ms")
    case True
    then show ?thesis using spsc_inv_done [OF inv] by blast
  next
    case False
    then obtain s1 where s1: "spsc_step (2 ^ k) (length ms) s (Some s1)" "work_left (length ms) s1 < work_left (length ms) s"
      using spsc_progress [OF inv assms(1,2)] by blast
    with less.hyps [OF s1(2) spsc_reach.step [OF less.prems s1(1)]] show ?thesis
      by (metis (mono_tags, lifting) converse_rtranclp_into_rtranclp)
  qed
qed

lemma spsc_completes_witness:
  "\<exists>s'. (\<lambda>a b. spsc_step (2 ^ 2) (length [7, 8::int]) a (Some b))\<^sup>*\<^sup>* (SPSCQueue (2 ^ 2) [7, 8::int]) s' \<and>
    received s' = [7, 8] \<and> to_push s' = []"
  by (rule spsc_completes [OF _ _ spsc_reach.start]) simp_all

lemma spsc_main_asserts:
  assumes "spsc_reach 1024 (map int [0..<100000]) (Some s)" "length (received s) \<ge> 100000"
  shows "spsc_main_checks 100000 (received s)"
proof -
  have "spsc_reach (2 ^ 10) (map int [0..<100000]) (Some s)" using assms(1) by simp
  from spsc_reach_inv [OF this] obtain P C where inv: "spsc_inv 10 (map int [0..<100000]) P C s" by auto
  then have "received s = map int [0..<100000]"
    using assms(2) by (auto simp: spsc_inv_def take_map min_def split: if_splits)
  then show ?thesis by (simp add: spsc_main_checks_def zip_map_map zip_same_conv_map list_all_iff)
qed

section \<open>Without interleaving: a queue of at most capacity - 1 items\<close>

definition ring_ok :: "nat \<Rightarrow> 'a list \<Rightarrow> 'a spsc \<Rightarrow> bool" where
  "ring_ok k q s \<longleftrightarrow> (\<exists>C. head_hist s = history k C \<and> tail_hist s = history k (C + length q) \<and>
     length (buffer s) = 2 ^ k \<and> length q < 2 ^ k \<and> (\<forall>i < length q. buffer s ! ((C + i) mod 2 ^ k) = Some (q ! i)))"

lemma push_ring:
  assumes ok: "ring_ok k q s" and k: "k < 64"
  shows "if Suc (length q) < 2 ^ k then \<exists>s'. spsc_push (2 ^ k) x s = Some (True, s') \<and> ring_ok k (q @ [x]) s'
    else spsc_push (2 ^ k) x s = Some (False, s)"
proof -
  from ok obtain C where h: "head_hist s = history k C" and t: "tail_hist s = history k (C + length q)"
    and len: "length (buffer s) = 2 ^ k" "length q < 2 ^ k"
    and items: "\<And>i. i < length q \<Longrightarrow> buffer s ! ((C + i) mod 2 ^ k) = Some (q ! i)"
    by (auto simp: ring_ok_def)
  let ?T = "C + length q"
  show ?thesis
  proof (cases "Suc (length q) < 2 ^ k")
    case True
    then have ne: "slot_of k C \<noteq> slot_of k (Suc ?T)" by (intro slot_of_neq [OF k]) auto
    let ?s' = "s\<lparr>buffer := (buffer s)[?T mod 2 ^ k := Some x], tail_hist := history k (Suc ?T)\<rparr>"
    have "spsc_push (2 ^ k) x s = Some (True, ?s')"
      using h t len ne by (simp add: spsc_push_def Let_def slot_of_Suc uint_slot_of [OF k] history_Suc del: of_nat_mod zmod_int)
    moreover have "(buffer s)[?T mod 2 ^ k := Some x] ! ((C + i) mod 2 ^ k) = Some ((q @ [x]) ! i)"
      if "i < Suc (length q)" for i
    proof (cases "i = length q")
      case False
      then have "(C + i) mod 2 ^ k \<noteq> ?T mod 2 ^ k" using that len by (intro mod_neq_near) auto
      then show ?thesis using False that items by (simp add: nth_append)
    qed (simp add: len)
    then have "ring_ok k (q @ [x]) ?s'"
      using h len True by (auto simp: ring_ok_def intro!: exI [of _ C])
    ultimately show ?thesis using True by auto
  next
    case False
    then have "Suc ?T = C + 2 ^ k" using len by simp
    then have "slot_of k (Suc ?T) = slot_of k C" by (simp only: slot_of_eq [OF k] mod_add_self2)
    then show ?thesis using False h t by (simp add: spsc_push_def Let_def slot_of_Suc)
  qed
qed

lemma pop_ring:
  assumes ok: "ring_ok k q s" and k: "k < 64"
  shows "case q of [] \<Rightarrow> pop (2 ^ k) s = Some (None, s)
    | x # q' \<Rightarrow> \<exists>s'. pop (2 ^ k) s = Some (Some x, s') \<and> ring_ok k q' s'"
proof -
  from ok obtain C where h: "head_hist s = history k C" and t: "tail_hist s = history k (C + length q)"
    and len: "length (buffer s) = 2 ^ k" "length q < 2 ^ k"
    and items: "\<And>i. i < length q \<Longrightarrow> buffer s ! ((C + i) mod 2 ^ k) = Some (q ! i)"
    by (auto simp: ring_ok_def)
  show ?thesis
  proof (cases q)
    case Nil
    then show ?thesis using h t by (simp add: pop_def)
  next
    case (Cons x q')
    then have ne: "slot_of k C \<noteq> slot_of k (C + length q)" using len by (intro slot_of_neq [OF k]) auto
    let ?s' = "s\<lparr>head_hist := history k (Suc C)\<rparr>"
    have "pop (2 ^ k) s = Some (Some x, ?s')"
      using h t len ne Cons items [of 0]
      by (simp add: pop_def Let_def slot_of_Suc uint_slot_of [OF k] history_Suc del: of_nat_mod zmod_int)
    moreover have "buffer s ! ((Suc C + i) mod 2 ^ k) = Some (q' ! i)" if "i < length q'" for i
      using items [of "Suc i"] that Cons by simp
    then have "ring_ok k q' ?s'"
      using h t len Cons by (auto simp: ring_ok_def intro!: exI [of _ "Suc C"])
    ultimately show ?thesis using Cons by auto
  qed
qed

lemma size_ring:
  assumes ok: "ring_ok k q s" and k: "k < 64"
  shows "unat (size_of_loads (2 ^ k) (last (tail_hist s)) (last (head_hist s))) = length q"
    and "empty_of_loads (2 ^ k) (last (tail_hist s)) (last (head_hist s)) \<longleftrightarrow> q = []"
proof -
  from ok obtain C where "last (head_hist s) = slot_of k C" "last (tail_hist s) = slot_of k (C + length q)" "length q < 2 ^ k"
    by (auto simp: ring_ok_def)
  then have "size_of_loads (2 ^ k) (last (tail_hist s)) (last (head_hist s)) = slot_of k (length q)"
    by (simp add: size_of_loads_def slot_of_diff)
  then show *: "unat (size_of_loads (2 ^ k) (last (tail_hist s)) (last (head_hist s))) = length q"
    using \<open>length q < 2 ^ k\<close> by (simp add: unat_slot_of [OF k])
  show "empty_of_loads (2 ^ k) (last (tail_hist s)) (last (head_hist s)) \<longleftrightarrow> q = []"
    using * by (auto simp: empty_of_loads_def unat_eq_0 [symmetric])
qed

end
