(* ===== verification/Memory_Pool.thy ===== *)
theory Memory_Pool
  imports Prelude Complex_Main
begin

text \<open>
  src/src/stl_like/memory_pool.cpp: the fixed-size object pool. A pointer into the pool is the index
  of its block, a block holds raw memory, the link of a free block or an object; reading the link
  of a block that holds none, destroying an object that is not alive and leaving the pool are
  undefined behaviour (None). The values of price are exact in double.
\<close>

section \<open>Definitions\<close>

datatype 'a block = Raw | Next "int option" | Storage 'a

record 'a memory_pool =
  pool :: "'a block list"
  free_list :: "int option"
  allocated_count :: int

definition SIZE_T :: int where
  "SIZE_T = 18446744073709551616"

function chain_loop :: "int \<Rightarrow> int \<Rightarrow> 'a block list \<Rightarrow> 'a block list ub" where
  "chain_loop i bound blocks =
     (if i < bound then do { blocks' \<leftarrow> vset blocks i (Next (Some (i + 1))); chain_loop (i + 1) bound blocks' }
      else Some blocks)"
  by pat_completeness auto

termination chain_loop
  by (relation "measure (\<lambda>(i, bound, blocks). nat (bound - i))") auto

declare chain_loop.simps [simp del]

definition MemoryPool :: "nat \<Rightarrow> 'a memory_pool ub" where
  "MemoryPool PoolSize = do {
     blocks \<leftarrow> chain_loop 0 ((int PoolSize - 1) mod SIZE_T) (replicate PoolSize Raw);
     blocks' \<leftarrow> vset blocks ((int PoolSize - 1) mod SIZE_T) (Next None);
     Some \<lparr>pool = blocks', free_list = Some 0, allocated_count = 0\<rparr> }"

definition block_next_of :: "'a memory_pool \<Rightarrow> int \<Rightarrow> int option ub" where
  "block_next_of s p = do { b \<leftarrow> vget (pool s) p; case b of Next n \<Rightarrow> Some n | _ \<Rightarrow> None }"

text \<open>allocate with the object that the placement new constructs; a null pointer is None.\<close>

definition allocate :: "'a memory_pool \<Rightarrow> 'a \<Rightarrow> (int option \<times> 'a memory_pool) ub" where
  "allocate s x = (case free_list s of
     None \<Rightarrow> Some (None, s)
   | Some p \<Rightarrow> do {
       n \<leftarrow> block_next_of s p;
       blocks \<leftarrow> vset (pool s) p (Storage x);
       Some (Some p, s\<lparr>pool := blocks, free_list := n, allocated_count := (allocated_count s + 1) mod SIZE_T\<rparr>) })"

definition block_deref :: "'a memory_pool \<Rightarrow> int \<Rightarrow> 'a ub" where
  "block_deref s p = do { b \<leftarrow> vget (pool s) p; case b of Storage x \<Rightarrow> Some x | _ \<Rightarrow> None }"

definition deallocate :: "'a memory_pool \<Rightarrow> int option \<Rightarrow> 'a memory_pool ub" where
  "deallocate s ptr = (case ptr of
     None \<Rightarrow> Some s
   | Some p \<Rightarrow> do {
       _ \<leftarrow> block_deref s p;
       blocks \<leftarrow> vset (pool s) p (Next (free_list s));
       Some (s\<lparr>pool := blocks, free_list := Some p, allocated_count := (allocated_count s - 1) mod SIZE_T\<rparr>) })"

definition allocated :: "'a memory_pool \<Rightarrow> int" where
  "allocated s = allocated_count s"

definition available :: "nat \<Rightarrow> 'a memory_pool \<Rightarrow> int" where
  "available PoolSize s = (int PoolSize - allocated_count s) mod SIZE_T"

definition pool_capacity :: "nat \<Rightarrow> int" where
  "pool_capacity PoolSize = int PoolSize"

record pool_order =
  id :: int
  price :: rat
  quantity :: int

text \<open>main threads the pool and the static counts of constructed and destructed orders.\<close>

record pool_world =
  the_pool :: "pool_order memory_pool"
  construct_count :: int
  destruct_count :: int

definition new_order :: "int \<Rightarrow> rat \<Rightarrow> int \<Rightarrow> pool_world \<Rightarrow> (int option \<times> pool_world) ub" where
  "new_order i p q w = do {
     (o', s) \<leftarrow> allocate (the_pool w) \<lparr>id = i, price = p, quantity = q\<rparr>;
     Some (o', w\<lparr>the_pool := s, construct_count := (if o' = None then 0 else 1) + construct_count w\<rparr>) }"

definition delete_order :: "int option \<Rightarrow> pool_world \<Rightarrow> pool_world ub" where
  "delete_order o' w = do {
     s \<leftarrow> deallocate (the_pool w) o';
     Some (w\<lparr>the_pool := s, destruct_count := (if o' = None then 0 else 1) + destruct_count w\<rparr>) }"

function fill_loop :: "int \<Rightarrow> int option list \<Rightarrow> pool_world \<Rightarrow> (int option list \<times> pool_world) ub" where
  "fill_loop i orders w =
     (if i < 50 then do {
        (o', w') \<leftarrow> new_order i (100 + of_int i) (i * 10) w;
        _ \<leftarrow> guard (o' \<noteq> None);
        fill_loop (i + 1) (orders @ [o']) w' }
      else Some (orders, w))"
  by pat_completeness auto

termination fill_loop
  by (relation "measure (\<lambda>(i, orders, w). nat (50 - i))") auto

function release_loop :: "int \<Rightarrow> int option list \<Rightarrow> pool_world \<Rightarrow> pool_world ub" where
  "release_loop i orders w =
     (if i < 30 then do { o' \<leftarrow> vget orders i; w' \<leftarrow> delete_order o' w; release_loop (i + 1) orders w' }
      else Some w)"
  by pat_completeness auto

termination release_loop
  by (relation "measure (\<lambda>(i, orders, w). nat (30 - i))") auto

function refill_loop :: "int \<Rightarrow> pool_world \<Rightarrow> pool_world ub" where
  "refill_loop i w =
     (if i < 30 then do {
        (o', w') \<leftarrow> new_order (100 + i) 200 1 w;
        _ \<leftarrow> guard (o' \<noteq> None);
        refill_loop (i + 1) w' }
      else Some w)"
  by pat_completeness auto

termination refill_loop
  by (relation "measure (\<lambda>(i, w). nat (30 - i))") auto

declare fill_loop.simps [simp del] release_loop.simps [simp del] refill_loop.simps [simp del]

definition id_of :: "pool_world \<Rightarrow> int option list \<Rightarrow> int \<Rightarrow> int ub" where
  "id_of w orders i = do { o' \<leftarrow> vget orders i; p \<leftarrow> o'; x \<leftarrow> block_deref (the_pool w) p; Some (id x) }"

definition memory_pool_main :: "(int \<times> int \<times> int \<times> int \<times> int) ub" where
  "memory_pool_main = do {
     s0 \<leftarrow> MemoryPool 64;
     (orders, w1) \<leftarrow> fill_loop 0 [] \<lparr>the_pool = s0, construct_count = 0, destruct_count = 0\<rparr>;
     _ \<leftarrow> guard (allocated (the_pool w1) = 50);
     _ \<leftarrow> guard (available 64 (the_pool w1) = 14);
     i0 \<leftarrow> id_of w1 orders 0;
     i49 \<leftarrow> id_of w1 orders 49;
     _ \<leftarrow> guard (i0 = 0 \<and> i49 = 49);
     _ \<leftarrow> guard (construct_count w1 = 50);
     w2 \<leftarrow> release_loop 0 orders w1;
     _ \<leftarrow> guard (allocated (the_pool w2) = 20);
     _ \<leftarrow> guard (destruct_count w2 = 30);
     w3 \<leftarrow> refill_loop 0 w2;
     _ \<leftarrow> guard (allocated (the_pool w3) = 50);
     Some (pool_capacity 64, allocated (the_pool w3), available 64 (the_pool w3), construct_count w3, destruct_count w3) }"

lemma memory_pool_main_output: "memory_pool_main = Some (64, 50, 14, 80, 30)"
  by code_simp

section \<open>A stack of free blocks and a map of live objects\<close>

datatype 'a pool_cmd = New 'a | Delete "int option"

type_synonym pool_out = "int option \<times> int \<times> int"

fun pool_op :: "nat \<Rightarrow> 'a pool_cmd \<Rightarrow> 'a memory_pool \<Rightarrow> (pool_out \<times> 'a memory_pool) ub" where
  "pool_op N (New x) s = do { (p, s') \<leftarrow> allocate s x; Some ((p, allocated s', available N s'), s') }"
| "pool_op N (Delete p) s = do { s' \<leftarrow> deallocate s p; Some ((None, allocated s', available N s'), s') }"

fun pool_run :: "nat \<Rightarrow> 'a pool_cmd list \<Rightarrow> 'a memory_pool \<Rightarrow> (pool_out list \<times> 'a memory_pool) ub" where
  "pool_run N [] s = Some ([], s)"
| "pool_run N (x # xs) s = do { (out, s') \<leftarrow> pool_op N x s; (outs, s'') \<leftarrow> pool_run N xs s'; Some (out # outs, s'') }"

type_synonym 'a pool_spec = "int list \<times> (int \<rightharpoonup> 'a)"

definition counts :: "nat \<Rightarrow> 'a pool_spec \<Rightarrow> int \<times> int" where
  "counts N sp = (int (card (dom (snd sp))), int N - int (card (dom (snd sp))))"

fun spec_op :: "'a pool_cmd \<Rightarrow> 'a pool_spec \<Rightarrow> (int option \<times> 'a pool_spec) option" where
  "spec_op (New x) ([], live) = Some (None, [], live)"
| "spec_op (New x) (p # free, live) = Some (Some p, free, live(p \<mapsto> x))"
| "spec_op (Delete None) (free, live) = Some (None, free, live)"
| "spec_op (Delete (Some p)) (free, live) =
     (if p \<in> dom live then Some (None, p # free, live(p := None)) else None)"

fun spec_run :: "nat \<Rightarrow> 'a pool_cmd list \<Rightarrow> 'a pool_spec \<Rightarrow> (pool_out list \<times> 'a pool_spec) option" where
  "spec_run N [] sp = Some ([], sp)"
| "spec_run N (x # xs) sp = do {
     (p, sp') \<leftarrow> spec_op x sp;
     (outs, sp'') \<leftarrow> spec_run N xs sp';
     Some ((p, counts N sp') # outs, sp'') }"

definition object_at :: "'a memory_pool \<Rightarrow> int \<Rightarrow> 'a option" where
  "object_at s p = block_deref s p"

fun chain :: "'a block list \<Rightarrow> int option \<Rightarrow> int list \<Rightarrow> bool" where
  "chain b p [] \<longleftrightarrow> p = None"
| "chain b p (i # is') \<longleftrightarrow> p = Some i \<and> 0 \<le> i \<and> i < int (length b) \<and> (\<exists>n. b ! nat i = Next n \<and> chain b n is')"

definition pool_rel :: "nat \<Rightarrow> 'a pool_spec \<Rightarrow> 'a memory_pool \<Rightarrow> bool" where
  "pool_rel N sp s \<longleftrightarrow>
     length (pool s) = N \<and> chain (pool s) (free_list s) (fst sp) \<and> distinct (fst sp) \<and>
     object_at s = snd sp \<and> set (fst sp) = {0..<int N} - dom (snd sp) \<and> dom (snd sp) \<subseteq> {0..<int N} \<and>
     allocated_count s = int (card (dom (snd sp)))"

section \<open>Simulation\<close>

lemma chain_frame: "0 \<le> i \<Longrightarrow> i \<notin> set is' \<Longrightarrow> chain (b[nat i := x]) p is' \<longleftrightarrow> chain b p is'"
proof (induction is' arbitrary: p)
  case (Cons a is')
  then have "nat i \<noteq> nat a \<or> a < 0" by auto
  then show ?case using Cons by auto
qed simp

lemma object_at_store:
  "0 \<le> p \<Longrightarrow> p < int (length (pool s)) \<Longrightarrow>
   object_at (s\<lparr>pool := (pool s)[nat p := Storage x], free_list := n, allocated_count := a\<rparr>) = (object_at s)(p \<mapsto> x)"
  by (rule ext) (auto simp: object_at_def block_deref_def vget_def)

lemma object_at_free:
  "0 \<le> p \<Longrightarrow> p < int (length (pool s)) \<Longrightarrow>
   object_at (s\<lparr>pool := (pool s)[nat p := Next m], free_list := n, allocated_count := a\<rparr>) = (object_at s)(p := None)"
  by (rule ext) (auto simp: object_at_def block_deref_def vget_def)

lemma chain_start:
  assumes "n < N"
  shows "length b = N \<Longrightarrow> (\<forall>i < n. b ! i = Next (Some (int i + 1))) \<Longrightarrow> b ! n = Next None \<Longrightarrow> m \<le> n \<Longrightarrow>
    chain b (Some (int m)) (map int [m..<Suc n])"
proof (induction "n - m" arbitrary: m)
  case 0
  then show ?case using assms by simp
next
  case (Suc k)
  then have "chain b (Some (int (Suc m))) (map int [Suc m..<Suc n])" by (intro Suc.hyps(1)) auto
  moreover have "[m..<Suc n] = m # [Suc m..<Suc n]" using Suc by (simp add: upt_conv_Cons)
  moreover have "b ! m = Next (Some (int m + 1))" using Suc by simp
  ultimately show ?case using Suc.hyps(2) Suc.prems assms by (simp add: add.commute)
qed

lemma chain_loop_ok:
  "0 \<le> i \<Longrightarrow> bound \<le> int (length b) \<Longrightarrow>
   chain_loop i bound b = Some (map (\<lambda>j. if i \<le> int j \<and> int j < bound then Next (Some (int j + 1)) else b ! j) [0..<length b])"
proof (induction i bound b rule: chain_loop.induct)
  case (1 i bound b)
  show ?case
  proof (cases "i < bound")
    case True
    then have "chain_loop i bound b = chain_loop (i + 1) bound (b[nat i := Next (Some (i + 1))])"
      using 1 by (subst chain_loop.simps) (simp add: ub_simps)
    also have "\<dots> = Some (map (\<lambda>j. if i + 1 \<le> int j \<and> int j < bound then Next (Some (int j + 1))
        else (b[nat i := Next (Some (i + 1))]) ! j) [0..<length b])"
      using 1(1) [OF True vset_in] 1(2,3) True by simp
    also have "\<dots> = Some (map (\<lambda>j. if i \<le> int j \<and> int j < bound then Next (Some (int j + 1)) else b ! j) [0..<length b])"
      using 1(2) True by (auto simp: nth_list_update)
    finally show ?thesis .
  next
    case False
    then have "chain_loop i bound b = Some b" by (subst chain_loop.simps) simp
    moreover have "b = map (\<lambda>j. if i \<le> int j \<and> int j < bound then Next (Some (int j + 1)) else b ! j) [0..<length b]"
      by (rule nth_equalityI) (use False in auto)
    ultimately show ?thesis by (metis (lifting))
  qed
qed

lemma pool_rel_start:
  assumes "0 < N" "int N < SIZE_T"
  shows "\<exists>s :: 'a memory_pool. MemoryPool N = Some s \<and> pool_rel N (map int [0..<N], Map.empty) s"
proof -
  obtain n where N: "N = Suc n" using assms(1) gr0_implies_Suc by blast
  define b :: "'a block list" where "b = (map (\<lambda>j. if int j < int n then Next (Some (int j + 1)) else replicate (Suc n) Raw ! j) [0..<Suc n])[n := Next None]"
  have "MemoryPool N = Some \<lparr>pool = b, free_list = Some 0, allocated_count = 0\<rparr>"
    using assms by (simp add: MemoryPool_def N chain_loop_ok b_def SIZE_T_def del: replicate_Suc upt_Suc)
  moreover have "chain b (Some (int 0)) (map int [0..<Suc n])"
    by (rule chain_start [where N = N]) (auto simp: b_def N simp del: upt_Suc replicate_Suc)
  moreover have "object_at \<lparr>pool = b, free_list = Some 0, allocated_count = 0\<rparr> = Map.empty"
  proof (rule ext)
    fix p
    have len: "length b = N" by (simp add: b_def N)
    have "b ! j \<noteq> Storage x" if "j < N" for j x
      using that by (auto simp: b_def N nth_list_update simp del: upt_Suc replicate_Suc)
    then show "object_at \<lparr>pool = b, free_list = Some 0, allocated_count = 0\<rparr> p = None"
      using len by (auto simp: object_at_def block_deref_def vget_def nat_less_iff split: block.splits)
  qed
  moreover have "set (map int [0..<N]) = {0..<int N}"
    by (simp add: image_int_atLeastLessThan)
  moreover have "length b = N" by (simp add: b_def N)
  ultimately have "pool_rel N (map int [0..<N], Map.empty) \<lparr>pool = b, free_list = Some 0, allocated_count = 0\<rparr>"
    by (simp add: pool_rel_def distinct_map flip: N)
  then show ?thesis using \<open>MemoryPool N = _\<close> by blast
qed

lemma pool_rel_counts:
  assumes "pool_rel N sp s" "int N < SIZE_T"
  shows "(allocated s, available N s) = counts N sp"
proof -
  have "card (dom (snd sp)) \<le> card {0..<int N}"
    using assms by (intro card_mono) (auto simp: pool_rel_def)
  then show ?thesis
    using assms by (simp add: pool_rel_def counts_def allocated_def available_def)
qed

lemma pool_rel_new:
  assumes rel: "pool_rel N (free, live) s" and N: "int N < SIZE_T"
  shows "\<exists>s' p sp'. allocate s x = Some (p, s') \<and> spec_op (New x) (free, live) = Some (p, sp') \<and> pool_rel N sp' s'"
proof (cases free)
  case Nil
  then show ?thesis using rel by (auto simp: allocate_def pool_rel_def)
next
  case (Cons p free')
  then have "chain (pool s) (free_list s) (p # free')" and len: "length (pool s) = N"
    and "distinct (p # free')" and free: "set free = {0..<int N} - dom live"
    using rel by (simp_all add: pool_rel_def)
  then obtain n where p: "free_list s = Some p" "0 \<le> p" "p < int N" "pool s ! nat p = Next n" "chain (pool s) n free'"
    by auto
  have "p \<in> set free" by (simp add: Cons)
  then have fresh: "p \<notin> set free'" "p \<notin> dom live" "set free = {0..<int N} - dom live"
    using \<open>distinct (p # free')\<close> free by auto
  have fin: "finite (dom live)" and sub: "dom live \<subseteq> {0..<int N}"
    using rel by (auto simp: pool_rel_def intro: finite_subset)
  have "card (insert p (dom live)) \<le> card {0..<int N}"
    using p sub by (intro card_mono) auto
  then have small: "int (card (dom live)) + 1 < SIZE_T" using N fin fresh by simp
  let ?s = "s\<lparr>pool := (pool s)[nat p := Storage x], free_list := n, allocated_count := (allocated_count s + 1) mod SIZE_T\<rparr>"
  have "chain ((pool s)[nat p := Storage x]) n free'"
    using p fresh by (simp add: chain_frame)
  moreover have "object_at ?s = live(p \<mapsto> x)"
    using rel p len by (simp add: object_at_store pool_rel_def)
  moreover have "set free' = {0..<int N} - dom (live(p \<mapsto> x))" "dom (live(p \<mapsto> x)) \<subseteq> {0..<int N}"
    using fresh sub p Cons by auto
  moreover have "(allocated_count s + 1) mod SIZE_T = int (card (dom (live(p \<mapsto> x))))"
    using rel small fin fresh by (simp add: pool_rel_def)
  ultimately have "pool_rel N (free', live(p \<mapsto> x)) ?s"
    using rel Cons len by (simp add: pool_rel_def)
  moreover have "allocate s x = Some (Some p, ?s)"
    using p len by (simp add: allocate_def block_next_of_def ub_simps)
  ultimately show ?thesis using Cons by auto
qed

lemma pool_rel_delete:
  assumes rel: "pool_rel N (free, live) s" and N: "int N < SIZE_T"
  shows "case spec_op (Delete p) (free, live) of None \<Rightarrow> deallocate s p = None
    | Some (q, sp') \<Rightarrow> q = None \<and> (\<exists>s'. deallocate s p = Some s' \<and> pool_rel N sp' s')"
proof (cases p)
  case None
  then show ?thesis using rel by (simp add: deallocate_def)
next
  case (Some i)
  show ?thesis
  proof (cases "i \<in> dom live")
    case False
    then have "block_deref s i = None" using rel by (simp add: pool_rel_def flip: object_at_def) blast
    then show ?thesis using Some False by (simp add: deallocate_def)
  next
    case True
    then obtain x where x: "block_deref s i = Some x" using rel by (auto simp: pool_rel_def simp flip: object_at_def)
    have i: "0 \<le> i" "i < int N" and fin: "finite (dom live)" and len: "length (pool s) = N"
      using rel True by (auto simp: pool_rel_def intro: finite_subset)
    have "card (dom live) \<le> card {0..<int N}"
      using rel by (intro card_mono) (auto simp: pool_rel_def)
    moreover have "0 < card (dom live)" using True fin by (auto simp: card_gt_0_iff)
    ultimately have small: "int (card (dom live)) < SIZE_T" "0 < int (card (dom live))" using N by auto
    let ?s = "s\<lparr>pool := (pool s)[nat i := Next (free_list s)], free_list := Some i,
        allocated_count := (allocated_count s - 1) mod SIZE_T\<rparr>"
    have "int (card (dom live - {i})) = (int (card (dom live)) - 1) mod SIZE_T"
      using True fin small by (simp add: card_Diff_singleton of_nat_diff)
    moreover have "i \<notin> set free" using rel True by (auto simp: pool_rel_def)
    ultimately have "pool_rel N (i # free, live(i := None)) ?s"
      using rel i len by (auto simp: pool_rel_def chain_frame object_at_free)
    moreover have "deallocate s p = Some ?s"
      using Some x i len by (simp add: deallocate_def ub_simps)
    ultimately show ?thesis using Some True by simp
  qed
qed

lemma pool_run_rel:
  assumes "int N < SIZE_T"
  shows "pool_rel N sp s \<Longrightarrow> case spec_run N ops sp of None \<Rightarrow> pool_run N ops s = None
    | Some (outs, sp') \<Rightarrow> \<exists>s'. pool_run N ops s = Some (outs, s') \<and> pool_rel N sp' s'"
proof (induction ops arbitrary: sp s)
  case (Cons x ops)
  obtain free live where sp: "sp = (free, live)" by (cases sp)
  have step: "case spec_op x sp of None \<Rightarrow> pool_op N x s = None
    | Some (p, sp') \<Rightarrow> \<exists>s'. pool_op N x s = Some ((p, counts N sp'), s') \<and> pool_rel N sp' s'"
  proof (cases x)
    case (New y)
    then show ?thesis
      using pool_rel_new [OF Cons.prems [unfolded sp] assms, of y] pool_rel_counts [OF _ assms] sp by fastforce
  next
    case (Delete p)
    then show ?thesis
      using pool_rel_delete [OF Cons.prems [unfolded sp] assms, of p] pool_rel_counts [OF _ assms] sp
      by (fastforce split: option.splits)
  qed
  show ?case
  proof (cases "spec_op x sp")
    case None
    then show ?thesis using step by simp
  next
    case (Some r)
    then obtain p sp' s' where r: "r = (p, sp')" "pool_op N x s = Some ((p, counts N sp'), s')" "pool_rel N sp' s'"
      using step by (cases r) auto
    then show ?thesis using Cons.IH [OF r(3)] Some by (auto split: option.splits)
  qed
qed simp

text \<open>
  C12: After any sequence of allocations and deallocations the pool has answered as a stack of free
  blocks does: allocate returns the block freed last, or null exactly when all are in use,
  deallocating a pointer that holds no live object is undefined, the counts are those of the live
  objects, and every live object is intact in a block that is not free.
\<close>
theorem memory_pool_refines:
  assumes "0 < N" "int N < SIZE_T"
  shows "\<exists>s0. MemoryPool N = Some s0 \<and>
    (case spec_run N ops (map int [0..<N], Map.empty) of
       None \<Rightarrow> pool_run N ops s0 = None
     | Some (outs, free, live) \<Rightarrow> \<exists>s. pool_run N ops s0 = Some (outs, s) \<and> object_at s = live \<and>
         distinct free \<and> set free = {0..<int N} - dom live)"
proof -
  obtain s0 :: "'a memory_pool" where s0: "MemoryPool N = Some s0" "pool_rel N (map int [0..<N], Map.empty) s0"
    using pool_rel_start [OF assms] by blast
  show ?thesis
    using pool_run_rel [OF assms(2) s0(2), of ops] s0(1)
    by (auto simp: pool_rel_def split: option.splits)
qed

lemma memory_pool_refines_witness:
  "\<exists>s0. MemoryPool 2 = Some s0 \<and>
    (case spec_run 2 [New (1::int), New 2, Delete (Some 0), New 3, New 4] (map int [0..<2], Map.empty) of
       None \<Rightarrow> pool_run 2 [New (1::int), New 2, Delete (Some 0), New 3, New 4] s0 = None
     | Some (outs, free, live) \<Rightarrow> \<exists>s. pool_run 2 [New (1::int), New 2, Delete (Some 0), New 3, New 4] s0 = Some (outs, s) \<and>
         object_at s = live \<and> distinct free \<and> set free = {0..<int 2} - dom live)"
  by (rule memory_pool_refines) (simp_all add: SIZE_T_def)

end
