(* ===== verification/Solid_Principles.thy ===== *)
theory Solid_Principles
  imports Prelude Complex_Main "HOL-Library.Sublist"
begin

text \<open>
  src/src/solid/solid_principles.cpp: the five namespaces with their classes and demonstrate
  functions. A class hierarchy is a datatype with a constructor per concrete class, its virtual
  functions are functions by cases; std::hash is a parameter; the areas are real numbers. The
  fixed strings that only comment on the demonstration are left out.
\<close>

section \<open>SRP: authentication and persistence\<close>

record user =
  name :: string
  passwordHash :: string

definition authenticate :: "string \<Rightarrow> string \<Rightarrow> bool" where
  "authenticate user pass \<longleftrightarrow> user = ''admin'' \<and> pass = ''secret''"

definition hashPassword :: "(string \<Rightarrow> nat) \<Rightarrow> string \<Rightarrow> string" where
  "hashPassword hash pass = show_nat (hash pass)"

definition solid_save :: "user list \<Rightarrow> user \<Rightarrow> user list" where
  "solid_save store u = store @ [u]"

text \<open>The pointer that findByName returns is the index of the user in the vector.\<close>

fun find_from :: "nat \<Rightarrow> user list \<Rightarrow> string \<Rightarrow> nat option" where
  "find_from i [] n = None"
| "find_from i (u # us) n = (if name u = n then Some i else find_from (Suc i) us n)"

definition findByName :: "user list \<Rightarrow> string \<Rightarrow> nat option" where
  "findByName store n = find_from 0 store n"

definition user_count :: "user list \<Rightarrow> nat" where
  "user_count store = length store"

definition srp_demonstrate :: "(string \<Rightarrow> nat) \<Rightarrow> user list ub" where
  "srp_demonstrate hash = do {
     _ \<leftarrow> guard (authenticate ''admin'' ''secret'');
     _ \<leftarrow> guard (\<not> authenticate ''admin'' ''wrong'');
     let repo = solid_save (solid_save [] \<lparr>name = ''Alice'', passwordHash = hashPassword hash ''pass123''\<rparr>)
       \<lparr>name = ''Bob'', passwordHash = hashPassword hash ''pass456''\<rparr>;
     _ \<leftarrow> guard (user_count repo = 2);
     _ \<leftarrow> guard (findByName repo ''Alice'' \<noteq> None);
     Some repo }"

section \<open>OCP: shapes\<close>

datatype shape = Circle real | Rectangle real real | Triangle real real

fun area :: "shape \<Rightarrow> real" where
  "area (Circle r) = pi * r * r"
| "area (Rectangle w h) = w * h"
| "area (Triangle b h) = 1 / 2 * b * h"

fun shape_name :: "shape \<Rightarrow> string" where
  "shape_name (Circle r) = ''Circle''"
| "shape_name (Rectangle w h) = ''Rectangle''"
| "shape_name (Triangle b h) = ''Triangle''"

definition totalArea :: "shape list \<Rightarrow> real" where
  "totalArea shapes = foldl (\<lambda>sum s. sum + area s) 0 shapes"

definition ocp_demonstrate :: "real ub" where
  "ocp_demonstrate = do {
     let shapes = [Circle 5, Rectangle 3 4, Triangle 6 3];
     let total' = totalArea shapes;
     _ \<leftarrow> guard (total' > 90);
     Some total' }"

section \<open>LSP: birds\<close>

datatype bird = Sparrow | Eagle | Penguin

fun bird_name :: "bird \<Rightarrow> string" where
  "bird_name Sparrow = ''Sparrow''"
| "bird_name Eagle = ''Eagle''"
| "bird_name Penguin = ''Penguin''"

fun move :: "bird \<Rightarrow> string" where
  "move Penguin = ''swimming''"
| "move _ = ''flying''"

definition describeBird :: "bird \<Rightarrow> string" where
  "describeBird b = ''  '' @ bird_name b @ '' moves by '' @ move b"

definition lsp_demonstrate :: "string list ub" where
  "lsp_demonstrate = do {
     let out = [describeBird Sparrow, describeBird Eagle, describeBird Penguin];
     _ \<leftarrow> guard (move Sparrow = ''flying'');
     _ \<leftarrow> guard (move Penguin = ''swimming'');
     Some out }"

section \<open>ISP: workers\<close>

datatype workable = Human string | Robot string

text \<open>Only a Human is an IEatable and an ISleepable, so these take its name.\<close>

fun workable_work :: "workable \<Rightarrow> string" where
  "workable_work (Human n) = n @ '' writes code''"
| "workable_work (Robot i) = i @ '' assembles parts 24/7''"

definition eat :: "string \<Rightarrow> string" where
  "eat n = n @ '' eats lunch''"

definition sleep :: "string \<Rightarrow> string" where
  "sleep n = n @ '' sleeps 8h''"

definition assignTask :: "workable \<Rightarrow> string" where
  "assignTask worker = ''  Task: '' @ workable_work worker"

definition scheduleLunch :: "string \<Rightarrow> string" where
  "scheduleLunch eater = ''  Lunch: '' @ eat eater"

text \<open>std::string::find finds something.\<close>

definition contains :: "string \<Rightarrow> string \<Rightarrow> bool" where
  "contains s pattern = list_ex (\<lambda>t. take (length pattern) t = pattern) (suffixes s)"

definition isp_demonstrate :: "string list ub" where
  "isp_demonstrate = do {
     let out = [assignTask (Human ''Alice''), assignTask (Robot ''R2D2''), scheduleLunch ''Alice''];
     _ \<leftarrow> guard (contains (workable_work (Human ''Alice'')) ''code'');
     _ \<leftarrow> guard (contains (workable_work (Robot ''R2D2'')) ''24/7'');
     Some out }"

section \<open>DIP: notifications\<close>

datatype message_sender = SmtpSender | SmsSender | PushSender

fun type_of :: "message_sender \<Rightarrow> string" where
  "type_of SmtpSender = ''SMTP''"
| "type_of SmsSender = ''SMS''"
| "type_of PushSender = ''Push''"

fun send :: "message_sender \<Rightarrow> string \<Rightarrow> string \<Rightarrow> string \<times> bool" where
  "send SmtpSender to msg = (''  [SMTP] To: '' @ to @ '' - '' @ msg, True)"
| "send SmsSender to msg = (''  [SMS] To: '' @ to @ '' - '' @ msg, True)"
| "send PushSender to msg = (''  [Push] To: '' @ to @ '' - '' @ msg, True)"

definition addSender :: "message_sender list \<Rightarrow> message_sender \<Rightarrow> message_sender list" where
  "addSender senders s = senders @ [s]"

fun notify_loop :: "message_sender list \<Rightarrow> string \<Rightarrow> string \<Rightarrow> int \<Rightarrow> string list \<Rightarrow> (int \<times> string list) ub" where
  "notify_loop [] to msg sent out = Some (sent, out)"
| "notify_loop (s # ss) to msg sent out = (let (line, ok) = send s to msg in do {
     sent' \<leftarrow> (if ok then chk (sent + 1) else Some sent);
     notify_loop ss to msg sent' (out @ [line]) })"

definition notifyAll :: "message_sender list \<Rightarrow> string \<Rightarrow> string \<Rightarrow> (int \<times> string list) ub" where
  "notifyAll senders to msg = notify_loop senders to msg 0 []"

definition dip_demonstrate :: "string list ub" where
  "dip_demonstrate = do {
     let service = addSender (addSender (addSender [] SmtpSender) SmsSender) PushSender;
     (cnt, out) \<leftarrow> notifyAll service ''user@example.com'' ''Order shipped!'';
     _ \<leftarrow> guard (cnt = 3);
     Some out }"

definition solid_main :: "(string \<Rightarrow> nat) \<Rightarrow> (user list \<times> real \<times> string list) ub" where
  "solid_main hash = do {
     users \<leftarrow> srp_demonstrate hash;
     total' \<leftarrow> ocp_demonstrate;
     birds \<leftarrow> lsp_demonstrate;
     workers \<leftarrow> isp_demonstrate;
     sent \<leftarrow> dip_demonstrate;
     Some (users, total', birds @ workers @ sent) }"

section \<open>Lemmas\<close>

lemma srp_demonstrate_ok:
  "srp_demonstrate hash = Some [\<lparr>name = ''Alice'', passwordHash = show_nat (hash ''pass123'')\<rparr>,
     \<lparr>name = ''Bob'', passwordHash = show_nat (hash ''pass456'')\<rparr>]"
  by (simp add: srp_demonstrate_def authenticate_def solid_save_def user_count_def findByName_def hashPassword_def)

lemma pi_ge_3: "3 \<le> pi"
  using sin_x_le_x [of "pi / 6"] by (simp add: sin_30)

lemma ocp_demonstrate_ok: "ocp_demonstrate = Some (25 * pi + 21)"
proof -
  have "total' = 25 * pi + 21 \<Longrightarrow> total' > 90" for total' using pi_ge_3 by simp
  moreover have "totalArea [Circle 5, Rectangle 3 4, Triangle 6 3] = 25 * pi + 21"
    by (simp add: totalArea_def)
  ultimately show ?thesis by (simp add: ocp_demonstrate_def)
qed

lemma lsp_isp_dip_output:
  "lsp_demonstrate = Some [''  Sparrow moves by flying'', ''  Eagle moves by flying'', ''  Penguin moves by swimming'']"
  "isp_demonstrate = Some [''  Task: Alice writes code'', ''  Task: R2D2 assembles parts 24/7'', ''  Lunch: Alice eats lunch'']"
  "dip_demonstrate = Some [''  [SMTP] To: user@example.com - Order shipped!'',
     ''  [SMS] To: user@example.com - Order shipped!'', ''  [Push] To: user@example.com - Order shipped!'']"
  by code_simp+

lemma solid_main_ok: "solid_main hash \<noteq> None"
  by (simp add: solid_main_def srp_demonstrate_ok ocp_demonstrate_ok lsp_isp_dip_output)

lemma totalArea_append: "totalArea (xs @ ys) = totalArea xs + totalArea ys"
proof -
  have "foldl (\<lambda>sum s. sum + area s) a zs = a + sum_list (map area zs)" for a zs
    by (induction zs arbitrary: a) auto
  then show ?thesis by (simp add: totalArea_def)
qed

lemma find_from_first:
  "find_from i us n = Some j \<longleftrightarrow> (\<exists>k < length us. j = i + k \<and> name (us ! k) = n \<and> (\<forall>m < k. name (us ! m) \<noteq> n))"
proof (induction us arbitrary: i)
  case (Cons u us)
  show ?case
  proof (cases "name u = n")
    case True
    then show ?thesis by (auto intro: exI [of _ 0] dest: spec [of _ 0])
  next
    case False
    then show ?thesis using Cons.IH [of "Suc i"] by (auto simp: Ex_less_Suc2 All_less_Suc2)
  qed
qed simp

lemma findByName_first:
  "findByName store n = Some j \<longleftrightarrow> j < length store \<and> name (store ! j) = n \<and> (\<forall>m < j. name (store ! m) \<noteq> n)"
  by (auto simp: findByName_def find_from_first)

lemma notify_loop_all:
  "0 \<le> sent \<Longrightarrow> sent + int (length ss) \<le> INT_MAX \<Longrightarrow>
   notify_loop ss to msg sent out = Some (sent + int (length ss), out @ map (\<lambda>s. fst (send s to msg)) ss)"
proof (induction ss arbitrary: sent out)
  case (Cons s ss)
  have "snd (send s to msg)" by (cases s) auto
  then show ?case using Cons by (auto simp: ub_simps split: prod.splits)
qed simp

lemma notifyAll_reaches_all:
  "int (length senders) \<le> INT_MAX \<Longrightarrow>
   notifyAll senders to msg = Some (int (length senders), map (\<lambda>s. fst (send s to msg)) senders)"
  by (simp add: notifyAll_def notify_loop_all)

end
