(* ===== verification/Thread_Safe_Queue.thy ===== *)
theory Thread_Safe_Queue
  imports Prelude
begin

text \<open>
  src/src/stl_like/thread_safe_queue.cpp: the closable queue with a mutex and a condition variable,
  and the threads of main. A step is what one thread does while it holds the mutex, or one
  notification, which push and close issue after they have released it. A thread blocked in
  cv_.wait is Waiting until a notification picks it; a wakeup without one (spurious) is a step of
  its own kind. An exception that leaves a thread ends the program (None).
\<close>

section \<open>The queue\<close>

datatype queue_error = push_on_closed_queue

record 'a ts_queue =
  queue :: "'a list"
  closed :: bool

definition new_queue :: "'a ts_queue" where
  "new_queue = \<lparr>queue = [], closed = False\<rparr>"

definition ts_push :: "'a ts_queue \<Rightarrow> 'a \<Rightarrow> queue_error + 'a ts_queue" where
  "ts_push q item = (if closed q then Inl push_on_closed_queue else Inr (q\<lparr>queue := queue q @ [item]\<rparr>))"

text \<open>What pop does when it evaluates its predicate under the lock.\<close>

datatype 'a pop_result = Block | Return "'a option"

definition ts_pop :: "'a ts_queue \<Rightarrow> 'a pop_result \<times> 'a ts_queue" where
  "ts_pop q = (if queue q = [] \<and> \<not> closed q then (Block, q)
     else case queue q of [] \<Rightarrow> (Return None, q) | item # rest \<Rightarrow> (Return (Some item), q\<lparr>queue := rest\<rparr>))"

definition try_pop :: "'a ts_queue \<Rightarrow> 'a option \<times> 'a ts_queue" where
  "try_pop q = (case queue q of [] \<Rightarrow> (None, q) | item # rest \<Rightarrow> (Some item, q\<lparr>queue := rest\<rparr>))"

definition close :: "'a ts_queue \<Rightarrow> 'a ts_queue" where
  "close q = q\<lparr>closed := True\<rparr>"

definition queue_size :: "'a ts_queue \<Rightarrow> nat" where
  "queue_size q = length (queue q)"

definition queue_empty :: "'a ts_queue \<Rightarrow> bool" where
  "queue_empty q \<longleftrightarrow> queue q = []"

definition try_pop_main :: "string list ub" where
  "try_pop_main = (case ts_push new_queue ''hello'' of
     Inl _ \<Rightarrow> None
   | Inr sq \<Rightarrow> (let (val, sq') = try_pop sq in do {
       _ \<leftarrow> guard (val = Some ''hello'');
       _ \<leftarrow> guard (fst (try_pop sq') = None);
       Some (queue sq') }))"

lemma try_pop_main_output: "try_pop_main = Some []"
  by code_simp

section \<open>The threads of main\<close>

datatype 'a producer = Pushing "'a list" | Notifying "'a list"

datatype consumer = Awake | Waiting | Counting | Finished

datatype closer = Joining | Notifying_All | Closed

text \<open>The ghost fields pushed and taken record which producer pushed what and what was popped.\<close>

record 'a system =
  the_queue :: "'a ts_queue"
  producers :: "'a producer list"
  consumers :: "consumer list"
  main_thread :: closer
  consumed :: int
  pushed :: "(nat \<times> 'a) list"
  taken :: "'a list"

definition start_system :: "'a list list \<Rightarrow> nat \<Rightarrow> 'a system" where
  "start_system items num_consumers =
     \<lparr>the_queue = new_queue, producers = map Pushing items, consumers = replicate num_consumers Awake,
      main_thread = Joining, consumed = 0, pushed = [], taken = []\<rparr>"

definition push_thread :: "nat \<Rightarrow> 'a \<Rightarrow> 'a list \<Rightarrow> 'a system \<Rightarrow> 'a system ub" where
  "push_thread i x xs s = (case ts_push (the_queue s) x of
     Inl _ \<Rightarrow> None
   | Inr q \<Rightarrow> Some (s\<lparr>the_queue := q, producers := (producers s)[i := Notifying xs], pushed := pushed s @ [(i, x)]\<rparr>))"

definition pop_thread :: "nat \<Rightarrow> 'a system \<Rightarrow> 'a system" where
  "pop_thread c s = (case ts_pop (the_queue s) of
     (Block, q) \<Rightarrow> s\<lparr>consumers := (consumers s)[c := Waiting]\<rparr>
   | (Return None, q) \<Rightarrow> s\<lparr>consumers := (consumers s)[c := Finished]\<rparr>
   | (Return (Some item), q) \<Rightarrow>
       s\<lparr>the_queue := q, consumers := (consumers s)[c := Counting], taken := taken s @ [item]\<rparr>)"

definition wake :: "consumer \<Rightarrow> consumer" where
  "wake c = (if c = Waiting then Awake else c)"

inductive ts_step :: "'a system \<Rightarrow> 'a system ub \<Rightarrow> bool" where
  ts_push: "i < length (producers s) \<Longrightarrow> producers s ! i = Pushing (x # xs) \<Longrightarrow> ts_step s (push_thread i x xs s)"
| notify_one: "i < length (producers s) \<Longrightarrow> producers s ! i = Notifying xs \<Longrightarrow>
    c < length (consumers s) \<Longrightarrow> consumers s ! c = Waiting \<Longrightarrow>
    ts_step s (Some (s\<lparr>producers := (producers s)[i := Pushing xs], consumers := (consumers s)[c := Awake]\<rparr>))"
| notify_none: "i < length (producers s) \<Longrightarrow> producers s ! i = Notifying xs \<Longrightarrow> Waiting \<notin> set (consumers s) \<Longrightarrow>
    ts_step s (Some (s\<lparr>producers := (producers s)[i := Pushing xs]\<rparr>))"
| ts_pop: "c < length (consumers s) \<Longrightarrow> consumers s ! c = Awake \<Longrightarrow> ts_step s (Some (pop_thread c s))"
| fetch_add: "c < length (consumers s) \<Longrightarrow> consumers s ! c = Counting \<Longrightarrow>
    ts_step s (Some (s\<lparr>consumers := (consumers s)[c := Awake], consumed := consumed s + 1\<rparr>))"
| close: "main_thread s = Joining \<Longrightarrow> set (producers s) \<subseteq> {Pushing []} \<Longrightarrow>
    ts_step s (Some (s\<lparr>the_queue := close (the_queue s), main_thread := Notifying_All\<rparr>))"
| notify_all: "main_thread s = Notifying_All \<Longrightarrow>
    ts_step s (Some (s\<lparr>consumers := map wake (consumers s), main_thread := Closed\<rparr>))"

inductive spurious_step :: "'a system \<Rightarrow> 'a system ub \<Rightarrow> bool" where
  spurious: "c < length (consumers s) \<Longrightarrow> consumers s ! c = Waiting \<Longrightarrow>
    spurious_step s (Some (s\<lparr>consumers := (consumers s)[c := Awake]\<rparr>))"

inductive ts_reach :: "'a list list \<Rightarrow> nat \<Rightarrow> 'a system ub \<Rightarrow> bool" for items n where
  start: "ts_reach items n (Some (start_system items n))"
| step: "ts_reach items n (Some s) \<Longrightarrow> ts_step s r \<or> spurious_step s r \<Longrightarrow> ts_reach items n r"

text \<open>main has joined all threads, and its assertion holds.\<close>

definition main_finished :: "'a list list \<Rightarrow> 'a system \<Rightarrow> bool" where
  "main_finished items s \<longleftrightarrow>
     set (producers s) \<subseteq> {Pushing []} \<and> main_thread s = Closed \<and> set (consumers s) \<subseteq> {Finished} \<and>
     consumed s = int (sum_list (map length items))"

section \<open>The invariant\<close>

fun todo :: "'a producer \<Rightarrow> 'a list" where
  "todo (Pushing xs) = xs"
| "todo (Notifying xs) = xs"

definition notify_pending :: "'a system \<Rightarrow> bool" where
  "notify_pending s \<longleftrightarrow> (\<exists>i < length (producers s). \<exists>xs. producers s ! i = Notifying xs)"

definition counting :: "consumer \<Rightarrow> nat" where
  "counting c = (if c = Counting then 1 else 0)"

definition ts_data :: "'a list list \<Rightarrow> 'a system \<Rightarrow> bool" where
  "ts_data items s \<longleftrightarrow>
     length (producers s) = length items \<and> taken s @ queue (the_queue s) = map snd (pushed s) \<and>
     set (map fst (pushed s)) \<subseteq> {..<length items} \<and>
     (\<forall>i < length items. map snd (filter (\<lambda>x. fst x = i) (pushed s)) @ todo (producers s ! i) = items ! i) \<and>
     length (taken s) = nat (consumed s) + sum_list (map counting (consumers s)) \<and> 0 \<le> consumed s"

definition ts_sync :: "nat \<Rightarrow> 'a system \<Rightarrow> bool" where
  "ts_sync n s \<longleftrightarrow>
     length (consumers s) = n \<and> (closed (the_queue s) \<longleftrightarrow> main_thread s \<noteq> Joining) \<and>
     (closed (the_queue s) \<longrightarrow> set (producers s) \<subseteq> {Pushing []}) \<and>
     (main_thread s = Closed \<longrightarrow> Waiting \<notin> set (consumers s)) \<and>
     (Finished \<in> set (consumers s) \<longrightarrow> closed (the_queue s) \<and> queue (the_queue s) = []) \<and>
     (Waiting \<in> set (consumers s) \<and> queue (the_queue s) \<noteq> [] \<longrightarrow>
        notify_pending s \<or> main_thread s = Notifying_All \<or> Awake \<in> set (consumers s) \<or> Counting \<in> set (consumers s))"

lemma ts_data_start: "ts_data items (start_system items n)"
  by (auto simp: ts_data_def start_system_def new_queue_def counting_def sum_list_replicate)

lemma ts_sync_start: "ts_sync n (start_system items n)"
  by (auto simp: ts_sync_def start_system_def new_queue_def)

lemma counting_wake [simp]: "counting (wake c) = counting c"
  by (simp add: counting_def wake_def)

lemma ts_data_consumers:
  assumes "ts_data items s" "c < length (consumers s)" "consumers s ! c \<noteq> Counting" "y \<noteq> Counting"
  shows "ts_data items (s\<lparr>consumers := (consumers s)[c := y]\<rparr>)"
  using assms sum_list_map_update [of c "consumers s" counting y] by (simp add: ts_data_def counting_def)

lemma ts_data_producer:
  assumes "ts_data items s" "i < length (producers s)" "todo (producers s ! i) = todo y"
  shows "ts_data items (s\<lparr>producers := (producers s)[i := y]\<rparr>)"
  using assms by (auto simp: ts_data_def nth_list_update)

lemma ts_data_push:
  assumes data: "ts_data items s" and i: "i < length (producers s)" and p: "producers s ! i = Pushing (x # xs)"
    and r: "push_thread i x xs s = Some s'"
  shows "ts_data items s'"
proof -
  have s': "s' = s\<lparr>the_queue := (the_queue s)\<lparr>queue := queue (the_queue s) @ [x]\<rparr>,
      producers := (producers s)[i := Notifying xs], pushed := pushed s @ [(i, x)]\<rparr>"
    using r by (auto simp: push_thread_def ts_push_def split: if_splits)
  have "map snd (filter (\<lambda>y. fst y = i) (pushed s)) @ todo (producers s ! i) = items ! i"
    using data i by (simp add: ts_data_def)
  then have "map snd (filter (\<lambda>y. fst y = i) (pushed s)) @ x # xs = items ! i"
    by (simp add: p)
  then have "\<forall>j < length items. map snd (filter (\<lambda>y. fst y = j) (pushed s @ [(i, x)])) @
      todo ((producers s)[i := Notifying xs] ! j) = items ! j"
    using data i by (auto simp: ts_data_def nth_list_update)
  then show ?thesis
    using data i by (simp add: ts_data_def s' del: filter_append)
qed

lemma ts_data_pop:
  assumes data: "ts_data items s" and c: "c < length (consumers s)" "consumers s ! c = Awake"
  shows "ts_data items (pop_thread c s)"
proof (cases "queue (the_queue s)")
  case Nil
  then show ?thesis
    using ts_data_consumers [OF data c(1)] c(2) by (simp add: pop_thread_def ts_pop_def)
next
  case (Cons x q)
  then show ?thesis
    using data c sum_list_map_update [of c "consumers s" counting Counting]
    by (simp add: ts_data_def pop_thread_def ts_pop_def counting_def)
qed

lemma ts_data_count:
  assumes data: "ts_data items s" and c: "c < length (consumers s)" "consumers s ! c = Counting"
  shows "ts_data items (s\<lparr>consumers := (consumers s)[c := Awake], consumed := consumed s + 1\<rparr>)"
  using data c sum_list_map_update [of c "consumers s" counting Awake]
  by (simp add: ts_data_def counting_def nat_add_distrib)

lemma closed_no_producer:
  "ts_sync n s \<Longrightarrow> i < length (producers s) \<Longrightarrow> producers s ! i \<noteq> Pushing [] \<Longrightarrow> \<not> closed (the_queue s)"
  unfolding ts_sync_def by (metis nth_mem singletonD subsetD)

lemma set_update_iff:
  "c < length xs \<Longrightarrow> y \<in> set (xs[c := z]) \<longleftrightarrow> y = z \<or> (\<exists>j < length xs. j \<noteq> c \<and> xs ! j = y)"
  by (auto simp: set_conv_nth nth_list_update)

lemma ts_sync_push:
  assumes sync: "ts_sync n s" and i: "i < length (producers s)" and p: "producers s ! i = Pushing (x # xs)"
  shows "\<exists>s'. push_thread i x xs s = Some s' \<and> ts_sync n s'"
proof -
  have open': "\<not> closed (the_queue s)" using closed_no_producer [OF sync i] p by simp
  then have "Finished \<notin> set (consumers s)" using sync by (auto simp: ts_sync_def)
  moreover have "\<exists>j < length (producers s). \<exists>ys. (producers s)[i := Notifying xs] ! j = Notifying ys"
    using i by (auto intro!: exI [of _ i])
  ultimately show ?thesis
    using sync open' i by (auto simp: push_thread_def ts_push_def ts_sync_def notify_pending_def)
qed

lemma ts_sync_notify_one:
  assumes sync: "ts_sync n s" and i: "i < length (producers s)" "producers s ! i = Notifying xs"
    and c: "c < length (consumers s)" "consumers s ! c = Waiting"
  shows "ts_sync n (s\<lparr>producers := (producers s)[i := Pushing xs], consumers := (consumers s)[c := Awake]\<rparr>)"
proof -
  have "\<not> closed (the_queue s)" using closed_no_producer [OF sync i(1)] i by simp
  moreover have "Awake \<in> set ((consumers s)[c := Awake])" using c by (simp add: set_update_iff)
  ultimately show ?thesis using sync by (auto simp: ts_sync_def dest!: in_update)
qed

lemma ts_sync_notify_none:
  assumes sync: "ts_sync n s" and i: "i < length (producers s)" "producers s ! i = Notifying xs"
    and "Waiting \<notin> set (consumers s)"
  shows "ts_sync n (s\<lparr>producers := (producers s)[i := Pushing xs]\<rparr>)"
proof -
  have "\<not> closed (the_queue s)" using closed_no_producer [OF sync i(1)] i by simp
  then show ?thesis using sync assms(4) by (auto simp: ts_sync_def)
qed

lemma ts_sync_pop:
  assumes sync: "ts_sync n s" and c: "c < length (consumers s)" "consumers s ! c = Awake"
  shows "ts_sync n (pop_thread c s)"
proof (cases "queue (the_queue s)")
  case Nil
  show ?thesis
  proof (cases "closed (the_queue s)")
    case True
    then show ?thesis using sync Nil c
      by (auto simp: ts_sync_def pop_thread_def ts_pop_def notify_pending_def dest!: in_update)
  next
    case False
    then have "main_thread s = Joining" using sync by (simp add: ts_sync_def)
    then show ?thesis using sync Nil False c
      by (auto simp: ts_sync_def pop_thread_def ts_pop_def dest!: in_update)
  qed
next
  case (Cons x q)
  have "Counting \<in> set ((consumers s)[c := Counting])" using c by (simp add: set_update_iff)
  then show ?thesis using sync Cons
    by (auto simp: ts_sync_def pop_thread_def ts_pop_def notify_pending_def dest!: in_update)
qed

lemma ts_sync_awake:
  assumes sync: "ts_sync n s" and c: "c < length (consumers s)"
  shows "ts_sync n (s\<lparr>consumers := (consumers s)[c := Awake]\<rparr>)"
proof -
  have "Awake \<in> set ((consumers s)[c := Awake])" using c by (simp add: set_update_iff)
  then show ?thesis using sync by (auto simp: ts_sync_def dest!: in_update)
qed

lemma ts_sync_consumed: "ts_sync n (s\<lparr>consumed := k\<rparr>) = ts_sync n s"
  by (simp add: ts_sync_def notify_pending_def)

lemma wake_Waiting: "Waiting \<notin> wake ` A" "Finished \<in> wake ` A \<longleftrightarrow> Finished \<in> A"
  by (auto simp: wake_def image_iff)

lemma ts_step_inv:
  assumes "ts_step s r" "ts_data items s" "ts_sync n s"
  shows "\<exists>s'. r = Some s' \<and> ts_data items s' \<and> ts_sync n s'"
  using assms
proof (cases rule: ts_step.cases)
  case (ts_push i x xs)
  then show ?thesis using ts_sync_push [OF assms(3)] ts_data_push [OF assms(2)] by blast
next
  case (notify_one i xs c)
  have "ts_data items (s\<lparr>producers := (producers s)[i := Pushing xs]\<rparr>)"
    using notify_one by (intro ts_data_producer [OF assms(2)]) auto
  from ts_data_consumers [OF this, of c Awake]
  show ?thesis using notify_one ts_sync_notify_one [OF assms(3) notify_one(2-5)] by auto
next
  case (notify_none i xs)
  then show ?thesis using ts_sync_notify_none [OF assms(3)] ts_data_producer [OF assms(2), of i "Pushing xs"] by auto
next
  case (ts_pop c)
  then show ?thesis using ts_sync_pop [OF assms(3)] ts_data_pop [OF assms(2)] by blast
next
  case (fetch_add c)
  have "ts_sync n (s\<lparr>consumers := (consumers s)[c := Awake]\<rparr>)" using ts_sync_awake [OF assms(3)] fetch_add by blast
  then have "ts_sync n ((s\<lparr>consumers := (consumers s)[c := Awake]\<rparr>)\<lparr>consumed := consumed s + 1\<rparr>)"
    by (simp only: ts_sync_consumed)
  then show ?thesis using fetch_add ts_data_count [OF assms(2)] by auto
next
  case close
  then show ?thesis using assms(2,3) by (auto simp: ts_data_def ts_sync_def close_def notify_pending_def)
next
  case notify_all
  then show ?thesis using assms(2,3)
    by (auto simp: ts_data_def ts_sync_def notify_pending_def wake_Waiting comp_def)
qed

lemma ts_reach_inv:
  assumes "ts_reach items n r"
  shows "\<exists>s. r = Some s \<and> ts_data items s \<and> ts_sync n s"
  using assms
proof (induction rule: ts_reach.induct)
  case start
  then show ?case using ts_data_start ts_sync_start by blast
next
  case (step s r)
  then have inv: "ts_data items s" "ts_sync n s" by auto
  from step.hyps(2) show ?case
  proof
    assume "ts_step s r"
    then show ?thesis using ts_step_inv inv by blast
  next
    assume "spurious_step s r"
    then show ?thesis
      by (cases rule: spurious_step.cases) (use ts_sync_awake [OF inv(2)] ts_data_consumers [OF inv(1)] in auto)
  qed
qed

text \<open>
  C17: No interleaving of the threads of main makes push throw; what has been popped followed by
  what is queued is what has been pushed, in that order, and each producer's items are pushed in its order.
\<close>
theorem ts_queue_fifo:
  assumes "ts_reach items n r"
  shows "\<exists>s. r = Some s \<and> taken s @ queue (the_queue s) = map snd (pushed s) \<and>
    set (map fst (pushed s)) \<subseteq> {..<length items} \<and>
    map (\<lambda>i. map snd (filter (\<lambda>x. fst x = i) (pushed s)) @ todo (producers s ! i)) [0..<length items] = items"
  using ts_reach_inv [OF assms] unfolding ts_data_def by (blast intro: map_upt_nth_eq)

lemma ts_queue_fifo_witness:
  "\<exists>s. push_thread 0 (5::nat) [6] (start_system [[5, 6], [7]] 1) = Some s \<and>
    taken s @ queue (the_queue s) = map snd (pushed s) \<and>
    set (map fst (pushed s)) \<subseteq> {..<length [[5, 6], [7::nat]]} \<and>
    map (\<lambda>i. map snd (filter (\<lambda>x. fst x = i) (pushed s)) @ todo (producers s ! i)) [0..<length [[5, 6], [7::nat]]] =
      [[5, 6], [7]]"
  by (rule ts_queue_fifo [OF ts_reach.step [OF ts_reach.start disjI1 [OF ts_step.ts_push]]])
    (simp_all add: start_system_def)

section \<open>Every run ends\<close>

fun producer_weight :: "'a producer \<Rightarrow> nat" where
  "producer_weight (Pushing xs) = 5 * length xs"
| "producer_weight (Notifying xs) = 5 * length xs + 2"

fun consumer_weight :: "consumer \<Rightarrow> nat" where
  "consumer_weight Counting = 2"
| "consumer_weight Awake = 1"
| "consumer_weight _ = 0"

fun closer_weight :: "closer \<Rightarrow> nat \<Rightarrow> nat" where
  "closer_weight Joining m = m + 2"
| "closer_weight Notifying_All m = m + 1"
| "closer_weight Closed m = 0"

definition work_left :: "'a system \<Rightarrow> nat" where
  "work_left s = sum_list (map producer_weight (producers s)) + sum_list (map consumer_weight (consumers s)) +
     2 * length (queue (the_queue s)) + closer_weight (main_thread s) (length (consumers s))"

lemma consumer_weight_wake:
  "sum_list (map (consumer_weight \<circ> wake) cs) \<le> sum_list (map consumer_weight cs) + length cs"
proof (induction cs)
  case (Cons c cs)
  then show ?case by (cases c) (auto simp: wake_def)
qed simp

lemma ts_step_work:
  assumes "ts_step s (Some s')"
  shows "work_left s' < work_left s"
  using assms
proof (cases rule: ts_step.cases)
  case (ts_push i x xs)
  then show ?thesis using sum_list_map_update [of i "producers s" producer_weight "Notifying xs"]
    by (auto simp: push_thread_def ts_push_def work_left_def split: if_splits)
next
  case (notify_one i xs c)
  then show ?thesis
    using sum_list_map_update [of i "producers s" producer_weight "Pushing xs"]
      sum_list_map_update [of c "consumers s" consumer_weight Awake] by (simp add: work_left_def)
next
  case (notify_none i xs)
  then show ?thesis
    using sum_list_map_update [of i "producers s" producer_weight "Pushing xs"] by (simp add: work_left_def)
next
  case (ts_pop c)
  then show ?thesis
    using sum_list_map_update [of c "consumers s" consumer_weight Waiting]
      sum_list_map_update [of c "consumers s" consumer_weight Finished]
      sum_list_map_update [of c "consumers s" consumer_weight Counting]
    by (auto simp: pop_thread_def ts_pop_def work_left_def split: list.splits)
next
  case (fetch_add c)
  then show ?thesis
    using sum_list_map_update [of c "consumers s" consumer_weight Awake] by (simp add: work_left_def)
next
  case close
  then show ?thesis by (simp add: work_left_def Thread_Safe_Queue.close_def)
next
  case notify_all
  then show ?thesis using consumer_weight_wake [of "consumers s"] by (simp add: work_left_def)
qed

lemma all_pushed:
  assumes data: "ts_data items s" and none: "set (producers s) \<subseteq> {Pushing []}"
  shows "length (pushed s) = sum_list (map length items)"
proof -
  have "map snd (filter (\<lambda>x. fst x = i) (pushed s)) = items ! i" if "i < length items" for i
  proof -
    have "producers s ! i \<in> set (producers s)" using data that by (auto simp: ts_data_def)
    then have "producers s ! i = Pushing []" using none by blast
    then have "todo (producers s ! i) = []" by simp
    then show ?thesis using data that unfolding ts_data_def by (metis append_Nil2)
  qed
  then show ?thesis using by_key_length [of "pushed s" items] data by (simp add: ts_data_def)
qed

lemma stuck_finished:
  assumes data: "ts_data items s" and sync: "ts_sync n s" and n: "0 < n" and stuck: "\<And>r. \<not> ts_step s r"
  shows "main_finished items s"
proof -
  have producer_done: "p = Pushing []" if mem: "p \<in> set (producers s)" for p
  proof -
    obtain i where i: "i < length (producers s)" "producers s ! i = p" using mem by (auto simp: in_set_conv_nth)
    show ?thesis
    proof (cases p)
      case (Pushing xs)
      have "xs = []"
      proof (rule ccontr)
        assume "xs \<noteq> []"
        then obtain y ys where "xs = y # ys" by (cases xs) auto
        then show False using ts_step.ts_push [OF i(1), of y ys] i(2) Pushing stuck by auto
      qed
      with Pushing show ?thesis by simp
    next
      case (Notifying xs)
      then show ?thesis using i stuck ts_step.notify_one ts_step.notify_none by (metis in_set_conv_nth)
    qed
  qed
  then have ps: "set (producers s) \<subseteq> {Pushing []}" by blast
  then have main: "main_thread s = Closed"
    using stuck ts_step.close ts_step.notify_all by (metis closer.exhaust)
  have "c = Finished" if mem: "c \<in> set (consumers s)" for c
  proof -
    obtain j where j: "j < length (consumers s)" "consumers s ! j = c" using mem by (auto simp: in_set_conv_nth)
    then have "c \<noteq> Awake" "c \<noteq> Counting" using stuck ts_step.ts_pop ts_step.fetch_add by metis+
    moreover have "c \<noteq> Waiting" using sync main mem by (auto simp: ts_sync_def)
    ultimately show ?thesis by (cases c) auto
  qed
  then have cs: "set (consumers s) \<subseteq> {Finished}" by blast
  moreover have "consumers s \<noteq> []" using sync n by (auto simp: ts_sync_def)
  ultimately have "queue (the_queue s) = []" using sync by (cases "consumers s") (auto simp: ts_sync_def)
  then have "length (taken s) = length (pushed s)"
    using data by (simp add: ts_data_def)
  moreover have "sum_list (map counting (consumers s)) = 0" using cs by (auto simp: counting_def)
  ultimately have "consumed s = int (sum_list (map length items))"
    using data all_pushed [OF data ps] by (simp add: ts_data_def)
  then show ?thesis using ps main cs by (simp add: main_finished_def)
qed

text \<open>
  C6: Up to spurious wakeups every run of the program ends, and a state in which no thread can
  move is the one where all threads have ended and every pushed item has been consumed: no wakeup is lost.
\<close>
theorem ts_queue_terminates:
  fixes items :: "'a list list"
  assumes "0 < n"
  shows "wf {(s', s :: 'a system). ts_step s (Some s')} \<and>
    (\<forall>s. ts_reach items n (Some s) \<and> (\<forall>r. \<not> ts_step s r) \<longrightarrow> main_finished items s)"
proof
  have "{(s', s :: 'a system). ts_step s (Some s')} \<subseteq> measure work_left"
    using ts_step_work by auto
  then show "wf {(s', s :: 'a system). ts_step s (Some s')}"
    by (rule wf_subset [OF wf_measure])
  show "\<forall>s. ts_reach items n (Some s) \<and> (\<forall>r. \<not> ts_step s r) \<longrightarrow> main_finished items s"
    using ts_reach_inv stuck_finished [OF _ _ assms] by (metis option.inject)
qed

definition one_item_state :: "nat list \<Rightarrow> bool \<Rightarrow> nat producer \<Rightarrow> consumer \<Rightarrow> closer \<Rightarrow> int \<Rightarrow> (nat \<times> nat) list \<Rightarrow> nat list \<Rightarrow> nat system" where
  "one_item_state q cl p c m k puts takes =
     \<lparr>the_queue = \<lparr>queue = q, closed = cl\<rparr>, producers = [p], consumers = [c], main_thread = m,
      consumed = k, pushed = puts, taken = takes\<rparr>"

lemma ts_one_item_run: "ts_reach [[5]] 1 (Some (one_item_state [] True (Pushing []) Finished Closed 1 [(0, 5)] [5]))"
proof -
  note go = ts_reach.step [where items = "[[5::nat]]" and n = 1, OF _ disjI1]
  have "ts_reach [[5]] 1 (Some (one_item_state [] False (Pushing [5]) Awake Joining 0 [] []))"
    using ts_reach.start [of "[[5::nat]]" 1] by (simp add: start_system_def new_queue_def one_item_state_def)
  then have "ts_reach [[5]] 1 (Some (one_item_state [5] False (Notifying []) Awake Joining 0 [(0, 5)] []))"
    by (rule go) (use ts_step.ts_push [of 0 "one_item_state [] False (Pushing [5]) Awake Joining 0 [] []" 5 "[]"]
        in \<open>simp add: one_item_state_def push_thread_def ts_push_def\<close>)
  then have "ts_reach [[5]] 1 (Some (one_item_state [5] False (Pushing []) Awake Joining 0 [(0, 5)] []))"
    by (rule go) (use ts_step.notify_none [of 0 "one_item_state [5] False (Notifying []) Awake Joining 0 [(0, 5)] []" "[]"]
        in \<open>simp add: one_item_state_def\<close>)
  then have "ts_reach [[5]] 1 (Some (one_item_state [] False (Pushing []) Counting Joining 0 [(0, 5)] [5]))"
    by (rule go) (use ts_step.ts_pop [of 0 "one_item_state [5] False (Pushing []) Awake Joining 0 [(0, 5)] []"]
        in \<open>simp add: one_item_state_def pop_thread_def ts_pop_def\<close>)
  then have "ts_reach [[5]] 1 (Some (one_item_state [] False (Pushing []) Awake Joining 1 [(0, 5)] [5]))"
    by (rule go) (use ts_step.fetch_add [of 0 "one_item_state [] False (Pushing []) Counting Joining 0 [(0, 5)] [5]"]
        in \<open>simp add: one_item_state_def\<close>)
  then have "ts_reach [[5]] 1 (Some (one_item_state [] True (Pushing []) Awake Notifying_All 1 [(0, 5)] [5]))"
    by (rule go) (use ts_step.close [of "one_item_state [] False (Pushing []) Awake Joining 1 [(0, 5)] [5]"]
        in \<open>simp add: one_item_state_def close_def\<close>)
  then have "ts_reach [[5]] 1 (Some (one_item_state [] True (Pushing []) Awake Closed 1 [(0, 5)] [5]))"
    by (rule go) (use ts_step.notify_all [of "one_item_state [] True (Pushing []) Awake Notifying_All 1 [(0, 5)] [5]"]
        in \<open>simp add: one_item_state_def wake_def\<close>)
  then show ?thesis
    by (rule go) (use ts_step.ts_pop [of 0 "one_item_state [] True (Pushing []) Awake Closed 1 [(0, 5)] [5]"]
        in \<open>simp add: one_item_state_def pop_thread_def ts_pop_def\<close>)
qed

lemma ts_queue_terminates_witness: "main_finished [[5]] (one_item_state [] True (Pushing []) Finished Closed 1 [(0, 5)] [5])"
proof -
  have "\<not> ts_step (one_item_state [] True (Pushing []) Finished Closed 1 [(0, 5)] [5]) r" for r
    by (auto elim!: ts_step.cases simp: one_item_state_def)
  then show ?thesis using ts_queue_terminates [OF zero_less_one, of "[[5::nat]]"] ts_one_item_run by blast
qed

end
