(* ===== verification/Bounded_Buffer.thy ===== *)
theory Bounded_Buffer
  imports Prelude
begin

text \<open>
  src/src/concurrency/producer_consumer.cpp: the bounded buffer with a mutex and two condition
  variables, and the threads of main, whose consumers claim an item with fetch_add before they
  consume it. A step is what a thread does while it holds the mutex (including the notification,
  which is issued under the lock) or one atomic access. A thread blocked in not_full_ or not_empty_
  waits until a notification picks it; spurious wakeups are steps of their own kind.
\<close>

section \<open>The buffer\<close>

record 'a bounded_buffer =
  items :: "'a list"
  capacity :: nat

definition BoundedBuffer :: "nat \<Rightarrow> 'a bounded_buffer" where
  "BoundedBuffer cap = \<lparr>items = [], capacity = cap\<rparr>"

definition not_full :: "'a bounded_buffer \<Rightarrow> bool" where
  "not_full b \<longleftrightarrow> length (items b) < capacity b"

definition not_empty :: "'a bounded_buffer \<Rightarrow> bool" where
  "not_empty b \<longleftrightarrow> items b \<noteq> []"

definition put :: "'a bounded_buffer \<Rightarrow> 'a \<Rightarrow> 'a bounded_buffer" where
  "put b item = b\<lparr>items := items b @ [item]\<rparr>"

text \<open>front() of an empty queue is undefined.\<close>

definition take_item :: "'a bounded_buffer \<Rightarrow> ('a \<times> 'a bounded_buffer) ub" where
  "take_item b = (case items b of [] \<Rightarrow> None | item # rest \<Rightarrow> Some (item, b\<lparr>items := rest\<rparr>))"

definition buffer_size :: "'a bounded_buffer \<Rightarrow> nat" where
  "buffer_size b = length (items b)"

section \<open>The threads of main\<close>

datatype 'a bb_producer = Producing "'a list" | Not_Full_Wait "'a list" | Produced "'a list"

datatype bb_consumer = Checking | Claiming | Consuming | Not_Empty_Wait | Giving_Back | Left

record 'a bb_system =
  buffer :: "'a bounded_buffer"
  producers :: "'a bb_producer list"
  consumers :: "bb_consumer list"
  produced_count :: int
  consumed_count :: int
  put_log :: "(nat \<times> 'a) list"
  taken_log :: "'a list"

definition start_bb_system :: "nat \<Rightarrow> 'a list list \<Rightarrow> nat \<Rightarrow> 'a bb_system" where
  "start_bb_system cap work num_consumers =
     \<lparr>buffer = BoundedBuffer cap, producers = map Producing work, consumers = replicate num_consumers Checking,
      produced_count = 0, consumed_count = 0, put_log = [], taken_log = []\<rparr>"

text \<open>notify_one on a condition variable: any one of its waiting threads, or none when there is none.\<close>

inductive notify_not_empty :: "'a bb_system \<Rightarrow> 'a bb_system \<Rightarrow> bool" where
  wake_consumer: "c < length (consumers s) \<Longrightarrow> consumers s ! c = Not_Empty_Wait \<Longrightarrow>
    notify_not_empty s (s\<lparr>consumers := (consumers s)[c := Consuming]\<rparr>)"
| no_consumer: "Not_Empty_Wait \<notin> set (consumers s) \<Longrightarrow> notify_not_empty s s"

inductive notify_not_full :: "'a bb_system \<Rightarrow> 'a bb_system \<Rightarrow> bool" where
  wake_producer: "i < length (producers s) \<Longrightarrow> producers s ! i = Not_Full_Wait xs \<Longrightarrow>
    notify_not_full s (s\<lparr>producers := (producers s)[i := Producing xs]\<rparr>)"
| no_producer: "(\<And>xs. Not_Full_Wait xs \<notin> set (producers s)) \<Longrightarrow> notify_not_full s s"

definition produce_locked :: "nat \<Rightarrow> 'a \<Rightarrow> 'a list \<Rightarrow> 'a bb_system \<Rightarrow> 'a bb_system" where
  "produce_locked i x xs s =
     s\<lparr>buffer := put (buffer s) x, producers := (producers s)[i := Produced xs], put_log := put_log s @ [(i, x)]\<rparr>"

definition consume_locked :: "nat \<Rightarrow> 'a bb_system \<Rightarrow> 'a bb_system ub" where
  "consume_locked c s = do {
     (item, b) \<leftarrow> take_item (buffer s);
     Some (s\<lparr>buffer := b, consumers := (consumers s)[c := Checking], taken_log := taken_log s @ [item]\<rparr>) }"

inductive bb_step :: "nat \<Rightarrow> 'a bb_system \<Rightarrow> 'a bb_system ub \<Rightarrow> bool" for m where
  produce: "i < length (producers s) \<Longrightarrow> producers s ! i = Producing (x # xs) \<Longrightarrow> not_full (buffer s) \<Longrightarrow>
    notify_not_empty (produce_locked i x xs s) s' \<Longrightarrow> bb_step m s (Some s')"
| wait_not_full: "i < length (producers s) \<Longrightarrow> producers s ! i = Producing (x # xs) \<Longrightarrow> \<not> not_full (buffer s) \<Longrightarrow>
    bb_step m s (Some (s\<lparr>producers := (producers s)[i := Not_Full_Wait (x # xs)]\<rparr>))"
| produced: "i < length (producers s) \<Longrightarrow> producers s ! i = Produced xs \<Longrightarrow>
    bb_step m s (Some (s\<lparr>producers := (producers s)[i := Producing xs], produced_count := produced_count s + 1\<rparr>))"
| check: "c < length (consumers s) \<Longrightarrow> consumers s ! c = Checking \<Longrightarrow>
    bb_step m s (Some (s\<lparr>consumers := (consumers s)[c := if consumed_count s < int m then Claiming else Left]\<rparr>))"
| claim: "c < length (consumers s) \<Longrightarrow> consumers s ! c = Claiming \<Longrightarrow>
    bb_step m s (Some (s\<lparr>consumers := (consumers s)[c := if consumed_count s < int m then Consuming else Giving_Back],
      consumed_count := consumed_count s + 1\<rparr>))"
| give_back: "c < length (consumers s) \<Longrightarrow> consumers s ! c = Giving_Back \<Longrightarrow>
    bb_step m s (Some (s\<lparr>consumers := (consumers s)[c := Left], consumed_count := consumed_count s - 1\<rparr>))"
| wait_not_empty: "c < length (consumers s) \<Longrightarrow> consumers s ! c = Consuming \<Longrightarrow> \<not> not_empty (buffer s) \<Longrightarrow>
    bb_step m s (Some (s\<lparr>consumers := (consumers s)[c := Not_Empty_Wait]\<rparr>))"
| consume: "c < length (consumers s) \<Longrightarrow> consumers s ! c = Consuming \<Longrightarrow> not_empty (buffer s) \<Longrightarrow>
    consume_locked c s = Some s1 \<Longrightarrow> notify_not_full s1 s' \<Longrightarrow> bb_step m s (Some s')"
| consume_ub: "c < length (consumers s) \<Longrightarrow> consumers s ! c = Consuming \<Longrightarrow> not_empty (buffer s) \<Longrightarrow>
    consume_locked c s = None \<Longrightarrow> bb_step m s None"

inductive bb_spurious :: "'a bb_system \<Rightarrow> 'a bb_system ub \<Rightarrow> bool" where
  spurious_producer: "i < length (producers s) \<Longrightarrow> producers s ! i = Not_Full_Wait xs \<Longrightarrow>
    bb_spurious s (Some (s\<lparr>producers := (producers s)[i := Producing xs]\<rparr>))"
| spurious_consumer: "c < length (consumers s) \<Longrightarrow> consumers s ! c = Not_Empty_Wait \<Longrightarrow>
    bb_spurious s (Some (s\<lparr>consumers := (consumers s)[c := Consuming]\<rparr>))"

inductive bb_reach :: "nat \<Rightarrow> 'a list list \<Rightarrow> nat \<Rightarrow> 'a bb_system ub \<Rightarrow> bool" for cap work n where
  start: "bb_reach cap work n (Some (start_bb_system cap work n))"
| step: "bb_reach cap work n (Some s) \<Longrightarrow>
    bb_step (sum_list (map length work)) s r \<or> bb_spurious s r \<Longrightarrow> bb_reach cap work n r"

definition bb_main_finished :: "'a list list \<Rightarrow> 'a bb_system \<Rightarrow> bool" where
  "bb_main_finished work s \<longleftrightarrow>
     set (producers s) \<subseteq> {Producing []} \<and> set (consumers s) \<subseteq> {Left} \<and>
     produced_count s = int (sum_list (map length work)) \<and> consumed_count s = int (sum_list (map length work))"

section \<open>The invariant\<close>

fun todo :: "'a bb_producer \<Rightarrow> 'a list" where
  "todo (Producing xs) = xs"
| "todo (Not_Full_Wait xs) = xs"
| "todo (Produced xs) = xs"

fun inside_produce :: "'a bb_producer \<Rightarrow> nat" where
  "inside_produce (Producing (x # xs)) = 1"
| "inside_produce _ = 0"

fun to_count :: "'a bb_producer \<Rightarrow> nat" where
  "to_count (Produced xs) = 1"
| "to_count _ = 0"

fun inside_consume :: "bb_consumer \<Rightarrow> nat" where
  "inside_consume Consuming = 1"
| "inside_consume _ = 0"

fun claimed :: "bb_consumer \<Rightarrow> nat" where
  "claimed Consuming = 1"
| "claimed Not_Empty_Wait = 1"
| "claimed _ = 0"

fun extra :: "bb_consumer \<Rightarrow> nat" where
  "extra Giving_Back = 1"
| "extra _ = 0"

abbreviation csum :: "(bb_consumer \<Rightarrow> nat) \<Rightarrow> 'a bb_system \<Rightarrow> nat" where
  "csum f s \<equiv> weigh f (consumers s)"

abbreviation psum :: "('a bb_producer \<Rightarrow> nat) \<Rightarrow> 'a bb_system \<Rightarrow> nat" where
  "psum f s \<equiv> weigh f (producers s)"

text \<open>Items in order: what was put and taken, and by which producer.\<close>

definition bb_fifo :: "'a list list \<Rightarrow> 'a bb_system \<Rightarrow> bool" where
  "bb_fifo work s \<longleftrightarrow>
     length (producers s) = length work \<and> taken_log s @ items (buffer s) = map snd (put_log s) \<and>
     set (map fst (put_log s)) \<subseteq> {..<length work} \<and>
     (\<forall>i < length work. map snd (filter (\<lambda>x. fst x = i) (put_log s)) @ todo (producers s ! i) = work ! i)"

text \<open>The counters of main, for the given total.\<close>

definition bb_count :: "nat \<Rightarrow> 'a bb_system \<Rightarrow> bool" where
  "bb_count m s \<longleftrightarrow>
     produced_count s + int (psum to_count s) = int (length (put_log s)) \<and>
     consumed_count s = int (length (taken_log s) + csum claimed s + csum extra s) \<and>
     length (taken_log s) + csum claimed s \<le> m \<and>
     (0 < csum extra s \<or> Left \<in> set (consumers s) \<longrightarrow> length (taken_log s) + csum claimed s = m)"

text \<open>No wakeup is lost: threads that could go on are not all asleep.\<close>

definition bb_sync :: "nat \<Rightarrow> nat \<Rightarrow> 'a bb_system \<Rightarrow> bool" where
  "bb_sync cap n s \<longleftrightarrow>
     length (consumers s) = n \<and> capacity (buffer s) = cap \<and> length (items (buffer s)) \<le> cap \<and>
     (Not_Empty_Wait \<in> set (consumers s) \<longrightarrow> length (items (buffer s)) \<le> csum inside_consume s) \<and>
     (\<forall>xs. Not_Full_Wait xs \<in> set (producers s) \<longrightarrow>
        xs \<noteq> [] \<and> cap \<le> length (items (buffer s)) + psum inside_produce s)"

lemma bb_start:
  "bb_fifo work (start_bb_system cap work n)" "bb_count m (start_bb_system cap work n)" "bb_sync cap n (start_bb_system cap work n)"
  by (auto simp: bb_fifo_def bb_count_def bb_sync_def start_bb_system_def BoundedBuffer_def weigh_def sum_list_replicate comp_def)

lemma bb_fifo_consumers [simp]: "bb_fifo work (s\<lparr>consumers := cs\<rparr>) = bb_fifo work s"
  by (simp add: bb_fifo_def)

lemma bb_fifo_counts [simp]:
  "bb_fifo work (s\<lparr>consumed_count := k\<rparr>) = bb_fifo work s" "bb_fifo work (s\<lparr>produced_count := k\<rparr>) = bb_fifo work s"
  by (simp_all add: bb_fifo_def)

lemma bb_sync_counts [simp]:
  "bb_sync cap n (s\<lparr>consumed_count := k\<rparr>) = bb_sync cap n s" "bb_sync cap n (s\<lparr>produced_count := k\<rparr>) = bb_sync cap n s"
  by (simp_all add: bb_sync_def)

lemma bb_fifo_producer:
  assumes "bb_fifo work s" "i < length (producers s)" "todo (producers s ! i) = todo y"
  shows "bb_fifo work (s\<lparr>producers := (producers s)[i := y]\<rparr>)"
  using assms by (auto simp: bb_fifo_def nth_list_update)

lemma bb_fifo_put:
  assumes fifo: "bb_fifo work s" and i: "i < length (producers s)" and p: "producers s ! i = Producing (x # xs)"
  shows "bb_fifo work (produce_locked i x xs s)"
proof -
  have "map snd (filter (\<lambda>y. fst y = i) (put_log s)) @ todo (producers s ! i) = work ! i"
    using fifo i by (simp add: bb_fifo_def)
  then have "map snd (filter (\<lambda>y. fst y = i) (put_log s)) @ x # xs = work ! i"
    by (simp add: p)
  then have "\<forall>j < length work. map snd (filter (\<lambda>y. fst y = j) (put_log s @ [(i, x)])) @
      todo ((producers s)[i := Produced xs] ! j) = work ! j"
    using fifo i by (auto simp: bb_fifo_def nth_list_update)
  moreover have "taken_log s @ items (buffer s) @ [x] = map snd (put_log s) @ [x]"
    using fifo by (simp add: bb_fifo_def flip: append_assoc)
  ultimately show ?thesis
    using fifo i by (simp add: bb_fifo_def produce_locked_def put_def del: filter_append)
qed

lemma bb_count_producer:
  assumes "bb_count m s" "i < length (producers s)" "to_count (producers s ! i) = to_count y"
  shows "bb_count m (s\<lparr>producers := (producers s)[i := y]\<rparr>)"
  using assms weigh_update [of i "producers s" to_count y] by (simp add: bb_count_def)

lemma bb_count_consumer:
  assumes "bb_count m s" "c < length (consumers s)" "claimed (consumers s ! c) = claimed y"
    and "extra (consumers s ! c) = extra y" "y \<noteq> Left"
  shows "bb_count m (s\<lparr>consumers := (consumers s)[c := y]\<rparr>)"
proof -
  have "csum claimed (s\<lparr>consumers := (consumers s)[c := y]\<rparr>) = csum claimed s"
    "csum extra (s\<lparr>consumers := (consumers s)[c := y]\<rparr>) = csum extra s"
    using assms weigh_update [of c "consumers s" claimed y] weigh_update [of c "consumers s" extra y] by auto
  then show ?thesis using assms(1,5) by (auto simp: bb_count_def dest: in_update)
qed

lemma bb_count_step:
  assumes cnt: "bb_count m s" and c: "c < length (consumers s)"
  shows "consumers s ! c = Checking \<Longrightarrow>
      bb_count m (s\<lparr>consumers := (consumers s)[c := if consumed_count s < int m then Claiming else Left]\<rparr>)"
    and "consumers s ! c = Claiming \<Longrightarrow>
      bb_count m (s\<lparr>consumers := (consumers s)[c := if consumed_count s < int m then Consuming else Giving_Back],
        consumed_count := consumed_count s + 1\<rparr>)"
    and "consumers s ! c = Giving_Back \<Longrightarrow>
      bb_count m (s\<lparr>consumers := (consumers s)[c := Left], consumed_count := consumed_count s - 1\<rparr>)"
  using cnt weigh_update [OF c, of claimed Claiming] weigh_update [OF c, of extra Claiming]
    weigh_update [OF c, of claimed Left] weigh_update [OF c, of extra Left]
    weigh_update [OF c, of claimed Consuming] weigh_update [OF c, of extra Consuming]
    weigh_update [OF c, of claimed Giving_Back] weigh_update [OF c, of extra Giving_Back]
  by (auto simp: bb_count_def dest!: in_update)

lemma bb_count_put:
  assumes cnt: "bb_count m s" and i: "i < length (producers s)" and p: "producers s ! i = Producing (x # xs)"
  shows "bb_count m (produce_locked i x xs s)"
  using cnt i p weigh_update [of i "producers s" to_count "Produced xs"]
  by (simp add: bb_count_def produce_locked_def)

lemma bb_count_produced:
  assumes cnt: "bb_count m s" and i: "i < length (producers s)" and p: "producers s ! i = Produced xs"
  shows "bb_count m (s\<lparr>producers := (producers s)[i := Producing xs], produced_count := produced_count s + 1\<rparr>)"
  using cnt i p weigh_update [of i "producers s" to_count "Producing xs"]
  by (simp add: bb_count_def)

lemma bb_count_take:
  assumes cnt: "bb_count m s" and c: "c < length (consumers s)" "consumers s ! c = Consuming"
    and r: "consume_locked c s = Some s'"
  shows "bb_count m s'"
  using cnt c r weigh_update [of c "consumers s" claimed Checking] weigh_update [of c "consumers s" extra Checking]
  by (auto simp: bb_count_def consume_locked_def take_item_def bind_Some_conv dest!: in_update split: list.splits)

lemma bb_sync_produce:
  assumes sync: "bb_sync cap n s" and i: "i < length (producers s)" and p: "producers s ! i = Producing (x # xs)"
    and room: "not_full (buffer s)" and notified: "notify_not_empty (produce_locked i x xs s) s'"
  shows "bb_sync cap n s'"
proof -
  have "psum inside_produce (produce_locked i x xs s) + 1 = psum inside_produce s"
    using i p weigh_update [of i "producers s" inside_produce "Produced xs"] by (simp add: produce_locked_def)
  then have full: "ys \<noteq> [] \<and> cap \<le> Suc (length (items (buffer s)) + psum inside_produce (produce_locked i x xs s))"
    if "Not_Full_Wait ys \<in> set (producers (produce_locked i x xs s))" for ys
    using that sync by (auto simp: bb_sync_def produce_locked_def dest!: in_update)
  from notified show ?thesis
  proof (cases rule: notify_not_empty.cases)
    case (wake_consumer c)
    then show ?thesis
      using full sync room weigh_update [of c "consumers s" inside_consume Consuming]
      by (auto simp: bb_sync_def produce_locked_def put_def not_full_def dest!: in_update)
  next
    case no_consumer
    then show ?thesis
      using full sync room by (auto simp: bb_sync_def produce_locked_def put_def not_full_def)
  qed
qed

lemma bb_sync_consume:
  assumes sync: "bb_sync cap n s" and c: "c < length (consumers s)" "consumers s ! c = Consuming"
    and r: "consume_locked c s = Some s1" and notified: "notify_not_full s1 s'"
  shows "bb_sync cap n s'"
proof -
  obtain x rest where it: "items (buffer s) = x # rest" and s1: "s1 = s\<lparr>buffer := (buffer s)\<lparr>items := rest\<rparr>,
      consumers := (consumers s)[c := Checking], taken_log := taken_log s @ [x]\<rparr>"
    using r by (auto simp: consume_locked_def take_item_def bind_Some_conv split: list.splits)
  have less: "csum inside_consume s1 + 1 = csum inside_consume s"
    using c weigh_update [of c "consumers s" inside_consume Checking] by (simp add: s1)
  then have empty: "length rest \<le> csum inside_consume s1" if "Not_Empty_Wait \<in> set (consumers s1)"
    using that sync it by (auto simp: bb_sync_def s1 dest!: in_update)
  from notified show ?thesis
  proof (cases rule: notify_not_full.cases)
    case (wake_producer i xs)
    then have "Not_Full_Wait xs \<in> set (producers s)" by (auto simp: s1 in_set_conv_nth)
    then have "xs \<noteq> []" using sync by (auto simp: bb_sync_def)
    then have "inside_produce (Producing xs) = 1" by (cases xs) auto
    then show ?thesis
      using wake_producer empty sync it weigh_update [of i "producers s" inside_produce "Producing xs"]
      by (auto simp: bb_sync_def s1 dest!: in_update)
  next
    case no_producer
    then show ?thesis using empty sync it by (auto simp: bb_sync_def s1)
  qed
qed

lemma bb_sync_producer_up:
  assumes sync: "bb_sync cap n s" and i: "i < length (producers s)"
    and "inside_produce (producers s ! i) \<le> inside_produce (Producing xs)"
  shows "bb_sync cap n (s\<lparr>producers := (producers s)[i := Producing xs]\<rparr>)"
  using assms weigh_update [of i "producers s" inside_produce "Producing xs"]
  by (auto simp: bb_sync_def dest!: in_update)

lemma bb_sync_wait_not_full:
  assumes sync: "bb_sync cap n s" and full: "\<not> not_full (buffer s)"
  shows "bb_sync cap n (s\<lparr>producers := (producers s)[i := Not_Full_Wait (x # xs)]\<rparr>)"
  using assms by (auto simp: bb_sync_def not_full_def dest!: in_update)

lemma bb_sync_consumer:
  assumes sync: "bb_sync cap n s" and c: "c < length (consumers s)"
    and "inside_consume (consumers s ! c) \<le> inside_consume y" "y \<noteq> Not_Empty_Wait"
  shows "bb_sync cap n (s\<lparr>consumers := (consumers s)[c := y]\<rparr>)"
  using assms weigh_update [of c "consumers s" inside_consume y]
  by (auto simp: bb_sync_def dest!: in_update)

lemma bb_sync_wait_not_empty:
  assumes sync: "bb_sync cap n s" and empty: "\<not> not_empty (buffer s)"
  shows "bb_sync cap n (s\<lparr>consumers := (consumers s)[c := y]\<rparr>)"
  using assms by (auto simp: bb_sync_def not_empty_def dest!: in_update)

lemma notify_not_empty_keeps:
  assumes "notify_not_empty s s'"
  shows "bb_fifo work s \<Longrightarrow> bb_fifo work s'" "bb_count m s \<Longrightarrow> bb_count m s'"
  using assms by (auto elim!: notify_not_empty.cases intro: bb_count_consumer)

lemma notify_not_full_keeps:
  assumes "notify_not_full s s'"
  shows "bb_fifo work s \<Longrightarrow> bb_fifo work s'" "bb_count m s \<Longrightarrow> bb_count m s'"
  using assms by (auto elim!: notify_not_full.cases intro!: bb_count_producer bb_fifo_producer)

lemma bb_fifo_take: "bb_fifo work s \<Longrightarrow> consume_locked c s = Some s' \<Longrightarrow> bb_fifo work s'"
  by (clarsimp simp: bb_fifo_def consume_locked_def take_item_def bind_Some_conv split: list.splits)

definition bb_inv :: "nat \<Rightarrow> 'a list list \<Rightarrow> nat \<Rightarrow> 'a bb_system \<Rightarrow> bool" where
  "bb_inv cap work n s \<longleftrightarrow> bb_fifo work s \<and> bb_count (sum_list (map length work)) s \<and> bb_sync cap n s"

lemma bb_inv_consumer:
  assumes inv: "bb_inv cap work n s" and c: "c < length (consumers s)" "claimed (consumers s ! c) = claimed y"
    "extra (consumers s ! c) = extra y" "y \<noteq> Left" and sync: "bb_sync cap n (s\<lparr>consumers := (consumers s)[c := y]\<rparr>)"
  shows "bb_inv cap work n (s\<lparr>consumers := (consumers s)[c := y]\<rparr>)"
  using inv sync bb_count_consumer [OF _ c] by (simp add: bb_inv_def)

lemma bb_inv_producer:
  assumes inv: "bb_inv cap work n s" and i: "i < length (producers s)" "todo (producers s ! i) = todo y"
    "to_count (producers s ! i) = to_count y" and sync: "bb_sync cap n (s\<lparr>producers := (producers s)[i := y]\<rparr>)"
  shows "bb_inv cap work n (s\<lparr>producers := (producers s)[i := y]\<rparr>)"
  using inv sync bb_count_producer [OF _ i(1,3)] bb_fifo_producer [OF _ i(1,2)] by (simp add: bb_inv_def)

lemma bb_step_inv:
  assumes step: "bb_step (sum_list (map length work)) s r" and inv: "bb_inv cap work n s"
  shows "\<exists>s'. r = Some s' \<and> bb_inv cap work n s'"
proof -
  have fifo: "bb_fifo work s" and cnt: "bb_count (sum_list (map length work)) s" and sync: "bb_sync cap n s"
    using inv by (simp_all add: bb_inv_def)
  note steps = bb_count_step [OF cnt]
  from step show ?thesis
  proof (cases rule: bb_step.cases)
    case (produce i x xs s')
    then show ?thesis
      using bb_sync_produce [OF sync] notify_not_empty_keeps [OF produce(5)] bb_fifo_put [OF fifo] bb_count_put [OF cnt]
      by (simp add: bb_inv_def)
  next
    case (wait_not_full i x xs)
    then show ?thesis using bb_inv_producer [OF inv] bb_sync_wait_not_full [OF sync] by auto
  next
    case (produced i xs)
    have "bb_sync cap n (s\<lparr>producers := (producers s)[i := Producing xs]\<rparr>)"
      using produced by (intro bb_sync_producer_up [OF sync]) auto
    then have "bb_sync cap n ((s\<lparr>producers := (producers s)[i := Producing xs]\<rparr>)\<lparr>produced_count := produced_count s + 1\<rparr>)"
      by (simp only: bb_sync_counts)
    moreover have "bb_fifo work (s\<lparr>producers := (producers s)[i := Producing xs]\<rparr>)"
      using produced by (intro bb_fifo_producer [OF fifo]) auto
    then have "bb_fifo work ((s\<lparr>producers := (producers s)[i := Producing xs]\<rparr>)\<lparr>produced_count := produced_count s + 1\<rparr>)"
      by (simp only: bb_fifo_counts)
    ultimately show ?thesis using produced bb_count_produced [OF cnt] by (simp add: bb_inv_def)
  next
    case (check c)
    then have "bb_sync cap n (s\<lparr>consumers := (consumers s)[c := if consumed_count s < int (sum_list (map length work)) then Claiming else Left]\<rparr>)"
      by (intro bb_sync_consumer [OF sync]) auto
    then show ?thesis using check steps(1) [OF check(2,3)] fifo by (simp add: bb_inv_def)
  next
    case (claim c)
    then have "bb_sync cap n (s\<lparr>consumers := (consumers s)[c := if consumed_count s < int (sum_list (map length work)) then Consuming else Giving_Back]\<rparr>)"
      by (intro bb_sync_consumer [OF sync]) auto
    then have "bb_sync cap n ((s\<lparr>consumers := (consumers s)[c := if consumed_count s < int (sum_list (map length work)) then Consuming else Giving_Back]\<rparr>)\<lparr>consumed_count := consumed_count s + 1\<rparr>)"
      by (simp only: bb_sync_counts)
    moreover have "bb_fifo work ((s\<lparr>consumers := cs\<rparr>)\<lparr>consumed_count := k\<rparr>)" for cs k
      using fifo by (simp only: bb_fifo_counts bb_fifo_consumers)
    ultimately show ?thesis using claim steps(2) [OF claim(2,3)] by (simp add: bb_inv_def)
  next
    case (give_back c)
    then have "bb_sync cap n (s\<lparr>consumers := (consumers s)[c := Left]\<rparr>)"
      by (intro bb_sync_consumer [OF sync]) auto
    then have "bb_sync cap n ((s\<lparr>consumers := (consumers s)[c := Left]\<rparr>)\<lparr>consumed_count := consumed_count s - 1\<rparr>)"
      by (simp only: bb_sync_counts)
    moreover have "bb_fifo work ((s\<lparr>consumers := cs\<rparr>)\<lparr>consumed_count := k\<rparr>)" for cs k
      using fifo by (simp only: bb_fifo_counts bb_fifo_consumers)
    ultimately show ?thesis using give_back steps(3) [OF give_back(2,3)] by (simp add: bb_inv_def)
  next
    case (wait_not_empty c)
    then show ?thesis using bb_inv_consumer [OF inv wait_not_empty(2)] bb_sync_wait_not_empty [OF sync] by auto
  next
    case (consume c s1 s')
    then show ?thesis
      using bb_sync_consume [OF sync] notify_not_full_keeps [OF consume(6)] bb_fifo_take [OF fifo] bb_count_take [OF cnt]
      by (simp add: bb_inv_def)
  next
    case (consume_ub c)
    then show ?thesis by (auto simp: not_empty_def consume_locked_def take_item_def split: list.splits)
  qed
qed

lemma bb_reach_inv:
  assumes "bb_reach cap work n r"
  shows "\<exists>s. r = Some s \<and> bb_inv cap work n s"
  using assms
proof (induction rule: bb_reach.induct)
  case start
  then show ?case using bb_start by (auto simp: bb_inv_def)
next
  case (step s r)
  then have inv: "bb_inv cap work n s" and sync: "bb_sync cap n s" by (auto simp: bb_inv_def)
  from step.hyps(2) show ?case
  proof
    assume "bb_step (sum_list (map length work)) s r"
    then show ?thesis using bb_step_inv inv by blast
  next
    assume "bb_spurious s r"
    then show ?thesis
    proof (cases rule: bb_spurious.cases)
      case (spurious_producer i xs)
      then have "bb_sync cap n (s\<lparr>producers := (producers s)[i := Producing xs]\<rparr>)"
        by (intro bb_sync_producer_up [OF sync]) auto
      then show ?thesis using spurious_producer bb_inv_producer [OF inv] by auto
    next
      case (spurious_consumer c)
      then have "bb_sync cap n (s\<lparr>consumers := (consumers s)[c := Consuming]\<rparr>)"
        by (intro bb_sync_consumer [OF sync]) auto
      then show ?thesis using spurious_consumer bb_inv_consumer [OF inv] by auto
    qed
  qed
qed

section \<open>Every run ends\<close>

fun producer_weight :: "'a bb_producer \<Rightarrow> nat" where
  "producer_weight (Producing xs) = 7 * length xs + 1"
| "producer_weight (Not_Full_Wait xs) = 7 * length xs"
| "producer_weight (Produced xs) = 7 * length xs + 2"

fun consumer_weight :: "bb_consumer \<Rightarrow> nat" where
  "consumer_weight Checking = 4"
| "consumer_weight Claiming = 3"
| "consumer_weight Consuming = 2"
| "consumer_weight Giving_Back = 2"
| "consumer_weight Not_Empty_Wait = 1"
| "consumer_weight Left = 0"

definition work_left :: "'a bb_system \<Rightarrow> nat" where
  "work_left s = psum producer_weight s + csum consumer_weight s + 4 * length (items (buffer s))"

lemma notify_not_empty_work:
  assumes "notify_not_empty s s'"
  shows "work_left s' \<le> work_left s + 1"
  using assms
proof (cases rule: notify_not_empty.cases)
  case (wake_consumer c)
  then show ?thesis using weigh_update [of c "consumers s" consumer_weight Consuming] by (simp add: work_left_def)
qed simp

lemma notify_not_full_work:
  assumes "notify_not_full s s'"
  shows "work_left s' \<le> work_left s + 1"
  using assms
proof (cases rule: notify_not_full.cases)
  case (wake_producer i xs)
  then show ?thesis using weigh_update [of i "producers s" producer_weight "Producing xs"] by (simp add: work_left_def)
qed simp

lemma consumer_work:
  "c < length (consumers s) \<Longrightarrow> consumer_weight y < consumer_weight (consumers s ! c) \<Longrightarrow>
   work_left (s\<lparr>consumers := (consumers s)[c := y]\<rparr>) < work_left s"
  using weigh_update [of c "consumers s" consumer_weight y] by (simp add: work_left_def)

lemma producer_work:
  "i < length (producers s) \<Longrightarrow> producer_weight y < producer_weight (producers s ! i) \<Longrightarrow>
   work_left (s\<lparr>producers := (producers s)[i := y]\<rparr>) < work_left s"
  using weigh_update [of i "producers s" producer_weight y] by (simp add: work_left_def)

lemma work_left_counts [simp]:
  "work_left (s\<lparr>consumed_count := k\<rparr>) = work_left s" "work_left (s\<lparr>produced_count := k\<rparr>) = work_left s"
  by (simp_all add: work_left_def)

lemma bb_step_work:
  assumes "bb_step m s (Some s')"
  shows "work_left s' < work_left s"
  using assms
proof (cases rule: bb_step.cases)
  case (produce i x xs)
  have "work_left (produce_locked i x xs s) + 2 \<le> work_left s"
    using produce weigh_update [of i "producers s" producer_weight "Produced xs"]
    by (simp add: work_left_def produce_locked_def put_def)
  then show ?thesis using notify_not_empty_work [OF produce(4)] by linarith
next
  case (wait_not_full i x xs)
  then show ?thesis by (auto intro!: producer_work)
next
  case (produced i xs)
  then have "work_left (s\<lparr>producers := (producers s)[i := Producing xs]\<rparr>) < work_left s"
    by (intro producer_work) auto
  then have "work_left ((s\<lparr>producers := (producers s)[i := Producing xs]\<rparr>)\<lparr>produced_count := produced_count s + 1\<rparr>) < work_left s"
    by (simp only: work_left_counts)
  then show ?thesis using produced by simp
next
  case (check c)
  then show ?thesis by (auto intro!: consumer_work)
next
  case (claim c)
  then have "work_left (s\<lparr>consumers := (consumers s)[c := if consumed_count s < int m then Consuming else Giving_Back]\<rparr>) < work_left s"
    by (intro consumer_work) auto
  then have "work_left ((s\<lparr>consumers := (consumers s)[c := if consumed_count s < int m then Consuming else Giving_Back]\<rparr>)\<lparr>consumed_count := consumed_count s + 1\<rparr>) < work_left s"
    by (simp only: work_left_counts)
  then show ?thesis using claim by simp
next
  case (give_back c)
  then have "work_left (s\<lparr>consumers := (consumers s)[c := Left]\<rparr>) < work_left s"
    by (intro consumer_work) auto
  then have "work_left ((s\<lparr>consumers := (consumers s)[c := Left]\<rparr>)\<lparr>consumed_count := consumed_count s - 1\<rparr>) < work_left s"
    by (simp only: work_left_counts)
  then show ?thesis using give_back by simp
next
  case (wait_not_empty c)
  then show ?thesis by (auto intro!: consumer_work)
next
  case (consume c s1)
  have "work_left s1 + 2 \<le> work_left s"
    using consume weigh_update [of c "consumers s" consumer_weight Checking]
    by (auto simp: work_left_def consume_locked_def take_item_def bind_Some_conv split: list.splits)
  then show ?thesis using notify_not_full_work [OF consume(5)] by linarith
qed

section \<open>A state in which nobody can move is the end\<close>

lemma notify_exists: "\<exists>s'. notify_not_empty s s'" "\<exists>s'. notify_not_full s s'"
  by (metis in_set_conv_nth notify_not_empty.intros) (metis in_set_conv_nth notify_not_full.intros)

lemma stuck_producer:
  assumes stuck: "\<And>r. \<not> bb_step m s r" and i: "i < length (producers s)"
  shows "producers s ! i = Producing [] \<or> (\<exists>xs. producers s ! i = Not_Full_Wait xs)"
proof (cases "producers s ! i")
  case (Producing xs)
  show ?thesis
  proof (cases xs)
    case (Cons y ys)
    then have p: "producers s ! i = Producing (y # ys)" using Producing by simp
    obtain s' where "notify_not_empty (produce_locked i y ys s) s'" using notify_exists by blast
    then show ?thesis using bb_step.produce [OF i p] bb_step.wait_not_full [OF i p] stuck by blast
  qed (simp add: Producing)
next
  case (Produced xs)
  then show ?thesis using bb_step.produced [OF i] stuck by blast
qed auto

lemma stuck_consumer:
  assumes stuck: "\<And>r. \<not> bb_step m s r" and c: "c < length (consumers s)"
  shows "consumers s ! c = Not_Empty_Wait \<or> consumers s ! c = Left"
proof (cases "consumers s ! c")
  case Checking
  then show ?thesis using bb_step.check [OF c] stuck by blast
next
  case Claiming
  then show ?thesis using bb_step.claim [OF c] stuck by blast
next
  case Consuming
  show ?thesis
  proof (cases "consume_locked c s")
    case None
    then show ?thesis
      using bb_step.consume_ub [OF c Consuming] bb_step.wait_not_empty [OF c Consuming] stuck by blast
  next
    case (Some s1)
    obtain s' where "notify_not_full s1 s'" using notify_exists by blast
    then show ?thesis
      using bb_step.consume [OF c Consuming _ Some] bb_step.wait_not_empty [OF c Consuming] stuck by blast
  qed
next
  case Giving_Back
  then show ?thesis using bb_step.give_back [OF c] stuck by blast
qed auto

lemma all_put:
  assumes fifo: "bb_fifo work s" and none: "set (producers s) \<subseteq> {Producing []}"
  shows "length (put_log s) = sum_list (map length work)"
proof (rule by_key_length)
  show "set (map fst (put_log s)) \<subseteq> {..<length work}" using fifo by (simp add: bb_fifo_def)
  fix i assume i: "i < length work"
  then have "producers s ! i \<in> set (producers s)" using fifo by (auto simp: bb_fifo_def)
  then have "todo (producers s ! i) = []" using none by auto
  then show "map snd (filter (\<lambda>x. fst x = i) (put_log s)) = work ! i"
    using fifo i unfolding bb_fifo_def by (metis append_Nil2)
qed

lemma bb_stuck_finished:
  assumes inv: "bb_inv cap work n s" and cap: "0 < cap" and n: "0 < n"
    and stuck: "\<And>r. \<not> bb_step (sum_list (map length work)) s r"
  shows "bb_main_finished work s"
proof -
  define m where "m = sum_list (map length work)"
  have fifo: "bb_fifo work s" and cnt: "bb_count m s" and sync: "bb_sync cap n s"
    using inv by (simp_all add: bb_inv_def m_def)
  have ps: "p = Producing [] \<or> (\<exists>xs. p = Not_Full_Wait xs)" if "p \<in> set (producers s)" for p
    using that stuck_producer [OF stuck] by (metis in_set_conv_nth)
  have cs: "c = Not_Empty_Wait \<or> c = Left" if "c \<in> set (consumers s)" for c
    using that stuck_consumer [OF stuck] by (metis in_set_conv_nth)
  have none: "psum inside_produce s = 0" "psum to_count s = 0" using ps by (force simp: weigh_0_iff)+
  have idle: "csum inside_consume s = 0" "csum extra s = 0" using cs by (force simp: weigh_0_iff)+
  have asleep: "length (items (buffer s)) = cap" if "Not_Full_Wait xs \<in> set (producers s)" for xs
    using sync that none by (auto simp: bb_sync_def intro: order_antisym)
  have put: "length (put_log s) + sum_list (map (length \<circ> (\<lambda>i. todo (producers s ! i))) [0..<length work]) = m"
    unfolding m_def by (rule by_key_length_append) (use fifo in \<open>auto simp: bb_fifo_def\<close>)
  have taken: "length (taken_log s) + length (items (buffer s)) = length (put_log s)"
    using fifo by (metis bb_fifo_def length_append length_map)
  have all: "set (producers s) \<subseteq> {Producing []}" if "\<And>xs. Not_Full_Wait xs \<notin> set (producers s)"
    using ps that by blast
  have "Not_Empty_Wait \<notin> set (consumers s)"
  proof
    assume w: "Not_Empty_Wait \<in> set (consumers s)"
    then have empty: "items (buffer s) = []" using sync idle by (auto simp: bb_sync_def)
    then have "set (producers s) \<subseteq> {Producing []}" using asleep cap by (intro all) auto
    then have "length (taken_log s) = m" using all_put [OF fifo] taken empty by (simp add: m_def)
    moreover have "csum claimed s \<noteq> 0" using w by (auto simp: weigh_0_iff intro!: bexI [OF _ w])
    ultimately show False using cnt by (auto simp: bb_count_def)
  qed
  then have left: "set (consumers s) \<subseteq> {Left}" using cs by blast
  then have zero: "csum claimed s = 0" by (auto simp: weigh_0_iff)
  have "consumers s \<noteq> []" using sync n by (auto simp: bb_sync_def)
  then have "Left \<in> set (consumers s)" using left by (cases "consumers s") auto
  then have m: "length (taken_log s) = m" using cnt zero by (auto simp: bb_count_def)
  then have "length (items (buffer s)) = 0" "length (put_log s) = m" using put taken by linarith+
  then have "items (buffer s) = []" by simp
  then have "set (producers s) \<subseteq> {Producing []}" using asleep cap by (intro all) auto
  then show ?thesis
    using left cnt zero idle none m \<open>length (put_log s) = m\<close> by (simp add: bb_main_finished_def bb_count_def m_def)
qed

text \<open>
  C8: With a nonempty buffer and at least one consumer every run without spurious wakeups ends, and
  a state in which no thread can move is the one where all threads have ended and both counters are
  the number of items, as main asserts: the two condition variables lose no wakeup.
\<close>
theorem bounded_buffer_terminates:
  fixes work :: "'a list list"
  assumes "0 < cap" "0 < n"
  shows "wf {(s', s :: 'a bb_system). bb_step m s (Some s')} \<and>
    (\<forall>s. bb_reach cap work n (Some s) \<and> (\<forall>r. \<not> bb_step (sum_list (map length work)) s r) \<longrightarrow> bb_main_finished work s)"
proof
  have "{(s', s :: 'a bb_system). bb_step m s (Some s')} \<subseteq> measure work_left"
    using bb_step_work by auto
  then show "wf {(s', s :: 'a bb_system). bb_step m s (Some s')}"
    by (rule wf_subset [OF wf_measure])
  show "\<forall>s. bb_reach cap work n (Some s) \<and> (\<forall>r. \<not> bb_step (sum_list (map length work)) s r) \<longrightarrow> bb_main_finished work s"
    using bb_reach_inv bb_stuck_finished [OF _ assms] by (metis option.inject)
qed

definition one_item_state :: "nat list \<Rightarrow> nat bb_producer \<Rightarrow> bb_consumer \<Rightarrow> int \<Rightarrow> int \<Rightarrow> (nat \<times> nat) list \<Rightarrow> nat list \<Rightarrow> nat bb_system" where
  "one_item_state q p c produced consumed puts takes =
     \<lparr>buffer = \<lparr>items = q, capacity = 1\<rparr>, producers = [p], consumers = [c],
      produced_count = produced, consumed_count = consumed, put_log = puts, taken_log = takes\<rparr>"

lemma bb_one_item_run: "bb_reach 1 [[5]] 1 (Some (one_item_state [] (Producing []) Left 1 1 [(0, 5)] [5]))"
proof -
  note go = bb_reach.step [where cap = 1 and work = "[[5::nat]]" and n = 1, OF _ disjI1]
  have "bb_reach 1 [[5]] 1 (Some (one_item_state [] (Producing [5]) Checking 0 0 [] []))"
    using bb_reach.start [of 1 "[[5::nat]]" 1] by (simp add: start_bb_system_def BoundedBuffer_def one_item_state_def)
  then have "bb_reach 1 [[5]] 1 (Some (one_item_state [] (Producing [5]) Claiming 0 0 [] []))"
    by (rule go) (use bb_step.check [of 0 "one_item_state [] (Producing [5]) Checking 0 0 [] []" 1] in \<open>simp add: one_item_state_def\<close>)
  then have "bb_reach 1 [[5]] 1 (Some (one_item_state [] (Producing [5]) Consuming 0 1 [] []))"
    by (rule go) (use bb_step.claim [of 0 "one_item_state [] (Producing [5]) Claiming 0 0 [] []" 1] in \<open>simp add: one_item_state_def\<close>)
  then have "bb_reach 1 [[5]] 1 (Some (one_item_state [5] (Produced []) Consuming 0 1 [(0, 5)] []))"
    by (rule go) (use bb_step.produce [of 0 "one_item_state [] (Producing [5]) Consuming 0 1 [] []" 5 "[]",
          OF _ _ _ notify_not_empty.no_consumer, of 1] in \<open>simp add: one_item_state_def not_full_def produce_locked_def put_def\<close>)
  then have "bb_reach 1 [[5]] 1 (Some (one_item_state [5] (Producing []) Consuming 1 1 [(0, 5)] []))"
    by (rule go) (use bb_step.produced [of 0 "one_item_state [5] (Produced []) Consuming 0 1 [(0, 5)] []" "[]" 1] in \<open>simp add: one_item_state_def\<close>)
  then have "bb_reach 1 [[5]] 1 (Some (one_item_state [] (Producing []) Checking 1 1 [(0, 5)] [5]))"
    by (rule go) (use bb_step.consume [of 0 "one_item_state [5] (Producing []) Consuming 1 1 [(0, 5)] []" _ _ 1,
          OF _ _ _ _ notify_not_full.no_producer] in \<open>simp add: one_item_state_def not_empty_def consume_locked_def take_item_def\<close>)
  then show ?thesis
    by (rule go) (use bb_step.check [of 0 "one_item_state [] (Producing []) Checking 1 1 [(0, 5)] [5]" 1] in \<open>simp add: one_item_state_def\<close>)
qed

lemma bounded_buffer_terminates_witness: "bb_main_finished [[5]] (one_item_state [] (Producing []) Left 1 1 [(0, 5)] [5])"
proof -
  have "\<not> bb_step (sum_list (map length [[5::nat]])) (one_item_state [] (Producing []) Left 1 1 [(0, 5)] [5]) r" for r
    by (auto elim!: bb_step.cases simp: one_item_state_def)
  then show ?thesis using bounded_buffer_terminates [OF zero_less_one zero_less_one, of 1 "[[5::nat]]"] bb_one_item_run by blast
qed

text \<open>
  C19: In every reachable state the buffer holds at most its capacity, front() is never called on
  an empty queue, and what was consumed followed by what is buffered is what was produced, each
  producer's items in its order.
\<close>
theorem bounded_buffer_fifo:
  assumes "bb_reach cap work n r"
  shows "\<exists>s. r = Some s \<and> buffer_size (buffer s) \<le> cap \<and> taken_log s @ items (buffer s) = map snd (put_log s) \<and>
    set (map fst (put_log s)) \<subseteq> {..<length work} \<and>
    map (\<lambda>i. map snd (filter (\<lambda>x. fst x = i) (put_log s)) @ todo (producers s ! i)) [0..<length work] = work"
proof -
  obtain s where s: "r = Some s" "bb_inv cap work n s" using bb_reach_inv [OF assms] by blast
  then have "bb_fifo work s" "bb_sync cap n s" by (simp_all add: bb_inv_def)
  then show ?thesis using s(1) unfolding bb_fifo_def bb_sync_def buffer_size_def by (blast intro: map_upt_nth_eq)
qed

lemma bounded_buffer_fifo_witness:
  "\<exists>s. Some (produce_locked 0 (5::nat) [6] (start_bb_system 1 [[5, 6], [7]] 1)) = Some s \<and> buffer_size (buffer s) \<le> 1 \<and>
    taken_log s @ items (buffer s) = map snd (put_log s) \<and>
    set (map fst (put_log s)) \<subseteq> {..<length [[5, 6], [7::nat]]} \<and>
    map (\<lambda>i. map snd (filter (\<lambda>x. fst x = i) (put_log s)) @ todo (producers s ! i)) [0..<length [[5, 6], [7::nat]]] =
      [[5, 6], [7]]"
  by (rule bounded_buffer_fifo [OF bb_reach.step [OF bb_reach.start disjI1 [OF bb_step.produce [OF _ _ _ notify_not_empty.no_consumer]]]])
    (simp_all add: start_bb_system_def produce_locked_def BoundedBuffer_def not_full_def)

end
