(* ===== verification/Market_Data.thy ===== *)
theory Market_Data
  imports Prelude Complex_Main
begin

text \<open>
  src/src/systems/hft/market_data_handler.cpp: the aggregation of ticks into bars of one second and
  the exponential moving average. A double is a rational number, so rounding is not modelled; an
  overflow of an int64_t or int is undefined behaviour (None); the bars that emitBar prints are a list.
\<close>

section \<open>Definitions\<close>

record market_tick =
  symbol :: string
  price :: rat
  quantity :: int
  timestamp_ns :: int
  side :: char

record ohlcv_bar =
  bar_open :: rat
  high :: rat
  low :: rat
  bar_close :: rat
  volume :: int
  bar_start_ns :: int
  count' :: int

definition reset :: "rat \<Rightarrow> int \<Rightarrow> ohlcv_bar" where
  "reset p ts = \<lparr>bar_open = p, high = p, low = p, bar_close = p, volume = 0, bar_start_ns = ts, count' = 0\<rparr>"

record handler =
  current_bar :: ohlcv_bar
  ema_price :: rat
  ema_initialized :: bool
  ticks_processed :: int
  emitted :: "ohlcv_bar list"

definition UINT64 :: int where
  "UINT64 = 18446744073709551616"

definition BAR_DURATION_NS :: int where
  "BAR_DURATION_NS = 1000000000"

definition EMA_ALPHA :: rat where
  "EMA_ALPHA = 1 / 10"

definition MarketDataHandler :: handler where
  "MarketDataHandler =
     \<lparr>current_bar = reset 0 0, ema_price = 0, ema_initialized = False, ticks_processed = 0, emitted = []\<rparr>"

definition emitBar :: "handler \<Rightarrow> handler" where
  "emitBar h = h\<lparr>emitted := emitted h @ [current_bar h]\<rparr>"

definition start_bar :: "market_tick \<Rightarrow> handler \<Rightarrow> handler ub" where
  "start_bar t h = do {
     let h1 = (if count' (current_bar h) = 0 then h\<lparr>current_bar := reset (price t) (timestamp_ns t)\<rparr> else h);
     elapsed \<leftarrow> chk_long (timestamp_ns t - bar_start_ns (current_bar h1));
     Some (if elapsed \<ge> BAR_DURATION_NS then (emitBar h1)\<lparr>current_bar := reset (price t) (timestamp_ns t)\<rparr> else h1) }"

definition update_bar :: "market_tick \<Rightarrow> ohlcv_bar \<Rightarrow> ohlcv_bar ub" where
  "update_bar t b = do {
     let b1 = (if price t > high b then b\<lparr>high := price t\<rparr> else b);
     let b2 = (if price t < low b1 then b1\<lparr>low := price t\<rparr> else b1);
     n \<leftarrow> chk (count' b2 + 1);
     Some (b2\<lparr>bar_close := price t, volume := (volume b2 + quantity t) mod UINT64, count' := n\<rparr>) }"

definition update_ema :: "market_tick \<Rightarrow> handler \<Rightarrow> handler" where
  "update_ema t h =
     (if \<not> ema_initialized h then h\<lparr>ema_price := price t, ema_initialized := True\<rparr>
      else h\<lparr>ema_price := ema_price h + EMA_ALPHA * (price t - ema_price h)\<rparr>)"

definition onTick :: "market_tick \<Rightarrow> handler \<Rightarrow> handler ub" where
  "onTick t h = do {
     h1 \<leftarrow> start_bar t (h\<lparr>ticks_processed := (ticks_processed h + 1) mod UINT64\<rparr>);
     b \<leftarrow> update_bar t (current_bar h1);
     Some (update_ema t (h1\<lparr>current_bar := b\<rparr>)) }"

definition getEMA :: "handler \<Rightarrow> rat" where
  "getEMA h = ema_price h"

definition tickCount :: "handler \<Rightarrow> int" where
  "tickCount h = ticks_processed h"

fun on_ticks :: "market_tick list \<Rightarrow> handler \<Rightarrow> handler ub" where
  "on_ticks [] h = Some h"
| "on_ticks (t # ts) h = do { h' \<leftarrow> onTick t h; on_ticks ts h' }"

definition demo_tick :: "rat list \<Rightarrow> nat \<Rightarrow> market_tick" where
  "demo_tick prices i = \<lparr>symbol = ''AAPL'', price = prices ! i, quantity = 100 * (int i + 1),
     timestamp_ns = 1000000000 + int i * 200000000, side = (if i mod 2 = 0 then CHR ''B'' else CHR ''S'')\<rparr>"

definition market_data_main :: "handler ub" where
  "market_data_main = on_ticks
     (map (demo_tick [150, 1505 / 10, 1498 / 10, 151, 1502 / 10, 1508 / 10, 1495 / 10, 1515 / 10, 150, 1503 / 10]) [0..<10])
     MarketDataHandler"

lemma market_data_main_output:
  "map_option (\<lambda>h. (tickCount h, map (\<lambda>b. (bar_open b, high b, low b, bar_close b, volume b, count' b)) (emitted h))) market_data_main =
     Some (10, [(150, 151, 1498 / 10, 1502 / 10, 1500, 5)])"
  by (simp add: market_data_main_def demo_tick_def MarketDataHandler_def onTick_def start_bar_def update_bar_def
      update_ema_def reset_def emitBar_def BAR_DURATION_NS_def UINT64_def tickCount_def chk_long_def chk_def in_int_def
      upt_rec Let_def)

section \<open>Bars as groups of ticks\<close>

text \<open>A bar takes the ticks up to the first one at least a second after its first tick.\<close>

function groups :: "market_tick list \<Rightarrow> market_tick list list" where
  "groups [] = []"
| "groups (t # ts) =
     (t # takeWhile (\<lambda>u. timestamp_ns u - timestamp_ns t < BAR_DURATION_NS) ts) #
     groups (dropWhile (\<lambda>u. timestamp_ns u - timestamp_ns t < BAR_DURATION_NS) ts)"
  by pat_completeness auto

termination groups
  by (relation "measure length") (auto simp: less_Suc_eq_le length_dropWhile_le)

definition bar_of :: "market_tick list \<Rightarrow> ohlcv_bar" where
  "bar_of g = \<lparr>bar_open = price (hd g), high = Max (price ` set g), low = Min (price ` set g),
     bar_close = price (last g), volume = sum_list (map quantity g) mod UINT64,
     bar_start_ns = timestamp_ns (hd g), count' = int (length g)\<rparr>"

definition tick_ok :: "market_tick \<Rightarrow> bool" where
  "tick_ok t \<longleftrightarrow> 0 \<le> timestamp_ns t \<and> timestamp_ns t \<le> LONG_MAX"

lemma bar_of_snoc:
  assumes "g \<noteq> []" "int (length g) < INT_MAX"
  shows "update_bar t (bar_of g) = Some (bar_of (g @ [t]))"
proof -
  define hi where "hi = Max (price ` set g)"
  define lo where "lo = Min (price ` set g)"
  have "lo \<le> hi" using assms(1) by (auto simp: hi_def lo_def intro: Max_ge Min_in order_trans [OF Min_le Max_ge])
  have g: "bar_of g = \<lparr>bar_open = price (hd g), high = hi, low = lo, bar_close = price (last g),
      volume = sum_list (map quantity g) mod UINT64, bar_start_ns = timestamp_ns (hd g), count' = int (length g)\<rparr>"
    by (simp add: bar_of_def hi_def lo_def)
  have "bar_of (g @ [t]) = \<lparr>bar_open = price (hd g), high = max (price t) hi, low = min (price t) lo, bar_close = price t,
      volume = (sum_list (map quantity g) + quantity t) mod UINT64, bar_start_ns = timestamp_ns (hd g),
      count' = int (length g) + 1\<rparr>"
    using assms(1) by (simp add: bar_of_def hi_def lo_def)
  then show ?thesis
    using assms(2) \<open>lo \<le> hi\<close> by (simp add: g update_bar_def ub_simps Let_def max_def min_def mod_add_left_eq)
qed

lemma bar_of_single: "update_bar t (reset (price t) (timestamp_ns t)) = Some (bar_of [t])"
  by (simp add: update_bar_def reset_def bar_of_def ub_simps)

lemma count_bar_of: "g \<noteq> [] \<Longrightarrow> count' (bar_of g) \<noteq> 0"
  by (simp add: bar_of_def)

lemma onTick_same:
  assumes "g \<noteq> []" "int (length g) < INT_MAX" "tick_ok t" "tick_ok (hd g)" "current_bar h = bar_of g"
    and "timestamp_ns t - timestamp_ns (hd g) < BAR_DURATION_NS"
  shows "\<exists>h'. onTick t h = Some h' \<and> current_bar h' = bar_of (g @ [t]) \<and> emitted h' = emitted h"
proof -
  have "chk_long (timestamp_ns t - timestamp_ns (hd g)) = Some (timestamp_ns t - timestamp_ns (hd g))"
    using assms by (intro chk_long_Some) (auto simp: tick_ok_def)
  then show ?thesis
    using assms bar_of_snoc [OF assms(1,2), of t] count_bar_of [OF assms(1)]
    by (auto simp: onTick_def start_bar_def update_ema_def Let_def bar_of_def)
qed

lemma onTick_new:
  assumes "g \<noteq> []" "tick_ok t" "tick_ok (hd g)" "current_bar h = bar_of g"
    and "\<not> timestamp_ns t - timestamp_ns (hd g) < BAR_DURATION_NS"
  shows "\<exists>h'. onTick t h = Some h' \<and> current_bar h' = bar_of [t] \<and> emitted h' = emitted h @ [bar_of g]"
proof -
  have "chk_long (timestamp_ns t - timestamp_ns (hd g)) = Some (timestamp_ns t - timestamp_ns (hd g))"
    using assms by (intro chk_long_Some) (auto simp: tick_ok_def)
  then show ?thesis
    using assms bar_of_single [of t] count_bar_of [OF assms(1)]
    by (auto simp: onTick_def start_bar_def update_ema_def Let_def bar_of_def emitBar_def)
qed

lemma on_ticks_groups:
  assumes "g \<noteq> []" "int (length g + length ts) \<le> INT_MAX" "list_all tick_ok (g @ ts)" "current_bar h = bar_of g"
    and "\<And>u. u \<in> set (tl g) \<Longrightarrow> timestamp_ns u - timestamp_ns (hd g) < BAR_DURATION_NS"
  shows "\<exists>h'. on_ticks ts h = Some h' \<and> emitted h' @ [current_bar h'] = emitted h @ map bar_of (groups (g @ ts))"
  using assms
proof (induction ts arbitrary: g h)
  case Nil
  obtain t g' where g: "g = t # g'" using Nil.prems(1) by (cases g) auto
  have "groups g = [g]" using Nil.prems(5) by (simp add: g takeWhile_eq_all_conv [THEN iffD2] dropWhile_eq_Nil_conv [THEN iffD2])
  then show ?case using Nil by simp
next
  case (Cons t ts)
  have ok: "tick_ok t" "tick_ok (hd g)" using Cons.prems by (cases g; simp)+
  show ?case
  proof (cases "timestamp_ns t - timestamp_ns (hd g) < BAR_DURATION_NS")
    case True
    obtain h' where h': "onTick t h = Some h'" "current_bar h' = bar_of (g @ [t])" "emitted h' = emitted h"
      using onTick_same [OF Cons.prems(1) _ ok Cons.prems(4) True] Cons.prems(2) by auto
    have "\<exists>h''. on_ticks ts h' = Some h'' \<and> emitted h'' @ [current_bar h''] = emitted h' @ map bar_of (groups ((g @ [t]) @ ts))"
      by (rule Cons.IH) (use Cons.prems True h' in \<open>auto simp: tl_append split: list.splits\<close>)
    then show ?thesis using h' by simp
  next
    case False
    obtain h' where h': "onTick t h = Some h'" "current_bar h' = bar_of [t]" "emitted h' = emitted h @ [bar_of g]"
      using onTick_new [OF Cons.prems(1) ok Cons.prems(4) False] by auto
    have "\<exists>h''. on_ticks ts h' = Some h'' \<and> emitted h'' @ [current_bar h''] = emitted h' @ map bar_of (groups ([t] @ ts))"
      by (rule Cons.IH) (use Cons.prems h' in auto)
    moreover obtain u g' where g: "g = u # g'" using Cons.prems(1) by (cases g) auto
    have "groups (g @ t # ts) = g # groups (t # ts)"
      using Cons.prems(5) False by (simp add: g takeWhile_append dropWhile_append)
    ultimately show ?thesis using h' by simp
  qed
qed

text \<open>
  Claim: The bars emitted for a stream of ticks, followed by the bar under construction, are the
  opening, highest, lowest and closing price, the volume and the count of the groups of ticks that
  lie within one second of the first tick of the group.
\<close>
theorem bars_of_groups:
  assumes "ts \<noteq> []" "int (length ts) \<le> INT_MAX" "list_all tick_ok ts"
  shows "\<exists>h. on_ticks ts MarketDataHandler = Some h \<and> emitted h @ [current_bar h] = map bar_of (groups ts)"
proof -
  obtain t ts' where ts: "ts = t # ts'" using assms(1) by (cases ts) auto
  have "chk_long (timestamp_ns t - timestamp_ns t) = Some 0" by (simp add: chk_long_def)
  then obtain h where h: "onTick t MarketDataHandler = Some h" "current_bar h = bar_of [t]" "emitted h = []"
    using bar_of_single [of t]
    by (auto simp: onTick_def start_bar_def update_ema_def MarketDataHandler_def Let_def reset_def BAR_DURATION_NS_def)
  show ?thesis
    using on_ticks_groups [of "[t]" ts' h] h assms by (auto simp: ts)
qed

lemma bars_of_groups_witness:
  "\<exists>h. on_ticks (map (demo_tick [150, 152, 149]) [0..<3]) MarketDataHandler = Some h \<and>
    emitted h @ [current_bar h] = map bar_of (groups (map (demo_tick [150, 152, 149]) [0..<3]))"
  by (rule bars_of_groups) (simp_all add: demo_tick_def tick_ok_def upt_rec)

section \<open>The moving average\<close>

lemma ema_step_between:
  assumes "lo \<le> e" "e \<le> hi" "lo \<le> p" "p \<le> (hi :: rat)"
  shows "lo \<le> e + EMA_ALPHA * (p - e) \<and> e + EMA_ALPHA * (p - e) \<le> hi"
proof -
  have "e + EMA_ALPHA * (p - e) = 9 / 10 * e + 1 / 10 * p" by (simp add: EMA_ALPHA_def field_simps)
  then show ?thesis using assms by linarith
qed

lemma start_bar_ema:
  "start_bar t h = Some h' \<Longrightarrow> ema_price h' = ema_price h \<and> ema_initialized h' = ema_initialized h"
  unfolding start_bar_def Let_def bind_Some_conv by (elim exE conjE) (auto simp: emitBar_def split: if_splits)

lemma onTick_ema:
  assumes "onTick t h = Some h'"
  shows "ema_initialized h' \<and>
     ema_price h' = (if ema_initialized h then ema_price h + EMA_ALPHA * (price t - ema_price h) else price t)"
proof -
  obtain h1 b where h1: "start_bar t (h\<lparr>ticks_processed := (ticks_processed h + 1) mod UINT64\<rparr>) = Some h1"
    and h': "h' = update_ema t (h1\<lparr>current_bar := b\<rparr>)"
    using assms unfolding onTick_def bind_Some_conv by blast
  show ?thesis using start_bar_ema [OF h1] by (simp add: h' update_ema_def)
qed

lemma ema_between:
  assumes "on_ticks ts MarketDataHandler = Some h" "ts \<noteq> []" "\<forall>t \<in> set ts. lo \<le> price t \<and> price t \<le> hi"
  shows "lo \<le> getEMA h \<and> getEMA h \<le> hi"
proof -
  have *: "on_ticks us k = Some h \<Longrightarrow> \<forall>t \<in> set us. lo \<le> price t \<and> price t \<le> hi \<Longrightarrow>
      ema_initialized k \<Longrightarrow> lo \<le> ema_price k \<and> ema_price k \<le> hi \<Longrightarrow> lo \<le> ema_price h \<and> ema_price h \<le> hi" for us k
  proof (induction us arbitrary: k)
    case (Cons u us)
    then obtain k' where k': "onTick u k = Some k'" "on_ticks us k' = Some h"
      by (cases "onTick u k") auto
    have "lo \<le> ema_price k' \<and> ema_price k' \<le> hi"
      using onTick_ema [OF k'(1)] ema_step_between [of lo "ema_price k" hi "price u"] Cons.prems by simp
    then show ?case
      using Cons.prems onTick_ema [OF k'(1)] by (intro Cons.IH [OF k'(2)]) auto
  qed simp
  obtain t ts' where ts: "ts = t # ts'" using assms(2) by (cases ts) auto
  then obtain k where k: "onTick t MarketDataHandler = Some k" "on_ticks ts' k = Some h"
    using assms(1) by (cases "onTick t MarketDataHandler") auto
  have "ema_initialized k" "ema_price k = price t"
    using onTick_ema [OF k(1)] by (simp_all add: MarketDataHandler_def)
  then have "lo \<le> ema_price h \<and> ema_price h \<le> hi"
    using assms(3) by (intro * [OF k(2)]) (auto simp: ts)
  then show ?thesis by (simp add: getEMA_def)
qed

end
