(* ===== verification/Interleaving.thy ===== *)
theory Interleaving
  imports Prelude
begin

text \<open>
  Threads that interleave over a shared state: a list of local states of which one at a time takes
  a step, for the demonstrations whose threads share atomic variables and locks. A step that is
  undefined behaviour ends in None. The two locales state what such a system has to satisfy for an
  invariant, and for a total that the threads still owe, to hold in every reachable state.
\<close>

inductive thread_reach ::
  "('l \<Rightarrow> 'g \<Rightarrow> ('l \<times> 'g) ub \<Rightarrow> bool) \<Rightarrow> 'l list \<Rightarrow> 'g \<Rightarrow> ('l list \<times> 'g) ub \<Rightarrow> bool"
  for tstep ls0 g0 where
  start: "thread_reach tstep ls0 g0 (Some (ls0, g0))"
| step: "thread_reach tstep ls0 g0 (Some (ls, g)) \<Longrightarrow> i < length ls \<Longrightarrow> tstep (ls ! i) g r \<Longrightarrow>
    thread_reach tstep ls0 g0 (map_option (\<lambda>(l', g'). (ls[i := l'], g')) r)"

lemma sum_list_map_upd:
  "i < length xs \<Longrightarrow> sum_list (map f (xs[i := y])) = sum_list (map f xs) + f y - (f (xs ! i) :: 'a :: ab_group_add)"
proof (induction xs arbitrary: i)
  case (Cons x xs)
  then show ?case by (cases i) (auto simp: algebra_simps)
qed simp

locale thread_invariant =
  fixes tstep :: "'l \<Rightarrow> 'g \<Rightarrow> ('l \<times> 'g) ub \<Rightarrow> bool"
    and inv :: "'l list \<Rightarrow> 'g \<Rightarrow> bool"
  assumes inv_step: "inv ls g \<Longrightarrow> i < length ls \<Longrightarrow> tstep (ls ! i) g r \<Longrightarrow>
    \<exists>l' g'. r = Some (l', g') \<and> inv (ls[i := l']) g'"
begin

lemma reach_inv:
  assumes "thread_reach tstep ls0 g0 r" "inv ls0 g0"
  shows "\<exists>ls g. r = Some (ls, g) \<and> inv ls g \<and> length ls = length ls0"
  using assms
proof (induction rule: thread_reach.induct)
  case (step ls g i r)
  then obtain l' g' where "r = Some (l', g')" "inv (ls[i := l']) g'" using inv_step by blast
  then show ?case using step by simp
qed simp

lemma reach_inv_Some:
  assumes "thread_reach tstep ls0 g0 (Some (ls, g))" "inv ls0 g0"
  shows "inv ls g"
  using reach_inv [OF assms] by simp

end

locale thread_conservation = thread_invariant tstep inv
  for tstep :: "'l \<Rightarrow> 'g \<Rightarrow> ('l \<times> 'g) ub \<Rightarrow> bool" and inv :: "'l list \<Rightarrow> 'g \<Rightarrow> bool" +
  fixes val :: "'g \<Rightarrow> 'v :: ab_group_add"
    and owed :: "'l \<Rightarrow> 'v"
  assumes conserved: "inv ls g \<Longrightarrow> i < length ls \<Longrightarrow> tstep (ls ! i) g (Some (l', g')) \<Longrightarrow>
    val g' + owed l' = val g + owed (ls ! i)"
begin

lemma reach_total:
  assumes "thread_reach tstep ls0 g0 r" "inv ls0 g0" "r = Some (ls, g)"
  shows "val g + sum_list (map owed ls) = val g0 + sum_list (map owed ls0)"
  using assms
proof (induction arbitrary: ls g rule: thread_reach.induct)
  case (step ls1 g1 i r)
  then obtain l' where r: "r = Some (l', g)" "ls = ls1[i := l']" by auto
  have "inv ls1 g1" using reach_inv_Some [OF step.hyps(1) step.prems(1)] .
  then have "val g + owed l' = val g1 + owed (ls1 ! i)" using conserved step.hyps(2,3) r by simp
  moreover have "val g1 + sum_list (map owed ls1) = val g0 + sum_list (map owed ls0)"
    using step.IH step.prems(1) by simp
  moreover have "val g + sum_list (map owed ls) = (val g + owed l') + (sum_list (map owed ls1) - owed (ls1 ! i))"
    using step.hyps(2) by (simp add: r(2) sum_list_map_upd algebra_simps)
  ultimately show ?case by (simp add: algebra_simps)
qed simp

lemma reach_done:
  assumes "thread_reach tstep ls0 g0 (Some (ls, g))" "inv ls0 g0" "\<forall>l \<in> set ls. owed l = 0"
  shows "val g = val g0 + sum_list (map owed ls0)"
proof -
  have "sum_list (map owed ls) = 0" using assms(3) by (induction ls) auto
  then show ?thesis using reach_total [OF assms(1,2) refl] by simp
qed

end

end
