(* ===== verification/Atomics.thy ===== *)
theory Atomics
  imports Interleaving "HOL-Library.Word"
begin

text \<open>
  src/src/concurrency/atomics.cpp: the shared counter, the spinlock and the maximum by
  compare-and-exchange, each with any number of threads that interleave at every access. An atomic
  int wraps around, the plain int of the spinlock overflows to None; compare_exchange_weak may
  fail for no reason.
\<close>

section \<open>fetch_add\<close>

text \<open>increment_counter(n): the local state is the number of iterations left.\<close>

inductive increment_counter :: "nat \<Rightarrow> 32 word \<Rightarrow> (nat \<times> 32 word) ub \<Rightarrow> bool" where
  fetch_add: "increment_counter (Suc n) c (Some (n, c + 1))"

interpretation counter: thread_conservation increment_counter "\<lambda>_ _. True" "\<lambda>c. c" of_nat
  by unfold_locales (auto elim!: increment_counter.cases)

lemma counter_total:
  assumes "thread_reach increment_counter ns 0 (Some (ls, c))" "\<forall>n \<in> set ls. n = 0"
  shows "c = of_nat (sum_list ns)"
proof -
  have "c = 0 + sum_list (map of_nat ns)" using assms by (intro counter.reach_done) auto
  moreover have "sum_list (map of_nat ns) = (of_nat (sum_list ns) :: 32 word)" by (induction ns) auto
  ultimately show ?thesis by simp
qed

definition counter_main_checks :: "32 word \<Rightarrow> bool" where
  "counter_main_checks c \<longleftrightarrow> sint c = 8 * 10000"

lemma counter_main:
  assumes "thread_reach increment_counter (replicate 8 10000) 0 (Some (ls, c))" "\<forall>n \<in> set ls. n = 0"
  shows "counter_main_checks c"
  using counter_total [OF assms] by (simp add: counter_main_checks_def sum_list_replicate)

section \<open>The spinlock\<close>

record spin_shared =
  flag :: bool
  shared_val :: int

datatype spin_thread =
    Locking nat
  | Reading nat
  | Writing nat int
  | Unlocking nat

text \<open>test_and_set returns the old value and sets the flag.\<close>

definition test_and_set :: "spin_shared \<Rightarrow> bool \<times> spin_shared" where
  "test_and_set g = (flag g, g\<lparr>flag := True\<rparr>)"

definition flag_clear :: "spin_shared \<Rightarrow> spin_shared" where
  "flag_clear g = g\<lparr>flag := False\<rparr>"

fun spin_next :: "spin_thread \<Rightarrow> spin_shared \<Rightarrow> (spin_thread \<times> spin_shared) ub" where
  "spin_next (Locking (Suc j)) g = (case test_and_set g of
     (True, g') \<Rightarrow> Some (Locking (Suc j), g') | (False, g') \<Rightarrow> Some (Reading j, g'))"
| "spin_next (Locking 0) g = Some (Locking 0, g)"
| "spin_next (Reading j) g = Some (Writing j (shared_val g), g)"
| "spin_next (Writing j r) g = do { v \<leftarrow> chk (r + 1); Some (Unlocking j, g\<lparr>shared_val := v\<rparr>) }"
| "spin_next (Unlocking j) g = Some (Locking j, flag_clear g)"

inductive spin_step :: "spin_thread \<Rightarrow> spin_shared \<Rightarrow> (spin_thread \<times> spin_shared) ub \<Rightarrow> bool" where
  running: "l \<noteq> Locking 0 \<Longrightarrow> spin_step l g (spin_next l g)"

fun critical :: "spin_thread \<Rightarrow> nat" where
  "critical (Locking j) = 0"
| "critical _ = 1"

fun increments_left :: "spin_thread \<Rightarrow> int" where
  "increments_left (Locking j) = int j"
| "increments_left (Reading j) = int j + 1"
| "increments_left (Writing j r) = int j + 1"
| "increments_left (Unlocking j) = int j"

definition spin_inv :: "spin_thread list \<Rightarrow> spin_shared \<Rightarrow> bool" where
  "spin_inv ls g \<longleftrightarrow> weigh critical ls = (if flag g then 1 else 0) \<and>
     (\<forall>j r. Writing j r \<in> set ls \<longrightarrow> r = shared_val g) \<and>
     0 \<le> shared_val g \<and> shared_val g + sum_list (map increments_left ls) \<le> INT_MAX"

lemma increments_left_nonneg: "0 \<le> increments_left l"
  by (cases l) auto

lemma increments_left_le: "i < length ls \<Longrightarrow> increments_left (ls ! i) \<le> sum_list (map increments_left ls)"
proof (induction ls arbitrary: i)
  case (Cons l ls)
  have "0 \<le> sum_list (map increments_left ls)" by (induction ls) (auto simp: increments_left_nonneg)
  moreover have "0 \<le> increments_left l" by (rule increments_left_nonneg)
  ultimately show ?case using Cons.prems Cons.IH by (cases i) (auto intro: add_increasing)
qed simp

lemma spin_inv_step:
  assumes inv: "spin_inv ls g" and i: "i < length ls" and step: "spin_step (ls ! i) g r"
  shows "\<exists>l' g'. r = Some (l', g') \<and> spin_inv (ls[i := l']) g' \<and>
    shared_val g' + increments_left l' = shared_val g + increments_left (ls ! i)"
proof -
  have r: "r = spin_next (ls ! i) g" and l: "ls ! i \<noteq> Locking 0" using step by (auto elim: spin_step.cases)
  have w: "weigh critical (ls[i := l']) + critical (ls ! i) = weigh critical ls + critical l'" for l'
    using weigh_update [OF i] .
  have s: "sum_list (map increments_left (ls[i := l'])) =
      sum_list (map increments_left ls) + increments_left l' - increments_left (ls ! i)" for l'
    using sum_list_map_upd [OF i] .
  have alone: "Writing j v = z" if "critical (ls ! i) = 1" "Writing j v \<in> set (ls[i := z])" for j v z
    using that inv weigh_ge [OF i, of critical] i
    by (intro weigh_others [of critical ls i]) (auto simp: spin_inv_def split: if_splits)
  show ?thesis
  proof (cases "ls ! i")
    case (Locking j)
    then obtain k where k: "j = Suc k" using l by (cases j) auto
    then show ?thesis
      using inv w s Locking r by (cases "flag g") (auto simp: spin_inv_def test_and_set_def dest!: in_update)
  next
    case (Reading j)
    then show ?thesis using inv w [of "Writing j (shared_val g)"] s r by (auto simp: spin_inv_def dest!: in_update)
  next
    case (Writing j v)
    have v: "v = shared_val g" using inv i Writing by (auto simp: spin_inv_def in_set_conv_nth)
    have "shared_val g + 1 \<le> INT_MAX"
      using inv increments_left_le [OF i] Writing by (simp add: spin_inv_def)
    then have "chk (v + 1) = Some (shared_val g + 1)"
      using inv by (simp add: v spin_inv_def ub_simps)
    then show ?thesis using inv w [of "Unlocking j"] s r Writing alone [of _ _ "Unlocking j"] by (auto simp: spin_inv_def)
  next
    case (Unlocking j)
    then show ?thesis using inv w [of "Locking j"] s r alone [of _ _ "Locking j"]
      by (auto simp: spin_inv_def flag_clear_def split: if_splits)
  qed
qed

interpretation spinlock: thread_conservation spin_step spin_inv shared_val increments_left
proof unfold_locales
  fix ls g i r assume "spin_inv ls g" "i < length ls" "spin_step (ls ! i) g r"
  then show "\<exists>l' g'. r = Some (l', g') \<and> spin_inv (ls[i := l']) g'" using spin_inv_step by blast
next
  fix ls g i l' g' assume "spin_inv ls g" "i < length ls" "spin_step (ls ! i) g (Some (l', g'))"
  then show "shared_val g' + increments_left l' = shared_val g + increments_left (ls ! i)"
    using spin_inv_step by blast
qed

definition spin_start :: spin_shared where
  "spin_start = \<lparr>flag = False, shared_val = 0\<rparr>"

lemma spin_inv_start:
  "int (sum_list ns) \<le> INT_MAX \<Longrightarrow> spin_inv (map Locking ns) spin_start"
proof -
  have "sum_list (map (increments_left \<circ> Locking) ns) = int (sum_list ns)" by (induction ns) auto
  moreover have "weigh critical (map Locking ns) = 0" by (simp add: weigh_0_iff)
  ultimately show "int (sum_list ns) \<le> INT_MAX \<Longrightarrow> ?thesis" by (auto simp: spin_inv_def spin_start_def)
qed

text \<open>
  Claim: Whatever the interleaving, the increments under the spinlock never overflow, at most one
  thread is between lock and unlock, and when all threads are done no increment is lost.
\<close>
theorem spinlock_mutex:
  assumes "int (sum_list ns) \<le> INT_MAX" "thread_reach spin_step (map Locking ns) spin_start r"
  shows "\<exists>ls g. r = Some (ls, g) \<and> weigh critical ls \<le> 1 \<and>
    (set ls \<subseteq> {Locking 0} \<longrightarrow> shared_val g = int (sum_list ns))"
proof -
  note start = spin_inv_start [OF assms(1)]
  obtain ls g where r: "r = Some (ls, g)" "spin_inv ls g" using spinlock.reach_inv [OF assms(2) start] by blast
  have "shared_val g = shared_val spin_start + sum_list (map increments_left (map Locking ns))" if "set ls \<subseteq> {Locking 0}"
    using assms(2) start that by (intro spinlock.reach_done [of _ _ ls g]) (auto simp: r(1))
  moreover have "sum_list (map (increments_left \<circ> Locking) ns) = int (sum_list ns)" by (induction ns) auto
  ultimately show ?thesis using r by (auto simp: spin_inv_def spin_start_def)
qed

lemma spin_run_one: "thread_reach spin_step (map Locking [1]) spin_start (Some ([Locking 0], \<lparr>flag = False, shared_val = 1\<rparr>))"
proof -
  have go: "thread_reach spin_step ls0 g0 (Some ([l'], g'))"
    if "thread_reach spin_step ls0 g0 (Some ([l], g))" "l \<noteq> Locking 0" "spin_next l g = Some (l', g')" for ls0 g0 l g l' g'
    using thread_reach.step [OF that(1), of 0 "spin_next l g"] spin_step.running [OF that(2), of g] that(3) by simp
  have "thread_reach spin_step (map Locking [1]) spin_start (Some ([Locking 1], \<lparr>flag = False, shared_val = 0\<rparr>))"
    using thread_reach.start [of spin_step "map Locking [1]" spin_start] by (simp add: spin_start_def)
  then have "thread_reach spin_step (map Locking [1]) spin_start (Some ([Reading 0], \<lparr>flag = True, shared_val = 0\<rparr>))"
    by (rule go) (simp_all add: One_nat_def test_and_set_def del: One_nat_def [symmetric])
  then have "thread_reach spin_step (map Locking [1]) spin_start (Some ([Writing 0 0], \<lparr>flag = True, shared_val = 0\<rparr>))"
    by (rule go) simp_all
  then have "thread_reach spin_step (map Locking [1]) spin_start (Some ([Unlocking 0], \<lparr>flag = True, shared_val = 1\<rparr>))"
    by (rule go) (simp_all add: ub_simps)
  then show ?thesis by (rule go) (simp_all add: flag_clear_def)
qed

lemma spinlock_mutex_witness: "weigh critical [Locking 0] \<le> 1 \<and> shared_val \<lparr>flag = False, shared_val = 1\<rparr> = int (sum_list [1])"
  using spinlock_mutex [OF _ spin_run_one] by simp

lemma spinlock_main:
  assumes "thread_reach spin_step (map Locking (replicate 8 1000)) spin_start (Some (ls, g))" "set ls \<subseteq> {Locking 0}"
  shows "shared_val g = 8 * 1000"
proof -
  have "shared_val g = shared_val spin_start + sum_list (map increments_left (map Locking (replicate 8 1000)))"
    using assms by (intro spinlock.reach_done [OF assms(1) spin_inv_start]) (auto simp: sum_list_replicate)
  then show ?thesis by (simp add: spin_start_def sum_list_replicate)
qed

section \<open>Maximum by compare-and-exchange\<close>

datatype max_thread = Load int | Loop int int | Done int

text \<open>The expected value is updated on failure; success is possible only when it is current.\<close>

inductive update_max :: "max_thread \<Rightarrow> int \<Rightarrow> (max_thread \<times> int) ub \<Rightarrow> bool" where
  load: "update_max (Load proposed) shared_max (Some (Loop proposed shared_max, shared_max))"
| not_greater: "\<not> proposed > cur \<Longrightarrow> update_max (Loop proposed cur) shared_max (Some (Done proposed, shared_max))"
| exchange: "proposed > cur \<Longrightarrow> shared_max = cur \<Longrightarrow>
    update_max (Loop proposed cur) shared_max (Some (Done proposed, proposed))"
| fail: "proposed > cur \<Longrightarrow> update_max (Loop proposed cur) shared_max (Some (Loop proposed shared_max, shared_max))"

fun proposal :: "max_thread \<Rightarrow> int" where
  "proposal (Load p) = p"
| "proposal (Loop p c) = p"
| "proposal (Done p) = p"

definition max_inv :: "int \<Rightarrow> int list \<Rightarrow> max_thread list \<Rightarrow> int \<Rightarrow> bool" where
  "max_inv m0 ps ls m \<longleftrightarrow> map proposal ls = ps \<and> m0 \<le> m \<and> m \<in> insert m0 (set ps) \<and>
     (\<forall>p c. Loop p c \<in> set ls \<longrightarrow> c \<le> m) \<and> (\<forall>p. Done p \<in> set ls \<longrightarrow> p \<le> m)"

lemma map_upd_same: "i < length xs \<Longrightarrow> f y = f (xs ! i) \<Longrightarrow> map f (xs[i := y]) = map f xs"
  by (metis list_update_id map_update)

lemma max_inv_step:
  assumes inv: "max_inv m0 ps ls m" and i: "i < length ls" and step: "update_max (ls ! i) m r"
  shows "\<exists>l' m'. r = Some (l', m') \<and> max_inv m0 ps (ls[i := l']) m'"
  using step
proof (cases rule: update_max.cases)
  case (load p)
  then show ?thesis using inv map_upd_same [OF i, of proposal "Loop p m"] by (auto simp: max_inv_def dest!: in_update)
next
  case (not_greater p cur)
  have "Loop p cur \<in> set ls" using i not_greater by (metis nth_mem)
  then have "p \<le> m" using inv not_greater unfolding max_inv_def by fastforce
  then show ?thesis using not_greater inv map_upd_same [OF i, of proposal "Done p"] by (auto simp: max_inv_def dest!: in_update)
next
  case (exchange p cur)
  have "p \<in> set ps" using inv i exchange(1) unfolding max_inv_def by (metis nth_mem in_set_conv_nth length_map nth_map proposal.simps(2))
  then show ?thesis using exchange inv map_upd_same [OF i, of proposal "Done p"]
    by (auto simp: max_inv_def dest!: in_update) force+
next
  case (fail p cur)
  then show ?thesis using inv map_upd_same [OF i, of proposal "Loop p m"] by (auto simp: max_inv_def dest!: in_update)
qed

interpretation cas_max: thread_invariant update_max "max_inv m0 ps" for m0 ps
  by unfold_locales (rule max_inv_step)

lemma update_max_final:
  assumes "thread_reach update_max (map Load ps) m0 (Some (ls, m))" "\<forall>l \<in> set ls. \<exists>p. l = Done p"
  shows "m = Max (insert m0 (set ps))"
proof -
  have "max_inv m0 ps (map Load ps) m0" by (auto simp: max_inv_def comp_def)
  then have inv: "max_inv m0 ps ls m" using cas_max.reach_inv_Some [OF assms(1)] by blast
  have "p \<le> m" if "p \<in> set ps" for p
  proof -
    have "p \<in> proposal ` set ls" using inv that by (auto simp: max_inv_def simp flip: set_map)
    then have "Done p \<in> set ls" using assms(2) by force
    then show ?thesis using inv by (auto simp: max_inv_def)
  qed
  then show ?thesis using inv by (intro Max_eqI [symmetric]) (auto simp: max_inv_def)
qed

lemma max_main:
  assumes "thread_reach update_max (map Load (map (\<lambda>i. i * 10) [0..7])) 0 (Some (ls, m))" "\<forall>l \<in> set ls. \<exists>p. l = Done p"
  shows "m = (8 - 1) * 10"
  using update_max_final [OF assms] by (simp add: upto_rec1)

end
