(* ===== verification/Memory_Model.thy ===== *)
theory Memory_Model
  imports Atomics
begin

text \<open>
  src/src/concurrency/memory_model.cpp: the relaxed counter, message passing through a release
  store and an acquire load, and Dekker's pattern under sequential consistency. Every access of a
  shared variable is a step; an access of the payload by both threads at once would be a data race
  and a failed assertion ends in None. Weaker orders than those of the source are not modelled.
\<close>

section \<open>The relaxed counter\<close>

definition count_events :: "nat \<Rightarrow> 32 word \<Rightarrow> (nat \<times> 32 word) ub \<Rightarrow> bool" where
  "count_events = increment_counter"

lemma count_events_main:
  assumes "thread_reach count_events (replicate 4 10000) 0 (Some (ls, c))" "\<forall>n \<in> set ls. n = 0"
  shows "sint c = 4 * 10000"
  using counter_total [OF assms [unfolded count_events_def]] by (simp add: sum_list_replicate)

section \<open>Message passing\<close>

record shared_message =
  msg_x :: int
  msg_y :: int
  msg_z :: int
  ready :: bool

datatype messenger = Write_X | Write_Y | Write_Z | Set_Ready | Sent | Spin | Read_Message | Seen "int \<times> int \<times> int"

definition message_start :: shared_message where
  "message_start = \<lparr>msg_x = 0, msg_y = 0, msg_z = 0, ready = False\<rparr>"

fun message_next :: "messenger \<Rightarrow> shared_message \<Rightarrow> (messenger \<times> shared_message) ub" where
  "message_next Write_X g = Some (Write_Y, g\<lparr>msg_x := 1\<rparr>)"
| "message_next Write_Y g = Some (Write_Z, g\<lparr>msg_y := 2\<rparr>)"
| "message_next Write_Z g = Some (Set_Ready, g\<lparr>msg_z := 3\<rparr>)"
| "message_next Set_Ready g = Some (Sent, g\<lparr>ready := True\<rparr>)"
| "message_next Spin g = Some (if ready g then Read_Message else Spin, g)"
| "message_next Read_Message g = do {
     _ \<leftarrow> guard (msg_x g = 1 \<and> msg_y g = 2 \<and> msg_z g = 3);
     Some (Seen (msg_x g, msg_y g, msg_z g), g) }"
| "message_next Sent g = Some (Sent, g)"
| "message_next (Seen m) g = Some (Seen m, g)"

inductive message_step :: "messenger \<Rightarrow> shared_message \<Rightarrow> (messenger \<times> shared_message) ub \<Rightarrow> bool" where
  "message_step l g (message_next l g)"

text \<open>The producer is the first thread, the consumer the second.\<close>

fun producer_inv :: "messenger \<Rightarrow> shared_message \<Rightarrow> bool" where
  "producer_inv Write_X g \<longleftrightarrow> \<not> ready g"
| "producer_inv Write_Y g \<longleftrightarrow> \<not> ready g \<and> msg_x g = 1"
| "producer_inv Write_Z g \<longleftrightarrow> \<not> ready g \<and> msg_x g = 1 \<and> msg_y g = 2"
| "producer_inv Set_Ready g \<longleftrightarrow> \<not> ready g \<and> msg_x g = 1 \<and> msg_y g = 2 \<and> msg_z g = 3"
| "producer_inv Sent g \<longleftrightarrow> ready g \<and> msg_x g = 1 \<and> msg_y g = 2 \<and> msg_z g = 3"
| "producer_inv _ g \<longleftrightarrow> False"

fun consumer_inv :: "messenger \<Rightarrow> shared_message \<Rightarrow> bool" where
  "consumer_inv Spin g \<longleftrightarrow> True"
| "consumer_inv Read_Message g \<longleftrightarrow> ready g"
| "consumer_inv (Seen m) g \<longleftrightarrow> m = (1, 2, 3)"
| "consumer_inv _ g \<longleftrightarrow> False"

definition message_inv :: "messenger list \<Rightarrow> shared_message \<Rightarrow> bool" where
  "message_inv ls g \<longleftrightarrow> (\<exists>p c. ls = [p, c] \<and> producer_inv p g \<and> consumer_inv c g)"

lemma message_producer: "producer_inv p g \<Longrightarrow> consumer_inv c g \<Longrightarrow>
    \<exists>p' g'. message_next p g = Some (p', g') \<and> producer_inv p' g' \<and> consumer_inv c g'"
  by (cases p; cases c) auto

lemma ready_only_Sent: "producer_inv p g \<Longrightarrow> ready g \<Longrightarrow> p = Sent"
  by (cases p) auto

lemma message_consumer: "producer_inv p g \<Longrightarrow> consumer_inv c g \<Longrightarrow>
    \<exists>c' g'. message_next c g = Some (c', g') \<and> producer_inv p g' \<and> consumer_inv c' g'"
  using ready_only_Sent [of p g] by (cases c) auto

interpretation message_passing: thread_invariant message_step message_inv
proof unfold_locales
  fix ls g i r assume inv: "message_inv ls g" and i: "i < length ls" and "message_step (ls ! i) g r"
  then have r: "r = message_next (ls ! i) g" by (auto elim: message_step.cases)
  obtain p c where ls: "ls = [p, c]" "producer_inv p g" "consumer_inv c g" using inv by (auto simp: message_inv_def)
  show "\<exists>l' g'. r = Some (l', g') \<and> message_inv (ls[i := l']) g'"
    using i r message_producer [OF ls(2,3)] message_consumer [OF ls(2,3)]
    by (cases i) (auto simp: message_inv_def ls(1) less_Suc_eq)
qed

lemma message_passing_correct:
  assumes "thread_reach message_step [Write_X, Spin] message_start r"
  shows "\<exists>p c g. r = Some ([p, c], g) \<and> (c = Read_Message \<longrightarrow> p = Sent) \<and> (\<forall>m. c = Seen m \<longrightarrow> m = (1, 2, 3))"
proof -
  have "message_inv [Write_X, Spin] message_start" by (simp add: message_inv_def message_start_def)
  then obtain ls g where r: "r = Some (ls, g)" "message_inv ls g" using message_passing.reach_inv [OF assms] by blast
  then obtain p c where "ls = [p, c]" "producer_inv p g" "consumer_inv c g" by (auto simp: message_inv_def)
  then show ?thesis using r(1) ready_only_Sent by auto
qed

section \<open>Dekker's pattern\<close>

record flags =
  flag_a :: bool
  flag_b :: bool
  observer_count :: int

datatype dekker_side = A | B

datatype dekker = Store_Flag dekker_side | Load_Flag dekker_side | Fetch_Add dekker_side | Returned dekker_side bool

definition flags_start :: flags where
  "flags_start = \<lparr>flag_a = False, flag_b = False, observer_count = 0\<rparr>"

text \<open>thread_a and thread_b; Returned records whether the thread has counted itself.\<close>

fun dekker_next :: "dekker \<Rightarrow> flags \<Rightarrow> dekker \<times> flags" where
  "dekker_next (Store_Flag A) g = (Load_Flag A, g\<lparr>flag_a := True\<rparr>)"
| "dekker_next (Store_Flag B) g = (Load_Flag B, g\<lparr>flag_b := True\<rparr>)"
| "dekker_next (Load_Flag A) g = (if \<not> flag_b g then Fetch_Add A else Returned A False, g)"
| "dekker_next (Load_Flag B) g = (if \<not> flag_a g then Fetch_Add B else Returned B False, g)"
| "dekker_next (Fetch_Add s) g = (Returned s True, g\<lparr>observer_count := observer_count g + 1\<rparr>)"
| "dekker_next (Returned s b) g = (Returned s b, g)"

inductive dekker_step :: "dekker \<Rightarrow> flags \<Rightarrow> (dekker \<times> flags) ub \<Rightarrow> bool" where
  "dekker_step l g (Some (dekker_next l g))"

fun entered :: "dekker \<Rightarrow> bool" where
  "entered (Fetch_Add s) = True"
| "entered (Returned s b) = b"
| "entered _ = False"

fun counted :: "dekker \<Rightarrow> int" where
  "counted (Returned s True) = 1"
| "counted _ = 0"

fun side_of :: "dekker \<Rightarrow> dekker_side" where
  "side_of (Store_Flag s) = s"
| "side_of (Load_Flag s) = s"
| "side_of (Fetch_Add s) = s"
| "side_of (Returned s b) = s"

definition dekker_inv :: "dekker list \<Rightarrow> flags \<Rightarrow> bool" where
  "dekker_inv ls g \<longleftrightarrow> (\<exists>a b. ls = [a, b] \<and> side_of a = A \<and> side_of b = B \<and>
     (flag_a g \<longleftrightarrow> a \<noteq> Store_Flag A) \<and> (flag_b g \<longleftrightarrow> b \<noteq> Store_Flag B) \<and>
     \<not> (entered a \<and> entered b) \<and> observer_count g = counted a + counted b)"

interpretation dekker: thread_invariant dekker_step dekker_inv
proof unfold_locales
  fix ls g i r assume inv: "dekker_inv ls g" and i: "i < length ls" and "dekker_step (ls ! i) g r"
  then have r: "r = Some (dekker_next (ls ! i) g)" by (auto elim: dekker_step.cases)
  obtain a b where ls: "ls = [a, b]" using inv by (auto simp: dekker_inv_def)
  have "\<exists>l' g'. dekker_next (ls ! 0) g = (l', g') \<and> dekker_inv ([l', b]) g'"
    using inv by (cases "(a, g)" rule: dekker_next.cases) (auto simp: dekker_inv_def ls)
  moreover have "\<exists>l' g'. dekker_next (ls ! 1) g = (l', g') \<and> dekker_inv ([a, l']) g'"
    using inv by (cases "(b, g)" rule: dekker_next.cases) (auto simp: dekker_inv_def ls)
  ultimately show "\<exists>l' g'. r = Some (l', g') \<and> dekker_inv (ls[i := l']) g'"
    using i r by (cases i) (auto simp: ls less_Suc_eq)
qed

text \<open>main's assertion holds at every moment of a trial.\<close>

lemma dekker_at_most_one:
  assumes "thread_reach dekker_step [Store_Flag A, Store_Flag B] flags_start r"
  shows "\<exists>ls g. r = Some (ls, g) \<and> observer_count g \<le> 1"
proof -
  have "dekker_inv [Store_Flag A, Store_Flag B] flags_start" by (simp add: dekker_inv_def flags_start_def)
  then obtain ls g where r: "r = Some (ls, g)" "dekker_inv ls g" using dekker.reach_inv [OF assms] by blast
  then obtain a b where ab: "\<not> (entered a \<and> entered b)" "observer_count g = counted a + counted b"
    by (auto simp: dekker_inv_def)
  have "counted d = (if entered d then counted d else 0)" "counted d \<le> 1" for d
    by (cases d rule: counted.cases; simp)+
  then have "observer_count g \<le> 1" using ab by (smt (verit))
  then show ?thesis using r by blast
qed

end
