(* ===== verification/Mutex_Condvar.thy ===== *)
theory Mutex_Condvar
  imports Interleaving
begin

text \<open>
  src/src/concurrency/mutex_condvar.cpp: the producer and the consumer with a condition variable,
  and the transfers between two accounts. What a thread does while it holds a mutex is one step. A
  consumer in cv.wait sleeps while the flag asleep is set, which a notification resets; with the
  argument spurious it may also wake without one.
\<close>

section \<open>Producer and consumer\<close>

record pc_shared =
  buffer :: "int list"
  finished :: bool
  asleep :: bool
  consumed :: "int list"

datatype pc_thread =
    Push int
  | Notify_One int
  | Set_Done
  | Notify_All
  | Producer_End
  | Wait_Or_Take
  | Sleeping
  | Consumer_End

definition pc_start :: pc_shared where
  "pc_start = \<lparr>buffer = [], finished = False, asleep = False, consumed = []\<rparr>"

inductive pc_step :: "bool \<Rightarrow> int \<Rightarrow> pc_thread \<Rightarrow> pc_shared \<Rightarrow> (pc_thread \<times> pc_shared) ub \<Rightarrow> bool"
  for spurious num_items where
  push: "i < num_items \<Longrightarrow> pc_step spurious num_items (Push i) g (Some (Notify_One i, g\<lparr>buffer := buffer g @ [i]\<rparr>))"
| notify_one: "pc_step spurious num_items (Notify_One i) g (Some (Push (i + 1), g\<lparr>asleep := False\<rparr>))"
| loop_end: "\<not> i < num_items \<Longrightarrow> pc_step spurious num_items (Push i) g (Some (Set_Done, g))"
| set_done: "pc_step spurious num_items Set_Done g (Some (Notify_All, g\<lparr>finished := True\<rparr>))"
| notify_all: "pc_step spurious num_items Notify_All g (Some (Producer_End, g\<lparr>asleep := False\<rparr>))"
| wait: "buffer g = [] \<Longrightarrow> \<not> finished g \<Longrightarrow>
    pc_step spurious num_items Wait_Or_Take g (Some (Sleeping, g\<lparr>asleep := True\<rparr>))"
| take_all: "buffer g \<noteq> [] \<or> finished g \<Longrightarrow>
    pc_step spurious num_items Wait_Or_Take g
      (Some (if finished g then Consumer_End else Wait_Or_Take, g\<lparr>buffer := [], consumed := consumed g @ buffer g\<rparr>))"
| wake: "\<not> asleep g \<or> spurious \<Longrightarrow> pc_step spurious num_items Sleeping g (Some (Wait_Or_Take, g\<lparr>asleep := False\<rparr>))"

fun produced_by :: "int \<Rightarrow> pc_thread \<Rightarrow> int list" where
  "produced_by num_items (Push i) = [0..i - 1]"
| "produced_by num_items (Notify_One i) = [0..i]"
| "produced_by num_items _ = [0..num_items - 1]"

fun producer_ok :: "int \<Rightarrow> pc_thread \<Rightarrow> pc_shared \<Rightarrow> bool" where
  "producer_ok num_items (Push i) g \<longleftrightarrow> 0 \<le> i \<and> i \<le> num_items \<and> \<not> finished g"
| "producer_ok num_items (Notify_One i) g \<longleftrightarrow> 0 \<le> i \<and> i < num_items \<and> \<not> finished g"
| "producer_ok num_items Set_Done g \<longleftrightarrow> \<not> finished g"
| "producer_ok num_items Notify_All g \<longleftrightarrow> finished g"
| "producer_ok num_items Producer_End g \<longleftrightarrow> finished g"
| "producer_ok num_items _ g \<longleftrightarrow> False"

fun notifying :: "pc_thread \<Rightarrow> bool" where
  "notifying (Notify_One i) = True"
| "notifying Notify_All = True"
| "notifying _ = False"

fun consumer_ok :: "pc_thread \<Rightarrow> pc_thread \<Rightarrow> pc_shared \<Rightarrow> bool" where
  "consumer_ok p Wait_Or_Take g \<longleftrightarrow> True"
| "consumer_ok p Sleeping g \<longleftrightarrow> (asleep g \<and> (buffer g \<noteq> [] \<or> finished g) \<longrightarrow> notifying p)"
| "consumer_ok p Consumer_End g \<longleftrightarrow> finished g \<and> buffer g = []"
| "consumer_ok p _ g \<longleftrightarrow> False"

definition pc_inv :: "int \<Rightarrow> pc_thread list \<Rightarrow> pc_shared \<Rightarrow> bool" where
  "pc_inv num_items ls g \<longleftrightarrow> (\<exists>p c. ls = [p, c] \<and> producer_ok num_items p g \<and> consumer_ok p c g \<and>
     consumed g @ buffer g = produced_by num_items p)"

lemma pc_producer:
  assumes "producer_ok n p g" "consumer_ok p c g" "consumed g @ buffer g = produced_by n p" "pc_step sp n p g r"
  shows "\<exists>p' g'. r = Some (p', g') \<and> producer_ok n p' g' \<and> consumer_ok p' c g' \<and> consumed g' @ buffer g' = produced_by n p'"
  using assms(4)
proof (cases rule: pc_step.cases)
  case (push i)
  have "[0..i - 1] @ [i] = [0..i]" using push assms(1) upto_rec2 [of 0 i] by simp
  moreover have "(consumed g @ buffer g) @ [i] = [0..i - 1] @ [i]" using push assms(3) by simp
  ultimately show ?thesis using push assms(1,2) by (cases c) auto
next
  case (notify_one i)
  then show ?thesis using assms by (cases c) auto
next
  case (loop_end i)
  then show ?thesis using assms by (cases c) auto
next
  case set_done
  then show ?thesis using assms by (cases c) auto
next
  case notify_all
  then show ?thesis using assms by (cases c) auto
qed (use assms in auto)

lemma pc_consumer:
  assumes "producer_ok n p g" "consumer_ok p c g" "consumed g @ buffer g = produced_by n p" "pc_step sp n c g r"
  shows "\<exists>c' g'. r = Some (c', g') \<and> producer_ok n p g' \<and> consumer_ok p c' g' \<and> consumed g' @ buffer g' = produced_by n p"
  using assms(4)
proof (cases rule: pc_step.cases)
  case wait
  then show ?thesis using assms by (cases p) auto
next
  case take_all
  then show ?thesis using assms by (cases p) auto
next
  case wake
  then show ?thesis using assms by (cases p) auto
qed (use assms in auto)

interpretation producer_consumer: thread_invariant "pc_step sp n" "pc_inv n" for sp n
proof unfold_locales
  fix ls g i r assume inv: "pc_inv n ls g" and i: "i < length ls" and step: "pc_step sp n (ls ! i) g r"
  obtain p c where ls: "ls = [p, c]" and ok: "producer_ok n p g" "consumer_ok p c g" "consumed g @ buffer g = produced_by n p"
    using inv by (auto simp: pc_inv_def)
  show "\<exists>l' g'. r = Some (l', g') \<and> pc_inv n (ls[i := l']) g'"
  proof (cases "i = 0")
    case True
    then show ?thesis using pc_producer [OF ok] step by (auto simp: ls pc_inv_def)
  next
    case False
    then have "i = 1" using i by (simp add: ls)
    then show ?thesis using pc_consumer [OF ok] step by (auto simp: ls pc_inv_def)
  qed
qed

text \<open>
  When neither thread can move without a spurious wakeup, both have ended and the consumer has got
  the items 0 to n - 1 in order, which is main's assertion.
\<close>

lemma pc_stuck_complete:
  assumes "0 \<le> n" "thread_reach (pc_step sp n) [Push 0, Wait_Or_Take] pc_start (Some (ls, g))"
    and stuck: "\<And>i r. i < length ls \<Longrightarrow> \<not> pc_step False n (ls ! i) g r"
  shows "consumed g = [0..n - 1]"
proof -
  have "pc_inv n [Push 0, Wait_Or_Take] pc_start" using assms(1) by (simp add: pc_inv_def pc_start_def)
  then have "pc_inv n ls g" using producer_consumer.reach_inv_Some [OF assms(2)] by blast
  then obtain p c where ls: "ls = [p, c]" and ok: "producer_ok n p g" "consumer_ok p c g" "consumed g @ buffer g = produced_by n p"
    by (auto simp: pc_inv_def)
  have np: "\<not> pc_step False n p g r" and nc: "\<not> pc_step False n c g r" for r
    using stuck [of 0 r] stuck [of 1 r] by (simp_all add: ls)
  have p: "p = Producer_End"
    using ok(1) np pc_step.push pc_step.loop_end pc_step.notify_one pc_step.set_done pc_step.notify_all
    by (cases p) (auto, blast+)
  have "c = Consumer_End"
    using ok(2) nc pc_step.wait pc_step.take_all pc_step.wake by (cases c) (auto simp: p, (metis ok(1) p producer_ok.simps(5))+)
  then show ?thesis using ok(2,3) p by simp
qed

section \<open>Transfers\<close>

record accounts =
  balance_a :: int
  balance_b :: int

text \<open>A thread of main: transfers left, from a to b or back, and the amount.\<close>

datatype transfers = A_To_B nat int | B_To_A nat int

text \<open>transfer(from, to, amount) on the two balances.\<close>

definition transfer :: "int \<Rightarrow> int \<Rightarrow> int \<Rightarrow> (int \<times> int) ub" where
  "transfer from' to amount =
     (if from' \<ge> amount then do { f \<leftarrow> chk (from' - amount); t \<leftarrow> chk (to + amount); Some (f, t) } else Some (from', to))"

fun transfer_next :: "transfers \<Rightarrow> accounts \<Rightarrow> (transfers \<times> accounts) ub" where
  "transfer_next (A_To_B k amount) g = do {
     (a, b) \<leftarrow> transfer (balance_a g) (balance_b g) amount;
     Some (A_To_B (k - 1) amount, \<lparr>balance_a = a, balance_b = b\<rparr>) }"
| "transfer_next (B_To_A k amount) g = do {
     (b, a) \<leftarrow> transfer (balance_b g) (balance_a g) amount;
     Some (B_To_A (k - 1) amount, \<lparr>balance_a = a, balance_b = b\<rparr>) }"

fun transfers_left :: "transfers \<Rightarrow> nat" where
  "transfers_left (A_To_B k amount) = k"
| "transfers_left (B_To_A k amount) = k"

fun amount_of :: "transfers \<Rightarrow> int" where
  "amount_of (A_To_B k amount) = amount"
| "amount_of (B_To_A k amount) = amount"

inductive transfer_step :: "transfers \<Rightarrow> accounts \<Rightarrow> (transfers \<times> accounts) ub \<Rightarrow> bool" where
  "0 < transfers_left l \<Longrightarrow> transfer_step l g (transfer_next l g)"

definition money_inv :: "transfers list \<Rightarrow> accounts \<Rightarrow> bool" where
  "money_inv ls g \<longleftrightarrow> 0 \<le> balance_a g \<and> 0 \<le> balance_b g \<and> balance_a g + balance_b g \<le> INT_MAX \<and>
     (\<forall>l \<in> set ls. 0 \<le> amount_of l)"

lemma transfer_total:
  assumes "0 \<le> a" "0 \<le> b" "a + b \<le> INT_MAX" "0 \<le> amount"
  shows "\<exists>a' b'. transfer a b amount = Some (a', b') \<and> 0 \<le> a' \<and> 0 \<le> b' \<and> a' + b' = a + b"
  using assms by (auto simp: transfer_def ub_simps)

lemma transfer_next_total:
  assumes "money_inv ls g" "l \<in> set ls"
  shows "\<exists>l' g'. transfer_next l g = Some (l', g') \<and> 0 \<le> balance_a g' \<and> 0 \<le> balance_b g' \<and>
    balance_a g' + balance_b g' = balance_a g + balance_b g \<and> amount_of l' = amount_of l"
proof (cases l)
  case (A_To_B k amount)
  then have "0 \<le> amount" using assms by (auto simp: money_inv_def)
  then show ?thesis using transfer_total [of "balance_a g" "balance_b g" amount] assms A_To_B by (auto simp: money_inv_def)
next
  case (B_To_A k amount)
  then have "0 \<le> amount" using assms by (auto simp: money_inv_def)
  then show ?thesis using transfer_total [of "balance_b g" "balance_a g" amount] assms B_To_A
    by (auto simp: money_inv_def add.commute)
qed

interpretation money: thread_conservation transfer_step money_inv "\<lambda>g. balance_a g + balance_b g" "\<lambda>_. 0"
proof unfold_locales
  fix ls g i r assume inv: "money_inv ls g" and i: "i < length ls" and "transfer_step (ls ! i) g r"
  then have r: "r = transfer_next (ls ! i) g" by (auto elim: transfer_step.cases)
  have "0 \<le> amount_of (ls ! i)" using inv i by (simp add: money_inv_def)
  then show "\<exists>l' g'. r = Some (l', g') \<and> money_inv (ls[i := l']) g'"
    using transfer_next_total [OF inv, of "ls ! i"] i inv r by (auto simp: money_inv_def dest!: in_update)
next
  fix ls g i l' g' assume inv: "money_inv ls g" "i < length ls" and "transfer_step (ls ! i) g (Some (l', g'))"
  then have "transfer_next (ls ! i) g = Some (l', g')" by (auto elim: transfer_step.cases)
  then show "balance_a g' + balance_b g' + 0 = balance_a g + balance_b g + 0"
    using transfer_next_total [OF inv(1), of "ls ! i"] inv(2) by auto
qed

lemma transfers_main:
  assumes "thread_reach transfer_step [A_To_B 100 5, B_To_A 100 3] \<lparr>balance_a = 1000, balance_b = 500\<rparr> (Some (ls, g))"
  shows "balance_a g + balance_b g = 1500"
  using money.reach_total [OF assms _ refl] by (simp add: money_inv_def)

end
