(* ===== verification/Event_Bus.thy ===== *)
theory Event_Bus
  imports Prelude
begin

text \<open>
  What the three publish/subscribe components promise (Observer, Mediator, Modern_Observer): the
  listeners of an event are the live subscriptions to it in the order of subscription, and an
  identifier is not given out again while its subscription is alive. The predicate inv b n says that
  b is well formed and can take n more subscriptions.
\<close>

datatype ('e, 'i, 'h) bus_op = Sub 'e 'h | Unsub 'e 'i

locale event_bus =
  fixes empty :: 'b
    and subscribe :: "'b \<Rightarrow> 'e \<Rightarrow> 'h \<Rightarrow> ('i \<times> 'b) option"
    and unsubscribe :: "'b \<Rightarrow> 'e \<Rightarrow> 'i \<Rightarrow> 'b"
    and listeners :: "'b \<Rightarrow> 'e \<Rightarrow> ('i \<times> 'h) list"
    and inv :: "'b \<Rightarrow> nat \<Rightarrow> bool"
    and room :: nat
  assumes empty_inv: "inv empty room"
    and empty_listeners: "listeners empty e = []"
    and subscribe_ok: "inv b (Suc n) \<Longrightarrow> \<exists>i b'. subscribe b e h = Some (i, b') \<and> inv b' n \<and>
      (\<forall>f. i \<notin> fst ` set (listeners b f)) \<and>
      (\<forall>f. listeners b' f = (if f = e then listeners b e @ [(i, h)] else listeners b f))"
    and unsubscribe_ok: "inv b n \<Longrightarrow> i \<in> fst ` set (listeners b e) \<Longrightarrow> inv (unsubscribe b e i) n \<and>
      (\<forall>f. listeners (unsubscribe b e i) f = (if f = e then filter (\<lambda>l. fst l \<noteq> i) (listeners b e) else listeners b f))"
begin

text \<open>
  A sequence of operations on the bus beside the list of live subscriptions. An unsubscription
  names a live subscription, otherwise the sequence has no result.
\<close>

fun bus_run :: "('e, 'i, 'h) bus_op list \<Rightarrow> 'b \<Rightarrow> ('e \<times> 'i \<times> 'h) list \<Rightarrow> ('b \<times> ('e \<times> 'i \<times> 'h) list) option" where
  "bus_run [] b live = Some (b, live)"
| "bus_run (Sub e h # xs) b live =
     (case subscribe b e h of None \<Rightarrow> None | Some (i, b') \<Rightarrow> bus_run xs b' (live @ [(e, i, h)]))"
| "bus_run (Unsub e i # xs) b live =
     (if \<exists>h. (e, i, h) \<in> set live
      then bus_run xs (unsubscribe b e i) (filter (\<lambda>(f, j, h). f = e \<longrightarrow> j \<noteq> i) live) else None)"

definition agrees :: "'b \<Rightarrow> ('e \<times> 'i \<times> 'h) list \<Rightarrow> bool" where
  "agrees b live \<longleftrightarrow> (\<forall>e. listeners b e = map snd (filter (\<lambda>l. fst l = e) live))"

lemma filter_commute_snd:
  "filter (\<lambda>l. fst l \<noteq> i) (map snd (filter (\<lambda>l. fst l = e) live)) =
   map snd (filter (\<lambda>l. fst l = e) (filter (\<lambda>(f, j, h). f = e \<longrightarrow> j \<noteq> i) live))"
  by (induction live) auto

lemma filter_other:
  "f \<noteq> e \<Longrightarrow> map snd (filter (\<lambda>l. fst l = f) (filter (\<lambda>(f, j, h). f = e \<longrightarrow> j \<noteq> i) live)) =
    map snd (filter (\<lambda>l. fst l = f) live)"
  by (induction live) auto

lemma bus_run_agrees:
  assumes "inv b n" "agrees b live" "length xs \<le> n" "bus_run xs b live = Some (b', live')"
  shows "agrees b' live'"
  using assms
proof (induction xs b live arbitrary: n rule: bus_run.induct)
  case (2 e h xs b live)
  then obtain m where m: "n = Suc m" by (cases n) auto
  obtain i b1 where b1: "subscribe b e h = Some (i, b1)" "inv b1 m"
    "\<forall>f. listeners b1 f = (if f = e then listeners b e @ [(i, h)] else listeners b f)"
    using subscribe_ok [of b m e h] 2(2) m by blast
  have "agrees b1 (live @ [(e, i, h)])" using 2(3) b1(3) by (simp add: agrees_def)
  then show ?case using "2.IH" [OF b1(1) refl, of m] b1(2) "2.prems" m by (simp add: b1(1))
next
  case (3 e i xs b live)
  then obtain h where live: "(e, i, h) \<in> set live" by (auto split: if_splits)
  have "(i, h) \<in> set (listeners b e)" using 3(3) live by (force simp: agrees_def)
  then have "i \<in> fst ` set (listeners b e)" by force
  then have u: "inv (unsubscribe b e i) n"
    "\<And>f. listeners (unsubscribe b e i) f = (if f = e then filter (\<lambda>l. fst l \<noteq> i) (listeners b e) else listeners b f)"
    using unsubscribe_ok [OF 3(2)] by blast+
  have "agrees (unsubscribe b e i) (filter (\<lambda>(f, j, h). f = e \<longrightarrow> j \<noteq> i) live)"
    using 3(3) by (auto simp: agrees_def u(2) filter_commute_snd filter_other simp del: filter_filter)
  then show ?case using "3.IH" [OF _ u(1)] "3.prems" live by (auto split: if_splits)
qed simp

lemma live_listeners:
  assumes "length xs \<le> room" "bus_run xs empty [] = Some (b, live)"
  shows "listeners b e = map snd (filter (\<lambda>l. fst l = e) live)"
proof -
  have "agrees empty []" by (simp add: agrees_def empty_listeners)
  then have "agrees b live" using bus_run_agrees [OF empty_inv _ assms] by blast
  then show ?thesis by (simp add: agrees_def)
qed

end

section \<open>Callbacks\<close>

text \<open>Calling the callbacks of a list in order; each changes the world or fails.\<close>

fun call_all :: "('h \<Rightarrow> 'd \<Rightarrow> 'w \<Rightarrow> 'w ub) \<Rightarrow> ('i \<times> 'h) list \<Rightarrow> 'd \<Rightarrow> 'w \<Rightarrow> 'w ub" where
  "call_all run [] d w = Some w"
| "call_all run ((i, h) # ls) d w = do { w' \<leftarrow> run h d w; call_all run ls d w' }"

end
