(* ===== verification/Observer.thy ===== *)
theory Observer
  imports Event_Bus
begin

text \<open>
  src/src/patterns/observer.cpp: the event bus with its listeners per event, and main. A callback is
  a constructor that names the lambda, and running it changes the world of main's captured variables
  and printed lines. std::stod reads
  decimal digits with at most one point, the number m / 10^k being the pair (m, k); text without
  leading digits raises (None).
\<close>

section \<open>The bus\<close>

record 'h event_bus =
  listeners_map :: "string \<Rightarrow> (int \<times> 'h) list option"
  next_id :: int

definition EventBus :: "'h event_bus" where
  "EventBus = \<lparr>listeners_map = Map.empty, next_id = 0\<rparr>"

definition at_event :: "'h event_bus \<Rightarrow> string \<Rightarrow> (int \<times> 'h) list" where
  "at_event b event = (case listeners_map b event of None \<Rightarrow> [] | Some vec \<Rightarrow> vec)"

definition subscribe :: "'h event_bus \<Rightarrow> string \<Rightarrow> 'h \<Rightarrow> (int \<times> 'h event_bus) ub" where
  "subscribe b event cb = do {
     next' \<leftarrow> chk (next_id b + 1);
     Some (next_id b, b\<lparr>listeners_map := (listeners_map b)(event \<mapsto> at_event b event @ [(next_id b, cb)]), next_id := next'\<rparr>) }"

definition unsubscribe :: "'h event_bus \<Rightarrow> string \<Rightarrow> int \<Rightarrow> 'h event_bus" where
  "unsubscribe b event i =
     b\<lparr>listeners_map := (listeners_map b)(event \<mapsto> filter (\<lambda>l. fst l \<noteq> i) (at_event b event))\<rparr>"

definition emit :: "('h \<Rightarrow> string \<Rightarrow> 'w \<Rightarrow> 'w ub) \<Rightarrow> 'h event_bus \<Rightarrow> string \<Rightarrow> string \<Rightarrow> 'w \<Rightarrow> 'w ub" where
  "emit run b event data w = (case listeners_map b event of
     None \<Rightarrow> Some w | Some vec \<Rightarrow> call_all run vec data w)"

definition listenerCount :: "'h event_bus \<Rightarrow> string \<Rightarrow> nat" where
  "listenerCount b event = (case listeners_map b event of None \<Rightarrow> 0 | Some vec \<Rightarrow> length vec)"

section \<open>main\<close>

datatype callback = Trade_Logger | Price_Tracker | Alert

record observer_world =
  trade_count :: int
  last_price :: string
  printed :: "string list"

definition digit_value :: "char \<Rightarrow> int option" where
  "digit_value c = (if 48 \<le> (of_char c :: int) \<and> (of_char c :: int) \<le> 57 then Some (of_char c - 48) else None)"

fun read_digits :: "string \<Rightarrow> int \<Rightarrow> int \<times> nat \<times> string" where
  "read_digits [] acc' = (acc', 0, [])"
| "read_digits (c # cs) acc' = (case digit_value c of
     None \<Rightarrow> (acc', 0, c # cs)
   | Some d \<Rightarrow> (let (v, n, rest) = read_digits cs (10 * acc' + d) in (v, Suc n, rest)))"

definition stod :: "string \<Rightarrow> (int \<times> nat) ub" where
  "stod s = (case read_digits s 0 of
     (v, 0, rest) \<Rightarrow> None
   | (v, Suc n, rest) \<Rightarrow> (case rest of
       [] \<Rightarrow> Some (v, 0)
     | c # fraction \<Rightarrow> if c = CHR ''.'' then (case read_digits fraction v of (w, k, _) \<Rightarrow> Some (w, k)) else Some (v, 0)))"

definition exceeds :: "int \<times> nat \<Rightarrow> int \<Rightarrow> bool" where
  "exceeds v bound = (case v of (m, k) \<Rightarrow> m > bound * 10 ^ k)"

fun run_callback :: "callback \<Rightarrow> string \<Rightarrow> observer_world \<Rightarrow> observer_world ub" where
  "run_callback Trade_Logger data w = do {
     n \<leftarrow> chk (trade_count w + 1);
     Some (w\<lparr>trade_count := n, printed := printed w @ [''  [TradeLogger] Trade executed: '' @ data]\<rparr>) }"
| "run_callback Price_Tracker data w =
     Some (w\<lparr>last_price := data, printed := printed w @ [''  [PriceTracker] New price: '' @ data]\<rparr>)"
| "run_callback Alert data w = do {
     v \<leftarrow> stod data;
     Some (if exceeds v 150 then w\<lparr>printed := printed w @ [''  [ALERT] Price exceeds threshold: '' @ data]\<rparr> else w) }"

definition observer_main :: "string list ub" where
  "observer_main = do {
     (_, b1) \<leftarrow> subscribe EventBus ''trade'' Trade_Logger;
     (price_sub, b2) \<leftarrow> subscribe b1 ''price_update'' Price_Tracker;
     (_, b3) \<leftarrow> subscribe b2 ''price_update'' Alert;
     w1 \<leftarrow> emit run_callback b3 ''trade'' ''AAPL 100@155.50'' \<lparr>trade_count = 0, last_price = [], printed = []\<rparr>;
     w2 \<leftarrow> emit run_callback b3 ''price_update'' ''155.50'' w1;
     w3 \<leftarrow> emit run_callback b3 ''price_update'' ''148.20'' w2;
     _ \<leftarrow> guard (trade_count w3 = 1);
     _ \<leftarrow> guard (last_price w3 = ''148.20'');
     _ \<leftarrow> guard (listenerCount b3 ''price_update'' = 2);
     let b4 = unsubscribe b3 ''price_update'' price_sub;
     _ \<leftarrow> guard (listenerCount b4 ''price_update'' = 1);
     w4 \<leftarrow> emit run_callback b4 ''price_update'' ''160.00'' w3;
     Some (printed w4) }"

lemma observer_main_output:
  "observer_main = Some [''  [TradeLogger] Trade executed: AAPL 100@155.50'', ''  [PriceTracker] New price: 155.50'',
     ''  [ALERT] Price exceeds threshold: 155.50'', ''  [PriceTracker] New price: 148.20'',
     ''  [ALERT] Price exceeds threshold: 160.00'']"
  by code_simp

section \<open>The contract\<close>

definition bus_inv :: "'h event_bus \<Rightarrow> nat \<Rightarrow> bool" where
  "bus_inv b n \<longleftrightarrow> 0 \<le> next_id b \<and> next_id b + int n \<le> INT_MAX \<and> (\<forall>e. \<forall>l \<in> set (at_event b e). fst l < next_id b)"

interpretation observer_bus: event_bus EventBus subscribe unsubscribe at_event bus_inv "nat INT_MAX"
proof unfold_locales
  fix b :: "'h event_bus" and n e h assume "bus_inv b (Suc n)"
  then show "\<exists>i b'. subscribe b e h = Some (i, b') \<and> bus_inv b' n \<and> (\<forall>f. i \<notin> fst ` set (at_event b f)) \<and>
      (\<forall>f. at_event b' f = (if f = e then at_event b e @ [(i, h)] else at_event b f))"
    by (force simp: subscribe_def bus_inv_def at_event_def ub_simps)
next
  fix b :: "'h event_bus" and n i e assume "bus_inv b n"
  then show "bus_inv (unsubscribe b e i) n \<and>
      (\<forall>f. at_event (unsubscribe b e i) f = (if f = e then filter (\<lambda>l. fst l \<noteq> i) (at_event b e) else at_event b f))"
    by (auto simp: unsubscribe_def bus_inv_def at_event_def)
qed (auto simp: bus_inv_def EventBus_def at_event_def)

lemma emit_calls_all: "emit run b event data w = call_all run (at_event b event) data w"
  by (simp add: emit_def at_event_def split: option.splits)

text \<open>
  Claim: After any sequence of subscriptions and unsubscriptions, emit calls the callbacks of the
  subscriptions to the event that are still alive, in the order in which they were made.
\<close>
theorem emit_live_subscribers:
  assumes "int (length ops) \<le> INT_MAX" "observer_bus.bus_run ops EventBus [] = Some (b, live)"
  shows "emit run b event data w = call_all run (map snd (filter (\<lambda>l. fst l = event) live)) data w"
  using observer_bus.live_listeners [OF _ assms(2)] assms(1) by (simp add: emit_calls_all)

lemma emit_live_subscribers_witness:
  "emit run_callback
     \<lparr>listeners_map = [''b'' \<mapsto> [(1, Trade_Logger)], ''a'' \<mapsto> []], next_id = 2\<rparr> ''b'' ''x''
     \<lparr>trade_count = 0, last_price = [], printed = []\<rparr> =
   call_all run_callback (map snd (filter (\<lambda>l. fst l = ''b'') [(''b'', 1 :: int, Trade_Logger)])) ''x''
     \<lparr>trade_count = 0, last_price = [], printed = []\<rparr>"
proof -
  have "observer_bus.bus_run [Sub ''a'' Price_Tracker, Sub ''b'' Trade_Logger, Unsub ''a'' 0] EventBus [] =
      Some (\<lparr>listeners_map = [''b'' \<mapsto> [(1, Trade_Logger)], ''a'' \<mapsto> []], next_id = 2\<rparr>, [(''b'', 1, Trade_Logger)])"
    by (simp add: subscribe_def unsubscribe_def EventBus_def at_event_def ub_simps fun_upd_twist fun_eq_iff)
  then show ?thesis by (rule emit_live_subscribers [rotated]) simp
qed

end
