(* ===== verification/Mediator.thy ===== *)
theory Mediator
  imports Event_Bus
begin

text \<open>
  src/src/patterns/mediator.cpp: the event bus, the three services that know only the bus, and main.
  A handler names the lambda of a service. The handler of a login request publishes again, so publish
  recurs; its fuel is the depth of nested publications, beyond which the result is None.
\<close>

section \<open>The bus\<close>

record 'h mediator =
  handlers :: "string \<Rightarrow> (int \<times> 'h) list option"
  next_sub :: int

definition UINT64 :: int where
  "UINT64 = 18446744073709551616"

definition new_bus :: "'h mediator" where
  "new_bus = \<lparr>handlers = Map.empty, next_sub = 0\<rparr>"

definition handlers_at :: "'h mediator \<Rightarrow> string \<Rightarrow> (int \<times> 'h) list" where
  "handlers_at b event = (case handlers b event of None \<Rightarrow> [] | Some hs \<Rightarrow> hs)"

definition mediator_subscribe :: "'h mediator \<Rightarrow> string \<Rightarrow> 'h \<Rightarrow> int \<times> 'h mediator" where
  "mediator_subscribe b event h =
     (next_sub b, b\<lparr>handlers := (handlers b)(event \<mapsto> handlers_at b event @ [(next_sub b, h)]),
                    next_sub := (next_sub b + 1) mod UINT64\<rparr>)"

definition mediator_unsubscribe :: "'h mediator \<Rightarrow> int \<Rightarrow> 'h mediator" where
  "mediator_unsubscribe b i = b\<lparr>handlers := (\<lambda>event. map_option (filter (\<lambda>l. fst l \<noteq> i)) (handlers b event))\<rparr>"

definition publish :: "('h \<Rightarrow> string \<Rightarrow> 'w \<Rightarrow> 'w ub) \<Rightarrow> 'h mediator \<Rightarrow> string \<Rightarrow> string \<Rightarrow> 'w \<Rightarrow> 'w ub" where
  "publish run b event data w = (case handlers b event of None \<Rightarrow> Some w | Some hs \<Rightarrow> call_all run hs data w)"

section \<open>The services\<close>

datatype event_handler = Auth_Request | Log_Authenticated | Log_Failed | Notify_Welcome

record service_world =
  auth_count :: int
  log_count :: int
  notify_count :: int
  printed :: "string list"

definition AuthService :: "event_handler mediator \<Rightarrow> event_handler mediator" where
  "AuthService bus = snd (mediator_subscribe bus ''user:login_request'' Auth_Request)"

definition LoggingService :: "event_handler mediator \<Rightarrow> event_handler mediator" where
  "LoggingService bus =
     (let bus' = snd (mediator_subscribe bus ''user:authenticated'' Log_Authenticated)
      in snd (mediator_subscribe bus' ''user:auth_failed'' Log_Failed))"

definition NotificationService :: "event_handler mediator \<Rightarrow> event_handler mediator" where
  "NotificationService bus = snd (mediator_subscribe bus ''user:authenticated'' Notify_Welcome)"

definition say :: "string \<Rightarrow> service_world \<Rightarrow> service_world" where
  "say line w = w\<lparr>printed := printed w @ [line]\<rparr>"

text \<open>authenticate, with the publish of the bus as its argument.\<close>

definition mediator_authenticate ::
  "(string \<Rightarrow> string \<Rightarrow> service_world \<Rightarrow> service_world ub) \<Rightarrow> string \<Rightarrow> service_world \<Rightarrow> service_world ub" where
  "mediator_authenticate pub username w = do {
     let w1 = say (''  [Auth] Authenticating: '' @ username) w;
     if username = ''admin'' \<or> username = ''alice'' then do {
       w2 \<leftarrow> pub ''user:authenticated'' username w1;
       n \<leftarrow> chk (auth_count w2 + 1);
       Some (w2\<lparr>auth_count := n\<rparr>) }
     else pub ''user:auth_failed'' username w1 }"

fun run_handler :: "nat \<Rightarrow> event_handler mediator \<Rightarrow> event_handler \<Rightarrow> string \<Rightarrow> service_world \<Rightarrow> service_world ub" where
  "run_handler 0 bus h data w = None"
| "run_handler (Suc d) bus Auth_Request data w = mediator_authenticate (publish (run_handler d bus) bus) data w"
| "run_handler (Suc d) bus Log_Authenticated data w = do {
     n \<leftarrow> chk (log_count w + 1);
     Some ((say (''  [Log] User logged in: '' @ data) w)\<lparr>log_count := n\<rparr>) }"
| "run_handler (Suc d) bus Log_Failed data w = do {
     n \<leftarrow> chk (log_count w + 1);
     Some ((say (''  [Log] FAILED login attempt: '' @ data) w)\<lparr>log_count := n\<rparr>) }"
| "run_handler (Suc d) bus Notify_Welcome data w = do {
     n \<leftarrow> chk (notify_count w + 1);
     Some ((say (''  [Notify] Welcome back, '' @ data @ ''!'') w)\<lparr>notify_count := n\<rparr>) }"

definition services_bus :: "event_handler mediator" where
  "services_bus = NotificationService (LoggingService (AuthService new_bus))"

definition login :: "nat \<Rightarrow> string \<Rightarrow> service_world \<Rightarrow> service_world ub" where
  "login depth name w = publish (run_handler depth services_bus) services_bus ''user:login_request'' name w"

definition mediator_main :: "string list ub" where
  "mediator_main = do {
     w1 \<leftarrow> login 2 ''alice'' \<lparr>auth_count = 0, log_count = 0, notify_count = 0, printed = []\<rparr>;
     w2 \<leftarrow> login 2 ''hacker'' w1;
     w3 \<leftarrow> login 2 ''admin'' w2;
     _ \<leftarrow> guard (auth_count w3 = 2);
     _ \<leftarrow> guard (log_count w3 = 3);
     _ \<leftarrow> guard (notify_count w3 = 2);
     Some (printed w3) }"

lemma mediator_main_output:
  "mediator_main = Some
     [''  [Auth] Authenticating: alice'', ''  [Log] User logged in: alice'', ''  [Notify] Welcome back, alice!'',
      ''  [Auth] Authenticating: hacker'', ''  [Log] FAILED login attempt: hacker'',
      ''  [Auth] Authenticating: admin'', ''  [Log] User logged in: admin'', ''  [Notify] Welcome back, admin!'']"
  by code_simp

section \<open>The contract\<close>

definition mediator_inv :: "'h mediator \<Rightarrow> nat \<Rightarrow> bool" where
  "mediator_inv b n \<longleftrightarrow> 0 \<le> next_sub b \<and> next_sub b + int n < UINT64 \<and>
     (\<forall>e. \<forall>l \<in> set (handlers_at b e). fst l < next_sub b) \<and>
     (\<forall>e f. e \<noteq> f \<longrightarrow> fst ` set (handlers_at b e) \<inter> fst ` set (handlers_at b f) = {})"

lemma handlers_at_subscribe:
  "handlers_at (snd (mediator_subscribe b e h)) f = (if f = e then handlers_at b e @ [(next_sub b, h)] else handlers_at b f)"
  by (simp add: mediator_subscribe_def handlers_at_def)

lemma handlers_at_unsubscribe: "handlers_at (mediator_unsubscribe b i) f = filter (\<lambda>l. fst l \<noteq> i) (handlers_at b f)"
  by (simp add: mediator_unsubscribe_def handlers_at_def split: option.splits)

lemma mediator_inv_subscribe:
  assumes "mediator_inv b (Suc n)"
  shows "mediator_inv (snd (mediator_subscribe b e h)) n" "\<forall>f. next_sub b \<notin> fst ` set (handlers_at b f)"
proof -
  have new: "next_sub (snd (mediator_subscribe b e h)) = next_sub b + 1"
    using assms by (simp add: mediator_subscribe_def mediator_inv_def)
  show fresh: "\<forall>f. next_sub b \<notin> fst ` set (handlers_at b f)"
    using assms by (force simp: mediator_inv_def)
  have "\<forall>f. \<forall>l \<in> set (handlers_at b f). fst l < next_sub b"
    using assms by (simp add: mediator_inv_def)
  then have "\<forall>f. \<forall>l \<in> set (handlers_at (snd (mediator_subscribe b e h)) f). fst l < next_sub b + 1"
    by (auto simp: handlers_at_subscribe less_imp_le)
  moreover have "fst ` set (handlers_at (snd (mediator_subscribe b e h)) f) \<inter> fst ` set (handlers_at (snd (mediator_subscribe b e h)) g) = {}"
    if "f \<noteq> g" for f g
  proof -
    have old: "fst ` set (handlers_at b f) \<inter> fst ` set (handlers_at b g) = {}"
      using assms that unfolding mediator_inv_def by blast
    have "fst ` set (handlers_at (snd (mediator_subscribe b e h)) x) =
        (if x = e then insert (next_sub b) (fst ` set (handlers_at b x)) else fst ` set (handlers_at b x))" for x
      by (simp add: handlers_at_subscribe)
    then show ?thesis using old fresh that by (cases "f = e"; cases "g = e") auto
  qed
  ultimately show "mediator_inv (snd (mediator_subscribe b e h)) n"
    using assms new by (simp add: mediator_inv_def)
qed

lemma mediator_inv_unsubscribe:
  assumes "mediator_inv b n"
  shows "mediator_inv (mediator_unsubscribe b i) n"
proof -
  have "next_sub (mediator_unsubscribe b i) = next_sub b" by (simp add: mediator_unsubscribe_def)
  moreover have "fst ` set (handlers_at (mediator_unsubscribe b i) e) \<subseteq> fst ` set (handlers_at b e)" for e
    by (auto simp: handlers_at_unsubscribe)
  then have "fst ` set (handlers_at (mediator_unsubscribe b i) e) \<inter> fst ` set (handlers_at (mediator_unsubscribe b i) f) = {}" if "e \<noteq> f" for e f
    using assms that unfolding mediator_inv_def by (meson disjoint_iff subsetD)
  moreover have "\<forall>e. \<forall>l \<in> set (handlers_at (mediator_unsubscribe b i) e). fst l < next_sub b"
    using assms by (force simp: mediator_inv_def handlers_at_unsubscribe)
  ultimately show ?thesis using assms by (simp add: mediator_inv_def)
qed

interpretation mediator_bus: event_bus new_bus "\<lambda>b e h. Some (mediator_subscribe b e h)" "\<lambda>b e i. mediator_unsubscribe b i" handlers_at
  mediator_inv "nat (UINT64 - 1)"
proof unfold_locales
  fix b :: "'h mediator" and n e h assume "mediator_inv b (Suc n)"
  then show "\<exists>i b'. Some (mediator_subscribe b e h) = Some (i, b') \<and> mediator_inv b' n \<and>
      (\<forall>f. i \<notin> fst ` set (handlers_at b f)) \<and>
      (\<forall>f. handlers_at b' f = (if f = e then handlers_at b e @ [(i, h)] else handlers_at b f))"
    using mediator_inv_subscribe(1) [of b n e h] mediator_inv_subscribe(2) [of b n] handlers_at_subscribe [of b e h]
    by (intro exI [of _ "next_sub b"] exI [of _ "snd (mediator_subscribe b e h)"]) (auto simp: mediator_subscribe_def)
next
  fix b :: "'h mediator" and n i e assume inv: "mediator_inv b n" and i: "i \<in> fst ` set (handlers_at b e)"
  have "filter (\<lambda>l. fst l \<noteq> i) (handlers_at b f) = handlers_at b f" if "f \<noteq> e" for f
    using inv i that unfolding mediator_inv_def by (intro filter_True) (metis disjoint_iff image_eqI)
  then show "mediator_inv (mediator_unsubscribe b i) n \<and>
      (\<forall>f. handlers_at (mediator_unsubscribe b i) f = (if f = e then filter (\<lambda>l. fst l \<noteq> i) (handlers_at b e) else handlers_at b f))"
    using mediator_inv_unsubscribe [OF inv] by (auto simp: handlers_at_unsubscribe)
qed (auto simp: mediator_inv_def new_bus_def handlers_at_def UINT64_def)

lemma publish_live_subscribers:
  assumes "int (length ops) < UINT64" "mediator_bus.bus_run ops new_bus [] = Some (b, live)"
  shows "publish run b event data w = call_all run (map snd (filter (\<lambda>l. fst l = event) live)) data w"
proof -
  have "publish run b event data w = call_all run (handlers_at b event) data w"
    by (simp add: publish_def handlers_at_def split: option.splits)
  moreover have "length ops \<le> nat (UINT64 - 1)" using assms(1) by (simp add: UINT64_def)
  ultimately show ?thesis using mediator_bus.live_listeners [OF _ assms(2)] by simp
qed

end
