(* ===== verification/Modern_Observer.thy ===== *)
theory Modern_Observer
  imports Event_Bus
begin

text \<open>
  src/src/patterns/software_design/modern_observer.cpp: the signal with its slots, the connection
  token that disconnects once, the stock that emits on a change of its price, and main. A slot names
  the lambda; a connection holds the identifier its disconnect function captured, or nothing after
  it has been called or moved from. Prices are integers (all of main's are).
\<close>

section \<open>Signal and connection\<close>

record 's signal =
  slots :: "(int \<times> 's) list"
  next_slot :: int

type_synonym connection = "int option"

definition UINT64 :: int where
  "UINT64 = 18446744073709551616"

definition Signal :: "'s signal" where
  "Signal = \<lparr>slots = [], next_slot = 0\<rparr>"

definition connect :: "'s signal \<Rightarrow> 's \<Rightarrow> connection \<times> 's signal" where
  "connect g slot =
     (Some (next_slot g), g\<lparr>slots := slots g @ [(next_slot g, slot)], next_slot := (next_slot g + 1) mod UINT64\<rparr>)"

definition disconnect :: "connection \<Rightarrow> 's signal \<Rightarrow> connection \<times> 's signal" where
  "disconnect c g = (case c of
     None \<Rightarrow> (None, g)
   | Some i \<Rightarrow> (None, g\<lparr>slots := filter (\<lambda>p. fst p \<noteq> i) (slots g)\<rparr>))"

text \<open>Move construction: the source is left without a disconnect function.\<close>

definition move_connection :: "connection \<Rightarrow> connection \<times> connection" where
  "move_connection other = (other, None)"

text \<open>Move assignment disconnects the target first.\<close>

definition modern_move_assign :: "connection \<Rightarrow> connection \<Rightarrow> 's signal \<Rightarrow> connection \<times> connection \<times> 's signal" where
  "modern_move_assign target other g = (other, None, snd (disconnect target g))"

definition modern_emit :: "('s \<Rightarrow> 'd \<Rightarrow> 'w \<Rightarrow> 'w ub) \<Rightarrow> 's signal \<Rightarrow> 'd \<Rightarrow> 'w \<Rightarrow> 'w ub" where
  "modern_emit run g args w = call_all run (slots g) args w"

definition subscriber_count :: "'s signal \<Rightarrow> nat" where
  "subscriber_count g = length (slots g)"

section \<open>Stock and main\<close>

datatype slot = Print_Change | Alert_200 | Ignore

record stock =
  symbol :: string
  price :: int
  price_changed :: "slot signal"

record main_world =
  notification_count :: int
  printed :: "string list"

definition Stock :: "string \<Rightarrow> int \<Rightarrow> stock" where
  "Stock sym' p = \<lparr>symbol = sym', price = p, price_changed = Signal\<rparr>"

fun run_slot :: "slot \<Rightarrow> string \<times> int \<times> int \<Rightarrow> main_world \<Rightarrow> main_world ub" where
  "run_slot Print_Change (sym', old_p, new_p) w = do {
     n \<leftarrow> chk (notification_count w + 1);
     Some \<lparr>notification_count = n, printed = printed w @ [sym' @ '': '' @ show_int old_p @ '' -> '' @ show_int new_p]\<rparr> }"
| "run_slot Alert_200 (sym', old_p, new_p) w =
     Some (if new_p > 200 then w\<lparr>printed := printed w @ [''ALERT: '' @ sym' @ '' above $200!'']\<rparr> else w)"
| "run_slot Ignore args w = Some w"

definition set_price :: "int \<Rightarrow> stock \<Rightarrow> main_world \<Rightarrow> (stock \<times> main_world) ub" where
  "set_price new_price s w = do {
     let old_price = price s;
     let s' = s\<lparr>price := new_price\<rparr>;
     w' \<leftarrow> modern_emit run_slot (price_changed s') (symbol s', old_price, new_price) w;
     Some (s', w') }"

definition connect_stock :: "stock \<Rightarrow> slot \<Rightarrow> connection \<times> stock" where
  "connect_stock s slot = (let (c, g) = connect (price_changed s) slot in (c, s\<lparr>price_changed := g\<rparr>))"

definition disconnect_stock :: "connection \<Rightarrow> stock \<Rightarrow> connection \<times> stock" where
  "disconnect_stock c s = (let (c', g) = disconnect c (price_changed s) in (c', s\<lparr>price_changed := g\<rparr>))"

definition modern_observer_main :: "string list ub" where
  "modern_observer_main = do {
     let (conn1, s1) = connect_stock (Stock ''AAPL'' 150) Print_Change;
     let (conn2, s2) = connect_stock s1 Alert_200;
     _ \<leftarrow> guard (subscriber_count (price_changed s2) = 2);
     (s3, w3) \<leftarrow> set_price 155 s2 \<lparr>notification_count = 0, printed = []\<rparr>;
     (s4, w4) \<leftarrow> set_price 210 s3 w3;
     let (conn1', s5) = disconnect_stock conn1 s4;
     _ \<leftarrow> guard (subscriber_count (price_changed s5) = 1);
     (s6, w6) \<leftarrow> set_price 220 s5 w4;
     _ \<leftarrow> guard (notification_count w6 = 2);
     let (conn3, s7) = connect_stock s6 Ignore;
     _ \<leftarrow> guard (subscriber_count (price_changed s7) = 2);
     let (conn3', s8) = disconnect_stock conn3 s7;
     _ \<leftarrow> guard (subscriber_count (price_changed s8) = 1);
     let s9 = snd (disconnect_stock conn1' (snd (disconnect_stock conn2 s8)));
     Some (printed w6) }"

lemma modern_observer_main_output:
  "modern_observer_main = Some [''AAPL: 150 -> 155'', ''AAPL: 155 -> 210'', ''ALERT: AAPL above $200!'', ''ALERT: AAPL above $200!'']"
  by code_simp

section \<open>The contract\<close>

definition signal_inv :: "'s signal \<Rightarrow> nat \<Rightarrow> bool" where
  "signal_inv g n \<longleftrightarrow> 0 \<le> next_slot g \<and> next_slot g + int n < UINT64 \<and> (\<forall>p \<in> set (slots g). fst p < next_slot g)"

definition connect_id :: "'s signal \<Rightarrow> unit \<Rightarrow> 's \<Rightarrow> (int \<times> 's signal) option" where
  "connect_id g e slot = (case connect g slot of (c, g') \<Rightarrow> map_option (\<lambda>i. (i, g')) c)"

interpretation signal_bus: event_bus Signal connect_id "\<lambda>g e i. snd (disconnect (Some i) g)" "\<lambda>g e. slots g"
  signal_inv "nat (UINT64 - 1)"
proof unfold_locales
  fix g :: "'s signal" and n e h assume "signal_inv g (Suc n)"
  then show "\<exists>i b'. connect_id g e h = Some (i, b') \<and> signal_inv b' n \<and> (\<forall>f. i \<notin> fst ` set (slots g)) \<and>
      (\<forall>f. slots b' = (if f = e then slots g @ [(i, h)] else slots g))"
    by (force simp: connect_id_def connect_def signal_inv_def)
qed (auto simp: signal_inv_def Signal_def disconnect_def UINT64_def)

text \<open>A connection disconnects its own slot only, and a second time does nothing.\<close>

lemma disconnect_once: "disconnect c g = (c', g') \<Longrightarrow> disconnect c' g'' = (None, g'')"
  by (auto simp: disconnect_def split: option.splits)

lemma disconnect_own_slot:
  assumes "signal_inv g 1" "connect g slot = (c, g')"
  shows "slots (snd (disconnect c g')) = slots g"
proof -
  have "\<forall>p \<in> set (slots g). fst p \<noteq> next_slot g" using assms(1) by (auto simp: signal_inv_def)
  then have "filter (\<lambda>p. fst p \<noteq> next_slot g) (slots g) = slots g" by (simp add: filter_id_conv)
  moreover have "c = Some (next_slot g)" "slots g' = slots g @ [(next_slot g, slot)]" using assms(2) by (auto simp: connect_def)
  ultimately show ?thesis by (simp add: disconnect_def)
qed

lemma emit_live_slots:
  assumes "int (length ops) < UINT64" "signal_bus.bus_run ops Signal [] = Some (g, live)"
  shows "modern_emit run g args w = call_all run (map snd live) args w"
proof -
  have "length ops \<le> nat (UINT64 - 1)" using assms(1) by (simp add: UINT64_def)
  then show ?thesis using signal_bus.live_listeners [OF _ assms(2)] by (simp add: modern_emit_def)
qed

end
