(* ===== verification/Sort_Strategy.thy ===== *)
theory Sort_Strategy
  imports Prelude
begin

text \<open>
  src/src/patterns/strategy.cpp: the three sorting strategies over checked vectors, the context that
  delegates to one of them (a null strategy is undefined), and main. The contract of a strategy is a
  locale that each of the three meets.
\<close>

section \<open>Definitions\<close>

function bubble_inner :: "int \<Rightarrow> int \<Rightarrow> int list \<Rightarrow> int list ub" where
  "bubble_inner j bound d =
     (if j + 1 < bound then do {
        x \<leftarrow> vget d j;
        y \<leftarrow> vget d (j + 1);
        d' \<leftarrow> (if x > y then vswap d j (j + 1) else Some d);
        bubble_inner (j + 1) bound d' }
      else Some d)"
  by pat_completeness auto

termination bubble_inner
  by (relation "measure (\<lambda>(j, bound, d). nat (bound - j))") auto

function bubble_outer :: "int \<Rightarrow> int \<Rightarrow> int list \<Rightarrow> int list ub" where
  "bubble_outer i n d =
     (if i < n then do { d' \<leftarrow> bubble_inner 0 (n - i) d; bubble_outer (i + 1) n d' } else Some d)"
  by pat_completeness auto

termination bubble_outer
  by (relation "measure (\<lambda>(i, n, d). nat (n - i))") auto

definition BubbleSort :: "int list \<Rightarrow> int list ub" where
  "BubbleSort d = bubble_outer 0 (int (length d)) d"

function partition_loop :: "int \<Rightarrow> int \<Rightarrow> int \<Rightarrow> int \<Rightarrow> int list \<Rightarrow> (int \<times> int list) ub" where
  "partition_loop j hi pivot i d =
     (if j < hi then do {
        x \<leftarrow> vget d j;
        if x < pivot then do { d' \<leftarrow> vswap d i j; partition_loop (j + 1) hi pivot (i + 1) d' }
        else partition_loop (j + 1) hi pivot i d }
      else Some (i, d))"
  by pat_completeness auto

termination partition_loop
  by (relation "measure (\<lambda>(j, hi, pivot, i, d). nat (hi - j))") auto

declare bubble_inner.simps [simp del] bubble_outer.simps [simp del] partition_loop.simps [simp del]

definition partition' :: "int list \<Rightarrow> int \<Rightarrow> int \<Rightarrow> (int \<times> int list) ub" where
  "partition' d lo hi = do {
     pivot \<leftarrow> vget d hi;
     (i, d1) \<leftarrow> partition_loop lo hi pivot lo d;
     d2 \<leftarrow> vswap d1 i hi;
     Some (i, d2) }"

lemma partition_loop_bounds: "partition_loop j hi pivot i d = Some (i', d') \<Longrightarrow> j \<le> hi \<Longrightarrow> i \<le> i' \<and> i' \<le> i + (hi - j)"
proof (induction j hi pivot i d rule: partition_loop.induct)
  case (1 j hi pivot i d)
  show ?case
  proof (cases "j < hi")
    case True
    then obtain x where x: "vget d j = Some x" using "1.prems"(1) by (subst (asm) partition_loop.simps) (auto simp: bind_Some_conv)
    show ?thesis
    proof (cases "x < pivot")
      case True
      then obtain d1 where "vswap d i j = Some d1" "partition_loop (j + 1) hi pivot (i + 1) d1 = Some (i', d')"
        using "1.prems"(1) x \<open>j < hi\<close> by (subst (asm) partition_loop.simps) (auto simp: bind_Some_conv)
      then show ?thesis using "1.IH"(1) [OF \<open>j < hi\<close> x True] \<open>j < hi\<close> by force
    next
      case False
      then have "partition_loop (j + 1) hi pivot i d = Some (i', d')"
        using "1.prems"(1) x \<open>j < hi\<close> by (subst (asm) partition_loop.simps) (auto simp: bind_Some_conv)
      then show ?thesis using "1.IH"(2) [OF \<open>j < hi\<close> x False] \<open>j < hi\<close> by force
    qed
  next
    case False
    then show ?thesis using "1.prems" by (subst (asm) partition_loop.simps) simp
  qed
qed

lemma partition_bounds: "partition' d lo hi = Some (i, d') \<Longrightarrow> lo \<le> hi \<Longrightarrow> lo \<le> i \<and> i \<le> hi"
  using partition_loop_bounds by (fastforce simp: partition'_def bind_Some_conv)

function qsort' :: "int list \<Rightarrow> int \<Rightarrow> int \<Rightarrow> int list ub" where
  "qsort' d lo hi =
     (if lo \<ge> hi then Some d
      else (case partition' d lo hi of
        None \<Rightarrow> None
      | Some (i, d1) \<Rightarrow> do { d2 \<leftarrow> qsort' d1 lo (i - 1); qsort' d2 (i + 1) hi }))"
  by pat_completeness auto

termination qsort'
  by (relation "measure (\<lambda>(d, lo, hi). nat (hi - lo))") (auto dest!: partition_bounds)

declare qsort'.simps [simp del]

definition QuickSort :: "int list \<Rightarrow> int list ub" where
  "QuickSort d = (if d \<noteq> [] then do { n \<leftarrow> chk (int (length d)); qsort' d 0 (n - 1) } else Some d)"

text \<open>std::merge takes from the second range only when its element is smaller.\<close>

fun std_merge :: "int list \<Rightarrow> int list \<Rightarrow> int list" where
  "std_merge [] ys = ys"
| "std_merge xs [] = xs"
| "std_merge (x # xs) (y # ys) = (if y < x then y # std_merge (x # xs) ys else x # std_merge xs (y # ys))"

function MergeSort :: "int list \<Rightarrow> int list" where
  "MergeSort d = (if length d \<le> 1 then d
     else std_merge (MergeSort (take (length d div 2) d)) (MergeSort (drop (length d div 2) d)))"
  by pat_completeness auto

termination MergeSort
  by (relation "measure length") auto

declare MergeSort.simps [simp del]

datatype strategy = Bubble | Quick | Merge

fun strategy_name :: "strategy \<Rightarrow> string" where
  "strategy_name Bubble = ''BubbleSort''"
| "strategy_name Quick = ''QuickSort''"
| "strategy_name Merge = ''MergeSort''"

fun strategy_sort :: "strategy \<Rightarrow> int list \<Rightarrow> int list ub" where
  "strategy_sort Bubble d = BubbleSort d"
| "strategy_sort Quick d = QuickSort d"
| "strategy_sort Merge d = Some (MergeSort d)"

text \<open>Sorter::sort returns the printed line and the sorted data.\<close>

definition sorter_sort :: "strategy option \<Rightarrow> int list \<Rightarrow> (string \<times> int list) ub" where
  "sorter_sort st d = do {
     s \<leftarrow> st;
     d' \<leftarrow> strategy_sort s d;
     Some (''Sorting with '' @ strategy_name s @ '': '' @ concat (map (\<lambda>x. show_int x @ '' '') d'), d') }"

definition strategy_main :: "string list ub" where
  "strategy_main = do {
     (l1, data1) \<leftarrow> sorter_sort (Some Bubble) [5, 3, 8, 1, 2];
     _ \<leftarrow> guard (data1 = [1, 2, 3, 5, 8]);
     (l2, data2) \<leftarrow> sorter_sort (Some Quick) [5, 3, 8, 1, 2];
     _ \<leftarrow> guard (data2 = [1, 2, 3, 5, 8]);
     (l3, data3) \<leftarrow> sorter_sort (Some Merge) [5, 3, 8, 1, 2];
     _ \<leftarrow> guard (data3 = [1, 2, 3, 5, 8]);
     Some [l1, l2, l3] }"

lemma strategy_main_output:
  "strategy_main = Some [''Sorting with BubbleSort: 1 2 3 5 8 '', ''Sorting with QuickSort: 1 2 3 5 8 '',
     ''Sorting with MergeSort: 1 2 3 5 8 '']"
  by code_simp

section \<open>The contract of a strategy\<close>

locale sort_strategy =
  fixes run :: "int list \<Rightarrow> int list ub"
  assumes run_sorts: "int (length d) \<le> INT_MAX \<Longrightarrow> \<exists>d'. run d = Some d' \<and> sorted d' \<and> mset d' = mset d"
begin

lemma run_is_sort: "int (length d) \<le> INT_MAX \<Longrightarrow> run d = Some (sort d)"
  using run_sorts [of d] by (metis properties_for_sort)

end

subsection \<open>Bubble sort\<close>

lemma vswap_mset: "vswap d i j = Some d' \<Longrightarrow> mset d' = mset d \<and> length d' = length d"
proof -
  assume a: "vswap d i j = Some d'"
  then have b: "0 \<le> i" "i < int (length d)" "0 \<le> j" "j < int (length d)"
    by (auto simp: vswap_def bind_Some_conv vget_eq_Some vset_eq_Some)
  then have "d' = d[nat i := d ! nat j, nat j := d ! nat i]" using a by (simp add: vswap_in)
  then show ?thesis using b by (simp add: mset_swap)
qed

text \<open>The element at j is the largest so far; everything from bound on stays.\<close>

lemma bubble_inner_ok:
  "0 \<le> j \<Longrightarrow> j < bound \<Longrightarrow> bound \<le> int (length d) \<Longrightarrow> \<forall>k. 0 \<le> k \<and> k < j \<longrightarrow> d ! nat k \<le> d ! nat j \<Longrightarrow>
   \<exists>d'. bubble_inner j bound d = Some d' \<and> mset d' = mset d \<and> length d' = length d \<and>
     (\<forall>k. 0 \<le> k \<and> k < bound \<longrightarrow> d' ! nat k \<le> d' ! nat (bound - 1)) \<and>
     (\<forall>k. bound \<le> k \<and> k < int (length d) \<longrightarrow> d' ! nat k = d ! nat k)"
proof (induction j bound d rule: bubble_inner.induct)
  case (1 j bound d)
  show ?case
  proof (cases "j + 1 < bound")
    case True
    define d1 where "d1 = (if d ! nat j > d ! nat (j + 1) then d[nat j := d ! nat (j + 1), nat (j + 1) := d ! nat j] else d)"
    have get: "vget d j = Some (d ! nat j)" "vget d (j + 1) = Some (d ! nat (j + 1))"
      using 1(2-4) True by (simp_all add: ub_simps)
    have step: "(if d ! nat j > d ! nat (j + 1) then vswap d j (j + 1) else Some d) = Some d1"
      using 1(2-4) True by (auto simp: d1_def vswap_in)
    have m: "mset d1 = mset d" "length d1 = length d"
      using 1(2-4) True by (auto simp: d1_def mset_swap)
    have nat: "nat (j + 1) = Suc (nat j)" using 1(2) by simp
    have le: "\<forall>k. 0 \<le> k \<and> k < j + 1 \<longrightarrow> d1 ! nat k \<le> d1 ! nat (j + 1)"
    proof (intro allI impI)
      fix k assume k: "0 \<le> k \<and> k < j + 1"
      then have "nat k < nat j \<or> nat k = nat j" "nat j < length d" "Suc (nat j) < length d" using 1(2-4) True by auto
      moreover have "nat k < nat j \<Longrightarrow> d ! nat k \<le> d ! nat j" using 1(5) k by auto
      ultimately show "d1 ! nat k \<le> d1 ! nat (j + 1)" by (auto simp: d1_def nat)
    qed
    have rest: "d1 ! nat k = d ! nat k" if "bound \<le> k" for k
    proof -
      have "nat k \<noteq> nat j" "nat k \<noteq> nat (j + 1)" using that 1(2) True by auto
      then show ?thesis by (simp add: d1_def)
    qed
    have "bubble_inner j bound d = bubble_inner (j + 1) bound d1"
      using True get step by (subst bubble_inner.simps) simp
    moreover obtain d' where "bubble_inner (j + 1) bound d1 = Some d'" "mset d' = mset d1" "length d' = length d1"
      "\<forall>k. 0 \<le> k \<and> k < bound \<longrightarrow> d' ! nat k \<le> d' ! nat (bound - 1)"
      "\<forall>k. bound \<le> k \<and> k < int (length d1) \<longrightarrow> d' ! nat k = d1 ! nat k"
      using "1.IH" [OF True get step] True 1(2-4) m(2) le by auto
    ultimately show ?thesis using m rest by (intro exI [of _ d']) auto
  next
    case False
    then have "bound - 1 = j" using 1(3) by simp
    then have "\<forall>k. 0 \<le> k \<and> k < bound \<longrightarrow> d ! nat k \<le> d ! nat (bound - 1)"
      using 1(5) by (metis order_refl zle_diff1_eq order_le_less)
    then show ?thesis using False by (subst bubble_inner.simps) auto
  qed
qed

lemma same_rest_same_front:
  assumes "mset d1 = mset d" "length d1 = length d" "0 \<le> m"
    and same: "\<forall>k. m \<le> k \<and> k < int (length d) \<longrightarrow> d1 ! nat k = d ! nat k"
  shows "set (take (nat m) d1) = set (take (nat m) (d :: int list))"
proof -
  have "drop (nat m) d1 = drop (nat m) d"
  proof (rule nth_equalityI)
    fix k assume "k < length (drop (nat m) d1)"
    then have "d1 ! nat (int (nat m + k)) = d ! nat (int (nat m + k))" using assms(2,3) by (intro same [rule_format]) auto
    then have "d1 ! (nat m + k) = d ! (nat m + k)" by (simp only: nat_int)
    then show "drop (nat m) d1 ! k = drop (nat m) d ! k"
      using \<open>k < length (drop (nat m) d1)\<close> assms(2) by simp
  qed (simp add: assms(2))
  then have "mset (take (nat m) d1) = mset (take (nat m) d)"
    using assms(1) by (metis append_take_drop_id mset_append add_right_cancel)
  then show ?thesis by (metis set_mset_mset)
qed

lemma bubble_outer_ok:
  "0 \<le> i \<Longrightarrow> i \<le> n \<Longrightarrow> n = int (length d) \<Longrightarrow>
   \<forall>p q. 0 \<le> p \<and> p \<le> q \<and> n - i \<le> q \<and> q < n \<longrightarrow> d ! nat p \<le> d ! nat q \<Longrightarrow>
   \<exists>d'. bubble_outer i n d = Some d' \<and> mset d' = mset d \<and> length d' = length d \<and>
     (\<forall>p q. 0 \<le> p \<and> p \<le> q \<and> q < n \<longrightarrow> d' ! nat p \<le> d' ! nat q)"
proof (induction i n d rule: bubble_outer.induct)
  case (1 i n d)
  show ?case
  proof (cases "i < n")
    case True
    obtain d1 where d1: "bubble_inner 0 (n - i) d = Some d1" "mset d1 = mset d" "length d1 = length d"
      "\<forall>k. 0 \<le> k \<and> k < n - i \<longrightarrow> d1 ! nat k \<le> d1 ! nat (n - i - 1)"
      "\<forall>k. n - i \<le> k \<and> k < int (length d) \<longrightarrow> d1 ! nat k = d ! nat k"
      using bubble_inner_ok [of 0 "n - i" d] True 1(2,4) by auto
    have "\<forall>p q. 0 \<le> p \<and> p \<le> q \<and> n - (i + 1) \<le> q \<and> q < n \<longrightarrow> d1 ! nat p \<le> d1 ! nat q"
    proof (intro allI impI)
      fix p q assume pq: "0 \<le> p \<and> p \<le> q \<and> n - (i + 1) \<le> q \<and> q < n"
      show "d1 ! nat p \<le> d1 ! nat q"
      proof (cases "n - i \<le> q")
        case True
        show ?thesis
        proof (cases "n - i \<le> p")
          case True
          then show ?thesis using d1(5) 1(4,5) pq \<open>n - i \<le> q\<close> by auto
        next
          case False
          have "d1 ! nat p \<in> set (take (nat (n - i)) d1)"
            using False pq 1(4) d1(3) by (auto simp: in_set_conv_nth intro!: exI [of _ "nat p"])
          moreover have "set (take (nat (n - i)) d1) = set (take (nat (n - i)) d)"
            using d1(2,3,5) 1(2,3,4) by (intro same_rest_same_front) auto
          ultimately have "d1 ! nat p \<in> set (take (nat (n - i)) d)" by simp
          then obtain k where k: "k < nat (n - i)" "k < length d" "d1 ! nat p = d ! k" by (auto simp: in_set_conv_nth)
          have "d ! nat (int k) \<le> d ! nat q" using 1(5) [rule_format, of "int k" q] k pq True by auto
          then show ?thesis using k d1(5) True pq 1(4) by auto
        qed
      next
        case False
        then have "q = n - i - 1" using pq by simp
        then show ?thesis using d1(4) pq by auto
      qed
    qed
    then obtain d' where "bubble_outer (i + 1) n d1 = Some d'" "mset d' = mset d1" "length d' = length d1"
      "\<forall>p q. 0 \<le> p \<and> p \<le> q \<and> q < n \<longrightarrow> d' ! nat p \<le> d' ! nat q"
      using "1.IH" [OF True d1(1)] True 1(2,4) d1(3) by auto
    then show ?thesis using True d1 by (subst bubble_outer.simps) auto
  next
    case False
    then show ?thesis using 1 by (subst bubble_outer.simps) auto
  qed
qed

lemma sorted_by_int_index:
  "(\<forall>p q. 0 \<le> p \<and> p \<le> q \<and> q < int (length d) \<longrightarrow> d ! nat p \<le> d ! nat q) \<Longrightarrow> sorted d"
  unfolding sorted_iff_nth_mono by (metis nat_int of_nat_0_le_iff of_nat_less_iff zle_int)

interpretation bubble_sort: sort_strategy BubbleSort
proof unfold_locales
  fix d :: "int list"
  obtain d' where "BubbleSort d = Some d'" "mset d' = mset d" "length d' = length d"
    "\<forall>p q. 0 \<le> p \<and> p \<le> q \<and> q < int (length d) \<longrightarrow> d' ! nat p \<le> d' ! nat q"
    using bubble_outer_ok [of 0 "int (length d)" d] by (auto simp: BubbleSort_def)
  then show "\<exists>d'. BubbleSort d = Some d' \<and> sorted d' \<and> mset d' = mset d"
    using sorted_by_int_index [of d'] by auto
qed

subsection \<open>Quick sort\<close>

lemma partition_loop_ok:
  "0 \<le> lo \<Longrightarrow> lo \<le> i \<Longrightarrow> i \<le> j \<Longrightarrow> j \<le> hi \<Longrightarrow> hi < int (length d) \<Longrightarrow>
   \<forall>k. lo \<le> k \<and> k < i \<longrightarrow> d ! nat k < pivot \<Longrightarrow> \<forall>k. i \<le> k \<and> k < j \<longrightarrow> pivot \<le> d ! nat k \<Longrightarrow>
   \<exists>i' d'. partition_loop j hi pivot i d = Some (i', d') \<and> mset d' = mset d \<and> length d' = length d \<and>
     i \<le> i' \<and> i' \<le> hi \<and> (\<forall>k. lo \<le> k \<and> k < i' \<longrightarrow> d' ! nat k < pivot) \<and> (\<forall>k. i' \<le> k \<and> k < hi \<longrightarrow> pivot \<le> d' ! nat k) \<and>
     (\<forall>k. 0 \<le> k \<and> (k < lo \<or> hi \<le> k) \<longrightarrow> d' ! nat k = d ! nat k)"
proof (induction j hi pivot i d rule: partition_loop.induct)
  case (1 j hi pivot i d)
  show ?case
  proof (cases "j < hi")
    case True
    have x: "vget d j = Some (d ! nat j)" using "1.prems" True by (simp add: ub_simps)
    show ?thesis
    proof (cases "d ! nat j < pivot")
      case less: True
      define d1 where "d1 = d[nat i := d ! nat j, nat j := d ! nat i]"
      have sw: "vswap d i j = Some d1" using "1.prems" True by (simp add: d1_def vswap_in)
      have m: "mset d1 = mset d" "length d1 = length d" using "1.prems" True by (auto simp: d1_def mset_swap)
      have other: "d1 ! nat k = d ! nat k" if "0 \<le> k" "k \<noteq> i" "k \<noteq> j" for k
        using that "1.prems"(1-3) by (simp add: d1_def nth_list_update)
      have at: "d1 ! nat i = d ! nat j" "j \<noteq> i \<Longrightarrow> d1 ! nat j = d ! nat i"
        using "1.prems"(1-5) True by (auto simp: d1_def nth_list_update)
      have "\<forall>k. lo \<le> k \<and> k < i + 1 \<longrightarrow> d1 ! nat k < pivot"
      proof (intro allI impI)
        fix k assume k: "lo \<le> k \<and> k < i + 1"
        then show "d1 ! nat k < pivot"
          using other [of k] at(1) less "1.prems"(1-3,6) by (cases "k = i") auto
      qed
      moreover have "\<forall>k. i + 1 \<le> k \<and> k < j + 1 \<longrightarrow> pivot \<le> d1 ! nat k"
      proof (intro allI impI)
        fix k assume k: "i + 1 \<le> k \<and> k < j + 1"
        then show "pivot \<le> d1 ! nat k"
          using other [of k] at "1.prems"(1-3,7) by (cases "k = j") auto
      qed
      ultimately obtain i' d' where r: "partition_loop (j + 1) hi pivot (i + 1) d1 = Some (i', d')"
        "mset d' = mset d1" "length d' = length d1" "i + 1 \<le> i'" "i' \<le> hi"
        "\<forall>k. lo \<le> k \<and> k < i' \<longrightarrow> d' ! nat k < pivot" "\<forall>k. i' \<le> k \<and> k < hi \<longrightarrow> pivot \<le> d' ! nat k"
        "\<forall>k. 0 \<le> k \<and> (k < lo \<or> hi \<le> k) \<longrightarrow> d' ! nat k = d1 ! nat k"
        using "1.IH"(1) [OF True x less sw] "1.prems"(1-5) True m(2) by auto
      have "partition_loop j hi pivot i d = Some (i', d')"
        using r(1) True x less sw by (subst partition_loop.simps) simp
      moreover have "\<forall>k. 0 \<le> k \<and> (k < lo \<or> hi \<le> k) \<longrightarrow> d' ! nat k = d ! nat k"
        using r(8) other "1.prems"(2,3) True by auto
      ultimately show ?thesis using r m by (intro exI [of _ i'] exI [of _ d']) auto
    next
      case False
      then have "\<forall>k. i \<le> k \<and> k < j + 1 \<longrightarrow> pivot \<le> d ! nat k" using "1.prems"(7) by (metis linorder_not_less zless_add1_eq)
      then obtain i' d' where r: "partition_loop (j + 1) hi pivot i d = Some (i', d')"
        "mset d' = mset d" "length d' = length d" "i \<le> i'" "i' \<le> hi"
        "\<forall>k. lo \<le> k \<and> k < i' \<longrightarrow> d' ! nat k < pivot" "\<forall>k. i' \<le> k \<and> k < hi \<longrightarrow> pivot \<le> d' ! nat k"
        "\<forall>k. 0 \<le> k \<and> (k < lo \<or> hi \<le> k) \<longrightarrow> d' ! nat k = d ! nat k"
        using "1.IH"(2) [OF True x False] "1.prems"(1-6) True by auto
      moreover have "partition_loop j hi pivot i d = partition_loop (j + 1) hi pivot i d"
        using True x False by (subst partition_loop.simps) simp
      ultimately show ?thesis by auto
    qed
  next
    case False
    then show ?thesis using "1.prems" by (subst partition_loop.simps) auto
  qed
qed

lemma partition_ok:
  assumes "0 \<le> lo" "lo < hi" "hi < int (length d)"
  shows "\<exists>i d'. partition' d lo hi = Some (i, d') \<and> mset d' = mset d \<and> length d' = length d \<and> lo \<le> i \<and> i \<le> hi \<and>
    (\<forall>k. lo \<le> k \<and> k < i \<longrightarrow> d' ! nat k \<le> d' ! nat i) \<and> (\<forall>k. i < k \<and> k \<le> hi \<longrightarrow> d' ! nat i \<le> d' ! nat k) \<and>
    (\<forall>k. 0 \<le> k \<and> (k < lo \<or> hi < k) \<longrightarrow> d' ! nat k = d ! nat k)"
proof -
  obtain i d1 where r: "partition_loop lo hi (d ! nat hi) lo d = Some (i, d1)" "mset d1 = mset d" "length d1 = length d"
    "lo \<le> i" "i \<le> hi" "\<forall>k. lo \<le> k \<and> k < i \<longrightarrow> d1 ! nat k < d ! nat hi" "\<forall>k. i \<le> k \<and> k < hi \<longrightarrow> d ! nat hi \<le> d1 ! nat k"
    "\<forall>k. 0 \<le> k \<and> (k < lo \<or> hi \<le> k) \<longrightarrow> d1 ! nat k = d ! nat k"
    using partition_loop_ok [of lo lo lo hi d "d ! nat hi"] assms by auto
  define d2 where "d2 = d1[nat i := d1 ! nat hi, nat hi := d1 ! nat i]"
  have hi: "d1 ! nat hi = d ! nat hi" using r(8) assms by simp
  have other: "d2 ! nat k = d1 ! nat k" if "0 \<le> k" "k \<noteq> i" "k \<noteq> hi" for k
    using that assms r(4) by (simp add: d2_def nth_list_update)
  have at: "d2 ! nat i = d ! nat hi" "hi \<noteq> i \<Longrightarrow> d2 ! nat hi = d1 ! nat i"
    using assms r(3-5) hi by (auto simp: d2_def nth_list_update)
  have "partition' d lo hi = Some (i, d2)"
    using r(1,3-5) assms by (simp add: partition'_def ub_simps d2_def vswap_in)
  moreover have "mset d2 = mset d" "length d2 = length d" using r(2-5) assms by (auto simp: d2_def mset_swap)
  moreover have "\<forall>k. lo \<le> k \<and> k < i \<longrightarrow> d2 ! nat k \<le> d2 ! nat i"
  proof (intro allI impI)
    fix k assume k: "lo \<le> k \<and> k < i"
    then show "d2 ! nat k \<le> d2 ! nat i" using other [of k] at(1) r(5,6) assms(1) by (auto intro: less_imp_le)
  qed
  moreover have "\<forall>k. i < k \<and> k \<le> hi \<longrightarrow> d2 ! nat i \<le> d2 ! nat k"
  proof (intro allI impI)
    fix k assume k: "i < k \<and> k \<le> hi"
    show "d2 ! nat i \<le> d2 ! nat k"
    proof (cases "k = hi")
      case True
      then show ?thesis using k at r(4,7) by auto
    next
      case False
      then show ?thesis using k other [of k] at(1) r(4,7) assms(1) by auto
    qed
  qed
  moreover have "\<forall>k. 0 \<le> k \<and> (k < lo \<or> hi < k) \<longrightarrow> d2 ! nat k = d ! nat k"
    using other r(4,5,8) by auto
  ultimately show ?thesis using r(4,5) by blast
qed

text \<open>A permutation that keeps everything outside lo..hi permutes the entries at lo..hi.\<close>

lemma window_values:
  assumes m: "mset d' = mset d" and len: "length d' = length d" and b: "0 \<le> lo" "hi < int (length d)"
    and out: "\<forall>k. 0 \<le> k \<and> (k < lo \<or> hi < k) \<longrightarrow> d' ! nat k = d ! nat k"
    and k: "lo \<le> k" "k \<le> hi"
  shows "\<exists>j. lo \<le> j \<and> j \<le> hi \<and> d' ! nat k = (d :: int list) ! nat j"
proof -
  define a w where "a = nat lo" and "w = nat (hi + 1 - lo)"
  have split: "xs = take a xs @ take w (drop a xs) @ drop (a + w) xs" for xs :: "int list"
    by (metis append_take_drop_id drop_drop add.commute)
  have same: "d' ! p = d ! p" if "p < a \<or> a + w \<le> p" for p
  proof -
    have "int p < lo \<or> hi < int p" using that b(1) k unfolding a_def w_def by arith
    then show ?thesis using out [rule_format, of "int p"] by simp
  qed
  have "take a d' = take a d" using same len by (auto intro: nth_equalityI)
  moreover have "drop (a + w) d' = drop (a + w) d" using same len by (auto intro: nth_equalityI)
  ultimately have "mset (take w (drop a d')) = mset (take w (drop a d))"
    using m split [of d] split [of d'] by (metis mset_append add_left_cancel add_right_cancel)
  then have sets: "set (take w (drop a d')) = set (take w (drop a d))" by (metis set_mset_mset)
  have "nat k = a + (nat k - a)" "nat k - a < w" "nat k < length d'" using k b len by (auto simp: a_def w_def)
  then have "d' ! nat k \<in> set (take w (drop a d'))"
    by (auto simp: in_set_conv_nth intro!: exI [of _ "nat k - a"])
  then obtain p where p: "p < w" "a + p < length d" "d' ! nat k = d ! (a + p)"
    unfolding sets by (auto simp: in_set_conv_nth)
  have "lo \<le> int (a + p)" "int (a + p) \<le> hi" using p b k by (auto simp: a_def w_def)
  then show ?thesis using p(3) by (metis nat_int)
qed

definition sorted_between :: "int list \<Rightarrow> int \<Rightarrow> int \<Rightarrow> bool" where
  "sorted_between d lo hi \<longleftrightarrow> (\<forall>p q. lo \<le> p \<and> p \<le> q \<and> q \<le> hi \<longrightarrow> d ! nat p \<le> d ! nat q)"

definition permutes_window :: "int list \<Rightarrow> int list \<Rightarrow> int \<Rightarrow> int \<Rightarrow> bool" where
  "permutes_window d' d lo hi \<longleftrightarrow> mset d' = mset d \<and> length d' = length d \<and>
     (\<forall>k. 0 \<le> k \<and> (k < lo \<or> hi < k) \<longrightarrow> d' ! nat k = d ! nat k)"

lemma permutes_window_trans:
  "permutes_window d2 d1 a b \<Longrightarrow> permutes_window d1 d lo hi \<Longrightarrow> lo \<le> a \<Longrightarrow> b \<le> hi \<Longrightarrow> permutes_window d2 d lo hi"
  by (auto simp: permutes_window_def)

lemma permutes_window_values:
  "permutes_window d' d lo hi \<Longrightarrow> 0 \<le> lo \<Longrightarrow> hi < int (length d) \<Longrightarrow> lo \<le> k \<Longrightarrow> k \<le> hi \<Longrightarrow>
   \<exists>j. lo \<le> j \<and> j \<le> hi \<and> d' ! nat k = d ! nat j"
  using window_values by (simp add: permutes_window_def)

lemma permutes_window_outside:
  "permutes_window d' d lo hi \<Longrightarrow> 0 \<le> k \<Longrightarrow> k < lo \<or> hi < k \<Longrightarrow> d' ! nat k = d ! nat k"
  by (simp add: permutes_window_def)

text \<open>Sorting both sides of a pivot sorts the window.\<close>

lemma sorted_around_pivot:
  assumes b: "0 \<le> lo" "lo \<le> i" "i \<le> hi" "hi < int (length d1)"
    and left: "\<forall>k. lo \<le> k \<and> k < i \<longrightarrow> d1 ! nat k \<le> d1 ! nat i" and right: "\<forall>k. i < k \<and> k \<le> hi \<longrightarrow> d1 ! nat i \<le> d1 ! nat k"
    and p2: "permutes_window d2 d1 lo (i - 1)" "sorted_between d2 lo (i - 1)"
    and p3: "permutes_window d3 d2 (i + 1) hi" "sorted_between d3 (i + 1) hi"
  shows "sorted_between d3 lo hi"
  unfolding sorted_between_def
proof (intro allI impI)
  fix p q assume pq: "lo \<le> p \<and> p \<le> q \<and> q \<le> hi"
  have len: "length d2 = length d1" using p2 by (simp add: permutes_window_def)
  have pivot: "d3 ! nat i = d1 ! nat i"
    using permutes_window_outside [OF p3(1), of i] permutes_window_outside [OF p2(1), of i] b by simp
  have front: "d3 ! nat k = d2 ! nat k" if "lo \<le> k" "k < i" for k
    using permutes_window_outside [OF p3(1), of k] that b by simp
  have low: "d3 ! nat k \<le> d1 ! nat i" if k: "lo \<le> k" "k < i" for k
    using permutes_window_values [OF p2(1) b(1), of k] k b(3,4) left front [OF k] by force
  have high: "d1 ! nat i \<le> d3 ! nat k" if k: "i < k" "k \<le> hi" for k
  proof -
    obtain j where "i + 1 \<le> j" "j \<le> hi" "d3 ! nat k = d2 ! nat j"
      using permutes_window_values [OF p3(1), of k] k b len by force
    moreover then have "d2 ! nat j = d1 ! nat j" using permutes_window_outside [OF p2(1), of j] b by simp
    ultimately show ?thesis using right by auto
  qed
  show "d3 ! nat p \<le> d3 ! nat q"
  proof (cases "p < i")
    case True
    show ?thesis
    proof (cases "q < i")
      case True
      then show ?thesis using p2(2) pq front [of p] front [of q] by (auto simp: sorted_between_def)
    next
      case False
      then have "d1 ! nat i \<le> d3 ! nat q" using high [of q] pivot pq by (cases "q = i") auto
      then show ?thesis using low [of p] True pq by simp
    qed
  next
    case False
    show ?thesis
    proof (cases "p = i")
      case True
      then show ?thesis using high [of q] pivot pq by (cases "q = i") auto
    next
      case p: False
      then show ?thesis using p3(2) pq False by (simp add: sorted_between_def)
    qed
  qed
qed

lemma qsort_ok:
  "0 \<le> lo \<Longrightarrow> hi < int (length d) \<Longrightarrow>
   \<exists>d'. qsort' d lo hi = Some d' \<and> permutes_window d' d lo hi \<and> sorted_between d' lo hi"
proof (induction d lo hi rule: qsort'.induct)
  case (1 d lo hi)
  show ?case
  proof (cases "lo \<ge> hi")
    case True
    then have "p = q" if "lo \<le> p \<and> p \<le> q \<and> q \<le> hi" for p q using that by linarith
    then have "sorted_between d lo hi" by (auto simp: sorted_between_def)
    then show ?thesis using True by (subst qsort'.simps) (auto simp: permutes_window_def)
  next
    case False
    obtain i d1 where part: "partition' d lo hi = Some (i, d1)" "mset d1 = mset d" "length d1 = length d" "lo \<le> i" "i \<le> hi"
      "\<forall>k. lo \<le> k \<and> k < i \<longrightarrow> d1 ! nat k \<le> d1 ! nat i" "\<forall>k. i < k \<and> k \<le> hi \<longrightarrow> d1 ! nat i \<le> d1 ! nat k"
      "\<forall>k. 0 \<le> k \<and> (k < lo \<or> hi < k) \<longrightarrow> d1 ! nat k = d ! nat k"
      using partition_ok [of lo hi d] "1.prems" False by auto
    obtain d2 where d2: "qsort' d1 lo (i - 1) = Some d2" "permutes_window d2 d1 lo (i - 1)" "sorted_between d2 lo (i - 1)"
      using "1.IH"(1) [OF False part(1) refl] "1.prems" part(3,5) by auto
    then have len: "length d2 = length d1" by (simp add: permutes_window_def)
    obtain d3 where d3: "qsort' d2 (i + 1) hi = Some d3" "permutes_window d3 d2 (i + 1) hi" "sorted_between d3 (i + 1) hi"
      using "1.IH"(2) [OF False part(1) refl d2(1)] "1.prems" part(3,4) len by auto
    have "permutes_window d1 d lo hi" using part(2,3,8) by (simp add: permutes_window_def)
    then have "permutes_window d2 d lo hi" using permutes_window_trans [OF d2(2)] part(5) by simp
    then have "permutes_window d3 d lo hi" using permutes_window_trans [OF d3(2)] part(4) by simp
    moreover have "sorted_between d3 lo hi"
      using sorted_around_pivot [OF "1.prems"(1) part(4,5) _ part(6,7) d2(2,3) d3(2,3)] "1.prems" part(3) by simp
    moreover have "qsort' d lo hi = Some d3" using False part(1) d2(1) d3(1) by (subst qsort'.simps) simp
    ultimately show ?thesis by blast
  qed
qed

interpretation quick_sort: sort_strategy QuickSort
proof unfold_locales
  fix d :: "int list" assume len: "int (length d) \<le> INT_MAX"
  show "\<exists>d'. QuickSort d = Some d' \<and> sorted d' \<and> mset d' = mset d"
  proof (cases "d = []")
    case False
    obtain d' where d': "qsort' d 0 (int (length d) - 1) = Some d'" "permutes_window d' d 0 (int (length d) - 1)"
      "sorted_between d' 0 (int (length d) - 1)"
      using qsort_ok [of 0 "int (length d) - 1" d] by auto
    then have "sorted d'" by (intro sorted_by_int_index) (auto simp: sorted_between_def permutes_window_def)
    then show ?thesis using d' False len by (simp add: QuickSort_def ub_simps permutes_window_def)
  qed (simp add: QuickSort_def)
qed

subsection \<open>Merge sort\<close>

lemma std_merge_mset: "mset (std_merge xs ys) = mset xs + mset ys"
  by (induction xs ys rule: std_merge.induct) auto

lemma std_merge_sorted: "sorted xs \<Longrightarrow> sorted ys \<Longrightarrow> sorted (std_merge xs ys)"
proof (induction xs ys rule: std_merge.induct)
  case (3 x xs y ys)
  have "set (std_merge us vs) = set us \<union> set vs" for us vs by (metis std_merge_mset set_mset_mset set_mset_union)
  then show ?case using 3 by auto
qed auto

lemma MergeSort_ok: "sorted (MergeSort d) \<and> mset (MergeSort d) = mset d"
proof (induction d rule: MergeSort.induct)
  case (1 d)
  show ?case
  proof (cases "length d \<le> 1")
    case True
    then have "sorted d" by (cases d) auto
    then show ?thesis using True by (simp add: MergeSort.simps [of d])
  next
    case False
    then show ?thesis using 1 [OF False]
      by (subst (1 2) MergeSort.simps) (simp add: std_merge_sorted std_merge_mset flip: mset_append)
  qed
qed

interpretation merge_sort: sort_strategy "\<lambda>d. Some (MergeSort d)"
  by unfold_locales (simp add: MergeSort_ok)

text \<open>
  C38: whichever strategy is set, Sorter::sort returns, leaves its data sorted and prints the name of the strategy and the
  data in sorted order, each followed by a blank; so the three strategies agree on every vector of at
  most INT_MAX ints.
\<close>
theorem sorter_sorts:
  assumes "int (length d) \<le> INT_MAX"
  shows "sorter_sort (Some st) d =
    Some (''Sorting with '' @ strategy_name st @ '': '' @ concat (map (\<lambda>x. show_int x @ '' '') (sort d)), sort d)"
  using bubble_sort.run_is_sort [OF assms] quick_sort.run_is_sort [OF assms] merge_sort.run_is_sort [OF assms]
  by (cases st) (auto simp: sorter_sort_def)

lemma sorter_sorts_witness: "sorter_sort (Some Quick) [5, 3, 8] = Some (''Sorting with QuickSort: 3 5 8 '', [3, 5, 8])"
proof -
  have "''Sorting with '' @ strategy_name Quick @ '': '' @ concat (map (\<lambda>x. show_int x @ '' '') (sort [5, 3, 8])) =
      ''Sorting with QuickSort: 3 5 8 ''" by code_simp
  then show ?thesis using sorter_sorts [of "[5, 3, 8]" Quick] by simp
qed

end
