(* ===== verification/Structural_Patterns.thy ===== *)
theory Structural_Patterns
  imports Prelude
begin

text \<open>
  src/src/patterns/{decorator,proxy,flyweight,composite,adapter,facade}.cpp. A hierarchy of wrapped
  objects is a datatype, a shared pointer the index of its object, and what a demonstration prints a
  list of lines (the progress lines of the stream decorators are left out).
\<close>

section \<open>decorator.cpp\<close>

datatype stream = RawStream | EncryptedStream stream | CompressedStream stream

definition xor_char :: "char \<Rightarrow> char" where
  "xor_char c = char_of (Bit_Operations.xor (of_char c :: nat) 66)"

definition with_header :: "string \<Rightarrow> string" where
  "with_header data = ''[compressed:'' @ show_nat (length data) @ '']'' @ data"

text \<open>find(']') and substr(pos + 1).\<close>

fun after_bracket :: "string \<Rightarrow> string option" where
  "after_bracket [] = None"
| "after_bracket (c # cs) = (if c = CHR '']'' then Some cs else after_bracket cs)"

definition strip_header :: "string \<Rightarrow> string" where
  "strip_header raw = (case after_bracket raw of None \<Rightarrow> raw | Some rest \<Rightarrow> rest)"

fun stream_write :: "stream \<Rightarrow> string \<Rightarrow> string" where
  "stream_write RawStream data = data"
| "stream_write (EncryptedStream s) data = stream_write s (map xor_char data)"
| "stream_write (CompressedStream s) data = stream_write s (with_header data)"

fun stream_read :: "stream \<Rightarrow> string \<Rightarrow> string" where
  "stream_read RawStream data = data"
| "stream_read (EncryptedStream s) data = map xor_char (stream_read s data)"
| "stream_read (CompressedStream s) data = strip_header (stream_read s data)"

definition decorator_main :: "(nat \<times> string) ub" where
  "decorator_main = do {
     let stream = CompressedStream (EncryptedStream RawStream);
     let written = stream_write stream ''Hello, Decorator Pattern!'';
     let result = stream_read stream written;
     _ \<leftarrow> guard (result = ''Hello, Decorator Pattern!'');
     Some (length written, result) }"

lemma decorator_main_output: "decorator_main = Some (40, ''Hello, Decorator Pattern!'')"
  by code_simp

subsection \<open>Any stack of decorators reads back what it wrote\<close>

lemma xor_char_twice: "xor_char (xor_char c) = c"
proof -
  have a: "take_bit 8 (of_char c :: nat) = of_char c" by (simp add: take_bit_eq_mod)
  have "take_bit 8 (Bit_Operations.xor (of_char c) 66) = Bit_Operations.xor (of_char c :: nat) 66"
    by (simp only: take_bit_xor a) simp
  then have "(of_char (xor_char c) :: nat) = Bit_Operations.xor (of_char c) 66"
    by (simp add: xor_char_def take_bit_eq_mod)
  then show ?thesis by (simp add: xor_char_def xor.assoc)
qed

lemma after_bracket_append: "CHR '']'' \<notin> set xs \<Longrightarrow> after_bracket (xs @ CHR '']'' # ys) = Some ys"
  by (induction xs) auto

lemma strip_header_header: "strip_header (with_header data) = data"
proof -
  have "CHR '']'' \<notin> set (show_nat (length data))"
  proof
    assume "CHR '']'' \<in> set (show_nat (length data))"
    then obtain n :: nat where "n < 58" "CHR '']'' = char_of n" using show_nat_digits by fastforce
    then have "(of_char (CHR '']'') :: nat) = n mod 256" by (metis of_char_of)
    then show False using \<open>n < 58\<close> by simp
  qed
  then have "CHR '']'' \<notin> set (''[compressed:'' @ show_nat (length data))" by simp
  from after_bracket_append [OF this, of data] show ?thesis by (simp add: strip_header_def with_header_def)
qed

locale data_stream =
  fixes put get :: "string \<Rightarrow> string"
  assumes get_put: "get (put data) = data"
begin

lemma encrypted_get_put: "map xor_char (get (put (map xor_char data))) = data"
  by (simp add: get_put comp_def xor_char_twice)

lemma compressed_get_put: "strip_header (get (put (with_header data))) = data"
  by (simp add: get_put strip_header_header)

end

interpretation any_stream: data_stream "stream_write s" "stream_read s" for s
proof (induction s)
  case RawStream
  show ?case by unfold_locales simp
next
  case (EncryptedStream s)
  show ?case by unfold_locales (simp add: data_stream.encrypted_get_put [OF EncryptedStream])
next
  case (CompressedStream s)
  show ?case by unfold_locales (simp add: data_stream.compressed_get_put [OF CompressedStream])
qed

text \<open>
  C33: Reading what was written through any stack of encrypting and compressing decorators gives
  the data back, whatever characters it holds.
\<close>
theorem stream_roundtrip: "stream_read s (stream_write s data) = data"
  by (rule any_stream.get_put)

section \<open>proxy.cpp\<close>

datatype service =
    RemoteDataService int
  | CachingProxy service "string \<Rightarrow> string option" int
  | LoggingProxy service

definition quoted :: "string \<Rightarrow> string" where
  "quoted s = CHR 0x22 # s @ [CHR 0x22]"

text \<open>fetch returns the data, the service after the call and the lines that were logged.\<close>

fun fetch :: "service \<Rightarrow> string \<Rightarrow> (string \<times> service \<times> string list) ub" where
  "fetch (RemoteDataService requests) key = do {
     r \<leftarrow> chk (requests + 1);
     Some (''data_for_'' @ key, RemoteDataService r, []) }"
| "fetch (CachingProxy real cache hits) key = (case cache key of
     Some result \<Rightarrow> do { h \<leftarrow> chk (hits + 1); Some (result, CachingProxy real cache h, []) }
   | None \<Rightarrow> do {
       (result, real', log) \<leftarrow> fetch real key;
       Some (result, CachingProxy real' (cache(key \<mapsto> result)) hits, log) })"
| "fetch (LoggingProxy real) key = do {
     (result, real', log) \<leftarrow> fetch real key;
     Some (result, LoggingProxy real',
       (''  [LOG] fetch('' @ quoted key @ '') called'') # log @ [''  [LOG] fetch('' @ quoted key @ '') returned: '' @ result]) }"

fun request_count :: "service \<Rightarrow> int" where
  "request_count (RemoteDataService requests) = requests"
| "request_count (CachingProxy real cache hits) = request_count real"
| "request_count (LoggingProxy real) = request_count real"

fun cache_hit_count :: "service \<Rightarrow> int" where
  "cache_hit_count (RemoteDataService requests) = 0"
| "cache_hit_count (CachingProxy real cache hits) = hits"
| "cache_hit_count (LoggingProxy real) = cache_hit_count real"

definition stream_process :: "service \<Rightarrow> string \<Rightarrow> (service \<times> string list) ub" where
  "stream_process s key = do { (data, s', log) \<leftarrow> fetch s key; Some (s', log @ [''  Got: '' @ data]) }"

definition proxy_main :: "(string list \<times> int \<times> int) ub" where
  "proxy_main = do {
     let service = LoggingProxy (CachingProxy (RemoteDataService 0) Map.empty 0);
     (s1, o1) \<leftarrow> stream_process service ''user_123'';
     (s2, o2) \<leftarrow> stream_process s1 ''user_123'';
     (s3, o3) \<leftarrow> stream_process s2 ''order_456'';
     _ \<leftarrow> guard (request_count s3 = 2);
     _ \<leftarrow> guard (cache_hit_count s3 = 1);
     Some (o1 @ o2 @ o3, request_count s3, cache_hit_count s3) }"

lemma proxy_main_output:
  "map_option snd proxy_main = Some (2, 1)"
  "map_option (\<lambda>r. last (fst r)) proxy_main = Some ''  Got: data_for_order_456''"
  by code_simp+

fun fetch_all :: "service \<Rightarrow> string list \<Rightarrow> (string list \<times> service) ub" where
  "fetch_all s [] = Some ([], s)"
| "fetch_all s (k # ks) = do {
     (d, s', log) \<leftarrow> fetch s k;
     (ds, s'') \<leftarrow> fetch_all s' ks;
     Some (d # ds, s'') }"

lemma caching_loop:
  assumes "\<forall>k v. cache k = Some v \<longrightarrow> v = ''data_for_'' @ k" "0 \<le> r" "0 \<le> h"
    and "r + int (length ks) \<le> INT_MAX" "h + int (length ks) \<le> INT_MAX"
  shows "\<exists>cache'. fetch_all (CachingProxy (RemoteDataService r) cache h) ks =
    Some (map (\<lambda>k. ''data_for_'' @ k) ks,
      CachingProxy (RemoteDataService (r + int (card (set ks - dom cache)))) cache'
        (h + int (length ks) - int (card (set ks - dom cache))))"
  using assms
proof (induction ks arbitrary: cache r h)
  case (Cons k ks)
  show ?case
  proof (cases "cache k")
    case None
    define c1 where "c1 = cache(k \<mapsto> ''data_for_'' @ k)"
    have "set (k # ks) - dom cache = insert k (set ks - dom c1)" using None by (auto simp: c1_def)
    moreover have "k \<notin> set ks - dom c1" by (simp add: c1_def)
    ultimately have n: "card (set (k # ks) - dom cache) = Suc (card (set ks - dom c1))" by simp
    have "\<forall>j v. c1 j = Some v \<longrightarrow> v = ''data_for_'' @ j" using Cons.prems(1) by (simp add: c1_def)
    then obtain cache' where "fetch_all (CachingProxy (RemoteDataService (r + 1)) c1 h) ks =
        Some (map (\<lambda>k. ''data_for_'' @ k) ks, CachingProxy (RemoteDataService (r + 1 + int (card (set ks - dom c1)))) cache'
          (h + int (length ks) - int (card (set ks - dom c1))))"
      using Cons.IH [of c1 "r + 1" h] Cons.prems by auto
    moreover have "fetch (CachingProxy (RemoteDataService r) cache h) k =
        Some (''data_for_'' @ k, CachingProxy (RemoteDataService (r + 1)) c1 h, [])"
      using None Cons.prems by (simp add: ub_simps c1_def)
    ultimately show ?thesis using n by (simp del: fetch.simps)
  next
    case (Some v)
    then have n: "set (k # ks) - dom cache = set ks - dom cache" by auto
    obtain cache' where "fetch_all (CachingProxy (RemoteDataService r) cache (h + 1)) ks =
        Some (map (\<lambda>k. ''data_for_'' @ k) ks, CachingProxy (RemoteDataService (r + int (card (set ks - dom cache)))) cache'
          (h + 1 + int (length ks) - int (card (set ks - dom cache))))"
      using Cons.IH [of cache r "h + 1"] Cons.prems by auto
    moreover have "fetch (CachingProxy (RemoteDataService r) cache h) k =
        Some (''data_for_'' @ k, CachingProxy (RemoteDataService r) cache (h + 1), [])"
      using Some Cons.prems by (simp add: ub_simps)
    ultimately show ?thesis by (simp only: fetch_all.simps n) (simp del: fetch.simps)
  qed
qed simp

text \<open>
  Claim: For every sequence of keys the caching proxy returns what the remote service would return,
  asks it exactly once per distinct key, and counts every other fetch as a hit.
\<close>
theorem caching_proxy_transparent:
  assumes "int (length ks) \<le> INT_MAX"
  shows "\<exists>s. fetch_all (CachingProxy (RemoteDataService 0) Map.empty 0) ks = Some (map (\<lambda>k. ''data_for_'' @ k) ks, s) \<and>
    request_count s = int (card (set ks)) \<and> cache_hit_count s = int (length ks) - int (card (set ks))"
  using caching_loop [of Map.empty 0 0 ks] assms by auto

lemma caching_proxy_transparent_witness:
  "\<exists>s. fetch_all (CachingProxy (RemoteDataService 0) Map.empty 0) [''a'', ''b'', ''a''] =
      Some (map (\<lambda>k. ''data_for_'' @ k) [''a'', ''b'', ''a''], s) \<and>
    request_count s = int (card (set [''a'', ''b'', ''a''])) \<and>
    cache_hit_count s = int (length [''a'', ''b'', ''a'']) - int (card (set [''a'', ''b'', ''a'']))"
  by (rule caching_proxy_transparent) simp

section \<open>flyweight.cpp\<close>

record character_style =
  font_family :: string
  font_size :: int
  bold :: bool
  italic :: bool

text \<open>The styles made so far; the pointer to a style is its index, the cache maps a style to it.\<close>

record style_factory =
  styles :: "character_style list"
  cache :: "character_style \<Rightarrow> nat option"
  cache_hits :: nat

definition StyleFactory :: style_factory where
  "StyleFactory = \<lparr>styles = [], cache = Map.empty, cache_hits = 0\<rparr>"

definition get_style :: "style_factory \<Rightarrow> string \<Rightarrow> int \<Rightarrow> bool \<Rightarrow> bool \<Rightarrow> nat \<times> style_factory" where
  "get_style f font sz b it = (let key = \<lparr>font_family = font, font_size = sz, bold = b, italic = it\<rparr> in
     case cache f key of
       Some p \<Rightarrow> (p, f\<lparr>cache_hits := cache_hits f + 1\<rparr>)
     | None \<Rightarrow> (length (styles f), f\<lparr>styles := styles f @ [key], cache := (cache f)(key \<mapsto> length (styles f))\<rparr>))"

definition unique_styles :: "style_factory \<Rightarrow> nat" where
  "unique_styles f = length (styles f)"

record formatted_char =
  character :: char
  position :: nat
  style :: nat

definition flyweight_main :: "(nat \<times> nat \<times> nat \<times> nat list) ub" where
  "flyweight_main = do {
     let text' = ''Hello, World! This is a flyweight demo.'';
     let (default_style, f1) = get_style StyleFactory ''Arial'' 12 False False;
     let document = map (\<lambda>i. \<lparr>character = text' ! i, position = i, style = default_style\<rparr>) [0..<length text'];
     let (bold_style, f2) = get_style f1 ''Arial'' 12 True False;
     let document' = map (\<lambda>c. c\<lparr>style := bold_style\<rparr>) (take 5 document) @ drop 5 document;
     let (same_default, f3) = get_style f2 ''Arial'' 12 False False;
     let (same_bold, f4) = get_style f3 ''Arial'' 12 True False;
     _ \<leftarrow> guard (unique_styles f4 = 2);
     _ \<leftarrow> guard (same_default = default_style);
     _ \<leftarrow> guard (same_bold = bold_style);
     _ \<leftarrow> guard (cache_hits f4 = 2);
     _ \<leftarrow> guard (length document' = length text');
     Some (length document', unique_styles f4, cache_hits f4, map style (take 6 document')) }"

lemma flyweight_main_output: "flyweight_main = Some (39, 2, 2, [1, 1, 1, 1, 1, 0])"
  by code_simp

definition factory_inv :: "style_factory \<Rightarrow> bool" where
  "factory_inv f \<longleftrightarrow> distinct (styles f) \<and>
     (\<forall>k p. cache f k = Some p \<longleftrightarrow> p < length (styles f) \<and> styles f ! p = k)"

lemma get_style_shares:
  assumes "factory_inv f" "get_style f font sz b it = (p, f')"
  shows "factory_inv f'" "p < length (styles f')"
    "styles f' ! p = \<lparr>font_family = font, font_size = sz, bold = b, italic = it\<rparr>" "\<exists>new. styles f' = styles f @ new"
proof -
  let ?key = "\<lparr>font_family = font, font_size = sz, bold = b, italic = it\<rparr>"
  have "factory_inv f' \<and> p < length (styles f') \<and> styles f' ! p = ?key \<and> (\<exists>new. styles f' = styles f @ new)"
  proof (cases "cache f ?key")
    case None
    then have "?key \<notin> set (styles f)" using assms(1) unfolding factory_inv_def in_set_conv_nth by (metis option.distinct(1))
    then have "styles f ! q \<noteq> ?key" if "q < length (styles f)" for q using that nth_mem by metis
    with \<open>?key \<notin> set (styles f)\<close> show ?thesis using None assms
      by (auto simp: get_style_def Let_def factory_inv_def nth_append less_Suc_eq split: if_splits)
  next
    case (Some q)
    then show ?thesis using assms by (auto simp: get_style_def Let_def factory_inv_def)
  qed
  then show "factory_inv f'" "p < length (styles f')" "styles f' ! p = ?key" "\<exists>new. styles f' = styles f @ new" by blast+
qed

section \<open>composite.cpp\<close>

datatype fs_entry = File string int | Directory string "fs_entry list"

definition SIZE_MAX :: int where
  "SIZE_MAX = 18446744073709551615"

fun entry_name :: "fs_entry \<Rightarrow> string" where
  "entry_name (File n s) = n"
| "entry_name (Directory n cs) = n"

fun entry_size :: "fs_entry \<Rightarrow> int" where
  "entry_size (File n s) = s"
| "entry_size (Directory n cs) = foldl (\<lambda>sum c. (sum + c) mod (SIZE_MAX + 1)) 0 (map entry_size cs)"

fun print_entry :: "nat \<Rightarrow> fs_entry \<Rightarrow> string list" where
  "print_entry indent (File n s) = [replicate indent (CHR '' '') @ n @ '' ('' @ show_int s @ '' bytes)'']"
| "print_entry indent (Directory n cs) =
     (replicate indent (CHR '' '') @ ''['' @ n @ ''/] ('' @ show_int (entry_size (Directory n cs)) @ '' bytes)'') #
     concat (map (print_entry (indent + 2)) cs)"

fun is_directory :: "fs_entry \<Rightarrow> bool" where
  "is_directory (File n s) = False"
| "is_directory (Directory n cs) = True"

text \<open>add and count are members of Directory only.\<close>

fun add_entry :: "fs_entry \<Rightarrow> fs_entry \<Rightarrow> fs_entry ub" where
  "add_entry (Directory n cs) entry = Some (Directory n (cs @ [entry]))"
| "add_entry (File n s) entry = None"

fun entry_count :: "fs_entry \<Rightarrow> nat ub" where
  "entry_count (Directory n cs) = Some (length cs)"
| "entry_count (File n s) = None"

definition total_size :: "fs_entry \<Rightarrow> int" where
  "total_size entry = entry_size entry"

definition composite_main :: "(string list \<times> int) ub" where
  "composite_main = do {
     src1 \<leftarrow> add_entry (Directory ''src'' []) (File ''main.cpp'' 2048);
     src2 \<leftarrow> add_entry src1 (File ''utils.cpp'' 1024);
     src \<leftarrow> add_entry src2 (File ''utils.h'' 512);
     build1 \<leftarrow> add_entry (Directory ''build'' []) (File ''app.o'' 8192);
     build \<leftarrow> add_entry build1 (File ''app'' 32768);
     root1 \<leftarrow> add_entry (Directory ''project'' []) src;
     root2 \<leftarrow> add_entry root1 build;
     root \<leftarrow> add_entry root2 (File ''CMakeLists.txt'' 256);
     _ \<leftarrow> guard (entry_size root = 2048 + 1024 + 512 + 8192 + 32768 + 256);
     _ \<leftarrow> guard (is_directory root);
     n \<leftarrow> entry_count root;
     _ \<leftarrow> guard (n = 3);
     Some (print_entry 0 root, total_size root) }"

lemma composite_main_output:
  "composite_main = Some
     ([''[project/] (44800 bytes)'', ''  [src/] (3584 bytes)'', ''    main.cpp (2048 bytes)'', ''    utils.cpp (1024 bytes)'',
       ''    utils.h (512 bytes)'', ''  [build/] (40960 bytes)'', ''    app.o (8192 bytes)'', ''    app (32768 bytes)'',
       ''  CMakeLists.txt (256 bytes)''], 44800)"
  by code_simp

text \<open>The size of a tree is the sum of the sizes of its files modulo 2^64.\<close>

fun file_sizes :: "fs_entry \<Rightarrow> int list" where
  "file_sizes (File n s) = [s]"
| "file_sizes (Directory n cs) = concat (map file_sizes cs)"

lemma foldl_mod_sum: "foldl (\<lambda>sum c. (sum + c) mod m) a xs mod m = (a + sum_list xs) mod (m :: int)"
  by (induction xs arbitrary: a) (auto simp: mod_simps add.assoc)

lemma entry_size_sum: "entry_size e mod (SIZE_MAX + 1) = sum_list (file_sizes e) mod (SIZE_MAX + 1)"
proof (induction e rule: entry_size.induct)
  case (2 n cs)
  have "sum_list (map entry_size cs) mod (SIZE_MAX + 1) = sum_list (map (\<lambda>c. sum_list (file_sizes c)) cs) mod (SIZE_MAX + 1)"
    using 2 by (induction cs) (auto intro: mod_add_cong)
  also have "sum_list (map (\<lambda>c. sum_list (file_sizes c)) cs) = sum_list (file_sizes (Directory n cs))"
    by (induction cs) auto
  finally show ?case by (simp add: foldl_mod_sum)
qed simp

section \<open>adapter.cpp\<close>

text \<open>The coordinates of main are integers.\<close>

record legacy_rectangle =
  x1 :: int
  y1 :: int
  x2 :: int
  y2 :: int

definition oldDraw :: "legacy_rectangle \<Rightarrow> string" where
  "oldDraw r = ''LegacyRectangle::oldDraw('' @ show_int (x1 r) @ '','' @ show_int (y1 r) @ '' -> '' @
     show_int (x2 r) @ '','' @ show_int (y2 r) @ '')''"

definition RectangleAdapter :: "int \<Rightarrow> int \<Rightarrow> int \<Rightarrow> int \<Rightarrow> legacy_rectangle" where
  "RectangleAdapter x y w h = \<lparr>x1 = x, y1 = y, x2 = x + w, y2 = y + h\<rparr>"

definition adapter_x :: "legacy_rectangle \<Rightarrow> int" where
  "adapter_x r = x1 r"

definition adapter_y :: "legacy_rectangle \<Rightarrow> int" where
  "adapter_y r = y1 r"

definition width :: "legacy_rectangle \<Rightarrow> int" where
  "width r = x2 r - x1 r"

definition height :: "legacy_rectangle \<Rightarrow> int" where
  "height r = y2 r - y1 r"

definition adapter_main :: "(string \<times> int list) ub" where
  "adapter_main = do {
     let rect = RectangleAdapter 10 20 100 50;
     _ \<leftarrow> guard (adapter_x rect = 10 \<and> adapter_y rect = 20 \<and> width rect = 100 \<and> height rect = 50);
     Some (oldDraw rect, [adapter_x rect, adapter_y rect, width rect, height rect]) }"

lemma adapter_main_output: "adapter_main = Some (''LegacyRectangle::oldDraw(10,20 -> 110,70)'', [10, 20, 100, 50])"
  by code_simp

lemma adapter_keeps_geometry:
  "adapter_x (RectangleAdapter x y w h) = x" "adapter_y (RectangleAdapter x y w h) = y"
  "width (RectangleAdapter x y w h) = w" "height (RectangleAdapter x y w h) = h"
  by (simp_all add: RectangleAdapter_def adapter_x_def adapter_y_def width_def height_def)

section \<open>facade.cpp\<close>

datatype media_event =
    Set_Resolution int int | Audio_Codec string | Video_Codec string | Load_Subtitles string
  | Decode_Audio | Decode_Video | Sync_Subtitles | Play_Audio | Render_Video | Show | Play string | Stop

record media_player =
  playing :: bool
  events :: "media_event list"

definition play :: "string \<Rightarrow> media_player \<Rightarrow> media_player" where
  "play f p = \<lparr>playing = True, events = events p @ [Play f, Set_Resolution 1920 1080, Audio_Codec f, Video_Codec f,
     Load_Subtitles f, Decode_Audio, Decode_Video, Sync_Subtitles, Play_Audio, Render_Video, Show]\<rparr>"

definition stop :: "media_player \<Rightarrow> media_player" where
  "stop p = \<lparr>playing = False, events = events p @ [Stop]\<rparr>"

definition facade_main :: "media_event list ub" where
  "facade_main = do {
     let p1 = play ''movie.mp4'' \<lparr>playing = False, events = []\<rparr>;
     _ \<leftarrow> guard (playing p1);
     let p2 = stop p1;
     _ \<leftarrow> guard (\<not> playing p2);
     Some (events p2) }"

lemma facade_main_output:
  "map_option length facade_main = Some 12" "map_option last facade_main = Some Stop"
  by code_simp+

end
