(* ===== verification/Error_Handling.thy ===== *)
theory Error_Handling
  imports Complex_Main Prelude
begin

text \<open>
  src/src/modern_cpp/practical/error_handling.cpp: the Result type and its combinators, the parsing
  pipeline with std::from_chars (base 10, int), the optional-returning helpers and main. None is
  std::bad_variant_access or a failed assertion; doubles are rationals.
\<close>

section \<open>Result\<close>

datatype ('t, 'e) Result = Success 't | Failure 'e

fun has_value :: "('t, 'e) Result \<Rightarrow> bool" where
  "has_value (Success v) = True"
| "has_value (Failure e) = False"

definition has_error :: "('t, 'e) Result \<Rightarrow> bool" where
  "has_error r = (\<not> has_value r)"

fun result_value :: "('t, 'e) Result \<Rightarrow> 't ub" where
  "result_value (Success v) = Some v"
| "result_value (Failure e) = None"

fun result_error :: "('t, 'e) Result \<Rightarrow> 'e ub" where
  "result_error (Success v) = None"
| "result_error (Failure e) = Some e"

fun and_then :: "('t, 'e) Result \<Rightarrow> ('t \<Rightarrow> ('u, 'e) Result) \<Rightarrow> ('u, 'e) Result" where
  "and_then (Success v) f = f v"
| "and_then (Failure e) f = Failure e"

fun transform :: "('t, 'e) Result \<Rightarrow> ('t \<Rightarrow> 'u) \<Rightarrow> ('u, 'e) Result" where
  "transform (Success v) f = Success (f v)"
| "transform (Failure e) f = Failure e"

fun or_else :: "('t, 'e) Result \<Rightarrow> ('e \<Rightarrow> ('t, 'e) Result) \<Rightarrow> ('t, 'e) Result" where
  "or_else (Success v) f = Success v"
| "or_else (Failure e) f = f e"

section \<open>The parsing pipeline\<close>

datatype errc = No_error | Invalid_argument | Result_out_of_range

definition is_digit :: "char \<Rightarrow> bool" where
  "is_digit c = (48 \<le> (of_char c :: nat) \<and> (of_char c :: nat) < 58)"

definition digits_value :: "string \<Rightarrow> int" where
  "digits_value ds = foldl (\<lambda>v d. 10 * v + (of_char d - 48)) 0 ds"

text \<open>The value stored, the position after the match and the error code.\<close>

definition from_chars :: "string \<Rightarrow> int \<Rightarrow> int \<times> nat \<times> errc" where
  "from_chars s result =
     (let neg = (s \<noteq> [] \<and> hd s = CHR ''-'');
          ds = takeWhile is_digit (if neg then tl s else s);
          v = (if neg then - digits_value ds else digits_value ds);
          ptr = (if neg then 1 else 0) + length ds in
      if ds = [] then (result, 0, Invalid_argument)
      else if in_int v then (v, ptr, No_error)
      else (result, ptr, Result_out_of_range))"

definition parse_int :: "string \<Rightarrow> (int, string) Result" where
  "parse_int sv = (case from_chars sv 0 of (result, ptr, ec) \<Rightarrow>
     if ec = No_error \<and> ptr = length sv then Success result
     else Failure (''Failed to parse '' @ [CHR 0x27] @ sv @ [CHR 0x27] @ '' as integer''))"

definition validate_positive :: "int \<Rightarrow> (int, string) Result" where
  "validate_positive v = (if v > 0 then Success v else Failure (''Value must be positive, got: '' @ show_int v))"

definition validate_range :: "int \<Rightarrow> int \<Rightarrow> int \<Rightarrow> (int, string) Result" where
  "validate_range v lo hi = (if v \<ge> lo \<and> v \<le> hi then Success v
     else Failure (''Value '' @ show_int v @ '' out of range ['' @ show_int lo @ '', '' @ show_int hi @ '']''))"

text \<open>The chain that main builds on a text.\<close>

definition pipeline :: "string \<Rightarrow> (int, string) Result" where
  "pipeline sv = and_then (and_then (parse_int sv) validate_positive) (\<lambda>v. validate_range v 1 100)"

definition safe_divide :: "rat \<Rightarrow> rat \<Rightarrow> rat option" where
  "safe_divide a b = (if b = 0 then None else Some (a / b))"

definition find_user :: "int \<Rightarrow> string option" where
  "find_user i = (if i = 1 then Some ''Alice'' else if i = 2 then Some ''Bob'' else None)"

definition error_handling_main :: "string list ub" where
  "error_handling_main = do {
     let result = pipeline ''42'';
     v \<leftarrow> result_value result;
     _ \<leftarrow> guard (v = 42);
     let bad = parse_int ''abc'';
     e1 \<leftarrow> result_error bad;
     let chained = and_then (parse_int ''-5'') validate_positive;
     e2 \<leftarrow> result_error chained;
     let doubled = transform (parse_int ''21'') (\<lambda>v. v * 2);
     d \<leftarrow> result_value doubled;
     _ \<leftarrow> guard (d = 42);
     _ \<leftarrow> guard (safe_divide 10 3 \<noteq> None);
     _ \<leftarrow> guard (safe_divide 10 0 = None);
     let user = find_user 1;
     let greeting = (case user of Some u \<Rightarrow> ''Hello, '' @ u @ ''!'' | None \<Rightarrow> ''User not found'');
     Some [show_int v, e1, e2, show_int d, greeting] }"

lemma error_handling_main_output:
  "error_handling_main = Some [''42'', ''Failed to parse '' @ [CHR 0x27] @ ''abc'' @ [CHR 0x27] @ '' as integer'',
     ''Value must be positive, got: -5'', ''42'', ''Hello, Alice!'']"
  by code_simp

section \<open>The laws of the combinators\<close>

lemma and_then_assoc: "and_then (and_then r f) g = and_then r (\<lambda>v. and_then (f v) g)"
  by (cases r) simp_all

lemma transform_and_then: "transform r f = and_then r (Success \<circ> f)"
  by (cases r) simp_all

lemma or_else_success: "has_value (or_else r f) \<longleftrightarrow> has_value r \<or> (\<exists>e. result_error r = Some e \<and> has_value (f e))"
  by (cases r) simp_all

section \<open>Digits\<close>

lemma digits_value_snoc: "digits_value (ds @ [d]) = 10 * digits_value ds + (of_char d - 48)"
  by (simp add: digits_value_def)

lemma of_char_int: "(of_char c :: int) = int (of_char c)"
  by (simp only: of_nat_of_char)

lemma of_char_digit: "k < 10 \<Longrightarrow> (of_char (char_of (48 + k :: nat) :: char) :: nat) = 48 + k"
  by (simp add: take_bit_eq_mod)

lemma digits_rev_value: "digits_value (rev (digits_rev n)) = int n"
proof (induction n rule: digits_rev.induct)
  case (1 n)
  show ?case
  proof (cases "n < 10")
    case True
    then show ?thesis by (simp add: digits_rev.simps [of n] digits_value_def of_char_int of_char_digit del: of_nat_of_char)
  next
    case False
    have "10 * int (n div 10) + int (n mod 10) = int n" by presburger
    then show ?thesis using False 1
      by (simp add: digits_rev.simps [of n] digits_value_snoc of_char_int of_char_digit del: of_nat_of_char)
  qed
qed

lemma show_nat_value: "digits_value (show_nat n) = int n"
  by (simp add: show_nat_def digits_rev_value)

lemma digits_rev_is_digit: "c \<in> set (digits_rev n) \<Longrightarrow> is_digit c"
  using digits_rev_are_digits [of n] by (auto simp: is_digit_def)

lemma show_nat_is_digit: "c \<in> set (show_nat n) \<Longrightarrow> is_digit c"
  by (simp add: show_nat_def digits_rev_is_digit)

lemma show_nat_not_minus: "c \<in> set (show_nat n) \<Longrightarrow> c \<noteq> CHR ''-''"
  using show_nat_is_digit [of c n] by (auto simp: is_digit_def)

lemma digits_value_nonneg: "\<forall>c \<in> set ds. is_digit c \<Longrightarrow> 0 \<le> digits_value ds"
proof (induction ds rule: rev_induct)
  case Nil
  show ?case by (simp add: digits_value_def)
next
  case (snoc d ds)
  then have "48 \<le> (of_char d :: nat)" "0 \<le> digits_value ds" by (simp_all add: is_digit_def)
  then have "48 \<le> (of_char d :: int)" by (simp add: of_char_int del: of_nat_of_char)
  then show ?case using \<open>0 \<le> digits_value ds\<close> by (simp add: digits_value_snoc)
qed

lemma show_nat_small: "m < 10 \<Longrightarrow> show_nat m = [char_of (48 + m)]"
  by (simp add: show_nat_def digits_rev.simps)

lemma show_nat_snoc: "0 < v \<Longrightarrow> m < 10 \<Longrightarrow> show_nat (10 * v + m) = show_nat v @ [char_of (48 + m)]"
  by (simp add: show_nat_def digits_rev.simps [of "10 * v + m"])

lemma digit_cases:
  assumes "is_digit d"
  obtains m where "m < 10" "d = char_of (48 + m)" "(of_char d :: int) - 48 = int m"
proof (rule that [of "of_char d - 48"])
  have b: "48 \<le> (of_char d :: nat)" "(of_char d :: nat) < 58" using assms by (simp_all add: is_digit_def)
  then show "of_char d - 48 < (10 :: nat)" by simp
  show "d = char_of (48 + (of_char d - 48 :: nat))" using b by simp
  show "(of_char d :: int) - 48 = int (of_char d - 48)" using b by (simp add: of_char_int del: of_nat_of_char)
qed

text \<open>Every text of digits is the decimal form of its value after some zeros.\<close>

lemma digits_are_shown:
  "ds \<noteq> [] \<Longrightarrow> \<forall>c \<in> set ds. is_digit c \<Longrightarrow>
   \<exists>k. ds = replicate k (CHR ''0'') @ show_nat (nat (digits_value ds))"
proof (induction ds rule: rev_induct)
  case Nil
  then show ?case by simp
next
  case (snoc d ds)
  then have "is_digit d" by simp
  then obtain m where m: "m < 10" "d = char_of (48 + m)" "(of_char d :: int) - 48 = int m" by (rule digit_cases)
  have v: "digits_value (ds @ [d]) = 10 * digits_value ds + int m" by (simp add: digits_value_snoc m(3))
  show ?case
  proof (cases "ds = []")
    case True
    then have "ds @ [d] = replicate 0 (CHR ''0'') @ show_nat (nat (digits_value (ds @ [d])))"
      using m by (simp add: v show_nat_small) (simp add: digits_value_def show_nat_small)
    then show ?thesis by blast
  next
    case False
    then obtain k where k: "ds = replicate k (CHR ''0'') @ show_nat (nat (digits_value ds))" using snoc by auto
    have nn: "0 \<le> digits_value ds" using snoc.prems by (intro digits_value_nonneg) simp
    show ?thesis
    proof (cases "digits_value ds = 0")
      case True
      have "char_of (48 :: nat) = CHR ''0''" by code_simp
      then have "ds = replicate (Suc k) (CHR ''0'')" using k True by (simp add: show_nat_small replicate_append_same)
      moreover have "show_nat (nat (digits_value (ds @ [d]))) = [d]"
        using True m(1) by (simp only: v) (simp add: show_nat_small m(2))
      ultimately show ?thesis by (metis append_same_eq)
    next
      case False
      then have "show_nat (nat (digits_value (ds @ [d]))) = show_nat (nat (digits_value ds)) @ [d]"
        using show_nat_snoc [of "nat (digits_value ds)" m] m(1) nn
        by (simp only: v) (simp add: m(2) nat_add_distrib nat_mult_distrib)
      then show ?thesis using k by (metis append.assoc)
    qed
  qed
qed

lemma takeWhile_shown: "takeWhile is_digit (show_nat n) = show_nat n"
  by (simp add: takeWhile_eq_all_conv show_nat_is_digit)

lemma show_nat_hd: "hd (show_nat n) \<noteq> CHR ''-''"
  using show_nat_not_minus [of "hd (show_nat n)" n] show_nat_nonempty [of n] by simp

lemma parse_int_shown:
  "parse_int (show_int n) = (if in_int n then Success n
     else Failure (''Failed to parse '' @ [CHR 0x27] @ show_int n @ [CHR 0x27] @ '' as integer''))"
  using show_nat_hd
  by (auto simp: parse_int_def from_chars_def Let_def show_int_def takeWhile_shown show_nat_value show_nat_nonempty)

lemma zeros_value: "digits_value (replicate k (CHR ''0'') @ ds) = digits_value ds"
  by (induction k) (simp_all add: digits_value_def)

lemma parse_int_accepts:
  assumes "parse_int s = Success n" and "0 < n"
  shows "in_int n \<and> (\<exists>k. s = replicate k (CHR ''0'') @ show_int n)"
proof -
  define neg where "neg = (s \<noteq> [] \<and> hd s = CHR ''-'')"
  define ds where "ds = takeWhile is_digit (if neg then tl s else s)"
  have d: "\<forall>c \<in> set ds. is_digit c" unfolding ds_def by (blast dest: set_takeWhileD)
  have r: "ds \<noteq> []" "in_int n" "n = (if neg then - digits_value ds else digits_value ds)"
    "(if neg then 1 else 0) + length ds = length s"
    using assms(1) unfolding parse_int_def from_chars_def Let_def neg_def [symmetric] ds_def [symmetric]
    by (auto split: if_splits)
  have nn: "\<not> neg" using r(3) digits_value_nonneg [OF d] assms(2) by (auto split: if_splits)
  then have "length (takeWhile is_digit s) = length s" using r(4) ds_def by simp
  then have "takeWhile is_digit s = s"
    using takeWhile_dropWhile_id [of is_digit s] by (metis append_Nil2 append_eq_append_conv)
  then have "ds = s" using nn ds_def by simp
  then show ?thesis using digits_are_shown [OF r(1) d] r nn assms(2) by (auto simp: show_int_def)
qed

lemma pipeline_accepts:
  "pipeline s = Success n \<Longrightarrow> n \<in> {1..100} \<and> (\<exists>k. s = replicate k (CHR ''0'') @ show_int n)"
  using parse_int_accepts [of s n]
  by (cases "parse_int s") (auto simp: pipeline_def validate_positive_def validate_range_def split: if_splits)

text \<open>
  C35: on the decimal form of any number the pipeline returns the number when it is between 1 and 100
  and otherwise the message of the first stage that refuses it (the int range, the sign, the range);
  it succeeds on nothing but the decimal forms of these numbers, up to leading zeros.
\<close>
theorem pipeline_reports_first_failure:
  "pipeline (show_int n) =
     (if \<not> in_int n then Failure (''Failed to parse '' @ [CHR 0x27] @ show_int n @ [CHR 0x27] @ '' as integer'')
      else if n \<le> 0 then Failure (''Value must be positive, got: '' @ show_int n)
      else if n > 100 then Failure (''Value '' @ show_int n @ '' out of range [1, 100]'')
      else Success n) \<and>
   {v. pipeline s = Success v} \<subseteq> {v \<in> {1..100}. s \<in> range (\<lambda>k. replicate k (CHR ''0'') @ show_int v)}"
proof
  have "show_int 1 = ''1''" "show_int 100 = ''100''" by code_simp+
  then show "pipeline (show_int n) =
     (if \<not> in_int n then Failure (''Failed to parse '' @ [CHR 0x27] @ show_int n @ [CHR 0x27] @ '' as integer'')
      else if n \<le> 0 then Failure (''Value must be positive, got: '' @ show_int n)
      else if n > 100 then Failure (''Value '' @ show_int n @ '' out of range [1, 100]'')
      else Success n)"
    by (simp add: pipeline_def parse_int_shown validate_positive_def validate_range_def)
  show "{v. pipeline s = Success v} \<subseteq> {v \<in> {1..100}. s \<in> range (\<lambda>k. replicate k (CHR ''0'') @ show_int v)}"
    using pipeline_accepts by fastforce
qed

end
