(* ===== verification/Behavioral_Patterns.thy ===== *)
theory Behavioral_Patterns
  imports Error_Handling
begin

text \<open>
  src/src/patterns/{visitor,chain_of_responsibility,state,template_method}.cpp. A visitor is the
  function of its state, a chain the list of its handlers, a protocol state a constructor. Doubles are
  rationals, arrows in the printed lines are left out.
\<close>

section \<open>visitor.cpp\<close>

datatype expr = NumberExpr rat | AddExpr expr expr | MultiplyExpr expr expr

text \<open>EvalVisitor keeps the last result.\<close>

fun eval_visit :: "expr \<Rightarrow> rat \<Rightarrow> rat" where
  "eval_visit (NumberExpr v) result = v"
| "eval_visit (AddExpr left right) result =
     (let l = eval_visit left result; r = eval_visit right l in l + r)"
| "eval_visit (MultiplyExpr left right) result =
     (let l = eval_visit left result; r = eval_visit right l in l * r)"

text \<open>static_cast to int drops the fraction; out of range it is undefined.\<close>

definition trunc :: "rat \<Rightarrow> int ub" where
  "trunc v = chk (if 0 \<le> v then \<lfloor>v\<rfloor> else \<lceil>v\<rceil>)"

text \<open>PrintVisitor keeps the text printed so far.\<close>

fun print_visit :: "expr \<Rightarrow> string \<Rightarrow> string ub" where
  "print_visit (NumberExpr v) printed = do { n \<leftarrow> trunc v; Some (printed @ show_int n) }"
| "print_visit (AddExpr left right) printed = do {
     o1 \<leftarrow> print_visit left (printed @ ''('');
     o2 \<leftarrow> print_visit right (o1 @ '' + '');
     Some (o2 @ '')'') }"
| "print_visit (MultiplyExpr left right) printed = do {
     o1 \<leftarrow> print_visit left (printed @ ''('');
     o2 \<leftarrow> print_visit right (o1 @ '' * '');
     Some (o2 @ '')'') }"

definition visitor_main :: "(rat \<times> string \<times> rat) ub" where
  "visitor_main = do {
     let expr = MultiplyExpr (AddExpr (NumberExpr 3) (NumberExpr 4)) (NumberExpr 2);
     let result = eval_visit expr 0;
     _ \<leftarrow> guard (\<bar>result - 14\<bar> < 1 / 10 ^ 9);
     str \<leftarrow> print_visit expr [];
     _ \<leftarrow> guard (str = ''((3 + 4) * 2)'');
     let expr2 = AddExpr (NumberExpr 5) (MultiplyExpr (NumberExpr 2) (NumberExpr 3));
     let result2 = eval_visit expr2 0;
     _ \<leftarrow> guard (\<bar>result2 - 11\<bar> < 1 / 10 ^ 9);
     Some (result, str, result2) }"

subsection \<open>What the visitors compute\<close>

text \<open>The value of a tree, whatever the visitor held before.\<close>

fun expr_value :: "expr \<Rightarrow> rat" where
  "expr_value (NumberExpr v) = v"
| "expr_value (AddExpr l r) = expr_value l + expr_value r"
| "expr_value (MultiplyExpr l r) = expr_value l * expr_value r"

lemma eval_visit_value: "eval_visit e result = expr_value e"
  by (induction e arbitrary: result) (simp_all add: Let_def)

text \<open>The tree of the printed numbers and its text.\<close>

datatype shown_expr = Num int | Op char shown_expr shown_expr

fun shown :: "expr \<Rightarrow> shown_expr ub" where
  "shown (NumberExpr v) = map_option Num (trunc v)"
| "shown (AddExpr l r) = do { a \<leftarrow> shown l; b \<leftarrow> shown r; Some (Op (CHR ''+'') a b) }"
| "shown (MultiplyExpr l r) = do { a \<leftarrow> shown l; b \<leftarrow> shown r; Some (Op (CHR ''*'') a b) }"

fun text_of :: "shown_expr \<Rightarrow> string" where
  "text_of (Num n) = show_int n"
| "text_of (Op c a b) = ''('' @ text_of a @ '' '' @ [c] @ '' '' @ text_of b @ '')''"

lemma print_visit_text: "print_visit e printed = map_option (\<lambda>t. printed @ text_of t) (shown e)"
proof (induction e arbitrary: printed)
  case (NumberExpr v)
  show ?case by (cases "trunc v") simp_all
next
  case (AddExpr l r)
  then show ?case by (cases "shown l"; cases "shown r") simp_all
next
  case (MultiplyExpr l r)
  then show ?case by (cases "shown l"; cases "shown r") simp_all
qed

text \<open>A number ends where its characters end, so texts can be read one way only.\<close>

definition numeric :: "char \<Rightarrow> bool" where
  "numeric c \<longleftrightarrow> is_digit c \<or> c = CHR ''-''"

definition ends_number :: "string \<Rightarrow> bool" where
  "ends_number xs \<longleftrightarrow> xs = [] \<or> \<not> numeric (hd xs)"

lemma show_int_numeric: "c \<in> set (show_int n) \<Longrightarrow> numeric c"
  by (auto simp: show_int_def numeric_def show_nat_is_digit split: if_splits)

lemma show_int_nonempty: "show_int n \<noteq> []"
  by (simp add: show_int_def show_nat_nonempty)

lemma takeWhile_number: "ends_number xs \<Longrightarrow> takeWhile numeric (show_int n @ xs) = show_int n"
  by (cases xs) (simp_all add: takeWhile_append2 show_int_numeric ends_number_def takeWhile_eq_all_conv)

lemma show_nat_eq: "show_nat a = show_nat b \<longleftrightarrow> a = b"
  by (metis show_nat_value nat_int)

lemma show_nat_minus: "show_nat a \<noteq> CHR ''-'' # zs" "CHR ''-'' # zs \<noteq> show_nat a"
  using show_nat_hd [of a] by (metis list.sel(1))+

lemma show_int_inj: "show_int m = show_int n \<Longrightarrow> m = n"
  by (cases "m < 0"; cases "n < 0") (simp_all add: show_int_def show_nat_eq show_nat_minus)

lemma number_reads_once:
  "show_int m @ xs = show_int n @ ys \<Longrightarrow> ends_number xs \<Longrightarrow> ends_number ys \<Longrightarrow> m = n \<and> xs = ys"
  by (metis takeWhile_number show_int_inj same_append_eq)

lemma not_numeric_paren: "\<not> numeric (CHR ''('')" "\<not> numeric (CHR '' '')" "\<not> numeric (CHR '')'')"
  by code_simp+

lemma show_int_hd: "numeric (hd (show_int n @ xs))"
  using show_int_nonempty [of n] show_int_numeric [of "hd (show_int n)" n] by simp

lemma text_reads_once:
  "text_of s @ xs = text_of t @ ys \<Longrightarrow> ends_number xs \<Longrightarrow> ends_number ys \<Longrightarrow> s = t \<and> xs = ys"
proof (induction s arbitrary: t xs ys)
  case (Num n)
  show ?case
  proof (cases t)
    case (Num m)
    then show ?thesis using Num.prems number_reads_once [of n xs m ys] by simp
  next
    case (Op c a b)
    then show ?thesis using Num.prems(1) show_int_hd [of n xs] not_numeric_paren(1) by simp
  qed
next
  case (Op c a b)
  show ?case
  proof (cases t)
    case (Num m)
    then show ?thesis using Op.prems(1) show_int_hd [of m ys] not_numeric_paren(1) by (metis append_Cons list.sel(1) text_of.simps)
  next
    case t: (Op c' a' b')
    have blank: "ends_number (CHR '' '' # zs)" "ends_number (CHR '')'' # zs)" for zs
      by (simp_all add: ends_number_def not_numeric_paren)
    have "text_of a @ (CHR '' '' # c # CHR '' '' # text_of b @ CHR '')'' # xs) =
        text_of a' @ (CHR '' '' # c' # CHR '' '' # text_of b' @ CHR '')'' # ys)"
      using Op.prems(1) t by simp
    then have a: "a = a'" "c = c'" "text_of b @ CHR '')'' # xs = text_of b' @ CHR '')'' # ys"
      using Op.IH(1) [OF _ blank(1) blank(1)] by blast+
    then have "b = b'" "xs = ys" using Op.IH(2) [OF a(3) blank(2) blank(2)] by simp_all
    then show ?thesis using a t by simp
  qed
qed

text \<open>Over whole numbers nothing is dropped.\<close>

fun whole :: "expr \<Rightarrow> bool" where
  "whole (NumberExpr v) \<longleftrightarrow> of_int \<lfloor>v\<rfloor> = v"
| "whole (AddExpr l r) \<longleftrightarrow> whole l \<and> whole r"
| "whole (MultiplyExpr l r) \<longleftrightarrow> whole l \<and> whole r"

lemma trunc_whole: "trunc (of_int n) = Some m \<Longrightarrow> m = n"
  by (auto simp: trunc_def chk_eq_Some_iff)

fun unshown :: "shown_expr \<Rightarrow> expr" where
  "unshown (Num n) = NumberExpr (of_int n)"
| "unshown (Op c a b) = (if c = CHR ''+'' then AddExpr (unshown a) (unshown b) else MultiplyExpr (unshown a) (unshown b))"

lemma unshown_shown: "whole e \<Longrightarrow> shown e = Some t \<Longrightarrow> unshown t = e"
  by (induction e arbitrary: t) (auto simp: bind_eq_Some_conv dest: trunc_whole)

text \<open>
  C36: two expressions print as the same text exactly when they have the same shape, the same operators and
  the same numbers after dropping the fractions, as the visitor does; expressions over whole
  numbers are determined by their text.
\<close>
theorem printed_text_determines_tree:
  assumes "print_visit e [] = Some s" and "print_visit e' [] = Some s'"
  shows "(s = s' \<longleftrightarrow> shown e = shown e') \<and> (whole e \<and> whole e' \<and> s = s' \<longrightarrow> e = e')"
proof -
  obtain t t' where t: "shown e = Some t" "s = text_of t" "shown e' = Some t'" "s' = text_of t'"
    using assms by (auto simp: print_visit_text)
  then have "s = s' \<longleftrightarrow> shown e = shown e'"
    using text_reads_once [of t "[]" t' "[]"] by (auto simp: ends_number_def)
  then show ?thesis using t unshown_shown [of e t] unshown_shown [of e' t'] by auto
qed

lemma printed_text_determines_tree_witness:
  "shown (AddExpr (NumberExpr 1) (NumberExpr (5 / 2))) = shown (AddExpr (NumberExpr 1) (NumberExpr 2)) \<and>
   shown (AddExpr (NumberExpr 1) (NumberExpr 2)) \<noteq> shown (AddExpr (NumberExpr 2) (NumberExpr 1))"
proof -
  have p: "print_visit (AddExpr (NumberExpr 1) (NumberExpr (5 / 2))) [] = Some ''(1 + 2)''"
    "print_visit (AddExpr (NumberExpr 1) (NumberExpr 2)) [] = Some ''(1 + 2)''"
    "print_visit (AddExpr (NumberExpr 2) (NumberExpr 1)) [] = Some ''(2 + 1)''" by code_simp+
  show ?thesis
    using printed_text_determines_tree [OF p(1,2)] printed_text_determines_tree [OF p(2,3)] by simp
qed

lemma visitor_main_output: "visitor_main = Some (14, ''((3 + 4) * 2)'', 11)"
  by code_simp

section \<open>chain_of_responsibility.cpp\<close>

datatype log_level = Debug | Info | Warning | Error

fun level_rank :: "log_level \<Rightarrow> nat" where
  "level_rank Debug = 0"
| "level_rank Info = 1"
| "level_rank Warning = 2"
| "level_rank Error = 3"

instantiation log_level :: linorder
begin

definition less_eq_log_level :: "log_level \<Rightarrow> log_level \<Rightarrow> bool" where
  "less_eq_log_level a b \<longleftrightarrow> level_rank a \<le> level_rank b"

definition less_log_level :: "log_level \<Rightarrow> log_level \<Rightarrow> bool" where
  "less_log_level a b \<longleftrightarrow> level_rank a < level_rank b"

instance
proof
  fix a b c :: log_level
  show "a < b \<longleftrightarrow> a \<le> b \<and> \<not> b \<le> a" "a \<le> a" "a \<le> b \<or> b \<le> a"
    by (simp_all add: less_eq_log_level_def less_log_level_def) linarith+
  show "a \<le> b \<Longrightarrow> b \<le> c \<Longrightarrow> a \<le> c" unfolding less_eq_log_level_def by (rule order_trans)
  show "a \<le> b \<Longrightarrow> b \<le> a \<Longrightarrow> a = b" by (cases a; cases b) (simp_all add: less_eq_log_level_def)
qed

end

fun levelToStr :: "log_level \<Rightarrow> string" where
  "levelToStr Debug = ''DEBUG''"
| "levelToStr Info = ''INFO''"
| "levelToStr Warning = ''WARNING''"
| "levelToStr Error = ''ERROR''"

datatype handler_kind = ConsoleHandler | FileHandler | AlertHandler

record log_handler =
  kind :: handler_kind
  level :: log_level
  writes :: int

definition new_handler :: "handler_kind \<Rightarrow> log_level \<Rightarrow> log_handler" where
  "new_handler k l = \<lparr>kind = k, level = l, writes = 0\<rparr>"

text \<open>write prints one line; the file and the alert handler count it.\<close>

fun write_line :: "handler_kind \<Rightarrow> log_level \<Rightarrow> string \<Rightarrow> string" where
  "write_line ConsoleHandler l msg = ''  [Console/'' @ levelToStr l @ ''] '' @ msg"
| "write_line FileHandler l msg = ''  [File/'' @ levelToStr l @ ''] '' @ msg"
| "write_line AlertHandler l msg = ''  [ALERT/'' @ levelToStr l @ ''] *** '' @ msg @ '' ***''"

definition handler_write :: "log_handler \<Rightarrow> log_level \<Rightarrow> string \<Rightarrow> (log_handler \<times> string) ub" where
  "handler_write h l msg = do {
     n \<leftarrow> (if kind h = ConsoleHandler then Some (writes h) else chk (writes h + 1));
     Some (h\<lparr>writes := n\<rparr>, write_line (kind h) l msg) }"

text \<open>A handler and the handlers behind it are a list.\<close>

fun handle_msg :: "log_handler list \<Rightarrow> log_level \<Rightarrow> string \<Rightarrow> (log_handler list \<times> string list) ub" where
  "handle_msg [] l msg = Some ([], [])"
| "handle_msg (h # next_handlers) l msg = do {
     (h', o1) \<leftarrow> (if level h \<le> l then do { (h', line) \<leftarrow> handler_write h l msg; Some (h', [line]) }
       else Some (h, []));
     (next', o2) \<leftarrow> handle_msg next_handlers l msg;
     Some (h' # next', o1 @ o2) }"

definition chain_main :: "string list ub" where
  "chain_main = do {
     let console = [new_handler ConsoleHandler Debug, new_handler FileHandler Info, new_handler AlertHandler Error];
     (c1, o1) \<leftarrow> handle_msg console Debug ''Variable x = 42'';
     (c2, o2) \<leftarrow> handle_msg c1 Info ''User logged in'';
     (c3, o3) \<leftarrow> handle_msg c2 Error ''Database connection failed'';
     _ \<leftarrow> guard (writes (c3 ! 1) = 2);
     _ \<leftarrow> guard (writes (c3 ! 2) = 1);
     Some (o1 @ o2 @ o3) }"

lemma chain_main_output:
  "chain_main = Some [''  [Console/DEBUG] Variable x = 42'', ''  [Console/INFO] User logged in'', ''  [File/INFO] User logged in'',
     ''  [Console/ERROR] Database connection failed'', ''  [File/ERROR] Database connection failed'',
     ''  [ALERT/ERROR] *** Database connection failed ***'']"
  by code_simp

text \<open>Every handler of the chain at or below the level writes the message, in the order of the chain.\<close>

definition counted :: "log_level \<Rightarrow> log_handler \<Rightarrow> log_handler" where
  "counted l h = h\<lparr>writes := writes h + (if level h \<le> l \<and> kind h \<noteq> ConsoleHandler then 1 else 0)\<rparr>"

lemma handle_msg_chain:
  assumes "\<forall>h \<in> set hs. 0 \<le> writes h \<and> writes h < INT_MAX"
  shows "handle_msg hs l msg =
    Some (map (counted l) hs, map (\<lambda>h. write_line (kind h) l msg) (filter (\<lambda>h. level h \<le> l) hs))"
  using assms by (induction hs) (auto simp: handler_write_def counted_def chk_def in_int_def)

section \<open>state.cpp\<close>

datatype tcp_state = ClosedState | ListenState | EstablishedState

fun tcp_open :: "tcp_state \<Rightarrow> tcp_state \<times> string" where
  "tcp_open ClosedState = (ListenState, ''  [Closed -> Listen] Opening connection...'')"
| "tcp_open ListenState = (EstablishedState, ''  [Listen -> Established] Connection established!'')"
| "tcp_open EstablishedState = (EstablishedState, ''  [Established] Already connected'')"

fun tcp_close :: "tcp_state \<Rightarrow> tcp_state \<times> string" where
  "tcp_close ClosedState = (ClosedState, ''  [Closed] Already closed'')"
| "tcp_close ListenState = (ClosedState, ''  [Listen -> Closed] Closing listener'')"
| "tcp_close EstablishedState = (ClosedState, ''  [Established -> Closed] Closing connection'')"

fun tcp_send :: "tcp_state \<Rightarrow> string \<Rightarrow> tcp_state \<times> string" where
  "tcp_send ClosedState data = (ClosedState, ''  [Closed] Error: Cannot send, connection closed'')"
| "tcp_send ListenState data = (ListenState, ''  [Listen] Error: Cannot send, still listening'')"
| "tcp_send EstablishedState data =
     (EstablishedState, ''  [Established] Sending: '' @ [CHR 0x22] @ data @ [CHR 0x22])"

fun stateName :: "tcp_state \<Rightarrow> string" where
  "stateName ClosedState = ''CLOSED''"
| "stateName ListenState = ''LISTEN''"
| "stateName EstablishedState = ''ESTABLISHED''"

definition tcp_main :: "string list ub" where
  "tcp_main = do {
     let conn = ClosedState;
     _ \<leftarrow> guard (stateName conn = ''CLOSED'');
     let (c1, l1) = tcp_send conn ''hello'';
     let (c2, l2) = tcp_open c1;
     _ \<leftarrow> guard (stateName c2 = ''LISTEN'');
     let (c3, l3) = tcp_send c2 ''hello'';
     let (c4, l4) = tcp_open c3;
     _ \<leftarrow> guard (stateName c4 = ''ESTABLISHED'');
     let (c5, l5) = tcp_send c4 ''Hello, Server!'';
     let (c6, l6) = tcp_open c5;
     let (c7, l7) = tcp_close c6;
     _ \<leftarrow> guard (stateName c7 = ''CLOSED'');
     let (c8, l8) = tcp_close c7;
     let (c9, l9) = tcp_send c8 ''data'';
     Some [l1, l2, l3, l4, l5, l6, l7, l8, l9] }"

lemma tcp_main_output:
  "map_option length tcp_main = Some 9"
  "map_option (\<lambda>ls. ls ! 4) tcp_main = Some (''  [Established] Sending: '' @ [CHR 0x22] @ ''Hello, Server!'' @ [CHR 0x22])"
  by code_simp+

text \<open>The state after any calls counts the opens since the last close.\<close>

datatype tcp_call = Open | Close | Send string

inductive tcp_step :: "tcp_state \<Rightarrow> tcp_call \<Rightarrow> tcp_state \<Rightarrow> bool" where
  step_open: "fst (tcp_open s) = s' \<Longrightarrow> tcp_step s Open s'"
| step_close: "fst (tcp_close s) = s' \<Longrightarrow> tcp_step s Close s'"
| step_send: "fst (tcp_send s data) = s' \<Longrightarrow> tcp_step s (Send data) s'"

inductive_cases tcp_stepE: "tcp_step s c s'"

inductive tcp_run :: "tcp_call list \<Rightarrow> tcp_state \<Rightarrow> bool" where
  run_start: "tcp_run [] ClosedState"
| run_step: "tcp_run cs s \<Longrightarrow> tcp_step s c s' \<Longrightarrow> tcp_run (cs @ [c]) s'"

definition opens_since_close :: "tcp_call list \<Rightarrow> nat" where
  "opens_since_close cs = length (filter (\<lambda>c. c = Open) (takeWhile (\<lambda>c. c \<noteq> Close) (rev cs)))"

definition state_of_opens :: "nat \<Rightarrow> tcp_state" where
  "state_of_opens n = (if n = 0 then ClosedState else if n = 1 then ListenState else EstablishedState)"

lemma tcp_run_opens: "tcp_run cs s \<Longrightarrow> s = state_of_opens (opens_since_close cs)"
proof (induction rule: tcp_run.induct)
  case run_start
  show ?case by (simp add: state_of_opens_def opens_since_close_def)
next
  case (run_step cs s c s')
  from run_step.hyps(2) show ?case
  proof (cases rule: tcp_step.cases)
    case step_open
    then show ?thesis using run_step.IH by (auto simp: state_of_opens_def opens_since_close_def split: if_splits)
  next
    case step_close
    then show ?thesis by (cases s) (auto simp: state_of_opens_def opens_since_close_def)
  next
    case (step_send data)
    then show ?thesis using run_step.IH by (cases s) (auto simp: opens_since_close_def)
  qed
qed

section \<open>template_method.cpp\<close>

text \<open>The skeleton takes the steps of the subclass; the written data and the printed lines are returned.\<close>

definition process_data :: "string \<Rightarrow> (string \<Rightarrow> string list) \<Rightarrow> string list \<times> string list" where
  "process_data raw processData =
     (let processed = processData raw in
      (processed,
       [''  Read: '' @ take 40 raw @ ''...'', ''  Processed: '' @ show_nat (length processed) @ '' records''] @
       map (\<lambda>r. ''    -> '' @ r) processed @ [''  Written successfully'']))"

definition csv_data :: string where
  "csv_data = ''name,age,city'' @ [CHR 0x0A] @ ''Alice,30,NYC'' @ [CHR 0x0A] @ ''Bob,25,LA''"

text \<open>std::getline fails at the end of the stream and otherwise drops the line break it stops at.\<close>

definition getline :: "string \<Rightarrow> (string \<times> string) option" where
  "getline s = (if s = [] then None
     else Some (takeWhile (\<lambda>c. c \<noteq> CHR 0x0A) s, tl (dropWhile (\<lambda>c. c \<noteq> CHR 0x0A) s)))"

function csv_records :: "string \<Rightarrow> string list" where
  "csv_records s = (case getline s of None \<Rightarrow> [] | Some (line, rest) \<Rightarrow> (''[CSV] '' @ line) # csv_records rest)"
  by pat_completeness auto

termination csv_records
proof (relation "measure length")
  fix s line rest :: string and p
  assume "getline s = Some p" "(line, rest) = p"
  then have s: "s \<noteq> []" "rest = tl (dropWhile (\<lambda>c. c \<noteq> CHR 0x0A) s)" by (auto simp: getline_def split: if_splits)
  then show "(rest, s) \<in> measure length"
    using length_dropWhile_le [of "\<lambda>c. c \<noteq> CHR 0x0A" s] by (cases s) (auto simp: less_Suc_eq_le diff_le_self intro: le_trans)
qed simp

declare csv_records.simps [simp del]

definition csv_process :: "string \<Rightarrow> string list" where
  "csv_process raw = csv_records (case getline raw of None \<Rightarrow> [] | Some (line, rest) \<Rightarrow> rest)"

definition json_data :: string where
  "json_data = (let q = (\<lambda>s. CHR 0x22 # s @ [CHR 0x22]) in
     ''[{'' @ q ''name'' @ '':'' @ q ''Charlie'' @ '','' @ q ''age'' @ '':35},{'' @
     q ''name'' @ '':'' @ q ''Diana'' @ '','' @ q ''age'' @ '':28}]'')"

fun scan_text :: "string \<Rightarrow> string \<Rightarrow> nat \<Rightarrow> nat option" where
  "scan_text pat [] p = (if pat = [] then Some p else None)"
| "scan_text pat (c # cs) p =
     (if take (length pat) (c # cs) = pat then Some p else scan_text pat cs (p + 1))"

text \<open>std::string::find from a position; None is npos.\<close>

definition str_find :: "string \<Rightarrow> string \<Rightarrow> nat \<Rightarrow> nat option" where
  "str_find s pat p = (if p \<le> length s then scan_text pat (drop p s) p else None)"

lemma scan_text_found:
  "scan_text pat cs p = Some q \<Longrightarrow> p \<le> q \<and> q \<le> p + length cs \<and> take (length pat) (drop (q - p) cs) = pat"
proof (induction pat cs p rule: scan_text.induct)
  case (2 pat c cs p)
  show ?case
  proof (cases "take (length pat) (c # cs) = pat")
    case True
    then show ?thesis using 2 by simp
  next
    case False
    then have "p + 1 \<le> q" "q \<le> p + 1 + length cs" "take (length pat) (drop (q - (p + 1)) cs) = pat"
      using 2 by auto
    moreover have "drop (q - p) (c # cs) = drop (q - (p + 1)) cs" using \<open>p + 1 \<le> q\<close> by (simp add: drop_Cons')
    ultimately show ?thesis by simp
  qed
qed (simp split: if_splits)

lemma str_find_found:
  "str_find s pat p = Some q \<Longrightarrow> p \<le> q \<and> q \<le> length s \<and> take (length pat) (drop q s) = pat"
  using scan_text_found [of pat "drop p s" p q] by (auto simp: str_find_def split: if_splits)

function json_records :: "string \<Rightarrow> nat \<Rightarrow> string list" where
  "json_records raw p =
     (case str_find raw (CHR 0x22 # ''name'' @ [CHR 0x22]) p of
        None \<Rightarrow> []
      | Some start \<Rightarrow>
         (case str_find raw ''}'' start of
            None \<Rightarrow> [''[JSON] '' @ drop start raw]
          | Some end_pos \<Rightarrow>
             (''[JSON] '' @ take (end_pos - start) (drop start raw)) # json_records raw end_pos))"
  by pat_completeness auto

termination json_records
proof (relation "measure (\<lambda>(raw, p). length raw - p)")
  fix raw p start e
  assume a: "str_find raw (CHR 0x22 # ''name'' @ [CHR 0x22]) p = Some start" and b: "str_find raw ''}'' start = Some e"
  have "e \<noteq> start" using str_find_found [OF a] str_find_found [OF b] by (cases "drop start raw") auto
  then have "p < e" "e \<le> length raw" using str_find_found [OF a] str_find_found [OF b] by auto
  then show "((raw, e), raw, p) \<in> measure (\<lambda>(raw, p). length raw - p)" by auto
qed simp

declare json_records.simps [simp del]

definition template_method_main :: "(string list \<times> string list) ub" where
  "template_method_main = do {
     let (csv_output, l1) = process_data csv_data csv_process;
     _ \<leftarrow> guard (length csv_output = 2);
     let (json_output, l2) = process_data json_data (\<lambda>raw. json_records raw 0);
     _ \<leftarrow> guard (length json_output = 2);
     Some (csv_output, json_output) }"

lemma template_method_main_output:
  "map_option fst template_method_main = Some [''[CSV] Alice,30,NYC'', ''[CSV] Bob,25,LA'']"
  "map_option (\<lambda>r. map length (snd r)) template_method_main = Some [32, 30]"
  by code_simp+

text \<open>A text of lines, none empty at the end, gives one record per line after the first.\<close>

lemma getline_line:
  "CHR 0x0A \<notin> set l \<Longrightarrow> getline (l @ CHR 0x0A # rest) = Some (l, rest)"
proof -
  assume "CHR 0x0A \<notin> set l"
  then have "\<forall>c \<in> set l. c \<noteq> CHR 0x0A" by blast
  then show ?thesis by (simp add: getline_def takeWhile_append2 dropWhile_append2)
qed

lemma csv_process_lines:
  assumes "CHR 0x0A \<notin> set h" and "\<forall>l \<in> set ls. CHR 0x0A \<notin> set l"
  shows "csv_process (h @ CHR 0x0A # concat (map (\<lambda>l. l @ [CHR 0x0A]) ls)) = map ((@) ''[CSV] '') ls"
proof -
  have "csv_records (concat (map (\<lambda>l. l @ [CHR 0x0A]) ls)) = map ((@) ''[CSV] '') ls"
    using assms(2)
  proof (induction ls)
    case Nil
    show ?case by (simp add: csv_records.simps getline_def)
  next
    case (Cons l ls)
    then show ?case by (simp add: csv_records.simps [of "l @ _"] getline_line)
  qed
  then show ?thesis by (simp add: csv_process_def getline_line assms(1))
qed

end
