(* ===== verification/Custom_Allocator.thy ===== *)
theory Custom_Allocator
  imports Prelude "HOL-Library.Word" "HOL-Library.Multiset"
begin

unbundle bit_operations_syntax

text \<open>
  src/src/modern_cpp/custom_allocator.cpp: the monotonic arena, the allocator of the containers on
  top of it and the pool of fixed-size blocks with its free list. size_t is a 64-bit word; a pointer
  is an offset into the arena or the index of a block; std::bad_alloc is a value.
\<close>

section \<open>The arena\<close>

datatype alloc_error = Bad_alloc

record arena =
  capacity :: "64 word"
  offset :: "64 word"
  alloc_count :: "64 word"

definition Arena :: "64 word \<Rightarrow> arena" where
  "Arena bytes = \<lparr>capacity = bytes, offset = 0, alloc_count = 0\<rparr>"

definition align_up :: "64 word \<Rightarrow> 64 word \<Rightarrow> 64 word" where
  "align_up p alignment = (p + alignment - 1) AND NOT (alignment - 1)"

definition arena_allocate :: "arena \<Rightarrow> 64 word \<Rightarrow> 64 word \<Rightarrow> alloc_error + 64 word \<times> arena" where
  "arena_allocate a bytes alignment =
     (let aligned = align_up (offset a) alignment in
      if aligned + bytes > capacity a then Inl Bad_alloc
      else Inr (aligned, a\<lparr>offset := aligned + bytes, alloc_count := alloc_count a + 1\<rparr>))"

definition arena_reset :: "arena \<Rightarrow> arena" where
  "arena_reset a = a\<lparr>offset := 0, alloc_count := 0\<rparr>"

definition arena_remaining :: "arena \<Rightarrow> 64 word" where
  "arena_remaining a = capacity a - offset a"

text \<open>used and allocCount.\<close>

definition arena_used :: "arena \<Rightarrow> 64 word" where
  "arena_used a = offset a"

definition arena_allocCount :: "arena \<Rightarrow> 64 word" where
  "arena_allocCount a = alloc_count a"

text \<open>
  ArenaAllocator<T>: the arena it refers to, by name, with the size and the alignment of T. An allocator for
  another type is made from it with the same arena; deallocate does nothing; two allocators are equal
  when their arenas are.
\<close>

record arena_allocator =
  arena_of :: nat
  size_of :: "64 word"
  align_of :: "64 word"

definition ArenaAllocator :: "nat \<Rightarrow> 64 word \<Rightarrow> 64 word \<Rightarrow> arena_allocator" where
  "ArenaAllocator a n k = \<lparr>arena_of = a, size_of = n, align_of = k\<rparr>"

definition rebind :: "arena_allocator \<Rightarrow> 64 word \<Rightarrow> 64 word \<Rightarrow> arena_allocator" where
  "rebind other n k = \<lparr>arena_of = arena_of other, size_of = n, align_of = k\<rparr>"

definition allocate_elements :: "arena_allocator \<Rightarrow> 64 word \<Rightarrow> (nat \<Rightarrow> arena) \<Rightarrow> alloc_error + 64 word \<times> (nat \<Rightarrow> arena)" where
  "allocate_elements al n w = (case arena_allocate (w (arena_of al)) (n * size_of al) (align_of al) of
     Inl e \<Rightarrow> Inl e
   | Inr (p, a) \<Rightarrow> Inr (p, w(arena_of al := a)))"

definition deallocate_elements :: "arena_allocator \<Rightarrow> 64 word \<Rightarrow> 64 word \<Rightarrow> (nat \<Rightarrow> arena) \<Rightarrow> (nat \<Rightarrow> arena)" where
  "deallocate_elements al p n w = w"

definition same_allocator :: "arena_allocator \<Rightarrow> arena_allocator \<Rightarrow> bool" where
  "same_allocator al other = (arena_of al = arena_of other)"

definition other_allocator :: "arena_allocator \<Rightarrow> arena_allocator \<Rightarrow> bool" where
  "other_allocator al other = (\<not> same_allocator al other)"

text \<open>Requests in order; a refused one throws and leaves the arena as it was.\<close>

fun arena_run :: "arena \<Rightarrow> (64 word \<times> nat) list \<Rightarrow> (64 word \<times> 64 word \<times> nat) list" where
  "arena_run a [] = []"
| "arena_run a ((bytes, k) # rs) = (case arena_allocate a bytes (2 ^ k) of
     Inl e \<Rightarrow> arena_run a rs
   | Inr (p, a') \<Rightarrow> (p, bytes, k) # arena_run a' rs)"

section \<open>The pool\<close>

text \<open>The next pointer of block i is at position i.\<close>

record pool =
  links :: "int option list"
  free_list :: "int option"
  allocated :: "64 word"

definition PoolAllocator :: "nat \<Rightarrow> pool" where
  "PoolAllocator block_count =
     fold (\<lambda>i p. p\<lparr>links := (links p)[i := free_list p], free_list := Some (int i)\<rparr>) [0..<block_count]
       \<lparr>links = replicate block_count None, free_list = None, allocated = 0\<rparr>"

definition pool_allocate :: "pool \<Rightarrow> (alloc_error + int \<times> pool) ub" where
  "pool_allocate p = (case free_list p of
     None \<Rightarrow> Some (Inl Bad_alloc)
   | Some block \<Rightarrow> do {
       rest \<leftarrow> vget (links p) block;
       Some (Inr (block, p\<lparr>free_list := rest, allocated := allocated p + 1\<rparr>)) })"

definition pool_deallocate :: "pool \<Rightarrow> int \<Rightarrow> pool ub" where
  "pool_deallocate p block = do {
     ls \<leftarrow> vset (links p) block (free_list p);
     Some (p\<lparr>links := ls, free_list := Some block, allocated := allocated p - 1\<rparr>) }"

definition pool_available :: "pool \<Rightarrow> 64 word" where
  "pool_available p = of_nat (length (links p)) - allocated p"

section \<open>main\<close>

fun pool_take :: "nat \<Rightarrow> pool \<Rightarrow> (int list \<times> pool) ub" where
  "pool_take 0 p = Some ([], p)"
| "pool_take (Suc n) p = do {
     r \<leftarrow> pool_allocate p;
     (case r of
        Inl e \<Rightarrow> None
      | Inr (b, p') \<Rightarrow> do { (bs, p'') \<leftarrow> pool_take n p'; Some (b # bs, p'') }) }"

fun pool_give :: "int list \<Rightarrow> pool \<Rightarrow> pool ub" where
  "pool_give [] p = Some p"
| "pool_give (b # bs) p = do { p' \<leftarrow> pool_deallocate p b; pool_give bs p' }"

text \<open>
  The reserve of a vector is its only allocation, given back when the vector ends; the arenas of main are 0
  and 1. The printed numbers are returned.
\<close>

definition custom_allocator_main :: "(64 word \<times> 64 word \<times> 64 word \<times> 64 word) ub" where
  "custom_allocator_main = (
     let w = (\<lambda>_. Arena 0)(0 := Arena 4096); alloc = ArenaAllocator 0 4 4 in
     case allocate_elements alloc 100 w of
     Inl e \<Rightarrow> None
   | Inr (ptr, w) \<Rightarrow> do {
       let vec = map int [0..<100];
       _ \<leftarrow> guard (length vec = 100);
       v \<leftarrow> vget vec 50;
       _ \<leftarrow> guard (v = 50);
       let used = arena_used (w 0);
       let allocations = arena_allocCount (w 0);
       let w = deallocate_elements alloc ptr 100 w;
       let a' = arena_reset (w 0);
       _ \<leftarrow> guard (arena_used a' = 0);
       (ptrs, p) \<leftarrow> pool_take 10 (PoolAllocator 100);
       _ \<leftarrow> guard (allocated p = 10);
       _ \<leftarrow> guard (pool_available p = 90);
       p' \<leftarrow> pool_give ptrs p;
       _ \<leftarrow> guard (allocated p' = 0);
       (case allocate_elements (ArenaAllocator 1 4 4) 100000 (w(0 := a', 1 := Arena (100000 * 4 * 2))) of
          Inl e \<Rightarrow> None
        | Inr (ptr', w) \<Rightarrow> Some (used, allocations, arena_used a', arena_used (w 1))) })"

lemma custom_allocator_main_output: "custom_allocator_main = Some (400, 1, 0, 400000)"
  by code_simp

text \<open>
  The number of bytes wraps around: 2 ^ 62 ints are granted as a block of no bytes. A std::vector never asks for so
  many, as its max_size is smaller.
\<close>

lemma wrapped_element_count:
  "case allocate_elements (ArenaAllocator 0 4 4) (2 ^ 62) (\<lambda>_. Arena 4096) of
     Inl e \<Rightarrow> False
   | Inr (p, w) \<Rightarrow> p = 0 \<and> arena_used (w 0) = 0 \<and> arena_allocCount (w 0) = 1"
  by code_simp

section \<open>Alignment\<close>

lemma and_not_mask_nat: "unat (y AND NOT (2 ^ k - 1) :: 64 word) = unat y - unat y mod 2 ^ k"
proof -
  have "y AND NOT (mask k) = push_bit k (drop_bit k y)" by (rule bit_eqI) (auto simp: bit_simps)
  moreover have "push_bit k (drop_bit k y) = y - take_bit k y" using bits_ident [of k y] by (simp add: algebra_simps)
  ultimately have e: "y AND NOT (2 ^ k - 1) = y - take_bit k y" by (simp add: mask_eq_exp_minus_1)
  have "unat (take_bit k y) = unat y mod 2 ^ k" by (simp only: unsigned_take_bit_eq) (simp add: take_bit_eq_mod)
  moreover have "take_bit k y \<le> y" using calculation by (simp add: word_le_nat_alt)
  ultimately show ?thesis using e by (simp add: unat_sub)
qed

lemma align_up_nat:
  fixes p :: "64 word"
  assumes "k \<le> 62" and "unat p \<le> 2 ^ 62"
  shows "unat (align_up p (2 ^ k)) mod 2 ^ k = 0" and "unat p \<le> unat (align_up p (2 ^ k))"
    and "unat (align_up p (2 ^ k)) < unat p + 2 ^ k"
proof -
  have pow: "(2 :: nat) ^ k \<le> 2 ^ 62" using assms(1) by (intro power_increasing) simp_all
  have "(2 :: nat) ^ k mod 2 ^ 64 = 2 ^ k" using pow by simp
  then have e: "unat (2 ^ k :: 64 word) = 2 ^ k" using unat_of_nat [of "2 ^ k", where 'a = 64] by simp
  have "unat p + 2 ^ k < 2 ^ 64" using pow assms(2) by simp
  then have s: "unat (p + 2 ^ k) = unat p + 2 ^ k" using e unat_add_lem [of p "2 ^ k"] by simp
  moreover have "unat (1 :: 64 word) \<le> unat (p + 2 ^ k)" unfolding s by (simp add: Suc_le_eq)
  ultimately have "unat (p + 2 ^ k - 1) = unat p + 2 ^ k - 1"
    using unat_sub [of 1 "p + 2 ^ k"] by (simp add: word_le_nat_alt)
  then have r: "unat (align_up p (2 ^ k)) = (unat p + 2 ^ k - 1) - (unat p + 2 ^ k - 1) mod 2 ^ k"
    by (simp add: align_up_def and_not_mask_nat)
  show "unat (align_up p (2 ^ k)) mod 2 ^ k = 0"
    unfolding r by (simp only: minus_mod_eq_mult_div mod_mult_self1_is_0)
  have "(unat p + 2 ^ k - 1) mod 2 ^ k < 2 ^ k" by simp
  then show "unat p \<le> unat (align_up p (2 ^ k))" unfolding r by linarith
  have "(0 :: nat) < 2 ^ k" by simp
  then show "unat (align_up p (2 ^ k)) < unat p + 2 ^ k" unfolding r by linarith
qed

section \<open>The blocks of an arena\<close>

text \<open>Sizes up to 2 ^ 62 keep the arithmetic below the wrap-around.\<close>

definition arena_ok :: "arena \<Rightarrow> bool" where
  "arena_ok a \<longleftrightarrow> unat (offset a) \<le> unat (capacity a) \<and> unat (capacity a) \<le> 2 ^ 62"

lemma arena_allocate_cases:
  assumes "arena_ok a" and "k \<le> 62" and "unat bytes \<le> 2 ^ 62"
  defines "p \<equiv> align_up (offset a) (2 ^ k)"
  shows "arena_allocate a bytes (2 ^ k) =
     (if unat p + unat bytes > unat (capacity a) then Inl Bad_alloc
      else Inr (p, a\<lparr>offset := p + bytes, alloc_count := alloc_count a + 1\<rparr>))"
    and "unat (p + bytes) = unat p + unat bytes"
proof -
  have pow: "(2 :: nat) ^ k \<le> 2 ^ 62" using assms(2) by (intro power_increasing) simp_all
  have "unat (offset a) \<le> 2 ^ 62" using assms(1) by (simp add: arena_ok_def)
  then have "unat p < 2 ^ 62 + 2 ^ 62" using align_up_nat(3) [OF assms(2)] pow p_def by fastforce
  then have "unat p + unat bytes < 2 ^ 64" using assms(3) by simp
  then show s: "unat (p + bytes) = unat p + unat bytes" using unat_add_lem [of p bytes] by simp
  show "arena_allocate a bytes (2 ^ k) =
     (if unat p + unat bytes > unat (capacity a) then Inl Bad_alloc
      else Inr (p, a\<lparr>offset := p + bytes, alloc_count := alloc_count a + 1\<rparr>))"
    by (simp add: arena_allocate_def Let_def p_def [symmetric] word_less_nat_alt s)
qed

definition block_in :: "arena \<Rightarrow> 64 word \<times> 64 word \<times> nat \<Rightarrow> bool" where
  "block_in a b = (case b of (p, bytes, k) \<Rightarrow>
     unat (offset a) \<le> unat p \<and> unat p + unat bytes \<le> unat (capacity a) \<and> unat p mod 2 ^ k = 0)"

definition before :: "64 word \<times> 64 word \<times> nat \<Rightarrow> 64 word \<times> 64 word \<times> nat \<Rightarrow> bool" where
  "before b c = (unat (fst b) + unat (fst (snd b)) \<le> unat (fst c))"

definition requests_ok :: "(64 word \<times> nat) list \<Rightarrow> bool" where
  "requests_ok rs = list_all (\<lambda>(bytes, k). unat bytes \<le> 2 ^ 62 \<and> k \<le> 62) rs"

lemma arena_run_blocks:
  "arena_ok a \<Longrightarrow> requests_ok rs \<Longrightarrow>
   list_all (block_in a) (arena_run a rs) \<and> sorted_wrt before (arena_run a rs)"
proof (induction a rs rule: arena_run.induct)
  case (1 a)
  show ?case by simp
next
  case (2 a bytes k rs)
  define p where "p = align_up (offset a) (2 ^ k)"
  have ok: "k \<le> 62" "unat bytes \<le> 2 ^ 62" "requests_ok rs" using "2.prems"(2) by (simp_all add: requests_ok_def)
  note step = arena_allocate_cases [OF "2.prems"(1) ok(1,2), folded p_def]
  show ?case
  proof (cases "unat p + unat bytes > unat (capacity a)")
    case True
    then have "arena_allocate a bytes (2 ^ k) = Inl Bad_alloc" using step by simp
    then show ?thesis using "2.IH"(1) "2.prems"(1) ok(3) by simp
  next
    case False
    define a' where "a' = a\<lparr>offset := p + bytes, alloc_count := alloc_count a + 1\<rparr>"
    have e: "arena_allocate a bytes (2 ^ k) = Inr (p, a')" using step False by (simp add: a'_def)
    have off: "unat (offset a') = unat p + unat bytes" "capacity a' = capacity a"
      using step(2) by (simp_all add: a'_def)
    have "arena_ok a'" using "2.prems"(1) False off by (simp add: arena_ok_def)
    then have IH: "list_all (block_in a') (arena_run a' rs)" "sorted_wrt before (arena_run a' rs)"
      using "2.IH"(2) [OF e refl] ok(3) by blast+
    have p: "unat p mod 2 ^ k = 0" "unat (offset a) \<le> unat p"
      using align_up_nat [OF ok(1), of "offset a"] "2.prems"(1) by (simp_all add: p_def arena_ok_def)
    have "list_all (block_in a) (arena_run a' rs)"
      using IH(1) by (rule list.pred_mono_strong) (use p off in \<open>auto simp: block_in_def\<close>)
    moreover have "list_all (before (p, bytes, k)) (arena_run a' rs)"
      using IH(1) by (rule list.pred_mono_strong) (use off in \<open>auto simp: block_in_def before_def\<close>)
    ultimately show ?thesis using e p False IH(2) by (simp add: block_in_def list_all_iff)
  qed
qed

text \<open>
  C37: take an arena of at most 2 ^ 62 bytes and requests of at most 2 ^ 62 bytes each, aligned to powers of two up to 2 ^ 62
  (beyond that the capacity check can wrap around, see below). The blocks it grants lie inside the buffer, each begins at
  or after the end of every earlier one, and its offset is aligned as requested; its address is aligned
  as requested as far as the address of the buffer is, base being that address.
\<close>
theorem arena_blocks_disjoint:
  fixes base :: nat
  assumes "unat bytes \<le> 2 ^ 62" and "requests_ok rs" and "2 ^ j dvd base"
  shows "list_all (\<lambda>(p, n, k). unat p mod 2 ^ k = 0 \<and> (base + unat p) mod 2 ^ min j k = 0 \<and>
      unat p + unat n \<le> unat bytes) (arena_run (Arena bytes) rs) \<and>
    sorted_wrt (\<lambda>(p, n, k) (q, m, l). unat p + unat n \<le> unat q) (arena_run (Arena bytes) rs)"
proof -
  have "arena_ok (Arena bytes)" using assms(1) by (simp add: arena_ok_def Arena_def)
  note b = arena_run_blocks [OF this assms(2)]
  have address: "(base + u) mod 2 ^ min j k = 0" if "u mod 2 ^ k = 0" for u k :: nat
  proof -
    have "(2 :: nat) ^ min j k dvd base" using assms(3) le_imp_power_dvd dvd_trans by (metis min.cobounded1)
    moreover have "(2 :: nat) ^ min j k dvd u" using that le_imp_power_dvd dvd_trans by (metis min.cobounded2 mod_0_imp_dvd)
    ultimately show ?thesis by (simp add: mod_eq_0_iff_dvd)
  qed
  have "list_all (\<lambda>(p, n, k). unat p mod 2 ^ k = 0 \<and> (base + unat p) mod 2 ^ min j k = 0 \<and>
      unat p + unat n \<le> unat bytes) (arena_run (Arena bytes) rs)"
    using b by (auto simp: block_in_def Arena_def address elim!: list.pred_mono_strong)
  moreover have "sorted_wrt (\<lambda>(p, n, k) (q, m, l). unat p + unat n \<le> unat q) (arena_run (Arena bytes) rs)"
    using b by (auto simp: before_def elim!: sorted_wrt_mono_rel [rotated])
  ultimately show ?thesis by blast
qed

lemma arena_blocks_disjoint_witness:
  "list_all (\<lambda>(p, n, k). unat p mod 2 ^ k = 0 \<and> (48 + unat p) mod 2 ^ min 4 k = 0 \<and> unat p + unat n \<le> unat (64 :: 64 word))
      (arena_run (Arena 64) [(3, 0), (8, 3), (100, 4)]) \<and>
    sorted_wrt (\<lambda>(p, n, k) (q, m, l). unat p + unat n \<le> unat q) (arena_run (Arena 64) [(3, 0), (8, 3), (100, 4)])"
  by (rule arena_blocks_disjoint) (simp_all add: requests_ok_def)

text \<open>A buffer from new[] is aligned to 16 bytes only, so a block that asks for more can have a misaligned address.\<close>

lemma overaligned_request: "arena_run (Arena 64) [(8, 5)] = [(0, 8, 5)]" "(2 :: nat) ^ 4 dvd 48" "(48 + unat (0 :: 64 word)) mod 2 ^ 5 \<noteq> 0"
  by code_simp+

text \<open>
  Claim: the capacity check adds without regard to the wrap-around: when some of the arena is used, a
  request for so many bytes that the sum wraps is granted, and the offset goes back to 0.
\<close>
theorem arena_grants_wrapped_request:
  "arena_allocate (Arena 4096 \<lparr>offset := 16\<rparr>) (- 16) 16 = Inr (16, Arena 4096 \<lparr>offset := 0, alloc_count := 1\<rparr>)"
  by (simp add: arena_allocate_def Let_def align_up_def Arena_def)

section \<open>The blocks of a pool\<close>

text \<open>The free blocks in the order of the list.\<close>

fun chain :: "int option list \<Rightarrow> int option \<Rightarrow> int list \<Rightarrow> bool" where
  "chain ls q [] \<longleftrightarrow> q = None"
| "chain ls q (b # bs) \<longleftrightarrow> q = Some b \<and> 0 \<le> b \<and> b < int (length ls) \<and> chain ls (ls ! nat b) bs"

lemma chain_update: "b \<notin> set bs \<Longrightarrow> 0 \<le> b \<Longrightarrow> chain (ls[nat b := x]) q bs \<longleftrightarrow> chain ls q bs"
proof (induction bs arbitrary: q)
  case (Cons a bs)
  have IH: "chain (ls[nat b := x]) r bs = chain ls r bs" for r using Cons by simp
  have "nat b \<noteq> nat a" if "0 \<le> a" using that Cons.prems by (simp add: eq_nat_nat_iff)
  then have "ls[nat b := x] ! nat a = ls ! nat a" if "0 \<le> a" using that by simp
  then show ?case by (cases "0 \<le> a") (simp_all add: IH)
qed simp

definition pool_ok :: "nat \<Rightarrow> pool \<Rightarrow> int list \<Rightarrow> int list \<Rightarrow> bool" where
  "pool_ok n p free live \<longleftrightarrow> length (links p) = n \<and> chain (links p) (free_list p) free \<and>
     mset free + mset live = mset (map int [0..<n]) \<and> allocated p = of_nat (length live)"

lemma pool_blocks:
  "pool_ok n p free live \<Longrightarrow> set free \<union> set live = {0..<int n} \<and> set free \<inter> set live = {} \<and> distinct free \<and> distinct live"
proof -
  assume "pool_ok n p free live"
  then have m: "mset (free @ live) = mset (map int [0..<n])" by (simp add: pool_ok_def)
  have "distinct (map int [0..<n])" by (simp add: distinct_map inj_on_def)
  then have "distinct (free @ live)" using m by (metis mset_eq_imp_distinct_iff)
  moreover have "set (free @ live) = {0..<int n}" using mset_eq_setD [OF m] by (simp add: image_int_atLeastLessThan)
  ultimately show ?thesis by auto
qed

lemma new_pool_ok: "pool_ok n (PoolAllocator n) (rev (map int [0..<n])) []"
proof -
  let ?f = "\<lambda>i p. p\<lparr>links := (links p)[i := free_list p], free_list := Some (int i)\<rparr>"
  let ?e = "\<lparr>links = replicate n None, free_list = None, allocated = 0\<rparr>"
  have "m \<le> n \<Longrightarrow> length (links (fold ?f [0..<m] ?e)) = n \<and> allocated (fold ?f [0..<m] ?e) = 0 \<and>
      chain (links (fold ?f [0..<m] ?e)) (free_list (fold ?f [0..<m] ?e)) (rev (map int [0..<m]))" for m
  proof (induction m)
    case (Suc m)
    have "int m \<notin> set (rev (map int [0..<m]))" by auto
    from chain_update [OF this] have "chain (ls[m := x]) q (rev (map int [0..<m])) = chain ls q (rev (map int [0..<m]))"
      for ls x q by simp
    then show ?case using Suc by (simp del: rev_map)
  qed simp
  then show ?thesis by (simp add: pool_ok_def PoolAllocator_def)
qed

lemma pool_allocate_ok:
  assumes "pool_ok n p free live"
  shows "case free of
      [] \<Rightarrow> pool_allocate p = Some (Inl Bad_alloc)
    | b # rest \<Rightarrow> \<exists>p'. pool_allocate p = Some (Inr (b, p')) \<and> pool_ok n p' rest (b # live)"
proof (cases free)
  case Nil
  then show ?thesis using assms by (simp add: pool_ok_def pool_allocate_def)
next
  case (Cons b rest)
  then show ?thesis using assms by (auto simp: pool_ok_def pool_allocate_def vget_def)
qed

lemma pool_deallocate_ok:
  assumes "pool_ok n p free live" and "b \<in> set live"
  shows "\<exists>p'. pool_deallocate p b = Some p' \<and> pool_ok n p' (b # free) (remove1 b live)"
proof -
  have b: "b \<notin> set free" "0 \<le> b" "b < int n" using pool_blocks [OF assms(1)] assms(2) by auto
  have "length live = Suc (length (remove1 b live))" using length_pos_if_in_set [OF assms(2)] assms(2) by (simp add: length_remove1)
  moreover have "mset live = add_mset b (mset (remove1 b live))" using assms(2) by simp
  moreover have "mset (b # free) + mset (remove1 b live) = mset free + mset live"
    using calculation(2) by (metis mset.simps(2) union_mset_add_mset_left union_mset_add_mset_right)
  ultimately show ?thesis
    using assms(1) b chain_update [OF b(1,2)]
    by (simp add: pool_ok_def pool_deallocate_def vset_def del: mset.simps mset_remove1)
qed

end
