(* ===== verification/Rule_Of_Five.thy ===== *)
theory Rule_Of_Five
  imports Prelude
begin

text \<open>
  src/src/modern_cpp/rule_of_five.cpp: Buffer with its five special members over an explicit heap of
  arrays, ModernBuffer with the generated ones, and main. A use of an array that is not allocated, a
  second delete of it and an index out of range are undefined (None). The printed lines are left out.
\<close>

section \<open>The heap of arrays\<close>

record memory =
  arrays :: "nat \<Rightarrow> int list option"
  next_address :: nat

definition new_array :: "int list \<Rightarrow> memory \<Rightarrow> nat \<times> memory" where
  "new_array xs m = (next_address m,
     \<lparr>arrays = (arrays m)(next_address m \<mapsto> xs), next_address = next_address m + 1\<rparr>)"

definition delete_array :: "nat option \<Rightarrow> memory \<Rightarrow> memory ub" where
  "delete_array p m = (case p of
     None \<Rightarrow> Some m
   | Some a \<Rightarrow> (if arrays m a = None then None else Some (m\<lparr>arrays := (arrays m)(a := None)\<rparr>)))"

definition read_array :: "nat option \<Rightarrow> nat \<Rightarrow> memory \<Rightarrow> int list ub" where
  "read_array p n m = (if n = 0 then Some []
     else do { a \<leftarrow> p; xs \<leftarrow> arrays m a; if n \<le> length xs then Some (take n xs) else None })"

section \<open>Buffer\<close>

record buffer =
  bsize :: nat
  bdata :: "nat option"

definition Buffer :: "nat \<Rightarrow> memory \<Rightarrow> buffer \<times> memory" where
  "Buffer n m = (let (a, m') = new_array (replicate n 0) m in (\<lparr>bsize = n, bdata = Some a\<rparr>, m'))"

definition destroy_buffer :: "buffer \<Rightarrow> memory \<Rightarrow> memory ub" where
  "destroy_buffer b m = delete_array (bdata b) m"

definition copy_buffer :: "buffer \<Rightarrow> memory \<Rightarrow> (buffer \<times> memory) ub" where
  "copy_buffer other m = do {
     xs \<leftarrow> read_array (bdata other) (bsize other) m;
     let (a, m') = new_array xs m;
     Some (\<lparr>bsize = bsize other, bdata = Some a\<rparr>, m') }"

text \<open>Copy assignment from another object: copy, swap, and the destructor of the temporary.\<close>

definition copy_assign_buffer :: "buffer \<Rightarrow> buffer \<Rightarrow> memory \<Rightarrow> (buffer \<times> memory) ub" where
  "copy_assign_buffer this other m = do {
     (tmp, m1) \<leftarrow> copy_buffer other m;
     m2 \<leftarrow> destroy_buffer this m1;
     Some (tmp, m2) }"

text \<open>The new object and the source afterwards.\<close>

definition move_buffer :: "buffer \<Rightarrow> buffer \<times> buffer" where
  "move_buffer other = (other, \<lparr>bsize = 0, bdata = None\<rparr>)"

definition move_assign_buffer :: "buffer \<Rightarrow> buffer \<Rightarrow> memory \<Rightarrow> (buffer \<times> buffer \<times> memory) ub" where
  "move_assign_buffer this other m = do {
     m' \<leftarrow> delete_array (bdata this) m;
     Some (other, \<lparr>bsize = 0, bdata = None\<rparr>, m') }"

definition buffer_get :: "buffer \<Rightarrow> nat \<Rightarrow> memory \<Rightarrow> int ub" where
  "buffer_get b i m = do {
     a \<leftarrow> bdata b;
     xs \<leftarrow> arrays m a;
     if i < length xs then Some (xs ! i) else None }"

definition buffer_set :: "buffer \<Rightarrow> nat \<Rightarrow> int \<Rightarrow> memory \<Rightarrow> memory ub" where
  "buffer_set b i x m = do {
     a \<leftarrow> bdata b;
     xs \<leftarrow> arrays m a;
     if i < length xs then Some (m\<lparr>arrays := (arrays m)(a \<mapsto> xs[i := x])\<rparr>) else None }"

section \<open>Programs over variables\<close>

record buffers =
  objects :: "nat \<Rightarrow> buffer option"
  store :: memory

definition no_buffers :: buffers where
  "no_buffers = \<lparr>objects = Map.empty, store = \<lparr>arrays = Map.empty, next_address = 0\<rparr>\<rparr>"

datatype buffer_op =
    Construct nat nat
  | Copy_construct nat nat
  | Copy_assign nat nat
  | Move_construct nat nat
  | Move_assign nat nat
  | Assign_element nat nat int
  | Destroy nat

text \<open>A variable is constructed where there is none and used or destroyed while it is there.\<close>

fun buffer_step :: "buffer_op \<Rightarrow> buffers \<Rightarrow> buffers ub" where
  "buffer_step (Construct v n) w = do {
     _ \<leftarrow> guard (objects w v = None);
     let (b, m) = Buffer n (store w);
     Some \<lparr>objects = (objects w)(v \<mapsto> b), store = m\<rparr> }"
| "buffer_step (Copy_construct v u) w = do {
     _ \<leftarrow> guard (objects w v = None);
     other \<leftarrow> objects w u;
     (b, m) \<leftarrow> copy_buffer other (store w);
     Some \<lparr>objects = (objects w)(v \<mapsto> b), store = m\<rparr> }"
| "buffer_step (Copy_assign v u) w = do {
     this \<leftarrow> objects w v;
     other \<leftarrow> objects w u;
     if v = u then Some w else do {
       (b, m) \<leftarrow> copy_assign_buffer this other (store w);
       Some \<lparr>objects = (objects w)(v \<mapsto> b), store = m\<rparr> } }"
| "buffer_step (Move_construct v u) w = do {
     _ \<leftarrow> guard (objects w v = None);
     other \<leftarrow> objects w u;
     let (b, other') = move_buffer other;
     Some \<lparr>objects = (objects w)(v \<mapsto> b, u \<mapsto> other'), store = store w\<rparr> }"
| "buffer_step (Move_assign v u) w = do {
     this \<leftarrow> objects w v;
     other \<leftarrow> objects w u;
     if v = u then Some w else do {
       (b, other', m) \<leftarrow> move_assign_buffer this other (store w);
       Some \<lparr>objects = (objects w)(v \<mapsto> b, u \<mapsto> other'), store = m\<rparr> } }"
| "buffer_step (Assign_element v i x) w = do {
     b \<leftarrow> objects w v;
     m \<leftarrow> buffer_set b i x (store w);
     Some (w\<lparr>store := m\<rparr>) }"
| "buffer_step (Destroy v) w = do {
     b \<leftarrow> objects w v;
     m \<leftarrow> destroy_buffer b (store w);
     Some \<lparr>objects = (objects w)(v := None), store = m\<rparr> }"

fun buffer_run :: "buffer_op list \<Rightarrow> buffers \<Rightarrow> buffers ub" where
  "buffer_run [] w = Some w"
| "buffer_run (c # cs) w = do { w' \<leftarrow> buffer_step c w; buffer_run cs w' }"

definition element :: "buffers \<Rightarrow> nat \<Rightarrow> nat \<Rightarrow> int ub" where
  "element w v i = do { b \<leftarrow> objects w v; buffer_get b i (store w) }"

section \<open>ModernBuffer\<close>

text \<open>The generated move leaves a null pointer and the size as it was.\<close>

definition ModernBuffer :: "nat \<Rightarrow> memory \<Rightarrow> buffer \<times> memory" where
  "ModernBuffer n m = (let (a, m') = new_array (replicate n 0) m in (\<lparr>bsize = n, bdata = Some a\<rparr>, m'))"

definition move_modern :: "buffer \<Rightarrow> buffer \<times> buffer" where
  "move_modern other = (other, other\<lparr>bdata := None\<rparr>)"

text \<open>The blocks of main; both leave the heap empty.\<close>

definition rule_of_five_main :: "unit ub" where
  "rule_of_five_main = do {
     w1 \<leftarrow> buffer_run [Construct 1 10, Assign_element 1 0 42, Assign_element 1 9 99, Copy_construct 2 1] no_buffers;
     x \<leftarrow> element w1 2 0;
     _ \<leftarrow> guard (x = 42);
     _ \<leftarrow> guard (map_option bsize (objects w1 2) = Some 10);
     w2 \<leftarrow> buffer_run [Construct 3 5, Copy_assign 3 1] w1;
     x \<leftarrow> element w2 3 9;
     _ \<leftarrow> guard (x = 99);
     w3 \<leftarrow> buffer_run [Move_construct 4 1] w2;
     x \<leftarrow> element w3 4 0;
     _ \<leftarrow> guard (x = 42);
     _ \<leftarrow> guard (map_option bsize (objects w3 1) = Some 0);
     w4 \<leftarrow> buffer_run [Construct 5 3, Move_assign 5 4] w3;
     x \<leftarrow> element w4 5 9;
     _ \<leftarrow> guard (x = 99);
     _ \<leftarrow> guard (map_option bsize (objects w4 4) = Some 0);
     w5 \<leftarrow> buffer_run [Destroy 5, Destroy 4, Destroy 3, Destroy 2, Destroy 1] w4;
     let (mb, m1) = ModernBuffer 100 (store w5);
     m2 \<leftarrow> buffer_set mb 0 7 m1;
     let (mb2, mb') = move_modern mb;
     x \<leftarrow> buffer_get mb2 0 m2;
     _ \<leftarrow> guard (x = 7);
     m3 \<leftarrow> destroy_buffer mb2 m2;
     m4 \<leftarrow> destroy_buffer mb' m3;
     guard (map (arrays m4) [0..<next_address m4] = replicate (next_address m4) None) }"

lemma rule_of_five_main_output: "rule_of_five_main = Some ()"
  by code_simp

lemma moved_from_modern_keeps_size: "move_modern b = (b, b') \<Longrightarrow> bsize b' = bsize b \<and> buffer_get b' i m = None"
  by (auto simp: move_modern_def buffer_get_def)

section \<open>Buffers as values\<close>

text \<open>What the variables hold when every object is a list of its own.\<close>

fun value_step :: "buffer_op \<Rightarrow> (nat \<Rightarrow> int list option) \<Rightarrow> (nat \<Rightarrow> int list option) ub" where
  "value_step (Construct v n) vs = do { _ \<leftarrow> guard (vs v = None); Some (vs(v \<mapsto> replicate n 0)) }"
| "value_step (Copy_construct v u) vs = do { _ \<leftarrow> guard (vs v = None); xs \<leftarrow> vs u; Some (vs(v \<mapsto> xs)) }"
| "value_step (Copy_assign v u) vs = do { _ \<leftarrow> vs v; xs \<leftarrow> vs u; Some (vs(v \<mapsto> xs)) }"
| "value_step (Move_construct v u) vs = do { _ \<leftarrow> guard (vs v = None); xs \<leftarrow> vs u; Some (vs(v \<mapsto> xs, u \<mapsto> [])) }"
| "value_step (Move_assign v u) vs =
     do { _ \<leftarrow> vs v; xs \<leftarrow> vs u; Some (if v = u then vs else vs(v \<mapsto> xs, u \<mapsto> [])) }"
| "value_step (Assign_element v i x) vs =
     do { xs \<leftarrow> vs v; if i < length xs then Some (vs(v \<mapsto> xs[i := x])) else None }"
| "value_step (Destroy v) vs = do { _ \<leftarrow> vs v; Some (vs(v := None)) }"

fun value_run :: "buffer_op list \<Rightarrow> (nat \<Rightarrow> int list option) \<Rightarrow> (nat \<Rightarrow> int list option) ub" where
  "value_run [] vs = Some vs"
| "value_run (c # cs) vs = do { vs' \<leftarrow> value_step c vs; value_run cs vs' }"

fun array_value :: "memory \<Rightarrow> nat option \<Rightarrow> int list option" where
  "array_value m None = Some []"
| "array_value m (Some a) = arrays m a"

definition contents :: "buffers \<Rightarrow> nat \<Rightarrow> int list option" where
  "contents w v = (case objects w v of None \<Rightarrow> None | Some b \<Rightarrow> array_value (store w) (bdata b))"

definition owner :: "buffers \<Rightarrow> nat \<Rightarrow> nat \<Rightarrow> bool" where
  "owner w a v \<longleftrightarrow> (\<exists>b. objects w v = Some b \<and> bdata b = Some a)"

text \<open>Every array has exactly one owner, whose size is the array's.\<close>

definition buffers_inv :: "buffers \<Rightarrow> bool" where
  "buffers_inv w \<longleftrightarrow>
     (\<forall>v b. objects w v = Some b \<longrightarrow> map_option length (array_value (store w) (bdata b)) = Some (bsize b)) \<and>
     (\<forall>a v u. owner w a v \<longrightarrow> owner w a u \<longrightarrow> v = u) \<and>
     (\<forall>a. arrays (store w) a \<noteq> None \<longrightarrow> a < next_address (store w) \<and> (\<exists>v. owner w a v))"

lemma inv_size: "buffers_inv w \<Longrightarrow> objects w v = Some b \<Longrightarrow>
    \<exists>xs. array_value (store w) (bdata b) = Some xs \<and> length xs = bsize b"
  by (auto simp: buffers_inv_def)

lemma inv_owner: "buffers_inv w \<Longrightarrow> owner w a v \<Longrightarrow> owner w a u \<Longrightarrow> v = u"
  by (simp add: buffers_inv_def)

lemma inv_array: "buffers_inv w \<Longrightarrow> arrays (store w) a \<noteq> None \<Longrightarrow> a < next_address (store w) \<and> (\<exists>v. owner w a v)"
  by (simp add: buffers_inv_def)

lemma inv_owned: "buffers_inv w \<Longrightarrow> owner w a v \<Longrightarrow> arrays (store w) a \<noteq> None \<and> a < next_address (store w)"
  using inv_array inv_size unfolding owner_def by (metis array_value.simps(2) option.distinct(1))

lemma contents_live: "buffers_inv w \<Longrightarrow> objects w v = Some b \<Longrightarrow>
    \<exists>xs. contents w v = Some xs \<and> array_value (store w) (bdata b) = Some xs \<and> length xs = bsize b"
  using inv_size [of w v b] by (simp add: contents_def)

lemma contents_None: "buffers_inv w \<Longrightarrow> contents w v = None \<longleftrightarrow> objects w v = None"
  using contents_live [of w v] by (cases "objects w v") (auto simp: contents_def)

subsection \<open>Allocation, release and transfer\<close>

lemma add_buffer:
  fixes w :: buffers and v :: nat and xs :: "int list"
  assumes "buffers_inv w" and "objects w v = None"
  defines "a \<equiv> next_address (store w)"
  defines "w' \<equiv> \<lparr>objects = (objects w)(v \<mapsto> \<lparr>bsize = length xs, bdata = Some a\<rparr>),
      store = \<lparr>arrays = (arrays (store w))(a \<mapsto> xs), next_address = a + 1\<rparr>\<rparr>"
  shows "buffers_inv w' \<and> contents w' = (contents w)(v \<mapsto> xs)"
proof -
  have fresh: "\<not> owner w a u" for u using inv_owned [OF assms(1), of a u] by (auto simp: a_def)
  have free: "\<not> owner w c v" for c using assms(2) by (simp add: owner_def)
  have own: "owner w' c u \<longleftrightarrow> (if u = v then c = a else owner w c u)" for c u
    by (auto simp: owner_def w'_def)
  have val: "array_value (store w') (bdata b) = array_value (store w) (bdata b)" if "objects w u = Some b" for u b
    using fresh [of u] that by (cases "bdata b") (auto simp: owner_def w'_def)
  have "contents w' u = ((contents w)(v \<mapsto> xs)) u" for u
    using val [of u] by (cases "objects w u") (auto simp: contents_def w'_def)
  moreover have "buffers_inv w'"
    unfolding buffers_inv_def
  proof (intro conjI allI impI)
    fix u b assume "objects w' u = Some b"
    then show "map_option length (array_value (store w') (bdata b)) = Some (bsize b)"
      using val [of u b] inv_size [OF assms(1), of u b] by (cases "u = v") (auto simp: w'_def)
  next
    fix c u u' assume "owner w' c u" "owner w' c u'"
    then show "u = u'" using own fresh inv_owner [OF assms(1)] by (metis)
  next
    fix c assume c: "arrays (store w') c \<noteq> None"
    then have "c = a \<or> arrays (store w) c \<noteq> None" by (auto simp: w'_def)
    then show "c < next_address (store w')" "\<exists>u. owner w' c u"
      using inv_array [OF assms(1), of c] own free by (fastforce simp: w'_def a_def)+
  qed
  ultimately show ?thesis by auto
qed

lemma remove_buffer:
  assumes "buffers_inv w" and "objects w v = Some b"
  shows "\<exists>m. delete_array (bdata b) (store w) = Some m \<and> next_address m = next_address (store w) \<and>
    arrays m = (case bdata b of None \<Rightarrow> arrays (store w) | Some a \<Rightarrow> (arrays (store w))(a := None)) \<and>
    buffers_inv \<lparr>objects = (objects w)(v := None), store = m\<rparr> \<and>
    contents \<lparr>objects = (objects w)(v := None), store = m\<rparr> = (contents w)(v := None)"
proof -
  define m where "m = store w\<lparr>arrays := (case bdata b of None \<Rightarrow> arrays (store w) | Some a \<Rightarrow> (arrays (store w))(a := None))\<rparr>"
  define w' where "w' = \<lparr>objects = (objects w)(v := None), store = m\<rparr>"
  have d: "delete_array (bdata b) (store w) = Some m"
  proof (cases "bdata b")
    case None
    then show ?thesis by (simp add: delete_array_def m_def)
  next
    case (Some a)
    then have "owner w a v" using assms(2) by (simp add: owner_def)
    then show ?thesis using inv_owned [OF assms(1)] Some by (auto simp: delete_array_def m_def)
  qed
  have own: "owner w' c u \<longleftrightarrow> u \<noteq> v \<and> owner w c u" for c u by (auto simp: owner_def w'_def)
  have arr: "arrays m c = (if bdata b = Some c then None else arrays (store w) c)" for c
    by (cases "bdata b") (auto simp: m_def)
  have other: "owner w c v \<longleftrightarrow> bdata b = Some c" for c using assms(2) by (simp add: owner_def)
  have val: "array_value m (bdata b') = array_value (store w) (bdata b')" if "objects w u = Some b'" "u \<noteq> v" for u b'
  proof (cases "bdata b'")
    case (Some c)
    then have "owner w c u" using that(1) by (simp add: owner_def)
    then have "bdata b \<noteq> Some c" using inv_owner [OF assms(1)] other that(2) by blast
    then show ?thesis using Some arr by simp
  qed simp
  have "contents w' u = ((contents w)(v := None)) u" for u
    using val [of u] by (cases "objects w u") (auto simp: contents_def w'_def)
  moreover have "buffers_inv w'"
    unfolding buffers_inv_def
  proof (intro conjI allI impI)
    fix u b' assume "objects w' u = Some b'"
    then have "u \<noteq> v" "objects w u = Some b'" by (auto simp: w'_def split: if_splits)
    then show "map_option length (array_value (store w') (bdata b')) = Some (bsize b')"
      using val [of u b'] inv_size [OF assms(1), of u b'] by (auto simp: w'_def)
  next
    fix c u u' assume "owner w' c u" "owner w' c u'"
    then show "u = u'" using own inv_owner [OF assms(1)] by blast
  next
    fix c assume "arrays (store w') c \<noteq> None"
    then have c: "bdata b \<noteq> Some c" "arrays (store w) c \<noteq> None" using arr by (auto simp: w'_def split: if_splits)
    then obtain u where "owner w c u" using inv_array [OF assms(1)] by blast
    then show "\<exists>u. owner w' c u" using own other c(1) by metis
    show "c < next_address (store w')" using inv_array [OF assms(1) c(2)] by (simp add: w'_def m_def)
  qed
  ultimately show ?thesis using d by (auto simp: w'_def m_def)
qed

lemma transfer_buffer:
  assumes "buffers_inv w" and "objects w v = None" and "objects w u = Some b" and "contents w u = Some xs"
  defines "w' \<equiv> \<lparr>objects = (objects w)(v \<mapsto> b, u \<mapsto> \<lparr>bsize = 0, bdata = None\<rparr>), store = store w\<rparr>"
  shows "buffers_inv w' \<and> contents w' = (contents w)(v \<mapsto> xs, u \<mapsto> [])"
proof -
  have uv: "u \<noteq> v" using assms(2,3) by auto
  have own: "owner w' c x \<longleftrightarrow> (if x = v then owner w c u else x \<noteq> u \<and> owner w c x)" for c x
    using uv assms(3) by (auto simp: owner_def w'_def)
  have "contents w' x = ((contents w)(v \<mapsto> xs, u \<mapsto> [])) x" for x
    using uv assms(3,4) by (cases "objects w x") (auto simp: contents_def w'_def)
  moreover have "buffers_inv w'"
    unfolding buffers_inv_def
  proof (intro conjI allI impI)
    fix x b' assume "objects w' x = Some b'"
    then show "map_option length (array_value (store w') (bdata b')) = Some (bsize b')"
      using uv assms(3) inv_size [OF assms(1), of x b'] inv_size [OF assms(1), of u b]
      by (auto simp: w'_def split: if_splits)
  next
    fix c x y assume "owner w' c x" "owner w' c y"
    then show "x = y" using own inv_owner [OF assms(1)] by (metis)
  next
    fix c assume "arrays (store w') c \<noteq> None"
    then have c: "arrays (store w) c \<noteq> None" by (simp add: w'_def)
    then obtain x where "owner w c x" using inv_array [OF assms(1)] by blast
    then have "owner w' c (if x = u then v else x)" using own uv assms(2) by (auto simp: owner_def)
    then show "c < next_address (store w')" "\<exists>x. owner w' c x"
      using inv_array [OF assms(1) c] by (auto simp: w'_def)
  qed
  ultimately show ?thesis by auto
qed

lemma set_element:
  fixes w :: buffers and i :: nat and x :: int
  assumes "buffers_inv w" and "objects w v = Some b" and "bdata b = Some a" and "arrays (store w) a = Some xs"
  defines "w' \<equiv> w\<lparr>store := store w\<lparr>arrays := (arrays (store w))(a \<mapsto> xs[i := x])\<rparr>\<rparr>"
  shows "buffers_inv w' \<and> contents w' = (contents w)(v \<mapsto> xs[i := x])"
proof -
  have va: "owner w a v" using assms(2,3) by (simp add: owner_def)
  have own: "owner w' = owner w" by (simp add: owner_def w'_def fun_eq_iff)
  have val: "array_value (store w') (bdata b') = (if u = v then Some (xs[i := x]) else array_value (store w) (bdata b'))"
    if "objects w u = Some b'" for u b'
  proof (cases "bdata b' = Some a")
    case True
    then have "owner w a u" using that by (simp add: owner_def)
    then have "u = v" using inv_owner [OF assms(1) va] by blast
    then show ?thesis using True by (simp add: w'_def)
  next
    case False
    then have "u \<noteq> v" using assms(2,3) that by auto
    then show ?thesis using False by (cases "bdata b'") (simp_all add: w'_def)
  qed
  have "contents w' u = ((contents w)(v \<mapsto> xs[i := x])) u" for u
    using val [of u] assms(2) by (cases "objects w u") (auto simp: contents_def w'_def)
  moreover have "buffers_inv w'"
    unfolding buffers_inv_def own
  proof (intro conjI allI impI)
    fix u b' assume "objects w' u = Some b'"
    then show "map_option length (array_value (store w') (bdata b')) = Some (bsize b')"
      using val [of u b'] inv_size [OF assms(1), of u b'] assms(2-4) by (auto simp: w'_def)
  next
    fix c assume "arrays (store w') c \<noteq> None"
    then have "arrays (store w) c \<noteq> None" using assms(4) by (auto simp: w'_def split: if_splits)
    then show "c < next_address (store w')" "\<exists>u. owner w c u"
      using inv_array [OF assms(1)] by (auto simp: w'_def)
  qed (use inv_owner [OF assms(1)] in blast)
  ultimately show ?thesis by auto
qed

subsection \<open>A step on objects is a step on values\<close>

definition agrees :: "buffers ub \<Rightarrow> (nat \<Rightarrow> int list option) ub \<Rightarrow> bool" where
  "agrees r s = (case (r, s) of (None, None) \<Rightarrow> True | (Some w, Some vs) \<Rightarrow> buffers_inv w \<and> contents w = vs | _ \<Rightarrow> False)"

lemma read_array_contents:
  assumes "buffers_inv w" and "objects w u = Some b" and "contents w u = Some xs"
  shows "read_array (bdata b) (bsize b) (store w) = Some xs"
  using contents_live [OF assms(1,2)] assms(3) by (cases "bdata b") (auto simp: read_array_def)

lemma copy_buffer_contents:
  assumes "buffers_inv w" and "objects w u = Some b" and "contents w u = Some xs"
  shows "copy_buffer b (store w) = Some (\<lparr>bsize = length xs, bdata = Some (next_address (store w))\<rparr>,
    \<lparr>arrays = (arrays (store w))(next_address (store w) \<mapsto> xs), next_address = next_address (store w) + 1\<rparr>)"
proof -
  have "bsize b = length xs" using contents_live [OF assms(1,2)] assms(3) by simp
  then show ?thesis using read_array_contents [OF assms] by (simp add: copy_buffer_def new_array_def)
qed

lemma step_copy_assign:
  assumes "buffers_inv w" and "objects w v = Some this" and "objects w u = Some other" and "contents w u = Some xs" and "v \<noteq> u"
  shows "agrees (buffer_step (Copy_assign v u) w) (Some ((contents w)(v \<mapsto> xs)))"
proof -
  let ?n = "next_address (store w)"
  obtain m where m: "delete_array (bdata this) (store w) = Some m" "next_address m = ?n"
      "arrays m = (case bdata this of None \<Rightarrow> arrays (store w) | Some a \<Rightarrow> (arrays (store w))(a := None))"
      "buffers_inv \<lparr>objects = (objects w)(v := None), store = m\<rparr>"
      "contents \<lparr>objects = (objects w)(v := None), store = m\<rparr> = (contents w)(v := None)"
    using remove_buffer [OF assms(1,2)] by blast
  have a: "bdata this = Some a \<Longrightarrow> a \<noteq> ?n \<and> arrays (store w) a \<noteq> None" for a
    using inv_owned [OF assms(1), of a v] assms(2) by (auto simp: owner_def)
  have "delete_array (bdata this) \<lparr>arrays = (arrays (store w))(?n \<mapsto> xs), next_address = ?n + 1\<rparr> =
      Some \<lparr>arrays = (arrays m)(?n \<mapsto> xs), next_address = ?n + 1\<rparr>"
    using a m(3) by (cases "bdata this") (auto simp: delete_array_def fun_upd_twist)
  then have "buffer_step (Copy_assign v u) w = Some \<lparr>objects = (objects w)(v \<mapsto> \<lparr>bsize = length xs, bdata = Some ?n\<rparr>),
      store = \<lparr>arrays = (arrays m)(?n \<mapsto> xs), next_address = ?n + 1\<rparr>\<rparr>"
    using assms(2,3,5) copy_buffer_contents [OF assms(1,3,4)] by (simp add: copy_assign_buffer_def destroy_buffer_def)
  then show ?thesis using add_buffer [OF m(4), of v xs] m(2,5) by (simp add: agrees_def)
qed

lemma step_move_assign:
  assumes "buffers_inv w" and "objects w v = Some this" and "objects w u = Some other" and "contents w u = Some xs" and "v \<noteq> u"
  shows "agrees (buffer_step (Move_assign v u) w) (Some ((contents w)(v \<mapsto> xs, u \<mapsto> [])))"
proof -
  obtain m where m: "delete_array (bdata this) (store w) = Some m"
      "buffers_inv \<lparr>objects = (objects w)(v := None), store = m\<rparr>"
      "contents \<lparr>objects = (objects w)(v := None), store = m\<rparr> = (contents w)(v := None)"
    using remove_buffer [OF assms(1,2)] by blast
  show ?thesis
    using transfer_buffer [OF m(2), of v u other xs] assms(2-5) m(1,3)
    by (simp add: agrees_def move_assign_buffer_def)
qed

lemma buffer_step_agrees:
  assumes "buffers_inv w"
  shows "agrees (buffer_step c w) (value_step c (contents w))"
proof -
  note none = contents_None [OF assms] and live = contents_live [OF assms]
  have pair: "(\<exists>xs. objects w u = Some b \<and> contents w u = Some xs) \<or> (objects w u = None \<and> contents w u = None)"
    if "objects w u = Some b \<or> objects w u = None" for u b
    using that live none by blast
  show ?thesis
  proof (cases c)
    case (Construct v n)
    then show ?thesis using add_buffer [OF assms, of v "replicate n 0"] none [of v]
      by (cases "objects w v") (auto simp: agrees_def guard_def Buffer_def new_array_def)
  next
    case (Copy_construct v u)
    show ?thesis
    proof (cases "objects w v = None \<and> objects w u \<noteq> None")
      case True
      then obtain b xs where b: "objects w u = Some b" "contents w u = Some xs" using live by blast
      then show ?thesis using Copy_construct True add_buffer [OF assms, of v xs] copy_buffer_contents [OF assms b] none [of v]
        by (simp add: agrees_def guard_def)
    next
      case False
      then show ?thesis using Copy_construct none [of v] none [of u]
        by (cases "objects w v"; cases "objects w u") (auto simp: agrees_def guard_def)
    qed
  next
    case (Copy_assign v u)
    show ?thesis
    proof (cases "objects w v \<noteq> None \<and> objects w u \<noteq> None")
      case True
      then obtain b b' xs where b: "objects w v = Some b" "objects w u = Some b'" "contents w u = Some xs" using live by blast
      obtain ys where "contents w v = Some ys" using b(1) live by blast
      then show ?thesis using Copy_assign b step_copy_assign [OF assms b] assms
        by (cases "v = u") (auto simp: agrees_def fun_upd_idem)
    next
      case False
      then show ?thesis using Copy_assign none [of v] none [of u]
        by (cases "objects w v"; cases "objects w u") (auto simp: agrees_def split: option.splits bind_splits)
    qed
  next
    case (Move_construct v u)
    show ?thesis
    proof (cases "objects w v = None \<and> objects w u \<noteq> None")
      case True
      then obtain b xs where b: "objects w u = Some b" "contents w u = Some xs" using live by blast
      then show ?thesis using Move_construct True transfer_buffer [OF assms, of v u b xs] none [of v]
        by (simp add: agrees_def guard_def move_buffer_def)
    next
      case False
      then show ?thesis using Move_construct none [of v] none [of u]
        by (cases "objects w v"; cases "objects w u") (auto simp: agrees_def guard_def)
    qed
  next
    case (Move_assign v u)
    show ?thesis
    proof (cases "objects w v \<noteq> None \<and> objects w u \<noteq> None")
      case True
      then obtain b b' xs where b: "objects w v = Some b" "objects w u = Some b'" "contents w u = Some xs" using live by blast
      obtain ys where "contents w v = Some ys" using b(1) live by blast
      then show ?thesis using Move_assign b step_move_assign [OF assms b] assms
        by (cases "v = u") (auto simp: agrees_def)
    next
      case False
      then show ?thesis using Move_assign none [of v] none [of u]
        by (cases "objects w v"; cases "objects w u") (auto simp: agrees_def split: option.splits bind_splits)
    qed
  next
    case (Assign_element v i x)
    show ?thesis
    proof (cases "objects w v")
      case None
      then show ?thesis using Assign_element none [of v] by (simp add: agrees_def)
    next
      case (Some b)
      then obtain xs where xs: "contents w v = Some xs" "array_value (store w) (bdata b) = Some xs" using live by blast
      then show ?thesis using Assign_element Some set_element [OF assms Some, of _ xs i x]
        by (cases "bdata b") (auto simp: agrees_def buffer_set_def)
    qed
  next
    case (Destroy v)
    show ?thesis
    proof (cases "objects w v")
      case None
      then show ?thesis using Destroy none [of v] by (simp add: agrees_def)
    next
      case (Some b)
      then obtain xs where "contents w v = Some xs" using live by blast
      then show ?thesis using Destroy Some remove_buffer [OF assms Some] by (auto simp: agrees_def destroy_buffer_def)
    qed
  qed
qed

lemma buffer_run_agrees: "buffers_inv w \<Longrightarrow> agrees (buffer_run cs w) (value_run cs (contents w))"
proof (induction cs arbitrary: w)
  case Nil
  then show ?case by (simp add: agrees_def)
next
  case (Cons c cs)
  have "agrees (buffer_step c w) (value_step c (contents w))" by (rule buffer_step_agrees) (rule Cons.prems)
  then show ?case using Cons.IH
    by (cases "buffer_step c w"; cases "value_step c (contents w)") (auto simp: agrees_def)
qed

lemma no_buffers_inv: "buffers_inv no_buffers" "contents no_buffers = Map.empty"
  by (simp_all add: buffers_inv_def owner_def no_buffers_def contents_def fun_eq_iff)

text \<open>
  C13: every program that constructs, copies, moves, assigns and destroys buffers behaves as if the
  variables held lists: it is undefined exactly when it uses a variable that is not there or an index
  out of range, so no array is freed twice or used after it was freed; and the arrays in use are
  exactly those the live buffers own, so that none leaks.
\<close>
theorem buffers_refine_values:
  "map_option contents (buffer_run cs no_buffers) = value_run cs Map.empty \<and>
   map_option (\<lambda>w. dom (arrays (store w))) (buffer_run cs no_buffers) =
     map_option (\<lambda>w. {a. \<exists>v b. objects w v = Some b \<and> bdata b = Some a}) (buffer_run cs no_buffers)"
proof (cases "buffer_run cs no_buffers")
  case None
  then show ?thesis using buffer_run_agrees [OF no_buffers_inv(1), of cs]
    by (auto simp: agrees_def no_buffers_inv(2) split: option.splits)
next
  case (Some w)
  then have w: "buffers_inv w" "value_run cs Map.empty = Some (contents w)"
    using buffer_run_agrees [OF no_buffers_inv(1), of cs] by (auto simp: agrees_def no_buffers_inv(2) split: option.splits)
  have "a \<in> dom (arrays (store w)) \<longleftrightarrow> (\<exists>v. owner w a v)" for a
    using inv_array [OF w(1), of a] inv_owned [OF w(1), of a] by blast
  then have "dom (arrays (store w)) = {a. \<exists>v b. objects w v = Some b \<and> bdata b = Some a}"
    unfolding owner_def by (simp only: set_eq_iff mem_Collect_eq simp_thms)
  then show ?thesis using Some w(2) by simp
qed

end
