(* ===== verification/Thread_Pool.thy ===== *)
theory Thread_Pool
  imports Prelude "HOL-Library.Multiset"
begin

text \<open>
  src/src/concurrency/thread_pool.cpp: the pool with its queue of tasks, mutex and condition
  variable, the workers, and the thread that submits tasks, waits for futures and destroys the pool.
  A step is what a thread does while it holds the mutex, a notification (issued after the mutex is
  released), a task's execution (outside the mutex, one atomic access of the world), or one wait of
  the client that can return. A task is its number in the order of submission, body says what it
  does; a future is ready when its task is done. A spurious wakeup is a step of its own kind.
\<close>

section \<open>The pool and its threads\<close>

datatype worker = Awake | Waiting | Running nat | Exited

datatype client_op = Submit | Notify_one | Get nat | Stop | Notify_all | Join nat

text \<open>The ghost fields started and finished list the tasks in the order they were taken and done.\<close>

record 'w pool_system =
  tasks :: "nat list"
  stop :: bool
  workers :: "worker list"
  client :: "client_op list"
  submitted :: nat
  started :: "nat list"
  finished :: "nat list"
  world :: 'w

text \<open>The destructor, which joins the workers in order.\<close>

definition shutdown :: "nat \<Rightarrow> client_op list" where
  "shutdown n = Stop # Notify_all # map Join [0..<n]"

definition start_pool :: "client_op list \<Rightarrow> nat \<Rightarrow> 'w \<Rightarrow> 'w pool_system" where
  "start_pool prog num_threads w =
     \<lparr>tasks = [], stop = False, workers = replicate num_threads Awake, client = prog @ shutdown num_threads,
      submitted = 0, started = [], finished = [], world = w\<rparr>"

text \<open>submit up to the release of the mutex; the exception on a stopped pool is None.\<close>

definition submit_task :: "client_op list \<Rightarrow> 'w pool_system \<Rightarrow> 'w pool_system ub" where
  "submit_task cs s = (if stop s then None
     else Some (s\<lparr>tasks := tasks s @ [submitted s], submitted := submitted s + 1, client := Notify_one # cs\<rparr>))"

text \<open>A worker that holds the mutex evaluates the predicate of its wait and goes on from there.\<close>

definition worker_turn :: "nat \<Rightarrow> 'w pool_system \<Rightarrow> 'w pool_system" where
  "worker_turn i s =
     (if \<not> (stop s \<or> tasks s \<noteq> []) then s\<lparr>workers := (workers s)[i := Waiting]\<rparr>
      else (case tasks s of
          [] \<Rightarrow> s\<lparr>workers := (workers s)[i := Exited]\<rparr>
        | t # ts \<Rightarrow> s\<lparr>tasks := ts, workers := (workers s)[i := Running t], started := started s @ [t]\<rparr>))"

definition run_task :: "(nat \<Rightarrow> 'w \<Rightarrow> 'w) \<Rightarrow> nat \<Rightarrow> nat \<Rightarrow> 'w pool_system \<Rightarrow> 'w pool_system" where
  "run_task body i t s = s\<lparr>workers := (workers s)[i := Awake], finished := finished s @ [t], world := body t (world s)\<rparr>"

definition pool_wake :: "worker \<Rightarrow> worker" where
  "pool_wake w = (if w = Waiting then Awake else w)"

inductive pool_step :: "(nat \<Rightarrow> 'w \<Rightarrow> 'w) \<Rightarrow> 'w pool_system \<Rightarrow> 'w pool_system ub \<Rightarrow> bool" for body where
  submit: "client s = Submit # cs \<Longrightarrow> pool_step body s (submit_task cs s)"
| notify_one: "client s = Notify_one # cs \<Longrightarrow> i < length (workers s) \<Longrightarrow> workers s ! i = Waiting \<Longrightarrow>
    pool_step body s (Some (s\<lparr>client := cs, workers := (workers s)[i := Awake]\<rparr>))"
| notify_none: "client s = Notify_one # cs \<Longrightarrow> Waiting \<notin> set (workers s) \<Longrightarrow>
    pool_step body s (Some (s\<lparr>client := cs\<rparr>))"
| get: "client s = Get j # cs \<Longrightarrow> j \<in> set (finished s) \<Longrightarrow> pool_step body s (Some (s\<lparr>client := cs\<rparr>))"
| stop: "client s = Stop # cs \<Longrightarrow> pool_step body s (Some (s\<lparr>client := cs, stop := True\<rparr>))"
| notify_all: "client s = Notify_all # cs \<Longrightarrow>
    pool_step body s (Some (s\<lparr>client := cs, workers := map pool_wake (workers s)\<rparr>))"
| join: "client s = Join i # cs \<Longrightarrow> i < length (workers s) \<Longrightarrow> workers s ! i = Exited \<Longrightarrow>
    pool_step body s (Some (s\<lparr>client := cs\<rparr>))"
| turn: "i < length (workers s) \<Longrightarrow> workers s ! i = Awake \<Longrightarrow> pool_step body s (Some (worker_turn i s))"
| execute: "i < length (workers s) \<Longrightarrow> workers s ! i = Running t \<Longrightarrow> pool_step body s (Some (run_task body i t s))"

inductive spurious_wakeup :: "'w pool_system \<Rightarrow> 'w pool_system ub \<Rightarrow> bool" where
  spurious: "i < length (workers s) \<Longrightarrow> workers s ! i = Waiting \<Longrightarrow>
    spurious_wakeup s (Some (s\<lparr>workers := (workers s)[i := Awake]\<rparr>))"

inductive pool_reach ::
  "(nat \<Rightarrow> 'w \<Rightarrow> 'w) \<Rightarrow> client_op list \<Rightarrow> nat \<Rightarrow> 'w \<Rightarrow> 'w pool_system ub \<Rightarrow> bool" for body prog n w where
  start: "pool_reach body prog n w (Some (start_pool prog n w))"
| step: "pool_reach body prog n w (Some s) \<Longrightarrow> pool_step body s r \<or> spurious_wakeup s r \<Longrightarrow> pool_reach body prog n w r"

text \<open>A client submits tasks and gets futures of tasks it has submitted.\<close>

fun client_program :: "nat \<Rightarrow> client_op list \<Rightarrow> bool" where
  "client_program k [] = True"
| "client_program k (Submit # cs) = client_program (k + 1) cs"
| "client_program k (Get j # cs) = (j < k \<and> client_program k cs)"
| "client_program k (c # cs) = False"

definition num_tasks :: "client_op list \<Rightarrow> nat" where
  "num_tasks prog = length (filter (\<lambda>c. c = Submit) prog)"

text \<open>The world of main: the results that the futures hold and the shared counter.\<close>

record thread_pool_world =
  results :: "nat \<Rightarrow> int option"
  counter :: int

definition main_body :: "nat \<Rightarrow> thread_pool_world \<Rightarrow> thread_pool_world" where
  "main_body t w = (if t < 20 then w\<lparr>results := (results w)(t \<mapsto> int t * int t)\<rparr> else w\<lparr>counter := counter w + 1\<rparr>)"

definition main_program :: "client_op list" where
  "main_program = replicate 20 Submit @ map Get [0..<20] @ replicate 100 Submit @ map Get [20..<120]"

text \<open>The assertions of main and the two numbers it prints.\<close>

definition main_result :: "thread_pool_world \<Rightarrow> (int \<times> int) ub" where
  "main_result w = do {
     _ \<leftarrow> guard (list_all (\<lambda>i. results w i = Some (int i * int i)) [0..<20]);
     _ \<leftarrow> guard (counter w = 100);
     Some (sum_list (map (\<lambda>i. the (results w i)) [0..<20]), counter w) }"

section \<open>The invariant\<close>

fun task_of :: "worker \<Rightarrow> nat multiset" where
  "task_of (Running t) = {#t#}"
| "task_of _ = {#}"

definition running :: "worker list \<Rightarrow> nat multiset" where
  "running ws = sum_list (map task_of ws)"

lemma running_update: "i < length ws \<Longrightarrow> running (ws[i := w]) + task_of (ws ! i) = running ws + task_of w"
proof (induction ws arbitrary: i)
  case (Cons x ws)
  then show ?case by (cases i) (auto simp: running_def ac_simps)
qed simp

lemma task_of_wake [simp]: "task_of (pool_wake w) = task_of w"
  by (simp add: pool_wake_def)

lemma running_wake [simp]: "running (map pool_wake ws) = running ws"
  by (simp add: running_def comp_def)

lemma running_none: "(\<And>i. i < length ws \<Longrightarrow> task_of (ws ! i) = {#}) \<Longrightarrow> running ws = {#}"
  unfolding running_def by (induction ws) (force simp: nth_Cons split: nat.splits)+

definition pool_data :: "(nat \<Rightarrow> 'w \<Rightarrow> 'w) \<Rightarrow> 'w \<Rightarrow> 'w pool_system \<Rightarrow> bool" where
  "pool_data body w s \<longleftrightarrow>
     started s @ tasks s = [0..<submitted s] \<and> mset (started s) = mset (finished s) + running (workers s) \<and>
     world s = fold body (finished s) w"

text \<open>Where the client is: in its program, after the destructor set stop, or at its joins.\<close>

definition client_ok :: "nat \<Rightarrow> client_op list \<Rightarrow> 'w pool_system \<Rightarrow> bool" where
  "client_ok n prog s \<longleftrightarrow>
     (\<exists>p. (client s = p @ shutdown n \<or> client s = Notify_one # p @ shutdown n) \<and> client_program (submitted s) p \<and>
        submitted s + num_tasks p = num_tasks prog \<and> \<not> stop s) \<or>
     (submitted s = num_tasks prog \<and> stop s \<and>
       (client s = Notify_all # map Join [0..<n] \<or>
        (\<exists>j. client s = map Join [j..<n]) \<and> Waiting \<notin> set (workers s)))"

definition about_to_notify :: "client_op list \<Rightarrow> bool" where
  "about_to_notify cs \<longleftrightarrow> cs \<noteq> [] \<and> (hd cs = Notify_one \<or> hd cs = Notify_all)"

definition busy :: "worker \<Rightarrow> bool" where
  "busy w \<longleftrightarrow> w \<noteq> Waiting \<and> w \<noteq> Exited"

definition pool_sync :: "nat \<Rightarrow> 'w pool_system \<Rightarrow> bool" where
  "pool_sync n s \<longleftrightarrow>
     length (workers s) = n \<and> (Exited \<in> set (workers s) \<longrightarrow> stop s \<and> tasks s = []) \<and>
     (Waiting \<in> set (workers s) \<and> tasks s \<noteq> [] \<longrightarrow> about_to_notify (client s) \<or> (\<exists>w \<in> set (workers s). busy w))"

lemma busy_update: "i < length ws \<Longrightarrow> busy y \<Longrightarrow> \<exists>w \<in> set (ws[i := y]). busy w"
  by (meson set_update_memI)

lemma pool_data_worker:
  "pool_data body w s \<Longrightarrow> i < length (workers s) \<Longrightarrow> task_of (workers s ! i) = task_of y \<Longrightarrow>
   pool_data body w (s\<lparr>workers := (workers s)[i := y]\<rparr>)"
  using running_update [of i "workers s" y] by (simp add: pool_data_def)

lemma pool_data_client: "pool_data body w (s\<lparr>client := cs\<rparr>) = pool_data body w s"
  by (simp add: pool_data_def)

lemma pool_data_turn:
  assumes "pool_data body w s" and "i < length (workers s)" and "workers s ! i = Awake"
  shows "pool_data body w (worker_turn i s)"
proof (cases "tasks s")
  case Nil
  then show ?thesis using pool_data_worker [OF assms(1,2)] assms(3) by (simp add: worker_turn_def)
next
  case (Cons t ts)
  then show ?thesis
    using assms running_update [OF assms(2), of "Running t"] by (simp add: worker_turn_def pool_data_def)
qed

lemma pool_data_run:
  assumes "pool_data body w s" and "i < length (workers s)" and "workers s ! i = Running t"
  shows "pool_data body w (run_task body i t s)"
  using assms running_update [OF assms(2), of Awake] by (simp add: run_task_def pool_data_def)

lemma client_ok_worker:
  "client_ok n prog s \<Longrightarrow> y \<noteq> Waiting \<or> \<not> stop s \<Longrightarrow> client_ok n prog (s\<lparr>workers := (workers s)[i := y]\<rparr>)"
  unfolding client_ok_def by (auto dest!: in_update)

lemma pool_sync_worker:
  assumes "pool_sync n s" and "i < length (workers s)" and "busy y" and "workers s ! i \<noteq> Exited"
  shows "pool_sync n (s\<lparr>workers := (workers s)[i := y]\<rparr>)"
  using assms busy_update [OF assms(2,3)] by (auto simp: pool_sync_def busy_def dest!: in_update)

definition in_program :: "nat \<Rightarrow> nat \<Rightarrow> nat \<Rightarrow> client_op list \<Rightarrow> bool" where
  "in_program n goal_count k cs \<longleftrightarrow> (\<exists>p. cs = p @ shutdown n \<and> client_program k p \<and> k + num_tasks p = goal_count)"

fun client_head :: "nat \<Rightarrow> nat \<Rightarrow> 'w pool_system \<Rightarrow> client_op \<Rightarrow> client_op list \<Rightarrow> bool" where
  "client_head n goal_count s Submit cs \<longleftrightarrow> \<not> stop s \<and> in_program n goal_count (submitted s + 1) cs"
| "client_head n goal_count s Notify_one cs \<longleftrightarrow> \<not> stop s \<and> in_program n goal_count (submitted s) cs"
| "client_head n goal_count s (Get j) cs \<longleftrightarrow> \<not> stop s \<and> in_program n goal_count (submitted s) cs \<and> j < submitted s"
| "client_head n goal_count s Stop cs \<longleftrightarrow> \<not> stop s \<and> cs = Notify_all # map Join [0..<n] \<and> submitted s = goal_count"
| "client_head n goal_count s Notify_all cs \<longleftrightarrow> stop s \<and> cs = map Join [0..<n] \<and> submitted s = goal_count"
| "client_head n goal_count s (Join i) cs \<longleftrightarrow> stop s \<and> (\<exists>j. cs = map Join [j..<n]) \<and> i < n \<and> Waiting \<notin> set (workers s) \<and> submitted s = goal_count"

lemma program_head:
  "p @ shutdown n = c # cs \<Longrightarrow> client_program (submitted s) p \<Longrightarrow> submitted s + num_tasks p = goal_count \<Longrightarrow> \<not> stop s \<Longrightarrow>
   client_head n goal_count s c cs"
  by (cases p; cases c) (auto simp: shutdown_def in_program_def num_tasks_def)

lemma client_ok_head:
  assumes "client_ok n prog s" and "client s = c # cs"
  shows "client_head n (num_tasks prog) s c cs"
  using assms(1) unfolding client_ok_def
proof (elim disjE exE conjE)
  fix p assume "client s = p @ shutdown n" "client_program (submitted s) p" "submitted s + num_tasks p = num_tasks prog" "\<not> stop s"
  then show ?thesis using program_head [of p n c cs s] assms(2) by simp
next
  fix p assume "client s = Notify_one # p @ shutdown n" "client_program (submitted s) p" "submitted s + num_tasks p = num_tasks prog" "\<not> stop s"
  then show ?thesis using assms(2) by (auto simp: in_program_def)
next
  assume "submitted s = num_tasks prog" "stop s" "client s = Notify_all # map Join [0..<n]"
  then show ?thesis using assms(2) by auto
next
  fix j assume "submitted s = num_tasks prog" "stop s" "client s = map Join [j..<n]" "Waiting \<notin> set (workers s)"
  then show ?thesis using assms(2) by (cases "j < n") (auto simp: upt_conv_Cons)
qed

lemma client_ok_program:
  "in_program n (num_tasks prog) (submitted s) cs \<Longrightarrow> \<not> stop s \<Longrightarrow>
   client_ok n prog (s\<lparr>client := cs\<rparr>) \<and> client_ok n prog (s\<lparr>client := Notify_one # cs\<rparr>)"
  by (auto simp: client_ok_def in_program_def)

lemma pool_sync_client:
  "pool_sync n s \<Longrightarrow> \<not> about_to_notify (client s) \<Longrightarrow> pool_sync n (s\<lparr>client := cs\<rparr>)"
  by (auto simp: pool_sync_def)

lemma wake_set: "Waiting \<notin> pool_wake ` A" "Exited \<in> pool_wake ` A \<longleftrightarrow> Exited \<in> A"
  by (auto simp: pool_wake_def image_iff)

lemma pool_sync_turn:
  assumes "pool_sync n s" and "i < length (workers s)" and "workers s ! i = Awake"
  shows "pool_sync n (worker_turn i s)"
proof (cases "tasks s")
  case Nil
  then show ?thesis using assms by (auto simp: worker_turn_def pool_sync_def dest!: in_update)
next
  case (Cons t ts)
  have "\<exists>w \<in> set ((workers s)[i := Running t]). busy w" using assms(2) by (intro busy_update) (simp_all add: busy_def)
  then show ?thesis using assms Cons by (auto simp: worker_turn_def pool_sync_def dest!: in_update)
qed

lemma client_ok_turn:
  assumes "client_ok n prog s"
  shows "client_ok n prog (worker_turn i s)"
proof (cases "\<not> (stop s \<or> tasks s \<noteq> [])")
  case True
  then show ?thesis using client_ok_worker [OF assms, of Waiting i] by (simp add: worker_turn_def)
next
  case False
  then show ?thesis using assms unfolding worker_turn_def client_ok_def
    by (auto dest!: in_update split: list.splits)
qed

lemma client_ok_run:
  assumes "client_ok n prog s"
  shows "client_ok n prog (run_task body i t s)"
  using client_ok_worker [OF assms, of Awake i] by (simp add: run_task_def client_ok_def)

lemma pool_step_inv:
  assumes "pool_step body s r" and data: "pool_data body w s" and client: "client_ok n prog s" and sync: "pool_sync n s"
  shows "\<exists>s'. r = Some s' \<and> pool_data body w s' \<and> client_ok n prog s' \<and> pool_sync n s'"
  using assms(1)
proof (cases rule: pool_step.cases)
  case (submit cs)
  then have h: "\<not> stop s" "in_program n (num_tasks prog) (submitted s + 1) cs"
    using client_ok_head [OF client, of Submit cs] by simp_all
  define s' where "s' = s\<lparr>tasks := tasks s @ [submitted s], submitted := submitted s + 1\<rparr>"
  have "client_ok n prog (s'\<lparr>client := Notify_one # cs\<rparr>)"
    using client_ok_program [of n prog s' cs] h by (simp add: s'_def)
  moreover have "pool_sync n (s'\<lparr>client := Notify_one # cs\<rparr>)"
    using sync h(1) by (auto simp: pool_sync_def s'_def about_to_notify_def)
  moreover have "pool_data body w (s'\<lparr>client := Notify_one # cs\<rparr>)"
    using data by (simp add: pool_data_def s'_def flip: append_assoc)
  ultimately show ?thesis using submit h(1) by (simp add: submit_task_def s'_def)
next
  case (notify_one cs i)
  then have h: "\<not> stop s" "in_program n (num_tasks prog) (submitted s) cs"
    using client_ok_head [OF client, of Notify_one cs] by simp_all
  define s' where "s' = s\<lparr>client := cs\<rparr>"
  have "client_ok n prog (s'\<lparr>workers := (workers s')[i := Awake]\<rparr>)"
    using client_ok_program [OF h(2,1)] client_ok_worker [of n prog s' Awake i] by (simp add: s'_def)
  moreover have "pool_data body w (s'\<lparr>workers := (workers s')[i := Awake]\<rparr>)"
    using data notify_one by (intro pool_data_worker) (simp_all add: s'_def pool_data_client)
  moreover have "\<exists>x \<in> set ((workers s)[i := Awake]). busy x"
    using notify_one(3) by (rule busy_update) (simp add: busy_def)
  then have "pool_sync n (s'\<lparr>workers := (workers s')[i := Awake]\<rparr>)"
    using sync by (auto simp: pool_sync_def s'_def dest!: in_update)
  ultimately show ?thesis using notify_one by (simp add: s'_def)
next
  case (notify_none cs)
  then have "\<not> stop s" "in_program n (num_tasks prog) (submitted s) cs"
    using client_ok_head [OF client, of Notify_one cs] by simp_all
  moreover have "pool_sync n (s\<lparr>client := cs\<rparr>)" using sync notify_none by (simp add: pool_sync_def)
  ultimately show ?thesis using notify_none data client_ok_program [of n prog s cs] by (simp add: pool_data_client)
next
  case (get j cs)
  then have "\<not> stop s" "in_program n (num_tasks prog) (submitted s) cs"
    using client_ok_head [OF client, of "Get j" cs] by simp_all
  moreover have "pool_sync n (s\<lparr>client := cs\<rparr>)" using get by (intro pool_sync_client [OF sync]) (simp add: about_to_notify_def)
  ultimately show ?thesis using get data client_ok_program [of n prog s cs] by (simp add: pool_data_client)
next
  case (stop cs)
  then have h: "cs = Notify_all # map Join [0..<n]" "submitted s = num_tasks prog"
    using client_ok_head [OF client, of Stop cs] by simp_all
  have "pool_sync n (s\<lparr>client := cs, stop := True\<rparr>)" using sync h(1) by (auto simp: pool_sync_def about_to_notify_def)
  then show ?thesis using stop data h by (simp add: pool_data_def client_ok_def)
next
  case (notify_all cs)
  then have h: "stop s" "cs = map Join [0..<n]" "submitted s = num_tasks prog"
    using client_ok_head [OF client, of Notify_all cs] by simp_all
  have "pool_sync n (s\<lparr>client := cs, workers := map pool_wake (workers s)\<rparr>)" using sync by (auto simp: pool_sync_def wake_set)
  moreover have "client_ok n prog (s\<lparr>client := cs, workers := map pool_wake (workers s)\<rparr>)"
    using h by (auto simp: client_ok_def wake_set)
  ultimately show ?thesis using notify_all data by (simp add: pool_data_def)
next
  case (join i cs)
  then have h: "stop s" "\<exists>j. cs = map Join [j..<n]" "Waiting \<notin> set (workers s)" "submitted s = num_tasks prog"
    using client_ok_head [OF client, of "Join i" cs] by simp_all
  have "pool_sync n (s\<lparr>client := cs\<rparr>)" using join by (intro pool_sync_client [OF sync]) (simp add: about_to_notify_def)
  then show ?thesis using join data h by (auto simp: pool_data_client client_ok_def)
next
  case (turn i)
  then show ?thesis using pool_data_turn [OF data] client_ok_turn [OF client] pool_sync_turn [OF sync] by blast
next
  case (execute i t)
  have "pool_sync n (s\<lparr>workers := (workers s)[i := Awake]\<rparr>)"
    using execute by (intro pool_sync_worker [OF sync]) (simp_all add: busy_def)
  then have "pool_sync n (run_task body i t s)" by (simp add: run_task_def pool_sync_def)
  then show ?thesis using execute pool_data_run [OF data] client_ok_run [OF client] by blast
qed

lemma pool_reach_inv:
  assumes "pool_reach body prog n w r" and "client_program 0 prog"
  shows "\<exists>s. r = Some s \<and> pool_data body w s \<and> client_ok n prog s \<and> pool_sync n s"
  using assms(1)
proof (induction rule: pool_reach.induct)
  case start
  have "pool_data body w (start_pool prog n w)"
    using running_none [of "replicate n Awake"] by (simp add: pool_data_def start_pool_def)
  moreover have "client_ok n prog (start_pool prog n w)"
    unfolding client_ok_def start_pool_def using assms(2) by (intro disjI1 exI [of _ prog]) simp
  moreover have "pool_sync n (start_pool prog n w)" by (auto simp: pool_sync_def start_pool_def)
  ultimately show ?case by blast
next
  case (step s r)
  then have inv: "pool_data body w s" "client_ok n prog s" "pool_sync n s" by auto
  from step.hyps(2) show ?case
  proof
    assume "pool_step body s r"
    then show ?thesis by (rule pool_step_inv [OF _ inv])
  next
    assume "spurious_wakeup s r"
    then show ?thesis
    proof (cases rule: spurious_wakeup.cases)
      case (spurious i)
      have "pool_data body w (s\<lparr>workers := (workers s)[i := Awake]\<rparr>)"
        using spurious by (intro pool_data_worker [OF inv(1)]) simp_all
      moreover have "pool_sync n (s\<lparr>workers := (workers s)[i := Awake]\<rparr>)"
        using spurious by (intro pool_sync_worker [OF inv(3)]) (simp_all add: busy_def)
      ultimately show ?thesis using spurious client_ok_worker [OF inv(2), of Awake i] by blast
    qed
  qed
qed

text \<open>
  C18: in no interleaving of the workers with a client that submits tasks and gets their futures does
  submit throw; tasks are started in the order of their submission, every started task is running or
  has been done, none twice, and the world is what the done tasks made of it one after the other.
\<close>
theorem thread_pool_runs_each_task_once:
  assumes "pool_reach body prog n w r" and "client_program 0 prog"
  shows "\<exists>s. r = Some s \<and> started s @ tasks s = [0..<submitted s] \<and>
    mset (started s) = mset (finished s) + running (workers s) \<and> distinct (finished s) \<and>
    world s = fold body (finished s) w"
proof -
  obtain s where s: "r = Some s" "pool_data body w s" using pool_reach_inv [OF assms] by blast
  have "distinct (started s @ tasks s)" using s(2) by (simp add: pool_data_def)
  then have "distinct (started s)" by simp
  moreover obtain ys where "mset ys = running (workers s)" using ex_mset by blast
  then have "mset (started s) = mset (finished s @ ys)" using s(2) by (simp add: pool_data_def)
  ultimately have "distinct (finished s @ ys)" using mset_eq_imp_distinct_iff by blast
  then have "distinct (finished s)" by simp
  then show ?thesis using s by (simp add: pool_data_def)
qed

lemma thread_pool_runs_each_task_once_witness:
  "\<exists>s. submit_task ([Get 0] @ shutdown 1) (start_pool [Submit, Get 0] 1 (0 :: int)) = Some s \<and>
    started s @ tasks s = [0..<submitted s] \<and>
    mset (started s) = mset (finished s) + running (workers s) \<and> distinct (finished s) \<and>
    world s = fold (\<lambda>t x. x + 1) (finished s) 0"
  by (rule thread_pool_runs_each_task_once
      [OF pool_reach.step [where prog = "[Submit, Get 0]" and n = 1, OF pool_reach.start disjI1 [OF pool_step.submit]]])
    (simp_all add: start_pool_def)

section \<open>Every run ends, and ends with all tasks done\<close>

definition pool_finished :: "client_op list \<Rightarrow> 'w pool_system \<Rightarrow> bool" where
  "pool_finished prog s \<longleftrightarrow>
     client s = [] \<and> set (workers s) \<subseteq> {Exited} \<and> mset (finished s) = mset [0..<num_tasks prog]"

lemma idle_tasks_done:
  assumes data: "pool_data body w s" and idle: "\<forall>x \<in> set (workers s). \<not> busy x" and "tasks s = []"
  shows "mset (finished s) = mset [0..<submitted s]"
proof -
  have "task_of (workers s ! i) = {#}" if "i < length (workers s)" for i
    using idle that nth_mem [of i "workers s"] by (cases "workers s ! i") (auto simp: busy_def)
  then have "running (workers s) = {#}" by (rule running_none)
  then have b: "mset (started s) = mset (finished s)" using data by (simp add: pool_data_def)
  have a: "started s = [0..<submitted s]" using data assms(3) by (simp add: pool_data_def)
  show ?thesis by (simp only: b [symmetric] a)
qed

lemma stuck_pool_finished:
  assumes data: "pool_data body w s" and client: "client_ok n prog s" and sync: "pool_sync n s"
    and n: "0 < n" and stuck: "\<And>r. \<not> pool_step body s r"
  shows "pool_finished prog s"
proof -
  have idle: "\<forall>x \<in> set (workers s). \<not> busy x"
  proof
    fix x assume "x \<in> set (workers s)"
    then obtain i where "i < length (workers s)" "workers s ! i = x" by (auto simp: in_set_conv_nth)
    then show "\<not> busy x" using stuck pool_step.turn pool_step.execute by (cases x) (auto simp: busy_def, blast+)
  qed
  have ne: "workers s \<noteq> []" using sync n by (auto simp: pool_sync_def)
  have cases': "Waiting \<in> set (workers s) \<or> set (workers s) \<subseteq> {Exited}"
    using idle by (auto simp: busy_def)
  have no_notify: "\<not> about_to_notify (client s)"
    using stuck pool_step.notify_one pool_step.notify_none pool_step.notify_all
    by (cases "client s") (auto simp: about_to_notify_def in_set_conv_nth, blast+)
  have "tasks s = []"
  proof (cases "Waiting \<in> set (workers s)")
    case True
    then show ?thesis using sync no_notify idle unfolding pool_sync_def by blast
  next
    case False
    then have "Exited \<in> set (workers s)" using cases' ne by (cases "workers s") auto
    then show ?thesis using sync by (simp add: pool_sync_def)
  qed
  then have all: "mset (finished s) = mset [0..<submitted s]" by (rule idle_tasks_done [OF data idle])
  have "client s = []"
  proof (rule ccontr)
    assume "client s \<noteq> []"
    then obtain c cs where c: "client s = c # cs" by (cases "client s") auto
    note head = client_ok_head [OF client c]
    show False
    proof (cases c)
      case Submit
      then show ?thesis using c stuck pool_step.submit by blast
    next
      case (Get j)
      then have "j \<in> set (finished s)" using head mset_eq_setD [OF all] by simp
      then show ?thesis using c Get stuck pool_step.get by blast
    next
      case Stop
      then show ?thesis using c stuck pool_step.stop by blast
    next
      case (Join i)
      then have "i < length (workers s)" "Waiting \<notin> set (workers s)" using head sync by (simp_all add: pool_sync_def)
      then have "workers s ! i = Exited" using cases' nth_mem by blast
      then show ?thesis using c Join stuck pool_step.join \<open>i < length (workers s)\<close> by blast
    qed (use no_notify c in \<open>simp_all add: about_to_notify_def\<close>)
  qed
  then have "submitted s = num_tasks prog" "Waiting \<notin> set (workers s)"
    using client unfolding client_ok_def by (auto simp: shutdown_def)
  then show ?thesis using \<open>client s = []\<close> cases' all by (simp add: pool_finished_def)
qed

fun client_weight :: "nat \<Rightarrow> client_op \<Rightarrow> nat" where
  "client_weight n Submit = 5"
| "client_weight n Notify_one = 2"
| "client_weight n Notify_all = n + 1"
| "client_weight n _ = 1"

fun worker_weight :: "worker \<Rightarrow> nat" where
  "worker_weight (Running t) = 2"
| "worker_weight Awake = 1"
| "worker_weight _ = 0"

definition pool_work :: "'w pool_system \<Rightarrow> nat" where
  "pool_work s = weigh (client_weight (length (workers s))) (client s) + weigh worker_weight (workers s) + 2 * length (tasks s)"

lemma weigh_Cons: "weigh f (x # xs) = f x + weigh f xs"
  by (simp add: weigh_def)

lemma worker_weight_wake: "weigh worker_weight (map pool_wake ws) \<le> weigh worker_weight ws + length ws"
proof (induction ws)
  case (Cons x ws)
  then show ?case by (cases x) (auto simp: weigh_Cons pool_wake_def)
qed (simp add: weigh_def)

lemma pool_step_work: "pool_step body s (Some s') \<Longrightarrow> pool_work s' < pool_work s"
proof (erule pool_step.cases)
  fix s2 :: "'a pool_system" and i
  assume "s = s2" "Some s' = Some (worker_turn i s2)" "i < length (workers s2)" "workers s2 ! i = Awake"
  then show ?thesis
    using weigh_update [of i "workers s2" worker_weight Waiting] weigh_update [of i "workers s2" worker_weight Exited]
      weigh_update [of i "workers s2" worker_weight "Running (hd (tasks s2))"]
    by (auto simp: worker_turn_def pool_work_def split: list.splits)
next
  fix s2 :: "'a pool_system" and i t
  assume "s = s2" "Some s' = Some (run_task body i t s2)" "i < length (workers s2)" "workers s2 ! i = Running t"
  then show ?thesis using weigh_update [of i "workers s2" worker_weight Awake] by (simp add: run_task_def pool_work_def)
next
  fix s2 :: "'a pool_system" and cs i
  assume "s = s2" "Some s' = Some (s2\<lparr>client := cs, workers := (workers s2)[i := Awake]\<rparr>)"
    "client s2 = Notify_one # cs" "i < length (workers s2)" "workers s2 ! i = Waiting"
  then show ?thesis using weigh_update [of i "workers s2" worker_weight Awake] by (simp add: pool_work_def weigh_Cons)
next
  fix s2 :: "'a pool_system" and cs
  assume "s = s2" "Some s' = Some (s2\<lparr>client := cs, workers := map pool_wake (workers s2)\<rparr>)" "client s2 = Notify_all # cs"
  then show ?thesis using worker_weight_wake [of "workers s2"] by (simp add: pool_work_def weigh_Cons)
qed (auto simp: submit_task_def pool_work_def weigh_Cons split: if_splits)

text \<open>A run of two kinds of steps, the first of which ends, goes on for ever only by infinitely many of the second.\<close>

lemma endless_only_by:
  assumes "wf {(s', s). R s s'}" and "\<And>i :: nat. R (f i) (f (Suc i)) \<or> Q (f i) (f (Suc i))"
  shows "infinite {i. Q (f i) (f (Suc i))}"
proof
  assume "finite {i. Q (f i) (f (Suc i))}"
  then obtain m where m: "\<forall>i \<in> {i. Q (f i) (f (Suc i))}. i < m" using finite_nat_set_iff_bounded by blast
  have "(f (Suc (m + i)), f (m + i)) \<in> {(s', s). R s s'}" for i using assms(2) [of "m + i"] m by auto
  then have "\<exists>g. \<forall>i. (g (Suc i), g i) \<in> {(s', s). R s s'}" by (intro exI [of _ "\<lambda>i. f (m + i)"]) simp
  then show False using assms(1) unfolding wf_iff_no_infinite_down_chain by blast
qed

text \<open>
  C7: for a pool with at least one worker and a client that submits tasks and waits only for tasks it has submitted: without
  spurious wakeups every run ends, and a run goes on for ever only if spurious wakeups do; a state in which no thread
  can move is the one where the client has passed all its waits and joins, every worker has returned
  and every submitted task has been done exactly once: no wakeup is lost between the unlock of the
  mutex and the notification.
\<close>
theorem thread_pool_completes:
  fixes body :: "nat \<Rightarrow> 'w \<Rightarrow> 'w"
  assumes "0 < n" and "client_program 0 prog"
  shows "wf {(s', s :: 'w pool_system). pool_step body s (Some s')} \<and>
    (\<forall>f :: nat \<Rightarrow> 'w pool_system. (\<forall>i. pool_step body (f i) (Some (f (Suc i))) \<or> spurious_wakeup (f i) (Some (f (Suc i)))) \<longrightarrow>
      infinite {i. spurious_wakeup (f i) (Some (f (Suc i)))}) \<and>
    (\<forall>s. pool_reach body prog n w (Some s) \<and> (\<forall>r. \<not> pool_step body s r) \<longrightarrow> pool_finished prog s)"
proof (intro conjI)
  have "{(s', s :: 'w pool_system). pool_step body s (Some s')} \<subseteq> measure pool_work" using pool_step_work by auto
  then show wf: "wf {(s', s :: 'w pool_system). pool_step body s (Some s')}" by (rule wf_subset [OF wf_measure])
  show "\<forall>f :: nat \<Rightarrow> 'w pool_system. (\<forall>i. pool_step body (f i) (Some (f (Suc i))) \<or> spurious_wakeup (f i) (Some (f (Suc i)))) \<longrightarrow>
      infinite {i. spurious_wakeup (f i) (Some (f (Suc i)))}"
    using endless_only_by [OF wf, where Q = "\<lambda>s s'. spurious_wakeup s (Some s')"] by blast
  show "\<forall>s. pool_reach body prog n w (Some s) \<and> (\<forall>r. \<not> pool_step body s r) \<longrightarrow> pool_finished prog s"
    using pool_reach_inv [OF _ assms(2)] stuck_pool_finished [OF _ _ _ assms(1)] by (metis option.inject)
qed

definition one_task_state ::
  "nat list \<Rightarrow> bool \<Rightarrow> worker \<Rightarrow> client_op list \<Rightarrow> nat \<Rightarrow> nat list \<Rightarrow> nat list \<Rightarrow> unit pool_system" where
  "one_task_state ts st wk cs k go done' =
     \<lparr>tasks = ts, stop = st, workers = [wk], client = cs, submitted = k, started = go, finished = done', world = ()\<rparr>"

lemma one_task_run:
  fixes body :: "nat \<Rightarrow> unit \<Rightarrow> unit"
  shows "pool_reach body [Submit, Get 0] 1 () (Some (one_task_state [] True Exited [] 1 [0] [0]))"
proof -
  note go = pool_reach.step [where prog = "[Submit, Get 0]" and n = 1 and body = body and w = "()", OF _ disjI1]
  let ?final = "[Stop, Notify_all, Join 0]"
  have "pool_reach body [Submit, Get 0] 1 () (Some (one_task_state [] False Awake (Submit # Get 0 # ?final) 0 [] []))"
    using pool_reach.start [of body "[Submit, Get 0]" 1 "()"] by (simp add: start_pool_def one_task_state_def shutdown_def)
  then have "pool_reach body [Submit, Get 0] 1 () (Some (one_task_state [0] False Awake (Notify_one # Get 0 # ?final) 1 [] []))"
    by (rule go) (use pool_step.submit [of "one_task_state [] False Awake (Submit # Get 0 # ?final) 0 [] []" "Get 0 # ?final" body]
        in \<open>simp add: one_task_state_def submit_task_def\<close>)
  then have "pool_reach body [Submit, Get 0] 1 () (Some (one_task_state [0] False Awake (Get 0 # ?final) 1 [] []))"
    by (rule go) (use pool_step.notify_none [of "one_task_state [0] False Awake (Notify_one # Get 0 # ?final) 1 [] []" "Get 0 # ?final" body]
        in \<open>simp add: one_task_state_def\<close>)
  then have "pool_reach body [Submit, Get 0] 1 () (Some (one_task_state [] False (Running 0) (Get 0 # ?final) 1 [0] []))"
    by (rule go) (use pool_step.turn [of 0 "one_task_state [0] False Awake (Get 0 # ?final) 1 [] []" body]
        in \<open>simp add: one_task_state_def worker_turn_def\<close>)
  then have "pool_reach body [Submit, Get 0] 1 () (Some (one_task_state [] False Awake (Get 0 # ?final) 1 [0] [0]))"
    by (rule go) (use pool_step.execute [of 0 "one_task_state [] False (Running 0) (Get 0 # ?final) 1 [0] []" 0 body]
        in \<open>simp add: one_task_state_def run_task_def\<close>)
  then have "pool_reach body [Submit, Get 0] 1 () (Some (one_task_state [] False Awake ?final 1 [0] [0]))"
    by (rule go) (use pool_step.get [of "one_task_state [] False Awake (Get 0 # ?final) 1 [0] [0]" 0 ?final body]
        in \<open>simp add: one_task_state_def\<close>)
  then have "pool_reach body [Submit, Get 0] 1 () (Some (one_task_state [] True Awake [Notify_all, Join 0] 1 [0] [0]))"
    by (rule go) (use pool_step.stop [of "one_task_state [] False Awake ?final 1 [0] [0]" "[Notify_all, Join 0]" body]
        in \<open>simp add: one_task_state_def\<close>)
  then have "pool_reach body [Submit, Get 0] 1 () (Some (one_task_state [] True Awake [Join 0] 1 [0] [0]))"
    by (rule go) (use pool_step.notify_all [of "one_task_state [] True Awake [Notify_all, Join 0] 1 [0] [0]" "[Join 0]" body]
        in \<open>simp add: one_task_state_def pool_wake_def\<close>)
  then have "pool_reach body [Submit, Get 0] 1 () (Some (one_task_state [] True Exited [Join 0] 1 [0] [0]))"
    by (rule go) (use pool_step.turn [of 0 "one_task_state [] True Awake [Join 0] 1 [0] [0]" body]
        in \<open>simp add: one_task_state_def worker_turn_def\<close>)
  then show ?thesis
    by (rule go) (use pool_step.join [of "one_task_state [] True Exited [Join 0] 1 [0] [0]" 0 "[]" body]
        in \<open>simp add: one_task_state_def\<close>)
qed

lemma thread_pool_completes_witness:
  "pool_finished [Submit, Get 0] (one_task_state [] True Exited [] 1 [0] [0])"
proof -
  have "\<not> pool_step (\<lambda>t w. w) (one_task_state [] True Exited [] 1 [0] [0]) r" for r
    by (auto elim!: pool_step.cases simp: one_task_state_def)
  then show ?thesis
    using thread_pool_completes [of 1 "[Submit, Get 0]" "\<lambda>t w. w" "()"] one_task_run by simp
qed

section \<open>main\<close>

text \<open>The tasks of main commute: whatever the order in which they were done, its assertions hold.\<close>

lemma main_bodies:
  "results (fold main_body ts w) t = (if t \<in> set ts \<and> t < 20 then Some (int t * int t) else results w t) \<and>
   counter (fold main_body ts w) = counter w + int (length (filter (\<lambda>t. 20 \<le> t) ts))"
  by (induction ts arbitrary: w) (auto simp: main_body_def)

lemma main_program_ok: "client_program 0 main_program" "num_tasks main_program = 120"
  by code_simp+

lemma main_result_finished:
  assumes "mset ts = mset [0..<120]"
  shows "main_result (fold main_body ts \<lparr>results = Map.empty, counter = 0\<rparr>) = Some (2470, 100)"
proof -
  have "set ts = {0..<120}" using mset_eq_setD [OF assms] by simp
  then have r: "t < 20 \<Longrightarrow> results (fold main_body ts \<lparr>results = Map.empty, counter = 0\<rparr>) t = Some (int t * int t)" for t
    by (simp add: main_bodies)
  have "mset (filter (\<lambda>t. 20 \<le> t) ts) = filter_mset (\<lambda>t. 20 \<le> t) (mset [0..<120])" using assms by simp
  then have "length (filter (\<lambda>t. 20 \<le> t) ts) = length (filter (\<lambda>t. 20 \<le> t) [0..<120 :: nat])"
    by (metis mset_filter size_mset)
  also have "\<dots> = 100" by code_simp
  finally have c: "counter (fold main_body ts \<lparr>results = Map.empty, counter = 0\<rparr>) = 100" by (simp add: main_bodies)
  have "sum_list (map (\<lambda>i. the (results (fold main_body ts \<lparr>results = Map.empty, counter = 0\<rparr>) i)) [0..<20]) =
      sum_list (map (\<lambda>i. int i * int i) [0..<20])"
    by (intro arg_cong [where f = sum_list] map_cong) (simp_all add: r)
  also have "\<dots> = 2470" by code_simp
  finally show ?thesis using r c by (simp add: main_result_def guard_def list_all_iff)
qed

lemma thread_pool_main:
  assumes "pool_reach main_body main_program 4 \<lparr>results = Map.empty, counter = 0\<rparr> (Some s)"
    and "\<And>r. \<not> pool_step main_body s r"
  shows "main_result (world s) = Some (2470, 100)"
proof -
  have inv: "pool_data main_body \<lparr>results = Map.empty, counter = 0\<rparr> s" "client_ok 4 main_program s" "pool_sync 4 s"
    using pool_reach_inv [OF assms(1) main_program_ok(1)] by simp_all
  have "pool_finished main_program s" by (rule stuck_pool_finished [OF inv _ assms(2)]) simp
  then show ?thesis using inv(1) main_result_finished main_program_ok(2) by (simp add: pool_finished_def pool_data_def)
qed

end
