(* ===== verification/Constexpr_Functions.thy ===== *)
theory Constexpr_Functions
  imports Error_Handling "HOL-Library.Word"
begin

unbundle bit_operations_syntax

text \<open>
  src/src/modern_cpp/practical/compile_time_programming.cpp and src/src/modern_cpp/constexpr_consteval.cpp:
  the functions that the compiler evaluates, with the static and the run-time assertions of both
  mains. An overflow is undefined (None), as it is in a constant expression; the unsigned hashes are
  words. char is signed, as on the usual targets. Doubles are rationals.
\<close>

section \<open>Loops on int and long long\<close>

function factorial_loop :: "int \<Rightarrow> int \<Rightarrow> int \<Rightarrow> int ub" where
  "factorial_loop i n result =
     (if i \<le> n then do { r \<leftarrow> chk (result * i); factorial_loop (i + 1) n r } else Some result)"
  by pat_completeness auto

termination factorial_loop
  by (relation "measure (\<lambda>(i, n, r). nat (n + 1 - i))") auto

declare factorial_loop.simps [simp del]

definition factorial :: "int \<Rightarrow> int ub" where
  "factorial n = factorial_loop 2 n 1"

function fibonacci_loop :: "(int \<Rightarrow> int ub) \<Rightarrow> int \<Rightarrow> int \<Rightarrow> int \<Rightarrow> int \<Rightarrow> int ub" where
  "fibonacci_loop checked i n a b =
     (if i \<le> n then do { tmp \<leftarrow> checked (a + b); fibonacci_loop checked (i + 1) n b tmp } else Some b)"
  by pat_completeness auto

termination fibonacci_loop
  by (relation "measure (\<lambda>(ck, i, n, a, b). nat (n + 1 - i))") auto

declare fibonacci_loop.simps [simp del]

text \<open>The long long version and the int version.\<close>

definition fibonacci :: "int \<Rightarrow> int ub" where
  "fibonacci n = (if n \<le> 1 then Some n else fibonacci_loop chk_long 2 n 0 1)"

definition fibonacci_int :: "int \<Rightarrow> int ub" where
  "fibonacci_int n = (if n \<le> 1 then Some n else fibonacci_loop chk 2 n 0 1)"

fun fill_table :: "(int \<Rightarrow> int ub) \<Rightarrow> nat \<Rightarrow> int list ub" where
  "fill_table f 0 = Some []"
| "fill_table f (Suc k) = do { table \<leftarrow> fill_table f k; x \<leftarrow> f (int k); Some (table @ [x]) }"

definition generate_squares :: "int list ub" where
  "generate_squares = fill_table (\<lambda>i. chk (i * i)) 16"

definition generateFibTable :: "int list ub" where
  "generateFibTable = fill_table fibonacci_int 20"

definition compileTimeSquare :: "int \<Rightarrow> int ub" where
  "compileTimeSquare x = chk (x * x)"

section \<open>FNV-1a\<close>

definition char_value :: "char \<Rightarrow> int" where
  "char_value c = (let k = of_char c in if k < 128 then k else k - 256)"

definition fnv_step :: "'a::len word \<Rightarrow> char \<Rightarrow> 'a word \<Rightarrow> 'a word" where
  "fnv_step prime c hash = (hash XOR word_of_int (char_value c)) * prime"

text \<open>The conversion of the hash to int is the signed value of the word.\<close>

definition compile_time_hash :: "string \<Rightarrow> int" where
  "compile_time_hash sv = sint (fold (fnv_step 16777619) sv (2166136261 :: 32 word))"

definition fnv1a_hash :: "string \<Rightarrow> 64 word" where
  "fnv1a_hash str = fold (fnv_step 1099511628211) str 14695981039346656037"

section \<open>Branches on the type\<close>

datatype cpp_type = Signed_integral | Unsigned_integral | Floating_point | Pointer | Other

fun type_name :: "cpp_type \<Rightarrow> string" where
  "type_name Signed_integral = ''signed integer''"
| "type_name Unsigned_integral = ''unsigned integer''"
| "type_name Floating_point = ''floating point''"
| "type_name Pointer = ''pointer''"
| "type_name Other = ''other''"

datatype cpp_value = Int_value int | Bool_value bool | Double_value rat | String_value string

text \<open>is_arithmetic holds of bool as well.\<close>

fun is_arithmetic :: "cpp_value \<Rightarrow> bool" where
  "is_arithmetic (String_value s) = False"
| "is_arithmetic _ = True"

text \<open>std::to_string of a double prints six decimals, of a bool its value as an int.\<close>

definition show_double :: "rat \<Rightarrow> string" where
  "show_double x =
     (let n = \<lfloor>\<bar>x\<bar> * 1000000 + 1 / 2\<rfloor>; f = show_int (n mod 1000000) in
      (if x < 0 then ''-'' else []) @ show_int (n div 1000000) @ ''.'' @ replicate (6 - length f) (CHR ''0'') @ f)"

fun to_string :: "cpp_value \<Rightarrow> string" where
  "to_string (Int_value i) = show_int i"
| "to_string (Bool_value b) = (if b then ''1'' else ''0'')"
| "to_string (Double_value x) = show_double x"
| "to_string (String_value s) = s"

text \<open>The branches in the order of the source.\<close>

definition serialize :: "cpp_value \<Rightarrow> string ub" where
  "serialize v =
     (if is_arithmetic v then Some (to_string v)
      else case v of
          String_value s \<Rightarrow> Some ([CHR 0x22] @ s @ [CHR 0x22])
        | Bool_value b \<Rightarrow> Some (if b then ''true'' else ''false'')
        | _ \<Rightarrow> None)"

fun stringify :: "cpp_value \<Rightarrow> string" where
  "stringify (Int_value i) = to_string (Int_value i) @ '' (integral)''"
| "stringify (Bool_value b) = to_string (Bool_value b) @ '' (integral)''"
| "stringify (Double_value x) = to_string (Double_value x) @ '' (floating)''"
| "stringify (String_value s) = s"

section \<open>Constant classes\<close>

record config =
  port :: int
  max_connections :: int
  timeout_seconds :: int

definition is_valid :: "config \<Rightarrow> bool" where
  "is_valid c \<longleftrightarrow> port c > 0 \<and> port c < 65536 \<and> max_connections c > 0 \<and> max_connections c \<le> 10000 \<and> timeout_seconds c > 0"

definition DEFAULT_CONFIG :: config where
  "DEFAULT_CONFIG = \<lparr>port = 8080, max_connections = 100, timeout_seconds = 30\<rparr>"

record point =
  px :: rat
  py :: rat

definition distSquared :: "point \<Rightarrow> rat" where
  "distSquared p = px p * px p + py p * py p"

definition point_add :: "point \<Rightarrow> point \<Rightarrow> point" where
  "point_add p q = \<lparr>px = px p + px q, py = py p + py q\<rparr>"

section \<open>The mains with their assertions\<close>

definition compile_time_main :: "string list ub" where
  "compile_time_main = do {
     f5 \<leftarrow> factorial 5;
     f0 \<leftarrow> factorial 0;
     _ \<leftarrow> guard (f5 = 120 \<and> f0 = 1);
     _ \<leftarrow> guard (compile_time_hash ''GET'' \<noteq> compile_time_hash ''POST'');
     squares \<leftarrow> generate_squares;
     s4 \<leftarrow> vget squares 4;
     s10 \<leftarrow> vget squares 10;
     s7 \<leftarrow> vget squares 7;
     _ \<leftarrow> guard (s4 = 16 \<and> s10 = 100 \<and> s7 = 49);
     _ \<leftarrow> guard (is_valid DEFAULT_CONFIG);
     fib10 \<leftarrow> fibonacci 10;
     fib20 \<leftarrow> fibonacci 20;
     _ \<leftarrow> guard (fib10 = 55 \<and> fib20 = 6765);
     f10 \<leftarrow> factorial 10;
     a \<leftarrow> serialize (Int_value 42);
     b \<leftarrow> serialize (Double_value (314 / 100));
     c \<leftarrow> serialize (String_value ''hello'');
     fib30 \<leftarrow> fibonacci 30;
     Some ([show_int f10] @ map show_int (take 8 squares) @
       map type_name [Signed_integral, Unsigned_integral, Floating_point, Pointer] @ [a, b, c, show_int fib30]) }"

definition constexpr_main :: "string list ub" where
  "constexpr_main = do {
     f10 \<leftarrow> fibonacci_int 10;
     f0 \<leftarrow> fibonacci_int 0;
     f1 \<leftarrow> fibonacci_int 1;
     fib20 \<leftarrow> fibonacci_int 20;
     _ \<leftarrow> guard (f10 = 55 \<and> f0 = 0 \<and> f1 = 1 \<and> fib20 = 6765);
     _ \<leftarrow> guard (fnv1a_hash ''hello'' \<noteq> fnv1a_hash ''world'');
     let matched = (if fnv1a_hash ''hello'' = fnv1a_hash ''hello'' then ''hello''
       else if fnv1a_hash ''hello'' = fnv1a_hash ''world'' then ''world'' else ''Unknown'');
     sq \<leftarrow> compileTimeSquare 7;
     _ \<leftarrow> guard (sq = 49);
     let p1 = \<lparr>px = 3, py = 4\<rparr>;
     let p3 = point_add p1 \<lparr>px = 1, py = 2\<rparr>;
     _ \<leftarrow> guard (px p3 = 4 \<and> py p3 = 6 \<and> distSquared p1 = 25);
     fib_table \<leftarrow> generateFibTable;
     t10 \<leftarrow> vget fib_table 10;
     t15 \<leftarrow> vget fib_table 15;
     _ \<leftarrow> guard (t10 = 55 \<and> t15 = 610);
     Some [show_int f10, show_int fib20, matched, show_int sq,
       stringify (Int_value 42), stringify (Double_value (314 / 100)), stringify (String_value ''text''),
       show_int t10, show_int t15] }"

lemma compile_time_main_output:
  "compile_time_main = Some [''3628800'', ''0'', ''1'', ''4'', ''9'', ''16'', ''25'', ''36'', ''49'',
     ''signed integer'', ''unsigned integer'', ''floating point'', ''pointer'',
     ''42'', ''3.140000'', [CHR 0x22] @ ''hello'' @ [CHR 0x22], ''832040'']"
  by code_simp

lemma constexpr_main_output:
  "constexpr_main = Some [''55'', ''6765'', ''hello'', ''49'', ''42 (integral)'', ''3.140000 (floating)'', ''text'', ''55'', ''610'']"
  by code_simp

section \<open>The numbers of Fibonacci and the factorials fit up to a point\<close>

fun fib :: "nat \<Rightarrow> int" where
  "fib 0 = 0"
| "fib (Suc 0) = 1"
| "fib (Suc (Suc n)) = fib n + fib (Suc n)"

lemma fib_nonneg: "0 \<le> fib n"
  by (induction n rule: fib.induct) simp_all

lemma fib_mono: "m \<le> n \<Longrightarrow> fib m \<le> fib n"
proof (induction n rule: dec_induct)
  case (step n)
  have "fib n \<le> fib (Suc n)" by (cases n) (simp_all add: fib_nonneg)
  then show ?case using step.IH by simp
qed simp

lemma fibonacci_loop_eq:
  assumes "\<And>x. 0 \<le> x \<Longrightarrow> checked x = (if x \<le> M then Some x else None)"
  shows "fibonacci_loop checked (int k + 2) n (fib k) (fib (Suc k)) =
    (if n < int k + 2 then Some (fib (Suc k)) else if fib (nat n) \<le> M then Some (fib (nat n)) else None)"
proof (induction "nat (n - int k)" arbitrary: k rule: less_induct)
  case less
  show ?case
  proof (cases "n < int k + 2")
    case True
    then show ?thesis by (simp add: fibonacci_loop.simps)
  next
    case False
    have k': "int k + 2 + 1 = int (Suc k) + 2" by simp
    have le: "fib (Suc (Suc k)) \<le> fib (nat n)" using False by (intro fib_mono) simp
    show ?thesis
    proof (cases "fib (Suc (Suc k)) \<le> M")
      case True
      have "fibonacci_loop checked (int k + 2) n (fib k) (fib (Suc k)) =
          fibonacci_loop checked (int (Suc k) + 2) n (fib (Suc k)) (fib (Suc (Suc k)))"
        using False True assms [of "fib (Suc (Suc k))"] fib_nonneg [of "Suc (Suc k)"] k'
        by (subst fibonacci_loop.simps) simp
      also have "\<dots> = (if n < int (Suc k) + 2 then Some (fib (Suc (Suc k)))
          else if fib (nat n) \<le> M then Some (fib (nat n)) else None)"
        using False by (intro less) simp
      also have "n < int (Suc k) + 2 \<Longrightarrow> nat n = Suc (Suc k)" using False by simp
      ultimately show ?thesis using False True by auto
    next
      case False
      then show ?thesis using \<open>\<not> n < int k + 2\<close> le assms [of "fib (Suc (Suc k))"] fib_nonneg [of "Suc (Suc k)"]
        by (subst fibonacci_loop.simps) auto
    qed
  qed
qed

lemma chk_nonneg: "0 \<le> x \<Longrightarrow> chk x = (if x \<le> INT_MAX then Some x else None)"
  by (simp add: chk_def in_int_def)

lemma chk_long_nonneg: "0 \<le> x \<Longrightarrow> chk_long x = (if x \<le> LONG_MAX then Some x else None)"
  by (simp add: chk_long_def)

lemma fibonacci_limits:
  "n \<le> 46 \<Longrightarrow> fib n \<le> INT_MAX" "47 \<le> n \<Longrightarrow> INT_MAX < fib n"
  "n \<le> 92 \<Longrightarrow> fib n \<le> LONG_MAX" "93 \<le> n \<Longrightarrow> LONG_MAX < fib n"
proof -
  note eq = fibonacci_loop_eq [where k = 0, simplified]
  have "fibonacci_loop chk 2 46 0 1 \<noteq> None" "fibonacci_loop chk 2 47 0 1 = None"
    "fibonacci_loop chk_long 2 92 0 1 \<noteq> None" "fibonacci_loop chk_long 2 93 0 1 = None" by code_simp+
  then have "fib 46 \<le> INT_MAX" "INT_MAX < fib 47" "fib 92 \<le> LONG_MAX" "LONG_MAX < fib 93"
    using eq [of chk INT_MAX 46, OF chk_nonneg] eq [of chk INT_MAX 47, OF chk_nonneg]
      eq [of chk_long LONG_MAX 92, OF chk_long_nonneg] eq [of chk_long LONG_MAX 93, OF chk_long_nonneg]
    by (simp_all del: fib.simps split: if_splits)
  then show "n \<le> 46 \<Longrightarrow> fib n \<le> INT_MAX" "47 \<le> n \<Longrightarrow> INT_MAX < fib n"
    "n \<le> 92 \<Longrightarrow> fib n \<le> LONG_MAX" "93 \<le> n \<Longrightarrow> LONG_MAX < fib n"
    using fib_mono [of n 46] fib_mono [of 47 n] fib_mono [of n 92] fib_mono [of 93 n] by linarith+
qed

text \<open>
  Claim: both Fibonacci functions return the Fibonacci number as long as it fits their type, which is up
  to 46 for int and up to 92 for long long, and overflow beyond.
\<close>
theorem fibonacci_exact:
  "fibonacci_int n = (if n \<le> 1 then Some n else if n \<le> 46 then Some (fib (nat n)) else None) \<and>
   fibonacci n = (if n \<le> 1 then Some n else if n \<le> 92 then Some (fib (nat n)) else None)"
proof -
  have "fib (nat n) \<le> INT_MAX \<longleftrightarrow> n \<le> 46" "fib (nat n) \<le> LONG_MAX \<longleftrightarrow> n \<le> 92"
    using fibonacci_limits [of "nat n"] by linarith+
  then show ?thesis
    using fibonacci_loop_eq [where k = 0 and n = n, OF chk_nonneg] fibonacci_loop_eq [where k = 0 and n = n, OF chk_long_nonneg]
    by (simp add: fibonacci_int_def fibonacci_def)
qed

lemma factorial_loop_eq:
  "1 \<le> k \<Longrightarrow> factorial_loop (int k + 1) n (fact k) =
    (if n \<le> int k then Some (fact k) else if fact (nat n) \<le> INT_MAX then Some (fact (nat n)) else None)"
proof (induction "nat (n - int k)" arbitrary: k rule: less_induct)
  case less
  have f: "(fact k :: int) * (int k + 1) = fact (Suc k)" "(fact k :: int) * (1 + int k) = fact (Suc k)" by (simp_all add: algebra_simps)
  show ?case
  proof (cases "n \<le> int k")
    case True
    then show ?thesis by (simp add: factorial_loop.simps)
  next
    case False
    have le: "(fact (Suc k) :: int) \<le> fact (nat n)" using False by (intro fact_mono) simp
    have step: "factorial_loop (int k + 1) n (fact k) =
        (if fact (Suc k) \<le> INT_MAX then factorial_loop (int (Suc k) + 1) n (fact (Suc k)) else None)"
      using False chk_nonneg [of "fact (Suc k)"] by (subst factorial_loop.simps) (simp add: f add.commute del: fact_Suc)
    show ?thesis
    proof (cases "(fact (Suc k) :: int) \<le> INT_MAX")
      case True
      have "factorial_loop (int (Suc k) + 1) n (fact (Suc k)) = (if n \<le> int (Suc k) then Some (fact (Suc k))
          else if fact (nat n) \<le> INT_MAX then Some (fact (nat n)) else None)"
        using False less.prems by (intro less) simp_all
      moreover have "n \<le> int (Suc k) \<Longrightarrow> nat n = Suc k" using False by simp
      ultimately show ?thesis using step True False by auto
    next
      case False
      then show ?thesis using \<open>\<not> n \<le> int k\<close> le step by auto
    qed
  qed
qed

lemma factorial_exact: "factorial n = (if n \<le> 12 then Some (fact (nat n)) else None)"
proof -
  have "(fact 12 :: int) \<le> INT_MAX" "INT_MAX < (fact 13 :: int)" by (simp_all add: fact_numeral)
  then have "n \<le> 12 \<Longrightarrow> (fact (nat n) :: int) \<le> INT_MAX" "12 < n \<Longrightarrow> INT_MAX < (fact (nat n) :: int)"
    using fact_mono [of "nat n" 12, where 'a = int] fact_mono [of 13 "nat n", where 'a = int] by linarith+
  then have "(fact (nat n) :: int) \<le> INT_MAX \<longleftrightarrow> n \<le> 12" by linarith
  moreover have "n \<le> 1 \<Longrightarrow> fact (nat n) = (1 :: int)" by (cases "n = 1") simp_all
  ultimately show ?thesis using factorial_loop_eq [of 1 n] by (simp add: factorial_def)
qed

section \<open>Hashes of texts that differ in one character\<close>

lemma char_value_range: "- 128 \<le> char_value c \<and> char_value c < 128"
proof -
  have "0 \<le> (of_char c :: int)" "(of_char c :: int) < 256" using of_char_int [of c] by simp_all
  then show ?thesis by (simp add: char_value_def Let_def)
qed

lemma char_value_inj: "char_value c = char_value d \<Longrightarrow> c = d"
proof -
  assume "char_value c = char_value d"
  moreover have "0 \<le> (of_char c :: int)" "(of_char c :: int) < 256" "0 \<le> (of_char d :: int)" "(of_char d :: int) < 256"
    using of_char_int [of c] of_char_int [of d] by simp_all
  ultimately have "(of_char c :: int) = of_char d" by (simp add: char_value_def Let_def split: if_splits)
  then show ?thesis by simp
qed

lemma char_word_inj:
  assumes "(word_of_int (char_value c) :: 'a::len word) = word_of_int (char_value d)" and "8 \<le> LENGTH('a)"
  shows "c = d"
proof -
  have "(256 :: int) dvd 2 ^ LENGTH('a)" using le_imp_power_dvd [OF assms(2), of "2 :: int"] by simp
  moreover have "(2 :: int) ^ LENGTH('a) dvd char_value c - char_value d"
    using assms(1) by (simp add: word_of_int_eq_iff take_bit_eq_mod mod_eq_dvd_iff)
  ultimately have "256 dvd char_value c - char_value d" by (rule dvd_trans)
  then obtain k where "char_value c - char_value d = 256 * k" by (elim dvdE)
  moreover have "- 256 < char_value c - char_value d" "char_value c - char_value d < 256"
    using char_value_range [of c] char_value_range [of d] by simp_all
  ultimately have "k = 0" by linarith
  then have "char_value c = char_value d" using \<open>char_value c - char_value d = 256 * k\<close> by simp
  then show ?thesis by (rule char_value_inj)
qed

lemma fnv_step_inj:
  assumes "prime * inverse' = (1 :: 'a::len word)"
  shows "fnv_step prime c g = fnv_step prime c h \<Longrightarrow> g = h"
    and "8 \<le> LENGTH('a) \<Longrightarrow> fnv_step prime c h = fnv_step prime d h \<Longrightarrow> c = d"
proof -
  have cancel: "x * prime = y * prime \<Longrightarrow> x = y" for x y
    using assms by (metis mult.assoc mult.right_neutral)
  show "fnv_step prime c g = fnv_step prime c h \<Longrightarrow> g = h"
    using cancel [of "g XOR word_of_int (char_value c)" "h XOR word_of_int (char_value c)"]
    by (simp add: fnv_step_def) (metis xor.assoc xor.commute xor_self_eq xor.left_neutral)
  show "8 \<le> LENGTH('a) \<Longrightarrow> fnv_step prime c h = fnv_step prime d h \<Longrightarrow> c = d"
    using cancel [of "h XOR word_of_int (char_value c)" "h XOR word_of_int (char_value d)"]
      char_word_inj [of c d, where 'a = 'a]
    by (simp add: fnv_step_def) (metis xor.assoc xor_self_eq xor.left_neutral)
qed

lemma fold_fnv_inj:
  assumes "prime * inverse' = (1 :: 'a::len word)"
  shows "fold (fnv_step prime) xs g = fold (fnv_step prime) xs h \<Longrightarrow> g = h"
  by (induction xs arbitrary: g h) (auto dest: fnv_step_inj(1) [OF assms])

lemma fold_fnv_one_char:
  assumes "prime * inverse' = (1 :: 'a::len word)" and "8 \<le> LENGTH('a)" and "c \<noteq> d"
  shows "fold (fnv_step prime) (xs @ c # ys) h \<noteq> fold (fnv_step prime) (xs @ d # ys) h"
proof
  assume "fold (fnv_step prime) (xs @ c # ys) h = fold (fnv_step prime) (xs @ d # ys) h"
  then have "fnv_step prime c (fold (fnv_step prime) xs h) = fnv_step prime d (fold (fnv_step prime) xs h)"
    using fold_fnv_inj [OF assms(1), of ys] by simp
  then show False using fnv_step_inj(2) [OF assms(1,2)] assms(3) by blast
qed

text \<open>
  Claim: two texts that differ in exactly one character have different hashes, with 32 and with 64 bits,
  so such commands never fall into the same case of the switch.
\<close>
theorem fnv_separates_one_char:
  assumes "c \<noteq> d"
  shows "fnv1a_hash (xs @ c # ys) \<noteq> fnv1a_hash (xs @ d # ys) \<and>
    compile_time_hash (xs @ c # ys) \<noteq> compile_time_hash (xs @ d # ys)"
proof -
  have "(1099511628211 :: 64 word) * 14886173955864302971 = 1" "(16777619 :: 32 word) * 899433627 = 1" by simp_all
  from fold_fnv_one_char [OF this(1) _ assms] fold_fnv_one_char [OF this(2) _ assms]
  show ?thesis unfolding fnv1a_hash_def compile_time_hash_def by (simp add: word_eq_iff_signed [symmetric] del: fold_append fold_simps)
qed

lemma fnv_separates_one_char_witness:
  "fnv1a_hash (''G'' @ CHR ''E'' # ''T'') \<noteq> fnv1a_hash (''G'' @ CHR ''I'' # ''T'') \<and>
   compile_time_hash (''G'' @ CHR ''E'' # ''T'') \<noteq> compile_time_hash (''G'' @ CHR ''I'' # ''T'')"
  by (rule fnv_separates_one_char) simp

section \<open>serialize of a bool\<close>

text \<open>
  Claim: bool is an arithmetic type, so serialize prints it as a number and its own branch, which would
  print true or false, is never taken.
\<close>
theorem serialize_bool_is_number: "serialize (Bool_value b) = Some (if b then ''1'' else ''0'')"
  by (simp add: serialize_def)

end
