(* ===== verification/Modern_Types.thy ===== *)
theory Modern_Types
  imports Constexpr_Functions
begin

text \<open>
  src/src/modern_cpp/optional_variant_any.cpp and src/src/modern_cpp/practical/type_traits_concepts.cpp. A type parameter that selects a branch is the constructor of the
  value; doubles are rationals; exceptions that leave a function are None.
\<close>

section \<open>optional_variant_any.cpp\<close>

fun find_index_from :: "nat \<Rightarrow> int list \<Rightarrow> int \<Rightarrow> int option" where
  "find_index_from i [] target = None"
| "find_index_from i (x # xs) target = (if x = target then Some (int i) else find_index_from (i + 1) xs target)"

definition findIndex :: "int list \<Rightarrow> int \<Rightarrow> int option" where
  "findIndex vec target = find_index_from 0 vec target"

definition value_or :: "'a option \<Rightarrow> 'a \<Rightarrow> 'a" where
  "value_or v d = (case v of None \<Rightarrow> d | Some x \<Rightarrow> x)"

record optional_config =
  opt_port :: "int option"
  opt_host :: "string option"
  opt_verbose :: "bool option"

datatype connection_state =
    Disconnected string
  | Connecting string int
  | Connected int rat

fun describeState :: "connection_state \<Rightarrow> string" where
  "describeState (Disconnected reason) = ''Disconnected: '' @ reason"
| "describeState (Connecting address attempt) =
     ''Connecting to '' @ address @ '' (attempt '' @ show_int attempt @ '')''"
| "describeState (Connected fd latency) =
     ''Connected (fd='' @ show_int fd @ '', latency='' @ show_double latency @ ''ms)''"

text \<open>std::any with the types that main stores; any_cast to another type throws.\<close>

datatype any_value = Any_string string | Any_int int | Any_double rat

datatype any_type = String_type | Int_type | Double_type

fun any_type_of :: "any_value \<Rightarrow> any_type" where
  "any_type_of (Any_string s) = String_type"
| "any_type_of (Any_int i) = Int_type"
| "any_type_of (Any_double d) = Double_type"

datatype any_error = Bad_any_cast

definition any_cast :: "any_type \<Rightarrow> any_value \<Rightarrow> any_error + any_value" where
  "any_cast t v = (if any_type_of v = t then Inr v else Inl Bad_any_cast)"

type_synonym property_bag = "string \<Rightarrow> any_value option"

definition set_property :: "string \<Rightarrow> any_value \<Rightarrow> property_bag \<Rightarrow> property_bag" where
  "set_property key v props = props(key \<mapsto> v)"

definition get_property :: "any_type \<Rightarrow> string \<Rightarrow> property_bag \<Rightarrow> any_value option" where
  "get_property t key props = (case props key of
     None \<Rightarrow> None
   | Some v \<Rightarrow> (case any_cast t v of Inl Bad_any_cast \<Rightarrow> None | Inr x \<Rightarrow> Some x))"

definition optional_variant_any_main :: "string list ub" where
  "optional_variant_any_main = do {
     let data = [10, 20, 30, 40, 50];
     r \<leftarrow> findIndex data 30;
     _ \<leftarrow> guard (r = 2);
     let missing = findIndex data 99;
     _ \<leftarrow> guard (missing = None \<and> value_or missing (- 1) = - 1);
     let cfg = \<lparr>opt_port = Some 8080, opt_host = None, opt_verbose = Some True\<rparr>;
     let state = Connected 42 (1 / 2);
     _ \<leftarrow> guard (case state of Connected fd latency \<Rightarrow> fd = 42 | _ \<Rightarrow> False);
     let bag = set_property ''latency'' (Any_double (42 / 100)) (set_property ''version'' (Any_int 3)
       (set_property ''name'' (Any_string ''TradingEngine'') Map.empty));
     _ \<leftarrow> guard (get_property String_type ''name'' bag = Some (Any_string ''TradingEngine''));
     _ \<leftarrow> guard (get_property Int_type ''version'' bag = Some (Any_int 3));
     _ \<leftarrow> guard (get_property Int_type ''name'' bag = None);
     Some [show_int r, show_int (value_or missing (- 1)), show_int (value_or (opt_port cfg) 3000),
       value_or (opt_host cfg) ''localhost'', describeState (Disconnected ''timeout''),
       describeState (Connecting ''192.168.1.1'' 1), describeState state] }"

lemma optional_variant_any_main_output:
  "optional_variant_any_main = Some [''2'', ''-1'', ''8080'', ''localhost'', ''Disconnected: timeout'',
     ''Connecting to 192.168.1.1 (attempt 1)'', ''Connected (fd=42, latency=0.500000ms)'']"
  by code_simp

lemma find_index_from_found:
  "find_index_from i xs t = Some k \<longleftrightarrow> (\<exists>j < length xs. k = int (i + j) \<and> xs ! j = t \<and> t \<notin> set (take j xs))"
proof (induction xs arbitrary: i)
  case (Cons x xs)
  show ?case
  proof (cases "x = t")
    case True
    have "t \<notin> set (take j (x # xs)) \<longleftrightarrow> j = 0" for j using True by (cases j) auto
    then show ?thesis using True by auto
  next
    case False
    have "(\<exists>j < length (x # xs). k = int (i + j) \<and> (x # xs) ! j = t \<and> t \<notin> set (take j (x # xs))) \<longleftrightarrow>
        (\<exists>j < length xs. k = int (i + 1 + j) \<and> xs ! j = t \<and> t \<notin> set (take j xs))" (is "?l \<longleftrightarrow> ?r")
    proof
      assume ?l
      then obtain j where j: "j < length (x # xs)" "k = int (i + j)" "(x # xs) ! j = t" "t \<notin> set (take j (x # xs))" by blast
      then show ?r using False by (cases j) auto
    next
      assume ?r
      then obtain j where "j < length xs" "k = int (i + 1 + j)" "xs ! j = t" "t \<notin> set (take j xs)" by blast
      then show ?l using False by (intro exI [of _ "Suc j"]) auto
    qed
    then show ?thesis using False Cons.IH [of "i + 1"] by simp
  qed
qed simp

text \<open>
  C34: after any sequence of set calls, get of a type returns the value set last under the key when it
  has that type and nothing otherwise, so what it returns always has the type that was asked for.
\<close>
theorem property_bag_typed:
  "get_property t k (fold (\<lambda>(key, v). set_property key v) kvs Map.empty) =
     (case map_of (rev kvs) k of None \<Rightarrow> None | Some v \<Rightarrow> (if any_type_of v = t then Some v else None)) \<and>
   any_type_of ` set_option (get_property t k bag) \<subseteq> {t}"
proof
  have "fold (\<lambda>(key, v). set_property key v) kvs m = m ++ map_of (rev kvs)" for m
  proof (induction kvs arbitrary: m)
    case (Cons kv kvs)
    then show ?case by (cases kv) (simp add: set_property_def map_add_def fun_eq_iff split: option.splits)
  qed simp
  then show "get_property t k (fold (\<lambda>(key, v). set_property key v) kvs Map.empty) =
     (case map_of (rev kvs) k of None \<Rightarrow> None | Some v \<Rightarrow> (if any_type_of v = t then Some v else None))"
    by (simp add: get_property_def any_cast_def split: option.splits)
  show "any_type_of ` set_option (get_property t k bag) \<subseteq> {t}"
    by (auto simp: get_property_def any_cast_def split: option.splits if_splits)
qed

section \<open>type_traits_concepts.cpp\<close>

definition add_int :: "int \<Rightarrow> int \<Rightarrow> int ub" where
  "add_int a b = chk (a + b)"

definition add_double :: "rat \<Rightarrow> rat \<Rightarrow> rat" where
  "add_double a b = a + b"

definition print_container :: "int list \<Rightarrow> string" where
  "print_container xs = ''[ '' @ concat (map (\<lambda>x. show_int x @ '' '') xs) @ ''](size='' @ show_nat (length xs) @ '')''"

definition process_numeric :: "int \<Rightarrow> string ub" where
  "process_numeric v = do { w \<leftarrow> chk (v * 2); Some (''Processing numeric: '' @ show_int w) }"

datatype debug_value = Debug_int int | Debug_float rat | Debug_container nat | Debug_other

fun to_debug_string :: "debug_value \<Rightarrow> string" where
  "to_debug_string (Debug_int i) = ''int:'' @ show_int i"
| "to_debug_string (Debug_float x) = ''float:'' @ show_double x"
| "to_debug_string (Debug_container n) = ''container[size='' @ show_nat n @ '']''"
| "to_debug_string Debug_other = ''unknown''"

record user_data =
  user_name :: string
  age :: int

definition serialize_user :: "user_data \<Rightarrow> string" where
  "serialize_user u = user_name u @ '':'' @ show_int (age u)"

text \<open>std::stoi skips blanks, takes a sign and digits, and throws when there are none or the value is too large.\<close>

definition is_space :: "char \<Rightarrow> bool" where
  "is_space c = (c = CHR '' '' \<or> (9 \<le> (of_char c :: nat) \<and> (of_char c :: nat) \<le> 13))"

definition stoi :: "string \<Rightarrow> int ub" where
  "stoi s =
     (let s1 = dropWhile is_space s;
          neg = (s1 \<noteq> [] \<and> hd s1 = CHR ''-'');
          s2 = (if s1 \<noteq> [] \<and> (hd s1 = CHR ''-'' \<or> hd s1 = CHR ''+'') then tl s1 else s1);
          ds = takeWhile is_digit s2 in
      if ds = [] then None else chk (if neg then - digits_value ds else digits_value ds))"

text \<open>Without a colon find returns npos, and npos + 1 is 0.\<close>

definition deserialize_user :: "string \<Rightarrow> user_data ub" where
  "deserialize_user data =
     (let name = takeWhile (\<lambda>c. c \<noteq> CHR '':'') data;
          rest = (if CHR '':'' \<in> set data then tl (dropWhile (\<lambda>c. c \<noteq> CHR '':'') data) else data) in
      do { n \<leftarrow> stoi rest; Some \<lparr>user_name = name, age = n\<rparr> })"

definition round_trip :: "user_data \<Rightarrow> string ub" where
  "round_trip u = map_option serialize_user (deserialize_user (serialize_user u))"

datatype integral_value = Signed_value int | Unsigned_value int

text \<open>The more constrained overload is chosen for a signed type.\<close>

fun classify :: "integral_value \<Rightarrow> string" where
  "classify (Signed_value v) = ''  SignedIntegral: '' @ show_int v"
| "classify (Unsigned_value v) = ''  Integral: '' @ show_int v"

definition concepts_main :: "string list ub" where
  "concepts_main = do {
     i \<leftarrow> add_int 3 4;
     _ \<leftarrow> guard (i = 7);
     p \<leftarrow> process_numeric 42;
     result \<leftarrow> round_trip \<lparr>user_name = ''Alice'', age = 30\<rparr>;
     _ \<leftarrow> guard (result = ''Alice:30'');
     Some [show_int i, print_container [1, 2, 3, 4, 5], p, to_debug_string (Debug_int 42),
       to_debug_string (Debug_float (314 / 100)), to_debug_string (Debug_container 5), result,
       classify (Signed_value 42), classify (Unsigned_value 42)] }"

lemma concepts_main_output:
  "concepts_main = Some [''7'', ''[ 1 2 3 4 5 ](size=5)'', ''Processing numeric: 84'', ''int:42'',
     ''float:3.140000'', ''container[size=5]'', ''Alice:30'', ''  SignedIntegral: 42'', ''  Integral: 42'']"
  by code_simp

lemma digit_not_space: "is_digit c \<Longrightarrow> \<not> is_space c \<and> c \<noteq> CHR ''+'' \<and> c \<noteq> CHR ''-''"
  by (auto simp: is_digit_def is_space_def)

lemma stoi_shown: "stoi (show_int n) = chk n"
proof -
  obtain d ds where d: "show_nat (nat \<bar>n\<bar>) = d # ds" using show_nat_nonempty by (cases "show_nat (nat \<bar>n\<bar>)") auto
  then have "is_digit d" using show_nat_is_digit [of d "nat \<bar>n\<bar>"] by simp
  note dd = digit_not_space [OF this]
  have w: "takeWhile is_digit (d # ds) = d # ds" "digits_value (d # ds) = \<bar>n\<bar>"
    using takeWhile_shown [of "nat \<bar>n\<bar>"] show_nat_value [of "nat \<bar>n\<bar>"] d by simp_all
  have "\<not> is_space (CHR ''-'')" by code_simp
  then show ?thesis using d dd w by (cases "n < 0") (simp_all add: stoi_def show_int_def Let_def)
qed

text \<open>
  Claim: deserialize gives back a user that was serialized, when the name has no colon in it (and the
  age is an int), and then the round trip prints the same text.
\<close>
theorem user_data_roundtrip:
  assumes "CHR '':'' \<notin> set (user_name u)" and "in_int (age u)"
  shows "deserialize_user (serialize_user u) = Some u \<and> round_trip u = Some (serialize_user u)"
proof -
  have n: "\<forall>c \<in> set (user_name u). c \<noteq> CHR '':''" using assms(1) by blast
  have "takeWhile (\<lambda>c. c \<noteq> CHR '':'') (serialize_user u) = user_name u"
    "dropWhile (\<lambda>c. c \<noteq> CHR '':'') (serialize_user u) = CHR '':'' # show_int (age u)"
    using n by (simp_all add: serialize_user_def takeWhile_append2 dropWhile_append2)
  moreover have "CHR '':'' \<in> set (serialize_user u)" by (simp add: serialize_user_def)
  ultimately have "deserialize_user (serialize_user u) = Some u"
    using assms(2) by (simp add: deserialize_user_def stoi_shown chk_def)
  then show ?thesis by (simp add: round_trip_def)
qed

lemma user_data_roundtrip_witness:
  "deserialize_user (serialize_user \<lparr>user_name = ''Alice'', age = 30\<rparr>) = Some \<lparr>user_name = ''Alice'', age = 30\<rparr> \<and>
   round_trip \<lparr>user_name = ''Alice'', age = 30\<rparr> = Some (serialize_user \<lparr>user_name = ''Alice'', age = 30\<rparr>)"
  by (rule user_data_roundtrip) (simp_all add: in_int_def)

lemma colon_in_name_is_lost:
  "deserialize_user (serialize_user \<lparr>user_name = ''a:1'', age = 5\<rparr>) = Some \<lparr>user_name = ''a'', age = 1\<rparr>"
  "deserialize_user (serialize_user \<lparr>user_name = ''a:b'', age = 5\<rparr>) = None"
  by code_simp+

end
