(* ===== verification/Creational_Patterns.thy ===== *)
theory Creational_Patterns
  imports Constexpr_Functions
begin

text \<open>
  src/src/patterns/{builder,factory,abstract_factory,singleton}.cpp. The fluent calls of a builder are
  the list of its operations, a created object the constructor of its class, and what a
  demonstration prints a list of lines. Doubles are rationals (pi is left as a parameter).
\<close>

section \<open>builder.cpp\<close>

record query_builder =
  select_clause :: string
  from_clause :: string
  where_clauses :: "string list"
  order_clause :: string
  limit_value :: int

definition QueryBuilder :: query_builder where
  "QueryBuilder = \<lparr>select_clause = [], from_clause = [], where_clauses = [], order_clause = [], limit_value = - 1\<rparr>"

datatype builder_call = Select string | From string | Where string | OrderBy string | Limit int

fun builder_step :: "builder_call \<Rightarrow> query_builder \<Rightarrow> query_builder" where
  "builder_step (Select cols) b = b\<lparr>select_clause := cols\<rparr>"
| "builder_step (From tbl) b = b\<lparr>from_clause := tbl\<rparr>"
| "builder_step (Where condition) b = b\<lparr>where_clauses := where_clauses b @ [condition]\<rparr>"
| "builder_step (OrderBy col) b = b\<lparr>order_clause := col\<rparr>"
| "builder_step (Limit n) b = b\<lparr>limit_value := n\<rparr>"

fun where_text :: "nat \<Rightarrow> string list \<Rightarrow> string" where
  "where_text i [] = []"
| "where_text i (c # cs) = (if i = 0 then '' WHERE '' else '' AND '') @ c @ where_text (i + 1) cs"

definition builder_build :: "query_builder \<Rightarrow> string" where
  "builder_build b = ''SELECT '' @ select_clause b @ '' FROM '' @ from_clause b @ where_text 0 (where_clauses b) @
     (if order_clause b \<noteq> [] then '' ORDER BY '' @ order_clause b else []) @
     (if limit_value b > 0 then '' LIMIT '' @ show_int (limit_value b) else [])"

definition builder_main :: "(string \<times> string) ub" where
  "builder_main = do {
     let query = builder_build (fold builder_step
       [Select ''name, email'', From ''users'', Where ''age > 18'', Where ''active = true'', OrderBy ''name ASC'', Limit 10]
       QueryBuilder);
     _ \<leftarrow> guard (query =
       ''SELECT name, email FROM users WHERE age > 18 AND active = true ORDER BY name ASC LIMIT 10'');
     let simple = builder_build (fold builder_step [Select (''*''), From ''orders''] QueryBuilder);
     _ \<leftarrow> guard (simple = ''SELECT * FROM orders'');
     Some (query, simple) }"

lemma builder_main_output:
  "builder_main = Some (''SELECT name, email FROM users WHERE age > 18 AND active = true ORDER BY name ASC LIMIT 10'',
     ''SELECT * FROM orders'')"
  by code_simp

text \<open>What the calls determine: the last of each setter, and the conditions in their order.\<close>

fun set_by :: "(builder_call \<Rightarrow> 'a option) \<Rightarrow> 'a \<Rightarrow> builder_call list \<Rightarrow> 'a" where
  "set_by f d [] = d"
| "set_by f d (c # cs) = set_by f (case f c of None \<Rightarrow> d | Some x \<Rightarrow> x) cs"

fun the_select :: "builder_call \<Rightarrow> string option" where
  "the_select (Select s) = Some s" | "the_select _ = None"

fun the_from :: "builder_call \<Rightarrow> string option" where
  "the_from (From s) = Some s" | "the_from _ = None"

fun the_order :: "builder_call \<Rightarrow> string option" where
  "the_order (OrderBy s) = Some s" | "the_order _ = None"

fun the_limit :: "builder_call \<Rightarrow> int option" where
  "the_limit (Limit n) = Some n" | "the_limit _ = None"

fun the_where :: "builder_call \<Rightarrow> string list" where
  "the_where (Where c) = [c]" | "the_where _ = []"

lemma builder_fields:
  "fold builder_step cs b = \<lparr>select_clause = set_by the_select (select_clause b) cs,
     from_clause = set_by the_from (from_clause b) cs,
     where_clauses = where_clauses b @ concat (map the_where cs),
     order_clause = set_by the_order (order_clause b) cs,
     limit_value = set_by the_limit (limit_value b) cs\<rparr>"
proof (induction cs arbitrary: b)
  case (Cons c cs)
  then show ?case by (cases c) simp_all
qed simp

text \<open>The conditions are joined by AND after one WHERE.\<close>

fun joined :: "string \<Rightarrow> string list \<Rightarrow> string" where
  "joined sep [] = []"
| "joined sep [c] = c"
| "joined sep (c # cs) = c @ sep @ joined sep cs"

lemma where_text_joined: "where_text 0 cs = (if cs = [] then [] else '' WHERE '' @ joined '' AND '' cs)"
proof -
  have "where_text (Suc i) (c # cs) = '' AND '' @ joined '' AND '' (c # cs)" for i c and cs :: "string list"
  proof (induction cs arbitrary: i c)
    case (Cons d cs)
    have "where_text (Suc i) (c # d # cs) = '' AND '' @ c @ where_text (Suc (Suc i)) (d # cs)" by simp
    also have "\<dots> = '' AND '' @ c @ '' AND '' @ joined '' AND '' (d # cs)" using Cons.IH [of "Suc i" d] by (simp only:)
    finally show ?case by simp
  qed simp
  note rest = this [of 0]
  show ?thesis
  proof (cases cs)
    case (Cons c ds)
    then show ?thesis using rest by (cases ds) (simp_all del: where_text.simps(2) add: where_text.simps(2) [of 0])
  qed simp
qed

text \<open>A limit of 0 asks for no rows, but build leaves it out and so asks for all of them.\<close>

lemma limit_zero_is_no_limit: "builder_build (builder_step (Limit 0) b) = builder_build (builder_step (Limit (- 1)) b)"
  by (simp add: builder_build_def)

section \<open>factory.cpp\<close>

datatype shape_type = Circle_type | Rectangle_type | Triangle_type

datatype factory_shape = Circle rat | Rectangle rat rat | Triangle rat rat

fun shape_area :: "rat \<Rightarrow> factory_shape \<Rightarrow> rat" where
  "shape_area pi_value (Circle radius) = pi_value * radius * radius"
| "shape_area pi_value (Rectangle w h) = w * h"
| "shape_area pi_value (Triangle b h) = (1 / 2) * b * h"

fun factory_shape_name :: "factory_shape \<Rightarrow> string" where
  "factory_shape_name (Circle radius) = ''Circle(r='' @ show_double radius @ '')''"
| "factory_shape_name (Rectangle w h) = ''Rectangle('' @ show_double w @ ''x'' @ show_double h @ '')''"
| "factory_shape_name (Triangle b h) = ''Triangle(b='' @ show_double b @ '')''"

fun create_shape :: "shape_type \<Rightarrow> rat \<Rightarrow> rat \<Rightarrow> factory_shape" where
  "create_shape Circle_type a b = Circle a"
| "create_shape Rectangle_type a b = Rectangle a b"
| "create_shape Triangle_type a b = Triangle a b"

definition factory_main :: "rat \<Rightarrow> (string list \<times> rat list) ub" where
  "factory_main pi_value = do {
     let circle = create_shape Circle_type 5 1;
     let rect = create_shape Rectangle_type 3 4;
     let tri = create_shape Triangle_type 6 3;
     _ \<leftarrow> guard (\<bar>shape_area pi_value rect - 12\<bar> < 1 / 10 ^ 9);
     _ \<leftarrow> guard (\<bar>shape_area pi_value tri - 9\<bar> < 1 / 10 ^ 9);
     Some (map factory_shape_name [circle, rect, tri], map (shape_area pi_value) [circle, rect, tri]) }"

lemma factory_main_output:
  "factory_main p = Some ([''Circle(r=5.000000)'', ''Rectangle(3.000000x4.000000)'', ''Triangle(b=6.000000)''], [p * 25, 12, 9])"
proof -
  have "factory_shape_name (Circle 5) = ''Circle(r=5.000000)''" "factory_shape_name (Rectangle 3 4) = ''Rectangle(3.000000x4.000000)''"
    "factory_shape_name (Triangle 6 3) = ''Triangle(b=6.000000)''" by code_simp+
  then show ?thesis by (simp add: factory_main_def guard_def del: factory_shape_name.simps)
qed

section \<open>abstract_factory.cpp\<close>

datatype platform = Linux | Windows

datatype button = LinuxButton | WindowsButton

datatype checkbox = LinuxCheckbox | WindowsCheckbox

fun createButton :: "platform \<Rightarrow> button" where
  "createButton Linux = LinuxButton"
| "createButton Windows = WindowsButton"

fun createCheckbox :: "platform \<Rightarrow> checkbox" where
  "createCheckbox Linux = LinuxCheckbox"
| "createCheckbox Windows = WindowsCheckbox"

fun render_button :: "button \<Rightarrow> string" where
  "render_button LinuxButton = ''[GTK Button]''"
| "render_button WindowsButton = ''[Win32 Button]''"

fun render_checkbox :: "checkbox \<Rightarrow> string" where
  "render_checkbox LinuxCheckbox = ''[GTK Checkbox]''"
| "render_checkbox WindowsCheckbox = ''[Win32 Checkbox]''"

definition buildUI :: "platform \<Rightarrow> string list" where
  "buildUI factory = [''  Button:   '' @ render_button (createButton factory), ''  Checkbox: '' @ render_checkbox (createCheckbox factory)]"

fun text_contains :: "string \<Rightarrow> string \<Rightarrow> bool" where
  "text_contains [] pat = (pat = [])"
| "text_contains (c # cs) pat = (take (length pat) (c # cs) = pat \<or> text_contains cs pat)"

definition abstract_factory_main :: "string list ub" where
  "abstract_factory_main = do {
     _ \<leftarrow> guard (text_contains (render_button (createButton Linux)) ''GTK'');
     _ \<leftarrow> guard (text_contains (render_button (createButton Windows)) ''Win32'');
     Some (buildUI Linux @ buildUI Windows) }"

lemma abstract_factory_main_output:
  "abstract_factory_main = Some [''  Button:   [GTK Button]'', ''  Checkbox: [GTK Checkbox]'',
     ''  Button:   [Win32 Button]'', ''  Checkbox: [Win32 Checkbox]'']"
  by code_simp

text \<open>The products of one factory belong to one family.\<close>

lemma factory_family:
  "text_contains (render_button (createButton f)) ''GTK'' = text_contains (render_checkbox (createCheckbox f)) ''GTK''"
  "text_contains (render_button (createButton f)) ''Win32'' = text_contains (render_checkbox (createCheckbox f)) ''Win32''"
  by (cases f; simp)+

section \<open>singleton.cpp\<close>

text \<open>The static instance, once the first call of instance has constructed it; its count.\<close>

type_synonym logger = "int option"

definition logger_instance :: "logger \<Rightarrow> logger \<times> string list" where
  "logger_instance l = (case l of
     None \<Rightarrow> (Some 0, [''Logger constructed (once only)''])
   | Some n \<Rightarrow> (l, []))"

definition logger_log :: "string \<Rightarrow> logger \<Rightarrow> (logger \<times> string) ub" where
  "logger_log msg l = do { n \<leftarrow> l; k \<leftarrow> chk (n + 1); Some (Some k, ''[LOG #'' @ show_int k @ ''] '' @ msg) }"

definition singleton_main :: "string list ub" where
  "singleton_main = do {
     let (l0, o0) = logger_instance None;
     let (l1, o1) = logger_instance l0;
     (l2, o2) \<leftarrow> logger_log ''First message'' l1;
     (l3, o3) \<leftarrow> logger_log ''Second message'' l2;
     _ \<leftarrow> guard (l3 = Some 2);
     Some (o0 @ o1 @ [o2, o3, ''Logger destroyed'']) }"

lemma singleton_main_output:
  "singleton_main = Some [''Logger constructed (once only)'', ''[LOG #1] First message'', ''[LOG #2] Second message'', ''Logger destroyed'']"
  by code_simp

end
