(* ===== verification/Money_Decorators.thy ===== *)
theory Money_Decorators
  imports Prelude "HOL-Library.Word"
begin

text \<open>
  src/src/patterns/software_design/compile_time_decorator.cpp: prices in cents that decorators scale by
  a double factor. Here rounding matters, so double arithmetic is modelled: a positive double is an
  integer of at most 53 bits times a power of two, and every operation is the exact result rounded to
  the nearest one, ties to even (the numbers of this program are far from the ends of the range).
\<close>

section \<open>Double arithmetic on non-negative numbers\<close>

record double =
  mantissa :: int
  exponent :: int

fun bit_size :: "nat \<Rightarrow> int \<Rightarrow> int" where
  "bit_size 0 n = 0"
| "bit_size (Suc k) n = (if n \<le> 0 then 0 else 1 + bit_size k (n div 2))"

definition pow2 :: "int \<Rightarrow> int" where
  "pow2 e = 2 ^ nat e"

definition round_half_even :: "int \<Rightarrow> int \<Rightarrow> int" where
  "round_half_even n d =
     (let q = n div d; r = n mod d in
      if 2 * r < d then q else if 2 * r > d then q + 1 else if q mod 2 = 0 then q else q + 1)"

text \<open>The double nearest to n / d, for numbers of at most 1024 bits.\<close>

definition nearest :: "int \<Rightarrow> int \<Rightarrow> double" where
  "nearest n d =
     (if n = 0 then \<lparr>mantissa = 0, exponent = 0\<rparr>
      else let e = bit_size 1024 n - bit_size 1024 d - 53;
               e' = (if n * pow2 (- e) \<ge> pow2 53 * (d * pow2 e) then e + 1 else e) in
           \<lparr>mantissa = round_half_even (n * pow2 (- e')) (d * pow2 e'), exponent = e'\<rparr>)"

definition numerator :: "double \<Rightarrow> int" where
  "numerator x = mantissa x * pow2 (exponent x)"

definition denominator :: "double \<Rightarrow> int" where
  "denominator x = pow2 (- exponent x)"

definition double_of_int :: "int \<Rightarrow> double" where
  "double_of_int n = nearest n 1"

definition double_div :: "double \<Rightarrow> double \<Rightarrow> double" where
  "double_div x y = nearest (numerator x * denominator y) (denominator x * numerator y)"

definition double_mult :: "double \<Rightarrow> double \<Rightarrow> double" where
  "double_mult x y = nearest (numerator x * numerator y) (denominator x * denominator y)"

definition double_add :: "double \<Rightarrow> double \<Rightarrow> double" where
  "double_add x y = nearest (numerator x * denominator y + numerator y * denominator x) (denominator x * denominator y)"

definition double_sub :: "double \<Rightarrow> double \<Rightarrow> double" where
  "double_sub x y = nearest (numerator x * denominator y - numerator y * denominator x) (denominator x * denominator y)"

text \<open>The conversion to uint64_t drops the fraction and is undefined out of range.\<close>

definition to_uint64 :: "double \<Rightarrow> int ub" where
  "to_uint64 x = (let n = numerator x div denominator x in if n < 2 ^ 64 then Some n else None)"

section \<open>Money and its decorators\<close>

text \<open>The cents are a uint64_t.\<close>

definition money_add :: "int \<Rightarrow> int \<Rightarrow> int" where
  "money_add lhs rhs = (lhs + rhs) mod 2 ^ 64"

definition money_mult :: "int \<Rightarrow> double \<Rightarrow> int ub" where
  "money_mult cents factor = to_uint64 (double_mult (double_of_int cents) factor)"

definition show_money :: "int \<Rightarrow> string" where
  "show_money m = ''$'' @ show_int (m div 100) @ ''.'' @ (if m mod 100 < 10 then ''0'' else []) @ show_int (m mod 100)"

datatype priced_item =
    ConferenceTicket string int
  | Book string int
  | Discounted int priced_item
  | Taxed int priced_item

definition discount_factor :: "int \<Rightarrow> double" where
  "discount_factor p = double_sub (double_of_int 1) (double_div (double_of_int p) (double_of_int 100))"

definition tax_factor :: "int \<Rightarrow> double" where
  "tax_factor p = double_add (double_of_int 1) (double_div (double_of_int p) (double_of_int 100))"

text \<open>The static assertions on the percentages are part of price.\<close>

fun price :: "priced_item \<Rightarrow> int ub" where
  "price (ConferenceTicket name cents) = Some cents"
| "price (Book title cents) = Some cents"
| "price (Discounted p i) = do {
     _ \<leftarrow> guard (p > 0 \<and> p < 100);
     c \<leftarrow> price i;
     money_mult c (discount_factor p) }"
| "price (Taxed p i) = do {
     _ \<leftarrow> guard (p > 0);
     c \<leftarrow> price i;
     money_mult c (tax_factor p) }"

fun item_name :: "priced_item \<Rightarrow> string" where
  "item_name (ConferenceTicket name cents) = name"
| "item_name (Book title cents) = title"
| "item_name (Discounted p i) = item_name i @ '' (-'' @ show_int p @ ''%)''"
| "item_name (Taxed p i) = item_name i @ '' (+'' @ show_int p @ ''% tax)''"

definition compile_time_decorator_main :: "string list ub" where
  "compile_time_decorator_main = do {
     let ticket = Taxed 15 (Discounted 20 (ConferenceTicket ''CppCon 2024'' 49900));
     let book = Discounted 10 (Book ''Effective Modern C++'' 4000);
     t \<leftarrow> price ticket;
     b \<leftarrow> price book;
     _ \<leftarrow> guard (t = 45908);
     _ \<leftarrow> guard (b = 3600);
     Some [item_name ticket, show_money t, item_name book, show_money b] }"

lemma compile_time_decorator_main_output:
  "compile_time_decorator_main = Some [''CppCon 2024 (-20%) (+15% tax)'', ''$459.08'', ''Effective Modern C++ (-10%)'', ''$36.00'']"
  by code_simp

text \<open>
  Claim: the conversion back to cents drops what the rounding of the factor lost: a price of one dollar
  with 15 percent tax is 114 cents, although the exact price is 115 cents.
\<close>
theorem tax_loses_a_cent:
  "price (Taxed 15 (Book t 100)) = Some 114 \<and> (100 :: int) * (100 + 15) div 100 = 115"
proof -
  have "money_mult 100 (tax_factor 15) = Some 114" by code_simp
  then show ?thesis by (simp add: guard_def)
qed

end
