(* ===== verification/Software_Design.thy ===== *)
theory Software_Design
  imports Complex_Main Prelude
begin

text \<open>
  src/src/patterns/software_design/{strong_types,type_erasure,value_based_strategy,
  prototype_pattern,runtime_decorator,pimpl_idiom}.cpp. A drawing strategy is a
  constructor with the function that runs it, a type-erased object the pair of its shape and strategy, whose
  copy is a copy of the pair; the widgets of pimpl_idiom live in an explicit store, where the sharing
  of an implementation would show. Doubles are rationals.
\<close>

section \<open>Printing a double\<close>

text \<open>The default format of a stream, six significant digits, for numbers from 1 to 10^6.\<close>

fun drop_zeros :: "string \<Rightarrow> string" where
  "drop_zeros [] = []"
| "drop_zeros (c # cs) = (if c = CHR ''0'' then drop_zeros cs else c # cs)"

definition show_general :: "rat \<Rightarrow> string" where
  "show_general x =
     (let d = 6 - length (show_int \<lfloor>x\<rfloor>);
          n = \<lfloor>x * 10 ^ d + 1 / 2\<rfloor>;
          f = show_int (n mod 10 ^ d);
          digits = rev (drop_zeros (rev (replicate (d - length f) (CHR ''0'') @ f))) in
      show_int (n div 10 ^ d) @ (if digits = [] then [] else ''.'' @ digits))"

section \<open>strong_types.cpp\<close>

datatype meters = Meters rat

datatype order_id = OrderId int

fun meters_get :: "meters \<Rightarrow> rat" where "meters_get (Meters x) = x"

fun order_get :: "order_id \<Rightarrow> int" where "order_get (OrderId i) = i"

text \<open>The operators of the skills; main's types use them through the type classes, below.\<close>

definition meters_add :: "meters \<Rightarrow> meters \<Rightarrow> meters" where
  "meters_add lhs rhs = Meters (meters_get lhs + meters_get rhs)"

definition meters_sub :: "meters \<Rightarrow> meters \<Rightarrow> meters" where
  "meters_sub lhs rhs = Meters (meters_get lhs - meters_get rhs)"

definition meters_lt :: "meters \<Rightarrow> meters \<Rightarrow> bool" where
  "meters_lt lhs rhs \<longleftrightarrow> meters_get lhs < meters_get rhs"

definition order_lt :: "order_id \<Rightarrow> order_id \<Rightarrow> bool" where
  "order_lt lhs rhs \<longleftrightarrow> order_get lhs < order_get rhs"

instantiation meters :: "{plus, minus, linorder}"
begin

definition plus_meters :: "meters \<Rightarrow> meters \<Rightarrow> meters" where
  "plus_meters = meters_add"

definition minus_meters :: "meters \<Rightarrow> meters \<Rightarrow> meters" where
  "minus_meters = meters_sub"

definition less_meters :: "meters \<Rightarrow> meters \<Rightarrow> bool" where
  "less_meters = meters_lt"

definition less_eq_meters :: "meters \<Rightarrow> meters \<Rightarrow> bool" where
  "less_eq_meters lhs rhs \<longleftrightarrow> \<not> meters_lt rhs lhs"

instance
proof
  fix a b c :: meters
  show "a < b \<longleftrightarrow> a \<le> b \<and> \<not> b \<le> a" "a \<le> a" "a \<le> b \<or> b \<le> a" "a \<le> b \<Longrightarrow> b \<le> c \<Longrightarrow> a \<le> c"
    by (auto simp: less_meters_def less_eq_meters_def meters_lt_def)
  show "a \<le> b \<Longrightarrow> b \<le> a \<Longrightarrow> a = b" by (cases a; cases b) (simp add: less_eq_meters_def meters_lt_def)
qed

end

instantiation order_id :: linorder
begin

definition less_order_id :: "order_id \<Rightarrow> order_id \<Rightarrow> bool" where
  "less_order_id = order_lt"

definition less_eq_order_id :: "order_id \<Rightarrow> order_id \<Rightarrow> bool" where
  "less_eq_order_id lhs rhs \<longleftrightarrow> \<not> order_lt rhs lhs"

instance
proof
  fix a b c :: order_id
  show "a < b \<longleftrightarrow> a \<le> b \<and> \<not> b \<le> a" "a \<le> a" "a \<le> b \<or> b \<le> a" "a \<le> b \<Longrightarrow> b \<le> c \<Longrightarrow> a \<le> c"
    by (auto simp: less_order_id_def less_eq_order_id_def order_lt_def)
  show "a \<le> b \<Longrightarrow> b \<le> a \<Longrightarrow> a = b" by (cases a; cases b) (simp add: less_eq_order_id_def order_lt_def)
qed

end

definition add_distances :: "meters \<Rightarrow> meters \<Rightarrow> meters" where
  "add_distances a b = a + b"

definition process_order :: "order_id \<Rightarrow> string" where
  "process_order i = ''Processing order #'' @ show_int (order_get i)"

text \<open>The remaining skills: += gives the left operand its new value, the comparisons compare what is inside, << prints it.\<close>

definition add_assign_meters :: "meters \<Rightarrow> meters \<Rightarrow> meters" where
  "add_assign_meters lhs rhs = Meters (meters_get lhs + meters_get rhs)"

definition eq_meters :: "meters \<Rightarrow> meters \<Rightarrow> bool" where
  "eq_meters lhs rhs = (meters_get lhs = meters_get rhs)"

definition eq_order :: "order_id \<Rightarrow> order_id \<Rightarrow> bool" where
  "eq_order lhs rhs = (order_get lhs = order_get rhs)"

definition ne_order :: "order_id \<Rightarrow> order_id \<Rightarrow> bool" where
  "ne_order lhs rhs = (\<not> eq_order lhs rhs)"

definition show_meters :: "meters \<Rightarrow> string" where
  "show_meters d = show_general (meters_get d)"

lemma strong_equalities: "eq_meters a b \<longleftrightarrow> a = b" "eq_order i j \<longleftrightarrow> i = j" "ne_order i j \<longleftrightarrow> i \<noteq> j"
  by (cases a; cases b; cases i; cases j; simp add: eq_meters_def eq_order_def ne_order_def)+

definition strong_types_main :: "string list ub" where
  "strong_types_main = do {
     let m3 = add_distances (Meters 100) (Meters 50);
     _ \<leftarrow> guard (meters_get m3 = 150);
     let order = OrderId 12345;
     _ \<leftarrow> guard (ne_order order (OrderId 99999));
     _ \<leftarrow> guard (OrderId 1 < OrderId 2);
     Some [''Distance: '' @ show_meters m3 @ ''m'', process_order order] }"

lemma strong_types_main_output: "strong_types_main = Some [''Distance: 150m'', ''Processing order #12345'']"
  by code_simp

section \<open>Shapes with drawing strategies\<close>

datatype design_shape = Circle rat | Square rat | Triangle rat rat

datatype draw_strategy = Short_text | SVG_circle | Long_text

text \<open>The lambdas and function objects of the four demonstrations.\<close>

fun run_strategy :: "draw_strategy \<Rightarrow> design_shape \<Rightarrow> string" where
  "run_strategy Short_text (Circle r) = ''Circle(r='' @ show_general r @ '')''"
| "run_strategy Short_text (Square s) = ''Square(side='' @ show_general s @ '')''"
| "run_strategy Short_text (Triangle b h) = ''Triangle(base='' @ show_general b @ '', h='' @ show_general h @ '')''"
| "run_strategy SVG_circle (Circle r) = ''<circle r='' @ [CHR 0x22] @ show_general r @ [CHR 0x22] @ '' />''"
| "run_strategy SVG_circle s = []"
| "run_strategy Long_text (Circle r) = ''Drawing circle with radius '' @ show_general r"
| "run_strategy Long_text (Square s) = ''Drawing square with side '' @ show_general s"
| "run_strategy Long_text (Triangle b h) = []"

text \<open>A type-erased shape owns its shape and its strategy; a moved-from one has neither.\<close>

type_synonym erased_shape = "(design_shape \<times> draw_strategy) option"

definition make_shape :: "design_shape \<Rightarrow> draw_strategy \<Rightarrow> erased_shape" where
  "make_shape s d = Some (s, d)"

definition draw :: "erased_shape \<Rightarrow> string ub" where
  "draw sh = do { (s, d) \<leftarrow> sh; Some (run_strategy d s) }"

text \<open>Copying clones the model behind the pointer.\<close>

definition copy_shape :: "erased_shape \<Rightarrow> erased_shape ub" where
  "copy_shape sh = do { (s, d) \<leftarrow> sh; Some (Some (s, d)) }"

definition move_shape :: "erased_shape \<Rightarrow> erased_shape \<times> erased_shape" where
  "move_shape sh = (sh, None)"

fun draw_all :: "erased_shape list \<Rightarrow> string list ub" where
  "draw_all [] = Some []"
| "draw_all (s # ss) = do { l \<leftarrow> draw s; ls \<leftarrow> draw_all ss; Some (l # ls) }"

fun copy_all :: "erased_shape list \<Rightarrow> erased_shape list ub" where
  "copy_all [] = Some []"
| "copy_all (s # ss) = do { c \<leftarrow> copy_shape s; cs \<leftarrow> copy_all ss; Some (c # cs) }"

definition type_erasure_main :: "string list ub" where
  "type_erasure_main = do {
     let shapes = [make_shape (Circle (314 / 100)) Short_text, make_shape (Square 2) Short_text];
     o1 \<leftarrow> draw_all shapes;
     shapes_copy \<leftarrow> copy_all shapes;
     o2 \<leftarrow> draw_all shapes_copy;
     o3 \<leftarrow> draw (shapes ! 0);
     _ \<leftarrow> guard (o3 = ''Circle(r=3.14)'');
     Some (o1 @ o2) }"

lemma type_erasure_main_output:
  "type_erasure_main = Some [''Circle(r=3.14)'', ''Square(side=2)'', ''Circle(r=3.14)'', ''Square(side=2)'']"
  by code_simp

lemma copies_draw_the_same: "copy_all shapes = Some copies \<Longrightarrow> draw_all copies = draw_all shapes"
proof (induction shapes arbitrary: copies)
  case (Cons s ss)
  then show ?case by (cases s) (auto simp: copy_shape_def bind_Some_conv)
qed simp

text \<open>value_based_strategy.cpp: the constructors refuse an empty strategy.\<close>

datatype drawer_error = Drawer_must_not_be_empty

definition strategy_shape :: "design_shape \<Rightarrow> draw_strategy option \<Rightarrow> drawer_error + erased_shape" where
  "strategy_shape s d = (case d of None \<Rightarrow> Inl Drawer_must_not_be_empty | Some f \<Rightarrow> Inr (make_shape s f))"

definition value_based_strategy_main :: "string list ub" where
  "value_based_strategy_main =
     (case (strategy_shape (Circle 3) (Some Short_text), strategy_shape (Circle 5) (Some SVG_circle),
        strategy_shape (Square 4) (Some Long_text)) of
        (Inr a, Inr b, Inr c) \<Rightarrow> do {
          lines \<leftarrow> draw_all [a, b, c];
          svg \<leftarrow> draw b;
          _ \<leftarrow> guard (svg = ''<circle r='' @ [CHR 0x22] @ ''5'' @ [CHR 0x22] @ '' />'');
          Some lines }
      | _ \<Rightarrow> None)"

lemma value_based_strategy_main_output:
  "value_based_strategy_main = Some [''Circle(r=3)'', ''<circle r='' @ [CHR 0x22] @ ''5'' @ [CHR 0x22] @ '' />'', ''Drawing square with side 4'']"
  by code_simp

section \<open>prototype_pattern.cpp\<close>

datatype document = MarkdownDoc string | HTMLDoc string string

fun render :: "document \<Rightarrow> string" where
  "render (MarkdownDoc content) = ''# '' @ content"
| "render (HTMLDoc content css) = ''<div class='' @ [CHR 0x22] @ css @ [CHR 0x22] @ ''>'' @ content @ ''</div>''"

fun set_content :: "string \<Rightarrow> document \<Rightarrow> document" where
  "set_content c (MarkdownDoc content) = MarkdownDoc c"
| "set_content c (HTMLDoc content css) = HTMLDoc c css"

text \<open>Documents live at addresses; the registry owns the addresses of its prototypes.\<close>

record documents =
  doc_store :: "nat \<Rightarrow> document option"
  doc_next :: nat
  doc_registry :: "string \<Rightarrow> nat option"

definition no_documents :: documents where
  "no_documents = \<lparr>doc_store = Map.empty, doc_next = 0, doc_registry = Map.empty\<rparr>"

definition register_prototype :: "string \<Rightarrow> document \<Rightarrow> documents \<Rightarrow> documents" where
  "register_prototype name d w = \<lparr>doc_store = (doc_store w)(doc_next w \<mapsto> d), doc_next = doc_next w + 1,
     doc_registry = (doc_registry w)(name \<mapsto> doc_next w)\<rparr>"

text \<open>create clones the prototype into a new document, or returns a null pointer.\<close>

definition create_document :: "string \<Rightarrow> documents \<Rightarrow> (nat option \<times> documents) ub" where
  "create_document name w = (case doc_registry w name of
     None \<Rightarrow> Some (None, w)
   | Some p \<Rightarrow> do {
       d \<leftarrow> doc_store w p;
       Some (Some (doc_next w), w\<lparr>doc_store := (doc_store w)(doc_next w \<mapsto> d), doc_next := doc_next w + 1\<rparr>) })"

definition set_document :: "nat option \<Rightarrow> string \<Rightarrow> documents \<Rightarrow> documents ub" where
  "set_document p c w = do {
     a \<leftarrow> p;
     d \<leftarrow> doc_store w a;
     Some (w\<lparr>doc_store := (doc_store w)(a \<mapsto> set_content c d)\<rparr>) }"

definition render_document :: "nat option \<Rightarrow> documents \<Rightarrow> string ub" where
  "render_document p w = do { a \<leftarrow> p; d \<leftarrow> doc_store w a; Some (render d) }"

definition prototype_main :: "string list ub" where
  "prototype_main = do {
     let w0 = register_prototype ''landing-page'' (HTMLDoc ''Welcome'' ''hero-section'')
       (register_prototype ''blog-post'' (MarkdownDoc ''Template'') no_documents);
     (doc1, w1) \<leftarrow> create_document ''blog-post'' w0;
     w2 \<leftarrow> set_document doc1 ''My First Blog Post'' w1;
     (doc2, w3) \<leftarrow> create_document ''landing-page'' w2;
     w4 \<leftarrow> set_document doc2 ''Buy Now!'' w3;
     (doc3, w5) \<leftarrow> create_document ''blog-post'' w4;
     r3 \<leftarrow> render_document doc3 w5;
     _ \<leftarrow> guard (r3 = ''# Template'');
     r1 \<leftarrow> render_document doc1 w5;
     _ \<leftarrow> guard (r1 = ''# My First Blog Post'');
     r2 \<leftarrow> render_document doc2 w5;
     _ \<leftarrow> guard (r2 = ''<div class='' @ [CHR 0x22] @ ''hero-section'' @ [CHR 0x22] @ ''>Buy Now!</div>'');
     Some [r1, r2] }"

lemma prototype_main_output:
  "prototype_main = Some [''# My First Blog Post'', ''<div class='' @ [CHR 0x22] @ ''hero-section'' @ [CHR 0x22] @ ''>Buy Now!</div>'']"
  by code_simp

text \<open>The registry and the clients own different documents.\<close>

definition documents_inv :: "documents \<Rightarrow> bool" where
  "documents_inv w \<longleftrightarrow> (\<forall>name p. doc_registry w name = Some p \<longrightarrow> p < doc_next w \<and> doc_store w p \<noteq> None)"

lemma create_is_fresh:
  assumes "documents_inv w" and "create_document name w = Some (Some a, w')"
  shows "documents_inv w' \<and> a \<notin> ran (doc_registry w') \<and> (\<exists>p. doc_registry w name = Some p \<and> doc_store w' a = doc_store w p)"
proof -
  obtain p d where p: "doc_registry w name = Some p" "doc_store w p = Some d" "a = doc_next w"
      "w' = w\<lparr>doc_store := (doc_store w)(doc_next w \<mapsto> d), doc_next := doc_next w + 1\<rparr>"
    using assms(2) by (auto simp: create_document_def bind_Some_conv split: option.splits)
  have below: "doc_registry w n = Some q \<Longrightarrow> q < doc_next w" for n q using assms(1) by (auto simp: documents_inv_def)
  then have "doc_next w \<notin> ran (doc_registry w)" unfolding ran_def by blast
  moreover have "documents_inv w'" using assms(1) p(4) below by (auto simp: documents_inv_def less_Suc_eq)
  ultimately show ?thesis using p by auto
qed

lemma changes_keep_prototypes:
  assumes "documents_inv w" and "a \<notin> ran (doc_registry w)" and "set_document (Some a) c w = Some w'"
    and "doc_registry w name = Some p"
  shows "documents_inv w' \<and> doc_registry w' = doc_registry w \<and> doc_store w' p = doc_store w p"
  using assms by (auto simp: set_document_def documents_inv_def ran_def bind_Some_conv)

section \<open>runtime_decorator.cpp\<close>

datatype menu_item = Coffee string int | WithMilk menu_item | WithSugar menu_item | WithDiscount int menu_item

fun price_cents :: "menu_item \<Rightarrow> int ub" where
  "price_cents (Coffee name cents) = Some cents"
| "price_cents (WithMilk i) = do { c \<leftarrow> price_cents i; chk (c + 50) }"
| "price_cents (WithSugar i) = do { c \<leftarrow> price_cents i; chk (c + 25) }"
| "price_cents (WithDiscount percent i) = do {
     c \<leftarrow> price_cents i;
     k \<leftarrow> chk (100 - percent);
     m \<leftarrow> chk (c * k);
     chk (if m \<ge> 0 then m div 100 else - ((- m) div 100)) }"

fun drink_name :: "menu_item \<Rightarrow> string" where
  "drink_name (Coffee name cents) = name"
| "drink_name (WithMilk i) = drink_name i @ '' + Milk''"
| "drink_name (WithSugar i) = drink_name i @ '' + Sugar''"
| "drink_name (WithDiscount percent i) = drink_name i @ '' (-'' @ show_int percent @ ''%)''"

definition runtime_decorator_main :: "string list ub" where
  "runtime_decorator_main = do {
     let espresso = Coffee ''Espresso'' 300;
     let latte = WithMilk (Coffee ''Latte'' 400);
     let fancy = WithSugar (WithMilk (Coffee ''Mocha'' 450));
     let deal = WithDiscount 10 (WithMilk (Coffee ''Americano'' 350));
     p1 \<leftarrow> price_cents espresso;
     p2 \<leftarrow> price_cents latte;
     p3 \<leftarrow> price_cents fancy;
     p4 \<leftarrow> price_cents deal;
     _ \<leftarrow> guard (p1 = 300 \<and> p2 = 450 \<and> p3 = 525 \<and> p4 = 360);
     Some (map (\<lambda>(i, p). drink_name i @ '': $'' @ show_general (of_int p / 100)) [(espresso, p1), (latte, p2), (fancy, p3), (deal, p4)]) }"

lemma runtime_decorator_main_output:
  "runtime_decorator_main = Some [''Espresso: $3'', ''Latte + Milk: $4.5'', ''Mocha + Milk + Sugar: $5.25'', ''Americano + Milk (-10%): $3.6'']"
  by code_simp

lemma discount_between:
  assumes "price_cents i = Some c" and "0 \<le> c" and "0 \<le> percent" and "percent \<le> 100" and "c * 100 \<le> INT_MAX"
  shows "\<exists>d. price_cents (WithDiscount percent i) = Some d \<and> 0 \<le> d \<and> d \<le> c \<and> 100 * d \<le> c * (100 - percent) \<and> c * (100 - percent) < 100 * d + 100"
proof -
  have "0 \<le> c * (100 - percent)" using assms by simp
  moreover have "c * (100 - percent) \<le> c * 100" using assms by (intro mult_left_mono) simp_all
  moreover have "chk (100 - percent) = Some (100 - percent)" "chk (c * (100 - percent)) = Some (c * (100 - percent))"
    using assms calculation by (simp_all add: chk_def in_int_def)
  moreover have "c * (100 - percent) div 100 \<le> c" "0 \<le> c * (100 - percent) div 100" using calculation by linarith+
  moreover have "c \<le> INT_MAX" using assms by linarith
  ultimately show ?thesis using assms(1) by (auto simp: chk_def in_int_def)
qed

section \<open>pimpl_idiom.cpp\<close>

record widget_impl =
  widget_name :: string
  widget_value :: int
  internal_counter :: int

text \<open>A widget is the address of its implementation, null once it is moved from.\<close>

record widgets =
  impls :: "nat \<Rightarrow> widget_impl option"
  next_impl :: nat

definition new_impl :: "widget_impl \<Rightarrow> widgets \<Rightarrow> nat option \<times> widgets" where
  "new_impl i w = (Some (next_impl w), \<lparr>impls = (impls w)(next_impl w \<mapsto> i), next_impl = next_impl w + 1\<rparr>)"

definition impl_deref :: "nat option \<Rightarrow> widgets \<Rightarrow> widget_impl ub" where
  "impl_deref p w = do { a \<leftarrow> p; impls w a }"

definition Widget :: "string \<Rightarrow> int \<Rightarrow> widgets \<Rightarrow> nat option \<times> widgets" where
  "Widget name v w = new_impl \<lparr>widget_name = name, widget_value = v, internal_counter = 0\<rparr> w"

definition copy_widget :: "nat option \<Rightarrow> widgets \<Rightarrow> (nat option \<times> widgets) ub" where
  "copy_widget other w = do { i \<leftarrow> impl_deref other w; Some (new_impl i w) }"

definition assign_widget :: "nat option \<Rightarrow> nat option \<Rightarrow> widgets \<Rightarrow> widgets ub" where
  "assign_widget this other w = do {
     i \<leftarrow> impl_deref other w;
     a \<leftarrow> this;
     _ \<leftarrow> impls w a;
     Some (w\<lparr>impls := (impls w)(a \<mapsto> i)\<rparr>) }"

definition move_widget :: "nat option \<Rightarrow> nat option \<times> nat option" where
  "move_widget other = (other, None)"

definition set_value :: "nat option \<Rightarrow> int \<Rightarrow> widgets \<Rightarrow> widgets ub" where
  "set_value p v w = do {
     i \<leftarrow> impl_deref p w;
     a \<leftarrow> p;
     k \<leftarrow> chk (internal_counter i + 1);
     Some (w\<lparr>impls := (impls w)(a \<mapsto> i\<lparr>widget_value := v, internal_counter := k\<rparr>)\<rparr>) }"

definition print_widget :: "nat option \<Rightarrow> widgets \<Rightarrow> string ub" where
  "print_widget p w = do {
     i \<leftarrow> impl_deref p w;
     Some (''Widget{name='' @ [CHR 0x22] @ widget_name i @ [CHR 0x22] @ '', value='' @ show_int (widget_value i) @ ''}'') }"

definition pimpl_main :: "string list ub" where
  "pimpl_main = do {
     let (w1, s1) = Widget ''alpha'' 42 \<lparr>impls = Map.empty, next_impl = 0\<rparr>;
     l1 \<leftarrow> print_widget w1 s1;
     (w2, s2) \<leftarrow> copy_widget w1 s1;
     s3 \<leftarrow> set_value w2 100 s2;
     i1 \<leftarrow> impl_deref w1 s3;
     i2 \<leftarrow> impl_deref w2 s3;
     _ \<leftarrow> guard (widget_value i1 = 42 \<and> widget_value i2 = 100);
     let (w3, w1') = move_widget w1;
     i3 \<leftarrow> impl_deref w3 s3;
     _ \<leftarrow> guard (widget_name i3 = ''alpha'' \<and> widget_value i3 = 42);
     s4 \<leftarrow> assign_widget w2 w3 s3;
     i2' \<leftarrow> impl_deref w2 s4;
     _ \<leftarrow> guard (widget_value i2' = 42);
     l2 \<leftarrow> print_widget w3 s4;
     Some [l1, l2] }"

lemma pimpl_main_output:
  "pimpl_main = Some (replicate 2 (''Widget{name='' @ [CHR 0x22] @ ''alpha'' @ [CHR 0x22] @ '', value=42}''))"
  by code_simp

lemma assign_to_moved_from_is_undefined: "assign_widget (snd (move_widget p)) other w = None"
  by (cases "impl_deref other w") (simp_all add: assign_widget_def move_widget_def)

end
