(* ===== verification/Smart_Pointers.thy ===== *)
theory Smart_Pointers
  imports Prelude
begin

text \<open>
  src/src/modern_cpp/smart_pointers.cpp: unique_ptr as a value that is moved, shared_ptr and weak_ptr as
  addresses into a store of control blocks with their use counts, the destructors that print, and main.
  A control block whose count is zero stays in the store, as it does for the weak pointers of the code.
  Uses of a null or dangling pointer are undefined (None).
\<close>

section \<open>Objects and their control blocks\<close>

text \<open>What main puts behind a smart pointer; the members of a node are addresses.\<close>

datatype object =
    Sensor string
  | Node string "nat option" "nat option"
  | Int_array nat

fun ptr_next_of :: "object \<Rightarrow> nat option" where
  "ptr_next_of (Node n nx pa) = nx"
| "ptr_next_of _ = None"

text \<open>The line of the constructor, and that of the destructor or of the deleter.\<close>

fun created_line :: "object \<Rightarrow> string list" where
  "created_line (Sensor i) = [''  Sensor ['' @ i @ ''] created'']"
| "created_line (Node n nx pa) = [''  Node ['' @ n @ ''] created'']"
| "created_line (Int_array k) = []"

fun destroyed_line :: "object \<Rightarrow> string list" where
  "destroyed_line (Sensor i) = [''  Sensor ['' @ i @ ''] destroyed'']"
| "destroyed_line (Node n nx pa) = [''  Node ['' @ n @ ''] destroyed'']"
| "destroyed_line (Int_array k) = [''  Lambda deleter: freeing array'']"

record ptr_heap =
  objects :: "object option list"
  uses :: "nat list"
  console :: "string list"

definition empty_ptr_heap :: ptr_heap where
  "empty_ptr_heap = \<lparr>objects = [], uses = [], console = []\<rparr>"

fun living :: "object option \<Rightarrow> nat" where
  "living None = 0"
| "living (Some ob) = 1"

definition alive :: "ptr_heap \<Rightarrow> nat" where
  "alive h = weigh living (objects h)"

definition ptr_say :: "string list \<Rightarrow> ptr_heap \<Rightarrow> ptr_heap" where
  "ptr_say ls h = h\<lparr>console := console h @ ls\<rparr>"

section \<open>shared_ptr and weak_ptr\<close>

definition make_shared :: "object \<Rightarrow> ptr_heap \<Rightarrow> nat \<times> ptr_heap" where
  "make_shared ob h = (length (objects h),
     (ptr_say (created_line ob) h)\<lparr>objects := objects h @ [Some ob], uses := uses h @ [1]\<rparr>)"

definition use_count :: "nat option \<Rightarrow> ptr_heap \<Rightarrow> nat ub" where
  "use_count p h = (case p of None \<Rightarrow> Some 0
     | Some a \<Rightarrow> if a < length (uses h) then Some (uses h ! a) else None)"

definition copy_shared :: "nat option \<Rightarrow> ptr_heap \<Rightarrow> ptr_heap ub" where
  "copy_shared p h = (case p of None \<Rightarrow> Some h
     | Some a \<Rightarrow> if a < length (uses h) \<and> 0 < uses h ! a then Some (h\<lparr>uses := (uses h)[a := uses h ! a + 1]\<rparr>)
                else None)"

definition ptr_destroy :: "nat \<Rightarrow> object \<Rightarrow> ptr_heap \<Rightarrow> ptr_heap" where
  "ptr_destroy a ob h = (ptr_say (destroyed_line ob) h)\<lparr>objects := (objects h)[a := None], uses := (uses h)[a := 0]\<rparr>"

lemma alive_destroy: "a < length (objects h) \<Longrightarrow> objects h ! a = Some ob \<Longrightarrow> alive (ptr_destroy a ob h) < alive h"
  using weigh_update [of a "objects h" living None]
  by (simp add: alive_def ptr_destroy_def ptr_say_def)

text \<open>The destructor of a shared_ptr: the last owner destroys the object, and then the object's members.\<close>

function ptr_release :: "nat option \<Rightarrow> ptr_heap \<Rightarrow> ptr_heap ub" where
  "ptr_release None h = Some h"
| "ptr_release (Some a) h =
     (if a < length (uses h) \<and> a < length (objects h) then
        (if uses h ! a = 0 then None
         else if uses h ! a = 1 then
           (case objects h ! a of None \<Rightarrow> None | Some ob \<Rightarrow> ptr_release (ptr_next_of ob) (ptr_destroy a ob h))
         else Some (h\<lparr>uses := (uses h)[a := uses h ! a - 1]\<rparr>))
      else None)"
  by pat_completeness auto

termination ptr_release
  by (relation "measure (\<lambda>(p, h). alive h)") (simp_all add: alive_destroy)

text \<open>weak_ptr::lock.\<close>

definition lock :: "nat option \<Rightarrow> ptr_heap \<Rightarrow> (nat option \<times> ptr_heap) ub" where
  "lock w h = (case w of None \<Rightarrow> Some (None, h)
     | Some a \<Rightarrow> if a < length (uses h) then
           (if uses h ! a = 0 then Some (None, h) else map_option (Pair (Some a)) (copy_shared (Some a) h))
         else None)"

definition ptr_deref :: "nat option \<Rightarrow> ptr_heap \<Rightarrow> object ub" where
  "ptr_deref p h = do { a \<leftarrow> p; if a < length (objects h) then objects h ! a else None }"

text \<open>Assignment to the members of a node: the new owner is counted before the old one is released.\<close>

definition ptr_set_next :: "nat option \<Rightarrow> nat option \<Rightarrow> ptr_heap \<Rightarrow> ptr_heap ub" where
  "ptr_set_next p q h = do {
     a \<leftarrow> p;
     ob \<leftarrow> ptr_deref p h;
     case ob of
       Node n nx pa \<Rightarrow> do {
         h1 \<leftarrow> copy_shared q h;
         ptr_release nx (h1\<lparr>objects := (objects h1)[a := Some (Node n q pa)]\<rparr>) }
     | _ \<Rightarrow> None }"

definition set_parent :: "nat option \<Rightarrow> nat option \<Rightarrow> ptr_heap \<Rightarrow> ptr_heap ub" where
  "set_parent p q h = do {
     a \<leftarrow> p;
     ob \<leftarrow> ptr_deref p h;
     case ob of
       Node n nx pa \<Rightarrow> Some (h\<lparr>objects := (objects h)[a := Some (Node n nx q)]\<rparr>)
     | _ \<Rightarrow> None }"

section \<open>unique_ptr\<close>

definition createSensor :: "string \<Rightarrow> ptr_heap \<Rightarrow> object option \<times> ptr_heap" where
  "createSensor i h = (Some (Sensor i), ptr_say (created_line (Sensor i)) h)"

text \<open>The new pointer and the source afterwards.\<close>

definition move_unique :: "'a option \<Rightarrow> 'a option \<times> 'a option" where
  "move_unique p = (p, None)"

definition destroy_unique :: "object option \<Rightarrow> ptr_heap \<Rightarrow> ptr_heap" where
  "destroy_unique p h = (case p of None \<Rightarrow> h | Some ob \<Rightarrow> ptr_say (destroyed_line ob) h)"

fun sensor_id :: "object option \<Rightarrow> string ub" where
  "sensor_id (Some (Sensor i)) = Some i"
| "sensor_id _ = None"

text \<open>FileDeleter: whether the pointer holds a file.\<close>

definition FileDeleter :: "bool \<Rightarrow> ptr_heap \<Rightarrow> ptr_heap" where
  "FileDeleter fp h = (if fp then ptr_say [''  Custom deleter: closing file''] h else h)"

section \<open>main\<close>

text \<open>The argument says whether fopen of the null device succeeds.\<close>

definition smart_pointers_main :: "bool \<Rightarrow> string list ub" where
  "smart_pointers_main opens = do {
     let (sensor, h) = createSensor ''TEMP_01'' empty_ptr_heap;
     _ \<leftarrow> guard (sensor \<noteq> None);
     i \<leftarrow> sensor_id sensor;
     _ \<leftarrow> guard (i = ''TEMP_01'');
     let (sensor2, sensor) = move_unique sensor;
     _ \<leftarrow> guard (sensor = None);
     i \<leftarrow> sensor_id sensor2;
     _ \<leftarrow> guard (i = ''TEMP_01'');
     let h = destroy_unique sensor (destroy_unique sensor2 h);
     let (a, h) = make_shared (Sensor ''PRES_01'') h;
     let shared1 = Some a;
     k \<leftarrow> use_count shared1 h;
     _ \<leftarrow> guard (k = 1);
     let shared2 = shared1;
     h \<leftarrow> copy_shared shared2 h;
     k \<leftarrow> use_count shared1 h;
     _ \<leftarrow> guard (k = 2);
     k \<leftarrow> use_count shared2 h;
     _ \<leftarrow> guard (k = 2);
     h \<leftarrow> ptr_release shared2 h;
     k \<leftarrow> use_count shared1 h;
     _ \<leftarrow> guard (k = 1);
     h \<leftarrow> ptr_release shared1 h;
     let (a, h) = make_shared (Node ''Parent'' None None) h;
     let parent = Some a;
     let (a, h) = make_shared (Node ''Child'' None None) h;
     let child = Some a;
     h \<leftarrow> ptr_set_next parent child h;
     h \<leftarrow> set_parent child parent h;
     k \<leftarrow> use_count parent h;
     _ \<leftarrow> guard (k = 1);
     k \<leftarrow> use_count child h;
     _ \<leftarrow> guard (k = 2);
     ob \<leftarrow> ptr_deref child h;
     let observed = (case ob of Node n nx pa \<Rightarrow> pa | _ \<Rightarrow> None);
     (locked, h) \<leftarrow> lock observed h;
     h \<leftarrow> (if locked = None then Some h else do {
        ob \<leftarrow> ptr_deref locked h;
        let name = (case ob of Node n nx pa \<Rightarrow> n | _ \<Rightarrow> []);
        _ \<leftarrow> guard (name = ''Parent'');
        ptr_release locked (ptr_say [''  Child'' @ [CHR 0x27] @ ''s parent: '' @ name] h) });
     h \<leftarrow> ptr_release child h;
     h \<leftarrow> ptr_release parent h;
     let file = opens;
     _ \<leftarrow> guard file;
     let h = FileDeleter file h;
     let (arr, h) = make_shared (Int_array 10) h;
     h \<leftarrow> ptr_release (Some arr) h;
     _ \<leftarrow> guard (alive h = 0);
     Some (console h) }"

lemma smart_pointers_main_output:
  "smart_pointers_main True = Some
    [''  Sensor [TEMP_01] created'', ''  Sensor [TEMP_01] destroyed'',
     ''  Sensor [PRES_01] created'', ''  Sensor [PRES_01] destroyed'',
     ''  Node [Parent] created'', ''  Node [Child] created'',
     ''  Child'' @ [CHR 0x27] @ ''s parent: Parent'',
     ''  Node [Parent] destroyed'', ''  Node [Child] destroyed'',
     ''  Custom deleter: closing file'', ''  Lambda deleter: freeing array'']"
  by code_simp

section \<open>Programs over pointer variables\<close>

record pointers =
  vars :: "nat option list"
  shared :: ptr_heap

definition null_pointers :: "nat \<Rightarrow> pointers" where
  "null_pointers n = \<lparr>vars = replicate n None, shared = empty_ptr_heap\<rparr>"

datatype ptr_op =
    Make_node nat string
  | Assign nat nat
  | Move nat nat
  | Reset nat
  | Set_next nat nat
  | Set_parent nat nat
  | Lock_parent nat nat

fun parent_of :: "object \<Rightarrow> nat option ub" where
  "parent_of (Node n nx pa) = Some pa"
| "parent_of _ = None"

fun ptr_step :: "ptr_op \<Rightarrow> pointers \<Rightarrow> pointers ub" where
  "ptr_step (Make_node v n) w = do {
     p \<leftarrow> vget (vars w) (int v);
     let (a, h) = make_shared (Node n None None) (shared w);
     h \<leftarrow> ptr_release p h;
     Some \<lparr>vars = (vars w)[v := Some a], shared = h\<rparr> }"
| "ptr_step (Assign v u) w = do {
     p \<leftarrow> vget (vars w) (int v);
     q \<leftarrow> vget (vars w) (int u);
     h \<leftarrow> copy_shared q (shared w);
     h \<leftarrow> ptr_release p h;
     Some \<lparr>vars = (vars w)[v := q], shared = h\<rparr> }"
| "ptr_step (Move v u) w = do {
     p \<leftarrow> vget (vars w) (int v);
     q \<leftarrow> vget (vars w) (int u);
     if v = u then Some w else do {
       h \<leftarrow> ptr_release p (shared w);
       Some \<lparr>vars = (vars w)[v := q, u := None], shared = h\<rparr> } }"
| "ptr_step (Reset v) w = do {
     p \<leftarrow> vget (vars w) (int v);
     h \<leftarrow> ptr_release p (shared w);
     Some \<lparr>vars = (vars w)[v := None], shared = h\<rparr> }"
| "ptr_step (Set_next v u) w = do {
     p \<leftarrow> vget (vars w) (int v);
     q \<leftarrow> vget (vars w) (int u);
     h \<leftarrow> ptr_set_next p q (shared w);
     Some (w\<lparr>shared := h\<rparr>) }"
| "ptr_step (Set_parent v u) w = do {
     p \<leftarrow> vget (vars w) (int v);
     q \<leftarrow> vget (vars w) (int u);
     h \<leftarrow> set_parent p q (shared w);
     Some (w\<lparr>shared := h\<rparr>) }"
| "ptr_step (Lock_parent v u) w = do {
     p \<leftarrow> vget (vars w) (int v);
     q \<leftarrow> vget (vars w) (int u);
     ob \<leftarrow> ptr_deref q (shared w);
     pa \<leftarrow> parent_of ob;
     (l, h) \<leftarrow> lock pa (shared w);
     h \<leftarrow> ptr_release p h;
     Some \<lparr>vars = (vars w)[v := l], shared = h\<rparr> }"

fun ptr_run :: "ptr_op list \<Rightarrow> pointers \<Rightarrow> pointers ub" where
  "ptr_run [] w = Some w"
| "ptr_run (c # cs) w = do { w' \<leftarrow> ptr_step c w; ptr_run cs w' }"

text \<open>What the rules of the language ask of an operation: variables that exist, and no null pointer dereferenced.\<close>

fun permitted :: "ptr_op \<Rightarrow> nat option list \<Rightarrow> bool" where
  "permitted (Make_node v n) vs = (v < length vs)"
| "permitted (Assign v u) vs = (v < length vs \<and> u < length vs)"
| "permitted (Move v u) vs = (v < length vs \<and> u < length vs)"
| "permitted (Reset v) vs = (v < length vs)"
| "permitted (Set_next v u) vs = (v < length vs \<and> u < length vs \<and> vs ! v \<noteq> None)"
| "permitted (Set_parent v u) vs = (v < length vs \<and> u < length vs \<and> vs ! v \<noteq> None)"
| "permitted (Lock_parent v u) vs = (v < length vs \<and> u < length vs \<and> vs ! u \<noteq> None)"

section \<open>The count of every object is the number of its owners\<close>

fun owns :: "nat \<Rightarrow> object option \<Rightarrow> nat" where
  "owns a None = 0"
| "owns a (Some ob) = (if ptr_next_of ob = Some a then 1 else 0)"

definition use_of :: "ptr_heap \<Rightarrow> nat \<Rightarrow> nat" where
  "use_of h a = (if a < length (uses h) then uses h ! a else 0)"

definition is_node :: "nat \<Rightarrow> object option \<Rightarrow> bool" where
  "is_node m x \<longleftrightarrow> (case x of None \<Rightarrow> True
     | Some ob \<Rightarrow> (\<exists>n nx pa. ob = Node n nx pa \<and> (\<forall>b. pa = Some b \<longrightarrow> b < m)))"

fun ptr :: "nat option \<Rightarrow> nat multiset" where
  "ptr None = {#}"
| "ptr (Some a) = {#a#}"

text \<open>The pointers outside the heap are those of a multiset.\<close>

definition counts_ok :: "nat multiset \<Rightarrow> ptr_heap \<Rightarrow> bool" where
  "counts_ok L h \<longleftrightarrow> length (uses h) = length (objects h) \<and>
     (\<forall>a. use_of h a = count L a + weigh (owns a) (objects h)) \<and>
     (\<forall>a < length (objects h). objects h ! a = None \<longleftrightarrow> uses h ! a = 0) \<and>
     (\<forall>x \<in> set (objects h). is_node (length (objects h)) x)"

lemma counts_use: "counts_ok L h \<Longrightarrow> use_of h a = count L a + weigh (owns a) (objects h)"
  by (simp add: counts_ok_def)

lemma counts_length: "counts_ok L h \<Longrightarrow> length (uses h) = length (objects h)"
  by (simp add: counts_ok_def)

lemma counts_alive: "counts_ok L h \<Longrightarrow> a < length (objects h) \<Longrightarrow> objects h ! a = None \<longleftrightarrow> use_of h a = 0"
  by (simp add: counts_ok_def use_of_def)

lemma counts_node: "counts_ok L h \<Longrightarrow> a < length (objects h) \<Longrightarrow> is_node (length (objects h)) (objects h ! a)"
  by (simp add: counts_ok_def)

lemma use_of_pos: "0 < use_of h a \<Longrightarrow> counts_ok L h \<Longrightarrow> a < length (objects h) \<and> a < length (uses h) \<and> 0 < uses h ! a"
  by (auto simp: use_of_def counts_length split: if_splits)

lemma counts_held:
  assumes "counts_ok L h" and "0 < count L a"
  shows "a < length (objects h)" "a < length (uses h)" "0 < uses h ! a"
  using assms counts_use [OF assms(1), of a] use_of_pos [of h a L] by simp_all

text \<open>An object that is reachable by a pointer is a node.\<close>

lemma held_node:
  assumes "counts_ok L h" and "0 < count L a"
  obtains n nx pa where "objects h ! a = Some (Node n nx pa)" "\<And>b. pa = Some b \<Longrightarrow> b < length (objects h)"
proof -
  note a = counts_held [OF assms]
  have "objects h ! a \<noteq> None" using counts_alive [OF assms(1) a(1)] a by (simp add: use_of_def)
  then show ?thesis using counts_node [OF assms(1) a(1)] that by (auto simp: is_node_def split: option.splits)
qed

lemma say_simps [simp]: "objects (ptr_say ls h) = objects h" "uses (ptr_say ls h) = uses h" "use_of (ptr_say ls h) a = use_of h a"
  by (simp_all add: ptr_say_def use_of_def)

lemma counts_ok_sayI: "counts_ok L h \<Longrightarrow> counts_ok L (ptr_say ls h)"
  by (simp add: counts_ok_def)

lemma counts_make:
  assumes "counts_ok L h" and "make_shared (Node n None None) h = (a, h')"
  shows "counts_ok (add_mset a L) h'" "a = length (objects h)"
proof -
  note l = counts_length [OF assms(1)]
  show a: "a = length (objects h)" using assms(2) by (simp add: make_shared_def)
  have h': "objects h' = objects h @ [Some (Node n None None)]" "uses h' = uses h @ [1]"
    using assms(2) by (auto simp: make_shared_def ptr_say_def)
  have w: "weigh (owns b) (objects h') = weigh (owns b) (objects h)" for b by (simp add: h' weigh_def)
  have u: "use_of h' b = use_of h b + (if b = a then 1 else 0)" for b
    by (simp add: use_of_def h' nth_append l a)
  have "\<forall>x \<in> set (objects h'). is_node (length (objects h')) x"
    using assms(1) by (fastforce simp: h' counts_ok_def is_node_def split: option.splits)
  then show "counts_ok (add_mset a L) h'"
    using assms(1) unfolding counts_ok_def w u by (auto simp: h' nth_append l a less_Suc_eq)
qed

lemma counts_copy:
  assumes "counts_ok L h" and "0 < use_of h a"
  shows "\<exists>h'. copy_shared (Some a) h = Some h' \<and> counts_ok (add_mset a L) h' \<and> objects h' = objects h"
proof -
  note a = use_of_pos [OF assms(2,1)]
  define h' where "h' = h\<lparr>uses := (uses h)[a := uses h ! a + 1]\<rparr>"
  have u: "use_of h' b = use_of h b + (if b = a then 1 else 0)" for b using a by (auto simp: use_of_def h'_def)
  have "counts_ok (add_mset a L) h'"
    using assms(1) a unfolding counts_ok_def u by (auto simp: h'_def nth_list_update)
  then show ?thesis using a by (simp add: copy_shared_def h'_def)
qed

lemma counts_copy_ptr:
  assumes "counts_ok L h" and "ptr q \<subseteq># L"
  shows "\<exists>h'. copy_shared q h = Some h' \<and> counts_ok (ptr q + L) h' \<and> objects h' = objects h"
proof (cases q)
  case None
  then show ?thesis using assms by (simp add: copy_shared_def)
next
  case (Some a)
  then have "0 < use_of h a" using assms(2) counts_use [OF assms(1), of a] by simp
  then show ?thesis using counts_copy [OF assms(1)] Some by simp
qed

text \<open>The last owner's pointer leaves: what the object owned is owned by the destructor.\<close>

lemma counts_destroy:
  assumes "counts_ok (add_mset a L) h" and "uses h ! a = 1" and "objects h ! a = Some ob"
  shows "counts_ok (ptr (ptr_next_of ob) + L) (ptr_destroy a ob h)"
proof -
  have l: "a < length (objects h)" "a < length (uses h)" using counts_held [OF assms(1), of a] by simp_all
  have ua: "use_of h a = 1" using l assms(2) by (simp add: use_of_def)
  then have z: "count L a = 0" "weigh (owns a) (objects h) = 0" using counts_use [OF assms(1), of a] by simp_all
  then have self: "ptr_next_of ob \<noteq> Some a"
    using l(1) assms(3) nth_mem [OF l(1)] by (fastforce simp: weigh_0_iff)
  let ?h = "ptr_destroy a ob h"
  have o: "objects ?h = (objects h)[a := None]" "uses ?h = (uses h)[a := 0]" by (simp_all add: ptr_destroy_def)
  have w: "weigh (owns b) (objects ?h) + (if ptr_next_of ob = Some b then 1 else 0) = weigh (owns b) (objects h)" for b
    using weigh_update [OF l(1), of "owns b" None] assms(3) by (simp add: o)
  have u: "use_of ?h b = (if b = a then 0 else use_of h b)" for b using l by (simp add: use_of_def o)
  have "use_of ?h b = count (ptr (ptr_next_of ob) + L) b + weigh (owns b) (objects ?h)" for b
  proof (cases "b = a")
    case True
    then show ?thesis using w [of a] z self u [of a] by (cases "ptr_next_of ob") auto
  next
    case False
    have "count (ptr (ptr_next_of ob)) b = (if ptr_next_of ob = Some b then 1 else 0)" by (cases "ptr_next_of ob") auto
    then show ?thesis using False w [of b] u [of b] counts_use [OF assms(1), of b] by simp
  qed
  moreover have "\<forall>b < length (objects ?h). objects ?h ! b = None \<longleftrightarrow> uses ?h ! b = 0"
    using assms(1) l by (auto simp: o counts_ok_def nth_list_update)
  moreover have "\<forall>x \<in> set (objects ?h). is_node (length (objects ?h)) x"
    using assms(1) set_update_subset_insert [of "objects h" a None] by (fastforce simp: o counts_ok_def is_node_def)
  ultimately show ?thesis using counts_length [OF assms(1)] by (simp add: counts_ok_def o)
qed

lemma counts_release: "counts_ok (ptr p + L) h \<Longrightarrow> \<exists>h'. ptr_release p h = Some h' \<and> counts_ok L h'"
proof (induction p h arbitrary: L rule: ptr_release.induct)
  case (1 h)
  then show ?case by simp
next
  case (2 a h)
  have ok: "counts_ok (add_mset a L) h" using 2 by simp
  note a = counts_held [OF ok, of a, simplified]
  show ?case
  proof (cases "uses h ! a = 1")
    case True
    have "objects h ! a \<noteq> None" using counts_alive [OF ok a(1)] a by (simp add: use_of_def)
    then obtain ob where ob: "objects h ! a = Some ob" by blast
    have "counts_ok (ptr (ptr_next_of ob) + L) (ptr_destroy a ob h)" by (rule counts_destroy [OF ok True ob])
    then show ?thesis using "2.IH" a True ob by simp
  next
    case False
    define h' where "h' = h\<lparr>uses := (uses h)[a := uses h ! a - 1]\<rparr>"
    have u: "use_of h' b + (if b = a then 1 else 0) = use_of h b" for b using a by (auto simp: use_of_def h'_def)
    have c: "use_of h' b = count L b + weigh (owns b) (objects h')" for b
      using u [of b] counts_use [OF ok, of b] by (simp add: h'_def split: if_splits)
    moreover have "\<forall>b < length (objects h'). objects h' ! b = None \<longleftrightarrow> uses h' ! b = 0"
      using ok a False by (auto simp: h'_def counts_ok_def nth_list_update)
    ultimately have "counts_ok L h'"
      using ok by (simp add: counts_ok_def h'_def)
    then show ?thesis using a False by (simp add: h'_def)
  qed
qed

section \<open>Every operation keeps the counts\<close>

definition pointers_inv :: "pointers \<Rightarrow> bool" where
  "pointers_inv w \<longleftrightarrow> counts_ok (\<Sum>p \<leftarrow> vars w. ptr p) (shared w)"

lemma ptr_in_sum: "i < length ps \<Longrightarrow> (\<Sum>p \<leftarrow> ps. ptr p) = ptr (ps ! i) + (\<Sum>p \<leftarrow> ps[i := None]. ptr p)"
proof (induction ps arbitrary: i)
  case (Cons q ps)
  then show ?case by (cases i) (auto simp: add.left_commute)
qed simp

lemma no_ptrs [simp]: "sum_list (replicate n {#}) = {#}"
  by (induction n) simp_all

lemma sum_update: "i < length ps \<Longrightarrow> (\<Sum>p \<leftarrow> ps[i := q]. ptr p) = ptr q + (\<Sum>p \<leftarrow> ps[i := None]. ptr p)"
  using ptr_in_sum [of i "ps[i := q]"] by simp

text \<open>A variable takes a new pointer that is already counted, and the old one is released.\<close>

lemma replace_pointer:
  assumes "counts_ok (ptr q + (\<Sum>p \<leftarrow> vs. ptr p)) h" and "v < length vs"
  shows "\<exists>h'. ptr_release (vs ! v) h = Some h' \<and> pointers_inv \<lparr>vars = vs[v := q], shared = h'\<rparr>"
  using assms counts_release [of "vs ! v" "ptr q + (\<Sum>p \<leftarrow> vs[v := None]. ptr p)" h]
    ptr_in_sum [of v vs] sum_update [of v vs q]
  by (simp add: pointers_inv_def add.left_commute)

lemma inv_var: "pointers_inv w \<Longrightarrow> u < length (vars w) \<Longrightarrow> vars w ! u = Some a \<Longrightarrow> 0 < count (\<Sum>p \<leftarrow> vars w. ptr p) a"
  using ptr_in_sum [of u "vars w"] by simp

lemma step_make:
  assumes "pointers_inv w" and "v < length (vars w)"
  shows "\<exists>w'. ptr_step (Make_node v n) w = Some w' \<and> pointers_inv w' \<and> length (vars w') = length (vars w)"
proof -
  obtain a h where m: "make_shared (Node n None None) (shared w) = (a, h)" by fastforce
  have "counts_ok (ptr (Some a) + (\<Sum>p \<leftarrow> vars w. ptr p)) h"
    using counts_make(1) [OF _ m] assms(1) by (simp add: pointers_inv_def)
  then show ?thesis using replace_pointer [of "Some a" "vars w" h v] assms(2) m by auto
qed

lemma step_assign:
  assumes "pointers_inv w" and "v < length (vars w)" and "u < length (vars w)"
  shows "\<exists>w'. ptr_step (Assign v u) w = Some w' \<and> pointers_inv w' \<and> length (vars w') = length (vars w)"
proof -
  have "ptr (vars w ! u) \<subseteq># (\<Sum>p \<leftarrow> vars w. ptr p)" using ptr_in_sum [OF assms(3)] by simp
  then obtain h where h: "copy_shared (vars w ! u) (shared w) = Some h" "counts_ok (ptr (vars w ! u) + (\<Sum>p \<leftarrow> vars w. ptr p)) h"
    using counts_copy_ptr assms(1) unfolding pointers_inv_def by blast
  show ?thesis using replace_pointer [OF h(2) assms(2)] h(1) assms(2,3) by auto
qed

lemma step_move:
  assumes "pointers_inv w" and "v < length (vars w)" and "u < length (vars w)"
  shows "\<exists>w'. ptr_step (Move v u) w = Some w' \<and> pointers_inv w' \<and> length (vars w') = length (vars w)"
proof (cases "v = u")
  case True
  then show ?thesis using assms by simp
next
  case False
  let ?vs = "(vars w)[u := None]"
  have "counts_ok (ptr (vars w ! u) + (\<Sum>p \<leftarrow> ?vs. ptr p)) (shared w)"
    using assms ptr_in_sum [OF assms(3)] by (simp add: pointers_inv_def)
  then have "\<exists>h'. ptr_release (?vs ! v) (shared w) = Some h' \<and> pointers_inv \<lparr>vars = ?vs[v := vars w ! u], shared = h'\<rparr>"
    using replace_pointer [of "vars w ! u" ?vs "shared w" v] assms(2) by simp
  then show ?thesis using False assms(2,3) by (auto simp: list_update_swap)
qed

lemma step_reset:
  assumes "pointers_inv w" and "v < length (vars w)"
  shows "\<exists>w'. ptr_step (Reset v) w = Some w' \<and> pointers_inv w' \<and> length (vars w') = length (vars w)"
  using replace_pointer [of None "vars w" "shared w" v] assms by (auto simp: pointers_inv_def)

text \<open>The members of a node change: what it owned before is counted outside, what it owns now is not.\<close>

lemma node_update:
  assumes "counts_ok M h" and "objects h ! a = Some (Node n nx pa)" and "a < length (objects h)"
    and "\<And>b. pa' = Some b \<Longrightarrow> b < length (objects h)" and "M' + ptr q = M + ptr nx"
  shows "counts_ok M' (h\<lparr>objects := (objects h)[a := Some (Node n q pa')]\<rparr>)" (is "counts_ok _ ?h")
proof -
  have one: "count (ptr p) b = (if p = Some b then 1 else 0)" for p b by (cases p) auto
  have w: "weigh (owns b) (objects ?h) + count (ptr nx) b = weigh (owns b) (objects h) + count (ptr q) b" for b
    using weigh_update [OF assms(3), of "owns b" "Some (Node n q pa')"] assms(2) by (simp add: one)
  have m: "count M' b + count (ptr q) b = count M b + count (ptr nx) b" for b
    using arg_cong [OF assms(5), of "\<lambda>N. count N b"] by simp
  have "use_of ?h b = use_of h b" for b by (simp add: use_of_def)
  then have "use_of ?h b = count M' b + weigh (owns b) (objects ?h)" for b
    using w [of b] m [of b] counts_use [OF assms(1), of b] by simp
  moreover have "\<forall>b < length (objects ?h). objects ?h ! b = None \<longleftrightarrow> uses ?h ! b = 0"
    using assms(1-3) by (auto simp: counts_ok_def nth_list_update)
  moreover have "\<forall>x \<in> set (objects ?h). is_node (length (objects ?h)) x"
  proof
    fix x assume "x \<in> set (objects ?h)"
    then have "x = Some (Node n q pa') \<or> x \<in> set (objects h)"
      using in_update [of x "objects h" a] by simp
    then show "is_node (length (objects ?h)) x" using assms(1,4) by (auto simp: counts_ok_def is_node_def)
  qed
  ultimately show ?thesis using counts_length [OF assms(1)] by (simp add: counts_ok_def)
qed

lemma deref_held:
  assumes "counts_ok L h" and "0 < count L a"
  obtains n nx pa where "ptr_deref (Some a) h = Some (Node n nx pa)" "objects h ! a = Some (Node n nx pa)"
    "a < length (objects h)" "\<And>b. pa = Some b \<Longrightarrow> b < length (objects h)"
proof -
  obtain n nx pa where "objects h ! a = Some (Node n nx pa)" "\<And>b. pa = Some b \<Longrightarrow> b < length (objects h)"
    by (rule held_node [OF assms]) blast
  then show ?thesis using that counts_held(1) [OF assms] by (simp add: ptr_deref_def)
qed

lemma step_set_next:
  assumes "pointers_inv w" and "v < length (vars w)" and "u < length (vars w)" and "vars w ! v = Some a"
  shows "\<exists>w'. ptr_step (Set_next v u) w = Some w' \<and> pointers_inv w' \<and> length (vars w') = length (vars w)"
proof -
  let ?L = "\<Sum>p \<leftarrow> vars w. ptr p" and ?q = "vars w ! u"
  have ok: "counts_ok ?L (shared w)" using assms(1) by (simp add: pointers_inv_def)
  obtain n nx pa where node: "ptr_deref (Some a) (shared w) = Some (Node n nx pa)" "objects (shared w) ! a = Some (Node n nx pa)"
      "a < length (objects (shared w))" "\<And>b. pa = Some b \<Longrightarrow> b < length (objects (shared w))"
    by (rule deref_held [OF ok inv_var [OF assms(1,2,4)]]) blast
  have "ptr ?q \<subseteq># ?L" using ptr_in_sum [OF assms(3)] by simp
  then obtain h where h: "copy_shared ?q (shared w) = Some h" "counts_ok (ptr ?q + ?L) h" "objects h = objects (shared w)"
    using counts_copy_ptr [OF ok] by blast
  have "counts_ok (ptr nx + ?L) (h\<lparr>objects := (objects h)[a := Some (Node n ?q pa)]\<rparr>)"
    by (rule node_update [OF h(2)]) (use node h(3) in \<open>simp_all add: add.commute\<close>)
  then obtain h' where "ptr_release nx (h\<lparr>objects := (objects h)[a := Some (Node n ?q pa)]\<rparr>) = Some h'" "counts_ok ?L h'"
    using counts_release by blast
  then show ?thesis using assms(2-4) node(1) h(1) by (simp add: ptr_set_next_def pointers_inv_def)
qed

lemma step_set_parent:
  assumes "pointers_inv w" and "v < length (vars w)" and "u < length (vars w)" and "vars w ! v = Some a"
  shows "\<exists>w'. ptr_step (Set_parent v u) w = Some w' \<and> pointers_inv w' \<and> length (vars w') = length (vars w)"
proof -
  let ?L = "\<Sum>p \<leftarrow> vars w. ptr p" and ?q = "vars w ! u"
  have ok: "counts_ok ?L (shared w)" using assms(1) by (simp add: pointers_inv_def)
  obtain n nx pa where node: "ptr_deref (Some a) (shared w) = Some (Node n nx pa)" "objects (shared w) ! a = Some (Node n nx pa)"
      "a < length (objects (shared w))"
    by (rule deref_held [OF ok inv_var [OF assms(1,2,4)]]) blast
  have q: "b < length (objects (shared w))" if "?q = Some b" for b
    using counts_held(1) [OF ok inv_var [OF assms(1,3) that]] .
  have "counts_ok ?L ((shared w)\<lparr>objects := (objects (shared w))[a := Some (Node n nx ?q)]\<rparr>)"
    by (rule node_update [OF ok node(2,3) q refl])
  then show ?thesis using assms(2-4) node(1) by (simp add: set_parent_def pointers_inv_def)
qed

lemma step_lock_parent:
  assumes "pointers_inv w" and "v < length (vars w)" and "u < length (vars w)" and "vars w ! u = Some a"
  shows "\<exists>w'. ptr_step (Lock_parent v u) w = Some w' \<and> pointers_inv w' \<and> length (vars w') = length (vars w)"
proof -
  let ?L = "\<Sum>p \<leftarrow> vars w. ptr p"
  have ok: "counts_ok ?L (shared w)" using assms(1) by (simp add: pointers_inv_def)
  obtain n nx pa where node: "ptr_deref (Some a) (shared w) = Some (Node n nx pa)"
      "\<And>b. pa = Some b \<Longrightarrow> b < length (objects (shared w))"
    by (rule deref_held [OF ok inv_var [OF assms(1,3,4)]]) blast
  have "\<exists>l h. lock pa (shared w) = Some (l, h) \<and> counts_ok (ptr l + ?L) h"
  proof (cases pa)
    case None
    then show ?thesis using ok by (simp add: lock_def)
  next
    case (Some b)
    then have b: "b < length (uses (shared w))" using node(2) counts_length [OF ok] by simp
    show ?thesis
    proof (cases "uses (shared w) ! b = 0")
      case True
      then show ?thesis using Some b ok by (simp add: lock_def)
    next
      case False
      then have "0 < use_of (shared w) b" using b by (simp add: use_of_def)
      then show ?thesis using Some b False counts_copy [OF ok, of b] by (auto simp: lock_def)
    qed
  qed
  then obtain l h where l: "lock pa (shared w) = Some (l, h)" "counts_ok (ptr l + ?L) h" by blast
  show ?thesis using replace_pointer [OF l(2) assms(2)] l(1) node(1) assms(2-4) by auto
qed

lemma ptr_step_total:
  assumes "pointers_inv w" and "permitted c (vars w)"
  shows "\<exists>w'. ptr_step c w = Some w' \<and> pointers_inv w' \<and> length (vars w') = length (vars w)"
proof (cases c)
  case (Make_node v n)
  then show ?thesis using assms step_make by simp
next
  case (Assign v u)
  then show ?thesis using assms step_assign by simp
next
  case (Move v u)
  then show ?thesis using assms step_move by simp
next
  case (Reset v)
  then show ?thesis using assms step_reset by simp
next
  case (Set_next v u)
  then obtain a where "vars w ! v = Some a" using assms(2) by auto
  then show ?thesis using Set_next assms step_set_next [OF assms(1), of v u a] by (simp del: ptr_step.simps)
next
  case (Set_parent v u)
  then obtain a where "vars w ! v = Some a" using assms(2) by auto
  then show ?thesis using Set_parent assms step_set_parent [OF assms(1), of v u a] by (simp del: ptr_step.simps)
next
  case (Lock_parent v u)
  then obtain a where "vars w ! u = Some a" using assms(2) by auto
  then show ?thesis using Lock_parent assms step_lock_parent [OF assms(1), of v u a] by (simp del: ptr_step.simps)
qed

lemma ptr_step_forbidden: "\<not> permitted c (vars w) \<Longrightarrow> ptr_step c w = None"
  by (cases c) (auto simp: ptr_set_next_def set_parent_def ptr_deref_def)

lemma null_pointers_inv: "pointers_inv (null_pointers n)"
  by (simp add: pointers_inv_def null_pointers_def counts_ok_def empty_ptr_heap_def use_of_def weigh_def)

lemma ptr_run_inv: "pointers_inv w \<Longrightarrow> ptr_run cs w = Some w' \<Longrightarrow> pointers_inv w' \<and> length (vars w') = length (vars w)"
proof (induction cs arbitrary: w)
  case (Cons c cs)
  then obtain w1 where w1: "ptr_step c w = Some w1" "ptr_run cs w1 = Some w'" by (auto simp: bind_Some_conv)
  then have "pointers_inv w1 \<and> length (vars w1) = length (vars w)"
    using ptr_step_total [OF Cons.prems(1), of c] ptr_step_forbidden [of c w] by (cases "permitted c (vars w)") auto
  then show ?case using Cons.IH [of w1] w1(2) by simp
qed simp

lemma ptr_run_append: "ptr_run (cs @ ds) w = do { w' \<leftarrow> ptr_run cs w; ptr_run ds w' }"
  proof (induction cs arbitrary: w)
  case (Cons c cs)
  then show ?case by (cases "ptr_step c w") simp_all
qed simp

text \<open>
  C14: in a program over shared and weak pointers, an operation that dereferences no null pointer is
  never undefined: nothing is destroyed twice or used after it was destroyed, and the destructors end.
\<close>
theorem shared_pointers_never_dangle:
  "ptr_run cs (null_pointers n) = Some w \<Longrightarrow> ptr_run (cs @ [c]) (null_pointers n) = None \<longleftrightarrow> \<not> permitted c (vars w)"
  using ptr_step_total [of w c] ptr_step_forbidden [of c w] ptr_run_inv [OF null_pointers_inv]
  by (auto simp: ptr_run_append)

theorem shared_pointers_never_dangle_witness:
  "ptr_run ([Make_node 0 ''a''] @ [Set_next 0 1]) (null_pointers 2) = None \<longleftrightarrow>
    \<not> permitted (Set_next 0 1) [Some 0, None]"
proof -
  have "ptr_run [Make_node 0 ''a''] (null_pointers 2) = Some \<lparr>vars = [Some 0, None],
      shared = \<lparr>objects = [Some (Node ''a'' None None)], uses = [1], console = [''  Node [a] created'']\<rparr>\<rparr>"
    by code_simp
  from shared_pointers_never_dangle [OF this, of "Set_next 0 1"] show ?thesis by (simp only: pointers.simps)
qed

text \<open>
  Claim: use_count is the number of owners: the variables that hold the address and the living nodes
  whose next does; the weak pointers do not count, and an object is alive while it has an owner.
\<close>
theorem use_count_counts_owners:
  "ptr_run cs (null_pointers n) = Some w \<Longrightarrow> a < length (objects (shared w)) \<Longrightarrow>
   use_count (Some a) (shared w) =
     Some (length (filter (\<lambda>p. p = Some a) (vars w)) + length (filter (\<lambda>x. owns a x = 1) (objects (shared w)))) \<and>
   (objects (shared w) ! a = None \<longleftrightarrow> use_count (Some a) (shared w) = Some 0)"
proof -
  assume run: "ptr_run cs (null_pointers n) = Some w" and a: "a < length (objects (shared w))"
  have ok: "counts_ok (\<Sum>p \<leftarrow> vars w. ptr p) (shared w)"
    using ptr_run_inv [OF null_pointers_inv run] by (simp add: pointers_inv_def)
  have "count (\<Sum>p \<leftarrow> ps. ptr p) a = length (filter (\<lambda>p. p = Some a) ps)" for ps
  proof (induction ps)
    case (Cons p ps)
    then show ?case by (cases p) auto
  qed simp
  moreover have "weigh (owns a) xs = length (filter (\<lambda>x. owns a x = 1) xs)" for xs
  proof (induction xs)
    case (Cons x xs)
    then show ?case by (cases x) (auto simp: weigh_def)
  qed (simp add: weigh_def)
  ultimately show ?thesis
    using counts_use [OF ok, of a] counts_alive [OF ok a] counts_length [OF ok] a by (simp add: use_count_def use_of_def)
qed

theorem use_count_counts_owners_witness:
  "use_count (Some 0) \<lparr>objects = [Some (Node ''a'' None None)], uses = [2], console = [''  Node [a] created'']\<rparr> = Some 2"
proof -
  have "ptr_run [Make_node 0 ''a'', Assign 1 0] (null_pointers 2) = Some \<lparr>vars = [Some 0, Some 0],
      shared = \<lparr>objects = [Some (Node ''a'' None None)], uses = [2], console = [''  Node [a] created'']\<rparr>\<rparr>"
    by code_simp
  from use_count_counts_owners [OF this, of 0] show ?thesis by simp
qed

section \<open>Leaks\<close>

lemma owner_exists: "weigh (owns a) xs \<noteq> 0 \<Longrightarrow> \<exists>b < length xs. \<exists>n pa. xs ! b = Some (Node n (Some a) pa)"
proof -
  assume "weigh (owns a) xs \<noteq> 0"
  then obtain x where x: "x \<in> set xs" "owns a x \<noteq> 0" by (auto simp: weigh_0_iff)
  obtain ob where "x = Some ob" "ptr_next_of ob = Some a" using x(2) by (cases x) (auto split: if_splits)
  then show ?thesis using x(1) by (cases ob) (auto simp: in_set_conv_nth)
qed

text \<open>
  C31: nothing leaks without a cycle: when the variables are gone and the next pointers of what is
  alive lead downwards in some ranking, nothing is alive.
\<close>
theorem no_leak_without_cycle:
  assumes "ptr_run cs (null_pointers n) = Some w" and "vars w = replicate n None"
    and "\<And>a b m pa. a < length (objects (shared w)) \<Longrightarrow> objects (shared w) ! a = Some (Node m (Some b) pa) \<Longrightarrow> rank b < (rank a :: nat)"
  shows "alive (shared w) = 0"
proof -
  let ?os = "objects (shared w)"
  have ok: "counts_ok {#} (shared w)"
    using ptr_run_inv [OF null_pointers_inv assms(1)] assms(2) by (simp add: pointers_inv_def)
  have dead: "?os ! a = None" if "a < length ?os" for a
    using that
  proof (induction "Max (rank ` {..<length ?os}) - rank a" arbitrary: a rule: less_induct)
    case less
    show ?case
    proof (rule ccontr)
      assume "?os ! a \<noteq> None"
      then have "weigh (owns a) ?os \<noteq> 0" using counts_alive [OF ok less.prems] counts_use [OF ok, of a] by simp
      then obtain b m pa where b: "b < length ?os" "?os ! b = Some (Node m (Some a) pa)" using owner_exists by blast
      then have "rank a < rank b" by (rule assms(3))
      moreover have "rank b \<le> Max (rank ` {..<length ?os})" using b(1) by simp
      ultimately have "?os ! b = None" using less.hyps [OF _ b(1)] by simp
      then show False using b(2) by simp
    qed
  qed
  have "living x = 0" if "x \<in> set ?os" for x
    using dead that by (auto simp: in_set_conv_nth)
  then show ?thesis by (simp add: alive_def weigh_0_iff)
qed

text \<open>The demonstration's chain: the parent owns the child, and the child only observes the parent.\<close>

definition family :: "ptr_op list" where
  "family = [Make_node 0 ''Parent'', Make_node 1 ''Child'', Set_next 0 1, Set_parent 1 0, Reset 1, Reset 0]"

theorem no_leak_without_cycle_witness:
  "\<exists>w. ptr_run family (null_pointers 2) = Some w \<and> alive (shared w) = 0"
proof -
  let ?w = "\<lparr>vars = [None, None], shared = \<lparr>objects = [None, None], uses = [0, 0],
    console = [''  Node [Parent] created'', ''  Node [Child] created'', ''  Node [Parent] destroyed'', ''  Node [Child] destroyed'']\<rparr>\<rparr>"
  have run: "ptr_run family (null_pointers 2) = Some ?w" by code_simp
  have "alive (shared ?w) = 0"
    by (rule no_leak_without_cycle [OF run, of id]) (auto simp: eval_nat_numeral less_Suc_eq)
  then show ?thesis using run by blast
qed

text \<open>The pitfall that the code warns of: two nodes that own each other outlive every variable.\<close>

lemma owning_cycle_leaks:
  "map_option (\<lambda>w. (vars w, alive (shared w)))
     (ptr_run [Make_node 0 ''a'', Make_node 1 ''b'', Set_next 0 1, Set_next 1 0, Reset 1, Reset 0] (null_pointers 2)) =
   Some ([None, None], 2)"
  by code_simp

end
