(* ===== verification/Raii.thy ===== *)
theory Raii
  imports Prelude
begin

text \<open>
  src/src/modern_cpp/raii.cpp and src/src/modern_cpp/practical/raii_patterns.cpp: scopes whose objects are
  destroyed on every way out, exceptions included, over explicit open files, a mutex, the handles of the
  C interface and the console. An object of a scope is threaded through its body. Closing a file twice,
  unlocking a free mutex, deleting a handle twice and an exception that leaves main are undefined (None).
  Whether a file can be opened and what the clock reads are parameters.
\<close>

section \<open>Scopes and stack unwinding\<close>

datatype 'a outcome = Returned 'a | Thrown string

type_synonym ('s, 'a) prog = "'s \<Rightarrow> ('s \<times> 'a outcome) ub"

text \<open>An object with its constructor and destructor, and the statements after it up to the end of its block.\<close>

definition scoped :: "('s, 'o) prog \<Rightarrow> ('o \<Rightarrow> 's \<Rightarrow> 's ub) \<Rightarrow> ('o \<times> 's, 'a) prog \<Rightarrow> ('s, 'a) prog" where
  "scoped ctor dtor body s = do {
     (s1, r) \<leftarrow> ctor s;
     case r of
       Thrown e \<Rightarrow> Some (s1, Thrown e)
     | Returned x \<Rightarrow> do {
         ((x', s2), out) \<leftarrow> body (x, s1);
         s3 \<leftarrow> dtor x' s2;
         Some (s3, out) } }"

definition try_catch :: "('s, 'a) prog \<Rightarrow> (string \<Rightarrow> ('s, 'a) prog) \<Rightarrow> ('s, 'a) prog" where
  "try_catch body handler s = do {
     (s1, r) \<leftarrow> body s;
     case r of Returned a \<Rightarrow> Some (s1, Returned a) | Thrown e \<Rightarrow> handler e s1 }"

text \<open>A statement of main: an exception that nothing catches ends the program.\<close>

definition uncaught :: "('s, 'a) prog \<Rightarrow> 's \<Rightarrow> 's ub" where
  "uncaught p s = do { (s1, r) \<leftarrow> p s; case r of Returned a \<Rightarrow> Some s1 | Thrown e \<Rightarrow> None }"

record env =
  console :: "string list"
  files :: "string option list"
  locked :: bool
  handles :: "(int \<times> bool) option list"
  clock :: "nat \<Rightarrow> int"
  reads :: nat

definition start :: "(nat \<Rightarrow> int) \<Rightarrow> env" where
  "start c = \<lparr>console = [], files = [], locked = False, handles = [], clock = c, reads = 0\<rparr>"

definition raii_say :: "string \<Rightarrow> env \<Rightarrow> env" where
  "raii_say l e = e\<lparr>console := console e @ [l]\<rparr>"

section \<open>FileHandle\<close>

definition fopen :: "(string \<Rightarrow> string \<Rightarrow> bool) \<Rightarrow> string \<Rightarrow> string \<Rightarrow> env \<Rightarrow> nat option \<times> env" where
  "fopen can p mode e = (if can p mode then (Some (length (files e)), e\<lparr>files := files e @ [Some p]\<rparr>) else (None, e))"

definition fclose :: "nat \<Rightarrow> env \<Rightarrow> env ub" where
  "fclose a e = (if a < length (files e) \<and> files e ! a \<noteq> None then Some (e\<lparr>files := (files e)[a := None]\<rparr>) else None)"

record FileHandle =
  fp :: "nat option"
  fpath :: string

definition new_FileHandle :: "(string \<Rightarrow> string \<Rightarrow> bool) \<Rightarrow> string \<Rightarrow> string \<Rightarrow> (env, FileHandle) prog" where
  "new_FileHandle can p mode e = (case fopen can p mode e of
     (None, e1) \<Rightarrow> Some (e1, Thrown (''Failed to open: '' @ p))
   | (Some a, e1) \<Rightarrow> Some (raii_say (''  [FileHandle] Opened: '' @ p) e1, Returned \<lparr>fp = Some a, fpath = p\<rparr>))"

definition destroy_FileHandle :: "FileHandle \<Rightarrow> env \<Rightarrow> env ub" where
  "destroy_FileHandle f e = (case fp f of
     None \<Rightarrow> Some e
   | Some a \<Rightarrow> map_option (raii_say (''  [FileHandle] Closed: '' @ fpath f)) (fclose a e))"

text \<open>The new object and the source afterwards, whose path is the moved-from string.\<close>

definition move_FileHandle :: "string \<Rightarrow> FileHandle \<Rightarrow> FileHandle \<times> FileHandle" where
  "move_FileHandle junk other = (other, \<lparr>fp = None, fpath = junk\<rparr>)"

definition isOpen :: "FileHandle \<Rightarrow> bool" where
  "isOpen f \<longleftrightarrow> fp f \<noteq> None"

section \<open>ScopedLock\<close>

definition new_ScopedLock :: "(env, unit) prog" where
  "new_ScopedLock e = (if locked e then None else Some (raii_say ''  [ScopedLock] Acquired'' (e\<lparr>locked := True\<rparr>), Returned ()))"

definition destroy_ScopedLock :: "unit \<Rightarrow> env \<Rightarrow> env ub" where
  "destroy_ScopedLock l e = (if locked e then Some (raii_say ''  [ScopedLock] Released'' (e\<lparr>locked := False\<rparr>)) else None)"

section \<open>ScopeGuard\<close>

record 's ScopeGuard =
  cleanup :: "'s \<Rightarrow> 's ub"
  active :: bool

definition new_ScopeGuard :: "('s \<Rightarrow> 's ub) \<Rightarrow> ('s, 's ScopeGuard) prog" where
  "new_ScopeGuard f s = Some (s, Returned \<lparr>cleanup = f, active = True\<rparr>)"

definition destroy_ScopeGuard :: "'s ScopeGuard \<Rightarrow> 's \<Rightarrow> 's ub" where
  "destroy_ScopeGuard g s = (if active g then cleanup g s else Some s)"

definition dismiss :: "'s ScopeGuard \<Rightarrow> 's ScopeGuard" where
  "dismiss g = g\<lparr>active := False\<rparr>"

text \<open>The new object and the source afterwards.\<close>

definition move_ScopeGuard :: "'s ScopeGuard \<Rightarrow> 's ScopeGuard \<times> 's ScopeGuard" where
  "move_ScopeGuard other = (other, other\<lparr>active := False\<rparr>)"

section \<open>raii.cpp: riskyOperation and main\<close>

definition riskyOperation :: "(string \<Rightarrow> string \<Rightarrow> bool) \<Rightarrow> bool \<Rightarrow> (env, unit) prog" where
  "riskyOperation can shouldThrow =
     scoped (new_FileHandle can ''/dev/null'' ''w'') destroy_FileHandle (\<lambda>(file, e).
       let e = raii_say ''  Doing work with file...'' e in
       if shouldThrow then Some ((file, e), Thrown ''Something went wrong!'')
       else Some ((file, raii_say ''  Work completed successfully'' e), Returned ()))"

definition raii_main :: "(string \<Rightarrow> string \<Rightarrow> bool) \<Rightarrow> string list ub" where
  "raii_main can = do {
     let e = start (\<lambda>_. 0);
     e \<leftarrow> uncaught (scoped (new_FileHandle can ''/dev/null'' ''w'') destroy_FileHandle (\<lambda>(f, e).
            do { _ \<leftarrow> guard (isOpen f); Some ((f, e), Returned ()) })) e;
     e \<leftarrow> uncaught (try_catch (riskyOperation can True) (\<lambda>w e.
            Some (raii_say ''  File was still properly closed (RAII guarantee)!'' (raii_say (''  Caught: '' @ w) e), Returned ()))) e;
     e \<leftarrow> uncaught (scoped new_ScopedLock destroy_ScopedLock (\<lambda>(l, e).
            Some ((l, raii_say ''  Critical section lock held'' e), Returned ()))) e;
     let resource_id = (42 :: int);
     e \<leftarrow> uncaught (scoped
            (new_ScopeGuard (\<lambda>e. Some (raii_say (''  [ScopeGuard] Cleaning up resource '' @ show_int resource_id) e)))
            destroy_ScopeGuard (\<lambda>(g, e).
            Some ((g, raii_say (''  Using resource '' @ show_int resource_id @ ''...'') e), Returned ()))) e;
     Some (console e) }"

lemma raii_main_output:
  "raii_main (\<lambda>_ _. True) = Some
    [''  [FileHandle] Opened: /dev/null'', ''  [FileHandle] Closed: /dev/null'',
     ''  [FileHandle] Opened: /dev/null'', ''  Doing work with file...'', ''  [FileHandle] Closed: /dev/null'',
     ''  Caught: Something went wrong!'', ''  File was still properly closed (RAII guarantee)!'',
     ''  [ScopedLock] Acquired'', ''  Critical section lock held'', ''  [ScopedLock] Released'',
     ''  Using resource 42...'', ''  [ScopeGuard] Cleaning up resource 42'']"
  by code_simp

section \<open>raii_patterns.cpp: handles, timers and transactions\<close>

definition c_api_open :: "int \<Rightarrow> env \<Rightarrow> nat \<times> env" where
  "c_api_open i e = (length (handles e), raii_say (''  [C API] Opened handle '' @ show_int i) (e\<lparr>handles := handles e @ [Some (i, True)]\<rparr>))"

definition c_api_close :: "nat option \<Rightarrow> env \<Rightarrow> env ub" where
  "c_api_close h e = (case h of None \<Rightarrow> Some e
     | Some a \<Rightarrow> if a < length (handles e) then
           (case handles e ! a of None \<Rightarrow> None
            | Some (i, is_open) \<Rightarrow> Some (raii_say (''  [C API] Closed handle '' @ show_int i) (e\<lparr>handles := (handles e)[a := None]\<rparr>)))
         else None)"

definition make_safe_handle :: "int \<Rightarrow> (env, nat option) prog" where
  "make_safe_handle i e = (let (a, e1) = c_api_open i e in Some (e1, Returned (Some a)))"

definition handle_open :: "nat option \<Rightarrow> env \<Rightarrow> bool ub" where
  "handle_open h e = do { a \<leftarrow> h; if a < length (handles e) then map_option snd (handles e ! a) else None }"

record TimerGuard =
  tlabel :: string
  started :: int

definition now :: "env \<Rightarrow> int \<times> env" where
  "now e = (clock e (reads e), e\<lparr>reads := reads e + 1\<rparr>)"

text \<open>duration_cast from nanoseconds, which truncates.\<close>

definition to_microseconds :: "int \<Rightarrow> int" where
  "to_microseconds d = (if d < 0 then - (- d div 1000) else d div 1000)"

definition new_TimerGuard :: "string \<Rightarrow> (env, TimerGuard) prog" where
  "new_TimerGuard l e = (let (t, e1) = now e in Some (e1, Returned \<lparr>tlabel = l, started = t\<rparr>))"

definition destroy_TimerGuard :: "TimerGuard \<Rightarrow> env \<Rightarrow> env ub" where
  "destroy_TimerGuard g e = do {
     let (t, e1) = now e;
     d \<leftarrow> chk_long (t - started g);
     Some (raii_say (''[TIMER] '' @ tlabel g @ '': '' @ show_int (to_microseconds d) @ '' '' @ [CHR 0xC2, CHR 0xB5] @ ''s'') e1) }"

record DatabaseTransaction =
  tname :: string
  committed :: bool

definition new_transaction :: "string \<Rightarrow> (env, DatabaseTransaction) prog" where
  "new_transaction n e = Some (raii_say (''  [DB] BEGIN '' @ n) e, Returned \<lparr>tname = n, committed = False\<rparr>)"

definition destroy_transaction :: "DatabaseTransaction \<Rightarrow> env \<Rightarrow> env ub" where
  "destroy_transaction t e = Some (if committed t then e else raii_say (''  [DB] ROLLBACK '' @ tname t) e)"

definition commit :: "DatabaseTransaction \<times> env \<Rightarrow> DatabaseTransaction \<times> env" where
  "commit = (\<lambda>(t, e). (t\<lparr>committed := True\<rparr>, raii_say (''  [DB] COMMIT '' @ tname t) e))"

text \<open>The variable that the lambdas capture by reference is paired with the rest of the state.\<close>

definition demonstrate_scope_guard :: "env \<Rightarrow> env ub" where
  "demonstrate_scope_guard e = do {
     let resource = (0 :: int);
     let resource = 42;
     (resource, e) \<leftarrow> uncaught (scoped
        (new_ScopeGuard (\<lambda>(resource, e). Some (0, raii_say ''  ScopeGuard: resource cleaned up'' e)))
        destroy_ScopeGuard (\<lambda>(g, resource, e).
          Some ((g, resource, raii_say (''  Resource in use: '' @ show_int resource) e), Returned ()))) (resource, e);
     _ \<leftarrow> guard (resource = 0);
     let resource = 100;
     (resource, e) \<leftarrow> uncaught (scoped (new_ScopeGuard (\<lambda>(resource, e). Some (0, e)))
        destroy_ScopeGuard (\<lambda>(g, s). Some ((dismiss g, s), Returned ()))) (resource, e);
     _ \<leftarrow> guard (resource = 100);
     Some (raii_say (''  Dismissed guard: resource kept at '' @ show_int resource) e) }"

definition demonstrate_timer :: "env \<Rightarrow> env ub" where
  "demonstrate_timer = uncaught (scoped (new_TimerGuard ''sleep 1ms'') destroy_TimerGuard (\<lambda>s. Some (s, Returned ())))"

definition demonstrate_c_api_wrapper :: "env \<Rightarrow> env ub" where
  "demonstrate_c_api_wrapper = uncaught (scoped (make_safe_handle 1) c_api_close
     (scoped (\<lambda>(h1, e). do { (e1, r) \<leftarrow> make_safe_handle 2 e; Some ((h1, e1), r) })
        (\<lambda>h2 (h1, e). map_option (Pair h1) (c_api_close h2 e))
        (\<lambda>(h2, h1, e). do {
           a \<leftarrow> handle_open h1 e;
           _ \<leftarrow> guard a;
           b \<leftarrow> handle_open h2 e;
           _ \<leftarrow> guard b;
           Some ((h2, h1, e), Returned ()) })))"

definition demonstrate_transaction :: "env \<Rightarrow> env ub" where
  "demonstrate_transaction e = do {
     e \<leftarrow> uncaught (scoped (new_transaction ''insert_user'') destroy_transaction (\<lambda>s.
        do { let s = commit s; _ \<leftarrow> guard (committed (fst s)); Some (s, Returned ()) })) e;
     uncaught (scoped (new_transaction ''transfer_funds'') destroy_transaction (\<lambda>s. Some (s, Returned ()))) e }"

definition raii_patterns_main :: "(nat \<Rightarrow> int) \<Rightarrow> string list ub" where
  "raii_patterns_main c = do {
     e \<leftarrow> demonstrate_scope_guard (start c);
     e \<leftarrow> demonstrate_timer e;
     e \<leftarrow> demonstrate_c_api_wrapper e;
     e \<leftarrow> demonstrate_transaction e;
     Some (console e) }"

lemma raii_patterns_main_output:
  "raii_patterns_main (\<lambda>k. 5000000 + int k * 1057123) = Some
    [''  Resource in use: 42'', ''  ScopeGuard: resource cleaned up'', ''  Dismissed guard: resource kept at 100'',
     ''[TIMER] sleep 1ms: 1057 '' @ [CHR 0xC2, CHR 0xB5] @ ''s'',
     ''  [C API] Opened handle 1'', ''  [C API] Opened handle 2'', ''  [C API] Closed handle 2'', ''  [C API] Closed handle 1'',
     ''  [DB] BEGIN insert_user'', ''  [DB] COMMIT insert_user'', ''  [DB] BEGIN transfer_funds'', ''  [DB] ROLLBACK transfer_funds'']"
  by code_simp

section \<open>What a resource-owning class promises\<close>

text \<open>
  The constructor acquires something, or throws and has acquired nothing; the destructor gives back
  what the constructor acquired, whatever else has happened to the state.
\<close>

locale resource =
  fixes acquire :: "('s, 'o) prog"
    and give_back :: "'o \<Rightarrow> 's \<Rightarrow> 's ub"
    and held :: "'s \<Rightarrow> 'h"
  assumes throws_empty: "acquire s = Some (s1, Thrown e) \<Longrightarrow> held s1 = held s"
    and balanced: "acquire s = Some (s1, Returned x) \<Longrightarrow> held t = held s1 \<Longrightarrow>
      \<exists>t1. give_back x t = Some t1 \<and> held t1 = held s"
begin

text \<open>The body may return or throw, and may use and release resources of its own.\<close>

lemma scope_balanced:
  assumes "acquire s \<noteq> None"
    and "\<And>s1 x. acquire s = Some (s1, Returned x) \<Longrightarrow> \<exists>t. body (x, s1) = Some ((x, t), out) \<and> held t = held s1"
  shows "\<exists>t r. scoped acquire give_back body s = Some (t, r) \<and> held t = held s \<and>
    (r = out \<or> (\<exists>e. r = Thrown e \<and> acquire s = Some (t, Thrown e)))"
proof -
  obtain s1 r where a: "acquire s = Some (s1, r)" using assms(1) by auto
  show ?thesis
  proof (cases r)
    case (Returned x)
    then obtain t where t: "body (x, s1) = Some ((x, t), out)" "held t = held s1" using assms(2) a by blast
    obtain t1 where "give_back x t = Some t1" "held t1 = held s" using balanced [of s s1 x t] a t(2) Returned by blast
    then show ?thesis using a t Returned by (simp add: scoped_def)
  next
    case (Thrown e)
    then show ?thesis using throws_empty a by (simp add: scoped_def)
  qed
qed

end

text \<open>The files that are open, and under which path.\<close>

definition open_files :: "env \<Rightarrow> (nat \<times> string) set" where
  "open_files e = {(a, p). a < length (files e) \<and> files e ! a = Some p}"

definition open_handles :: "env \<Rightarrow> (nat \<times> int \<times> bool) set" where
  "open_handles e = {(a, h). a < length (handles e) \<and> handles e ! a = Some h}"

lemma say_env_simps [simp]: "files (raii_say l e) = files e" "handles (raii_say l e) = handles e" "locked (raii_say l e) = locked e"
    "console (raii_say l e) = console e @ [l]" "open_files (raii_say l e) = open_files e" "open_handles (raii_say l e) = open_handles e"
  by (simp_all add: raii_say_def open_files_def open_handles_def)

text \<open>A table of slots, of which an append takes a fresh one and a removal frees one.\<close>

lemma slots_append: "{(a, x). a < length (xs @ [Some y]) \<and> (xs @ [Some y]) ! a = Some x} =
    insert (length xs, y) {(a, x). a < length xs \<and> xs ! a = Some x}"
  by (auto simp: nth_append less_Suc_eq split: if_splits)

lemma slots_free:
  assumes "{(a, x). a < length ys \<and> ys ! a = Some x} = insert (length xs, y) {(a, x). a < length xs \<and> xs ! a = Some x}"
  shows "length xs < length ys \<and> ys ! length xs = Some y \<and>
    {(a, x). a < length ys \<and> (ys[length xs := None]) ! a = Some x} = {(a, x). a < length xs \<and> xs ! a = Some x}"
proof -
  have iff: "a < length ys \<and> ys ! a = Some x \<longleftrightarrow> (a = length xs \<and> x = y) \<or> (a < length xs \<and> xs ! a = Some x)" for a x
  proof -
    have "(a, x) \<in> {(a, x). a < length ys \<and> ys ! a = Some x} \<longleftrightarrow>
        (a, x) \<in> insert (length xs, y) {(a, x). a < length xs \<and> xs ! a = Some x}"
      by (simp only: assms)
    then show ?thesis by simp
  qed
  have "(a < length ys \<and> (ys[length xs := None]) ! a = Some x) \<longleftrightarrow> (a < length xs \<and> xs ! a = Some x)" for a x
    using iff [of a x] by (cases "a = length xs") (auto simp: nth_list_update)
  then show ?thesis using iff [of "length xs" y] by simp
qed

interpretation file_handle: resource "new_FileHandle can p mode" destroy_FileHandle open_files
proof
  fix s s1 e assume "new_FileHandle can p mode s = Some (s1, Thrown e)"
  then show "open_files s1 = open_files s" by (auto simp: new_FileHandle_def fopen_def split: if_splits)
next
  fix s s1 x t
  assume a: "new_FileHandle can p mode s = Some (s1, Returned x)" "open_files t = open_files s1"
  then have x: "x = \<lparr>fp = Some (length (files s)), fpath = p\<rparr>" "files s1 = files s @ [Some p]"
    by (auto simp: new_FileHandle_def fopen_def split: if_splits)
  have "open_files t = insert (length (files s), p) (open_files s)"
    using a(2) x(2) slots_append [of "files s" p] by (simp add: open_files_def)
  then have f: "length (files s) < length (files t) \<and> files t ! length (files s) = Some p \<and>
      {(a, x). a < length (files t) \<and> (files t)[length (files s) := None] ! a = Some x} = open_files s"
    using slots_free [of "files t" "files s" p] by (simp add: open_files_def)
  then show "\<exists>t1. destroy_FileHandle x t = Some t1 \<and> open_files t1 = open_files s"
    by (simp add: destroy_FileHandle_def fclose_def x(1)) (simp add: open_files_def)
qed

interpretation scoped_lock: resource new_ScopedLock destroy_ScopedLock locked
  by unfold_locales (auto simp: new_ScopedLock_def destroy_ScopedLock_def split: if_splits)

interpretation safe_handle: resource "make_safe_handle i" c_api_close open_handles
proof
  fix s s1 e assume "make_safe_handle i s = Some (s1, Thrown e)"
  then show "open_handles s1 = open_handles s" by (simp add: make_safe_handle_def c_api_open_def)
next
  fix s s1 x t
  assume a: "make_safe_handle i s = Some (s1, Returned x)" "open_handles t = open_handles s1"
  then have x: "x = Some (length (handles s))" "handles s1 = handles s @ [Some (i, True)]"
    by (auto simp: make_safe_handle_def c_api_open_def)
  have "open_handles t = insert (length (handles s), (i, True)) (open_handles s)"
    using a(2) x(2) slots_append [of "handles s" "(i, True)"] by (simp add: open_handles_def)
  then have f: "length (handles s) < length (handles t) \<and> handles t ! length (handles s) = Some (i, True) \<and>
      {(a, x). a < length (handles t) \<and> (handles t)[length (handles s) := None] ! a = Some x} = open_handles s"
    using slots_free [of "handles t" "handles s" "(i, True)"] by (simp add: open_handles_def)
  then show "\<exists>t1. c_api_close x t = Some t1 \<and> open_handles t1 = open_handles s"
    by (simp add: c_api_close_def x(1)) (simp add: open_handles_def)
qed

text \<open>
  C32: riskyOperation closes its file on every way out: it returns, throws its own exception, or throws
  because the file cannot be opened, and in each case the files that are open are those open before.
\<close>
theorem riskyOperation_closes_file:
  "\<exists>t. riskyOperation can shouldThrow e =
      Some (t, if \<not> can ''/dev/null'' ''w'' then Thrown ''Failed to open: /dev/null''
               else if shouldThrow then Thrown ''Something went wrong!'' else Returned ()) \<and>
    open_files t = open_files e"
proof -
  let ?out = "if shouldThrow then Thrown ''Something went wrong!'' else Returned ()"
  let ?body = "\<lambda>(file, e).
       let e = raii_say ''  Doing work with file...'' e in
       if shouldThrow then Some ((file, e), Thrown ''Something went wrong!'')
       else Some ((file, raii_say ''  Work completed successfully'' e), Returned ())"
  let ?new = "new_FileHandle can ''/dev/null'' ''w''"
  have "\<exists>t r. scoped ?new destroy_FileHandle ?body e = Some (t, r) \<and> open_files t = open_files e \<and>
      (r = ?out \<or> (\<exists>w. r = Thrown w \<and> ?new e = Some (t, Thrown w)))"
    by (rule file_handle.scope_balanced) (auto simp: new_FileHandle_def fopen_def)
  then show ?thesis
    by (cases "can ''/dev/null'' ''w''")
       (auto simp: riskyOperation_def scoped_def new_FileHandle_def fopen_def bind_Some_conv split: if_splits outcome.splits)
qed

text \<open>The two handles of the C interface are closed in the reverse order of their opening.\<close>

lemma c_api_wrapper_closes:
  "\<exists>t. demonstrate_c_api_wrapper e = Some t \<and> open_handles t = open_handles e \<and>
     console t = console e @ [''  [C API] Opened handle 1'', ''  [C API] Opened handle 2'',
       ''  [C API] Closed handle 2'', ''  [C API] Closed handle 1'']"
proof -
  have n: "show_int 1 = ''1''" "show_int 2 = ''2''" by code_simp+
  have h: "(handles e @ [x, y]) ! Suc (length (handles e)) = y" "(handles e @ [x, y]) ! length (handles e) = x"
    "(handles e @ [x])[length (handles e) := y] = handles e @ [y]"
    "(handles e @ [x, y])[Suc (length (handles e)) := z] = handles e @ [x, z]"
    "(handles e @ [x, y])[length (handles e) := z] = handles e @ [z, y]" for x y z
    by (simp_all add: nth_append list_update_append)
  have "{(a, x). a < length (xs @ [None, None]) \<and> (xs @ [None, None]) ! a = Some x} = {(a, x). a < length xs \<and> xs ! a = Some x}"
    for xs :: "(int \<times> bool) option list"
    by (auto simp: nth_append less_Suc_eq split: if_splits)
  then show ?thesis
    by (simp add: demonstrate_c_api_wrapper_def uncaught_def scoped_def make_safe_handle_def c_api_open_def
        handle_open_def c_api_close_def n h open_handles_def)
qed

section \<open>A guard that moves\<close>

datatype guard_op = Move_guard nat | Dismiss_guard nat

fun guard_step :: "guard_op \<Rightarrow> 's ScopeGuard list \<Rightarrow> 's ScopeGuard list ub" where
  "guard_step (Move_guard i) gs = do {
     g \<leftarrow> vget gs (int i);
     let (g1, g2) = move_ScopeGuard g;
     Some (gs[i := g2] @ [g1]) }"
| "guard_step (Dismiss_guard i) gs = do { g \<leftarrow> vget gs (int i); Some (gs[i := dismiss g]) }"

fun guard_run :: "guard_op list \<Rightarrow> 's ScopeGuard list \<Rightarrow> 's ScopeGuard list ub" where
  "guard_run [] gs = Some gs"
| "guard_run (c # cs) gs = do { gs' \<leftarrow> guard_step c gs; guard_run cs gs' }"

text \<open>The end of the block destroys the guards in the reverse order of their construction.\<close>

definition destroy_all :: "'s ScopeGuard list \<Rightarrow> 's \<Rightarrow> 's ub" where
  "destroy_all gs s = fold (\<lambda>g r. r \<bind> destroy_ScopeGuard g) (rev gs) (Some s)"

definition armed :: "'s ScopeGuard list \<Rightarrow> nat" where
  "armed gs = weigh (\<lambda>g. if active g then 1 else 0) gs"

definition guards_inv :: "('s \<Rightarrow> 's ub) \<Rightarrow> 's ScopeGuard list \<Rightarrow> bool" where
  "guards_inv f gs \<longleftrightarrow> armed gs \<le> 1 \<and> (\<forall>g \<in> set gs. cleanup g = f)"

lemma armed_update: "i < length gs \<Longrightarrow> armed (gs[i := g]) + (if active (gs ! i) then 1 else 0) = armed gs + (if active g then 1 else 0)"
  unfolding armed_def by (rule weigh_update)

lemma guard_step_inv: "guards_inv f gs \<Longrightarrow> guard_step c gs = Some gs' \<Longrightarrow> guards_inv f gs'"
proof (cases c)
  case (Move_guard i)
  assume inv: "guards_inv f gs" and s: "guard_step c gs = Some gs'"
  then have i: "i < length gs" "gs' = gs[i := (gs ! i)\<lparr>active := False\<rparr>] @ [gs ! i]"
    using Move_guard by (auto simp: move_ScopeGuard_def split: if_splits)
  have "armed gs' = armed gs" using armed_update [OF i(1), of "(gs ! i)\<lparr>active := False\<rparr>"] i(2)
    by (simp add: armed_def weigh_def)
  moreover have "\<forall>g \<in> set gs'. cleanup g = f"
    using inv i nth_mem [OF i(1)] by (auto simp: guards_inv_def dest: in_update)
  ultimately show ?thesis using inv by (simp add: guards_inv_def)
next
  case (Dismiss_guard i)
  assume inv: "guards_inv f gs" and s: "guard_step c gs = Some gs'"
  then have i: "i < length gs" "gs' = gs[i := dismiss (gs ! i)]" using Dismiss_guard by (auto split: if_splits)
  have "armed gs' \<le> armed gs" using armed_update [OF i(1), of "dismiss (gs ! i)"] i(2) by (simp add: dismiss_def split: if_splits)
  moreover have "\<forall>g \<in> set gs'. cleanup g = f"
    using inv i nth_mem [OF i(1)] by (auto simp: guards_inv_def dismiss_def dest: in_update)
  ultimately show ?thesis using inv by (simp add: guards_inv_def)
qed

lemma guard_run_inv: "guards_inv f gs \<Longrightarrow> guard_run cs gs = Some gs' \<Longrightarrow> guards_inv f gs'"
  by (induction cs arbitrary: gs) (auto simp: bind_Some_conv dest: guard_step_inv)

lemma destroy_none: "armed gs = 0 \<Longrightarrow> fold (\<lambda>g r. r \<bind> destroy_ScopeGuard g) gs r = r"
  by (induction gs arbitrary: r) (auto simp: armed_def weigh_def destroy_ScopeGuard_def split: if_splits bind_splits)

lemma armed_rev: "armed (rev gs) = armed gs"
  by (simp add: armed_def weigh_def rev_map [symmetric] del: rev_map)

lemma destroy_one: "guards_inv f gs \<Longrightarrow> fold (\<lambda>g r. r \<bind> destroy_ScopeGuard g) gs r = (if armed gs = 0 then r else r \<bind> f)"
proof (induction gs arbitrary: r)
  case (Cons g gs)
  show ?case
  proof (cases "active g")
    case True
    then have "armed gs = 0" "armed (g # gs) = 1" "cleanup g = f" using Cons.prems by (auto simp: guards_inv_def armed_def weigh_def)
    then have "destroy_ScopeGuard g = f" using True by (auto simp: destroy_ScopeGuard_def)
    then show ?thesis using destroy_none [OF \<open>armed gs = 0\<close>] \<open>armed (g # gs) = 1\<close> by simp
  next
    case False
    then have "armed (g # gs) = armed gs" "guards_inv f gs" using Cons.prems by (auto simp: guards_inv_def armed_def weigh_def)
    moreover have "r \<bind> destroy_ScopeGuard g = r" using False by (cases r) (simp_all add: destroy_ScopeGuard_def)
    ultimately show ?thesis using Cons.IH by simp
  qed
qed (simp add: armed_def weigh_def)

text \<open>
  Claim: however a scope guard is moved, its action runs exactly once at the end of the block, and not
  at all when the guard in charge was dismissed.
\<close>
theorem moved_guard_runs_once:
  "guard_run cs [\<lparr>cleanup = f, active = True\<rparr>] = Some gs \<Longrightarrow>
   destroy_all gs s = (if filter active gs = [] then Some s else f s) \<and> length (filter active gs) \<le> 1"
proof -
  assume "guard_run cs [\<lparr>cleanup = f, active = True\<rparr>] = Some gs"
  then have inv: "guards_inv f gs" by (rule guard_run_inv [rotated]) (simp add: guards_inv_def armed_def weigh_def)
  have a: "armed gs = length (filter active gs)" by (induction gs) (auto simp: armed_def weigh_def)
  have "guards_inv f (rev gs)" using inv by (simp add: guards_inv_def armed_rev)
  from destroy_one [OF this, of "Some s"] show ?thesis using inv a
    by (simp add: destroy_all_def armed_rev guards_inv_def)
qed

theorem moved_guard_runs_once_witness:
  "destroy_all [\<lparr>cleanup = \<lambda>n. Some (n + 1), active = False\<rparr>, \<lparr>cleanup = \<lambda>n. Some (n + 1), active = True\<rparr>] (41 :: int) = Some 42"
proof -
  have "guard_run [Move_guard 0] [\<lparr>cleanup = \<lambda>n. Some (n + 1), active = True\<rparr>] =
      Some [\<lparr>cleanup = \<lambda>n :: int. Some (n + 1), active = False\<rparr>, \<lparr>cleanup = \<lambda>n. Some (n + 1), active = True\<rparr>]"
    by (simp add: vget_def move_ScopeGuard_def)
  from moved_guard_runs_once [OF this, of 41] show ?thesis by simp
qed

text \<open>A moved FileHandle is closed once, by its new owner.\<close>

lemma moved_file_closed_once:
  "move_FileHandle junk f = (g, f') \<Longrightarrow> destroy_FileHandle f' e = Some e \<and> destroy_FileHandle g e = destroy_FileHandle f e"
  by (auto simp: move_FileHandle_def destroy_FileHandle_def)

end
