(* ===== verification/Vector_Growth.thy ===== *)
theory Vector_Growth
  imports Prelude
begin

text \<open>
  src/src/modern_cpp/noexcept.cpp: widgets whose move constructor is or is not noexcept, the vector that
  grows by moving or copying them, and main. How a vector grows is the library's affair: the growth
  policy is a parameter, of which the library promises that the new capacity has room. The counters are
  ints, so a count beyond the range is undefined (None). The clock is a parameter.
\<close>

section \<open>Widgets and their counters\<close>

text \<open>Two classes with the same members; only the move constructor of the first is noexcept.\<close>

datatype widget_class = FastWidget | SlowWidget

fun nothrow_move :: "widget_class \<Rightarrow> bool" where
  "nothrow_move FastWidget = True"
| "nothrow_move SlowWidget = False"

record widget =
  wdata :: "int list"
  wname :: string

definition new_widget :: "string \<Rightarrow> nat \<Rightarrow> widget" where
  "new_widget name sz = \<lparr>wdata = replicate sz 42, wname = name\<rparr>"

record counters =
  moves :: int
  copies :: int

definition vector_reset :: counters where
  "vector_reset = \<lparr>moves = 0, copies = 0\<rparr>"

text \<open>The constructors: the new widget and the counters. A moved-from widget is not used again.\<close>

definition vector_move_widget :: "widget \<Rightarrow> counters \<Rightarrow> (widget \<times> counters) ub" where
  "vector_move_widget other c = do { m \<leftarrow> chk (moves c + 1); Some (other, c\<lparr>moves := m\<rparr>) }"

definition vector_copy_widget :: "widget \<Rightarrow> counters \<Rightarrow> (widget \<times> counters) ub" where
  "vector_copy_widget other c = do {
     k \<leftarrow> chk (copies c + 1);
     Some (\<lparr>wdata = wdata other, wname = wname other\<rparr>, c\<lparr>copies := k\<rparr>) }"

section \<open>The vector\<close>

record vector =
  elements :: "widget list"
  capacity :: nat

definition empty_vector :: vector where
  "empty_vector = \<lparr>elements = [], capacity = 0\<rparr>"

text \<open>std::move_if_noexcept chooses the constructor that transfers an element.\<close>

definition move_if_noexcept :: "widget_class \<Rightarrow> widget \<Rightarrow> counters \<Rightarrow> (widget \<times> counters) ub" where
  "move_if_noexcept t w c = (if nothrow_move t then vector_move_widget w c else vector_copy_widget w c)"

fun vector_transfer :: "widget_class \<Rightarrow> widget list \<Rightarrow> counters \<Rightarrow> (widget list \<times> counters) ub" where
  "vector_transfer t [] c = Some ([], c)"
| "vector_transfer t (w # ws) c = do {
     (w', c1) \<leftarrow> move_if_noexcept t w c;
     (ws', c2) \<leftarrow> vector_transfer t ws c1;
     Some (w' # ws', c2) }"

definition emplace_back :: "(nat \<Rightarrow> nat) \<Rightarrow> widget_class \<Rightarrow> widget \<Rightarrow> vector \<Rightarrow> counters \<Rightarrow> (vector \<times> counters) ub" where
  "emplace_back growth t w v c =
     (if length (elements v) < capacity v then Some (v\<lparr>elements := elements v @ [w]\<rparr>, c)
      else do {
        (ws, c') \<leftarrow> vector_transfer t (elements v) c;
        Some (\<lparr>elements = ws @ [w], capacity = growth (capacity v)\<rparr>, c') })"

fun fill :: "(nat \<Rightarrow> nat) \<Rightarrow> widget_class \<Rightarrow> widget list \<Rightarrow> vector \<Rightarrow> counters \<Rightarrow> (vector \<times> counters) ub" where
  "fill growth t [] v c = Some (v, c)"
| "fill growth t (w # ws) v c = do {
     (v', c') \<leftarrow> emplace_back growth t w v c;
     fill growth t ws v' c' }"

section \<open>Conditional noexcept\<close>

text \<open>What main asks of the wrapper, and of two functions, at compile time.\<close>

datatype value_type = Int_value | String_value | Widget_value widget_class

fun nothrow_move_constructible :: "value_type \<Rightarrow> bool" where
  "nothrow_move_constructible (Widget_value c) = nothrow_move c"
| "nothrow_move_constructible _ = True"

definition Wrapper_nothrow :: "value_type \<Rightarrow> bool" where
  "Wrapper_nothrow t = nothrow_move_constructible t"

datatype function_decl = MayThrow | WontThrow

fun noexcept_of :: "function_decl \<Rightarrow> bool" where
  "noexcept_of MayThrow = False"
| "noexcept_of WontThrow = True"

definition show_bool :: "bool \<Rightarrow> string" where
  "show_bool b = (if b then ''1'' else ''0'')"

section \<open>main\<close>

definition vector_widgets :: "nat \<Rightarrow> widget list" where
  "vector_widgets n = map (\<lambda>i. new_widget (''widget_'' @ show_int (int i)) 100) [0..<n]"

definition performance_widgets :: "string \<Rightarrow> widget list" where
  "performance_widgets name = replicate 50000 (new_widget name 100)"

text \<open>The readings of the clock, in microseconds; the printed lines.\<close>

definition noexcept_main :: "(nat \<Rightarrow> nat) \<Rightarrow> int \<Rightarrow> int \<Rightarrow> int \<Rightarrow> string list ub" where
  "noexcept_main growth t1 t2 t3 = do {
     (v, fast) \<leftarrow> fill growth FastWidget (vector_widgets 100) empty_vector vector_reset;
     let l1 = ''  FastWidget (noexcept move): '' @ show_int (moves fast) @ '' moves, '' @ show_int (copies fast) @ '' copies'';
     _ \<leftarrow> guard (copies fast = 0);
     (v, slow) \<leftarrow> fill growth SlowWidget (vector_widgets 100) empty_vector vector_reset;
     let l2 = ''  SlowWidget (throwing move): '' @ show_int (moves slow) @ '' moves, '' @ show_int (copies slow) @ '' copies'';
     _ \<leftarrow> guard (copies slow > 0);
     _ \<leftarrow> guard (Wrapper_nothrow Int_value);
     _ \<leftarrow> guard (Wrapper_nothrow String_value);
     _ \<leftarrow> guard (\<not> noexcept_of MayThrow);
     _ \<leftarrow> guard (noexcept_of WontThrow);
     _ \<leftarrow> guard (nothrow_move FastWidget);
     (v, fast) \<leftarrow> fill growth FastWidget (performance_widgets ''f'') empty_vector vector_reset;
     (v, slow) \<leftarrow> fill growth SlowWidget (performance_widgets ''s'') empty_vector vector_reset;
     Some [l1, l2, ''  noexcept(mayThrow()) = '' @ show_bool (noexcept_of MayThrow),
       ''  noexcept(wontThrow()) = '' @ show_bool (noexcept_of WontThrow),
       ''  noexcept move (Fast): '' @ show_int (t2 - t1) @ '' us'',
       ''  throwing move (Slow): '' @ show_int (t3 - t2) @ '' us''] }"

section \<open>What the transfers cost\<close>

text \<open>The counts of a growth policy, without the widgets: the capacity and the transfers so far.\<close>

fun grow :: "(nat \<Rightarrow> nat) \<Rightarrow> nat \<Rightarrow> nat \<times> nat \<times> nat \<Rightarrow> nat \<times> nat \<times> nat" where
  "grow growth 0 s = s"
| "grow growth (Suc k) (n, cap, cost) =
     grow growth k (if n < cap then (n + 1, cap, cost) else (n + 1, growth cap, cost + n))"

definition vector_transfers :: "(nat \<Rightarrow> nat) \<Rightarrow> nat \<Rightarrow> nat" where
  "vector_transfers growth n = snd (snd (grow growth n (0, 0, 0)))"

definition add_transfers :: "widget_class \<Rightarrow> nat \<Rightarrow> counters \<Rightarrow> counters" where
  "add_transfers t k c = (if nothrow_move t then c\<lparr>moves := moves c + int k\<rparr> else c\<lparr>copies := copies c + int k\<rparr>)"

definition counted :: "widget_class \<Rightarrow> counters \<Rightarrow> int" where
  "counted t c = (if nothrow_move t then moves c else copies c)"

lemma move_if_noexcept_eq:
  "0 \<le> counted t c \<Longrightarrow> counted t c + 1 \<le> INT_MAX \<Longrightarrow> move_if_noexcept t w c = Some (w, add_transfers t 1 c)"
  by (cases t) (simp_all add: move_if_noexcept_def vector_move_widget_def vector_copy_widget_def add_transfers_def counted_def
      chk_def in_int_def)

lemma counted_add: "counted t (add_transfers t k c) = counted t c + int k"
  by (simp add: counted_def add_transfers_def)

lemma add_transfers_add: "add_transfers t k (add_transfers t j c) = add_transfers t (j + k) c"
  by (simp add: add_transfers_def)

lemma add_transfers_0 [simp]: "add_transfers t 0 c = c"
  by (simp add: add_transfers_def)

lemma vector_transfer_eq:
  "0 \<le> counted t c \<Longrightarrow> counted t c + int (length ws) \<le> INT_MAX \<Longrightarrow>
   vector_transfer t ws c = Some (ws, add_transfers t (length ws) c)"
proof (induction ws arbitrary: c)
  case (Cons w ws)
  then have "vector_transfer t ws (add_transfers t 1 c) = Some (ws, add_transfers t (length ws) (add_transfers t 1 c))"
    by (simp add: counted_add)
  then show ?case using Cons.prems by (simp add: move_if_noexcept_eq add_transfers_add)
qed simp

lemma grow_shift: "grow growth k (n, cap, cost + d) =
    (case grow growth k (n, cap, cost) of (n', cap', cost') \<Rightarrow> (n', cap', cost' + d))"
proof (induction k arbitrary: n cap cost)
  case (Suc k)
  show ?case using Suc.IH [of "n + 1" cap cost] Suc.IH [of "n + 1" "growth cap" "cost + n"]
    by (simp add: add.commute add.left_commute)
qed simp

text \<open>The vector appends what it is given and performs the transfers of its growth policy.\<close>

lemma fill_eq:
  assumes "0 \<le> counted t c" and "counted t c + int (snd (snd (grow growth (length ws) (length (elements v), capacity v, 0)))) \<le> INT_MAX"
  shows "fill growth t ws v c =
    (case grow growth (length ws) (length (elements v), capacity v, 0) of
      (n, cap, cost) \<Rightarrow> Some (\<lparr>elements = elements v @ ws, capacity = cap\<rparr>, add_transfers t cost c))"
  using assms
proof (induction ws arbitrary: v c)
  case (Cons w ws)
  let ?n = "length (elements v)"
  show ?case
  proof (cases "?n < capacity v")
    case True
    then show ?thesis using Cons.IH [of c "v\<lparr>elements := elements v @ [w]\<rparr>"] Cons.prems
      by (simp add: emplace_back_def)
  next
    case False
    obtain n' cap' cost' where g: "grow growth (length ws) (Suc ?n, growth (capacity v), 0) = (n', cap', cost')"
      by (cases "grow growth (length ws) (Suc ?n, growth (capacity v), 0)")
    have g': "grow growth (length ws) (Suc ?n, growth (capacity v), ?n) = (n', cap', cost' + ?n)"
      using grow_shift [of growth "length ws" "Suc ?n" "growth (capacity v)" 0 ?n] g by simp
    have "counted t c + int (cost' + ?n) \<le> INT_MAX" using Cons.prems(2) False g' by simp
    then show ?thesis
      using Cons.IH [of "add_transfers t ?n c" "\<lparr>elements = elements v @ [w], capacity = growth (capacity v)\<rparr>"]
        Cons.prems(1) False g g' vector_transfer_eq [of t c "elements v"]
      by (simp add: emplace_back_def counted_add add_transfers_add add.commute)
  qed
qed simp

text \<open>The policies of the library: room for one more element at least, and at least doubled.\<close>

definition doubling :: "(nat \<Rightarrow> nat) \<Rightarrow> bool" where
  "doubling growth \<longleftrightarrow> (\<forall>cap. 2 * cap \<le> growth cap \<and> cap < growth cap)"

lemma doublingD: "doubling growth \<Longrightarrow> 2 * cap \<le> growth cap" "doubling growth \<Longrightarrow> cap < growth cap"
  by (simp_all add: doubling_def)

text \<open>The transfers so far are paid for by the elements, and leave enough for the next reallocation.\<close>

lemma grow_doubling:
  assumes "doubling growth"
  shows "cost \<le> cap \<Longrightarrow> cost \<le> 2 * n \<Longrightarrow> n \<le> cap \<Longrightarrow> grow growth k (n, cap, cost) = (n', cap', cost') \<Longrightarrow>
    n' = n + k \<and> cost' \<le> 2 * n' \<and> cost \<le> cost'"
proof (induction k arbitrary: n cap cost)
  case (Suc k)
  show ?case
  proof (cases "n < cap")
    case True
    then show ?thesis using Suc.IH [of cost cap "Suc n"] Suc.prems by simp
  next
    case False
    then show ?thesis using Suc.IH [of "cost + n" "growth cap" "Suc n"] Suc.prems doublingD [OF assms, of cap] by simp
  qed
qed simp

text \<open>
  Claim: the amortised cost of emplace_back: when a vector at least doubles its capacity, the elements
  that reallocation transfers while n elements are appended are at most 2 n.
\<close>
theorem transfers_amortized:
  assumes "\<And>cap. 2 * cap \<le> growth cap \<and> cap < growth cap"
  shows "vector_transfers growth n \<le> 2 * n"
proof -
  obtain n' cap' cost' where g: "grow growth n (0, 0, 0) = (n', cap', cost')" by (cases "grow growth n (0, 0, 0)")
  then show ?thesis using grow_doubling [of growth 0 0 0 n] assms by (simp add: vector_transfers_def doubling_def)
qed

theorem transfers_amortized_witness: "vector_transfers (\<lambda>c. if c = 0 then 1 else 2 * c) 100 \<le> 200"
  using transfers_amortized [of "\<lambda>c. if c = 0 then 1 else 2 * c" 100] by simp

lemma fill_vector:
  assumes "doubling growth" and "2 * int (length ws) \<le> INT_MAX"
  shows "\<exists>cap. fill growth t ws empty_vector vector_reset =
    Some (\<lparr>elements = ws, capacity = cap\<rparr>, add_transfers t (vector_transfers growth (length ws)) vector_reset)"
proof -
  obtain n cap cost where g: "grow growth (length ws) (0, 0, 0) = (n, cap, cost)" by (cases "grow growth (length ws) (0, 0, 0)")
  have "vector_transfers growth (length ws) \<le> 2 * length ws"
    by (rule transfers_amortized) (use assms(1) in \<open>simp add: doubling_def\<close>)
  then have "int cost \<le> INT_MAX" using assms(2) g by (simp add: vector_transfers_def)
  then show ?thesis using fill_eq [of t vector_reset growth ws empty_vector] g
    by (simp add: counted_def vector_reset_def empty_vector_def vector_transfers_def)
qed

text \<open>
  Claim: the move constructor's noexcept decides how a growing vector transfers its elements: with it no
  widget is ever copied, without it none is ever moved; the number of transfers is the same, and the
  vector holds the same widgets in the same order.
\<close>
theorem noexcept_decides_transfers:
  assumes "\<And>cap. 2 * cap \<le> growth cap \<and> cap < growth cap" and "2 * int (length ws) \<le> INT_MAX"
  shows "map_option (\<lambda>(v, c). (elements v, moves c, copies c)) (fill growth FastWidget ws empty_vector vector_reset) =
      Some (ws, int (vector_transfers growth (length ws)), 0) \<and>
    map_option (\<lambda>(v, c). (elements v, moves c, copies c)) (fill growth SlowWidget ws empty_vector vector_reset) =
      Some (ws, 0, int (vector_transfers growth (length ws)))"
proof -
  have d: "doubling growth" using assms(1) by (simp add: doubling_def)
  show ?thesis
    using fill_vector [OF d assms(2), of FastWidget] fill_vector [OF d assms(2), of SlowWidget]
    by (auto simp: add_transfers_def vector_reset_def)
qed

theorem noexcept_decides_transfers_witness:
  "map_option (\<lambda>(v, c). (elements v, moves c, copies c))
     (fill (\<lambda>c. if c = 0 then 1 else 2 * c) SlowWidget (replicate 3 (new_widget ''w'' 1)) empty_vector vector_reset) =
   Some (replicate 3 (new_widget ''w'' 1), 0, 3)"
proof -
  have "vector_transfers (\<lambda>c. if c = 0 then 1 else 2 * c) 3 = 3" by (simp add: vector_transfers_def eval_nat_numeral)
  then show ?thesis
    using noexcept_decides_transfers [of "\<lambda>c. if c = 0 then 1 else 2 * c" "replicate 3 (new_widget ''w'' 1)"] by simp
qed

section \<open>main's assertions\<close>

lemma some_transfer:
  assumes "doubling growth"
  shows "cost \<le> cap \<Longrightarrow> cost \<le> 2 * n \<Longrightarrow> 0 < n \<Longrightarrow> n \<le> cap \<Longrightarrow> cap < n + k \<Longrightarrow>
    0 < snd (snd (grow growth k (n, cap, cost)))"
proof (induction k arbitrary: n cap cost)
  case (Suc k)
  show ?case
  proof (cases "n < cap")
    case True
    then show ?thesis using Suc.IH [of cost cap "Suc n"] Suc.prems by simp
  next
    case False
    obtain n' cap' cost' where g: "grow growth k (Suc n, growth cap, cost + n) = (n', cap', cost')"
      by (cases "grow growth k (Suc n, growth cap, cost + n)")
    have "cost + n \<le> cost'"
      using grow_doubling [OF assms _ _ _ g] Suc.prems False doublingD [OF assms, of cap] by simp
    then show ?thesis using False g Suc.prems(3) by simp
  qed
qed simp

lemma transfers_pos: "doubling growth \<Longrightarrow> growth 0 < n \<Longrightarrow> 0 < vector_transfers growth n"
  using some_transfer [of growth 0 "growth 0" 1 "n - 1"] doublingD(2) [of growth 0]
  by (cases n) (simp_all add: vector_transfers_def)

lemma length_widgets: "length (vector_widgets n) = n"
  by (simp add: vector_widgets_def)

lemma length_performance: "length (performance_widgets name) = 50000"
  by (simp only: performance_widgets_def length_replicate)

text \<open>
  Claim: main's assertions hold, and the lines it prints are these, for every vector that at least
  doubles its capacity and starts with one of less than a hundred elements.
\<close>
theorem noexcept_main_returns:
  assumes "\<And>cap. 2 * cap \<le> growth cap \<and> cap < growth cap" and "growth 0 < 100"
  shows "noexcept_main growth t1 t2 t3 = Some
    [''  FastWidget (noexcept move): '' @ show_int (int (vector_transfers growth 100)) @ '' moves, '' @ show_int 0 @ '' copies'',
     ''  SlowWidget (throwing move): '' @ show_int 0 @ '' moves, '' @ show_int (int (vector_transfers growth 100)) @ '' copies'',
     ''  noexcept(mayThrow()) = 0'', ''  noexcept(wontThrow()) = 1'',
     ''  noexcept move (Fast): '' @ show_int (t2 - t1) @ '' us'', ''  throwing move (Slow): '' @ show_int (t3 - t2) @ '' us'']"
proof -
  have d: "doubling growth" using assms(1) by (simp add: doubling_def)
  have p: "0 < vector_transfers growth 100" by (rule transfers_pos [OF d assms(2)])
  have w: "\<exists>cap. fill growth t (vector_widgets 100) empty_vector vector_reset =
      Some (\<lparr>elements = vector_widgets 100, capacity = cap\<rparr>, add_transfers t (vector_transfers growth 100) vector_reset)" for t
    using fill_vector [OF d, of "vector_widgets 100" t] by (simp add: length_widgets)
  have f: "\<exists>v c. fill growth t (performance_widgets n) empty_vector vector_reset = Some (v, c)" for t n
    using fill_vector [OF d, of "performance_widgets n" t] by (auto simp: length_performance)
  obtain cap1 cap2 where r: "fill growth FastWidget (vector_widgets 100) empty_vector vector_reset =
      Some (\<lparr>elements = vector_widgets 100, capacity = cap1\<rparr>, \<lparr>moves = int (vector_transfers growth 100), copies = 0\<rparr>)"
    "fill growth SlowWidget (vector_widgets 100) empty_vector vector_reset =
      Some (\<lparr>elements = vector_widgets 100, capacity = cap2\<rparr>, \<lparr>moves = 0, copies = int (vector_transfers growth 100)\<rparr>)"
    using w [of FastWidget] w [of SlowWidget] by (auto simp: add_transfers_def vector_reset_def)
  show ?thesis
    using f [of FastWidget "''f''"] f [of SlowWidget "''s''"] p
    by (auto simp: noexcept_main_def r Wrapper_nothrow_def show_bool_def)
qed

theorem noexcept_main_returns_witness:
  "map_option hd (noexcept_main (\<lambda>c. if c = 0 then 1 else 2 * c) 0 100 300) =
     Some ''  FastWidget (noexcept move): 127 moves, 0 copies''"
proof -
  let ?g = "\<lambda>c :: nat. if c = 0 then 1 else 2 * c"
  have "vector_transfers ?g 100 = 127" by code_simp
  moreover have "show_int (int 127) = ''127''" "show_int 0 = ''0''" by code_simp+
  ultimately show ?thesis using noexcept_main_returns [of ?g 0 100 300] by simp
qed

end
