(* ===== verification/Value_Types.thy ===== *)
theory Value_Types
  imports Complex_Main Prelude Software_Design Raii
begin

text \<open>
  src/src/modern_cpp/practical/value_semantics.cpp (points with their defaulted order, temperatures, requests)
  and src/src/modern_cpp/move_semantics.cpp (HeavyObject with its special members). A copy of a value is
  the value; objects that are moved from are modelled with what the move leaves in them. Doubles are
  rationals. What a moved-from string holds and what the clock reads are parameters.
\<close>

section \<open>Points\<close>

datatype vpoint = VPoint (px: rat) (py: rat)

text \<open>The defaulted comparison: member by member, in the order of declaration.\<close>

instantiation vpoint :: linorder
begin

definition less_eq_vpoint :: "vpoint \<Rightarrow> vpoint \<Rightarrow> bool" where
  "less_eq_vpoint a b \<longleftrightarrow> px a < px b \<or> (px a = px b \<and> py a \<le> py b)"

definition less_vpoint :: "vpoint \<Rightarrow> vpoint \<Rightarrow> bool" where
  "less_vpoint a b \<longleftrightarrow> px a < px b \<or> (px a = px b \<and> py a < py b)"

instance
proof
  fix x y z :: vpoint
  show "x < y \<longleftrightarrow> x \<le> y \<and> \<not> y \<le> x" by (auto simp: less_eq_vpoint_def less_vpoint_def)
  show "x \<le> x" by (simp add: less_eq_vpoint_def)
  show "x \<le> y \<Longrightarrow> y \<le> z \<Longrightarrow> x \<le> z" by (auto simp: less_eq_vpoint_def)
  show "x \<le> y \<Longrightarrow> y \<le> x \<Longrightarrow> x = y" by (cases x; cases y) (auto simp: less_eq_vpoint_def)
  show "x \<le> y \<or> y \<le> x" by (auto simp: less_eq_vpoint_def)
qed

end

definition show_point :: "vpoint \<Rightarrow> string" where
  "show_point p = ''('' @ show_general (px p) @ '', '' @ show_general (py p) @ '')''"

section \<open>Temperatures\<close>

datatype temperature = Temperature (celsius: rat)

definition from_celsius :: "rat \<Rightarrow> temperature" where
  "from_celsius c = Temperature c"

definition from_fahrenheit :: "rat \<Rightarrow> temperature" where
  "from_fahrenheit f = Temperature ((f - 32) * 5 / 9)"

definition fahrenheit :: "temperature \<Rightarrow> rat" where
  "fahrenheit t = celsius t * 9 / 5 + 32"

instantiation temperature :: linorder
begin

definition less_eq_temperature :: "temperature \<Rightarrow> temperature \<Rightarrow> bool" where
  "less_eq_temperature a b \<longleftrightarrow> celsius a \<le> celsius b"

definition less_temperature :: "temperature \<Rightarrow> temperature \<Rightarrow> bool" where
  "less_temperature a b \<longleftrightarrow> celsius a < celsius b"

instance
proof
  fix x y z :: temperature
  show "x \<le> y \<Longrightarrow> y \<le> x \<Longrightarrow> x = y" by (cases x; cases y) (auto simp: less_eq_temperature_def)
qed (auto simp: less_eq_temperature_def less_temperature_def)

end

definition add_temperature :: "temperature \<Rightarrow> temperature \<Rightarrow> temperature" where
  "add_temperature a b = Temperature (celsius a + celsius b)"

definition show_temperature :: "temperature \<Rightarrow> string" where
  "show_temperature t = show_general (celsius t) @ [CHR 0xC2, CHR 0xB0] @ ''C''"

section \<open>Requests\<close>

record HttpRequest =
  req_method :: string
  req_path :: string
  req_body :: string
  timeout_ms :: int

record HttpResponse =
  status_code :: int
  resp_body :: string

definition ok :: "HttpResponse \<Rightarrow> bool" where
  "ok r \<longleftrightarrow> status_code r \<ge> 200 \<and> status_code r < 300"

definition handle_request :: "HttpRequest \<Rightarrow> HttpResponse" where
  "handle_request req =
     (if req_method req = ''GET'' \<and> req_path req = ''/health'' then \<lparr>status_code = 200, resp_body = ''OK''\<rparr>
      else \<lparr>status_code = 404, resp_body = ''Not Found''\<rparr>)"

definition value_semantics_main :: "string list ub" where
  "value_semantics_main = do {
     let p1 = VPoint 3 4;
     let p2 = p1;
     let p3 = VPoint 3 4;
     _ \<leftarrow> guard (p1 = p3);
     _ \<leftarrow> guard (p1 = p2);
     let p2 = VPoint 99 (py p2);
     _ \<leftarrow> guard (p1 \<noteq> p2);
     let points = sort [VPoint 3 1, VPoint 1 2, VPoint 2 3, VPoint 1 1];
     let boiling = from_celsius 100;
     let body_temp = from_fahrenheit (986 / 10);
     _ \<leftarrow> guard (boiling > body_temp);
     let req = \<lparr>req_method = ''GET'', req_path = ''/health'', req_body = [], timeout_ms = 3000\<rparr>;
     let resp = handle_request req;
     _ \<leftarrow> guard (ok resp);
     let bad_req = \<lparr>req_method = ''GET'', req_path = ''/nonexistent'', req_body = [], timeout_ms = 5000\<rparr>;
     let bad_resp = handle_request bad_req;
     _ \<leftarrow> guard (\<not> ok bad_resp);
     let temps = [from_celsius 20, from_celsius 25, from_celsius 15];
     let temps_copy = temps @ [from_celsius 30];
     _ \<leftarrow> guard (length temps = 3);
     _ \<leftarrow> guard (length temps_copy = 4);
     Some [''   p1='' @ show_point p1 @ '' p2='' @ show_point p2 @ '' (independent copies)'',
       ''   Sorted: '' @ concat (map (\<lambda>p. show_point p @ '' '') points),
       ''   Boiling: '' @ show_temperature boiling @ '' | Body: '' @ show_temperature body_temp,
       ''   '' @ req_method req @ '' '' @ req_path req @ '' '' @ [CHR 0xE2, CHR 0x86, CHR 0x92] @ '' '' @
         show_int (status_code resp) @ '' '' @ resp_body resp,
       ''   Original size: '' @ show_int (int (length temps)) @ '' | Copy size: '' @ show_int (int (length temps_copy))] }"

lemma value_semantics_main_output:
  "value_semantics_main = Some
    [''   p1=(3, 4) p2=(99, 4) (independent copies)'', ''   Sorted: (1, 1) (1, 2) (2, 3) (3, 1) '',
     ''   Boiling: 100'' @ [CHR 0xC2, CHR 0xB0] @ ''C | Body: 37'' @ [CHR 0xC2, CHR 0xB0] @ ''C'',
     ''   GET /health '' @ [CHR 0xE2, CHR 0x86, CHR 0x92] @ '' 200 OK'',
     ''   Original size: 3 | Copy size: 4'']"
  by code_simp

text \<open>Claim: the conversions between the two scales are inverse to each other and keep the order.\<close>

lemma temperature_roundtrip:
  "fahrenheit (from_fahrenheit f) = f \<and> from_fahrenheit (fahrenheit t) = t \<and>
   (from_fahrenheit f \<le> from_fahrenheit g \<longleftrightarrow> f \<le> g)"
  by (cases t) (simp add: fahrenheit_def from_fahrenheit_def less_eq_temperature_def field_simps)

lemma handle_request_ok: "ok (handle_request r) \<longleftrightarrow> req_method r = ''GET'' \<and> req_path r = ''/health''"
  by (simp add: handle_request_def ok_def)

section \<open>move_semantics.cpp\<close>

record heavy =
  hdata :: "int list"
  hname :: string

definition HeavyObject :: "string \<Rightarrow> nat \<Rightarrow> heavy \<times> string" where
  "HeavyObject name sz = (\<lparr>hdata = replicate sz 42, hname = name\<rparr>, ''  Constructed: '' @ name)"

definition copy_heavy :: "heavy \<Rightarrow> heavy \<times> string" where
  "copy_heavy other = (\<lparr>hdata = hdata other, hname = hname other @ ''_copy''\<rparr>, ''  COPIED: '' @ hname other @ ''_copy'')"

text \<open>The new object, the source afterwards, whose vector is empty and whose string is what the move left, and the line.\<close>

definition move_heavy :: "string \<Rightarrow> heavy \<Rightarrow> heavy \<times> heavy \<times> string" where
  "move_heavy junk other = (other, \<lparr>hdata = [], hname = junk\<rparr>, ''  MOVED: '' @ hname other)"

text \<open>The assignments say whether the operands are the same object.\<close>

definition copy_assign_heavy :: "bool \<Rightarrow> heavy \<Rightarrow> heavy \<Rightarrow> heavy \<times> string" where
  "copy_assign_heavy same this other =
     (let this' = (if same then this else \<lparr>hdata = hdata other, hname = hname other @ ''_assigned''\<rparr>) in
      (this', ''  COPY ASSIGNED: '' @ hname this'))"

definition move_assign_heavy :: "bool \<Rightarrow> heavy \<Rightarrow> heavy \<Rightarrow> heavy \<Rightarrow> heavy \<times> heavy \<times> string" where
  "move_assign_heavy same junk this other =
     (let (this', other') = (if same then (this, this) else (other, junk)) in
      (this', other', ''  MOVE ASSIGNED: '' @ hname this'))"

text \<open>The returned variable is the caller's object, or is moved into it: the compiler decides.\<close>

definition createObject :: "bool \<Rightarrow> string \<Rightarrow> string \<Rightarrow> heavy \<times> string list" where
  "createObject elided junk name =
     (let (ob, l1) = HeavyObject name 5000 in
      if elided then (ob, [l1]) else (let (r, ob', l2) = move_heavy junk ob in (r, [l1, l2])))"

definition strings :: "nat \<Rightarrow> string \<Rightarrow> string list" where
  "strings n s = replicate n s"

text \<open>A vector that is move-constructed from leaves its source empty.\<close>

definition move_vector :: "'a list \<Rightarrow> 'a list \<times> 'a list" where
  "move_vector xs = (xs, [])"

text \<open>
  The clock's readings in nanoseconds, what moved-from strings hold and whether the compiler elides the
  returned object's move are parameters.
\<close>

definition move_semantics_main :: "int \<Rightarrow> int \<Rightarrow> int \<Rightarrow> string \<Rightarrow> string \<Rightarrow> bool \<Rightarrow> string list ub" where
  "move_semantics_main t1 t2 t3 junk left elided = do {
     let (a, l1) = HeavyObject ''alpha'' 1000;
     let (b, a, l2) = move_heavy junk a;
     _ \<leftarrow> guard (length (hdata a) = 0);
     _ \<leftarrow> guard (length (hdata b) = 1000);
     let source = strings 10000 ''hello_world_this_is_a_long_string_for_SSO'';
     let copied = source;
     let (moved, source) = move_vector source;
     d1 \<leftarrow> chk_long (t2 - t1);
     d2 \<leftarrow> chk_long (t3 - t2);
     let copy_us = to_microseconds d1;
     let move_us = to_microseconds d2;
     _ \<leftarrow> guard (move_us \<le> copy_us);
     _ \<leftarrow> guard (length moved = 10000);
     _ \<leftarrow> guard (source = []);
     let (c, l3) = createObject elided junk ''gamma'';
     _ \<leftarrow> guard (length (hdata c) = 5000);
     let s = ''important_data'';
     let (t, s) = (s, left);
     let line = ''  After move, s = '' @ [CHR 0x22] @ s @ [CHR 0x22] @ '' (valid but unspecified)'';
     let s = ''reassigned'';
     _ \<leftarrow> guard (s = ''reassigned'');
     Some ([l1, l2, ''  Copy took: '' @ show_int copy_us @ '' us'', ''  Move took: '' @ show_int move_us @ '' us''] @ l3 @
       [line, ''  t = '' @ [CHR 0x22] @ t @ [CHR 0x22]]) }"

lemma length_strings: "length (strings n s) = n"
  by (simp add: strings_def)

lemma heavy_size: "length (hdata (fst (HeavyObject n k))) = k"
  by (simp add: HeavyObject_def)

text \<open>
  Claim: main's assertions hold exactly when the clock says that the move took no longer than the copy,
  in whole microseconds: this one assertion depends on the clock and not on the program.
\<close>
theorem move_semantics_main_timing:
  assumes "\<bar>t2 - t1\<bar> \<le> LONG_MAX" and "\<bar>t3 - t2\<bar> \<le> LONG_MAX"
  shows "move_semantics_main t1 t2 t3 junk left elided =
    (if to_microseconds (t3 - t2) \<le> to_microseconds (t2 - t1) then Some
      ([''  Constructed: alpha'', ''  MOVED: alpha'',
        ''  Copy took: '' @ show_int (to_microseconds (t2 - t1)) @ '' us'',
        ''  Move took: '' @ show_int (to_microseconds (t3 - t2)) @ '' us'', ''  Constructed: gamma''] @
        (if elided then [] else [''  MOVED: gamma'']) @
        [''  After move, s = '' @ [CHR 0x22] @ left @ [CHR 0x22] @ '' (valid but unspecified)'',
         ''  t = '' @ [CHR 0x22] @ ''important_data'' @ [CHR 0x22]])
     else None)"
proof -
  have c: "chk_long (t2 - t1) = Some (t2 - t1)" "chk_long (t3 - t2) = Some (t3 - t2)"
    using assms by (auto intro!: chk_long_Some)
  show ?thesis
    by (simp add: move_semantics_main_def HeavyObject_def move_heavy_def move_vector_def createObject_def length_strings c Let_def)
qed

theorem move_semantics_main_timing_witness:
  "move_semantics_main 0 2000 5000 [] [] True = None \<and> move_semantics_main 0 5000 5001 [] [] True \<noteq> None"
  using move_semantics_main_timing [of 2000 0 5000 "[]" "[]" True] move_semantics_main_timing [of 5000 0 5001 "[]" "[]" True]
  by (simp add: to_microseconds_def)

text \<open>Copies differ from what they were copied from in their names; moves do not.\<close>

lemma heavy_copy_or_move:
  "fst (copy_heavy a) \<noteq> a" "hdata (fst (copy_heavy a)) = hdata a" "fst (move_heavy junk a) = a"
  by (simp_all add: copy_heavy_def move_heavy_def) (metis append_self_conv heavy.select_convs(2) list.distinct(1))

end
