(* ===== verification/Ranges_Lambdas.thy ===== *)
theory Ranges_Lambdas
  imports Complex_Main Prelude Software_Design
begin

text \<open>
  src/src/modern_cpp/ranges.cpp: the lazy views of main as iterators over the vector that count what they
  evaluate, the infinite view, the eager algorithms and main; and src/src/modern_cpp/lambdas.cpp: closures
  with what they capture over a store of local variables, and main. A variable read after its scope
  and overflow are undefined (None). Doubles are rationals.
\<close>

section \<open>Lazy views\<close>

text \<open>An iterator into a vector is the part of the vector from its position on.\<close>

text \<open>filter_view: the search for the next element that satisfies the predicate, with the evaluations it takes.\<close>

fun range_find_from :: "('a \<Rightarrow> bool) \<Rightarrow> 'a list \<Rightarrow> 'a list \<times> nat" where
  "range_find_from p [] = ([], 0)"
| "range_find_from p (x # xs) = (if p x then (x # xs, 1) else (let (it, k) = range_find_from p xs in (it, k + 1)))"

text \<open>
  The loop over filter, transform and take: n elements are left to take. The comparison with the end
  looks at the count first; a dereference evaluates the function, and an increment searches on, also when
  the count has run out.
\<close>

function view_iterate :: "('a \<Rightarrow> bool) \<Rightarrow> ('a \<Rightarrow> 'b ub) \<Rightarrow> nat \<Rightarrow> 'a list \<Rightarrow> nat \<Rightarrow> ('b list \<times> nat) ub" where
  "view_iterate p f n it evals =
     (if n = 0 \<or> it = [] then Some ([], evals)
      else do {
        v \<leftarrow> f (hd it);
        let (it', k) = range_find_from p (tl it);
        (vs, evals') \<leftarrow> view_iterate p f (n - 1) it' (evals + 1 + k);
        Some (v # vs, evals') })"
  by pat_completeness auto

termination view_iterate
  by (relation "measure (\<lambda>(p, f, n, it, evals). n)") auto

declare view_iterate.simps [simp del]

text \<open>begin() of the pipeline searches for the first element; the loop does the rest.\<close>

definition run_view :: "('a \<Rightarrow> bool) \<Rightarrow> ('a \<Rightarrow> 'b ub) \<Rightarrow> nat \<Rightarrow> 'a list \<Rightarrow> ('b list \<times> nat) ub" where
  "run_view p f n xs = (let (it, k) = range_find_from p xs in view_iterate p f n it k)"

text \<open>views::iota, transform and take: the counter is an int.\<close>

fun iota_view :: "(int \<Rightarrow> int ub) \<Rightarrow> nat \<Rightarrow> int \<Rightarrow> int list ub" where
  "iota_view f 0 i = Some []"
| "iota_view f (Suc n) i = do {
     v \<leftarrow> f i;
     i' \<leftarrow> chk (i + 1);
     vs \<leftarrow> iota_view f n i';
     Some (v # vs) }"

definition topNSquaredEvens :: "nat \<Rightarrow> int list \<Rightarrow> (int list \<times> nat) ub" where
  "topNSquaredEvens n xs = run_view (\<lambda>x. x mod 2 = 0) (\<lambda>x. chk (x * x)) n xs"

fun join_comma :: "string list \<Rightarrow> string" where
  "join_comma [] = []"
| "join_comma [x] = x"
| "join_comma (x # xs) = x @ '', '' @ join_comma xs"

definition printRange :: "string \<Rightarrow> int list \<Rightarrow> string" where
  "printRange label r = ''  '' @ label @ '': ['' @ join_comma (map show_int r) @ '']''"

definition minmax :: "int list \<Rightarrow> (int \<times> int) ub" where
  "minmax xs = (if xs = [] then None else Some (Min (set xs), Max (set xs)))"

definition ranges_main :: "string list ub" where
  "ranges_main = do {
     let numbers = [1, 2, 3, 4, 5, 6, 7, 8, 9, 10, 11, 12, 13, 14, 15];
     (printed, k) \<leftarrow> run_view (\<lambda>n. n mod 2 = 0) (\<lambda>n. chk (n * n)) 4 numbers;
     (result, k) \<leftarrow> run_view (\<lambda>n. n mod 2 = 0) (\<lambda>n. chk (n * n)) 4 numbers;
     _ \<leftarrow> guard (result = [4, 16, 36, 64]);
     (materialized, evaluations) \<leftarrow> run_view (\<lambda>n. n > 10) (\<lambda>n. chk (n * 2)) 3 numbers;
     _ \<leftarrow> guard (materialized = [22, 24, 26]);
     squares \<leftarrow> iota_view (\<lambda>n. chk (n * n)) 10 1;
     let mid = take 5 (drop 5 numbers);
     let rv = rev (take 5 numbers);
     let words_vec = [''Hello'', ''World'', ''C++20'', ''Ranges''];
     (long_words, k) \<leftarrow> run_view (\<lambda>s. length s > 4) Some (length words_vec) words_vec;
     let data = sort [5, 3, 8, 1, 9, 2, 7 :: int];
     _ \<leftarrow> guard (sorted data);
     _ \<leftarrow> guard (takeWhile (\<lambda>x. x \<noteq> 7) data \<noteq> data);
     (mn, mx) \<leftarrow> minmax data;
     _ \<leftarrow> guard (mn = 1 \<and> mx = 9);
     (top3, k) \<leftarrow> topNSquaredEvens 3 numbers;
     _ \<leftarrow> guard (top3 = [4, 16, 36]);
     Some [printRange ''even squared|take(4)'' printed,
       ''  Before iteration: evaluations = 0'',
       ''  After iteration: evaluations = '' @ show_int (int evaluations),
       printRange ''lazy result'' materialized,
       printRange ''first 10 squares'' squares,
       printRange ''drop(5)|take(5)'' mid,
       printRange ''take(5)|reverse'' rv,
       ''  Long words: '' @ concat (map (\<lambda>w. ''['' @ w @ ''] '') long_words),
       printRange ''sorted'' data,
       ''  min='' @ show_int mn @ '' max='' @ show_int mx,
       printRange ''top3 squared evens'' top3] }"

lemma ranges_main_output:
  "ranges_main = Some
    [''  even squared|take(4): [4, 16, 36, 64]'', ''  Before iteration: evaluations = 0'',
     ''  After iteration: evaluations = 17'', ''  lazy result: [22, 24, 26]'',
     ''  first 10 squares: [1, 4, 9, 16, 25, 36, 49, 64, 81, 100]'',
     ''  drop(5)|take(5): [6, 7, 8, 9, 10]'', ''  take(5)|reverse: [5, 4, 3, 2, 1]'',
     ''  Long words: [Hello] [World] [C++20] [Ranges] '', ''  sorted: [1, 2, 3, 5, 7, 8, 9]'',
     ''  min=1 max=9'', ''  top3 squared evens: [4, 16, 36]'']"
  by code_simp

section \<open>The views compute what the eager functions compute, and look no further than they must\<close>

lemma range_find_from_eq: "range_find_from p xs = (dropWhile (\<lambda>x. \<not> p x) xs, length (takeWhile (\<lambda>x. \<not> p x) xs) +
    (if dropWhile (\<lambda>x. \<not> p x) xs = [] then 0 else 1))"
  by (induction xs) (auto split: prod.splits)

lemma filter_dropWhile: "filter p (dropWhile (\<lambda>x. \<not> p x) xs) = filter p xs"
  by (induction xs) auto

lemma dropWhile_hd: "dropWhile (\<lambda>x. \<not> p x) xs = y # ys \<Longrightarrow> p y"
  by (induction xs) (auto split: if_splits)

text \<open>How many elements of the vector a search for the n-th match looks at, or all of them.\<close>

fun looked_at :: "('a \<Rightarrow> bool) \<Rightarrow> nat \<Rightarrow> 'a list \<Rightarrow> nat" where
  "looked_at p n [] = 0"
| "looked_at p n (x # xs) = 1 + (if p x then (if n \<le> 1 then 0 else looked_at p (n - 1) xs) else looked_at p n xs)"

lemma looked_at_drop: "looked_at p n xs = length (takeWhile (\<lambda>x. \<not> p x) xs) + looked_at p n (dropWhile (\<lambda>x. \<not> p x) xs)"
  by (induction xs) auto

lemma looked_at_one: "looked_at p 1 xs = length (takeWhile (\<lambda>x. \<not> p x) xs) + (if dropWhile (\<lambda>x. \<not> p x) xs = [] then 0 else 1)"
  by (induction xs) auto

lemma looked_at_find: "snd (range_find_from p xs) = looked_at p 1 xs"
  by (simp only: range_find_from_eq looked_at_one snd_conv)

lemma view_iterate_eq:
  assumes "\<And>x. x \<in> set it \<Longrightarrow> f x \<noteq> None" and "it = [] \<or> p (hd it)"
  shows "view_iterate p f n it evals =
    Some (map (\<lambda>x. the (f x)) (take n (filter p it)),
      evals + min n (length (filter p it)) + (looked_at p (n + 1) it - (if it = [] then 0 else 1)))"
  using assms
proof (induction n arbitrary: it evals)
  case 0
  then show ?case by (cases it) (auto simp: view_iterate.simps)
next
  case (Suc n)
  show ?case
  proof (cases it)
    case Nil
    then show ?thesis by (simp add: view_iterate.simps)
  next
    case (Cons x xs)
    then obtain v where v: "f x = Some v" using Suc.prems(1) by fastforce
    let ?it = "dropWhile (\<lambda>x. \<not> p x) xs"
    have sub: "set ?it \<subseteq> set xs" by (rule set_dropWhileD [THEN subsetI])
    have ok: "?it = [] \<or> p (hd ?it)" using dropWhile_hd [of p xs] by (cases ?it) auto
    have "view_iterate p f n ?it e = Some (map (\<lambda>x. the (f x)) (take n (filter p ?it)),
        e + min n (length (filter p ?it)) + (looked_at p (n + 1) ?it - (if ?it = [] then 0 else 1)))" for e
      by (rule Suc.IH [OF _ ok]) (use Suc.prems(1) Cons sub in auto)
    moreover have "looked_at p (n + 1) xs = length (takeWhile (\<lambda>x. \<not> p x) xs) + looked_at p (n + 1) ?it"
      by (rule looked_at_drop)
    moreover have "?it \<noteq> [] \<Longrightarrow> 1 \<le> looked_at p (n + 1) ?it" by (cases ?it) auto
    ultimately show ?thesis
      using Suc.prems(2) Cons v by (auto simp: view_iterate.simps [of p f "Suc n"] range_find_from_eq filter_dropWhile)
  qed
qed

text \<open>
  Claim: the lazy pipeline of filter, transform and take yields what filtering, mapping and taking the whole
  vector would, and it evaluates the function once per element taken and the predicate only up to
  the element after the last one taken: one match further than what is printed.
\<close>
theorem pipeline_lazy:
  assumes "\<And>x. x \<in> set xs \<Longrightarrow> f x = Some (g x)"
  shows "run_view p f n xs =
    Some (map g (take n (filter p xs)), min n (length (filter p xs)) + looked_at p (n + 1) xs)"
proof -
  let ?it = "dropWhile (\<lambda>x. \<not> p x) xs"
  have sub: "set ?it \<subseteq> set xs" by (rule set_dropWhileD [THEN subsetI])
  have ok: "?it = [] \<or> p (hd ?it)" using dropWhile_hd [of p xs] by (cases ?it) auto
  have e: "view_iterate p f n ?it e = Some (map (\<lambda>x. the (f x)) (take n (filter p ?it)),
      e + min n (length (filter p ?it)) + (looked_at p (n + 1) ?it - (if ?it = [] then 0 else 1)))" for e
    by (rule view_iterate_eq [where it = ?it and p = p, OF _ ok]) (use assms sub in auto)
  have m: "map (\<lambda>x. the (f x)) (take n (filter p xs)) = map g (take n (filter p xs))"
    by (rule map_cong [OF refl]) (use assms in \<open>auto dest!: in_set_takeD\<close>)
  have l: "looked_at p (n + 1) xs = length (takeWhile (\<lambda>x. \<not> p x) xs) + looked_at p (n + 1) ?it"
    by (rule looked_at_drop)
  have "?it \<noteq> [] \<Longrightarrow> 1 \<le> looked_at p (n + 1) ?it" by (cases ?it) auto
  then show ?thesis using l by (auto simp: run_view_def range_find_from_eq e filter_dropWhile m)
qed

theorem pipeline_lazy_witness:
  "run_view (\<lambda>n. n > 10) (\<lambda>n. Some (n * 2)) 3 [1, 11, 12, 13, 2, 14, 15 :: int] = Some ([22, 24, 26], 9)"
  using pipeline_lazy [of "[1, 11, 12, 13, 2, 14, 15 :: int]" "\<lambda>n. Some (n * 2)" "\<lambda>n. n * 2" "\<lambda>n. n > 10" 3] by simp

text \<open>The infinite view: its elements are computed as long as they and the counter fit.\<close>

lemma iota_view_eq:
  "(\<And>j. i \<le> j \<Longrightarrow> j < i + int n \<Longrightarrow> f j = Some (g j)) \<Longrightarrow> INT_MIN \<le> i \<Longrightarrow> i + int n \<le> INT_MAX \<Longrightarrow>
   iota_view f n i = Some (map g [i..i + int n - 1])"
proof (induction n arbitrary: i)
  case (Suc n)
  have "chk (i + 1) = Some (i + 1)" using Suc.prems(2,3) by (intro chk_Some) auto
  then show ?case using Suc.IH [of "i + 1"] Suc.prems by (simp add: upto_rec1)
qed simp

lemma iota_view_None: "i \<le> j \<Longrightarrow> j < i + int n \<Longrightarrow> f j = None \<Longrightarrow> iota_view f n i = None"
proof (induction n arbitrary: i)
  case (Suc n)
  show ?case
  proof (cases "i = j")
    case True
    then show ?thesis using Suc.prems(3) by simp
  next
    case False
    then have "iota_view f n (i + 1) = None" using Suc.IH [of "i + 1"] Suc.prems by simp
    then show ?thesis by (cases "f i"; cases "chk (i + 1)") (auto simp: chk_def split: if_splits)
  qed
qed simp

lemma squares_end_at_overflow:
  "iota_view (\<lambda>n. chk (n * n)) 46340 1 = Some (map (\<lambda>n. n * n) [1..46340]) \<and> iota_view (\<lambda>n. chk (n * n)) 46341 1 = None"
proof
  have "chk (j * j) = Some (j * j)" if "1 \<le> j" "j < 1 + int 46340" for j :: int
  proof -
    have "j * j \<le> 46340 * 46340" using that by (intro mult_mono) auto
    moreover have "0 \<le> j * j" by simp
    ultimately show ?thesis by (intro chk_Some) linarith+
  qed
  then show "iota_view (\<lambda>n. chk (n * n)) 46340 1 = Some (map (\<lambda>n. n * n) [1..46340])"
    using iota_view_eq [of 1 46340 "\<lambda>n. chk (n * n)" "\<lambda>n. n * n"] by simp
  show "iota_view (\<lambda>n. chk (n * n)) 46341 1 = None"
    by (rule iota_view_None [of _ 46341]) (simp_all add: chk_def in_int_def)
qed

section \<open>Lambdas: what a closure captures\<close>

text \<open>Local variables live at addresses; a variable whose scope has ended has no value.\<close>

type_synonym locals = "nat \<Rightarrow> int option"

datatype closure =
    Times_two_by_value int
  | Times_two_by_reference nat
  | Sum_by_value int int
  | Increment_by_reference nat
  | Read_by_reference nat

text \<open>The closure that a lambda expression builds where it is evaluated.\<close>

datatype lambda_expr = ByVal nat | ByRef nat | ByAll nat nat | ByAllRef nat | Dangling nat

fun capture :: "lambda_expr \<Rightarrow> locals \<Rightarrow> closure ub" where
  "capture (ByVal x) s = map_option Times_two_by_value (s x)"
| "capture (ByRef x) s = Some (Times_two_by_reference x)"
| "capture (ByAll x y) s = do { a \<leftarrow> s x; b \<leftarrow> s y; Some (Sum_by_value a b) }"
| "capture (ByAllRef x) s = Some (Increment_by_reference x)"
| "capture (Dangling x) s = Some (Read_by_reference x)"

fun call :: "closure \<Rightarrow> locals \<Rightarrow> (int \<times> locals) ub" where
  "call (Times_two_by_value a) s = do { r \<leftarrow> chk (a * 2); Some (r, s) }"
| "call (Times_two_by_reference x) s = do { a \<leftarrow> s x; r \<leftarrow> chk (a * 2); Some (r, s) }"
| "call (Sum_by_value a b) s = do { r \<leftarrow> chk (a + b); Some (r, s) }"
| "call (Increment_by_reference x) s = do { a \<leftarrow> s x; r \<leftarrow> chk (a + 1); Some (r, s(x \<mapsto> r)) }"
| "call (Read_by_reference x) s = do { a \<leftarrow> s x; Some (a, s) }"

text \<open>The counter's state is its own captured variable.\<close>

definition call_counter :: "int \<Rightarrow> (int \<times> int) ub" where
  "call_counter cnt = do { c \<leftarrow> chk (cnt + 1); Some (c, c) }"

fun call_counter_times :: "nat \<Rightarrow> int \<Rightarrow> (int list \<times> int) ub" where
  "call_counter_times 0 c = Some ([], c)"
| "call_counter_times (Suc n) c = do {
     (r, c1) \<leftarrow> call_counter c;
     (rs, c2) \<leftarrow> call_counter_times n c1;
     Some (r # rs, c2) }"

definition multiply_int :: "int \<Rightarrow> int \<Rightarrow> int ub" where
  "multiply_int a b = chk (a * b)"

definition multiply_double :: "rat \<Rightarrow> rat \<Rightarrow> rat" where
  "multiply_double a b = a * b"

fun range_sum_loop :: "int list \<Rightarrow> int \<Rightarrow> int ub" where
  "range_sum_loop [] s = Some s"
| "range_sum_loop (v # vs) s = do { s' \<leftarrow> chk (s + v); range_sum_loop vs s' }"

definition applyTwice :: "('a \<Rightarrow> 'a ub) \<Rightarrow> 'a \<Rightarrow> 'a ub" where
  "applyTwice f val = do { a \<leftarrow> f val; f a }"

fun transform_all :: "('a \<Rightarrow> 'b ub) \<Rightarrow> 'a list \<Rightarrow> 'b list ub" where
  "transform_all f [] = Some []"
| "transform_all f (x # xs) = do { y \<leftarrow> f x; ys \<leftarrow> transform_all f xs; Some (y # ys) }"

definition lambdas_main :: "string list ub" where
  "lambdas_main = do {
     let s = (Map.empty :: locals)(0 \<mapsto> 10, 1 \<mapsto> 20);
     byVal \<leftarrow> capture (ByVal 0) s;
     byRef \<leftarrow> capture (ByRef 0) s;
     byAll \<leftarrow> capture (ByAll 0 1) s;
     byAllRef \<leftarrow> capture (ByAllRef 0) s;
     (r, s) \<leftarrow> call byVal s;
     _ \<leftarrow> guard (r = 20);
     (r, s) \<leftarrow> call byAll s;
     _ \<leftarrow> guard (r = 30);
     (r, s) \<leftarrow> call byAllRef s;
     _ \<leftarrow> guard (s 0 = Some 11);
     (r, s) \<leftarrow> call byRef s;
     _ \<leftarrow> guard (r = 22);
     (v1, s) \<leftarrow> call byVal s;
     (v2, s) \<leftarrow> call byRef s;
     (c, cnt) \<leftarrow> call_counter_times 3 0;
     _ \<leftarrow> guard (c = [1, 2, 3]);
     (c4, cnt) \<leftarrow> call_counter cnt;
     m \<leftarrow> multiply_int 3 4;
     _ \<leftarrow> guard (m = 12);
     _ \<leftarrow> guard (multiply_double (5 / 2) 4 = 10);
     let data = Some [1, 2, 3, 4, 5];
     let (d, data) = (data, None :: int list option);
     _ \<leftarrow> guard (data = None);
     vs \<leftarrow> d;
     total_sum \<leftarrow> range_sum_loop vs 0;
     _ \<leftarrow> guard (total_sum = 15);
     let nums = rev (sort [5, 2, 8, 1, 9, 3, 7, 4, 6 :: int]);
     n0 \<leftarrow> vget nums 0;
     _ \<leftarrow> guard (n0 = 9);
     even \<leftarrow> find (\<lambda>n. n mod 2 = 0) nums;
     _ \<leftarrow> guard (even = 8);
     squared \<leftarrow> transform_all (\<lambda>n. chk (n * n)) nums;
     q0 \<leftarrow> vget squared 0;
     _ \<leftarrow> guard (q0 = 81);
     let config = [''setting1'', ''setting2'', ''setting3''];
     _ \<leftarrow> guard (length config = 3);
     t \<leftarrow> applyTwice (\<lambda>n. chk (n + 3)) 10;
     _ \<leftarrow> guard (t = 16);
     sq \<leftarrow> chk (5 * 5);
     _ \<leftarrow> guard (sq = 25);
     let s = s(2 \<mapsto> 42);
     danglingDemo \<leftarrow> capture (Dangling 2) s;
     (r, s) \<leftarrow> call danglingDemo s;
     _ \<leftarrow> guard (r = 42);
     let s = s(2 := None);
     Some [''  byVal() = '' @ show_int v1 @ '', byRef() = '' @ show_int v2,
       ''  counter() called 3 times: '' @ show_int c4,
       ''  multiply(3,4) = '' @ show_int m,
       ''  multiply(2.5,4.0) = '' @ show_general (multiply_double (5 / 2) 4),
       ''  Sum via moved unique_ptr: '' @ show_int total_sum,
       ''  First sorted: '' @ show_int n0 @ '', first squared: '' @ show_int q0,
       ''  Config initialized with '' @ show_int (int (length config)) @ '' items'',
       ''  applyTwice(addThree, 10) = '' @ show_int t,
       ''  constexpr square(5) = '' @ show_int sq] }"

lemma lambdas_main_output:
  "lambdas_main = Some
    [''  byVal() = 20, byRef() = 22'', ''  counter() called 3 times: 4'', ''  multiply(3,4) = 12'',
     ''  multiply(2.5,4.0) = 10'', ''  Sum via moved unique_ptr: 15'', ''  First sorted: 9, first squared: 81'',
     ''  Config initialized with 3 items'', ''  applyTwice(addThree, 10) = 16'', ''  constexpr square(5) = 25'']"
  by code_simp

text \<open>The variables whose addresses a lambda expression captures.\<close>

fun referenced :: "lambda_expr \<Rightarrow> nat set" where
  "referenced (ByRef x) = {x}"
| "referenced (ByAllRef x) = {x}"
| "referenced (Dangling x) = {x}"
| "referenced _ = {}"

text \<open>
  Claim: a closure depends on its captures only: what it returns is decided by the variables it captured
  by reference, as they are at the call; a capture by value is what the variable was; and the closure
  is undefined once a variable it refers to is gone.
\<close>
theorem closure_depends_on_captures:
  assumes "capture e s = Some f" and "\<And>x. x \<in> referenced e \<Longrightarrow> s1 x = s2 x"
  shows "map_option fst (call f s1) = map_option fst (call f s2) \<and>
    ((\<exists>x \<in> referenced e. s1 x = None) \<longrightarrow> call f s1 = None)"
  using assms by (cases e) (auto simp: bind_Some_conv split: bind_splits)

theorem closure_depends_on_captures_witness:
  "call (Read_by_reference 2) (Map.empty(0 \<mapsto> 11)) = None"
proof -
  have "capture (Dangling 2) (Map.empty(2 \<mapsto> 42)) = Some (Read_by_reference 2)" by simp
  from closure_depends_on_captures [OF this, of "Map.empty(0 \<mapsto> 11)" "Map.empty(0 \<mapsto> 11)"] show ?thesis by simp
qed

lemma counter_counts: "c + int n \<le> INT_MAX \<Longrightarrow> INT_MIN \<le> c \<Longrightarrow>
    call_counter_times n c = Some (map (\<lambda>i. c + int i) [1..<Suc n], c + int n)"
proof (induction n arbitrary: c)
  case (Suc n)
  have "chk (c + 1) = Some (c + 1)" using Suc.prems by (intro chk_Some) auto
  moreover have "map (\<lambda>i. c + int i) [1..<Suc (Suc n)] = (c + 1) # map (\<lambda>i. c + 1 + int i) [1..<Suc n]"
    by (simp add: upt_conv_Cons map_Suc_upt [symmetric] del: upt_Suc)
  ultimately show ?case using Suc.IH [of "c + 1"] Suc.prems by (simp add: call_counter_def)
qed simp

end
