(* ===== verification/Forwarding_Elision.thy ===== *)
theory Forwarding_Elision
  imports Prelude Vector_Growth
begin

text \<open>
  src/src/modern_cpp/perfect_forwarding.cpp: reference collapsing, forwarding into a container of objects that
  count their copies and moves, and main; and src/src/modern_cpp/copy_elision.cpp: the ways to return a widget,
  their constructor calls, and main. The growth of the vector, what a moved-from string holds and
  whether the compiler elides where it may are parameters. The counters are ints (None beyond their range).
\<close>

section \<open>References\<close>

datatype category = Lvalue | Rvalue

datatype reference = No_reference | Lvalue_reference | Rvalue_reference

text \<open>T for an argument of a forwarding parameter T&&, and T&& after collapsing.\<close>

fun deduced :: "category \<Rightarrow> reference" where
  "deduced Lvalue = Lvalue_reference"
| "deduced Rvalue = No_reference"

fun collapse :: "reference \<Rightarrow> reference" where
  "collapse Lvalue_reference = Lvalue_reference"
| "collapse _ = Rvalue_reference"

text \<open>The value category of std::forward<T>(x) is that of the cast to T&&.\<close>

definition forward :: "reference \<Rightarrow> category" where
  "forward t = (if collapse t = Lvalue_reference then Lvalue else Rvalue)"

definition showRefType :: "category \<Rightarrow> string" where
  "showRefType arg = (if deduced arg = Lvalue_reference then ''  T is lvalue reference (T& && -> T&)''
     else ''  T is non-reference (T&& && -> T&&)'')"

section \<open>Tracked objects in a container\<close>

text \<open>A tracked object is its string. The constructor that a category selects: the new object and the argument afterwards.\<close>

definition construct :: "string \<Rightarrow> category \<Rightarrow> string \<Rightarrow> counters \<Rightarrow> (string \<times> string \<times> counters) ub" where
  "construct junk cat o_data c = (case cat of
     Lvalue \<Rightarrow> do { k \<leftarrow> chk (copies c + 1); Some (o_data, o_data, c\<lparr>copies := k\<rparr>) }
   | Rvalue \<Rightarrow> do { m \<leftarrow> chk (moves c + 1); Some (o_data, junk, c\<lparr>moves := m\<rparr>) })"

record container =
  items :: "string list"
  room :: nat

definition empty_container :: container where
  "empty_container = \<lparr>items = [], room = 0\<rparr>"

text \<open>A full vector moves its objects, whose move constructor is noexcept.\<close>

fun relocate :: "string list \<Rightarrow> counters \<Rightarrow> counters ub" where
  "relocate [] c = Some c"
| "relocate (x # xs) c = do { m \<leftarrow> chk (moves c + 1); relocate xs (c\<lparr>moves := m\<rparr>) }"

definition make_room :: "(nat \<Rightarrow> nat) \<Rightarrow> container \<Rightarrow> counters \<Rightarrow> (container \<times> counters) ub" where
  "make_room growth v c =
     (if length (items v) < room v then Some (v, c)
      else do { c' \<leftarrow> relocate (items v) c; Some (v\<lparr>room := growth (room v)\<rparr>, c') })"

definition vector_push_back :: "(nat \<Rightarrow> nat) \<Rightarrow> string \<Rightarrow> category \<Rightarrow> string \<Rightarrow> container \<Rightarrow> counters \<Rightarrow> (container \<times> string \<times> counters) ub" where
  "vector_push_back growth junk cat item v c = do {
     (x, item', c1) \<leftarrow> construct junk cat item c;
     (v', c2) \<leftarrow> make_room growth v c1;
     Some (v'\<lparr>items := items v' @ [x]\<rparr>, item', c2) }"

text \<open>A const reference is an lvalue whatever it is bound to.\<close>

definition addByCopy :: "(nat \<Rightarrow> nat) \<Rightarrow> string \<Rightarrow> string \<Rightarrow> container \<Rightarrow> counters \<Rightarrow> (container \<times> string \<times> counters) ub" where
  "addByCopy growth junk item v c = vector_push_back growth junk Lvalue item v c"

definition addForwarded :: "(nat \<Rightarrow> nat) \<Rightarrow> string \<Rightarrow> category \<Rightarrow> string \<Rightarrow> container \<Rightarrow> counters \<Rightarrow> (container \<times> string \<times> counters) ub" where
  "addForwarded growth junk arg item v c = vector_push_back growth junk (forward (deduced arg)) item v c"

definition emplaceItem :: "(nat \<Rightarrow> nat) \<Rightarrow> string \<Rightarrow> container \<Rightarrow> counters \<Rightarrow> (container \<times> counters) ub" where
  "emplaceItem growth s v c = do {
     (v', c') \<leftarrow> make_room growth v c;
     Some (v'\<lparr>items := items v' @ [s]\<rparr>, c') }"

definition back_item :: "container \<Rightarrow> string ub" where
  "back_item v = (if items v = [] then None else Some (List.last (items v)))"

definition makeObject :: "string \<Rightarrow> counters \<Rightarrow> string option \<times> counters" where
  "makeObject s c = (Some s, c)"

definition report :: "string \<Rightarrow> counters \<Rightarrow> string" where
  "report label c = ''  ['' @ label @ ''] copies='' @ show_int (copies c) @ '' moves='' @ show_int (moves c)"

definition perfect_forwarding_main :: "(nat \<Rightarrow> nat) \<Rightarrow> string \<Rightarrow> string list ub" where
  "perfect_forwarding_main growth junk = do {
     let v = empty_container;
     let item = ''hello'';
     (v, item, k) \<leftarrow> addByCopy growth junk item v vector_reset;
     let l1 = report ''addByCopy lvalue'' k;
     (v, temp, k) \<leftarrow> addByCopy growth junk ''world'' v vector_reset;
     let l2 = report ''addByCopy rvalue'' k;
     let lval = ''lvalue_data'';
     (v, lval, k) \<leftarrow> addForwarded growth junk Lvalue lval v vector_reset;
     let l3 = report ''forward lvalue'' k;
     (v, temp, k) \<leftarrow> addForwarded growth junk Rvalue ''rvalue_data'' v vector_reset;
     let l4 = report ''forward rvalue'' k;
     (v, lval, k) \<leftarrow> addForwarded growth junk Rvalue lval v vector_reset;
     let l5 = report ''forward moved'' k;
     (v, k) \<leftarrow> emplaceItem growth ''constructed_in_place'' v vector_reset;
     let l6 = report ''emplace'' k;
     b \<leftarrow> back_item v;
     _ \<leftarrow> guard (b = ''constructed_in_place'');
     let (obj, k) = makeObject ''factory_made'' vector_reset;
     o_data \<leftarrow> obj;
     _ \<leftarrow> guard (o_data = ''factory_made'');
     let l7 = report ''factory'' k;
     _ \<leftarrow> guard (collapse (deduced Lvalue) = Lvalue_reference);
     _ \<leftarrow> guard (collapse (deduced Rvalue) = Rvalue_reference);
     Some [l1, l2, l3, l4, l5, l6, l7, showRefType Lvalue, showRefType Rvalue, showRefType Rvalue] }"

lemma perfect_forwarding_main_output:
  "perfect_forwarding_main (\<lambda>c. if c = 0 then 1 else 2 * c) [] = Some
    [''  [addByCopy lvalue] copies=1 moves=0'', ''  [addByCopy rvalue] copies=1 moves=1'',
     ''  [forward lvalue] copies=1 moves=2'', ''  [forward rvalue] copies=0 moves=1'',
     ''  [forward moved] copies=0 moves=5'', ''  [emplace] copies=0 moves=0'', ''  [factory] copies=0 moves=0'',
     ''  T is lvalue reference (T& && -> T&)'', ''  T is non-reference (T&& && -> T&&)'',
     ''  T is non-reference (T&& && -> T&&)'']"
  by code_simp

text \<open>In a vector that grows by one element at a time, the emplacement that is to move nothing moves five.\<close>

lemma emplace_moves_on_growth:
  "map_option (\<lambda>ls. ls ! 5) (perfect_forwarding_main (\<lambda>c. c + 1) []) = Some ''  [emplace] copies=0 moves=5''"
  by code_simp

subsection \<open>Forwarding costs what the arguments ask for\<close>

text \<open>Forwarding keeps the category of the argument; its type collapses accordingly.\<close>

lemma forward_preserves: "forward (deduced arg) = arg"
  by (cases arg) (simp_all add: forward_def)

fun add_all :: "(nat \<Rightarrow> nat) \<Rightarrow> string \<Rightarrow> (category \<times> string) list \<Rightarrow> container \<Rightarrow> counters \<Rightarrow> (container \<times> counters) ub" where
  "add_all growth junk [] v c = Some (v, c)"
| "add_all growth junk ((arg, s) # as) v c = do {
     (v', s', c') \<leftarrow> addForwarded growth junk arg s v c;
     add_all growth junk as v' c' }"

definition lvalues :: "(category \<times> string) list \<Rightarrow> nat" where
  "lvalues as = length (filter (\<lambda>a. fst a = Lvalue) as)"

lemma relocate_eq: "0 \<le> moves c \<Longrightarrow> moves c + int (length xs) \<le> INT_MAX \<Longrightarrow>
    relocate xs c = Some (c\<lparr>moves := moves c + int (length xs)\<rparr>)"
proof (induction xs arbitrary: c)
  case (Cons x xs)
  have "chk (moves c + 1) = Some (moves c + 1)" using Cons.prems by (intro chk_Some) auto
  then show ?case using Cons.IH [of "c\<lparr>moves := moves c + 1\<rparr>"] Cons.prems by simp
qed simp

lemma grow_ge: "cost \<le> snd (snd (grow growth k (n, cap, cost)))"
  using grow_shift [of growth k n cap 0 cost] by (simp split: prod.splits)

lemma grow_step: "grow growth (Suc k) (n, cap, cost) =
    grow growth k (Suc n, if n < cap then cap else growth cap, cost + (if n < cap then 0 else n))"
  by simp

lemma add_all_eq:
  assumes "0 \<le> moves c" "0 \<le> copies c" "copies c + int (lvalues as) \<le> INT_MAX"
    and "moves c + int (length as - lvalues as + snd (snd (grow growth (length as) (length (items v), room v, 0)))) \<le> INT_MAX"
  shows "add_all growth junk as v c =
    (case grow growth (length as) (length (items v), room v, 0) of (n, cap, cost) \<Rightarrow>
      Some (\<lparr>items = items v @ map snd as, room = cap\<rparr>,
        \<lparr>moves = moves c + int (length as - lvalues as + cost), copies = copies c + int (lvalues as)\<rparr>))"
  using assms
proof (induction as arbitrary: v c)
  case Nil
  then show ?case by (simp add: lvalues_def)
next
  case (Cons a as)
  obtain arg s where a: "a = (arg, s)" by (cases a)
  let ?n = "length (items v)"
  define full where "full = (if ?n < room v then 0 else ?n)"
  define cap where "cap = (if ?n < room v then room v else growth (room v))"
  define v' where "v' = \<lparr>items = items v @ [s], room = cap\<rparr>"
  define l r where "l = (if arg = Lvalue then 1 else 0 :: nat)" and "r = (if arg = Lvalue then 0 else 1 :: nat)"
  define c' where "c' = \<lparr>moves = moves c + int (r + full), copies = copies c + int l\<rparr>"
  obtain n1 cap1 cost1 where g: "grow growth (length as) (Suc ?n, cap, 0) = (n1, cap1, cost1)"
    by (cases "grow growth (length as) (Suc ?n, cap, 0)")
  have g': "grow growth (length (a # as)) (?n, room v, 0) = (n1, cap1, cost1 + full)"
    using grow_shift [of growth "length as" "Suc ?n" cap 0 full] g by (cases "?n < room v") (simp_all add: full_def cap_def)
  have len: "lvalues as \<le> length as" by (simp add: lvalues_def)
  have lv: "lvalues (a # as) = lvalues as + l" "length (a # as) - lvalues (a # as) = length as - lvalues as + r"
    using len by (auto simp: lvalues_def a l_def r_def)
  have room: "moves c + int (r + full) \<le> INT_MAX" using Cons.prems(4) g' lv(2) by simp
  have copy: "copies c + int l \<le> INT_MAX" using Cons.prems(3) lv(1) by simp
  have one: "construct junk arg s c = Some (s, if arg = Lvalue then s else junk, \<lparr>moves = moves c + int r, copies = copies c + int l\<rparr>)"
    using Cons.prems(1,2) room copy
    by (cases arg) (auto simp: construct_def l_def r_def chk_def in_int_def)
  have "make_room growth v \<lparr>moves = moves c + int r, copies = copies c + int l\<rparr> = Some (v\<lparr>room := cap\<rparr>, c')"
    using room Cons.prems(1) relocate_eq [of "\<lparr>moves = moves c + int r, copies = copies c + int l\<rparr>" "items v"]
    by (auto simp: make_room_def cap_def full_def c'_def)
  then have step: "addForwarded growth junk arg s v c = Some (v', if arg = Lvalue then s else junk, c')"
    using one by (simp add: addForwarded_def vector_push_back_def forward_preserves v'_def)
  have "add_all growth junk as v' c' =
    (case grow growth (length as) (length (items v'), room v', 0) of (n, cap, cost) \<Rightarrow>
      Some (\<lparr>items = items v' @ map snd as, room = cap\<rparr>,
        \<lparr>moves = moves c' + int (length as - lvalues as + cost), copies = copies c' + int (lvalues as)\<rparr>))"
  proof (rule Cons.IH)
    show "copies c' + int (lvalues as) \<le> INT_MAX" using Cons.prems(3) lv(1) by (simp add: c'_def)
    show "moves c' + int (length as - lvalues as + snd (snd (grow growth (length as) (length (items v'), room v', 0)))) \<le> INT_MAX"
      using Cons.prems(4) g g' lv(2) by (simp add: c'_def v'_def)
  qed (use Cons.prems(1,2) in \<open>simp_all add: c'_def\<close>)
  then show ?case using step g g' lv by (simp add: a v'_def c'_def del: grow.simps)
qed

text \<open>
  Claim: forwarding into the container copies exactly the lvalues and moves exactly the rvalues; all other
  moves are those of a growing vector, at most two per element.
\<close>
theorem forwarding_preserves_category:
  assumes "\<And>cap. 2 * cap \<le> growth cap \<and> cap < growth cap" and "3 * int (length as) \<le> INT_MAX"
  shows "map_option (\<lambda>(v, c). (items v, copies c, moves c)) (add_all growth junk as empty_container vector_reset) =
    Some (map snd as, int (lvalues as), int (length as - lvalues as + vector_transfers growth (length as))) \<and>
    vector_transfers growth (length as) \<le> 2 * length as"
proof -
  have t: "vector_transfers growth (length as) \<le> 2 * length as" by (rule transfers_amortized) (rule assms(1))
  obtain n cap cost where g: "grow growth (length as) (0, 0, 0) = (n, cap, cost)" by (cases "grow growth (length as) (0, 0, 0)")
  have len: "lvalues as \<le> length as" by (simp add: lvalues_def)
  then have "int (lvalues as) \<le> INT_MAX" "int (length as - lvalues as + cost) \<le> INT_MAX"
    using assms(2) t g by (simp_all add: vector_transfers_def)
  then show ?thesis using add_all_eq [of vector_reset as growth empty_container junk] g t
    by (simp add: vector_reset_def empty_container_def vector_transfers_def)
qed

theorem forwarding_preserves_category_witness:
  "map_option (\<lambda>(v, c). (items v, copies c, moves c))
     (add_all (\<lambda>c. if c = 0 then 1 else 2 * c) [] [(Lvalue, ''a''), (Rvalue, ''b''), (Rvalue, ''c'')] empty_container vector_reset) =
   Some ([''a'', ''b'', ''c''], 1, 5)"
proof -
  let ?g = "\<lambda>c :: nat. if c = 0 then 1 else 2 * c"
  have "vector_transfers ?g (Suc (Suc (Suc 0))) = 3" by (simp add: vector_transfers_def)
  moreover have "lvalues [(Lvalue, ''a''), (Rvalue, ''b''), (Rvalue, ''c'')] = 1" by (simp add: lvalues_def)
  ultimately show ?thesis
    using forwarding_preserves_category [of ?g "[(Lvalue, ''a''), (Rvalue, ''b''), (Rvalue, ''c'')]" "[]"] by simp
qed

section \<open>Returning a widget\<close>

record elision_counters =
  constructions :: int
  copied :: int
  moved :: int
  lines :: "string list"

definition resetCounters :: "elision_counters \<Rightarrow> elision_counters" where
  "resetCounters c = c\<lparr>constructions := 0, copied := 0, moved := 0\<rparr>"

definition forward_Widget :: "string \<Rightarrow> nat \<Rightarrow> elision_counters \<Rightarrow> (widget \<times> elision_counters) ub" where
  "forward_Widget name sz c = do {
     k \<leftarrow> chk (constructions c + 1);
     Some (new_widget name sz, c\<lparr>constructions := k, lines := lines c @ [''  [Ctor] '' @ name]\<rparr>) }"

definition move_construct :: "widget \<Rightarrow> elision_counters \<Rightarrow> (widget \<times> elision_counters) ub" where
  "move_construct w c = do {
     k \<leftarrow> chk (moved c + 1);
     Some (w, c\<lparr>moved := k, lines := lines c @ [''  [Move] '' @ wname w]\<rparr>) }"

definition copy_construct :: "widget \<Rightarrow> elision_counters \<Rightarrow> (widget \<times> elision_counters) ub" where
  "copy_construct w c = do {
     k \<leftarrow> chk (copied c + 1);
     let w' = \<lparr>wdata = wdata w, wname = wname w @ ''_copy''\<rparr>;
     Some (w', c\<lparr>copied := k, lines := lines c @ [''  [Copy] '' @ wname w']\<rparr>) }"

definition elision_report :: "string \<Rightarrow> elision_counters \<Rightarrow> elision_counters" where
  "elision_report label c = resetCounters (c\<lparr>lines := lines c @ [''  -> '' @ label @ '': ctors='' @ show_int (constructions c) @
     '' copies='' @ show_int (copied c) @ '' moves='' @ show_int (moved c)]\<rparr>)"

text \<open>
  The operand of a return statement: a prvalue is the result itself; a local variable is the result
  itself if the compiler makes it so, and is moved from otherwise; an xvalue is always moved from.
\<close>

datatype return_operand = Prvalue widget | Local_variable widget | Xvalue widget

fun return_value :: "bool \<Rightarrow> return_operand \<Rightarrow> elision_counters \<Rightarrow> (widget \<times> elision_counters) ub" where
  "return_value nrvo (Prvalue w) c = Some (w, c)"
| "return_value nrvo (Local_variable w) c = (if nrvo then Some (w, c) else move_construct w c)"
| "return_value nrvo (Xvalue w) c = move_construct w c"

definition makeWidgetRVO :: "bool \<Rightarrow> elision_counters \<Rightarrow> (widget \<times> elision_counters) ub" where
  "makeWidgetRVO nrvo c = do { (w, c) \<leftarrow> forward_Widget ''rvo_widget'' 100 c; return_value nrvo (Prvalue w) c }"

definition makeWidgetNRVO :: "bool \<Rightarrow> elision_counters \<Rightarrow> (widget \<times> elision_counters) ub" where
  "makeWidgetNRVO nrvo c = do { (w, c) \<leftarrow> forward_Widget ''nrvo_widget'' 100 c; return_value nrvo (Local_variable w) c }"

definition makeWidgetConditional :: "bool \<Rightarrow> bool \<Rightarrow> elision_counters \<Rightarrow> (widget \<times> elision_counters) ub" where
  "makeWidgetConditional nrvo flag c = do {
     (a, c) \<leftarrow> forward_Widget ''path_a'' 100 c;
     (b, c) \<leftarrow> forward_Widget ''path_b'' 100 c;
     return_value nrvo (Local_variable (if flag then a else b)) c }"

definition makeWidgetBad :: "bool \<Rightarrow> elision_counters \<Rightarrow> (widget \<times> elision_counters) ub" where
  "makeWidgetBad nrvo c = do { (w, c) \<leftarrow> forward_Widget ''dont_move_me'' 100 c; return_value nrvo (Xvalue w) c }"

definition makeWidgetGood :: "bool \<Rightarrow> elision_counters \<Rightarrow> (widget \<times> elision_counters) ub" where
  "makeWidgetGood nrvo c = do { (w, c) \<leftarrow> forward_Widget ''let_me_elide'' 100 c; return_value nrvo (Local_variable w) c }"

definition createAndReturn :: "bool \<Rightarrow> elision_counters \<Rightarrow> (widget \<times> elision_counters) ub" where
  "createAndReturn nrvo c = do { (w, c) \<leftarrow> forward_Widget ''guaranteed'' 100 c; return_value nrvo (Prvalue w) c }"

text \<open>What the compiler does for a function with one returned variable, and for one with two.\<close>

definition copy_elision_main :: "bool \<Rightarrow> bool \<Rightarrow> string list ub" where
  "copy_elision_main nrvo cond_nrvo = do {
     let c = \<lparr>constructions = 0, copied = 0, moved = 0, lines = []\<rparr>;
     (w1, c) \<leftarrow> makeWidgetRVO nrvo c;
     let c = elision_report ''RVO'' c;
     _ \<leftarrow> guard (length (wdata w1) = 100);
     (w2, c) \<leftarrow> makeWidgetNRVO nrvo c;
     let c = elision_report ''NRVO'' c;
     (w3, c) \<leftarrow> makeWidgetConditional cond_nrvo True c;
     let c = elision_report ''Conditional'' c;
     (w4, c) \<leftarrow> makeWidgetBad nrvo c;
     let c = elision_report ''Bad (std::move)'' c;
     (w5, c) \<leftarrow> makeWidgetGood nrvo c;
     let c = elision_report ''Good (no move)'' c;
     (w6, c) \<leftarrow> createAndReturn nrvo c;
     let c = elision_report ''Guaranteed'' c;
     (w7, c) \<leftarrow> forward_Widget ''direct_init'' 100 c;
     let c = elision_report ''Direct prvalue'' c;
     Some (lines c) }"

lemma copy_elision_main_output:
  "copy_elision_main True False = Some
    [''  [Ctor] rvo_widget'', ''  -> RVO: ctors=1 copies=0 moves=0'',
     ''  [Ctor] nrvo_widget'', ''  -> NRVO: ctors=1 copies=0 moves=0'',
     ''  [Ctor] path_a'', ''  [Ctor] path_b'', ''  [Move] path_a'', ''  -> Conditional: ctors=2 copies=0 moves=1'',
     ''  [Ctor] dont_move_me'', ''  [Move] dont_move_me'', ''  -> Bad (std::move): ctors=1 copies=0 moves=1'',
     ''  [Ctor] let_me_elide'', ''  -> Good (no move): ctors=1 copies=0 moves=0'',
     ''  [Ctor] guaranteed'', ''  -> Guaranteed: ctors=1 copies=0 moves=0'',
     ''  [Ctor] direct_init'', ''  -> Direct prvalue: ctors=1 copies=0 moves=0'']"
  by code_simp

text \<open>Whatever the compiler elides, main returns and no function copies the widget it returns.\<close>

lemma copy_elision_main_returns: "copy_elision_main nrvo cond_nrvo \<noteq> None"
proof -
  have "\<forall>n \<in> {True, False}. \<forall>k \<in> {True, False}. map_option length (copy_elision_main n k) \<noteq> None"
    by code_simp
  then show ?thesis by (cases nrvo; cases cond_nrvo) auto
qed

text \<open>
  Claim: std::move in a return statement never saves a move: the function that moves its local variable
  out has at least as many moves as the one that returns it, whatever the compiler elides, and the
  returned widgets are the same but for their names.
\<close>
lemma move_in_return_never_helps:
  "makeWidgetBad nrvo c = Some (w, c1) \<Longrightarrow> makeWidgetGood nrvo c = Some (w', c2) \<Longrightarrow>
   moved c2 \<le> moved c1 \<and> (moved c2 < moved c1 \<longleftrightarrow> nrvo) \<and> constructions c1 = constructions c2 \<and>
   copied c1 = copied c \<and> copied c2 = copied c \<and> wdata w = wdata w'"
  by (auto simp: makeWidgetBad_def makeWidgetGood_def forward_Widget_def move_construct_def bind_Some_conv chk_eq_Some_iff
      new_widget_def split: if_splits)

end
