(* ===== verification/Generic_Functions.thy ===== *)
theory Generic_Functions
  imports Complex_Main Software_Design Constexpr_Functions "HOL-Library.List_Lexorder" "HOL-Library.Char_ord"
begin

text \<open>
  src/src/modern_cpp/templates_sfinae.cpp, src/src/modern_cpp/concepts.cpp (type traits and concepts as predicates on
  the types main uses, overload resolution, the variadic sum with its conversions) and
  src/src/modern_cpp/structured_bindings.cpp (the map of shares, its insertion, and main). A call that does not
  compile is None, as is overflow. Doubles are rationals.
\<close>

section \<open>Types, traits and concepts\<close>

datatype ctype = Int_t | Double_t | Bool_t | String_t | Vector_t ctype

fun is_integral :: "ctype \<Rightarrow> bool" where
  "is_integral Int_t = True"
| "is_integral Bool_t = True"
| "is_integral _ = False"

fun is_floating_point :: "ctype \<Rightarrow> bool" where
  "is_floating_point Double_t = True"
| "is_floating_point _ = False"

definition Numeric :: "ctype \<Rightarrow> bool" where
  "Numeric t \<longleftrightarrow> is_integral t \<or> is_floating_point t"

fun TypeName :: "ctype \<Rightarrow> string" where
  "TypeName Int_t = ''int''"
| "TypeName Double_t = ''double''"
| "TypeName String_t = ''std::string''"
| "TypeName _ = ''unknown''"

fun is_iterable :: "ctype \<Rightarrow> bool" where
  "is_iterable (Vector_t t) = True"
| "is_iterable String_t = True"
| "is_iterable _ = False"

text \<open>The types whose values are totally ordered, have a hash, and can be printed.\<close>

fun totally_ordered :: "ctype \<Rightarrow> bool" where
  "totally_ordered (Vector_t t) = totally_ordered t"
| "totally_ordered _ = True"

fun Sortable :: "ctype \<Rightarrow> bool" where
  "Sortable (Vector_t t) = totally_ordered t"
| "Sortable String_t = True"
| "Sortable _ = False"

fun Hashable :: "ctype \<Rightarrow> bool" where
  "Hashable (Vector_t t) = (t = Bool_t)"
| "Hashable _ = True"

fun Printable :: "ctype \<Rightarrow> bool" where
  "Printable (Vector_t t) = False"
| "Printable _ = True"

definition PrintableNumeric :: "ctype \<Rightarrow> bool" where
  "PrintableNumeric t \<longleftrightarrow> Numeric t \<and> Printable t"

section \<open>Values and overload resolution\<close>

datatype gvalue = I int | D rat | B bool | S string

fun type_of_value :: "gvalue \<Rightarrow> ctype" where
  "type_of_value (I n) = Int_t"
| "type_of_value (D x) = Double_t"
| "type_of_value (B b) = Bool_t"
| "type_of_value (S s) = String_t"

text \<open>
  A function template with its constraint. A call compiles when exactly one overload is viable; none is
  an error, and two that do not refine each other are ambiguous.
\<close>

type_synonym 'r overload = "(ctype \<Rightarrow> bool) \<times> 'r"

definition resolve :: "'r overload list \<Rightarrow> ctype \<Rightarrow> 'r ub" where
  "resolve os t = (case filter (\<lambda>ov. fst ov t) os of [ov] \<Rightarrow> Some (snd ov) | _ \<Rightarrow> None)"

text \<open>An int where an integral value is promoted.\<close>

fun as_int :: "gvalue \<Rightarrow> int ub" where
  "as_int (I n) = Some n"
| "as_int (B b) = Some (if b then 1 else 0)"
| "as_int _ = None"

text \<open>The body a + b converted back to T: for bool, whether the int is not zero.\<close>

fun add_same :: "gvalue \<Rightarrow> gvalue \<Rightarrow> gvalue ub" where
  "add_same (I a) (I b) = map_option I (chk (a + b))"
| "add_same (D a) (D b) = Some (D (a + b))"
| "add_same (B a) (B b) = Some (B (a \<or> b))"
| "add_same _ _ = None"

fun multiply_same :: "gvalue \<Rightarrow> gvalue \<Rightarrow> gvalue ub" where
  "multiply_same (I a) (I b) = map_option I (chk (a * b))"
| "multiply_same (D a) (D b) = Some (D (a * b))"
| "multiply_same (B a) (B b) = Some (B (a \<and> b))"
| "multiply_same _ _ = None"

definition safeAdd_overloads :: "(gvalue \<Rightarrow> gvalue \<Rightarrow> gvalue ub) overload list" where
  "safeAdd_overloads = [(is_integral, add_same), (is_floating_point, add_same)]"

text \<open>Template argument deduction asks both arguments to have the same type.\<close>

definition deduce2 :: "(gvalue \<Rightarrow> gvalue \<Rightarrow> 'r ub) overload list \<Rightarrow> gvalue \<Rightarrow> gvalue \<Rightarrow> 'r ub" where
  "deduce2 os a b = (if type_of_value a = type_of_value b
     then do { f \<leftarrow> resolve os (type_of_value a); f a b } else None)"

definition safeAdd :: "gvalue \<Rightarrow> gvalue \<Rightarrow> gvalue ub" where
  "safeAdd = deduce2 safeAdd_overloads"

definition concept_add :: "gvalue \<Rightarrow> gvalue \<Rightarrow> gvalue ub" where
  "concept_add = deduce2 [(Numeric, add_same)]"

definition concept_multiply :: "gvalue \<Rightarrow> gvalue \<Rightarrow> gvalue ub" where
  "concept_multiply = deduce2 [(Numeric, multiply_same)]"

text \<open>Bits of non-negative ints, which is what main passes.\<close>

fun and_bits :: "nat \<Rightarrow> int \<Rightarrow> int \<Rightarrow> int" where
  "and_bits 0 a b = 0"
| "and_bits (Suc k) a b = a mod 2 * (b mod 2) + 2 * and_bits k (a div 2) (b div 2)"

definition bitwiseAnd :: "int \<Rightarrow> int \<Rightarrow> int" where
  "bitwiseAnd a b = and_bits 31 a b"

fun describe_integral :: "gvalue \<Rightarrow> string ub" where
  "describe_integral v = map_option (\<lambda>n. ''integer: '' @ show_int n) (as_int v)"

fun describe_floating :: "gvalue \<Rightarrow> string ub" where
  "describe_floating (D x) = Some (''floating: '' @ show_double x)"
| "describe_floating _ = None"

definition describe_overloads :: "(gvalue \<Rightarrow> string ub) overload list" where
  "describe_overloads = [(is_integral, describe_integral), (is_floating_point, describe_floating)]"

definition describe :: "gvalue \<Rightarrow> string ub" where
  "describe v = do { f \<leftarrow> resolve describe_overloads (type_of_value v); f v }"

definition maximum :: "'a::linorder \<Rightarrow> 'a \<Rightarrow> 'a" where
  "maximum a b = (if a > b then a else b)"

definition show_bool01 :: "bool \<Rightarrow> string" where
  "show_bool01 b = (if b then ''1'' else ''0'')"

text \<open>The size of a std::string is the library's; a parameter.\<close>

definition sizeof :: "int \<Rightarrow> ctype \<Rightarrow> int" where
  "sizeof string_size t = (case t of Int_t \<Rightarrow> 4 | Double_t \<Rightarrow> 8 | Bool_t \<Rightarrow> 1 | String_t \<Rightarrow> string_size | Vector_t e \<Rightarrow> 24)"

definition printTypeInfo :: "int \<Rightarrow> ctype \<Rightarrow> string" where
  "printTypeInfo string_size t = ''  Type: '' @ TypeName t @ '' | integral: '' @ show_bool01 (is_integral t) @
     '' | floating: '' @ show_bool01 (is_floating_point t) @ '' | size: '' @ show_int (sizeof string_size t) @ '' bytes''"

section \<open>The variadic sum\<close>

text \<open>The usual arithmetic conversions of first + sum(rest...), and the conversion of the result to T.\<close>

fun convert :: "ctype \<Rightarrow> gvalue \<Rightarrow> gvalue ub" where
  "convert Int_t (I n) = Some (I n)"
| "convert Int_t (D x) = map_option I (chk (if x < 0 then \<lceil>x\<rceil> else \<lfloor>x\<rfloor>))"
| "convert Double_t (I n) = Some (D (of_int n))"
| "convert Double_t (D x) = Some (D x)"
| "convert _ _ = None"

fun plus_values :: "gvalue \<Rightarrow> gvalue \<Rightarrow> gvalue ub" where
  "plus_values (I a) (I b) = map_option I (chk (a + b))"
| "plus_values (I a) (D b) = Some (D (of_int a + b))"
| "plus_values (D a) (I b) = Some (D (a + of_int b))"
| "plus_values (D a) (D b) = Some (D (a + b))"
| "plus_values _ _ = None"

fun variadic_sum :: "gvalue list \<Rightarrow> gvalue ub" where
  "variadic_sum [] = None"
| "variadic_sum [v] = Some v"
| "variadic_sum (v # w # vs) = do {
     rest \<leftarrow> variadic_sum (w # vs);
     s \<leftarrow> plus_values v rest;
     convert (type_of_value v) s }"

fun show_value :: "gvalue \<Rightarrow> string" where
  "show_value (I n) = show_int n"
| "show_value (D x) = show_general x"
| "show_value (B b) = show_bool01 b"
| "show_value (S s) = s"

definition templates_main :: "int \<Rightarrow> string list ub" where
  "templates_main string_size = do {
     _ \<leftarrow> guard (maximum 3 (7 :: int) = 7);
     _ \<leftarrow> guard (maximum (314 / 100) (271 / 100 :: rat) = 314 / 100);
     _ \<leftarrow> guard (maximum ''abc'' ''xyz'' = ''xyz'');
     a \<leftarrow> safeAdd (I 3) (I 4);
     _ \<leftarrow> guard (a = I 7);
     b \<leftarrow> safeAdd (D (3 / 2)) (D (5 / 2));
     _ \<leftarrow> guard (b = D 4);
     let v = [1, 2, 3 :: int];
     _ \<leftarrow> guard (length v = 3);
     s \<leftarrow> variadic_sum [I 1, I 2, I 3, I 4, I 5];
     _ \<leftarrow> guard (s = I 15);
     _ \<leftarrow> guard (is_iterable (Vector_t Int_t));
     _ \<leftarrow> guard (\<not> is_iterable Int_t);
     Some [''  max(3,7) = '' @ show_int (maximum 3 7), printTypeInfo string_size Int_t, printTypeInfo string_size Double_t,
       printTypeInfo string_size String_t, ''  safeAdd(3, 4) = '' @ show_value a, ''  safeAdd(1.5, 2.5) = '' @ show_value b,
       ''  vector size via SFINAE: '' @ show_int (int (length v)), ''  sum(1,2,3,4,5) = '' @ show_value s,
       ''  vector<int> is iterable: '' @ show_bool01 (is_iterable (Vector_t Int_t)),
       ''  int is iterable: '' @ show_bool01 (is_iterable Int_t)] }"

lemma templates_main_output:
  "templates_main 32 = Some
    [''  max(3,7) = 7'', ''  Type: int | integral: 1 | floating: 0 | size: 4 bytes'',
     ''  Type: double | integral: 0 | floating: 1 | size: 8 bytes'',
     ''  Type: std::string | integral: 0 | floating: 0 | size: 32 bytes'',
     ''  safeAdd(3, 4) = 7'', ''  safeAdd(1.5, 2.5) = 4'', ''  vector size via SFINAE: 3'', ''  sum(1,2,3,4,5) = 15'',
     ''  vector<int> is iterable: 1'', ''  int is iterable: 0'']"
  by code_simp

definition squareAndAdd :: "int \<Rightarrow> int ub" where
  "squareAndAdd x = do { s \<leftarrow> chk (x * x); chk (s + x) }"

definition printValue :: "gvalue \<Rightarrow> string ub" where
  "printValue v = (if PrintableNumeric (type_of_value v) then Some (''  Value: '' @ show_value v) else None)"

definition sortContainer :: "int list \<Rightarrow> int list ub" where
  "sortContainer c = (if Sortable (Vector_t Int_t) then Some (sort c) else None)"

definition generic_concepts_main :: "string list ub" where
  "generic_concepts_main = do {
     a \<leftarrow> concept_add (I 3) (I 4);
     _ \<leftarrow> guard (a = I 7);
     b \<leftarrow> concept_add (D (3 / 2)) (D (5 / 2));
     _ \<leftarrow> guard (b = D 4);
     m \<leftarrow> concept_multiply (I 3) (I 4);
     _ \<leftarrow> guard (m = I 12);
     _ \<leftarrow> guard (bitwiseAnd 12 10 = 8);
     d \<leftarrow> describe (I 42);
     _ \<leftarrow> guard (d = ''integer: 42'');
     f \<leftarrow> describe (D (314 / 100));
     _ \<leftarrow> guard (take 9 f = ''floating:'');
     nums \<leftarrow> sortContainer [5, 2, 8, 1, 9];
     _ \<leftarrow> guard (sorted nums);
     _ \<leftarrow> guard (Hashable Int_t);
     _ \<leftarrow> guard (Hashable String_t);
     _ \<leftarrow> guard (\<not> Hashable (Vector_t Int_t));
     p \<leftarrow> printValue (I 42);
     q \<leftarrow> printValue (D (314 / 100));
     sq \<leftarrow> squareAndAdd 3;
     _ \<leftarrow> guard (sq = 12);
     Some [''  add(3,4) = '' @ show_value a, ''  '' @ d, ''  '' @ f,
       ''  Sorted: '' @ concat (map (\<lambda>n. show_int n @ '' '') nums), p, q, ''  squareAndAdd(3) = '' @ show_int sq] }"

lemma generic_concepts_main_output:
  "generic_concepts_main = Some
    [''  add(3,4) = 7'', ''  integer: 42'', ''  floating: 3.140000'', ''  Sorted: 1 2 5 8 9 '',
     ''  Value: 42'', ''  Value: 3.14'', ''  squareAndAdd(3) = 12'']"
  by code_simp

subsection \<open>Constraints select one function\<close>

text \<open>
  Claim: the constrained overloads never compete: for every type at most one is viable, and exactly for
  the numeric types there is one; so the two ways to constrain the addition, by substitution failure and
  by a concept, accept the same calls and compute the same values.
\<close>
theorem sfinae_equals_concept:
  "(resolve safeAdd_overloads t \<noteq> None \<longleftrightarrow> Numeric t) \<and> (resolve describe_overloads t \<noteq> None \<longleftrightarrow> Numeric t) \<and>
   length (filter (\<lambda>ov. fst ov t) safeAdd_overloads) \<le> 1 \<and> safeAdd a b = concept_add a b"
proof -
  have r: "(resolve safeAdd_overloads u \<noteq> None \<longleftrightarrow> Numeric u) \<and> (resolve describe_overloads u \<noteq> None \<longleftrightarrow> Numeric u) \<and>
      length (filter (\<lambda>ov. fst ov u) safeAdd_overloads) \<le> 1 \<and>
      resolve safeAdd_overloads u = resolve [(Numeric, add_same)] u" for u
    by (cases u) (simp_all add: safeAdd_overloads_def describe_overloads_def resolve_def Numeric_def)
  then show ?thesis using r [of t] r [of "type_of_value a"] by (simp add: safeAdd_def concept_add_def deduce2_def)
qed

text \<open>The sums that the recursion computes, from the end of the arguments.\<close>

definition suffix_sums :: "int list \<Rightarrow> int list" where
  "suffix_sums xs = map (\<lambda>i. sum_list (drop i xs)) [0..<length xs - 1]"

lemma suffix_sums_Cons: "xs \<noteq> [] \<Longrightarrow> suffix_sums (x # xs) = (x + sum_list xs) # suffix_sums xs"
  by (cases xs) (simp_all add: suffix_sums_def upt_conv_Cons map_Suc_upt [symmetric] comp_def del: upt_Suc)

text \<open>
  Claim: the variadic sum of ints adds from the last argument to the first: it is the sum of them all
  when each of these partial sums fits an int, and overflows otherwise.
\<close>
theorem variadic_sum_ints:
  assumes "xs \<noteq> []"
  shows "variadic_sum (map I xs) = (if list_all in_int (suffix_sums xs) then Some (I (sum_list xs)) else None)"
  using assms
proof (induction xs rule: induct_list012)
  case (2 x)
  then show ?case by (simp add: suffix_sums_def)
next
  case (3 x y zs)
  have "variadic_sum (map I (y # zs)) = (if list_all in_int (suffix_sums (y # zs)) then Some (I (sum_list (y # zs))) else None)"
    by (rule "3.IH"(2)) simp
  then show ?case by (auto simp: suffix_sums_Cons [of "y # zs" x] chk_def)
qed simp

theorem variadic_sum_ints_witness:
  "variadic_sum (map I [- 1, 2147483647, 1]) = None \<and> variadic_sum (map I [2147483647, - 1, 1]) = Some (I 2147483647)"
  using variadic_sum_ints [of "[- 1, 2147483647, 1]"] variadic_sum_ints [of "[2147483647, - 1, 1]"]
  by (simp add: suffix_sums_def in_int_def eval_nat_numeral)

text \<open>The result has the type of the first argument, so that a fraction that follows it is lost.\<close>

lemma variadic_sum_truncates: "variadic_sum [I 1, D (5 / 2)] = Some (I 3)" "variadic_sum [D (5 / 2), I 1] = Some (D (7 / 2))"
  by code_simp+

section \<open>structured_bindings.cpp\<close>

record TradeResult =
  success :: bool
  trade_price :: rat
  quantity :: int
  message :: string

definition executeTrade :: "string \<Rightarrow> int \<Rightarrow> TradeResult" where
  "executeTrade s qty =
     (if s = ''AAPL'' then \<lparr>success = True, trade_price = 150 + 1 / 4, quantity = qty, message = ''filled''\<rparr>
      else \<lparr>success = False, trade_price = 0, quantity = 0, message = ''rejected: unknown symbol''\<rparr>)"

definition parseDate :: "string \<Rightarrow> int \<times> int \<times> int" where
  "parseDate d = (2024, 6, 15)"

text \<open>std::map: the pairs in the order of their keys.\<close>

type_synonym portfolio = "(string \<times> int) list"

fun map_insert :: "string \<Rightarrow> int \<Rightarrow> portfolio \<Rightarrow> bool \<times> portfolio" where
  "map_insert k v [] = (True, [(k, v)])"
| "map_insert k v ((k', v') # m) =
     (if k < k' then (True, (k, v) # (k', v') # m)
      else if k = k' then (False, (k', v') # m)
      else (let (b, m') = map_insert k v m in (b, (k', v') # m')))"

fun map_of_list :: "(string \<times> int) list \<Rightarrow> portfolio" where
  "map_of_list [] = []"
| "map_of_list (p # ps) = snd (map_insert (fst p) (snd p) (map_of_list ps))"

fun double_shares :: "portfolio \<Rightarrow> portfolio ub" where
  "double_shares [] = Some []"
| "double_shares ((k, v) # m) = do { v' \<leftarrow> chk (v * 2); m' \<leftarrow> double_shares m; Some ((k, v') # m') }"

text \<open>std::max_element: the first of the largest.\<close>

fun generic_max_element :: "(string \<times> rat) \<Rightarrow> (string \<times> rat) list \<Rightarrow> string \<times> rat" where
  "generic_max_element best [] = best"
| "generic_max_element best (p # ps) = generic_max_element (if snd best < snd p then p else best) ps"

definition structured_bindings_main :: "string list ub" where
  "structured_bindings_main = do {
     let (a, b, c) = (10, 20, 30 :: int);
     _ \<leftarrow> guard (a = 10 \<and> b = 20 \<and> c = 30);
     let p = (''hello'', 42 :: int);
     _ \<leftarrow> guard (fst p = ''hello'');
     let p = (''modified'', snd p);
     _ \<leftarrow> guard (fst p = ''modified'');
     let (year, month, day) = parseDate ''2024-06-15'';
     _ \<leftarrow> guard (year = 2024 \<and> month = 6 \<and> day = 15);
     let (x, y, z) = (1, 2, 3 :: rat);
     _ \<leftarrow> guard (x = 1 \<and> y = 2 \<and> z = 3);
     let trade = executeTrade ''AAPL'' 100;
     _ \<leftarrow> guard (success trade \<and> trade_price trade = 150 + 1 / 4 \<and> quantity trade = 100);
     let portfolio = map_of_list [(''AAPL'', 100), (''GOOGL'', 50), (''MSFT'', 200), (''TSLA'', 75)];
     let shares = map (\<lambda>(k, v). ''    '' @ k @ '': '' @ show_int v @ '' shares'') portfolio;
     portfolio \<leftarrow> double_shares portfolio;
     _ \<leftarrow> guard (map_of portfolio ''AAPL'' = Some 200);
     let (inserted, portfolio) = map_insert ''NVDA'' 150 portfolio;
     _ \<leftarrow> guard inserted;
     _ \<leftarrow> guard (map_of portfolio ''NVDA'' = Some 150);
     let (inserted2, portfolio) = map_insert ''AAPL'' 999 portfolio;
     _ \<leftarrow> guard (\<not> inserted2);
     _ \<leftarrow> guard (map_of portfolio ''AAPL'' = Some 200);
     let (r, g, bl) = (1 / 2, 4 / 5, 1 / 5 :: rat);
     _ \<leftarrow> guard (r = 1 / 2);
     let (maxSymbol, maxPrice) = generic_max_element (''AAPL'', 150) [(''GOOGL'', 140), (''MSFT'', 380)];
     _ \<leftarrow> guard (maxSymbol = ''MSFT'');
     Some ([''  ['' @ show_int a @ '', '' @ show_int b @ '', '' @ show_int c @ '']'',
        ''  pair: {'' @ fst p @ '', '' @ show_int (snd p) @ ''}'',
        ''  Date: '' @ show_int year @ ''-'' @ show_int month @ ''-'' @ show_int day,
        ''  Point: ('' @ show_general x @ '', '' @ show_general y @ '', '' @ show_general z @ '')'',
        ''  Trade: '' @ message trade @ '' @ '' @ show_general (trade_price trade)] @ shares @
       [''  Inserted NVDA: '' @ show_bool01 inserted, ''  Insert AAPL again: '' @ show_bool01 inserted2 @ '' (already exists)'',
        ''  RGB: ('' @ show_general r @ '', '' @ show_general g @ '', '' @ show_general bl @ '')'',
        ''  Most expensive: '' @ maxSymbol @ '' @ '' @ show_general maxPrice]) }"

lemma structured_bindings_main_output:
  "structured_bindings_main = Some
    [''  [10, 20, 30]'', ''  pair: {modified, 42}'', ''  Date: 2024-6-15'', ''  Point: (1, 2, 3)'',
     ''  Trade: filled @ 150.25'', ''    AAPL: 100 shares'', ''    GOOGL: 50 shares'', ''    MSFT: 200 shares'',
     ''    TSLA: 75 shares'', ''  Inserted NVDA: 1'', ''  Insert AAPL again: 0 (already exists)'',
     ''  RGB: (0.5, 0.8, 0.2)'', ''  Most expensive: MSFT @ 380'']"
  by code_simp

lemma map_insert_keys: "set (map fst (snd (map_insert k v m))) = insert k (set (map fst m))"
proof (induction k v m rule: map_insert.induct)
  case (2 k v k' v' m)
  then show ?case by (cases "map_insert k v m") (simp add: insert_commute)
qed simp

lemma map_insert_lookup:
  "sorted_wrt (<) (map fst m) \<Longrightarrow> map_insert k v m = (b, m') \<Longrightarrow>
   sorted_wrt (<) (map fst m') \<and> (b \<longleftrightarrow> map_of m k = None) \<and>
   map_of m' = (if b then (map_of m)(k \<mapsto> v) else map_of m)"
proof (induction k v m arbitrary: b m' rule: map_insert.induct)
  case (2 k v k' v' m)
  show ?case
  proof (cases "k < k'")
    case True
    then have "k \<notin> set (map fst m)" "k \<noteq> k'" using "2.prems"(1) by auto
    then have "map_of m k = None" by (simp add: map_of_eq_None_iff)
    moreover have "\<forall>x \<in> set m. k < fst x" using True "2.prems"(1) by auto
    ultimately show ?thesis using True "2.prems" \<open>k \<noteq> k'\<close> by auto
  next
    case False
    show ?thesis
    proof (cases "k = k'")
      case True
      then show ?thesis using "2.prems" by auto
    next
      case neq: False
      obtain b1 m1 where r: "map_insert k v m = (b1, m1)" by (cases "map_insert k v m")
      then have ih: "sorted_wrt (<) (map fst m1) \<and> (b1 \<longleftrightarrow> map_of m k = None) \<and> map_of m1 = (if b1 then (map_of m)(k \<mapsto> v) else map_of m)"
        using "2.IH"[OF False neq] "2.prems"(1) by simp
      have keys: "set (map fst m1) = insert k (set (map fst m))" using map_insert_keys [of k v m] r by simp
      have "b = b1" "m' = (k', v') # m1" using "2.prems"(2) r False neq by auto
      moreover have "\<forall>x \<in> set (map fst m1). k' < x" using keys "2.prems"(1) False neq by auto
      ultimately show ?thesis using ih neq by (auto simp: fun_eq_iff)
    qed
  qed
qed auto

text \<open>
  Claim: inserting into the map keeps its keys sorted and without duplicates, tells whether the key was new, and
  changes the binding of that key only when it was.
\<close>
theorem map_insert_keeps:
  "map_insert k v (map_of_list ps) = (b, m) \<Longrightarrow>
   sorted_wrt (<) (map fst m) \<and> (b \<longleftrightarrow> map_of (map_of_list ps) k = None) \<and>
   map_of m = (if b then (map_of (map_of_list ps))(k \<mapsto> v) else map_of (map_of_list ps))"
proof -
  have "sorted_wrt (<) (map fst (map_of_list ps))"
  proof (induction ps)
    case (Cons p ps)
    obtain b1 m1 where r: "map_insert (fst p) (snd p) (map_of_list ps) = (b1, m1)"
      by (cases "map_insert (fst p) (snd p) (map_of_list ps)")
    show ?case using map_insert_lookup [OF Cons.IH r] r by simp
  qed simp
  then show "map_insert k v (map_of_list ps) = (b, m) \<Longrightarrow> ?thesis" by (rule map_insert_lookup)
qed

theorem map_insert_keeps_witness:
  "map_insert ''AAPL'' 999 (map_of_list [(''MSFT'', 1), (''AAPL'', 2)]) = (False, [(''AAPL'', 2), (''MSFT'', 1)]) \<and>
   map_of [(''AAPL'', 2), (''MSFT'', 1)] ''AAPL'' = Some (2 :: int)"
proof -
  have "map_insert ''AAPL'' 999 (map_of_list [(''MSFT'', 1), (''AAPL'', 2)]) = (False, [(''AAPL'', 2), (''MSFT'', 1)])"
    by code_simp
  from map_insert_keeps [OF this] this show ?thesis by simp
qed

end
