(* ===== verification/Threads_Basics.thy ===== *)
theory Threads_Basics
  imports Interleaving
begin

text \<open>
  src/src/concurrency/threads_basics.cpp: the two threads that count in their thread-local variable and print,
  piece by piece, to the shared console; the cancellable work of a std::jthread with its stop token;
  arguments passed by value, by reference and by move; and main. A step of a thread is one increment, one
  insertion into the console, or one access of the stop token.
\<close>

section \<open>Thread-local counters and a shared console\<close>

text \<open>The insertions of the last statement of increment_tls.\<close>

definition tls_pieces :: "int \<Rightarrow> int \<Rightarrow> string list" where
  "tls_pieces n tls = [''Thread '', show_int n, '' tls_counter = '', show_int tls, [CHR 0x0A]]"

datatype tls_thread =
    Incrementing int int nat
  | Printing int "string list"

text \<open>The console with, for each piece, the thread that inserted it.\<close>

type_synonym shared_console = "(int \<times> string) list"

inductive increment_tls :: "tls_thread \<Rightarrow> shared_console \<Rightarrow> (tls_thread \<times> shared_console) ub \<Rightarrow> bool" where
  increment: "increment_tls (Incrementing n tls (Suc k)) g (map_option (\<lambda>t. (Incrementing n t k, g)) (chk (tls + 1)))"
| loop_end: "increment_tls (Incrementing n tls 0) g (Some (Printing n (tls_pieces n tls), g))"
| insertion: "increment_tls (Printing n (p # ps)) g (Some (Printing n ps, g @ [(n, p)]))"

inductive_simps increment_tls_simps:
  "increment_tls (Incrementing n tls k) g r"
  "increment_tls (Printing n ps) g r"

text \<open>A thread starts with its own counter at zero; a loop to a negative bound does nothing.\<close>

definition start_tls :: "int \<times> int \<Rightarrow> tls_thread" where
  "start_tls a = Incrementing (fst a) 0 (nat (snd a))"

fun finished_thread :: "tls_thread \<Rightarrow> bool" where
  "finished_thread (Printing n []) = True"
| "finished_thread _ = False"

definition pieces_of :: "int \<Rightarrow> shared_console \<Rightarrow> string list" where
  "pieces_of n g = map snd (filter (\<lambda>p. fst p = n) g)"

text \<open>What a thread has printed and what it still has to do make up its line.\<close>

fun on_course :: "int \<times> int \<Rightarrow> tls_thread \<Rightarrow> shared_console \<Rightarrow> bool" where
  "on_course a (Incrementing n tls k) g \<longleftrightarrow> n = fst a \<and> 0 \<le> tls \<and> tls + int k = max 0 (snd a) \<and> pieces_of n g = []"
| "on_course a (Printing n ps) g \<longleftrightarrow> n = fst a \<and> pieces_of n g @ ps = tls_pieces (fst a) (max 0 (snd a))"

definition tls_inv :: "(int \<times> int) list \<Rightarrow> tls_thread list \<Rightarrow> shared_console \<Rightarrow> bool" where
  "tls_inv as ls g \<longleftrightarrow> distinct (map fst as) \<and> (\<forall>a \<in> set as. snd a \<le> INT_MAX) \<and> length ls = length as \<and>
     (\<forall>j < length as. on_course (as ! j) (ls ! j) g)"

lemma on_course_console: "pieces_of (fst a) g' = pieces_of (fst a) g \<Longrightarrow> on_course a l g \<Longrightarrow> on_course a l g'"
  by (cases l) auto

lemma tls_inv_step:
  assumes "tls_inv as ls g" and "i < length ls" and "increment_tls (ls ! i) g r"
  shows "\<exists>l' g'. r = Some (l', g') \<and> tls_inv as (ls[i := l']) g'"
proof -
  have i: "i < length as" "on_course (as ! i) (ls ! i) g" "snd (as ! i) \<le> INT_MAX" using assms(1,2) by (auto simp: tls_inv_def)
  have "\<exists>l' g'. r = Some (l', g') \<and> on_course (as ! i) l' g' \<and> (\<forall>n. n \<noteq> fst (as ! i) \<longrightarrow> pieces_of n g' = pieces_of n g)"
    using assms(3)
  proof (cases rule: increment_tls.cases)
    case (increment n tls k)
    have "chk (tls + 1) = Some (tls + 1)" using i(2,3) increment(1) by (intro chk_Some) auto
    then show ?thesis using increment i(2) by auto
  next
    case (loop_end n tls)
    then show ?thesis using i(2) by auto
  next
    case (insertion n p ps)
    then show ?thesis using i(2) by (auto simp: pieces_of_def)
  qed
  then obtain l' g' where r: "r = Some (l', g')" "on_course (as ! i) l' g'"
      "\<And>n. n \<noteq> fst (as ! i) \<Longrightarrow> pieces_of n g' = pieces_of n g" by blast
  have "on_course (as ! j) (ls[i := l'] ! j) g'" if j: "j < length as" for j
  proof (cases "j = i")
    case True
    then show ?thesis using r(2) assms(2) by simp
  next
    case False
    then have "fst (as ! j) \<noteq> fst (as ! i)"
      using assms(1) i(1) j by (auto simp: tls_inv_def distinct_conv_nth)
    then show ?thesis using False j assms(1) r(3) on_course_console by (auto simp: tls_inv_def)
  qed
  then show ?thesis using r(1) assms(1) by (auto simp: tls_inv_def)
qed

interpretation tls: thread_invariant increment_tls "tls_inv as"
  by unfold_locales (rule tls_inv_step)

text \<open>
  Claim: each thread counts in its own variable: in every interleaving nothing overflows, the pieces that a
  thread has printed are the beginning of its own line with its own count, and all of it once
  it has finished, whatever the others print in between.
\<close>
theorem tls_counters_independent:
  assumes "thread_reach increment_tls (map start_tls as) [] r" and "distinct (map fst as)" and "\<forall>a \<in> set as. snd a \<le> INT_MAX"
  shows "\<exists>ls g. r = Some (ls, g) \<and> length ls = length as \<and>
    (\<forall>j < length as. finished_thread (ls ! j) \<longrightarrow> pieces_of (fst (as ! j)) g = tls_pieces (fst (as ! j)) (max 0 (snd (as ! j))))"
proof -
  have "tls_inv as (map start_tls as) []"
    using assms(2,3) by (auto simp: tls_inv_def start_tls_def pieces_of_def)
  then obtain ls g where r: "r = Some (ls, g)" "tls_inv as ls g" using tls.reach_inv [OF assms(1)] by blast
  have "pieces_of (fst (as ! j)) g = tls_pieces (fst (as ! j)) (max 0 (snd (as ! j)))"
    if "j < length as" "finished_thread (ls ! j)" for j
  proof -
    have "on_course (as ! j) (ls ! j) g" using r(2) that(1) by (simp add: tls_inv_def)
    then show ?thesis using that(2) by (cases "(ls ! j)" rule: finished_thread.cases) auto
  qed
  then show ?thesis using r by (auto simp: tls_inv_def)
qed

text \<open>One thread printing on, for the run of a single thread.\<close>

lemma single_insertion:
  "thread_reach increment_tls [l0] [] (Some ([Printing n (p # ps)], g)) \<Longrightarrow>
   thread_reach increment_tls [l0] [] (Some ([Printing n ps], g @ [(n, p)]))"
  by (drule thread_reach.step [of _ _ _ _ _ 0 "Some (Printing n ps, g @ [(n, p)])"]) (auto simp: increment_tls_simps)

theorem tls_counters_independent_witness:
  "pieces_of 1 (map (Pair 1) (tls_pieces 1 0)) = tls_pieces 1 (max 0 0)"
proof -
  have "thread_reach increment_tls (map start_tls [(1, 0)]) [] (Some ([Printing 1 (tls_pieces 1 0)], []))"
    using thread_reach.step [OF thread_reach.start, of 0 "[Incrementing 1 0 0]" increment_tls "[]" "Some (Printing 1 (tls_pieces 1 0), [])"]
    by (simp add: start_tls_def increment_tls_simps)
  then have run: "thread_reach increment_tls (map start_tls [(1, 0)]) [] (Some ([Printing 1 []], map (Pair 1) (tls_pieces 1 0)))"
    by (auto simp: tls_pieces_def dest!: single_insertion)
  from tls_counters_independent [OF run] show ?thesis by simp
qed

text \<open>A thread that has not finished can always take a step, and its work gets less with each.\<close>

fun work_left :: "tls_thread \<Rightarrow> nat" where
  "work_left (Incrementing n tls k) = k + 6"
| "work_left (Printing n ps) = length ps"

lemma tls_progress: "\<not> finished_thread l \<Longrightarrow> \<exists>r. increment_tls l g r"
proof (cases l)
  case (Incrementing n tls k)
  then show ?thesis by (cases k) (auto simp: increment_tls_simps)
next
  case (Printing n ps)
  then show "\<not> finished_thread l \<Longrightarrow> ?thesis" by (cases ps) (auto simp: increment_tls_simps)
qed

lemma tls_work_decreases: "increment_tls l g (Some (l', g')) \<Longrightarrow> work_left l' < work_left l"
proof -
  assume s: "increment_tls l g (Some (l', g'))"
  then show ?thesis
  proof (cases rule: increment_tls.cases)
    case (increment n tls k)
    then have "l' = Incrementing n (tls + 1) k" by (cases "chk (tls + 1)") (auto simp: chk_eq_Some_iff)
    then show ?thesis using increment(1) by simp
  qed (auto simp: tls_pieces_def)
qed

section \<open>Cooperative cancellation\<close>

text \<open>Where the worker is: before the test, past it, and asleep; or done, with its count.\<close>

datatype jworker = Testing int | Passed int | Sleeping int | Worker_done int

record jthread =
  stop_requested :: bool
  jworker :: jworker

inductive jt_step :: "jthread \<Rightarrow> jthread ub \<Rightarrow> bool" where
  request_stop: "jt_step s (Some (s\<lparr>stop_requested := True\<rparr>))"
| pass: "jworker s = Testing c \<Longrightarrow> \<not> stop_requested s \<Longrightarrow> c < 5 \<Longrightarrow> jt_step s (Some (s\<lparr>jworker := Passed c\<rparr>))"
| leave: "jworker s = Testing c \<Longrightarrow> stop_requested s \<or> \<not> c < 5 \<Longrightarrow> jt_step s (Some (s\<lparr>jworker := Worker_done c\<rparr>))"
| count_up: "jworker s = Passed c \<Longrightarrow> jt_step s (map_option (\<lambda>c'. s\<lparr>jworker := Sleeping c'\<rparr>) (chk (c + 1)))"
| awake: "jworker s = Sleeping c \<Longrightarrow> jt_step s (Some (s\<lparr>jworker := Testing c\<rparr>))"

definition start_jthread :: jthread where
  "start_jthread = \<lparr>stop_requested = False, jworker = Testing 0\<rparr>"

inductive jt_reach :: "jthread \<Rightarrow> jthread ub \<Rightarrow> bool" for s0 where
  jt_start: "jt_reach s0 (Some s0)"
| jt_step: "jt_reach s0 (Some s) \<Longrightarrow> jt_step s r \<Longrightarrow> jt_reach s0 r"

fun iterations :: "jworker \<Rightarrow> int" where
  "iterations (Testing c) = c"
| "iterations (Passed c) = c"
| "iterations (Sleeping c) = c"
| "iterations (Worker_done c) = c"

text \<open>The iterations that can still come once the stop was requested.\<close>

fun pending :: "jworker \<Rightarrow> int" where
  "pending (Passed c) = 1"
| "pending _ = 0"

definition jt_inv :: "jthread \<Rightarrow> bool" where
  "jt_inv s \<longleftrightarrow> 0 \<le> iterations (jworker s) \<and> iterations (jworker s) + pending (jworker s) \<le> 5 \<and>
     (\<forall>c. jworker s = Worker_done c \<longrightarrow> stop_requested s \<or> c = 5)"

lemma jt_inv_step: "jt_inv s \<Longrightarrow> jt_step s r \<Longrightarrow> \<exists>s'. r = Some s' \<and> jt_inv s' \<and> (stop_requested s \<longrightarrow> stop_requested s' \<and>
    iterations (jworker s') + pending (jworker s') \<le> iterations (jworker s) + pending (jworker s))"
  by (erule jt_step.cases) (auto simp: jt_inv_def chk_def in_int_def)

lemma jt_reach_inv:
  assumes "jt_reach s0 r" and "jt_inv s0"
  shows "\<exists>s. r = Some s \<and> jt_inv s \<and> (stop_requested s0 \<longrightarrow> stop_requested s \<and>
    iterations (jworker s) + pending (jworker s) \<le> iterations (jworker s0) + pending (jworker s0))"
  using assms
proof (induction rule: jt_reach.induct)
  case (jt_step s r)
  then show ?case using jt_inv_step [of s r] by fastforce
qed simp

text \<open>
  Claim: the cancellable work does at most five iterations in every interleaving with request_stop; when it
  ends it has done all five unless the stop was requested; and after a request it begins no iteration, so
  that at most the one whose test had passed is still counted.
\<close>
theorem cancellation_bounds:
  assumes "jt_reach start_jthread (Some s)"
  shows "0 \<le> iterations (jworker s) \<and> iterations (jworker s) \<le> 5 \<and>
    (\<forall>c. jworker s = Worker_done c \<longrightarrow> stop_requested s \<or> c = 5) \<and>
    (\<forall>s'. stop_requested s \<and> jt_reach s (Some s') \<longrightarrow> iterations (jworker s') \<le> iterations (jworker s) + 1)"
proof -
  have "jt_inv start_jthread" by (simp add: jt_inv_def start_jthread_def)
  then have inv: "jt_inv s" using jt_reach_inv [OF assms] by simp
  have "iterations (jworker s') \<le> iterations (jworker s) + 1" if "stop_requested s" "jt_reach s (Some s')" for s'
  proof -
    have "0 \<le> pending (jworker s')" by (cases "jworker s'") auto
    moreover have "pending (jworker s) \<le> 1" by (cases "jworker s") auto
    ultimately show ?thesis using jt_reach_inv [OF that(2) inv] that(1) by auto
  qed
  moreover have "0 \<le> pending (jworker s)" by (cases "jworker s") auto
  ultimately show ?thesis using inv by (auto simp: jt_inv_def)
qed

theorem cancellation_bounds_witness:
  "\<not> jt_reach \<lparr>stop_requested = True, jworker = Passed 0\<rparr> (Some \<lparr>stop_requested = True, jworker = Testing 2\<rparr>)"
proof -
  have "jt_reach start_jthread (Some \<lparr>stop_requested = False, jworker = Passed 0\<rparr>)"
    using jt_reach.jt_step [OF jt_reach.jt_start jt_step.pass, of start_jthread 0] by (simp add: start_jthread_def)
  then have "jt_reach start_jthread (Some \<lparr>stop_requested = True, jworker = Passed 0\<rparr>)"
    using jt_reach.jt_step [OF _ jt_step.request_stop] by fastforce
  from cancellation_bounds [OF this] show ?thesis by auto
qed

text \<open>The worker never waits: until it is done, it can take a step that brings it closer.\<close>

fun jt_left :: "jworker \<Rightarrow> nat" where
  "jt_left (Testing c) = 3 * nat (5 - c) + 1"
| "jt_left (Passed c) = 3 * nat (5 - c)"
| "jt_left (Sleeping c) = 3 * nat (5 - c) + 2"
| "jt_left (Worker_done c) = 0"

lemma jthread_ends:
  assumes "jt_inv s" and "\<nexists>c. jworker s = Worker_done c"
  shows "\<exists>s'. jt_step s (Some s') \<and> jt_left (jworker s') < jt_left (jworker s)"
proof (cases "jworker s")
  case (Testing c)
  then show ?thesis using jt_step.pass [OF Testing] jt_step.leave [OF Testing] by (cases "stop_requested s \<or> \<not> c < 5") fastforce+
next
  case (Passed c)
  have c: "0 \<le> c \<and> c + 1 \<le> 5" using assms(1) Passed by (simp add: jt_inv_def)
  then have "jt_step s (Some (s\<lparr>jworker := Sleeping (c + 1)\<rparr>))"
    using jt_step.count_up [OF Passed] by (simp add: chk_def in_int_def)
  then show ?thesis using Passed c by (intro exI [of _ "s\<lparr>jworker := Sleeping (c + 1)\<rparr>"]) auto
next
  case (Sleeping c)
  then show ?thesis using jt_step.awake [OF Sleeping] by fastforce
next
  case (Worker_done c)
  then show ?thesis using assms(2) by simp
qed

section \<open>main\<close>

text \<open>Arguments are copied into the thread; a reference is passed as one; a string is moved.\<close>

definition by_value :: "int \<Rightarrow> string ub" where
  "by_value x = map_option (\<lambda>y. ''by_value: x='' @ show_int y) (chk (x + 1))"

definition by_ref :: "int \<Rightarrow> (int \<times> string) ub" where
  "by_ref x = map_option (\<lambda>y. (y, ''by_ref: x='' @ show_int y)) (chk (x + 1))"

definition by_move :: "string \<Rightarrow> string" where
  "by_move s = ''by_move: s='' @ s"

definition cancellable_line :: "int \<Rightarrow> int \<Rightarrow> string" where
  "cancellable_line n c = ''jthread '' @ show_int n @ '' did '' @ show_int c @ '' iterations''"

text \<open>
  The lines of main: what a moved-from string holds, what the two threads printed and how many iterations
  the jthread did are what the library, the two threads and the worker made of it.
\<close>

definition threads_basics_main :: "string \<Rightarrow> shared_console \<Rightarrow> int \<Rightarrow> string list ub" where
  "threads_basics_main left printed c = do {
     let result = (42 :: int);
     _ \<leftarrow> guard (result = 42);
     let val = 10;
     l2 \<leftarrow> by_value val;
     _ \<leftarrow> guard (val = 10);
     (val, l3) \<leftarrow> by_ref val;
     _ \<leftarrow> guard (val = 11);
     let l4 = by_move ''hello'';
     let msg = left;
     _ \<leftarrow> guard (msg = []);
     let tls_counter = (0 :: int);
     _ \<leftarrow> guard (tls_counter = 0);
     Some [''Lambda thread set result = '' @ show_int result, l2, l3, l4, concat (map snd printed), cancellable_line 1 c] }"

lemma threads_basics_main_output:
  "threads_basics_main [] (map (Pair 1) (tls_pieces 1 3) @ map (Pair 2) (tls_pieces 2 5)) 3 = Some
    [''Lambda thread set result = 42'', ''by_value: x=11'', ''by_ref: x=11'', ''by_move: s=hello'',
     ''Thread 1 tls_counter = 3'' @ [CHR 0x0A] @ ''Thread 2 tls_counter = 5'' @ [CHR 0x0A], ''jthread 1 did 3 iterations'']"
  by code_simp

text \<open>The assertion that the moved-from string is empty is not the standard's promise: with another content it fails.\<close>

lemma moved_string_assertion: "threads_basics_main left g c = None \<longleftrightarrow> left \<noteq> []"
  by (simp add: threads_basics_main_def by_value_def by_ref_def chk_def in_int_def)

end
