(* ===== verification/Mapped_Region.thy ===== *)
theory Mapped_Region
  imports Complex_Main Software_Design
begin

text \<open>
  src/src/systems/linux/mmap_shared_memory.cpp: the records in the file, which both mappings share, MappedRegion
  as the owner of a mapping, and main with the results of its system calls as arguments. The process is
  its descriptors, its mappings, the file and the output.
\<close>

section \<open>Records in a shared mapping\<close>

text \<open>char symbol[16]: the bytes, of which a fresh file has only zeros.\<close>

record SharedData =
  sequence :: int
  price :: rat
  quantity :: int
  symbol :: string
  valid :: bool

definition zeroed :: SharedData where
  "zeroed = \<lparr>sequence = 0, price = 0, quantity = 0, symbol = replicate 16 (CHR 0x00), valid = False\<rparr>"

definition c_string :: "string \<Rightarrow> string" where
  "c_string bs = takeWhile (\<lambda>c. c \<noteq> CHR 0x00) bs"

definition strncpy :: "string \<Rightarrow> string \<Rightarrow> nat \<Rightarrow> string" where
  "strncpy dst src n = (let s = take n (c_string src) in s @ replicate (n - length s) (CHR 0x00) @ drop n dst)"

text \<open>
  The file as both mappings see it: the records it has room for. A mapping's length is that of main; an
  access beyond the file's end is not allowed.
\<close>

definition write_record :: "nat \<Rightarrow> rat \<Rightarrow> string \<Rightarrow> SharedData list \<Rightarrow> SharedData list ub" where
  "write_record i p sy d = (if i < length d then
     Some (d[i := (d ! i)\<lparr>sequence := int i + 1, price := p, quantity := (int i + 1) * 100,
       symbol := strncpy (symbol (d ! i)) sy 15, valid := True\<rparr>]) else None)"

definition written_line :: "SharedData \<Rightarrow> string" where
  "written_line r = ''  Written: seq='' @ show_int (sequence r) @ '' '' @ c_string (symbol r) @ '' $'' @ show_general (price r)"

definition read_line :: "SharedData \<Rightarrow> string" where
  "read_line r = ''  Read: seq='' @ show_int (sequence r) @ '' '' @ c_string (symbol r) @ '' $'' @ show_general (price r) @
     '' qty='' @ show_int (quantity r)"

fun write_all :: "nat \<Rightarrow> (string \<times> rat) list \<Rightarrow> SharedData list \<Rightarrow> (SharedData list \<times> string list) ub" where
  "write_all i [] d = Some (d, [])"
| "write_all i ((sy, p) # rs) d = do {
     d' \<leftarrow> write_record i p sy d;
     (d'', ls) \<leftarrow> write_all (i + 1) rs d';
     Some (d'', written_line (d' ! i) # ls) }"

fun read_all :: "nat \<Rightarrow> nat \<Rightarrow> SharedData list \<Rightarrow> string list ub" where
  "read_all i 0 d = Some []"
| "read_all i (Suc n) d = (if i < length d then do {
     ls \<leftarrow> read_all (i + 1) n d;
     Some (if valid (d ! i) then read_line (d ! i) # ls else ls) } else None)"

definition quotes :: "(string \<times> rat) list" where
  "quotes = [(''AAPL'', 150 + 1 / 4), (''GOOGL'', 2800 + 1 / 2), (''MSFT'', 340 + 3 / 4), (''TSLA'', 250)]"

section \<open>MappedRegion\<close>

text \<open>What the process holds: its descriptors, its mappings, whether the file is there, and its output.\<close>

record process_state =
  fds :: "int list"
  mappings :: "string list"
  file_there :: bool
  lines :: "string list"

definition start_process :: process_state where
  "start_process = \<lparr>fds = [], mappings = [], file_there = False, lines = []\<rparr>"

definition prints :: "string list \<Rightarrow> process_state \<Rightarrow> process_state" where
  "prints ls s = s\<lparr>lines := lines s @ ls\<rparr>"

text \<open>open with the descriptor it returns, negative when it fails.\<close>

definition open_file :: "int \<Rightarrow> process_state \<Rightarrow> process_state" where
  "open_file fd s = (if fd < 0 then s else s\<lparr>fds := fd # fds s, file_there := True\<rparr>)"

definition close_file :: "int \<Rightarrow> process_state \<Rightarrow> process_state ub" where
  "close_file fd s = (if fd \<in> set (fds s) then Some (s\<lparr>fds := remove1 fd (fds s)\<rparr>) else None)"

text \<open>addr_ is None for MAP_FAILED.\<close>

record region =
  addr :: "string option"
  bytes :: nat

datatype map_error = Mmap_failed

text \<open>The constructor, with the address mmap returns for a valid descriptor; with another descriptor mmap fails.\<close>

definition new_region :: "int \<Rightarrow> nat \<Rightarrow> string option \<Rightarrow> process_state \<Rightarrow> (map_error + region) \<times> process_state" where
  "new_region fd n result s = (case (if fd \<in> set (fds s) then result else None) of
     None \<Rightarrow> (Inl Mmap_failed, s)
   | Some a \<Rightarrow> (Inr \<lparr>addr = Some a, bytes = n\<rparr>, s\<lparr>mappings := a # mappings s\<rparr>))"

text \<open>The destructor; unmapping what is not mapped would take away the memory of another owner.\<close>

definition destroy_region :: "region \<Rightarrow> process_state \<Rightarrow> process_state ub" where
  "destroy_region r s = (case addr r of
     None \<Rightarrow> Some s
   | Some a \<Rightarrow> if a \<in> set (mappings s) then Some (s\<lparr>mappings := remove1 a (mappings s)\<rparr>) else None)"

text \<open>The results of the system calls of main, in their order.\<close>

record mmap_calls =
  open_result :: int
  truncated :: bool
  map_result :: "string option"
  reopen_result :: int
  remap_result :: "string option"

datatype mmap_outcome = Exit int | Uncaught map_error

text \<open>An exception that leaves main ends the process where it is: the destructors need not run.\<close>

definition mmap_main :: "mmap_calls \<Rightarrow> (mmap_outcome \<times> process_state) ub" where
  "mmap_main c = (
     let fd = open_result c; s = open_file fd start_process in
     if fd < 0 then Some (Exit 1, s)
     else case new_region fd 160 (map_result c) s of
       (Inl e, s) \<Rightarrow> Some (Uncaught e, s)
     | (Inr region, s) \<Rightarrow> do {
         s \<leftarrow> close_file fd s;
         a \<leftarrow> addr region;
         let s = prints [''Mapped 160 bytes at '' @ a] s;
         (d, written) \<leftarrow> write_all 0 quotes (if truncated c then replicate 4 zeroed else []);
         let s = prints written s;
         let fd2 = reopen_result c;
         (case new_region fd2 160 (remap_result c) (open_file fd2 s) of
            (Inl e, s) \<Rightarrow> Some (Uncaught e, s)
          | (Inr reader_region, s) \<Rightarrow> do {
              s \<leftarrow> close_file fd2 s;
              ls \<leftarrow> read_all 0 4 d;
              let s = (prints ls s)\<lparr>file_there := False\<rparr>;
              s \<leftarrow> destroy_region reader_region s;
              s \<leftarrow> destroy_region region s;
              Some (Exit 0, s) }) })"

definition written_lines :: "string list" where
  "written_lines = [''  Written: seq=1 AAPL $150.25'', ''  Written: seq=2 GOOGL $2800.5'',
     ''  Written: seq=3 MSFT $340.75'', ''  Written: seq=4 TSLA $250'']"

definition read_lines :: "string list" where
  "read_lines = [''  Read: seq=1 AAPL $150.25 qty=100'', ''  Read: seq=2 GOOGL $2800.5 qty=200'',
     ''  Read: seq=3 MSFT $340.75 qty=300'', ''  Read: seq=4 TSLA $250 qty=400'']"

lemma writer_output: "map_option snd (write_all 0 quotes (replicate 4 zeroed)) = Some written_lines"
  by code_simp

lemma reader_output: "do { (d, ls) \<leftarrow> write_all 0 quotes (replicate 4 zeroed); read_all 0 4 d } = Some read_lines"
  by code_simp

lemma mmap_main_output:
  "mmap_main \<lparr>open_result = 3, truncated = True, map_result = Some ''0x7f00'', reopen_result = 3, remap_result = Some ''0x7e00''\<rparr> =
     Some (Exit 0, \<lparr>fds = [], mappings = [], file_there = False, lines = ''Mapped 160 bytes at 0x7f00'' # written_lines @ read_lines\<rparr>)"
  by code_simp

text \<open>
  Claim: main gives back what it took on the ways that return: when the file could be sized, every run whose calls
  all succeed ends with code 0, no descriptor, no mapping and no file, having read back the four records it
  wrote; a failed open ends with code 1. A failed mmap leaves main by an exception with the file still there,
  with the descriptor open when it was mmap that failed, and with the writer's mapping when it was the
  reader's.
\<close>
theorem mmap_main_resources:
  assumes "truncated c"
  shows "mmap_main c = Some (
    if open_result c < 0 then (Exit 1, start_process)
    else case map_result c of
      None \<Rightarrow> (Uncaught Mmap_failed, \<lparr>fds = [open_result c], mappings = [], file_there = True, lines = []\<rparr>)
    | Some a \<Rightarrow>
        (let out = (''Mapped 160 bytes at '' @ a) # written_lines in
         if reopen_result c < 0 then (Uncaught Mmap_failed, \<lparr>fds = [], mappings = [a], file_there = True, lines = out\<rparr>)
         else case remap_result c of
           None \<Rightarrow> (Uncaught Mmap_failed, \<lparr>fds = [reopen_result c], mappings = [a], file_there = True, lines = out\<rparr>)
         | Some b \<Rightarrow> (Exit 0, \<lparr>fds = [], mappings = [], file_there = False, lines = out @ read_lines\<rparr>)))"
proof -
  obtain d where w: "write_all 0 quotes (replicate 4 zeroed) = Some (d, written_lines)" "read_all 0 4 d = Some read_lines"
    using writer_output reader_output by (auto simp: bind_Some_conv)
  show ?thesis
    using assms w
    by (simp add: mmap_main_def Let_def open_file_def new_region_def close_file_def destroy_region_def prints_def
        start_process_def split: option.splits)
qed

theorem mmap_main_resources_witness:
  "mmap_main \<lparr>open_result = 3, truncated = True, map_result = Some ''0x7f00'', reopen_result = 4, remap_result = None\<rparr> =
     Some (Uncaught Mmap_failed, \<lparr>fds = [4], mappings = [''0x7f00''], file_there = True,
       lines = ''Mapped 160 bytes at 0x7f00'' # written_lines\<rparr>)"
  by (subst mmap_main_resources) simp_all

text \<open>The result of ftruncate is not looked at: when it fails, the first access is to a page that is not there.\<close>

lemma unchecked_truncate:
  assumes "open_result c \<ge> 0" and "\<not> truncated c" and "map_result c = Some a"
  shows "mmap_main c = None"
  using assms
  by (simp add: mmap_main_def Let_def open_file_def new_region_def close_file_def start_process_def quotes_def write_record_def)

lemma takeWhile_nonzero: "CHR 0x00 \<notin> set s \<Longrightarrow> takeWhile (\<lambda>c. c \<noteq> CHR 0x00) (s @ CHR 0x00 # t) = s"
  by (induction s) auto

text \<open>
  Claim: a symbol written into a fresh record reads back as its first fifteen characters: it is always
  terminated, and shorter symbols come back as they are.
\<close>
theorem symbol_roundtrip:
  assumes "CHR 0x00 \<notin> set sy"
  shows "c_string (strncpy (symbol zeroed) sy 15) = take 15 sy \<and> length (strncpy (symbol zeroed) sy 15) = 16"
proof -
  have z: "CHR 0x00 \<notin> set (take 15 sy)" using assms by (auto dest: in_set_takeD)
  have c: "c_string sy = sy" unfolding c_string_def takeWhile_eq_all_conv using assms by metis
  have "drop 15 (replicate 16 (CHR 0x00)) = [CHR 0x00]" by (simp add: drop_replicate)
  then obtain t where "replicate (15 - length (take 15 sy)) (CHR 0x00) @ drop 15 (replicate 16 (CHR 0x00)) = CHR 0x00 # t"
    by (simp only: replicate_append_same)
  then have "strncpy (symbol zeroed) sy 15 = take 15 sy @ CHR 0x00 # t"
    by (simp add: strncpy_def zeroed_def c Let_def)
  then have "c_string (strncpy (symbol zeroed) sy 15) = take 15 sy"
    using takeWhile_nonzero [OF z] by (simp add: c_string_def)
  moreover have "length (strncpy (symbol zeroed) sy 15) = 16"
    by (simp add: strncpy_def zeroed_def c Let_def)
  ultimately show ?thesis by simp
qed

theorem symbol_roundtrip_witness: "c_string (strncpy (symbol zeroed) ''GOOGL'' 15) = ''GOOGL''"
  using symbol_roundtrip [of "''GOOGL''"] by simp

end
