(* ===== verification/Socket_Servers.thy ===== *)
theory Socket_Servers
  imports Mapped_Region Raii
begin

text \<open>
  src/src/systems/networking/tcp_server.cpp and src/src/systems/networking/epoll_server.cpp: the owners of a file
  descriptor, the echo of one connection and the event loop, with the results of the system calls as
  parameters. None is a write beyond a buffer or the close of a descriptor that is not open. What a server
  prints ends at a zero byte; what it sends does not.
\<close>

section \<open>Descriptors and their owners\<close>

text \<open>sent lists what was handed to write, delivered what the kernel took of it.\<close>

record net =
  net_log :: "string list"
  open_fds :: "int list"
  sent :: "(int \<times> string) list"
  delivered :: "(int \<times> string) list"

definition net_put :: "string \<Rightarrow> 'a net_scheme \<Rightarrow> 'a net_scheme" where
  "net_put l n = n\<lparr>net_log := net_log n @ [l]\<rparr>"

definition close_fd :: "int \<Rightarrow> 'a net_scheme \<Rightarrow> 'a net_scheme ub" where
  "close_fd d n = (if d \<in> set (open_fds n) then Some (n\<lparr>open_fds := remove1 d (open_fds n)\<rparr>) else None)"

text \<open>What a system call that creates a descriptor does; a negative result creates none.\<close>

definition created :: "int \<Rightarrow> 'a net_scheme \<Rightarrow> 'a net_scheme" where
  "created d n = (if d < 0 then n else n\<lparr>open_fds := d # open_fds n\<rparr>)"

text \<open>
  read, for the count n it is given and the bytes it could return (None for an error): at most n of them.
  write, for its result: the bytes it took, none when it failed.
\<close>

definition posix_read :: "nat \<Rightarrow> string option \<Rightarrow> string option" where
  "posix_read n available = map_option (take n) available"

definition posix_write :: "int \<Rightarrow> string \<Rightarrow> int \<Rightarrow> 'a net_scheme \<Rightarrow> 'a net_scheme" where
  "posix_write d bs result n = n\<lparr>sent := sent n @ [(d, bs)], delivered := delivered n @ [(d, take (nat result) bs)]\<rparr>"

text \<open>Socket and FileDescriptor are their descriptor, -1 when they own none.\<close>

definition new_Socket :: "int \<Rightarrow> string \<Rightarrow> ('a net_scheme, int) prog" where
  "new_Socket d err n = Some (created d n, if d < 0 then Thrown (''socket() failed: '' @ err) else Returned d)"

definition adopt_Socket :: "int \<Rightarrow> ('a net_scheme, int) prog" where
  "adopt_Socket d n = Some (created d n, Returned d)"

definition destroy_Socket :: "int \<Rightarrow> 'a net_scheme \<Rightarrow> 'a net_scheme ub" where
  "destroy_Socket d n = (if d \<ge> 0 then close_fd d n else Some n)"

text \<open>The new owner and the source afterwards.\<close>

definition move_Socket :: "int \<Rightarrow> int \<times> int" where
  "move_Socket other = (other, - 1)"

text \<open>The assignments: the two owners afterwards; the first class asks whether they are the same object.\<close>

definition move_assign_Socket :: "bool \<Rightarrow> int \<Rightarrow> int \<Rightarrow> net \<Rightarrow> (int \<times> int \<times> net) ub" where
  "move_assign_Socket same this other n =
     (if same then Some (this, this, n) else do { n' \<leftarrow> destroy_Socket this n; Some (other, - 1, n') })"

definition move_assign_FileDescriptor :: "bool \<Rightarrow> int \<Rightarrow> int \<Rightarrow> net \<Rightarrow> (int \<times> int \<times> net) ub" where
  "move_assign_FileDescriptor same this other n = do {
     n' \<leftarrow> destroy_Socket this n;
     Some (if same then - 1 else other, - 1, n') }"

definition release_FileDescriptor :: "int \<Rightarrow> int \<times> int" where
  "release_FileDescriptor d = (d, - 1)"

text \<open>Moving an owner to itself keeps a Socket and loses the descriptor of a FileDescriptor.\<close>

lemma self_move:
  "move_assign_Socket True d d n = Some (d, d, n)"
  "0 \<le> d \<Longrightarrow> d \<in> set (open_fds n) \<Longrightarrow>
     \<exists>n'. move_assign_FileDescriptor True d d n = Some (- 1, - 1, n') \<and> open_fds n' = remove1 d (open_fds n)"
  by (simp_all add: move_assign_Socket_def move_assign_FileDescriptor_def destroy_Socket_def close_fd_def)

interpretation socket: resource "new_Socket d err" destroy_Socket "\<lambda>n. mset (open_fds n)"
  by unfold_locales
     (auto simp: new_Socket_def created_def destroy_Socket_def close_fd_def simp flip: set_mset_mset split: if_splits)

interpretation adopted: resource "adopt_Socket d" destroy_Socket "\<lambda>n. mset (open_fds n)"
  by unfold_locales
     (auto simp: adopt_Socket_def created_def destroy_Socket_def close_fd_def simp flip: set_mset_mset split: if_splits)

section \<open>tcp_server.cpp\<close>

text \<open>The results of the calls in their order, the peer's address, and the bytes that read could return (None for an error).\<close>

record tcp_calls =
  socket_result :: int
  bind_result :: int
  listen_result :: int
  accept_result :: int
  peer :: string
  peer_port :: int
  received :: "string option"
  write_result :: int
  error_text :: string

text \<open>The buffer has 1024 bytes, of which one is for the zero byte; the result of write is not looked at.\<close>

definition echo_once :: "tcp_calls \<Rightarrow> int \<Rightarrow> net \<Rightarrow> net ub" where
  "echo_once c d n = (case posix_read (1024 - 1) (received c) of
     None \<Rightarrow> Some n
   | Some bs \<Rightarrow> if bs = [] then Some n else do {
       _ \<leftarrow> guard (length bs < 1024);
       let n1 = net_put (''Received: '' @ c_string bs) n;
       let n2 = posix_write d bs (write_result c) n1;
       Some (net_put (''Echoed '' @ show_int (int (length bs)) @ '' bytes back to client'') n2) })"

definition serve_client :: "tcp_calls \<Rightarrow> (int \<times> net, int) prog" where
  "serve_client c = (\<lambda>(client, n).
     if client < 0 then Some ((client, net_put (''accept() failed: '' @ error_text c) n), Returned 1)
     else do {
       let n1 = net_put (''Client connected: '' @ peer c @ '':'' @ show_int (peer_port c)) n;
       n2 \<leftarrow> echo_once c client n1;
       Some ((client, net_put ''Connection closed. Server shutting down.'' n2), Returned 0) })"

definition after_socket :: "tcp_calls \<Rightarrow> (int \<times> net, int) prog" where
  "after_socket c = (\<lambda>(server, n).
     if bind_result c < 0 then Some ((server, net_put (''bind() failed: '' @ error_text c) n), Returned 1)
     else if listen_result c < 0 then Some ((server, net_put (''listen() failed: '' @ error_text c) n), Returned 1)
     else do {
       (n1, r) \<leftarrow> scoped (adopt_Socket (accept_result c)) destroy_Socket (serve_client c) (net_put ''Listening on port 8080...'' n);
       Some ((server, n1), r) })"

definition tcp_server_main :: "tcp_calls \<Rightarrow> (net, int) prog" where
  "tcp_server_main c = scoped (new_Socket (socket_result c) (error_text c)) destroy_Socket (after_socket c)"

text \<open>The exit code of main; an exception leaves it.\<close>

definition tcp_result :: "tcp_calls \<Rightarrow> int outcome" where
  "tcp_result c = (if socket_result c < 0 then Thrown (''socket() failed: '' @ error_text c)
     else Returned (if bind_result c < 0 \<or> listen_result c < 0 \<or> accept_result c < 0 then 1 else 0))"

text \<open>The bytes of the one read.\<close>

definition bytes_echoed :: "tcp_calls \<Rightarrow> string list" where
  "bytes_echoed c = (case received c of None \<Rightarrow> [] | Some bs \<Rightarrow> if bs = [] then [] else [take 1023 bs])"

lemma put_frame [simp]: "open_fds (net_put l n) = open_fds n" "sent (net_put l n) = sent n" "delivered (net_put l n) = delivered n"
  by (simp_all add: net_put_def)

lemma created_frame [simp]: "sent (created d n) = sent n" "delivered (created d n) = delivered n"
  by (simp_all add: created_def)

definition echoed_by :: "tcp_calls \<Rightarrow> bool \<Rightarrow> net \<Rightarrow> net \<Rightarrow> bool" where
  "echoed_by c served n n' \<longleftrightarrow>
     sent n' = sent n @ (if served then map (Pair (accept_result c)) (bytes_echoed c) else []) \<and>
     delivered n' = delivered n @ (if served then map (\<lambda>bs. (accept_result c, take (nat (write_result c)) bs)) (bytes_echoed c) else [])"

lemma echo_once_frame:
  "\<exists>n'. echo_once c (accept_result c) n = Some n' \<and> open_fds n' = open_fds n \<and> echoed_by c True n n'"
  by (cases "received c") (auto simp: echo_once_def posix_read_def posix_write_def bytes_echoed_def echoed_by_def Let_def guard_def)

lemma serve_client_frame:
  "\<exists>n'. serve_client c (accept_result c, n) = Some ((accept_result c, n'), Returned (if accept_result c < 0 then 1 else 0)) \<and>
    open_fds n' = open_fds n \<and> echoed_by c (0 \<le> accept_result c) n n'"
proof (cases "accept_result c < 0")
  case True
  then show ?thesis by (simp add: serve_client_def echoed_by_def)
next
  case False
  let ?n = "net_put (''Client connected: '' @ peer c @ '':'' @ show_int (peer_port c)) n"
  obtain n' where "echo_once c (accept_result c) ?n = Some n'" "open_fds n' = open_fds ?n" "echoed_by c True ?n n'"
    using echo_once_frame by blast
  then show ?thesis using False by (simp add: serve_client_def echoed_by_def)
qed

lemma client_frame:
  "\<exists>n'. scoped (adopt_Socket (accept_result c)) destroy_Socket (serve_client c) n =
      Some (n', Returned (if accept_result c < 0 then 1 else 0)) \<and> mset (open_fds n') = mset (open_fds n) \<and>
      echoed_by c (0 \<le> accept_result c) n n'"
proof -
  obtain n1 where n1: "serve_client c (accept_result c, created (accept_result c) n) =
      Some ((accept_result c, n1), Returned (if accept_result c < 0 then 1 else 0))"
    "open_fds n1 = open_fds (created (accept_result c) n)" "echoed_by c (0 \<le> accept_result c) (created (accept_result c) n) n1"
    using serve_client_frame by blast
  obtain n2 where n2: "destroy_Socket (accept_result c) n1 = Some n2" "mset (open_fds n2) = mset (open_fds n)"
      "sent n2 = sent n1" "delivered n2 = delivered n1"
    using n1(2) by (auto simp: destroy_Socket_def close_fd_def created_def split: if_splits)
  then show ?thesis using n1 by (simp add: scoped_def adopt_Socket_def echoed_by_def)
qed

text \<open>
  C29: the server closes every descriptor it opened on each of its ways out (a failed call, an exception, the
  end). When it gets to its client it hands back to write exactly the bytes that its one read gave it, at most 1023,
  and the client gets as many of them as write takes; it never writes beyond its buffer.
\<close>
theorem tcp_server_closes_sockets:
  "\<exists>n'. tcp_server_main c n = Some (n', tcp_result c) \<and> mset (open_fds n') = mset (open_fds n) \<and>
    sent n' = sent n @ (if tcp_result c = Returned 0 then map (Pair (accept_result c)) (bytes_echoed c) else []) \<and>
    delivered n' = delivered n @ (if tcp_result c = Returned 0
      then map (\<lambda>bs. (accept_result c, take (nat (write_result c)) bs)) (bytes_echoed c) else [])"
proof (cases "socket_result c < 0")
  case True
  then show ?thesis by (simp add: tcp_server_main_def scoped_def new_Socket_def created_def tcp_result_def)
next
  case False
  let ?m = "created (socket_result c) n"
  obtain n1 where n1: "scoped (adopt_Socket (accept_result c)) destroy_Socket (serve_client c) (net_put ''Listening on port 8080...'' ?m) =
      Some (n1, Returned (if accept_result c < 0 then 1 else 0))" "mset (open_fds n1) = mset (open_fds ?m)"
    "echoed_by c (0 \<le> accept_result c) ?m n1"
    using client_frame [of c "net_put ''Listening on port 8080...'' ?m"] by (auto simp: echoed_by_def)
  have m: "mset (open_fds ?m) = add_mset (socket_result c) (mset (open_fds n))"
    using False by (simp add: created_def)
  have "socket_result c \<in> set (open_fds n1)" using n1(2) m by (metis set_mset_mset union_single_eq_member)
  then show ?thesis using False n1 m
    by (auto simp: tcp_server_main_def scoped_def new_Socket_def after_socket_def tcp_result_def destroy_Socket_def close_fd_def
        created_def echoed_by_def)
qed

text \<open>Whatever write returns, the server says that it has echoed all.\<close>

lemma echo_says_all:
  "map_option net_log (echo_once \<lparr>socket_result = 3, bind_result = 0, listen_result = 0, accept_result = 4, peer = ''127.0.0.1'', peer_port = 5,
      received = Some ''hello'', write_result = - 1, error_text = []\<rparr> 4 \<lparr>net_log = [], open_fds = [4], sent = [], delivered = []\<rparr>) =
   Some [''Received: hello'', ''Echoed 5 bytes back to client'']"
  by code_simp

section \<open>epoll_server.cpp\<close>

text \<open>
  An event of the loop: its descriptor with the results of the calls it leads to. For the listening socket these are the new
  descriptor, the result of epoll_ctl and the address of the client; for a client the bytes that read could return
  (None for an error) and the result of write.
\<close>

record epoll_event =
  event_fd :: int
  accepted :: int
  ctl_result :: int
  address :: string
  available :: "string option"
  taken :: int

datatype wait_result = Wait_failed | Timed_out | Ready "epoll_event list"

text \<open>interest lists the descriptors that epoll watches, clients the ghost list of the connections accepted and not yet closed.\<close>

record server = net +
  interest :: "int list"
  clients :: "int list"
  handled :: int

definition start_server :: "int list \<Rightarrow> server" where
  "start_server ds = \<lparr>net_log = [], open_fds = ds, sent = [], delivered = [], interest = [], clients = [], handled = 0\<rparr>"

definition note_line :: "string \<Rightarrow> server \<Rightarrow> server" where
  "note_line l s = s\<lparr>net_log := net_log s @ [l]\<rparr>"

definition accept_client :: "epoll_event \<Rightarrow> server \<Rightarrow> server" where
  "accept_client e s = (if accepted e < 0 then s
     else note_line (''New connection: '' @ address e @ '' (fd='' @ show_int (accepted e) @ '')'')
       (s\<lparr>open_fds := accepted e # open_fds s, clients := accepted e # clients s,
         interest := (if ctl_result e < 0 then interest s else accepted e # interest s)\<rparr>))"

definition client_disconnect :: "int \<Rightarrow> server \<Rightarrow> server ub" where
  "client_disconnect d s = (if d \<in> set (open_fds s)
     then Some (note_line (''Client disconnected (fd='' @ show_int d @ '')'')
       (s\<lparr>open_fds := remove1 d (open_fds s), clients := remove1 d (clients s), interest := remove1 d (interest s)\<rparr>))
     else None)"

text \<open>The buffer has 512 bytes, of which one is for the zero byte.\<close>

definition read_client :: "epoll_event \<Rightarrow> server \<Rightarrow> server ub" where
  "read_client e s = do {
     s1 \<leftarrow> (case posix_read (512 - 1) (available e) of
        None \<Rightarrow> client_disconnect (event_fd e) s
      | Some bs \<Rightarrow> if bs = [] then client_disconnect (event_fd e) s else do {
          _ \<leftarrow> guard (length bs < 512);
          let s' = note_line (''fd='' @ show_int (event_fd e) @ '' sent: '' @ c_string bs) s;
          Some (posix_write (event_fd e) bs (taken e) s') });
     h \<leftarrow> chk (handled s1 + 1);
     Some (s1\<lparr>handled := h\<rparr>) }"

definition handle_event :: "int \<Rightarrow> epoll_event \<Rightarrow> server \<Rightarrow> server ub" where
  "handle_event server_fd e s = (if event_fd e = server_fd then Some (accept_client e s) else read_client e s)"

fun handle_batch :: "int \<Rightarrow> epoll_event list \<Rightarrow> server \<Rightarrow> server ub" where
  "handle_batch server_fd [] s = Some s"
| "handle_batch server_fd (e # es) s = do { s' \<leftarrow> handle_event server_fd e s; handle_batch server_fd es s' }"

text \<open>The loop over the results of epoll_wait; when there are no more of them, the wait times out.\<close>

fun epoll_loop :: "int \<Rightarrow> wait_result list \<Rightarrow> server \<Rightarrow> server ub" where
  "epoll_loop server_fd [] s = Some (if handled s < 5 then note_line ''Timeout, exiting demo.'' s else s)"
| "epoll_loop server_fd (w # ws) s =
     (if handled s < 5 then
        (case w of
           Wait_failed \<Rightarrow> Some s
         | Timed_out \<Rightarrow> Some (note_line ''Timeout, exiting demo.'' s)
         | Ready es \<Rightarrow> do { s' \<leftarrow> handle_batch server_fd es s; epoll_loop server_fd ws s' })
      else Some s)"

text \<open>What the kernel promises of an event: a new descriptor is fresh, and other events are those of watched clients.\<close>

definition plausible :: "int \<Rightarrow> epoll_event \<Rightarrow> server \<Rightarrow> bool" where
  "plausible server_fd e s \<longleftrightarrow>
     (if event_fd e = server_fd then accepted e < 0 \<or> accepted e \<notin> set (open_fds s)
      else event_fd e \<in> set (interest s))"

fun plausible_batch :: "int \<Rightarrow> epoll_event list \<Rightarrow> server \<Rightarrow> bool" where
  "plausible_batch server_fd [] s = True"
| "plausible_batch server_fd (e # es) s = (plausible server_fd e s \<and>
     (case handle_event server_fd e s of None \<Rightarrow> True | Some s' \<Rightarrow> plausible_batch server_fd es s'))"

text \<open>MAX_EVENTS bounds a batch.\<close>

fun plausible_waits :: "int \<Rightarrow> wait_result list \<Rightarrow> server \<Rightarrow> bool" where
  "plausible_waits server_fd [] s = True"
| "plausible_waits server_fd (Ready es # ws) s = (handled s < 5 \<longrightarrow> length es \<le> 64 \<and> plausible_batch server_fd es s \<and>
     (case handle_batch server_fd es s of None \<Rightarrow> True | Some s' \<Rightarrow> plausible_waits server_fd ws s'))"
| "plausible_waits server_fd (w # ws) s = True"

text \<open>
  The open descriptors are those the program started with, the two guards' and the clients'; only open clients are watched.
\<close>

definition server_inv :: "int list \<Rightarrow> server \<Rightarrow> bool" where
  "server_inv own s \<longleftrightarrow> mset (open_fds s) = mset own + mset (clients s) \<and> mset (interest s) \<subseteq># mset (clients s) \<and> 0 \<le> handled s"

lemma note_line_frame [simp]: "open_fds (note_line l s) = open_fds s" "interest (note_line l s) = interest s"
    "clients (note_line l s) = clients s" "handled (note_line l s) = handled s" "sent (note_line l s) = sent s"
  by (simp_all add: note_line_def)

lemma posix_write_frame [simp]: "open_fds (posix_write d bs r s) = open_fds s" "interest (posix_write d bs r s) = interest s"
    "clients (posix_write d bs r s) = clients s" "handled (posix_write d bs r s) = handled s"
  by (simp_all add: posix_write_def)

lemma accept_inv: "server_inv own s \<Longrightarrow> server_inv own (accept_client e s) \<and> handled (accept_client e s) = handled s"
  by (auto simp: accept_client_def server_inv_def intro: subset_mset.order_trans)

lemma disconnect_inv: "server_inv own s \<Longrightarrow> d \<in> set (interest s) \<Longrightarrow>
    \<exists>s'. client_disconnect d s = Some s' \<and> server_inv own s' \<and> handled s' = handled s \<and> sent s' = sent s"
proof -
  assume s: "server_inv own s" and d: "d \<in> set (interest s)"
  have m: "mset (open_fds s) = mset own + mset (clients s)" "mset (interest s) \<subseteq># mset (clients s)" "0 \<le> handled s"
    using s by (simp_all add: server_inv_def)
  have i: "d \<in># mset (clients s)" using mset_subset_eqD [OF m(2), of d] d by simp
  then have "d \<in># mset (open_fds s)" using m(1) by simp
  then have o1: "d \<in> set (open_fds s)" by simp
  have r: "mset own + mset (clients s) - {#d#} = mset own + (mset (clients s) - {#d#})"
    by (rule diff_union_single_conv [OF i])
  have w: "mset (interest s) - {#d#} \<subseteq># mset (clients s) - {#d#}" using m(2) by (simp add: subseteq_mset_def diff_le_mono)
  show ?thesis using o1 w by (simp add: client_disconnect_def server_inv_def m r)
qed

lemma handle_event_inv:
  assumes "server_inv own s" and "plausible server_fd e s" and "handled s < INT_MAX"
  shows "\<exists>s'. handle_event server_fd e s = Some s' \<and> server_inv own s' \<and>
    handled s' = handled s + (if event_fd e = server_fd then 0 else 1)"
proof (cases "event_fd e = server_fd")
  case True
  then show ?thesis using accept_inv [OF assms(1)] by (simp add: handle_event_def)
next
  case False
  then have e: "event_fd e \<in> set (interest s)" using assms(2) by (simp add: plausible_def)
  have c: "chk (handled s + 1) = Some (handled s + 1)" using assms by (intro chk_Some) (auto simp: server_inv_def)
  show ?thesis
  proof (cases "available e = None \<or> available e = Some []")
    case True
    then obtain s' where "client_disconnect (event_fd e) s = Some s'" "server_inv own s'" "handled s' = handled s"
      using disconnect_inv [OF assms(1) e] by blast
    then show ?thesis using True False c by (auto simp: handle_event_def read_client_def posix_read_def server_inv_def)
  next
    case read: False
    then obtain bs where "available e = Some bs" "bs \<noteq> []" by auto
    then show ?thesis using False c assms(1) by (auto simp: handle_event_def read_client_def posix_read_def server_inv_def guard_def)
  qed
qed

lemma handle_batch_inv:
  "server_inv own s \<Longrightarrow> plausible_batch server_fd es s \<Longrightarrow> handled s + int (length es) \<le> INT_MAX \<Longrightarrow>
   \<exists>s'. handle_batch server_fd es s = Some s' \<and> server_inv own s' \<and>
     handled s' = handled s + int (length (filter (\<lambda>e. event_fd e \<noteq> server_fd) es))"
proof (induction es arbitrary: s)
  case (Cons e es)
  then obtain s1 where s1: "handle_event server_fd e s = Some s1" "server_inv own s1"
      "handled s1 = handled s + (if event_fd e = server_fd then 0 else 1)"
    using handle_event_inv [of own s server_fd e] by auto
  then show ?case using Cons.IH [of s1] Cons.prems by auto
qed simp

lemma epoll_loop_inv:
  "server_inv own s \<Longrightarrow> plausible_waits server_fd ws s \<Longrightarrow> handled s \<le> 68 \<Longrightarrow>
   \<exists>s'. epoll_loop server_fd ws s = Some s' \<and> server_inv own s' \<and> handled s' \<le> 68"
proof (induction ws arbitrary: s)
  case Nil
  then show ?case by (auto simp: server_inv_def)
next
  case (Cons w ws)
  show ?case
  proof (cases w)
    case (Ready es)
    show ?thesis
    proof (cases "handled s < 5")
      case True
      then have es: "length es \<le> 64" "plausible_batch server_fd es s" using Cons.prems(2) Ready by auto
      then obtain s1 where s1: "handle_batch server_fd es s = Some s1" "server_inv own s1"
          "handled s1 = handled s + int (length (filter (\<lambda>e. event_fd e \<noteq> server_fd) es))"
        using handle_batch_inv [OF Cons.prems(1) es(2)] True by auto
      have "length (filter (\<lambda>e. event_fd e \<noteq> server_fd) es) \<le> 64"
        using length_filter_le [of _ es] es(1) by (rule order_trans)
      then have "handled s1 \<le> 68" using s1(3) True by simp
      then show ?thesis using Cons.IH [OF s1(2)] Cons.prems(2) Ready True s1(1) by auto
    qed (use Cons.prems Ready in auto)
  qed (use Cons.prems in \<open>auto simp: server_inv_def\<close>)
qed

text \<open>
  C30: for every sequence of events that the kernel can deliver (events of the listening socket, whose new
  descriptors are not open yet, and of watched clients, at most 64 at a time), whatever its calls return and however much is waiting to be
  read, the server never writes beyond its buffer or closes a descriptor twice, it keeps open exactly its own
  two descriptors and those of the clients that have not disconnected, and it handles at most 68 events,
  four and a full batch.
\<close>
theorem epoll_server_safe:
  assumes "plausible_waits server_fd ws (start_server [epoll_fd, server_fd])"
  shows "\<exists>s. epoll_loop server_fd ws (start_server [epoll_fd, server_fd]) = Some s \<and>
    mset (open_fds s) = {#epoll_fd, server_fd#} + mset (clients s) \<and> mset (interest s) \<subseteq># mset (clients s) \<and>
    0 \<le> handled s \<and> handled s \<le> 68"
proof -
  have "server_inv [epoll_fd, server_fd] (start_server [epoll_fd, server_fd])"
    by (simp add: server_inv_def start_server_def)
  from epoll_loop_inv [OF this assms] show ?thesis by (auto simp: server_inv_def start_server_def)
qed

text \<open>A client connects, sends two texts and goes; then another connects and nothing more happens.\<close>

definition session :: "wait_result list" where
  "session =
     [Ready [\<lparr>event_fd = 3, accepted = 5, ctl_result = 0, address = ''127.0.0.1'', available = None, taken = 5\<rparr>],
      Ready [\<lparr>event_fd = 5, accepted = - 1, ctl_result = 0, address = [], available = Some ''hello'', taken = 5\<rparr>],
      Ready [\<lparr>event_fd = 5, accepted = - 1, ctl_result = 0, address = [], available = Some ''world'', taken = 5\<rparr>],
      Ready [\<lparr>event_fd = 5, accepted = - 1, ctl_result = 0, address = [], available = Some [], taken = 5\<rparr>,
             \<lparr>event_fd = 3, accepted = 6, ctl_result = 0, address = ''127.0.0.1'', available = None, taken = 5\<rparr>]]"

lemma session_result:
  "map_option (\<lambda>s. (net_log s, open_fds s, sent s, handled s))
     (epoll_loop 3 session (start_server [4, 3])) = Some
   ([''New connection: 127.0.0.1 (fd=5)'', ''fd=5 sent: hello'', ''fd=5 sent: world'', ''Client disconnected (fd=5)'',
     ''New connection: 127.0.0.1 (fd=6)'', ''Timeout, exiting demo.''], [6, 4, 3], [(5, ''hello''), (5, ''world'')], 3)"
  by code_simp

theorem epoll_server_safe_witness:
  "\<exists>s. epoll_loop 3 session (start_server [4, 3]) = Some s \<and> handled s \<le> 68"
proof -
  have "plausible_waits 3 session (start_server [4, 3])" by code_simp
  from epoll_server_safe [OF this] show ?thesis by blast
qed

text \<open>
  main: the results of socket, bind, listen and epoll_create1, and the events; the guards own the two
  descriptors, and the clients' are closed nowhere but at their disconnection.
\<close>

record epoll_calls =
  esocket :: int
  ebind :: int
  elisten :: int
  ecreate :: int
  waits :: "wait_result list"

definition epoll_main :: "epoll_calls \<Rightarrow> (server, int) prog" where
  "epoll_main c s =
     (if esocket c < 0 then Some (net_put ''socket'' s, Returned 1)
      else scoped (adopt_Socket (esocket c)) destroy_Socket (\<lambda>(guard1, s1).
        if ebind c < 0 then Some ((guard1, net_put ''bind'' s1), Returned 1)
        else if elisten c < 0 then Some ((guard1, net_put ''listen'' s1), Returned 1)
        else if ecreate c < 0 then Some ((guard1, net_put ''epoll_create1'' s1), Returned 1)
        else do {
          (s2, r) \<leftarrow> scoped (adopt_Socket (ecreate c)) destroy_Socket (\<lambda>(guard2, s2). do {
             s3 \<leftarrow> epoll_loop (esocket c) (waits c) (net_put ''Listening on port 9090 with epoll...'' s2);
             Some ((guard2, net_put ''Epoll server demo complete.'' s3), Returned 0) }) s1;
          Some ((guard1, s2), r) }) s)"

lemma epoll_main_session:
  "map_option (\<lambda>(s, r). (net_log s, open_fds s, sent s, r))
     (epoll_main \<lparr>esocket = 3, ebind = 0, elisten = 0, ecreate = 4, waits = session\<rparr>
       (start_server [])) = Some
   ([''Listening on port 9090 with epoll...'', ''New connection: 127.0.0.1 (fd=5)'', ''fd=5 sent: hello'', ''fd=5 sent: world'',
     ''Client disconnected (fd=5)'', ''New connection: 127.0.0.1 (fd=6)'', ''Timeout, exiting demo.'',
     ''Epoll server demo complete.''], [6], [(5, ''hello''), (5, ''world'')], Returned 0)"
  by code_simp

text \<open>
  Claim: when main ends, both of its own descriptors are closed, and the descriptors that stay open are exactly those
  of the clients still connected.
\<close>
theorem epoll_main_leaves_clients:
  assumes "0 \<le> esocket c" "0 \<le> ebind c" "0 \<le> elisten c" "0 \<le> ecreate c" "esocket c \<noteq> ecreate c"
    and "plausible_waits (esocket c) (waits c) ((start_server [ecreate c, esocket c])\<lparr>net_log := [''Listening on port 9090 with epoll...'']\<rparr>)"
  shows "\<exists>s. epoll_main c (start_server []) = Some (s, Returned 0) \<and>
    mset (open_fds s) = mset (clients s)"
proof -
  let ?s = "((start_server [ecreate c, esocket c])\<lparr>net_log := [''Listening on port 9090 with epoll...'']\<rparr>) :: server"
  have "server_inv [ecreate c, esocket c] ?s" by (simp add: server_inv_def start_server_def)
  from epoll_loop_inv [OF this assms(6)]
  obtain s where s: "epoll_loop (esocket c) (waits c) ?s = Some s" "mset (open_fds s) = {#ecreate c, esocket c#} + mset (clients s)"
    by (auto simp: server_inv_def start_server_def)
  define f where "f = open_fds s"
  have f: "mset f = add_mset (ecreate c) (add_mset (esocket c) (mset (clients s)))" using s(2) by (simp add: f_def)
  have "ecreate c \<in> set f" using f by (metis set_mset_mset union_single_eq_member)
  moreover have g: "mset (remove1 (ecreate c) f) = add_mset (esocket c) (mset (clients s))" using f by simp
  moreover have "esocket c \<in> set (remove1 (ecreate c) f)" using g by (metis set_mset_mset union_single_eq_member)
  ultimately show ?thesis using assms(1-5) s(1)
    by (simp add: epoll_main_def start_server_def scoped_def adopt_Socket_def created_def net_put_def destroy_Socket_def close_fd_def f_def [symmetric])
qed

theorem epoll_main_leaves_clients_witness:
  "\<exists>s. epoll_main \<lparr>esocket = 3, ebind = 0, elisten = 0, ecreate = 4, waits = session\<rparr>
     (start_server []) = Some (s, Returned 0) \<and> mset (open_fds s) = mset (clients s)"
proof -
  have "plausible_waits 3 session ((start_server [4, 3])\<lparr>net_log := [''Listening on port 9090 with epoll...'']\<rparr>)"
    by code_simp
  then show ?thesis
    using epoll_main_leaves_clients [of "\<lparr>esocket = 3, ebind = 0, elisten = 0, ecreate = 4, waits = session\<rparr>"] by simp
qed

text \<open>The demonstration says that it handles five events; a batch of six readable clients is handled whole.\<close>

lemma handles_more_than_five:
  "map_option handled (handle_batch 3
     (map (\<lambda>d. \<lparr>event_fd = d, accepted = - 1, ctl_result = 0, address = [], available = Some ''x'', taken = 5\<rparr>) [5, 6, 7, 8, 9, 10])
     \<lparr>net_log = [], open_fds = [10, 9, 8, 7, 6, 5, 4, 3], sent = [], delivered = [], interest = [10, 9, 8, 7, 6, 5],
       clients = [10, 9, 8, 7, 6, 5], handled = 0\<rparr>) = Some 6"
  by code_simp

text \<open>
  Claim: an edge-triggered client is read once per event, so that of what it has sent no more than 511 bytes are
  echoed for each of its events, however much is waiting.
\<close>

lemma read_once_per_event:
  assumes "handle_event server_fd e s = Some s'" and "event_fd e \<noteq> server_fd"
  shows "\<exists>bs. sent s' = sent s @ bs \<and> length bs \<le> 1 \<and> (\<forall>b \<in> set bs. length (snd b) \<le> 511)"
  using assms
  by (auto simp: handle_event_def read_client_def client_disconnect_def posix_read_def posix_write_def bind_Some_conv Let_def split: option.splits if_splits)

end
