(* ===== verification/Simd_Layout.thy ===== *)
theory Simd_Layout
  imports Complex_Main Prelude
begin

text \<open>
  src/src/systems/hpc_gpu/simd_vectorization.cpp: the two layouts of the particles and their updates, the dot product, the
  repeated measurement, and main. The arithmetic of float and its constants are parameters; where a claim depends
  on it, it asks that sums of whole numbers up to 2^24 are exact. The random numbers and
  the clock are parameters. An index out of range is None.
\<close>

section \<open>The two layouts\<close>

record 'f Particle_AoS =
  ax :: 'f
  ay :: 'f
  az :: 'f
  avx :: 'f
  avy :: 'f
  avz :: 'f
  amass :: 'f
  apadding :: 'f

record 'f Particles_SoA =
  xs :: "'f list"
  ys :: "'f list"
  zs :: "'f list"
  vxs :: "'f list"
  vys :: "'f list"
  vzs :: "'f list"
  masses :: "'f list"

text \<open>The constructor fills every array with zeros.\<close>

definition new_SoA :: "'f \<Rightarrow> nat \<Rightarrow> 'f Particles_SoA" where
  "new_SoA zero n = (let r = replicate n zero in
     \<lparr>xs = r, ys = r, zs = r, vxs = r, vys = r, vzs = r, masses = r\<rparr>)"

section \<open>The loops\<close>

fun dot_loop :: "('f \<Rightarrow> 'f \<Rightarrow> 'f) \<Rightarrow> ('f \<Rightarrow> 'f \<Rightarrow> 'f) \<Rightarrow> 'f list \<Rightarrow> 'f list \<Rightarrow> nat \<Rightarrow> nat \<Rightarrow> 'f \<Rightarrow> 'f ub" where
  "dot_loop add mul a b i 0 s = Some s"
| "dot_loop add mul a b i (Suc k) s =
     (if i < length a \<and> i < length b then dot_loop add mul a b (i + 1) k (add s (mul (a ! i) (b ! i))) else None)"

definition dotProduct :: "('f \<Rightarrow> 'f \<Rightarrow> 'f) \<Rightarrow> ('f \<Rightarrow> 'f \<Rightarrow> 'f) \<Rightarrow> 'f \<Rightarrow> 'f list \<Rightarrow> 'f list \<Rightarrow> nat \<Rightarrow> 'f ub" where
  "dotProduct add mul zero a b n = dot_loop add mul a b 0 n zero"

definition move_particle :: "('f \<Rightarrow> 'f \<Rightarrow> 'f) \<Rightarrow> ('f \<Rightarrow> 'f \<Rightarrow> 'f) \<Rightarrow> 'f \<Rightarrow> 'f Particle_AoS \<Rightarrow> 'f Particle_AoS" where
  "move_particle add mul dt p = p\<lparr>ax := add (ax p) (mul (avx p) dt), ay := add (ay p) (mul (avy p) dt),
     az := add (az p) (mul (avz p) dt)\<rparr>"

definition updatePositions_AoS :: "('f \<Rightarrow> 'f \<Rightarrow> 'f) \<Rightarrow> ('f \<Rightarrow> 'f \<Rightarrow> 'f) \<Rightarrow> 'f \<Rightarrow> 'f Particle_AoS list \<Rightarrow> 'f Particle_AoS list" where
  "updatePositions_AoS add mul dt ps = map (move_particle add mul dt) ps"

text \<open>One of the three loops: n steps from index i on.\<close>

fun axis_loop :: "('f \<Rightarrow> 'f \<Rightarrow> 'f) \<Rightarrow> ('f \<Rightarrow> 'f \<Rightarrow> 'f) \<Rightarrow> 'f \<Rightarrow> 'f list \<Rightarrow> nat \<Rightarrow> nat \<Rightarrow> 'f list \<Rightarrow> 'f list ub" where
  "axis_loop add mul dt vs i 0 ps = Some ps"
| "axis_loop add mul dt vs i (Suc k) ps =
     (if i < length ps \<and> i < length vs then axis_loop add mul dt vs (i + 1) k (ps[i := add (ps ! i) (mul (vs ! i) dt)])
      else None)"

definition updatePositions_SoA :: "('f \<Rightarrow> 'f \<Rightarrow> 'f) \<Rightarrow> ('f \<Rightarrow> 'f \<Rightarrow> 'f) \<Rightarrow> 'f \<Rightarrow> nat \<Rightarrow> 'f Particles_SoA \<Rightarrow> 'f Particles_SoA ub" where
  "updatePositions_SoA add mul dt n p = do {
     x \<leftarrow> axis_loop add mul dt (vxs p) 0 n (xs p);
     y \<leftarrow> axis_loop add mul dt (vys p) 0 n (ys p);
     z \<leftarrow> axis_loop add mul dt (vzs p) 0 n (zs p);
     Some (p\<lparr>xs := x, ys := y, zs := z\<rparr>) }"

text \<open>The calls of a measurement, and the average of its two clock readings.\<close>

fun repeat_call :: "nat \<Rightarrow> ('s \<Rightarrow> 's ub) \<Rightarrow> 's \<Rightarrow> 's ub" where
  "repeat_call 0 fn s = Some s"
| "repeat_call (Suc k) fn s = do { s' \<leftarrow> fn s; repeat_call k fn s' }"

definition measureUs :: "rat \<Rightarrow> rat \<Rightarrow> nat \<Rightarrow> ('s \<Rightarrow> 's ub) \<Rightarrow> 's \<Rightarrow> (rat \<times> 's) ub" where
  "measureUs start_us end_us iterations fn s = do {
     s' \<leftarrow> repeat_call iterations fn s;
     Some ((end_us - start_us) / of_nat iterations, s') }"

definition count_error :: "int \<Rightarrow> int \<Rightarrow> int ub" where
  "count_error v error_count = (if v < 0 then chk (error_count + 1) else Some error_count)"

fun count_errors :: "int list \<Rightarrow> int \<Rightarrow> int ub" where
  "count_errors [] c = Some c"
| "count_errors (v # vs) c = do { c' \<leftarrow> count_error v c; count_errors vs c' }"

text \<open>The particles that the random numbers fill, six draws each; the arrays draw on.\<close>

definition random_particle :: "(nat \<Rightarrow> 'f) \<Rightarrow> 'f \<Rightarrow> nat \<Rightarrow> 'f Particle_AoS" where
  "random_particle rnd zero i = \<lparr>ax = rnd (6 * i), ay = rnd (6 * i + 1), az = rnd (6 * i + 2),
     avx = rnd (6 * i + 3), avy = rnd (6 * i + 4), avz = rnd (6 * i + 5), amass = zero, apadding = zero\<rparr>"

definition random_SoA :: "(nat \<Rightarrow> 'f) \<Rightarrow> nat \<Rightarrow> 'f Particles_SoA \<Rightarrow> 'f Particles_SoA" where
  "random_SoA rnd n p = p\<lparr>xs := map (\<lambda>i. rnd (6 * i)) [0..<n], ys := map (\<lambda>i. rnd (6 * i + 1)) [0..<n],
     zs := map (\<lambda>i. rnd (6 * i + 2)) [0..<n], vxs := map (\<lambda>i. rnd (6 * i + 3)) [0..<n],
     vys := map (\<lambda>i. rnd (6 * i + 4)) [0..<n], vzs := map (\<lambda>i. rnd (6 * i + 5)) [0..<n]\<rparr>"

text \<open>
  main with the float of an int, the arithmetic, the time step 0.016f, the draws and the readings of the clock:
  the dot product, the three times, the particles after the measurements and the errors counted.
\<close>

definition elements :: nat where
  "elements = 100000"

definition simd_main :: "(int \<Rightarrow> 'f) \<Rightarrow> ('f \<Rightarrow> 'f \<Rightarrow> 'f) \<Rightarrow> ('f \<Rightarrow> 'f \<Rightarrow> 'f) \<Rightarrow> 'f \<Rightarrow> (nat \<Rightarrow> 'f) \<Rightarrow> (nat \<Rightarrow> rat) \<Rightarrow>
    ('f \<times> rat \<times> rat \<times> rat \<times> 'f Particle_AoS list \<times> 'f Particles_SoA \<times> int) ub" where
  "simd_main fl add mul dt rnd clock = do {
     let a = replicate elements (fl 1);
     let b = replicate elements (fl 2);
     r \<leftarrow> dotProduct add mul (fl 0) a b elements;
     (dot_time, u) \<leftarrow> measureUs (clock 0) (clock 1) 100 (\<lambda>u. map_option (\<lambda>_. u) (dotProduct add mul (fl 0) a b elements)) ();
     let aos = map (random_particle rnd (fl 0)) [0..<elements];
     let soa = random_SoA (\<lambda>k. rnd (6 * elements + k)) elements (new_SoA (fl 0) elements);
     (aos_time, aos) \<leftarrow> measureUs (clock 2) (clock 3) 100 (\<lambda>ps. Some (updatePositions_AoS add mul dt ps)) aos;
     (soa_time, soa) \<leftarrow> measureUs (clock 4) (clock 5) 100 (updatePositions_SoA add mul dt elements) soa;
     errors \<leftarrow> count_errors [0..999] 0;
     Some (r, dot_time, aos_time, soa_time, aos, soa, errors) }"

section \<open>The layouts hold the same particles\<close>

definition to_SoA :: "'f Particle_AoS list \<Rightarrow> 'f Particles_SoA" where
  "to_SoA ps = \<lparr>xs = map ax ps, ys = map ay ps, zs = map az ps, vxs = map avx ps, vys = map avy ps, vzs = map avz ps,
     masses = map amass ps\<rparr>"

definition axis_update :: "('f \<Rightarrow> 'f \<Rightarrow> 'f) \<Rightarrow> ('f \<Rightarrow> 'f \<Rightarrow> 'f) \<Rightarrow> 'f \<Rightarrow> 'f list \<Rightarrow> 'f list \<Rightarrow> 'f list" where
  "axis_update add mul dt ps vs = map2 (\<lambda>p v. add p (mul v dt)) ps vs"

lemma axis_loop_eq:
  "length ps = length vs \<Longrightarrow> i + n = length ps \<Longrightarrow>
   axis_loop add mul dt vs i n ps = Some (take i ps @ axis_update add mul dt (drop i ps) (drop i vs))"
proof (induction n arbitrary: i ps)
  case 0
  then show ?case by (simp add: axis_update_def)
next
  case (Suc n)
  let ?q = "ps[i := add (ps ! i) (mul (vs ! i) dt)]"
  have i: "i < length ps" "i < length vs" using Suc.prems by auto
  have "drop i ps = ps ! i # drop (Suc i) ps" "drop i vs = vs ! i # drop (Suc i) vs"
    using i by (simp_all add: Cons_nth_drop_Suc)
  moreover have "take (Suc i) ?q = take i ps @ [add (ps ! i) (mul (vs ! i) dt)]" "drop (Suc i) ?q = drop (Suc i) ps"
    using i by (simp_all add: take_Suc_conv_app_nth)
  ultimately show ?case using Suc.IH [of ?q "Suc i"] Suc.prems i by (simp add: axis_update_def)
qed

lemma updatePositions_SoA_eq:
  assumes "length (xs p) = n" "length (vxs p) = n" "length (ys p) = n" "length (vys p) = n" "length (zs p) = n" "length (vzs p) = n"
  shows "updatePositions_SoA add mul dt n p = Some (p\<lparr>xs := axis_update add mul dt (xs p) (vxs p),
    ys := axis_update add mul dt (ys p) (vys p), zs := axis_update add mul dt (zs p) (vzs p)\<rparr>)"
  using assms by (simp add: updatePositions_SoA_def axis_loop_eq)

lemma axis_update_map: "axis_update add mul dt (map f ps) (map g ps) = map (\<lambda>p. add (f p) (mul (g p) dt)) ps"
  by (induction ps) (simp_all add: axis_update_def)

text \<open>
  Claim: the two layouts are interchangeable: updating the struct of arrays is in range and gives, for any
  arithmetic of float, the arrays of the updated array of structs; so do any number of updates.
\<close>
theorem layouts_agree:
  "repeat_call k (updatePositions_SoA add mul dt (length ps)) (to_SoA ps) =
   map_option to_SoA (repeat_call k (\<lambda>qs. Some (updatePositions_AoS add mul dt qs)) ps)"
proof (induction k arbitrary: ps)
  case (Suc k)
  have "updatePositions_SoA add mul dt (length ps) (to_SoA ps) = Some (to_SoA (updatePositions_AoS add mul dt ps))"
    by (subst updatePositions_SoA_eq)
       (simp_all add: to_SoA_def axis_update_map updatePositions_AoS_def move_particle_def comp_def)
  moreover have "length (updatePositions_AoS add mul dt ps) = length ps" by (simp add: updatePositions_AoS_def)
  ultimately show ?case using Suc.IH [of "updatePositions_AoS add mul dt ps"] by simp
qed simp

lemma dot_loop_eq:
  "i + n \<le> length a \<Longrightarrow> i + n \<le> length b \<Longrightarrow>
   dot_loop add mul a b i n s = Some (foldl (\<lambda>s j. add s (mul (a ! j) (b ! j))) s [i..<i + n])"
proof (induction n arbitrary: i s)
  case (Suc n)
  have "[i..<i + Suc n] = i # [Suc i..<Suc i + n]" by (simp add: upt_conv_Cons)
  then show ?case using Suc.IH [of "Suc i"] Suc.prems by simp
qed simp

text \<open>Sums of whole numbers are exact as long as a float can tell them apart.\<close>

lemma dot_constants:
  assumes "\<And>i j. 0 \<le> i \<Longrightarrow> 0 \<le> j \<Longrightarrow> i + j \<le> 16777216 \<Longrightarrow> add (fl i) (fl j) = fl (i + j)" and "mul (fl 1) (fl 2) = fl 2"
    and "2 * int n \<le> 16777216"
  shows "dotProduct add mul (fl 0) (replicate n (fl 1)) (replicate n (fl 2)) n = Some (fl (2 * int n))"
proof -
  have "foldl (\<lambda>s j. add s (mul (replicate n (fl 1) ! j) (replicate n (fl 2) ! j))) (fl 0) [0..<k] = fl (2 * int k)" if "k \<le> n" for k
    using that
  proof (induction k)
    case (Suc k)
    have "add (fl (2 * int k)) (fl 2) = fl (2 * int k + 2)" using assms(3) Suc.prems by (intro assms(1)) auto
    then show ?case using Suc assms(2) by (simp add: algebra_simps)
  qed simp
  from this [of n] show ?thesis by (simp add: dotProduct_def dot_loop_eq)
qed

lemma count_errors_none: "\<forall>v \<in> set vs. 0 \<le> v \<Longrightarrow> count_errors vs c = Some c"
  by (induction vs) (auto simp: count_error_def)

lemma repeat_same: "fn s = Some s \<Longrightarrow> repeat_call k fn s = Some s"
  by (induction k) simp_all

lemma repeat_SoA_returns:
  "length (xs p) = n \<Longrightarrow> length (vxs p) = n \<Longrightarrow> length (ys p) = n \<Longrightarrow> length (vys p) = n \<Longrightarrow> length (zs p) = n \<Longrightarrow>
   length (vzs p) = n \<Longrightarrow> repeat_call k (updatePositions_SoA add mul dt n) p \<noteq> None"
proof (induction k arbitrary: p)
  case (Suc k)
  then show ?case by (simp add: updatePositions_SoA_eq axis_update_def)
qed simp

lemma repeat_total: "repeat_call k (\<lambda>s. Some (f s)) s = Some ((f ^^ k) s)"
  by (induction k arbitrary: s) (simp_all add: funpow_swap1)

text \<open>
  Claim: main stays in range and counts no errors, its array of structs has been updated a hundred times, and, if
  sums of whole numbers up to 2^24 are exact, its dot product is 200000.
\<close>
theorem simd_main_result:
  assumes "\<And>i j. 0 \<le> i \<Longrightarrow> 0 \<le> j \<Longrightarrow> i + j \<le> 16777216 \<Longrightarrow> add (fl i) (fl j) = fl (i + j)" and "mul (fl 1) (fl 2) = fl 2"
  shows "\<exists>soa. simd_main fl add mul dt rnd clock =
    Some (fl 200000, (clock 1 - clock 0) / 100, (clock 3 - clock 2) / 100, (clock 5 - clock 4) / 100,
      (updatePositions_AoS add mul dt ^^ 100) (map (random_particle rnd (fl 0)) [0..<elements]), soa, 0)"
proof -
  let ?soa = "random_SoA (\<lambda>k. rnd (6 * elements + k)) elements (new_SoA (fl 0) elements)"
  obtain soa where soa: "repeat_call 100 (updatePositions_SoA add mul dt elements) ?soa = Some soa"
    using repeat_SoA_returns [of ?soa elements 100 add mul dt] by (auto simp: random_SoA_def)
  have e: "count_errors [0..999] 0 = Some 0" by (rule count_errors_none) simp
  have n: "int elements = 100000" by (simp add: elements_def)
  have c: "dotProduct add mul (fl 0) (replicate elements (fl 1)) (replicate elements (fl 2)) elements = Some (fl 200000)"
    using dot_constants [of add fl mul elements, OF assms] n by simp
  have d: "repeat_call 100 Some () = Some ()" by (rule repeat_same) simp
  show ?thesis
    unfolding simd_main_def measureUs_def repeat_total Let_def c soa e
    by (simp add: d)
qed

theorem simd_main_result_witness:
  "\<exists>soa. simd_main rat_of_int (+) (*) (2 / 125) (\<lambda>k. of_nat k) (\<lambda>k. of_nat (100 * k)) =
    Some (200000, 1, 1, 1, (updatePositions_AoS (+) (*) (2 / 125) ^^ 100) (map (random_particle (\<lambda>k. of_nat k) 0) [0..<elements]), soa, 0)"
  using simd_main_result [of "(+)" rat_of_int "(*)" "2 / 125" "\<lambda>k. of_nat k" "\<lambda>k. of_nat (100 * k)"] by simp

end
