(* ===== verification/Erased_Shapes.thy ===== *)
theory Erased_Shapes
  imports Software_Design
begin

text \<open>
  External polymorphism and the two ways to own a type-erased shape, in src/src/patterns/software_design:
  external_polymorphism.cpp adapts types without a common base to a concept, type_erasure.cpp keeps the model on
  the heap behind a unique_ptr, small_buffer_optimization.cpp inside the object, where an assignment swaps
  the bytes of two buffers. The locale says what a value-like shape promises; the heap version keeps
  it for every model, the buffer version for the models that do not point into themselves. None is the use
  of an object that is not there, of a moved-from one, or of an object whose pointer into itself dangles.
\<close>

section \<open>What a value-like shape promises\<close>

type_synonym drawing = "design_shape \<times> draw_strategy"

locale value_like =
  fixes inv :: "'s \<Rightarrow> bool"
    and alive :: "'s \<Rightarrow> nat \<Rightarrow> bool"
    and shows_as :: "'s \<Rightarrow> nat \<Rightarrow> drawing option"
    and copy_to :: "nat \<Rightarrow> nat \<Rightarrow> 's \<Rightarrow> 's ub"
    and assign :: "nat \<Rightarrow> nat \<Rightarrow> 's \<Rightarrow> 's ub"
  assumes copy_law: "inv s \<Longrightarrow> \<not> alive s x \<Longrightarrow> shows_as s y = Some m \<Longrightarrow>
      \<exists>s'. copy_to x y s = Some s' \<and> inv s' \<and> shows_as s' = (shows_as s)(x \<mapsto> m) \<and> alive s' = (alive s)(x := True)"
    and assign_law: "inv s \<Longrightarrow> alive s x \<Longrightarrow> shows_as s y = Some m \<Longrightarrow>
      \<exists>s'. assign x y s = Some s' \<and> inv s' \<and> shows_as s' = (shows_as s)(x \<mapsto> m) \<and> alive s' = alive s"
    and shows_alive: "shows_as s y = Some m \<Longrightarrow> alive s y"
begin

text \<open>A collection copied element by element: the pairs of a fresh variable and what it is a copy of.\<close>

fun copy_pairs :: "(nat \<times> nat) list \<Rightarrow> 's \<Rightarrow> 's ub" where
  "copy_pairs [] s = Some s"
| "copy_pairs ((x, y) # ps) s = do { s' \<leftarrow> copy_to x y s; copy_pairs ps s' }"

lemma copied_collection:
  assumes "inv s" and "\<forall>p \<in> set ps. \<not> alive s (fst p) \<and> shows_as s (snd p) \<noteq> None" and "distinct (map fst ps)"
  shows "\<exists>s'. copy_pairs ps s = Some s' \<and> inv s' \<and> (\<forall>p \<in> set ps. shows_as s' (fst p) = shows_as s (snd p)) \<and>
    (\<forall>z. z \<notin> set (map fst ps) \<longrightarrow> shows_as s' z = shows_as s z)"
  using assms
proof (induction ps arbitrary: s)
  case (Cons p ps)
  obtain x y where p: "p = (x, y)" by (cases p)
  obtain m where m: "shows_as s y = Some m" using Cons.prems(2) p by auto
  obtain s1 where s1: "copy_to x y s = Some s1" "inv s1" "shows_as s1 = (shows_as s)(x \<mapsto> m)" "alive s1 = (alive s)(x := True)"
    using copy_law [OF Cons.prems(1) _ m, of x] Cons.prems(2) p by auto
  have src: "snd q \<noteq> x" if "q \<in> set ps" for q
    using Cons.prems(2) that p shows_alive by fastforce
  have dst: "fst q \<noteq> x" if "q \<in> set ps" for q using Cons.prems(3) that p by force
  have "\<forall>q \<in> set ps. \<not> alive s1 (fst q) \<and> shows_as s1 (snd q) \<noteq> None"
    using Cons.prems(2) s1(3,4) src dst by auto
  then obtain s2 where s2: "copy_pairs ps s1 = Some s2" "inv s2" "\<forall>q \<in> set ps. shows_as s2 (fst q) = shows_as s1 (snd q)"
      "\<forall>z. z \<notin> set (map fst ps) \<longrightarrow> shows_as s2 z = shows_as s1 z"
    using Cons.IH [OF s1(2)] Cons.prems(3) by auto
  have "x \<notin> set (map fst ps)" using Cons.prems(3) p by simp
  then show ?case using s1 s2 p m src by auto
qed simp

text \<open>A copy is independent: what is assigned to its source afterwards does not reach it.\<close>

lemma copy_independent:
  assumes "inv s" and "\<not> alive s x" and "shows_as s y = Some m" and "shows_as s z = Some k"
  shows "\<exists>s1 s2. copy_to x y s = Some s1 \<and> assign y z s1 = Some s2 \<and> shows_as s2 x = Some m \<and> shows_as s2 y = Some k"
proof -
  have "alive s y" "alive s z" using shows_alive assms(3,4) by blast+
  then have n: "x \<noteq> y" "x \<noteq> z" using assms(2) by auto
  obtain s1 where s1: "copy_to x y s = Some s1" "inv s1" "shows_as s1 = (shows_as s)(x \<mapsto> m)" "alive s1 = (alive s)(x := True)"
    using copy_law [OF assms(1,2,3)] by blast
  have z: "shows_as s1 z = Some k" "alive s1 y" using s1(3,4) assms(4) \<open>alive s y\<close> n by auto
  obtain s2 where "assign y z s1 = Some s2" "shows_as s2 = (shows_as s1)(y \<mapsto> k)"
    using assign_law [OF s1(2) z(2,1)] by blast
  then show ?thesis using s1(1,3) n by auto
qed

end

section \<open>external_polymorphism.cpp\<close>

text \<open>Three types that share nothing.\<close>

record circle =
  radius :: rat

record square =
  side :: rat

record triangle =
  base :: rat
  height :: rat

text \<open>The concept is what is left of a model once its type is hidden: the two virtual functions.\<close>

record shape_concept =
  draw_op :: string
  area_op :: rat

record 'a shape_model =
  held :: 'a
  drawer :: "'a \<Rightarrow> string"
  area_calc :: "'a \<Rightarrow> rat"

definition as_concept :: "'a shape_model \<Rightarrow> shape_concept" where
  "as_concept m = \<lparr>draw_op = drawer m (held m), area_op = area_calc m (held m)\<rparr>"

definition make_model :: "'a \<Rightarrow> ('a \<Rightarrow> string) \<Rightarrow> ('a \<Rightarrow> rat) \<Rightarrow> shape_concept" where
  "make_model shape d f = as_concept \<lparr>held = shape, drawer = d, area_calc = f\<rparr>"

definition main_shapes :: "shape_concept list" where
  "main_shapes =
     [make_model \<lparr>radius = 5\<rparr> (\<lambda>c. ''Circle(r='' @ show_general (radius c) @ '')'')
        (\<lambda>c. (314159265 / 100000000) * radius c * radius c),
      make_model \<lparr>side = 4\<rparr> (\<lambda>s. ''Square(side='' @ show_general (side s) @ '')'') (\<lambda>s. side s * side s),
      make_model \<lparr>base = 6, height = 3\<rparr>
        (\<lambda>t. ''Triangle(base='' @ show_general (base t) @ '', h='' @ show_general (height t) @ '')'')
        (\<lambda>t. (1 / 2) * base t * height t)]"

definition external_polymorphism_main :: "string list ub" where
  "external_polymorphism_main = do {
     let shapes = main_shapes;
     _ \<leftarrow> guard (area_op (shapes ! 0) > 78 \<and> area_op (shapes ! 0) < 79);
     _ \<leftarrow> guard (area_op (shapes ! 1) = 16 \<and> area_op (shapes ! 2) = 9);
     Some (map (\<lambda>s. draw_op s @ '' | area = '' @ show_general (area_op s)) shapes) }"

lemma external_polymorphism_main_output:
  "external_polymorphism_main = Some [''Circle(r=5) | area = 78.5398'', ''Square(side=4) | area = 16'', ''Triangle(base=6, h=3) | area = 9'']"
  by code_simp

section \<open>type_erasure.cpp: models on the heap\<close>

record heap_shapes =
  pimpl :: "nat \<Rightarrow> nat option option"
  models :: "nat \<Rightarrow> drawing option"
  fresh :: nat

definition heap_construct :: "nat \<Rightarrow> drawing \<Rightarrow> heap_shapes \<Rightarrow> heap_shapes ub" where
  "heap_construct x m s = (if pimpl s x \<noteq> None then None else
     Some \<lparr>pimpl = (pimpl s)(x \<mapsto> Some (fresh s)), models = (models s)(fresh s \<mapsto> m), fresh = fresh s + 1\<rparr>)"

definition heap_model :: "heap_shapes \<Rightarrow> nat \<Rightarrow> drawing option" where
  "heap_model s x = do { p \<leftarrow> pimpl s x; a \<leftarrow> p; models s a }"

definition heap_draw :: "nat \<Rightarrow> heap_shapes \<Rightarrow> string ub" where
  "heap_draw x s = map_option (\<lambda>(sh, d). run_strategy d sh) (heap_model s x)"

definition heap_copy :: "nat \<Rightarrow> nat \<Rightarrow> heap_shapes \<Rightarrow> heap_shapes ub" where
  "heap_copy x y s = do { m \<leftarrow> heap_model s y; heap_construct x m s }"

text \<open>The unique_ptr's destructor.\<close>

definition free_model :: "nat option \<Rightarrow> heap_shapes \<Rightarrow> heap_shapes ub" where
  "free_model p s = (case p of None \<Rightarrow> Some s
     | Some a \<Rightarrow> if models s a = None then None else Some (s\<lparr>models := (models s)(a := None)\<rparr>))"

text \<open>A copy, the swap of the pointers, and the end of the copy, which owns the old model.\<close>

definition heap_assign :: "nat \<Rightarrow> nat \<Rightarrow> heap_shapes \<Rightarrow> heap_shapes ub" where
  "heap_assign x y s = do {
     m \<leftarrow> heap_model s y;
     old \<leftarrow> pimpl s x;
     free_model old \<lparr>pimpl = (pimpl s)(x \<mapsto> Some (fresh s)), models = (models s)(fresh s \<mapsto> m), fresh = fresh s + 1\<rparr> }"

definition heap_move :: "nat \<Rightarrow> nat \<Rightarrow> heap_shapes \<Rightarrow> heap_shapes ub" where
  "heap_move x y s = do {
     p \<leftarrow> pimpl s y;
     if pimpl s x \<noteq> None then None else Some (s\<lparr>pimpl := (pimpl s)(x \<mapsto> p, y \<mapsto> None)\<rparr>) }"

definition heap_move_assign :: "nat \<Rightarrow> nat \<Rightarrow> heap_shapes \<Rightarrow> heap_shapes ub" where
  "heap_move_assign x y s = do {
     p \<leftarrow> pimpl s y;
     old \<leftarrow> pimpl s x;
     if x = y then Some s else free_model old (s\<lparr>pimpl := (pimpl s)(x \<mapsto> p, y \<mapsto> None)\<rparr>) }"

definition heap_destroy :: "nat \<Rightarrow> heap_shapes \<Rightarrow> heap_shapes ub" where
  "heap_destroy x s = do { p \<leftarrow> pimpl s x; free_model p (s\<lparr>pimpl := (pimpl s)(x := None)\<rparr>) }"

text \<open>Every pointer has its own model, which exists.\<close>

definition heap_inv :: "heap_shapes \<Rightarrow> bool" where
  "heap_inv s \<longleftrightarrow> (\<forall>x a. pimpl s x = Some (Some a) \<longrightarrow> a < fresh s \<and> models s a \<noteq> None) \<and>
     (\<forall>x y a. pimpl s x = Some (Some a) \<longrightarrow> pimpl s y = Some (Some a) \<longrightarrow> x = y)"

definition heap_alive :: "heap_shapes \<Rightarrow> nat \<Rightarrow> bool" where
  "heap_alive s x \<longleftrightarrow> pimpl s x \<noteq> None"

text \<open>What the heap shows is a shape of the value model, and drawing it draws that.\<close>

lemma heap_draw_refines: "heap_draw x s = draw (heap_model s x)"
  by (auto simp: heap_draw_def draw_def map_option_case split: option.splits)

lemma heap_owned: "heap_inv s \<Longrightarrow> pimpl s x = Some (Some a) \<Longrightarrow> a < fresh s \<and> models s a \<noteq> None"
  by (simp add: heap_inv_def)

lemma heap_unique: "heap_inv s \<Longrightarrow> pimpl s x = Some (Some a) \<Longrightarrow> pimpl s y = Some (Some a) \<Longrightarrow> x = y"
  by (simp add: heap_inv_def)

lemma heap_model_eq: "heap_model s x = (case pimpl s x of Some (Some a) \<Rightarrow> models s a | _ \<Rightarrow> None)"
  by (auto simp: heap_model_def split: option.splits bind_splits)

text \<open>A new model for a variable, whatever becomes of its old one.\<close>

lemma heap_new_model:
  assumes "heap_inv s"
    and "\<And>a. models s' a = (if a = fresh s then Some m else if pimpl s x = Some (Some a) then None else models s a)"
    and "pimpl s' = (pimpl s)(x \<mapsto> Some (fresh s))" and "fresh s' = fresh s + 1"
  shows "heap_inv s' \<and> heap_model s' = (heap_model s)(x \<mapsto> m)"
proof
  have old: "pimpl s z = Some (Some a) \<Longrightarrow> z \<noteq> x \<Longrightarrow> pimpl s x \<noteq> Some (Some a) \<and> a \<noteq> fresh s \<and> a < fresh s \<and> models s a \<noteq> None" for z a
    using heap_owned [OF assms(1), of z a] heap_unique [OF assms(1), of z a x] by auto
  show "heap_inv s'"
    unfolding heap_inv_def
  proof (intro conjI allI impI)
    fix z a assume "pimpl s' z = Some (Some a)"
    then show "a < fresh s'" "models s' a \<noteq> None" using old [of z a] assms(2-4) by (auto split: if_splits)
  next
    fix z w a assume "pimpl s' z = Some (Some a)" "pimpl s' w = Some (Some a)"
    then show "z = w" using old [of z a] old [of w a] heap_unique [OF assms(1), of z a w] assms(3) by (auto split: if_splits)
  qed
  show "heap_model s' = (heap_model s)(x \<mapsto> m)"
  proof
    fix z
    show "heap_model s' z = ((heap_model s)(x \<mapsto> m)) z"
    proof (cases "z = x")
      case True
      then show ?thesis using assms(2,3) by (simp add: heap_model_eq)
    next
      case False
      then show ?thesis using old [of z] assms(2,3) by (auto simp: heap_model_eq split: option.splits)
    qed
  qed
qed

interpretation heap: value_like heap_inv heap_alive heap_model heap_copy heap_assign
proof
  fix s x y m
  assume s: "heap_inv s" "\<not> heap_alive s x" "heap_model s y = Some m"
  let ?s = "\<lparr>pimpl = (pimpl s)(x \<mapsto> Some (fresh s)), models = (models s)(fresh s \<mapsto> m), fresh = fresh s + 1\<rparr>"
  have "heap_copy x y s = Some ?s" using s by (simp add: heap_copy_def heap_construct_def heap_alive_def)
  moreover have "heap_inv ?s \<and> heap_model ?s = (heap_model s)(x \<mapsto> m)"
    by (rule heap_new_model [OF s(1)]) (use s(2) in \<open>auto simp: heap_alive_def\<close>)
  ultimately show "\<exists>s'. heap_copy x y s = Some s' \<and> heap_inv s' \<and> heap_model s' = (heap_model s)(x \<mapsto> m) \<and>
      heap_alive s' = (heap_alive s)(x := True)"
    by (auto simp: heap_alive_def fun_eq_iff)
next
  fix s x y m
  assume s: "heap_inv s" "heap_alive s x" "heap_model s y = Some m"
  then obtain p where p: "pimpl s x = Some p" by (auto simp: heap_alive_def)
  let ?t = "\<lparr>pimpl = (pimpl s)(x \<mapsto> Some (fresh s)), models = (models s)(fresh s \<mapsto> m), fresh = fresh s + 1\<rparr>"
  obtain s' where f: "free_model p ?t = Some s'" "pimpl s' = pimpl ?t" "fresh s' = fresh ?t"
      "\<And>a. models s' a = (if p = Some a then None else models ?t a)"
    using heap_owned [OF s(1), of x] p by (cases p) (auto simp: free_model_def)
  have "heap_assign x y s = Some s'" using s(3) p f(1) by (simp add: heap_assign_def)
  moreover have "heap_inv s' \<and> heap_model s' = (heap_model s)(x \<mapsto> m)"
    by (rule heap_new_model [OF s(1)]) (use heap_owned [OF s(1), of x] p f in auto)
  ultimately show "\<exists>s'. heap_assign x y s = Some s' \<and> heap_inv s' \<and> heap_model s' = (heap_model s)(x \<mapsto> m) \<and> heap_alive s' = heap_alive s"
    using f(2) p by (auto simp: heap_alive_def fun_eq_iff)
next
  fix s y m assume "heap_model s y = Some m"
  then show "heap_alive s y" by (auto simp: heap_model_eq heap_alive_def split: option.splits)
qed

section \<open>small_buffer_optimization.cpp: models inside the object\<close>

text \<open>The buffers: those of the variables, and that of the temporary of an assignment.\<close>

datatype buffer_place = Var nat | Temp

text \<open>A model with the address it holds into itself, if its type has one, and its size.\<close>

record sbo_model =
  sdrawing :: drawing
  self :: "buffer_place option"
  msize :: nat

type_synonym shape_buffers = "buffer_place \<Rightarrow> sbo_model option"

text \<open>An object is intact when it points nowhere or into itself.\<close>

definition intact :: "buffer_place \<Rightarrow> sbo_model \<Rightarrow> bool" where
  "intact p m \<longleftrightarrow> self m = None \<or> self m = Some p"

text \<open>The constructor sets the pointer into itself; a model beyond the capacity does not compile.\<close>

definition construct_at :: "buffer_place \<Rightarrow> sbo_model \<Rightarrow> shape_buffers \<Rightarrow> shape_buffers ub" where
  "construct_at p m b = (if b p \<noteq> None \<or> msize m > 64 then None
     else Some (b(p \<mapsto> m\<lparr>self := map_option (\<lambda>_. p) (self m)\<rparr>)))"

definition get_model :: "buffer_place \<Rightarrow> shape_buffers \<Rightarrow> sbo_model ub" where
  "get_model p b = do { m \<leftarrow> b p; if intact p m then Some m else None }"

definition clone_at :: "buffer_place \<Rightarrow> buffer_place \<Rightarrow> shape_buffers \<Rightarrow> shape_buffers ub" where
  "clone_at p q b = do { m \<leftarrow> get_model q b; construct_at p m b }"

text \<open>Moving constructs like copying; what is left in these shapes draws as before.\<close>

definition move_at :: "buffer_place \<Rightarrow> buffer_place \<Rightarrow> shape_buffers \<Rightarrow> shape_buffers ub" where
  "move_at p q b = do { m \<leftarrow> get_model q b; construct_at p m b }"

definition destroy_at :: "buffer_place \<Rightarrow> shape_buffers \<Rightarrow> shape_buffers ub" where
  "destroy_at p b = do { m \<leftarrow> get_model p b; Some (b(p := None)) }"

text \<open>
  buffer_.swap exchanges the bytes. The standard does not say that the bytes of a polymorphic object are an object where
  they are copied to; moves tells for which models an implementation makes them one.
\<close>

definition swap_bytes :: "(sbo_model \<Rightarrow> bool) \<Rightarrow> buffer_place \<Rightarrow> buffer_place \<Rightarrow> shape_buffers \<Rightarrow> shape_buffers ub" where
  "swap_bytes moves p q b =
     (if pred_option moves (b p) \<and> pred_option moves (b q) then Some (b(p := b q, q := b p)) else None)"

definition sbo_copy :: "nat \<Rightarrow> nat \<Rightarrow> shape_buffers \<Rightarrow> shape_buffers ub" where
  "sbo_copy x y b = clone_at (Var x) (Var y) b"

definition sbo_assign :: "(sbo_model \<Rightarrow> bool) \<Rightarrow> nat \<Rightarrow> nat \<Rightarrow> shape_buffers \<Rightarrow> shape_buffers ub" where
  "sbo_assign moves x y b = do { b1 \<leftarrow> clone_at Temp (Var y) b; b2 \<leftarrow> swap_bytes moves (Var x) Temp b1; destroy_at Temp b2 }"

definition sbo_move_assign :: "(sbo_model \<Rightarrow> bool) \<Rightarrow> nat \<Rightarrow> nat \<Rightarrow> shape_buffers \<Rightarrow> shape_buffers ub" where
  "sbo_move_assign moves x y b = do { b1 \<leftarrow> move_at Temp (Var y) b; b2 \<leftarrow> swap_bytes moves (Var x) Temp b1; destroy_at Temp b2 }"

definition sbo_draw :: "nat \<Rightarrow> shape_buffers \<Rightarrow> string ub" where
  "sbo_draw x b = map_option (\<lambda>m. run_strategy (snd (sdrawing m)) (fst (sdrawing m))) (get_model (Var x) b)"

definition sbo_main :: "string list ub" where
  "sbo_main = do {
     b \<leftarrow> construct_at (Var 1) \<lparr>sdrawing = (Circle (5 / 2), Short_text), self = None, msize = 24\<rparr> Map.empty;
     b \<leftarrow> construct_at (Var 2) \<lparr>sdrawing = (Square 4, Short_text), self = None, msize = 24\<rparr> b;
     l1 \<leftarrow> sbo_draw 1 b;
     l2 \<leftarrow> sbo_draw 2 b;
     b \<leftarrow> sbo_copy 3 1 b;
     l3 \<leftarrow> sbo_draw 3 b;
     _ \<leftarrow> guard (l3 = ''Circle(r=2.5)'');
     b \<leftarrow> move_at (Var 4) (Var 2) b;
     l4 \<leftarrow> sbo_draw 4 b;
     _ \<leftarrow> guard (l4 = ''Square(side=4)'');
     Some [l1, l2] }"

lemma sbo_main_output: "sbo_main = Some [''Circle(r=2.5)'', ''Square(side=4)'']"
  by code_simp

text \<open>Between the operations the temporary is gone, and every object is intact and fits.\<close>

definition sbo_inv :: "shape_buffers \<Rightarrow> bool" where
  "sbo_inv b \<longleftrightarrow> b Temp = None \<and> (\<forall>p m. b p = Some m \<longrightarrow> intact p m \<and> msize m \<le> 64)"

definition plain_inv :: "(sbo_model \<Rightarrow> bool) \<Rightarrow> shape_buffers \<Rightarrow> bool" where
  "plain_inv moves b \<longleftrightarrow> b Temp = None \<and> (\<forall>p m. b p = Some m \<longrightarrow> moves m \<and> self m = None \<and> msize m \<le> 64)"

definition sbo_alive :: "shape_buffers \<Rightarrow> nat \<Rightarrow> bool" where
  "sbo_alive b x \<longleftrightarrow> b (Var x) \<noteq> None"

definition sbo_drawing :: "shape_buffers \<Rightarrow> nat \<Rightarrow> drawing option" where
  "sbo_drawing b x = map_option sdrawing (b (Var x))"

lemma no_self: "self m = None \<Longrightarrow> m\<lparr>self := None\<rparr> = m"
  by (cases m) simp

lemma plain_model: "plain_inv moves b \<Longrightarrow> sbo_drawing b y = Some d \<Longrightarrow>
    \<exists>m. b (Var y) = Some m \<and> get_model (Var y) b = Some m \<and> sdrawing m = d \<and> moves m \<and> self m = None \<and> msize m \<le> 64"
  by (auto simp: plain_inv_def sbo_drawing_def get_model_def intact_def)

interpretation buffer: value_like "plain_inv moves" sbo_alive sbo_drawing sbo_copy "sbo_assign moves" for moves
proof
  fix b x y d
  assume b: "plain_inv moves b" "\<not> sbo_alive b x" "sbo_drawing b y = Some d"
  obtain m where m: "get_model (Var y) b = Some m" "sdrawing m = d" "moves m" "self m = None" "msize m \<le> 64"
    using plain_model [OF b(1,3)] by blast
  then have "sbo_copy x y b = Some (b(Var x \<mapsto> m))"
    using b(2) by (simp add: sbo_copy_def clone_at_def construct_at_def sbo_alive_def no_self)
  moreover have "plain_inv moves (b(Var x \<mapsto> m)) \<and> sbo_drawing (b(Var x \<mapsto> m)) = (sbo_drawing b)(x \<mapsto> d) \<and>
      sbo_alive (b(Var x \<mapsto> m)) = (sbo_alive b)(x := True)"
    using b(1) m by (auto simp: plain_inv_def sbo_drawing_def sbo_alive_def fun_eq_iff)
  ultimately show "\<exists>b'. sbo_copy x y b = Some b' \<and> plain_inv moves b' \<and> sbo_drawing b' = (sbo_drawing b)(x \<mapsto> d) \<and> sbo_alive b' = (sbo_alive b)(x := True)"
    by blast
next
  fix b x y d
  assume b: "plain_inv moves b" "sbo_alive b x" "sbo_drawing b y = Some d"
  obtain m where m: "get_model (Var y) b = Some m" "sdrawing m = d" "moves m" "self m = None" "msize m \<le> 64"
    using plain_model [OF b(1,3)] by blast
  obtain k where k: "b (Var x) = Some k" "moves k" "self k = None" using b(1,2) by (auto simp: sbo_alive_def plain_inv_def)
  have t: "b Temp = None" using b(1) by (simp add: plain_inv_def)
  have "sbo_assign moves x y b = Some (b(Var x \<mapsto> m))"
    using m k t by (auto simp: sbo_assign_def clone_at_def construct_at_def destroy_at_def get_model_def swap_bytes_def intact_def
        no_self fun_upd_twist fun_eq_iff split: bind_splits if_splits)
  moreover have "plain_inv moves (b(Var x \<mapsto> m)) \<and> sbo_drawing (b(Var x \<mapsto> m)) = (sbo_drawing b)(x \<mapsto> d) \<and>
      sbo_alive (b(Var x \<mapsto> m)) = sbo_alive b"
    using b(1) m k by (auto simp: plain_inv_def sbo_drawing_def sbo_alive_def fun_eq_iff)
  ultimately show "\<exists>b'. sbo_assign moves x y b = Some b' \<and> plain_inv moves b' \<and> sbo_drawing b' = (sbo_drawing b)(x \<mapsto> d) \<and> sbo_alive b' = sbo_alive b"
    by blast
next
  fix b y d assume "sbo_drawing b y = Some d"
  then show "sbo_alive b y" by (auto simp: sbo_drawing_def sbo_alive_def)
qed

text \<open>
  C39: copies of type-erased shapes are independent values: after copying a shape and assigning to the original, the
  copy still shows what the original showed, and the original shows what it was assigned. This holds on the
  heap always, and in the buffer when none of the models has a pointer into itself and the implementation lets
  their bytes be moved.
\<close>
theorem erased_copies_independent:
  assumes "heap_inv s" "\<not> heap_alive s x" "heap_model s y = Some m" "heap_model s z = Some k"
    and "plain_inv moves b" "\<not> sbo_alive b x" "sbo_drawing b y = Some m" "sbo_drawing b z = Some k"
  shows "(\<exists>s1 s2. heap_copy x y s = Some s1 \<and> heap_assign y z s1 = Some s2 \<and> heap_model s2 x = Some m \<and> heap_model s2 y = Some k) \<and>
    (\<exists>b1 b2. sbo_copy x y b = Some b1 \<and> sbo_assign moves y z b1 = Some b2 \<and> sbo_drawing b2 x = Some m \<and> sbo_drawing b2 y = Some k)"
  using heap.copy_independent [OF assms(1-4)] buffer.copy_independent [OF assms(5-8)] by blast

theorem erased_copies_independent_witness:
  "(\<exists>s1 s2. heap_copy 3 1 \<lparr>pimpl = Map.empty(1 \<mapsto> Some 0, 2 \<mapsto> Some 1), models = Map.empty(0 \<mapsto> (Circle 1, Short_text),
        1 \<mapsto> (Square 4, Short_text)), fresh = 2\<rparr> = Some s1 \<and>
      heap_assign 1 2 s1 = Some s2 \<and> heap_model s2 3 = Some (Circle 1, Short_text) \<and> heap_model s2 1 = Some (Square 4, Short_text)) \<and>
   (\<exists>b1 b2. sbo_copy 3 1 (Map.empty(Var 1 \<mapsto> \<lparr>sdrawing = (Circle 1, Short_text), self = None, msize = 24\<rparr>,
        Var 2 \<mapsto> \<lparr>sdrawing = (Square 4, Short_text), self = None, msize = 24\<rparr>)) = Some b1 \<and>
      sbo_assign (\<lambda>m. self m = None) 1 2 b1 = Some b2 \<and> sbo_drawing b2 3 = Some (Circle 1, Short_text) \<and> sbo_drawing b2 1 = Some (Square 4, Short_text))"
  by (rule erased_copies_independent)
     (auto simp: heap_inv_def heap_alive_def heap_model_eq plain_inv_def sbo_alive_def sbo_drawing_def split: if_splits)

text \<open>
  Claim: the assignment of the buffer version is right exactly for models that do not point into themselves and whose bytes the
  implementation lets be moved: with a pointer, the swap of the bytes leaves one to the other buffer behind, and
  destroying the temporary or drawing the assigned shape is undefined.
\<close>
theorem sbo_assignment_moves_bytes:
  assumes "sbo_inv b" and "b (Var x) = Some k" and "b (Var y) = Some m"
  shows "(do { b' \<leftarrow> sbo_assign moves x y b; sbo_draw x b' }) =
    (if moves k \<and> self k = None \<and> moves m \<and> self m = None
     then Some (run_strategy (snd (sdrawing m)) (fst (sdrawing m))) else None)"
proof -
  have g: "get_model (Var y) b = Some m" "msize m \<le> 64" "b Temp = None" "intact (Var x) k" "intact (Var y) m"
    using assms by (auto simp: sbo_inv_def get_model_def)
  let ?m = "m\<lparr>self := map_option (\<lambda>_. Temp) (self m)\<rparr>"
  have c: "clone_at Temp (Var y) b = Some (b(Temp \<mapsto> ?m))" using g by (simp add: clone_at_def construct_at_def)
  have s: "swap_bytes moves (Var x) Temp (b(Temp \<mapsto> ?m)) =
      (if moves k \<and> moves ?m then Some (b(Var x \<mapsto> ?m, Temp \<mapsto> k)) else None)"
    using assms(2) by (auto simp: swap_bytes_def)
  have i: "intact Temp k \<longleftrightarrow> self k = None" using g(4) by (auto simp: intact_def)
  have m: "self m = None \<Longrightarrow> ?m = m" by (simp add: no_self)
  show ?thesis
  proof (cases "moves k \<and> self k = None \<and> moves ?m")
    case True
    then have "sbo_assign moves x y b = Some ((b(Var x \<mapsto> ?m, Temp \<mapsto> k))(Temp := None))"
      using c s i by (simp add: sbo_assign_def destroy_at_def get_model_def)
    then show ?thesis using True m by (cases "self m") (simp_all add: sbo_draw_def get_model_def intact_def no_self)
  next
    case False
    then have "sbo_assign moves x y b = None" using c s i by (auto simp: sbo_assign_def destroy_at_def get_model_def)
    then show ?thesis using False by (cases "self m") (simp_all add: no_self)
  qed
qed

theorem sbo_assignment_moves_bytes_witness:
  "(do { b' \<leftarrow> sbo_assign (\<lambda>_. True) 1 2 (Map.empty(Var 1 \<mapsto> \<lparr>sdrawing = (Circle 1, Short_text), self = None, msize = 24\<rparr>,
        Var 2 \<mapsto> \<lparr>sdrawing = (Square 4, Short_text), self = Some (Var 2), msize = 48\<rparr>)); sbo_draw 1 b' }) = None"
  by (subst sbo_assignment_moves_bytes
      [where k = "\<lparr>sdrawing = (Circle 1, Short_text), self = None, msize = 24\<rparr>"
         and m = "\<lparr>sdrawing = (Square 4, Short_text), self = Some (Var 2), msize = 48\<rparr>"])
     (auto simp: sbo_inv_def intact_def)

end
