(* ===== verification/Crtp_Mixins.thy ===== *)
theory Crtp_Mixins
  imports Software_Design
begin

text \<open>
  src/src/modern_cpp/crtp.cpp: shapes with static dispatch and the same circles behind virtual functions, the
  comparisons that a mixin derives, and the counter of instances, one per derived class. Doubles are
  rationals; the time measurements of main are left out, the sums they measure are not.
\<close>

section \<open>Static and virtual dispatch\<close>

datatype crtp_shape = Circle rat | Square rat

fun crtp_area :: "crtp_shape \<Rightarrow> rat" where
  "crtp_area (Circle radius) = (314159265 / 100000000) * radius * radius"
| "crtp_area (Square side) = side * side"

fun draw_crtp :: "crtp_shape \<Rightarrow> string" where
  "draw_crtp (Circle radius) = ''  Drawing Circle(r='' @ show_general radius @ '')''"
| "draw_crtp (Square side) = ''  Drawing Square(s='' @ show_general side @ '')''"

definition printArea :: "crtp_shape \<Rightarrow> string" where
  "printArea shape = ''  Area = '' @ show_general (crtp_area shape)"

definition sumAreasCRTP :: "crtp_shape list \<Rightarrow> rat" where
  "sumAreasCRTP shapes = foldl (\<lambda>sum s. sum + crtp_area s) 0 shapes"

datatype virtual_shape = VirtualCircle rat

fun virtual_area :: "virtual_shape \<Rightarrow> rat" where
  "virtual_area (VirtualCircle r) = (314159265 / 100000000) * r * r"

text \<open>The loop over the pointers of main; calling through a null pointer is None.\<close>

fun virtual_sum :: "rat \<Rightarrow> virtual_shape option list \<Rightarrow> rat ub" where
  "virtual_sum s [] = Some s"
| "virtual_sum s (p # ps) = do { sh \<leftarrow> p; virtual_sum (s + virtual_area sh) ps }"

definition crtp_performance :: "nat \<Rightarrow> rat \<Rightarrow> (rat \<times> rat) ub" where
  "crtp_performance n r = do {
     let circles = replicate n (Circle r);
     let vshapes = replicate n (Some (VirtualCircle r));
     let crtp_sum = sumAreasCRTP circles;
     virt_sum \<leftarrow> virtual_sum 0 vshapes;
     Some (crtp_sum, virt_sum) }"

section \<open>The mixins\<close>

text \<open>The mixin derives the other comparisons from == and <.\<close>

definition ne :: "rat \<Rightarrow> rat \<Rightarrow> bool" where
  "ne this other = (\<not> this = other)"

definition gt :: "rat \<Rightarrow> rat \<Rightarrow> bool" where
  "gt this other = (other < this)"

definition le :: "rat \<Rightarrow> rat \<Rightarrow> bool" where
  "le this other = (\<not> gt this other)"

definition ge :: "rat \<Rightarrow> rat \<Rightarrow> bool" where
  "ge this other = (\<not> this < other)"

text \<open>One counter per derived class, moved by its constructors and destructor.\<close>

datatype counted_class = Order | Trade

datatype counted_event = Constructed counted_class | Destroyed counted_class

fun count_event :: "counted_event \<Rightarrow> (counted_class \<Rightarrow> int) \<Rightarrow> (counted_class \<Rightarrow> int) ub" where
  "count_event (Constructed c) n = do { k \<leftarrow> chk (n c + 1); Some (n(c := k)) }"
| "count_event (Destroyed c) n = do { k \<leftarrow> chk (n c - 1); Some (n(c := k)) }"

fun count_instances :: "counted_event list \<Rightarrow> (counted_class \<Rightarrow> int) \<Rightarrow> (counted_class \<Rightarrow> int) ub" where
  "count_instances [] n = Some n"
| "count_instances (e # es) n = do { n' \<leftarrow> count_event e n; count_instances es n' }"

definition crtp_main :: "string list ub" where
  "crtp_main = do {
     let c = Circle 5;
     let s = Square 4;
     _ \<leftarrow> guard (crtp_area c > 78 \<and> crtp_area c < 79 \<and> crtp_area s = 16);
     let p1 = 201 / 2;
     let p2 = 405 / 4;
     let p3 = 201 / 2;
     _ \<leftarrow> guard (p1 = p3 \<and> ne p1 p2 \<and> p1 < p2 \<and> gt p2 p1 \<and> le p1 p3 \<and> ge p2 p1);
     n \<leftarrow> count_instances (replicate 3 (Constructed Order) @ replicate 2 (Constructed Trade)) (\<lambda>_. 0);
     _ \<leftarrow> guard (n Order = 3 \<and> n Trade = 2);
     n' \<leftarrow> count_instances (replicate 2 (Destroyed Trade) @ replicate 3 (Destroyed Order)) n;
     _ \<leftarrow> guard (n' Order = 0 \<and> n' Trade = 0);
     Some [draw_crtp c, draw_crtp s, printArea c, printArea s,
       ''  Orders: '' @ show_int (n Order), ''  Trades: '' @ show_int (n Trade),
       ''  After scope: Orders='' @ show_int (n' Order) @ '' Trades='' @ show_int (n' Trade)] }"

lemma crtp_main_output:
  "crtp_main = Some [''  Drawing Circle(r=5)'', ''  Drawing Square(s=4)'', ''  Area = 78.5398'', ''  Area = 16'',
     ''  Orders: 3'', ''  Trades: 2'', ''  After scope: Orders=0 Trades=0'']"
  by code_simp

section \<open>What holds of them\<close>

lemma derived_comparisons: "ne x y \<longleftrightarrow> x \<noteq> y" "gt x y \<longleftrightarrow> x > y" "le x y \<longleftrightarrow> x \<le> y" "ge x y \<longleftrightarrow> x \<ge> y"
  by (auto simp: ne_def gt_def le_def ge_def)

lemma virtual_sum_from: "virtual_sum a (map (\<lambda>r. Some (VirtualCircle r)) rs) = Some (foldl (\<lambda>sum s. sum + crtp_area s) a (map Circle rs))"
  by (induction rs arbitrary: a) simp_all

lemma sumAreas_list: "sumAreasCRTP shapes = sum_list (map crtp_area shapes)"
proof -
  have "foldl (\<lambda>sum s. sum + crtp_area s) a shapes = a + sum_list (map crtp_area shapes)" for a
    by (induction shapes arbitrary: a) simp_all
  then show ?thesis by (simp add: sumAreasCRTP_def)
qed

lemma area_nonneg: "0 \<le> crtp_area s"
  by (cases s) simp_all

lemma sumAreas_nonneg: "0 \<le> sumAreasCRTP shapes"
  unfolding sumAreas_list by (rule sum_list_nonneg) (auto simp: area_nonneg)

text \<open>
  Claim: static and virtual dispatch compute the same sum, for circles of any radii; for the n equal circles that
  main compares, both are n times the area of one.
\<close>
theorem static_dispatch_agrees:
  "virtual_sum 0 (map (\<lambda>r. Some (VirtualCircle r)) rs) = Some (sumAreasCRTP (map Circle rs)) \<and>
   crtp_performance n r = Some (of_nat n * crtp_area (Circle r), of_nat n * crtp_area (Circle r))"
proof
  show v: "virtual_sum 0 (map (\<lambda>r. Some (VirtualCircle r)) rs) = Some (sumAreasCRTP (map Circle rs))" for rs
    by (simp add: virtual_sum_from sumAreasCRTP_def)
  have "virtual_sum 0 (replicate n (Some (VirtualCircle r))) = Some (sumAreasCRTP (replicate n (Circle r)))"
    using v [of "replicate n r"] by (simp add: map_replicate)
  then show "crtp_performance n r = Some (of_nat n * crtp_area (Circle r), of_nat n * crtp_area (Circle r))"
    by (simp add: crtp_performance_def sumAreas_list sum_list_replicate)
qed

text \<open>The mixin counts the living objects: events that construct and destroy in balance give back the counters.\<close>

fun event_class :: "counted_event \<Rightarrow> counted_class" where
  "event_class (Constructed c) = c"
| "event_class (Destroyed c) = c"

fun event_change :: "counted_event \<Rightarrow> int" where
  "event_change (Constructed c) = 1"
| "event_change (Destroyed c) = - 1"

lemma count_event_eq: "count_event e n = map_option (\<lambda>k. n(event_class e := k)) (chk (n (event_class e) + event_change e))"
  by (cases e) (auto simp: chk_def)

text \<open>
  Claim: each class has its own counter: after any sequence of constructions and destructions the counter of a class
  is what it was plus its constructions minus its destructions, whatever happens to the other class.
\<close>
theorem instance_counters_separate:
  assumes "count_instances es n = Some n'"
  shows "n' c = n c + sum_list (map event_change (filter (\<lambda>e. event_class e = c) es))"
  using assms
proof (induction es arbitrary: n)
  case (Cons e es)
  then obtain k where k: "chk (n (event_class e) + event_change e) = Some k" "count_instances es (n(event_class e := k)) = Some n'"
    by (auto simp: count_event_eq bind_Some_conv)
  then have "k = n (event_class e) + event_change e" by (simp add: chk_def split: if_splits)
  then show ?case using Cons.IH [OF k(2)] by simp
qed simp

theorem instance_counters_separate_witness:
  "((\<lambda>_. 0)(Order := 1 :: int)) Order = 0 + sum_list (map event_change (filter (\<lambda>e. event_class e = Order) [Constructed Order]))"
  by (rule instance_counters_separate [where n = "\<lambda>_. 0" and n' = "(\<lambda>_. 0)(Order := 1)"])
     (simp add: chk_def in_int_def)

end
