(* ===== verification/Signal_Loop.thy ===== *)
theory Signal_Loop
  imports Complex_Main Prelude
begin

text \<open>
  src/src/systems/linux/signal_handling.cpp: the main loop with its two flags and the signal handlers, which run
  between any two steps of it. A signal that arrives before the handlers are installed is not
  considered.
\<close>

section \<open>Signals between the steps of the main loop\<close>

datatype posix_signal = SIGINT | SIGTERM | SIGUSR1 | SIGPIPE

text \<open>Where main is: at the test of the loop, at the reload flag, about to clear it, at its work, or done.\<close>

datatype loop_pc = Test_flags | Check_reload | Clear_reload | Work | Finished

record loop_state =
  shutdown_requested :: bool
  reload_requested :: bool
  iteration :: int
  pc :: loop_pc
  printed :: "string list"

datatype event = Main_step | Deliver posix_signal

fun signal_handler :: "posix_signal \<Rightarrow> loop_state \<Rightarrow> loop_state" where
  "signal_handler SIGINT s = s\<lparr>shutdown_requested := True,
     printed := printed s @ [[CHR 0x0A] @ ''[SIGNAL] SIGINT received - requesting shutdown'']\<rparr>"
| "signal_handler SIGTERM s = s\<lparr>shutdown_requested := True, printed := printed s @ [''[SIGNAL] SIGTERM received - requesting shutdown'']\<rparr>"
| "signal_handler SIGUSR1 s = s\<lparr>reload_requested := True, printed := printed s @ [''[SIGNAL] SIGUSR1 received - config reload requested'']\<rparr>"
| "signal_handler SIGPIPE s = s"

definition farewell :: "string list" where
  "farewell = [[CHR 0x0A] @ ''[MAIN] Performing graceful shutdown...'', ''[MAIN] Flushing buffers...'',
     ''[MAIN] Closing connections...'', ''[MAIN] Shutdown complete.'']"

definition main_step :: "loop_state \<Rightarrow> loop_state" where
  "main_step s = (case pc s of
     Test_flags \<Rightarrow> if \<not> shutdown_requested s \<and> iteration s < 3 then s\<lparr>pc := Check_reload\<rparr>
                   else s\<lparr>pc := Finished, printed := printed s @ farewell\<rparr>
   | Check_reload \<Rightarrow> if reload_requested s
                   then s\<lparr>pc := Clear_reload, printed := printed s @ [''[MAIN] Reloading configuration...'']\<rparr>
                   else s\<lparr>pc := Work\<rparr>
   | Clear_reload \<Rightarrow> s\<lparr>pc := Work, reload_requested := False\<rparr>
   | Work \<Rightarrow> s\<lparr>pc := Test_flags, iteration := iteration s + 1,
                printed := printed s @ [''[MAIN] Working... iteration '' @ show_int (iteration s + 1)]\<rparr>
   | Finished \<Rightarrow> s)"

fun loop_event :: "event \<Rightarrow> loop_state \<Rightarrow> loop_state" where
  "loop_event Main_step s = main_step s"
| "loop_event (Deliver g) s = (if pc s = Finished then s else signal_handler g s)"

definition loop_run :: "event list \<Rightarrow> loop_state \<Rightarrow> loop_state" where
  "loop_run es s = fold loop_event es s"

text \<open>The state after the program has sent SIGUSR1 to itself.\<close>

definition start_loop :: loop_state where
  "start_loop = signal_handler SIGUSR1 \<lparr>shutdown_requested = False, reload_requested = False, iteration = 0, pc = Test_flags, printed = []\<rparr>"

lemma undisturbed_output:
  "printed (loop_run (replicate 11 Main_step) start_loop) =
    [''[SIGNAL] SIGUSR1 received - config reload requested'', ''[MAIN] Reloading configuration...'',
     ''[MAIN] Working... iteration 1'', ''[MAIN] Working... iteration 2'', ''[MAIN] Working... iteration 3''] @ farewell"
  by code_simp

lemma loop_run_append: "loop_run (es @ fs) s = loop_run fs (loop_run es s)"
  by (simp add: loop_run_def)

lemma loop_run_Cons: "loop_run (e # es) s = loop_run es (loop_event e s)"
  by (simp add: loop_run_def)

lemma handler_frame [simp]: "pc (signal_handler g s) = pc s" "iteration (signal_handler g s) = iteration s"
  by (cases g; simp)+

text \<open>How many steps main still takes at most.\<close>

definition steps_left :: "loop_state \<Rightarrow> nat" where
  "steps_left s = (case pc s of Finished \<Rightarrow> 0 | Test_flags \<Rightarrow> 4 * nat (3 - iteration s) + 1
     | Check_reload \<Rightarrow> 4 * nat (3 - iteration s) | Clear_reload \<Rightarrow> 4 * nat (3 - iteration s) - 1
     | Work \<Rightarrow> 4 * nat (3 - iteration s) - 2)"

definition loop_inv :: "loop_state \<Rightarrow> bool" where
  "loop_inv s \<longleftrightarrow> 0 \<le> iteration s \<and> iteration s \<le> 3 \<and>
     (pc s \<in> {Check_reload, Clear_reload, Work} \<longrightarrow> iteration s < 3)"

lemma main_step_inv: "loop_inv s \<Longrightarrow> loop_inv (main_step s) \<and> (pc s \<noteq> Finished \<longrightarrow> steps_left (main_step s) < steps_left s)"
  by (cases "pc s") (auto simp: loop_inv_def main_step_def steps_left_def)

lemma deliver_inv: "loop_inv s \<Longrightarrow> loop_inv (loop_event (Deliver g) s) \<and> steps_left (loop_event (Deliver g) s) = steps_left s"
  by (cases "pc s") (simp_all add: loop_inv_def steps_left_def)

lemma main_step_less: "loop_inv s \<Longrightarrow> steps_left (main_step s) \<le> steps_left s - 1"
proof (cases "pc s = Finished")
  case True
  then show ?thesis by (simp add: main_step_def steps_left_def)
next
  case False
  then show "loop_inv s \<Longrightarrow> ?thesis" using main_step_inv [of s] by linarith
qed

lemma run_inv: "loop_inv s \<Longrightarrow> loop_inv (loop_run es s) \<and>
    steps_left (loop_run es s) \<le> steps_left s - length (filter (\<lambda>e. e = Main_step) es)"
proof (induction es arbitrary: s)
  case (Cons e es)
  show ?case
  proof (cases e)
    case Main_step
    then show ?thesis using Cons.IH [of "main_step s"] main_step_inv [OF Cons.prems] main_step_less [OF Cons.prems]
      by (simp add: loop_run_Cons) arith
  next
    case (Deliver g)
    then show ?thesis using Cons.IH [of "loop_event e s"] deliver_inv [OF Cons.prems, of g]
      by (simp add: loop_run_Cons del: loop_event.simps)
  qed
qed (simp add: loop_run_def)

lemma start_inv: "loop_inv start_loop" "steps_left start_loop = 13"
  by (simp_all add: loop_inv_def start_loop_def steps_left_def)

text \<open>
  C28: the program ends: whatever signals arrive between its steps, after thirteen steps of its own the main
  loop has said its farewell, and it has worked at most three times.
\<close>
theorem signal_loop_ends:
  assumes "13 \<le> length (filter (\<lambda>e. e = Main_step) es)"
  shows "pc (loop_run es start_loop) = Finished \<and> iteration (loop_run es start_loop) \<le> 3"
proof -
  have "loop_inv (loop_run es start_loop)" "steps_left (loop_run es start_loop) = 0"
    using run_inv [OF start_inv(1), of es] start_inv(2) assms by simp_all
  then show ?thesis by (auto simp: loop_inv_def steps_left_def split: loop_pc.splits)
qed

theorem signal_loop_ends_witness:
  "pc (loop_run (replicate 7 Main_step @ [Deliver SIGTERM] @ replicate 6 Main_step) start_loop) = Finished"
  using signal_loop_ends [of "replicate 7 Main_step @ [Deliver SIGTERM] @ replicate 6 Main_step"] by simp

text \<open>The work that can still be done once a shutdown has been requested.\<close>

definition work_pending :: "loop_state \<Rightarrow> int" where
  "work_pending s = iteration s + (if pc s \<in> {Check_reload, Clear_reload, Work} then 1 else 0)"

lemma shutdown_step: "shutdown_requested s \<Longrightarrow> shutdown_requested (loop_event e s) \<and> work_pending (loop_event e s) \<le> work_pending s"
proof (cases e)
  case Main_step
  then show "shutdown_requested s \<Longrightarrow> ?thesis" by (cases "pc s") (auto simp: main_step_def work_pending_def)
next
  case (Deliver g)
  then show "shutdown_requested s \<Longrightarrow> ?thesis" by (cases g) (auto simp: work_pending_def)
qed

lemma shutdown_run: "shutdown_requested s \<Longrightarrow> work_pending (loop_run es s) \<le> work_pending s"
proof (induction es arbitrary: s)
  case (Cons e es)
  have "shutdown_requested (loop_event e s) \<and> work_pending (loop_event e s) \<le> work_pending s"
    by (rule shutdown_step) (rule Cons.prems)
  moreover from this have "work_pending (loop_run es (loop_event e s)) \<le> work_pending (loop_event e s)" using Cons.IH by blast
  ultimately show ?case by (simp add: loop_run_Cons)
qed (simp add: loop_run_def)

text \<open>
  Claim: a SIGINT or SIGTERM is honoured: whatever happens afterwards, main completes at most the iteration that
  it had begun and starts no other.
\<close>
theorem shutdown_honoured:
  assumes "g = SIGINT \<or> g = SIGTERM"
  shows "iteration (loop_run (es @ [Deliver g] @ fs) start_loop) \<le> iteration (loop_run es start_loop) + 1"
proof -
  let ?s = "loop_run es start_loop"
  let ?t = "loop_event (Deliver g) ?s"
  have split: "loop_run (es @ [Deliver g] @ fs) start_loop = loop_run fs ?t"
    by (simp add: loop_run_append loop_run_Cons loop_run_def)
  show ?thesis
  proof (cases "pc ?s = Finished")
    case True
    have "iteration (loop_run fs u) = iteration u" if "pc u = Finished" for u
      using that
    proof (induction fs arbitrary: u)
      case (Cons f fs)
      then have "loop_event f u = u" by (cases f) (simp_all add: main_step_def)
      then show ?case using Cons by (simp add: loop_run_Cons)
    qed (simp add: loop_run_def)
    then show ?thesis using True split by simp
  next
    case False
    then have "shutdown_requested ?t" using assms by auto
    then have "work_pending (loop_run fs ?t) \<le> work_pending ?t" by (rule shutdown_run)
    moreover have "work_pending ?t \<le> iteration ?s + 1" using False by (simp add: work_pending_def)
    moreover have "iteration (loop_run fs ?t) \<le> work_pending (loop_run fs ?t)" by (simp add: work_pending_def)
    ultimately show ?thesis using split by simp
  qed
qed

theorem shutdown_honoured_witness:
  "iteration (loop_run ([Main_step, Main_step] @ [Deliver SIGINT] @ replicate 20 Main_step) start_loop)
     \<le> iteration (loop_run [Main_step, Main_step] start_loop) + 1"
  by (rule shutdown_honoured) simp

text \<open>The times that main has reloaded.\<close>

definition reloads :: "loop_state \<Rightarrow> nat" where
  "reloads s = length (filter (\<lambda>l. l = ''[MAIN] Reloading configuration...'') (printed s))"

text \<open>
  Claim: a reload request can be lost: the second SIGUSR1 of this run arrives after the configuration was
  reloaded and before the flag is cleared; the loop runs to its end and never reloads again. One
  step later the request is served.
\<close>
theorem reload_request_lost:
  "let lost = loop_run ([Main_step, Main_step, Deliver SIGUSR1] @ replicate 12 Main_step) start_loop;
       served = loop_run ([Main_step, Main_step, Main_step, Deliver SIGUSR1] @ replicate 12 Main_step) start_loop
   in pc lost = Finished \<and> iteration lost = 3 \<and> reloads lost = 1 \<and>
      pc served = Finished \<and> iteration served = 3 \<and> reloads served = 2"
  unfolding Let_def by code_simp

end
