(* ===== verification/Joined_Threads.thy ===== *)
theory Joined_Threads
  imports Memory_Model Mutex_Condvar
begin

text \<open>
  The main functions of src/src/concurrency/{atomics,memory_model,mutex_condvar}.cpp: threads are started and
  joined in groups, and what they left is asserted and printed. Such a main is a relation between a run and its
  output; the theorems say that, whatever the interleaving, it can run to its end and that every run that
  joins its threads prints the same lines. A thread that spins need not be scheduled away, so a main
  need not end.
\<close>

section \<open>Starting and joining threads\<close>

text \<open>The local states and the shared state when all threads have ended, or the undefined step of one of them.\<close>

inductive threads_joined ::
  "('l \<Rightarrow> 'g \<Rightarrow> ('l \<times> 'g) ub \<Rightarrow> bool) \<Rightarrow> ('l \<Rightarrow> bool) \<Rightarrow> 'l list \<Rightarrow> 'g \<Rightarrow> ('l list \<times> 'g) ub \<Rightarrow> bool"
  for tstep ended ls0 g0 where
  all_joined: "thread_reach tstep ls0 g0 (Some (ls, g)) \<Longrightarrow> list_all ended ls \<Longrightarrow> threads_joined tstep ended ls0 g0 (Some (ls, g))"
| undefined_step: "thread_reach tstep ls0 g0 None \<Longrightarrow> threads_joined tstep ended ls0 g0 None"

text \<open>What a thread does while the others stand still.\<close>

inductive alone :: "('l \<Rightarrow> 'g \<Rightarrow> ('l \<times> 'g) ub \<Rightarrow> bool) \<Rightarrow> 'l \<Rightarrow> 'g \<Rightarrow> 'l \<Rightarrow> 'g \<Rightarrow> bool" for tstep where
  still: "alone tstep l g l g"
| moves: "tstep l g (Some (l1, g1)) \<Longrightarrow> alone tstep l1 g1 l2 g2 \<Longrightarrow> alone tstep l g l2 g2"

lemma alone_reach:
  assumes "alone tstep l g l' g'"
  shows "thread_reach tstep ls0 g0 (Some (ls, g)) \<Longrightarrow> i < length ls \<Longrightarrow> ls ! i = l \<Longrightarrow>
    thread_reach tstep ls0 g0 (Some (ls[i := l'], g'))"
  using assms
proof (induction arbitrary: ls rule: alone.induct)
  case (still l g)
  then have "ls[i := l] = ls" by (auto simp: list_update_same_conv)
  then show ?case using still by simp
next
  case (moves l g l1 g1 l2 g2)
  have "thread_reach tstep ls0 g0 (Some (ls[i := l1], g1))"
    using thread_reach.step [OF moves.prems(1,2), of "Some (l1, g1)"] moves by simp
  then show ?case using moves.IH [of "ls[i := l1]"] moves.prems(2) by simp
qed

text \<open>Threads that can each run to their end alone can all be joined.\<close>

lemma joined_in_turn:
  assumes run: "\<And>ls g i. thread_reach tstep ls0 g0 (Some (ls, g)) \<Longrightarrow> free g \<Longrightarrow> i < length ls0 \<Longrightarrow> ls ! i = ls0 ! i \<Longrightarrow>
      length ls = length ls0 \<Longrightarrow> \<exists>l' g'. alone tstep (ls ! i) g l' g' \<and> ended l' \<and> free g'"
    and "free g0"
  shows "\<exists>ls g. threads_joined tstep ended ls0 g0 (Some (ls, g))"
proof -
  have "k \<le> length ls0 \<Longrightarrow> \<exists>ls g. thread_reach tstep ls0 g0 (Some (ls, g)) \<and> free g \<and> length ls = length ls0 \<and>
      (\<forall>i < k. ended (ls ! i)) \<and> (\<forall>i < length ls0. k \<le> i \<longrightarrow> ls ! i = ls0 ! i)" for k
  proof (induction k)
    case 0
    then show ?case using thread_reach.start [of tstep ls0 g0] assms(2) by blast
  next
    case (Suc k)
    then obtain ls g where ls: "thread_reach tstep ls0 g0 (Some (ls, g))" "free g" "length ls = length ls0"
        "\<forall>i < k. ended (ls ! i)" "\<forall>i < length ls0. k \<le> i \<longrightarrow> ls ! i = ls0 ! i" by auto
    obtain l' g' where l': "alone tstep (ls ! k) g l' g'" "ended l'" "free g'"
      using run [OF ls(1,2), of k] ls(3,5) Suc.prems by auto
    have "thread_reach tstep ls0 g0 (Some (ls[k := l'], g'))"
      using alone_reach [OF l'(1) ls(1)] Suc.prems ls(3) by simp
    then show ?case using ls l' Suc.prems
      by (intro exI [of _ "ls[k := l']"] exI [of _ g']) (auto simp: nth_list_update less_Suc_eq)
  qed
  from this [of "length ls0"] obtain ls g where
    "thread_reach tstep ls0 g0 (Some (ls, g))" "length ls = length ls0" "\<forall>i < length ls0. ended (ls ! i)" by auto
  then have "threads_joined tstep ended ls0 g0 (Some (ls, g))" by (intro threads_joined.all_joined) (simp_all add: list_all_length)
  then show ?thesis by blast
qed

section \<open>atomics.cpp\<close>

fun max_done :: "max_thread \<Rightarrow> bool" where
  "max_done (Done p) = True"
| "max_done _ = False"

text \<open>What main does with the outcomes of its three groups of threads.\<close>

definition atomics_lines :: "bool \<Rightarrow> (nat list \<times> 32 word) ub \<Rightarrow> (spin_thread list \<times> spin_shared) ub \<Rightarrow> (max_thread list \<times> int) ub \<Rightarrow> string list ub" where
  "atomics_lines lock_free r1 r2 r3 = do {
     (_, c) \<leftarrow> r1;
     _ \<leftarrow> guard (sint c = 8 * 10000);
     (_, g) \<leftarrow> r2;
     _ \<leftarrow> guard (shared_val g = 8 * 1000);
     (_, m) \<leftarrow> r3;
     _ \<leftarrow> guard (m = (8 - 1) * 10);
     Some [''Atomic counter: '' @ show_int (sint c) @ '' (expected '' @ show_int (8 * 10000) @ '')'',
       ''counter is lock-free: '' @ (if lock_free then ''true'' else ''false''),
       ''Spinlock-protected counter: '' @ show_int (shared_val g), ''CAS max: '' @ show_int m] }"

definition atomics_main :: "bool \<Rightarrow> string list ub \<Rightarrow> bool" where
  "atomics_main lock_free out \<longleftrightarrow> (\<exists>r1 r2 r3.
     threads_joined increment_counter (\<lambda>n. n = 0) (replicate 8 10000) 0 r1 \<and>
     threads_joined spin_step (\<lambda>l. l = Locking 0) (map Locking (replicate 8 1000)) spin_start r2 \<and>
     threads_joined update_max max_done (map Load (map (\<lambda>i. i * 10) [0..7])) 0 r3 \<and>
     out = atomics_lines lock_free r1 r2 r3)"

lemma counter_alone: "\<exists>c'. alone increment_counter n c 0 c'"
proof (induction n arbitrary: c)
  case (Suc n)
  then obtain c' where "alone increment_counter n (c + 1) 0 c'" by blast
  with increment_counter.fetch_add [of n c] have "alone increment_counter (Suc n) c 0 c'" by (rule alone.moves)
  then show ?case by blast
qed (blast intro: alone.still)

lemma counter_joined:
  assumes "threads_joined increment_counter (\<lambda>n. n = 0) ns 0 r"
  shows "\<exists>ls c. r = Some (ls, c) \<and> c = of_nat (sum_list ns)"
  using assms
proof (cases rule: threads_joined.cases)
  case (all_joined ls c)
  then have "\<forall>n \<in> set ls. n = 0" by (simp add: list_all_iff)
  then show ?thesis using counter_total [OF all_joined(2)] all_joined(1) by blast
next
  case undefined_step
  then show ?thesis using counter.reach_inv [OF undefined_step(2)] by blast
qed

lemma spin_alone:
  "\<not> flag g \<Longrightarrow> 0 \<le> shared_val g \<Longrightarrow> shared_val g + int n \<le> INT_MAX \<Longrightarrow>
   \<exists>g'. alone spin_step (Locking n) g (Locking 0) g' \<and> \<not> flag g' \<and> 0 \<le> shared_val g'"
proof (induction n arbitrary: g)
  case 0
  then show ?case by (intro exI [of _ g] conjI alone.still)
next
  case (Suc n)
  have go: "spin_step l h (Some (l', h'))" if "l \<noteq> Locking 0" "spin_next l h = Some (l', h')" for l h l' h'
    using spin_step.running [OF that(1), of h] that(2) by simp
  let ?g1 = "g\<lparr>flag := True\<rparr>"
  let ?g2 = "?g1\<lparr>shared_val := shared_val g + 1\<rparr>"
  have c: "chk (shared_val g + 1) = Some (shared_val g + 1)" using Suc.prems by (simp add: ub_simps)
  have s: "spin_step (Locking (Suc n)) g (Some (Reading n, ?g1))" "spin_step (Reading n) ?g1 (Some (Writing n (shared_val g), ?g1))"
      "spin_step (Writing n (shared_val g)) ?g1 (Some (Unlocking n, ?g2))" "spin_step (Unlocking n) ?g2 (Some (Locking n, flag_clear ?g2))"
    using Suc.prems c by (auto intro!: go simp: test_and_set_def)
  obtain g' where "alone spin_step (Locking n) (flag_clear ?g2) (Locking 0) g'" "\<not> flag g'" "0 \<le> shared_val g'"
    using Suc.IH [of "flag_clear ?g2"] Suc.prems by (auto simp: flag_clear_def)
  then show ?case using s alone.moves by metis
qed

lemma spin_joined:
  assumes "threads_joined spin_step (\<lambda>l. l = Locking 0) (map Locking ns) spin_start r" and "int (sum_list ns) \<le> INT_MAX"
  shows "\<exists>ls g. r = Some (ls, g) \<and> shared_val g = int (sum_list ns)"
  using assms(1)
proof (cases rule: threads_joined.cases)
  case (all_joined ls g)
  have "sum_list (map (increments_left \<circ> Locking) ns) = int (sum_list ns)" by (induction ns) auto
  moreover have "shared_val g = shared_val spin_start + sum_list (map increments_left (map Locking ns))"
    by (rule spinlock.reach_done [OF all_joined(2) spin_inv_start [OF assms(2)]]) (use all_joined(3) in \<open>auto simp: list_all_iff\<close>)
  ultimately show ?thesis using all_joined(1) by (simp add: spin_start_def)
next
  case undefined_step
  then show ?thesis using spinlock.reach_inv [OF undefined_step(2) spin_inv_start [OF assms(2)]] by simp
qed

lemma spin_can_join:
  assumes "int (sum_list ns) \<le> INT_MAX"
  shows "\<exists>ls g. threads_joined spin_step (\<lambda>l. l = Locking 0) (map Locking ns) spin_start (Some (ls, g))"
proof (rule joined_in_turn [where free = "\<lambda>g. \<not> flag g \<and> 0 \<le> shared_val g"])
  fix ls g i
  assume a: "thread_reach spin_step (map Locking ns) spin_start (Some (ls, g))" "\<not> flag g \<and> 0 \<le> shared_val g"
    "i < length (map Locking ns)" "ls ! i = map Locking ns ! i" "length ls = length (map Locking ns)"
  have "spin_inv ls g" using spinlock.reach_inv_Some [OF a(1) spin_inv_start [OF assms]] .
  then have "shared_val g + increments_left (ls ! i) \<le> INT_MAX"
    using increments_left_le [of i ls] a(3,5) by (simp add: spin_inv_def)
  then have "shared_val g + int (ns ! i) \<le> INT_MAX" using a(3,4) by simp
  then obtain g' where "alone spin_step (Locking (ns ! i)) g (Locking 0) g'" "\<not> flag g'" "0 \<le> shared_val g'"
    using spin_alone a(2) by blast
  then show "\<exists>l' g'. alone spin_step (ls ! i) g l' g' \<and> l' = Locking 0 \<and> \<not> flag g' \<and> 0 \<le> shared_val g'"
    using a(3,4) by auto
qed (simp add: spin_start_def)

lemma max_alone: "\<exists>m'. alone update_max (Load p) m (Done p) m'"
proof -
  have l: "update_max (Load p) m (Some (Loop p m, m))" by (rule update_max.load)
  have "\<exists>m'. update_max (Loop p m) m (Some (Done p, m'))"
    using update_max.not_greater [of m p m] update_max.exchange [of m p m] by blast
  then show ?thesis using l alone.still alone.moves by metis
qed

lemma max_joined:
  assumes "threads_joined update_max max_done (map Load ps) m0 r"
  shows "\<exists>ls m. r = Some (ls, m) \<and> m = Max (insert m0 (set ps))"
  using assms
proof (cases rule: threads_joined.cases)
  case (all_joined ls m)
  have "\<forall>l \<in> set ls. \<exists>p. l = Done p" using all_joined(3) by (auto simp: list_all_iff elim: max_done.elims)
  then show ?thesis using update_max_final [OF all_joined(2)] all_joined(1) by blast
next
  case undefined_step
  have "max_inv m0 ps (map Load ps) m0" by (auto simp: max_inv_def comp_def)
  then show ?thesis using cas_max.reach_inv [OF undefined_step(2)] by blast
qed

text \<open>
  Claim: whatever the interleaving and the spurious failures of compare_exchange_weak, main of atomics.cpp passes its
  assertions and prints these four lines, and such a run exists.
\<close>
theorem atomics_main_output:
  "atomics_main lock_free out \<longleftrightarrow> out = Some [''Atomic counter: 80000 (expected 80000)'',
     ''counter is lock-free: '' @ (if lock_free then ''true'' else ''false''), ''Spinlock-protected counter: 8000'', ''CAS max: 70'']"
    (is "_ \<longleftrightarrow> out = ?lines")
proof -
  let ?j1 = "threads_joined increment_counter (\<lambda>n. n = 0) (replicate 8 10000) 0"
  let ?j2 = "threads_joined spin_step (\<lambda>l. l = Locking 0) (map Locking (replicate 8 1000)) spin_start"
  let ?j3 = "threads_joined update_max max_done (map Load (map (\<lambda>i. i * 10) [0..7])) 0"
  have f1: "\<exists>ls c. r = Some (ls, c) \<and> sint c = 80000" if "?j1 r" for r
    using counter_joined [OF that] by (auto simp: sum_list_replicate)
  have f2: "\<exists>ls g. r = Some (ls, g) \<and> shared_val g = 8000" if "?j2 r" for r
    using spin_joined [OF that] by (auto simp: sum_list_replicate)
  have f3: "\<exists>ls m. r = Some (ls, m) \<and> m = 70" if "?j3 r" for r
    using max_joined [OF that] by (simp add: upto_rec1)
  have e1: "\<exists>r. ?j1 r"
    using joined_in_turn [of increment_counter "replicate 8 10000" 0 "\<lambda>_. True" "\<lambda>n. n = 0"] counter_alone by blast
  have e2: "\<exists>r. ?j2 r" using spin_can_join [of "replicate 8 1000"] by (auto simp: sum_list_replicate)
  have e3: "\<exists>r. ?j3 r"
    using joined_in_turn [of update_max "map Load (map (\<lambda>i. i * 10) [0..7])" 0 "\<lambda>_. True" max_done]
    by (smt (verit) length_map max_alone max_done.simps(1) nth_map)
  have lines: "show_int 80000 = ''80000''" "show_int 8000 = ''8000''" "show_int 70 = ''70''" by code_simp+
  have "atomics_lines lock_free r1 r2 r3 = ?lines" if "?j1 r1" "?j2 r2" "?j3 r3" for r1 r2 r3
    using f1 [OF that(1)] f2 [OF that(2)] f3 [OF that(3)] by (auto simp: atomics_lines_def lines)
  then show ?thesis unfolding atomics_main_def using e1 e2 e3 by metis
qed

section \<open>memory_model.cpp\<close>

fun messenger_ended :: "messenger \<Rightarrow> bool" where
  "messenger_ended Sent = True"
| "messenger_ended (Seen m) = True"
| "messenger_ended _ = False"

fun returned :: "dekker \<Rightarrow> bool" where
  "returned (Returned s b) = True"
| "returned _ = False"

text \<open>The trials of the third part, each from flags that have been reset.\<close>

fun dekker_trials :: "nat \<Rightarrow> unit ub \<Rightarrow> bool" where
  "dekker_trials 0 r \<longleftrightarrow> r = Some ()"
| "dekker_trials (Suc n) r \<longleftrightarrow> (\<exists>t rest. threads_joined dekker_step returned [Store_Flag A, Store_Flag B] flags_start t \<and>
     dekker_trials n rest \<and> r = do { (_, g) \<leftarrow> t; _ \<leftarrow> guard (observer_count g \<le> 1); rest })"

definition consumer_line :: "messenger list \<Rightarrow> string ub" where
  "consumer_line ls = (case ls of
     [_, Seen (x, y, z)] \<Rightarrow> Some (''Consumer sees: {'' @ show_int x @ '', '' @ show_int y @ '', '' @ show_int z @ ''}'')
   | _ \<Rightarrow> None)"

definition memory_model_lines :: "(nat list \<times> 32 word) ub \<Rightarrow> (messenger list \<times> shared_message) ub \<Rightarrow> unit ub \<Rightarrow> string list ub" where
  "memory_model_lines r1 r2 r3 = do {
     (_, c) \<leftarrow> r1;
     _ \<leftarrow> guard (sint c = 4 * 10000);
     (ls, _) \<leftarrow> r2;
     line \<leftarrow> consumer_line ls;
     _ \<leftarrow> r3;
     Some [''Relaxed counter: '' @ show_int (sint c), line] }"

definition memory_model_main :: "string list ub \<Rightarrow> bool" where
  "memory_model_main out \<longleftrightarrow> (\<exists>r1 r2 r3.
     threads_joined count_events (\<lambda>n. n = 0) (replicate 4 10000) 0 r1 \<and>
     threads_joined message_step messenger_ended [Write_X, Spin] message_start r2 \<and>
     dekker_trials 1000 r3 \<and> out = memory_model_lines r1 r2 r3)"

lemma message_joined:
  assumes "threads_joined message_step messenger_ended [Write_X, Spin] message_start r"
  shows "\<exists>p g. r = Some ([p, Seen (1, 2, 3)], g)"
  using assms
proof (cases rule: threads_joined.cases)
  case (all_joined ls g)
  obtain p c where ls: "ls = [p, c]" "\<forall>m. c = Seen m \<longrightarrow> m = (1, 2, 3)" "message_inv ls g"
    using message_passing_correct [OF all_joined(2)]
      message_passing.reach_inv_Some [OF all_joined(2)] by (auto simp: message_inv_def message_start_def)
  have "messenger_ended c" using all_joined(3) ls(1) by simp
  moreover have "consumer_inv c g" using ls(1,3) by (simp add: message_inv_def)
  ultimately obtain m where "c = Seen m" by (cases c) auto
  then show ?thesis using ls all_joined(1) by simp
next
  case undefined_step
  then show ?thesis using message_passing_correct [OF undefined_step(2)] by simp
qed

lemma message_can_join: "\<exists>r. threads_joined message_step messenger_ended [Write_X, Spin] message_start r"
proof -
  define g1 where "g1 = \<lparr>msg_x = 1, msg_y = 2, msg_z = 3, ready = True\<rparr>"
  have step: "alone message_step l g l2 g2" if "message_next l g = Some (l1, g1)" "alone message_step l1 g1 l2 g2" for l g l1 g1 l2 g2
    using alone.moves [OF _ that(2), of l g] message_step.intros [of l g] that(1) by simp
  have "alone message_step Write_X message_start Sent g1"
    by (rule step, simp, rule step, simp, rule step, simp, rule step, simp)
       (simp add: message_start_def g1_def alone.still)
  from alone_reach [OF this thread_reach.start, of 0 "[Write_X, Spin]"]
  have p: "thread_reach message_step [Write_X, Spin] message_start (Some ([Sent, Spin], g1))" by simp
  have "alone message_step Spin g1 (Seen (1, 2, 3)) g1"
    by (rule step, simp add: g1_def, rule step, simp) (simp add: g1_def alone.still)
  from alone_reach [OF this p, of 1]
  have "thread_reach message_step [Write_X, Spin] message_start (Some ([Sent, Seen (1, 2, 3)], g1))" by simp
  then have "threads_joined message_step messenger_ended [Write_X, Spin] message_start (Some ([Sent, Seen (1, 2, 3)], g1))"
    by (rule threads_joined.all_joined) simp
  then show ?thesis by blast
qed

lemma dekker_joined:
  assumes "threads_joined dekker_step returned [Store_Flag A, Store_Flag B] flags_start t"
  shows "\<exists>ls g. t = Some (ls, g) \<and> observer_count g \<le> 1"
  using assms dekker_at_most_one by (cases rule: threads_joined.cases) blast+

lemma dekker_can_join: "\<exists>ls g. threads_joined dekker_step returned [Store_Flag A, Store_Flag B] flags_start (Some (ls, g))"
proof (rule joined_in_turn [where free = "\<lambda>_. True"])
  fix ls g i assume i: "i < length [Store_Flag A, Store_Flag B]" "ls ! i = [Store_Flag A, Store_Flag B] ! i"
  have step: "alone dekker_step l g l2 g2" if "dekker_next l g = (l1, g1)" "alone dekker_step l1 g1 l2 g2" for l g l1 g1 l2 g2
    using alone.moves [OF _ that(2), of l g] dekker_step.intros [of l g] that(1) by simp
  have f: "\<exists>b g'. alone dekker_step (Load_Flag s) g (Returned s b) g'" for s g
  proof (cases "fst (dekker_next (Load_Flag s) g) = Fetch_Add s")
    case True
    then have "dekker_next (Load_Flag s) g = (Fetch_Add s, g)" by (cases s) (auto split: if_splits)
    then show ?thesis using step alone.still dekker_next.simps(5) by metis
  next
    case False
    then have "dekker_next (Load_Flag s) g = (Returned s False, g)" by (cases s) (auto split: if_splits)
    then show ?thesis using step alone.still by metis
  qed
  obtain s where s: "ls ! i = Store_Flag s" using i by (auto simp: less_Suc_eq)
  obtain g1 where "dekker_next (Store_Flag s) g = (Load_Flag s, g1)" by (cases s) auto
  then show "\<exists>l' g'. alone dekker_step (ls ! i) g l' g' \<and> returned l' \<and> True"
    using f [of s g1] step s returned.simps(1) by metis
qed simp

lemma dekker_trials_pass: "dekker_trials n r \<longleftrightarrow> r = Some ()"
proof (induction n arbitrary: r)
  case (Suc n)
  have "(do { (_, g) \<leftarrow> t; _ \<leftarrow> guard (observer_count g \<le> 1); Some () }) = Some ()"
    if "threads_joined dekker_step returned [Store_Flag A, Store_Flag B] flags_start t" for t
    using dekker_joined [OF that] by auto
  then show ?case using dekker_can_join Suc by (simp del: guard_bind) metis
qed simp

text \<open>
  Claim: whatever the interleaving, the consumer sees the whole message, all thousand trials of Dekker's pattern pass,
  and main of memory_model.cpp prints these lines; such a run exists.
\<close>
theorem memory_model_main_output:
  "memory_model_main out \<longleftrightarrow> out = Some [''Relaxed counter: 40000'', ''Consumer sees: {1, 2, 3}'']"
proof -
  let ?j1 = "threads_joined count_events (\<lambda>n. n = 0) (replicate 4 10000) 0"
  let ?j2 = "threads_joined message_step messenger_ended [Write_X, Spin] message_start"
  have f1: "\<exists>ls c. r = Some (ls, c) \<and> sint c = 40000" if "?j1 r" for r
    using counter_joined [OF that [unfolded count_events_def]] by (auto simp: sum_list_replicate)
  have e1: "\<exists>r. ?j1 r"
    unfolding count_events_def
    using joined_in_turn [of increment_counter "replicate 4 10000" 0 "\<lambda>_. True" "\<lambda>n. n = 0"] counter_alone by blast
  have lines: "show_int 40000 = ''40000''" "consumer_line [p, Seen (1, 2, 3)] = Some ''Consumer sees: {1, 2, 3}''" for p
    by (code_simp, simp add: consumer_line_def, code_simp)
  have "memory_model_lines r1 r2 (Some ()) = Some [''Relaxed counter: 40000'', ''Consumer sees: {1, 2, 3}'']"
    if "?j1 r1" "?j2 r2" for r1 r2
    using f1 [OF that(1)] message_joined [OF that(2)] by (auto simp: memory_model_lines_def lines)
  then show ?thesis unfolding memory_model_main_def dekker_trials_pass using e1 message_can_join by metis
qed

section \<open>mutex_condvar.cpp\<close>

fun pc_ended :: "pc_thread \<Rightarrow> bool" where
  "pc_ended Producer_End = True"
| "pc_ended Consumer_End = True"
| "pc_ended _ = False"

text \<open>The lines of main itself; those of the two threads interleave with each other.\<close>

definition mutex_condvar_lines :: "(pc_thread list \<times> pc_shared) ub \<Rightarrow> (transfers list \<times> accounts) ub \<Rightarrow> string list ub" where
  "mutex_condvar_lines r1 r2 = do {
     (_, g) \<leftarrow> r1;
     _ \<leftarrow> guard (length (consumed g) = 10);
     (_, acc) \<leftarrow> r2;
     sum \<leftarrow> chk (balance_a acc + balance_b acc);
     _ \<leftarrow> guard (sum = 1500);
     Some [''Producer-consumer: all '' @ show_int 10 @ '' items consumed.'',
       ''After transfers: A='' @ show_int (balance_a acc) @ '' B='' @ show_int (balance_b acc) @ '' Total='' @ show_int sum] }"

definition mutex_condvar_main :: "string list ub \<Rightarrow> bool" where
  "mutex_condvar_main out \<longleftrightarrow> (\<exists>r1 r2.
     threads_joined (pc_step True 10) pc_ended [Push 0, Wait_Or_Take] pc_start r1 \<and>
     threads_joined transfer_step (\<lambda>l. transfers_left l = 0) [A_To_B 100 5, B_To_A 100 3] \<lparr>balance_a = 1000, balance_b = 500\<rparr> r2 \<and>
     out = mutex_condvar_lines r1 r2)"

lemma pc_joined:
  assumes "threads_joined (pc_step sp n) pc_ended [Push 0, Wait_Or_Take] pc_start r" and "0 \<le> n"
  shows "\<exists>ls g. r = Some (ls, g) \<and> consumed g = [0..n - 1]"
proof -
  have start: "pc_inv n [Push 0, Wait_Or_Take] pc_start" using assms(2) by (simp add: pc_inv_def pc_start_def)
  from assms(1) show ?thesis
  proof (cases rule: threads_joined.cases)
    case (all_joined ls g)
    obtain p c where ls: "ls = [p, c]" "producer_ok n p g" "consumer_ok p c g" "consumed g @ buffer g = produced_by n p"
      using producer_consumer.reach_inv_Some [OF all_joined(2) start] by (auto simp: pc_inv_def)
    have "pc_ended p" "pc_ended c" using all_joined(3) ls(1) by simp_all
    then have "p = Producer_End" "c = Consumer_End" using ls(2,3) by (cases p; cases c; simp)+
    then show ?thesis using ls all_joined(1) by simp
  next
    case undefined_step
    then show ?thesis using producer_consumer.reach_inv [OF undefined_step(2) start] by blast
  qed
qed

lemma producer_alone: "i \<le> n \<Longrightarrow> \<exists>g'. alone (pc_step sp n) (Push i) g Producer_End g' \<and> finished g'"
proof (induction "nat (n - i)" arbitrary: i g)
  case 0
  let ?g = "g\<lparr>finished := True, asleep := False\<rparr>"
  have s: "pc_step sp n (Push i) g (Some (Set_Done, g))" "pc_step sp n Set_Done g (Some (Notify_All, g\<lparr>finished := True\<rparr>))"
    "pc_step sp n Notify_All (g\<lparr>finished := True\<rparr>) (Some (Producer_End, ?g))"
    using pc_step.loop_end [of i n sp g] pc_step.set_done [of sp n g] pc_step.notify_all [of sp n "g\<lparr>finished := True\<rparr>"] 0 by auto
  have "alone (pc_step sp n) (Push i) g Producer_End ?g"
    by (rule alone.moves, rule s(1), rule alone.moves, rule s(2), rule alone.moves, rule s(3), rule alone.still)
  then show ?case by (intro exI [of _ ?g]) simp
next
  case (Suc k)
  let ?g = "g\<lparr>buffer := buffer g @ [i], asleep := False\<rparr>"
  have s: "pc_step sp n (Push i) g (Some (Notify_One i, g\<lparr>buffer := buffer g @ [i]\<rparr>))"
    "pc_step sp n (Notify_One i) (g\<lparr>buffer := buffer g @ [i]\<rparr>) (Some (Push (i + 1), ?g))"
    using pc_step.push [of i n sp g] pc_step.notify_one [of sp n i "g\<lparr>buffer := buffer g @ [i]\<rparr>"] Suc.hyps(2) by auto
  have k: "k = nat (n - (i + 1))" "i + 1 \<le> n" using Suc.hyps(2) by auto
  obtain g' where g': "alone (pc_step sp n) (Push (i + 1)) ?g Producer_End g'" "finished g'"
    using Suc.hyps(1) [of "i + 1" ?g] k by blast
  have "alone (pc_step sp n) (Push i) g Producer_End g'"
    by (rule alone.moves, rule s(1), rule alone.moves, rule s(2), rule g'(1))
  then show ?case using g'(2) by blast
qed

lemma pc_can_join:
  assumes "0 \<le> n"
  shows "\<exists>r. threads_joined (pc_step sp n) pc_ended [Push 0, Wait_Or_Take] pc_start r"
proof -
  obtain g where g: "alone (pc_step sp n) (Push 0) pc_start Producer_End g" "finished g" using producer_alone [OF assms] by blast
  from alone_reach [OF g(1) thread_reach.start, of 0 "[Push 0, Wait_Or_Take]"]
  have p: "thread_reach (pc_step sp n) [Push 0, Wait_Or_Take] pc_start (Some ([Producer_End, Wait_Or_Take], g))" by simp
  obtain g' where "pc_step sp n Wait_Or_Take g (Some (Consumer_End, g'))" using pc_step.take_all [of g sp n] g(2) by auto
  then have "alone (pc_step sp n) Wait_Or_Take g Consumer_End g'" by (rule alone.moves) (rule alone.still)
  from alone_reach [OF this p, of 1]
  have "thread_reach (pc_step sp n) [Push 0, Wait_Or_Take] pc_start (Some ([Producer_End, Consumer_End], g'))" by simp
  then have "threads_joined (pc_step sp n) pc_ended [Push 0, Wait_Or_Take] pc_start (Some ([Producer_End, Consumer_End], g'))"
    by (rule threads_joined.all_joined) simp
  then show ?thesis by blast
qed

text \<open>The balances of main suffice for every transfer, so each is made whatever the order.\<close>

definition transfers_inv :: "transfers list \<Rightarrow> accounts \<Rightarrow> bool" where
  "transfers_inv ls g \<longleftrightarrow> (\<exists>k j. ls = [A_To_B k 5, B_To_A j 3] \<and> k \<le> 100 \<and> j \<le> 100 \<and>
     balance_a g = 500 + 5 * int k + 3 * (100 - int j) \<and> balance_b g = 200 + 5 * (100 - int k) + 3 * int j)"

interpretation all_transfers: thread_invariant transfer_step transfers_inv
proof unfold_locales
  fix ls g i r assume inv: "transfers_inv ls g" and i: "i < length ls" and step: "transfer_step (ls ! i) g r"
  obtain k j where k: "ls = [A_To_B k 5, B_To_A j 3]" "k \<le> 100" "j \<le> 100"
      "balance_a g = 500 + 5 * int k + 3 * (100 - int j)" "balance_b g = 200 + 5 * (100 - int k) + 3 * int j"
    using inv by (auto simp: transfers_inv_def)
  have r: "r = transfer_next (ls ! i) g" "0 < transfers_left (ls ! i)" using step by (auto elim: transfer_step.cases)
  show "\<exists>l' g'. r = Some (l', g') \<and> transfers_inv (ls[i := l']) g'"
  proof (cases i)
    case 0
    let ?g = "\<lparr>balance_a = balance_a g - 5, balance_b = balance_b g + 5\<rparr>"
    have "0 < k" using r(2) 0 k(1) by simp
    then have "transfers_inv [A_To_B (k - 1) 5, B_To_A j 3] ?g" using k by (simp add: transfers_inv_def of_nat_diff)
    moreover have "r = Some (A_To_B (k - 1) 5, ?g)" using r(1) 0 k by (simp add: transfer_def ub_simps)
    ultimately show ?thesis using 0 k(1) by simp
  next
    case (Suc m)
    let ?g = "\<lparr>balance_a = balance_a g + 3, balance_b = balance_b g - 3\<rparr>"
    have m: "m = 0" using i Suc k(1) by simp
    have "0 < j" using r(2) Suc m k(1) by simp
    then have "transfers_inv [A_To_B k 5, B_To_A (j - 1) 3] ?g" using k by (simp add: transfers_inv_def of_nat_diff)
    moreover have "r = Some (B_To_A (j - 1) 3, ?g)" using r(1) Suc m k by (simp add: transfer_def ub_simps)
    ultimately show ?thesis using Suc m k(1) by simp
  qed
qed

abbreviation "main_transfers \<equiv> [A_To_B 100 5, B_To_A 100 3]"
abbreviation "main_accounts \<equiv> \<lparr>balance_a = 1000, balance_b = 500\<rparr>"

lemma transfers_start: "transfers_inv main_transfers main_accounts"
  by (simp add: transfers_inv_def)

lemma transfers_joined:
  assumes "threads_joined transfer_step (\<lambda>l. transfers_left l = 0) main_transfers main_accounts r"
  shows "\<exists>ls. r = Some (ls, \<lparr>balance_a = 800, balance_b = 700\<rparr>)"
  using assms
proof (cases rule: threads_joined.cases)
  case (all_joined ls g)
  have "transfers_inv ls g" by (rule all_transfers.reach_inv_Some [OF all_joined(2) transfers_start])
  then have "balance_a g = 800" "balance_b g = 700" using all_joined(3) by (auto simp: transfers_inv_def)
  then show ?thesis using all_joined(1) by (cases g) simp
next
  case undefined_step
  then show ?thesis using all_transfers.reach_inv [OF undefined_step(2) transfers_start] by blast
qed

lemma transfers_progress:
  "thread_reach transfer_step main_transfers main_accounts (Some (ls, g)) \<Longrightarrow>
   \<exists>r. threads_joined transfer_step (\<lambda>l. transfers_left l = 0) main_transfers main_accounts r"
proof (induction "sum_list (map transfers_left ls)" arbitrary: ls g rule: less_induct)
  case less
  note inv = all_transfers.reach_inv_Some [OF less.prems transfers_start]
  show ?case
  proof (cases "list_all (\<lambda>l. transfers_left l = 0) ls")
    case True
    then show ?thesis using threads_joined.all_joined [OF less.prems] by blast
  next
    case False
    then obtain i where i: "i < length ls" "0 < transfers_left (ls ! i)" by (auto simp: list_all_length)
    note step = transfer_step.intros [OF i(2), of g]
    obtain l' g' where l': "transfer_next (ls ! i) g = Some (l', g')" using all_transfers.inv_step [OF inv i(1) step] by blast
    have "thread_reach transfer_step main_transfers main_accounts (Some (ls[i := l'], g'))"
      using thread_reach.step [OF less.prems i(1) step] l' by simp
    moreover have "transfers_left l' < transfers_left (ls ! i)"
      using l' i(2) by (cases "ls ! i") (auto split: bind_splits)
    then have "sum_list (map transfers_left (ls[i := l'])) < sum_list (map transfers_left ls)"
      using i(1) sum_list_update [of i "map transfers_left ls" "transfers_left l'"] member_le_sum_list [of "transfers_left (ls ! i)" "map transfers_left ls"]
      by (simp add: map_update)
    ultimately show ?thesis using less.hyps by blast
  qed
qed

text \<open>
  Claim: whatever the interleaving and the spurious wakeups, main of mutex_condvar.cpp passes its assertions and
  prints these lines, with every transfer made; such a run exists.
\<close>
theorem mutex_condvar_main_output:
  "mutex_condvar_main out \<longleftrightarrow>
     out = Some [''Producer-consumer: all 10 items consumed.'', ''After transfers: A=800 B=700 Total=1500'']"
proof -
  have lines: "show_int 10 = ''10''" "show_int 800 = ''800''" "show_int 700 = ''700''" "show_int 1500 = ''1500''" by code_simp+
  let ?j1 = "threads_joined (pc_step True 10) pc_ended [Push 0, Wait_Or_Take] pc_start"
  let ?j2 = "threads_joined transfer_step (\<lambda>l. transfers_left l = 0) main_transfers main_accounts"
  have run: "mutex_condvar_lines r1 r2 = Some [''Producer-consumer: all 10 items consumed.'', ''After transfers: A=800 B=700 Total=1500'']"
    if j: "?j1 r1" "?j2 r2" for r1 r2
  proof -
    obtain ls g where r1: "r1 = Some (ls, g)" "length (consumed g) = 10" using pc_joined [OF j(1)] by auto
    obtain ls' where r2: "r2 = Some (ls', \<lparr>balance_a = 800, balance_b = 700\<rparr>)" using transfers_joined [OF j(2)] by blast
    have "chk (800 + 700) = Some 1500" by (simp add: ub_simps)
    then show ?thesis by (simp add: mutex_condvar_lines_def r1 r2 lines)
  qed
  obtain r1 where r1: "?j1 r1" using pc_can_join [of 10 True] by auto
  obtain r2 where r2: "?j2 r2" using transfers_progress [OF thread_reach.start] by blast
  show ?thesis
  proof
    assume "mutex_condvar_main out"
    then show "out = Some [''Producer-consumer: all 10 items consumed.'', ''After transfers: A=800 B=700 Total=1500'']"
      unfolding mutex_condvar_main_def using run by fast
  next
    assume "out = Some [''Producer-consumer: all 10 items consumed.'', ''After transfers: A=800 B=700 Total=1500'']"
    then have "out = mutex_condvar_lines r1 r2" by (simp only: run [OF r1 r2])
    then show "mutex_condvar_main out"
      unfolding mutex_condvar_main_def by (intro exI [of _ r1] exI [of _ r2] conjI r1 r2)
  qed
qed

end
