(* ===== verification/Weak_Memory.thy ===== *)
theory Weak_Memory
  imports Joined_Threads
begin

text \<open>
  The memory orders that src/src/concurrency/memory_model.cpp names, with what they allow, and which of them its
  two protocols need; Weak_Atomics does the same for atomics.cpp. The model: a location
  has a history of messages, a thread a view of the message it has last seen at each location, and a load
  may return any message that is not older than its thread's view. A release store puts its thread's view
  into the message, an acquire load takes it out; a sequentially consistent load does not return a message older than
  one that another sequentially consistent access of the location has written or returned. An access of a plain object that does not see its last write is a data race, None.
  The order of the messages of a location is that in which they are written; here this loses nothing, as
  every location of these protocols is written once.
\<close>

section \<open>Histories and views\<close>

datatype memory_order = Relaxed | Acquire | Release | Seq_Cst

type_synonym 'x view = "'x \<Rightarrow> nat"

record 'x atomic_memory =
  history :: "'x \<Rightarrow> (int \<times> 'x view) list"
  sc_view :: "'x view"

definition fresh_memory :: "'x atomic_memory" where
  "fresh_memory = \<lparr>history = (\<lambda>_. [(0, \<lambda>_. 0)]), sc_view = (\<lambda>_. 0)\<rparr>"

definition join :: "'x view \<Rightarrow> 'x view \<Rightarrow> 'x view" where
  "join v w = (\<lambda>x. max (v x) (w x))"

fun acquires :: "memory_order \<Rightarrow> bool" where
  "acquires Acquire = True"
| "acquires Seq_Cst = True"
| "acquires _ = False"

fun releases :: "memory_order \<Rightarrow> bool" where
  "releases Release = True"
| "releases Seq_Cst = True"
| "releases _ = False"

text \<open>The oldest message that a load may return, and what an access of the t-th message tells later ones.\<close>

definition floor_of :: "memory_order \<Rightarrow> 'x \<Rightarrow> 'x view \<Rightarrow> 'x atomic_memory \<Rightarrow> nat" where
  "floor_of ord x v m = (if ord = Seq_Cst then max (v x) (sc_view m x) else v x)"

definition sc_out :: "memory_order \<Rightarrow> 'x \<Rightarrow> nat \<Rightarrow> 'x atomic_memory \<Rightarrow> 'x atomic_memory" where
  "sc_out ord x t m = (if ord = Seq_Cst then m\<lparr>sc_view := (sc_view m)(x := max (sc_view m x) t)\<rparr> else m)"

definition append_message :: "'x \<Rightarrow> int \<Rightarrow> 'x view \<Rightarrow> 'x atomic_memory \<Rightarrow> 'x atomic_memory" where
  "append_message x a w m = m\<lparr>history := (history m)(x := history m x @ [(a, w)])\<rparr>"

text \<open>The view a message carries: that of its thread when it is released, else only itself.\<close>

definition message_view :: "memory_order \<Rightarrow> 'x \<Rightarrow> 'x view \<Rightarrow> 'x view" where
  "message_view ord x v = (if releases ord then v else (\<lambda>_. 0)(x := v x))"

definition atomic_store :: "memory_order \<Rightarrow> 'x \<Rightarrow> int \<Rightarrow> 'x view \<Rightarrow> 'x atomic_memory \<Rightarrow> 'x view \<times> 'x atomic_memory" where
  "atomic_store ord x a v m =
     (let t = length (history m x); v1 = v(x := t) in
      (v1, sc_out ord x t (append_message x a (message_view ord x v1) m)))"

text \<open>The messages a load may return, and what it does with the t-th.\<close>

definition readable :: "memory_order \<Rightarrow> 'x \<Rightarrow> nat \<Rightarrow> 'x view \<Rightarrow> 'x atomic_memory \<Rightarrow> bool" where
  "readable ord x t v m \<longleftrightarrow> floor_of ord x v m \<le> t \<and> t < length (history m x)"

definition value_at :: "'x \<Rightarrow> nat \<Rightarrow> 'x atomic_memory \<Rightarrow> int" where
  "value_at x t m = fst (history m x ! t)"

definition load_view :: "memory_order \<Rightarrow> 'x \<Rightarrow> nat \<Rightarrow> 'x view \<Rightarrow> 'x atomic_memory \<Rightarrow> 'x view" where
  "load_view ord x t v m =
     (let v1 = v(x := t) in if acquires ord then join v1 (snd (history m x ! t)) else v1)"

text \<open>A read-modify-write reads the last message, and its own also carries what that one carries.\<close>

definition exchange :: "memory_order \<Rightarrow> 'x \<Rightarrow> int \<Rightarrow> 'x view \<Rightarrow> 'x atomic_memory \<Rightarrow> int \<times> 'x view \<times> 'x atomic_memory" where
  "exchange ord x a v m =
     (let t = length (history m x) - 1;
          v1 = (load_view ord x t v m)(x := t + 1);
          w = join (message_view ord x v1) (snd (history m x ! t)) in
      (value_at x t m, v1, sc_out ord x (t + 1) (append_message x a w m)))"

text \<open>Plain objects.\<close>

definition sees_last :: "'x \<Rightarrow> 'x view \<Rightarrow> 'x atomic_memory \<Rightarrow> bool" where
  "sees_last x v m \<longleftrightarrow> length (history m x) \<le> v x + 1"

definition last_value :: "'x \<Rightarrow> 'x atomic_memory \<Rightarrow> int" where
  "last_value x m = fst (last (history m x))"

definition plain_load :: "'x \<Rightarrow> 'x view \<Rightarrow> 'x atomic_memory \<Rightarrow> int ub" where
  "plain_load x v m = (if sees_last x v m then Some (last_value x m) else None)"

definition plain_store :: "'x \<Rightarrow> int \<Rightarrow> 'x view \<Rightarrow> 'x atomic_memory \<Rightarrow> ('x view \<times> 'x atomic_memory) ub" where
  "plain_store x a v m = (if sees_last x v m then Some (atomic_store Relaxed x a v m) else None)"

named_theorems weak_simps

lemmas [weak_simps] = floor_of_def sc_out_def append_message_def message_view_def atomic_store_def readable_def value_at_def
  load_view_def exchange_def sees_last_def last_value_def plain_load_def plain_store_def join_def fresh_memory_def Let_def

text \<open>What the accesses keep and give.\<close>

lemma store_history: "history (snd (atomic_store ord x a v m)) y =
    (if y = x then history m x @ [(a, message_view ord x (fst (atomic_store ord x a v m)))] else history m y)"
  by (simp add: weak_simps)

lemma store_sees: "y = x \<or> sees_last y v m \<Longrightarrow> sees_last y (fst (atomic_store ord x a v m)) (snd (atomic_store ord x a v m))"
  by (auto simp: weak_simps)

lemma store_others: "y \<noteq> x \<Longrightarrow> sees_last y w (snd (atomic_store ord x a v m)) \<longleftrightarrow> sees_last y w m"
  by (simp add: sees_last_def store_history)

lemma load_sees: "y \<noteq> x \<Longrightarrow> sees_last y v m \<Longrightarrow> sees_last y (load_view ord x t v m) m"
  by (auto simp: weak_simps)

lemma load_acquires:
  "acquires ord \<Longrightarrow> y \<noteq> x \<Longrightarrow> sees_last y (snd (history m x ! t)) m \<Longrightarrow> sees_last y (load_view ord x t v m) m"
  by (auto simp: weak_simps)

lemma sc_out_history [simp]: "history (sc_out ord x t m) = history m"
  by (simp add: sc_out_def)

lemma sees_last_sc_out [simp]: "sees_last x v (sc_out ord y t m) = sees_last x v m"
  by (simp add: sees_last_def)

lemma last_value_of: "map fst (history m x) = as @ [a] \<Longrightarrow> last_value x m = a"
  unfolding last_value_def by (cases "history m x" rule: rev_cases) auto

lemma reach_move:
  "thread_reach tstep ls0 g0 (Some (ls, g)) \<Longrightarrow> tstep l g r \<Longrightarrow> i < length ls \<Longrightarrow> ls ! i = l \<Longrightarrow>
   thread_reach tstep ls0 g0 (map_option (\<lambda>(l', g'). (ls[i := l'], g')) r)"
  using thread_reach.step by fastforce

section \<open>Message passing\<close>

datatype payload = X | Y | Z | Ready

type_synonym mp_thread = "messenger \<times> payload view"

fun mp_next :: "memory_order \<Rightarrow> mp_thread \<Rightarrow> payload atomic_memory \<Rightarrow> (mp_thread \<times> payload atomic_memory) ub" where
  "mp_next so (Write_X, v) m = map_option (\<lambda>(v', m'). ((Write_Y, v'), m')) (plain_store X 1 v m)"
| "mp_next so (Write_Y, v) m = map_option (\<lambda>(v', m'). ((Write_Z, v'), m')) (plain_store Y 2 v m)"
| "mp_next so (Write_Z, v) m = map_option (\<lambda>(v', m'). ((Set_Ready, v'), m')) (plain_store Z 3 v m)"
| "mp_next so (Set_Ready, v) m = (let (v', m') = atomic_store so Ready 1 v m in Some ((Sent, v'), m'))"
| "mp_next so (Read_Message, v) m = do {
     x \<leftarrow> plain_load X v m;
     y \<leftarrow> plain_load Y v m;
     z \<leftarrow> plain_load Z v m;
     _ \<leftarrow> guard (x = 1 \<and> y = 2 \<and> z = 3);
     Some ((Seen (x, y, z), v), m) }"
| "mp_next so l m = Some (l, m)"

text \<open>The store of ready has the order so, the load in the consumer's loop the order lo.\<close>

inductive mp_step :: "memory_order \<Rightarrow> memory_order \<Rightarrow> mp_thread \<Rightarrow> payload atomic_memory \<Rightarrow> (mp_thread \<times> payload atomic_memory) ub \<Rightarrow> bool"
  for so lo where
  mp_next: "fst l \<noteq> Spin \<Longrightarrow> mp_step so lo l m (mp_next so l m)"
| mp_load: "readable lo Ready t v m \<Longrightarrow>
    mp_step so lo (Spin, v) m
      (Some ((if value_at Ready t m = 0 then Spin else Read_Message, load_view lo Ready t v m), sc_out lo Ready t m))"

definition mp_threads :: "mp_thread list" where
  "mp_threads = [(Write_X, \<lambda>_. 0), (Spin, \<lambda>_. 0)]"

text \<open>What the producer has written when it is where it is.\<close>

fun written :: "messenger \<Rightarrow> payload \<Rightarrow> int list" where
  "written p X = (if p = Write_X then [0] else [0, 1])"
| "written p Y = (if p \<in> {Write_X, Write_Y} then [0] else [0, 2])"
| "written p Z = (if p \<in> {Write_X, Write_Y, Write_Z} then [0] else [0, 3])"
| "written p Ready = (if p = Sent then [0, 1] else [0])"

definition mp_inv :: "mp_thread list \<Rightarrow> payload atomic_memory \<Rightarrow> bool" where
  "mp_inv ls m \<longleftrightarrow> (\<exists>p v c w. ls = [(p, v), (c, w)] \<and> p \<in> {Write_X, Write_Y, Write_Z, Set_Ready, Sent} \<and>
     (\<forall>x. map fst (history m x) = written p x) \<and>
     (\<forall>x \<in> {X, Y, Z}. sees_last x v m) \<and>
     (p = Sent \<longrightarrow> (\<forall>x \<in> {X, Y, Z}. sees_last x (snd (history m Ready ! 1)) m)) \<and>
     (c = Spin \<or> p = Sent \<and> (\<forall>x \<in> {X, Y, Z}. sees_last x w m) \<and> (c = Read_Message \<or> c = Seen (1, 2, 3))))"

lemma plain_store_step:
  "sees_last x v m \<Longrightarrow> \<exists>v' m'. plain_store x a v m = Some (v', m') \<and> sees_last x v' m' \<and>
     map fst (history m' x) = map fst (history m x) @ [a] \<and> (\<forall>y. y \<noteq> x \<longrightarrow> history m' y = history m y) \<and>
     (\<forall>y. sees_last y v m \<longrightarrow> sees_last y v' m')"
  using store_sees [of x x v m] store_sees [of _ x v m Relaxed a]
    store_history [of Relaxed x a v m]
  by (cases "atomic_store Relaxed x a v m") (auto simp: plain_store_def)

lemma sees_last_history: "history m' x = history m x \<Longrightarrow> sees_last x v m' = sees_last x v m"
  by (simp add: sees_last_def)

lemma mp_producer:
  assumes "releases so" and inv: "mp_inv [(p, v), (c, w)] m" and "mp_step so lo (p, v) m r"
  shows "\<exists>p' v' m'. r = Some ((p', v'), m') \<and> mp_inv [(p', v'), (c, w)] m'"
proof -
  have p: "p \<in> {Write_X, Write_Y, Write_Z, Set_Ready, Sent}" and h: "map fst (history m x) = written p x"
    and see: "\<forall>x \<in> {X, Y, Z}. sees_last x v m" for x using inv by (auto simp: mp_inv_def)
  have r: "r = mp_next so (p, v) m" using assms(3) p by (auto elim: mp_step.cases)
  have c: "p \<noteq> Sent \<Longrightarrow> c = Spin" using inv by (auto simp: mp_inv_def)
  have plain: "\<exists>p' v' m'. r = Some ((p', v'), m') \<and> mp_inv [(p', v'), (c, w)] m'"
    if pq: "(p, x, a, q) \<in> {(Write_X, X, 1, Write_Y), (Write_Y, Y, 2, Write_Z), (Write_Z, Z, 3, Set_Ready)}" for x and a :: int and q
  proof -
    have "sees_last x v m" using see that by auto
    from plain_store_step [OF this, of a] obtain v' m' where s: "plain_store x a v m = Some (v', m')"
      "map fst (history m' x) = map fst (history m x) @ [a]" "\<forall>y. y \<noteq> x \<longrightarrow> history m' y = history m y"
      "\<forall>y. sees_last y v m \<longrightarrow> sees_last y v' m'" by blast
    have "map fst (history m' y) = written q y" for y using s(2,3) h that by (cases y; cases "y = x") auto
    moreover have "r = Some ((q, v'), m')" using r s(1) that by auto
    moreover have "q \<noteq> Sent" "p \<noteq> Sent" using that by auto
    ultimately show ?thesis using s(4) see c that by (auto simp: mp_inv_def)
  qed
  show ?thesis
  proof (cases "p = Set_Ready")
    case True
    obtain v' m' where s: "atomic_store so Ready 1 v m = (v', m')" by (cases "atomic_store so Ready 1 v m")
    have sees: "sees_last x v' m'" if "x \<in> {X, Y, Z}" for x using store_sees [of x Ready v m so 1] see that s by auto
    have hist: "history m' y = (if y = Ready then history m y @ [(1, message_view so Ready v')] else history m y)" for y
      using store_history [of so Ready 1 v m y] s by simp
    have len: "length (history m Ready) = 1" using arg_cong [OF h [of Ready], of length] True by simp
    have "snd (history m' Ready ! 1) = v'" using hist [of Ready] len assms(1) by (simp add: nth_append message_view_def)
    moreover have "map fst (history m' y) = written Sent y" for y using hist [of y] h [of y] True by (cases y) auto
    ultimately have "mp_inv [(Sent, v'), (c, w)] m'" using sees c True by (auto simp: mp_inv_def)
    then show ?thesis using r True s by simp
  next
    case False
    show ?thesis
    proof (cases "p = Sent")
      case True
      then show ?thesis using r inv by simp
    next
      case False
      then show ?thesis using plain p \<open>p \<noteq> Set_Ready\<close> by blast
    qed
  qed
qed

lemma mp_consumer:
  assumes "acquires lo" and inv: "mp_inv [(p, v), (c, w)] m" and step: "mp_step so lo (c, w) m r"
  shows "\<exists>c' w' m'. r = Some ((c', w'), m') \<and> mp_inv [(p, v), (c', w')] m'"
proof -
  have h: "map fst (history m x) = written p x" for x using inv by (auto simp: mp_inv_def)
  have c: "c = Spin \<or> p = Sent \<and> (\<forall>x \<in> {X, Y, Z}. sees_last x w m) \<and> (c = Read_Message \<or> c = Seen (1, 2, 3))"
    using inv by (auto simp: mp_inv_def)
  show ?thesis
  proof (cases "c = Spin")
    case True
    obtain t where t: "readable lo Ready t w m" and r: "r = Some ((if value_at Ready t m = 0 then Spin else Read_Message,
        load_view lo Ready t w m), sc_out lo Ready t m)"
      using step True by (auto elim: mp_step.cases)
    let ?m = "sc_out lo Ready t m"
    have still: "mp_inv [(p, v), (Spin, w')] ?m" for w' using inv by (auto simp: mp_inv_def)
    have val: "value_at Ready t m = written p Ready ! t" and tl: "t < length (written p Ready)"
      using t h [of Ready, symmetric] by (simp_all add: value_at_def readable_def)
    show ?thesis
    proof (cases "value_at Ready t m = 0")
      case True
      then show ?thesis using r still by simp
    next
      case False
      then have "p = Sent" "t = 1" using val tl by (auto split: if_splits simp: less_Suc_eq)
      then have "sees_last x (load_view lo Ready t w m) m" if "x \<in> {X, Y, Z}" for x
        using inv that by (intro load_acquires [OF assms(1)]) (auto simp: mp_inv_def)
      then have "mp_inv [(p, v), (Read_Message, load_view lo Ready t w m)] ?m"
        using inv \<open>p = Sent\<close> by (auto simp: mp_inv_def)
      then show ?thesis using r False by simp
    qed
  next
    case False
    then have r: "r = mp_next so (c, w) m" using step by (auto elim: mp_step.cases)
    have "last_value X m = 1" "last_value Y m = 2" "last_value Z m = 3"
      using c False h [of X] h [of Y] h [of Z] by (auto intro!: last_value_of [where as = "[0]"])
    then have "r = Some ((Seen (1, 2, 3), w), m)" using c False r by (auto simp: plain_load_def)
    then show ?thesis using inv c False by (auto simp: mp_inv_def)
  qed
qed

lemma mp_inv_start: "mp_inv mp_threads fresh_memory"
proof -
  have "map fst (history fresh_memory x) = written Write_X x" for x by (cases x) (simp_all add: fresh_memory_def)
  then show ?thesis by (simp add: mp_inv_def mp_threads_def sees_last_def fresh_memory_def)
qed

lemma mp_safe:
  assumes "releases so" "acquires lo" "thread_reach (mp_step so lo) mp_threads fresh_memory r"
  shows "\<exists>ls m. r = Some (ls, m) \<and> mp_inv ls m"
  using assms(3)
proof (induction rule: thread_reach.induct)
  case start
  then show ?case using mp_inv_start by blast
next
  case (step ls m i r)
  then obtain p v c w where ls: "ls = [(p, v), (c, w)]" and inv: "mp_inv [(p, v), (c, w)] m" by (auto simp: mp_inv_def)
  have "i = 0 \<or> i = 1" using step.hyps(2) ls by auto
  then show ?case
    using mp_producer [OF assms(1) inv, of lo r] mp_consumer [OF assms(2) inv, of so r] step.hyps(3) ls by auto
qed

text \<open>Without the pair of a release and an acquire the consumer's view does not reach the payload.\<close>

lemma mp_producer_run:
  "\<exists>v m. alone (mp_step so lo) (Write_X, \<lambda>_. 0) fresh_memory (Sent, v) m \<and> length (history m X) = 2 \<and>
     length (history m Ready) = 2 \<and> value_at Ready 1 m = 1 \<and> sc_view m Ready \<le> 1 \<and>
     (\<not> releases so \<longrightarrow> snd (history m Ready ! 1) X = 0)"
proof -
  have go: "alone (mp_step so lo) l m l2 m2" if "mp_next so l m = Some (l1, m1)" "fst l \<noteq> Spin" "alone (mp_step so lo) l1 m1 l2 m2"
    for l m l1 m1 l2 m2
    using alone.moves [OF _ that(3), of l m] mp_step.mp_next [OF that(2), of so lo m] that(1) by simp
  define v1 where "v1 = (\<lambda>_ :: payload. 0 :: nat)(X := 1)"
  define v2 where "v2 = v1(Y := 1)"
  define v3 where "v3 = v2(Z := 1)"
  define m1 where "m1 = append_message X 1 ((\<lambda>_. 0)(X := 1)) fresh_memory"
  define m2 where "m2 = append_message Y 2 ((\<lambda>_. 0)(Y := 1)) m1"
  define m3 where "m3 = append_message Z 3 ((\<lambda>_. 0)(Z := 1)) m2"
  define v4 where "v4 = v3(Ready := 1)"
  define m4 where "m4 = sc_out so Ready 1 (append_message Ready 1 (message_view so Ready v4) m3)"
  note defs = v1_def v2_def v3_def v4_def m1_def m2_def m3_def m4_def
  have s: "mp_next so (Write_X, \<lambda>_. 0) fresh_memory = Some ((Write_Y, v1), m1)"
    "mp_next so (Write_Y, v1) m1 = Some ((Write_Z, v2), m2)"
    "mp_next so (Write_Z, v2) m2 = Some ((Set_Ready, v3), m3)"
    by (simp_all add: defs weak_simps)
  have "length (history m3 Ready) = 1" by (simp add: defs weak_simps)
  then have s4: "mp_next so (Set_Ready, v3) m3 = Some ((Sent, v4), m4)" by (simp add: atomic_store_def Let_def v4_def m4_def)
  have "alone (mp_step so lo) (Write_X, \<lambda>_. 0) fresh_memory (Sent, v4) m4"
    by (rule go [OF s(1)], simp, rule go [OF s(2)], simp, rule go [OF s(3)], simp, rule go [OF s4], simp, rule alone.still)
  moreover have "length (history m4 X) = 2" "length (history m4 Ready) = 2" "value_at Ready 1 m4 = 1" "sc_view m4 Ready \<le> 1"
    by (simp_all add: defs weak_simps)
  moreover have "\<not> releases so \<longrightarrow> snd (history m4 Ready ! 1) X = 0"
    by (cases so) (simp_all add: defs weak_simps)
  ultimately show ?thesis by blast
qed

lemma mp_race:
  assumes "\<not> (releases so \<and> acquires lo)"
  shows "thread_reach (mp_step so lo) mp_threads fresh_memory None"
proof -
  obtain v m where m: "alone (mp_step so lo) (Write_X, \<lambda>_. 0) fresh_memory (Sent, v) m" "length (history m X) = 2"
      "length (history m Ready) = 2" "value_at Ready 1 m = 1" "sc_view m Ready \<le> 1"
      "\<not> releases so \<longrightarrow> snd (history m Ready ! 1) X = 0"
    using mp_producer_run by blast
  from alone_reach [OF m(1) thread_reach.start, of 0 "mp_threads"]
  have p: "thread_reach (mp_step so lo) mp_threads fresh_memory (Some ([(Sent, v), (Spin, \<lambda>_. 0)], m))" by (simp add: mp_threads_def)
  let ?w = "load_view lo Ready 1 (\<lambda>_. 0) m"
  let ?m = "sc_out lo Ready 1 m"
  have "readable lo Ready 1 (\<lambda>_. 0) m" using m(3,5) by (simp add: readable_def floor_of_def join_def)
  then have "mp_step so lo (Spin, \<lambda>_. 0) m (Some ((Read_Message, ?w), ?m))"
    using mp_step.mp_load [of lo 1 "\<lambda>_. 0" m so] m(4) by simp
  from reach_move [OF p this, of 1]
  have q: "thread_reach (mp_step so lo) mp_threads fresh_memory (Some ([(Sent, v), (Read_Message, ?w)], ?m))" by simp
  have "?w X = 0" using m(6) assms by (cases lo) (auto simp: load_view_def join_def Let_def)
  then have "mp_next so (Read_Message, ?w) ?m = None" using m(2) by (simp add: plain_load_def sees_last_def)
  then have "mp_step so lo (Read_Message, ?w) ?m None" using mp_step.mp_next [of "(Read_Message, ?w)" so lo ?m] by simp
  from reach_move [OF q this, of 1] show ?thesis by simp
qed

text \<open>
  C27: the orders of memory_model.cpp are the ones its message passing needs: of all pairs of orders for the store and the
  load of ready, the consumer can never race with the producer or see another message exactly for
  those in which the store releases and the load acquires.
\<close>
theorem message_passing_orders:
  "thread_reach (mp_step so lo) mp_threads fresh_memory None \<longleftrightarrow> \<not> (releases so \<and> acquires lo)"
  using mp_safe [of so lo None] mp_race [of so lo] by blast

section \<open>Dekker's pattern\<close>

datatype dekker_flag = Flag_A | Flag_B

fun own_flag :: "dekker_side \<Rightarrow> dekker_flag" where
  "own_flag A = Flag_A"
| "own_flag B = Flag_B"

fun other_flag :: "dekker_side \<Rightarrow> dekker_flag" where
  "other_flag A = Flag_B"
| "other_flag B = Flag_A"

type_synonym dk_thread = "dekker \<times> dekker_flag view"

type_synonym dk_shared = "dekker_flag atomic_memory \<times> int"

text \<open>
  thread_a and thread_b with the order so of their stores and lo of their loads. observer_count is counted
  with read-modify-writes and read after the threads have been joined, so it is a number.
\<close>

inductive dk_step :: "memory_order \<Rightarrow> memory_order \<Rightarrow> dk_thread \<Rightarrow> dk_shared \<Rightarrow> (dk_thread \<times> dk_shared) ub \<Rightarrow> bool"
  for so lo where
  dk_store: "atomic_store so (own_flag s) 1 v m = (v', m') \<Longrightarrow>
    dk_step so lo (Store_Flag s, v) (m, n) (Some ((Load_Flag s, v'), (m', n)))"
| dk_load: "readable lo (other_flag s) t v m \<Longrightarrow> v' = load_view lo (other_flag s) t v m \<Longrightarrow>
    dk_step so lo (Load_Flag s, v) (m, n)
      (Some ((if value_at (other_flag s) t m = 0 then Fetch_Add s else Returned s False, v'), (sc_out lo (other_flag s) t m, n)))"
| dk_count: "dk_step so lo (Fetch_Add s, v) (m, n) (Some ((Returned s True, v), (m, n + 1)))"

definition dk_threads :: "dk_thread list" where
  "dk_threads = [(Store_Flag A, \<lambda>_. 0), (Store_Flag B, \<lambda>_. 0)]"

text \<open>What holds under sequential consistency: whoever has stored its flag has made it the oldest a load may return.\<close>

fun flag_written :: "dekker \<Rightarrow> int list" where
  "flag_written (Store_Flag s) = [0]"
| "flag_written _ = [0, 1]"

definition dk_ok :: "dekker_side \<Rightarrow> dekker \<Rightarrow> dekker_flag atomic_memory \<Rightarrow> bool" where
  "dk_ok s d m \<longleftrightarrow> side_of d = s \<and> map fst (history m (own_flag s)) = flag_written d \<and>
     (d = Store_Flag s \<or> 1 \<le> sc_view m (own_flag s))"

definition dk_inv :: "dk_thread list \<Rightarrow> dk_shared \<Rightarrow> bool" where
  "dk_inv ls g \<longleftrightarrow> (\<exists>a v b w. ls = [(a, v), (b, w)] \<and> dk_ok A a (fst g) \<and> dk_ok B b (fst g) \<and>
     \<not> (entered a \<and> entered b) \<and> snd g = counted a + counted b)"

lemma dk_move:
  assumes "dk_step Seq_Cst Seq_Cst (d, v) (m, n) r" and "dk_ok s d m" "dk_ok s' d' m" "own_flag s' = other_flag s"
    and "\<not> (entered d \<and> entered d')"
  shows "\<exists>d2 v2 m2. r = Some ((d2, v2), (m2, n + counted d2 - counted d)) \<and> dk_ok s d2 m2 \<and> dk_ok s' d' m2 \<and>
    \<not> (entered d2 \<and> entered d')"
  using assms(1)
proof (cases rule: dk_step.cases)
  case (dk_store s0 v' m')
  have s: "s0 = s" "own_flag s' \<noteq> own_flag s" using assms(2,4) dk_store(1) by (cases s; simp add: dk_ok_def)+
  have h: "map fst (history m (own_flag s)) = [0]" using assms(2) dk_store(1) by (simp add: dk_ok_def)
  then have l: "length (history m (own_flag s)) = 1" by (metis length_map length_Cons list.size(3) One_nat_def)
  have m': "m' = snd (atomic_store Seq_Cst (own_flag s) 1 v m)" using dk_store(3) s by (metis snd_conv)
  then have "map fst (history m' (own_flag s)) = [0, 1]" "1 \<le> sc_view m' (own_flag s)"
    "history m' (own_flag s') = history m (own_flag s')" "sc_view m' (own_flag s') = sc_view m (own_flag s')"
    using h l s(2) by (simp_all add: weak_simps)
  then show ?thesis using dk_store assms(3) s by (auto simp: dk_ok_def)
next
  case (dk_load s0 t v')
  have s: "s0 = s" using assms(2) dk_load(1) by (simp add: dk_ok_def)
  let ?m = "sc_out Seq_Cst (other_flag s) t m"
  have ok: "dk_ok s d2 ?m" if "side_of d2 = s" "flag_written d2 = [0, 1]" for d2
    using assms(2) dk_load(1) that s by (auto simp: dk_ok_def sc_out_def max_def)
  have ok': "dk_ok s' d' ?m" using assms(3) by (auto simp: dk_ok_def sc_out_def max_def)
  show ?thesis
  proof (cases "value_at (other_flag s) t m = 0")
    case True
    have t: "sc_view m (other_flag s) \<le> t" "t < length (history m (other_flag s))"
      using dk_load(3) s by (simp_all add: readable_def floor_of_def)
    have "map fst (history m (other_flag s)) ! t = 0" using True t(2) by (simp add: value_at_def)
    then have "d' = Store_Flag s'" using assms(3,4) t by (cases d') (auto simp: dk_ok_def less_Suc_eq nth_Cons')
    then show ?thesis using dk_load ok [of "Fetch_Add s"] ok' True s by auto
  next
    case False
    then show ?thesis using dk_load ok [of "Returned s False"] ok' s by auto
  qed
next
  case (dk_count s0)
  then show ?thesis using assms(2,3,5) by (auto simp: dk_ok_def)
qed

interpretation weak_dekker: thread_invariant "dk_step Seq_Cst Seq_Cst" dk_inv
proof unfold_locales
  fix ls g i r assume inv: "dk_inv ls g" and i: "i < length ls" and step: "dk_step Seq_Cst Seq_Cst (ls ! i) g r"
  obtain a v b w m n where ls: "ls = [(a, v), (b, w)]" "g = (m, n)" and ab: "dk_ok A a m" "dk_ok B b m"
      "\<not> (entered a \<and> entered b)" "n = counted a + counted b"
    using inv by (cases g) (auto simp: dk_inv_def)
  have "i = 0 \<or> i = 1" using i ls(1) by auto
  then show "\<exists>l' g'. r = Some (l', g') \<and> dk_inv (ls[i := l']) g'"
  proof
    assume [simp]: "i = 0"
    have "dk_step Seq_Cst Seq_Cst (a, v) (m, n) r" using step ls by simp
    from dk_move [OF this ab(1,2)] ab(3,4) show ?thesis by (auto simp: ls dk_inv_def)
  next
    assume [simp]: "i = 1"
    have "dk_step Seq_Cst Seq_Cst (b, w) (m, n) r" using step ls by simp
    from dk_move [OF this ab(2,1)] ab(3,4) show ?thesis by (auto simp: ls dk_inv_def)
  qed
qed

lemma dk_safe:
  assumes "thread_reach (dk_step Seq_Cst Seq_Cst) dk_threads (fresh_memory, 0) (Some (ls, (m, n)))"
  shows "n \<le> 1"
proof -
  have "dk_inv dk_threads (fresh_memory, 0)" by (simp add: dk_inv_def dk_threads_def dk_ok_def fresh_memory_def)
  then have "dk_inv ls (m, n)" using weak_dekker.reach_inv_Some [OF assms] by blast
  then obtain a b where ab: "\<not> (entered a \<and> entered b)" "n = counted a + counted b" by (auto simp: dk_inv_def)
  have "counted d = (if entered d then counted d else 0)" "counted d \<le> 1" for d
    by (cases d rule: counted.cases; simp)+
  then show ?thesis using ab by (smt (verit))
qed

text \<open>Otherwise both threads can store, both can read the old value of the other's flag, and both count.\<close>

lemma dk_both_enter:
  assumes "so \<noteq> Seq_Cst \<or> lo \<noteq> Seq_Cst"
  shows "\<exists>ls m. thread_reach (dk_step so lo) dk_threads (fresh_memory, 0) (Some (ls, (m, 2)))"
proof -
  obtain v m1 where s1: "atomic_store so Flag_A 1 (\<lambda>_. 0) fresh_memory = (v, m1)" by (cases "atomic_store so Flag_A 1 (\<lambda>_. 0) fresh_memory")
  obtain w m2 where s2: "atomic_store so Flag_B 1 (\<lambda>_. 0) m1 = (w, m2)" by (cases "atomic_store so Flag_B 1 (\<lambda>_. 0) m1")
  have old: "readable lo Flag_B 0 v m2" "value_at Flag_B 0 m2 = 0"
    using s1 s2 assms by (auto simp: weak_simps split: if_splits)
  let ?v = "load_view lo Flag_B 0 v m2" and ?m3 = "sc_out lo Flag_B 0 m2"
  have old': "readable lo Flag_A 0 w ?m3" "value_at Flag_A 0 ?m3 = 0"
    using s1 s2 assms by (auto simp: weak_simps split: if_splits)
  let ?w = "load_view lo Flag_A 0 w ?m3" and ?m4 = "sc_out lo Flag_A 0 ?m3"
  have r0: "thread_reach (dk_step so lo) dk_threads (fresh_memory, 0) (Some (dk_threads, (fresh_memory, 0)))"
    by (rule thread_reach.start)
  have m1: "dk_step so lo (Store_Flag A, \<lambda>_. 0) (fresh_memory, 0) (Some ((Load_Flag A, v), (m1, 0)))"
    by (rule dk_step.dk_store) (simp add: s1)
  from reach_move [OF r0 m1, of 0]
  have r1: "thread_reach (dk_step so lo) dk_threads (fresh_memory, 0) (Some ([(Load_Flag A, v), (Store_Flag B, \<lambda>_. 0)], (m1, 0)))"
    by (simp add: dk_threads_def)
  have m2: "dk_step so lo (Store_Flag B, \<lambda>_. 0) (m1, 0) (Some ((Load_Flag B, w), (m2, 0)))"
    by (rule dk_step.dk_store) (simp add: s2)
  from reach_move [OF r1 m2, of 1]
  have r2: "thread_reach (dk_step so lo) dk_threads (fresh_memory, 0) (Some ([(Load_Flag A, v), (Load_Flag B, w)], (m2, 0)))" by simp
  have m3: "dk_step so lo (Load_Flag A, v) (m2, 0) (Some ((Fetch_Add A, ?v), (?m3, 0)))"
    using dk_step.dk_load [of lo A 0 v m2 ?v so 0] old by simp
  from reach_move [OF r2 m3, of 0]
  have r3: "thread_reach (dk_step so lo) dk_threads (fresh_memory, 0) (Some ([(Fetch_Add A, ?v), (Load_Flag B, w)], (?m3, 0)))" by simp
  have m4: "dk_step so lo (Load_Flag B, w) (?m3, 0) (Some ((Fetch_Add B, ?w), (?m4, 0)))"
    using dk_step.dk_load [of lo B 0 w ?m3 ?w so 0] old' by simp
  from reach_move [OF r3 m4, of 1]
  have r4: "thread_reach (dk_step so lo) dk_threads (fresh_memory, 0) (Some ([(Fetch_Add A, ?v), (Fetch_Add B, ?w)], (?m4, 0)))" by simp
  from reach_move [OF r4 dk_step.dk_count, of 0]
  have r5: "thread_reach (dk_step so lo) dk_threads (fresh_memory, 0) (Some ([(Returned A True, ?v), (Fetch_Add B, ?w)], (?m4, 1)))" by simp
  from reach_move [OF r5 dk_step.dk_count, of 1] show ?thesis by auto
qed

text \<open>
  C25: Dekker's pattern needs sequential consistency on both accesses, as memory_model.cpp says: both threads can get past
  the other's flag, so that main's assertion fails, for exactly the pairs of orders in which the store or the load
  is weaker.
\<close>
theorem dekker_orders:
  "(\<exists>ls m. thread_reach (dk_step so lo) dk_threads (fresh_memory, 0) (Some (ls, (m, 2)))) \<longleftrightarrow> \<not> (so = Seq_Cst \<and> lo = Seq_Cst)"
proof
  assume "\<exists>ls m. thread_reach (dk_step so lo) dk_threads (fresh_memory, 0) (Some (ls, (m, 2)))"
  then show "\<not> (so = Seq_Cst \<and> lo = Seq_Cst)" using dk_safe by force
next
  assume "\<not> (so = Seq_Cst \<and> lo = Seq_Cst)"
  then show "\<exists>ls m. thread_reach (dk_step so lo) dk_threads (fresh_memory, 0) (Some (ls, (m, 2)))" using dk_both_enter by blast
qed

end
