(* ===== verification/Weak_Atomics.thy ===== *)
theory Weak_Atomics
  imports Weak_Memory
begin

text \<open>
  src/src/concurrency/atomics.cpp under its memory orders, in the model of Weak_Memory: the spinlock needs its release
  and its acquire, the maximum needs no order. The messages of the lock and of the maximum are in the order
  in which they are written, as read-modify-writes have their place directly after the message they read, and
  the lock is cleared by the thread whose exchange was the last that did not find it taken.
\<close>

section \<open>The spinlock\<close>

datatype spin_place = Lock | Val

type_synonym ws_thread = "spin_thread \<times> spin_place view"

text \<open>
  The threads of atomics.cpp around the lock: test_and_set with the order lo, the increment of the plain int as a read
  and a write, clear with the order so.
\<close>

fun ws_next :: "memory_order \<Rightarrow> memory_order \<Rightarrow> ws_thread \<Rightarrow> spin_place atomic_memory \<Rightarrow> (ws_thread \<times> spin_place atomic_memory) ub" where
  "ws_next so lo (Locking (Suc j), v) m =
     (let (old, v', m') = exchange lo Lock 1 v m in Some ((if old = 0 then Reading j else Locking (Suc j), v'), m'))"
| "ws_next so lo (Locking 0, v) m = Some ((Locking 0, v), m)"
| "ws_next so lo (Reading j, v) m = do { a \<leftarrow> plain_load Val v m; Some ((Writing j a, v), m) }"
| "ws_next so lo (Writing j a, v) m = do {
     b \<leftarrow> chk (a + 1);
     (v', m') \<leftarrow> plain_store Val b v m;
     Some ((Unlocking j, v'), m') }"
| "ws_next so lo (Unlocking j, v) m = (let (v', m') = atomic_store so Lock 0 v m in Some ((Locking j, v'), m'))"

inductive ws_step :: "memory_order \<Rightarrow> memory_order \<Rightarrow> ws_thread \<Rightarrow> spin_place atomic_memory \<Rightarrow> (ws_thread \<times> spin_place atomic_memory) ub \<Rightarrow> bool"
  for so lo where
  running: "fst l \<noteq> Locking 0 \<Longrightarrow> ws_step so lo l m (ws_next so lo l m)"

definition ws_threads :: "nat list \<Rightarrow> ws_thread list" where
  "ws_threads ns = map (\<lambda>n. (Locking n, \<lambda>_. 0)) ns"

text \<open>The holder of the lock sees the last value, and so does whoever takes the lock when it is free.\<close>

definition ws_ok :: "spin_place atomic_memory \<Rightarrow> ws_thread \<Rightarrow> bool" where
  "ws_ok m t \<longleftrightarrow> critical (fst t) = 0 \<or> sees_last Val (snd t) m \<and> (\<forall>j r. fst t = Writing j r \<longrightarrow> r = last_value Val m)"

definition ws_inv :: "ws_thread list \<Rightarrow> spin_place atomic_memory \<Rightarrow> bool" where
  "ws_inv ls m \<longleftrightarrow> weigh (critical \<circ> fst) ls = (if last_value Lock m = 0 then 0 else 1) \<and>
     history m Lock \<noteq> [] \<and> (last_value Lock m = 0 \<longrightarrow> sees_last Val (snd (last (history m Lock))) m) \<and>
     (\<forall>t \<in> set ls. ws_ok m t) \<and>
     0 \<le> last_value Val m \<and> last_value Val m + sum_list (map (increments_left \<circ> fst) ls) \<le> INT_MAX"

lemma exchange_facts:
  assumes "exchange ord x a v m = (old, v', m')" and "history m x \<noteq> []"
  shows "old = last_value x m" and "last_value x m' = a" and "history m' x \<noteq> []" and "y \<noteq> x \<Longrightarrow> history m' y = history m y"
    and "y \<noteq> x \<Longrightarrow> acquires ord \<Longrightarrow> sees_last y (snd (last (history m x))) m \<Longrightarrow> sees_last y v' m'"
    and "y \<noteq> x \<Longrightarrow> sees_last y v m \<Longrightarrow> sees_last y v' m'"
proof -
  have l: "history m x ! (length (history m x) - 1) = last (history m x)" using assms(2) by (simp add: last_conv_nth)
  then show "old = last_value x m" using assms(1) by (auto simp: exchange_def value_at_def last_value_def Let_def)
  have v': "v' = (load_view ord x (length (history m x) - 1) v m)(x := length (history m x))"
    using assms by (auto simp: exchange_def Let_def)
  have h: "\<exists>w. history m' = (history m)(x := history m x @ [(a, w)])"
    using assms(1) by (auto simp: exchange_def Let_def append_message_def)
  then show "last_value x m' = a" "history m' x \<noteq> []" "y \<noteq> x \<Longrightarrow> history m' y = history m y" by (auto simp: last_value_def)
  show "y \<noteq> x \<Longrightarrow> acquires ord \<Longrightarrow> sees_last y (snd (last (history m x))) m \<Longrightarrow> sees_last y v' m'"
    using h v' l by (auto simp: sees_last_def load_view_def join_def)
  show "y \<noteq> x \<Longrightarrow> sees_last y v m \<Longrightarrow> sees_last y v' m'"
    using h v' by (auto simp: sees_last_def load_view_def join_def Let_def)
qed

lemma last_value_eq: "history m' x = history m x \<Longrightarrow> last_value x m' = last_value x m"
  by (simp add: last_value_def)

lemma ws_ok_eq: "history m' Val = history m Val \<Longrightarrow> ws_ok m' t = ws_ok m t"
  by (simp add: ws_ok_def sees_last_def last_value_def)

lemma ws_inv_step:
  assumes orders: "releases so" "acquires lo" and inv: "ws_inv ls m" and i: "i < length ls" and step: "ws_step so lo (ls ! i) m r"
  shows "\<exists>l' m'. r = Some (l', m') \<and> ws_inv (ls[i := l']) m' \<and>
    last_value Val m' + increments_left (fst l') = last_value Val m + increments_left (fst (ls ! i))"
proof -
  obtain l v where lv: "ls ! i = (l, v)" by (cases "ls ! i")
  have r: "r = ws_next so lo (l, v) m" and l: "l \<noteq> Locking 0" using step lv by (auto elim: ws_step.cases)
  have ok: "ws_ok m (l, v)" using inv i lv by (metis ws_inv_def nth_mem)
  have w: "weigh (critical \<circ> fst) (ls[i := l']) + critical l = weigh (critical \<circ> fst) ls + critical (fst l')" for l'
    using weigh_update [OF i, of "critical \<circ> fst" l'] lv by simp
  have s: "sum_list (map (increments_left \<circ> fst) (ls[i := l'])) =
      sum_list (map (increments_left \<circ> fst) ls) + increments_left (fst l') - increments_left l" for l'
    using sum_list_map_upd [OF i, of "increments_left \<circ> fst" l'] lv by simp
  have locked: "last_value Lock m \<noteq> 0" if "critical l = 1"
    using inv weigh_ge [OF i, of "critical \<circ> fst"] lv that by (auto simp: ws_inv_def split: if_splits)
  have alone: "t = l' \<or> critical (fst t) = 0" if "critical l = 1" "t \<in> set (ls[i := l'])" for t l'
    using weigh_others [of "critical \<circ> fst" ls i t l'] i that inv locked lv by (auto simp: ws_inv_def)
  have stay: "ws_inv (ls[i := l']) m'"
    if "weigh (critical \<circ> fst) (ls[i := l']) = (if last_value Lock m' = 0 then 0 else 1)" "history m' Lock \<noteq> []"
      "last_value Lock m' = 0 \<longrightarrow> sees_last Val (snd (last (history m' Lock))) m'" "\<forall>t \<in> set (ls[i := l']). ws_ok m' t"
      "last_value Val m' + increments_left (fst l') = last_value Val m + increments_left l" "0 \<le> last_value Val m'" for l' m'
    using that inv s [of l'] by (simp add: ws_inv_def)
  show ?thesis
  proof (cases l)
    case (Locking k)
    then obtain j where j: "l = Locking (Suc j)" using l by (cases k) auto
    obtain old v' m' where e: "exchange lo Lock 1 v m = (old, v', m')" by (metis prod_cases3)
    have ne: "history m Lock \<noteq> []" using inv by (simp add: ws_inv_def)
    note f = exchange_facts [OF e ne]
    have val: "history m' Val = history m Val" using f(4) [of Val] by simp
    let ?l = "(if old = 0 then Reading j else Locking (Suc j), v')"
    have "ws_ok m' t" if "t \<in> set (ls[i := ?l])" for t
    proof (cases "t = ?l")
      case True
      then show ?thesis using f(1) f(5) [of Val] orders(2) inv by (auto simp: ws_ok_def ws_inv_def)
    next
      case False
      then show ?thesis using in_update [OF that] inv ws_ok_eq [OF val] by (auto simp: ws_inv_def)
    qed
    moreover have "weigh (critical \<circ> fst) (ls[i := ?l]) = 1" using w [of ?l] inv f(1) j by (auto simp: ws_inv_def split: if_splits)
    ultimately have "ws_inv (ls[i := ?l]) m'"
      using inv j f(2,3) last_value_eq [OF val] by (intro stay) (auto simp: ws_inv_def)
    then show ?thesis using r j e last_value_eq [OF val] lv by simp
  next
    case (Reading j)
    then have see: "sees_last Val v m" using ok by (simp add: ws_ok_def)
    let ?l = "(Writing j (last_value Val m), v)"
    have "ws_inv (ls[i := ?l]) m"
      using inv see Reading w [of ?l] by (intro stay) (auto simp: ws_inv_def ws_ok_def dest!: in_update)
    then show ?thesis using r Reading see lv by (simp add: plain_load_def)
  next
    case (Writing j a)
    then have see: "sees_last Val v m" and a: "a = last_value Val m" using ok by (simp_all add: ws_ok_def)
    have "last_value Val m + 1 \<le> INT_MAX" using inv increments_left_le [of i "map fst ls"] i lv Writing by (simp add: ws_inv_def)
    then have c: "chk (a + 1) = Some (a + 1)" using inv a by (simp add: ub_simps ws_inv_def)
    obtain v' m' where p: "plain_store Val (a + 1) v m = Some (v', m')" "sees_last Val v' m'"
      "map fst (history m' Val) = map fst (history m Val) @ [a + 1]" "\<forall>y. y \<noteq> Val \<longrightarrow> history m' y = history m y"
      using plain_store_step [OF see, of "a + 1"] by blast
    have v: "last_value Val m' = a + 1" using last_value_of [OF p(3)] .
    have lock: "history m' Lock = history m Lock" using p(4) by simp
    note lock = lock last_value_eq [OF lock]
    let ?l = "(Unlocking j, v')"
    have "ws_ok m' t" if "t \<in> set (ls[i := ?l])" for t using alone [OF _ that] p(2) Writing by (auto simp: ws_ok_def)
    then have "ws_inv (ls[i := ?l]) m'"
      using inv lock locked v a Writing w [of ?l] by (intro stay) (auto simp: ws_inv_def)
    then show ?thesis using r Writing c p(1) v a lv by simp
  next
    case (Unlocking j)
    then have see: "sees_last Val v m" using ok by (simp add: ws_ok_def)
    obtain v' m' where e: "atomic_store so Lock 0 v m = (v', m')" by (cases "atomic_store so Lock 0 v m")
    have h: "history m' Lock = history m Lock @ [(0, message_view so Lock v')]" "history m' Val = history m Val"
      using store_history [of so Lock 0 v m Lock] store_history [of so Lock 0 v m Val] e by simp_all
    have "sees_last Val v' m'" using store_sees [of Val Lock v m so 0] see e by simp
    then have see': "sees_last Val (snd (last (history m' Lock))) m'" using h orders(1) by (simp add: message_view_def)
    let ?l = "(Locking j, v')"
    have "ws_ok m' t" if "t \<in> set (ls[i := ?l])" for t using alone [OF _ that] Unlocking by (auto simp: ws_ok_def)
    moreover have "weigh (critical \<circ> fst) (ls[i := ?l]) = 0" using w [of ?l] inv locked Unlocking by (auto simp: ws_inv_def)
    moreover have "last_value Lock m' = 0" using h(1) by (simp add: last_value_def)
    ultimately have "ws_inv (ls[i := ?l]) m'"
      using inv h see' last_value_eq [OF h(2)] Unlocking by (intro stay) (auto simp: ws_inv_def)
    then show ?thesis using r Unlocking e last_value_eq [OF h(2)] lv by simp
  qed
qed

lemma ws_inv_start: "int (sum_list ns) \<le> INT_MAX \<Longrightarrow> ws_inv (ws_threads ns) fresh_memory"
proof -
  have "sum_list (map (increments_left \<circ> fst) (ws_threads ns)) = int (sum_list ns)" by (induction ns) (auto simp: ws_threads_def)
  moreover have "weigh (critical \<circ> fst) (ws_threads ns) = 0" by (auto simp: weigh_0_iff ws_threads_def)
  ultimately show "int (sum_list ns) \<le> INT_MAX \<Longrightarrow> ?thesis"
    by (auto simp: ws_inv_def ws_ok_def ws_threads_def last_value_def sees_last_def fresh_memory_def)
qed

text \<open>The pair of orders as a parameter of the invariant, which holds nothing of a run with other orders.\<close>

definition ws_inv_if :: "bool \<Rightarrow> ws_thread list \<Rightarrow> spin_place atomic_memory \<Rightarrow> bool" where
  "ws_inv_if ordered ls m \<longleftrightarrow> ordered \<and> ws_inv ls m"

interpretation weak_spinlock: thread_conservation "ws_step so lo" "ws_inv_if (releases so \<and> acquires lo)" "last_value Val" "increments_left \<circ> fst"
  for so lo
proof unfold_locales
  fix ls m i r assume "ws_inv_if (releases so \<and> acquires lo) ls m" "i < length ls" "ws_step so lo (ls ! i) m r"
  then show "\<exists>l' m'. r = Some (l', m') \<and> ws_inv_if (releases so \<and> acquires lo) (ls[i := l']) m'"
    using ws_inv_step unfolding ws_inv_if_def by metis
next
  fix ls m i l' m' assume "ws_inv_if (releases so \<and> acquires lo) ls m" "i < length ls" "ws_step so lo (ls ! i) m (Some (l', m'))"
  then show "last_value Val m' + (increments_left \<circ> fst) l' = last_value Val m + (increments_left \<circ> fst) (ls ! i)"
    using ws_inv_step [of so lo ls m i "Some (l', m')"] unfolding ws_inv_if_def by auto
qed

text \<open>
  C26: with a releasing clear and an acquiring test_and_set the spinlock of atomics.cpp protects a plain int between any
  number of threads: no access is a data race, at most one thread is between lock and unlock, and in the end no
  increment is lost.
\<close>
theorem weak_spinlock_safe:
  assumes "releases so" "acquires lo" and "int (sum_list ns) \<le> INT_MAX"
    and "thread_reach (ws_step so lo) (ws_threads ns) fresh_memory r"
  shows "\<exists>ls m. r = Some (ls, m) \<and> weigh (critical \<circ> fst) ls \<le> 1 \<and>
    (fst ` set ls \<subseteq> {Locking 0} \<longrightarrow> last_value Val m = int (sum_list ns))"
proof -
  have start: "ws_inv_if (releases so \<and> acquires lo) (ws_threads ns) fresh_memory"
    using ws_inv_start [OF assms(3)] assms(1,2) by (simp add: ws_inv_if_def)
  obtain ls m where r: "r = Some (ls, m)" and inv: "ws_inv ls m"
    using weak_spinlock.reach_inv [OF assms(4) start] by (auto simp: ws_inv_if_def)
  have "last_value Val m = last_value Val fresh_memory + sum_list (map (increments_left \<circ> fst) (ws_threads ns))"
    if "fst ` set ls \<subseteq> {Locking 0}"
    by (rule weak_spinlock.reach_done [OF assms(4) [unfolded r] start]) (use that in auto)
  moreover have "sum_list (map (increments_left \<circ> fst) (ws_threads ns)) = int (sum_list ns)" by (induction ns) (auto simp: ws_threads_def)
  ultimately show ?thesis using r inv by (auto simp: ws_inv_def last_value_def fresh_memory_def)
qed

lemma ws_first_thread:
  "\<exists>v m. alone (ws_step so lo) (Locking 1, \<lambda>_. 0) fresh_memory (Locking 0, v) m \<and> length (history m Val) = 2 \<and>
     history m Lock \<noteq> [] \<and> last_value Lock m = 0 \<and> last_value Val m = 1 \<and> (\<not> releases so \<longrightarrow> snd (last (history m Lock)) Val = 0)"
proof -
  have go: "alone (ws_step so lo) l m l2 m2" if "ws_next so lo l m = Some (l1, m1)" "fst l \<noteq> Locking 0" "alone (ws_step so lo) l1 m1 l2 m2"
    for l m l1 m1 l2 m2
    using alone.moves [OF _ that(3), of l m] ws_step.running [OF that(2), of so lo m] that(1) by simp
  obtain old v1 m1 where e: "exchange lo Lock 1 (\<lambda>_. 0) fresh_memory = (old, v1, m1)" by (metis prod_cases3)
  have ne: "history (fresh_memory :: spin_place atomic_memory) Lock \<noteq> []" by (simp add: fresh_memory_def)
  note f = exchange_facts [OF e ne]
  have val: "history m1 Val = [(0, \<lambda>_. 0)]" using f(4) [of Val] by (simp add: fresh_memory_def)
  have s1: "ws_next so lo (Locking (Suc 0), \<lambda>_. 0) fresh_memory = Some ((Reading 0, v1), m1)"
    using e f(1) by (simp add: last_value_def fresh_memory_def)
  have see: "sees_last Val v1 m1" by (simp add: sees_last_def val)
  have s2: "ws_next so lo (Reading 0, v1) m1 = Some ((Writing 0 0, v1), m1)" using see by (simp add: plain_load_def last_value_def val)
  obtain v2 m2 where p: "plain_store Val 1 v1 m1 = Some (v2, m2)" "map fst (history m2 Val) = map fst (history m1 Val) @ [1]"
    using plain_store_step [OF see, of 1] by blast
  have s3: "ws_next so lo (Writing 0 0, v1) m1 = Some ((Unlocking 0, v2), m2)" using p(1) by (simp add: ub_simps)
  obtain v3 m3 where t: "atomic_store so Lock 0 v2 m2 = (v3, m3)" by (cases "atomic_store so Lock 0 v2 m2")
  have s4: "ws_next so lo (Unlocking 0, v2) m2 = Some ((Locking 0, v3), m3)" using t by simp
  have h: "history m3 Lock = history m2 Lock @ [(0, message_view so Lock v3)]" "history m3 Val = history m2 Val"
    using store_history [of so Lock 0 v2 m2 Lock] store_history [of so Lock 0 v2 m2 Val] t by simp_all
  have "alone (ws_step so lo) (Locking (Suc 0), \<lambda>_. 0) fresh_memory (Locking 0, v3) m3"
    by (rule go [OF s1], simp, rule go [OF s2], simp, rule go [OF s3], simp, rule go [OF s4], simp, rule alone.still)
  moreover have "map fst (history m3 Val) = [0, 1]" using p(2) h(2) val by simp
  moreover have "length (history m3 Val) = 2" using arg_cong [OF calculation(2), of length] by simp
  moreover have "last_value Val m3 = 1" using last_value_of [of m3 Val "[0]" 1] calculation(2) by simp
  ultimately show ?thesis using h(1) by (intro exI [of _ v3] exI [of _ m3]) (auto simp: last_value_def message_view_def)
qed

lemma ws_race:
  assumes "\<not> (releases so \<and> acquires lo)"
  shows "thread_reach (ws_step so lo) (ws_threads [1, 1]) fresh_memory None"
proof -
  obtain v m where m: "alone (ws_step so lo) (Locking 1, \<lambda>_. 0) fresh_memory (Locking 0, v) m" "length (history m Val) = 2"
      "history m Lock \<noteq> []" "last_value Lock m = 0" "\<not> releases so \<longrightarrow> snd (last (history m Lock)) Val = 0"
    using ws_first_thread by blast
  from alone_reach [OF m(1) thread_reach.start, of 0 "ws_threads [1, 1]"]
  have p: "thread_reach (ws_step so lo) (ws_threads [1, 1]) fresh_memory (Some ([(Locking 0, v), (Locking 1, \<lambda>_. 0)], m))"
    by (simp add: ws_threads_def)
  obtain old w m' where e: "exchange lo Lock 1 (\<lambda>_. 0) m = (old, w, m')" by (metis prod_cases3)
  note f = exchange_facts [OF e m(3)]
  have l: "history m Lock ! (length (history m Lock) - 1) = last (history m Lock)" using m(3) by (simp add: last_conv_nth)
  have w: "w = (load_view lo Lock (length (history m Lock) - 1) (\<lambda>_. 0) m)(Lock := length (history m Lock))"
    using e m(3) by (auto simp: exchange_def Let_def)
  have "w Val = 0" using assms m(5) l by (auto simp: w load_view_def join_def Let_def)
  then have race: "\<not> sees_last Val w m'" using m(2) f(4) [of Val] by (simp add: sees_last_def)
  have "ws_next so lo (Locking 1, \<lambda>_. 0) m = Some ((Reading 0, w), m')" using e f(1) m(4) by (simp add: One_nat_def)
  then have "ws_step so lo (Locking 1, \<lambda>_. 0) m (Some ((Reading 0, w), m'))" using ws_step.running [of "(Locking 1, \<lambda>_. 0)" so lo m] by simp
  from reach_move [OF p this, of 1]
  have q: "thread_reach (ws_step so lo) (ws_threads [1, 1]) fresh_memory (Some ([(Locking 0, v), (Reading 0, w)], m'))" by simp
  have "ws_step so lo (Reading 0, w) m' None" using ws_step.running [of "(Reading 0, w)" so lo m'] race by (simp add: plain_load_def)
  from reach_move [OF q this, of 1] show ?thesis by simp
qed

text \<open>
  Claim: the orders of the spinlock are the ones it needs: two threads that increment once under it can race on the
  plain int exactly when the clear does not release or the test_and_set does not acquire.
\<close>
theorem spinlock_orders:
  "thread_reach (ws_step so lo) (ws_threads [1, 1]) fresh_memory None \<longleftrightarrow> \<not> (releases so \<and> acquires lo)"
proof
  assume "thread_reach (ws_step so lo) (ws_threads [1, 1]) fresh_memory None"
  from weak_spinlock.reach_inv [OF this] show "\<not> (releases so \<and> acquires lo)"
    using ws_inv_start [of "[1, 1]"] by (auto simp: ws_inv_if_def ub_simps)
qed (rule ws_race)

lemma ws_one_run:
  "\<exists>v m. thread_reach (ws_step Release Acquire) (ws_threads [1]) fresh_memory (Some ([(Locking 0, v)], m)) \<and> last_value Val m = 1"
proof -
  obtain v m where m: "alone (ws_step Release Acquire) (Locking 1, \<lambda>_. 0) fresh_memory (Locking 0, v) m" "last_value Val m = 1"
    using ws_first_thread by blast
  from alone_reach [OF m(1) thread_reach.start, of 0 "ws_threads [1]"] show ?thesis using m(2) by (auto simp: ws_threads_def)
qed

theorem weak_spinlock_safe_witness:
  "\<exists>v m. thread_reach (ws_step Release Acquire) (ws_threads [1]) fresh_memory (Some ([(Locking 0, v)], m)) \<and>
     last_value Val m = int (sum_list [1])"
proof -
  obtain v m where r: "thread_reach (ws_step Release Acquire) (ws_threads [1]) fresh_memory (Some ([(Locking 0, v)], m))"
    using ws_one_run by blast
  have "last_value Val m = int (sum_list [1])"
    using weak_spinlock_safe [OF _ _ _ r] by (simp add: ub_simps)
  then show ?thesis using r by blast
qed

section \<open>The maximum\<close>

text \<open>
  update_max of atomics.cpp with the orders so of a successful exchange and fo of the load and of a failed one:
  the load, and a failed exchange, which may fail for no reason, may return an old value.
\<close>

type_synonym wm_thread = "max_thread \<times> unit view"

inductive wm_step :: "memory_order \<Rightarrow> memory_order \<Rightarrow> wm_thread \<Rightarrow> unit atomic_memory \<Rightarrow> (wm_thread \<times> unit atomic_memory) ub \<Rightarrow> bool"
  for so fo where
  wm_load: "readable fo () t v m \<Longrightarrow>
    wm_step so fo (Load p, v) m (Some ((Loop p (value_at () t m), load_view fo () t v m), sc_out fo () t m))"
| wm_leave: "\<not> p > c \<Longrightarrow> wm_step so fo (Loop p c, v) m (Some ((Done p, v), m))"
| wm_exchange: "p > c \<Longrightarrow> exchange so () p v m = (c, v', m') \<Longrightarrow> wm_step so fo (Loop p c, v) m (Some ((Done p, v'), m'))"
| wm_fail: "p > c \<Longrightarrow> readable fo () t v m \<Longrightarrow>
    wm_step so fo (Loop p c, v) m (Some ((Loop p (value_at () t m), load_view fo () t v m), sc_out fo () t m))"

definition wm_threads :: "int list \<Rightarrow> wm_thread list" where
  "wm_threads ps = map (\<lambda>p. (Load p, \<lambda>_. 0)) ps"

text \<open>No message is greater than the last, so an old value that is not below the proposal settles it.\<close>

fun wm_ok :: "int \<Rightarrow> max_thread \<Rightarrow> bool" where
  "wm_ok b (Load p) = True"
| "wm_ok b (Loop p c) = (c \<le> b)"
| "wm_ok b (Done p) = (p \<le> b)"

definition wm_inv :: "int list \<Rightarrow> wm_thread list \<Rightarrow> unit atomic_memory \<Rightarrow> bool" where
  "wm_inv ps ls m \<longleftrightarrow> map (proposal \<circ> fst) ls = ps \<and> history m () \<noteq> [] \<and> fst ` set (history m ()) \<subseteq> insert 0 (set ps) \<and>
     (\<forall>a \<in> insert 0 (fst ` set (history m ())). a \<le> last_value () m) \<and> (\<forall>l \<in> set ls. wm_ok (last_value () m) (fst l))"

lemma wm_ok_mono: "wm_ok a l \<Longrightarrow> a \<le> b \<Longrightarrow> wm_ok b l"
  by (cases l) auto

lemma wm_inv_step:
  assumes inv: "wm_inv ps ls m" and i: "i < length ls" and step: "wm_step so fo (ls ! i) m r"
  shows "\<exists>l' m'. r = Some (l', m') \<and> wm_inv ps (ls[i := l']) m'"
proof -
  have old: "value_at () t m \<le> last_value () m" if "readable fo () t v m" for t v
    using inv that by (auto simp: wm_inv_def readable_def value_at_def)
  have same: "wm_inv ps (ls[i := l']) (sc_out ord () t m)"
    if "proposal (fst l') = proposal (fst (ls ! i))" "wm_ok (last_value () m) (fst l')" for l' ord t
    using inv that map_upd_same [OF i, of "proposal \<circ> fst" l'] by (auto simp: wm_inv_def last_value_def dest!: in_update)
  have ok: "wm_ok (last_value () m) (fst (ls ! i))" using inv i by (simp add: wm_inv_def)
  from step show ?thesis
  proof (cases rule: wm_step.cases)
    case (wm_load t v p)
    then show ?thesis using same [of "(Loop p (value_at () t m), load_view fo () t v m)" fo t] old by simp
  next
    case (wm_leave p c v)
    then show ?thesis using same [of "(Done p, v)" Relaxed 0] ok by (simp add: sc_out_def)
  next
    case (wm_fail p c t v)
    then show ?thesis using same [of "(Loop p (value_at () t m), load_view fo () t v m)" fo t] old by simp
  next
    case (wm_exchange p c v v' m')
    have ne: "history m () \<noteq> []" using inv by (simp add: wm_inv_def)
    note f = exchange_facts [OF wm_exchange(4) ne]
    obtain w where h: "history m' () = history m () @ [(p, w)]"
      using wm_exchange(4) by (auto simp: exchange_def Let_def append_message_def)
    have p: "p \<in> set ps" using inv i wm_exchange(1) unfolding wm_inv_def
      by (metis comp_apply fst_conv length_map nth_map nth_mem proposal.simps(2))
    have le: "last_value () m \<le> last_value () m'" using f(1,2) wm_exchange(3) by simp
    have "wm_ok (last_value () m') (fst l)" if "l \<in> set (ls[i := (Done p, v')])" for l
      using in_update [OF that] inv le f(2) wm_ok_mono by (auto simp: wm_inv_def)
    moreover have "map (proposal \<circ> fst) (ls[i := (Done p, v')]) = ps"
      using inv map_upd_same [OF i, of "proposal \<circ> fst" "(Done p, v')"] wm_exchange(1) by (simp add: wm_inv_def)
    moreover have "\<forall>a \<in> insert 0 (fst ` set (history m' ())). a \<le> last_value () m'"
      using inv le f(2) h by (fastforce simp: wm_inv_def)
    ultimately have "wm_inv ps (ls[i := (Done p, v')]) m'" using inv h p by (auto simp: wm_inv_def)
    then show ?thesis using wm_exchange(2) by blast
  qed
qed

interpretation weak_max: thread_invariant "wm_step so fo" "wm_inv ps" for so fo ps
  by unfold_locales (rule wm_inv_step)

text \<open>
  Claim: the maximum needs no order at all: for any orders of its accesses, relaxed ones too, no step of update_max is undefined,
  and when all threads are done the last value is the greatest of the proposals and the initial 0.
\<close>
theorem weak_max_final:
  assumes "thread_reach (wm_step so fo) (wm_threads ps) fresh_memory r"
  shows "\<exists>ls m. r = Some (ls, m) \<and>
    (list_all (max_done \<circ> fst) ls \<longrightarrow> last_value () m = Max (insert 0 (set ps)))"
proof -
  have "wm_inv ps (wm_threads ps) fresh_memory"
    by (auto simp: wm_inv_def wm_threads_def fresh_memory_def last_value_def comp_def)
  then obtain ls m where r: "r = Some (ls, m)" and inv: "wm_inv ps ls m" using weak_max.reach_inv [OF assms] by blast
  have "last_value () m = Max (insert 0 (set ps))" if fin: "list_all (max_done \<circ> fst) ls"
  proof -
    have "p \<le> last_value () m" if p: "p \<in> set ps" for p
    proof -
      have "ps = map (proposal \<circ> fst) ls" using inv by (simp add: wm_inv_def)
      then have "p \<in> (proposal \<circ> fst) ` set ls" using p by (simp only: set_map)
      then obtain l where l: "l \<in> set ls" "proposal (fst l) = p" by auto
      then have "fst l = Done p" using fin by (cases "fst l") (auto simp: list_all_iff)
      then show ?thesis using inv l(1) by (fastforce simp: wm_inv_def)
    qed
    moreover have "last_value () m \<in> insert 0 (set ps)"
      using inv last_in_set [of "history m ()"] unfolding wm_inv_def last_value_def by blast
    moreover have "0 \<le> last_value () m" using inv by (simp add: wm_inv_def)
    ultimately show ?thesis by (intro Max_eqI [symmetric]) auto
  qed
  then show ?thesis using r by blast
qed

lemma wm_one_run:
  "\<exists>v m. thread_reach (wm_step Release Relaxed) (wm_threads [5]) fresh_memory (Some ([(Done 5, v)], m))"
proof -
  have l: "wm_step Release Relaxed (Load 5, \<lambda>_. 0) fresh_memory (Some ((Loop 5 0, \<lambda>_. 0), fresh_memory))"
    using wm_step.wm_load [of Relaxed 0 "\<lambda>_. 0" fresh_memory Release 5]
    by (simp add: readable_def floor_of_def value_at_def load_view_def sc_out_def fresh_memory_def fun_upd_idem)
  obtain old v m where e: "exchange Release () 5 (\<lambda>_. 0) fresh_memory = (old, v, m)" by (metis prod_cases3)
  have "old = 0" using exchange_facts(1) [OF e] by (simp add: last_value_def fresh_memory_def)
  then have x: "wm_step Release Relaxed (Loop 5 0, \<lambda>_. 0) fresh_memory (Some ((Done 5, v), m))"
    using wm_step.wm_exchange [of 0 5 Release "\<lambda>_. 0" fresh_memory v m] e by simp
  have "thread_reach (wm_step Release Relaxed) (wm_threads [5]) fresh_memory (Some ([(Load 5, \<lambda>_. 0)], fresh_memory))"
    using thread_reach.start [of "wm_step Release Relaxed" "wm_threads [5]" fresh_memory] by (simp add: wm_threads_def)
  from reach_move [OF this l, of 0]
  have "thread_reach (wm_step Release Relaxed) (wm_threads [5]) fresh_memory (Some ([(Loop 5 0, \<lambda>_. 0)], fresh_memory))"
    by simp
  from reach_move [OF this x, of 0] show ?thesis by auto
qed

theorem weak_max_final_witness:
  "\<exists>v m. thread_reach (wm_step Release Relaxed) (wm_threads [5]) fresh_memory (Some ([(Done 5, v)], m)) \<and>
     last_value () m = Max {0, 5}"
proof -
  obtain v m where r: "thread_reach (wm_step Release Relaxed) (wm_threads [5]) fresh_memory (Some ([(Done 5, v)], m))"
    using wm_one_run by blast
  then have "last_value () m = Max {0, 5}" using weak_max_final [OF r] by simp
  then show ?thesis using r by blast
qed

end
