(* ===== verification/Spec2Isabelle.thy ===== *)
theory Spec2Isabelle
  imports Two_Pointers LED_Controller Virtual_Memory Matching_Engine Command_Editor Memento_History Ring_Buffer Binary_Search_Answer Union_Find Hash_Map Linked_List LRU_Cache Order_Book Scheduler Merge_Sort Longest_Common_Subsequence Knapsack Monotonic_Stack Sliding_Window Segment_Tree KMP Trie Topological_Sort Dijkstra N_Queens Bit_Manipulation SPSC_Queue Memory_Pool Solid_Principles Thread_Safe_Queue Bounded_Buffer Market_Data Atomics Memory_Model Mutex_Condvar Observer Mediator Modern_Observer Sort_Strategy Structural_Patterns Error_Handling Behavioral_Patterns Custom_Allocator Rule_Of_Five Thread_Pool Constexpr_Functions Modern_Types Creational_Patterns Money_Decorators Software_Design Smart_Pointers Raii Vector_Growth Value_Types Ranges_Lambdas Forwarding_Elision Generic_Functions Threads_Basics Socket_Servers Simd_Layout Erased_Shapes Crtp_Mixins Mapped_Region Signal_Loop Joined_Threads Weak_Memory Weak_Atomics
begin

text \<open>
  AModernCppPlayground is a collection of self-contained C++20 demonstrations: every file under
  src/src/ is a program of its own, a data structure, an algorithm, a systems component or a design
  pattern with a main that exercises it. There is no shared header, so the components of this
  library are those files, and what they share (checked arithmetic, vectors, linked nodes, publish
  and subscribe, interleaved threads) is factored here and not in the code. Within one demonstration
  the parts do interact, and they are composed as there: a matching engine over two books, a cache
  over a list and a map, services over a bus, threads over a queue.

  Failure. A value of type 'a ub is an option: None is undefined behaviour (signed overflow, an
  access out of range, a null or freed pointer, a shift too far), an assertion of the code that
  fails, an exception that nothing catches or a loop that does not return. So a theorem that an
  operation returns Some also says that none of these happens. Exceptions that the code does catch
  or report are values (Error_Handling). int and the other signed types are integers that chk
  checks at each operation, unsigned types are words or integers with the wrap-around written out,
  a double is a rational or an integer where the demonstration uses nothing else, so rounding is not
  modelled, except in Money_Decorators, where cents are what the rounding decides. Each main is a definition as well: its assertions are guards, it returns what it prints
  (headings and the closing explanations left out), and a lemma evaluates it.

  The theories and what their lemmas show:

  Prelude holds checked arithmetic, vectors and tables, decimal printing and the lemmas on them;
  DLL_Heap the heap of doubly linked nodes; Price_Levels the std::map of order lists; Event_Bus and
  Interleaving the locales of publish/subscribe and of interleaved threads.

  src/src/stl_like: Hash_Map (hash_map.cpp) refines a map; Linked_List (doubly_linked_list.cpp) and
  LRU_Cache (lru_cache.cpp) refine a list and a reference cache through the heap of nodes;
  Memory_Pool (memory_pool.cpp) refines the set of live objects.

  src/src/dsa: Two_Pointers, Binary_Search_Answer,
  Union_Find, Merge_Sort, Longest_Common_Subsequence, Knapsack, Monotonic_Stack, Sliding_Window,
  Segment_Tree, KMP, Trie, Topological_Sort, Dijkstra, N_Queens and Bit_Manipulation, one theory per
  file: each result is the one a specification names (the shortest distance, an optimal selection,
  every placement once), the indices stay in range and the loops end.

  src/src/systems: Virtual_Memory (the page table and its TLB refine the walk of the table),
  Scheduler (the schedulers complete every process), LED_Controller (the table-driven state machine
  keeps the hardware in its state), Order_Book, Matching_Engine (the price levels refine
  two queues in price-time priority, quantities are conserved, the book never stays crossed), Market_Data (bars and moving average), Signal_Loop
  (linux/signal_handling.cpp: the handlers run between any two steps of the loop), Mapped_Region
  (linux/mmap_shared_memory.cpp, with what the process holds at the end),
  Socket_Servers (networking, with the results of the system calls as parameters) and Simd_Layout
  (hpc_gpu/simd_vectorization.cpp, for any arithmetic of float).

  src/src/concurrency and the lock-free queue: SPSC_Queue, Thread_Safe_Queue, Bounded_Buffer,
  Atomics, Memory_Model, Mutex_Condvar, Joined_Threads (the main functions of these three),
  Thread_Pool and Threads_Basics. A thread is a program counter with its locals; a step is
  one access of an atomic variable, or what a thread does while it holds a mutex. The properties hold
  in every reachable state of every interleaving: first in first out, mutual exclusion, conservation,
  and that a system in which nobody can move has finished. There accesses are
  sequentially consistent. Weak_Memory and Weak_Atomics take the memory orders as parameters, over histories of
  messages and views of threads, and show which orders message passing, Dekker's pattern, the spinlock
  and the maximum need: those of the code.

  src/src/patterns: Command_Editor, Memento_History, Ring_Buffer (iterator.cpp), Observer, Mediator
  and Modern_Observer (three interpretations of Event_Bus), Sort_Strategy, Structural_Patterns
  (decorator, proxy, flyweight, composite, adapter, facade), Behavioral_Patterns (visitor, chain of
  responsibility, state, template method), Creational_Patterns (builder, factory, abstract factory,
  singleton), Money_Decorators (compile_time_decorator.cpp, with the rounding of doubles),
  Software_Design (the value-semantics variants of software_design) and Erased_Shapes (type-erased shapes on the
  heap and in a buffer, two interpretations of value_like). src/src/solid: Solid_Principles.
  src/src/modern_cpp: Error_Handling (practical/error_handling.cpp), Custom_Allocator
  (custom_allocator.cpp), Rule_Of_Five (rule_of_five.cpp, buffers over a heap of arrays refine values),
  Constexpr_Functions (practical/compile_time_programming.cpp, constexpr_consteval.cpp), Modern_Types
  (optional_variant_any.cpp, practical/type_traits_concepts.cpp), Crtp_Mixins (crtp.cpp), Smart_Pointers
  (smart_pointers.cpp, the use counts are the numbers of owners), Raii (raii.cpp and
  practical/raii_patterns.cpp, the locale resource of a class that gives back what it acquires),
  Vector_Growth (noexcept.cpp, the amortised cost of a growing vector), Forwarding_Elision
  (perfect_forwarding.cpp over Vector_Growth, copy_elision.cpp), Value_Types (practical/value_semantics.cpp,
  move_semantics.cpp), Ranges_Lambdas (ranges.cpp, lazy views against eager functions; lambdas.cpp),
  Generic_Functions (templates_sfinae.cpp, concepts.cpp, structured_bindings.cpp).

  Correspondence. A struct or class is a record with its members, a class hierarchy or an enum a
  datatype with the source's names, a lambda a constructor with the function that runs it, a pointer
  an index or an address into an explicit store where identity matters. Console lines are lists of
  strings where a claim or a main depends on them.

  Bounds and fuel. Loops are structural or have a measure; a loop whose end depends on the data (a
  chain of pointers, a work list, a search) is a partial function whose return is proved. The only fuel is the
  depth of nested publications in Mediator: the three services publish at most one level deeper than
  the call, and main's fuel covers it. Sizes are bounded by the int range as hypotheses where the
  code indexes by int.

  What the library, the compiler, the system or the network decides is a parameter: how a vector grows,
  what a moved-from string holds, which moves are elided, what the clock reads, what a system call returns and how
  many bytes it takes, whether the bytes of an object may be moved.

  Not modelled: destructors that only release memory, the calls that only configure the system
  (setsockopt, fcntl, msync), the time that measurements take, weak memory orders outside Weak_Memory and Weak_Atomics, rounding of doubles (but for Money_Decorators), the placement of objects in
  bytes, and the explanations that the demonstrations print.
\<close>

end
